(* ===== verification/Prelude.thy ===== *)
theory Prelude
  imports Main "HOL-Library.Word" "HOL-Library.AList"
begin

text \<open>
  What every component of the development shares: the machine integer types of the C++ code,
  the exception classes it throws, results of operations that may throw, the interface of a
  state machine with an invariant, and generic lemmas on lists, association lists and words.

  An operation of a class is a function from its arguments and the object's state to a pair
  of an outcome (\<open>Inl\<close> the exception, \<open>Inr\<close> the returned value) and the state afterwards.
  \<open>Undefined_access\<close> is not an exception of the code: it marks an access outside of an array, which
  C++ leaves undefined.
  The state is returned with an exception too, because a C++ object keeps whatever was
  assigned before the \<open>throw\<close>.
\<close>

subsection \<open>Machine integers and exceptions\<close>

type_synonym u8 = "8 word"
type_synonym u16 = "16 word"
type_synonym u32 = "32 word"
type_synonym u64 = "64 word"

datatype exn =
    Invalid_argument
  | Out_of_range
  | Runtime_error
  | Logic_error
  | Overflow_error
  | Diskann_exception
  | Undefined_access

type_synonym ('s, 'a) outcome = "(exn + 'a) \<times> 's"

definition returned :: "('s, 'a) outcome \<Rightarrow> bool" where
  "returned r \<longleftrightarrow> (case fst r of Inl _ \<Rightarrow> False | Inr _ \<Rightarrow> True)"

lemma returned_simps [simp]:
  "returned (Inr a, s)" "\<not> returned (Inl e, s)"
  by (simp_all add: returned_def)

named_theorems state_defs \<open>definitions that unfold one step of a component\<close>
named_theorems inv_intros \<open>facts that operations keep an invariant\<close>

subsection \<open>State machines with an invariant\<close>

text \<open>
  The interface of every component whose operations keep an invariant: a start state
  satisfies it and each step keeps it, so every state a run reaches satisfies it.
\<close>

locale invariant_system =
  fixes start :: "'s \<Rightarrow> bool"
    and step :: "'s \<Rightarrow> 's \<Rightarrow> bool"
    and invar :: "'s \<Rightarrow> bool"
  assumes start_invar: "start s \<Longrightarrow> invar s"
    and step_invar: "invar s \<Longrightarrow> step s t \<Longrightarrow> invar t"
begin

lemma steps_invar: "step\<^sup>*\<^sup>* s t \<Longrightarrow> invar s \<Longrightarrow> invar t"
  by (induction rule: rtranclp_induct) (auto intro: step_invar)

lemma reachable_invar: "start s \<Longrightarrow> step\<^sup>*\<^sup>* s t \<Longrightarrow> invar t"
  by (blast intro: steps_invar start_invar)

lemma steps_mono:
  assumes mono: "\<And>s t. invar s \<Longrightarrow> step s t \<Longrightarrow> (f s :: nat) \<le> f t"
  shows "step\<^sup>*\<^sup>* s t \<Longrightarrow> invar s \<Longrightarrow> f s \<le> f t"
proof (induction rule: rtranclp_induct)
  case base
  show ?case by simp
next
  case (step t u)
  from step.hyps(1) step.prems have "invar t" by (rule steps_invar)
  with step mono show ?case by (meson order_trans)
qed

end

subsection \<open>Lists\<close>

lemma nth_list_update_if:
  "i < length xs \<Longrightarrow> xs[j := x] ! i = (if i = j then x else xs ! i)"
  by (simp add: nth_list_update)

lemma distinct_butlast_last:
  "xs \<noteq> [] \<Longrightarrow> distinct xs \<Longrightarrow> last xs \<notin> set (butlast xs)"
  by (metis append_butlast_last_id distinct_append disjoint_iff list.set_intros(1))

lemma set_butlast_distinct:
  "xs \<noteq> [] \<Longrightarrow> distinct xs \<Longrightarrow> set (butlast xs) = set xs - {last xs}"
proof -
  assume ne: "xs \<noteq> []" and d: "distinct xs"
  have "set xs = set (butlast xs) \<union> {last xs}"
    by (metis ne append_butlast_last_id set_append empty_set list.simps(15))
  with distinct_butlast_last [OF ne d] show ?thesis by auto
qed

lemma sorted_wrt_less_imp_distinct:
  "sorted_wrt (<) (xs :: 'a::order list) \<Longrightarrow> distinct xs"
  by (induction xs) auto

lemma strict_sorted_remdups_sort:
  "sorted_wrt (<) (remdups (sort (xs :: 'a::linorder list)))"
  by (simp add: strict_sorted_iff sorted_remdups)

subsection \<open>Association lists: the iteration order of an \<open>unordered_map\<close> made explicit\<close>

abbreviation keys :: "('k \<times> 'v) list \<Rightarrow> 'k list" where
  "keys al \<equiv> map fst al"

lemma map_of_update [simp]: "map_of (AList.update k v al) = (map_of al)(k \<mapsto> v)"
  by (rule update_conv')

lemma map_of_delete [simp]: "map_of (AList.delete k al) = (map_of al)(k := None)"
  by (rule delete_conv')

lemma map_of_eq_None_keys: "map_of al k = None \<longleftrightarrow> k \<notin> set (keys al)"
  by (simp add: map_of_eq_None_iff)

lemma delete_notin: "k \<notin> set (keys al) \<Longrightarrow> AList.delete k al = al"
  by (induction al) auto

lemma set_delete_distinct:
  "distinct (keys al) \<Longrightarrow> set (AList.delete k al) = {e \<in> set al. fst e \<noteq> k}"
  by (auto simp: AList.delete_eq)

end
