(* ===== verification/Bytes.thy ===== *)
theory Bytes
  imports Prelude
begin

unbundle bit_operations_syntax

text \<open>
  The byte-level helpers that several files repeat: little-endian writing
  (\<open>append_u32_le\<close>, \<open>append_u64_le\<close> of src/index/polar.cc, \<open>append_little\<close> of
  src/index/io_optimized_index.cc and src/index/adaptive_cell_runtime.cc), bounds-checked
  reading through a cursor (\<open>read_u32_le\<close>, \<open>read_u64_le\<close>, \<open>read_little\<close>) and the FNV-1a
  checksum (\<open>hash_bytes\<close>).  The locale \<open>field_codec\<close> is the interface that the file
  formats rely on: what is appended is what the reader returns, with the cursor moved past it.
\<close>

subsection \<open>Little-endian bytes of a word\<close>

text \<open>
  \<open>for (shift = 0; shift < 8 * n; shift += 8) push_back((value >> shift) & 0xFF)\<close> and the
  matching loop \<open>value |= byte << shift\<close>.
\<close>

definition le_bytes :: "nat \<Rightarrow> 'a::len word \<Rightarrow> u8 list" where
  "le_bytes n value = map (\<lambda>k. ucast (drop_bit (8 * k) value AND 0xFF)) [0..<n]"

definition le_value :: "u8 list \<Rightarrow> 'a::len word" where
  "le_value bytes = foldl (\<lambda>value k. value OR push_bit (8 * k) (ucast (bytes ! k))) 0
     [0..<length bytes]"

lemma length_le_bytes [simp]: "length (le_bytes n v) = n"
  by (simp add: le_bytes_def)

lemma bit_le_bytes:
  assumes "k < n"
  shows "bit (le_bytes n (v :: 'a::len word) ! k) i \<longleftrightarrow> i < 8 \<and> bit v (8 * k + i)"
proof -
  have mask: "(0xFF :: 'a word) = mask 8" by (simp add: mask_eq_exp_minus_1)
  have "le_bytes n v ! k = ucast (drop_bit (8 * k) v AND mask 8)"
    using assms by (simp add: le_bytes_def mask)
  moreover have "bit v (8 * k + i) \<Longrightarrow> i < LENGTH('a)"
    using bit_imp_le_length by fastforce
  ultimately show ?thesis
    by (auto simp: bit_ucast_iff bit_and_iff bit_mask_iff bit_drop_bit_eq)
qed

lemma bit_foldl_or:
  "bit (foldl (\<lambda>v k. v OR f k) a ks) i \<longleftrightarrow> bit (a :: 'a::len word) i \<or> (\<exists>k \<in> set ks. bit (f k) i)"
  by (induction ks arbitrary: a) (auto simp: bit_or_iff)

lemma bit_le_value:
  "bit (le_value bs :: 'a::len word) i \<longleftrightarrow>
     i < LENGTH('a) \<and> i < 8 * length bs \<and> bit (bs ! (i div 8)) (i mod 8)"
proof -
  have "(\<exists>k < length bs. 8 * k \<le> i \<and> bit (bs ! k) (i - 8 * k)) \<longleftrightarrow>
      i < 8 * length bs \<and> bit (bs ! (i div 8)) (i mod 8)" (is "?L \<longleftrightarrow> ?R")
  proof
    assume ?L
    then obtain k where k: "k < length bs" "8 * k \<le> i" "bit (bs ! k) (i - 8 * k)" by blast
    from k(3) have "i - 8 * k < 8" by (auto dest: bit_imp_le_length)
    then obtain r where r: "r < 8" "i = 8 * k + r" using k(2) by (metis le_add_diff_inverse)
    then have "i div 8 = k" "i mod 8 = i - 8 * k" by simp_all
    with k show ?R by auto
  next
    assume ?R
    moreover have "i - 8 * (i div 8) = i mod 8" by (simp add: minus_mult_div_eq_mod)
    ultimately show ?L by (intro exI [of _ "i div 8"]) auto
  qed
  then show ?thesis
    by (auto simp: le_value_def bit_foldl_or bit_simps)
qed

lemma le_value_le_bytes:
  assumes "LENGTH('a) \<le> 8 * n"
  shows "le_value (le_bytes n (v :: 'a::len word)) = v"
proof (rule bit_word_eqI)
  fix i assume i: "i < LENGTH('a)"
  with assms have "i div 8 < n" by linarith
  moreover have "8 * (i div 8) + i mod 8 = i" by simp
  ultimately show "bit (le_value (le_bytes n v) :: 'a word) i = bit v i"
    using i assms by (simp add: bit_le_value bit_le_bytes)
qed

lemma le_bytes_inj:
  assumes "LENGTH('a) \<le> 8 * n" "le_bytes n (v :: 'a::len word) = le_bytes n w"
  shows "v = w"
  using assms le_value_le_bytes by metis

subsection \<open>Reading through a cursor\<close>

definition bindE :: "'e + 'a \<Rightarrow> ('a \<Rightarrow> 'e + 'b) \<Rightarrow> 'e + 'b" where
  "bindE m f = (case m of Inl e \<Rightarrow> Inl e | Inr a \<Rightarrow> f a)"

lemma bindE_simps [simp]:
  "bindE (Inl e) f = Inl e" "bindE (Inr a) f = f a"
  by (simp_all add: bindE_def)

lemma bindE_eq_Inr: "bindE m f = Inr b \<longleftrightarrow> (\<exists>a. m = Inr a \<and> f a = Inr b)"
  by (cases m) auto

lemma bindE_cong:
  "m = m' \<Longrightarrow> (\<And>a. m' = Inr a \<Longrightarrow> f a = f' a) \<Longrightarrow> bindE m f = bindE m' f'"
  by (cases m') auto

text \<open>A loop that may throw.\<close>

fun foldE :: "('a \<Rightarrow> 's \<Rightarrow> 'e + 's) \<Rightarrow> 'a list \<Rightarrow> 's \<Rightarrow> 'e + 's" where
  "foldE f [] s = Inr s"
| "foldE f (x # xs) s = bindE (f x s) (foldE f xs)"

lemma foldE_append: "foldE f (xs @ ys) s = bindE (foldE f xs s) (foldE f ys)"
  by (induction xs arbitrary: s) (auto simp: bindE_def split: sum.splits)

lemma foldE_invariant:
  assumes "foldE f xs s = Inr t" "P 0 s" "\<And>k s t. k < length xs \<Longrightarrow> P k s \<Longrightarrow> f (xs ! k) s = Inr t \<Longrightarrow> P (Suc k) t"
  shows "P (length xs) t"
  using assms
proof (induction xs arbitrary: s P)
  case (Cons x xs)
  from Cons.prems(1) obtain u where u: "f x s = Inr u" "foldE f xs u = Inr t" by (auto simp: bindE_eq_Inr)
  have "P (Suc 0) u" using Cons.prems(2) Cons.prems(3) [of 0 s u] u(1) by simp
  moreover have "P (Suc (Suc k)) t" if "k < length xs" "P (Suc k) s" "f (xs ! k) s = Inr t" for k s t
    using Cons.prems(3) [of "Suc k" s t] that by simp
  ultimately have "P (Suc (length xs)) t" using Cons.IH [of u "\<lambda>k. P (Suc k)"] u(2) by blast
  then show ?case by simp
qed simp

definition read_little :: "nat \<Rightarrow> u8 list \<Rightarrow> nat \<Rightarrow> exn + ('a::len word \<times> nat)" where
  "read_little n input cursor =
     (if cursor > length input \<or> length input - cursor < n then Inl Runtime_error
      else Inr (le_value (take n (drop cursor input)), cursor + n))"

text \<open>A loop that reads \<open>k\<close> consecutive values with one reader.\<close>

fun read_many :: "(u8 list \<Rightarrow> nat \<Rightarrow> exn + ('a \<times> nat)) \<Rightarrow> nat \<Rightarrow> u8 list \<Rightarrow> nat
    \<Rightarrow> exn + ('a list \<times> nat)" where
  "read_many dec 0 input cursor = Inr ([], cursor)"
| "read_many dec (Suc k) input cursor =
     bindE (dec input cursor) (\<lambda>(v, c).
       bindE (read_many dec k input c) (\<lambda>(vs, c'). Inr (v # vs, c')))"

lemma read_little_advances:
  "read_little n bs c = Inr (v, c') \<Longrightarrow> c' = c + n \<and> c' \<le> length bs"
  by (auto simp: read_little_def split: if_splits)

lemma read_little_truncated:
  "length bs < c + n \<Longrightarrow> read_little n bs c = Inl Runtime_error"
  by (auto simp: read_little_def)

locale field_codec =
  fixes enc :: "'a \<Rightarrow> u8 list"
    and dec :: "u8 list \<Rightarrow> nat \<Rightarrow> exn + ('a \<times> nat)"
  assumes dec_enc:
    "c \<le> length bs \<Longrightarrow> drop c bs = enc v @ rest \<Longrightarrow> dec bs c = Inr (v, c + length (enc v))"
begin

lemma dec_enc_append:
  "dec (pre @ enc v @ rest) (length pre) = Inr (v, length pre + length (enc v))"
  by (rule dec_enc) simp_all

lemma read_many_enc:
  "c \<le> length bs \<Longrightarrow> drop c bs = concat (map enc vs) @ rest \<Longrightarrow>
   read_many dec (length vs) bs c = Inr (vs, c + length (concat (map enc vs)))"
proof (induction vs arbitrary: c)
  case Nil
  then show ?case by simp
next
  case (Cons v vs)
  let ?c = "c + length (enc v)"
  from Cons.prems have d: "drop c bs = enc v @ (concat (map enc vs) @ rest)" by simp
  have "length (drop c bs) = length (enc v) + length (concat (map enc vs) @ rest)"
    by (simp only: d length_append)
  with Cons.prems(1) have len: "?c \<le> length bs" by simp
  have "drop ?c bs = drop (length (enc v)) (drop c bs)" by (simp add: add.commute)
  also have "\<dots> = concat (map enc vs) @ rest" by (simp add: d)
  finally have "read_many dec (length vs) bs ?c = Inr (vs, ?c + length (concat (map enc vs)))"
    by (rule Cons.IH [OF len])
  with dec_enc [OF Cons.prems(1) d] show ?case by simp
qed

end

lemma read_little_dec_enc:
  assumes "LENGTH('a) \<le> 8 * n" "c \<le> length bs" "drop c bs = le_bytes n (v :: 'a::len word) @ rest"
  shows "read_little n bs c = Inr (v, c + n)"
proof -
  have "length (drop c bs) = n + length rest" by (simp only: assms(3) length_append length_le_bytes)
  then have "n \<le> length bs - c" by simp
  moreover have "take n (drop c bs) = le_bytes n v" by (simp add: assms(3))
  ultimately show ?thesis using assms(1,2) by (simp add: read_little_def le_value_le_bytes)
qed

interpretation u32_codec: field_codec "le_bytes 4 :: u32 \<Rightarrow> u8 list" "read_little 4"
  by unfold_locales (simp add: read_little_dec_enc)

interpretation u64_codec: field_codec "le_bytes 8 :: u64 \<Rightarrow> u8 list" "read_little 8"
  by unfold_locales (simp add: read_little_dec_enc)

subsection \<open>FNV-1a\<close>

definition k_fnv_offset_basis :: u64 where
  "k_fnv_offset_basis = 14695981039346656037"

definition k_fnv_prime :: u64 where
  "k_fnv_prime = 1099511628211"

definition hash_bytes :: "u64 \<Rightarrow> u8 list \<Rightarrow> u64" where
  "hash_bytes checksum data =
     foldl (\<lambda>checksum byte. (checksum XOR ucast byte) * k_fnv_prime) checksum data"

definition checksum_bytes :: "u8 list \<Rightarrow> u64" where
  "checksum_bytes bytes = hash_bytes k_fnv_offset_basis bytes"

lemma hash_bytes_Nil [simp]: "hash_bytes h [] = h"
  by (simp add: hash_bytes_def)

lemma hash_bytes_Cons [simp]:
  "hash_bytes h (b # bs) = hash_bytes ((h XOR ucast b) * k_fnv_prime) bs"
  by (simp add: hash_bytes_def)

lemma hash_bytes_append: "hash_bytes h (xs @ ys) = hash_bytes (hash_bytes h xs) ys"
  by (simp add: hash_bytes_def)

lemma k_fnv_prime_invertible: "k_fnv_prime * 14886173955864302971 = 1"
  by (simp add: k_fnv_prime_def)

lemma fnv_mult_inj:
  assumes "x * k_fnv_prime = y * k_fnv_prime"
  shows "x = y"
proof -
  have "z = z * k_fnv_prime * 14886173955864302971" for z :: u64
    using k_fnv_prime_invertible by (simp add: mult.assoc)
  with assms show ?thesis by metis
qed

lemma xor_cancel: "x XOR z = y XOR z \<Longrightarrow> x = (y :: 'a::len word)"
  by (metis xor.assoc xor.right_neutral xor_self_eq)

lemma hash_bytes_inj_state: "hash_bytes g bs = hash_bytes h bs \<Longrightarrow> g = h"
proof (induction bs arbitrary: g h)
  case (Cons b bs)
  then have "(g XOR ucast b) * k_fnv_prime = (h XOR ucast b) * k_fnv_prime" by fastforce
  then show ?case by (blast dest: fnv_mult_inj xor_cancel)
qed simp

text \<open>Any corruption confined to one byte changes the checksum, whatever the payload.\<close>

lemma hash_bytes_one_byte:
  assumes "b \<noteq> b'"
  shows "hash_bytes h (pre @ b # post) \<noteq> hash_bytes h (pre @ b' # post)"
proof
  let ?g = "hash_bytes h pre"
  assume "hash_bytes h (pre @ b # post) = hash_bytes h (pre @ b' # post)"
  then have "(?g XOR ucast b) * k_fnv_prime = (?g XOR ucast b') * k_fnv_prime"
    by (auto simp: hash_bytes_append dest: hash_bytes_inj_state)
  then have "ucast b XOR ?g = ucast b' XOR ?g"
    by (auto simp: xor.commute dest: fnv_mult_inj)
  then have "(ucast b :: u64) = ucast b'" by (rule xor_cancel)
  moreover have "ucast (ucast x :: u64) = x" for x :: u8
    by (simp add: ucast_up_ucast_id is_up)
  ultimately have "b = b'" by metis
  with assms show False by simp
qed

end
