(* ===== verification/Allocator.thy ===== *)
theory Allocator
  imports Prelude
begin

text \<open>
  The contract of a slot allocator, shared by the chunk files of the disk manager
  (src/disk_manager.cc) and the frames of a buffer-pool level (src/chunk_buf_pool.cc):
  an allocation that returns an identifier returns one that is not live and makes it live, an
  allocation that fails ends no life, a release ends exactly that identifier's life.  What a client derives from the contract is proved once.
\<close>

fun allocate_many :: "('s \<Rightarrow> 'i option \<times> 's) \<Rightarrow> nat \<Rightarrow> 's \<Rightarrow> 'i list \<times> 's" where
  "allocate_many alloc 0 s = ([], s)"
| "allocate_many alloc (Suc n) s =
     (case alloc s of
        (None, t) \<Rightarrow> ([], t)
      | (Some i, t) \<Rightarrow> (case allocate_many alloc n t of (is, u) \<Rightarrow> (i # is, u)))"

locale slot_allocator =
  fixes alloc :: "'s \<Rightarrow> 'i option \<times> 's"
    and release :: "'i \<Rightarrow> 's \<Rightarrow> 's"
    and live :: "'s \<Rightarrow> 'i set"
    and good :: "'s \<Rightarrow> bool"
  assumes alloc_fresh: "good s \<Longrightarrow> alloc s = (Some i, t) \<Longrightarrow> i \<notin> live s"
    and alloc_live: "good s \<Longrightarrow> alloc s = (Some i, t) \<Longrightarrow> live t = insert i (live s)"
    and alloc_none: "good s \<Longrightarrow> alloc s = (None, t) \<Longrightarrow> live s \<subseteq> live t"
    and alloc_good: "good s \<Longrightarrow> alloc s = (r, t) \<Longrightarrow> good t"
    and release_live: "good s \<Longrightarrow> i \<in> live s \<Longrightarrow> live (release i s) = live s - {i}"
    and release_good: "good s \<Longrightarrow> i \<in> live s \<Longrightarrow> good (release i s)"
begin

lemma allocate_many_spec:
  "good s \<Longrightarrow> allocate_many alloc n s = (is, t) \<Longrightarrow>
     distinct is \<and> set is \<inter> live s = {} \<and> set is \<union> live s \<subseteq> live t \<and> good t
     \<and> (length is = n \<longrightarrow> live t = set is \<union> live s)"
proof (induction n arbitrary: s "is" t)
  case 0
  then show ?case by simp
next
  case (Suc n)
  obtain r u where a: "alloc s = (r, u)" by (cases "alloc s")
  have u: "good u" using Suc.prems(1) a by (rule alloc_good)
  show ?case
  proof (cases r)
    case None
    with a alloc_none [OF Suc.prems(1)] u Suc.prems(2) show ?thesis by auto
  next
    case (Some i)
    obtain js v where b: "allocate_many alloc n u = (js, v)"
      by (cases "allocate_many alloc n u")
    from Suc.IH [OF u b] alloc_fresh [OF Suc.prems(1)] alloc_live [OF Suc.prems(1)] a Some
    have "i \<notin> live s" "live u = insert i (live s)"
      and "distinct js" "set js \<inter> live u = {}" "set js \<union> live u \<subseteq> live v" "good v"
      and "length js = n \<longrightarrow> live v = set js \<union> live u" by auto
    with Suc.prems(2) a b Some show ?thesis by auto
  qed
qed

lemma alloc_release_live:
  "good s \<Longrightarrow> alloc s = (Some i, t) \<Longrightarrow> live (release i t) = live s"
  using alloc_fresh alloc_live alloc_good release_live by (metis Diff_insert_absorb insertI1)

lemma release_not_live:
  "good s \<Longrightarrow> i \<in> live s \<Longrightarrow> i \<notin> live (release i s)"
  by (simp add: release_live)

end

end
