(* ===== verification/Disk_Manager.thy ===== *)
theory Disk_Manager
  imports Allocator Bytes
begin

unbundle bit_operations_syntax

text \<open>
  \<open>disk_manager_t\<close> (include/storage/disk_manager.h, include/storage/storage_types.h,
  src/disk_manager.cc): four files of fixed-size chunks under one prefix, a metadata file with
  the allocation counters and the lists of reusable chunk numbers.

  A file is its content, a list of bytes.  What the operating system decides is an argument of
  the operation: whether space could be reserved, how many bytes a failing write transferred,
  how a read was split.  Array members indexed by chunk type are functions of the type.
\<close>

subsection \<open>Chunk types, identifiers and addresses\<close>

datatype chunk_type_t = Chunk_4kb | Chunk_64kb | Chunk_512kb | Chunk_2mb

definition chunk_types :: "chunk_type_t list" where
  "chunk_types = [Chunk_4kb, Chunk_64kb, Chunk_512kb, Chunk_2mb]"

fun chunk_index :: "chunk_type_t \<Rightarrow> nat" where
  "chunk_index Chunk_4kb = 0"
| "chunk_index Chunk_64kb = 1"
| "chunk_index Chunk_512kb = 2"
| "chunk_index Chunk_2mb = 3"

fun chunk_size :: "chunk_type_t \<Rightarrow> u32" where
  "chunk_size Chunk_4kb = 4 * 1024"
| "chunk_size Chunk_64kb = 64 * 1024"
| "chunk_size Chunk_512kb = 512 * 1024"
| "chunk_size Chunk_2mb = 2 * 1024 * 1024"

definition k_chunk_levels :: nat where
  "k_chunk_levels = 4"

definition k_chunk_no_bits :: nat where
  "k_chunk_no_bits = 62"

definition k_chunk_no_mask :: u64 where
  "k_chunk_no_mask = push_bit k_chunk_no_bits 1 - 1"

definition make_chunk_id :: "chunk_type_t \<Rightarrow> u64 \<Rightarrow> exn + u64" where
  "make_chunk_id type chunk_no =
     (if chunk_no AND NOT k_chunk_no_mask \<noteq> 0 then Inl Out_of_range
      else Inr (push_bit k_chunk_no_bits (of_nat (chunk_index type)) OR chunk_no))"

definition chunk_type :: "u64 \<Rightarrow> exn + chunk_type_t" where
  "chunk_type chunk_id =
     (let index = (ucast (drop_bit k_chunk_no_bits chunk_id) :: u8)
      in if unat index \<ge> k_chunk_levels then Inl Out_of_range
         else Inr (chunk_types ! unat index))"

definition chunk_no :: "u64 \<Rightarrow> u64" where
  "chunk_no chunk_id = chunk_id AND k_chunk_no_mask"

record page_addr_t =
  pa_type :: chunk_type_t
  pa_chunk_no :: u64
  pa_offset :: u64
  pa_size :: u32

definition decode_chunk_id :: "u64 \<Rightarrow> exn + page_addr_t" where
  "decode_chunk_id chunk_id =
     bindE (chunk_type chunk_id) (\<lambda>type.
       let no = chunk_no chunk_id; size = chunk_size type
       in if no > (- 1) div ucast size then Inl Overflow_error
          else Inr \<lparr>pa_type = type, pa_chunk_no = no, pa_offset = no * ucast size,
                    pa_size = size\<rparr>)"

lemma k_chunk_no_mask_eq: "k_chunk_no_mask = mask 62"
  by (simp add: k_chunk_no_mask_def k_chunk_no_bits_def mask_eq_exp_minus_1)

lemma chunk_index_less: "chunk_index t < 4"
  by (cases t) simp_all

lemma chunk_types_index [simp]: "chunk_types ! chunk_index t = t"
  by (cases t) (simp_all add: chunk_types_def)

lemma and_not_eq_0_iff: "(n AND NOT m = 0) \<longleftrightarrow> n AND m = (n :: 'a::len word)"
proof
  assume "n AND NOT m = 0"
  then have "n = (n AND m) OR 0"
    by (metis and.right_neutral bit.disj_cancel_right bit.conj_disj_distrib)
  then show "n AND m = n" by simp
next
  assume "n AND m = n"
  then have "n AND NOT m = n AND (m AND NOT m)" by (metis and.assoc)
  then show "n AND NOT m = 0" by simp
qed

lemma chunk_no_bounded: "n AND NOT k_chunk_no_mask = 0 \<longleftrightarrow> unat n < 2 ^ 62"
proof -
  have "unat n < 2 ^ 62 \<longleftrightarrow> uint n < 2 ^ 62"
    by (simp only: unat_eq_nat_uint nat_less_numeral_power_cancel_iff)
  then show ?thesis by (simp add: and_not_eq_0_iff k_chunk_no_mask_eq mask_eq_iff)
qed

lemma make_chunk_id_eq:
  "make_chunk_id t n =
     (if unat n < 2 ^ 62 then Inr (push_bit 62 (of_nat (chunk_index t)) OR n) else Inl Out_of_range)"
  by (simp add: make_chunk_id_def chunk_no_bounded k_chunk_no_bits_def)

lemma bounded_bits:
  assumes "unat (n :: u64) < 2 ^ 62" "bit n i"
  shows "i < 62"
proof -
  from assms(1) have "n = n AND mask 62"
    using chunk_no_bounded and_not_eq_0_iff k_chunk_no_mask_eq by metis
  with assms(2) have "bit (mask 62 :: u64) i" by (metis bit_and_iff)
  then show ?thesis by (simp add: bit_mask_iff)
qed

lemma chunk_no_make: "make_chunk_id t n = Inr i \<Longrightarrow> chunk_no i = n"
proof -
  assume "make_chunk_id t n = Inr i"
  then have n: "unat n < 2 ^ 62" and i: "i = push_bit 62 (of_nat (chunk_index t)) OR n"
    by (auto simp: make_chunk_id_eq split: if_splits)
  show ?thesis
  proof (rule bit_word_eqI)
    fix j assume "j < LENGTH(64)"
    then show "bit (chunk_no i) j = bit n j"
      using bounded_bits [OF n, of j]
      by (auto simp: chunk_no_def k_chunk_no_mask_eq i bit_and_iff bit_or_iff bit_mask_iff
          bit_push_bit_iff)
  qed
qed

lemma drop_make: "make_chunk_id t n = Inr i \<Longrightarrow> drop_bit 62 i = of_nat (chunk_index t)"
proof -
  assume "make_chunk_id t n = Inr i"
  then have n: "unat n < 2 ^ 62" and i: "i = push_bit 62 (of_nat (chunk_index t)) OR n"
    by (auto simp: make_chunk_id_eq split: if_splits)
  have "drop_bit 62 n = 0"
    by (rule bit_word_eqI) (use bounded_bits [OF n] in \<open>auto simp: bit_drop_bit_eq\<close>)
  then have "drop_bit 62 i = drop_bit 62 (push_bit 62 (of_nat (chunk_index t)))"
    by (simp add: i)
  also have "\<dots> = of_nat (chunk_index t)"
    by (cases t) (simp_all add: push_bit_eq_mult drop_bit_eq_div)
  finally show ?thesis .
qed

lemma chunk_type_make: "make_chunk_id t n = Inr i \<Longrightarrow> chunk_type i = Inr t"
proof -
  assume "make_chunk_id t n = Inr i"
  from drop_make [OF this] have "ucast (drop_bit k_chunk_no_bits i) = (of_nat (chunk_index t) :: u8)"
    by (simp add: k_chunk_no_bits_def) (cases t; simp)
  moreover have "unat (of_nat (chunk_index t) :: u8) = chunk_index t"
    by (cases t) simp_all
  ultimately show ?thesis
    using chunk_index_less [of t] by (simp add: chunk_type_def Let_def k_chunk_levels_def)
qed

lemma chunk_id_cases:
  obtains t where "chunk_type i = Inr t" "make_chunk_id t (chunk_no i) = Inr i"
proof -
  let ?d = "drop_bit 62 i"
  have lt: "unat ?d < 4"
  proof -
    have "unat ?d = unat i div 2 ^ 62"
      by (subst unat_drop_bit_eq) (simp only: drop_bit_eq_div)
    moreover have "unat i < 4 * 2 ^ 62"
      using unsigned_less [of i, where ?'a = nat] by simp
    ultimately show ?thesis by (simp only: less_mult_imp_div_less)
  qed
  then have d8: "unat (ucast ?d :: u8) = unat ?d"
    by (simp add: unsigned_ucast_eq take_bit_eq_mod del: unat_drop_bit_eq)
  obtain t where t: "chunk_type i = Inr t" "chunk_index t = unat ?d"
  proof -
    have "\<exists>t. chunk_index t = unat ?d"
    proof -
      from lt consider "unat ?d = 0" | "unat ?d = 1" | "unat ?d = 2" | "unat ?d = 3" by linarith
      then show ?thesis by cases (metis chunk_index.simps)+
    qed
    then obtain t where "chunk_index t = unat ?d" by blast
    moreover from this have "chunk_type i = Inr t"
      using lt d8 by (simp add: chunk_type_def Let_def k_chunk_levels_def k_chunk_no_bits_def)
        (metis chunk_types_index)
    ultimately show ?thesis by (rule that [rotated])
  qed
  have "chunk_no i AND NOT k_chunk_no_mask = 0"
    by (simp add: chunk_no_def and_not_eq_0_iff and.assoc)
  moreover have "push_bit 62 ?d OR chunk_no i = i"
    by (rule bit_word_eqI)
      (auto simp: chunk_no_def k_chunk_no_mask_eq bit_or_iff bit_and_iff bit_mask_iff
        bit_push_bit_iff bit_drop_bit_eq)
  ultimately have "make_chunk_id t (chunk_no i) = Inr i"
    by (simp add: make_chunk_id_def k_chunk_no_bits_def t(2))
  with t(1) show ?thesis by (rule that)
qed

subsection \<open>State\<close>

datatype huge_page_policy_t = Huge_disabled | Huge_prefer | Huge_require

record disk_manager_options_t =
  create_if_missing :: bool
  opt_truncate :: bool
  sync_on_write :: bool
  huge_page_policy :: huge_page_policy_t

record disk_manager_meta_t =
  meta_magic :: u64
  meta_version :: u32
  meta_chunk_levels :: u32
  chunk_counts :: "chunk_type_t \<Rightarrow> u64"
  free_counts :: "chunk_type_t \<Rightarrow> u64"
  meta_huge_page_enabled :: u8

definition k_meta_magic :: u64 where
  "k_meta_magic = 0x5247434D44574342"

definition k_meta_version :: u32 where
  "k_meta_version = 1"

definition default_meta :: disk_manager_meta_t where
  "default_meta = \<lparr>meta_magic = k_meta_magic, meta_version = k_meta_version,
     meta_chunk_levels = of_nat k_chunk_levels, chunk_counts = (\<lambda>_. 0), free_counts = (\<lambda>_. 0),
     meta_huge_page_enabled = 0\<rparr>"

text \<open>
  \<open>meta_file\<close> is \<open>None\<close> while the metadata stream is closed; the contents of the chunk files stay
  on disk whether their stream is open or not.
\<close>

record disk_manager_t =
  dm_meta :: disk_manager_meta_t
  dm_options :: disk_manager_options_t
  dm_meta_open :: bool
  dm_chunk_open :: "chunk_type_t \<Rightarrow> bool"
  dm_read_fd_open :: "chunk_type_t \<Rightarrow> bool"
  dm_free_lists :: "chunk_type_t \<Rightarrow> u64 list"
  dm_meta_file :: "u8 list"
  dm_chunk_files :: "chunk_type_t \<Rightarrow> u8 list"

definition is_open :: "disk_manager_t \<Rightarrow> bool" where
  "is_open s \<longleftrightarrow> dm_meta_open s \<and> list_all (dm_chunk_open s) chunk_types
     \<and> list_all (dm_read_fd_open s) chunk_types"

subsection \<open>Files\<close>

text \<open>
  \<open>reserve_file_space\<close>: \<open>posix_fallocate\<close> only grows a file; the fallback \<open>ftruncate\<close> sets its
  length; either of them or the final \<open>close\<close> may fail.
\<close>

datatype reserve_result = Fallocated | Truncated | Reserve_failed | Close_failed

fun reserve_file_space :: "reserve_result \<Rightarrow> nat \<Rightarrow> u8 list \<Rightarrow> (u8 list, unit) outcome" where
  "reserve_file_space Fallocated bytes file = (Inr (), file @ replicate (bytes - length file) 0)"
| "reserve_file_space Truncated bytes file =
     (Inr (), take bytes file @ replicate (bytes - length file) 0)"
| "reserve_file_space Reserve_failed bytes file = (Inl Runtime_error, file)"
| "reserve_file_space Close_failed bytes file =
     (Inl Runtime_error, file @ replicate (bytes - length file) 0)"

text \<open>Bytes written at an offset; a gap below the offset reads as zeros.\<close>

definition write_at :: "nat \<Rightarrow> u8 list \<Rightarrow> u8 list \<Rightarrow> u8 list" where
  "write_at off bytes file =
     (if bytes = [] then file
      else take off file @ replicate (off - length file) 0 @ bytes @ drop (off + length bytes) file)"

definition read_at :: "nat \<Rightarrow> nat \<Rightarrow> u8 list \<Rightarrow> u8 list" where
  "read_at off n file = take n (drop off file @ replicate n 0)"

text \<open>
  The \<open>pread\<close> loop of \<open>load_chunk\<close>.  The kernel's answers come as a list: \<open>Got n\<close> transfers
  \<open>n\<close> bytes (at least one, at most what remains and what the file holds; zero at the end of the
  file), \<open>Interrupted\<close> is \<open>EINTR\<close>, \<open>Pread_failed\<close> any other error.  \<open>None\<close>: the answers ran out.
\<close>

datatype pread_result = Got nat | Interrupted | Pread_failed

primrec pread_loop :: "pread_result list \<Rightarrow> u8 list \<Rightarrow> nat \<Rightarrow> nat \<Rightarrow> u8 list \<Rightarrow> (exn + u8 list) option" where
  "pread_loop [] file off n dst = (if length dst \<ge> n then Some (Inr dst) else None)"
| "pread_loop (answer # rest) file off n dst =
     (if length dst \<ge> n then Some (Inr dst)
      else case answer of
          Interrupted \<Rightarrow> pread_loop rest file off n dst
        | Pread_failed \<Rightarrow> Some (Inl Runtime_error)
        | Got k \<Rightarrow>
            (let available = drop (off + length dst) file;
                 bytes_read = min (max 1 k) (min (n - length dst) (length available))
             in if bytes_read = 0 then Some (Inr (dst @ replicate (n - length dst) 0))
                else pread_loop rest file off n (dst @ take bytes_read available)))"

subsection \<open>Allocation\<close>

definition set_free_list :: "chunk_type_t \<Rightarrow> u64 list \<Rightarrow> disk_manager_t \<Rightarrow> disk_manager_t" where
  "set_free_list type fl s =
     s\<lparr>dm_free_lists := (dm_free_lists s)(type := fl),
       dm_meta := (dm_meta s)\<lparr>free_counts := (free_counts (dm_meta s))(type := of_nat (length fl))\<rparr>\<rparr>"

definition allocate_chunk ::
  "reserve_result \<Rightarrow> chunk_type_t \<Rightarrow> disk_manager_t \<Rightarrow> (disk_manager_t, u64) outcome" where
  "allocate_chunk io type s =
     (if dm_free_lists s type \<noteq> [] then
        (make_chunk_id type (last (dm_free_lists s type)),
         set_free_list type (butlast (dm_free_lists s type)) s)
      else
        let no = chunk_counts (dm_meta s) type;
            s1 = s\<lparr>dm_meta := (dm_meta s)\<lparr>chunk_counts := (chunk_counts (dm_meta s))(type := no + 1)\<rparr>\<rparr>;
            required_size = (no + 1) * ucast (chunk_size type);
            (r, file) = reserve_file_space io (unat required_size) (dm_chunk_files s1 type);
            s2 = s1\<lparr>dm_chunk_files := (dm_chunk_files s1)(type := file)\<rparr>
        in case r of Inl e \<Rightarrow> (Inl e, s2) | Inr _ \<Rightarrow> (make_chunk_id type no, s2))"

definition validate_chunk_id :: "u64 \<Rightarrow> disk_manager_t \<Rightarrow> exn + unit" where
  "validate_chunk_id chunk_id s =
     bindE (chunk_type chunk_id) (\<lambda>type.
       let no = chunk_no chunk_id
       in if no \<ge> chunk_counts (dm_meta s) type then Inl Out_of_range
          else if no \<in> set (dm_free_lists s type) then Inl Runtime_error
          else Inr ())"

definition delete_chunk :: "u64 \<Rightarrow> disk_manager_t \<Rightarrow> (disk_manager_t, unit) outcome" where
  "delete_chunk chunk_id s =
     (case bindE (validate_chunk_id chunk_id s) (\<lambda>_. chunk_type chunk_id) of
        Inl e \<Rightarrow> (Inl e, s)
      | Inr type \<Rightarrow>
          (Inr (), set_free_list type (dm_free_lists s type @ [chunk_no chunk_id]) s))"

subsection \<open>Chunk input and output\<close>

text \<open>
  What the stream did with a write: \<open>data_fault = Some k\<close> if only the first \<open>k\<close> bytes of the data
  reached the file and the stream went bad, \<open>zero_fault = Some k\<close> if only \<open>k\<close> bytes of the zero fill
  did, \<open>sync_fault\<close> if \<open>sync_file\<close> failed.  Only the first and the last are reported by the code.
\<close>

record write_result =
  data_fault :: "nat option"
  zero_fault :: "nat option"
  sync_fault :: bool

definition no_fault :: write_result where
  "no_fault = \<lparr>data_fault = None, zero_fault = None, sync_fault = False\<rparr>"

definition write_chunk ::
  "write_result \<Rightarrow> u64 \<Rightarrow> u8 list option \<Rightarrow> disk_manager_t \<Rightarrow> (disk_manager_t, unit) outcome" where
  "write_chunk io chunk_id data s =
     (case data of None \<Rightarrow> (Inl Invalid_argument, s)
      | Some bytes \<Rightarrow>
        (case bindE (validate_chunk_id chunk_id s) (\<lambda>_. decode_chunk_id chunk_id) of
           Inl e \<Rightarrow> (Inl e, s)
         | Inr addr \<Rightarrow>
           if length bytes > unat (pa_size addr) then (Inl Invalid_argument, s)
           else
             let off = unat (pa_offset addr);
                 file = dm_chunk_files s (pa_type addr);
                 put = (\<lambda>f. s\<lparr>dm_chunk_files := (dm_chunk_files s)(pa_type addr := f)\<rparr>)
             in case data_fault io of
                  Some k \<Rightarrow> (Inl Runtime_error, put (write_at off (take k bytes) file))
                | None \<Rightarrow>
                    let file1 = write_at off bytes file;
                        remaining = unat (pa_size addr) - length bytes;
                        zeros = replicate (case zero_fault io of Some k \<Rightarrow> min k remaining
                                           | None \<Rightarrow> remaining) 0;
                        file2 = write_at (off + length bytes) zeros file1
                    in if sync_on_write (dm_options s) \<and> sync_fault io
                       then (Inl Runtime_error, put file2)
                       else (Inr (), put file2)))"

definition write_new_chunk ::
  "reserve_result \<Rightarrow> write_result \<Rightarrow> chunk_type_t \<Rightarrow> u8 list option \<Rightarrow> disk_manager_t
    \<Rightarrow> (disk_manager_t, u64) outcome" where
  "write_new_chunk rio wio type data s =
     (case allocate_chunk rio type s of
        (Inl e, s1) \<Rightarrow> (Inl e, s1)
      | (Inr chunk_id, s1) \<Rightarrow>
          (case write_chunk wio chunk_id data s1 of
             (Inr _, s2) \<Rightarrow> (Inr chunk_id, s2)
           | (Inl e, s2) \<Rightarrow>
               (case delete_chunk chunk_id s2 of
                  (Inl e', s3) \<Rightarrow> (Inl e', s3)
                | (Inr _, s3) \<Rightarrow> (Inl e, s3))))"

definition load_chunk ::
  "pread_result list \<Rightarrow> u64 \<Rightarrow> bool \<Rightarrow> disk_manager_t \<Rightarrow> (exn + u8 list) option" where
  "load_chunk answers chunk_id dst_is_null s =
     (if dst_is_null then Some (Inl Invalid_argument)
      else case bindE (validate_chunk_id chunk_id s) (\<lambda>_. decode_chunk_id chunk_id) of
             Inl e \<Rightarrow> Some (Inl e)
           | Inr addr \<Rightarrow>
               if \<not> dm_read_fd_open s (pa_type addr) then Some (Inl Runtime_error)
               else pread_loop answers (dm_chunk_files s (pa_type addr)) (unat (pa_offset addr))
                      (unat (pa_size addr)) [])"

definition chunk_count :: "chunk_type_t \<Rightarrow> disk_manager_t \<Rightarrow> u64" where
  "chunk_count type s = chunk_counts (dm_meta s) type"

definition free_chunk_count :: "chunk_type_t \<Rightarrow> disk_manager_t \<Rightarrow> u64" where
  "free_chunk_count type s = free_counts (dm_meta s) type"

subsection \<open>Which identifiers are live\<close>

definition dm_live :: "disk_manager_t \<Rightarrow> u64 set" where
  "dm_live s = {i. validate_chunk_id i s = Inr ()}"

text \<open>
  The metadata invariant: every free list holds distinct allocated numbers, the free counters
  are the lengths of the lists, and no counter exceeds what an identifier can encode.
\<close>

definition dm_inv :: "disk_manager_t \<Rightarrow> bool" where
  "dm_inv s \<longleftrightarrow> (\<forall>t. distinct (dm_free_lists s t)
      \<and> (\<forall>n \<in> set (dm_free_lists s t). n < chunk_counts (dm_meta s) t)
      \<and> free_counts (dm_meta s) t = of_nat (length (dm_free_lists s t))
      \<and> unat (chunk_counts (dm_meta s) t) \<le> 2 ^ 62)"

lemma validate_iff:
  assumes "chunk_type i = Inr t"
  shows "validate_chunk_id i s = Inr () \<longleftrightarrow>
    chunk_no i < chunk_counts (dm_meta s) t \<and> chunk_no i \<notin> set (dm_free_lists s t)"
  using assms by (auto simp: validate_chunk_id_def Let_def)

lemma dm_live_make:
  "make_chunk_id t n = Inr i \<Longrightarrow>
   i \<in> dm_live s \<longleftrightarrow> n < chunk_counts (dm_meta s) t \<and> n \<notin> set (dm_free_lists s t)"
  by (simp add: dm_live_def validate_iff [OF chunk_type_make] chunk_no_make)

lemma make_chunk_id_inj:
  "make_chunk_id t n = Inr i \<Longrightarrow> make_chunk_id t' n' = Inr i \<Longrightarrow> t = t' \<and> n = n'"
  by (metis chunk_no_make chunk_type_make sum.inject(2))

lemma dm_live_eqI:
  assumes "\<And>t n j. make_chunk_id t n = Inr j \<Longrightarrow> j \<in> dm_live s \<longleftrightarrow> j \<in> A"
  shows "dm_live s = A"
proof (rule set_eqI)
  fix j
  obtain t where "make_chunk_id t (chunk_no j) = Inr j" by (rule chunk_id_cases)
  then show "j \<in> dm_live s \<longleftrightarrow> j \<in> A" by (rule assms)
qed

text \<open>Liveness by number: \<open>dm_allocated s t n\<close> is liveness of the identifier of \<open>(t, n)\<close>.\<close>

definition dm_allocated :: "disk_manager_t \<Rightarrow> chunk_type_t \<Rightarrow> u64 \<Rightarrow> bool" where
  "dm_allocated s t n \<longleftrightarrow> n < chunk_counts (dm_meta s) t \<and> n \<notin> set (dm_free_lists s t)"

lemma make_chunk_id_eq_iff:
  "make_chunk_id t n = Inr i \<Longrightarrow> make_chunk_id t' n' = Inr j \<Longrightarrow> j = i \<longleftrightarrow> t' = t \<and> n' = n"
  using make_chunk_id_inj by auto

lemma dm_live_insertI:
  assumes i: "make_chunk_id t n = Inr i"
    and eq: "\<And>t' m. dm_allocated s' t' m \<longleftrightarrow> dm_allocated s t' m \<or> t' = t \<and> m = n"
  shows "dm_live s' = insert i (dm_live s)"
proof (rule dm_live_eqI)
  fix t' m j assume "make_chunk_id t' m = Inr j"
  with eq [of t' m] make_chunk_id_eq_iff [OF i this] show "j \<in> dm_live s' \<longleftrightarrow> j \<in> insert i (dm_live s)"
    by (auto simp: dm_live_make dm_allocated_def)
qed

lemma dm_live_removeI:
  assumes i: "make_chunk_id t n = Inr i"
    and eq: "\<And>t' m. dm_allocated s' t' m \<longleftrightarrow> dm_allocated s t' m \<and> \<not> (t' = t \<and> m = n)"
  shows "dm_live s' = dm_live s - {i}"
proof (rule dm_live_eqI)
  fix t' m j assume "make_chunk_id t' m = Inr j"
  with eq [of t' m] make_chunk_id_eq_iff [OF i this] show "j \<in> dm_live s' \<longleftrightarrow> j \<in> dm_live s - {i}"
    by (auto simp: dm_live_make dm_allocated_def)
qed

lemma word_less_Suc: "unat c < 2 ^ 62 \<Longrightarrow> n < c + 1 \<longleftrightarrow> n < c \<or> n = (c :: u64)"
  by (auto simp: word_less_nat_alt unat_word_ariths word_unat_eq_iff)

lemma unat_Suc: "unat c < 2 ^ 62 \<Longrightarrow> unat (c + 1 :: u64) = Suc (unat c)"
  by (simp add: unat_word_ariths)

lemma reserve_preserves: "fst (reserve_file_space io n f) = Inl e \<Longrightarrow> e = Runtime_error"
  by (cases io) auto

lemma allocate_reuse:
  "dm_free_lists s t \<noteq> [] \<Longrightarrow> allocate_chunk io t s =
     (make_chunk_id t (last (dm_free_lists s t)), set_free_list t (butlast (dm_free_lists s t)) s)"
  by (simp add: allocate_chunk_def)

lemma allocate_grow:
  assumes "dm_free_lists s t = []"
  obtains r f where
    "reserve_file_space io (unat ((chunk_counts (dm_meta s) t + 1) * ucast (chunk_size t)))
       (dm_chunk_files s t) = (r, f)"
    "allocate_chunk io t s =
       (case r of Inl e \<Rightarrow> Inl e | Inr _ \<Rightarrow> make_chunk_id t (chunk_counts (dm_meta s) t),
        s\<lparr>dm_meta := (dm_meta s)\<lparr>chunk_counts :=
             (chunk_counts (dm_meta s))(t := chunk_counts (dm_meta s) t + 1)\<rparr>,
          dm_chunk_files := (dm_chunk_files s)(t := f)\<rparr>)"
proof -
  obtain r f where "reserve_file_space io
      (unat ((chunk_counts (dm_meta s) t + 1) * ucast (chunk_size t))) (dm_chunk_files s t) = (r, f)"
    by (cases "reserve_file_space io
      (unat ((chunk_counts (dm_meta s) t + 1) * ucast (chunk_size t))) (dm_chunk_files s t)")
  with assms show ?thesis
    by (intro that [of r f]) (auto simp: allocate_chunk_def Let_def split: sum.splits)
qed

lemma dm_inv_set_free_list:
  assumes "dm_inv s" "distinct fl" "\<And>n. n \<in> set fl \<Longrightarrow> n < chunk_counts (dm_meta s) t"
  shows "dm_inv (set_free_list t fl s)"
  using assms by (auto simp: dm_inv_def set_free_list_def)

lemma allocate_inv [inv_intros]:
  assumes inv: "dm_inv s" and c: "unat (chunk_counts (dm_meta s) t) < 2 ^ 62"
  shows "dm_inv (snd (allocate_chunk io t s))"
proof (cases "dm_free_lists s t = []")
  case False
  with inv have "distinct (butlast (dm_free_lists s t))"
    "\<And>n. n \<in> set (butlast (dm_free_lists s t)) \<Longrightarrow> n < chunk_counts (dm_meta s) t"
    by (auto simp: dm_inv_def distinct_butlast dest: in_set_butlastD)
  with inv False show ?thesis by (simp add: allocate_reuse dm_inv_set_free_list)
next
  case True
  then obtain r f where "allocate_chunk io t s = (r,
        s\<lparr>dm_meta := (dm_meta s)\<lparr>chunk_counts :=
             (chunk_counts (dm_meta s))(t := chunk_counts (dm_meta s) t + 1)\<rparr>,
          dm_chunk_files := (dm_chunk_files s)(t := f)\<rparr>)"
    by (rule allocate_grow) auto
  with inv c True show ?thesis
    by (auto simp: dm_inv_def unat_Suc)
qed

lemma allocate_Inr:
  assumes inv: "dm_inv s" and c: "unat (chunk_counts (dm_meta s) t) < 2 ^ 62"
    and a: "allocate_chunk io t s = (Inr i, s')"
  shows "i \<notin> dm_live s" "dm_live s' = insert i (dm_live s)" "chunk_type i = Inr t"
proof -
  let ?c = "chunk_counts (dm_meta s) t" and ?fl = "dm_free_lists s t"
  have "i \<notin> dm_live s \<and> dm_live s' = insert i (dm_live s) \<and> chunk_type i = Inr t"
  proof (cases "?fl = []")
    case False
    with a have i: "make_chunk_id t (last ?fl) = Inr i" and s': "s' = set_free_list t (butlast ?fl) s"
      by (simp_all add: allocate_reuse)
    from inv False have bl: "set (butlast ?fl) = set ?fl - {last ?fl}" and lt: "last ?fl < ?c"
      by (auto simp: dm_inv_def set_butlast_distinct)
    have "dm_live s' = insert i (dm_live s)"
      by (rule dm_live_insertI [OF i]) (use bl lt False in \<open>auto simp: dm_allocated_def s' set_free_list_def\<close>)
    with i False show ?thesis by (simp add: dm_live_make chunk_type_make)
  next
    case True
    then obtain r f where "allocate_chunk io t s =
        (case r of Inl e \<Rightarrow> Inl e | Inr (_::unit) \<Rightarrow> make_chunk_id t ?c,
        s\<lparr>dm_meta := (dm_meta s)\<lparr>chunk_counts := (chunk_counts (dm_meta s))(t := ?c + 1)\<rparr>,
          dm_chunk_files := (dm_chunk_files s)(t := f)\<rparr>)"
      by (rule allocate_grow)
    with a have i: "make_chunk_id t ?c = Inr i"
      and s': "s' = s\<lparr>dm_meta := (dm_meta s)\<lparr>chunk_counts := (chunk_counts (dm_meta s))(t := ?c + 1)\<rparr>,
          dm_chunk_files := (dm_chunk_files s)(t := f)\<rparr>"
      by (auto split: sum.splits)
    have "dm_live s' = insert i (dm_live s)"
      by (rule dm_live_insertI [OF i]) (use True c in \<open>auto simp: dm_allocated_def s' word_less_Suc\<close>)
    with i show ?thesis by (simp add: dm_live_make chunk_type_make)
  qed
  then show "i \<notin> dm_live s" "dm_live s' = insert i (dm_live s)" "chunk_type i = Inr t" by simp_all
qed

lemma delete_live:
  assumes "i \<in> dm_live s"
  obtains t where "make_chunk_id t (chunk_no i) = Inr i"
    "chunk_no i < chunk_counts (dm_meta s) t" "chunk_no i \<notin> set (dm_free_lists s t)"
    "delete_chunk i s = (Inr (), set_free_list t (dm_free_lists s t @ [chunk_no i]) s)"
proof -
  obtain t where t: "chunk_type i = Inr t" "make_chunk_id t (chunk_no i) = Inr i"
    by (rule chunk_id_cases)
  with assms have "chunk_no i < chunk_counts (dm_meta s) t" "chunk_no i \<notin> set (dm_free_lists s t)"
    by (simp_all add: dm_live_make)
  moreover from assms t(1) have
    "delete_chunk i s = (Inr (), set_free_list t (dm_free_lists s t @ [chunk_no i]) s)"
    by (simp add: delete_chunk_def dm_live_def)
  ultimately show ?thesis using t(2) that by blast
qed

lemma delete_not_live:
  "i \<notin> dm_live s \<Longrightarrow> \<exists>e. delete_chunk i s = (Inl e, s)"
  by (cases "validate_chunk_id i s") (auto simp: delete_chunk_def dm_live_def)

lemma delete_inv [inv_intros]:
  assumes "dm_inv s"
  shows "dm_inv (snd (delete_chunk i s))"
proof (cases "i \<in> dm_live s")
  case True
  then obtain t where t: "chunk_no i < chunk_counts (dm_meta s) t"
    "chunk_no i \<notin> set (dm_free_lists s t)"
    "delete_chunk i s = (Inr (), set_free_list t (dm_free_lists s t @ [chunk_no i]) s)"
    by (rule delete_live)
  from assms have "distinct (dm_free_lists s t)"
    "\<And>n. n \<in> set (dm_free_lists s t) \<Longrightarrow> n < chunk_counts (dm_meta s) t"
    by (auto simp: dm_inv_def)
  with t(1,2) show ?thesis
    unfolding t(3) by (auto intro!: dm_inv_set_free_list [OF assms])
next
  case False
  with assms delete_not_live [OF False] show ?thesis by auto
qed

lemma delete_removes:
  assumes "i \<in> dm_live s"
  shows "dm_live (snd (delete_chunk i s)) = dm_live s - {i}" "fst (delete_chunk i s) = Inr ()"
proof -
  from assms obtain t where t: "make_chunk_id t (chunk_no i) = Inr i"
    "chunk_no i < chunk_counts (dm_meta s) t" "chunk_no i \<notin> set (dm_free_lists s t)"
    "delete_chunk i s = (Inr (), set_free_list t (dm_free_lists s t @ [chunk_no i]) s)"
    by (rule delete_live)
  show "dm_live (snd (delete_chunk i s)) = dm_live s - {i}"
    by (rule dm_live_removeI [OF t(1)]) (auto simp: t(4) dm_allocated_def set_free_list_def)
  show "fst (delete_chunk i s) = Inr ()" by (simp add: t(4))
qed

text \<open>
  The disk manager as a slot allocator.  A client allocates while the counter is below the
  \<open>2 ^ 62\<close> numbers that an identifier can hold; an exception is \<open>None\<close>.
\<close>

definition dm_alloc :: "reserve_result \<Rightarrow> chunk_type_t \<Rightarrow> disk_manager_t \<Rightarrow> u64 option \<times> disk_manager_t" where
  "dm_alloc io t s =
     (if unat (chunk_counts (dm_meta s) t) < 2 ^ 62 then
        case allocate_chunk io t s of (Inl _, u) \<Rightarrow> (None, u) | (Inr i, u) \<Rightarrow> (Some i, u)
      else (None, s))"

lemma allocate_Inl:
  assumes inv: "dm_inv s" and c: "unat (chunk_counts (dm_meta s) t) < 2 ^ 62"
    and a: "allocate_chunk io t s = (Inl e, s')"
  shows "dm_free_lists s t = []"
    and "make_chunk_id t (chunk_counts (dm_meta s) t) = Inr i \<Longrightarrow> dm_live s' = insert i (dm_live s)"
proof -
  show nil: "dm_free_lists s t = []"
  proof (rule ccontr)
    assume ne: "dm_free_lists s t \<noteq> []"
    then have "last (dm_free_lists s t) \<in> set (dm_free_lists s t)" by simp
    with inv have "last (dm_free_lists s t) < chunk_counts (dm_meta s) t" by (auto simp: dm_inv_def)
    with c have "unat (last (dm_free_lists s t)) < 2 ^ 62" by (simp add: word_less_nat_alt)
    with a ne show False by (simp add: allocate_reuse make_chunk_id_eq)
  qed
  assume i: "make_chunk_id t (chunk_counts (dm_meta s) t) = Inr i"
  from nil obtain r f where "allocate_chunk io t s =
        (case r of Inl e \<Rightarrow> Inl e | Inr (_::unit) \<Rightarrow> make_chunk_id t (chunk_counts (dm_meta s) t),
        s\<lparr>dm_meta := (dm_meta s)\<lparr>chunk_counts :=
            (chunk_counts (dm_meta s))(t := chunk_counts (dm_meta s) t + 1)\<rparr>,
          dm_chunk_files := (dm_chunk_files s)(t := f)\<rparr>)"
    by (rule allocate_grow)
  with a have s': "s' = s\<lparr>dm_meta := (dm_meta s)\<lparr>chunk_counts :=
            (chunk_counts (dm_meta s))(t := chunk_counts (dm_meta s) t + 1)\<rparr>,
          dm_chunk_files := (dm_chunk_files s)(t := f)\<rparr>" by simp
  show "dm_live s' = insert i (dm_live s)"
    by (rule dm_live_insertI [OF i]) (use nil c in \<open>auto simp: dm_allocated_def s' word_less_Suc\<close>)
qed

lemma dm_alloc_cases:
  assumes "dm_inv s"
  shows "dm_alloc io t s = (Some i, u) \<Longrightarrow> i \<notin> dm_live s \<and> dm_live u = insert i (dm_live s)"
    and "dm_alloc io t s = (None, u) \<Longrightarrow> dm_live s \<subseteq> dm_live u"
    and "dm_inv (snd (dm_alloc io t s))"
proof -
  let ?c = "unat (chunk_counts (dm_meta s) t) < 2 ^ 62"
  show "i \<notin> dm_live s \<and> dm_live u = insert i (dm_live s)" if "dm_alloc io t s = (Some i, u)"
    using that allocate_Inr [OF assms, of t io i u]
    by (auto simp: dm_alloc_def split: if_splits prod.splits sum.splits)
  show "dm_live s \<subseteq> dm_live u" if n: "dm_alloc io t s = (None, u)"
  proof (cases ?c)
    case True
    with n obtain e where "allocate_chunk io t s = (Inl e, u)"
      by (auto simp: dm_alloc_def split: prod.splits sum.splits)
    with allocate_Inl(2) [OF assms True] True show ?thesis by (auto simp: make_chunk_id_eq)
  qed (use n in \<open>simp add: dm_alloc_def\<close>)
  show "dm_inv (snd (dm_alloc io t s))"
    using allocate_inv [OF assms, of t io] assms
    by (auto simp: dm_alloc_def split: prod.splits sum.splits)
qed

interpretation dm: slot_allocator "dm_alloc io t" "\<lambda>i s. snd (delete_chunk i s)" dm_live dm_inv
  for io t
proof unfold_locales
  fix s i u assume "dm_inv s" "dm_alloc io t s = (Some i, u)"
  then show "i \<notin> dm_live s" "dm_live u = insert i (dm_live s)" using dm_alloc_cases(1) by blast+
next
  fix s u assume "dm_inv s" "dm_alloc io t s = (None, u)"
  then show "dm_live s \<subseteq> dm_live u" by (rule dm_alloc_cases(2))
next
  fix s r u assume "dm_inv s" "dm_alloc io t s = (r, u)"
  then show "dm_inv u" using dm_alloc_cases(3) by (metis snd_conv)
qed (auto simp: delete_removes intro: delete_inv)

subsection \<open>What chunks contain\<close>

definition byte_at :: "nat \<Rightarrow> u8 list \<Rightarrow> u8" where
  "byte_at k file = (if k < length file then file ! k else 0)"

lemma length_read_at [simp]: "length (read_at off n file) = n"
  by (simp add: read_at_def)

lemma nth_read_at: "i < n \<Longrightarrow> read_at off n file ! i = byte_at (off + i) file"
  by (auto simp: read_at_def byte_at_def nth_append)

lemma read_at_eqI:
  "(\<And>k. off \<le> k \<Longrightarrow> k < off + n \<Longrightarrow> byte_at k f = byte_at k g) \<Longrightarrow> read_at off n f = read_at off n g"
  by (rule nth_equalityI) (simp_all add: nth_read_at)

lemma byte_at_write_at:
  "byte_at k (write_at off bytes file) =
     (if off \<le> k \<and> k < off + length bytes then bytes ! (k - off) else byte_at k file)"
proof (cases "bytes = []")
  case False
  consider "k < off" | "off \<le> k" "k < off + length bytes" | "off + length bytes \<le> k" by linarith
  then show ?thesis
    by cases (use False in \<open>auto simp: write_at_def byte_at_def nth_append min_def\<close>)
qed (auto simp add: write_at_def)

lemma read_at_write_at_disjoint:
  "off' + n \<le> off \<or> off + length bytes \<le> off' \<Longrightarrow>
   read_at off' n (write_at off bytes file) = read_at off' n file"
  by (rule read_at_eqI) (auto simp: byte_at_write_at)

lemma read_at_write_at_padded:
  assumes "length bytes \<le> n"
  shows "read_at off n (write_at (off + length bytes) (replicate (n - length bytes) 0)
           (write_at off bytes file)) = bytes @ replicate (n - length bytes) 0"
  using assms by (intro nth_equalityI) (auto simp: nth_read_at byte_at_write_at nth_append)

lemma read_at_grow: "read_at off n (file @ replicate m 0) = read_at off n file"
  by (rule read_at_eqI) (auto simp: byte_at_def nth_append)

lemma read_at_truncate:
  "off + n \<le> m \<Longrightarrow> read_at off n (take m file @ replicate (m - length file) 0) = read_at off n file"
  by (rule read_at_eqI) (auto simp: byte_at_def nth_append min_def)

lemma take_read_at:
  "k \<le> length (drop off file) \<Longrightarrow> k \<le> n \<Longrightarrow> take k (drop off file) = take k (read_at off n file)"
  by (simp add: read_at_def min_def)

lemma read_at_split:
  "d \<le> n \<Longrightarrow> read_at off n file = read_at off d file @ read_at (off + d) (n - d) file"
  by (rule nth_equalityI) (auto simp: nth_read_at nth_append)

lemma read_at_eof: "length file \<le> off \<Longrightarrow> read_at off n file = replicate n 0"
  by (simp add: read_at_def)

declare pread_loop.simps [simp del]

lemma pread_loop_done: "n \<le> length dst \<Longrightarrow> pread_loop answers file off n dst = Some (Inr dst)"
  by (cases answers) (simp_all add: pread_loop.simps)

lemma pread_loop_Got:
  "\<not> n \<le> length dst \<Longrightarrow>
   b = min (max 1 k) (min (n - length dst) (length (drop (off + length dst) file))) \<Longrightarrow>
   pread_loop (Got k # rest) file off n dst =
     (if b = 0 then Some (Inr (dst @ replicate (n - length dst) 0))
      else pread_loop rest file off n (dst @ take b (drop (off + length dst) file)))"
  by (simp only: pread_loop.simps Let_def if_False pread_result.case)

text \<open>The bytes that the loop delivers do not depend on how the kernel split the transfers.\<close>

lemma pread_loop_Inr:
  "pread_loop answers file off n dst = Some (Inr out) \<Longrightarrow> dst = read_at off (length dst) file \<Longrightarrow>
   length dst \<le> n \<Longrightarrow> out = read_at off n file"
proof (induction answers arbitrary: dst)
  case Nil
  then show ?case by (auto simp: pread_loop.simps split: if_splits)
next
  case (Cons answer rest)
  show ?case
  proof (cases "n \<le> length dst")
    case True
    with Cons.prems show ?thesis by (simp add: pread_loop_done)
  next
    case False
    let ?av = "drop (off + length dst) file"
    show ?thesis
    proof (cases answer)
      case (Got k)
      define b where "b = min (max 1 k) (min (n - length dst) (length ?av))"
      show ?thesis
      proof (cases "b = 0")
        case True
        with False have "length file \<le> off + length dst" by (auto simp: b_def min_def split: if_splits)
        then have "read_at (off + length dst) (n - length dst) file = replicate (n - length dst) 0"
          by (rule read_at_eof)
        moreover have "out = dst @ replicate (n - length dst) 0"
          using Cons.prems(1) True Got by (simp add: pread_loop_Got [OF False b_def])
        ultimately show ?thesis
          using read_at_split [OF Cons.prems(3), of off "file"] Cons.prems(2) by simp
      next
        case nz: False
        have b: "b \<le> n - length dst" "b \<le> length ?av" by (auto simp: b_def)
        let ?dst = "dst @ take b ?av"
        have len: "length ?dst = length dst + b" using b(2) by simp
        have "take b ?av = read_at (off + length dst) b file"
          using b(2) by (simp add: read_at_def)
        with read_at_split [of "length dst" "length dst + b" off "file"] Cons.prems(2) len
        have "?dst = read_at off (length ?dst) file" by simp
        moreover have "pread_loop rest file off n ?dst = Some (Inr out)"
          using Cons.prems(1) nz Got by (simp add: pread_loop_Got [OF False b_def])
        moreover have "length ?dst \<le> n" using b(1) False len by linarith
        ultimately show ?thesis by (intro Cons.IH)
      qed
    qed (use Cons False in \<open>simp_all add: pread_loop.simps\<close>)
  qed
qed

lemma pread_loop_returns:
  "Pread_failed \<notin> set answers \<Longrightarrow>
   n \<le> length dst + length (filter (\<lambda>a. a \<noteq> Interrupted) answers) \<Longrightarrow>
   \<exists>out. pread_loop answers file off n dst = Some (Inr out)"
proof (induction answers arbitrary: dst)
  case (Cons answer rest)
  show ?case
  proof (cases "n \<le> length dst")
    case False
    show ?thesis
    proof (cases answer)
      case (Got k)
      define b where "b = min (max 1 k) (min (n - length dst) (length (drop (off + length dst) file)))"
      show ?thesis
      proof (cases "b = 0")
        case nz: False
        then have "length (dst @ take b (drop (off + length dst) file)) \<ge> Suc (length dst)"
          by (auto simp: b_def)
        with Cons.prems Got have
          "\<exists>out. pread_loop rest file off n (dst @ take b (drop (off + length dst) file)) = Some (Inr out)"
          by (intro Cons.IH) auto
        with nz Got show ?thesis by (simp add: pread_loop_Got [OF False b_def])
      qed (use Got in \<open>simp add: pread_loop_Got [OF False b_def]\<close>)
    qed (use Cons False in \<open>auto simp: pread_loop.simps\<close>)
  qed (simp add: pread_loop_done)
qed (simp add: pread_loop_done)

text \<open>The abstract view of the manager: live identifiers mapped to the bytes of their chunk.\<close>

definition dm_contents :: "disk_manager_t \<Rightarrow> u64 \<Rightarrow> u8 list option" where
  "dm_contents s i =
     (if i \<in> dm_live s then
        case decode_chunk_id i of
          Inl _ \<Rightarrow> None
        | Inr a \<Rightarrow> Some (read_at (unat (pa_offset a)) (unat (pa_size a)) (dm_chunk_files s (pa_type a)))
      else None)"

lemma unat_chunk_size: "unat (ucast (chunk_size t) :: u64) = unat (chunk_size t)"
  by (cases t) simp_all

lemma decode_Inr:
  assumes "decode_chunk_id i = Inr a"
  shows "chunk_type i = Inr (pa_type a)" "pa_chunk_no a = chunk_no i"
    "pa_size a = chunk_size (pa_type a)"
    "unat (pa_offset a) = unat (chunk_no i) * unat (chunk_size (pa_type a))"
proof -
  from assms obtain t where t: "chunk_type i = Inr t"
    and le: "chunk_no i \<le> (- 1) div ucast (chunk_size t)"
    and a: "a = \<lparr>pa_type = t, pa_chunk_no = chunk_no i, pa_offset = chunk_no i * ucast (chunk_size t),
                pa_size = chunk_size t\<rparr>"
    by (auto simp: decode_chunk_id_def bindE_def Let_def split: sum.splits if_splits)
  from le have "unat (chunk_no i) \<le> unat (- 1 :: u64) div unat (chunk_size t)"
    by (simp only: word_le_nat_alt unat_div unat_chunk_size)
  then have "unat (chunk_no i) * unat (chunk_size t) \<le> unat (- 1 :: u64)"
    by (metis div_times_less_eq_dividend le_trans mult_le_mono1)
  also have "\<dots> < 2 ^ 64" using unsigned_less [of "- 1 :: u64", where ?'a = nat] by simp
  finally have "unat (chunk_no i * ucast (chunk_size t)) = unat (chunk_no i) * unat (chunk_size t)"
    using unat_mult_lem [of "chunk_no i" "ucast (chunk_size t) :: u64"]
    by (simp add: unat_chunk_size)
  with t a show "chunk_type i = Inr (pa_type a)" "pa_chunk_no a = chunk_no i"
    "pa_size a = chunk_size (pa_type a)"
    "unat (pa_offset a) = unat (chunk_no i) * unat (chunk_size (pa_type a))"
    by simp_all
qed

lemma chunk_id_eqI:
  "chunk_type i = Inr t \<Longrightarrow> chunk_type j = Inr t \<Longrightarrow> chunk_no i = chunk_no j \<Longrightarrow> i = j"
  by (metis chunk_id_cases sum.inject(2))

lemma nat_ranges_disjoint:
  "m < (n :: nat) \<Longrightarrow> m * z + z \<le> n * z"
  by (metis Suc_leI add.commute mult_Suc mult_le_mono1)

lemma chunk_ranges_disjoint:
  assumes "decode_chunk_id i = Inr a" "decode_chunk_id j = Inr b" "i \<noteq> j" "pa_type a = pa_type b"
  shows "unat (pa_offset b) + unat (pa_size b) \<le> unat (pa_offset a)
    \<or> unat (pa_offset a) + unat (pa_size a) \<le> unat (pa_offset b)"
proof -
  have "chunk_no i \<noteq> chunk_no j"
    using assms chunk_id_eqI decode_Inr(1) by metis
  then have "unat (chunk_no i) \<noteq> unat (chunk_no j)" by (simp add: word_unat_eq_iff)
  then show ?thesis
    using decode_Inr [OF assms(1)] decode_Inr [OF assms(2)] assms(4)
      nat_ranges_disjoint [of "unat (chunk_no i)" "unat (chunk_no j)" "unat (chunk_size (pa_type b))"]
      nat_ranges_disjoint [of "unat (chunk_no j)" "unat (chunk_no i)" "unat (chunk_size (pa_type b))"]
    by (auto simp: neq_iff)
qed

lemma dm_live_files [simp]:
  "dm_live (s\<lparr>dm_chunk_files := fs\<rparr>) = dm_live s"
  by (simp add: dm_live_def validate_chunk_id_def cong: if_cong)

lemma dm_contents_update:
  assumes i: "decode_chunk_id i = Inr a" and j: "j \<noteq> i"
    and off: "unat (pa_offset a) \<le> off" "off + length bytes \<le> unat (pa_offset a) + unat (pa_size a)"
  shows "dm_contents (s\<lparr>dm_chunk_files := (dm_chunk_files s)(pa_type a :=
      write_at off bytes (dm_chunk_files s (pa_type a)))\<rparr>) j = dm_contents s j"
proof (cases "decode_chunk_id j")
  case (Inr b)
  show ?thesis
  proof (cases "pa_type b = pa_type a")
    case True
    have "unat (pa_offset b) + unat (pa_size b) \<le> off \<or> off + length bytes \<le> unat (pa_offset b)"
      using chunk_ranges_disjoint [OF i Inr j [symmetric]] True off by auto
    with Inr True show ?thesis by (simp add: dm_contents_def read_at_write_at_disjoint)
  qed (use Inr in \<open>simp add: dm_contents_def\<close>)
qed (simp add: dm_contents_def)

lemma validate_Inr_live: "validate_chunk_id i s = Inr u \<longleftrightarrow> i \<in> dm_live s"
  by (simp add: dm_live_def)

lemma put_twice:
  "s\<lparr>dm_chunk_files := (dm_chunk_files s)(t := f)\<rparr>\<lparr>dm_chunk_files :=
     (dm_chunk_files (s\<lparr>dm_chunk_files := (dm_chunk_files s)(t := f)\<rparr>))(t := g)\<rparr> =
   s\<lparr>dm_chunk_files := (dm_chunk_files s)(t := g)\<rparr>"
  by simp

text \<open>Whatever the outcome of a write, the other chunks keep their bytes.\<close>

lemma write_chunk_frame:
  assumes "j \<noteq> i"
  shows "dm_contents (snd (write_chunk io i data s)) j = dm_contents s j"
proof (cases data)
  case (Some bytes)
  show ?thesis
  proof (cases "bindE (validate_chunk_id i s) (\<lambda>_. decode_chunk_id i)")
    case (Inr a)
    then have d: "decode_chunk_id i = Inr a" by (auto simp: bindE_eq_Inr)
    show ?thesis
    proof (cases "length bytes \<le> unat (pa_size a)")
      case True
      let ?off = "unat (pa_offset a)" and ?t = "pa_type a"
      let ?put = "\<lambda>off bs u. u\<lparr>dm_chunk_files := (dm_chunk_files u)(?t :=
        write_at off bs (dm_chunk_files u ?t))\<rparr>"
      have one: "dm_contents (?put ?off bs u) j = dm_contents u j"
        if "length bs \<le> unat (pa_size a)" for bs u
        by (rule dm_contents_update [OF d assms]) (use that in simp_all)
      have two: "dm_contents (?put (?off + length bytes) (replicate k 0) u) j = dm_contents u j"
        if "k \<le> unat (pa_size a) - length bytes" for k u
        by (rule dm_contents_update [OF d assms]) (use that True in simp_all)
      note one' = one [of bytes s] one [of "take k bytes" s for k]
      note two' = two [of _ "?put ?off bytes s", unfolded put_twice]
      show ?thesis
        using Some Inr True one' two'
        by (auto simp: write_chunk_def Let_def split: option.splits)
    qed (use Some Inr in \<open>simp add: write_chunk_def\<close>)
  qed (use Some in \<open>simp add: write_chunk_def\<close>)
qed (simp add: write_chunk_def)

lemma write_chunk_Inr:
  assumes w: "write_chunk io i data s = (Inr (), s')" and z: "zero_fault io = None"
  obtains bytes a where "data = Some bytes" "i \<in> dm_live s" "decode_chunk_id i = Inr a"
    "length bytes \<le> unat (pa_size a)"
    "dm_contents s' i = Some (bytes @ replicate (unat (pa_size a) - length bytes) 0)"
proof -
  from w obtain bytes a where b: "data = Some bytes" and v: "validate_chunk_id i s = Inr ()"
    and d: "decode_chunk_id i = Inr a" and len: "length bytes \<le> unat (pa_size a)"
    and s': "s' = s\<lparr>dm_chunk_files := (dm_chunk_files s)(pa_type a :=
        write_at (unat (pa_offset a) + length bytes) (replicate (unat (pa_size a) - length bytes) 0)
          (write_at (unat (pa_offset a)) bytes (dm_chunk_files s (pa_type a))))\<rparr>"
    using z by (auto simp: write_chunk_def bindE_def Let_def
        split: option.splits sum.splits if_splits)
  from v d len have
    "dm_contents s' i = Some (bytes @ replicate (unat (pa_size a) - length bytes) 0)"
    by (simp add: dm_contents_def s' validate_Inr_live read_at_write_at_padded)
  with b v d len that show ?thesis by (simp add: validate_Inr_live)
qed

lemma write_chunk_live [simp]: "dm_live (snd (write_chunk io i data s)) = dm_live s"
  by (auto simp: write_chunk_def Let_def split: option.splits sum.splits)

lemma write_chunk_meta [simp]:
  "dm_meta (snd (write_chunk io i data s)) = dm_meta s"
  "dm_free_lists (snd (write_chunk io i data s)) = dm_free_lists s"
  by (auto simp: write_chunk_def Let_def split: option.splits sum.splits)

lemma dm_inv_write [inv_intros]: "dm_inv s \<Longrightarrow> dm_inv (snd (write_chunk io i data s))"
  by (simp add: dm_inv_def)

lemma dm_inv_writeD: "dm_inv s \<Longrightarrow> write_chunk io i data s = (r, u) \<Longrightarrow> dm_inv u"
  by (metis dm_inv_write snd_conv)

lemma load_chunk_contents:
  assumes "load_chunk answers i null s = Some (Inr out)"
  shows "dm_contents s i = Some out"
proof -
  from assms obtain a where d: "decode_chunk_id i = Inr a" and v: "validate_chunk_id i s = Inr ()"
    and p: "pread_loop answers (dm_chunk_files s (pa_type a)) (unat (pa_offset a))
              (unat (pa_size a)) [] = Some (Inr out)"
    by (auto simp: load_chunk_def bindE_def split: sum.splits if_splits)
  have "out = read_at (unat (pa_offset a)) (unat (pa_size a)) (dm_chunk_files s (pa_type a))"
    by (rule pread_loop_Inr [OF p]) (simp_all add: read_at_def)
  with d v show ?thesis by (simp add: dm_contents_def validate_Inr_live)
qed

subsection \<open>Metadata file\<close>

text \<open>
  What happened to a write of the metadata file: \<open>meta_torn = Some f\<close> if the stream failed and
  left the content \<open>f\<close>; \<open>meta_pad\<close> are the seven padding bytes at the end of the struct
  \<open>disk_manager_meta_t\<close>, which the code writes as they are in memory.
\<close>

record meta_write_result =
  meta_torn :: "u8 list option"
  meta_pad :: "u8 list"
  meta_sync_fault :: bool

definition k_meta_struct_bytes :: nat where
  "k_meta_struct_bytes = 88"

definition u64s_bytes :: "u64 list \<Rightarrow> u8 list" where
  "u64s_bytes ns = concat (map (le_bytes 8) ns)"

fun u64_words :: "nat \<Rightarrow> u8 list \<Rightarrow> u64 list" where
  "u64_words 0 bs = []"
| "u64_words (Suc n) bs = le_value (take 8 bs) # u64_words n (drop 8 bs)"

definition meta_struct_bytes :: "u8 list \<Rightarrow> disk_manager_meta_t \<Rightarrow> u8 list" where
  "meta_struct_bytes pad m =
     le_bytes 8 (meta_magic m) @ le_bytes 4 (meta_version m) @ le_bytes 4 (meta_chunk_levels m)
     @ u64s_bytes (map (chunk_counts m) chunk_types) @ u64s_bytes (map (free_counts m) chunk_types)
     @ [meta_huge_page_enabled m] @ pad"

definition parse_meta_struct :: "u8 list \<Rightarrow> disk_manager_meta_t" where
  "parse_meta_struct file =
     \<lparr>meta_magic = le_value (take 8 file),
      meta_version = le_value (take 4 (drop 8 file)),
      meta_chunk_levels = le_value (take 4 (drop 12 file)),
      chunk_counts = (\<lambda>t. u64_words 4 (drop 16 file) ! chunk_index t),
      free_counts = (\<lambda>t. u64_words 4 (drop 48 file) ! chunk_index t),
      meta_huge_page_enabled = file ! 80\<rparr>"

definition flush_meta :: "meta_write_result \<Rightarrow> disk_manager_t \<Rightarrow> (disk_manager_t, unit) outcome" where
  "flush_meta io s =
     (if \<not> dm_meta_open s then (Inr (), s)
      else
        let m = (dm_meta s)\<lparr>free_counts := (\<lambda>t. of_nat (length (dm_free_lists s t)))\<rparr>;
            s1 = s\<lparr>dm_meta := m\<rparr>
        in case meta_torn io of
             Some f \<Rightarrow> (Inl Runtime_error, s1\<lparr>dm_meta_file := f\<rparr>)
           | None \<Rightarrow>
               let s2 = s1\<lparr>dm_meta_file := meta_struct_bytes (meta_pad io) m
                     @ concat (map (\<lambda>t. u64s_bytes (dm_free_lists s t)) chunk_types)\<rparr>
               in if sync_on_write (dm_options s) \<and> meta_sync_fault io
                  then (Inl Runtime_error, s2) else (Inr (), s2))"

text \<open>The loop of \<open>load_meta\<close> over the chunk levels: resize, read, check every number.\<close>

fun load_free_lists ::
  "chunk_type_t list \<Rightarrow> nat \<Rightarrow> disk_manager_t \<Rightarrow> (disk_manager_t, unit) outcome" where
  "load_free_lists [] cursor s = (Inr (), s)"
| "load_free_lists (t # ts) cursor s =
     (let n = unat (free_counts (dm_meta s) t);
          fl = u64_words n (read_at cursor (8 * n) (dm_meta_file s));
          s1 = s\<lparr>dm_free_lists := (dm_free_lists s)(t := fl)\<rparr>
      in if length (dm_meta_file s) < cursor + 8 * n then (Inl Runtime_error, s1)
         else if list_ex (\<lambda>no. no \<ge> chunk_counts (dm_meta s) t) fl then (Inl Runtime_error, s1)
         else load_free_lists ts (cursor + 8 * n) (set_free_list t fl s1))"

definition load_meta :: "meta_write_result \<Rightarrow> disk_manager_t \<Rightarrow> (disk_manager_t, unit) outcome" where
  "load_meta io s =
     (let s0 = s\<lparr>dm_free_lists := (\<lambda>_. [])\<rparr>
      in if opt_truncate (dm_options s) \<or> length (dm_meta_file s) < k_meta_struct_bytes
         then flush_meta io (s0\<lparr>dm_meta := default_meta\<rparr>)
         else
           let m = parse_meta_struct (dm_meta_file s); s1 = s0\<lparr>dm_meta := m\<rparr>
           in if meta_magic m \<noteq> k_meta_magic \<or> meta_version m \<noteq> k_meta_version
                 \<or> meta_chunk_levels m \<noteq> of_nat k_chunk_levels
              then (Inl Runtime_error, s1)
              else load_free_lists chunk_types k_meta_struct_bytes s1)"

subsection \<open>Opening and closing\<close>

definition close_dm :: "meta_write_result \<Rightarrow> disk_manager_t \<Rightarrow> (disk_manager_t, unit) outcome" where
  "close_dm io s =
     (case flush_meta io s of
        (Inl e, s1) \<Rightarrow> (Inl e, s1)
      | (Inr _, s1) \<Rightarrow>
          (Inr (), s1\<lparr>dm_meta_open := False, dm_chunk_open := (\<lambda>_. False),
                      dm_read_fd_open := (\<lambda>_. False)\<rparr>))"

definition prepare_file :: "bool \<Rightarrow> bool \<Rightarrow> u8 list option \<Rightarrow> exn + u8 list" where
  "prepare_file create trunc existing =
     (if trunc \<or> existing = None then
        if \<not> create \<and> existing = None then Inl Runtime_error
        else Inr (if trunc then [] else (case existing of None \<Rightarrow> [] | Some f \<Rightarrow> f))
      else Inr (case existing of None \<Rightarrow> [] | Some f \<Rightarrow> f))"

fun open_chunk_files ::
  "chunk_type_t list \<Rightarrow> (chunk_type_t \<Rightarrow> u8 list option) \<Rightarrow> disk_manager_t
    \<Rightarrow> (disk_manager_t, unit) outcome" where
  "open_chunk_files [] on_disk s = (Inr (), s)"
| "open_chunk_files (t # ts) on_disk s =
     (case prepare_file (create_if_missing (dm_options s)) (opt_truncate (dm_options s)) (on_disk t) of
        Inl e \<Rightarrow> (Inl e, s)
      | Inr f \<Rightarrow> open_chunk_files ts on_disk
          (s\<lparr>dm_chunk_files := (dm_chunk_files s)(t := f),
             dm_chunk_open := (dm_chunk_open s)(t := True),
             dm_read_fd_open := (dm_read_fd_open s)(t := True)\<rparr>))"

definition configure_huge_page_hint :: "bool \<Rightarrow> disk_manager_t \<Rightarrow> (disk_manager_t, unit) outcome" where
  "configure_huge_page_hint available s =
     (let set_enabled = (\<lambda>b. s\<lparr>dm_meta := (dm_meta s)\<lparr>meta_huge_page_enabled := b\<rparr>\<rparr>)
      in case huge_page_policy (dm_options s) of
           Huge_disabled \<Rightarrow> (Inr (), set_enabled 0)
         | Huge_require \<Rightarrow>
             if \<not> available then (Inl Runtime_error, s) else (Inr (), set_enabled 1)
         | Huge_prefer \<Rightarrow> (Inr (), set_enabled (if available then 1 else 0)))"

definition open_dm ::
  "meta_write_result \<Rightarrow> meta_write_result \<Rightarrow> disk_manager_options_t \<Rightarrow> u8 list option
    \<Rightarrow> (chunk_type_t \<Rightarrow> u8 list option) \<Rightarrow> bool \<Rightarrow> disk_manager_t
    \<Rightarrow> (disk_manager_t, unit) outcome" where
  "open_dm close_io io opts meta_on_disk on_disk available s =
     (case close_dm close_io s of
        (Inl e, s1) \<Rightarrow> (Inl e, s1)
      | (Inr _, s1) \<Rightarrow>
        let s2 = s1\<lparr>dm_options := opts\<rparr>
        in case prepare_file (create_if_missing opts) (opt_truncate opts) meta_on_disk of
             Inl e \<Rightarrow> (Inl e, s2)
           | Inr f \<Rightarrow>
             (case open_chunk_files chunk_types on_disk (s2\<lparr>dm_meta_file := f, dm_meta_open := True\<rparr>) of
                (Inl e, s3) \<Rightarrow> (Inl e, s3)
              | (Inr _, s3) \<Rightarrow>
                  (case load_meta io s3 of
                     (Inl e, s4) \<Rightarrow> (Inl e, s4)
                   | (Inr _, s4) \<Rightarrow> configure_huge_page_hint available s4)))"

subsection \<open>Reading back what was written\<close>

lemma length_u64s_bytes [simp]: "length (u64s_bytes ns) = 8 * length ns"
  by (induction ns) (simp_all add: u64s_bytes_def)

lemma u64s_bytes_Cons: "u64s_bytes (n # ns) = le_bytes 8 n @ u64s_bytes ns"
  by (simp add: u64s_bytes_def)

lemma u64_words_bytes [simp]: "u64_words (length ns) (u64s_bytes ns @ rest) = ns"
  by (induction ns) (simp_all add: u64s_bytes_Cons le_value_le_bytes)

lemma u64_words_bytes_Nil [simp]: "u64_words (length ns) (u64s_bytes ns) = ns"
  using u64_words_bytes [of ns "[]"] by simp

lemma length_chunk_types [simp]: "length chunk_types = 4"
  by (simp add: chunk_types_def)

lemma u64_words_chunk_types:
  "u64_words 4 (u64s_bytes (map g chunk_types) @ rest) ! chunk_index t = g t"
  using u64_words_bytes [of "map g chunk_types" rest] chunk_index_less [of t]
  by (metis chunk_types_index length_chunk_types length_map nth_map)

lemma length_meta_struct_bytes [simp]:
  "length pad = 7 \<Longrightarrow> length (meta_struct_bytes pad m) = k_meta_struct_bytes"
  by (simp add: meta_struct_bytes_def k_meta_struct_bytes_def)

lemma parse_meta_struct_bytes:
  "length pad = 7 \<Longrightarrow> parse_meta_struct (meta_struct_bytes pad m @ rest) = m"
  by (simp add: parse_meta_struct_def meta_struct_bytes_def le_value_le_bytes
      u64_words_chunk_types nth_append drop_append)

lemma read_at_exact: "drop off f = bs @ rest \<Longrightarrow> read_at off (length bs) f = bs"
  by (simp add: read_at_def)

lemma length_free_list_le:
  assumes "distinct fl" "\<And>n. n \<in> set fl \<Longrightarrow> n < (c :: u64)"
  shows "length fl \<le> unat c"
proof -
  have "unat ` set fl \<subseteq> {..<unat c}"
    using assms(2) by (auto simp: word_less_nat_alt)
  moreover have "inj_on unat (set fl)"
    by (rule inj_onI) (simp add: word_unat_eq_iff)
  ultimately have "card (set fl) \<le> card {..<unat c}"
    by (metis card_image card_mono finite_lessThan)
  then show ?thesis by (simp add: distinct_card assms(1))
qed

lemma dm_inv_free_count:
  assumes "dm_inv s"
  shows "unat (free_counts (dm_meta s) t) = length (dm_free_lists s t)"
proof -
  from assms have "length (dm_free_lists s t) \<le> unat (chunk_counts (dm_meta s) t)"
    by (intro length_free_list_le) (auto simp: dm_inv_def)
  also have "\<dots> < 2 ^ 64" using unsigned_less [of "chunk_counts (dm_meta s) t", where ?'a = nat] by simp
  finally have "length (dm_free_lists s t) < 2 ^ LENGTH(64)" by simp
  with assms show ?thesis by (simp add: dm_inv_def unat_of_nat)
qed

lemma load_free_lists_ok:
  "drop cursor (dm_meta_file s) = concat (map (\<lambda>t. u64s_bytes (fl t)) ts) \<Longrightarrow>
   cursor \<le> length (dm_meta_file s) \<Longrightarrow>
   (\<And>t. unat (free_counts (dm_meta s) t) = length (fl t)) \<Longrightarrow>
   (\<And>t n. n \<in> set (fl t) \<Longrightarrow> n < chunk_counts (dm_meta s) t) \<Longrightarrow>
   load_free_lists ts cursor s =
     (Inr (), s\<lparr>dm_free_lists := (\<lambda>t. if t \<in> set ts then fl t else dm_free_lists s t)\<rparr>)"
proof (induction ts arbitrary: cursor s)
  case Nil
  then show ?case by simp
next
  case (Cons t ts)
  let ?n = "unat (free_counts (dm_meta s) t)" and ?f = "dm_meta_file s"
  let ?s = "s\<lparr>dm_free_lists := (dm_free_lists s)(t := fl t)\<rparr>"
  have n: "?n = length (fl t)" by (rule Cons.prems(3))
  have d: "drop cursor ?f = u64s_bytes (fl t) @ concat (map (\<lambda>t. u64s_bytes (fl t)) ts)"
    using Cons.prems(1) by simp
  then have r: "u64_words ?n (read_at cursor (8 * ?n) ?f) = fl t"
    using read_at_exact [OF d] by (simp add: n)
  have "length (drop cursor ?f) \<ge> 8 * ?n" by (simp only: d length_append length_u64s_bytes n)
  with Cons.prems(2) have len: "cursor + 8 * ?n \<le> length ?f" by simp
  have "drop (cursor + 8 * ?n) ?f = drop (8 * ?n) (drop cursor ?f)" by (simp add: add.commute)
  then have d': "drop (cursor + 8 * ?n) (dm_meta_file ?s) = concat (map (\<lambda>t. u64s_bytes (fl t)) ts)"
    by (simp add: d n)
  have "(of_nat (length (fl t)) :: u64) = free_counts (dm_meta s) t"
    by (simp flip: n)
  then have same: "set_free_list t (fl t) ?s = ?s" by (simp add: set_free_list_def)
  have "load_free_lists ts (cursor + 8 * ?n) ?s =
      (Inr (), ?s\<lparr>dm_free_lists := (\<lambda>t'. if t' \<in> set ts then fl t' else dm_free_lists ?s t')\<rparr>)"
    by (rule Cons.IH [OF d']) (use Cons.prems len in simp_all)
  moreover have "\<not> list_ex (\<lambda>no. no \<ge> chunk_counts (dm_meta s) t) (fl t)"
    using Cons.prems(4) by (auto simp: list_ex_iff not_le)
  moreover have "(\<lambda>t'. if t' \<in> set ts then fl t' else dm_free_lists ?s t') =
      (\<lambda>t'. if t' \<in> set (t # ts) then fl t' else dm_free_lists s t')"
    by auto
  ultimately show ?case
    using r len same by (simp add: Let_def)
qed

text \<open>Closing and opening again restores the allocation state and the chunks.\<close>

definition good_meta :: "disk_manager_t \<Rightarrow> bool" where
  "good_meta s \<longleftrightarrow> meta_magic (dm_meta s) = k_meta_magic \<and> meta_version (dm_meta s) = k_meta_version
     \<and> meta_chunk_levels (dm_meta s) = of_nat k_chunk_levels"

lemma load_meta_flushed:
  assumes inv: "dm_inv s" and good: "good_meta s" and pad: "length pad = 7"
    and u: "dm_meta_file u = meta_struct_bytes pad (dm_meta s)
              @ concat (map (\<lambda>t. u64s_bytes (dm_free_lists s t)) chunk_types)"
    and nt: "\<not> opt_truncate (dm_options u)"
  shows "load_meta io u = (Inr (), u\<lparr>dm_meta := dm_meta s, dm_free_lists := dm_free_lists s\<rparr>)"
proof -
  let ?u = "u\<lparr>dm_free_lists := (\<lambda>_. []), dm_meta := dm_meta s\<rparr>"
  have p: "parse_meta_struct (dm_meta_file u) = dm_meta s"
    by (simp add: u parse_meta_struct_bytes [OF pad])
  have len: "k_meta_struct_bytes \<le> length (dm_meta_file u)"
    by (simp add: u pad)
  have all: "t \<in> set chunk_types" for t
    by (cases t) (simp_all add: chunk_types_def)
  have "load_free_lists chunk_types k_meta_struct_bytes ?u =
      (Inr (), ?u\<lparr>dm_free_lists := (\<lambda>t. if t \<in> set chunk_types then dm_free_lists s t
                                       else dm_free_lists ?u t)\<rparr>)"
    by (rule load_free_lists_ok)
      (use len inv in \<open>simp_all add: u pad dm_inv_free_count\<close>,
        use inv in \<open>auto simp: dm_inv_def\<close>)
  with p len nt good show ?thesis
    by (simp add: load_meta_def Let_def good_meta_def all not_less)
qed

lemma open_chunk_files_all:
  assumes "\<not> opt_truncate (dm_options s)" "\<And>t. on_disk t = Some (f t)"
  shows "open_chunk_files chunk_types on_disk s =
    (Inr (), s\<lparr>dm_chunk_files := f, dm_chunk_open := (\<lambda>_. True), dm_read_fd_open := (\<lambda>_. True)\<rparr>)"
proof -
  have "g(Chunk_4kb := h Chunk_4kb, Chunk_64kb := h Chunk_64kb, Chunk_512kb := h Chunk_512kb,
      Chunk_2mb := h Chunk_2mb) = h" for g h :: "chunk_type_t \<Rightarrow> 'c"
    by (rule ext) (auto, metis chunk_type_t.exhaust)
  from this [of _ f] this [of _ "\<lambda>_. True"] assms show ?thesis
    by (simp add: chunk_types_def prepare_file_def)
qed

lemma set_huge_page_simps:
  "dm_live (s\<lparr>dm_meta := (dm_meta s)\<lparr>meta_huge_page_enabled := b\<rparr>\<rparr>) = dm_live s"
  "dm_contents (s\<lparr>dm_meta := (dm_meta s)\<lparr>meta_huge_page_enabled := b\<rparr>\<rparr>) = dm_contents s"
proof -
  show l: "dm_live (s\<lparr>dm_meta := (dm_meta s)\<lparr>meta_huge_page_enabled := b\<rparr>\<rparr>) = dm_live s"
    by (rule dm_live_eqI) (simp add: dm_live_make)
  show "dm_contents (s\<lparr>dm_meta := (dm_meta s)\<lparr>meta_huge_page_enabled := b\<rparr>\<rparr>) = dm_contents s"
    by (rule ext) (simp add: dm_contents_def l cong: sum.case_cong)
qed

lemma configure_huge_page_contents:
  "dm_contents (snd (configure_huge_page_hint available s)) = dm_contents s"
  by (cases "huge_page_policy (dm_options s)")
    (simp_all add: configure_huge_page_hint_def Let_def set_huge_page_simps)

lemma configure_huge_page_returns:
  "huge_page_policy (dm_options s) \<noteq> Huge_require \<Longrightarrow>
   fst (configure_huge_page_hint available s) = Inr ()"
  by (cases "huge_page_policy (dm_options s)") (simp_all add: configure_huge_page_hint_def Let_def)

lemma dm_contents_cong:
  assumes "dm_meta s = dm_meta u" "dm_free_lists s = dm_free_lists u"
    "dm_chunk_files s = dm_chunk_files u"
  shows "dm_contents s = dm_contents u"
proof -
  have "dm_live s = dm_live u"
    by (rule dm_live_eqI) (simp add: dm_live_make assms)
  then show ?thesis by (intro ext) (simp add: dm_contents_def assms cong: sum.case_cong)
qed

lemma close_open_contents:
  assumes inv: "dm_inv s" "good_meta s" and opn: "dm_meta_open s"
    and cl: "close_dm cio s = (Inr (), s1)" "length (meta_pad cio) = 7"
    and opts: "\<not> opt_truncate opts" "huge_page_policy opts \<noteq> Huge_require"
    and op: "open_dm cio' io opts (Some (dm_meta_file s1)) (\<lambda>t. Some (dm_chunk_files s1 t)) available s1 = (r, s2)"
  shows "r = Inr () \<and> dm_contents s2 = dm_contents s"
proof -
  have fc: "(\<lambda>t. of_nat (length (dm_free_lists s t))) = free_counts (dm_meta s)"
    using inv(1) by (auto simp: dm_inv_def)
  from cl(1) opn have s1: "dm_meta_file s1 = meta_struct_bytes (meta_pad cio) (dm_meta s)
        @ concat (map (\<lambda>t. u64s_bytes (dm_free_lists s t)) chunk_types)"
    "dm_chunk_files s1 = dm_chunk_files s" "\<not> dm_meta_open s1"
    by (auto simp: close_dm_def flush_meta_def Let_def fc split: prod.splits sum.splits option.splits
        if_splits)
  have c1: "close_dm cio' s1 = (Inr (), s1\<lparr>dm_meta_open := False, dm_chunk_open := (\<lambda>_. False),
                      dm_read_fd_open := (\<lambda>_. False)\<rparr>)"
    using s1(3) by (simp add: close_dm_def flush_meta_def)
  define u where "u = s1\<lparr>dm_options := opts, dm_meta_open := True, dm_chunk_open := (\<lambda>_. True),
      dm_read_fd_open := (\<lambda>_. True)\<rparr>"
  let ?v = "u\<lparr>dm_meta := dm_meta s, dm_free_lists := dm_free_lists s\<rparr>"
  have lm: "load_meta io u = (Inr (), ?v)"
    by (rule load_meta_flushed [OF inv cl(2)]) (simp_all add: u_def s1 opts)
  have "open_dm cio' io opts (Some (dm_meta_file s1)) (\<lambda>t. Some (dm_chunk_files s1 t)) available s1 =
      configure_huge_page_hint available ?v"
    using open_chunk_files_all [of "s1\<lparr>dm_chunk_open := (\<lambda>_. False),
        dm_read_fd_open := (\<lambda>_. False), dm_options := opts, dm_meta_open := True\<rparr>" "\<lambda>t. Some (dm_chunk_files s1 t)"
        "dm_chunk_files s1"] opts(1) lm
    by (simp add: open_dm_def c1 Let_def prepare_file_def u_def)
  with op have o: "configure_huge_page_hint available ?v = (r, s2)" by simp
  have "dm_contents ?v = dm_contents s"
    by (rule dm_contents_cong) (simp_all add: u_def s1)
  with o configure_huge_page_contents [of available ?v] configure_huge_page_returns [of ?v available] opts(2)
  show ?thesis by (simp add: u_def)
qed

subsection \<open>Runs\<close>

text \<open>
  One call of a client, with any behaviour of the operating system.  An exception leaves the
  state of the second component.
\<close>

inductive dm_step :: "disk_manager_t \<Rightarrow> disk_manager_t \<Rightarrow> bool" where
  step_allocate: "unat (chunk_counts (dm_meta s) t) < 2 ^ 62 \<Longrightarrow> dm_step s (snd (allocate_chunk io t s))"
| step_delete: "dm_step s (snd (delete_chunk i s))"
| step_write: "dm_step s (snd (write_chunk io i data s))"
| step_write_new: "unat (chunk_counts (dm_meta s) t) < 2 ^ 62 \<Longrightarrow>
    dm_step s (snd (write_new_chunk rio wio t data s))"
| step_flush: "dm_step s (snd (flush_meta mio s))"

definition dm_start :: "disk_manager_t \<Rightarrow> bool" where
  "dm_start s \<longleftrightarrow> dm_meta s = default_meta \<and> (\<forall>t. dm_free_lists s t = [])"

lemma dm_inv_start: "dm_start s \<Longrightarrow> dm_inv s"
  by (simp add: dm_start_def dm_inv_def default_meta_def)

lemma dm_inv_flush [inv_intros]: "dm_inv s \<Longrightarrow> dm_inv (snd (flush_meta mio s))"
  by (auto simp: dm_inv_def flush_meta_def Let_def split: option.splits)

lemma write_new_chunk_cases:
  obtains (alloc) e where "allocate_chunk rio t s = (Inl e, snd (allocate_chunk rio t s))"
      "write_new_chunk rio wio t data s = (Inl e, snd (allocate_chunk rio t s))"
  | (ok) i s1 s2 where "allocate_chunk rio t s = (Inr i, s1)" "write_chunk wio i data s1 = (Inr (), s2)"
      "write_new_chunk rio wio t data s = (Inr i, s2)"
  | (undo) i s1 s2 e e' where "allocate_chunk rio t s = (Inr i, s1)" "write_chunk wio i data s1 = (Inl e, s2)"
      "write_new_chunk rio wio t data s = (Inl e', snd (delete_chunk i s2))"
      "fst (delete_chunk i s2) = Inr () \<Longrightarrow> e' = e"
proof (cases "allocate_chunk rio t s")
  case (Pair r s1)
  show ?thesis
  proof (cases r)
    case (Inl e)
    with Pair show ?thesis by (intro alloc) (auto simp: write_new_chunk_def)
  next
    case (Inr i)
    obtain r' s2 where w: "write_chunk wio i data s1 = (r', s2)" by (cases "write_chunk wio i data s1")
    show ?thesis
    proof (cases r')
      case (Inl e)
      with Pair Inr w show ?thesis
        by (intro undo [of i s1 e s2 "case fst (delete_chunk i s2) of Inl e' \<Rightarrow> e' | Inr _ \<Rightarrow> e"])
          (auto simp: write_new_chunk_def split: prod.splits sum.splits)
    next
      case (Inr u)
      with Pair \<open>r = Inr i\<close> w show ?thesis by (intro ok) (auto simp: write_new_chunk_def)
    qed
  qed
qed

lemma write_new_chunk_inv [inv_intros]:
  assumes "dm_inv s" "unat (chunk_counts (dm_meta s) t) < 2 ^ 62"
  shows "dm_inv (snd (write_new_chunk rio wio t data s))"
  using allocate_inv [OF assms, of rio]
  by (cases rule: write_new_chunk_cases [of rio t s wio data])
    (auto intro: delete_inv dest: dm_inv_writeD)

interpretation dm_run: invariant_system dm_start dm_step dm_inv
proof unfold_locales
  fix s u assume inv: "dm_inv s" and "dm_step s u"
  from this(2) inv show "dm_inv u" by cases (auto intro: inv_intros)
qed (rule dm_inv_start)

lemma write_new_chunk_undo:
  assumes inv: "dm_inv s" "unat (chunk_counts (dm_meta s) t) < 2 ^ 62"
    and a: "allocate_chunk rio t s = (Inr i, s1)" and w: "write_chunk wio i data s1 = (Inl e, s2)"
  shows "write_new_chunk rio wio t data s = (Inl e, snd (delete_chunk i s2))"
    and "dm_live (snd (delete_chunk i s2)) = dm_live s"
proof -
  from w have "dm_live s2 = dm_live s1" by (metis snd_conv write_chunk_live)
  with allocate_Inr [OF inv a] have l: "i \<in> dm_live s2" "dm_live s2 = insert i (dm_live s)"
    and n: "i \<notin> dm_live s" by auto
  from delete_removes [OF l(1)] l n show "dm_live (snd (delete_chunk i s2)) = dm_live s" by simp
  from delete_removes(2) [OF l(1)] a w
  show "write_new_chunk rio wio t data s = (Inl e, snd (delete_chunk i s2))"
    by (cases rule: write_new_chunk_cases [of rio t s wio data]) auto
qed

subsection \<open>Properties\<close>

lemma load_chunk_returns:
  assumes "i \<in> dm_live s" "decode_chunk_id i = Inr a" "dm_read_fd_open s (pa_type a)"
    "Pread_failed \<notin> set answers"
    "unat (pa_size a) \<le> length (filter (\<lambda>x. x \<noteq> Interrupted) answers)"
  shows "load_chunk answers i False s = Some (Inr (the (dm_contents s i)))"
proof -
  from pread_loop_returns [OF assms(4), of "unat (pa_size a)" "[]"] assms(5)
  obtain out where o: "pread_loop answers (dm_chunk_files s (pa_type a)) (unat (pa_offset a))
      (unat (pa_size a)) [] = Some (Inr out)" by fastforce
  with assms have l: "load_chunk answers i False s = Some (Inr out)"
    by (simp add: load_chunk_def bindE_def dm_live_def)
  with load_chunk_contents [OF l] show ?thesis by simp
qed

definition dm_demo :: disk_manager_t where
  "dm_demo = \<lparr>dm_meta = default_meta,
     dm_options = \<lparr>create_if_missing = True, opt_truncate = False, sync_on_write = False,
                   huge_page_policy = Huge_prefer\<rparr>,
     dm_meta_open = True, dm_chunk_open = (\<lambda>_. True), dm_read_fd_open = (\<lambda>_. True),
     dm_free_lists = (\<lambda>_. []), dm_meta_file = [], dm_chunk_files = (\<lambda>_. [])\<rparr>"

lemma dm_demo_inv: "dm_inv dm_demo" "dm_start dm_demo"
  by (simp_all add: dm_inv_def dm_demo_def default_meta_def dm_start_def)

text \<open>A manager in which one 4 KB chunk (identifier 0) is allocated.\<close>

definition dm_demo1 :: disk_manager_t where
  "dm_demo1 = dm_demo\<lparr>dm_meta := default_meta\<lparr>chunk_counts := (\<lambda>_. 0)(Chunk_4kb := 1)\<rparr>\<rparr>"

lemma dm_demo1_inv: "dm_inv dm_demo1"
  by (simp add: dm_inv_def dm_demo1_def dm_demo_def default_meta_def)

lemma id_0: "chunk_type 0 = Inr Chunk_4kb" "chunk_no 0 = 0"
  "decode_chunk_id 0 = Inr \<lparr>pa_type = Chunk_4kb, pa_chunk_no = 0, pa_offset = 0, pa_size = 4096\<rparr>"
  by (simp_all add: chunk_type_def chunk_no_def decode_chunk_id_def k_chunk_levels_def chunk_types_def)

lemma dm_demo1_live: "0 \<in> dm_live dm_demo1"
  by (simp add: dm_live_def validate_chunk_id_def id_0 dm_demo1_def dm_demo_def default_meta_def)

text \<open>A chunk identifier is the type in the top two bits and the number in the other 62: the
  accessors recover exactly the pair it was made from, every 64-bit value is the identifier of
  its own type and number, and a number that does not fit in 62 bits is refused with
  \<open>out_of_range\<close>.\<close>

theorem chunk_id_roundtrip:
  "(make_chunk_id t n = Inr i \<longleftrightarrow> chunk_type i = Inr t \<and> chunk_no i = n)
   \<and> (make_chunk_id t n = Inl e \<longleftrightarrow> e = Out_of_range \<and> unat n \<ge> 2 ^ 62)"
proof (intro conjI iffI)
  assume a: "chunk_type i = Inr t \<and> chunk_no i = n"
  obtain t' where "chunk_type i = Inr t'" "make_chunk_id t' (chunk_no i) = Inr i"
    by (rule chunk_id_cases)
  with a show "make_chunk_id t n = Inr i" by simp
qed (auto simp: chunk_type_make chunk_no_make make_chunk_id_eq split: if_splits)

text \<open>C17: In every state that calls of the manager reach from a fresh one, the free lists hold
  distinct numbers of allocated chunks, the free counters are their lengths, and the next
  successful allocation returns an identifier of the requested type that no live chunk has;
  deleting it again gives back the live set.\<close>

theorem reachable_allocation_fresh:
  assumes "dm_start s" "dm_step\<^sup>*\<^sup>* s u" "unat (chunk_counts (dm_meta u) t) < 2 ^ 62"
    "allocate_chunk io t u = (Inr i, v)"
  shows "dm_inv u \<and> chunk_type i = Inr t \<and> i \<notin> dm_live u \<and> dm_live v = insert i (dm_live u)
    \<and> dm_live (snd (delete_chunk i v)) = dm_live u"
proof -
  have inv: "dm_inv u" using assms(1,2) by (rule dm_run.reachable_invar)
  from assms(3,4) have "dm_alloc io t u = (Some i, v)" by (simp add: dm_alloc_def)
  from dm.alloc_release_live [OF inv this] allocate_Inr [OF inv assms(3,4)] inv
  show ?thesis by blast
qed

lemma reachable_allocation_fresh_witness:
  "\<exists>i v. allocate_chunk Fallocated Chunk_4kb dm_demo = (Inr i, v) \<and> chunk_type i = Inr Chunk_4kb
     \<and> dm_live v = insert i (dm_live dm_demo)"
proof -
  have "\<exists>v. allocate_chunk Fallocated Chunk_4kb dm_demo = (Inr 0, v)"
    by (simp add: allocate_chunk_def dm_demo_def default_meta_def make_chunk_id_eq)
  then obtain v where v: "allocate_chunk Fallocated Chunk_4kb dm_demo = (Inr 0, v)" ..
  have "unat (chunk_counts (dm_meta dm_demo) Chunk_4kb) < 2 ^ 62"
    by (simp add: dm_demo_def default_meta_def)
  from reachable_allocation_fresh [OF dm_demo_inv(2) rtranclp.rtrancl_refl this v] v
  show ?thesis by blast
qed

text \<open>A batch of allocations on a consistent manager returns pairwise distinct identifiers,
  none of which was live, and never ends the life of another chunk.\<close>

theorem allocate_batch_distinct:
  assumes "dm_inv s" "allocate_many (dm_alloc io t) n s = (is, u)"
  shows "distinct is \<and> set is \<inter> dm_live s = {} \<and> set is \<union> dm_live s \<subseteq> dm_live u \<and> dm_inv u
    \<and> (length is = n \<longrightarrow> dm_live u = set is \<union> dm_live s)"
  using assms by (rule dm.allocate_many_spec)

lemma allocate_batch_distinct_witness:
  "\<exists>is u. allocate_many (dm_alloc Fallocated Chunk_4kb) 2 dm_demo = (is, u) \<and> distinct is"
  using allocate_batch_distinct [OF dm_demo_inv(1)] by (metis surj_pair)

text \<open>C18: After a write that returned and whose padding reached the file, a load of the same chunk
  that returns delivers the written bytes followed by zeros up to the chunk size, however the
  kernel split the reads; every other chunk holds what it held before, whether the write
  returned or threw.\<close>

theorem write_then_load:
  assumes "write_chunk io i (Some bytes) s = (Inr (), s')" "zero_fault io = None"
    "load_chunk answers i False s' = Some (Inr out)"
  shows "out = bytes @ replicate (length out - length bytes) 0 \<and> length bytes \<le> length out
    \<and> (\<exists>t. chunk_type i = Inr t \<and> length out = unat (chunk_size t))
    \<and> (\<forall>j. j \<noteq> i \<longrightarrow> dm_contents s' j = dm_contents s j)"
proof -
  from assms(1,2) obtain a where a: "decode_chunk_id i = Inr a" "length bytes \<le> unat (pa_size a)"
    and c: "dm_contents s' i = Some (bytes @ replicate (unat (pa_size a) - length bytes) 0)"
    by (rule write_chunk_Inr) auto
  from c load_chunk_contents [OF assms(3)]
  have o: "out = bytes @ replicate (unat (pa_size a) - length bytes) 0" by simp
  with a(2) have "length out = unat (pa_size a)" by simp
  moreover have "dm_contents s' j = dm_contents s j" if "j \<noteq> i" for j
    using write_chunk_frame [OF that, of io "Some bytes" s] assms(1) by simp
  ultimately show ?thesis using decode_Inr [OF a(1)] a(2) o by (metis)
qed

lemma write_then_load_witness:
  "\<exists>s' out. write_chunk no_fault 0 (Some [7, 9]) dm_demo1 = (Inr (), s')
     \<and> load_chunk (replicate 4096 (Got 1)) 0 False s' = Some (Inr out)
     \<and> out = [7, 9] @ replicate (length out - 2) 0"
proof -
  have "fst (write_chunk no_fault 0 (Some [7, 9]) dm_demo1) = Inr ()"
    using dm_demo1_live
    by (simp add: write_chunk_def dm_live_def id_0 bindE_def Let_def no_fault_def dm_demo1_def dm_demo_def)
  then obtain s' where w: "write_chunk no_fault 0 (Some [7, 9]) dm_demo1 = (Inr (), s')"
    by (metis prod.collapse)
  have z: "zero_fault no_fault = None" by (simp add: no_fault_def)
  have rd: "dm_read_fd_open s' = (\<lambda>_. True)"
    using w by (auto simp: write_chunk_def bindE_def id_0 Let_def no_fault_def dm_demo1_def dm_demo_def
        split: sum.splits if_splits)
  have live: "0 \<in> dm_live s'"
    using dm_demo1_live w write_chunk_live [of no_fault 0 "Some [7, 9]" dm_demo1] by simp
  have "load_chunk (replicate 4096 (Got 1)) 0 False s' = Some (Inr (the (dm_contents s' 0)))"
    by (rule load_chunk_returns [OF live id_0(3)]) (simp_all add: rd)
  with w write_then_load [OF w z this] show ?thesis by auto
qed

text \<open>Loading a live chunk through an open descriptor returns, and returns exactly the bytes of
  that chunk in the file, for every sequence of short reads and interruptions that holds as many
  successful transfers as the chunk has bytes.\<close>

theorem load_chunk_total:
  assumes "i \<in> dm_live s" "decode_chunk_id i = Inr a" "dm_read_fd_open s (pa_type a)"
    "Pread_failed \<notin> set answers"
    "unat (pa_size a) \<le> length (filter (\<lambda>x. x \<noteq> Interrupted) answers)"
  shows "load_chunk answers i False s =
    Some (Inr (read_at (unat (pa_offset a)) (unat (pa_size a)) (dm_chunk_files s (pa_type a))))"
  using load_chunk_returns [OF assms] assms(1,2) by (simp add: dm_contents_def)

lemma load_chunk_total_witness:
  "load_chunk (Interrupted # replicate 4096 (Got 5)) 0 False dm_demo1 = Some (Inr (read_at 0 4096 []))"
  using load_chunk_total [OF dm_demo1_live id_0(3), of "Interrupted # replicate 4096 (Got 5)"]
  by (simp add: dm_demo1_def dm_demo_def)

text \<open>C38: \<open>write_new_chunk\<close> either returns a fresh identifier whose chunk holds the data padded with
  zeros, or throws; when the allocation succeeded and the write threw, the chunk is released again
  and the exception is the one of the write.\<close>

theorem write_new_chunk_correct:
  assumes "dm_inv s" "unat (chunk_counts (dm_meta s) t) < 2 ^ 62" "zero_fault wio = None"
    "fst (allocate_chunk rio t s) = Inr i"
  shows "case write_new_chunk rio wio t data s of
      (Inr j, u) \<Rightarrow> j = i \<and> i \<notin> dm_live s \<and> dm_live u = insert i (dm_live s)
        \<and> (\<exists>bytes n. data = Some bytes \<and> dm_contents u i = Some (bytes @ replicate n 0))
    | (Inl e, u) \<Rightarrow> dm_live u = dm_live s
        \<and> fst (write_chunk wio i data (snd (allocate_chunk rio t s))) = Inl e"
proof -
  from assms(4) have a: "allocate_chunk rio t s = (Inr i, snd (allocate_chunk rio t s))"
    by (metis prod.collapse)
  show ?thesis
  proof (cases rule: write_new_chunk_cases [of rio t s wio data])
    case (alloc e)
    from a alloc(1) have False by (metis Pair_inject sum.distinct(1))
    then show ?thesis ..
  next
    case (ok j s1 s2)
    with a have j: "j = i" by simp
    from ok(2) assms(3) obtain bytes n where "data = Some bytes"
      "dm_contents s2 j = Some (bytes @ replicate n 0)" by (rule write_chunk_Inr) auto
    moreover have "dm_live s2 = dm_live s1" using ok(2) write_chunk_live by (metis snd_conv)
    ultimately show ?thesis using allocate_Inr [OF assms(1,2) ok(1)] ok(3) j by auto
  next
    case (undo j s1 s2 e e')
    with a write_new_chunk_undo [OF assms(1,2) undo(1,2)] show ?thesis by simp
  qed
qed

lemma write_new_chunk_correct_witness:
  "dm_live (snd (write_new_chunk Fallocated no_fault Chunk_4kb None dm_demo)) = dm_live dm_demo"
proof -
  have "fst (allocate_chunk Fallocated Chunk_4kb dm_demo) = Inr 0"
    "unat (chunk_counts (dm_meta dm_demo) Chunk_4kb) < 2 ^ 62"
    by (simp_all add: allocate_chunk_def dm_demo_def default_meta_def make_chunk_id_eq)
  from write_new_chunk_correct [OF dm_demo_inv(1) this(2) _ this(1), of no_fault None]
  show ?thesis by (auto simp: no_fault_def split: prod.splits sum.splits)
qed

text \<open>When a new chunk number is taken and the file space cannot be reserved, \<open>allocate_chunk\<close>
  throws but the counter has already been advanced: an identifier nobody was given is live
  afterwards.\<close>

theorem failed_reserve_leaks_chunk:
  assumes "dm_inv s" "unat (chunk_counts (dm_meta s) t) < 2 ^ 62" "dm_free_lists s t = []"
  shows "fst (allocate_chunk Reserve_failed t s) = Inl Runtime_error
    \<and> (\<exists>i. make_chunk_id t (chunk_counts (dm_meta s) t) = Inr i \<and> i \<notin> dm_live s
         \<and> dm_live (snd (allocate_chunk Reserve_failed t s)) = insert i (dm_live s))"
proof -
  let ?i = "push_bit 62 (of_nat (chunk_index t)) OR chunk_counts (dm_meta s) t"
  have i: "make_chunk_id t (chunk_counts (dm_meta s) t) = Inr ?i"
    using assms(2) by (simp add: make_chunk_id_eq)
  have r: "fst (allocate_chunk Reserve_failed t s) = Inl Runtime_error"
    using assms(3) by (simp add: allocate_chunk_def)
  then have "allocate_chunk Reserve_failed t s =
      (Inl Runtime_error, snd (allocate_chunk Reserve_failed t s))" by (metis prod.collapse)
  from allocate_Inl(2) [OF assms(1,2) this i] i r show ?thesis by (auto simp: dm_live_make)
qed

lemma failed_reserve_leaks_chunk_witness:
  "\<exists>i. i \<notin> dm_live dm_demo
     \<and> i \<in> dm_live (snd (allocate_chunk Reserve_failed Chunk_2mb dm_demo))"
proof -
  have "unat (chunk_counts (dm_meta dm_demo) Chunk_2mb) < 2 ^ 62" "dm_free_lists dm_demo Chunk_2mb = []"
    by (simp_all add: dm_demo_def default_meta_def)
  from failed_reserve_leaks_chunk [OF dm_demo_inv(1) this] show ?thesis by auto
qed

text \<open>C23: Closing a consistent manager and opening the files again, without truncation, restores the
  same live chunks with the same bytes.\<close>

theorem close_open_restores:
  assumes "dm_inv s" "good_meta s" "dm_meta_open s"
    "close_dm cio s = (Inr (), s1)" "length (meta_pad cio) = 7"
    "\<not> opt_truncate opts" "huge_page_policy opts \<noteq> Huge_require"
    "open_dm cio' io opts (Some (dm_meta_file s1)) (\<lambda>t. Some (dm_chunk_files s1 t)) available s1 = (r, s2)"
  shows "r = Inr () \<and> dm_contents s2 = dm_contents s"
  using assms by (rule close_open_contents)

lemma close_open_restores_witness:
  "\<exists>s1 s2. close_dm \<lparr>meta_torn = None, meta_pad = replicate 7 0, meta_sync_fault = False\<rparr> dm_demo1 = (Inr (), s1)
     \<and> dm_contents s2 = dm_contents dm_demo1"
proof -
  let ?c = "\<lparr>meta_torn = None, meta_pad = replicate 7 0, meta_sync_fault = False\<rparr>"
  have "fst (close_dm ?c dm_demo1) = Inr ()"
    by (simp add: close_dm_def flush_meta_def Let_def dm_demo1_def dm_demo_def)
  then obtain s1 where c: "close_dm ?c dm_demo1 = (Inr (), s1)" by (metis prod.collapse)
  have g: "good_meta dm_demo1" "dm_meta_open dm_demo1" "\<not> opt_truncate (dm_options dm_demo1)"
    "huge_page_policy (dm_options dm_demo1) \<noteq> Huge_require"
    by (simp_all add: good_meta_def dm_demo1_def dm_demo_def default_meta_def)
  obtain r s2 where "open_dm ?c ?c (dm_options dm_demo1) (Some (dm_meta_file s1))
      (\<lambda>t. Some (dm_chunk_files s1 t)) False s1 = (r, s2)" by (metis surj_pair)
  from close_open_restores [OF dm_demo1_inv g(1,2) c _ g(3,4) this] c show ?thesis by auto
qed

end
