(* ===== verification/Chunk_Pool.thy ===== *)
theory Chunk_Pool
  imports Allocator Disk_Manager
begin

text \<open>
  The frame pool of the chunk buffer (include/storage/chunk.h, include/storage/chunk_buf_pool.h,
  src/chunk_buf_pool.cc): per chunk type one allocation that holds an array of control blocks
  \<open>chunk_t\<close> followed by the data frames, and a stack of free slots.

  The control blocks are a list, the frame area is one list of bytes, and the pointer \<open>data_\<close> of a
  control block is an offset into it.  A \<open>chunk_t*\<close> is either the index of a control block of the
  level (\<open>Own\<close>) or some object outside it (\<open>Foreign\<close>).  Byte sizes are 64-bit words; slot
  indices are natural numbers.  The latch of a chunk is not modelled.
\<close>

subsection \<open>Control blocks\<close>

datatype chunk_state_t = State_free | State_resident

record chunk_t =
  c_data :: "u64 option"
  c_id :: u64
  c_type :: chunk_type_t
  c_size :: u64
  c_pin_count :: u64
  c_dirty :: bool
  c_referenced :: bool
  c_next :: "nat option"
  c_prev :: "nat option"
  c_state :: chunk_state_t

definition k_invalid_chunk_id :: u64 where
  "k_invalid_chunk_id = - 1"

definition default_chunk :: chunk_t where
  "default_chunk = \<lparr>c_data = None, c_id = k_invalid_chunk_id, c_type = Chunk_4kb, c_size = 0,
     c_pin_count = 0, c_dirty = False, c_referenced = False, c_next = None, c_prev = None,
     c_state = State_free\<rparr>"

definition bind_chunk :: "u64 \<Rightarrow> chunk_type_t \<Rightarrow> u64 option \<Rightarrow> u64 \<Rightarrow> chunk_t \<Rightarrow> chunk_t" where
  "bind_chunk chunk_id type data sz c =
     c\<lparr>c_id := chunk_id, c_type := type, c_data := data, c_size := sz, c_pin_count := 0,
       c_dirty := False, c_referenced := False, c_next := None, c_prev := None,
       c_state := State_free\<rparr>"

text \<open>The moved-from object keeps only its type.\<close>

definition move_chunk :: "chunk_t \<Rightarrow> chunk_t \<times> chunk_t" where
  "move_chunk other = (other, default_chunk\<lparr>c_type := c_type other\<rparr>)"

definition reset_flags :: "chunk_t \<Rightarrow> chunk_t" where
  "reset_flags c = c\<lparr>c_pin_count := 0, c_dirty := False, c_referenced := False\<rparr>"

definition zero_frame :: "chunk_t \<Rightarrow> u8 list \<Rightarrow> u8 list" where
  "zero_frame c mem =
     (case c_data c of
        None \<Rightarrow> mem
      | Some off \<Rightarrow> if c_size c \<noteq> 0 then write_at (unat off) (replicate (unat (c_size c)) 0) mem
                    else mem)"

definition inc_pin_count :: "chunk_t \<Rightarrow> u64 \<times> chunk_t" where
  "inc_pin_count c = (c_pin_count c + 1, c\<lparr>c_pin_count := c_pin_count c + 1\<rparr>)"

definition dec_pin_count :: "chunk_t \<Rightarrow> u64 \<times> chunk_t" where
  "dec_pin_count c = (c_pin_count c - 1, c\<lparr>c_pin_count := c_pin_count c - 1\<rparr>)"

subsection \<open>One level of the pool\<close>

record chunk_level_pool_t =
  lv_type :: chunk_type_t
  lv_chunks :: "chunk_t list"
  lv_frames :: "u8 list"
  lv_chunk_count :: u64
  lv_chunk_size :: u64
  lv_control_bytes :: u64
  lv_data_offset :: u64
  lv_total_bytes :: u64
  lv_free_slots :: "nat list"

definition k_data_alignment :: u64 where
  "k_data_alignment = 4096"

definition align_up :: "u64 \<Rightarrow> u64 \<Rightarrow> u64" where
  "align_up val alignment = (val + alignment - 1) div alignment * alignment"

definition destroy_level :: "chunk_level_pool_t \<Rightarrow> chunk_level_pool_t" where
  "destroy_level l = l\<lparr>lv_chunks := [], lv_frames := [], lv_chunk_count := 0, lv_chunk_size := 0,
     lv_control_bytes := 0, lv_data_offset := 0, lv_total_bytes := 0, lv_free_slots := []\<rparr>"

definition empty_level :: chunk_level_pool_t where
  "empty_level = \<lparr>lv_type = Chunk_4kb, lv_chunks = [], lv_frames = [], lv_chunk_count = 0,
     lv_chunk_size = 0, lv_control_bytes = 0, lv_data_offset = 0, lv_total_bytes = 0,
     lv_free_slots = []\<rparr>"

text \<open>The loop that constructs the control blocks; \<open>make_chunk_id\<close> may throw.\<close>

fun bind_chunks :: "chunk_type_t \<Rightarrow> u64 \<Rightarrow> nat \<Rightarrow> nat \<Rightarrow> exn + chunk_t list" where
  "bind_chunks type sz i 0 = Inr []"
| "bind_chunks type sz i (Suc n) =
     bindE (make_chunk_id type (of_nat i)) (\<lambda>chunk_id.
       bindE (bind_chunks type sz (Suc i) n) (\<lambda>rest.
         Inr (bind_chunk chunk_id type (Some (of_nat i * sz)) sz default_chunk # rest)))"

text \<open>\<open>sizeof_chunk\<close> is \<open>sizeof(chunk_t)\<close>, which the platform decides.\<close>

definition init_level ::
  "u64 \<Rightarrow> chunk_type_t \<Rightarrow> u64 \<Rightarrow> chunk_level_pool_t \<Rightarrow> (chunk_level_pool_t, unit) outcome" where
  "init_level sizeof_chunk type count l =
     (let l1 = (destroy_level l)\<lparr>lv_type := type, lv_chunk_count := count,
                 lv_chunk_size := ucast (chunk_size type)\<rparr>
      in if count = 0 then (Inr (), l1)
         else
           let control = sizeof_chunk * count;
               off = align_up control k_data_alignment;
               data_bytes = lv_chunk_size l1 * count;
               l2 = l1\<lparr>lv_control_bytes := control, lv_data_offset := off,
                       lv_total_bytes := off + data_bytes,
                       lv_frames := replicate (unat data_bytes) 0\<rparr>
           in case bind_chunks type (lv_chunk_size l1) 0 (unat count) of
                Inl e \<Rightarrow> (Inl e, l2)
              | Inr cs \<Rightarrow> (Inr (), l2\<lparr>lv_chunks := cs, lv_free_slots := rev [0..<unat count]\<rparr>))"

definition get_chunk :: "nat \<Rightarrow> chunk_level_pool_t \<Rightarrow> chunk_t option" where
  "get_chunk i l = (if i \<ge> unat (lv_chunk_count l) then None else Some (lv_chunks l ! i))"

definition get_data_frame :: "nat \<Rightarrow> chunk_level_pool_t \<Rightarrow> u64 option" where
  "get_data_frame i l =
     (if i \<ge> unat (lv_chunk_count l) then None else Some (of_nat i * lv_chunk_size l))"

definition level_allocate :: "chunk_level_pool_t \<Rightarrow> nat option \<times> chunk_level_pool_t" where
  "level_allocate l =
     (if lv_free_slots l = [] then (None, l)
      else
        let i = last (lv_free_slots l); c = lv_chunks l ! i
        in (Some i, l\<lparr>lv_free_slots := butlast (lv_free_slots l),
              lv_frames := zero_frame c (lv_frames l),
              lv_chunks := (lv_chunks l)[i :=
                (reset_flags c)\<lparr>c_state := State_resident, c_referenced := True\<rparr>]\<rparr>))"

datatype chunk_ptr = Null | Own nat | Foreign chunk_t

fun deref :: "chunk_ptr \<Rightarrow> chunk_level_pool_t \<Rightarrow> chunk_t" where
  "deref Null l = default_chunk"
| "deref (Own i) l = lv_chunks l ! i"
| "deref (Foreign c) l = c"

definition level_release ::
  "chunk_ptr \<Rightarrow> chunk_level_pool_t \<Rightarrow> (chunk_level_pool_t, unit) outcome" where
  "level_release p l =
     (if p = Null \<or> c_state (deref p l) = State_free then (Inr (), l)
      else
        let c = deref p l; index = unat (chunk_no (c_id c))
        in if index \<ge> unat (lv_chunk_count l) \<or> p \<noteq> Own index
           then (Inl Invalid_argument, l)
           else (Inr (), l\<lparr>lv_frames := zero_frame c (lv_frames l),
                  lv_chunks := (lv_chunks l)[index := (reset_flags c)\<lparr>c_state := State_free\<rparr>],
                  lv_free_slots := lv_free_slots l @ [index]\<rparr>))"

definition move_level :: "chunk_level_pool_t \<Rightarrow> chunk_level_pool_t \<times> chunk_level_pool_t" where
  "move_level other = (other, destroy_level other)"

subsection \<open>The four levels\<close>

record chunk_buf_pool_t =
  bp_levels :: "chunk_type_t \<Rightarrow> chunk_level_pool_t"
  bp_total_chunk_count :: u64

fun init_levels ::
  "u64 \<Rightarrow> (chunk_type_t \<Rightarrow> u64) \<Rightarrow> chunk_type_t list \<Rightarrow> chunk_buf_pool_t
    \<Rightarrow> (chunk_buf_pool_t, unit) outcome" where
  "init_levels sizeof_chunk reserved [] b = (Inr (), b)"
| "init_levels sizeof_chunk reserved (t # ts) b =
     (case init_level sizeof_chunk t (reserved t) (bp_levels b t) of
        (Inl e, l) \<Rightarrow> (Inl e, b\<lparr>bp_levels := (bp_levels b)(t := l)\<rparr>)
      | (Inr _, l) \<Rightarrow> init_levels sizeof_chunk reserved ts
          (b\<lparr>bp_levels := (bp_levels b)(t := l),
             bp_total_chunk_count := bp_total_chunk_count b + reserved t\<rparr>))"

definition init_pool ::
  "u64 \<Rightarrow> (chunk_type_t \<Rightarrow> u64) \<Rightarrow> chunk_buf_pool_t \<Rightarrow> (chunk_buf_pool_t, unit) outcome" where
  "init_pool sizeof_chunk reserved b =
     init_levels sizeof_chunk reserved chunk_types (b\<lparr>bp_total_chunk_count := 0\<rparr>)"

definition pool_get_chunk :: "u64 \<Rightarrow> chunk_buf_pool_t \<Rightarrow> exn + chunk_t option" where
  "pool_get_chunk chunk_id b =
     bindE (chunk_type chunk_id) (\<lambda>t. Inr (get_chunk (unat (chunk_no chunk_id)) (bp_levels b t)))"

definition pool_allocate ::
  "chunk_type_t \<Rightarrow> chunk_buf_pool_t \<Rightarrow> (chunk_type_t \<times> nat) option \<times> chunk_buf_pool_t" where
  "pool_allocate t b =
     (case level_allocate (bp_levels b t) of
        (r, l) \<Rightarrow> (map_option (Pair t) r, b\<lparr>bp_levels := (bp_levels b)(t := l)\<rparr>))"

text \<open>A pointer into the pool is a level and an index; the level that releases it is the one its
  \<open>type_\<close> names, for which a block of another level is a foreign object.\<close>

definition pool_release ::
  "(chunk_type_t \<times> nat) option \<Rightarrow> chunk_buf_pool_t \<Rightarrow> (chunk_buf_pool_t, unit) outcome" where
  "pool_release p b =
     (case p of
        None \<Rightarrow> (Inr (), b)
      | Some (t, i) \<Rightarrow>
          let c = lv_chunks (bp_levels b t) ! i; t' = c_type c;
              (r, l) = level_release (if t' = t then Own i else Foreign c) (bp_levels b t')
          in (r, b\<lparr>bp_levels := (bp_levels b)(t' := l)\<rparr>))"

subsection \<open>Invariant\<close>

definition lv_live :: "chunk_level_pool_t \<Rightarrow> nat set" where
  "lv_live l = {i. i < length (lv_chunks l) \<and> c_state (lv_chunks l ! i) = State_resident}"

definition slot_ok :: "chunk_level_pool_t \<Rightarrow> nat \<Rightarrow> bool" where
  "slot_ok l i \<longleftrightarrow> make_chunk_id (lv_type l) (of_nat i) = Inr (c_id (lv_chunks l ! i))
     \<and> c_type (lv_chunks l ! i) = lv_type l \<and> c_size (lv_chunks l ! i) = lv_chunk_size l
     \<and> c_data (lv_chunks l ! i) = Some (of_nat i * lv_chunk_size l)"

definition lv_inv :: "chunk_level_pool_t \<Rightarrow> bool" where
  "lv_inv l \<longleftrightarrow> length (lv_chunks l) = unat (lv_chunk_count l)
     \<and> (\<forall>i < length (lv_chunks l). slot_ok l i)
     \<and> distinct (lv_free_slots l)
     \<and> set (lv_free_slots l) = {i. i < length (lv_chunks l) \<and> c_state (lv_chunks l ! i) = State_free}"

lemma lv_inv_slots:
  assumes "lv_inv l"
  shows "length (lv_chunks l) = unat (lv_chunk_count l)" "distinct (lv_free_slots l)"
    "i \<in> set (lv_free_slots l) \<longleftrightarrow> i < length (lv_chunks l) \<and> c_state (lv_chunks l ! i) = State_free"
    "i < length (lv_chunks l) \<Longrightarrow> slot_ok l i"
  using assms by (auto simp: lv_inv_def)

lemma not_free_iff: "c_state c \<noteq> State_free \<longleftrightarrow> c_state c = State_resident"
  by (cases "c_state c") simp_all

lemma slot_ok_no:
  "slot_ok l i \<Longrightarrow> i < unat (lv_chunk_count l) \<Longrightarrow> unat (chunk_no (c_id (lv_chunks l ! i))) = i"
proof -
  assume a: "slot_ok l i" and i: "i < unat (lv_chunk_count l)"
  have "i < 2 ^ 64" using i unsigned_less [of "lv_chunk_count l", where ?'a = nat] by simp
  then have "unat (of_nat i :: u64) = i" by (simp add: unat_of_nat take_bit_nat_eq_self)
  with a chunk_no_make show ?thesis by (auto simp: slot_ok_def)
qed

text \<open>Changing the state and flags of one block, the frames and the free stack.\<close>

lemma slot_ok_update:
  assumes "slot_ok l j" "c_id c = c_id (lv_chunks l ! i)" "c_type c = c_type (lv_chunks l ! i)"
    "c_size c = c_size (lv_chunks l ! i)" "c_data c = c_data (lv_chunks l ! i)" "j < length (lv_chunks l)"
  shows "slot_ok (l\<lparr>lv_frames := f, lv_chunks := (lv_chunks l)[i := c], lv_free_slots := fl\<rparr>) j"
  using assms by (cases "j = i") (simp_all add: slot_ok_def)

lemma reset_flags_simps [simp]:
  "c_id (reset_flags c) = c_id c" "c_type (reset_flags c) = c_type c"
  "c_size (reset_flags c) = c_size c" "c_data (reset_flags c) = c_data c"
  by (simp_all add: reset_flags_def)

lemma allocate_shape:
  assumes "lv_inv l" "lv_free_slots l \<noteq> []"
  obtains i c where "i = last (lv_free_slots l)" "i < length (lv_chunks l)"
    "c_state (lv_chunks l ! i) = State_free" "c_state c = State_resident" "slot_ok l i"
    "c = (reset_flags (lv_chunks l ! i))\<lparr>c_state := State_resident, c_referenced := True\<rparr>"
    "level_allocate l = (Some i, l\<lparr>lv_frames := zero_frame (lv_chunks l ! i) (lv_frames l),
        lv_chunks := (lv_chunks l)[i := c], lv_free_slots := butlast (lv_free_slots l)\<rparr>)"
proof -
  let ?i = "last (lv_free_slots l)"
  from assms(2) have "?i \<in> set (lv_free_slots l)" by simp
  with lv_inv_slots [OF assms(1)] have "?i < length (lv_chunks l)" "slot_ok l ?i"
    "c_state (lv_chunks l ! ?i) = State_free" by auto
  with assms(2) show ?thesis
    by (intro that [OF refl _ _ _ _ refl]) (simp_all add: level_allocate_def Let_def)
qed

lemma level_allocate_inv [inv_intros]: "lv_inv l \<Longrightarrow> lv_inv (snd (level_allocate l))"
proof (cases "lv_free_slots l = []")
  case False
  assume inv: "lv_inv l"
  from inv False obtain i c where i: "i = last (lv_free_slots l)" "i < length (lv_chunks l)"
    "c_state (lv_chunks l ! i) = State_free" "c_state c = State_resident"
    "c = (reset_flags (lv_chunks l ! i))\<lparr>c_state := State_resident, c_referenced := True\<rparr>"
    "level_allocate l = (Some i, l\<lparr>lv_frames := zero_frame (lv_chunks l ! i) (lv_frames l),
        lv_chunks := (lv_chunks l)[i := c], lv_free_slots := butlast (lv_free_slots l)\<rparr>)"
    by (rule allocate_shape)
  have "set (butlast (lv_free_slots l)) = set (lv_free_slots l) - {i}"
    using False inv i(1) by (simp add: lv_inv_def set_butlast_distinct)
  with inv i(2-4) show ?thesis
    by (auto simp: i(6) lv_inv_def distinct_butlast nth_list_update i(5) intro!: slot_ok_update)
qed (simp add: level_allocate_def)

lemma release_resident:
  assumes "lv_inv l" "i \<in> lv_live l"
  shows "level_release (Own i) l = (Inr (), l\<lparr>lv_frames := zero_frame (lv_chunks l ! i) (lv_frames l),
      lv_chunks := (lv_chunks l)[i := (reset_flags (lv_chunks l ! i))\<lparr>c_state := State_free\<rparr>],
      lv_free_slots := lv_free_slots l @ [i]\<rparr>)"
proof -
  from assms have i: "i < length (lv_chunks l)" "c_state (lv_chunks l ! i) = State_resident"
    by (auto simp: lv_live_def)
  with lv_inv_slots [OF assms(1)] slot_ok_no show ?thesis
    by (simp add: level_release_def Let_def)
qed

lemma level_release_inv [inv_intros]:
  assumes inv: "lv_inv l"
  shows "lv_inv (snd (level_release p l))"
proof (cases "\<exists>i. p = Own i \<and> i \<in> lv_live l")
  case True
  then obtain i where p: "p = Own i" "i \<in> lv_live l" by blast
  with inv show ?thesis
    unfolding p(1) release_resident [OF inv p(2)]
    by (auto simp: lv_inv_def lv_live_def nth_list_update intro!: slot_ok_update)
next
  case False
  have "snd (level_release p l) = l"
  proof (cases p)
    case (Own i)
    with False inv show ?thesis
      by (auto simp: level_release_def lv_live_def Let_def lv_inv_def not_free_iff)
  qed (auto simp: level_release_def Let_def)
  with inv show ?thesis by simp
qed

lemma level_allocate_live:
  assumes inv: "lv_inv l" and a: "level_allocate l = (Some i, l')"
  shows "i \<notin> lv_live l" "lv_live l' = insert i (lv_live l)"
proof -
  from a have "lv_free_slots l \<noteq> []" by (auto simp: level_allocate_def)
  with inv obtain j c where j: "j < length (lv_chunks l)" "c_state (lv_chunks l ! j) = State_free"
    "c_state c = State_resident"
    "level_allocate l = (Some j, l\<lparr>lv_frames := zero_frame (lv_chunks l ! j) (lv_frames l),
        lv_chunks := (lv_chunks l)[j := c], lv_free_slots := butlast (lv_free_slots l)\<rparr>)"
    by (rule allocate_shape)
  with a have ji: "j = i" and l': "l' = l\<lparr>lv_frames := zero_frame (lv_chunks l ! j) (lv_frames l),
        lv_chunks := (lv_chunks l)[j := c], lv_free_slots := butlast (lv_free_slots l)\<rparr>" by auto
  show "i \<notin> lv_live l" using j(2) ji by (simp add: lv_live_def)
  show "lv_live l' = insert i (lv_live l)"
    using j(1,3) by (auto simp: l' lv_live_def nth_list_update ji split: if_splits)
qed

lemma level_release_live:
  "lv_inv l \<Longrightarrow> i \<in> lv_live l \<Longrightarrow> lv_live (snd (level_release (Own i) l)) = lv_live l - {i}"
  by (auto simp: release_resident) (auto simp: lv_live_def nth_list_update split: if_splits)

interpretation level: slot_allocator level_allocate "\<lambda>i l. snd (level_release (Own i) l)" lv_live lv_inv
proof unfold_locales
  fix l l' and i r
  show "lv_inv l \<Longrightarrow> level_allocate l = (Some i, l') \<Longrightarrow> i \<notin> lv_live l"
    "lv_inv l \<Longrightarrow> level_allocate l = (Some i, l') \<Longrightarrow> lv_live l' = insert i (lv_live l)"
    using level_allocate_live by blast+
  show "level_allocate l = (None, l') \<Longrightarrow> lv_live l \<subseteq> lv_live l'"
    by (auto simp: level_allocate_def Let_def split: if_splits)
  show "lv_inv l \<Longrightarrow> level_allocate l = (r, l') \<Longrightarrow> lv_inv l'"
    by (metis level_allocate_inv snd_conv)
qed (auto simp: level_release_live intro: level_release_inv)

subsection \<open>Initialisation\<close>

lemma all_less_Suc_cons:
  "(\<forall>k < Suc n. P k) \<longleftrightarrow> P 0 \<and> (\<forall>k < n. P (Suc k))"
  using less_Suc_eq_0_disj by auto

text \<open>What the loop leaves in the block of slot \<open>i\<close>.\<close>

definition bound_slot :: "chunk_type_t \<Rightarrow> u64 \<Rightarrow> nat \<Rightarrow> chunk_t \<Rightarrow> bool" where
  "bound_slot type sz i c \<longleftrightarrow> make_chunk_id type (of_nat i) = Inr (c_id c) \<and> c_type c = type
     \<and> c_size c = sz \<and> c_data c = Some (of_nat i * sz) \<and> c_state c = State_free
     \<and> c_pin_count c = 0"

lemma bind_chunks_Inr:
  assumes "i + n \<le> 2 ^ 62"
  shows "\<exists>cs. bind_chunks type sz i n = Inr cs \<and> length cs = n
    \<and> (\<forall>k < n. bound_slot type sz (i + k) (cs ! k))"
  using assms
proof (induction n arbitrary: i)
  case (Suc n)
  from Suc.prems have "i < 2 ^ 62" and Si: "Suc i + n \<le> 2 ^ 62" by simp_all
  then have "unat (of_nat i :: u64) < 2 ^ 62" by (simp add: unat_of_nat take_bit_nat_eq_self)
  then obtain id0 where id0: "make_chunk_id type (of_nat i) = Inr id0" by (simp add: make_chunk_id_eq)
  let ?c = "bind_chunk id0 type (Some (of_nat i * sz)) sz default_chunk"
  from Suc.IH [OF Si] obtain cs where cs: "bind_chunks type sz (Suc i) n = Inr cs" "length cs = n"
    "\<forall>k < n. bound_slot type sz (Suc i + k) (cs ! k)" by blast
  have "bound_slot type sz i ?c" using id0 by (simp add: bound_slot_def bind_chunk_def)
  with cs(3) have "\<forall>k < Suc n. bound_slot type sz (i + k) ((?c # cs) ! k)"
    unfolding all_less_Suc_cons by simp
  moreover have "bind_chunks type sz i (Suc n) = Inr (?c # cs)" using id0 cs(1) by simp
  ultimately show ?case using cs(2) by (intro exI [of _ "?c # cs"]) simp
qed simp

lemma init_level_inv:
  assumes "unat n \<le> 2 ^ 62"
  shows "\<exists>l'. init_level sz t n l = (Inr (), l') \<and> lv_inv l' \<and> lv_live l' = {} \<and> lv_type l' = t
    \<and> lv_chunk_count l' = n \<and> lv_chunk_size l' = ucast (chunk_size t)
    \<and> length (lv_free_slots l') = unat n
    \<and> lv_frames l' = replicate (unat (ucast (chunk_size t) * n)) 0
    \<and> (\<forall>i < length (lv_chunks l'). c_pin_count (lv_chunks l' ! i) = 0)"
proof (cases "n = 0")
  case True
  then show ?thesis
    by (simp add: init_level_def Let_def destroy_level_def lv_inv_def lv_live_def)
next
  case False
  from bind_chunks_Inr [of 0 "unat n" t "ucast (chunk_size t)"] assms
  obtain cs where cs: "bind_chunks t (ucast (chunk_size t)) 0 (unat n) = Inr cs" "length cs = unat n"
    "\<forall>k < unat n. bound_slot t (ucast (chunk_size t)) k (cs ! k)"
    by auto
  with False show ?thesis
    by (auto simp: init_level_def Let_def destroy_level_def lv_inv_def lv_live_def slot_ok_def
        bound_slot_def)
qed

subsection \<open>Frames\<close>

definition frame :: "chunk_level_pool_t \<Rightarrow> nat \<Rightarrow> u8 list" where
  "frame l i = read_at (i * unat (lv_chunk_size l)) (unat (lv_chunk_size l)) (lv_frames l)"

text \<open>The frame area fits into 64 bits: offsets do not wrap.\<close>

definition lv_fits :: "chunk_level_pool_t \<Rightarrow> bool" where
  "lv_fits l \<longleftrightarrow> unat (lv_chunk_count l) * unat (lv_chunk_size l) < 2 ^ 64 \<and> lv_chunk_size l \<noteq> 0"

lemma slot_offset:
  assumes "lv_fits l" "i < unat (lv_chunk_count l)"
  shows "unat (of_nat i * lv_chunk_size l) = i * unat (lv_chunk_size l)"
proof -
  have i: "unat (of_nat i :: u64) = i"
    using assms(2) unsigned_less [of "lv_chunk_count l", where ?'a = nat]
    by (simp add: unat_of_nat take_bit_nat_eq_self)
  have "i * unat (lv_chunk_size l) \<le> unat (lv_chunk_count l) * unat (lv_chunk_size l)"
    using assms(2) by (intro mult_le_mono1) simp
  also have "\<dots> < 2 ^ 64" using assms(1) by (simp add: lv_fits_def)
  finally have "i * unat (lv_chunk_size l) < 2 ^ 64" .
  then show ?thesis using unat_mult_lem [of "of_nat i" "lv_chunk_size l"] i by simp
qed

lemma zero_frame_slot:
  assumes "lv_fits l" "slot_ok l i" "i < unat (lv_chunk_count l)"
  shows "zero_frame (lv_chunks l ! i) (lv_frames l) =
    write_at (i * unat (lv_chunk_size l)) (replicate (unat (lv_chunk_size l)) 0) (lv_frames l)"
  using assms slot_offset by (simp add: zero_frame_def slot_ok_def lv_fits_def)

lemma frame_zeroed:
  assumes "lv_fits l" "slot_ok l i" "i < unat (lv_chunk_count l)" "l' = l\<lparr>lv_frames :=
    zero_frame (lv_chunks l ! i) (lv_frames l), lv_chunks := cs, lv_free_slots := fl\<rparr>"
  shows "frame l' i = replicate (unat (lv_chunk_size l)) 0"
    "j \<noteq> i \<Longrightarrow> frame l' j = frame l j"
proof -
  let ?z = "unat (lv_chunk_size l)"
  have f: "lv_frames l' = write_at (i * ?z) (replicate ?z 0) (lv_frames l)" "lv_chunk_size l' = lv_chunk_size l"
    using zero_frame_slot [OF assms(1-3)] by (simp_all add: assms(4))
  show "frame l' i = replicate ?z 0"
    by (rule nth_equalityI) (simp_all add: frame_def f nth_read_at byte_at_write_at)
  assume "j \<noteq> i"
  then have "j * ?z + ?z \<le> i * ?z \<or> i * ?z + ?z \<le> j * ?z"
    using nat_ranges_disjoint by (metis linorder_neq_iff)
  then show "frame l' j = frame l j"
    by (simp add: frame_def f read_at_write_at_disjoint)
qed

subsection \<open>Properties\<close>

definition demo_level :: chunk_level_pool_t where
  "demo_level = snd (init_level 128 Chunk_4kb 3 empty_level)"

lemma demo_level:
  "lv_inv demo_level" "lv_live demo_level = {}" "lv_free_slots demo_level \<noteq> []" "lv_fits demo_level"
  "lv_chunk_count demo_level = 3"
proof -
  obtain l' where l': "init_level 128 Chunk_4kb 3 empty_level = (Inr (), l')" "lv_inv l'" "lv_live l' = {}"
    "lv_chunk_count l' = 3" "lv_chunk_size l' = ucast (chunk_size Chunk_4kb)" "length (lv_free_slots l') = unat (3 :: u64)"
    using init_level_inv [of 3 128 Chunk_4kb empty_level] by auto
  then have d: "demo_level = l'" by (simp add: demo_level_def)
  from l'(2-) show "lv_inv demo_level" "lv_live demo_level = {}" "lv_free_slots demo_level \<noteq> []"
    "lv_fits demo_level" "lv_chunk_count demo_level = 3"
    unfolding d by (auto simp: lv_fits_def)
qed

lemma level_allocate_cases:
  obtains (none) "lv_free_slots l = []" "level_allocate l = (None, l)"
  | (some) i l' where "level_allocate l = (Some i, l')" "lv_free_slots l \<noteq> []"
      "lv_free_slots l' = butlast (lv_free_slots l)" "lv_chunk_count l' = lv_chunk_count l"
  by (cases "lv_free_slots l = []") (auto simp: level_allocate_def Let_def)

lemma level_many_count:
  "allocate_many level_allocate m l = (js, v) \<Longrightarrow>
   lv_chunk_count v = lv_chunk_count l \<and> length js = min m (length (lv_free_slots l))"
proof (induction m arbitrary: l js v)
  case (Suc m)
  show ?case
  proof (cases rule: level_allocate_cases [of l])
    case none
    with Suc.prems show ?thesis by auto
  next
    case (some i l')
    then obtain js' where js: "js = i # js'" "allocate_many level_allocate m l' = (js', v)"
      using Suc.prems by (auto split: prod.splits)
    from some(2) have "Suc (length (lv_free_slots l) - 1) = length (lv_free_slots l)" by simp
    with Suc.IH [OF js(2)] some(3,4) show ?thesis by (auto simp: js(1) min_def)
  qed
qed simp

lemma level_many_live:
  "lv_inv l \<Longrightarrow> allocate_many level_allocate m l = (js, v) \<Longrightarrow> lv_live v = set js \<union> lv_live l"
proof (induction m arbitrary: l js v)
  case (Suc m)
  show ?case
  proof (cases rule: level_allocate_cases [of l])
    case none
    with Suc.prems show ?thesis by auto
  next
    case (some i l')
    then obtain js' where js: "js = i # js'" "allocate_many level_allocate m l' = (js', v)"
      using Suc.prems by (auto split: prod.splits)
    from Suc.IH [OF level.alloc_good [OF Suc.prems(1) some(1)] js(2)]
      level_allocate_live(2) [OF Suc.prems(1) some(1)]
    show ?thesis by (simp add: js(1))
  qed
qed simp

text \<open>Initialising a level with at most \<open>2 ^ 62\<close> chunks succeeds, leaves every chunk free, and the
  allocations that follow hand out exactly the indices below the count, each once, before the
  level reports exhaustion.\<close>

theorem init_level_capacity:
  assumes "unat n \<le> 2 ^ 62" "init_level sz t n l = (r, l')"
    "allocate_many level_allocate k l' = (is, u)"
  shows "r = Inr () \<and> distinct is \<and> set is \<subseteq> {..<unat n} \<and> lv_inv u
    \<and> length is = min k (unat n) \<and> lv_live u = set is"
proof -
  from init_level_inv [OF assms(1), of sz t l] assms(2) have l': "r = Inr ()" "lv_inv l'" "lv_live l' = {}"
    "lv_chunk_count l' = n" "length (lv_free_slots l') = unat n" by auto
  have spec: "distinct is" "lv_inv u"
    using level.allocate_many_spec [OF l'(2) assms(3)] by auto
  have live: "lv_live u = set is" using level_many_live [OF l'(2) assms(3)] l'(3) by simp
  have "lv_live u \<subseteq> {..<unat (lv_chunk_count u)}"
    using spec(2) by (auto simp: lv_live_def lv_inv_def)
  with spec live level_many_count [OF assms(3)] l' show ?thesis by simp
qed

lemma init_level_capacity_witness:
  "\<exists>is u. allocate_many level_allocate 5 demo_level = (is, u) \<and> length is = 3 \<and> lv_live u = set is"
proof -
  obtain is' u where a: "allocate_many level_allocate 5 demo_level = (is', u)" by (metis surj_pair)
  have n: "unat (3 :: u64) \<le> 2 ^ 62" by simp
  obtain r where i: "init_level 128 Chunk_4kb 3 empty_level = (r, demo_level)"
    by (metis demo_level_def prod.collapse)
  from init_level_capacity [OF n i a] a show ?thesis by auto
qed

text \<open>On a consistent level whose frame area fits into 64 bits, an allocation takes a free slot,
  hands out its control block resident, referenced, unpinned and clean with a frame of zeros,
  and changes no other frame; releasing it zeroes the frame again, makes the slot free and
  restores the set of live slots.\<close>

theorem allocate_release_frame:
  assumes "lv_inv l" "lv_fits l" "level_allocate l = (Some i, l')"
  shows "i < unat (lv_chunk_count l) \<and> i \<notin> lv_live l
    \<and> frame l' i = replicate (unat (lv_chunk_size l)) 0 \<and> (\<forall>j. j \<noteq> i \<longrightarrow> frame l' j = frame l j)
    \<and> c_state (lv_chunks l' ! i) = State_resident \<and> c_referenced (lv_chunks l' ! i)
    \<and> c_pin_count (lv_chunks l' ! i) = 0 \<and> \<not> c_dirty (lv_chunks l' ! i)
    \<and> (\<exists>l''. level_release (Own i) l' = (Inr (), l'') \<and> lv_inv l'' \<and> lv_live l'' = lv_live l
        \<and> frame l'' i = replicate (unat (lv_chunk_size l)) 0 \<and> (\<forall>j. j \<noteq> i \<longrightarrow> frame l'' j = frame l j))"
proof -
  from assms(3) have "lv_free_slots l \<noteq> []" by (auto simp: level_allocate_def)
  with assms(1) obtain j c where j: "j < length (lv_chunks l)" "slot_ok l j"
    "c = (reset_flags (lv_chunks l ! j))\<lparr>c_state := State_resident, c_referenced := True\<rparr>"
    "level_allocate l = (Some j, l\<lparr>lv_frames := zero_frame (lv_chunks l ! j) (lv_frames l),
        lv_chunks := (lv_chunks l)[j := c], lv_free_slots := butlast (lv_free_slots l)\<rparr>)"
    by (rule allocate_shape)
  with assms(3) have ji: "j = i" and l': "l' = l\<lparr>lv_frames := zero_frame (lv_chunks l ! i) (lv_frames l),
        lv_chunks := (lv_chunks l)[i := c], lv_free_slots := butlast (lv_free_slots l)\<rparr>" by auto
  from j(1) ji assms(1) have i: "i < unat (lv_chunk_count l)" "i < length (lv_chunks l)"
    by (simp_all add: lv_inv_slots)
  have inv': "lv_inv l'" using assms(1,3) by (rule level.alloc_good)
  have live': "i \<in> lv_live l'" "i \<notin> lv_live l"
    using level_allocate_live [OF assms(1,3)] by simp_all
  have same: "lv_chunk_size l' = lv_chunk_size l" "lv_chunk_count l' = lv_chunk_count l"
    by (simp_all add: l')
  have fits': "lv_fits l'" using assms(2) by (simp add: lv_fits_def same)
  have ok': "slot_ok l' i" using inv' i by (simp add: lv_inv_def l')
  note f = frame_zeroed [OF assms(2) j(2) [unfolded ji] i(1) l']
  note r = release_resident [OF inv' live'(1)]
  note g = frame_zeroed [OF fits' ok' _ refl]
  have l'': "lv_inv (snd (level_release (Own i) l'))" "lv_live (snd (level_release (Own i) l')) = lv_live l"
    using level_release_inv [OF inv'] level.alloc_release_live [OF assms(1,3)] by simp_all
  have c: "c_state (lv_chunks l' ! i) = State_resident \<and> c_referenced (lv_chunks l' ! i)
      \<and> c_pin_count (lv_chunks l' ! i) = 0 \<and> \<not> c_dirty (lv_chunks l' ! i)"
    using i(2) j(3) ji by (simp add: l' reset_flags_def)
  show ?thesis
    using i(1) live'(2) f g c l'' r same by simp
qed

lemma allocate_release_frame_witness:
  "\<exists>i l'. level_allocate demo_level = (Some i, l') \<and> i < 3 \<and> frame l' i = replicate (unat (lv_chunk_size demo_level)) 0"
proof -
  obtain i l' where a: "level_allocate demo_level = (Some i, l')"
    using demo_level(3) by (cases rule: level_allocate_cases [of demo_level]) auto
  from allocate_release_frame [OF demo_level(1,4) a] a demo_level(5) show ?thesis by auto
qed

text \<open>A release changes nothing unless the pointer is a resident chunk of the level: a null
  pointer and a free chunk are accepted silently, a resident chunk from outside throws
  \<open>invalid_argument\<close>; so releasing the same chunk twice frees its slot once.\<close>

theorem release_guards:
  assumes "lv_inv l" "case p of Own i \<Rightarrow> i < length (lv_chunks l) | _ \<Rightarrow> True"
  shows "((\<nexists>i. p = Own i \<and> i \<in> lv_live l) \<longrightarrow>
      level_release p l = (if p \<noteq> Null \<and> c_state (deref p l) = State_resident then Inl Invalid_argument
                           else Inr (), l))
    \<and> (\<forall>i\<in>lv_live l.
      level_release (Own i) (snd (level_release (Own i) l)) = (Inr (), snd (level_release (Own i) l)))"
proof (intro conjI impI ballI)
  assume "\<nexists>i. p = Own i \<and> i \<in> lv_live l"
  with assms(2) show "level_release p l =
      (if p \<noteq> Null \<and> c_state (deref p l) = State_resident then Inl Invalid_argument else Inr (), l)"
    by (cases p) (auto simp: level_release_def Let_def lv_live_def not_free_iff)
next
  fix i
  assume i: "i \<in> lv_live l"
  then have "i < length (lv_chunks l)" by (simp add: lv_live_def)
  then show "level_release (Own i) (snd (level_release (Own i) l)) = (Inr (), snd (level_release (Own i) l))"
    unfolding release_resident [OF assms(1) i] by (simp add: level_release_def)
qed

lemma release_guards_witness:
  "level_release (Foreign (default_chunk\<lparr>c_state := State_resident\<rparr>)) demo_level = (Inl Invalid_argument, demo_level)"
  using release_guards [OF demo_level(1), of "Foreign (default_chunk\<lparr>c_state := State_resident\<rparr>)"]
  by simp

lemma align_up_spec:
  assumes "unat v + 4095 < 2 ^ 64"
  shows "unat (align_up v k_data_alignment) mod 4096 = 0" "v \<le> align_up v k_data_alignment"
    "unat (align_up v k_data_alignment) < unat v + 4096"
proof -
  have s: "unat (v + 4096 - 1) = unat v + 4095"
    using assms by (simp add: unat_word_ariths take_bit_eq_mod flip: add_diff_eq)
  let ?q = "(unat v + 4095) div 4096"
  have le: "?q * 4096 \<le> unat v + 4095" by simp
  with assms have "?q * 4096 < 2 ^ 64" by linarith
  moreover have "unat ((v + 4096 - 1) div 4096) = ?q" by (simp only: unat_div s) simp
  ultimately have u: "unat (align_up v k_data_alignment) = ?q * 4096"
    using unat_mult_lem [of "(v + 4096 - 1) div 4096" "4096 :: u64"]
    by (simp add: align_up_def k_data_alignment_def)
  show "unat (align_up v k_data_alignment) mod 4096 = 0" by (simp add: u)
  have "unat v + 4095 = ?q * 4096 + (unat v + 4095) mod 4096" "(unat v + 4095) mod 4096 < 4096"
    by simp_all
  then have "unat v \<le> ?q * 4096 \<and> ?q * 4096 < unat v + 4096" by linarith
  then show "v \<le> align_up v k_data_alignment" "unat (align_up v k_data_alignment) < unat v + 4096"
    by (simp_all add: word_le_nat_alt u)
qed

text \<open>When the control blocks and frames of a level fit into the address space, the frames start
  at a multiple of 4096 bytes behind the control blocks, and the frame of every slot lies inside
  the one allocation and does not overlap the frame of another.\<close>

theorem level_layout:
  assumes "n \<noteq> 0" "init_level sz t n l = (Inr (), l')" "unat sz * unat n + 4096 + unat (chunk_size t) * unat n < 2 ^ 64"
  shows "unat (lv_data_offset l') mod 4096 = 0 \<and> unat sz * unat n \<le> unat (lv_data_offset l')
    \<and> (\<forall>i < unat n. \<exists>a. get_data_frame i l' = Some a
         \<and> unat (lv_data_offset l') + unat a + unat (chunk_size t) \<le> unat (lv_total_bytes l')
         \<and> unat a = i * unat (chunk_size t))"
proof -
  let ?z = "ucast (chunk_size t) :: u64"
  have z: "unat ?z = unat (chunk_size t)" by (rule unat_chunk_size)
  from assms(1,2) have l': "lv_data_offset l' = align_up (sz * n) k_data_alignment" "lv_chunk_count l' = n"
    "lv_total_bytes l' = align_up (sz * n) k_data_alignment + ?z * n" "lv_chunk_size l' = ?z"
    by (auto simp: init_level_def Let_def destroy_level_def split: sum.splits)
  have "unat sz * unat n < 2 ^ 64" using assms(3) by linarith
  moreover have "unat ?z * unat n < 2 ^ 64" unfolding z using assms(3) by linarith
  ultimately have s: "unat (sz * n) = unat sz * unat n" "unat (?z * n) = unat ?z * unat n"
    using unat_mult_lem [of sz n] unat_mult_lem [of ?z n] by simp_all
  have al: "unat (align_up (sz * n) k_data_alignment) mod 4096 = 0" "sz * n \<le> align_up (sz * n) k_data_alignment"
    "unat (align_up (sz * n) k_data_alignment) < unat (sz * n) + 4096"
    using align_up_spec [of "sz * n"] s assms(3) by simp_all
  have total: "unat (lv_total_bytes l') = unat (lv_data_offset l') + unat ?z * unat n"
    using al(3) s assms(3) z unat_add_lem [of "align_up (sz * n) k_data_alignment" "?z * n"] by (simp add: l')
  have fits: "lv_fits l'"
    using assms(3) z by (cases t) (simp_all add: lv_fits_def l')
  have "\<exists>a. get_data_frame i l' = Some a
      \<and> unat (lv_data_offset l') + unat a + unat (chunk_size t) \<le> unat (lv_total_bytes l')
      \<and> unat a = i * unat (chunk_size t)" if "i < unat n" for i
  proof -
    have "i * unat ?z + unat ?z \<le> unat n * unat ?z" by (rule nat_ranges_disjoint [OF that])
    moreover have "unat (of_nat i * ?z) = i * unat (chunk_size t)"
      using slot_offset [OF fits, of i] that by (simp only: l' z)
    ultimately show ?thesis
      using that total z
      by (intro exI [of _ "of_nat i * ?z"]) (simp add: get_data_frame_def l'(2,4) mult.commute)
  qed
  then show ?thesis using al(1,2) s(1) by (simp add: l'(1) word_le_nat_alt)
qed

lemma level_layout_witness:
  "unat (lv_data_offset demo_level) mod 4096 = 0"
proof -
  obtain r where r: "init_level 128 Chunk_4kb 3 empty_level = (r, demo_level)"
    by (metis demo_level_def prod.collapse)
  moreover from init_level_inv [of 3 128 Chunk_4kb empty_level] r have "r = Inr ()" by auto
  ultimately show ?thesis using level_layout [of 3 128 Chunk_4kb empty_level demo_level] by simp
qed

end
