(* ===== verification/LRU_Pool.thy ===== *)
theory LRU_Pool
  imports Chunk_Pool "HOL-Library.Multiset"
begin

text \<open>
  The page cache \<open>io_lru_buffer_pool_t\<close> (include/storage/io_lru_buffer_pool.h,
  src/io_lru_buffer_pool.cc): fixed frames that are free, loading a page or resident with a
  page, a recency list of the resident pages, pin counts, and an admission rule for prefetches.

  Frames are indices into the level of \<open>chunk_buf_pool_t\<close> that owns them.  The unordered maps
  are association lists with distinct keys (their order is the iteration order, which only
  \<open>clear\<close> observes); the iterator \<open>lru_position\<close> of a resident page is the position of that page in
  the recency list.  Every public operation runs under one mutex; the only point where it is
  given up is the wait for a page that another thread is loading, which an attempt reports as
  \<open>Wait\<close>.
\<close>

subsection \<open>Data\<close>

datatype io_cache_reservation_state_t = HIT | LOAD | BYPASS

datatype io_cache_access_t = DEMAND | PREFETCH | GATEWAY_PREFETCH

definition is_prefetch :: "io_cache_access_t \<Rightarrow> bool" where
  "is_prefetch access \<longleftrightarrow> access \<noteq> DEMAND"

record io_cache_reservation_t =
  rs_state :: io_cache_reservation_state_t
  rs_page :: u64
  rs_frame :: "nat option"
  rs_data :: "u64 option"
  rs_coalesced :: bool
  rs_evicted :: bool
  rs_access :: io_cache_access_t
  rs_prefetched_hit :: bool

record io_lru_buffer_pool_stats_t =
  demand_hits :: u64
  prefetch_hits :: u64
  prefetch_misses :: u64
  prefetch_used :: u64
  prefetch_pollution_evictions :: u64
  prefetch_admission_rejections :: u64
  prefetch_demand_evictions :: u64
  stat_misses :: u64
  coalesced_misses :: u64
  stat_evictions :: u64
  pinned_victim_failures :: u64
  failed_loads :: u64

definition no_stats :: io_lru_buffer_pool_stats_t where
  "no_stats = \<lparr>demand_hits = 0, prefetch_hits = 0, prefetch_misses = 0, prefetch_used = 0,
     prefetch_pollution_evictions = 0, prefetch_admission_rejections = 0,
     prefetch_demand_evictions = 0, stat_misses = 0, coalesced_misses = 0, stat_evictions = 0,
     pinned_victim_failures = 0, failed_loads = 0\<rparr>"

record resident_entry_t =
  re_frame :: nat
  re_unused :: bool

record io_lru_buffer_pool_t =
  lp_capacity :: u64
  lp_chunk_type :: chunk_type_t
  lp_frames :: chunk_level_pool_t
  lp_free :: "nat list"
  lp_resident :: "(u64 \<times> resident_entry_t) list"
  lp_loading :: "(u64 \<times> nat) list"
  lp_lru :: "u64 list"
  lp_unused_count :: u64
  lp_credit :: bool
  lp_stats :: io_lru_buffer_pool_stats_t

abbreviation count_stat ::
  "(io_lru_buffer_pool_stats_t \<Rightarrow> io_lru_buffer_pool_stats_t) \<Rightarrow> io_lru_buffer_pool_t \<Rightarrow> io_lru_buffer_pool_t" where
  "count_stat g s \<equiv> s\<lparr>lp_stats := g (lp_stats s)\<rparr>"

definition n_frames :: "io_lru_buffer_pool_t \<Rightarrow> nat" where
  "n_frames s = length (lv_chunks (lp_frames s))"

definition frame_at :: "io_lru_buffer_pool_t \<Rightarrow> nat \<Rightarrow> chunk_t" where
  "frame_at s f = lv_chunks (lp_frames s) ! f"

definition upd_frame :: "nat \<Rightarrow> (chunk_t \<Rightarrow> chunk_t) \<Rightarrow> io_lru_buffer_pool_t \<Rightarrow> io_lru_buffer_pool_t" where
  "upd_frame f g s = s\<lparr>lp_frames := (lp_frames s)\<lparr>lv_chunks :=
     (lv_chunks (lp_frames s))[f := g (frame_at s f)]\<rparr>\<rparr>"

definition emplace :: "'k \<Rightarrow> 'v \<Rightarrow> ('k \<times> 'v) list \<Rightarrow> ('k \<times> 'v) list" where
  "emplace k v al = (if map_of al k = None then (k, v) # al else al)"

definition pin :: "nat \<Rightarrow> io_lru_buffer_pool_t \<Rightarrow> io_lru_buffer_pool_t" where
  "pin f = upd_frame f (\<lambda>c. snd (inc_pin_count c))"

definition unpin :: "nat \<Rightarrow> io_lru_buffer_pool_t \<Rightarrow> io_lru_buffer_pool_t" where
  "unpin f = upd_frame f (\<lambda>c. snd (dec_pin_count c))"

subsection \<open>Construction\<close>

definition new_pool ::
  "u64 \<Rightarrow> u64 \<Rightarrow> chunk_type_t \<Rightarrow> exn + io_lru_buffer_pool_t" where
  "new_pool sizeof_chunk capacity_pages type =
     (case init_pool sizeof_chunk ((\<lambda>_. 0)(type := capacity_pages))
             \<lparr>bp_levels = (\<lambda>_. empty_level), bp_total_chunk_count = 0\<rparr> of
        (Inl e, _) \<Rightarrow> Inl e
      | (Inr _, b) \<Rightarrow> Inr \<lparr>lp_capacity = capacity_pages, lp_chunk_type = type,
          lp_frames = bp_levels b type, lp_free = [0..<unat capacity_pages], lp_resident = [],
          lp_loading = [], lp_lru = [], lp_unused_count = 0, lp_credit = True,
          lp_stats = no_stats\<rparr>)"

subsection \<open>Reserving a page\<close>

definition bypass :: "u64 \<Rightarrow> bool \<Rightarrow> io_cache_access_t \<Rightarrow> io_cache_reservation_t" where
  "bypass page coalesced access =
     \<lparr>rs_state = BYPASS, rs_page = page, rs_frame = None, rs_data = None,
      rs_coalesced = coalesced, rs_evicted = False, rs_access = access, rs_prefetched_hit = False\<rparr>"

text \<open>The branch for a resident page, which \<open>reserve_locked\<close> and \<open>try_reserve_hit\<close> share.\<close>

definition hit_resident ::
  "u64 \<Rightarrow> io_cache_access_t \<Rightarrow> bool \<Rightarrow> resident_entry_t \<Rightarrow> io_lru_buffer_pool_t
    \<Rightarrow> (io_lru_buffer_pool_t, io_cache_reservation_t) outcome" where
  "hit_resident page access coalesced e s =
     (let s1 = pin (re_frame e) s;
          result = \<lparr>rs_state = HIT, rs_page = page, rs_frame = Some (re_frame e),
                    rs_data = c_data (frame_at s (re_frame e)), rs_coalesced = coalesced,
                    rs_evicted = False, rs_access = access,
                    rs_prefetched_hit = (access = DEMAND \<and> re_unused e)\<rparr>
      in if access = DEMAND then
           let s2 = count_stat (\<lambda>st. st\<lparr>demand_hits := demand_hits st + 1\<rparr>)
                      (s1\<lparr>lp_lru := page # remove1 page (lp_lru s1)\<rparr>)
           in if re_unused e then
                let s3 = s2\<lparr>lp_resident := AList.update page (e\<lparr>re_unused := False\<rparr>) (lp_resident s2)\<rparr>
                in if lp_unused_count s3 = 0 then (Inl Logic_error, s3)
                   else (Inr result,
                     count_stat (\<lambda>st. st\<lparr>prefetch_used := prefetch_used st + 1\<rparr>)
                       (s3\<lparr>lp_unused_count := lp_unused_count s3 - 1, lp_credit := True\<rparr>))
              else (Inr result, s2)
         else (Inr result, count_stat (\<lambda>st. st\<lparr>prefetch_hits := prefetch_hits st + 1\<rparr>) s1))"

definition eligible :: "bool \<Rightarrow> io_lru_buffer_pool_t \<Rightarrow> u64 \<Rightarrow> bool" where
  "eligible require_unused s page =
     (case map_of (lp_resident s) page of
        None \<Rightarrow> False
      | Some e \<Rightarrow> c_pin_count (frame_at s (re_frame e)) = 0 \<and> (require_unused \<longrightarrow> re_unused e))"

definition select_victim ::
  "bool \<Rightarrow> io_lru_buffer_pool_t \<Rightarrow> (io_lru_buffer_pool_t, nat option) outcome" where
  "select_victim require_unused s =
     (case find (eligible require_unused s) (rev (lp_lru s)) of
        None \<Rightarrow> (Inr None, s)
      | Some page \<Rightarrow>
          (case map_of (lp_resident s) page of
             None \<Rightarrow> (Inr None, s)
           | Some e \<Rightarrow>
               if re_unused e \<and> lp_unused_count s = 0 then (Inl Logic_error, s)
               else
                 let s1 = (if re_unused e
                           then count_stat (\<lambda>st. st\<lparr>prefetch_pollution_evictions :=
                                    prefetch_pollution_evictions st + 1\<rparr>)
                                  (s\<lparr>lp_unused_count := lp_unused_count s - 1\<rparr>)
                           else s)
                 in (Inr (Some (re_frame e)),
                     count_stat (\<lambda>st. st\<lparr>stat_evictions := stat_evictions st + 1\<rparr>)
                       (s1\<lparr>lp_lru := remove1 page (lp_lru s1),
                           lp_resident := AList.delete page (lp_resident s1)\<rparr>))))"

text \<open>The choice of a frame: a free one, else a victim under the admission rule.\<close>

definition prefetch_demand_victim ::
  "io_cache_access_t \<Rightarrow> io_lru_buffer_pool_t \<Rightarrow> (io_lru_buffer_pool_t, nat option) outcome" where
  "prefetch_demand_victim access s =
     (if access = GATEWAY_PREFETCH \<or> lp_credit s then
        case select_victim False s of
          (Inl e, s1) \<Rightarrow> (Inl e, s1)
        | (Inr None, s1) \<Rightarrow> (Inr None, s1)
        | (Inr (Some f), s1) \<Rightarrow> (Inr (Some f),
            count_stat (\<lambda>st. st\<lparr>prefetch_demand_evictions := prefetch_demand_evictions st + 1\<rparr>)
              (if access = PREFETCH then s1\<lparr>lp_credit := False\<rparr> else s1))
      else (Inr None, s))"

definition choose_victim ::
  "io_cache_access_t \<Rightarrow> io_lru_buffer_pool_t \<Rightarrow> (io_lru_buffer_pool_t, nat option) outcome" where
  "choose_victim access s =
     (if is_prefetch access then
        case (if lp_unused_count s \<noteq> 0 then select_victim True s else (Inr None, s)) of
          (Inl e, s1) \<Rightarrow> (Inl e, s1)
        | (Inr (Some f), s1) \<Rightarrow> (Inr (Some f), s1)
        | (Inr None, s1) \<Rightarrow> prefetch_demand_victim access s1
      else select_victim False s)"

definition choose_frame ::
  "io_cache_access_t \<Rightarrow> io_lru_buffer_pool_t \<Rightarrow> (io_lru_buffer_pool_t, (nat \<times> bool) option) outcome" where
  "choose_frame access s =
     (if lp_free s \<noteq> [] then
        (Inr (Some (last (lp_free s), False)), s\<lparr>lp_free := butlast (lp_free s)\<rparr>)
      else
        case choose_victim access s of
          (Inl e, s1) \<Rightarrow> (Inl e, s1)
        | (Inr r, s1) \<Rightarrow> (Inr (map_option (\<lambda>f. (f, True)) r), s1))"

datatype attempt = Done io_cache_reservation_t | Wait

text \<open>One iteration of the loop of \<open>reserve_locked\<close>.\<close>

definition reserve_attempt ::
  "u64 \<Rightarrow> io_cache_access_t \<Rightarrow> bool \<Rightarrow> bool \<Rightarrow> io_lru_buffer_pool_t
    \<Rightarrow> (io_lru_buffer_pool_t, attempt) outcome" where
  "reserve_attempt page access wait_for_inflight coalesced s =
     (case map_of (lp_resident s) page of
        Some e \<Rightarrow>
          (case hit_resident page access coalesced e s of
             (Inl x, s1) \<Rightarrow> (Inl x, s1)
           | (Inr r, s1) \<Rightarrow> (Inr (Done r), s1))
      | None \<Rightarrow>
          if map_of (lp_loading s) page \<noteq> None then
            let s1 = count_stat (\<lambda>st. st\<lparr>coalesced_misses := coalesced_misses st + 1\<rparr>) s
            in (Inr (if wait_for_inflight then Wait else Done (bypass page True access)), s1)
          else
            let s1 = (if is_prefetch access
                      then count_stat (\<lambda>st. st\<lparr>prefetch_misses := prefetch_misses st + 1\<rparr>) s
                      else count_stat (\<lambda>st. st\<lparr>stat_misses := stat_misses st + 1\<rparr>) s)
            in if lp_capacity s1 = 0 then (Inr (Done (bypass page coalesced access)), s1)
               else
                 case choose_frame access s1 of
                   (Inl x, s2) \<Rightarrow> (Inl x, s2)
                 | (Inr None, s2) \<Rightarrow> (Inr (Done (bypass page coalesced access)),
                     if is_prefetch access
                     then count_stat (\<lambda>st. st\<lparr>prefetch_admission_rejections :=
                            prefetch_admission_rejections st + 1\<rparr>) s2
                     else count_stat (\<lambda>st. st\<lparr>pinned_victim_failures :=
                            pinned_victim_failures st + 1\<rparr>) s2)
                 | (Inr (Some (f, evicted)), s2) \<Rightarrow>
                     (case make_chunk_id (lp_chunk_type s2) page of
                        Inl x \<Rightarrow> (Inl x, s2)
                      | Inr chunk_id \<Rightarrow>
                          let s3 = pin f (upd_frame f (\<lambda>c. c\<lparr>c_id := chunk_id, c_state := State_free\<rparr>) s2)
                          in (Inr (Done \<lparr>rs_state = LOAD, rs_page = page, rs_frame = Some f,
                                rs_data = c_data (frame_at s3 f), rs_coalesced = coalesced,
                                rs_evicted = evicted, rs_access = access,
                                rs_prefetched_hit = False\<rparr>),
                              s3\<lparr>lp_loading := emplace page f (lp_loading s3)\<rparr>)))"

definition try_reserve_hit ::
  "u64 \<Rightarrow> io_cache_access_t \<Rightarrow> io_lru_buffer_pool_t
    \<Rightarrow> (io_lru_buffer_pool_t, io_cache_reservation_t) outcome" where
  "try_reserve_hit page access s =
     (case map_of (lp_resident s) page of
        None \<Rightarrow> (Inr (bypass page False access), s)
      | Some e \<Rightarrow> hit_resident page access False e s)"

definition batch_ok :: "u64 list \<Rightarrow> bool" where
  "batch_ok pages \<longleftrightarrow> sorted pages \<and> list_all (\<lambda>(a, b). a \<noteq> b) (zip pages (tl pages))"

subsection \<open>Publishing and releasing\<close>

definition publish_one ::
  "bool \<Rightarrow> io_cache_reservation_t \<Rightarrow> io_lru_buffer_pool_t \<Rightarrow> (io_lru_buffer_pool_t, unit) outcome" where
  "publish_one success r s =
     (case rs_frame r of
        None \<Rightarrow> (Inr (), s)
      | Some f \<Rightarrow>
        if rs_state r \<noteq> LOAD then (Inr (), s)
        else if map_of (lp_loading s) (rs_page r) \<noteq> Some f then (Inl Logic_error, s)
        else
          let s1 = s\<lparr>lp_loading := AList.delete (rs_page r) (lp_loading s)\<rparr>
          in if success then
               let pre = is_prefetch (rs_access r);
                   s2 = upd_frame f (\<lambda>c. c\<lparr>c_state := State_resident\<rparr>) s1;
                   s3 = s2\<lparr>lp_lru := (if pre then lp_lru s2 @ [rs_page r] else rs_page r # lp_lru s2),
                           lp_resident := emplace (rs_page r) \<lparr>re_frame = f, re_unused = pre\<rparr> (lp_resident s2)\<rparr>
               in (Inr (), if pre then s3\<lparr>lp_unused_count := lp_unused_count s3 + 1\<rparr> else s3)
             else
               let s2 = unpin f (upd_frame f (\<lambda>c. c\<lparr>c_state := State_free\<rparr>) s1)
               in (Inr (), count_stat (\<lambda>st. st\<lparr>failed_loads := failed_loads st + 1\<rparr>)
                     (s2\<lparr>lp_free := lp_free s2 @ [f]\<rparr>)))"

fun publish_many ::
  "bool \<Rightarrow> io_cache_reservation_t list \<Rightarrow> io_lru_buffer_pool_t \<Rightarrow> (io_lru_buffer_pool_t, unit) outcome" where
  "publish_many success [] s = (Inr (), s)"
| "publish_many success (r # rs) s =
     (case publish_one success r s of
        (Inl e, s1) \<Rightarrow> (Inl e, s1)
      | (Inr _, s1) \<Rightarrow> publish_many success rs s1)"

definition release_one ::
  "io_cache_reservation_t \<Rightarrow> io_lru_buffer_pool_t \<Rightarrow> (io_lru_buffer_pool_t, unit) outcome" where
  "release_one r s =
     (case rs_frame r of
        None \<Rightarrow> (Inr (), s)
      | Some f \<Rightarrow>
        if rs_state r = BYPASS then (Inr (), s)
        else if c_pin_count (frame_at s f) = 0 then (Inl Logic_error, s)
        else (Inr (), unpin f s))"

fun release_many ::
  "io_cache_reservation_t list \<Rightarrow> io_lru_buffer_pool_t \<Rightarrow> (io_lru_buffer_pool_t, unit) outcome" where
  "release_many [] s = (Inr (), s)"
| "release_many (r # rs) s =
     (case release_one r s of
        (Inl e, s1) \<Rightarrow> (Inl e, s1)
      | (Inr _, s1) \<Rightarrow> release_many rs s1)"

subsection \<open>Clearing and resizing\<close>

fun clear_resident ::
  "(u64 \<times> resident_entry_t) list \<Rightarrow> io_lru_buffer_pool_t \<Rightarrow> (io_lru_buffer_pool_t, unit) outcome" where
  "clear_resident [] s = (Inr (), s)"
| "clear_resident ((page, e) # rest) s =
     (if c_pin_count (frame_at s (re_frame e)) \<noteq> 0 then (Inl Logic_error, s)
      else clear_resident rest (upd_frame (re_frame e) (\<lambda>c. c\<lparr>c_state := State_free\<rparr>) s))"

definition clear_pool :: "io_lru_buffer_pool_t \<Rightarrow> (io_lru_buffer_pool_t, unit) outcome" where
  "clear_pool s =
     (if lp_loading s \<noteq> [] then (Inl Logic_error, s)
      else case clear_resident (lp_resident s) s of
          (Inl e, s1) \<Rightarrow> (Inl e, s1)
        | (Inr _, s1) \<Rightarrow> (Inr (), s1\<lparr>lp_resident := [], lp_lru := [],
            lp_free := [0..<unat (lp_capacity s1)], lp_unused_count := 0, lp_credit := True,
            lp_stats := no_stats\<rparr>))"

definition reset_capacity ::
  "u64 \<Rightarrow> u64 \<Rightarrow> io_lru_buffer_pool_t \<Rightarrow> (io_lru_buffer_pool_t, unit) outcome" where
  "reset_capacity sizeof_chunk capacity_pages s =
     (if capacity_pages = 0 then (Inl Invalid_argument, s)
      else case new_pool sizeof_chunk capacity_pages (lp_chunk_type s) of
          Inl e \<Rightarrow> (Inl e, s)
        | Inr fresh \<Rightarrow>
            if lp_loading s \<noteq> [] then (Inl Logic_error, s)
            else if list_ex (\<lambda>(p, e). c_pin_count (frame_at s (re_frame e)) \<noteq> 0) (lp_resident s)
            then (Inl Logic_error, s)
            else (Inr (), s\<lparr>lp_capacity := capacity_pages, lp_frames := lp_frames fresh,
                    lp_free := lp_free fresh, lp_resident := [], lp_loading := [], lp_lru := [],
                    lp_unused_count := 0, lp_credit := True, lp_stats := no_stats\<rparr>))"

definition pool_resident_bytes :: "io_lru_buffer_pool_t \<Rightarrow> u64" where
  "pool_resident_bytes s = lp_capacity s * ucast (chunk_size (lp_chunk_type s))"

text \<open>\<open>io_size_specific_lru_t\<close>: one independent pool per configured chunk size.\<close>

fun new_size_specific ::
  "u64 \<Rightarrow> (chunk_type_t \<Rightarrow> u64) \<Rightarrow> chunk_type_t list \<Rightarrow> exn + (chunk_type_t \<Rightarrow> io_lru_buffer_pool_t option)" where
  "new_size_specific sizeof_chunk capacities [] = Inr (\<lambda>_. None)"
| "new_size_specific sizeof_chunk capacities (t # ts) =
     (if capacities t = 0 then new_size_specific sizeof_chunk capacities ts
      else bindE (new_pool sizeof_chunk (capacities t) t) (\<lambda>p.
             bindE (new_size_specific sizeof_chunk capacities ts) (\<lambda>ps. Inr (ps(t \<mapsto> p)))))"

definition size_specific_bytes :: "(chunk_type_t \<Rightarrow> io_lru_buffer_pool_t option) \<Rightarrow> u64" where
  "size_specific_bytes pools =
     fold (\<lambda>t bytes. case pools t of None \<Rightarrow> bytes | Some p \<Rightarrow> bytes + pool_resident_bytes p)
       chunk_types 0"

end
