(* ===== verification/LRU_Invariant.thy ===== *)
theory LRU_Invariant
  imports LRU_Pool
begin

text \<open>
  The invariant of the page cache and its preservation by every operation: free, loading and
  resident frames partition the frame set, the recency list enumerates the resident pages, the
  counter of unused prefetches counts them, every frame is labelled with its page, and the pin
  count of a frame is the number of reservations held on it.  The reservations that clients
  hold are the ghost list \<open>pins\<close> of pages and frames; a frame in transit between two lists is in
  the ghost list \<open>loose\<close>.
\<close>

subsection \<open>Association lists\<close>

lemma map_update_same:
  "map_of al k = Some v \<Longrightarrow> h (k, v') = h (k, v) \<Longrightarrow> map h (AList.update k v' al) = map h al"
  by (induction al) (auto split: if_splits)

lemma filter_update:
  assumes "map_of al k = Some v"
  shows "length (filter P (AList.update k v' al)) + (if P (k, v) then 1 else 0) =
    length (filter P al) + (if P (k, v') then 1 else 0)"
  using assms by (induction al) (auto split: if_splits)

lemma mset_delete_entry:
  assumes "distinct (keys al)" "map_of al k = Some v"
  shows "mset al = add_mset (k, v) (mset (AList.delete k al))"
  using assms by (induction al) (auto simp: delete_notin split: if_splits)

lemma mset_map_delete:
  assumes "distinct (keys al)" "map_of al k = Some v"
  shows "mset (map h al) = add_mset (h (k, v)) (mset (map h (AList.delete k al)))"
  using mset_delete_entry [OF assms] by (metis image_mset_add_mset mset_map)

lemma length_filter_delete:
  assumes "distinct (keys al)" "map_of al k = Some v"
  shows "length (filter P al) = length (filter P (AList.delete k al)) + (if P (k, v) then 1 else 0)"
proof -
  have "mset (filter P al) = filter_mset P (add_mset (k, v) (mset (AList.delete k al)))"
    by (simp only: mset_filter mset_delete_entry [OF assms])
  then have "size (mset (filter P al)) = size (filter_mset P (add_mset (k, v) (mset (AList.delete k al))))"
    by (rule arg_cong)
  then show ?thesis by (simp flip: mset_filter)
qed

lemma count_list_delete:
  assumes "distinct (keys al)" "map_of al k = Some v"
  shows "count_list (map snd al) x = count_list (map snd (AList.delete k al)) x + (if x = v then 1 else 0)"
  using mset_map_delete [OF assms, of snd] by (simp flip: count_mset)

lemma keys_delete: "keys (AList.delete k al) = removeAll k (keys al)"
  by (induction al) auto

lemma distinct_keys_delete: "distinct (keys al) \<Longrightarrow> distinct (keys (AList.delete k al))"
  by (simp add: keys_delete distinct_removeAll)

lemma set_keys_delete: "set (keys (AList.delete k al)) = set (keys al) - {k}"
  by (simp add: keys_delete)

lemma count_list_distinct: "distinct xs \<Longrightarrow> x \<in> set xs \<Longrightarrow> count_list xs x = 1"
  by (induction xs) (auto simp: count_list_0_iff)

subsection \<open>Frames of a pool\<close>

lemma n_frames_simps [simp]:
  "n_frames (s\<lparr>lp_free := a\<rparr>) = n_frames s" "n_frames (s\<lparr>lp_resident := b\<rparr>) = n_frames s"
  "n_frames (s\<lparr>lp_loading := c\<rparr>) = n_frames s" "n_frames (s\<lparr>lp_lru := d\<rparr>) = n_frames s"
  "n_frames (s\<lparr>lp_unused_count := n\<rparr>) = n_frames s" "n_frames (s\<lparr>lp_credit := e\<rparr>) = n_frames s"
  "n_frames (s\<lparr>lp_stats := st\<rparr>) = n_frames s" "n_frames (upd_frame f g s) = n_frames s"
  by (simp_all add: n_frames_def upd_frame_def)

lemma frame_at_simps [simp]:
  "frame_at (s\<lparr>lp_free := a\<rparr>) = frame_at s" "frame_at (s\<lparr>lp_resident := b\<rparr>) = frame_at s"
  "frame_at (s\<lparr>lp_loading := c\<rparr>) = frame_at s" "frame_at (s\<lparr>lp_lru := d\<rparr>) = frame_at s"
  "frame_at (s\<lparr>lp_unused_count := n\<rparr>) = frame_at s" "frame_at (s\<lparr>lp_credit := e\<rparr>) = frame_at s"
  "frame_at (s\<lparr>lp_stats := st\<rparr>) = frame_at s"
  by (simp_all add: frame_at_def fun_eq_iff)

lemma frame_at_upd [simp]:
  "frame_at (upd_frame f g s) x = (if x = f \<and> f < n_frames s then g (frame_at s f) else frame_at s x)"
  by (auto simp: frame_at_def upd_frame_def n_frames_def nth_list_update
      list_update_beyond)

lemma upd_frame_fields [simp]:
  "lp_capacity (upd_frame f g s) = lp_capacity s" "lp_chunk_type (upd_frame f g s) = lp_chunk_type s"
  "lp_free (upd_frame f g s) = lp_free s" "lp_resident (upd_frame f g s) = lp_resident s"
  "lp_loading (upd_frame f g s) = lp_loading s" "lp_lru (upd_frame f g s) = lp_lru s"
  "lp_unused_count (upd_frame f g s) = lp_unused_count s" "lp_credit (upd_frame f g s) = lp_credit s"
  "lp_stats (upd_frame f g s) = lp_stats s"
  by (simp_all add: upd_frame_def)

lemmas pin_defs = pin_def unpin_def inc_pin_count_def dec_pin_count_def

subsection \<open>The invariant\<close>

definition owned :: "io_lru_buffer_pool_t \<Rightarrow> nat list" where
  "owned s = lp_free s @ map (\<lambda>e. re_frame (snd e)) (lp_resident s) @ map snd (lp_loading s)"

definition lru_shape :: "nat list \<Rightarrow> io_lru_buffer_pool_t \<Rightarrow> bool" where
  "lru_shape loose s \<longleftrightarrow>
     n_frames s = unat (lp_capacity s)
     \<and> mset (loose @ owned s) = mset [0..<n_frames s]
     \<and> distinct (keys (lp_resident s) @ keys (lp_loading s))
     \<and> distinct (lp_lru s) \<and> set (lp_lru s) = set (keys (lp_resident s))
     \<and> lp_unused_count s = of_nat (length (filter (\<lambda>e. re_unused (snd e)) (lp_resident s)))"

definition held :: "(u64 \<times> nat) list \<Rightarrow> io_lru_buffer_pool_t \<Rightarrow> nat \<Rightarrow> nat" where
  "held pins s f = count_list (map snd pins) f + count_list (map snd (lp_loading s)) f"

definition lru_pins :: "(u64 \<times> nat) list \<Rightarrow> io_lru_buffer_pool_t \<Rightarrow> bool" where
  "lru_pins pins s \<longleftrightarrow>
     (\<forall>f < n_frames s. c_pin_count (frame_at s f) = of_nat (held pins s f))
     \<and> (\<forall>(p, f) \<in> set pins. map_option re_frame (map_of (lp_resident s) p) = Some f)"

definition lru_labels :: "io_lru_buffer_pool_t \<Rightarrow> bool" where
  "lru_labels s \<longleftrightarrow>
     (\<forall>p e. map_of (lp_resident s) p = Some e \<longrightarrow>
        make_chunk_id (lp_chunk_type s) p = Inr (c_id (frame_at s (re_frame e)))
        \<and> c_state (frame_at s (re_frame e)) = State_resident)
     \<and> (\<forall>p f. map_of (lp_loading s) p = Some f \<longrightarrow>
        make_chunk_id (lp_chunk_type s) p = Inr (c_id (frame_at s f)))"

definition lru_inv :: "nat list \<Rightarrow> (u64 \<times> nat) list \<Rightarrow> io_lru_buffer_pool_t \<Rightarrow> bool" where
  "lru_inv loose pins s \<longleftrightarrow> lru_shape loose s \<and> lru_pins pins s \<and> lru_labels s
     \<and> length pins + 1 < 2 ^ 64"

lemma lru_shapeD:
  assumes "lru_shape loose s"
  shows "n_frames s = unat (lp_capacity s)" "mset (loose @ owned s) = mset [0..<n_frames s]"
    "distinct (keys (lp_resident s))" "distinct (keys (lp_loading s))"
    "set (keys (lp_resident s)) \<inter> set (keys (lp_loading s)) = {}"
    "distinct (lp_lru s)" "set (lp_lru s) = set (keys (lp_resident s))"
    "lp_unused_count s = of_nat (length (filter (\<lambda>e. re_unused (snd e)) (lp_resident s)))"
  using assms by (auto simp: lru_shape_def)

lemma lru_shape_owned:
  assumes "lru_shape loose s"
  shows "distinct (loose @ owned s)" "set (loose @ owned s) = {..<n_frames s}"
    "length (loose @ owned s) = n_frames s"
proof -
  note m = lru_shapeD(2) [OF assms]
  from m show "distinct (loose @ owned s)" by (metis distinct_upt mset_eq_imp_distinct_iff)
  from m have "set (loose @ owned s) = set [0..<n_frames s]" by (rule mset_eq_setD)
  then show "set (loose @ owned s) = {..<n_frames s}" by (simp add: atLeast_upt lessThan_atLeast0)
  from mset_eq_length [OF m] show "length (loose @ owned s) = n_frames s" by simp
qed

lemma resident_frame:
  assumes "lru_shape loose s" "map_of (lp_resident s) p = Some e"
  shows "re_frame e < n_frames s" "re_frame e \<notin> set loose" "re_frame e \<notin> set (lp_free s)"
    "re_frame e \<notin> set (map snd (lp_loading s))"
    "map_of (lp_resident s) p' = Some e' \<Longrightarrow> p \<noteq> p' \<Longrightarrow> re_frame e' \<noteq> re_frame e"
proof -
  note d = lru_shape_owned [OF assms(1)]
  from assms(2) have in_r: "(p, e) \<in> set (lp_resident s)" by (rule map_of_SomeD)
  then have in_m: "re_frame e \<in> set (map (\<lambda>e. re_frame (snd e)) (lp_resident s))" by force
  then have "re_frame e \<in> set (loose @ owned s)" by (simp add: owned_def)
  with d(2) show "re_frame e < n_frames s" by auto
  from d(1) in_m show "re_frame e \<notin> set loose" "re_frame e \<notin> set (lp_free s)"
    "re_frame e \<notin> set (map snd (lp_loading s))"
    by (auto simp: owned_def)
  assume o: "map_of (lp_resident s) p' = Some e'" "p \<noteq> p'"
  from d(1) have "inj_on (\<lambda>e. re_frame (snd e)) (set (lp_resident s))"
    by (simp add: owned_def distinct_map)
  with in_r map_of_SomeD [OF o(1)] o(2) show "re_frame e' \<noteq> re_frame e"
    by (metis Pair_inject inj_onD snd_conv)
qed

lemma loading_frame:
  assumes "lru_shape loose s" "map_of (lp_loading s) p = Some f"
  shows "f < n_frames s" "f \<notin> set loose" "f \<notin> set (lp_free s)"
    "map_of (lp_resident s) p' = Some e' \<Longrightarrow> re_frame e' \<noteq> f"
    "count_list (map snd (lp_loading s)) f = 1"
proof -
  note d = lru_shape_owned [OF assms(1)]
  have "(p, f) \<in> set (lp_loading s)" using assms(2) by (rule map_of_SomeD)
  then have in_m: "f \<in> set (map snd (lp_loading s))" by force
  then have "f \<in> set (loose @ owned s)" by (simp add: owned_def)
  with d(2) show "f < n_frames s" by auto
  from d(1) in_m show "f \<notin> set loose" "f \<notin> set (lp_free s)" by (auto simp: owned_def)
  show "map_of (lp_resident s) p' = Some e' \<Longrightarrow> re_frame e' \<noteq> f"
    using resident_frame(4) [OF assms(1)] in_m by metis
  have "distinct (map snd (lp_loading s))" using d(1) by (simp add: owned_def)
  with in_m show "count_list (map snd (lp_loading s)) f = 1" by (simp add: count_list_distinct)
qed

lemma unused_bound:
  assumes "lru_shape loose s"
  shows "length (filter (\<lambda>e. re_unused (snd e)) (lp_resident s)) < 2 ^ 64"
proof -
  have "length (filter (\<lambda>e. re_unused (snd e)) (lp_resident s)) \<le> length (lp_resident s)"
    by (rule length_filter_le)
  also have "\<dots> \<le> n_frames s" using lru_shape_owned(3) [OF assms] by (simp add: owned_def)
  also have "\<dots> < 2 ^ 64"
    using unsigned_less [of "lp_capacity s", where ?'a = nat] by (simp add: lru_shapeD(1) [OF assms])
  finally show ?thesis .
qed

lemma unused_nonzero:
  assumes "lru_shape loose s" "map_of (lp_resident s) p = Some e" "re_unused e"
  shows "lp_unused_count s \<noteq> 0"
proof -
  have "(p, e) \<in> set (filter (\<lambda>e. re_unused (snd e)) (lp_resident s))"
    using map_of_SomeD [OF assms(2)] assms(3) by simp
  then have "length (filter (\<lambda>e. re_unused (snd e)) (lp_resident s)) \<noteq> 0" by (metis length_pos_if_in_set less_nat_zero_code)
  with unused_bound [OF assms(1)] show ?thesis
    unfolding lru_shapeD(8) [OF assms(1)] by (simp add: word_of_nat_eq_0_iff dvd_imp_le nat_dvd_not_less)
qed

lemma pin_count_zero:
  assumes "lru_inv loose pins s" "f < n_frames s" "c_pin_count (frame_at s f) = 0"
  shows "held pins s f = 0"
proof -
  have "distinct (map snd (lp_loading s))"
    using lru_shape_owned(1) [of loose s] assms(1) by (simp add: owned_def lru_inv_def)
  then have "count_list (map snd (lp_loading s)) f \<le> 1"
    by (cases "f \<in> set (map snd (lp_loading s))") (simp_all add: count_list_distinct count_list_0_iff)
  moreover have "count_list (map snd pins) f \<le> length pins"
    by (metis count_le_length length_map)
  ultimately have "held pins s f < 2 ^ 64" using assms(1) by (simp add: held_def lru_inv_def)
  moreover have "(of_nat (held pins s f) :: u64) = 0"
    using assms by (simp add: lru_inv_def lru_pins_def)
  ultimately show ?thesis
    using dvd_imp_le [of "2 ^ 64" "held pins s f"] by (auto simp: word_of_nat_eq_0_iff)
qed

text \<open>Statistics, the admission credit and the order of the recency list do not matter.\<close>

lemma lru_invD:
  assumes "lru_inv loose pins s"
  shows "lru_shape loose s" "lru_pins pins s" "lru_labels s" "length pins + 1 < 2 ^ 64"
  using assms by (simp_all add: lru_inv_def)

lemma lru_invI:
  assumes "lru_shape loose s" "lru_pins pins s" "lru_labels s" "length pins + 1 < 2 ^ 64"
  shows "lru_inv loose pins s"
  using assms by (simp add: lru_inv_def)

lemma lru_inv_cong:
  assumes "lru_inv loose pins s"
    and eq: "lp_capacity u = lp_capacity s" "lp_chunk_type u = lp_chunk_type s" "lp_frames u = lp_frames s"
    "lp_free u = lp_free s" "lp_resident u = lp_resident s" "lp_loading u = lp_loading s"
    "lp_unused_count u = lp_unused_count s"
    and lru: "distinct (lp_lru u)" "set (lp_lru u) = set (lp_lru s)"
  shows "lru_inv loose pins u"
proof (rule lru_invI)
  show "lru_shape loose u"
    using lru_invD(1) [OF assms(1)] lru
    unfolding lru_shape_def owned_def n_frames_def eq by simp
  show "lru_pins pins u" "lru_labels u"
    using lru_invD(2,3) [OF assms(1)]
    by (simp_all only: lru_pins_def lru_labels_def held_def n_frames_def frame_at_def eq)
qed (rule lru_invD(4) [OF assms(1)])

lemma lru_inv_stats [simp]: "lru_inv loose pins (s\<lparr>lp_stats := st\<rparr>) = lru_inv loose pins s"
  by (simp add: lru_inv_def lru_shape_def lru_pins_def lru_labels_def owned_def held_def)

lemma lru_inv_credit [simp]: "lru_inv loose pins (s\<lparr>lp_credit := b\<rparr>) = lru_inv loose pins s"
  by (simp add: lru_inv_def lru_shape_def lru_pins_def lru_labels_def owned_def held_def)

subsection \<open>Pinning\<close>

lemma shape_upd_frame [simp]: "lru_shape loose (upd_frame f g s) = lru_shape loose s"
  by (simp add: lru_shape_def owned_def)

lemma labels_upd_frame:
  assumes "\<And>c. c_id (g c) = c_id c" "\<And>c. c_state (g c) = c_state c"
  shows "lru_labels (upd_frame f g s) = lru_labels s"
proof -
  have "c_id (frame_at (upd_frame f g s) x) = c_id (frame_at s x)"
    "c_state (frame_at (upd_frame f g s) x) = c_state (frame_at s x)" for x
    by (simp_all add: assms)
  then show ?thesis by (simp only: lru_labels_def upd_frame_fields)
qed

lemma pin_resident:
  assumes inv: "lru_inv loose pins s" and e: "map_of (lp_resident s) p = Some e"
    and l: "length pins + 2 < 2 ^ 64"
  shows "lru_inv loose ((p, re_frame e) # pins) (pin (re_frame e) s)"
proof (rule lru_invI)
  show "lru_shape loose (pin (re_frame e) s)"
    using inv by (simp add: pin_def lru_inv_def)
  show "lru_labels (pin (re_frame e) s)"
    using lru_invD(3) [OF inv] unfolding pin_def
    by (subst labels_upd_frame) (simp_all add: inc_pin_count_def)
  show "lru_pins ((p, re_frame e) # pins) (pin (re_frame e) s)"
    using lru_invD(2) [OF inv] e by (simp add: lru_pins_def pin_def inc_pin_count_def held_def)
qed (use l in simp)

lemma unpin_resident:
  assumes inv: "lru_inv loose pins s" and m: "(p, f) \<in> set pins"
  shows "lru_inv loose (remove1 (p, f) pins) (unpin f s)" "c_pin_count (frame_at s f) \<noteq> 0"
proof -
  from m lru_invD(2) [OF inv] obtain e where e: "map_of (lp_resident s) p = Some e" "re_frame e = f"
    by (auto simp: lru_pins_def)
  have f: "f < n_frames s" using resident_frame(1) [OF lru_invD(1) [OF inv] e(1)] e(2) by simp
  from m have "mset pins = add_mset (p, f) (mset (remove1 (p, f) pins))" by simp
  then have "mset (map snd pins) = add_mset f (mset (map snd (remove1 (p, f) pins)))"
    by (metis image_mset_add_mset mset_map snd_conv)
  then have c: "count_list (map snd pins) x = count_list (map snd (remove1 (p, f) pins)) x + (if x = f then 1 else 0)" for x
    by (simp flip: count_mset)
  have pos: "held pins s f \<noteq> 0" using c [of f] by (simp add: held_def)
  then show "c_pin_count (frame_at s f) \<noteq> 0" using pin_count_zero [OF inv f] by auto
  show "lru_inv loose (remove1 (p, f) pins) (unpin f s)"
  proof (rule lru_invI)
    show "lru_shape loose (unpin f s)" using inv by (simp add: unpin_def lru_inv_def)
    show "lru_labels (unpin f s)"
      using lru_invD(3) [OF inv] unfolding unpin_def
      by (subst labels_upd_frame) (simp_all add: dec_pin_count_def)
    show "lru_pins (remove1 (p, f) pins) (unpin f s)"
      using lru_invD(2) [OF inv] f
      by (auto simp: lru_pins_def unpin_def dec_pin_count_def held_def c
          dest!: subsetD [OF set_remove1_subset])
    show "length (remove1 (p, f) pins) + 1 < 2 ^ 64"
      using lru_invD(4) [OF inv] length_remove1 [of "(p, f)" pins] m by simp
  qed
qed

lemma move_to_front:
  assumes "lru_inv loose pins s" "p \<in> set (lp_lru s)"
  shows "lru_inv loose pins (s\<lparr>lp_lru := p # remove1 p (lp_lru s)\<rparr>)"
  by (rule lru_inv_cong [OF assms(1)])
    (use lru_shapeD(6) [OF lru_invD(1) [OF assms(1)]] assms(2) in
      \<open>auto simp: set_remove1_eq\<close>)

lemma mark_used:
  assumes inv: "lru_inv loose pins s" and e: "map_of (lp_resident s) p = Some e" and u: "re_unused e"
  shows "lru_inv loose pins (s\<lparr>lp_resident := AList.update p (e\<lparr>re_unused := False\<rparr>) (lp_resident s),
           lp_unused_count := lp_unused_count s - 1\<rparr>)" (is "lru_inv loose pins ?u")
proof (rule lru_invI)
  let ?e = "e\<lparr>re_unused := False\<rparr>" and ?r = "lp_resident s"
  have k: "keys (AList.update p ?e ?r) = keys ?r"
    by (rule map_update_same [OF e]) simp
  have f: "map (\<lambda>e. re_frame (snd e)) (AList.update p ?e ?r) = map (\<lambda>e. re_frame (snd e)) ?r"
    by (rule map_update_same [OF e]) simp
  have n: "length (filter (\<lambda>e. re_unused (snd e)) ?r) =
      Suc (length (filter (\<lambda>e. re_unused (snd e)) (AList.update p ?e ?r)))"
    using filter_update [OF e, of "\<lambda>e. re_unused (snd e)" ?e] u by simp
  have "lp_unused_count s - 1 = of_nat (length (filter (\<lambda>e. re_unused (snd e)) (AList.update p ?e ?r)))"
    by (simp add: lru_shapeD(8) [OF lru_invD(1) [OF inv]] n)
  then show "lru_shape loose ?u"
    using lru_invD(1) [OF inv] by (simp add: lru_shape_def owned_def k f del: set_map mset_map)
  have m: "map_option re_frame (map_of (lp_resident ?u) q) = map_option re_frame (map_of ?r q)" for q
    using e by simp
  show "lru_pins pins ?u"
    using lru_invD(2) [OF inv] by (simp only: lru_pins_def m held_def) simp
  show "lru_labels ?u"
    using lru_invD(3) [OF inv] e by (auto simp: lru_labels_def)
qed (rule lru_invD(4) [OF inv])

subsection \<open>Hits\<close>

lemma lru_resident: "lru_inv loose pins s \<Longrightarrow> map_of (lp_resident s) p = Some e \<Longrightarrow> p \<in> set (lp_lru s)"
  by (metis lru_shapeD(7) lru_invD(1) map_of_eq_None_keys option.distinct(1))

definition same_pages :: "io_lru_buffer_pool_t \<Rightarrow> io_lru_buffer_pool_t \<Rightarrow> bool" where
  "same_pages s u \<longleftrightarrow> set (keys (lp_resident u)) = set (keys (lp_resident s))
     \<and> lp_loading u = lp_loading s \<and> lp_free u = lp_free s \<and> lp_capacity u = lp_capacity s
     \<and> lp_chunk_type u = lp_chunk_type s"

lemma hit_resident_correct:
  assumes inv: "lru_inv loose pins s" and e: "map_of (lp_resident s) page = Some e"
    and l: "length pins + 2 < 2 ^ 64"
  obtains r u where "hit_resident page access coalesced e s = (Inr r, u)"
    "lru_inv loose ((page, re_frame e) # pins) u" "same_pages s u"
    "rs_state r = HIT" "rs_page r = page" "rs_frame r = Some (re_frame e)" "rs_access r = access"
    "access = DEMAND \<Longrightarrow> lp_lru u = page # remove1 page (lp_lru s)"
    "access \<noteq> DEMAND \<Longrightarrow> lp_lru u = lp_lru s"
proof -
  let ?pins = "(page, re_frame e) # pins"
  let ?s1 = "pin (re_frame e) s"
  have fields: "lp_resident ?s1 = lp_resident s" "lp_lru ?s1 = lp_lru s" "lp_loading ?s1 = lp_loading s"
    "lp_unused_count ?s1 = lp_unused_count s" "lp_free ?s1 = lp_free s" "lp_capacity ?s1 = lp_capacity s"
    "lp_chunk_type ?s1 = lp_chunk_type s"
    by (simp_all add: pin_def)
  have i1: "lru_inv loose ?pins ?s1" using inv e l by (rule pin_resident)
  let ?s2 = "?s1\<lparr>lp_lru := page # remove1 page (lp_lru ?s1)\<rparr>"
  have i2: "lru_inv loose ?pins ?s2"
    using i1 lru_resident [OF i1, of page e] e by (intro move_to_front) (simp_all add: fields)
  let ?r = "\<lambda>h. \<lparr>rs_state = HIT, rs_page = page, rs_frame = Some (re_frame e),
      rs_data = c_data (frame_at s (re_frame e)), rs_coalesced = coalesced, rs_evicted = False,
      rs_access = access, rs_prefetched_hit = h\<rparr>"
  consider "access \<noteq> DEMAND" | "access = DEMAND" "\<not> re_unused e" | "access = DEMAND" "re_unused e" by blast
  then show ?thesis
  proof cases
    case 1
    then have "hit_resident page access coalesced e s = (Inr (?r False),
        count_stat (\<lambda>st. st\<lparr>prefetch_hits := prefetch_hits st + 1\<rparr>) ?s1)"
      by (simp add: hit_resident_def Let_def)
    from this show ?thesis by (rule that) (use 1 i1 in \<open>simp_all add: same_pages_def fields\<close>)
  next
    case 2
    then have "hit_resident page access coalesced e s = (Inr (?r False),
        count_stat (\<lambda>st. st\<lparr>demand_hits := demand_hits st + 1\<rparr>) ?s2)"
      by (simp add: hit_resident_def Let_def)
    from this show ?thesis by (rule that) (use 2 i2 in \<open>simp_all add: same_pages_def fields\<close>)
  next
    case 3
    have nz: "lp_unused_count s \<noteq> 0" using unused_nonzero [OF lru_invD(1) [OF inv] e 3(2)] .
    let ?s3 = "?s2\<lparr>lp_resident := AList.update page (e\<lparr>re_unused := False\<rparr>) (lp_resident ?s2),
           lp_unused_count := lp_unused_count ?s2 - 1\<rparr>"
    have i3: "lru_inv loose ?pins ?s3"
      by (rule mark_used [OF i2]) (use e 3(2) in \<open>simp_all add: fields\<close>)
    have k: "set (keys (AList.update page (e\<lparr>re_unused := False\<rparr>) (lp_resident s))) = set (keys (lp_resident s))"
      by (subst map_update_same [OF e]) simp_all
    define u where "u = snd (hit_resident page access coalesced e s)"
    have h: "hit_resident page access coalesced e s = (Inr (?r True), u)"
      using 3 nz by (simp add: u_def hit_resident_def Let_def fields)
    have u: "u = ?s3\<lparr>lp_credit := True, lp_stats := lp_stats u\<rparr>"
      unfolding u_def
      by (rule io_lru_buffer_pool_t.equality)
        (use 3 nz in \<open>simp_all add: hit_resident_def Let_def fields\<close>)
    have "lru_inv loose ?pins u" by (subst u) (use i3 in simp)
    moreover have fu: "lp_resident u = AList.update page (e\<lparr>re_unused := False\<rparr>) (lp_resident s)"
      "lp_loading u = lp_loading s" "lp_free u = lp_free s" "lp_capacity u = lp_capacity s"
      "lp_chunk_type u = lp_chunk_type s" "lp_lru u = page # remove1 page (lp_lru s)"
      by (subst u; simp add: fields)+
    ultimately show ?thesis
      by (intro that [OF h]) (use 3 k in \<open>simp_all add: same_pages_def fu\<close>)
  qed
qed

subsection \<open>Victims and frames\<close>

lemma delete_resident_shape:
  assumes "lru_shape loose s" and e: "map_of (lp_resident s) p = Some e"
  shows "lru_shape (re_frame e # loose)
    (s\<lparr>lp_lru := remove1 p (lp_lru s), lp_resident := AList.delete p (lp_resident s),
       lp_unused_count := (if re_unused e then lp_unused_count s - 1 else lp_unused_count s)\<rparr>)"
proof -
  note d = lru_shapeD [OF assms(1)]
  have m: "mset (map (\<lambda>e. re_frame (snd e)) (lp_resident s)) =
      add_mset (re_frame e) (mset (map (\<lambda>e. re_frame (snd e)) (AList.delete p (lp_resident s))))"
    using mset_map_delete [OF d(3) e, of "\<lambda>e. re_frame (snd e)"] by simp
  have n: "length (filter (\<lambda>e. re_unused (snd e)) (lp_resident s)) =
      length (filter (\<lambda>e. re_unused (snd e)) (AList.delete p (lp_resident s))) + (if re_unused e then 1 else 0)"
    using length_filter_delete [OF d(3) e, of "\<lambda>e. re_unused (snd e)"] by simp
  show ?thesis
    unfolding lru_shape_def
  proof (intro conjI)
    show "mset ((re_frame e # loose) @ owned (s\<lparr>lp_lru := remove1 p (lp_lru s), lp_resident := AList.delete p (lp_resident s),
       lp_unused_count := (if re_unused e then lp_unused_count s - 1 else lp_unused_count s)\<rparr>)) =
      mset [0..<n_frames (s\<lparr>lp_lru := remove1 p (lp_lru s), lp_resident := AList.delete p (lp_resident s),
       lp_unused_count := (if re_unused e then lp_unused_count s - 1 else lp_unused_count s)\<rparr>)]"
      using d(2) m by (simp add: owned_def del: mset_map mset_upt)
  qed (use d n in \<open>auto simp: keys_delete set_remove1_eq distinct_removeAll\<close>)
qed

lemma delete_resident:
  assumes inv: "lru_inv loose pins s" and e: "map_of (lp_resident s) p = Some e"
    and z: "c_pin_count (frame_at s (re_frame e)) = 0"
  shows "lru_inv (re_frame e # loose) pins
    (s\<lparr>lp_lru := remove1 p (lp_lru s), lp_resident := AList.delete p (lp_resident s),
       lp_unused_count := (if re_unused e then lp_unused_count s - 1 else lp_unused_count s)\<rparr>)"
proof (rule lru_invI)
  note sh = lru_invD(1) [OF inv]
  have "held pins s (re_frame e) = 0"
    using pin_count_zero [OF inv resident_frame(1) [OF sh e] z] .
  then have nf: "re_frame e \<notin> set (map snd pins)" by (simp add: held_def count_list_0_iff)
  have "p \<noteq> q" if "(q, f) \<in> set pins" for q f
    using that nf lru_invD(2) [OF inv] e by (force simp: lru_pins_def)
  then show "lru_pins pins (s\<lparr>lp_lru := remove1 p (lp_lru s), lp_resident := AList.delete p (lp_resident s),
       lp_unused_count := (if re_unused e then lp_unused_count s - 1 else lp_unused_count s)\<rparr>)"
    using lru_invD(2) [OF inv] by (fastforce simp: lru_pins_def held_def)
  show "lru_labels (s\<lparr>lp_lru := remove1 p (lp_lru s), lp_resident := AList.delete p (lp_resident s),
       lp_unused_count := (if re_unused e then lp_unused_count s - 1 else lp_unused_count s)\<rparr>)"
    using lru_invD(3) [OF inv] by (auto simp: lru_labels_def)
qed (use delete_resident_shape [OF lru_invD(1) [OF inv] e] lru_invD(4) [OF inv] in simp_all)

lemma find_SomeD: "find P xs = Some x \<Longrightarrow> \<exists>ys zs. xs = ys @ x # zs \<and> P x \<and> (\<forall>y \<in> set ys. \<not> P y)"
proof (induction xs)
  case (Cons a xs)
  show ?case
  proof (cases "P a")
    case True
    with Cons.prems show ?thesis by (intro exI [of _ "[]"] exI [of _ xs]) auto
  next
    case False
    with Cons obtain ys zs where "xs = ys @ x # zs" "P x" "\<forall>y \<in> set ys. \<not> P y" by auto
    with False show ?thesis by (intro exI [of _ "a # ys"] exI [of _ zs]) auto
  qed
qed simp

text \<open>The victim is the least recently used eligible page.\<close>

lemma select_victim_correct:
  assumes inv: "lru_inv loose pins s"
  obtains (none) "select_victim b s = (Inr None, s)" "\<And>p. p \<in> set (lp_lru s) \<Longrightarrow> \<not> eligible b s p"
  | (some) p e u newer older where "map_of (lp_resident s) p = Some e" "eligible b s p"
      "lp_lru s = newer @ p # older" "\<And>q. q \<in> set older \<Longrightarrow> \<not> eligible b s q"
      "select_victim b s = (Inr (Some (re_frame e)), u)" "lru_inv (re_frame e # loose) pins u"
      "lp_resident u = AList.delete p (lp_resident s)" "lp_loading u = lp_loading s" "lp_free u = lp_free s"
      "lp_capacity u = lp_capacity s" "lp_chunk_type u = lp_chunk_type s" "lp_lru u = newer @ older"
proof (cases "find (eligible b s) (rev (lp_lru s))")
  case None
  then have "\<not> eligible b s p" if "p \<in> set (lp_lru s)" for p
    using that by (auto simp: find_None_iff)
  with None show ?thesis by (intro none) (simp_all add: select_victim_def)
next
  case (Some p)
  from find_SomeD [OF this] obtain ys zs where "rev (lp_lru s) = ys @ p # zs" "eligible b s p"
    "\<forall>y \<in> set ys. \<not> eligible b s y" by blast
  then have split: "lp_lru s = rev zs @ p # rev ys" and el: "eligible b s p"
    and older: "\<And>q. q \<in> set (rev ys) \<Longrightarrow> \<not> eligible b s q"
    by (simp_all add: rev_eq_append_conv)
  then obtain e where e: "map_of (lp_resident s) p = Some e" and z: "c_pin_count (frame_at s (re_frame e)) = 0"
    by (auto simp: eligible_def split: option.splits)
  have rem: "remove1 p (lp_lru s) = rev zs @ rev ys"
    using lru_shapeD(6) [OF lru_invD(1) [OF inv]] by (simp add: split remove1_append)
  define u where "u = snd (select_victim b s)"
  let ?u = "s\<lparr>lp_lru := remove1 p (lp_lru s), lp_resident := AList.delete p (lp_resident s),
       lp_unused_count := (if re_unused e then lp_unused_count s - 1 else lp_unused_count s)\<rparr>"
  have nz: "re_unused e \<Longrightarrow> lp_unused_count s \<noteq> 0"
    using unused_nonzero [OF lru_invD(1) [OF inv] e] .
  then have sel: "select_victim b s = (Inr (Some (re_frame e)), u)"
    using Some e unfolding u_def by (auto simp: select_victim_def Let_def)
  have u: "u = ?u\<lparr>lp_stats := lp_stats u\<rparr>"
    unfolding u_def
    by (rule io_lru_buffer_pool_t.equality) (use Some e nz in \<open>simp_all add: select_victim_def Let_def\<close>)
  have i: "lru_inv (re_frame e # loose) pins u"
    by (subst u) (use delete_resident [OF inv e z] in simp)
  have "lp_resident u = AList.delete p (lp_resident s)" "lp_loading u = lp_loading s" "lp_free u = lp_free s"
      "lp_capacity u = lp_capacity s" "lp_chunk_type u = lp_chunk_type s" "lp_lru u = rev zs @ rev ys"
    by (subst u; simp add: rem)+
  with i show ?thesis by (intro some [OF e el split older sel]) auto
qed

text \<open>What the choice of a frame does to the resident pages: nothing, or the loss of one unpinned page,
  which for a prefetch without credit is an unused prefetch.\<close>

definition evicts :: "io_cache_access_t \<Rightarrow> io_lru_buffer_pool_t \<Rightarrow> u64 \<Rightarrow> bool" where
  "evicts access s p \<longleftrightarrow> eligible False s p
     \<and> (access = PREFETCH \<and> \<not> lp_credit s \<longrightarrow> eligible True s p)"

definition chosen :: "io_cache_access_t \<Rightarrow> io_lru_buffer_pool_t \<Rightarrow> bool \<Rightarrow> io_lru_buffer_pool_t \<Rightarrow> bool" where
  "chosen access s evicted u \<longleftrightarrow> lp_loading u = lp_loading s \<and> lp_capacity u = lp_capacity s
     \<and> lp_chunk_type u = lp_chunk_type s
     \<and> (if evicted then \<exists>p. evicts access s p \<and> lp_resident u = AList.delete p (lp_resident s)
        else lp_resident u = lp_resident s)"

lemma eligible_weaken: "eligible b s p \<Longrightarrow> eligible False s p"
  by (auto simp: eligible_def split: option.splits)

lemma choose_victim_correct:
  assumes inv: "lru_inv loose pins s"
  obtains (none) u where "choose_victim access s = (Inr None, u)" "u = s"
  | (some) f u where "choose_victim access s = (Inr (Some f), u)" "lru_inv (f # loose) pins u"
      "chosen access s True u" "lp_free u = lp_free s"
proof (cases "is_prefetch access")
  case False
  from inv show ?thesis
  proof (cases rule: select_victim_correct [of loose pins s False])
    case nothing: none
    with False show ?thesis by (intro none) (simp_all add: choose_victim_def)
  next
    case found: (some p e u newer older)
    with False show ?thesis
      by (intro some [of "re_frame e" u])
        (auto simp: choose_victim_def chosen_def evicts_def is_prefetch_def)
  qed
next
  case pre: True
  have second: thesis
    if sv: "(if lp_unused_count s \<noteq> 0 then select_victim True s else (Inr None, s)) = (Inr None, s)"
  proof (cases "access = GATEWAY_PREFETCH \<or> lp_credit s")
    case False
    with pre sv show ?thesis
      by (intro none) (auto simp: choose_victim_def prefetch_demand_victim_def)
  next
    case may: True
    from inv show ?thesis
    proof (cases rule: select_victim_correct [of loose pins s False])
      case nothing: none
      with pre sv may show ?thesis
        by (intro none) (auto simp: choose_victim_def prefetch_demand_victim_def)
    next
      case found: (some p e u newer older)
      let ?u = "count_stat (\<lambda>st. st\<lparr>prefetch_demand_evictions := prefetch_demand_evictions st + 1\<rparr>)
              (if access = PREFETCH then u\<lparr>lp_credit := False\<rparr> else u)"
      have "choose_victim access s = (Inr (Some (re_frame e)), ?u)"
        using pre sv may found(5) by (simp add: choose_victim_def prefetch_demand_victim_def)
      then show ?thesis
      proof (rule some)
        show "lru_inv (re_frame e # loose) pins ?u" using found(6) by simp
        show "chosen access s True ?u" using found may by (auto simp: chosen_def evicts_def)
        show "lp_free ?u = lp_free s" using found by simp
      qed
    qed
  qed
  show ?thesis
  proof (cases "lp_unused_count s = 0")
    case True
    then show ?thesis by (intro second) simp
  next
    case False
    from inv show ?thesis
    proof (cases rule: select_victim_correct [of loose pins s True])
      case none
      then show ?thesis by (intro second) simp
    next
      case found: (some p e u newer older)
      from False pre found(5) have "choose_victim access s = (Inr (Some (re_frame e)), u)"
        by (simp add: choose_victim_def)
      then show ?thesis
      proof (rule some)
        have "evicts access s p" using found(2) eligible_weaken by (auto simp: evicts_def)
        with found show "chosen access s True u" by (auto simp: chosen_def)
      qed (use found in simp_all)
    qed
  qed
qed

lemma take_free:
  assumes inv: "lru_inv [] pins s" and ne: "lp_free s \<noteq> []"
  shows "lru_inv [last (lp_free s)] pins (s\<lparr>lp_free := butlast (lp_free s)\<rparr>)"
proof (rule lru_invI)
  have "mset (lp_free s) = add_mset (last (lp_free s)) (mset (butlast (lp_free s)))"
    by (metis ne append_butlast_last_id mset_append mset_single_iff_right add.commute add_mset_add_single mset.simps)
  with lru_invD(1) [OF inv] show "lru_shape [last (lp_free s)] (s\<lparr>lp_free := butlast (lp_free s)\<rparr>)"
    by (simp add: lru_shape_def owned_def)
qed (use lru_invD [OF inv] in \<open>simp_all add: lru_pins_def lru_labels_def held_def\<close>)

lemma choose_frame_correct:
  assumes inv: "lru_inv [] pins s"
  obtains (none) "choose_frame access s = (Inr None, s)"
  | (some) f evicted u where "choose_frame access s = (Inr (Some (f, evicted)), u)"
      "lru_inv [f] pins u" "chosen access s evicted u"
proof (cases "lp_free s = []")
  case False
  then have "choose_frame access s =
      (Inr (Some (last (lp_free s), False)), s\<lparr>lp_free := butlast (lp_free s)\<rparr>)"
    by (simp add: choose_frame_def)
  then show ?thesis
    by (rule some) (use take_free [OF inv False] in \<open>simp_all add: chosen_def\<close>)
next
  case True
  from inv show ?thesis
  proof (cases rule: choose_victim_correct [of "[]" pins s access])
    case (none u)
    with True that(1) show ?thesis by (simp add: choose_frame_def)
  next
    case (some f u)
    with True that(2) [of f True u] show ?thesis by (simp add: choose_frame_def)
  qed
qed

subsection \<open>Loading\<close>

lemma start_load:
  assumes inv: "lru_inv [f] pins s" and new: "map_of (lp_resident s) page = None" "map_of (lp_loading s) page = None"
    and id: "make_chunk_id (lp_chunk_type s) page = Inr i"
  shows "lru_inv [] pins ((pin f (upd_frame f (\<lambda>c. c\<lparr>c_id := i, c_state := State_free\<rparr>) s))
           \<lparr>lp_loading := emplace page f (lp_loading s)\<rparr>)"
proof -
  define u where "u = (pin f (upd_frame f (\<lambda>c. c\<lparr>c_id := i, c_state := State_free\<rparr>) s))
           \<lparr>lp_loading := emplace page f (lp_loading s)\<rparr>"
  have l: "lp_loading u = (page, f) # lp_loading s"
    using new(2) by (simp add: emplace_def u_def)
  have o: "lp_resident u = lp_resident s" "lp_free u = lp_free s" "lp_lru u = lp_lru s"
    "lp_capacity u = lp_capacity s" "lp_unused_count u = lp_unused_count s" "n_frames u = n_frames s"
    "lp_chunk_type u = lp_chunk_type s"
    by (simp_all add: pin_def u_def)
  note sh = lru_invD(1) [OF inv]
  have f: "f < n_frames s" "f \<notin> set (map snd (lp_loading s))"
    using lru_shape_owned(1,2) [OF sh] by (auto simp: owned_def)
  have nf: "map_of (lp_resident s) p = Some e \<Longrightarrow> re_frame e \<noteq> f" for p e
    using resident_frame(2) [OF sh] by force
  have nl: "map_of (lp_loading s) p = Some x \<Longrightarrow> x \<noteq> f" for p x
    using f(2) by (force dest: map_of_SomeD)
  have fr: "x \<noteq> f \<Longrightarrow> frame_at u x = frame_at s x" "c_id (frame_at u f) = i"
    "c_pin_count (frame_at u f) = c_pin_count (frame_at s f) + 1" for x
    using f(1) by (simp_all add: pin_defs u_def)
  have "lru_inv [] pins u"
  proof (rule lru_invI)
    show "lru_shape [] u"
      using sh new unfolding lru_shape_def o owned_def l
      by (auto simp: map_of_eq_None_keys)
    have "count_list (map snd (lp_loading s)) f = 0" using f(2) by (simp add: count_list_0_iff)
    then have "c_pin_count (frame_at u x) = of_nat (held pins u x)" if "x < n_frames s" for x
      using lru_invD(2) [OF inv] fr that
      by (cases "x = f") (simp_all add: lru_pins_def held_def l)
    then show "lru_pins pins u"
      using lru_invD(2) [OF inv] by (simp add: lru_pins_def o)
    have "c_id (frame_at u (re_frame e)) = c_id (frame_at s (re_frame e))
        \<and> c_state (frame_at u (re_frame e)) = c_state (frame_at s (re_frame e))"
      if "map_of (lp_resident s) p = Some e" for p e
      using nf [OF that] by (simp add: fr)
    moreover have "c_id (frame_at u x) = c_id (frame_at s x)" if "map_of (lp_loading s) p = Some x" for p x
      using nl [OF that] by (simp add: fr)
    ultimately show "lru_labels u"
      using lru_invD(3) [OF inv] id by (simp add: lru_labels_def o l fr)
  qed (rule lru_invD(4) [OF inv])
  then show ?thesis by (simp add: u_def)
qed

lemma delete_loading:
  assumes sh: "lru_shape loose s" and l: "map_of (lp_loading s) page = Some f"
  shows "lru_shape (f # loose) (s\<lparr>lp_loading := AList.delete page (lp_loading s)\<rparr>)"
proof -
  have "mset (map snd (lp_loading s)) = add_mset f (mset (map snd (AList.delete page (lp_loading s))))"
    using mset_map_delete [OF lru_shapeD(4) [OF sh] l, of snd] by simp
  with sh show ?thesis by (auto simp: lru_shape_def owned_def keys_delete distinct_removeAll simp del: mset_map)
qed

lemma publish_correct:
  assumes inv: "lru_inv [] pins s" and l: "map_of (lp_loading s) page = Some f"
    and r: "rs_state r = LOAD" "rs_page r = page" "rs_frame r = Some f"
    and len: "length pins + 2 < 2 ^ 64"
  obtains u where "publish_one success r s = (Inr (), u)"
    "lru_inv [] (if success then (page, f) # pins else pins) u"
    "lp_loading u = AList.delete page (lp_loading s)"
    "set (keys (lp_resident u)) = set (keys (lp_resident s)) \<union> (if success then {page} else {})"
proof -
  note sh = lru_invD(1) [OF inv]
  note lf = loading_frame [OF sh l]
  have fresh: "map_of (lp_resident s) page = None"
    using lru_shapeD(5) [OF sh] map_of_SomeD [OF l] by (force simp: map_of_eq_None_keys)
  have pins_page: "(page, x) \<notin> set pins" "(q, f) \<notin> set pins" for x q
    using lru_invD(2) [OF inv] fresh lf(4) by (force simp: lru_pins_def)+
  have cd: "count_list (map snd (AList.delete page (lp_loading s))) x =
      (if x = f then 0 else count_list (map snd (lp_loading s)) x)" for x
    using count_list_delete [OF lru_shapeD(4) [OF sh] l, of x] lf(5) by auto
  have cp: "count_list (map snd pins) f = 0" using pins_page(2) by (auto simp: count_list_0_iff)
  have one: "c_pin_count (frame_at s f) = 1"
    using lru_invD(2) [OF inv] lf(1,5) cp by (simp add: lru_pins_def held_def)
  have dl: "mset (map snd (lp_loading s)) = add_mset f (mset (map snd (AList.delete page (lp_loading s))))"
    using mset_map_delete [OF lru_shapeD(4) [OF sh] l, of snd] by simp
  have other: "map_of (lp_loading s) q = Some x \<Longrightarrow> q \<noteq> page \<Longrightarrow> x \<noteq> f" for q x
  proof -
    assume a: "map_of (lp_loading s) q = Some x" "q \<noteq> page"
    then have "map_of (AList.delete page (lp_loading s)) q = Some x" by simp
    from map_of_SomeD [OF this] have "x \<in> set (map snd (AList.delete page (lp_loading s)))"
      by force
    then have "count_list (map snd (AList.delete page (lp_loading s))) x \<noteq> 0"
      by (simp only: count_list_0_iff not_not)
    then show "x \<noteq> f" using cd [of x] by (auto split: if_splits)
  qed
  define u where "u = snd (publish_one success r s)"
  have res: "publish_one success r s = (Inr (), u)"
    using r l by (simp add: u_def publish_one_def Let_def)
  show ?thesis
  proof (cases success)
    case True
    let ?pre = "is_prefetch (rs_access r)"
    have u: "lp_capacity u = lp_capacity s" "lp_chunk_type u = lp_chunk_type s" "lp_free u = lp_free s"
      "lp_loading u = AList.delete page (lp_loading s)" "n_frames u = n_frames s"
      "lp_resident u = (page, \<lparr>re_frame = f, re_unused = ?pre\<rparr>) # lp_resident s"
      "lp_lru u = (if ?pre then lp_lru s @ [page] else page # lp_lru s)"
      "lp_unused_count u = (if ?pre then lp_unused_count s + 1 else lp_unused_count s)"
      "\<And>x. x \<noteq> f \<Longrightarrow> frame_at u x = frame_at s x" "c_state (frame_at u f) = State_resident"
      "c_id (frame_at u f) = c_id (frame_at s f)" "c_pin_count (frame_at u f) = c_pin_count (frame_at s f)"
      using r l True fresh lf(1) by (simp_all add: u_def publish_one_def Let_def emplace_def)
    have same_frame: "map_of (lp_resident s) p = Some e \<Longrightarrow> frame_at u (re_frame e) = frame_at s (re_frame e)"
      "map_of (lp_loading s) q = Some x \<Longrightarrow> q \<noteq> page \<Longrightarrow> frame_at u x = frame_at s x" for p e q x
      using lf(4) [of p e] other [of q x] u(9) by blast+
    have "lru_inv [] ((page, f) # pins) u"
    proof (rule lru_invI)
      have "mset (owned u) = mset (owned s)" using dl by (simp add: owned_def u del: mset_map)
      moreover have "page \<notin> set (lp_lru s)"
        using lru_shapeD(7) [OF sh] fresh by (simp add: map_of_eq_None_keys)
      ultimately show "lru_shape [] u"
        using sh fresh by (auto simp: lru_shape_def u keys_delete distinct_removeAll map_of_eq_None_keys)
      show "lru_pins ((page, f) # pins) u"
        using lru_invD(2) [OF inv] pins_page(1) one cp
        by (auto simp: lru_pins_def u held_def cd)
      show "lru_labels u"
        using lru_invD(3) [OF inv] l same_frame by (auto simp: lru_labels_def u)
    qed (use len in simp)
    with True res u(4,6) show ?thesis by (intro that [OF res]) auto
  next
    case False
    have u: "lp_capacity u = lp_capacity s" "lp_chunk_type u = lp_chunk_type s" "lp_free u = lp_free s @ [f]"
      "lp_loading u = AList.delete page (lp_loading s)" "n_frames u = n_frames s"
      "lp_resident u = lp_resident s" "lp_lru u = lp_lru s" "lp_unused_count u = lp_unused_count s"
      "\<And>x. x \<noteq> f \<Longrightarrow> frame_at u x = frame_at s x" "c_pin_count (frame_at u f) = c_pin_count (frame_at s f) - 1"
      using r l False fresh lf(1) by (simp_all add: u_def publish_one_def Let_def unpin_def dec_pin_count_def)
    have same_frame: "map_of (lp_resident s) p = Some e \<Longrightarrow> frame_at u (re_frame e) = frame_at s (re_frame e)"
      "map_of (lp_loading s) q = Some x \<Longrightarrow> q \<noteq> page \<Longrightarrow> frame_at u x = frame_at s x" for p e q x
      using lf(4) [of p e] other [of q x] u(9) by blast+
    have "lru_inv [] pins u"
    proof (rule lru_invI)
      have "mset (owned u) = mset (owned s)" using dl by (simp add: owned_def u del: mset_map)
      then show "lru_shape [] u"
        using sh by (auto simp: lru_shape_def u keys_delete distinct_removeAll)
      show "lru_pins pins u"
        using lru_invD(2) [OF inv] one cp
        by (auto simp: lru_pins_def u held_def cd)
      show "lru_labels u"
        using lru_invD(3) [OF inv] same_frame by (auto simp: lru_labels_def u)
    qed (rule lru_invD(4) [OF inv])
    with False res u(4,6) show ?thesis by (intro that [OF res]) auto
  qed
qed

subsection \<open>One attempt to reserve a page\<close>

definition resident_pages :: "io_lru_buffer_pool_t \<Rightarrow> u64 set" where
  "resident_pages s = set (keys (lp_resident s))"

definition loading_pages :: "io_lru_buffer_pool_t \<Rightarrow> u64 set" where
  "loading_pages s = set (keys (lp_loading s))"

text \<open>A page loses residence in an attempt only as its victim.\<close>

definition evicted_by :: "io_cache_access_t \<Rightarrow> io_lru_buffer_pool_t \<Rightarrow> io_lru_buffer_pool_t \<Rightarrow> u64 set" where
  "evicted_by access s u = {p \<in> resident_pages s. p \<notin> resident_pages u}"

lemma chosen_evicted:
  assumes "chosen access s evicted u" "p \<in> resident_pages s" "p \<notin> resident_pages u"
  shows "evicted \<and> evicts access s p"
  using assms
  by (auto simp: chosen_def resident_pages_def set_keys_delete simp del: set_map split: if_splits)

lemma eligible_iff:
  "eligible b s p \<longleftrightarrow> (\<exists>e. map_of (lp_resident s) p = Some e
     \<and> c_pin_count (frame_at s (re_frame e)) = 0 \<and> (b \<longrightarrow> re_unused e))"
  by (auto simp: eligible_def split: option.splits)

lemma chosen_stats [simp]: "chosen access (count_stat g s) evicted u = chosen access s evicted u"
  by (simp add: chosen_def evicts_def eligible_iff)

lemma reserve_attempt_correct:
  assumes inv: "lru_inv [] pins s" and small: "unat page < 2 ^ 62" and len: "length pins + 2 < 2 ^ 64"
  obtains (hit) r u e where "map_of (lp_resident s) page = Some e"
      "reserve_attempt page access wt coalesced s = (Inr (Done r), u)"
      "lru_inv [] ((page, re_frame e) # pins) u" "same_pages s u"
      "rs_state r = HIT" "rs_page r = page" "rs_frame r = Some (re_frame e)" "rs_access r = access"
      "access = DEMAND \<Longrightarrow> lp_lru u = page # remove1 page (lp_lru s)"
      "access \<noteq> DEMAND \<Longrightarrow> lp_lru u = lp_lru s"
  | (busy) u where "page \<in> loading_pages s" "page \<notin> resident_pages s"
      "reserve_attempt page access wt coalesced s =
         (Inr (if wt then Wait else Done (bypass page True access)), u)"
      "lru_inv [] pins u" "same_pages s u"
  | (refused) u where "page \<notin> loading_pages s" "page \<notin> resident_pages s"
      "reserve_attempt page access wt coalesced s = (Inr (Done (bypass page coalesced access)), u)"
      "lru_inv [] pins u" "same_pages s u"
  | (load) r u f evicted where "page \<notin> loading_pages s" "page \<notin> resident_pages s"
      "reserve_attempt page access wt coalesced s = (Inr (Done r), u)" "lru_inv [] pins u"
      "lp_loading u = (page, f) # lp_loading s" "page \<notin> resident_pages u"
      "rs_state r = LOAD" "rs_page r = page" "rs_frame r = Some f" "rs_access r = access"
      "rs_evicted r = evicted" "chosen access s evicted (u\<lparr>lp_loading := lp_loading s\<rparr>)"
proof (cases "map_of (lp_resident s) page")
  case (Some e)
  from hit_resident_correct [OF inv Some len, of access coalesced] obtain r u where h:
    "hit_resident page access coalesced e s = (Inr r, u)"
    "lru_inv [] ((page, re_frame e) # pins) u" "same_pages s u"
    "rs_state r = HIT" "rs_page r = page" "rs_frame r = Some (re_frame e)" "rs_access r = access"
    "access = DEMAND \<Longrightarrow> lp_lru u = page # remove1 page (lp_lru s)"
    "access \<noteq> DEMAND \<Longrightarrow> lp_lru u = lp_lru s"
    by metis
  from Some h(1) have "reserve_attempt page access wt coalesced s = (Inr (Done r), u)"
    by (simp add: reserve_attempt_def)
  from hit [OF Some this h(2-)] show ?thesis .
next
  case None
  then have nr: "page \<notin> resident_pages s" by (simp add: resident_pages_def map_of_eq_None_keys)
  show ?thesis
  proof (cases "map_of (lp_loading s) page")
    case (Some f)
    then have "page \<in> loading_pages s"
      by (metis loading_pages_def map_of_eq_None_keys option.distinct(1))
    moreover have "reserve_attempt page access wt coalesced s =
        (Inr (if wt then Wait else Done (bypass page True access)),
         count_stat (\<lambda>st. st\<lparr>coalesced_misses := coalesced_misses st + 1\<rparr>) s)"
      using None Some by (simp add: reserve_attempt_def Let_def)
    ultimately show ?thesis
      by (rule busy [OF _ nr]) (use inv in \<open>simp_all add: same_pages_def\<close>)
  next
    case free: None
    then have nl: "page \<notin> loading_pages s" by (simp add: loading_pages_def map_of_eq_None_keys)
    define s1 where "s1 = (if is_prefetch access
        then count_stat (\<lambda>st. st\<lparr>prefetch_misses := prefetch_misses st + 1\<rparr>) s
        else count_stat (\<lambda>st. st\<lparr>stat_misses := stat_misses st + 1\<rparr>) s)"
    have i1: "lru_inv [] pins s1" using inv by (simp add: s1_def)
    have f1: "lp_resident s1 = lp_resident s" "lp_loading s1 = lp_loading s" "lp_capacity s1 = lp_capacity s"
      "lp_free s1 = lp_free s" "lp_chunk_type s1 = lp_chunk_type s"
      by (simp_all add: s1_def)
    note body = reserve_attempt_def [of page access wt coalesced s, unfolded None free option.case
        if_False simp_thms, folded s1_def, unfolded Let_def]
    show ?thesis
    proof (cases "lp_capacity s = 0")
      case True
      have "reserve_attempt page access wt coalesced s = (Inr (Done (bypass page coalesced access)), s1)"
        using None free True by (simp add: reserve_attempt_def s1_def Let_def)
      then show ?thesis by (rule refused [OF nl nr]) (use i1 in \<open>simp_all add: same_pages_def f1\<close>)
    next
      case cap: False
      from i1 show ?thesis
      proof (cases rule: choose_frame_correct [of pins s1 access])
        case none
        let ?u = "if is_prefetch access
            then count_stat (\<lambda>st. st\<lparr>prefetch_admission_rejections := prefetch_admission_rejections st + 1\<rparr>) s1
            else count_stat (\<lambda>st. st\<lparr>pinned_victim_failures := pinned_victim_failures st + 1\<rparr>) s1"
        have "reserve_attempt page access wt coalesced s = (Inr (Done (bypass page coalesced access)), ?u)"
          using None free cap none by (simp add: reserve_attempt_def s1_def Let_def)
        then show ?thesis by (rule refused [OF nl nr]) (use i1 in \<open>simp_all add: same_pages_def f1\<close>)
      next
        case (some f evicted u)
        from small obtain i where i: "make_chunk_id (lp_chunk_type u) page = Inr i"
          by (simp add: make_chunk_id_eq)
        let ?s3 = "pin f (upd_frame f (\<lambda>c. c\<lparr>c_id := i, c_state := State_free\<rparr>) u)"
        let ?u = "?s3\<lparr>lp_loading := emplace page f (lp_loading ?s3)\<rparr>"
        let ?r = "\<lparr>rs_state = LOAD, rs_page = page, rs_frame = Some f, rs_data = c_data (frame_at ?s3 f),
           rs_coalesced = coalesced, rs_evicted = evicted, rs_access = access, rs_prefetched_hit = False\<rparr>"
        have c2: "chosen access s evicted u" using some(3) by (simp add: s1_def split: if_splits)
        then have c: "lp_loading u = lp_loading s" "chosen access s evicted u"
          by (simp_all add: chosen_def)
        have ru: "map_of (lp_resident u) page = None"
          using some(3) None by (auto simp: chosen_def f1 split: if_splits)
        have e3: "lp_loading ?s3 = lp_loading u" "lp_resident ?s3 = lp_resident u"
          "lp_capacity ?s3 = lp_capacity u" "lp_chunk_type ?s3 = lp_chunk_type u"
          by (simp_all add: pin_def)
        have eq: "reserve_attempt page access wt coalesced s = (Inr (Done ?r), ?u)"
          using None free cap some(1) i by (simp add: reserve_attempt_def s1_def Let_def)
        have iu: "lru_inv [] pins ?u"
          unfolding e3 by (rule start_load [OF some(2) ru _ i]) (simp add: c free)
        have lu: "lp_loading ?u = (page, f) # lp_loading s"
          using free by (simp add: emplace_def c e3)
        have pu: "page \<notin> resident_pages ?u"
          using ru by (simp add: resident_pages_def e3 map_of_eq_None_keys)
        show ?thesis
          by (rule load [OF nl nr eq iu lu pu]) (use c in \<open>auto simp: chosen_def e3 split: if_splits\<close>)
      qed
    qed
  qed
qed

end
