(* ===== verification/LRU_Clients.thy ===== *)
theory LRU_Clients
  imports LRU_Invariant
begin

text \<open>
  Threads that use the page cache by batches, the way the search code does
  (src/search/pq_flash_index.cc): \<open>reserve_many\<close> of strictly increasing pages, the reads, then
  \<open>publish_many\<close> and \<open>release_many\<close>.  The invariant of the cache holds with exactly the
  reservations that the threads hold, no operation of such a thread throws, and the threads
  never block each other for good.
\<close>

subsection \<open>The initial pool, clearing\<close>

lemma init_level_0: "init_level sz t 0 l = (Inr (), (destroy_level l)\<lparr>lv_type := t,
    lv_chunk_count := 0, lv_chunk_size := ucast (chunk_size t)\<rparr>)"
  by (simp add: init_level_def)

lemma new_pool_correct:
  assumes "unat n \<le> 2 ^ 62"
  obtains s where "new_pool sz n t = Inr s" "lru_inv [] [] s" "lp_loading s = []" "lp_resident s = []"
    "lp_capacity s = n" "lp_chunk_type s = t" "lp_credit s" "lp_free s = [0..<unat n]"
proof -
  from init_level_inv [OF assms, of sz t empty_level] obtain l where
    l: "init_level sz t n empty_level = (Inr (), l)" "lv_inv l" "lv_chunk_count l = n"
      "\<forall>i < length (lv_chunks l). c_pin_count (lv_chunks l ! i) = 0"
    by auto
  have "\<exists>b. init_pool sz ((\<lambda>_. 0)(t := n)) \<lparr>bp_levels = (\<lambda>_. empty_level), bp_total_chunk_count = 0\<rparr>
      = (Inr (), b) \<and> bp_levels b t = l"
    using l(1)
    by (cases t) (simp_all add: init_pool_def chunk_types_def init_level_0)
  then obtain b where b: "init_pool sz ((\<lambda>_. 0)(t := n)) \<lparr>bp_levels = (\<lambda>_. empty_level), bp_total_chunk_count = 0\<rparr>
      = (Inr (), b)" "bp_levels b t = l" by blast
  let ?s = "\<lparr>lp_capacity = n, lp_chunk_type = t, lp_frames = l, lp_free = [0..<unat n], lp_resident = [],
          lp_loading = [], lp_lru = [], lp_unused_count = 0, lp_credit = True, lp_stats = no_stats\<rparr>"
  have "new_pool sz n t = Inr ?s" by (simp add: new_pool_def b)
  moreover have "lru_inv [] [] ?s"
    using l(2-4) by (simp add: lru_inv_def lru_shape_def lru_pins_def lru_labels_def owned_def held_def
        n_frames_def frame_at_def lv_inv_def)
  ultimately show ?thesis by (rule that) simp_all
qed

lemma clear_resident_correct:
  assumes "\<And>p e. (p, e) \<in> set rs \<Longrightarrow> c_pin_count (frame_at s (re_frame e)) = 0"
  shows "\<exists>fr. clear_resident rs s = (Inr (), s\<lparr>lp_frames := fr\<rparr>)
    \<and> length (lv_chunks fr) = n_frames s
    \<and> (\<forall>x < n_frames s. c_pin_count (lv_chunks fr ! x) = c_pin_count (frame_at s x))"
  using assms
proof (induction rs arbitrary: s)
  case (Cons a rs)
  obtain p e where a: "a = (p, e)" by (cases a)
  let ?s = "upd_frame (re_frame e) (\<lambda>c. c\<lparr>c_state := State_free\<rparr>) s"
  have same: "c_pin_count (frame_at ?s x) = c_pin_count (frame_at s x)" for x by simp
  have "\<exists>fr. clear_resident rs ?s = (Inr (), ?s\<lparr>lp_frames := fr\<rparr>) \<and> length (lv_chunks fr) = n_frames ?s
      \<and> (\<forall>x < n_frames ?s. c_pin_count (lv_chunks fr ! x) = c_pin_count (frame_at ?s x))"
  proof (rule Cons.IH)
    fix q x assume "(q, x) \<in> set rs"
    then show "c_pin_count (frame_at ?s (re_frame x)) = 0" unfolding same using Cons.prems [of q x] by simp
  qed
  then obtain fr where "clear_resident rs ?s = (Inr (), ?s\<lparr>lp_frames := fr\<rparr>)"
    "length (lv_chunks fr) = n_frames s"
    "\<forall>x < n_frames s. c_pin_count (lv_chunks fr ! x) = c_pin_count (frame_at s x)"
    unfolding same by auto
  moreover have "?s\<lparr>lp_frames := fr\<rparr> = s\<lparr>lp_frames := fr\<rparr>" by (simp add: upd_frame_def)
  moreover have "c_pin_count (frame_at s (re_frame e)) = 0" using Cons.prems [of p e] a by simp
  ultimately show ?case by (auto simp: a)
next
  case Nil
  show ?case by (rule exI [of _ "lp_frames s"]) (simp add: n_frames_def frame_at_def)
qed

lemma clear_pool_correct:
  assumes inv: "lru_inv [] [] s" and l: "lp_loading s = []"
  shows "\<exists>u. clear_pool s = (Inr (), u) \<and> lru_inv [] [] u \<and> lp_resident u = [] \<and> lp_loading u = []
    \<and> length (lp_free u) = unat (lp_capacity s)"
proof -
  note sh = lru_invD(1) [OF inv]
  have z: "c_pin_count (frame_at s x) = 0" if "x < n_frames s" for x
    using lru_invD(2) [OF inv] that l by (simp add: lru_pins_def held_def)
  have zr: "c_pin_count (frame_at s (re_frame e)) = 0" if "(p, e) \<in> set (lp_resident s)" for p e
    by (rule z) (metis that resident_frame(1) [OF sh] lru_shapeD(3) [OF sh] map_of_is_SomeI)
  have "\<exists>fr. clear_resident (lp_resident s) s = (Inr (), s\<lparr>lp_frames := fr\<rparr>)
    \<and> length (lv_chunks fr) = n_frames s
    \<and> (\<forall>x < n_frames s. c_pin_count (lv_chunks fr ! x) = c_pin_count (frame_at s x))"
    by (rule clear_resident_correct) (rule zr)
  then obtain fr where fr:
    "clear_resident (lp_resident s) s = (Inr (), s\<lparr>lp_frames := fr\<rparr>)" "length (lv_chunks fr) = n_frames s"
    "\<forall>x < n_frames s. c_pin_count (lv_chunks fr ! x) = c_pin_count (frame_at s x)"
    by blast
  then show ?thesis
    using l z lru_shapeD(1) [OF sh]
    by (auto simp: clear_pool_def lru_inv_def lru_shape_def lru_pins_def lru_labels_def owned_def held_def
        n_frames_def frame_at_def)
qed

subsection \<open>Threads\<close>

datatype client =
    Idle
  | Reserving io_cache_access_t "io_cache_reservation_t list" "u64 list" bool bool
  | Loaded "io_cache_reservation_t list"
  | Published "io_cache_reservation_t list"

fun tokens :: "(io_cache_reservation_state_t \<Rightarrow> bool) \<Rightarrow> io_cache_reservation_t list \<Rightarrow> (u64 \<times> nat) list" where
  "tokens P [] = []"
| "tokens P (r # rs) =
     (case rs_frame r of
        None \<Rightarrow> tokens P rs
      | Some f \<Rightarrow> if P (rs_state r) then (rs_page r, f) # tokens P rs else tokens P rs)"

abbreviation loads :: "io_cache_reservation_t list \<Rightarrow> (u64 \<times> nat) list" where
  "loads \<equiv> tokens (\<lambda>st. st = LOAD)"

abbreviation hits :: "io_cache_reservation_t list \<Rightarrow> (u64 \<times> nat) list" where
  "hits \<equiv> tokens (\<lambda>st. st = HIT)"

abbreviation held_pins :: "io_cache_reservation_t list \<Rightarrow> (u64 \<times> nat) list" where
  "held_pins \<equiv> tokens (\<lambda>st. st \<noteq> BYPASS)"

fun client_loads :: "client \<Rightarrow> (u64 \<times> nat) list" where
  "client_loads (Reserving a d t c b) = loads d"
| "client_loads (Loaded rs) = loads rs"
| "client_loads _ = []"

fun client_pins :: "client \<Rightarrow> (u64 \<times> nat) list" where
  "client_pins (Reserving a d t c b) = hits d"
| "client_pins (Loaded rs) = hits rs"
| "client_pins (Published rs) = held_pins rs"
| "client_pins Idle = []"

fun client_size :: "client \<Rightarrow> nat" where
  "client_size (Reserving a d t c b) = length d + length t"
| "client_size (Loaded rs) = length rs"
| "client_size (Published rs) = length rs"
| "client_size Idle = 0"

record system =
  sy_pool :: io_lru_buffer_pool_t
  sy_clients :: "client list"

abbreviation set_client :: "nat \<Rightarrow> client \<Rightarrow> io_lru_buffer_pool_t \<Rightarrow> system \<Rightarrow> system" where
  "set_client k c p sy \<equiv> sy\<lparr>sy_pool := p, sy_clients := (sy_clients sy)[k := c]\<rparr>"

text \<open>
  The steps of a thread.  Between two pages of a batch other threads may run, which the code
  allows only while it waits.  After a failed read only the hits are left to release.
\<close>

inductive advance :: "system \<Rightarrow> system \<Rightarrow> bool" where
  got_page: "k < length (sy_clients sy) \<Longrightarrow> sy_clients sy ! k = Reserving a d (p # t) c False \<Longrightarrow>
    reserve_attempt p a True c (sy_pool sy) = (Inr (Done r), u) \<Longrightarrow>
    advance sy (set_client k (Reserving a (d @ [r]) t False False) u sy)"
| must_wait: "k < length (sy_clients sy) \<Longrightarrow> sy_clients sy ! k = Reserving a d (p # t) c False \<Longrightarrow>
    reserve_attempt p a True c (sy_pool sy) = (Inr Wait, u) \<Longrightarrow>
    advance sy (set_client k (Reserving a d (p # t) True True) u sy)"
| wake_up: "k < length (sy_clients sy) \<Longrightarrow> sy_clients sy ! k = Reserving a d (p # t) c True \<Longrightarrow>
    p \<notin> loading_pages (sy_pool sy) \<Longrightarrow>
    advance sy (set_client k (Reserving a d (p # t) c False) (sy_pool sy) sy)"
| batch_reserved: "k < length (sy_clients sy) \<Longrightarrow> sy_clients sy ! k = Reserving a d [] c b \<Longrightarrow>
    advance sy (set_client k (Loaded d) (sy_pool sy) sy)"
| batch_read: "k < length (sy_clients sy) \<Longrightarrow> sy_clients sy ! k = Loaded rs \<Longrightarrow>
    publish_many True rs (sy_pool sy) = (Inr (), u) \<Longrightarrow>
    advance sy (set_client k (Published rs) u sy)"
| batch_failed: "k < length (sy_clients sy) \<Longrightarrow> sy_clients sy ! k = Loaded rs \<Longrightarrow>
    publish_many False rs (sy_pool sy) = (Inr (), u) \<Longrightarrow>
    advance sy (set_client k (Published (filter (\<lambda>r. rs_state r \<noteq> LOAD) rs)) u sy)"
| batch_released: "k < length (sy_clients sy) \<Longrightarrow> sy_clients sy ! k = Published rs \<Longrightarrow>
    release_many rs (sy_pool sy) = (Inr (), u) \<Longrightarrow>
    advance sy (set_client k Idle u sy)"

inductive sys_step :: "system \<Rightarrow> system \<Rightarrow> bool" where
  begin_batch: "k < length (sy_clients sy) \<Longrightarrow> sy_clients sy ! k = Idle \<Longrightarrow> batch_ok pages \<Longrightarrow>
    (\<And>p. p \<in> set pages \<Longrightarrow> unat p < 2 ^ 62) \<Longrightarrow>
    sum_list (map client_size (sy_clients sy)) + length pages + 2 < 2 ^ 64 \<Longrightarrow>
    sys_step sy (set_client k (Reserving a [] pages False False) (sy_pool sy) sy)"
| thread_step: "advance sy sy' \<Longrightarrow> sys_step sy sy'"

subsection \<open>The system invariant\<close>

definition all_pins :: "client list \<Rightarrow> (u64 \<times> nat) list" where
  "all_pins cs = concat (map client_pins cs)"

definition all_loads :: "client list \<Rightarrow> (u64 \<times> nat) list" where
  "all_loads cs = concat (map client_loads cs)"

fun client_ok :: "client \<Rightarrow> bool" where
  "client_ok (Reserving a d t c b) \<longleftrightarrow> sorted_wrt (<) t \<and> (\<forall>p \<in> set t. unat p < 2 ^ 62)
     \<and> (\<forall>(q, f) \<in> set (loads d). \<forall>p \<in> set t. q < p) \<and> (b \<longrightarrow> t \<noteq> [])"
| "client_ok _ \<longleftrightarrow> True"

fun res_ok :: "io_cache_reservation_t \<Rightarrow> bool" where
  "res_ok r \<longleftrightarrow> (rs_frame r = None \<longrightarrow> rs_state r = BYPASS)"

definition sys_inv :: "system \<Rightarrow> bool" where
  "sys_inv sy \<longleftrightarrow> lru_inv [] (all_pins (sy_clients sy)) (sy_pool sy)
     \<and> mset (lp_loading (sy_pool sy)) = mset (all_loads (sy_clients sy))
     \<and> (\<forall>c \<in> set (sy_clients sy). client_ok c)
     \<and> sum_list (map client_size (sy_clients sy)) + 2 < 2 ^ 64"

lemma mset_concat_update:
  "k < length cs \<Longrightarrow>
   mset (concat (map f (cs[k := c]))) + mset (f (cs ! k)) = mset (concat (map f cs)) + mset (f c)"
proof (induction cs arbitrary: k)
  case (Cons a cs)
  then show ?case by (cases k) (auto simp: ac_simps)
qed simp

lemma sum_list_client_update:
  "k < length cs \<Longrightarrow>
   sum_list (map g (cs[k := c])) + g (cs ! k) = sum_list (map g cs) + (g c :: nat)"
proof (induction cs arbitrary: k)
  case (Cons a cs)
  then show ?case by (cases k) auto
qed simp

lemma tokens_append [simp]: "tokens P (rs @ rs') = tokens P rs @ tokens P rs'"
  by (induction rs) (auto split: option.splits)

lemma length_tokens: "length (tokens P rs) \<le> length rs"
  by (induction rs) (auto split: option.splits)

lemma mset_held_pins: "mset (held_pins rs) = mset (hits rs) + mset (loads rs)"
  by (induction rs) (auto split: option.splits, metis io_cache_reservation_state_t.exhaust)

lemma tokens_no_loads: "held_pins (filter (\<lambda>r. rs_state r \<noteq> LOAD) rs) = hits rs"
  by (induction rs) (auto split: option.splits, metis io_cache_reservation_state_t.exhaust)

lemma pins_le_size: "length (client_pins c) \<le> client_size c"
  using length_tokens by (cases c) (auto intro: trans_le_add1)

lemma all_pins_le: "length (all_pins cs) \<le> sum_list (map client_size cs)"
  by (induction cs) (auto simp: all_pins_def intro: add_mono pins_le_size)

lemma lru_pins_mset:
  assumes "mset pins' = mset pins"
  shows "lru_inv loose pins' s = lru_inv loose pins s"
proof -
  have "count_list (map snd pins') = count_list (map snd pins)"
    using assms by (metis count_mset mset_map ext)
  moreover have "set pins' = set pins" "length pins' = length pins"
    using assms by (auto dest: mset_eq_setD mset_eq_length)
  ultimately show ?thesis by (simp add: lru_inv_def lru_pins_def held_def)
qed

text \<open>What \<open>publish_many\<close> and \<open>release_many\<close> do with the reservations of one thread.\<close>

lemma publish_many_correct:
  "lru_inv [] pins s \<Longrightarrow> mset (loads rs) + R = mset (lp_loading s) \<Longrightarrow>
   length pins + length (loads rs) + 2 < 2 ^ 64 \<Longrightarrow>
   \<exists>u. publish_many b rs s = (Inr (), u) \<and> mset (lp_loading u) = R
     \<and> lru_inv [] ((if b then loads rs else []) @ pins) u"
proof (induction rs arbitrary: s pins)
  case (Cons r rs)
  show ?case
  proof (cases "\<exists>f. rs_frame r = Some f \<and> rs_state r = LOAD")
    case False
    then have one: "publish_one b r s = (Inr (), s)" "loads (r # rs) = loads rs"
      by (auto simp: publish_one_def split: option.splits)
    have "mset (loads rs) + R = mset (lp_loading s)" "length pins + length (loads rs) + 2 < 2 ^ 64"
      using Cons.prems(2,3) by (simp_all only: one)
    from Cons.IH [OF Cons.prems(1) this] show ?thesis
      by (simp only: publish_many.simps one prod.case sum.case)
  next
    case True
    then obtain f where f: "rs_frame r = Some f" "rs_state r = LOAD" by blast
    then have ld: "loads (r # rs) = (rs_page r, f) # loads rs" by simp
    have "(rs_page r, f) \<in># mset (lp_loading s)"
      using Cons.prems(2) [symmetric] by (simp only: ld) simp
    then have m: "map_of (lp_loading s) (rs_page r) = Some f"
      using lru_shapeD(4) [OF lru_invD(1) [OF Cons.prems(1)]] by (simp add: map_of_is_SomeI)
    from Cons.prems(3) have len: "length pins + 2 < 2 ^ 64" "length pins + length (loads rs) + 3 < 2 ^ 64"
      by (simp_all only: ld list.size)
    from publish_correct [OF Cons.prems(1) m f(2) refl f(1) len(1), of b] obtain u where
      u: "publish_one b r s = (Inr (), u)" "lru_inv [] (if b then (rs_page r, f) # pins else pins) u"
        "lp_loading u = AList.delete (rs_page r) (lp_loading s)" by metis
    have "mset (lp_loading s) = add_mset (rs_page r, f) (mset (lp_loading u))"
      unfolding u(3) by (rule mset_delete_entry [OF lru_shapeD(4) [OF lru_invD(1) [OF Cons.prems(1)]] m])
    with Cons.prems(2) have "mset (loads rs) + R = mset (lp_loading u)" by (simp only: ld) simp
    from Cons.IH [OF u(2) this] len(2) obtain v where
      v: "publish_many b rs u = (Inr (), v)" "mset (lp_loading v) = R"
        "lru_inv [] ((if b then loads rs else []) @ (if b then (rs_page r, f) # pins else pins)) v"
      by (cases b) auto
    have "lru_inv [] ((if b then loads (r # rs) else []) @ pins) v"
      using v(3) by (rule iffD1 [OF lru_pins_mset, rotated]) (simp add: ld del: tokens.simps)
    with u(1) v(1,2) show ?thesis by simp
  qed
qed simp

lemma release_many_correct:
  "lru_inv [] pins s \<Longrightarrow> mset (held_pins rs) + P = mset pins \<Longrightarrow>
   \<exists>u. release_many rs s = (Inr (), u) \<and> lp_loading u = lp_loading s
     \<and> (\<exists>pins'. mset pins' = P \<and> lru_inv [] pins' u)"
proof (induction rs arbitrary: s pins)
  case (Cons r rs)
  show ?case
  proof (cases "\<exists>f. rs_frame r = Some f \<and> rs_state r \<noteq> BYPASS")
    case False
    then have one: "release_one r s = (Inr (), s)" "held_pins (r # rs) = held_pins rs"
      by (auto simp: release_one_def split: option.splits)
    from Cons.IH [OF Cons.prems(1) Cons.prems(2) [unfolded one]] show ?thesis
      by (simp only: release_many.simps one prod.case sum.case)
  next
    case True
    then obtain f where f: "rs_frame r = Some f" "rs_state r \<noteq> BYPASS" by blast
    then have hp: "held_pins (r # rs) = (rs_page r, f) # held_pins rs" by simp
    then have mem: "(rs_page r, f) \<in> set pins"
      using Cons.prems(2) by (metis add_mset_add_single mset.simps(2) set_mset_mset union_iff
          list.set_intros(1))
    note un = unpin_resident [OF Cons.prems(1) mem]
    have rel: "release_one r s = (Inr (), unpin f s)" using f un(2) by (simp add: release_one_def)
    have "mset (held_pins rs) + P = mset (remove1 (rs_page r, f) pins)"
      using Cons.prems(2) by (simp only: hp mset_remove1) (metis add_mset_remove_trivial mset.simps(2) union_mset_add_mset_left)
    from Cons.IH [OF un(1) this] rel show ?thesis by (simp add: unpin_def)
  qed
qed auto

lemma sys_invD:
  assumes "sys_inv sy"
  shows "lru_inv [] (all_pins (sy_clients sy)) (sy_pool sy)"
    "mset (lp_loading (sy_pool sy)) = mset (all_loads (sy_clients sy))"
    "k < length (sy_clients sy) \<Longrightarrow> client_ok (sy_clients sy ! k)"
    "sum_list (map client_size (sy_clients sy)) + 2 < 2 ^ 64"
    "length (all_pins (sy_clients sy)) + 2 < 2 ^ 64"
  using assms all_pins_le [of "sy_clients sy"] by (auto simp: sys_inv_def)

lemma sys_inv_update:
  assumes inv: "sys_inv sy" and k: "k < length (sy_clients sy)" "sy_clients sy ! k = c0"
    and pool: "lru_inv [] pins u"
    and pins: "mset pins + mset (client_pins c0) = mset (all_pins (sy_clients sy)) + mset (client_pins c1)"
    and loading: "mset (lp_loading u) + mset (client_loads c0) = mset (lp_loading (sy_pool sy)) + mset (client_loads c1)"
    and c1: "client_ok c1"
    and sz: "sum_list (map client_size (sy_clients sy)) + client_size c1 + 2 < 2 ^ 64 + client_size c0"
  shows "sys_inv (set_client k c1 u sy)"
proof -
  let ?cs = "sy_clients sy"
  have "mset (all_pins (?cs[k := c1])) + mset (client_pins c0) = mset pins + mset (client_pins c0)"
    unfolding pins all_pins_def by (metis k mset_concat_update)
  then have "mset (all_pins (?cs[k := c1])) = mset pins" by simp
  with pool have "lru_inv [] (all_pins (?cs[k := c1])) u" by (metis lru_pins_mset)
  moreover have "mset (lp_loading u) + mset (client_loads c0) = mset (all_loads (?cs[k := c1])) + mset (client_loads c0)"
    unfolding loading sys_invD(2) [OF inv] all_loads_def by (metis k mset_concat_update)
  then have "mset (lp_loading u) = mset (all_loads (?cs[k := c1]))" by simp
  moreover have "\<forall>c \<in> set (?cs[k := c1]). client_ok c"
    using inv c1 by (auto simp: sys_inv_def dest: set_update_subset_insert [THEN subsetD])
  moreover have "sum_list (map client_size (?cs[k := c1])) + 2 < 2 ^ 64"
    using sum_list_client_update [OF k(1), of client_size c1] sz k(2) by simp
  ultimately show ?thesis by (simp add: sys_inv_def)
qed

lemma client_pins_le:
  assumes "k < length cs"
  shows "mset (client_pins (cs ! k)) + mset (all_pins (cs[k := Idle])) = mset (all_pins cs)"
    "mset (client_loads (cs ! k)) + mset (all_loads (cs[k := Idle])) = mset (all_loads cs)"
  using mset_concat_update [OF assms, of client_pins Idle] mset_concat_update [OF assms, of client_loads Idle]
  by (simp_all add: all_pins_def all_loads_def ac_simps)

lemma reserve_step:
  assumes inv: "sys_inv sy" and k: "k < length (sy_clients sy)" "sy_clients sy ! k = Reserving a d (p # t) c False"
  obtains (ok) r u where "reserve_attempt p a True c (sy_pool sy) = (Inr (Done r), u)"
      "sys_inv (set_client k (Reserving a (d @ [r]) t False False) u sy)"
  | (wait) u where "reserve_attempt p a True c (sy_pool sy) = (Inr Wait, u)" "p \<in> loading_pages (sy_pool sy)"
      "sys_inv (set_client k (Reserving a d (p # t) True True) u sy)"
proof -
  note I = sys_invD [OF inv]
  from I(3) [OF k(1)] k(2) have cok: "sorted_wrt (<) (p # t)" "\<forall>q \<in> set (p # t). unat q < 2 ^ 62"
    "\<forall>(q, f) \<in> set (loads d). \<forall>x \<in> set (p # t). q < x" by auto
  then have small: "unat p < 2 ^ 62" by simp
  have size: "sum_list (map client_size (sy_clients sy)) + client_size (Reserving a (d @ [r]) t c' b) + 2
      < 2 ^ 64 + client_size (Reserving a d (p # t) c False)"
    "sum_list (map client_size (sy_clients sy)) + client_size (Reserving a d (p # t) c' b) + 2
      < 2 ^ 64 + client_size (Reserving a d (p # t) c False)" for r c' b
    using I(4) by simp_all
  note upd = sys_inv_update [OF inv k]
  from I(1) small I(5) show ?thesis
  proof (cases rule: reserve_attempt_correct [of "all_pins (sy_clients sy)" "sy_pool sy" p a True c])
    case (hit r u e)
    show ?thesis
    proof (rule ok [OF hit(2) upd [OF hit(3) _ _ _ size(1)]])
      show "client_ok (Reserving a (d @ [r]) t False False)" using cok hit(5,7) by auto
    qed (use hit in \<open>auto simp: same_pages_def\<close>)
  next
    case (busy u)
    then have "reserve_attempt p a True c (sy_pool sy) = (Inr Wait, u)" by simp
    then show ?thesis
    proof (rule wait [OF _ busy(1) upd [OF busy(4) _ _ _ size(2)]])
      show "client_ok (Reserving a d (p # t) True True)" using cok by simp
    qed (use busy in \<open>auto simp: same_pages_def\<close>)
  next
    case (refused u)
    show ?thesis
    proof (rule ok [OF refused(3) upd [OF refused(4) _ _ _ size(1)]])
      show "client_ok (Reserving a (d @ [bypass p c a]) t False False)" using cok by (auto simp: bypass_def)
    qed (use refused in \<open>auto simp: same_pages_def bypass_def\<close>)
  next
    case (load r u f ev)
    show ?thesis
    proof (rule ok [OF load(3) upd [OF load(4) _ _ _ size(1)]])
      show "client_ok (Reserving a (d @ [r]) t False False)" using cok load(7-9) by auto
    qed (use load in \<open>auto\<close>)
  qed
qed

lemma publish_bound:
  assumes inv: "sys_inv sy" and k: "k < length (sy_clients sy)" "sy_clients sy ! k = Loaded rs"
  shows "length (all_pins (sy_clients sy)) + length (loads rs) + 2 < 2 ^ 64"
proof -
  let ?cs = "sy_clients sy" and ?ds = "(sy_clients sy)[k := Idle]"
  have "length (all_pins ?cs) = length (hits rs) + length (all_pins ?ds)"
    using client_pins_le(1) [OF k(1)] k(2) by (metis client_pins.simps(2) size_mset size_union)
  moreover have "length (held_pins rs) = length (hits rs) + length (loads rs)"
    using mset_held_pins by (metis size_mset size_union)
  moreover have "sum_list (map client_size ?ds) + length rs = sum_list (map client_size ?cs)"
    using sum_list_client_update [OF k(1), of client_size Idle] k(2) by simp
  ultimately show ?thesis
    using all_pins_le [of ?ds] length_tokens [of "\<lambda>st. st \<noteq> BYPASS" rs] sys_invD(4) [OF inv]
    by linarith
qed

lemma publish_step:
  assumes inv: "sys_inv sy" and k: "k < length (sy_clients sy)" "sy_clients sy ! k = Loaded rs"
  obtains u where "publish_many b rs (sy_pool sy) = (Inr (), u)"
    "sys_inv (set_client k (Published (if b then rs else filter (\<lambda>r. rs_state r \<noteq> LOAD) rs)) u sy)"
proof -
  note I = sys_invD [OF inv]
  let ?P = "all_pins (sy_clients sy)" and ?R = "mset (all_loads ((sy_clients sy)[k := Idle]))"
  let ?c = "Published (if b then rs else filter (\<lambda>r. rs_state r \<noteq> LOAD) rs)"
  have ld: "mset (loads rs) + ?R = mset (lp_loading (sy_pool sy))"
    using client_pins_le(2) [OF k(1)] by (simp add: k(2) I(2))
  from publish_many_correct [OF I(1) ld publish_bound [OF inv k], of b] obtain u where
    u: "publish_many b rs (sy_pool sy) = (Inr (), u)" "mset (lp_loading u) = ?R"
      "lru_inv [] ((if b then loads rs else []) @ ?P) u" by blast
  have "client_pins ?c = (if b then held_pins rs else hits rs)" by (simp add: tokens_no_loads)
  moreover have "client_size ?c \<le> length rs" by simp
  ultimately have "sys_inv (set_client k ?c u sy)"
    by (intro sys_inv_update [OF inv k u(3)])
      (use u(2) ld I(4) in \<open>auto simp: mset_held_pins ac_simps simp del: client_pins.simps(3)
          split del: if_split\<close>, (cases b; simp add: mset_held_pins)+)
  with u(1) show ?thesis by (rule that)
qed

lemma release_step:
  assumes inv: "sys_inv sy" and k: "k < length (sy_clients sy)" "sy_clients sy ! k = Published rs"
  obtains u where "release_many rs (sy_pool sy) = (Inr (), u)" "sys_inv (set_client k Idle u sy)"
proof -
  note I = sys_invD [OF inv]
  have hp: "mset (held_pins rs) + mset (all_pins ((sy_clients sy)[k := Idle])) = mset (all_pins (sy_clients sy))"
    using client_pins_le(1) [OF k(1)] by (simp add: k(2))
  from release_many_correct [OF I(1) hp] obtain u pins where
    u: "release_many rs (sy_pool sy) = (Inr (), u)" "lp_loading u = lp_loading (sy_pool sy)"
      "mset pins = mset (all_pins ((sy_clients sy)[k := Idle]))" "lru_inv [] pins u" by blast
  have "sys_inv (set_client k Idle u sy)"
    by (rule sys_inv_update [OF inv k u(4)]) (use u(2,3) hp I(4) in \<open>simp_all add: ac_simps\<close>)
  with u(1) show ?thesis by (rule that)
qed

lemma batch_ok_strict: "batch_ok pages \<Longrightarrow> sorted_wrt (<) pages"
proof (induction pages)
  case (Cons p pages)
  then show ?case
  proof (cases pages)
    case (Cons q qs)
    with Cons.prems have "p < q" "batch_ok pages" by (auto simp: batch_ok_def)
    with Cons.IH Cons show ?thesis by auto
  qed simp
qed simp

lemma advance_inv: "advance sy sy' \<Longrightarrow> sys_inv sy \<Longrightarrow> sys_inv sy'"
proof (induction rule: advance.induct)
  case (got_page k sy a d p t c r u)
  from reserve_step [OF got_page.prems got_page.hyps(1,2)] got_page.hyps(3) show ?case by force
next
  case (must_wait k sy a d p t c u)
  from reserve_step [OF must_wait.prems must_wait.hyps(1,2)] must_wait.hyps(3) show ?case by force
next
  case (wake_up k sy a d p t c)
  note I = sys_invD [OF wake_up.prems]
  show ?case
    by (rule sys_inv_update [OF wake_up.prems wake_up.hyps(1,2) I(1)])
      (use I(3) [OF wake_up.hyps(1)] wake_up.hyps(2) I(4) in simp_all)
next
  case (batch_reserved k sy a d c b)
  note I = sys_invD [OF batch_reserved.prems]
  show ?case
    by (rule sys_inv_update [OF batch_reserved.prems batch_reserved.hyps(1,2) I(1)])
      (use I(4) in simp_all)
next
  case (batch_read k sy rs u)
  from publish_step [OF batch_read.prems batch_read.hyps(1,2), of True] batch_read.hyps(3)
  show ?case by auto
next
  case (batch_failed k sy rs u)
  from publish_step [OF batch_failed.prems batch_failed.hyps(1,2), of False] batch_failed.hyps(3)
  show ?case by auto
next
  case (batch_released k sy rs u)
  from release_step [OF batch_released.prems batch_released.hyps(1,2)] batch_released.hyps(3)
  show ?case by auto
qed

lemma sys_step_inv: "sys_inv sy \<Longrightarrow> sys_step sy sy' \<Longrightarrow> sys_inv sy'"
proof (erule sys_step.cases)
  fix k sy0 pages a
  assume inv: "sys_inv sy" and sy: "sy = sy0" "sy' = set_client k (Reserving a [] pages False False) (sy_pool sy0) sy0"
    and k: "k < length (sy_clients sy0)" "sy_clients sy0 ! k = Idle" and b: "batch_ok pages"
    and p: "\<And>p. p \<in> set pages \<Longrightarrow> unat p < 2 ^ 62"
    and sz: "sum_list (map client_size (sy_clients sy0)) + length pages + 2 < 2 ^ 64"
  from inv sy(1) have inv0: "sys_inv sy0" by simp
  show "sys_inv sy'"
    unfolding sy(2)
    by (rule sys_inv_update [OF inv0 k sys_invD(1) [OF inv0]])
      (use batch_ok_strict [OF b] p sz in simp_all)
qed (simp add: advance_inv)

definition sys_start :: "u64 \<Rightarrow> u64 \<Rightarrow> chunk_type_t \<Rightarrow> nat \<Rightarrow> system \<Rightarrow> bool" where
  "sys_start sz capacity type n sy \<longleftrightarrow> unat capacity \<le> 2 ^ 62
     \<and> new_pool sz capacity type = Inr (sy_pool sy) \<and> sy_clients sy = replicate n Idle"

lemma sys_start_inv: "sys_start sz capacity type n sy \<Longrightarrow> sys_inv sy"
proof -
  assume st: "sys_start sz capacity type n sy"
  then have "unat capacity \<le> 2 ^ 62" by (simp add: sys_start_def)
  from new_pool_correct [OF this, of sz type] st
  have "lru_inv [] [] (sy_pool sy)" "lp_loading (sy_pool sy) = []" by (auto simp: sys_start_def)
  moreover have "concat (map client_pins (replicate n Idle)) = []" "concat (map client_loads (replicate n Idle)) = []"
    "sum_list (map client_size (replicate n Idle)) = 0"
    by (simp_all add: sum_list_replicate)
  ultimately show "sys_inv sy" using st by (auto simp: sys_start_def sys_inv_def all_pins_def all_loads_def sum_list_replicate)
qed

interpretation lru_run: invariant_system "sys_start sz capacity type n" sys_step sys_inv
  for sz capacity type n
  by unfold_locales (auto intro: sys_start_inv sys_step_inv)

subsection \<open>Progress\<close>

text \<open>The page a thread waits for.\<close>

fun waits_for :: "client \<Rightarrow> u64 option" where
  "waits_for (Reserving a d (p # t) c True) = Some p"
| "waits_for _ = None"

lemma waits_forD:
  "waits_for c = Some p \<Longrightarrow> \<exists>a d t b. c = Reserving a d (p # t) b True"
  by (cases c rule: waits_for.cases) auto

lemma advance_or_wait:
  assumes inv: "sys_inv sy" and k: "k < length (sy_clients sy)" and busy: "sy_clients sy ! k \<noteq> Idle"
    and stuck: "\<nexists>sy'. advance sy sy'"
  obtains p where "waits_for (sy_clients sy ! k) = Some p" "p \<in> loading_pages (sy_pool sy)"
proof (cases "sy_clients sy ! k")
  case Idle
  with busy show ?thesis by simp
next
  case (Loaded rs)
  then obtain u where "publish_many True rs (sy_pool sy) = (Inr (), u)"
    by (rule publish_step [OF inv k, of rs True])
  with k Loaded stuck show ?thesis by (metis batch_read)
next
  case (Published rs)
  then obtain u where "release_many rs (sy_pool sy) = (Inr (), u)"
    by (rule release_step [OF inv k])
  with k Published stuck show ?thesis by (metis batch_released)
next
  case (Reserving a d t c b)
  show ?thesis
  proof (cases t)
    case Nil
    with Reserving k stuck show ?thesis by (metis batch_reserved)
  next
    case (Cons p t')
    show ?thesis
    proof (cases b)
      case True
      with Reserving Cons k stuck have "p \<in> loading_pages (sy_pool sy)" by (metis wake_up)
      with Reserving Cons True that show ?thesis by simp
    next
      case False
      with Reserving Cons have c: "sy_clients sy ! k = Reserving a d (p # t') c False" by simp
      show ?thesis
      proof (rule reserve_step [OF inv k c])
        fix r u assume "reserve_attempt p a True c (sy_pool sy) = (Inr (Done r), u)"
        from got_page [OF k c this] stuck show ?thesis by blast
      next
        fix u assume "reserve_attempt p a True c (sy_pool sy) = (Inr Wait, u)"
        from must_wait [OF k c this] stuck show ?thesis by blast
      qed
    qed
  qed
qed

lemma loading_owner:
  assumes inv: "sys_inv sy" and p: "p \<in> loading_pages (sy_pool sy)"
  obtains k f where "k < length (sy_clients sy)" "(p, f) \<in> set (client_loads (sy_clients sy ! k))"
proof -
  from p obtain f where "(p, f) \<in> set (lp_loading (sy_pool sy))" by (auto simp: loading_pages_def)
  then have "(p, f) \<in> set (all_loads (sy_clients sy))"
    using sys_invD(2) [OF inv] by (metis mset_eq_setD)
  then obtain c where "c \<in> set (sy_clients sy)" "(p, f) \<in> set (client_loads c)"
    by (auto simp: all_loads_def)
  with that show ?thesis by (metis in_set_conv_nth)
qed

lemma no_deadlock:
  assumes inv: "sys_inv sy" and busy: "\<exists>c \<in> set (sy_clients sy). c \<noteq> Idle"
  shows "\<exists>sy'. advance sy sy'"
proof (rule ccontr)
  assume stuck: "\<nexists>sy'. advance sy sy'"
  let ?cs = "sy_clients sy"
  let ?W = "{p. \<exists>k < length ?cs. waits_for (?cs ! k) = Some p}"
  have fin: "finite ?W"
    by (rule finite_subset [of _ "(\<lambda>k. the (waits_for (?cs ! k))) ` {..<length ?cs}"]) (force, simp)
  from busy obtain k where k: "k < length ?cs" "?cs ! k \<noteq> Idle" by (metis in_set_conv_nth)
  from advance_or_wait [OF inv k stuck] k(1) have "?W \<noteq> {}" by blast
  with fin have "Max ?W \<in> ?W" by (rule Max_in)
  then obtain j where j: "j < length ?cs" "waits_for (?cs ! j) = Some (Max ?W)" by blast
  then have "?cs ! j \<noteq> Idle" by auto
  from advance_or_wait [OF inv j(1) this stuck] j(2) have "Max ?W \<in> loading_pages (sy_pool sy)" by auto
  from loading_owner [OF inv this] obtain i f where i: "i < length ?cs" "(Max ?W, f) \<in> set (client_loads (?cs ! i))"
    by blast
  then have "?cs ! i \<noteq> Idle" by auto
  from advance_or_wait [OF inv i(1) this stuck] obtain q where q: "waits_for (?cs ! i) = Some q" by blast
  then obtain a d t b where c: "?cs ! i = Reserving a d (q # t) b True" using waits_forD by blast
  with i sys_invD(3) [OF inv i(1)] have "Max ?W < q" by auto
  moreover have "q \<le> Max ?W" using q i(1) fin by (intro Max_ge) auto
  ultimately show False by simp
qed

subsection \<open>Properties\<close>

definition demo_system :: system where
  "demo_system = \<lparr>sy_pool = projr (new_pool 128 2 Chunk_4kb), sy_clients = [Idle, Idle]\<rparr>"

lemma demo_system: "sys_start 128 2 Chunk_4kb 2 demo_system"
proof -
  have "unat (2 :: u64) \<le> 2 ^ 62" by simp
  then obtain s where "new_pool 128 2 Chunk_4kb = Inr s" by (rule new_pool_correct)
  moreover have "replicate 2 Idle = [Idle, Idle]" by (simp add: numeral_2_eq_2)
  ultimately show ?thesis by (simp add: sys_start_def demo_system_def)
qed

text \<open>A pool of two 4 KB frames, both free.\<close>

definition demo_pool :: io_lru_buffer_pool_t where
  "demo_pool = sy_pool demo_system"

lemma demo_pool:
  "lru_inv [] [] demo_pool" "lp_resident demo_pool = []" "lp_loading demo_pool = []" "lp_capacity demo_pool = 2"
  "lp_free demo_pool = [0, 1]" "lp_chunk_type demo_pool = Chunk_4kb" "lp_unused_count demo_pool = 0"
proof -
  have "unat (2 :: u64) \<le> 2 ^ 62" by simp
  then obtain s where s: "new_pool 128 2 Chunk_4kb = Inr s" "lru_inv [] [] s" "lp_loading s = []" "lp_resident s = []"
    "lp_capacity s = 2" "lp_chunk_type s = Chunk_4kb" "lp_free s = [0..<unat (2 :: u64)]"
    by (rule new_pool_correct [of 2 128 Chunk_4kb])
  then have "demo_pool = s" by (simp add: demo_pool_def demo_system_def)
  with s lru_shapeD(8) [OF lru_invD(1) [OF s(2)]] show "lru_inv [] [] demo_pool"
    "lp_resident demo_pool = []" "lp_loading demo_pool = []"
    "lp_capacity demo_pool = 2" "lp_free demo_pool = [0, 1]" "lp_chunk_type demo_pool = Chunk_4kb"
    "lp_unused_count demo_pool = 0"
    by (simp_all add: upt_rec)
qed

text \<open>C3: In every state that threads reach by batches of reserve, publish and release from a fresh
  cache, the free, resident and loading frames are disjoint and together exactly the frames of
  the pool; every page a thread has pinned is resident in the frame the thread was given, which
  carries that page's identifier; every page a thread is loading is in flight in its frame.\<close>

theorem cache_pins_safe:
  assumes "sys_start sz capacity type n sy0" "sys_step\<^sup>*\<^sup>* sy0 sy"
  defines "s \<equiv> sy_pool sy"
  shows "distinct (owned s) \<and> set (owned s) = {..<unat (lp_capacity s)}
    \<and> (\<forall>(p, f) \<in> set (all_pins (sy_clients sy)). \<exists>e. map_of (lp_resident s) p = Some e \<and> re_frame e = f
         \<and> make_chunk_id (lp_chunk_type s) p = Inr (c_id (frame_at s f)))
    \<and> (\<forall>(p, f) \<in> set (all_loads (sy_clients sy)). map_of (lp_loading s) p = Some f)"
proof -
  have inv: "sys_inv sy" using assms(1,2) by (rule lru_run.reachable_invar)
  note I = sys_invD(1,2) [OF inv, folded s_def] and sh = lru_invD(1) [OF sys_invD(1) [OF inv], folded s_def]
  have "map_of (lp_loading s) p = Some f" if "(p, f) \<in> set (all_loads (sy_clients sy))" for p f
    using that I(2) lru_shapeD(4) [OF sh] by (metis map_of_is_SomeI mset_eq_setD)
  moreover have "\<exists>e. map_of (lp_resident s) p = Some e \<and> re_frame e = f
      \<and> make_chunk_id (lp_chunk_type s) p = Inr (c_id (frame_at s f))"
    if "(p, f) \<in> set (all_pins (sy_clients sy))" for p f
    using that lru_invD(2,3) [OF I(1)] by (fastforce simp: lru_pins_def lru_labels_def)
  ultimately show ?thesis
    using lru_shape_owned(1,2) [OF sh] lru_shapeD(1) [OF sh] by auto
qed

lemma cache_pins_safe_witness:
  "distinct (owned (sy_pool demo_system))"
  using cache_pins_safe [OF demo_system rtranclp.rtrancl_refl] by simp



text \<open>C25: Threads whose batches are strictly increasing never deadlock on pages that other threads
  are loading: in every reachable state in which some thread is busy, some thread can take a step
  that is not a wait for a page still in flight.\<close>

theorem cache_batches_progress:
  assumes "sys_start sz capacity type n sy0" "sys_step\<^sup>*\<^sup>* sy0 sy" "\<exists>c \<in> set (sy_clients sy). c \<noteq> Idle"
  shows "\<exists>sy'. advance sy sy'"
  by (rule no_deadlock [OF lru_run.reachable_invar [OF assms(1,2)] assms(3)])

lemma cache_batches_progress_witness:
  "\<exists>sy sy'. sys_step demo_system sy \<and> advance sy sy'"
proof -
  let ?sy = "set_client 0 (Reserving DEMAND [] [3, 7] False False) (sy_pool demo_system) demo_system"
  have st: "sys_step demo_system ?sy"
    by (rule begin_batch) (auto simp: demo_system_def batch_ok_def)
  have "\<exists>c \<in> set (sy_clients ?sy). c \<noteq> Idle" by (simp add: demo_system_def)
  from cache_batches_progress [OF demo_system r_into_rtranclp [of sys_step, OF st] this] st
  show ?thesis by blast
qed

text \<open>C27: A demand miss on a full cache takes the frame of the least recently used page that nobody
  has pinned, removes exactly that page and keeps the recency order of the others; when every
  page is pinned the caller is told to bypass the cache and nothing is evicted.\<close>

theorem demand_miss_evicts_lru:
  assumes "lru_inv [] pins s" "length pins + 2 < 2 ^ 64" "unat page < 2 ^ 62" "lp_capacity s \<noteq> 0"
    "map_of (lp_resident s) page = None" "map_of (lp_loading s) page = None" "lp_free s = []"
    "lp_lru s = newer @ older" "\<forall>q \<in> set older. \<not> eligible False s q"
    "newer \<noteq> [] \<Longrightarrow> eligible False s (last newer)"
  shows "case reserve_attempt page DEMAND wt c s of
      (Inr (Done r), u) \<Rightarrow>
        if newer = [] then rs_state r = BYPASS \<and> lp_resident u = lp_resident s \<and> lp_lru u = lp_lru s
        else rs_state r = LOAD \<and> rs_evicted r \<and> lp_lru u = butlast newer @ older
          \<and> lp_resident u = AList.delete (last newer) (lp_resident s)
          \<and> map_option re_frame (map_of (lp_resident s) (last newer)) = rs_frame r
    | _ \<Rightarrow> False"
proof -
  define s1 where "s1 = count_stat (\<lambda>st. st\<lparr>stat_misses := stat_misses st + 1\<rparr>) s"
  have i1: "lru_inv [] pins s1" using assms(1) by (simp add: s1_def)
  have el: "eligible b s1 q = eligible b s q" for b q by (simp add: s1_def eligible_iff)
  have f1: "lp_lru s1 = lp_lru s" "lp_resident s1 = lp_resident s" "lp_free s1 = lp_free s" "lp_chunk_type s1 = lp_chunk_type s"
    "lp_capacity s1 = lp_capacity s"
    by (simp_all add: s1_def)
  have d: "distinct (lp_lru s)" using lru_shapeD(6) [OF lru_invD(1) [OF assms(1)]] .
  from i1 show ?thesis
  proof (cases rule: select_victim_correct [of "[]" pins s1 False])
    case none
    have "newer = []"
    proof (rule ccontr)
      assume ne: "newer \<noteq> []"
      then have "last newer \<in> set (lp_lru s1)" by (simp add: f1 assms(8))
      with none(2) assms(10) ne show False by (simp add: el)
    qed
    with none(1) assms show ?thesis
      by (simp add: reserve_attempt_def Let_def is_prefetch_def choose_frame_def choose_victim_def
          flip: s1_def) (simp add: f1 bypass_def)
  next
    case (some p e u newer' older')
    from some(1) have p: "map_of (lp_resident s) p = Some e" by (simp add: f1)
    have ne: "newer \<noteq> []"
    proof
      assume "newer = []"
      with some(3) assms(8) have "p \<in> set older" by (simp add: f1)
      with assms(9) some(2) show False by (simp add: el)
    qed
    have "last newer = p \<and> butlast newer = newer' \<and> older = older'"
    proof -
      let ?xs = "butlast newer"
      have eq: "newer' @ p # older' = ?xs @ last newer # older"
        using some(3) assms(8) append_butlast_last_id [OF ne] by (metis append.assoc append_Cons append_Nil f1(1))
      have "last newer \<notin> set older'" "p \<notin> set older"
        using some(4) assms(9,10) some(2) ne by (auto simp: el)
      with eq d [unfolded assms(8)] ne show ?thesis
        by (auto simp: append_eq_append_conv2 append_eq_Cons_conv Cons_eq_append_conv)
    qed
    then have q: "last newer = p" "butlast newer = newer'" "older = older'" by simp_all
    obtain i where i: "make_chunk_id (lp_chunk_type u) page = Inr i"
      using assms(3) by (simp add: make_chunk_id_eq)
    have "reserve_attempt page DEMAND wt c s =
      (let s3 = pin (re_frame e) (upd_frame (re_frame e) (\<lambda>c. c\<lparr>c_id := i, c_state := State_free\<rparr>) u)
       in (Inr (Done \<lparr>rs_state = LOAD, rs_page = page, rs_frame = Some (re_frame e),
            rs_data = c_data (frame_at s3 (re_frame e)), rs_coalesced = c, rs_evicted = True,
            rs_access = DEMAND, rs_prefetched_hit = False\<rparr>),
           s3\<lparr>lp_loading := emplace page (re_frame e) (lp_loading s3)\<rparr>))"
      using assms(4-7) some(5) i
      by (simp add: reserve_attempt_def Let_def is_prefetch_def choose_frame_def choose_victim_def
          flip: s1_def) (simp add: f1)
    then show ?thesis using ne q some(7,12) p by (simp add: Let_def f1 pin_def)
  qed
qed

text \<open>A cache with one frame that holds page 9, unpinned and fetched on demand.\<close>

definition full_pool :: io_lru_buffer_pool_t where
  "full_pool = \<lparr>lp_capacity = 1, lp_chunk_type = Chunk_4kb,
     lp_frames = empty_level\<lparr>lv_chunks := [default_chunk\<lparr>c_id := 9, c_state := State_resident\<rparr>]\<rparr>,
     lp_free = [], lp_resident = [(9, \<lparr>re_frame = 0, re_unused = False\<rparr>)], lp_loading = [],
     lp_lru = [9], lp_unused_count = 0, lp_credit = False, lp_stats = no_stats\<rparr>"

lemma full_pool:
  "lru_inv [] [] full_pool" "eligible False full_pool 9" "\<not> eligible True full_pool 9"
  by (simp_all add: full_pool_def lru_inv_def lru_shape_def lru_pins_def lru_labels_def owned_def held_def
      n_frames_def frame_at_def default_chunk_def make_chunk_id_eq eligible_iff)

lemma demand_miss_evicts_lru_witness:
  "case reserve_attempt 5 DEMAND True False full_pool of
     (Inr (Done r), u) \<Rightarrow> rs_state r = LOAD \<and> rs_evicted r \<and> lp_lru u = [] | _ \<Rightarrow> False"
  using demand_miss_evicts_lru [OF full_pool(1), of 5 "[9]" "[]" True False] full_pool(2)
  by (auto simp: full_pool_def split: prod.splits sum.splits attempt.splits)

text \<open>C28: Admission of prefetches: an attempt never removes a pinned page, a prefetch that finds no
  unused prefetched page to replace and has no credit removes no page at all, so demand-fetched
  pages are displaced only by a demand miss, a gateway prefetch or by spending the credit.\<close>

theorem prefetch_admission:
  assumes "lru_inv [] pins s" "length pins + 2 < 2 ^ 64" "unat page < 2 ^ 62"
    "reserve_attempt page access wt c s = (Inr a, u)"
    "q \<in> resident_pages s" "q \<notin> resident_pages u"
  shows "\<exists>e. map_of (lp_resident s) q = Some e \<and> c_pin_count (frame_at s (re_frame e)) = 0
    \<and> q \<notin> fst ` set pins \<and> (access = PREFETCH \<and> \<not> lp_credit s \<longrightarrow> re_unused e)"
proof -
  have ev: "evicts access s q"
    using assms(1,3,2)
  proof (cases rule: reserve_attempt_correct [of pins s page access wt c])
    case (load r v f evicted)
    from load(3) assms(4) have "u = v" by simp
    with chosen_evicted [OF load(12) assms(5)] assms(6) show ?thesis by (simp add: resident_pages_def)
  qed (use assms in \<open>auto simp: same_pages_def resident_pages_def\<close>)
  then obtain e where e: "map_of (lp_resident s) q = Some e" "c_pin_count (frame_at s (re_frame e)) = 0"
    "access = PREFETCH \<and> \<not> lp_credit s \<longrightarrow> re_unused e"
    by (auto simp: evicts_def eligible_iff)
  have "q \<notin> fst ` set pins"
  proof
    assume "q \<in> fst ` set pins"
    then obtain f where qf: "(q, f) \<in> set pins" by force
    with lru_invD(2) [OF assms(1)] e(1) have "f = re_frame e" by (auto simp: lru_pins_def)
    with unpin_resident(2) [OF assms(1) qf] e(2) show False by simp
  qed
  with e show ?thesis by blast
qed

lemma prefetch_admission_witness:
  "\<exists>r u. reserve_attempt 5 GATEWAY_PREFETCH True False full_pool = (Inr r, u) \<and> 9 \<notin> resident_pages u
     \<and> 9 \<notin> fst ` set ([] :: (u64 \<times> nat) list)"
proof -
  have "\<exists>r u. reserve_attempt 5 GATEWAY_PREFETCH True False full_pool = (Inr r, u) \<and> 9 \<notin> resident_pages u"
    using full_pool(2,3)
    by (simp add: reserve_attempt_def full_pool_def is_prefetch_def choose_frame_def choose_victim_def
        prefetch_demand_victim_def select_victim_def eligible_iff frame_at_def default_chunk_def
        make_chunk_id_eq Let_def resident_pages_def pin_def)
  then obtain r u where u: "reserve_attempt 5 GATEWAY_PREFETCH True False full_pool = (Inr r, u)" "9 \<notin> resident_pages u"
    by blast
  have "9 \<in> resident_pages full_pool" by (simp add: resident_pages_def full_pool_def)
  from prefetch_admission [OF full_pool(1) _ _ u(1) this u(2)] u show ?thesis by auto
qed

text \<open>A page number that does not fit into a chunk identifier makes \<open>reserve\<close> throw after a frame
  has been taken out of the free list: the frame is then neither free nor loading nor resident,
  and the cache has lost it.\<close>

theorem oversized_page_loses_frame:
  assumes "lru_inv [] pins s" "unat page \<ge> 2 ^ 62" "lp_capacity s \<noteq> 0" "lp_free s \<noteq> []"
    "map_of (lp_resident s) page = None" "map_of (lp_loading s) page = None"
  shows "\<exists>u. reserve_attempt page access wt c s = (Inl Out_of_range, u)
    \<and> last (lp_free s) < n_frames u \<and> last (lp_free s) \<notin> set (owned u)"
proof -
  let ?u = "snd (reserve_attempt page access wt c s)"
  have u: "reserve_attempt page access wt c s = (Inl Out_of_range, ?u)" "owned ?u =
      butlast (lp_free s) @ map (\<lambda>e. re_frame (snd e)) (lp_resident s) @ map snd (lp_loading s)"
    "n_frames ?u = n_frames s"
    using assms(2-) by (simp_all add: reserve_attempt_def Let_def choose_frame_def make_chunk_id_eq owned_def not_less)
  note o = lru_shape_owned(1,2) [OF lru_invD(1) [OF assms(1)]]
  have "last (lp_free s) \<in> set (owned s)" using assms(4) by (simp add: owned_def)
  with o(2) have "last (lp_free s) < n_frames s" by auto
  moreover have "last (lp_free s) \<notin> set (owned ?u)"
  proof -
    obtain x where x: "last (lp_free s) = x" "x \<in> set (lp_free s)" using assms(4) by simp
    show ?thesis
      unfolding u(2) x(1)
      using o(1) x(2) distinct_butlast_last [OF assms(4), unfolded x(1)]
      by (auto simp: owned_def simp del: set_map)
  qed
  ultimately show ?thesis using u by auto
qed

lemma oversized_page_loses_frame_witness:
  "\<exists>u. reserve_attempt (- 1) DEMAND True False demo_pool = (Inl Out_of_range, u) \<and> 1 \<notin> set (owned u)"
proof -
  have "2 ^ 62 \<le> unat (- 1 :: u64)" by (simp add: unsigned_minus_1_eq_mask mask_eq_exp_minus_1)
  from oversized_page_loses_frame [OF demo_pool(1) this, of DEMAND True False] show ?thesis by (auto simp: demo_pool)
qed

end
