(* ===== verification/IO_Format.thy ===== *)
theory IO_Format
  imports Bytes
begin

text \<open>
  The on-disk format of the topology artifact of \<open>io_optimized_index_t\<close>
  (include/index/io_optimized_index.h, src/index/io_optimized_index.cc): checked 64-bit
  arithmetic, the fingerprint of a file, the serialisers of the sections and the 320-byte header
  with its reader.

  The enums have the fixed underlying type \<open>uint32_t\<close>, so a value cast from the file can be any
  32-bit number: they are 32-bit words with named constants.  The description strings of the
  exceptions are left out.
\<close>

subsection \<open>Constants and enumerations\<close>

type_synonym io_adjacency_encoding_t = u32

definition RAW_U32 :: io_adjacency_encoding_t where "RAW_U32 = 0"
definition PFOR_DELTA :: io_adjacency_encoding_t where "PFOR_DELTA = 1"

type_synonym io_vector_layout_t = u32

definition ORIGINAL_ID :: io_vector_layout_t where "ORIGINAL_ID = 0"
definition CELL_4K :: io_vector_layout_t where "CELL_4K = 1"
definition CELL_CHUNKS :: io_vector_layout_t where "CELL_CHUNKS = 2"
definition CELL_WEIGHTED_4K :: io_vector_layout_t where "CELL_WEIGHTED_4K = 3"
definition CELL_U8_4K :: io_vector_layout_t where "CELL_U8_4K = 4"

lemmas layout_defs = ORIGINAL_ID_def CELL_4K_def CELL_CHUNKS_def CELL_WEIGHTED_4K_def CELL_U8_4K_def
lemmas encoding_defs = RAW_U32_def PFOR_DELTA_def

definition k_topology_magic :: u64 where "k_topology_magic = 0x31504F544F494C50"
definition k_topology_version_v4 :: u32 where "k_topology_version_v4 = 4"
definition k_topology_version_v5 :: u32 where "k_topology_version_v5 = 5"
definition k_topology_version :: u32 where "k_topology_version = 6"
definition k_little_endian_marker :: u32 where "k_little_endian_marker = 0x01020304"
definition k_topology_v4_header_bytes :: u32 where "k_topology_v4_header_bytes = 256"
definition k_topology_header_bytes :: u32 where "k_topology_header_bytes = 320"
definition k_io_vector_page_size :: u32 where "k_io_vector_page_size = 4096"
definition k_no_io_prefetch_page :: u64 where "k_no_io_prefetch_page = - 1"

lemmas topology_consts = k_topology_magic_def k_topology_version_v4_def k_topology_version_v5_def
  k_topology_version_def k_little_endian_marker_def k_topology_v4_header_bytes_def
  k_topology_header_bytes_def k_io_vector_page_size_def

record fingerprint_t =
  fp_size :: u64
  fp_checksum :: u64

record io_vector_location_t =
  loc_page_id :: u64
  loc_page_offset :: u32

record io_cell_page_range_t =
  rg_first_page :: u64
  rg_page_count :: u32
  rg_node_count :: u32
  rg_chunk_size_bytes :: u32

record io_gateway_prefetch_hint_t =
  gh_target_node :: u32
  gh_landing_cell :: u32
  gh_successor_cells :: "u32 \<times> u32"
  gh_landing_node_page :: u64
  gh_landing_cell_first_page :: u64
  gh_successor_first_pages :: "u64 \<times> u64"
  gh_transition_counts :: "u32 \<times> u32"
  gh_outgoing_transition_count :: u32
  gh_reserved :: u32

record topology_header_t =
  h_version :: u32
  h_header_bytes :: u32
  h_point_count :: u64
  h_dimension :: u64
  h_max_degree :: u32
  h_encoding :: io_adjacency_encoding_t
  h_layout :: io_vector_layout_t
  h_edge_count :: u64
  h_vector_page_count :: u64
  h_cell_count :: u64
  h_base :: fingerprint_t
  h_vectors :: fingerprint_t
  h_offsets_offset :: u64
  h_offsets_bytes :: u64
  h_offsets_checksum :: u64
  h_adjacency_offset :: u64
  h_adjacency_bytes :: u64
  h_adjacency_checksum :: u64
  h_directory_offset :: u64
  h_directory_bytes :: u64
  h_directory_checksum :: u64
  h_cell_directory_offset :: u64
  h_cell_directory_bytes :: u64
  h_cell_directory_checksum :: u64
  h_prefetch_directory_offset :: u64
  h_prefetch_directory_bytes :: u64
  h_prefetch_directory_checksum :: u64
  h_community_polar :: fingerprint_t
  h_gateway_count :: u64
  h_gateway_directory_offset :: u64
  h_gateway_directory_bytes :: u64
  h_gateway_directory_checksum :: u64

subsection \<open>Checked arithmetic\<close>

definition checked_add :: "u64 \<Rightarrow> u64 \<Rightarrow> exn + u64" where
  "checked_add left right = (if right > - 1 - left then Inl Runtime_error else Inr (left + right))"

definition checked_multiply :: "u64 \<Rightarrow> u64 \<Rightarrow> exn + u64" where
  "checked_multiply left right =
     (if left \<noteq> 0 \<and> right > - 1 div left then Inl Runtime_error else Inr (left * right))"

lemma unat_minus_one: "unat (- 1 :: u64) = 2 ^ 64 - 1"
  by (simp add: unsigned_minus_1_eq_mask mask_eq_exp_minus_1)

lemma checked_add_iff:
  "checked_add a b = Inr c \<longleftrightarrow> unat c = unat a + unat b"
proof -
  have "unat (- 1 - a) = 2 ^ 64 - 1 - unat a"
    by (subst unat_sub) (simp_all add: unat_minus_one)
  then have le: "b \<le> - 1 - a \<longleftrightarrow> unat a + unat b < 2 ^ 64"
    using unsigned_less [of a, where ?'a = nat] by (auto simp: word_le_nat_alt)
  show ?thesis
  proof (cases "b \<le> - 1 - a")
    case True
    then have "unat (a + b) = unat a + unat b" using le unat_add_lem [of a b] by simp
    with True show ?thesis by (auto simp: checked_add_def word_unat_eq_iff not_less)
  next
    case False
    with le unsigned_less [of c, where ?'a = nat] show ?thesis by (auto simp: checked_add_def)
  qed
qed

lemma checked_multiply_iff:
  "checked_multiply a b = Inr c \<longleftrightarrow> unat c = unat a * unat b"
proof (cases "a = 0")
  case True
  then show ?thesis by (auto simp: checked_multiply_def unat_eq_zero)
next
  case False
  then have a: "0 < unat a" by (simp add: word_neq_0_conv word_less_nat_alt)
  have "b \<le> - 1 div a \<longleftrightarrow> unat b \<le> (2 ^ 64 - 1) div unat a"
    by (simp only: word_le_nat_alt unat_div unat_minus_one)
  also have "\<dots> \<longleftrightarrow> unat b * unat a \<le> 2 ^ 64 - 1"
    using a by (rule less_eq_div_iff_mult_less_eq)
  finally have le: "b \<le> - 1 div a \<longleftrightarrow> unat a * unat b < 2 ^ 64" by (auto simp: mult.commute)
  show ?thesis
  proof (cases "b \<le> - 1 div a")
    case True
    then have "unat (a * b) = unat a * unat b" using le unat_mult_lem [of a b] by simp
    with True False show ?thesis by (auto simp: checked_multiply_def word_unat_eq_iff not_less)
  next
    case f: False
    with False le unsigned_less [of c, where ?'a = nat] show ?thesis by (auto simp: checked_multiply_def)
  qed
qed

subsection \<open>Fingerprint of a file\<close>

text \<open>The loop of \<open>fingerprint_file\<close> reads pieces of at most \<open>2 ^ 20\<close> bytes.\<close>

definition k_buffer_bytes :: nat where
  "k_buffer_bytes = 2 ^ 20"

function fingerprint_loop :: "u8 list \<Rightarrow> u64 \<Rightarrow> u64" where
  "fingerprint_loop input checksum =
     (if input = [] then checksum
      else fingerprint_loop (drop k_buffer_bytes input) (hash_bytes checksum (take k_buffer_bytes input)))"
  by pat_completeness auto
termination
  by (relation "measure (length \<circ> fst)") (simp_all add: k_buffer_bytes_def)

declare fingerprint_loop.simps [simp del]

text \<open>\<open>None\<close>: the path is not a regular file that can be opened.\<close>

definition fingerprint_file :: "u8 list option \<Rightarrow> exn + fingerprint_t" where
  "fingerprint_file file =
     (case file of
        None \<Rightarrow> Inl Runtime_error
      | Some bytes \<Rightarrow> Inr \<lparr>fp_size = of_nat (length bytes),
                          fp_checksum = fingerprint_loop bytes k_fnv_offset_basis\<rparr>)"

lemma fingerprint_loop_eq: "fingerprint_loop input h = hash_bytes h input"
proof (induction input h rule: fingerprint_loop.induct)
  case (1 input h)
  show ?case
  proof (cases "input = []")
    case True
    then show ?thesis by (simp add: fingerprint_loop.simps)
  next
    case False
    have "hash_bytes h input = hash_bytes h (take k_buffer_bytes input @ drop k_buffer_bytes input)"
      by simp
    also have "\<dots> = hash_bytes (hash_bytes h (take k_buffer_bytes input)) (drop k_buffer_bytes input)"
      by (rule hash_bytes_append)
    finally show ?thesis using 1 [OF False] False by (subst fingerprint_loop.simps) simp
  qed
qed

subsection \<open>Sections\<close>

definition serialize_u64 :: "u64 list \<Rightarrow> u8 list" where
  "serialize_u64 ns = concat (map (le_bytes 8) ns)"

definition serialize_u32 :: "u32 list \<Rightarrow> u8 list" where
  "serialize_u32 ns = concat (map (le_bytes 4) ns)"

definition enc_location :: "io_vector_location_t \<Rightarrow> u8 list" where
  "enc_location l = le_bytes 8 (loc_page_id l) @ le_bytes 4 (loc_page_offset l)"

definition serialize_locations :: "io_vector_location_t list \<Rightarrow> u8 list" where
  "serialize_locations locations = concat (map enc_location locations)"

definition enc_range :: "io_cell_page_range_t \<Rightarrow> u8 list" where
  "enc_range r = le_bytes 8 (rg_first_page r) @ le_bytes 4 (rg_page_count r)
     @ le_bytes 4 (rg_node_count r) @ le_bytes 4 (rg_chunk_size_bytes r)"

definition serialize_cell_ranges :: "io_cell_page_range_t list \<Rightarrow> u8 list" where
  "serialize_cell_ranges ranges = concat (map enc_range ranges)"

definition enc_hint :: "io_gateway_prefetch_hint_t \<Rightarrow> u8 list" where
  "enc_hint g = le_bytes 4 (gh_target_node g) @ le_bytes 4 (gh_landing_cell g)
     @ le_bytes 4 (fst (gh_successor_cells g)) @ le_bytes 4 (snd (gh_successor_cells g))
     @ le_bytes 8 (gh_landing_node_page g) @ le_bytes 8 (gh_landing_cell_first_page g)
     @ le_bytes 8 (fst (gh_successor_first_pages g)) @ le_bytes 8 (snd (gh_successor_first_pages g))
     @ le_bytes 4 (fst (gh_transition_counts g)) @ le_bytes 4 (snd (gh_transition_counts g))
     @ le_bytes 4 (gh_outgoing_transition_count g) @ le_bytes 4 (gh_reserved g)"

definition serialize_gateway_hints :: "io_gateway_prefetch_hint_t list \<Rightarrow> u8 list" where
  "serialize_gateway_hints hints = concat (map enc_hint hints)"

text \<open>The readers of one entry in \<open>io_optimized_index_t::load\<close>.\<close>

definition read_location :: "u8 list \<Rightarrow> nat \<Rightarrow> exn + (io_vector_location_t \<times> nat)" where
  "read_location bs c =
     bindE (read_little 8 bs c) (\<lambda>(page, c).
     bindE (read_little 4 bs c) (\<lambda>(off, c).
       Inr (\<lparr>loc_page_id = page, loc_page_offset = off\<rparr>, c)))"

definition read_range :: "u8 list \<Rightarrow> nat \<Rightarrow> exn + (io_cell_page_range_t \<times> nat)" where
  "read_range bs c =
     bindE (read_little 8 bs c) (\<lambda>(page, c).
     bindE (read_many (read_little 4) 3 bs c) (\<lambda>(ws, c).
       Inr (\<lparr>rg_first_page = page, rg_page_count = ws ! 0, rg_node_count = ws ! 1,
             rg_chunk_size_bytes = ws ! 2\<rparr>, c)))"

definition read_hint :: "u8 list \<Rightarrow> nat \<Rightarrow> exn + (io_gateway_prefetch_hint_t \<times> nat)" where
  "read_hint bs c =
     bindE (read_many (read_little 4) 4 bs c) (\<lambda>(ws, c).
     bindE (read_many (read_little 8) 4 bs c) (\<lambda>(ps, c).
     bindE (read_many (read_little 4) 4 bs c) (\<lambda>(ts, c).
       Inr (\<lparr>gh_target_node = ws ! 0, gh_landing_cell = ws ! 1, gh_successor_cells = (ws ! 2, ws ! 3),
             gh_landing_node_page = ps ! 0, gh_landing_cell_first_page = ps ! 1,
             gh_successor_first_pages = (ps ! 2, ps ! 3), gh_transition_counts = (ts ! 0, ts ! 1),
             gh_outgoing_transition_count = ts ! 2, gh_reserved = ts ! 3\<rparr>, c))))"

text \<open>One step of a reader over a serialised prefix, with the rest of the input.\<close>

lemma dec_step:
  assumes "field_codec enc dec" "c \<le> length bs" "drop c bs = enc v @ rest"
  shows "dec bs c = Inr (v, c + length (enc v)) \<and> c + length (enc v) \<le> length bs
    \<and> drop (c + length (enc v)) bs = rest"
proof -
  have "length (drop c bs) = length (enc v) + length rest" by (simp only: assms(3) length_append)
  with assms(2) have "c + length (enc v) \<le> length bs" by simp
  moreover have "drop (c + length (enc v)) bs = drop (length (enc v)) (drop c bs)"
    by (simp add: add.commute)
  ultimately show ?thesis using assms field_codec.dec_enc [OF assms(1)] by auto
qed

lemmas u64_step = dec_step [OF u64_codec.field_codec_axioms, simplified length_le_bytes]
lemmas u32_step = dec_step [OF u32_codec.field_codec_axioms, simplified length_le_bytes]

lemma length_concat_le_bytes [simp]: "length (concat (map (le_bytes k) vs)) = k * length vs"
  by (induction vs) simp_all

lemma many_step:
  assumes "field_codec enc dec" "c \<le> length bs" "drop c bs = concat (map enc vs) @ rest" "n = length vs"
  shows "read_many dec n bs c = Inr (vs, c + length (concat (map enc vs)))
    \<and> c + length (concat (map enc vs)) \<le> length bs
    \<and> drop (c + length (concat (map enc vs))) bs = rest"
proof -
  have "length (drop c bs) = length (concat (map enc vs)) + length rest"
    by (simp only: assms(3) length_append)
  with assms(2) have "c + length (concat (map enc vs)) \<le> length bs" by simp
  moreover have "drop (c + length (concat (map enc vs))) bs = drop (length (concat (map enc vs))) (drop c bs)"
    by (simp add: add.commute)
  ultimately show ?thesis using assms field_codec.read_many_enc [OF assms(1)] by auto
qed

interpretation location_codec: field_codec enc_location read_location
proof
  fix c :: nat and bs rest and v :: io_vector_location_t
  assume c: "c \<le> length bs" and d: "drop c bs = enc_location v @ rest"
  then have "drop c bs = le_bytes 8 (loc_page_id v) @ le_bytes 4 (loc_page_offset v) @ rest"
    by (simp add: enc_location_def)
  from u64_step [OF c this] obtain "read_little 8 bs c = Inr (loc_page_id v, c + 8)"
    "c + 8 \<le> length bs" "drop (c + 8) bs = le_bytes 4 (loc_page_offset v) @ rest" by blast
  with u32_step [OF this(2,3)] show "read_location bs c = Inr (v, c + length (enc_location v))"
    by (simp add: read_location_def enc_location_def)
qed

interpretation range_codec: field_codec enc_range read_range
proof
  fix c :: nat and bs rest and v :: io_cell_page_range_t
  let ?ws = "[rg_page_count v, rg_node_count v, rg_chunk_size_bytes v]"
  assume c: "c \<le> length bs" and d: "drop c bs = enc_range v @ rest"
  then have "drop c bs = le_bytes 8 (rg_first_page v) @ concat (map (le_bytes 4) ?ws) @ rest"
    by (simp add: enc_range_def)
  from u64_step [OF c this] obtain r: "read_little 8 bs c = Inr (rg_first_page v, c + 8)"
    "c + 8 \<le> length bs" "drop (c + 8) bs = concat (map (le_bytes 4) ?ws) @ rest" by blast
  have "read_many (read_little 4) 3 bs (c + 8) = Inr (?ws, c + 8 + length (concat (map (le_bytes 4) ?ws)))"
    using many_step [OF u32_codec.field_codec_axioms r(2,3), of 3] by simp
  with r(1) show "read_range bs c = Inr (v, c + length (enc_range v))"
    by (simp add: read_range_def enc_range_def)
qed

interpretation hint_codec: field_codec enc_hint read_hint
proof
  fix c :: nat and bs rest and v :: io_gateway_prefetch_hint_t
  let ?ws = "[gh_target_node v, gh_landing_cell v, fst (gh_successor_cells v), snd (gh_successor_cells v)]"
  let ?ps = "[gh_landing_node_page v, gh_landing_cell_first_page v, fst (gh_successor_first_pages v),
      snd (gh_successor_first_pages v)]"
  let ?ts = "[fst (gh_transition_counts v), snd (gh_transition_counts v), gh_outgoing_transition_count v,
      gh_reserved v]"
  assume c: "c \<le> length bs" and d: "drop c bs = enc_hint v @ rest"
  then have "drop c bs = concat (map (le_bytes 4) ?ws) @ concat (map (le_bytes 8) ?ps)
      @ concat (map (le_bytes 4) ?ts) @ rest"
    by (simp add: enc_hint_def)
  from many_step [OF u32_codec.field_codec_axioms c this, of 4]
  have w: "read_many (read_little 4) 4 bs c = Inr (?ws, c + 16)" "c + 16 \<le> length bs"
    "drop (c + 16) bs = concat (map (le_bytes 8) ?ps) @ concat (map (le_bytes 4) ?ts) @ rest"
    by simp_all
  from many_step [OF u64_codec.field_codec_axioms w(2,3), of 4]
  have p: "read_many (read_little 8) 4 bs (c + 16) = Inr (?ps, c + 48)" "c + 48 \<le> length bs"
    "drop (c + 48) bs = concat (map (le_bytes 4) ?ts) @ rest"
    by (simp_all add: add.assoc)
  from many_step [OF u32_codec.field_codec_axioms p(2,3), of 4]
  have "read_many (read_little 4) 4 bs (c + 48) = Inr (?ts, c + 64)" by (simp add: add.assoc)
  with w p show "read_hint bs c = Inr (v, c + length (enc_hint v))"
    by (simp add: read_hint_def enc_hint_def)
qed

subsection \<open>Header\<close>

text \<open>Consecutive fields of one width are written and read as a list, in the order of the code.\<close>

definition header_words :: "topology_header_t \<Rightarrow> u64 list" where
  "header_words h =
     [h_edge_count h, h_vector_page_count h, h_cell_count h,
      fp_size (h_base h), fp_checksum (h_base h), fp_size (h_vectors h), fp_checksum (h_vectors h),
      h_offsets_offset h, h_offsets_bytes h, h_offsets_checksum h,
      h_adjacency_offset h, h_adjacency_bytes h, h_adjacency_checksum h,
      h_directory_offset h, h_directory_bytes h, h_directory_checksum h,
      h_cell_directory_offset h, h_cell_directory_bytes h, h_cell_directory_checksum h,
      h_prefetch_directory_offset h, h_prefetch_directory_bytes h, h_prefetch_directory_checksum h]"

definition gateway_words :: "topology_header_t \<Rightarrow> u64 list" where
  "gateway_words h =
     [fp_size (h_community_polar h), fp_checksum (h_community_polar h), h_gateway_count h,
      h_gateway_directory_offset h, h_gateway_directory_bytes h, h_gateway_directory_checksum h]"

definition header_fields :: "topology_header_t \<Rightarrow> u8 list" where
  "header_fields h =
     le_bytes 8 k_topology_magic
     @ serialize_u32 [h_version h, k_little_endian_marker, k_topology_header_bytes, k_io_vector_page_size]
     @ serialize_u64 [h_point_count h, h_dimension h]
     @ serialize_u32 [h_max_degree h, h_encoding h, h_layout h]
     @ serialize_u64 (header_words h) @ serialize_u64 (gateway_words h)"

definition resize :: "nat \<Rightarrow> u8 list \<Rightarrow> u8 list" where
  "resize n bs = take n bs @ replicate (n - length bs) 0"

definition serialize_header :: "topology_header_t \<Rightarrow> u8 list" where
  "serialize_header h = resize (unat k_topology_header_bytes) (header_fields h)"

definition header_of ::
  "u32 \<Rightarrow> u32 \<Rightarrow> u64 list \<Rightarrow> u32 list \<Rightarrow> u64 list \<Rightarrow> u64 list \<Rightarrow> topology_header_t" where
  "header_of version header_bytes pd mel ws gs =
     \<lparr>h_version = version, h_header_bytes = header_bytes, h_point_count = pd ! 0, h_dimension = pd ! 1,
      h_max_degree = mel ! 0, h_encoding = mel ! 1, h_layout = mel ! 2,
      h_edge_count = ws ! 0, h_vector_page_count = ws ! 1, h_cell_count = ws ! 2,
      h_base = \<lparr>fp_size = ws ! 3, fp_checksum = ws ! 4\<rparr>,
      h_vectors = \<lparr>fp_size = ws ! 5, fp_checksum = ws ! 6\<rparr>,
      h_offsets_offset = ws ! 7, h_offsets_bytes = ws ! 8, h_offsets_checksum = ws ! 9,
      h_adjacency_offset = ws ! 10, h_adjacency_bytes = ws ! 11, h_adjacency_checksum = ws ! 12,
      h_directory_offset = ws ! 13, h_directory_bytes = ws ! 14, h_directory_checksum = ws ! 15,
      h_cell_directory_offset = ws ! 16, h_cell_directory_bytes = ws ! 17,
      h_cell_directory_checksum = ws ! 18,
      h_prefetch_directory_offset = ws ! 19, h_prefetch_directory_bytes = ws ! 20,
      h_prefetch_directory_checksum = ws ! 21,
      h_community_polar = \<lparr>fp_size = gs ! 0, fp_checksum = gs ! 1\<rparr>, h_gateway_count = gs ! 2,
      h_gateway_directory_offset = gs ! 3, h_gateway_directory_bytes = gs ! 4,
      h_gateway_directory_checksum = gs ! 5\<rparr>"

definition guardE :: "bool \<Rightarrow> exn \<Rightarrow> exn + unit" where
  "guardE ok e = (if ok then Inr () else Inl e)"

lemma guardE_eq_Inr [simp]: "guardE b e = Inr u \<longleftrightarrow> b"
  by (simp add: guardE_def)

definition parse_header :: "u8 list \<Rightarrow> exn + topology_header_t" where
  "parse_header bytes =
     bindE (guardE (length bytes \<ge> unat k_topology_v4_header_bytes) Runtime_error) (\<lambda>_.
     bindE (read_little 8 bytes 0) (\<lambda>(magic, c).
     bindE (guardE (magic = k_topology_magic) Runtime_error) (\<lambda>_.
     bindE (read_little 4 bytes c) (\<lambda>(version, c).
     bindE (guardE (version = k_topology_version_v4 \<or> version = k_topology_version_v5
                    \<or> version = k_topology_version) Runtime_error) (\<lambda>_.
     bindE (read_little 4 bytes c) (\<lambda>(marker, c).
     bindE (guardE (marker = k_little_endian_marker) Runtime_error) (\<lambda>_.
     bindE (read_little 4 bytes c) (\<lambda>(header_bytes, c).
     bindE (guardE (header_bytes = (if version = k_topology_version_v4
                                     then k_topology_v4_header_bytes else k_topology_header_bytes)
                    \<and> length bytes \<ge> unat header_bytes) Runtime_error) (\<lambda>_.
     bindE (read_little 4 bytes c) (\<lambda>(page_size, c).
     bindE (guardE (page_size = k_io_vector_page_size) Runtime_error) (\<lambda>_.
     bindE (read_many (read_little 8) 2 bytes c) (\<lambda>(pd, c).
     bindE (read_many (read_little 4) 3 bytes c) (\<lambda>(mel, c).
     bindE (read_many (read_little 8) 22 bytes c) (\<lambda>(ws, c).
     bindE (if version \<ge> k_topology_version_v5 then read_many (read_little 8) 6 bytes c
            else Inr (replicate 6 0, c)) (\<lambda>(gs, c).
     bindE (guardE (\<not> list_ex (\<lambda>b. b \<noteq> 0) (drop c (take (unat header_bytes) bytes))) Runtime_error) (\<lambda>_.
       Inr (header_of version header_bytes pd mel ws gs)))))))))))))))))"

lemma header_of_words:
  "header_of (h_version h) (h_header_bytes h) [h_point_count h, h_dimension h]
     [h_max_degree h, h_encoding h, h_layout h] (header_words h) (gateway_words h) = h"
  by (simp add: header_of_def header_words_def gateway_words_def)

lemma length_header_fields: "length (header_fields h) = 276"
  by (simp add: header_fields_def serialize_u32_def serialize_u64_def header_words_def gateway_words_def)

lemma parse_header_serialized:
  assumes v: "h_version h = k_topology_version_v5 \<or> h_version h = k_topology_version"
    and hb: "h_header_bytes h = k_topology_header_bytes"
  shows "parse_header (serialize_header h @ rest) = Inr h"
proof -
  define bs where "bs = serialize_header h @ rest"
  let ?z = "replicate 44 (0 :: u8) @ rest"
  have ser: "serialize_header h = header_fields h @ replicate 44 0"
    by (simp add: serialize_header_def resize_def length_header_fields k_topology_header_bytes_def)
  have len: "length (serialize_header h) = 320" by (simp add: ser length_header_fields)
  have v4: "h_version h \<noteq> k_topology_version_v4" "h_version h \<ge> k_topology_version_v5"
    "h_version h = k_topology_version_v4 \<or> h_version h = k_topology_version_v5 \<or> h_version h = k_topology_version"
    using v by (auto simp: topology_consts)
  have d0: "drop 0 bs = le_bytes 8 k_topology_magic @ le_bytes 4 (h_version h) @ le_bytes 4 k_little_endian_marker
     @ le_bytes 4 k_topology_header_bytes @ le_bytes 4 k_io_vector_page_size
     @ concat (map (le_bytes 8) [h_point_count h, h_dimension h])
     @ concat (map (le_bytes 4) [h_max_degree h, h_encoding h, h_layout h])
     @ concat (map (le_bytes 8) (header_words h)) @ concat (map (le_bytes 8) (gateway_words h)) @ ?z"
    by (simp add: bs_def ser header_fields_def serialize_u32_def serialize_u64_def)
  have le0: "0 \<le> length bs" by simp
  note s0 = u64_step [OF le0 d0]
  note s1 = u32_step [OF s0 [THEN conjunct2, THEN conjunct1] s0 [THEN conjunct2, THEN conjunct2]]
  note s2 = u32_step [OF s1 [THEN conjunct2, THEN conjunct1] s1 [THEN conjunct2, THEN conjunct2]]
  note s3 = u32_step [OF s2 [THEN conjunct2, THEN conjunct1] s2 [THEN conjunct2, THEN conjunct2]]
  note s4 = u32_step [OF s3 [THEN conjunct2, THEN conjunct1] s3 [THEN conjunct2, THEN conjunct2]]
  have m: "length (header_words h) = 22" "length (gateway_words h) = 6"
    by (simp_all add: header_words_def gateway_words_def)
  note s5 = many_step [OF u64_codec.field_codec_axioms s4 [THEN conjunct2, THEN conjunct1]
      s4 [THEN conjunct2, THEN conjunct2], of 2]
  have t5: "read_many (read_little 8) 2 bs 24 = Inr ([h_point_count h, h_dimension h], 40)"
    "40 \<le> length bs" "drop 40 bs = concat (map (le_bytes 4) [h_max_degree h, h_encoding h, h_layout h])
     @ concat (map (le_bytes 8) (header_words h)) @ concat (map (le_bytes 8) (gateway_words h)) @ ?z"
    using s5 by simp_all
  from many_step [OF u32_codec.field_codec_axioms t5(2,3), of 3]
  have t6: "read_many (read_little 4) 3 bs 40 = Inr ([h_max_degree h, h_encoding h, h_layout h], 52)"
    "52 \<le> length bs" "drop 52 bs = concat (map (le_bytes 8) (header_words h))
       @ concat (map (le_bytes 8) (gateway_words h)) @ ?z"
    by simp_all
  from many_step [OF u64_codec.field_codec_axioms t6(2,3), of 22] m
  have t7: "read_many (read_little 8) 22 bs 52 = Inr (header_words h, 228)"
    "228 \<le> length bs" "drop 228 bs = concat (map (le_bytes 8) (gateway_words h)) @ ?z"
    by simp_all
  from many_step [OF u64_codec.field_codec_axioms t7(2,3), of 6] m
  have t8: "read_many (read_little 8) 6 bs 228 = Inr (gateway_words h, 276)" by simp
  have z: "drop 276 (take (unat k_topology_header_bytes) bs) = replicate 44 0"
    by (simp add: k_topology_header_bytes_def len bs_def) (simp add: ser length_header_fields)
  have u: "read_little 8 bs 0 = Inr (k_topology_magic, 8)" "read_little 4 bs 8 = Inr (h_version h, 12)"
    "read_little 4 bs 12 = Inr (k_little_endian_marker, 16)" "read_little 4 bs 16 = Inr (k_topology_header_bytes, 20)"
    "read_little 4 bs 20 = Inr (k_io_vector_page_size, 24)"
    using s0 s1 s2 s3 s4 by simp_all
  have g: "unat k_topology_v4_header_bytes \<le> length bs" "unat k_topology_header_bytes \<le> length bs"
    by (simp_all add: bs_def len k_topology_v4_header_bytes_def k_topology_header_bytes_def)
  show ?thesis
    using v4 g header_of_words [of h]
    unfolding bs_def [symmetric]
    by (simp add: parse_header_def u t5(1) t6(1) t7(1) t8 z guardE_def hb list_ex_iff)
qed

lemma header_of_simps [simp]:
  "h_version (header_of v hb pd mel ws gs) = v" "h_header_bytes (header_of v hb pd mel ws gs) = hb"
  by (simp_all add: header_of_def)

lemma parse_header_Inr:
  assumes "parse_header bytes = Inr h"
  shows "h_version h \<in> {k_topology_version_v4, k_topology_version_v5, k_topology_version}
    \<and> h_header_bytes h = (if h_version h = k_topology_version_v4 then k_topology_v4_header_bytes
       else k_topology_header_bytes)
    \<and> unat (h_header_bytes h) \<le> length bytes"
  using assms unfolding parse_header_def bindE_eq_Inr guardE_eq_Inr split_paired_Ex prod.case sum.inject
  by (elim exE conjE, hypsubst, simp)

end
