(* ===== verification/IO_Pfor.thy ===== *)
theory IO_Pfor
  imports IO_Format "HOL-Library.Product_Lexorder" "HOL-Library.Multiset"
begin

text \<open>
  The compressed adjacency section (\<open>compress_adjacency\<close>, \<open>decompress_adjacency\<close> of
  src/index/io_optimized_index.cc): per node the neighbours are sorted, their original positions
  kept as one byte each, and the sorted values compressed in blocks of 128 by a codec of
  SIMDCompressionLib.  The codec is not part of the repository: it is the parameter
  \<open>pfor_codec\<close>, of which the correctness proofs use that decoding the encoding of a sorted list
  whose length is a multiple of 128 gives the list back.
\<close>

record pfor_codec =
  encode_array :: "u32 list \<Rightarrow> u32 list"
  decode_array :: "u32 list \<Rightarrow> nat \<Rightarrow> u32 list"

definition padded_size :: "nat \<Rightarrow> nat" where
  "padded_size degree = (if degree = 0 then 0 else (degree + 127) div 128 * 128)"

definition codec_ok :: "pfor_codec \<Rightarrow> bool" where
  "codec_ok codec \<longleftrightarrow> (\<forall>xs. sorted xs \<longrightarrow> length xs mod 128 = 0 \<longrightarrow>
     decode_array codec (encode_array codec xs) (length xs) = xs)"

subsection \<open>Writing\<close>

definition order_neighbors :: "u32 list \<Rightarrow> (u32 \<times> u8) list" where
  "order_neighbors nbrs = sort (zip nbrs (map of_nat [0..<length nbrs]))"

definition codec_input :: "u32 list \<Rightarrow> u32 list" where
  "codec_input nbrs =
     (let ordered = map fst (order_neighbors nbrs)
      in ordered @ replicate (padded_size (length nbrs) - length nbrs) (last ordered))"

definition compressed_words :: "pfor_codec \<Rightarrow> u32 list \<Rightarrow> u32 list" where
  "compressed_words codec nbrs = (if nbrs = [] then [] else encode_array codec (codec_input nbrs))"

definition align4 :: "nat \<Rightarrow> nat" where
  "align4 n = (n + 3) div 4 * 4"

text \<open>The bytes that one node appends to an output of length \<open>base\<close>.\<close>

definition enc_record :: "pfor_codec \<Rightarrow> nat \<Rightarrow> u32 list \<Rightarrow> u8 list" where
  "enc_record codec base nbrs =
     (let words = compressed_words codec nbrs;
          head = le_bytes 4 (of_nat (length nbrs) :: u32) @ le_bytes 4 (of_nat (length words) :: u32)
            @ map snd (order_neighbors nbrs)
      in head @ replicate (align4 (base + length head) - (base + length head)) 0
         @ serialize_u32 words)"

fun compress_nodes :: "pfor_codec \<Rightarrow> u64 list \<Rightarrow> u32 list \<Rightarrow> u8 list \<Rightarrow> u64 list \<times> u8 list" where
  "compress_nodes codec [] adjacency output = ([], output)"
| "compress_nodes codec [o0] adjacency output = ([of_nat (length output)], output)"
| "compress_nodes codec (o0 # o1 # offsets) adjacency output =
     (let nbrs = take (unat (o1 - o0)) (drop (unat o0) adjacency);
          (bs, out) = compress_nodes codec (o1 # offsets) adjacency
                        (output @ enc_record codec (length output) nbrs)
      in (of_nat (length output) # bs, out))"

definition compress_adjacency :: "pfor_codec \<Rightarrow> u64 list \<Rightarrow> u32 list \<Rightarrow> u64 list \<times> u8 list" where
  "compress_adjacency codec edge_offsets adjacency = compress_nodes codec edge_offsets adjacency []"

subsection \<open>Reading\<close>

fun scatter :: "(u8 \<times> u32) list \<Rightarrow> u32 list \<Rightarrow> bool list \<Rightarrow> exn + u32 list" where
  "scatter [] out seen = Inr out"
| "scatter ((p, v) # rest) out seen =
     (if seen ! unat p then Inl Runtime_error
      else scatter rest (out[unat p := v]) (seen[unat p := True]))"

definition decode_record :: "pfor_codec \<Rightarrow> u32 \<Rightarrow> u8 list \<Rightarrow> exn + u32 list" where
  "decode_record codec max_degree record_bytes =
     bindE (read_little 4 record_bytes 0) (\<lambda>(degree :: u32, c).
     bindE (read_little 4 record_bytes c) (\<lambda>(words :: u32, c).
     bindE (guardE (degree \<le> max_degree \<and> c + unat degree \<le> length record_bytes) Runtime_error) (\<lambda>_.
     let permutation = take (unat degree) (drop c record_bytes); c = align4 (c + unat degree) in
     bindE (guardE (list_all (\<lambda>p. unat p < unat degree) permutation) Runtime_error) (\<lambda>_.
     bindE (guardE (unat words \<le> (length record_bytes - c) div 4
                    \<and> c + unat words * 4 = length record_bytes) Runtime_error) (\<lambda>_.
     bindE (read_many (read_little 4) (unat words) record_bytes c) (\<lambda>(compressed, _).
     let sorted_values = (if degree = 0 then []
                   else decode_array codec compressed (padded_size (unat degree))) in
     bindE (guardE (length sorted_values \<ge> unat degree) Runtime_error) (\<lambda>_.
       scatter (zip permutation sorted_values) (replicate (unat degree) 0)
         (replicate (unat degree) False))))))))"

fun decompress_nodes :: "pfor_codec \<Rightarrow> u32 \<Rightarrow> u64 list \<Rightarrow> u8 list \<Rightarrow> exn + u32 list list" where
  "decompress_nodes codec max_degree (b0 # b1 # offsets) bytes =
     bindE (guardE (b0 \<le> b1 \<and> unat b1 \<le> length bytes) Runtime_error) (\<lambda>_.
     bindE (decode_record codec max_degree (take (unat (b1 - b0)) (drop (unat b0) bytes))) (\<lambda>nbrs.
     bindE (decompress_nodes codec max_degree (b1 # offsets) bytes) (\<lambda>rest.
       Inr (nbrs # rest))))"
| "decompress_nodes codec max_degree _ bytes = Inr []"

text \<open>Offsets of the edges: running totals of the degrees.\<close>

definition edge_offsets_of :: "u32 list list \<Rightarrow> u64 list" where
  "edge_offsets_of nodes =
     map (\<lambda>n. of_nat (length (concat (take n nodes)))) [0..<length nodes + 1]"

definition decompress_adjacency ::
  "pfor_codec \<Rightarrow> u64 list \<Rightarrow> u8 list \<Rightarrow> u64 \<Rightarrow> u32 \<Rightarrow> exn + (u32 list \<times> u64 list)" where
  "decompress_adjacency codec byte_offsets bytes expected_edges max_degree =
     bindE (decompress_nodes codec max_degree byte_offsets bytes) (\<lambda>nodes.
     bindE (guardE (length (concat nodes) = unat expected_edges) Runtime_error) (\<lambda>_.
       Inr (concat nodes, edge_offsets_of nodes)))"

subsection \<open>One record\<close>

lemma padded_size: "degree \<le> padded_size degree" "padded_size degree mod 128 = 0"
proof -
  have "degree + 127 = (degree + 127) div 128 * 128 + (degree + 127) mod 128" by simp
  moreover have "(degree + 127) mod 128 < 128" by simp
  ultimately show "degree \<le> padded_size degree" unfolding padded_size_def by (auto simp del: div_mult_mod_eq)
qed (simp add: padded_size_def)

lemma align4: "n \<le> align4 n" "align4 n mod 4 = 0" "align4 n < n + 4"
proof -
  have "n + 3 = align4 n + (n + 3) mod 4" unfolding align4_def by simp
  moreover have "(n + 3) mod 4 < 4" by simp
  ultimately show "n \<le> align4 n" "align4 n < n + 4" by linarith+
qed (simp add: align4_def)

lemma align4_add: "b mod 4 = 0 \<Longrightarrow> align4 (b + n) = b + align4 n"
  by (auto simp: align4_def add.assoc mod_eq_0_iff_dvd elim!: dvdE)

lemma scatter_correct:
  assumes "distinct (map fst pvs)" "\<And>p v. (p, v) \<in> set pvs \<Longrightarrow> unat p < length out \<and> \<not> seen ! unat p"
    "length seen = length out"
  shows "\<exists>out'. scatter pvs out seen = Inr out' \<and> length out' = length out
    \<and> (\<forall>p v. (p, v) \<in> set pvs \<longrightarrow> out' ! unat p = v)
    \<and> (\<forall>k. k \<notin> unat ` fst ` set pvs \<longrightarrow> out' ! k = out ! k)"
  using assms
proof (induction pvs arbitrary: out seen)
  case (Cons a pvs)
  obtain p v where a: "a = (p, v)" by (cases a)
  have ne: "q \<noteq> p" if "(q, w) \<in> set pvs" for q w using Cons.prems(1) that by (force simp: a)
  then have nu: "unat q \<noteq> unat p" if "(q, w) \<in> set pvs" for q w using that by (auto simp: word_unat_eq_iff)
  have d: "distinct (map fst pvs)" using Cons.prems(1) by simp
  have p: "unat p < length out" "\<not> seen ! unat p" using Cons.prems(2) [of p v] by (simp_all add: a)
  have "\<exists>out'. scatter pvs (out[unat p := v]) (seen[unat p := True]) = Inr out'
      \<and> length out' = length (out[unat p := v]) \<and> (\<forall>q w. (q, w) \<in> set pvs \<longrightarrow> out' ! unat q = w)
      \<and> (\<forall>k. k \<notin> unat ` fst ` set pvs \<longrightarrow> out' ! k = out[unat p := v] ! k)"
  proof (rule Cons.IH [OF d])
    fix q w assume qw: "(q, w) \<in> set pvs"
    with Cons.prems(2) [of q w] nu [OF qw] show "unat q < length (out[unat p := v]) \<and> \<not> seen[unat p := True] ! unat q"
      by simp
  qed (use Cons.prems(3) in simp)
  then obtain out' where o: "scatter pvs (out[unat p := v]) (seen[unat p := True]) = Inr out'"
    "length out' = length out" "\<And>q w. (q, w) \<in> set pvs \<Longrightarrow> out' ! unat q = w"
    "\<And>k. k \<notin> unat ` fst ` set pvs \<Longrightarrow> out' ! k = out[unat p := v] ! k" by auto
  have "out' ! unat p = v" using o(4) [of "unat p"] nu p(1) by fastforce
  with o p show ?case by (auto simp: a nth_list_update)
qed simp

lemma order_neighbors:
  assumes "length nbrs \<le> 256"
  shows "mset (order_neighbors nbrs) = mset (zip nbrs (map of_nat [0..<length nbrs]))"
    "distinct (map snd (order_neighbors nbrs))" "length (order_neighbors nbrs) = length nbrs"
    "(v, p) \<in> set (order_neighbors nbrs) \<Longrightarrow> unat p < length nbrs \<and> v = nbrs ! unat p"
    "sorted (map fst (order_neighbors nbrs))"
proof -
  let ?z = "zip nbrs (map of_nat [0..<length nbrs]) :: (u32 \<times> u8) list"
  have u: "unat (of_nat k :: u8) = k" if "k < length nbrs" for k
    using that assms by (simp add: unat_of_nat take_bit_nat_eq_self)
  show m: "mset (order_neighbors nbrs) = mset ?z" by (simp add: order_neighbors_def)
  have "distinct (map snd ?z)"
  proof -
    have "map snd ?z = map of_nat [0..<length nbrs]" by simp
    moreover have "inj_on (of_nat :: nat \<Rightarrow> u8) (set [0..<length nbrs])"
      by (rule inj_onI) (metis u atLeastLessThan_iff set_upt)
    ultimately show ?thesis by (simp only: distinct_map distinct_upt)
  qed
  moreover have "mset (map snd (order_neighbors nbrs)) = mset (map snd ?z)" by (simp only: mset_map m)
  ultimately show "distinct (map snd (order_neighbors nbrs))" by (metis mset_eq_imp_distinct_iff)
  show "length (order_neighbors nbrs) = length nbrs" by (simp add: order_neighbors_def)
  show "unat p < length nbrs \<and> v = nbrs ! unat p" if "(v, p) \<in> set (order_neighbors nbrs)"
  proof -
    from that m have "(v, p) \<in> set ?z" by (metis mset_eq_setD)
    then obtain k where "k < length nbrs" "v = nbrs ! k" "p = of_nat k" by (auto simp: set_zip)
    with u show ?thesis by simp
  qed
  have "sorted (order_neighbors nbrs)" by (simp add: order_neighbors_def)
  then show "sorted (map fst (order_neighbors nbrs))"
    unfolding sorted_map by (rule sorted_wrt_mono_rel [rotated]) (auto simp: less_eq_prod_def)
qed

lemma sorted_le_last: "sorted xs \<Longrightarrow> x \<in> set xs \<Longrightarrow> x \<le> last xs"
  by (induction xs) auto

lemma zip_snd_fst: "zip (map snd xs) (map fst xs) = map (\<lambda>(v, p). (p, v)) xs"
  by (induction xs) auto

lemma codec_input:
  assumes "length nbrs \<le> 256"
  shows "sorted (codec_input nbrs)" "length (codec_input nbrs) = padded_size (length nbrs)"
    "zip (map snd (order_neighbors nbrs)) (codec_input nbrs) =
       map (\<lambda>(v, p). (p, v)) (order_neighbors nbrs)"
proof -
  note o = order_neighbors [OF assms]
  let ?o = "map fst (order_neighbors nbrs)"
  have "x \<le> last ?o" if "x \<in> set ?o" for x
    using o(5) that by (rule sorted_le_last)
  then show "sorted (codec_input nbrs)"
    using o(5) by (auto simp: codec_input_def Let_def sorted_append)
  show "length (codec_input nbrs) = padded_size (length nbrs)"
    using padded_size(1) by (simp add: codec_input_def Let_def o(3))
  have "zip (map snd (order_neighbors nbrs)) (codec_input nbrs) = zip (map snd (order_neighbors nbrs)) ?o"
    by (simp add: codec_input_def Let_def zip_append2 o(3))
  also have "\<dots> = map (\<lambda>(v, p). (p, v)) (order_neighbors nbrs)"
    by (rule zip_snd_fst)
  finally show "zip (map snd (order_neighbors nbrs)) (codec_input nbrs) =
       map (\<lambda>(v, p). (p, v)) (order_neighbors nbrs)" .
qed

lemma scatter_neighbors:
  assumes "length nbrs \<le> 256"
  shows "scatter (map (\<lambda>(v, p). (p, v)) (order_neighbors nbrs)) (replicate (length nbrs) 0)
    (replicate (length nbrs) False) = Inr nbrs"
proof -
  note o = order_neighbors [OF assms]
  let ?pvs = "map (\<lambda>(v, p). (p, v)) (order_neighbors nbrs)"
  have f: "map fst ?pvs = map snd (order_neighbors nbrs)" by (simp add: case_prod_beta' comp_def)
  have mem: "(p, v) \<in> set ?pvs \<longleftrightarrow> (v, p) \<in> set (order_neighbors nbrs)" for p v by force
  let ?out = "replicate (length nbrs) 0 :: u32 list" and ?seen = "replicate (length nbrs) False"
  have "\<exists>out'. scatter ?pvs ?out ?seen = Inr out'
    \<and> length out' = length ?out \<and> (\<forall>p v. (p, v) \<in> set ?pvs \<longrightarrow> out' ! unat p = v)
    \<and> (\<forall>k. k \<notin> unat ` fst ` set ?pvs \<longrightarrow> out' ! k = ?out ! k)"
  proof (rule scatter_correct)
    show "distinct (map fst ?pvs)" unfolding f by (rule o(2))
    fix p v assume "(p, v) \<in> set ?pvs"
    with o(4) [of v p] show "unat p < length ?out \<and> \<not> ?seen ! unat p" unfolding mem by simp
  qed simp
  then obtain out' where out: "scatter ?pvs ?out ?seen = Inr out'"
    "length out' = length nbrs" "\<And>p v. (p, v) \<in> set ?pvs \<Longrightarrow> out' ! unat p = v" by auto
  have "out' = nbrs"
  proof (rule nth_equalityI)
    fix k assume "k < length out'"
    then have k: "k < length nbrs" by (simp add: out(2))
    then have "(nbrs ! k, of_nat k) \<in> set (zip nbrs (map of_nat [0..<length nbrs]))"
      by (auto simp: set_zip intro!: exI [of _ k])
    then have "(nbrs ! k, of_nat k) \<in> set (order_neighbors nbrs)" using o(1) by (metis mset_eq_setD)
    then have "out' ! unat (of_nat k :: u8) = nbrs ! k" using out(3) unfolding mem by blast
    then show "out' ! k = nbrs ! k" using k assms by (simp add: unat_of_nat take_bit_nat_eq_self)
  qed (rule out(2))
  with out(1) show ?thesis by simp
qed

lemma record_roundtrip:
  assumes codec: "codec_ok codec" and d: "length nbrs \<le> 256" "length nbrs \<le> unat max_degree"
    and w: "length (compressed_words codec nbrs) < 2 ^ 32" and base: "base mod 4 = 0"
  shows "decode_record codec max_degree (enc_record codec base nbrs) = Inr nbrs"
    "length (enc_record codec base nbrs) mod 4 = 0"
proof -
  let ?d = "length nbrs" and ?ws = "compressed_words codec nbrs" and ?perm = "map snd (order_neighbors nbrs)"
  note o = order_neighbors [OF d(1)] and ci = codec_input [OF d(1)]
  have u: "unat (of_nat ?d :: u32) = ?d" "unat (of_nat (length ?ws) :: u32) = length ?ws"
    using d(1) w by (simp_all add: unat_of_nat take_bit_nat_eq_self)
  let ?pad = "align4 (8 + ?d) - (8 + ?d)"
  define bs where "bs = enc_record codec base nbrs"
  have bs: "bs = le_bytes 4 (of_nat ?d :: u32) @ le_bytes 4 (of_nat (length ?ws) :: u32) @ ?perm
      @ replicate ?pad 0 @ concat (map (le_bytes 4) ?ws)"
    by (simp add: bs_def enc_record_def Let_def o(3) align4_add [OF base] serialize_u32_def)
  have len: "length bs = align4 (8 + ?d) + 4 * length ?ws"
    using align4(1) [of "8 + ?d"] by (simp add: bs o(3))
  then show "length (enc_record codec base nbrs) mod 4 = 0"
    using align4(2) [of "8 + ?d"] by (simp add: bs_def [symmetric])
  have le0: "0 \<le> length bs" by simp
  have d0: "drop 0 bs = le_bytes 4 (of_nat ?d :: u32) @ le_bytes 4 (of_nat (length ?ws) :: u32) @ ?perm
      @ replicate ?pad 0 @ concat (map (le_bytes 4) ?ws)" by (simp add: bs)
  note s0 = u32_step [OF le0 d0]
  note s1 = u32_step [OF s0 [THEN conjunct2, THEN conjunct1] s0 [THEN conjunct2, THEN conjunct2]]
  have r: "read_little 4 bs 0 = Inr (of_nat ?d :: u32, 4)" "read_little 4 bs 4 = Inr (of_nat (length ?ws) :: u32, 8)"
    "drop 8 bs = ?perm @ replicate ?pad 0 @ concat (map (le_bytes 4) ?ws)"
    using s0 s1 by simp_all
  have perm: "take ?d (drop 8 bs) = ?perm" by (simp add: r(3) o(3))
  have "drop (align4 (8 + ?d)) bs = drop (align4 (8 + ?d) - 8) (drop 8 bs)"
    using align4(1) [of "8 + ?d"] by simp
  also have "\<dots> = concat (map (le_bytes 4) ?ws)"
    using align4(1) [of "8 + ?d"] by (simp add: r(3) o(3))
  finally have dw: "drop (align4 (8 + ?d)) bs = concat (map (le_bytes 4) ?ws) @ []" by simp
  have lc: "align4 (8 + ?d) \<le> length bs" by (simp add: len)
  have rw: "read_many (read_little 4) (length ?ws) bs (align4 (8 + ?d)) = Inr (?ws, align4 (8 + ?d) + 4 * length ?ws)"
    using many_step [OF u32_codec.field_codec_axioms lc dw, of "length ?ws"] by simp
  have deg0: "(of_nat ?d :: u32) = 0 \<longleftrightarrow> nbrs = []" using u(1) by (metis length_0_conv unat_eq_zero)
  have dec: "nbrs \<noteq> [] \<Longrightarrow> decode_array codec ?ws (padded_size ?d) = codec_input nbrs"
    using codec [unfolded codec_ok_def, rule_format, of "codec_input nbrs"] ci(1) padded_size(2)
    by (simp add: ci(2) compressed_words_def)
  have perm_ok: "list_all (\<lambda>p. unat p < ?d) ?perm"
    using o(4) by (auto simp: list_all_iff)
  have "8 + ?d \<le> length bs" using align4(1) [of "8 + ?d"] len by simp
  moreover have "(of_nat ?d :: u32) \<le> max_degree" using d(2) u(1) by (simp add: word_le_nat_alt)
  moreover have "length ?ws \<le> (length bs - align4 (8 + ?d)) div 4" by (simp add: len)
  moreover have "decode_array codec ?ws (padded_size ?d) = codec_input nbrs \<and> (of_nat ?d :: u32) \<noteq> 0"
    if "nbrs \<noteq> []" using dec [OF that] that by (simp only: deg0) simp
  ultimately show "decode_record codec max_degree (enc_record codec base nbrs) = Inr nbrs"
    unfolding bs_def [symmetric] decode_record_def
    using scatter_neighbors [OF d(1)] padded_size(1) [of ?d] ci(2)
    by (cases "nbrs = []")
      (simp_all add: compressed_words_def [of codec "[]"] r(1,2) guardE_def u perm perm_ok rw ci(3) Let_def len mult.commute)
qed

subsection \<open>The whole section\<close>

lemma enc_record_length_ge: "8 \<le> length (enc_record codec base nbrs)"
  by (simp add: enc_record_def Let_def)

lemma compress_nodes_length [simp]:
  "length (fst (compress_nodes codec offsets adjacency output)) = length offsets"
  by (induction codec offsets adjacency "output" rule: compress_nodes.induct) (simp_all add: Let_def split_def)

lemma compress_nodes_prefix:
  "offsets \<noteq> [] \<Longrightarrow> \<exists>more. snd (compress_nodes codec offsets adjacency output) = output @ more
     \<and> hd (fst (compress_nodes codec offsets adjacency output)) = of_nat (length output)"
proof (induction codec offsets adjacency "output" rule: compress_nodes.induct)
  case (3 codec o0 o1 offsets adjacency out0)
  then obtain more where "snd (compress_nodes codec (o1 # offsets) adjacency
      (out0 @ enc_record codec (length out0) (take (unat (o1 - o0)) (drop (unat o0) adjacency)))) =
      (out0 @ enc_record codec (length out0) (take (unat (o1 - o0)) (drop (unat o0) adjacency))) @ more"
    by blast
  then show ?case by (simp add: Let_def split_def)
qed simp_all

text \<open>The neighbours of the nodes, as the writer slices them from the flat array.\<close>

fun node_slices :: "u64 list \<Rightarrow> u32 list \<Rightarrow> u32 list list" where
  "node_slices (o0 # o1 # offsets) adjacency =
     take (unat (o1 - o0)) (drop (unat o0) adjacency) # node_slices (o1 # offsets) adjacency"
| "node_slices _ adjacency = []"

lemma compress_nodes_decodes:
  assumes "codec_ok codec" "offsets \<noteq> []"
    "\<And>nbrs. nbrs \<in> set (node_slices offsets adjacency) \<Longrightarrow> length nbrs \<le> 256
       \<and> length nbrs \<le> unat max_degree \<and> length (compressed_words codec nbrs) < 2 ^ 32"
    "length output mod 4 = 0" "compress_nodes codec offsets adjacency output = (bos, bytes)"
    "length bytes < 2 ^ 64"
  shows "decompress_nodes codec max_degree bos bytes = Inr (node_slices offsets adjacency)"
  using assms
proof (induction codec offsets adjacency "output" arbitrary: bos bytes rule: compress_nodes.induct)
  case (3 codec o0 o1 offsets adjacency out0)
  let ?nbrs = "take (unat (o1 - o0)) (drop (unat o0) adjacency)"
  let ?rec = "enc_record codec (length out0) ?nbrs"
  let ?out = "out0 @ ?rec"
  obtain bs out where r: "compress_nodes codec (o1 # offsets) adjacency ?out = (bs, out)"
    by fastforce
  from 3(6) r have e: "bos = of_nat (length out0) # bs" "bytes = out" by (simp_all add: Let_def)
  obtain more where more: "out = ?out @ more" "hd bs = of_nat (length ?out)"
    using compress_nodes_prefix [of "o1 # offsets" codec adjacency ?out] r by auto
  have "length bs = length (o1 # offsets)" using compress_nodes_length [of codec "o1 # offsets" adjacency ?out] r by simp
  then obtain b1 rest where bs: "bs = b1 # rest" by (cases bs) auto
  have b1: "b1 = of_nat (length ?out)" using more(2) bs by simp
  have lt: "length ?out < 2 ^ 64" "length out0 < 2 ^ 64" using 3(7) more(1) e(2) by simp_all
  have ub: "unat b1 = length ?out" "unat (of_nat (length out0) :: u64) = length out0"
    using lt by (simp_all add: b1 unat_of_nat take_bit_nat_eq_self del: length_append)
  have le: "(of_nat (length out0) :: u64) \<le> b1" by (simp only: word_le_nat_alt ub) simp
  have diff: "unat (b1 - of_nat (length out0)) = length ?rec"
    unfolding unat_sub [OF le] ub by simp
  have n: "length ?nbrs \<le> 256" "length ?nbrs \<le> unat max_degree" "length (compressed_words codec ?nbrs) < 2 ^ 32"
    using 3(4) [of ?nbrs] by simp_all
  note rr = record_roundtrip [OF 3(2) n 3(5)]
  have "decompress_nodes codec max_degree bs out = Inr (node_slices (o1 # offsets) adjacency)"
  proof (rule 3(1) [OF refl 3(2) _ _ _ r])
    show "length ?out mod 4 = 0" using 3(5) rr(2) by (simp add: mod_add_eq [symmetric] del: mod_add_eq)
  qed (use 3(4,7) e in auto)
  moreover have "take (length ?rec) (drop (length out0) out) = ?rec" by (simp add: more(1))
  ultimately show ?case using le rr(1)
    by (simp add: e bs guardE_def diff ub(2)) (simp add: ub(1) more(1))
qed (auto simp: Let_def)

lemma node_slices_prefix_sums:
  assumes "length (pre @ concat nodes) < 2 ^ 64"
  shows "node_slices (map (\<lambda>n. of_nat (length pre + length (concat (take n nodes)))) [0..<length nodes + 1])
    (pre @ concat nodes) = nodes"
  using assms
proof (induction nodes arbitrary: pre)
  case (Cons nbrs nodes)
  let ?f = "\<lambda>p ns n. of_nat (length p + length (concat (take n ns))) :: u64"
  have tl: "map (?f pre (nbrs # nodes)) [1..<length (nbrs # nodes) + 1]
      = map (?f (pre @ nbrs) nodes) [0..<length nodes + 1]"
    by (rule nth_equalityI) (simp_all add: add.assoc del: upt_Suc)
  then have all: "map (?f pre (nbrs # nodes)) [0..<length (nbrs # nodes) + 1]
      = of_nat (length pre) # map (?f (pre @ nbrs) nodes) [0..<length nodes + 1]"
    by (subst upt_conv_Cons) (simp_all del: upt_Suc)
  have hd: "map (?f (pre @ nbrs) nodes) [0..<length nodes + 1]
      = of_nat (length (pre @ nbrs)) # map (?f (pre @ nbrs) nodes) [1..<length nodes + 1]"
    by (subst upt_conv_Cons) (simp_all del: upt_Suc)
  have u: "unat (of_nat (length pre) :: u64) = length pre"
    using Cons.prems by (simp add: unat_of_nat take_bit_nat_eq_self)
  have dlt: "unat (of_nat (length (pre @ nbrs)) - of_nat (length pre) :: u64) = length nbrs"
    using Cons.prems by (simp add: unat_of_nat take_bit_nat_eq_self)
  have "node_slices (map (?f (pre @ nbrs) nodes) [0..<length nodes + 1]) ((pre @ nbrs) @ concat nodes) = nodes"
    by (rule Cons.IH) (use Cons.prems in simp)
  then show ?case unfolding all using dlt u unfolding hd by simp
qed simp

lemma node_slices_edge_offsets:
  "length (concat nodes) < 2 ^ 64 \<Longrightarrow> node_slices (edge_offsets_of nodes) (concat nodes) = nodes"
  using node_slices_prefix_sums [of "[]" nodes] by (simp add: edge_offsets_of_def)

lemma compress_nodes_last:
  "offsets \<noteq> [] \<Longrightarrow> last (fst (compress_nodes codec offsets adjacency out0))
     = of_nat (length (snd (compress_nodes codec offsets adjacency out0)))"
proof (induction codec offsets adjacency out0 rule: compress_nodes.induct)
  case (3 codec o0 o1 offsets adjacency out0)
  let ?r = "compress_nodes codec (o1 # offsets) adjacency
        (out0 @ enc_record codec (length out0) (take (unat (o1 - o0)) (drop (unat o0) adjacency)))"
  have "length (fst ?r) = length (o1 # offsets)" by (rule compress_nodes_length)
  then have "fst ?r \<noteq> []" by (metis length_0_conv list.distinct(1))
  with 3 show ?case by (simp add: Let_def split_def)
qed simp_all

lemma decompress_compress:
  assumes codec: "codec_ok codec"
    and nodes: "\<And>nbrs. nbrs \<in> set nodes \<Longrightarrow> length nbrs \<le> 256 \<and> length nbrs \<le> unat max_degree
       \<and> length (compressed_words codec nbrs) < 2 ^ 32"
    and edges: "length (concat nodes) < 2 ^ 64"
    and bytes: "length (snd (compress_adjacency codec (edge_offsets_of nodes) (concat nodes))) < 2 ^ 64"
  shows "decompress_adjacency codec (fst (compress_adjacency codec (edge_offsets_of nodes) (concat nodes)))
      (snd (compress_adjacency codec (edge_offsets_of nodes) (concat nodes)))
      (of_nat (length (concat nodes))) max_degree
    = Inr (concat nodes, edge_offsets_of nodes)"
proof -
  note sl = node_slices_edge_offsets [OF edges]
  have "edge_offsets_of nodes \<noteq> []" by (simp add: edge_offsets_of_def)
  then have "decompress_nodes codec max_degree (fst (compress_adjacency codec (edge_offsets_of nodes) (concat nodes)))
      (snd (compress_adjacency codec (edge_offsets_of nodes) (concat nodes))) = Inr nodes"
    using compress_nodes_decodes [OF codec, of "edge_offsets_of nodes" "concat nodes" max_degree "[]"] nodes bytes
    by (simp add: sl compress_adjacency_def)
  then show ?thesis using edges
    by (simp add: decompress_adjacency_def guardE_def unat_of_nat take_bit_nat_eq_self)
qed


definition plain_codec :: pfor_codec where
  "plain_codec = \<lparr>encode_array = (\<lambda>xs. xs), decode_array = (\<lambda>ws n. take n ws)\<rparr>"


end
