(* ===== verification/IO_Load.thy ===== *)
theory IO_Load
  imports IO_Pfor
begin

text \<open>
  Loading the topology artifact: \<open>io_optimized_index_t::load\<close> of
  src/index/io_optimized_index.cc with its helpers, in both modes: resident (the whole file is
  read) and paged (sections are read one by one, the adjacency stays in the file).  A file is
  \<open>None\<close> when it cannot be opened and the list of its bytes otherwise.  The accessors of the
  loaded index are at the end.
\<close>

subsection \<open>Reading files\<close>

definition read_file :: "u8 list option \<Rightarrow> exn + u8 list" where
  "read_file path = (case path of None \<Rightarrow> Inl Runtime_error | Some bytes \<Rightarrow> Inr bytes)"

definition read_file_range :: "u8 list option \<Rightarrow> u64 \<Rightarrow> u64 \<Rightarrow> exn + u8 list" where
  "read_file_range path offset sz =
     (case path of
        None \<Rightarrow> Inl Runtime_error
      | Some file_bytes \<Rightarrow>
          let bytes = take (unat sz) (drop (unat offset) file_bytes)
          in if length bytes < unat sz then Inl Runtime_error else Inr bytes)"

text \<open>The targets of one buffer: \<open>buffer[cursor] | buffer[cursor + 1] << 8 | ...\<close>.\<close>

fun buffer_targets :: "u8 list \<Rightarrow> u32 list" where
  "buffer_targets (b0 # b1 # b2 # b3 # rest) =
     (ucast b0 OR push_bit 8 (ucast b1) OR push_bit 16 (ucast b2) OR push_bit 24 (ucast b3))
       # buffer_targets rest"
| "buffer_targets _ = []"

function validate_raw_loop ::
  "u8 list \<Rightarrow> nat \<Rightarrow> nat \<Rightarrow> u64 \<Rightarrow> u64 \<Rightarrow> exn + u64" where
  "validate_raw_loop input position remaining point_count checksum =
     (if remaining = 0 then Inr checksum
      else
        let count = min remaining k_buffer_bytes; buffer = take count (drop position input) in
        if length buffer < count then Inl Runtime_error
        else if list_ex (\<lambda>target. ucast target \<ge> point_count) (buffer_targets buffer)
        then Inl Runtime_error
        else validate_raw_loop input (position + count) (remaining - count) point_count
               (hash_bytes checksum buffer))"
  by pat_completeness auto
termination
  by (relation "measure (\<lambda>(i, p, r, c, h). r)") (auto simp: k_buffer_bytes_def)

declare validate_raw_loop.simps [simp del]

definition validate_raw_adjacency_range ::
  "u8 list option \<Rightarrow> u64 \<Rightarrow> u64 \<Rightarrow> u64 \<Rightarrow> exn + u64" where
  "validate_raw_adjacency_range path offset edge_count point_count =
     bindE (checked_multiply edge_count 4) (\<lambda>remaining.
       validate_raw_loop (case path of None \<Rightarrow> [] | Some bytes \<Rightarrow> bytes) (unat offset)
         (unat remaining) point_count k_fnv_offset_basis)"

subsection \<open>Checks on the header\<close>

definition cell_layout :: "io_vector_layout_t \<Rightarrow> bool" where
  "cell_layout layout \<longleftrightarrow> layout = CELL_4K \<or> layout = CELL_CHUNKS \<or> layout = CELL_WEIGHTED_4K
     \<or> layout = CELL_U8_4K"

definition payload_supported :: "topology_header_t \<Rightarrow> bool" where
  "payload_supported header \<longleftrightarrow> \<not> (h_point_count header = 0 \<or> h_dimension header = 0
     \<or> (h_encoding header \<noteq> RAW_U32 \<and> h_encoding header \<noteq> PFOR_DELTA)
     \<or> (h_layout header \<noteq> ORIGINAL_ID \<and> h_layout header \<noteq> CELL_4K \<and> h_layout header \<noteq> CELL_CHUNKS
        \<and> h_layout header \<noteq> CELL_WEIGHTED_4K \<and> h_layout header \<noteq> CELL_U8_4K)
     \<or> (h_layout header = CELL_U8_4K \<and> h_version header \<noteq> k_topology_version)
     \<or> (h_layout header = ORIGINAL_ID \<and> h_cell_count header \<noteq> 0)
     \<or> (cell_layout (h_layout header) \<and> h_cell_count header = 0))"

definition gateway_bound :: "topology_header_t \<Rightarrow> bool" where
  "gateway_bound header \<longleftrightarrow> \<not> (h_gateway_count header \<noteq> 0
     \<and> (h_version header < k_topology_version_v5 \<or> h_cell_count header = 0
        \<or> fp_size (h_community_polar header) = 0))"

definition check_sections :: "topology_header_t \<Rightarrow> u64 \<Rightarrow> exn + unit" where
  "check_sections header topology_file_size =
     bindE (checked_add (h_point_count header) 1) (\<lambda>offsets_count.
     bindE (checked_multiply offsets_count 8) (\<lambda>expected_offsets_bytes.
     bindE (checked_multiply (h_edge_count header) 4) (\<lambda>expected_raw_adjacency_bytes.
     bindE (checked_multiply (h_point_count header) 12) (\<lambda>expected_directory_bytes.
     bindE (checked_multiply (h_cell_count header) 20) (\<lambda>expected_cell_directory_bytes.
     bindE (checked_multiply (h_point_count header) 8) (\<lambda>expected_prefetch_directory_bytes.
     bindE (checked_multiply (h_gateway_count header) 64) (\<lambda>expected_gateway_directory_bytes.
     bindE (checked_add (h_offsets_offset header) (h_offsets_bytes header)) (\<lambda>expected_adjacency_offset.
     bindE (checked_add (h_adjacency_offset header) (h_adjacency_bytes header)) (\<lambda>expected_directory_offset.
     bindE (checked_add (h_directory_offset header) (h_directory_bytes header))
       (\<lambda>expected_cell_directory_offset.
     bindE (checked_add (h_cell_directory_offset header) (h_cell_directory_bytes header))
       (\<lambda>expected_prefetch_directory_offset.
     bindE (checked_add (h_prefetch_directory_offset header) (h_prefetch_directory_bytes header))
       (\<lambda>expected_gateway_directory_offset.
     bindE (if h_version header = k_topology_version_v4 then Inr expected_gateway_directory_offset
            else checked_add expected_gateway_directory_offset (h_gateway_directory_bytes header))
       (\<lambda>expected_file_size.
     guardE (\<not> (h_offsets_offset header \<noteq> ucast (h_header_bytes header)
       \<or> h_offsets_bytes header \<noteq> expected_offsets_bytes
       \<or> h_adjacency_offset header \<noteq> expected_adjacency_offset
       \<or> (h_encoding header = RAW_U32 \<and> h_adjacency_bytes header \<noteq> expected_raw_adjacency_bytes)
       \<or> h_directory_offset header \<noteq> expected_directory_offset
       \<or> h_directory_bytes header \<noteq> expected_directory_bytes
       \<or> h_cell_directory_offset header \<noteq> expected_cell_directory_offset
       \<or> h_cell_directory_bytes header \<noteq> expected_cell_directory_bytes
       \<or> h_prefetch_directory_offset header \<noteq> expected_prefetch_directory_offset
       \<or> h_prefetch_directory_bytes header \<noteq> expected_prefetch_directory_bytes
       \<or> (h_version header \<ge> k_topology_version_v5
          \<and> (h_gateway_directory_offset header \<noteq> expected_gateway_directory_offset
             \<or> h_gateway_directory_bytes header \<noteq> expected_gateway_directory_bytes))
       \<or> expected_file_size \<noteq> topology_file_size)) Runtime_error)))))))))))))"

subsection \<open>The sections\<close>

record sections_t =
  sec_offsets :: "u8 list"
  sec_adjacency :: "u8 list"
  sec_directory :: "u8 list"
  sec_cell_directory :: "u8 list"
  sec_prefetch :: "u8 list"
  sec_gateway :: "u8 list"

definition section_of :: "u8 list \<Rightarrow> u64 \<Rightarrow> u64 \<Rightarrow> u8 list" where
  "section_of bytes offset sz = take (unat sz) (drop (unat offset) bytes)"

definition resident_sections :: "topology_header_t \<Rightarrow> u8 list \<Rightarrow> sections_t" where
  "resident_sections h bytes =
     \<lparr>sec_offsets = section_of bytes (h_offsets_offset h) (h_offsets_bytes h),
      sec_adjacency = section_of bytes (h_adjacency_offset h) (h_adjacency_bytes h),
      sec_directory = section_of bytes (h_directory_offset h) (h_directory_bytes h),
      sec_cell_directory = section_of bytes (h_cell_directory_offset h) (h_cell_directory_bytes h),
      sec_prefetch = section_of bytes (h_prefetch_directory_offset h) (h_prefetch_directory_bytes h),
      sec_gateway = (if h_version h < k_topology_version_v5 then []
        else section_of bytes (h_gateway_directory_offset h) (h_gateway_directory_bytes h))\<rparr>"

definition paged_sections :: "topology_header_t \<Rightarrow> u8 list option \<Rightarrow> exn + sections_t" where
  "paged_sections h path =
     bindE (read_file_range path (h_offsets_offset h) (h_offsets_bytes h)) (\<lambda>offsets.
     bindE (read_file_range path (h_directory_offset h) (h_directory_bytes h)) (\<lambda>directory.
     bindE (read_file_range path (h_cell_directory_offset h) (h_cell_directory_bytes h)) (\<lambda>cells.
     bindE (read_file_range path (h_prefetch_directory_offset h) (h_prefetch_directory_bytes h)) (\<lambda>prefetch.
     bindE (if h_version h \<ge> k_topology_version_v5
            then read_file_range path (h_gateway_directory_offset h) (h_gateway_directory_bytes h)
            else Inr []) (\<lambda>gateway.
       Inr \<lparr>sec_offsets = offsets, sec_adjacency = [], sec_directory = directory,
            sec_cell_directory = cells, sec_prefetch = prefetch, sec_gateway = gateway\<rparr>)))))"

definition check_checksums :: "topology_header_t \<Rightarrow> sections_t \<Rightarrow> u64 \<Rightarrow> exn + unit" where
  "check_checksums h s adjacency_checksum =
     guardE (\<not> (checksum_bytes (sec_offsets s) \<noteq> h_offsets_checksum h
       \<or> adjacency_checksum \<noteq> h_adjacency_checksum h
       \<or> checksum_bytes (sec_directory s) \<noteq> h_directory_checksum h
       \<or> checksum_bytes (sec_cell_directory s) \<noteq> h_cell_directory_checksum h
       \<or> checksum_bytes (sec_prefetch s) \<noteq> h_prefetch_directory_checksum h
       \<or> (h_version h \<ge> k_topology_version_v5
          \<and> checksum_bytes (sec_gateway s) \<noteq> h_gateway_directory_checksum h))) Runtime_error"

definition check_fingerprints ::
  "topology_header_t \<Rightarrow> u8 list option \<Rightarrow> u8 list option \<Rightarrow> bool \<Rightarrow> exn + unit" where
  "check_fingerprints h disk vectors topology_only =
     bindE (fingerprint_file disk) (\<lambda>base.
     bindE (guardE (\<not> (fp_size base \<noteq> fp_size (h_base h) \<or> fp_checksum base \<noteq> fp_checksum (h_base h)))
             Runtime_error) (\<lambda>_.
     bindE (checked_multiply (h_vector_page_count h) (ucast k_io_vector_page_size)) (\<lambda>expected.
     bindE (guardE (fp_size (h_vectors h) = expected) Runtime_error) (\<lambda>_.
     if topology_only then Inr ()
     else bindE (fingerprint_file vectors) (\<lambda>v.
       guardE (\<not> (fp_size v \<noteq> fp_size (h_vectors h) \<or> fp_checksum v \<noteq> fp_checksum (h_vectors h)))
         Runtime_error)))))"

subsection \<open>The loops that fill the index\<close>

text \<open>A loop that reads \<open>n\<close> entries and rejects the first one that fails its check.\<close>

fun read_checked :: "(u8 list \<Rightarrow> nat \<Rightarrow> exn + ('a \<times> nat)) \<Rightarrow> ('a \<Rightarrow> bool) \<Rightarrow> nat \<Rightarrow> u8 list \<Rightarrow> nat
    \<Rightarrow> exn + 'a list" where
  "read_checked dec ok 0 input cursor = Inr []"
| "read_checked dec ok (Suc n) input cursor =
     bindE (dec input cursor) (\<lambda>(v, c).
     bindE (guardE (ok v) Runtime_error) (\<lambda>_.
     bindE (read_checked dec ok n input c) (\<lambda>vs. Inr (v # vs))))"

definition offsets_valid :: "u64 list \<Rightarrow> u32 \<Rightarrow> bool" where
  "offsets_valid offsets max_degree \<longleftrightarrow>
     list_all (\<lambda>(a, b). \<not> (a > b \<or> b - a > ucast max_degree)) (zip offsets (tl offsets))"

text \<open>
  \<open>load_adjacency\<close> returns the neighbour offsets and the adjacency; \<open>pfor\<close> is the codec of a
  build with PForDelta and \<open>None\<close> in one without.
\<close>

definition load_adjacency ::
  "pfor_codec option \<Rightarrow> bool \<Rightarrow> topology_header_t \<Rightarrow> sections_t \<Rightarrow> exn + (u64 list \<times> u32 list)" where
  "load_adjacency pfor paged h s =
     bindE (read_checked (read_little 8) (\<lambda>_. True) (unat (h_point_count h) + 1) (sec_offsets s) 0) (\<lambda>offsets.
     bindE (guardE (hd offsets = 0) Runtime_error) (\<lambda>_.
     if h_encoding h = RAW_U32 then
       bindE (guardE (last offsets = h_edge_count h) Runtime_error) (\<lambda>_.
       bindE (guardE (offsets_valid offsets (h_max_degree h)) Runtime_error) (\<lambda>_.
       if paged then Inr (offsets, [])
       else bindE (read_checked (read_little 4) (\<lambda>target. ucast target < h_point_count h)
              (unat (h_edge_count h)) (sec_adjacency s) 0) (\<lambda>adjacency.
         Inr (offsets, adjacency))))
     else
       case pfor of
         None \<Rightarrow> Inl Runtime_error
       | Some codec \<Rightarrow>
           bindE (guardE (last offsets = h_adjacency_bytes h) Runtime_error) (\<lambda>_.
           bindE (decompress_adjacency codec offsets (sec_adjacency s) (h_edge_count h) (h_max_degree h))
             (\<lambda>(adjacency, edge_offsets).
           bindE (guardE (\<not> list_ex (\<lambda>target. ucast target \<ge> h_point_count h) adjacency) Runtime_error) (\<lambda>_.
             Inr (edge_offsets, adjacency))))))"

definition vector_bytes_of :: "topology_header_t \<Rightarrow> exn + u64" where
  "vector_bytes_of h =
     (if h_layout h = CELL_U8_4K then Inr (h_dimension h) else checked_multiply (h_dimension h) 4)"

definition location_ok :: "u64 \<Rightarrow> u64 \<Rightarrow> io_vector_location_t \<Rightarrow> bool" where
  "location_ok vector_page_count vector_bytes location \<longleftrightarrow>
     \<not> (loc_page_id location \<ge> vector_page_count \<or> loc_page_offset location mod 4 \<noteq> 0
        \<or> loc_page_offset location > k_io_vector_page_size
        \<or> vector_bytes > ucast (k_io_vector_page_size - loc_page_offset location))"

definition range_ok :: "io_vector_layout_t \<Rightarrow> u64 \<Rightarrow> u64 \<Rightarrow> io_cell_page_range_t \<Rightarrow> bool" where
  "range_ok layout vector_page_count expected_page rg \<longleftrightarrow>
     \<not> (rg_first_page rg \<noteq> expected_page \<or> rg_first_page rg \<ge> vector_page_count
        \<or> rg_page_count rg = 0 \<or> rg_node_count rg = 0
        \<or> ucast (rg_page_count rg) > vector_page_count - rg_first_page rg
        \<or> (rg_chunk_size_bytes rg \<noteq> 4096 \<and> rg_chunk_size_bytes rg \<noteq> 65536
           \<and> rg_chunk_size_bytes rg \<noteq> 524288 \<and> rg_chunk_size_bytes rg \<noteq> 2097152)
        \<or> (layout \<noteq> CELL_CHUNKS \<and> rg_chunk_size_bytes rg \<noteq> k_io_vector_page_size)
        \<or> (layout = CELL_CHUNKS
           \<and> rg_page_count rg mod (rg_chunk_size_bytes rg div k_io_vector_page_size) \<noteq> 0))"

text \<open>The loop over the cells; it returns the ranges with the final \<open>expected_page\<close> and
  \<open>covered_nodes\<close>.\<close>

fun read_ranges :: "topology_header_t \<Rightarrow> nat \<Rightarrow> u8 list \<Rightarrow> nat \<Rightarrow> u64 \<Rightarrow> u64
    \<Rightarrow> exn + (io_cell_page_range_t list \<times> u64 \<times> u64)" where
  "read_ranges h 0 input cursor expected_page covered_nodes = Inr ([], expected_page, covered_nodes)"
| "read_ranges h (Suc n) input cursor expected_page covered_nodes =
     bindE (read_range input cursor) (\<lambda>(rg, c).
     bindE (guardE (range_ok (h_layout h) (h_vector_page_count h) expected_page rg) Runtime_error) (\<lambda>_.
     bindE (checked_add (rg_first_page rg) (ucast (rg_page_count rg))) (\<lambda>expected_page.
     bindE (checked_add covered_nodes (ucast (rg_node_count rg))) (\<lambda>covered_nodes.
     bindE (read_ranges h n input c expected_page covered_nodes) (\<lambda>(ranges, fin).
       Inr (rg # ranges, fin))))))"

definition load_ranges :: "topology_header_t \<Rightarrow> u8 list \<Rightarrow> exn + io_cell_page_range_t list" where
  "load_ranges h cells =
     bindE (read_ranges h (unat (h_cell_count h)) cells 0 0 0) (\<lambda>(ranges, expected_page, covered_nodes).
     bindE (guardE (\<not> (cell_layout (h_layout h)
              \<and> (expected_page \<noteq> h_vector_page_count h \<or> covered_nodes \<noteq> h_point_count h))) Runtime_error) (\<lambda>_.
       Inr ranges))"

definition prefetch_page_ok :: "u64 \<Rightarrow> u64 \<Rightarrow> bool" where
  "prefetch_page_ok vector_page_count page \<longleftrightarrow>
     \<not> (page \<noteq> k_no_io_prefetch_page \<and> page \<ge> vector_page_count)"

definition successor_ok ::
  "u64 \<Rightarrow> u64 \<Rightarrow> io_cell_page_range_t list \<Rightarrow> u32 \<Rightarrow> u64 \<Rightarrow> u32 \<Rightarrow> bool" where
  "successor_ok cell_count vector_page_count ranges cell page transitions \<longleftrightarrow>
     (let absent = (cell = - 1) in
      \<not> (absent \<noteq> (page = k_no_io_prefetch_page)
         \<or> (\<not> absent \<and> (ucast cell \<ge> cell_count \<or> page \<ge> vector_page_count
              \<or> page \<noteq> rg_first_page (ranges ! unat cell) \<or> transitions = 0))))"

definition hint_ok ::
  "u64 \<Rightarrow> u64 \<Rightarrow> u64 \<Rightarrow> io_vector_location_t list \<Rightarrow> io_cell_page_range_t list
    \<Rightarrow> io_gateway_prefetch_hint_t \<Rightarrow> bool" where
  "hint_ok point_count cell_count vector_page_count locations ranges g \<longleftrightarrow>
     \<not> (ucast (gh_target_node g) \<ge> point_count \<or> ucast (gh_landing_cell g) \<ge> cell_count
        \<or> gh_landing_node_page g \<ge> vector_page_count
        \<or> gh_landing_cell_first_page g \<ge> vector_page_count \<or> gh_reserved g \<noteq> 0) \<and>
     (let landing_range = ranges ! unat (gh_landing_cell g) in
      \<not> (gh_landing_node_page g \<noteq> loc_page_id (locations ! unat (gh_target_node g))
         \<or> gh_landing_cell_first_page g \<noteq> rg_first_page landing_range
         \<or> gh_landing_node_page g < rg_first_page landing_range
         \<or> gh_landing_node_page g \<ge> rg_first_page landing_range + ucast (rg_page_count landing_range)
         \<or> gh_outgoing_transition_count g < fst (gh_transition_counts g)
         \<or> gh_outgoing_transition_count g < snd (gh_transition_counts g))) \<and>
     successor_ok cell_count vector_page_count ranges (fst (gh_successor_cells g)) (fst (gh_successor_first_pages g))
       (fst (gh_transition_counts g)) \<and>
     successor_ok cell_count vector_page_count ranges (snd (gh_successor_cells g)) (snd (gh_successor_first_pages g))
       (snd (gh_transition_counts g))"

subsection \<open>The index\<close>

record io_optimized_index_t =
  ix_point_count :: u64
  ix_dimension :: u64
  ix_max_degree :: u32
  ix_edge_count :: u64
  ix_vector_page_count :: u64
  ix_vector_layout :: io_vector_layout_t
  ix_topology_bytes :: u64
  ix_vector_bytes :: u64
  ix_neighbor_offsets :: "u64 list"
  ix_adjacency :: "u32 list"
  ix_vector_locations :: "io_vector_location_t list"
  ix_cell_page_ranges :: "io_cell_page_range_t list"
  ix_node_prefetch_pages :: "u64 list"
  ix_community_polar_fingerprint :: fingerprint_t
  ix_gateway_prefetch_hints :: "io_gateway_prefetch_hint_t list"
  ix_paged_topology :: bool
  ix_adjacency_file_offset :: u64

definition fill_index ::
  "pfor_codec option \<Rightarrow> bool \<Rightarrow> topology_header_t \<Rightarrow> sections_t \<Rightarrow> u64 \<Rightarrow> exn + io_optimized_index_t" where
  "fill_index pfor paged h s topology_file_size =
     bindE (load_adjacency pfor paged h s) (\<lambda>(offsets, adjacency).
     bindE (vector_bytes_of h) (\<lambda>vector_bytes.
     bindE (read_checked read_location (location_ok (h_vector_page_count h) vector_bytes)
       (unat (h_point_count h)) (sec_directory s) 0) (\<lambda>locations.
     bindE (load_ranges h (sec_cell_directory s)) (\<lambda>ranges.
     bindE (read_checked (read_little 8) (prefetch_page_ok (h_vector_page_count h))
       (unat (h_point_count h)) (sec_prefetch s) 0) (\<lambda>pages.
     bindE (read_checked read_hint (hint_ok (h_point_count h) (h_cell_count h) (h_vector_page_count h) locations ranges) (unat (h_gateway_count h))
       (sec_gateway s) 0) (\<lambda>hints.
       Inr \<lparr>ix_point_count = h_point_count h, ix_dimension = h_dimension h,
            ix_max_degree = h_max_degree h, ix_edge_count = h_edge_count h,
            ix_vector_page_count = h_vector_page_count h, ix_vector_layout = h_layout h,
            ix_topology_bytes = topology_file_size, ix_vector_bytes = fp_size (h_vectors h),
            ix_neighbor_offsets = offsets, ix_adjacency = adjacency,
            ix_vector_locations = locations, ix_cell_page_ranges = ranges,
            ix_node_prefetch_pages = pages, ix_community_polar_fingerprint = h_community_polar h,
            ix_gateway_prefetch_hints = hints, ix_paged_topology = paged,
            ix_adjacency_file_offset = (if paged then h_adjacency_offset h else 0)\<rparr>))))))"

definition load_io_optimized_index ::
  "pfor_codec option \<Rightarrow> u8 list option \<Rightarrow> u8 list option \<Rightarrow> u8 list option
    \<Rightarrow> bool \<Rightarrow> bool \<Rightarrow> u64 \<Rightarrow> exn + io_optimized_index_t" where
  "load_io_optimized_index pfor disk topology vectors topology_only paged topology_cache_pages =
     bindE (read_file topology) (\<lambda>bytes.
     let topology_file_size = of_nat (length bytes) in
     bindE (if paged
            then bindE (read_file_range topology 0 (ucast k_topology_header_bytes)) parse_header
            else parse_header bytes) (\<lambda>h.
     bindE (guardE (\<not> (paged \<and> (topology_cache_pages = 0 \<or> h_encoding h \<noteq> RAW_U32))) Runtime_error) (\<lambda>_.
     bindE (guardE (\<not> (\<not> paged \<and> topology_cache_pages \<noteq> 0)) Runtime_error) (\<lambda>_.
     bindE (guardE (payload_supported h) Runtime_error) (\<lambda>_.
     bindE (guardE (gateway_bound h) Runtime_error) (\<lambda>_.
     bindE (check_sections h topology_file_size) (\<lambda>_.
     bindE (if paged then paged_sections h topology else Inr (resident_sections h bytes)) (\<lambda>s.
     bindE (if paged
            then validate_raw_adjacency_range topology (h_adjacency_offset h) (h_edge_count h) (h_point_count h)
            else Inr (checksum_bytes (sec_adjacency s))) (\<lambda>adjacency_checksum.
     bindE (check_checksums h s adjacency_checksum) (\<lambda>_.
     bindE (check_fingerprints h disk vectors topology_only) (\<lambda>_.
       fill_index pfor paged h s topology_file_size)))))))))))"

subsection \<open>Accessors\<close>

definition neighbors_resident :: "io_optimized_index_t \<Rightarrow> u32 \<Rightarrow> exn + u32 list" where
  "neighbors_resident ix node_id =
     (if ucast node_id \<ge> ix_point_count ix then Inl Out_of_range
      else
        let begin = ix_neighbor_offsets ix ! unat node_id; fin = ix_neighbor_offsets ix ! (unat node_id + 1)
        in Inr (take (unat (fin - begin)) (drop (unat begin) (ix_adjacency ix))))"

definition vector_location :: "io_optimized_index_t \<Rightarrow> u32 \<Rightarrow> exn + io_vector_location_t" where
  "vector_location ix node_id =
     (if ucast node_id \<ge> ix_point_count ix then Inl Out_of_range
      else Inr (ix_vector_locations ix ! unat node_id))"

definition node_prefetch_page :: "io_optimized_index_t \<Rightarrow> u32 \<Rightarrow> exn + u64" where
  "node_prefetch_page ix node_id =
     (if ucast node_id \<ge> ix_point_count ix then Inl Out_of_range
      else Inr (ix_node_prefetch_pages ix ! unat node_id))"

definition gateway_prefetch_hint :: "io_optimized_index_t \<Rightarrow> u64 \<Rightarrow> exn + io_gateway_prefetch_hint_t" where
  "gateway_prefetch_hint ix gateway_id =
     (if unat gateway_id \<ge> length (ix_gateway_prefetch_hints ix) then Inl Out_of_range
      else Inr (ix_gateway_prefetch_hints ix ! unat gateway_id))"

end
