(* ===== verification/IO_Index.thy ===== *)
theory IO_Index
  imports IO_Load
begin

text \<open>
  What loading guarantees: every section lies in the file, the loaded index is well formed, so
  its accessors stay in bounds and return only existing nodes and pages, and paged loading
  accepts exactly the files that resident loading accepts, with the same contents.
\<close>

subsection \<open>Checked loops\<close>

lemma read_checked_Inr:
  "read_checked dec ok n bs c = Inr vs \<Longrightarrow> length vs = n \<and> list_all ok vs"
  by (induction n arbitrary: c vs) (auto simp: bindE_eq_Inr)

lemma read_checked_all:
  "read_checked dec ok n bs c = Inr vs \<longleftrightarrow> (\<exists>c'. read_many dec n bs c = Inr (vs, c')) \<and> list_all ok vs"
  by (induction n arbitrary: c vs) (fastforce simp: bindE_eq_Inr)+

lemma read_checked_enc:
  assumes "field_codec enc dec" "list_all ok vs"
  shows "read_checked dec ok (length vs) (concat (map enc vs)) 0 = Inr vs"
  using field_codec.read_many_enc [OF assms(1), of 0 "concat (map enc vs)" vs "[]"] assms(2)
  by (auto simp: read_checked_all)

lemma buffer_targets_le_value:
  "le_value [b0, b1, b2, b3] = (ucast b0 OR push_bit 8 (ucast b1) OR push_bit 16 (ucast b2)
     OR push_bit 24 (ucast b3) :: u32)"
  by (simp add: le_value_def upt_conv_Cons or.assoc)

lemma read_buffer_targets:
  assumes "length bs = 4 * n"
  shows "length (buffer_targets bs) = n"
    "c = length pre \<Longrightarrow> read_many (read_little 4) n (pre @ bs) c = Inr (buffer_targets bs, c + 4 * n)"
proof -
  have "length (buffer_targets bs) = n \<and>
      (\<forall>pre. read_many (read_little 4) n (pre @ bs) (length pre) = Inr (buffer_targets bs, length pre + 4 * n))"
    using assms
  proof (induction bs arbitrary: n rule: buffer_targets.induct)
    case (1 b0 b1 b2 b3 rest)
    then obtain m where n: "n = Suc m" by (cases n) auto
    have rl: "read_little 4 (pre @ b0 # b1 # b2 # b3 # rest) (length pre)
        = Inr (ucast b0 OR push_bit 8 (ucast b1) OR push_bit 16 (ucast b2) OR push_bit 24 (ucast b3) :: u32,
               length pre + 4)" for pre
      by (simp add: read_little_def buffer_targets_le_value)
    have "length (buffer_targets rest) = m \<and>
      (\<forall>pre. read_many (read_little 4) m (pre @ rest) (length pre) = Inr (buffer_targets rest, length pre + 4 * m))"
      by (rule "1.IH") (use "1.prems" n in simp)
    then have ih: "length (buffer_targets rest) = m"
      "\<And>pre. read_many (read_little 4) m (pre @ rest) (length pre) = Inr (buffer_targets rest, length pre + 4 * m)"
      by blast+
    have "read_many (read_little 4) m (pre @ b0 # b1 # b2 # b3 # rest) (length pre + 4)
        = Inr (buffer_targets rest, length pre + 4 + 4 * m)" for pre
      using ih(2) [of "pre @ [b0, b1, b2, b3]"] by (simp add: eval_nat_numeral)
    with rl ih(1) show ?case by (simp add: n)
  qed (auto dest: arg_cong [where f = "\<lambda>x. x mod 4"])
  then show "length (buffer_targets bs) = n"
    "c = length pre \<Longrightarrow> read_many (read_little 4) n (pre @ bs) c = Inr (buffer_targets bs, c + 4 * n)"
    by blast+
qed

lemma buffer_targets_append:
  "length xs mod 4 = 0 \<Longrightarrow> buffer_targets (xs @ ys) = buffer_targets xs @ buffer_targets ys"
proof (induction xs rule: buffer_targets.induct)
  case (1 b0 b1 b2 b3 rest)
  then show ?case by (simp add: mod_Suc split: if_splits)
qed auto

subsection \<open>The paged adjacency scan\<close>

lemma validate_raw_loop_iff:
  assumes "remaining mod 4 = 0"
  shows "validate_raw_loop input position remaining point_count checksum = Inr cs \<longleftrightarrow>
    remaining \<le> length input - position
    \<and> list_all (\<lambda>t. ucast t < point_count) (buffer_targets (take remaining (drop position input)))
    \<and> cs = hash_bytes checksum (take remaining (drop position input))"
  using assms
proof (induction input position remaining point_count checksum rule: validate_raw_loop.induct)
  case (1 input position remaining point_count checksum)
  show ?case
  proof (cases "remaining = 0")
    case True
    then show ?thesis by (auto simp: validate_raw_loop.simps)
  next
    case False
    define k where "k = min remaining k_buffer_bytes"
    define buffer where "buffer = take k (drop position input)"
    define more where "more = take (remaining - k) (drop (position + k) input)"
    have k: "k \<le> remaining" "k mod 4 = 0" using "1.prems" by (auto simp: k_def min_def k_buffer_bytes_def)
    have r4: "(remaining - k) mod 4 = 0" using "1.prems" k
      by (metis dvd_diff_nat mod_0_imp_dvd dvd_imp_mod_0)
    have whole: "take remaining (drop position input) = buffer @ more"
      unfolding buffer_def more_def using k(1) by (metis add.commute drop_drop le_add_diff_inverse take_add)
    have unfold: "validate_raw_loop input position remaining point_count checksum =
        (if length buffer < k then Inl Runtime_error
         else if list_ex (\<lambda>t. ucast t \<ge> point_count) (buffer_targets buffer) then Inl Runtime_error
         else validate_raw_loop input (position + k) (remaining - k) point_count (hash_bytes checksum buffer))"
      using False by (subst validate_raw_loop.simps) (simp add: Let_def k_def buffer_def)
    show ?thesis
    proof (cases "length buffer < k")
      case True
      then have "\<not> remaining \<le> length input - position" using k(1) by (auto simp: buffer_def)
      with True show ?thesis by (simp add: unfold)
    next
      case len: False
      then have b: "length buffer = k" "k \<le> length input - position" by (auto simp: buffer_def)
      show ?thesis
      proof (cases "list_ex (\<lambda>t. ucast t \<ge> point_count) (buffer_targets buffer)")
        case True
        then have "\<not> list_all (\<lambda>t. ucast t < point_count) (buffer_targets (buffer @ more))"
          by (auto simp: buffer_targets_append b k list_ex_iff list_all_iff not_less)
        with True show ?thesis by (simp add: unfold whole len)
      next
        case ok: False
        then have all: "list_all (\<lambda>t. ucast t < point_count) (buffer_targets buffer)"
          by (auto simp: list_ex_iff list_all_iff not_less)
        have "validate_raw_loop input (position + k) (remaining - k) point_count (hash_bytes checksum buffer) = Inr cs
            \<longleftrightarrow> remaining - k \<le> length input - (position + k)
            \<and> list_all (\<lambda>t. ucast t < point_count) (buffer_targets more)
            \<and> cs = hash_bytes (hash_bytes checksum buffer) more"
          unfolding more_def k_def buffer_def
          by (rule "1.IH" [OF False refl refl]) (use len ok r4 in \<open>simp_all add: k_def buffer_def\<close>)
        moreover have "remaining - k \<le> length input - (position + k) \<longleftrightarrow> remaining \<le> length input - position"
          using b(2) k(1) by auto
        ultimately show ?thesis using len ok all
          by (simp add: unfold whole buffer_targets_append b k hash_bytes_append)
      qed
    qed
  qed
qed

lemma validate_raw_adjacency_range_iff:
  "validate_raw_adjacency_range (Some bytes) offset edge_count point_count = Inr cs \<longleftrightarrow>
     unat edge_count * 4 < 2 ^ 64 \<and> unat edge_count * 4 \<le> length bytes - unat offset
     \<and> list_all (\<lambda>t. ucast t < point_count)
         (buffer_targets (take (unat edge_count * 4) (drop (unat offset) bytes)))
     \<and> cs = checksum_bytes (take (unat edge_count * 4) (drop (unat offset) bytes))"
proof (cases "unat edge_count * 4 < 2 ^ 64")
  case True
  then have u: "unat (edge_count * 4) = unat edge_count * 4"
    using unat_mult_lem [of edge_count "4 :: u64"] by simp
  then have "checked_multiply edge_count 4 = Inr (edge_count * 4)" by (simp add: checked_multiply_iff)
  with True show ?thesis
    by (simp add: validate_raw_adjacency_range_def u validate_raw_loop_iff checksum_bytes_def)
next
  case False
  have "checked_multiply edge_count 4 \<noteq> Inr c" for c
    using False unsigned_less [of c, where ?'a = nat] by (simp add: checked_multiply_iff)
  then obtain e where "checked_multiply edge_count 4 = Inl e" by (cases "checked_multiply edge_count 4") auto
  with False show ?thesis by (simp add: validate_raw_adjacency_range_def)
qed

subsection \<open>The section table\<close>

text \<open>The sections follow each other from the header to the end of the file.\<close>

definition sections_layout :: "topology_header_t \<Rightarrow> nat \<Rightarrow> bool" where
  "sections_layout h file_bytes \<longleftrightarrow>
     unat (h_offsets_offset h) = unat (h_header_bytes h)
     \<and> unat (h_offsets_bytes h) = (unat (h_point_count h) + 1) * 8
     \<and> unat (h_adjacency_offset h) = unat (h_offsets_offset h) + unat (h_offsets_bytes h)
     \<and> unat (h_edge_count h) * 4 < 2 ^ 64
     \<and> (h_encoding h = RAW_U32 \<longrightarrow> unat (h_adjacency_bytes h) = unat (h_edge_count h) * 4)
     \<and> unat (h_directory_offset h) = unat (h_adjacency_offset h) + unat (h_adjacency_bytes h)
     \<and> unat (h_directory_bytes h) = unat (h_point_count h) * 12
     \<and> unat (h_cell_directory_offset h) = unat (h_directory_offset h) + unat (h_directory_bytes h)
     \<and> unat (h_cell_directory_bytes h) = unat (h_cell_count h) * 20
     \<and> unat (h_prefetch_directory_offset h) = unat (h_cell_directory_offset h) + unat (h_cell_directory_bytes h)
     \<and> unat (h_prefetch_directory_bytes h) = unat (h_point_count h) * 8
     \<and> unat (h_gateway_count h) * 64 < 2 ^ 64
     \<and> (h_version h \<ge> k_topology_version_v5 \<longrightarrow>
          unat (h_gateway_directory_offset h) = unat (h_prefetch_directory_offset h) + unat (h_prefetch_directory_bytes h)
          \<and> unat (h_gateway_directory_bytes h) = unat (h_gateway_count h) * 64)
     \<and> file_bytes = unat (h_prefetch_directory_offset h) + unat (h_prefetch_directory_bytes h)
         + (if h_version h = k_topology_version_v4 then 0 else unat (h_gateway_directory_bytes h))"

lemma ex_u64: "(\<exists>c :: u64. unat c = n \<and> P c) \<longleftrightarrow> n < 2 ^ 64 \<and> P (of_nat n)"
proof
  assume "\<exists>c :: u64. unat c = n \<and> P c"
  then obtain c :: u64 where "unat c = n" "P c" by blast
  then show "n < 2 ^ 64 \<and> P (of_nat n)" using unsigned_less [of c, where ?'a = nat] by auto
next
  assume "n < 2 ^ 64 \<and> P (of_nat n)"
  then show "\<exists>c :: u64. unat c = n \<and> P c"
    by (intro exI [of _ "of_nat n"]) (simp add: unat_of_nat take_bit_nat_eq_self)
qed

lemma unat_of_nat_u64 [simp]: "n < 2 ^ 64 \<Longrightarrow> unat (of_nat n :: u64) = n"
  by (simp add: unat_of_nat take_bit_nat_eq_self)

lemma word_eq_of_nat: "n < 2 ^ 64 \<Longrightarrow> w = (of_nat n :: u64) \<longleftrightarrow> unat w = n"
  by (auto simp: word_unat_eq_iff)

lemma unat_u64_less [simp]: "unat (w :: u64) < 18446744073709551616"
  using unsigned_less [of w, where ?'a = nat] by simp

lemma unat_ucast_u32 [simp]: "unat (ucast (w :: u32) :: u64) = unat w"
proof -
  have "unat w < 2 ^ 64" using unsigned_less [of w, where ?'a = nat] by simp
  then show ?thesis by (simp add: unsigned_ucast_eq take_bit_nat_eq_self)
qed

lemma check_sections_Inr:
  assumes "check_sections h file_size = Inr ()"
  shows "sections_layout h (unat file_size)"
proof -
  have nums: "unat (1 :: u64) = 1" "unat (8 :: u64) = 8" "unat (4 :: u64) = 4" "unat (12 :: u64) = 12"
    "unat (20 :: u64) = 20" "unat (64 :: u64) = 64" by simp_all
  from assms obtain oc ob rb db cb pb gb ao dof co po go fs :: u64 where f:
    "unat oc = unat (h_point_count h) + 1" "unat ob = unat oc * 8" "unat rb = unat (h_edge_count h) * 4"
    "unat db = unat (h_point_count h) * 12" "unat cb = unat (h_cell_count h) * 20"
    "unat pb = unat (h_point_count h) * 8" "unat gb = unat (h_gateway_count h) * 64"
    "unat ao = unat (h_offsets_offset h) + unat (h_offsets_bytes h)"
    "unat dof = unat (h_adjacency_offset h) + unat (h_adjacency_bytes h)"
    "unat co = unat (h_directory_offset h) + unat (h_directory_bytes h)"
    "unat po = unat (h_cell_directory_offset h) + unat (h_cell_directory_bytes h)"
    "unat go = unat (h_prefetch_directory_offset h) + unat (h_prefetch_directory_bytes h)"
    "(if h_version h = k_topology_version_v4 then Inr go else checked_add go (h_gateway_directory_bytes h)) = Inr fs"
    "h_offsets_offset h = ucast (h_header_bytes h)" "h_offsets_bytes h = ob" "h_adjacency_offset h = ao"
    "h_encoding h \<noteq> RAW_U32 \<or> h_adjacency_bytes h = rb" "h_directory_offset h = dof"
    "h_directory_bytes h = db" "h_cell_directory_offset h = co" "h_cell_directory_bytes h = cb"
    "h_prefetch_directory_offset h = po" "h_prefetch_directory_bytes h = pb"
    "\<not> h_version h \<ge> k_topology_version_v5 \<or> h_gateway_directory_offset h = go \<and> h_gateway_directory_bytes h = gb"
    "fs = file_size"
    unfolding check_sections_def bindE_eq_Inr checked_add_iff checked_multiply_iff guardE_eq_Inr nums
      not_not de_Morgan_disj de_Morgan_conj
    by (elim exE conjE) (rule that; assumption)
  have fs: "unat file_size = unat go + (if h_version h = k_topology_version_v4 then 0
      else unat (h_gateway_directory_bytes h))"
    using f(13,25) by (auto simp: checked_add_iff split: if_splits)
  show ?thesis
    unfolding sections_layout_def using f fs unsigned_less [of rb, where ?'a = nat]
      unsigned_less [of gb, where ?'a = nat] by simp
qed

lemma checked_add_Inr: "unat a + unat b < 2 ^ 64 \<Longrightarrow> checked_add a b = Inr (a + b)"
  using unat_add_lem [of a b] by (simp add: checked_add_iff)

lemma checked_multiply_Inr: "unat a * unat b < 2 ^ 64 \<Longrightarrow> checked_multiply a b = Inr (a * b)"
  using unat_mult_lem [of a b] by (simp add: checked_multiply_iff)

lemma checked_add_eq: "unat c = unat a + unat b \<Longrightarrow> checked_add a b = Inr c"
  by (simp add: checked_add_iff)

lemma checked_multiply_eq: "unat c = unat a * unat b \<Longrightarrow> checked_multiply a b = Inr c"
  by (simp add: checked_multiply_iff)

lemma check_sections_layout:
  assumes "sections_layout h (unat file_size)"
    "h_version h = k_topology_version_v5 \<or> h_version h = k_topology_version"
  shows "check_sections h file_size = Inr ()"
proof -
  note l = assms(1) [unfolded sections_layout_def]
  have v: "h_version h \<noteq> k_topology_version_v4" "h_version h \<ge> k_topology_version_v5"
    using assms(2) by (auto simp: topology_consts)
  have oc: "unat (h_point_count h) + 1 < 2 ^ 64" using l unsigned_less [of "h_offsets_bytes h", where ?'a = nat] by simp
  then obtain oc :: u64 where oc: "unat oc = unat (h_point_count h) + 1"
    using unat_of_nat_u64 by blast
  have "unat (h_edge_count h) * 4 < 2 ^ 64" using l by simp
  then obtain rb :: u64 where rb: "unat rb = unat (h_edge_count h) * 4" using unat_of_nat_u64 by blast
  have g: "h_gateway_directory_bytes h = gb \<longleftrightarrow> unat gb = unat (h_gateway_count h) * 64" for gb
    using l v by (auto simp: word_unat_eq_iff)
  have "checked_add (h_point_count h) 1 = Inr oc" "checked_multiply oc 8 = Inr (h_offsets_bytes h)"
    "checked_multiply (h_edge_count h) 4 = Inr rb" "checked_multiply (h_point_count h) 12 = Inr (h_directory_bytes h)"
    "checked_multiply (h_cell_count h) 20 = Inr (h_cell_directory_bytes h)"
    "checked_multiply (h_point_count h) 8 = Inr (h_prefetch_directory_bytes h)"
    "checked_multiply (h_gateway_count h) 64 = Inr (h_gateway_directory_bytes h)"
    "checked_add (h_offsets_offset h) (h_offsets_bytes h) = Inr (h_adjacency_offset h)"
    "checked_add (h_adjacency_offset h) (h_adjacency_bytes h) = Inr (h_directory_offset h)"
    "checked_add (h_directory_offset h) (h_directory_bytes h) = Inr (h_cell_directory_offset h)"
    "checked_add (h_cell_directory_offset h) (h_cell_directory_bytes h) = Inr (h_prefetch_directory_offset h)"
    "checked_add (h_prefetch_directory_offset h) (h_prefetch_directory_bytes h) = Inr (h_gateway_directory_offset h)"
    "checked_add (h_gateway_directory_offset h) (h_gateway_directory_bytes h) = Inr file_size"
    unfolding checked_add_iff checked_multiply_iff using l v oc rb by simp_all
  moreover have "h_encoding h = RAW_U32 \<longrightarrow> h_adjacency_bytes h = rb" using l rb by (auto simp: word_unat_eq_iff)
  moreover have "h_offsets_offset h = ucast (h_header_bytes h)" using l by (simp add: word_unat_eq_iff)
  ultimately show ?thesis using v(1) by (simp add: check_sections_def guardE_def)
qed

subsection \<open>The adjacency\<close>

definition adjacency_ok :: "u64 list \<Rightarrow> u32 list \<Rightarrow> u64 \<Rightarrow> u32 \<Rightarrow> bool" where
  "adjacency_ok offsets adjacency point_count max_degree \<longleftrightarrow>
     length offsets = unat point_count + 1 \<and> offsets ! 0 = 0
     \<and> (\<forall>k < unat point_count. unat (offsets ! k) \<le> unat (offsets ! Suc k)
          \<and> unat (offsets ! Suc k) - unat (offsets ! k) \<le> unat max_degree)
     \<and> unat (offsets ! unat point_count) = length adjacency
     \<and> list_all (\<lambda>t. ucast t < point_count) adjacency"

lemma offsets_valid_nth:
  assumes "offsets_valid offsets max_degree" "Suc k < length offsets"
  shows "unat (offsets ! k) \<le> unat (offsets ! Suc k)"
    "unat (offsets ! Suc k) - unat (offsets ! k) \<le> unat max_degree"
proof -
  have "(offsets ! k, offsets ! Suc k) \<in> set (zip offsets (tl offsets))"
    using assms(2) by (auto simp: set_zip nth_tl intro!: exI [of _ k])
  then have le: "offsets ! k \<le> offsets ! Suc k" and d: "offsets ! Suc k - offsets ! k \<le> ucast max_degree"
    using assms(1) by (auto simp: offsets_valid_def list_all_iff not_less)
  from le show "unat (offsets ! k) \<le> unat (offsets ! Suc k)" by (simp add: word_le_nat_alt)
  from d show "unat (offsets ! Suc k) - unat (offsets ! k) \<le> unat max_degree"
    by (simp add: word_le_nat_alt unat_sub [OF le])
qed

lemma scatter_length: "scatter pvs out seen = Inr out' \<Longrightarrow> length out' = length out"
  by (induction pvs out seen rule: scatter.induct) (auto split: if_splits)

lemma decode_record_length:
  assumes "decode_record codec max_degree bs = Inr nbrs"
  shows "length nbrs \<le> unat max_degree"
proof -
  from assms obtain degree :: u32 and c and pvs where
    "degree \<le> max_degree" "scatter pvs (replicate (unat degree) 0) (replicate (unat degree) False) = Inr nbrs"
    unfolding decode_record_def bindE_eq_Inr guardE_eq_Inr Let_def by (auto simp: bindE_eq_Inr)
  then show ?thesis using scatter_length by (fastforce simp: word_le_nat_alt)
qed

lemma decompress_nodes_Inr:
  "decompress_nodes codec max_degree offsets bytes = Inr nodes \<Longrightarrow>
     length nodes = length offsets - 1 \<and> list_all (\<lambda>nbrs. length nbrs \<le> unat max_degree) nodes"
proof (induction codec max_degree offsets bytes arbitrary: nodes rule: decompress_nodes.induct)
  case (1 codec max_degree b0 b1 offsets bytes)
  then show ?case by (auto simp: bindE_eq_Inr dest: decode_record_length)
qed auto

lemma edge_offsets_nth:
  "k \<le> length nodes \<Longrightarrow> length (concat nodes) < 2 ^ 64 \<Longrightarrow>
     unat (edge_offsets_of nodes ! k) = length (concat (take k nodes))"
proof -
  assume k: "k \<le> length nodes" and l: "length (concat nodes) < 2 ^ 64"
  have "length (concat nodes) = length (concat (take k nodes)) + length (concat (drop k nodes))"
    by (metis append_take_drop_id concat_append length_append)
  with l have "length (concat (take k nodes)) < 2 ^ 64" by simp
  with k show ?thesis by (simp add: edge_offsets_of_def del: upt_Suc)
qed

lemma edge_offsets_ok:
  assumes "list_all (\<lambda>nbrs. length nbrs \<le> unat max_degree) nodes" "length (concat nodes) < 2 ^ 64"
    "length nodes = unat point_count" "list_all (\<lambda>t. ucast t < point_count) (concat nodes)"
  shows "adjacency_ok (edge_offsets_of nodes) (concat nodes) point_count max_degree"
  unfolding adjacency_ok_def
proof (intro conjI allI impI)
  show "edge_offsets_of nodes ! 0 = 0" by (simp add: edge_offsets_of_def del: upt_Suc)
  fix k assume "k < unat point_count"
  then have k: "k < length nodes" by (simp add: assms(3))
  then have e: "unat (edge_offsets_of nodes ! Suc k) = unat (edge_offsets_of nodes ! k) + length (nodes ! k)"
    using assms(2) by (simp add: edge_offsets_nth take_Suc_conv_app_nth)
  then show "unat (edge_offsets_of nodes ! k) \<le> unat (edge_offsets_of nodes ! Suc k)" by simp
  show "unat (edge_offsets_of nodes ! Suc k) - unat (edge_offsets_of nodes ! k) \<le> unat max_degree"
    using assms(1) k e by (simp add: list_all_length)
qed (use assms in \<open>simp_all add: edge_offsets_nth del: length_concat\<close>, simp add: edge_offsets_of_def)

lemma load_adjacency_ok:
  assumes "load_adjacency pfor False h s = Inr (offsets, adjacency)"
  shows "adjacency_ok offsets adjacency (h_point_count h) (h_max_degree h)
    \<and> unat (h_edge_count h) = length adjacency"
proof -
  from assms obtain os where
    os: "read_checked (read_little 8) (\<lambda>_. True) (unat (h_point_count h) + 1) (sec_offsets s) 0 = Inr os"
    and hd0: "hd os = 0"
    and r: "(if h_encoding h = RAW_U32 then
       bindE (guardE (last os = h_edge_count h) Runtime_error) (\<lambda>_.
       bindE (guardE (offsets_valid os (h_max_degree h)) Runtime_error) (\<lambda>_.
       bindE (read_checked (read_little 4) (\<lambda>target. ucast target < h_point_count h)
              (unat (h_edge_count h)) (sec_adjacency s) 0) (\<lambda>adjacency. Inr (os, adjacency))))
     else
       case pfor of None \<Rightarrow> Inl Runtime_error
       | Some codec \<Rightarrow>
           bindE (guardE (last os = h_adjacency_bytes h) Runtime_error) (\<lambda>_.
           bindE (decompress_adjacency codec os (sec_adjacency s) (h_edge_count h) (h_max_degree h))
             (\<lambda>(adjacency, edge_offsets).
           bindE (guardE (\<not> list_ex (\<lambda>target. ucast target \<ge> h_point_count h) adjacency) Runtime_error) (\<lambda>_.
             Inr (edge_offsets, adjacency))))) = Inr (offsets, adjacency)"
    unfolding load_adjacency_def bindE_eq_Inr [where f = "\<lambda>offsets. bindE (guardE (hd offsets = 0) Runtime_error) (f offsets)" for f]
    by (elim exE conjE) (rule that, assumption, auto simp: bindE_eq_Inr [of "guardE b e" for b e])
  have len: "length os = unat (h_point_count h) + 1" using read_checked_Inr [OF os] by simp
  then have "os \<noteq> []" by auto
  then have hdl: "hd os = os ! 0" "last os = os ! unat (h_point_count h)"
    using len by (simp_all add: hd_conv_nth last_conv_nth)
  show ?thesis
  proof (cases "h_encoding h = RAW_U32")
    case True
    with r have o: "offsets = os" "last os = h_edge_count h" "offsets_valid os (h_max_degree h)"
      "read_checked (read_little 4) (\<lambda>target. ucast target < h_point_count h)
         (unat (h_edge_count h)) (sec_adjacency s) 0 = Inr adjacency"
      by (auto simp: bindE_eq_Inr)
    then show ?thesis
      using len hd0 hdl offsets_valid_nth [OF o(3)] read_checked_Inr [OF o(4)]
      by (simp add: adjacency_ok_def)
  next
    case False
    with r obtain codec nodes where n: "decompress_nodes codec (h_max_degree h) os (sec_adjacency s) = Inr nodes"
      "length (concat nodes) = unat (h_edge_count h)" "offsets = edge_offsets_of nodes" "adjacency = concat nodes"
      "list_all (\<lambda>t. ucast t < h_point_count h) adjacency"
      by (auto simp: bindE_eq_Inr decompress_adjacency_def list_ex_iff list_all_iff not_le split: option.splits
          simp del: length_concat)
    then show ?thesis
      using decompress_nodes_Inr [OF n(1)] len unsigned_less [of "h_edge_count h", where ?'a = nat]
      by (simp add: edge_offsets_ok del: length_concat)
  qed
qed

lemma neighbors_resident_ok:
  assumes ok: "adjacency_ok (ix_neighbor_offsets ix) (ix_adjacency ix) (ix_point_count ix) (ix_max_degree ix)"
    and node: "ucast node_id < ix_point_count ix"
  shows "\<exists>nbrs. neighbors_resident ix node_id = Inr nbrs \<and> length nbrs \<le> unat (ix_max_degree ix)
    \<and> length nbrs = unat (ix_neighbor_offsets ix ! Suc (unat node_id) - ix_neighbor_offsets ix ! unat node_id)
    \<and> list_all (\<lambda>t. ucast t < ix_point_count ix) nbrs"
proof -
  let ?o = "ix_neighbor_offsets ix" and ?n = "unat node_id"
  have n: "?n < unat (ix_point_count ix)" using node by (simp add: word_less_nat_alt)
  have mono: "unat (?o ! j) \<le> unat (?o ! k)" if "j \<le> k" "k \<le> unat (ix_point_count ix)" for j k
    using that
  proof (induction k)
    case (Suc k)
    have "unat (?o ! k) \<le> unat (?o ! Suc k)" using ok Suc.prems(2) by (simp add: adjacency_ok_def)
    with Suc show ?case by (cases "j = Suc k") auto
  qed simp
  have le: "?o ! ?n \<le> ?o ! Suc ?n" using mono [of ?n "Suc ?n"] n by (simp add: word_le_nat_alt)
  have "unat (?o ! Suc ?n) \<le> length (ix_adjacency ix)"
    using mono [of "Suc ?n" "unat (ix_point_count ix)"] n ok by (simp add: adjacency_ok_def)
  then have len: "length (take (unat (?o ! Suc ?n - ?o ! ?n)) (drop (unat (?o ! ?n)) (ix_adjacency ix)))
      = unat (?o ! Suc ?n - ?o ! ?n)"
    using le by (simp add: unat_sub word_le_nat_alt)
  have "unat (?o ! Suc ?n - ?o ! ?n) \<le> unat (ix_max_degree ix)"
    using ok n by (simp add: unat_sub [OF le] adjacency_ok_def)
  moreover have "list_all (\<lambda>t. ucast t < ix_point_count ix)
      (take (unat (?o ! Suc ?n - ?o ! ?n)) (drop (unat (?o ! ?n)) (ix_adjacency ix)))"
    using ok unfolding adjacency_ok_def list_all_iff by (blast dest: in_set_takeD in_set_dropD)
  ultimately show ?thesis using node len by (simp add: neighbors_resident_def Let_def not_le)
qed

subsection \<open>Cell page ranges\<close>

text \<open>The ranges are non-empty and follow each other from page \<open>p\<close> to page \<open>q\<close>.\<close>

fun covers_pages :: "nat \<Rightarrow> io_cell_page_range_t list \<Rightarrow> nat \<Rightarrow> bool" where
  "covers_pages p [] q \<longleftrightarrow> p = q"
| "covers_pages p (r # rs) q \<longleftrightarrow> unat (rg_first_page r) = p \<and> 0 < unat (rg_page_count r)
     \<and> covers_pages (p + unat (rg_page_count r)) rs q"

definition covered :: "io_cell_page_range_t list \<Rightarrow> nat" where
  "covered rs = sum_list (map (\<lambda>r. unat (rg_node_count r)) rs)"

lemma read_ranges_Inr:
  "read_ranges h n bs c p cov = Inr (rs, q, cov') \<Longrightarrow>
     length rs = n \<and> covers_pages (unat p) rs (unat q) \<and> unat cov' = unat cov + covered rs
     \<and> (\<forall>r \<in> set rs. range_ok (h_layout h) (h_vector_page_count h) (rg_first_page r) r)"
proof (induction n arbitrary: c p cov rs)
  case (Suc n)
  then obtain r c1 p1 cov1 rs' where r: "range_ok (h_layout h) (h_vector_page_count h) p r" "checked_add (rg_first_page r) (ucast (rg_page_count r)) = Inr p1"
    "checked_add cov (ucast (rg_node_count r)) = Inr cov1" "read_ranges h n bs c1 p1 cov1 = Inr (rs', q, cov')"
    "rs = r # rs'"
    by (auto simp: bindE_eq_Inr)
  have "rg_first_page r = p" "rg_page_count r \<noteq> 0" using r(1) by (auto simp: range_ok_def)
  then show ?case using Suc.IH [OF r(4)] r(1,2,3,5)
    by (auto simp: checked_add_iff covered_def word_neq_0_conv word_less_nat_alt)
qed (auto simp: covered_def)

lemma covers_pages_nth:
  "covers_pages p rs q \<Longrightarrow> k < length rs \<Longrightarrow>
     unat (rg_first_page (rs ! k)) + unat (rg_page_count (rs ! k)) \<le> q"
proof (induction p rs q arbitrary: k rule: covers_pages.induct)
  case (2 p r rs q)
  have le: "covers_pages p' rs' q' \<Longrightarrow> p' \<le> q'" for p' rs' q'
    by (induction p' rs' q' rule: covers_pages.induct) auto
  from 2 le show ?case by (cases k) auto
qed simp

text \<open>Every page belongs to exactly one cell.\<close>

lemma covers_pages_unique:
  "covers_pages p rs q \<Longrightarrow> p \<le> page \<Longrightarrow> page < q \<Longrightarrow>
     \<exists>!k. k < length rs \<and> unat (rg_first_page (rs ! k)) \<le> page
        \<and> page < unat (rg_first_page (rs ! k)) + unat (rg_page_count (rs ! k))"
proof (induction p rs q rule: covers_pages.induct)
  case (2 p r rs q)
  let ?in = "\<lambda>rs k. k < length rs \<and> unat (rg_first_page (rs ! k)) \<le> page
        \<and> page < unat (rg_first_page (rs ! k)) + unat (rg_page_count (rs ! k))"
  let ?p = "p + unat (rg_page_count r)"
  have ge: "covers_pages p' rs' q' \<Longrightarrow> k < length rs' \<Longrightarrow> p' \<le> unat (rg_first_page (rs' ! k))" for p' rs' q' k
  proof (induction p' rs' q' arbitrary: k rule: covers_pages.induct)
    case (2 p' r' rs' q')
    then show ?case by (cases k) (auto dest: add_leD1)
  qed simp
  from "2.prems" have c: "covers_pages ?p rs q" "unat (rg_first_page r) = p" by auto
  show ?case
  proof (cases "page < ?p")
    case True
    have "\<not> ?in rs k" for k using ge [OF c(1), of k] True by auto
    then have "?in (r # rs) k \<longleftrightarrow> k = 0" for k using True c(2) "2.prems"(2) by (cases k) auto
    then show ?thesis by auto
  next
    case False
    then have "\<exists>!k. ?in rs k" using "2.IH" [OF c(1)] "2.prems"(3) by simp
    then obtain k where k: "?in rs k" "\<And>j. ?in rs j \<Longrightarrow> j = k" by blast
    have no: "\<not> ?in (r # rs) 0" using False c(2) by simp
    have suc: "?in (r # rs) (Suc j) \<longleftrightarrow> ?in rs j" for j by simp
    have "j = Suc k" if "?in (r # rs) j" for j
    proof (cases j)
      case 0
      then show ?thesis using no that by blast
    next
      case (Suc i)
      then have "?in rs i" using that suc by blast
      then show ?thesis using k(2) Suc by blast
    qed
    moreover have "?in (r # rs) (Suc k)" using k(1) suc by blast
    ultimately show ?thesis by blast
  qed
qed simp

end
