(* ===== verification/IO_Guarantees.thy ===== *)
theory IO_Guarantees
  imports IO_Index
begin

text \<open>
  What a successful \<open>io_optimized_index_t::load\<close> guarantees: the sections lie in the file, the
  loaded index is well formed and its accessors return only existing nodes and pages, paged and
  resident loading agree, and a file written by \<open>build\<close> loads to the index that was written.
\<close>

subsection \<open>The conditions of a load\<close>

lemma load_resident_iff:
  "load_io_optimized_index pfor disk (Some bytes) vectors topology_only False cache_pages = Inr ix \<longleftrightarrow>
     (\<exists>h. parse_header bytes = Inr h \<and> cache_pages = 0 \<and> payload_supported h \<and> gateway_bound h
        \<and> check_sections h (of_nat (length bytes)) = Inr ()
        \<and> check_checksums h (resident_sections h bytes) (checksum_bytes (sec_adjacency (resident_sections h bytes))) = Inr ()
        \<and> check_fingerprints h disk vectors topology_only = Inr ()
        \<and> fill_index pfor False h (resident_sections h bytes) (of_nat (length bytes)) = Inr ix)"
  by (auto simp: load_io_optimized_index_def read_file_def Let_def bindE_eq_Inr)

lemma load_paged_iff:
  "load_io_optimized_index pfor disk (Some bytes) vectors topology_only True cache_pages = Inr ix \<longleftrightarrow>
     (\<exists>hb h s cs. read_file_range (Some bytes) 0 (ucast k_topology_header_bytes) = Inr hb
        \<and> parse_header hb = Inr h \<and> cache_pages \<noteq> 0 \<and> h_encoding h = RAW_U32 \<and> payload_supported h \<and> gateway_bound h
        \<and> check_sections h (of_nat (length bytes)) = Inr ()
        \<and> paged_sections h (Some bytes) = Inr s
        \<and> validate_raw_adjacency_range (Some bytes) (h_adjacency_offset h) (h_edge_count h) (h_point_count h) = Inr cs
        \<and> check_checksums h s cs = Inr ()
        \<and> check_fingerprints h disk vectors topology_only = Inr ()
        \<and> fill_index pfor True h s (of_nat (length bytes)) = Inr ix)"
  by (auto simp: load_io_optimized_index_def read_file_def Let_def bindE_eq_Inr)

lemma fill_index_iff:
  "fill_index pfor paged h s file_size = Inr ix \<longleftrightarrow>
     (\<exists>offsets adjacency vector_bytes locations ranges pages hints.
        load_adjacency pfor paged h s = Inr (offsets, adjacency) \<and> vector_bytes_of h = Inr vector_bytes
        \<and> read_checked read_location (location_ok (h_vector_page_count h) vector_bytes)
            (unat (h_point_count h)) (sec_directory s) 0 = Inr locations
        \<and> load_ranges h (sec_cell_directory s) = Inr ranges
        \<and> read_checked (read_little 8) (prefetch_page_ok (h_vector_page_count h))
            (unat (h_point_count h)) (sec_prefetch s) 0 = Inr pages
        \<and> read_checked read_hint (hint_ok (h_point_count h) (h_cell_count h) (h_vector_page_count h) locations ranges) (unat (h_gateway_count h)) (sec_gateway s) 0 = Inr hints
        \<and> ix = \<lparr>ix_point_count = h_point_count h, ix_dimension = h_dimension h,
            ix_max_degree = h_max_degree h, ix_edge_count = h_edge_count h,
            ix_vector_page_count = h_vector_page_count h, ix_vector_layout = h_layout h,
            ix_topology_bytes = file_size, ix_vector_bytes = fp_size (h_vectors h),
            ix_neighbor_offsets = offsets, ix_adjacency = adjacency,
            ix_vector_locations = locations, ix_cell_page_ranges = ranges,
            ix_node_prefetch_pages = pages, ix_community_polar_fingerprint = h_community_polar h,
            ix_gateway_prefetch_hints = hints, ix_paged_topology = paged,
            ix_adjacency_file_offset = (if paged then h_adjacency_offset h else 0)\<rparr>)"
  unfolding fill_index_def bindE_eq_Inr by (auto simp: bindE_eq_Inr)

subsection \<open>The loaded index is well formed\<close>

definition stored_vector_bytes :: "io_optimized_index_t \<Rightarrow> nat" where
  "stored_vector_bytes ix =
     (if ix_vector_layout ix = CELL_U8_4K then unat (ix_dimension ix) else unat (ix_dimension ix) * 4)"

definition location_in_page :: "io_optimized_index_t \<Rightarrow> io_vector_location_t \<Rightarrow> bool" where
  "location_in_page ix l \<longleftrightarrow> loc_page_id l < ix_vector_page_count ix \<and> 4 dvd unat (loc_page_offset l)
     \<and> unat (loc_page_offset l) + stored_vector_bytes ix \<le> 4096"

definition hint_consistent :: "io_optimized_index_t \<Rightarrow> io_gateway_prefetch_hint_t \<Rightarrow> bool" where
  "hint_consistent ix g \<longleftrightarrow>
     unat (gh_target_node g) < length (ix_vector_locations ix)
     \<and> unat (gh_landing_cell g) < length (ix_cell_page_ranges ix)
     \<and> gh_landing_node_page g = loc_page_id (ix_vector_locations ix ! unat (gh_target_node g))
     \<and> (let r = ix_cell_page_ranges ix ! unat (gh_landing_cell g) in
          gh_landing_cell_first_page g = rg_first_page r
          \<and> unat (rg_first_page r) \<le> unat (gh_landing_node_page g)
          \<and> unat (gh_landing_node_page g) < unat (rg_first_page r) + unat (rg_page_count r))"

definition index_ok :: "io_optimized_index_t \<Rightarrow> bool" where
  "index_ok ix \<longleftrightarrow>
     adjacency_ok (ix_neighbor_offsets ix) (ix_adjacency ix) (ix_point_count ix) (ix_max_degree ix)
     \<and> unat (ix_edge_count ix) = length (ix_adjacency ix)
     \<and> length (ix_vector_locations ix) = unat (ix_point_count ix)
     \<and> list_all (location_in_page ix) (ix_vector_locations ix)
     \<and> length (ix_node_prefetch_pages ix) = unat (ix_point_count ix)
     \<and> list_all (\<lambda>p. p = k_no_io_prefetch_page \<or> p < ix_vector_page_count ix) (ix_node_prefetch_pages ix)
     \<and> (\<exists>q. covers_pages 0 (ix_cell_page_ranges ix) q \<and> q \<le> unat (ix_vector_page_count ix)
          \<and> (cell_layout (ix_vector_layout ix) \<longrightarrow> q = unat (ix_vector_page_count ix)
             \<and> covered (ix_cell_page_ranges ix) = unat (ix_point_count ix)))
     \<and> list_all (hint_consistent ix) (ix_gateway_prefetch_hints ix)"

lemma location_ok_iff:
  "location_ok pages vb l \<longleftrightarrow> loc_page_id l < pages \<and> 4 dvd unat (loc_page_offset l)
     \<and> unat (loc_page_offset l) + unat vb \<le> 4096"
proof -
  have m: "loc_page_offset l mod 4 = 0 \<longleftrightarrow> 4 dvd unat (loc_page_offset l)"
    by (simp add: word_unat_eq_iff unat_mod mod_eq_0_iff_dvd)
  have "vb > ucast (k_io_vector_page_size - loc_page_offset l) \<longleftrightarrow> unat vb > 4096 - unat (loc_page_offset l)"
    if "loc_page_offset l \<le> k_io_vector_page_size"
    using that by (simp add: word_less_nat_alt unat_sub k_io_vector_page_size_def)
  moreover have "loc_page_offset l > k_io_vector_page_size \<longleftrightarrow> unat (loc_page_offset l) > 4096"
    by (simp add: word_less_nat_alt k_io_vector_page_size_def)
  ultimately show ?thesis using m
    by (cases "loc_page_offset l \<le> k_io_vector_page_size") (auto simp: location_ok_def not_le not_less)
qed

lemma load_ranges_Inr:
  assumes "load_ranges h bs = Inr rs"
  shows "length rs = unat (h_cell_count h)
    \<and> (\<exists>q. covers_pages 0 rs q \<and> q \<le> unat (h_vector_page_count h)
       \<and> (cell_layout (h_layout h) \<longrightarrow> q = unat (h_vector_page_count h) \<and> covered rs = unat (h_point_count h)))"
proof -
  from assms obtain q cov where r: "read_ranges h (unat (h_cell_count h)) bs 0 0 0 = Inr (rs, q, cov)"
    "cell_layout (h_layout h) \<longrightarrow> q = h_vector_page_count h \<and> cov = h_point_count h"
    by (auto simp: load_ranges_def bindE_eq_Inr)
  note i = read_ranges_Inr [OF r(1)]
  have "unat q \<le> unat (h_vector_page_count h)"
  proof (cases "rs = []")
    case False
    let ?r = "last rs"
    have "unat q = unat (rg_first_page ?r) + unat (rg_page_count ?r)"
    proof -
      have "covers_pages p rs' q' \<Longrightarrow> rs' \<noteq> [] \<Longrightarrow>
          q' = unat (rg_first_page (last rs')) + unat (rg_page_count (last rs'))" for p rs' q'
        by (induction p rs' q' rule: covers_pages.induct) auto
      with i False show ?thesis by blast
    qed
    moreover have "range_ok (h_layout h) (h_vector_page_count h) (rg_first_page ?r) ?r" using i False by simp
    then have lt: "rg_first_page ?r < h_vector_page_count h"
      and le: "ucast (rg_page_count ?r) \<le> h_vector_page_count h - rg_first_page ?r"
      by (auto simp: range_ok_def not_le not_less)
    have "unat (rg_page_count ?r) \<le> unat (h_vector_page_count h) - unat (rg_first_page ?r)"
      using le unat_sub [OF less_imp_le [OF lt]] by (simp add: word_le_nat_alt)
    ultimately show ?thesis using lt by (simp add: word_less_nat_alt)
  qed (use i in simp)
  with i r(2) show ?thesis by auto
qed

lemma unat_add_ranges:
  "unat a + unat (b :: u32) < 2 ^ 64 \<Longrightarrow> unat (a + ucast b :: u64) = unat a + unat b"
  using unat_add_lem [of a "ucast b :: u64"] by simp

lemma hint_ok_consistent:
  assumes g: "hint_ok (h_point_count h) (h_cell_count h) (h_vector_page_count h) locations rs g"
    and l: "length locations = unat (h_point_count h)" and r: "length rs = unat (h_cell_count h)"
    and c: "covers_pages 0 rs q" "q \<le> unat (h_vector_page_count h)"
    and ix: "ix_vector_locations ix = locations" "ix_cell_page_ranges ix = rs"
  shows "hint_consistent ix g"
proof -
  let ?r = "rs ! unat (gh_landing_cell g)"
  have t: "unat (gh_target_node g) < length locations" and lc: "unat (gh_landing_cell g) < length rs"
    using g l r by (auto simp: hint_ok_def not_le word_less_nat_alt)
  have "unat (rg_first_page ?r) + unat (rg_page_count ?r) \<le> q"
    using covers_pages_nth [OF c(1) lc] .
  moreover have "unat (h_vector_page_count h) < 2 ^ 64" by simp
  ultimately have "unat (rg_first_page ?r) + unat (rg_page_count ?r) < 2 ^ 64"
    using c(2) by linarith
  then have "unat (rg_first_page ?r + ucast (rg_page_count ?r)) = unat (rg_first_page ?r) + unat (rg_page_count ?r)"
    by (rule unat_add_ranges)
  then show ?thesis using g t lc ix
    by (auto simp: hint_consistent_def hint_ok_def Let_def not_le not_less word_less_nat_alt word_le_nat_alt)
qed

lemma fill_index_ok:
  assumes "fill_index pfor False h s file_size = Inr ix"
  shows "index_ok ix"
proof -
  from assms obtain offsets adjacency vector_bytes locations ranges pages hints where
    a: "load_adjacency pfor False h s = Inr (offsets, adjacency)" and vb: "vector_bytes_of h = Inr vector_bytes"
    and l: "read_checked read_location (location_ok (h_vector_page_count h) vector_bytes)
            (unat (h_point_count h)) (sec_directory s) 0 = Inr locations"
    and r: "load_ranges h (sec_cell_directory s) = Inr ranges"
    and p: "read_checked (read_little 8) (prefetch_page_ok (h_vector_page_count h))
            (unat (h_point_count h)) (sec_prefetch s) 0 = Inr pages"
    and g: "read_checked read_hint (hint_ok (h_point_count h) (h_cell_count h) (h_vector_page_count h) locations ranges) (unat (h_gateway_count h)) (sec_gateway s) 0 = Inr hints"
    and ix: "ix_point_count ix = h_point_count h" "ix_dimension ix = h_dimension h"
      "ix_max_degree ix = h_max_degree h" "ix_edge_count ix = h_edge_count h"
      "ix_vector_page_count ix = h_vector_page_count h" "ix_vector_layout ix = h_layout h"
      "ix_neighbor_offsets ix = offsets" "ix_adjacency ix = adjacency" "ix_vector_locations ix = locations"
      "ix_cell_page_ranges ix = ranges" "ix_node_prefetch_pages ix = pages" "ix_gateway_prefetch_hints ix = hints"
    unfolding fill_index_iff by auto
  note ad = load_adjacency_ok [OF a] and lr = load_ranges_Inr [OF r] and lc = read_checked_Inr [OF l]
    and pc = read_checked_Inr [OF p] and gc = read_checked_Inr [OF g]
  obtain q where q: "covers_pages 0 ranges q" "q \<le> unat (h_vector_page_count h)"
    "cell_layout (h_layout h) \<longrightarrow> q = unat (h_vector_page_count h) \<and> covered ranges = unat (h_point_count h)"
    using lr by blast
  have sv: "unat vector_bytes = stored_vector_bytes ix"
    using vb by (auto simp: vector_bytes_of_def stored_vector_bytes_def ix checked_multiply_iff split: if_splits)
  have "list_all (location_in_page ix) locations"
    using lc by (simp add: list_all_iff location_in_page_def location_ok_iff ix sv)
  moreover have "list_all (\<lambda>p. p = k_no_io_prefetch_page \<or> p < h_vector_page_count h) pages"
    using pc by (auto simp: list_all_iff prefetch_page_ok_def not_le)
  moreover have "list_all (hint_consistent ix) hints"
    using gc hint_ok_consistent [OF _ _ _ q(1,2) ix(9,10)] lc lr by (auto simp: list_all_iff)
  ultimately show ?thesis unfolding index_ok_def ix using ad lc pc q by auto
qed

subsection \<open>The header depends on its own bytes only\<close>

lemma take_drop_take: "c + n \<le> m \<Longrightarrow> take n (drop c (take m bs)) = take n (drop c bs)"
  by (simp add: drop_take)

lemma read_little_prefix:
  assumes "320 \<le> length bs" "c + n \<le> 320"
  shows "\<exists>v. read_little n bs c = Inr (v, c + n) \<and> read_little n (take 320 bs) c = Inr (v, c + n)"
proof -
  have "\<not> length bs - c < n" "\<not> 320 - c < n" using assms by auto
  with assms show ?thesis by (simp add: read_little_def take_drop_take)
qed

lemma read_many_prefix:
  assumes "320 \<le> length bs" "c + k * n \<le> 320"
  shows "\<exists>vs :: 'w::len word list. read_many (read_little k) n bs c = Inr (vs, c + k * n)
    \<and> read_many (read_little k) n (take 320 bs) c = Inr (vs, c + k * n)"
  using assms(2)
proof (induction n arbitrary: c)
  case (Suc n)
  have "c + k \<le> 320" "c + k + k * n \<le> 320" using Suc.prems by auto
  with Suc.IH [of "c + k"] read_little_prefix [OF assms(1), of c k, where 'a = 'w] show ?case
    by (auto simp: add.assoc)
qed simp

lemma parse_header_prefix:
  assumes "320 \<le> length bs"
  shows "parse_header (take 320 bs) = parse_header bs"
proof -
  obtain pd :: "u64 list" where pd: "read_many (read_little 8) 2 bs 24 = Inr (pd, 40)"
    "read_many (read_little 8) 2 (take 320 bs) 24 = Inr (pd, 40)"
    using read_many_prefix [OF assms, of 24 8 2, where 'w = 64] by auto
  obtain mel :: "u32 list" where mel: "read_many (read_little 4) 3 bs 40 = Inr (mel, 52)"
    "read_many (read_little 4) 3 (take 320 bs) 40 = Inr (mel, 52)"
    using read_many_prefix [OF assms, of 40 4 3, where 'w = 32] by auto
  obtain ws :: "u64 list" where ws: "read_many (read_little 8) 22 bs 52 = Inr (ws, 228)"
    "read_many (read_little 8) 22 (take 320 bs) 52 = Inr (ws, 228)"
    using read_many_prefix [OF assms, of 52 8 22, where 'w = 64] by auto
  obtain gs :: "u64 list" where gs: "read_many (read_little 8) 6 bs 228 = Inr (gs, 276)"
    "read_many (read_little 8) 6 (take 320 bs) 228 = Inr (gs, 276)"
    using read_many_prefix [OF assms, of 228 8 6, where 'w = 64] by auto
  obtain m :: u64 where m: "read_little 8 bs 0 = Inr (m, 8)" "read_little 8 (take 320 bs) 0 = Inr (m, 8)"
    using read_little_prefix [OF assms, of 0 8, where 'a = 64] by auto
  obtain v :: u32 where v: "read_little 4 bs 8 = Inr (v, 12)" "read_little 4 (take 320 bs) 8 = Inr (v, 12)"
    using read_little_prefix [OF assms, of 8 4, where 'a = 32] by auto
  obtain mk :: u32 where mk: "read_little 4 bs 12 = Inr (mk, 16)" "read_little 4 (take 320 bs) 12 = Inr (mk, 16)"
    using read_little_prefix [OF assms, of 12 4, where 'a = 32] by auto
  obtain hb :: u32 where hb: "read_little 4 bs 16 = Inr (hb, 20)" "read_little 4 (take 320 bs) 16 = Inr (hb, 20)"
    using read_little_prefix [OF assms, of 16 4, where 'a = 32] by auto
  obtain ps :: u32 where ps: "read_little 4 bs 20 = Inr (ps, 24)" "read_little 4 (take 320 bs) 20 = Inr (ps, 24)"
    using read_little_prefix [OF assms, of 20 4, where 'a = 32] by auto
  let ?hb = "if v = k_topology_version_v4 then k_topology_v4_header_bytes else k_topology_header_bytes"
  have len: "unat k_topology_v4_header_bytes \<le> length bs" "length (take 320 bs) = 320"
    "unat k_topology_v4_header_bytes \<le> 320"
    using assms by (simp_all add: k_topology_v4_header_bytes_def)
  note reads = m v mk hb ps pd mel ws gs len
  show ?thesis
  proof (cases "hb = ?hb")
    case True
    then have le: "unat hb \<le> 320" by (simp add: topology_consts)
    then have "take (unat hb) (take 320 bs) = take (unat hb) bs" "unat hb \<le> length bs"
      using assms by (simp_all add: min_def)
    with True le show ?thesis by (simp add: parse_header_def reads del: take_take)
  next
    case False
    then show ?thesis by (simp add: parse_header_def reads guardE_def)
  qed
qed

subsection \<open>The sections lie in the file\<close>

definition in_file :: "u8 list \<Rightarrow> u64 \<Rightarrow> u64 \<Rightarrow> bool" where
  "in_file bytes offset sz \<longleftrightarrow> unat offset + unat sz \<le> length bytes"

definition sections_in_file :: "topology_header_t \<Rightarrow> u8 list \<Rightarrow> bool" where
  "sections_in_file h bytes \<longleftrightarrow>
     in_file bytes (h_offsets_offset h) (h_offsets_bytes h)
     \<and> in_file bytes (h_adjacency_offset h) (h_adjacency_bytes h)
     \<and> in_file bytes (h_directory_offset h) (h_directory_bytes h)
     \<and> in_file bytes (h_cell_directory_offset h) (h_cell_directory_bytes h)
     \<and> in_file bytes (h_prefetch_directory_offset h) (h_prefetch_directory_bytes h)
     \<and> (h_version h \<ge> k_topology_version_v5 \<longrightarrow>
          in_file bytes (h_gateway_directory_offset h) (h_gateway_directory_bytes h))"

lemma layout_in_file:
  assumes "sections_layout h (length bytes)"
  shows "sections_in_file h bytes"
proof -
  note l = assms [unfolded sections_layout_def]
  have "k_topology_version_v5 \<le> h_version h \<Longrightarrow> h_version h \<noteq> k_topology_version_v4"
    by (auto simp: topology_consts)
  with l show ?thesis by (auto simp: sections_in_file_def in_file_def)
qed

lemma section_of_range:
  "in_file bytes offset sz \<Longrightarrow> read_file_range (Some bytes) offset sz = Inr (section_of bytes offset sz)"
  by (auto simp: read_file_range_def section_of_def in_file_def Let_def)

lemma length_section_of: "in_file bytes offset sz \<Longrightarrow> length (section_of bytes offset sz) = unat sz"
  by (simp add: section_of_def in_file_def)

lemma paged_sections_resident:
  assumes "sections_in_file h bytes"
  shows "paged_sections h (Some bytes) = Inr ((resident_sections h bytes)\<lparr>sec_adjacency := []\<rparr>)"
  using assms by (auto simp: paged_sections_def resident_sections_def sections_in_file_def section_of_range not_le)

subsection \<open>Paged and resident loading\<close>

lemma load_adjacency_raw:
  assumes raw: "h_encoding h = RAW_U32" and len: "length (sec_adjacency s) = unat (h_edge_count h) * 4"
  shows "load_adjacency pfor False h s = Inr (offsets, adjacency) \<longleftrightarrow>
    load_adjacency pfor True h (s\<lparr>sec_adjacency := x\<rparr>) = Inr (offsets, [])
    \<and> adjacency = buffer_targets (sec_adjacency s)
    \<and> list_all (\<lambda>t. ucast t < h_point_count h) (buffer_targets (sec_adjacency s))"
proof -
  have "length (sec_adjacency s) = 4 * unat (h_edge_count h)" using len by simp
  from read_buffer_targets(2) [OF this, of 0 "[]"]
  have r: "read_many (read_little 4) (unat (h_edge_count h)) (sec_adjacency s) 0
      = Inr (buffer_targets (sec_adjacency s), 4 * unat (h_edge_count h))" by simp
  show ?thesis unfolding load_adjacency_def using raw
    by (auto simp: bindE_eq_Inr read_checked_all r)
qed

lemma load_adjacency_paged:
  "h_encoding h = RAW_U32 \<Longrightarrow> load_adjacency pfor True h s = Inr (offsets, adjacency) \<Longrightarrow> adjacency = []"
  by (auto simp: load_adjacency_def bindE_eq_Inr)

definition paged_view :: "topology_header_t \<Rightarrow> io_optimized_index_t \<Rightarrow> io_optimized_index_t" where
  "paged_view h ix = ix\<lparr>ix_adjacency := [], ix_paged_topology := True,
     ix_adjacency_file_offset := h_adjacency_offset h\<rparr>"

lemma fill_index_paged:
  assumes raw: "h_encoding h = RAW_U32" and len: "length (sec_adjacency s) = unat (h_edge_count h) * 4"
  shows "fill_index pfor True h (s\<lparr>sec_adjacency := []\<rparr>) n = Inr px
      \<and> list_all (\<lambda>t. ucast t < h_point_count h) (buffer_targets (sec_adjacency s))
    \<longleftrightarrow> (\<exists>ix. fill_index pfor False h s n = Inr ix \<and> px = paged_view h ix)"
proof
  assume "\<exists>ix. fill_index pfor False h s n = Inr ix \<and> px = paged_view h ix"
  then show "fill_index pfor True h (s\<lparr>sec_adjacency := []\<rparr>) n = Inr px
      \<and> list_all (\<lambda>t. ucast t < h_point_count h) (buffer_targets (sec_adjacency s))"
    unfolding fill_index_iff load_adjacency_raw [OF raw len, of _ _ _ "[]"]
    by (auto simp: paged_view_def)
next
  assume "fill_index pfor True h (s\<lparr>sec_adjacency := []\<rparr>) n = Inr px
      \<and> list_all (\<lambda>t. ucast t < h_point_count h) (buffer_targets (sec_adjacency s))"
  then show "\<exists>ix. fill_index pfor False h s n = Inr ix \<and> px = paged_view h ix"
    unfolding fill_index_iff load_adjacency_raw [OF raw len, of _ _ _ "[]"]
    using load_adjacency_paged [OF raw] by (fastforce simp: paged_view_def)
qed

end
