(* ===== verification/IO_Write.thy ===== *)
theory IO_Write
  imports IO_Guarantees
begin

text \<open>
  The part of \<open>io_optimized_index_t::build\<close> (src/index/io_optimized_index.cc) that encodes the
  adjacency, serialises the sections, fills the header and writes the topology file, and the
  properties of files that were written and loaded.
\<close>

subsection \<open>Writing the topology file\<close>

text \<open>What \<open>build\<close> has computed when it starts writing.\<close>

record io_build_t =
  bd_point_count :: u64
  bd_dimension :: u64
  bd_max_degree :: u32
  bd_encoding :: io_adjacency_encoding_t
  bd_layout :: io_vector_layout_t
  bd_offsets :: "u64 list"
  bd_adjacency :: "u32 list"
  bd_locations :: "io_vector_location_t list"
  bd_vector_page_count :: u64
  bd_cell_ranges :: "io_cell_page_range_t list"
  bd_prefetch_pages :: "u64 list"
  bd_gateway_hints :: "io_gateway_prefetch_hint_t list"
  bd_base :: fingerprint_t
  bd_vector_checksum :: u64
  bd_community_polar :: fingerprint_t

definition encode_adjacency ::
  "pfor_codec option \<Rightarrow> io_adjacency_encoding_t \<Rightarrow> u64 list \<Rightarrow> u32 list \<Rightarrow> exn + (u64 list \<times> u8 list)" where
  "encode_adjacency pfor encoding offsets adjacency =
     (if encoding = RAW_U32 then Inr (offsets, serialize_u32 adjacency)
      else case pfor of
          None \<Rightarrow> Inl Runtime_error
        | Some codec \<Rightarrow> Inr (compress_adjacency codec offsets adjacency))"

record payload_t =
  pl_offsets :: "u8 list"
  pl_adjacency :: "u8 list"
  pl_directory :: "u8 list"
  pl_cell_directory :: "u8 list"
  pl_prefetch :: "u8 list"
  pl_gateway :: "u8 list"

definition payload_of :: "io_build_t \<Rightarrow> u64 list \<Rightarrow> u8 list \<Rightarrow> payload_t" where
  "payload_of b stored_offsets adjacency_bytes =
     \<lparr>pl_offsets = serialize_u64 stored_offsets, pl_adjacency = adjacency_bytes,
      pl_directory = serialize_locations (bd_locations b),
      pl_cell_directory = serialize_cell_ranges (bd_cell_ranges b),
      pl_prefetch = serialize_u64 (bd_prefetch_pages b),
      pl_gateway = serialize_gateway_hints (bd_gateway_hints b)\<rparr>"

definition build_header :: "io_build_t \<Rightarrow> payload_t \<Rightarrow> exn + topology_header_t" where
  "build_header b p =
     bindE (checked_multiply (bd_vector_page_count b) (ucast k_io_vector_page_size)) (\<lambda>vector_file_size.
     let offsets_offset = ucast k_topology_header_bytes; offsets_bytes = of_nat (length (pl_offsets p)) in
     bindE (checked_add offsets_offset offsets_bytes) (\<lambda>adjacency_offset.
     let adjacency_bytes = of_nat (length (pl_adjacency p)) in
     bindE (checked_add adjacency_offset adjacency_bytes) (\<lambda>directory_offset.
     let directory_bytes = of_nat (length (pl_directory p)) in
     bindE (checked_add directory_offset directory_bytes) (\<lambda>cell_directory_offset.
     let cell_directory_bytes = of_nat (length (pl_cell_directory p)) in
     bindE (checked_add cell_directory_offset cell_directory_bytes) (\<lambda>prefetch_directory_offset.
     let prefetch_directory_bytes = of_nat (length (pl_prefetch p)) in
     bindE (checked_add prefetch_directory_offset prefetch_directory_bytes) (\<lambda>gateway_directory_offset.
       Inr \<lparr>h_version = (if bd_layout b = CELL_U8_4K then k_topology_version else k_topology_version_v5),
            h_header_bytes = k_topology_header_bytes,
            h_point_count = bd_point_count b, h_dimension = bd_dimension b,
            h_max_degree = bd_max_degree b, h_encoding = bd_encoding b, h_layout = bd_layout b,
            h_edge_count = of_nat (length (bd_adjacency b)),
            h_vector_page_count = bd_vector_page_count b,
            h_cell_count = of_nat (length (bd_cell_ranges b)), h_base = bd_base b,
            h_vectors = \<lparr>fp_size = vector_file_size, fp_checksum = bd_vector_checksum b\<rparr>,
            h_offsets_offset = offsets_offset, h_offsets_bytes = offsets_bytes,
            h_offsets_checksum = checksum_bytes (pl_offsets p),
            h_adjacency_offset = adjacency_offset, h_adjacency_bytes = adjacency_bytes,
            h_adjacency_checksum = checksum_bytes (pl_adjacency p),
            h_directory_offset = directory_offset, h_directory_bytes = directory_bytes,
            h_directory_checksum = checksum_bytes (pl_directory p),
            h_cell_directory_offset = cell_directory_offset,
            h_cell_directory_bytes = cell_directory_bytes,
            h_cell_directory_checksum = checksum_bytes (pl_cell_directory p),
            h_prefetch_directory_offset = prefetch_directory_offset,
            h_prefetch_directory_bytes = prefetch_directory_bytes,
            h_prefetch_directory_checksum = checksum_bytes (pl_prefetch p),
            h_community_polar = bd_community_polar b,
            h_gateway_count = of_nat (length (bd_gateway_hints b)),
            h_gateway_directory_offset = gateway_directory_offset,
            h_gateway_directory_bytes = of_nat (length (pl_gateway p)),
            h_gateway_directory_checksum = checksum_bytes (pl_gateway p)\<rparr>))))))"

definition payload_bytes :: "payload_t \<Rightarrow> u8 list" where
  "payload_bytes p = pl_offsets p @ pl_adjacency p @ pl_directory p @ pl_cell_directory p
     @ pl_prefetch p @ pl_gateway p"

definition write_topology :: "pfor_codec option \<Rightarrow> io_build_t \<Rightarrow> exn + u8 list" where
  "write_topology pfor b =
     bindE (encode_adjacency pfor (bd_encoding b) (bd_offsets b) (bd_adjacency b))
       (\<lambda>(stored_offsets, adjacency_bytes).
     let p = payload_of b stored_offsets adjacency_bytes in
     bindE (build_header b p) (\<lambda>header.
     bindE (checked_add (h_gateway_directory_offset header) (h_gateway_directory_bytes header)) (\<lambda>_.
       Inr (serialize_header header @ payload_bytes p))))"

text \<open>The index that the written file stands for.\<close>

definition built_index :: "io_build_t \<Rightarrow> nat \<Rightarrow> io_optimized_index_t" where
  "built_index b file_bytes =
     \<lparr>ix_point_count = bd_point_count b, ix_dimension = bd_dimension b,
      ix_max_degree = bd_max_degree b, ix_edge_count = of_nat (length (bd_adjacency b)),
      ix_vector_page_count = bd_vector_page_count b, ix_vector_layout = bd_layout b,
      ix_topology_bytes = of_nat file_bytes, ix_vector_bytes = bd_vector_page_count b * 4096,
      ix_neighbor_offsets = bd_offsets b, ix_adjacency = bd_adjacency b,
      ix_vector_locations = bd_locations b, ix_cell_page_ranges = bd_cell_ranges b,
      ix_node_prefetch_pages = bd_prefetch_pages b,
      ix_community_polar_fingerprint = bd_community_polar b,
      ix_gateway_prefetch_hints = bd_gateway_hints b, ix_paged_topology = False,
      ix_adjacency_file_offset = 0\<rparr>"

text \<open>What \<open>build\<close> establishes before it writes: \<open>nodes\<close> are the neighbour lists.\<close>

definition build_ok :: "io_build_t \<Rightarrow> u32 list list \<Rightarrow> bool" where
  "build_ok b nodes \<longleftrightarrow>
     bd_point_count b \<noteq> 0 \<and> bd_dimension b \<noteq> 0 \<and> unat (bd_dimension b) * 4 < 2 ^ 64
     \<and> (bd_encoding b = RAW_U32 \<or> bd_encoding b = PFOR_DELTA)
     \<and> (if bd_layout b = ORIGINAL_ID then bd_cell_ranges b = []
        else cell_layout (bd_layout b) \<and> bd_cell_ranges b \<noteq> []
          \<and> covers_pages 0 (bd_cell_ranges b) (unat (bd_vector_page_count b))
          \<and> covered (bd_cell_ranges b) = unat (bd_point_count b))
     \<and> list_all (\<lambda>r. range_ok (bd_layout b) (bd_vector_page_count b) (rg_first_page r) r) (bd_cell_ranges b)
     \<and> length nodes = unat (bd_point_count b) \<and> bd_offsets b = edge_offsets_of nodes
     \<and> bd_adjacency b = concat nodes \<and> length (bd_adjacency b) * 4 < 2 ^ 64
     \<and> list_all (\<lambda>nbrs. length nbrs \<le> unat (bd_max_degree b)) nodes
     \<and> list_all (\<lambda>t. ucast t < bd_point_count b) (bd_adjacency b)
     \<and> length (bd_locations b) = unat (bd_point_count b)
     \<and> list_all (location_ok (bd_vector_page_count b)
          (if bd_layout b = CELL_U8_4K then bd_dimension b else bd_dimension b * 4)) (bd_locations b)
     \<and> length (bd_prefetch_pages b) = unat (bd_point_count b)
     \<and> list_all (prefetch_page_ok (bd_vector_page_count b)) (bd_prefetch_pages b)
     \<and> (bd_gateway_hints b \<noteq> [] \<longrightarrow> bd_cell_ranges b \<noteq> [] \<and> fp_size (bd_community_polar b) \<noteq> 0)
     \<and> list_all (hint_ok (bd_point_count b) (of_nat (length (bd_cell_ranges b))) (bd_vector_page_count b)
          (bd_locations b) (bd_cell_ranges b)) (bd_gateway_hints b)"

subsection \<open>Reading back what was written\<close>

lemma section_of_append:
  "unat offset = length pre \<Longrightarrow> unat sz = length x \<Longrightarrow> section_of (pre @ x @ post) offset sz = x"
  by (simp add: section_of_def)

lemma length_serialize_u64: "length (serialize_u64 ns) = 8 * length ns"
  by (simp add: serialize_u64_def)

lemma length_serialize_u32: "length (serialize_u32 ns) = 4 * length ns"
  by (simp add: serialize_u32_def)

lemma length_serialize_locations: "length (serialize_locations ls) = 12 * length ls"
  by (induction ls) (simp_all add: serialize_locations_def enc_location_def)

lemma length_serialize_cell_ranges: "length (serialize_cell_ranges rs) = 20 * length rs"
  by (induction rs) (simp_all add: serialize_cell_ranges_def enc_range_def)

lemma length_serialize_gateway_hints: "length (serialize_gateway_hints gs) = 64 * length gs"
  by (induction gs) (simp_all add: serialize_gateway_hints_def enc_hint_def)

lemmas length_sections = length_serialize_u64 length_serialize_u32 length_serialize_locations
  length_serialize_cell_ranges length_serialize_gateway_hints

lemma length_serialize_header: "length (serialize_header h) = 320"
  by (simp add: serialize_header_def resize_def length_header_fields k_topology_header_bytes_def)

lemma edge_offsets_length [simp]: "length (edge_offsets_of nodes) = length nodes + 1"
  by (simp add: edge_offsets_of_def)

lemma edge_offsets_valid:
  assumes "list_all (\<lambda>nbrs. length nbrs \<le> unat max_degree) nodes" "length (concat nodes) < 2 ^ 64"
  shows "offsets_valid (edge_offsets_of nodes) max_degree"
    "hd (edge_offsets_of nodes) = 0" "last (edge_offsets_of nodes) = of_nat (length (concat nodes))"
proof -
  have e: "unat (edge_offsets_of nodes ! Suc k) = unat (edge_offsets_of nodes ! k) + length (nodes ! k)"
    if "k < length nodes" for k
    using assms(2) that by (simp add: edge_offsets_nth take_Suc_conv_app_nth)
  have "\<not> (edge_offsets_of nodes ! k > edge_offsets_of nodes ! Suc k
      \<or> edge_offsets_of nodes ! Suc k - edge_offsets_of nodes ! k > ucast max_degree)" if k: "k < length nodes" for k
  proof -
    have le: "edge_offsets_of nodes ! k \<le> edge_offsets_of nodes ! Suc k"
      using e [OF k] by (simp add: word_le_nat_alt)
    have "unat (edge_offsets_of nodes ! Suc k - edge_offsets_of nodes ! k) = length (nodes ! k)"
      by (simp add: unat_sub [OF le] e [OF k])
    then have "edge_offsets_of nodes ! Suc k - edge_offsets_of nodes ! k \<le> ucast max_degree"
      using assms(1) k by (simp add: word_le_nat_alt list_all_length)
    with le show ?thesis by (simp add: not_less)
  qed
  then show "offsets_valid (edge_offsets_of nodes) max_degree"
    by (auto simp: offsets_valid_def list_all_iff set_zip nth_tl)
  show "hd (edge_offsets_of nodes) = 0" by (simp add: edge_offsets_of_def upt_conv_Cons del: upt_Suc)
  show "last (edge_offsets_of nodes) = of_nat (length (concat nodes))"
    by (simp add: edge_offsets_of_def last_map)
qed

lemma read_ranges_enc:
  assumes "\<And>r. r \<in> set rs \<Longrightarrow> range_ok (h_layout h) (h_vector_page_count h) (rg_first_page r) r"
    "covers_pages (unat p) rs (unat q)" "c \<le> length bs" "drop c bs = concat (map enc_range rs) @ rest"
    "unat cov' = unat cov + covered rs"
  shows "read_ranges h (length rs) bs c p cov = Inr (rs, q, cov')"
  using assms
proof (induction rs arbitrary: c p cov)
  case Nil
  then show ?case by (simp add: covered_def word_unat_eq_iff)
next
  case (Cons r rs)
  have d: "drop c bs = enc_range r @ (concat (map enc_range rs) @ rest)" using Cons.prems(4) by simp
  note st = dec_step [OF range_codec.field_codec_axioms Cons.prems(3) d]
  have fp: "rg_first_page r = p" using Cons.prems(2) by (simp add: word_unat_eq_iff)
  have cp: "covers_pages (unat p + unat (rg_page_count r)) rs (unat q)" using Cons.prems(2) by simp
  have mono: "covers_pages a rs' b \<Longrightarrow> a \<le> b" for a b rs'
    by (induction a rs' b rule: covers_pages.induct) auto
  have "unat q < 2 ^ 64" "unat cov' < 2 ^ 64" by simp_all
  with mono [OF cp] have "unat p + unat (rg_page_count r) < 2 ^ 64" by linarith
  then obtain p1 :: u64 where p1: "unat p1 = unat p + unat (rg_page_count r)" using unat_of_nat_u64 by blast
  have "unat cov + unat (rg_node_count r) < 2 ^ 64"
    using Cons.prems(5) \<open>unat cov' < 2 ^ 64\<close> by (simp add: covered_def)
  then obtain cov1 :: u64 where c1: "unat cov1 = unat cov + unat (rg_node_count r)" using unat_of_nat_u64 by blast
  have "read_ranges h (length rs) bs (c + length (enc_range r)) p1 cov1 = Inr (rs, q, cov')"
    by (rule Cons.IH) (use Cons.prems cp p1 c1 st in \<open>auto simp: covered_def\<close>)
  moreover have "checked_add p (ucast (rg_page_count r)) = Inr p1" "checked_add cov (ucast (rg_node_count r)) = Inr cov1"
    by (simp_all add: checked_add_iff p1 c1)
  ultimately show ?case using st Cons.prems(1) [of r] by (simp add: fp guardE_def)
qed

lemma write_topology_layout:
  assumes w: "write_topology pfor b = Inr bytes" and small: "length bytes < 2 ^ 64"
  shows "\<exists>so ab p h. encode_adjacency pfor (bd_encoding b) (bd_offsets b) (bd_adjacency b) = Inr (so, ab)
    \<and> p = payload_of b so ab \<and> build_header b p = Inr h \<and> bytes = serialize_header h @ payload_bytes p
    \<and> unat (fp_size (h_vectors h)) = unat (bd_vector_page_count b) * 4096
    \<and> unat (h_offsets_offset h) = 320 \<and> unat (h_offsets_bytes h) = length (pl_offsets p)
    \<and> unat (h_adjacency_offset h) = 320 + length (pl_offsets p)
    \<and> unat (h_adjacency_bytes h) = length (pl_adjacency p)
    \<and> unat (h_directory_offset h) = 320 + length (pl_offsets p) + length (pl_adjacency p)
    \<and> unat (h_directory_bytes h) = length (pl_directory p)
    \<and> unat (h_cell_directory_offset h) = 320 + length (pl_offsets p) + length (pl_adjacency p) + length (pl_directory p)
    \<and> unat (h_cell_directory_bytes h) = length (pl_cell_directory p)
    \<and> unat (h_prefetch_directory_offset h) = 320 + length (pl_offsets p) + length (pl_adjacency p)
         + length (pl_directory p) + length (pl_cell_directory p)
    \<and> unat (h_prefetch_directory_bytes h) = length (pl_prefetch p)
    \<and> unat (h_gateway_directory_offset h) = 320 + length (pl_offsets p) + length (pl_adjacency p)
         + length (pl_directory p) + length (pl_cell_directory p) + length (pl_prefetch p)
    \<and> unat (h_gateway_directory_bytes h) = length (pl_gateway p)
    \<and> length bytes = 320 + length (pl_offsets p) + length (pl_adjacency p)
         + length (pl_directory p) + length (pl_cell_directory p) + length (pl_prefetch p) + length (pl_gateway p)"
proof -
  from w obtain so ab p h where e: "encode_adjacency pfor (bd_encoding b) (bd_offsets b) (bd_adjacency b) = Inr (so, ab)"
    "p = payload_of b so ab" "build_header b p = Inr h" "bytes = serialize_header h @ payload_bytes p"
    by (auto simp: write_topology_def bindE_eq_Inr Let_def)
  have len: "length bytes = 320 + length (pl_offsets p) + length (pl_adjacency p)
         + length (pl_directory p) + length (pl_cell_directory p) + length (pl_prefetch p) + length (pl_gateway p)"
    by (simp add: e(4) length_serialize_header payload_bytes_def)
  have u: "unat (of_nat (length (pl_offsets p)) :: u64) = length (pl_offsets p)"
    "unat (of_nat (length (pl_adjacency p)) :: u64) = length (pl_adjacency p)"
    "unat (of_nat (length (pl_directory p)) :: u64) = length (pl_directory p)"
    "unat (of_nat (length (pl_cell_directory p)) :: u64) = length (pl_cell_directory p)"
    "unat (of_nat (length (pl_prefetch p)) :: u64) = length (pl_prefetch p)"
    "unat (of_nat (length (pl_gateway p)) :: u64) = length (pl_gateway p)"
    using len small by simp_all
  have k: "unat (ucast k_topology_header_bytes :: u64) = 320" "unat (ucast k_io_vector_page_size :: u64) = 4096"
    by (simp_all only: unat_ucast_u32) (simp_all add: k_topology_header_bytes_def k_io_vector_page_size_def)
  from e(3) obtain vf ao dof co po go where a:
    "unat vf = unat (bd_vector_page_count b) * 4096" "unat ao = 320 + length (pl_offsets p)"
    "unat dof = unat ao + length (pl_adjacency p)" "unat co = unat dof + length (pl_directory p)"
    "unat po = unat co + length (pl_cell_directory p)" "unat go = unat po + length (pl_prefetch p)"
    and h: "fp_size (h_vectors h) = vf" "h_offsets_offset h = ucast k_topology_header_bytes"
    "h_offsets_bytes h = of_nat (length (pl_offsets p))" "h_adjacency_offset h = ao"
    "h_adjacency_bytes h = of_nat (length (pl_adjacency p))" "h_directory_offset h = dof"
    "h_directory_bytes h = of_nat (length (pl_directory p))" "h_cell_directory_offset h = co"
    "h_cell_directory_bytes h = of_nat (length (pl_cell_directory p))" "h_prefetch_directory_offset h = po"
    "h_prefetch_directory_bytes h = of_nat (length (pl_prefetch p))" "h_gateway_directory_offset h = go"
    "h_gateway_directory_bytes h = of_nat (length (pl_gateway p))"
    unfolding build_header_def bindE_eq_Inr Let_def checked_add_iff checked_multiply_iff u k by auto
  show ?thesis
    by (rule exI [of _ so], rule exI [of _ ab], rule exI [of _ p], rule exI [of _ h])
      (intro conjI; (fact e)?; simp only: h u k a len)
qed

lemma build_header_fields:
  "build_header b p = Inr h \<Longrightarrow>
     h_version h = (if bd_layout b = CELL_U8_4K then k_topology_version else k_topology_version_v5)
     \<and> h_header_bytes h = k_topology_header_bytes \<and> h_point_count h = bd_point_count b
     \<and> h_dimension h = bd_dimension b \<and> h_max_degree h = bd_max_degree b \<and> h_encoding h = bd_encoding b
     \<and> h_layout h = bd_layout b \<and> h_edge_count h = of_nat (length (bd_adjacency b))
     \<and> h_vector_page_count h = bd_vector_page_count b \<and> h_cell_count h = of_nat (length (bd_cell_ranges b))
     \<and> h_base h = bd_base b \<and> fp_checksum (h_vectors h) = bd_vector_checksum b
     \<and> h_community_polar h = bd_community_polar b \<and> h_gateway_count h = of_nat (length (bd_gateway_hints b))
     \<and> h_offsets_checksum h = checksum_bytes (pl_offsets p)
     \<and> h_adjacency_checksum h = checksum_bytes (pl_adjacency p)
     \<and> h_directory_checksum h = checksum_bytes (pl_directory p)
     \<and> h_cell_directory_checksum h = checksum_bytes (pl_cell_directory p)
     \<and> h_prefetch_directory_checksum h = checksum_bytes (pl_prefetch p)
     \<and> h_gateway_directory_checksum h = checksum_bytes (pl_gateway p)"
  unfolding build_header_def bindE_eq_Inr Let_def by auto

definition codec_fits :: "pfor_codec option \<Rightarrow> io_adjacency_encoding_t \<Rightarrow> u32 list list \<Rightarrow> bool" where
  "codec_fits pfor encoding nodes \<longleftrightarrow>
     (encoding \<noteq> RAW_U32 \<longrightarrow> (\<exists>codec. pfor = Some codec \<and> codec_ok codec
        \<and> list_all (\<lambda>nbrs. length nbrs \<le> 256 \<and> length (compressed_words codec nbrs) < 2 ^ 32) nodes))"

lemma build_okD:
  assumes "build_ok b nodes"
  shows "bd_point_count b \<noteq> 0" "bd_dimension b \<noteq> 0" "unat (bd_dimension b) * 4 < 2 ^ 64"
    "bd_encoding b = RAW_U32 \<or> bd_encoding b = PFOR_DELTA"
    "if bd_layout b = ORIGINAL_ID then bd_cell_ranges b = []
        else cell_layout (bd_layout b) \<and> bd_cell_ranges b \<noteq> []
          \<and> covers_pages 0 (bd_cell_ranges b) (unat (bd_vector_page_count b))
          \<and> covered (bd_cell_ranges b) = unat (bd_point_count b)"
    "list_all (\<lambda>r. range_ok (bd_layout b) (bd_vector_page_count b) (rg_first_page r) r) (bd_cell_ranges b)"
    "length nodes = unat (bd_point_count b)" "bd_offsets b = edge_offsets_of nodes"
    "bd_adjacency b = concat nodes" "length (concat nodes) * 4 < 2 ^ 64"
    "list_all (\<lambda>nbrs. length nbrs \<le> unat (bd_max_degree b)) nodes"
    "list_all (\<lambda>t. ucast t < bd_point_count b) (concat nodes)"
    "length (bd_locations b) = unat (bd_point_count b)"
    "list_all (location_ok (bd_vector_page_count b)
          (if bd_layout b = CELL_U8_4K then bd_dimension b else bd_dimension b * 4)) (bd_locations b)"
    "length (bd_prefetch_pages b) = unat (bd_point_count b)"
    "list_all (prefetch_page_ok (bd_vector_page_count b)) (bd_prefetch_pages b)"
    "bd_gateway_hints b \<noteq> [] \<longrightarrow> bd_cell_ranges b \<noteq> [] \<and> fp_size (bd_community_polar b) \<noteq> 0"
    "list_all (hint_ok (bd_point_count b) (of_nat (length (bd_cell_ranges b))) (bd_vector_page_count b)
          (bd_locations b) (bd_cell_ranges b)) (bd_gateway_hints b)"
  using assms unfolding build_ok_def by (elim conjE, simp del: length_concat)+

lemma load_adjacency_written:
  assumes b: "build_ok b nodes" and fits: "codec_fits pfor (bd_encoding b) nodes"
    and e: "encode_adjacency pfor (bd_encoding b) (bd_offsets b) (bd_adjacency b) = Inr (so, ab)"
    and s: "sec_offsets s = serialize_u64 so" "sec_adjacency s = ab"
    and h: "h_point_count h = bd_point_count b" "h_edge_count h = of_nat (length (bd_adjacency b))"
      "h_max_degree h = bd_max_degree b" "h_encoding h = bd_encoding b" "h_adjacency_bytes h = of_nat (length ab)"
    and small: "length ab < 2 ^ 64"
  shows "load_adjacency pfor False h s = Inr (bd_offsets b, bd_adjacency b)" "length so = unat (bd_point_count b) + 1"
proof -
  note n = build_okD(7-9,11,12) [OF b]
  have lt: "length (concat nodes) < 2 ^ 64" using build_okD(10) [OF b] by linarith
  have ec: "unat (h_edge_count h) = length (concat nodes)" using lt by (simp only: h n(3) unat_of_nat_u64)
  note ev = edge_offsets_valid [OF n(4) lt]
  have pc: "length (edge_offsets_of nodes) = unat (bd_point_count b) + 1" using n(1) by simp
  have enc64: "read_checked (read_little 8) (\<lambda>_. True) (length ns) (serialize_u64 ns) 0 = Inr ns" for ns :: "u64 list"
    unfolding serialize_u64_def by (rule read_checked_enc [OF u64_codec.field_codec_axioms]) (simp add: list_all_iff)
  have "load_adjacency pfor False h s = Inr (bd_offsets b, bd_adjacency b) \<and> length so = unat (bd_point_count b) + 1"
  proof (cases "bd_encoding b = RAW_U32")
    case True
    with e have so: "so = edge_offsets_of nodes" "ab = serialize_u32 (concat nodes)"
      by (auto simp: encode_adjacency_def n)
    have "read_checked (read_little 4) (\<lambda>t. ucast t < bd_point_count b) (length (concat nodes)) (serialize_u32 (concat nodes)) 0
        = Inr (concat nodes)"
      unfolding serialize_u32_def by (rule read_checked_enc [OF u32_codec.field_codec_axioms]) (use n(3,5) in simp)
    moreover have "length so = unat (bd_point_count b) + 1" by (simp only: so pc)
    moreover have "read_checked (read_little 8) (\<lambda>_. True) (unat (bd_point_count b) + 1) (serialize_u64 so) 0 = Inr so"
      using enc64 [of so] by (simp only: so pc)
    ultimately show ?thesis
      unfolding load_adjacency_def s h n(2,3)
      by (simp only: so True bindE_simps guardE_def ev if_True if_False split_conv simp_thms unat_of_nat_u64 lt)
  next
    case False
    then obtain codec where c: "pfor = Some codec" "codec_ok codec"
      "list_all (\<lambda>nbrs. length nbrs \<le> 256 \<and> length (compressed_words codec nbrs) < 2 ^ 32) nodes"
      using fits by (auto simp: codec_fits_def)
    with e False have so: "(so, ab) = compress_adjacency codec (edge_offsets_of nodes) (concat nodes)"
      by (auto simp: encode_adjacency_def n)
    then have so': "so = fst (compress_adjacency codec (edge_offsets_of nodes) (concat nodes))"
      "ab = snd (compress_adjacency codec (edge_offsets_of nodes) (concat nodes))"
      by (metis fst_conv, metis snd_conv)
    have d: "decompress_adjacency codec so ab (of_nat (length (concat nodes))) (bd_max_degree b)
        = Inr (concat nodes, edge_offsets_of nodes)"
      unfolding so' by (rule decompress_compress) (use c n lt small so' in \<open>auto simp: list_all_iff\<close>)
    have ne: "edge_offsets_of nodes \<noteq> []" by (metis edge_offsets_length length_0_conv add_is_0 one_neq_zero)
    have "length so = length (edge_offsets_of nodes)" unfolding so' compress_adjacency_def by (rule compress_nodes_length)
    then have ls: "length so = unat (bd_point_count b) + 1" by (simp only: pc)
    then have rs: "read_checked (read_little 8) (\<lambda>_. True) (unat (bd_point_count b) + 1) (serialize_u64 so) 0 = Inr so"
      using enc64 [of so] by (simp only:)
    have t: "\<not> list_ex (\<lambda>t. ucast t \<ge> bd_point_count b) (concat nodes)"
      using n(5) by (auto simp: list_ex_iff list_all_iff not_le)
    have "hd so = 0" "last so = of_nat (length ab)"
      using compress_nodes_prefix [OF ne, of codec "concat nodes" "[]"] compress_nodes_last [OF ne, of codec "concat nodes" "[]"]
      unfolding so' compress_adjacency_def by auto
    with t show ?thesis
      unfolding load_adjacency_def s h n(2,3) rs
      by (simp only: False c(1) ls bindE_simps guardE_def d if_True if_False split_conv option.case simp_thms)
  qed
  then show "load_adjacency pfor False h s = Inr (bd_offsets b, bd_adjacency b)" "length so = unat (bd_point_count b) + 1"
    by auto
qed

lemma length_lt: "length (xs :: 'a list) * k \<le> n \<Longrightarrow> 0 < k \<Longrightarrow> n < 2 ^ 64 \<Longrightarrow> length xs < 2 ^ 64"
  by (metis le_less_trans mult.commute n_less_m_mult_n nat_less_le not_less_iff_gr_or_eq One_nat_def
      linorder_not_le mult_le_mono1 nat_mult_1 Suc_leI)

lemma load_ranges_written:
  assumes b: "build_ok b nodes" and lt: "length (bd_cell_ranges b) < 2 ^ 64"
    and h: "h_point_count h = bd_point_count b" "h_layout h = bd_layout b"
      "h_vector_page_count h = bd_vector_page_count b" "h_cell_count h = of_nat (length (bd_cell_ranges b))"
  shows "load_ranges h (serialize_cell_ranges (bd_cell_ranges b)) = Inr (bd_cell_ranges b)"
proof -
  let ?rs = "bd_cell_ranges b"
  have n: "unat (h_cell_count h) = length ?rs" using lt by (simp add: h)
  have ok: "range_ok (h_layout h) (h_vector_page_count h) (rg_first_page r) r" if "r \<in> set ?rs" for r
    using build_okD(6) [OF b] that by (simp add: h list_all_iff)
  have "read_ranges h (length ?rs) (serialize_cell_ranges ?rs) 0 0 0
     = Inr (?rs, (if ?rs = [] then 0 else bd_vector_page_count b), (if ?rs = [] then 0 else bd_point_count b))"
    unfolding serialize_cell_ranges_def
    by (rule read_ranges_enc [where rest = "[]"])
      (use ok build_okD(5) [OF b] in \<open>auto simp: covered_def split: if_splits\<close>)
  moreover have "cell_layout (bd_layout b) \<Longrightarrow> ?rs \<noteq> []"
    using build_okD(5) [OF b] by (auto simp: cell_layout_def layout_defs split: if_splits)
  ultimately show ?thesis unfolding load_ranges_def n by (auto simp: guardE_def h(1-3))
qed

lemma load_written:
  assumes b: "build_ok b nodes" and fits: "codec_fits pfor (bd_encoding b) nodes"
    and w: "write_topology pfor b = Inr bytes" and small: "length bytes < 2 ^ 64"
    and disk: "fingerprint_file disk = Inr (bd_base b)"
    and vectors: "topology_only \<or> fingerprint_file vectors
      = Inr \<lparr>fp_size = bd_vector_page_count b * 4096, fp_checksum = bd_vector_checksum b\<rparr>"
  shows "load_io_optimized_index pfor disk (Some bytes) vectors topology_only False 0
    = Inr (built_index b (length bytes))" "320 \<le> length bytes"
    "\<exists>h. parse_header bytes = Inr h \<and> h_encoding h = bd_encoding b
       \<and> unat (h_adjacency_offset h) = 320 + 8 * (unat (bd_point_count b) + 1)
       \<and> sections_layout h (length bytes) \<and> h_version h \<ge> k_topology_version_v5"
proof -
  obtain so ab p h where
    e: "encode_adjacency pfor (bd_encoding b) (bd_offsets b) (bd_adjacency b) = Inr (so, ab)"
    and p: "p = payload_of b so ab" and bh: "build_header b p = Inr h" and bt: "bytes = serialize_header h @ payload_bytes p"
    and l: "unat (fp_size (h_vectors h)) = unat (bd_vector_page_count b) * 4096"
      "unat (h_offsets_offset h) = 320" "unat (h_offsets_bytes h) = length (pl_offsets p)"
      "unat (h_adjacency_offset h) = 320 + length (pl_offsets p)"
      "unat (h_adjacency_bytes h) = length (pl_adjacency p)"
      "unat (h_directory_offset h) = 320 + length (pl_offsets p) + length (pl_adjacency p)"
      "unat (h_directory_bytes h) = length (pl_directory p)"
      "unat (h_cell_directory_offset h) = 320 + length (pl_offsets p) + length (pl_adjacency p) + length (pl_directory p)"
      "unat (h_cell_directory_bytes h) = length (pl_cell_directory p)"
      "unat (h_prefetch_directory_offset h) = 320 + length (pl_offsets p) + length (pl_adjacency p)
         + length (pl_directory p) + length (pl_cell_directory p)"
      "unat (h_prefetch_directory_bytes h) = length (pl_prefetch p)"
      "unat (h_gateway_directory_offset h) = 320 + length (pl_offsets p) + length (pl_adjacency p)
         + length (pl_directory p) + length (pl_cell_directory p) + length (pl_prefetch p)"
      "unat (h_gateway_directory_bytes h) = length (pl_gateway p)"
    and len: "length bytes = 320 + length (pl_offsets p) + length (pl_adjacency p)
         + length (pl_directory p) + length (pl_cell_directory p) + length (pl_prefetch p) + length (pl_gateway p)"
    using write_topology_layout [OF w small] by blast
  note f = build_header_fields [OF bh]
  have hv: "h_version h = k_topology_version_v5 \<or> h_version h = k_topology_version" using f by simp
  then have v5: "h_version h \<ge> k_topology_version_v5" "h_version h \<noteq> k_topology_version_v4"
    "\<not> h_version h < k_topology_version_v5"
    by (auto simp: topology_consts)
  have pl: "pl_offsets p = serialize_u64 so" "pl_adjacency p = ab" "pl_directory p = serialize_locations (bd_locations b)"
    "pl_cell_directory p = serialize_cell_ranges (bd_cell_ranges b)" "pl_prefetch p = serialize_u64 (bd_prefetch_pages b)"
    "pl_gateway p = serialize_gateway_hints (bd_gateway_hints b)"
    by (simp_all add: p payload_of_def)
  have lens: "length (bd_cell_ranges b) * 20 < 2 ^ 64" "length (bd_gateway_hints b) * 64 < 2 ^ 64" "length ab < 2 ^ 64"
    using len small unfolding pl length_sections by simp_all
  then have lts: "length (bd_cell_ranges b) < 2 ^ 64" "length (bd_gateway_hints b) < 2 ^ 64" by linarith+
  have edges: "length (bd_adjacency b) < 2 ^ 64" using build_okD(9,10) [OF b] by simp
  have ub: "unat (h_cell_count h) = length (bd_cell_ranges b)" "unat (h_gateway_count h) = length (bd_gateway_hints b)"
    "unat (h_edge_count h) = length (bd_adjacency b)"
    using f lts edges by simp_all
  have "length ab < 2 ^ 64" by (rule lens(3))
  have hab: "h_adjacency_bytes h = of_nat (length ab)"
    using l(5) lens(3) by (simp add: word_unat_eq_iff pl)
  have la: "load_adjacency pfor False h s = Inr (bd_offsets b, bd_adjacency b)" "length so = unat (bd_point_count b) + 1"
    if "sec_offsets s = serialize_u64 so" "sec_adjacency s = ab" for s
    using load_adjacency_written [OF b fits e that _ _ _ _ hab lens(3)] f by auto
  let ?s = "\<lparr>sec_offsets = pl_offsets p, sec_adjacency = pl_adjacency p, sec_directory = pl_directory p,
     sec_cell_directory = pl_cell_directory p, sec_prefetch = pl_prefetch p, sec_gateway = pl_gateway p\<rparr>"
  have lso: "length so = unat (bd_point_count b) + 1" using la(2) [of ?s] by (simp add: pl)
  show "320 \<le> length bytes" using len by simp
  have ph: "parse_header bytes = Inr h"
    unfolding bt by (rule parse_header_serialized [OF hv]) (use f in simp)
  have secs: "resident_sections h bytes = ?s"
    unfolding resident_sections_def bt payload_bytes_def
    using section_of_append [of "h_offsets_offset h" "serialize_header h" "h_offsets_bytes h" "pl_offsets p"
        "pl_adjacency p @ pl_directory p @ pl_cell_directory p @ pl_prefetch p @ pl_gateway p"]
      section_of_append [of "h_adjacency_offset h" "serialize_header h @ pl_offsets p" "h_adjacency_bytes h" "pl_adjacency p"
        "pl_directory p @ pl_cell_directory p @ pl_prefetch p @ pl_gateway p"]
      section_of_append [of "h_directory_offset h" "serialize_header h @ pl_offsets p @ pl_adjacency p" "h_directory_bytes h"
        "pl_directory p" "pl_cell_directory p @ pl_prefetch p @ pl_gateway p"]
      section_of_append [of "h_cell_directory_offset h" "serialize_header h @ pl_offsets p @ pl_adjacency p @ pl_directory p"
        "h_cell_directory_bytes h" "pl_cell_directory p" "pl_prefetch p @ pl_gateway p"]
      section_of_append [of "h_prefetch_directory_offset h" "serialize_header h @ pl_offsets p @ pl_adjacency p @ pl_directory p
        @ pl_cell_directory p" "h_prefetch_directory_bytes h" "pl_prefetch p" "pl_gateway p"]
      section_of_append [of "h_gateway_directory_offset h" "serialize_header h @ pl_offsets p @ pl_adjacency p @ pl_directory p
        @ pl_cell_directory p @ pl_prefetch p" "h_gateway_directory_bytes h" "pl_gateway p" "[]"]
    by (simp add: l length_serialize_header v5)
  have lay: "sections_layout h (length bytes)"
    unfolding sections_layout_def len
    using f v5 build_okD(7,9,10,13,15) [OF b] lens e
    by (simp add: l ub pl length_sections lso k_topology_header_bytes_def)
      (auto simp: encode_adjacency_def length_serialize_u32)
  then show "\<exists>h. parse_header bytes = Inr h \<and> h_encoding h = bd_encoding b
       \<and> unat (h_adjacency_offset h) = 320 + 8 * (unat (bd_point_count b) + 1)
       \<and> sections_layout h (length bytes) \<and> h_version h \<ge> k_topology_version_v5"
    using ph f v5 by (auto simp: l pl length_sections lso)
  have cs: "check_sections h (of_nat (length bytes)) = Inr ()"
    by (rule check_sections_layout [OF _ hv]) (use lay small in simp)
  have ck: "check_checksums h ?s (checksum_bytes (sec_adjacency ?s)) = Inr ()"
    using f by (simp add: check_checksums_def guardE_def)
  have vp: "checked_multiply (h_vector_page_count h) (ucast k_io_vector_page_size) = Inr (fp_size (h_vectors h))"
    using l(1) f by (simp add: checked_multiply_iff k_io_vector_page_size_def)
  have vs: "fp_size (h_vectors h) = bd_vector_page_count b * 4096"
    using vp f by (auto simp: checked_multiply_def k_io_vector_page_size_def split: if_splits)
  have vp': "checked_multiply (bd_vector_page_count b) (ucast k_io_vector_page_size) = Inr (bd_vector_page_count b * 4096)"
    using vp f vs by simp
  have cf: "check_fingerprints h disk vectors topology_only = Inr ()"
    using disk vectors f by (auto simp: check_fingerprints_def guardE_def vp' vs)
  have ps: "payload_supported h" using build_okD(1,2,4,5) [OF b] f ub(1) lts
    by (auto simp: payload_supported_def cell_layout_def layout_defs topology_consts unat_eq_zero [symmetric] split: if_splits)
  have gb: "gateway_bound h" using build_okD(17) [OF b] f ub(1,2) v5(3)
    by (auto simp: gateway_bound_def unat_eq_zero [symmetric])
  have rl: "read_checked read_location (location_ok (bd_vector_page_count b) vb) (length ls) (serialize_locations ls) 0 = Inr ls"
    if "list_all (location_ok (bd_vector_page_count b) vb) ls" for vb ls
    unfolding serialize_locations_def by (rule read_checked_enc [OF location_codec.field_codec_axioms that])
  have rp: "read_checked (read_little 8) ok (length ps) (serialize_u64 ps) 0 = Inr ps" if "list_all ok ps" for ok and ps :: "u64 list"
    unfolding serialize_u64_def by (rule read_checked_enc [OF u64_codec.field_codec_axioms that])
  have rh: "read_checked read_hint ok (length gs) (serialize_gateway_hints gs) 0 = Inr gs" if "list_all ok gs" for ok gs
    unfolding serialize_gateway_hints_def by (rule read_checked_enc [OF hint_codec.field_codec_axioms that])
  have vb: "vector_bytes_of h = Inr (if bd_layout b = CELL_U8_4K then bd_dimension b else bd_dimension b * 4)"
    using f build_okD(3) [OF b] checked_multiply_Inr [of "bd_dimension b" 4] by (simp add: vector_bytes_of_def)
  have fi: "fill_index pfor False h ?s (of_nat (length bytes)) = Inr (built_index b (length bytes))"
    unfolding fill_index_def
    using la(1) [of ?s] vb rl [OF build_okD(14) [OF b]] load_ranges_written [OF b lts(1), of h]
      rp [OF build_okD(16) [OF b]] rh [OF build_okD(18) [OF b]] f ub build_okD(13,15) [OF b]
    by (simp add: pl built_index_def vs split del: if_split)
  show "load_io_optimized_index pfor disk (Some bytes) vectors topology_only False 0 = Inr (built_index b (length bytes))"
    unfolding load_resident_iff
    using ph ps gb cs ck cf fi by (intro exI [of _ h]) (simp only: secs simp_thms)
qed

subsection \<open>Corrupted files\<close>

lemma section_of_update:
  "section_of (bytes[i := b]) offset sz =
     (if unat offset \<le> i \<and> i < unat offset + unat sz
      then (section_of bytes offset sz)[i - unat offset := b] else section_of bytes offset sz)"
  by (auto simp: section_of_def drop_update_swap take_update_swap list_update_beyond not_le)

lemma checksum_update:
  assumes "j < length xs" "b \<noteq> xs ! j"
  shows "checksum_bytes (xs[j := b]) \<noteq> checksum_bytes xs"
proof -
  have "xs = take j xs @ xs ! j # drop (Suc j) xs" using assms(1) by (rule id_take_nth_drop)
  moreover have "xs[j := b] = take j xs @ b # drop (Suc j) xs" using assms(1) by (rule upd_conv_take_nth_drop)
  ultimately show ?thesis using hash_bytes_one_byte [OF assms(2)] by (metis checksum_bytes_def)
qed

lemma section_checksum_update:
  assumes "in_file bytes offset sz" "unat offset \<le> i" "i < unat offset + unat sz" "b \<noteq> bytes ! i"
  shows "checksum_bytes (section_of (bytes[i := b]) offset sz) \<noteq> checksum_bytes (section_of bytes offset sz)"
proof -
  have "i - unat offset < length (section_of bytes offset sz)"
    using assms by (simp add: length_section_of)
  moreover have "section_of bytes offset sz ! (i - unat offset) = bytes ! i"
    using assms by (simp add: section_of_def in_file_def)
  ultimately show ?thesis using assms by (simp add: section_of_update checksum_update)
qed

definition section_table :: "topology_header_t \<Rightarrow> (u64 \<times> u64) list" where
  "section_table h =
     [(h_offsets_offset h, h_offsets_bytes h), (h_adjacency_offset h, h_adjacency_bytes h),
      (h_directory_offset h, h_directory_bytes h), (h_cell_directory_offset h, h_cell_directory_bytes h),
      (h_prefetch_directory_offset h, h_prefetch_directory_bytes h)]
     @ (if h_version h < k_topology_version_v5 then []
        else [(h_gateway_directory_offset h, h_gateway_directory_bytes h)])"

definition table_checksums :: "topology_header_t \<Rightarrow> u64 list" where
  "table_checksums h = [h_offsets_checksum h, h_adjacency_checksum h, h_directory_checksum h,
      h_cell_directory_checksum h, h_prefetch_directory_checksum h]
     @ (if h_version h < k_topology_version_v5 then [] else [h_gateway_directory_checksum h])"

lemma check_checksums_table:
  "check_checksums h (resident_sections h bytes) (checksum_bytes (sec_adjacency (resident_sections h bytes))) = Inr ()
     \<longleftrightarrow> map (\<lambda>(off, sz). checksum_bytes (section_of bytes off sz)) (section_table h) = table_checksums h"
proof (cases "h_version h < k_topology_version_v5")
  case True
  then show ?thesis
    by (simp add: check_checksums_def resident_sections_def section_table_def table_checksums_def not_less [symmetric]) blast
next
  case False
  then show ?thesis
    by (simp add: check_checksums_def resident_sections_def section_table_def table_checksums_def not_less [symmetric]) blast
qed

lemma section_table_in_file:
  "sections_in_file h bytes \<Longrightarrow> (off, sz) \<in> set (section_table h) \<Longrightarrow> in_file bytes off sz"
  unfolding section_table_def sections_in_file_def by (auto split: if_splits)

lemma covered_by_section:
  assumes "sections_layout h (length bytes)" "unat (h_header_bytes h) \<le> i" "i < length bytes"
    "h_version h \<noteq> k_topology_version_v4 \<longrightarrow> h_version h \<ge> k_topology_version_v5"
  shows "\<exists>(off, sz) \<in> set (section_table h). unat off \<le> i \<and> i < unat off + unat sz"
proof (rule ccontr)
  assume "\<not> ?thesis"
  then have next_start: "unat off + unat sz \<le> i" if "(off, sz) \<in> set (section_table h)" "unat off \<le> i" for off sz
    using that by (auto simp: not_less)
  have l: "unat (h_offsets_offset h) = unat (h_header_bytes h)"
    "unat (h_adjacency_offset h) = unat (h_offsets_offset h) + unat (h_offsets_bytes h)"
    "unat (h_directory_offset h) = unat (h_adjacency_offset h) + unat (h_adjacency_bytes h)"
    "unat (h_cell_directory_offset h) = unat (h_directory_offset h) + unat (h_directory_bytes h)"
    "unat (h_prefetch_directory_offset h) = unat (h_cell_directory_offset h) + unat (h_cell_directory_bytes h)"
    "k_topology_version_v5 \<le> h_version h \<longrightarrow>
       unat (h_gateway_directory_offset h) = unat (h_prefetch_directory_offset h) + unat (h_prefetch_directory_bytes h)"
    "length bytes = unat (h_prefetch_directory_offset h) + unat (h_prefetch_directory_bytes h)
         + (if h_version h = k_topology_version_v4 then 0 else unat (h_gateway_directory_bytes h))"
    using assms(1) unfolding sections_layout_def by blast+
  have m: "(h_offsets_offset h, h_offsets_bytes h) \<in> set (section_table h)"
    "(h_adjacency_offset h, h_adjacency_bytes h) \<in> set (section_table h)"
    "(h_directory_offset h, h_directory_bytes h) \<in> set (section_table h)"
    "(h_cell_directory_offset h, h_cell_directory_bytes h) \<in> set (section_table h)"
    "(h_prefetch_directory_offset h, h_prefetch_directory_bytes h) \<in> set (section_table h)"
    "h_version h \<ge> k_topology_version_v5 \<Longrightarrow>
       (h_gateway_directory_offset h, h_gateway_directory_bytes h) \<in> set (section_table h)"
    by (auto simp: section_table_def)
  have "unat (h_adjacency_offset h) \<le> i" using next_start [OF m(1)] assms(2) l(1,2) by linarith
  then have "unat (h_directory_offset h) \<le> i" using next_start [OF m(2)] l(3) by linarith
  then have "unat (h_cell_directory_offset h) \<le> i" using next_start [OF m(3)] l(4) by linarith
  then have "unat (h_prefetch_directory_offset h) \<le> i" using next_start [OF m(4)] l(5) by linarith
  then have e: "unat (h_prefetch_directory_offset h) + unat (h_prefetch_directory_bytes h) \<le> i"
    by (rule next_start [OF m(5)])
  show False
  proof (cases "h_version h = k_topology_version_v4")
    case True
    with e l(7) assms(3) show ?thesis by simp
  next
    case False
    with assms(4) have v: "h_version h \<ge> k_topology_version_v5" by simp
    then show ?thesis using next_start [OF m(6) [OF v]] e l(6,7) assms(3) False by simp
  qed
qed

lemma corrupt_rejected:
  assumes small: "length bytes < 2 ^ 64"
    and ok: "load_io_optimized_index pfor disk (Some bytes) vectors topology_only False c = Inr ix"
    and i: "320 \<le> i" "i < length bytes" and b: "b \<noteq> bytes ! i"
  shows "load_io_optimized_index pfor disk (Some (bytes[i := b])) vectors topology_only False c \<noteq> Inr ix'"
proof
  assume "load_io_optimized_index pfor disk (Some (bytes[i := b])) vectors topology_only False c = Inr ix'"
  then obtain h' where h': "parse_header (bytes[i := b]) = Inr h'"
    "map (\<lambda>(off, sz). checksum_bytes (section_of (bytes[i := b]) off sz)) (section_table h') = table_checksums h'"
    unfolding load_resident_iff check_checksums_table by blast
  obtain h where h: "parse_header bytes = Inr h" "check_sections h (of_nat (length bytes)) = Inr ()"
    "map (\<lambda>(off, sz). checksum_bytes (section_of bytes off sz)) (section_table h) = table_checksums h"
    using ok unfolding load_resident_iff check_checksums_table by blast
  have "take 320 (bytes[i := b]) = take 320 bytes" using i(1) by simp
  then have "h' = h" using h'(1) h(1) i parse_header_prefix [of bytes] parse_header_prefix [of "bytes[i := b]"] by simp
  with h'(2) h(3) have same: "map (\<lambda>(off, sz). checksum_bytes (section_of (bytes[i := b]) off sz)) (section_table h)
      = map (\<lambda>(off, sz). checksum_bytes (section_of bytes off sz)) (section_table h)" by simp
  have lay: "sections_layout h (length bytes)" using check_sections_Inr [OF h(2)] small by simp
  have hv: "h_version h \<noteq> k_topology_version_v4 \<longrightarrow> h_version h \<ge> k_topology_version_v5"
    "unat (h_header_bytes h) \<le> 320"
    using parse_header_Inr [OF h(1)] by (auto simp: topology_consts)
  have "unat (h_header_bytes h) \<le> i" using hv(2) i(1) by simp
  from covered_by_section [OF lay this i(2) hv(1)] obtain off sz where
    s: "(off, sz) \<in> set (section_table h)" "unat off \<le> i" "i < unat off + unat sz" by blast
  from section_checksum_update [OF section_table_in_file [OF layout_in_file [OF lay] s(1)] s(2,3) b] s(1) same
  show False by auto
qed

lemma load_paged_iff_resident:
  assumes "320 \<le> length bytes" "length bytes < 2 ^ 64" "cache_pages \<noteq> 0"
  shows "load_io_optimized_index pfor disk (Some bytes) vectors topology_only True cache_pages = Inr px \<longleftrightarrow>
    (\<exists>h ix. parse_header bytes = Inr h \<and> h_encoding h = RAW_U32
       \<and> load_io_optimized_index pfor disk (Some bytes) vectors topology_only False 0 = Inr ix
       \<and> px = paged_view h ix)"
proof -
  have u: "unat (of_nat (length bytes) :: u64) = length bytes" using assms(2) by simp
  have hd: "read_file_range (Some bytes) 0 (ucast k_topology_header_bytes) = Inr (take 320 bytes)"
    using assms(1) by (simp add: read_file_range_def k_topology_header_bytes_def)
  have key: "(\<exists>s cs. paged_sections h (Some bytes) = Inr s
        \<and> validate_raw_adjacency_range (Some bytes) (h_adjacency_offset h) (h_edge_count h) (h_point_count h) = Inr cs
        \<and> check_checksums h s cs = Inr () \<and> F
        \<and> fill_index pfor True h s (of_nat (length bytes)) = Inr px) \<longleftrightarrow>
      check_checksums h (resident_sections h bytes) (checksum_bytes (sec_adjacency (resident_sections h bytes))) = Inr ()
        \<and> F \<and> (\<exists>ix. fill_index pfor False h (resident_sections h bytes) (of_nat (length bytes)) = Inr ix \<and> px = paged_view h ix)"
    if c: "check_sections h (of_nat (length bytes)) = Inr ()" and raw: "h_encoding h = RAW_U32" for h F
  proof -
    have l: "sections_layout h (length bytes)" using check_sections_Inr [OF c] by (simp only: u)
    note i = layout_in_file [OF l]
    let ?a = "sec_adjacency (resident_sections h bytes)"
    have e: "unat (h_adjacency_bytes h) = unat (h_edge_count h) * 4" "unat (h_edge_count h) * 4 < 2 ^ 64"
      using l raw by (auto simp: sections_layout_def)
    have ia: "in_file bytes (h_adjacency_offset h) (h_adjacency_bytes h)" using i by (simp add: sections_in_file_def)
    then have len: "length ?a = unat (h_edge_count h) * 4"
      by (simp add: resident_sections_def length_section_of e)
    have a: "take (unat (h_edge_count h) * 4) (drop (unat (h_adjacency_offset h)) bytes) = ?a"
      by (simp add: resident_sections_def section_of_def e(1))
    have v: "validate_raw_adjacency_range (Some bytes) (h_adjacency_offset h) (h_edge_count h) (h_point_count h) = Inr cs
        \<longleftrightarrow> list_all (\<lambda>t. ucast t < h_point_count h) (buffer_targets ?a) \<and> cs = checksum_bytes ?a" for cs
      using ia e by (simp add: validate_raw_adjacency_range_iff a in_file_def) (metis le_diff_conv2 add.commute le_add1 le_trans)
    have cc: "check_checksums h (s\<lparr>sec_adjacency := x\<rparr>) cs = check_checksums h s cs" for s x cs
      by (simp add: check_checksums_def)
    show ?thesis
      unfolding paged_sections_resident [OF i] v cc fill_index_paged [OF raw len, symmetric] by (auto simp: cc)
  qed
  let ?C = "\<lambda>h. parse_header bytes = Inr h \<and> h_encoding h = RAW_U32 \<and> payload_supported h \<and> gateway_bound h"
  let ?F = "\<lambda>h. check_fingerprints h disk vectors topology_only = Inr ()"
  have "load_io_optimized_index pfor disk (Some bytes) vectors topology_only True cache_pages = Inr px \<longleftrightarrow>
     (\<exists>h. ?C h \<and> check_sections h (of_nat (length bytes)) = Inr ()
       \<and> (\<exists>s cs. paged_sections h (Some bytes) = Inr s
        \<and> validate_raw_adjacency_range (Some bytes) (h_adjacency_offset h) (h_edge_count h) (h_point_count h) = Inr cs
        \<and> check_checksums h s cs = Inr () \<and> ?F h
        \<and> fill_index pfor True h s (of_nat (length bytes)) = Inr px))"
    unfolding load_paged_iff hd using parse_header_prefix [OF assms(1)] assms(3) by auto
  also have "\<dots> \<longleftrightarrow> (\<exists>h. ?C h \<and> check_sections h (of_nat (length bytes)) = Inr ()
       \<and> (check_checksums h (resident_sections h bytes) (checksum_bytes (sec_adjacency (resident_sections h bytes))) = Inr ()
        \<and> ?F h \<and> (\<exists>ix. fill_index pfor False h (resident_sections h bytes) (of_nat (length bytes)) = Inr ix \<and> px = paged_view h ix)))"
    by (intro ex_cong1 conj_cong refl key) auto
  also have "\<dots> \<longleftrightarrow> (\<exists>h ix. parse_header bytes = Inr h \<and> h_encoding h = RAW_U32
       \<and> load_io_optimized_index pfor disk (Some bytes) vectors topology_only False 0 = Inr ix
       \<and> px = paged_view h ix)"
    unfolding load_resident_iff by auto
  finally show ?thesis .
qed

subsection \<open>A small artifact\<close>

text \<open>Two nodes that point at each other, one-dimensional vectors in one page.\<close>

definition sample_disk :: "u8 list" where
  "sample_disk = [7]"

definition sample_vectors :: "u8 list" where
  "sample_vectors = replicate 4096 0"

definition sample_build :: io_build_t where
  "sample_build = \<lparr>bd_point_count = 2, bd_dimension = 1, bd_max_degree = 2, bd_encoding = RAW_U32,
     bd_layout = ORIGINAL_ID, bd_offsets = edge_offsets_of [[1], [0]], bd_adjacency = [1, 0],
     bd_locations = [\<lparr>loc_page_id = 0, loc_page_offset = 0\<rparr>, \<lparr>loc_page_id = 0, loc_page_offset = 4\<rparr>],
     bd_vector_page_count = 1, bd_cell_ranges = [],
     bd_prefetch_pages = [k_no_io_prefetch_page, k_no_io_prefetch_page], bd_gateway_hints = [],
     bd_base = \<lparr>fp_size = 1, fp_checksum = fingerprint_loop sample_disk k_fnv_offset_basis\<rparr>,
     bd_vector_checksum = fingerprint_loop sample_vectors k_fnv_offset_basis, bd_community_polar = \<lparr>fp_size = 0, fp_checksum = 0\<rparr>\<rparr>"

definition sample_bytes :: "u8 list" where
  "sample_bytes = (case write_topology None sample_build of Inl _ \<Rightarrow> [] | Inr bytes \<Rightarrow> bytes)"

lemma sample_build_ok: "build_ok sample_build [[1], [0]]"
  unfolding build_ok_def
  by (intro conjI) (simp_all add: sample_build_def encoding_defs layout_defs location_ok_def prefetch_page_ok_def
      k_no_io_prefetch_page_def k_io_vector_page_size_def)

lemma sample_fits: "codec_fits pfor (bd_encoding sample_build) [[1], [0]]"
  by (simp add: codec_fits_def sample_build_def)

lemma sample_written: "write_topology None sample_build = Inr sample_bytes" "length sample_bytes = 392"
proof -
  have "\<exists>bytes. write_topology None sample_build = Inr bytes \<and> length bytes = 392"
    by (simp add: write_topology_def encode_adjacency_def sample_build_def build_header_def payload_of_def
        checked_add_def checked_multiply_def k_topology_header_bytes_def k_io_vector_page_size_def
        length_sections Let_def payload_bytes_def length_serialize_header unat_minus_one)
  then show "write_topology None sample_build = Inr sample_bytes" "length sample_bytes = 392"
    by (auto simp: sample_bytes_def)
qed

lemma sample_fingerprint: "fingerprint_file (Some sample_disk) = Inr (bd_base sample_build)"
  by (simp add: fingerprint_file_def sample_build_def sample_disk_def)

lemma sample_loads:
  "load_io_optimized_index None (Some sample_disk) (Some sample_bytes) None True False 0
     = Inr (built_index sample_build 392)"
  using load_written [OF sample_build_ok sample_fits sample_written(1) _ sample_fingerprint] sample_written(2)
  by simp

lemma sample_index_ok: "index_ok (built_index sample_build 392)"
  using sample_loads unfolding load_resident_iff by (blast intro: fill_index_ok)

subsection \<open>Properties\<close>



text \<open>C29: Paged loading is equivalent to resident loading: on a topology file of at least one header,
it succeeds for the same files (those with raw adjacency and a positive cache) and yields the same
index, with the adjacency left in the file at the recorded offset.\<close>

theorem paged_load_equivalent:
  assumes "320 \<le> length bytes" "length bytes < 2 ^ 64" "cache_pages \<noteq> 0"
  shows "load_io_optimized_index pfor disk (Some bytes) vectors topology_only True cache_pages = Inr px \<longleftrightarrow>
    (\<exists>h ix. parse_header bytes = Inr h \<and> h_encoding h = RAW_U32
       \<and> load_io_optimized_index pfor disk (Some bytes) vectors topology_only False 0 = Inr ix
       \<and> px = paged_view h ix)"
  by (rule load_paged_iff_resident [OF assms])

lemma paged_load_equivalent_witness:
  "\<exists>px. load_io_optimized_index None (Some sample_disk) (Some sample_bytes) None True True 1 = Inr px
     \<and> ix_paged_topology px \<and> ix_adjacency px = [] \<and> ix_adjacency_file_offset px = 344"
proof -
  obtain h where h: "parse_header sample_bytes = Inr h" "h_encoding h = bd_encoding sample_build"
    "unat (h_adjacency_offset h) = 320 + 8 * (unat (bd_point_count sample_build) + 1)"
    using load_written(3) [OF sample_build_ok sample_fits sample_written(1) _ sample_fingerprint, of True None]
      sample_written(2) by auto
  then have he: "h_encoding h = RAW_U32" "h_adjacency_offset h = 344"
    by (simp_all add: sample_build_def word_unat_eq_iff)
  have "load_io_optimized_index None (Some sample_disk) (Some sample_bytes) None True True 1
      = Inr (paged_view h (built_index sample_build 392))"
  proof (rule iffD2 [OF paged_load_equivalent])
    show "\<exists>h' ix. parse_header sample_bytes = Inr h' \<and> h_encoding h' = RAW_U32
       \<and> load_io_optimized_index None (Some sample_disk) (Some sample_bytes) None True False 0 = Inr ix
       \<and> paged_view h (built_index sample_build 392) = paged_view h' ix"
      using h(1) he(1) sample_loads by blast
  qed (simp_all add: sample_written(2))
  then show ?thesis by (simp add: paged_view_def he(2))
qed



text \<open>C24: On a loaded index the accessors are total and in bounds: an unknown node raises
\<open>std::out_of_range\<close>; for a known node \<open>neighbors\<close> returns at most \<open>max_degree\<close> existing nodes, the
vector location lies inside one page of the vector file and the prefetch page exists or is absent.\<close>

theorem loaded_accessors_safe:
  assumes "index_ok ix"
  shows "if ucast node_id \<ge> ix_point_count ix
    then neighbors_resident ix node_id = Inl Out_of_range \<and> vector_location ix node_id = Inl Out_of_range
      \<and> node_prefetch_page ix node_id = Inl Out_of_range
    else \<exists>nbrs l p. neighbors_resident ix node_id = Inr nbrs \<and> length nbrs \<le> unat (ix_max_degree ix)
      \<and> list_all (\<lambda>t. ucast t < ix_point_count ix) nbrs
      \<and> vector_location ix node_id = Inr l \<and> location_in_page ix l
      \<and> node_prefetch_page ix node_id = Inr p \<and> (p = k_no_io_prefetch_page \<or> p < ix_vector_page_count ix)"
proof (cases "ucast node_id \<ge> ix_point_count ix")
  case True
  then show ?thesis by (simp add: neighbors_resident_def vector_location_def node_prefetch_page_def)
next
  case False
  then have lt: "ucast node_id < ix_point_count ix" by simp
  then have n: "unat node_id < unat (ix_point_count ix)" by (simp add: word_less_nat_alt)
  note ok = assms [unfolded index_ok_def]
  obtain nbrs where nb: "neighbors_resident ix node_id = Inr nbrs" "length nbrs \<le> unat (ix_max_degree ix)"
    "list_all (\<lambda>t. ucast t < ix_point_count ix) nbrs"
    using neighbors_resident_ok [OF _ lt] ok by blast
  have "location_in_page ix (ix_vector_locations ix ! unat node_id)"
    "ix_node_prefetch_pages ix ! unat node_id = k_no_io_prefetch_page
      \<or> ix_node_prefetch_pages ix ! unat node_id < ix_vector_page_count ix"
    using ok n by (simp_all add: list_all_length)
  with nb False show ?thesis by (simp add: vector_location_def node_prefetch_page_def)
qed

lemma loaded_accessors_safe_witness:
  "\<exists>nbrs. neighbors_resident (built_index sample_build 392) 1 = Inr nbrs \<and> length nbrs \<le> 2"
proof -
  have f: "ix_point_count (built_index sample_build 392) = 2" "ix_max_degree (built_index sample_build 392) = 2"
    by (simp_all add: built_index_def sample_build_def)
  show ?thesis
    using loaded_accessors_safe [OF sample_index_ok, of 1] unfolding f
    by (auto simp: word_le_nat_alt split: if_splits)
qed

text \<open>C30: Corruption is detected: if \<open>load\<close> accepts a topology file, it rejects every file that differs from it
in exactly one byte after the header.\<close>

theorem corrupted_topology_rejected:
  assumes "length bytes < 2 ^ 64"
    "load_io_optimized_index pfor disk (Some bytes) vectors topology_only False cache_pages = Inr ix"
    "320 \<le> i" "i < length bytes" "b \<noteq> bytes ! i"
  shows "\<exists>e. load_io_optimized_index pfor disk (Some (bytes[i := b])) vectors topology_only False cache_pages = Inl e"
proof (cases "load_io_optimized_index pfor disk (Some (bytes[i := b])) vectors topology_only False cache_pages")
  case (Inr ix')
  with corrupt_rejected [OF assms] show ?thesis by blast
qed blast

lemma corrupted_topology_rejected_witness:
  "\<exists>e. load_io_optimized_index None (Some sample_disk) (Some (sample_bytes[320 := sample_bytes ! 320 + 1]))
     None True False 0 = Inl e"
  by (rule corrupted_topology_rejected [OF _ sample_loads]) (simp_all add: sample_written(2))

end
