(* ===== verification/IO_Cells.thy ===== *)
theory IO_Cells
  imports IO_Write
begin

text \<open>
  Page runs (\<open>make_io_page_runs\<close>) and the breadth-first assignment of nodes to cells
  (\<open>build_io_global_graph_cell_assignment\<close> and its variant on a mapped artifact) of
  src/index/io_optimized_index.cc.
\<close>

subsection \<open>Page runs\<close>

record io_page_run_t =
  run_first_page :: u64
  run_page_count :: u32

definition can_extend :: "io_page_run_t \<Rightarrow> u64 \<Rightarrow> bool" where
  "can_extend r page \<longleftrightarrow> run_page_count r < - 1 \<and> run_first_page r \<le> - 1 - ucast (run_page_count r)
     \<and> page = run_first_page r + ucast (run_page_count r)"

definition add_page :: "io_page_run_t list \<Rightarrow> u64 \<Rightarrow> io_page_run_t list" where
  "add_page runs page =
     (if \<not> (runs \<noteq> [] \<and> can_extend (last runs) page)
      then runs @ [\<lparr>run_first_page = page, run_page_count = 1\<rparr>]
      else butlast runs @ [(last runs)\<lparr>run_page_count := run_page_count (last runs) + 1\<rparr>])"

definition make_io_page_runs :: "u64 list \<Rightarrow> io_page_run_t list" where
  "make_io_page_runs page_ids = foldl add_page [] (remdups_adj (sort page_ids))"

definition run_pages :: "io_page_run_t \<Rightarrow> u64 list" where
  "run_pages r = map (\<lambda>i. run_first_page r + of_nat i) [0..<unat (run_page_count r)]"

definition run_ok :: "io_page_run_t \<Rightarrow> bool" where
  "run_ok r \<longleftrightarrow> 0 < unat (run_page_count r) \<and> unat (run_first_page r) + unat (run_page_count r) \<le> 2 ^ 64"

text \<open>Between two runs there is a gap, unless the first one has the largest length.\<close>

definition run_gap :: "io_page_run_t \<Rightarrow> io_page_run_t \<Rightarrow> bool" where
  "run_gap r s \<longleftrightarrow> unat (run_first_page r) + unat (run_page_count r) < unat (run_first_page s)
     \<or> run_page_count r = - 1"

lemma run_pages_extend:
  assumes "can_extend r page" "run_ok r"
  shows "run_pages (r\<lparr>run_page_count := run_page_count r + 1\<rparr>) = run_pages r @ [page]"
    "run_ok (r\<lparr>run_page_count := run_page_count r + 1\<rparr>)"
proof -
  let ?c = "run_page_count r"
  have "unat ?c < unat (- 1 :: u32)" using assms(1) by (simp add: can_extend_def word_less_nat_alt)
  moreover have "unat (- 1 :: u32) = 2 ^ 32 - 1" by (simp add: unsigned_minus_1_eq_mask mask_eq_exp_minus_1)
  ultimately have c1: "unat (?c + 1) = unat ?c + 1"
    using unat_add_lem [of ?c 1] by simp
  have "unat (- 1 - ucast ?c :: u64) = 2 ^ 64 - 1 - unat ?c"
    by (subst unat_sub) (simp_all add: unat_minus_one)
  then have "unat (run_first_page r) \<le> 2 ^ 64 - 1 - unat ?c"
    using assms(1) by (simp add: can_extend_def word_le_nat_alt)
  moreover have "unat ?c \<le> 2 ^ 64 - 1" using unsigned_less [of ?c, where ?'a = nat] by simp
  ultimately have le: "unat (run_first_page r) + unat ?c \<le> 2 ^ 64 - 1"
    using le_diff_conv2 by blast
  have "(of_nat (unat ?c) :: u64) = ucast ?c" by (simp add: word_unat_eq_iff)
  then show "run_pages (r\<lparr>run_page_count := ?c + 1\<rparr>) = run_pages r @ [page]"
    using assms(1) by (simp add: run_pages_def c1 can_extend_def)
  show "run_ok (r\<lparr>run_page_count := ?c + 1\<rparr>)" using le by (simp add: run_ok_def c1)
qed

lemma unat_add_of_nat: "unat a + j < 2 ^ 64 \<Longrightarrow> unat (a + of_nat j :: u64) = unat a + j"
  using unat_add_lem [of a "of_nat j"] by simp

lemma run_pages_last:
  assumes "run_ok r"
  shows "run_pages r \<noteq> []" "unat (last (run_pages r)) = unat (run_first_page r) + unat (run_page_count r) - 1"
    "hd (run_pages r) = run_first_page r"
proof -
  let ?n = "unat (run_page_count r)"
  have n: "0 < ?n" using assms by (simp add: run_ok_def)
  then show "run_pages r \<noteq> []" by (simp add: run_pages_def)
  have "last (run_pages r) = run_first_page r + of_nat (?n - 1)"
    using n by (simp add: run_pages_def last_map)
  moreover have "unat (run_first_page r) + (?n - 1) < 2 ^ 64"
    using assms n unfolding run_ok_def by linarith
  ultimately show "unat (last (run_pages r)) = unat (run_first_page r) + ?n - 1"
    using n by (simp only: unat_add_of_nat)
  show "hd (run_pages r) = run_first_page r" using n by (simp add: run_pages_def hd_map)
qed

lemma add_page_correct:
  assumes ok: "list_all run_ok runs" "successively run_gap runs"
    and below: "\<And>x. x \<in> set (concat (map run_pages runs)) \<Longrightarrow> x < page"
  shows "concat (map run_pages (add_page runs page)) = concat (map run_pages runs) @ [page]
    \<and> list_all run_ok (add_page runs page) \<and> successively run_gap (add_page runs page)"
proof (cases "runs \<noteq> [] \<and> can_extend (last runs) page")
  case True
  then obtain init r where r: "runs = init @ [r]" "can_extend r page"
    by (metis append_butlast_last_id)
  then have "run_ok r" using ok(1) by simp
  note e = run_pages_extend [OF r(2) this]
  have "run_gap x (r\<lparr>run_page_count := run_page_count r + 1\<rparr>) = run_gap x r" for x
    by (simp add: run_gap_def)
  then show ?thesis using ok r e by (simp add: add_page_def successively_append_iff)
next
  case False
  let ?new = "\<lparr>run_first_page = page, run_page_count = 1\<rparr>"
  have "unat page < 2 ^ 64" by simp
  then have "unat page + 1 \<le> 2 ^ 64" by linarith
  then have new: "run_pages ?new = [page]" "run_ok ?new"
    unfolding run_pages_def run_ok_def by simp_all
  have "run_gap (last runs) ?new" if ne: "runs \<noteq> []"
  proof -
    let ?r = "last runs"
    have rok: "run_ok ?r" using ok(1) ne by (simp add: list_all_iff)
    have "last (run_pages ?r) \<in> set (concat (map run_pages runs))"
      using last_in_set [OF run_pages_last(1) [OF rok]] last_in_set [OF ne] by fastforce
    then have "last (run_pages ?r) < page" by (rule below)
    then have lt: "unat (run_first_page ?r) + unat (run_page_count ?r) \<le> unat page"
      using run_pages_last(2) [OF rok] rok by (simp add: word_less_nat_alt run_ok_def)
    show ?thesis
    proof (cases "run_page_count ?r = - 1")
      case cnt: False
      have "unat (run_first_page ?r) + unat (run_page_count ?r) \<noteq> unat page"
      proof
        assume eq: "unat (run_first_page ?r) + unat (run_page_count ?r) = unat page"
        then have "unat (run_first_page ?r) \<le> 2 ^ 64 - 1 - unat (run_page_count ?r)"
          using \<open>unat page < 2 ^ 64\<close> by linarith
        moreover have "unat (- 1 - ucast (run_page_count ?r) :: u64) = 2 ^ 64 - 1 - unat (run_page_count ?r)"
          by (subst unat_sub) (simp_all add: unat_minus_one)
        ultimately have "run_first_page ?r \<le> - 1 - ucast (run_page_count ?r)"
          by (simp add: word_le_nat_alt)
        moreover have "page = run_first_page ?r + ucast (run_page_count ?r)"
          using eq \<open>unat page < 2 ^ 64\<close> unat_add_ranges [of "run_first_page ?r" "run_page_count ?r"]
          by (simp add: word_unat_eq_iff)
        moreover have "run_page_count ?r < - 1" using cnt by (simp add: word_order.not_eq_extremum)
        ultimately show False using False ne by (simp add: can_extend_def)
      qed
      with lt show ?thesis by (simp add: run_gap_def)
    qed (simp add: run_gap_def)
  qed
  then show ?thesis
    using False ok new by (cases "runs = []") (auto simp: add_page_def successively_append_iff)
qed

lemma page_runs_correct:
  assumes "sorted_wrt (<) pages"
  shows "concat (map run_pages (foldl add_page [] pages)) = pages
    \<and> list_all run_ok (foldl add_page [] pages) \<and> successively run_gap (foldl add_page [] pages)"
  using assms
proof (induction pages rule: rev_induct)
  case (snoc page pages)
  then have ih: "concat (map run_pages (foldl add_page [] pages)) = pages"
    "list_all run_ok (foldl add_page [] pages)" "successively run_gap (foldl add_page [] pages)"
    and below: "\<And>x. x \<in> set pages \<Longrightarrow> x < page"
    by (auto simp: sorted_wrt_append)
  from add_page_correct [OF ih(2,3), of page] below show ?case unfolding ih(1) by simp
qed simp

lemma remdups_adj_strict: "sorted xs \<Longrightarrow> sorted_wrt (<) (remdups_adj (xs :: 'a::linorder list))"
  by (induction xs rule: remdups_adj.induct) (auto simp: less_le)

text \<open>C37: \<open>make_io_page_runs\<close> groups any page list into runs that, written out, are exactly its distinct
pages in ascending order; no run wraps, and two neighbouring runs are separated by a gap (so the grouping is
maximal) unless the first one has the largest representable length.\<close>

theorem page_runs_exact_and_maximal:
  "concat (map run_pages (make_io_page_runs page_ids)) = sorted_list_of_set (set page_ids)
   \<and> list_all run_ok (make_io_page_runs page_ids) \<and> successively run_gap (make_io_page_runs page_ids)"
proof -
  let ?pages = "remdups_adj (sort page_ids)"
  have s: "sorted_wrt (<) ?pages" by (rule remdups_adj_strict) simp
  then have "sorted ?pages" "distinct ?pages" by (simp_all add: strict_sorted_iff)
  then have "?pages = sorted_list_of_set (set page_ids)"
    by (metis remdups_adj_set set_sort sorted_list_of_set.idem_if_sorted_distinct)
  with page_runs_correct [OF s] show ?thesis by (simp add: make_io_page_runs_def)
qed

end
