(* ===== verification/IO_Assign.thy ===== *)
theory IO_Assign
  imports IO_Cells
begin

text \<open>
  The breadth-first assignment of nodes to bounded cells: \<open>build_io_global_graph_cell_assignment\<close>
  on a loaded index and its variant on a mapped raw artifact (src/index/io_optimized_index.cc).
  Both are the same traversal over a source of neighbour lists; the variant on the artifact also
  checks each neighbour range and each neighbour.

  \<open>ca_state\<close> is 0 for a node that is not assigned, 1 for an assigned one and 2 for one that
  waits in the frontier of the current cell.
\<close>

record cell_state_t =
  ca_state :: "u8 list"
  ca_cell :: "u32 list"
  ca_population :: u32
  ca_frontier :: "u32 list"

type_synonym neighbor_source = "u32 \<Rightarrow> exn + u32 list"

fun push_neighbors :: "(u32 \<Rightarrow> bool) \<Rightarrow> u32 list \<Rightarrow> cell_state_t \<Rightarrow> exn + cell_state_t" where
  "push_neighbors valid [] s = Inr s"
| "push_neighbors valid (n # ns) s =
     (if \<not> valid n then Inl Invalid_argument
      else push_neighbors valid ns
        (if ca_state s ! unat n = 0
         then s\<lparr>ca_state := (ca_state s)[unat n := 2], ca_frontier := ca_frontier s @ [n]\<rparr> else s))"

definition mark_node :: "u32 \<Rightarrow> u32 \<Rightarrow> cell_state_t \<Rightarrow> cell_state_t" where
  "mark_node cell node s = s\<lparr>ca_state := (ca_state s)[unat node := 1],
     ca_cell := (ca_cell s)[unat node := cell], ca_population := ca_population s + 1\<rparr>"

definition add_node ::
  "(u32 \<Rightarrow> bool) \<Rightarrow> neighbor_source \<Rightarrow> u32 \<Rightarrow> u32 \<Rightarrow> cell_state_t \<Rightarrow> exn + cell_state_t" where
  "add_node valid nbrs cell node s =
     bindE (nbrs node) (\<lambda>ns. push_neighbors valid ns (mark_node cell node s))"

lemma push_neighbors_fields:
  "push_neighbors valid ns s = Inr t \<Longrightarrow> ca_population t = ca_population s \<and> ca_cell t = ca_cell s"
  by (induction valid ns s rule: push_neighbors.induct) (auto split: if_splits)

lemma add_node_population:
  "add_node valid nbrs cell node s = Inr t \<Longrightarrow> ca_population t = ca_population s + 1"
  by (auto simp: add_node_def bindE_eq_Inr mark_node_def dest: push_neighbors_fields)

text \<open>The loop that adds frontier nodes until the target is reached; it returns the cursor too.\<close>

declare bindE_cong [fundef_cong]

function grow ::
  "(u32 \<Rightarrow> bool) \<Rightarrow> neighbor_source \<Rightarrow> u32 \<Rightarrow> u32 \<Rightarrow> nat \<Rightarrow> cell_state_t \<Rightarrow> exn + (cell_state_t \<times> nat)" where
  "grow valid nbrs target_nodes cell cursor s =
     (if ca_population s < target_nodes \<and> cursor < length (ca_frontier s)
      then bindE (add_node valid nbrs cell (ca_frontier s ! cursor) s)
             (\<lambda>t. grow valid nbrs target_nodes cell (cursor + 1) t)
      else Inr (s, cursor))"
  by pat_completeness auto
termination
proof (relation "measure (\<lambda>(v, n, t, c, k, s). unat t - unat (ca_population s))", goal_cases)
  case (2 valid nbrs target_nodes cell cursor s t)
  then have p: "ca_population t = ca_population s + 1" by (auto dest: add_node_population)
  have "unat (ca_population s) < unat target_nodes" using 2 by (simp add: word_less_nat_alt)
  moreover from this have "unat (ca_population s + 1) = unat (ca_population s) + 1"
    using unat_add_lem [of "ca_population s" 1] unsigned_less [of target_nodes, where ?'a = nat] by simp
  ultimately show ?case by (simp add: p)
qed simp

declare grow.simps [simp del]

fun release_states :: "u32 list \<Rightarrow> u8 list \<Rightarrow> u8 list" where
  "release_states [] st = st"
| "release_states (n # ns) st = release_states ns (if st ! unat n = 2 then st[unat n := 0] else st)"

fun assign_seeds ::
  "(u32 \<Rightarrow> bool) \<Rightarrow> neighbor_source \<Rightarrow> u32 \<Rightarrow> u32 list \<Rightarrow> u32 \<Rightarrow> cell_state_t \<Rightarrow> exn + (u32 list \<times> u32)" where
  "assign_seeds valid nbrs target_nodes [] cell_count s = Inr (ca_cell s, cell_count)"
| "assign_seeds valid nbrs target_nodes (seed # seeds) cell_count s =
     (if ca_state s ! unat seed \<noteq> 0 then assign_seeds valid nbrs target_nodes seeds cell_count s
      else if cell_count = - 1 then Inl Overflow_error
      else
        bindE (add_node valid nbrs cell_count seed (s\<lparr>ca_frontier := [], ca_population := 0\<rparr>)) (\<lambda>t.
        bindE (grow valid nbrs target_nodes cell_count 0 t) (\<lambda>(u, cursor).
          assign_seeds valid nbrs target_nodes seeds (cell_count + 1)
            (u\<lparr>ca_state := release_states (drop cursor (ca_frontier u)) (ca_state u)\<rparr>))))"

definition assign_cells ::
  "(u32 \<Rightarrow> bool) \<Rightarrow> neighbor_source \<Rightarrow> u32 \<Rightarrow> nat \<Rightarrow> exn + (u32 list \<times> u32)" where
  "assign_cells valid nbrs target_nodes n =
     assign_seeds valid nbrs target_nodes (map of_nat [0..<n]) 0
       \<lparr>ca_state = replicate n 0, ca_cell = replicate n (- 1), ca_population = 0, ca_frontier = []\<rparr>"

definition build_io_global_graph_cell_assignment ::
  "io_optimized_index_t \<Rightarrow> u32 \<Rightarrow> exn + (u32 list \<times> u32)" where
  "build_io_global_graph_cell_assignment ix target_nodes =
     (if target_nodes = 0 \<or> ix_point_count ix = 0 \<or> ix_point_count ix > ucast (- 1 :: u32)
      then Inl Invalid_argument
      else bindE (assign_cells (\<lambda>_. True) (neighbors_resident ix) target_nodes (unat (ix_point_count ix)))
        (\<lambda>(node_to_cell, cell_count).
           if - 1 \<in> set node_to_cell then Inl Logic_error else Inr (node_to_cell, cell_count)))"

text \<open>The mapped file seen as arrays of little-endian integers.\<close>

definition array_u64 :: "u8 list \<Rightarrow> nat \<Rightarrow> nat \<Rightarrow> u64 list" where
  "array_u64 bytes offset n = map (\<lambda>k. le_value (take 8 (drop (offset + 8 * k) bytes))) [0..<n]"

definition array_u32 :: "u8 list \<Rightarrow> nat \<Rightarrow> nat \<Rightarrow> u32 list" where
  "array_u32 bytes offset n = map (\<lambda>k. le_value (take 4 (drop (offset + 4 * k) bytes))) [0..<n]"

definition artifact_neighbors :: "u64 list \<Rightarrow> u32 list \<Rightarrow> neighbor_source" where
  "artifact_neighbors offsets adjacency node =
     (let begin = offsets ! unat node; fin = offsets ! (unat node + 1) in
      if begin > fin \<or> unat fin > length adjacency then Inl Invalid_argument
      else Inr (take (unat (fin - begin)) (drop (unat begin) adjacency)))"

definition artifact_compatible :: "topology_header_t \<Rightarrow> nat \<Rightarrow> bool" where
  "artifact_compatible h file_bytes \<longleftrightarrow>
     \<not> (h_encoding h \<noteq> RAW_U32 \<or> h_point_count h = 0 \<or> h_point_count h > ucast (- 1 :: u32)
        \<or> h_offsets_bytes h \<noteq> (h_point_count h + 1) * 8
        \<or> h_adjacency_bytes h \<noteq> h_edge_count h * 4
        \<or> unat (h_offsets_offset h) > file_bytes
        \<or> unat (h_offsets_bytes h) > file_bytes - unat (h_offsets_offset h)
        \<or> unat (h_adjacency_offset h) > file_bytes
        \<or> unat (h_adjacency_bytes h) > file_bytes - unat (h_adjacency_offset h)
        \<or> h_offsets_offset h mod 8 \<noteq> 0 \<or> h_adjacency_offset h mod 4 \<noteq> 0)"

definition assignment_from_artifact :: "u8 list \<Rightarrow> u32 \<Rightarrow> exn + (u32 list \<times> u32)" where
  "assignment_from_artifact bytes target_nodes =
     bindE (guardE (target_nodes \<noteq> 0) Invalid_argument) (\<lambda>_.
     bindE (parse_header (take (min (length bytes) (unat k_topology_header_bytes)) bytes)) (\<lambda>h.
     bindE (guardE (artifact_compatible h (length bytes)) Invalid_argument) (\<lambda>_.
     let offsets = array_u64 bytes (unat (h_offsets_offset h)) (unat (h_point_count h + 1));
         adjacency = array_u32 bytes (unat (h_adjacency_offset h)) (unat (h_edge_count h)) in
     bindE (guardE (hd offsets = 0 \<and> unat (last offsets) = length adjacency) Invalid_argument) (\<lambda>_.
       assign_cells (\<lambda>n. ucast n < h_point_count h) (artifact_neighbors offsets adjacency) target_nodes
         (unat (h_point_count h))))))"

declare bindE_cong [fundef_cong del]

end
