(* ===== verification/IO_Assign_Correct.thy ===== *)
theory IO_Assign_Correct
  imports IO_Assign
begin

text \<open>
  The cell assignment partitions the nodes: every node is in one cell, cells are numbered
  densely, none is empty and none is larger than the target.  \<open>bfs_inv n s todo\<close> is the invariant
  inside one cell, with \<open>todo\<close> the part of the frontier that the cursor has not reached.
\<close>

definition bfs_inv :: "nat \<Rightarrow> cell_state_t \<Rightarrow> u32 list \<Rightarrow> bool" where
  "bfs_inv n s todo \<longleftrightarrow>
     length (ca_state s) = n \<and> length (ca_cell s) = n \<and> n < 2 ^ 32
     \<and> (\<forall>v < n. ca_state s ! v \<in> {0, 1, 2}) \<and> (\<forall>v < n. ca_state s ! v = 1 \<longleftrightarrow> ca_cell s ! v \<noteq> - 1)
     \<and> distinct todo \<and> (\<forall>f \<in> set todo. unat f < n)
     \<and> (\<forall>v < n. ca_state s ! v = 2 \<longleftrightarrow> of_nat v \<in> set todo)"

definition members :: "nat \<Rightarrow> cell_state_t \<Rightarrow> u32 \<Rightarrow> nat set" where
  "members n s c = {v. v < n \<and> ca_cell s ! v = c}"

lemma bfs_invD:
  assumes "bfs_inv n s todo"
  shows "length (ca_state s) = n" "length (ca_cell s) = n" "n < 2 ^ 32"
    "v < n \<Longrightarrow> ca_state s ! v = 0 \<or> ca_state s ! v = 1 \<or> ca_state s ! v = 2"
    "v < n \<Longrightarrow> ca_state s ! v = 1 \<longleftrightarrow> ca_cell s ! v \<noteq> - 1"
    "distinct todo" "f \<in> set todo \<Longrightarrow> unat f < n"
    "v < n \<Longrightarrow> ca_state s ! v = 2 \<longleftrightarrow> of_nat v \<in> set todo"
    "f \<in> set todo \<Longrightarrow> ca_state s ! unat f = 2"
  using assms by (auto simp: bfs_inv_def)

lemma bfs_inv_cong: "ca_state t = ca_state s \<Longrightarrow> ca_cell t = ca_cell s \<Longrightarrow> bfs_inv n t l = bfs_inv n s l"
  by (simp only: bfs_inv_def)

lemma card_members_le: "card (members n s c) \<le> n"
  using card_mono [of "{..<n}" "members n s c"] by (auto simp: members_def)

lemma finite_members [simp]: "finite (members n s c)"
  by (simp add: members_def)

lemma of_nat_unat_eq: "v < n \<Longrightarrow> n < 2 ^ 32 \<Longrightarrow> (of_nat v = (w :: u32)) = (v = unat w)"
  by (auto simp: unat_of_nat take_bit_nat_eq_self)

subsection \<open>Adding a node\<close>

lemma mark_frontier_node:
  assumes inv: "bfs_inv n s (node # todo)" and cell: "cell \<noteq> - 1"
  shows "bfs_inv n (mark_node cell node s) todo" "members n (mark_node cell node s) cell = insert (unat node) (members n s cell)"
    "c \<noteq> cell \<Longrightarrow> c \<noteq> - 1 \<Longrightarrow> members n (mark_node cell node s) c = members n s c"
    "unat node \<notin> members n s cell" "ca_state (mark_node cell node s) ! unat node = 1"
proof -
  note d = bfs_invD [OF inv]
  have lt: "unat node < n" "ca_state s ! unat node = 2" "node \<notin> set todo" using d(7,9) [of node] d(6) by simp_all
  have un: "ca_cell s ! unat node = - 1" using d(5) [OF lt(1)] lt(2) by simp
  have nth: "ca_state (mark_node cell node s) ! v = (if v = unat node then 1 else ca_state s ! v)"
    "ca_cell (mark_node cell node s) ! v = (if v = unat node then cell else ca_cell s ! v)" if "v < n" for v
    using d(1,2) that by (auto simp: mark_node_def)
  show "bfs_inv n (mark_node cell node s) todo"
    unfolding bfs_inv_def
  proof (intro conjI allI impI ballI)
    fix v assume v: "v < n"
    show "ca_state (mark_node cell node s) ! v \<in> {0, 1, 2}" using d(4) [OF v] by (auto simp: nth [OF v])
    show "ca_state (mark_node cell node s) ! v = 1 \<longleftrightarrow> ca_cell (mark_node cell node s) ! v \<noteq> - 1"
      using d(5) [OF v] cell by (simp add: nth [OF v])
    show "ca_state (mark_node cell node s) ! v = 2 \<longleftrightarrow> of_nat v \<in> set todo"
      using d(8) [OF v] of_nat_unat_eq [OF v d(3), of node] lt(3) by (auto simp: nth [OF v])
  qed (use d(1-3,6,7) in \<open>auto simp: mark_node_def\<close>)
  show "members n (mark_node cell node s) cell = insert (unat node) (members n s cell)"
    "c \<noteq> cell \<Longrightarrow> c \<noteq> - 1 \<Longrightarrow> members n (mark_node cell node s) c = members n s c"
    "unat node \<notin> members n s cell" "ca_state (mark_node cell node s) ! unat node = 1"
    using lt un cell d(1,2) by (auto simp: members_def mark_node_def nth_list_update)
qed

lemma mark_seed:
  assumes inv: "bfs_inv n s []" and cell: "cell \<noteq> - 1" and node: "unat node < n" "ca_state s ! unat node = 0"
  shows "bfs_inv n (mark_node cell node s) []" "members n (mark_node cell node s) cell = insert (unat node) (members n s cell)"
    "c \<noteq> cell \<Longrightarrow> c \<noteq> - 1 \<Longrightarrow> members n (mark_node cell node s) c = members n s c"
    "unat node \<notin> members n s cell" "ca_state (mark_node cell node s) ! unat node = 1"
proof -
  note d = bfs_invD [OF inv]
  have un: "ca_cell s ! unat node = - 1" using d(5) [OF node(1)] node(2) by simp
  from d(1-3) d(4,5,8) node cell show "bfs_inv n (mark_node cell node s) []"
    by (auto simp: bfs_inv_def mark_node_def nth_list_update)
  show "members n (mark_node cell node s) cell = insert (unat node) (members n s cell)"
    "c \<noteq> cell \<Longrightarrow> c \<noteq> - 1 \<Longrightarrow> members n (mark_node cell node s) c = members n s c"
    "unat node \<notin> members n s cell" "ca_state (mark_node cell node s) ! unat node = 1"
    using node un cell d(1,2) by (auto simp: members_def mark_node_def nth_list_update)
qed

text \<open>Pushing neighbours appends new nodes to the frontier and changes nothing else.\<close>

lemma push_neighbors_inv:
  assumes "bfs_inv n s (drop k (ca_frontier s))" "k \<le> length (ca_frontier s)"
    "\<And>x. x \<in> set ns \<Longrightarrow> valid x \<and> unat x < n"
  shows "\<exists>t. push_neighbors valid ns s = Inr t \<and> bfs_inv n t (drop k (ca_frontier t))
    \<and> k \<le> length (ca_frontier t) \<and> ca_cell t = ca_cell s \<and> ca_population t = ca_population s"
  using assms
proof (induction ns arbitrary: s)
  case (Cons x ns)
  let ?t = "s\<lparr>ca_state := (ca_state s)[unat x := 2], ca_frontier := ca_frontier s @ [x]\<rparr>"
  have x: "valid x" "unat x < n" using Cons.prems(3) by simp_all
  show ?case
  proof (cases "ca_state s ! unat x = 0")
    case True
    note d = bfs_invD [OF Cons.prems(1)]
    have nx: "x \<notin> set (drop k (ca_frontier s))" using d(9) [of x] True by auto
    have "ca_state ?t ! v = 2 \<longleftrightarrow> of_nat v \<in> set (drop k (ca_frontier s) @ [x])" if v: "v < n" for v
      using d(1) d(8) [OF v] of_nat_unat_eq [OF v d(3), of x] x v by (auto simp: nth_list_update)
    moreover have "ca_cell s ! unat x = - 1" using d(5) [OF x(2)] True by simp
    ultimately have "bfs_inv n ?t (drop k (ca_frontier s) @ [x])"
      using d x nx by (auto simp: bfs_inv_def nth_list_update)
    then have "bfs_inv n ?t (drop k (ca_frontier ?t))" using Cons.prems(2) by simp
    from Cons.IH [OF this] Cons.prems(2,3) show ?thesis using True x by simp
  next
    case False
    from Cons.IH [OF Cons.prems(1,2)] Cons.prems(3) show ?thesis using False x by simp
  qed
qed simp

definition good_source :: "(u32 \<Rightarrow> bool) \<Rightarrow> neighbor_source \<Rightarrow> nat \<Rightarrow> bool" where
  "good_source valid nbrs n \<longleftrightarrow>
     (\<forall>v. unat v < n \<longrightarrow> (\<exists>ns. nbrs v = Inr ns \<and> (\<forall>x \<in> set ns. valid x \<and> unat x < n)))"

lemma add_node_inv:
  assumes src: "good_source valid nbrs n" and node: "unat node < n"
    and inv: "bfs_inv n (mark_node cell node s) (drop k (ca_frontier s))" "k \<le> length (ca_frontier s)"
  shows "\<exists>t. add_node valid nbrs cell node s = Inr t \<and> bfs_inv n t (drop k (ca_frontier t))
    \<and> k \<le> length (ca_frontier t) \<and> ca_cell t = ca_cell (mark_node cell node s)
    \<and> ca_population t = ca_population s + 1"
proof -
  obtain ns where ns: "nbrs node = Inr ns" "\<And>x. x \<in> set ns \<Longrightarrow> valid x \<and> unat x < n"
    using src node by (auto simp: good_source_def)
  have f: "ca_frontier (mark_node cell node s) = ca_frontier s"
    "ca_population (mark_node cell node s) = ca_population s + 1" by (simp_all add: mark_node_def)
  from push_neighbors_inv [of n "mark_node cell node s" k ns valid] inv ns(2) f
  show ?thesis by (auto simp: add_node_def ns(1))
qed

definition cell_inv :: "nat \<Rightarrow> u32 \<Rightarrow> u32 \<Rightarrow> cell_state_t \<Rightarrow> nat \<Rightarrow> bool" where
  "cell_inv n tgt cell s k \<longleftrightarrow> bfs_inv n s (drop k (ca_frontier s)) \<and> k \<le> length (ca_frontier s)
     \<and> unat (ca_population s) = card (members n s cell) \<and> ca_population s \<le> tgt \<and> 0 < ca_population s"

definition extends :: "nat \<Rightarrow> u32 \<Rightarrow> cell_state_t \<Rightarrow> cell_state_t \<Rightarrow> bool" where
  "extends n cell s t \<longleftrightarrow> (\<forall>c. c \<noteq> cell \<longrightarrow> c \<noteq> - 1 \<longrightarrow> members n t c = members n s c)
     \<and> members n s cell \<subseteq> members n t cell"

lemma extends_trans: "extends n cell s t \<Longrightarrow> extends n cell t u \<Longrightarrow> extends n cell s u"
  by (auto simp: extends_def)

lemma members_cong: "ca_cell t = ca_cell s \<Longrightarrow> members n t c = members n s c"
  by (simp add: members_def)

lemma grow_step:
  assumes src: "good_source valid nbrs n" and cell: "cell \<noteq> - 1" and inv: "cell_inv n tgt cell s k"
    and more: "ca_population s < tgt" "k < length (ca_frontier s)"
  shows "unat (ca_frontier s ! k) < n \<and> (\<exists>t. add_node valid nbrs cell (ca_frontier s ! k) s = Inr t
    \<and> cell_inv n tgt cell t (k + 1) \<and> extends n cell s t
    \<and> unat tgt - unat (ca_population t) < unat tgt - unat (ca_population s))"
proof -
  note ci = inv [unfolded cell_inv_def]
  let ?node = "ca_frontier s ! k"
  have dr: "drop k (ca_frontier s) = ?node # drop (k + 1) (ca_frontier s)"
    using more by (simp add: Cons_nth_drop_Suc)
  have b: "bfs_inv n s (?node # drop (k + 1) (ca_frontier s))" using ci by (simp only: dr)
  note mk = mark_frontier_node [OF b cell]
  have lt: "unat ?node < n" using bfs_invD(7) [OF b] by simp
  from add_node_inv [OF src lt mk(1)] more obtain t where
    t: "add_node valid nbrs cell ?node s = Inr t" "bfs_inv n t (drop (k + 1) (ca_frontier t))"
    "k + 1 \<le> length (ca_frontier t)" "ca_cell t = ca_cell (mark_node cell ?node s)"
    "ca_population t = ca_population s + 1" by auto
  have l: "unat (ca_population s) < unat tgt" using more by (simp add: word_less_nat_alt)
  then have p1: "unat (ca_population t) = unat (ca_population s) + 1"
    using unat_add_lem [of "ca_population s" 1] unsigned_less [of tgt, where ?'a = nat] t(5) by simp
  note mt = members_cong [OF t(4)]
  have "cell_inv n tgt cell t (k + 1)"
    unfolding cell_inv_def mt mk(2) using t(2,3) p1 ci mk(4) l
    by (simp add: word_le_nat_alt word_less_nat_alt)
  moreover have "extends n cell s t" unfolding extends_def mt using mk(2,3) by auto
  ultimately show ?thesis using lt t(1) p1 l by auto
qed

lemma grow_correct:
  assumes "good_source valid nbrs n" "cell \<noteq> - 1" "cell_inv n tgt cell s k"
  shows "\<exists>t j. grow valid nbrs tgt cell k s = Inr (t, j) \<and> cell_inv n tgt cell t j \<and> extends n cell s t"
  using assms(3)
proof (induction "unat tgt - unat (ca_population s)" arbitrary: s k rule: less_induct)
  case less
  show ?case
  proof (cases "ca_population s < tgt \<and> k < length (ca_frontier s)")
    case False
    then show ?thesis using less.prems by (subst grow.simps) (auto simp: extends_def)
  next
    case True
    with grow_step [OF assms(1,2) less.prems] obtain t where
      t: "add_node valid nbrs cell (ca_frontier s ! k) s = Inr t" "cell_inv n tgt cell t (k + 1)"
        "extends n cell s t" "unat tgt - unat (ca_population t) < unat tgt - unat (ca_population s)" by blast
    from less.hyps [OF t(4,2)] t(1,3) True show ?thesis
      by (subst grow.simps) (auto intro: extends_trans)
  qed
qed

text \<open>Two sources that agree on the nodes below \<open>n\<close> drive the same traversal.\<close>

definition same_source :: "neighbor_source \<Rightarrow> neighbor_source \<Rightarrow> nat \<Rightarrow> bool" where
  "same_source nbrs nbrs' n \<longleftrightarrow> (\<forall>v. unat v < n \<longrightarrow> nbrs' v = nbrs v)"

lemma push_neighbors_cong:
  "\<forall>x \<in> set ns. valid x \<and> valid' x \<Longrightarrow> push_neighbors valid' ns s = push_neighbors valid ns s"
  by (induction ns arbitrary: s) auto

lemma add_node_cong:
  assumes "good_source valid nbrs n" "good_source valid' nbrs' n" "same_source nbrs nbrs' n" "unat node < n"
  shows "add_node valid' nbrs' cell node s = add_node valid nbrs cell node s"
proof -
  obtain ns where "nbrs node = Inr ns" "nbrs' node = Inr ns" "\<forall>x \<in> set ns. valid x \<and> valid' x"
    using assms by (fastforce simp: good_source_def same_source_def)
  then show ?thesis by (simp add: add_node_def push_neighbors_cong [of ns valid valid'])
qed

lemma grow_cong:
  assumes "good_source valid nbrs n" "good_source valid' nbrs' n" "same_source nbrs nbrs' n" "cell \<noteq> - 1"
    "cell_inv n tgt cell s k"
  shows "grow valid' nbrs' tgt cell k s = grow valid nbrs tgt cell k s"
  using assms(5)
proof (induction "unat tgt - unat (ca_population s)" arbitrary: s k rule: less_induct)
  case less
  show ?case
  proof (cases "ca_population s < tgt \<and> k < length (ca_frontier s)")
    case False
    then show ?thesis by (subst (1 2) grow.simps) auto
  next
    case True
    with grow_step [OF assms(1,4) less.prems] obtain t where
      t: "unat (ca_frontier s ! k) < n" "add_node valid nbrs cell (ca_frontier s ! k) s = Inr t"
        "cell_inv n tgt cell t (k + 1)"
        "unat tgt - unat (ca_population t) < unat tgt - unat (ca_population s)" by blast
    from less.hyps [OF t(4,3)] t(2) True add_node_cong [OF assms(1-3) t(1)] show ?thesis
      by (subst (1 2) grow.simps) simp
  qed
qed

subsection \<open>Releasing the rest of the frontier\<close>

lemma release_states_nth:
  "\<forall>f \<in> set fs. unat f < length st \<Longrightarrow> v < length st \<Longrightarrow>
     length (release_states fs st) = length st
     \<and> release_states fs st ! v = (if st ! v = 2 \<and> v \<in> unat ` set fs then 0 else st ! v)"
proof (induction fs arbitrary: st)
  case (Cons f fs)
  let ?st = "if st ! unat f = 2 then st[unat f := 0] else st"
  have l: "length ?st = length st" by simp
  from Cons.IH [of ?st] Cons.prems show ?case
    by (auto simp: nth_list_update split: if_splits)
qed simp

lemma release_inv:
  assumes "bfs_inv n s todo"
  shows "bfs_inv n (s\<lparr>ca_state := release_states todo (ca_state s)\<rparr>) []"
proof -
  note d = bfs_invD [OF assms]
  have r: "length (release_states todo (ca_state s)) = n"
    "release_states todo (ca_state s) ! v = (if ca_state s ! v = 2 then 0 else ca_state s ! v)" if v: "v < n" for v
  proof -
    have "ca_state s ! v = 2 \<Longrightarrow> v \<in> unat ` set todo"
      using d(8) [OF v] v d(3) by (force simp: unat_of_nat take_bit_nat_eq_self)
    with release_states_nth [of todo "ca_state s" v] d(1,7) v
    show "length (release_states todo (ca_state s)) = n"
      "release_states todo (ca_state s) ! v = (if ca_state s ! v = 2 then 0 else ca_state s ! v)" by auto
  qed
  have "length (release_states todo (ca_state s)) = n"
  proof (cases "n = 0")
    case True
    then have "todo = []" using d(7) by (cases todo) auto
    then show ?thesis using d(1) by simp
  qed (use r(1) in simp)
  moreover have "ca_cell s ! v = - 1" if "v < n" "of_nat v \<in> set todo" for v
    using d(5,8) [OF that(1)] that(2) by auto
  ultimately show ?thesis using r(2) d by (auto simp: bfs_inv_def)
qed

subsection \<open>The loop over the seeds\<close>

definition seeds_inv :: "nat \<Rightarrow> u32 \<Rightarrow> nat \<Rightarrow> u32 \<Rightarrow> cell_state_t \<Rightarrow> bool" where
  "seeds_inv n tgt m c s \<longleftrightarrow> bfs_inv n s [] \<and> unat c \<le> m
     \<and> (\<forall>v < n. ca_cell s ! v \<noteq> - 1 \<longrightarrow> ca_cell s ! v < c)
     \<and> (\<forall>d < c. 0 < card (members n s d) \<and> card (members n s d) \<le> unat tgt)
     \<and> (\<forall>v < m. v < n \<longrightarrow> ca_cell s ! v \<noteq> - 1)"

lemma cell_correct:
  assumes src: "good_source valid nbrs n" and tgt: "tgt \<noteq> 0" and m: "m < n"
    and inv: "seeds_inv n tgt m c s" and free: "ca_state s ! m = 0"
  shows "c \<noteq> - 1 \<and> (\<exists>t u j. add_node valid nbrs c (of_nat m) (s\<lparr>ca_frontier := [], ca_population := 0\<rparr>) = Inr t
    \<and> cell_inv n tgt c t 0 \<and> grow valid nbrs tgt c 0 t = Inr (u, j)
    \<and> seeds_inv n tgt (m + 1) (c + 1) (u\<lparr>ca_state := release_states (drop j (ca_frontier u)) (ca_state u)\<rparr>))"
proof -
  let ?s = "s\<lparr>ca_frontier := [], ca_population := 0\<rparr>"
  note i = inv [unfolded seeds_inv_def]
  have "bfs_inv n s []" using i by blast
  then have bf: "bfs_inv n ?s []" by (subst bfs_inv_cong [of _ s]) simp_all
  note n = bfs_invD(3) [OF bf]
  have um: "unat (of_nat m :: u32) = m" using m n by (simp add: unat_of_nat take_bit_nat_eq_self)
  have c: "c \<noteq> - 1"
  proof
    assume "c = - 1"
    then have "unat c = 4294967295" by (simp add: unsigned_minus_1_eq_mask mask_eq_exp_minus_1)
    moreover have "n < 4294967296" using n by simp
    ultimately show False using i m by linarith
  qed
  have uc: "unat (c + 1) = unat c + 1" using i m n unat_add_lem [of c 1] by simp
  have lts: "d < c + 1 \<longleftrightarrow> d < c \<or> d = c" for d
    by (auto simp: word_less_nat_alt uc less_Suc_eq dest: word_unat_eq_iff [THEN iffD2])
  have mem: "members n ?s d = members n s d" for d by (simp add: members_def)
  have emp: "members n s c = {}" using i c by (auto simp: members_def)
  have f: "unat (of_nat m :: u32) < n" "ca_state ?s ! unat (of_nat m :: u32) = 0" using m free um by simp_all
  note mk = mark_seed [OF bf c f, unfolded mem emp um]
  from add_node_inv [OF src, of "of_nat m" c ?s 0] mk(1) m um obtain t where
    t: "add_node valid nbrs c (of_nat m) ?s = Inr t" "bfs_inv n t (ca_frontier t)"
      "ca_cell t = ca_cell (mark_node c (of_nat m) ?s)" "ca_population t = 1" by (auto simp: mark_node_def)
  note mt = members_cong [OF t(3)]
  have "1 \<le> tgt" using tgt by (simp add: word_le_nat_alt unat_gt_0 Suc_le_eq)
  then have ct: "cell_inv n tgt c t 0" using t(2,4) mk(2) by (simp add: cell_inv_def mt)
  from grow_correct [OF src c ct] obtain u j where
    u: "grow valid nbrs tgt c 0 t = Inr (u, j)" "cell_inv n tgt c u j" "extends n c t u" by blast
  let ?u = "u\<lparr>ca_state := release_states (drop j (ca_frontier u)) (ca_state u)\<rparr>"
  have mu: "members n ?u d = members n u d" for d by (simp add: members_def)
  have old: "members n u d = members n s d" if "d < c" for d
  proof -
    have "d \<noteq> c" "d \<noteq> - 1" using that word_order.extremum_strict [of c] by auto
    then show ?thesis using u(3) mk(3) mt by (simp add: extends_def)
  qed
  have "seeds_inv n tgt (m + 1) (c + 1) ?u"
    unfolding seeds_inv_def
  proof (intro conjI allI impI)
    show "bfs_inv n ?u []" using u(2) by (intro release_inv) (simp add: cell_inv_def)
    show "unat (c + 1) \<le> m + 1" using i by (simp add: uc)
  next
    fix v assume v: "v < n" "ca_cell ?u ! v \<noteq> - 1"
    show "ca_cell ?u ! v < c + 1"
    proof (cases "ca_cell u ! v = c")
      case False
      then have "members n u (ca_cell u ! v) = members n s (ca_cell u ! v)"
        using u(3) mk(3) mt v(2) by (simp add: extends_def)
      moreover have "v \<in> members n u (ca_cell u ! v)" using v by (simp add: members_def)
      ultimately have "ca_cell s ! v = ca_cell u ! v" by (auto simp: members_def)
      then show ?thesis using i v lts by auto
    qed (simp add: lts)
  next
    fix d assume "d < c + 1"
    then have "0 < card (members n u d) \<and> card (members n u d) \<le> unat tgt"
      using lts [of d] old [of d] i u(2) by (auto simp: cell_inv_def word_le_nat_alt word_less_nat_alt)
    then show "0 < card (members n ?u d)" "card (members n ?u d) \<le> unat tgt" by (simp_all add: mu)
  next
    fix v assume v: "v < m + 1" "v < n"
    show "ca_cell ?u ! v \<noteq> - 1"
    proof (cases "v = m")
      case True
      have "m \<in> members n u c" using u(3) mk(2) mt by (auto simp: extends_def)
      then show ?thesis using True c by (simp add: members_def)
    next
      case False
      then have ne: "ca_cell s ! v \<noteq> - 1" using i v by auto
      then have "v \<in> members n u (ca_cell s ! v)"
        using i v old [of "ca_cell s ! v"] by (auto simp: members_def)
      then show ?thesis using ne by (simp add: members_def)
    qed
  qed
  with c t(1) ct u(1) show ?thesis by blast
qed

lemma assign_seeds_correct:
  assumes src: "good_source valid nbrs n" and tgt: "tgt \<noteq> 0"
  shows "seeds_inv n tgt m c s \<Longrightarrow> m \<le> n \<Longrightarrow>
    \<exists>k t. assign_seeds valid nbrs tgt (map of_nat [m..<n]) c s = Inr (ca_cell t, k) \<and> seeds_inv n tgt n k t"
proof (induction "n - m" arbitrary: m c s)
  case (Suc d)
  then have m: "m < n" by simp
  have um: "unat (of_nat m :: u32) = m"
    using m Suc.prems by (simp add: seeds_inv_def bfs_inv_def unat_of_nat take_bit_nat_eq_self)
  have up: "map of_nat [m..<n] = (of_nat m :: u32) # map of_nat [m + 1..<n]" using m by (simp add: upt_conv_Cons)
  show ?case
  proof (cases "ca_state s ! m = 0")
    case True
    from cell_correct [OF src tgt m Suc.prems(1) True] obtain t u j where
      r: "c \<noteq> - 1" "add_node valid nbrs c (of_nat m) (s\<lparr>ca_frontier := [], ca_population := 0\<rparr>) = Inr t"
        "grow valid nbrs tgt c 0 t = Inr (u, j)"
        "seeds_inv n tgt (m + 1) (c + 1) (u\<lparr>ca_state := release_states (drop j (ca_frontier u)) (ca_state u)\<rparr>)"
      by blast
    from Suc.hyps(1) [OF _ r(4)] Suc.hyps(2) m show ?thesis unfolding up by (simp add: um True r(1-3))
  next
    case False
    have b: "bfs_inv n s []" using Suc.prems by (simp add: seeds_inv_def)
    have "ca_cell s ! m \<noteq> - 1" using bfs_invD(4,5,8) [OF b m] False by simp
    then have "seeds_inv n tgt (m + 1) c s" using Suc.prems(1) by (auto simp: seeds_inv_def less_Suc_eq)
    from Suc.hyps(1) [OF _ this] Suc.hyps(2) m show ?thesis unfolding up by (simp add: um False)
  qed
qed auto

lemma assign_seeds_cong:
  assumes src: "good_source valid nbrs n" "good_source valid' nbrs' n" "same_source nbrs nbrs' n"
    and tgt: "tgt \<noteq> 0"
  shows "seeds_inv n tgt m c s \<Longrightarrow> m \<le> n \<Longrightarrow>
    assign_seeds valid' nbrs' tgt (map of_nat [m..<n]) c s = assign_seeds valid nbrs tgt (map of_nat [m..<n]) c s"
proof (induction "n - m" arbitrary: m c s)
  case (Suc d)
  then have m: "m < n" by simp
  have um: "unat (of_nat m :: u32) = m"
    using m Suc.prems by (simp add: seeds_inv_def bfs_inv_def unat_of_nat take_bit_nat_eq_self)
  have up: "map of_nat [m..<n] = (of_nat m :: u32) # map of_nat [m + 1..<n]" using m by (simp add: upt_conv_Cons)
  show ?case
  proof (cases "ca_state s ! m = 0")
    case True
    from cell_correct [OF src(1) tgt m Suc.prems(1) True] obtain t u j where
      r: "c \<noteq> - 1" "add_node valid nbrs c (of_nat m) (s\<lparr>ca_frontier := [], ca_population := 0\<rparr>) = Inr t"
        "cell_inv n tgt c t 0" "grow valid nbrs tgt c 0 t = Inr (u, j)"
        "seeds_inv n tgt (m + 1) (c + 1) (u\<lparr>ca_state := release_states (drop j (ca_frontier u)) (ca_state u)\<rparr>)"
      by blast
    have "unat (of_nat m :: u32) < n" using m um by simp
    from Suc.hyps(1) [OF _ r(5)] Suc.hyps(2) m grow_cong [OF src r(1,3)] add_node_cong [OF src this]
    show ?thesis unfolding up by (simp add: um True r(1,2,4))
  next
    case False
    have b: "bfs_inv n s []" using Suc.prems by (simp add: seeds_inv_def)
    have "ca_cell s ! m \<noteq> - 1" using bfs_invD(4,5,8) [OF b m] False by simp
    then have "seeds_inv n tgt (m + 1) c s" using Suc.prems(1) by (auto simp: seeds_inv_def less_Suc_eq)
    from Suc.hyps(1) [OF _ this] Suc.hyps(2) m show ?thesis unfolding up by (simp add: um False)
  qed
qed auto

text \<open>What an assignment promises.\<close>

definition is_partition :: "nat \<Rightarrow> nat \<Rightarrow> u32 list \<Rightarrow> u32 \<Rightarrow> bool" where
  "is_partition n target cells k \<longleftrightarrow> length cells = n \<and> (\<forall>c \<in> set cells. c < k)
     \<and> (\<forall>c < k. 0 < count_list cells c \<and> count_list cells c \<le> target)"

lemma count_list_card: "count_list xs x = card {v. v < length xs \<and> xs ! v = x}"
  by (simp add: count_list_eq_length_filter length_filter_conv_card eq_commute)

lemma seeds_inv_start:
  assumes "n < 2 ^ 32"
  shows "seeds_inv n tgt 0 0
    \<lparr>ca_state = replicate n 0, ca_cell = replicate n (- 1), ca_population = 0, ca_frontier = []\<rparr>"
  using assms by (auto simp: seeds_inv_def bfs_inv_def)

lemma assign_cells_correct:
  assumes src: "good_source valid nbrs n" and tgt: "tgt \<noteq> 0" and n: "n < 2 ^ 32"
  shows "\<exists>cells k. assign_cells valid nbrs tgt n = Inr (cells, k) \<and> is_partition n (unat tgt) cells k \<and> - 1 \<notin> set cells"
proof -
  let ?s = "\<lparr>ca_state = replicate n 0, ca_cell = replicate n (- 1), ca_population = 0, ca_frontier = []\<rparr>"
  from assign_seeds_correct [OF src tgt seeds_inv_start [OF n]] obtain k t where
    t: "assign_seeds valid nbrs tgt (map of_nat [0..<n]) 0 ?s = Inr (ca_cell t, k)" "seeds_inv n tgt n k t" by auto
  have l: "length (ca_cell t) = n" using t(2) by (simp add: seeds_inv_def bfs_inv_def)
  have "is_partition n (unat tgt) (ca_cell t) k \<and> - 1 \<notin> set (ca_cell t)"
    using t(2) l by (auto simp: is_partition_def seeds_inv_def count_list_card members_def in_set_conv_nth)
  with t(1) show ?thesis by (auto simp: assign_cells_def)
qed

lemma assign_cells_cong:
  assumes "good_source valid nbrs n" "good_source valid' nbrs' n" "same_source nbrs nbrs' n" "tgt \<noteq> 0" "n < 2 ^ 32"
  shows "assign_cells valid' nbrs' tgt n = assign_cells valid nbrs tgt n"
  using assign_seeds_cong [OF assms(1-4) seeds_inv_start [OF assms(5)]] by (simp add: assign_cells_def)

end
