(* ===== verification/IO_Assign_Load.thy ===== *)
theory IO_Assign_Load
  imports IO_Assign_Correct IO_Write
begin

text \<open>
  The cell assignment on indexes that \<open>load\<close> accepts: it always succeeds with a partition, and the
  variant that maps the artifact computes the same partition without loading it.
\<close>

lemma index_source:
  assumes "index_ok ix"
  shows "good_source (\<lambda>_. True) (neighbors_resident ix) (unat (ix_point_count ix))"
    "good_source (\<lambda>v. ucast v < ix_point_count ix) (neighbors_resident ix) (unat (ix_point_count ix))"
proof -
  have "\<exists>ns. neighbors_resident ix v = Inr ns \<and> (\<forall>x \<in> set ns. ucast x < ix_point_count ix)"
    if "unat v < unat (ix_point_count ix)" for v :: u32
  proof -
    have "ucast v < ix_point_count ix" using that by (simp add: word_less_nat_alt)
    from neighbors_resident_ok [OF _ this] assms show ?thesis
      by (auto simp: index_ok_def list_all_iff)
  qed
  moreover have "unat x < unat (ix_point_count ix)" if "ucast x < ix_point_count ix" for x :: u32
    using that by (simp add: word_less_nat_alt)
  ultimately show "good_source (\<lambda>_. True) (neighbors_resident ix) (unat (ix_point_count ix))"
    "good_source (\<lambda>v. ucast v < ix_point_count ix) (neighbors_resident ix) (unat (ix_point_count ix))"
    unfolding good_source_def by meson+
qed

definition assignable :: "u64 \<Rightarrow> u32 \<Rightarrow> bool" where
  "assignable point_count target_nodes \<longleftrightarrow> target_nodes \<noteq> 0 \<and> point_count \<noteq> 0 \<and> point_count \<le> ucast (- 1 :: u32)"

lemma assignable_bound: "point_count \<le> ucast (- 1 :: u32) \<longleftrightarrow> unat (point_count :: u64) < 2 ^ 32"
  by (auto simp: word_le_nat_alt unsigned_minus_1_eq_mask mask_eq_exp_minus_1)

lemma build_assignment_eq:
  assumes "index_ok ix" "assignable (ix_point_count ix) tgt"
  shows "build_io_global_graph_cell_assignment ix tgt
    = assign_cells (\<lambda>_. True) (neighbors_resident ix) tgt (unat (ix_point_count ix))"
proof -
  from assms(2) have n: "tgt \<noteq> 0" "ix_point_count ix \<noteq> 0" "\<not> ix_point_count ix > ucast (- 1 :: u32)"
    "unat (ix_point_count ix) < 2 ^ 32" by (auto simp: assignable_def assignable_bound not_less)
  from assign_cells_correct [OF index_source(1) [OF assms(1)] n(1,4)] obtain cells k where
    "assign_cells (\<lambda>_. True) (neighbors_resident ix) tgt (unat (ix_point_count ix)) = Inr (cells, k)"
    "- 1 \<notin> set cells" by blast
  with n(1-3) show ?thesis by (simp add: build_io_global_graph_cell_assignment_def)
qed

subsection \<open>The mapped arrays\<close>

lemma read_many_array:
  assumes "read_many (read_little w) n bs c = Inr (vs, c')"
  shows "vs = map (\<lambda>k. le_value (take w (drop (c + w * k) bs))) [0..<n]"
  using assms
proof (induction n arbitrary: c vs)
  case (Suc n)
  from Suc.prems obtain v d us where us: "read_little w bs c = Inr (v, d)" "vs = v # us"
    "read_many (read_little w) n bs d = Inr (us, c')" by (auto simp: bindE_eq_Inr)
  from us(1) have d: "d = c + w" "v = le_value (take w (drop c bs))"
    by (auto simp: read_little_def split: if_splits)
  have "[0..<Suc n] = 0 # map Suc [0..<n]" by (simp add: map_Suc_upt upt_conv_Cons del: upt_Suc)
  with Suc.IH [OF us(3)] us(2) d show ?case by (simp add: algebra_simps del: upt_Suc)
qed simp

lemma take_section:
  assumes "w * k + w \<le> unat sz"
  shows "take w (drop (w * k) (section_of bytes offset sz)) = take w (drop (unat offset + w * k) bytes)"
  using assms by (simp add: section_of_def drop_take add.commute)

lemma section_array:
  assumes r: "read_checked (read_little w) ok n (section_of bytes offset sz) 0 = Inr vs" and sz: "unat sz = w * n"
  shows "vs = map (\<lambda>k. le_value (take w (drop (unat offset + w * k) bytes))) [0..<n]"
proof -
  from r obtain c where "read_many (read_little w) n (section_of bytes offset sz) 0 = Inr (vs, c)"
    by (auto simp: read_checked_all)
  from read_many_array [OF this]
  have v: "vs = map (\<lambda>k. le_value (take w (drop (w * k) (section_of bytes offset sz)))) [0..<n]" by simp
  have "w * k + w \<le> unat sz" if "k < n" for k
    using that sz mult_le_mono2 [of "Suc k" n w] by (simp add: algebra_simps)
  then show ?thesis unfolding v by (auto simp: take_section)
qed

lemma raw_load_arrays:
  assumes len: "length bytes < 2 ^ 64" and raw: "parse_header bytes = Inr h" "h_encoding h = RAW_U32"
    and load: "load_io_optimized_index pfor disk (Some bytes) vectors topology_only False cache_pages = Inr ix"
  shows "ix_neighbor_offsets ix = array_u64 bytes (unat (h_offsets_offset h)) (unat (h_point_count h) + 1)"
    "ix_adjacency ix = array_u32 bytes (unat (h_adjacency_offset h)) (unat (h_edge_count h))"
    "ix_point_count ix = h_point_count h" "ix_edge_count ix = h_edge_count h"
    "hd (ix_neighbor_offsets ix) = 0" "last (ix_neighbor_offsets ix) = h_edge_count h"
    "sections_layout h (length bytes)" "index_ok ix" "h_point_count h \<noteq> 0"
proof -
  from load [unfolded load_resident_iff] raw(1) have
    c: "check_sections h (of_nat (length bytes)) = Inr ()" and p: "payload_supported h"
    and f: "fill_index pfor False h (resident_sections h bytes) (of_nat (length bytes)) = Inr ix"
    by auto
  show l: "sections_layout h (length bytes)" using check_sections_Inr [OF c] len by simp
  show "index_ok ix" by (rule fill_index_ok [OF f])
  show "h_point_count h \<noteq> 0" using p by (auto simp: payload_supported_def)
  from f obtain os adj where
    a: "load_adjacency pfor False h (resident_sections h bytes) = Inr (os, adj)"
    and i: "ix_neighbor_offsets ix = os" "ix_adjacency ix = adj" "ix_point_count ix = h_point_count h"
      "ix_edge_count ix = h_edge_count h"
    unfolding fill_index_iff by auto
  show "ix_point_count ix = h_point_count h" "ix_edge_count ix = h_edge_count h" by (fact i)+
  from a raw(2) have
    o: "read_checked (read_little 8) (\<lambda>_. True) (unat (h_point_count h) + 1)
          (section_of bytes (h_offsets_offset h) (h_offsets_bytes h)) 0 = Inr os" "hd os = 0" "last os = h_edge_count h"
    and ad: "read_checked (read_little 4) (\<lambda>target. ucast target < h_point_count h) (unat (h_edge_count h))
          (section_of bytes (h_adjacency_offset h) (h_adjacency_bytes h)) 0 = Inr adj"
    by (auto simp: load_adjacency_def resident_sections_def bindE_eq_Inr)
  show "hd (ix_neighbor_offsets ix) = 0" "last (ix_neighbor_offsets ix) = h_edge_count h" using o i by simp_all
  have "unat (h_offsets_bytes h) = 8 * (unat (h_point_count h) + 1)"
    "unat (h_adjacency_bytes h) = 4 * unat (h_edge_count h)"
    using l raw(2) by (simp_all add: sections_layout_def)
  from section_array [OF o(1) this(1)] section_array [OF ad this(2)]
  show "ix_neighbor_offsets ix = array_u64 bytes (unat (h_offsets_offset h)) (unat (h_point_count h) + 1)"
    "ix_adjacency ix = array_u32 bytes (unat (h_adjacency_offset h)) (unat (h_edge_count h))"
    unfolding i array_u64_def array_u32_def by simp_all
qed

lemma header_aligned:
  assumes "parse_header bytes = Inr h"
  shows "unat (h_header_bytes h) = 256 \<or> unat (h_header_bytes h) = 320"
  using parse_header_Inr [OF assms] by (auto simp: topology_consts split: if_splits)

lemma artifact_compatible_raw:
  assumes l: "sections_layout h n" and raw: "h_encoding h = RAW_U32" "h_point_count h \<noteq> 0"
    and hb: "unat (h_header_bytes h) = 256 \<or> unat (h_header_bytes h) = 320"
  shows "artifact_compatible h n \<longleftrightarrow> h_point_count h \<le> ucast (- 1 :: u32)"
proof -
  note f = l [unfolded sections_layout_def]
  have "of_nat (unat (h_offsets_bytes h)) = (of_nat ((unat (h_point_count h) + 1) * 8) :: u64)" using f by simp
  then have o: "h_offsets_bytes h = (h_point_count h + 1) * 8" by (simp add: algebra_simps)
  have "of_nat (unat (h_adjacency_bytes h)) = (of_nat (unat (h_edge_count h) * 4) :: u64)" using f raw(1) by simp
  then have a: "h_adjacency_bytes h = h_edge_count h * 4" by simp
  have fit: "unat (h_offsets_offset h) + unat (h_offsets_bytes h) \<le> n"
    "unat (h_adjacency_offset h) + unat (h_adjacency_bytes h) \<le> n"
    using f by linarith+
  have "unat (h_offsets_offset h) = unat (h_header_bytes h)"
    "unat (h_adjacency_offset h) = unat (h_header_bytes h) + (unat (h_point_count h) + 1) * 8"
    using f by simp_all
  with hb have "unat (h_offsets_offset h) mod 8 = 0 \<and> unat (h_adjacency_offset h) mod 4 = 0"
    by presburger
  then have m: "h_offsets_offset h mod 8 = 0" "h_adjacency_offset h mod 4 = 0"
    by (simp_all add: word_unat_eq_iff unat_mod)
  show ?thesis
    using raw o a m fit by (simp add: artifact_compatible_def not_less le_diff_conv2)
qed

lemma artifact_source:
  assumes ok: "index_ok ix"
  shows "same_source (neighbors_resident ix) (artifact_neighbors (ix_neighbor_offsets ix) (ix_adjacency ix))
    (unat (ix_point_count ix))"
  unfolding same_source_def
proof (intro allI impI)
  fix v :: u32 assume v: "unat v < unat (ix_point_count ix)"
  let ?o = "ix_neighbor_offsets ix" and ?m = "unat (ix_point_count ix)"
  have a: "adjacency_ok ?o (ix_adjacency ix) (ix_point_count ix) (ix_max_degree ix)"
    using ok by (simp add: index_ok_def)
  have mono: "unat (?o ! k) \<le> unat (?o ! ?m)" if "k \<le> ?m" for k
    using that
  proof (induction k rule: inc_induct)
    case (step j)
    have "unat (?o ! j) \<le> unat (?o ! Suc j)" using a step.hyps by (simp add: adjacency_ok_def)
    with step.IH show ?case by simp
  qed simp
  have "unat (?o ! unat v) \<le> unat (?o ! (unat v + 1))" using a v by (simp add: adjacency_ok_def)
  moreover have "unat (?o ! (unat v + 1)) \<le> length (ix_adjacency ix)"
    using mono [of "unat v + 1"] v a by (simp add: adjacency_ok_def)
  moreover have "ucast v < ix_point_count ix" using v by (simp add: word_less_nat_alt)
  ultimately show "artifact_neighbors ?o (ix_adjacency ix) v = neighbors_resident ix v"
    by (simp add: artifact_neighbors_def neighbors_resident_def Let_def word_less_nat_alt not_le)
qed

lemma artifact_header:
  "parse_header (take (min (length bytes) (unat k_topology_header_bytes)) bytes) = parse_header bytes"
  using parse_header_prefix [of bytes] by (cases "320 \<le> length bytes") (simp_all add: k_topology_header_bytes_def)

subsection \<open>Properties\<close>

text \<open>C19: On every well-formed index with a positive target the breadth-first cell assignment succeeds and
partitions the nodes: cells are numbered densely from 0, every node is in exactly one cell and every cell
has between one node and the target. Without points, with more points than \<open>uint32_t\<close> can name or with target 0 it
raises \<open>std::invalid_argument\<close>; the overflow and the coverage error cannot happen.\<close>

theorem cell_assignment_partitions:
  assumes "index_ok ix"
  shows "if assignable (ix_point_count ix) target_nodes
    then \<exists>cells k. build_io_global_graph_cell_assignment ix target_nodes = Inr (cells, k)
      \<and> is_partition (unat (ix_point_count ix)) (unat target_nodes) cells k
    else build_io_global_graph_cell_assignment ix target_nodes = Inl Invalid_argument"
proof (cases "assignable (ix_point_count ix) target_nodes")
  case True
  then have "target_nodes \<noteq> 0" "unat (ix_point_count ix) < 2 ^ 32" by (auto simp: assignable_def assignable_bound)
  from assign_cells_correct [OF index_source(1) [OF assms] this] True show ?thesis
    by (auto simp: build_assignment_eq [OF assms True])
qed (auto simp: assignable_def build_io_global_graph_cell_assignment_def)

lemma cell_assignment_partitions_witness:
  "\<exists>cells k. build_io_global_graph_cell_assignment (built_index sample_build 392) 1 = Inr (cells, k)
     \<and> is_partition 2 1 cells k"
proof -
  have f: "ix_point_count (built_index sample_build 392) = 2"
    by (simp add: built_index_def sample_build_def)
  have "assignable 2 1" by (simp add: assignable_def assignable_bound)
  with cell_assignment_partitions [OF sample_index_ok, of 1] show ?thesis by (simp add: f)
qed

text \<open>C31: The assignment computed from the mapped artifact, without loading it, is the assignment computed from
the loaded index, for every raw topology file that \<open>load\<close> accepts and every target, errors included.\<close>

theorem artifact_assignment_equivalent:
  assumes "length bytes < 2 ^ 64" "parse_header bytes = Inr h" "h_encoding h = RAW_U32"
    "load_io_optimized_index pfor disk (Some bytes) vectors topology_only False cache_pages = Inr ix"
  shows "assignment_from_artifact bytes target_nodes = build_io_global_graph_cell_assignment ix target_nodes"
proof -
  note r = raw_load_arrays [OF assms]
  have compat: "artifact_compatible h (length bytes) \<longleftrightarrow> h_point_count h \<le> ucast (- 1 :: u32)"
    by (rule artifact_compatible_raw [OF r(7) assms(3) r(9) header_aligned [OF assms(2)]])
  show ?thesis
  proof (cases "assignable (h_point_count h) target_nodes")
    case False
    then show ?thesis using r(9)
      by (auto simp: assignment_from_artifact_def artifact_header assms(2) compat guardE_def assignable_def
          build_io_global_graph_cell_assignment_def r(3) not_less)
  next
    case True
    then have n: "target_nodes \<noteq> 0" "unat (h_point_count h) < 2 ^ 32" "h_point_count h \<le> ucast (- 1 :: u32)"
      by (auto simp: assignable_def assignable_bound)
    have u: "unat (h_point_count h + 1) = unat (h_point_count h) + 1"
      using n(2) unat_add_lem [of "h_point_count h" 1] by simp
    have e: "unat (h_edge_count h) = length (ix_adjacency ix)" using r(2) by (simp add: array_u32_def)
    note src = index_source [OF r(8)] artifact_source [OF r(8)]
    have "good_source (\<lambda>v. ucast v < h_point_count h) (artifact_neighbors (ix_neighbor_offsets ix) (ix_adjacency ix))
        (unat (h_point_count h))"
      using src(2,3) by (simp add: good_source_def same_source_def r(3))
    from assign_cells_cong [OF src(1) [unfolded r(3)] this src(3) [unfolded r(3)] n(1,2)]
    moreover have "array_u64 bytes (unat (h_offsets_offset h)) (unat (h_point_count h + 1)) = ix_neighbor_offsets ix"
      "array_u32 bytes (unat (h_adjacency_offset h)) (unat (h_edge_count h)) = ix_adjacency ix"
      by (simp_all only: r(1,2) u)
    ultimately show ?thesis
      using True by (simp add: assignment_from_artifact_def artifact_header assms(2) compat guardE_def n Let_def
        r(5,6) e build_assignment_eq [OF r(8)] r(3))
  qed
qed

lemma artifact_assignment_equivalent_witness:
  "assignment_from_artifact sample_bytes 2 = build_io_global_graph_cell_assignment (built_index sample_build 392) 2"
proof -
  obtain h where h: "parse_header sample_bytes = Inr h" "h_encoding h = bd_encoding sample_build"
    using load_written(3) [OF sample_build_ok sample_fits sample_written(1) _ sample_fingerprint, of True None]
      sample_written(2) by auto
  show ?thesis
    by (rule artifact_assignment_equivalent [OF _ h(1) _ sample_loads])
      (simp_all add: sample_written(2) h(2), simp add: sample_build_def)
qed

end
