(* ===== verification/Community_Index.thy ===== *)
theory Community_Index
  imports IO_Guarantees
begin

text \<open>
  The part of the Community-Polar sidecar that the IO artifacts are built from
  (include/index/community_polar_index.h): the cells, their packet blocks, the node maps and the
  packet payload.  The floating-point fields (radii, angles, errors), the community graph and the
  cell hierarchy are not read by the modelled code and are left out.
\<close>

record community_polar_cell_t =
  cl_node_count :: u64
  cl_block_begin :: u64
  cl_block_count :: u32

record community_polar_block_t =
  bk_node_count :: u32
  bk_packet_record_begin :: u64

record community_polar_gateway_t =
  gw_source_node :: u32
  gw_target_node :: u32

record community_polar_index_t =
  cp_point_count :: u64
  cp_dimension :: u32
  cp_pq_code_width :: u32
  cp_base_index_fingerprint :: fingerprint_t
  cp_community_count :: nat
  cp_node_to_community :: "u32 list"
  cp_node_to_cell :: "u32 list"
  cp_node_to_packet_record :: "u64 list"
  cp_gateways :: "community_polar_gateway_t list"
  cp_cells :: "community_polar_cell_t list"
  cp_blocks :: "community_polar_block_t list"
  cp_packet_payload :: "u8 list"

end
