(* ===== verification/IO_Cell_Adj.thy ===== *)
theory IO_Cell_Adj
  imports Community_Index "HOL-Library.Product_Lexorder"
begin

text \<open>
  The cell adjacency artifact \<open>io_cell_adjacency_index_t\<close> of src/index/io_optimized_index.cc: the
  graph of the cells, in which a cell is linked to the cells that most edges of its sampled nodes
  enter.  \<open>build\<close> samples and ranks each cell and writes the file, \<open>load\<close> reads and validates it.

  The cells are ranked in parallel, each by one thread that writes only that cell's degree and slots,
  so the result does not depend on the schedule and the model takes the cells in order.  The shared
  flag \<open>invalid_packet\<close> is the disjunction of the cells' flags.
\<close>

definition k_cell_adjacency_magic :: u64 where "k_cell_adjacency_magic = 0x314A4441434C50"
definition k_cell_adjacency_version :: u32 where "k_cell_adjacency_version = 1"
definition k_cell_adjacency_header_bytes :: u32 where "k_cell_adjacency_header_bytes = 128"

lemmas cell_adjacency_consts = k_cell_adjacency_magic_def k_cell_adjacency_version_def
  k_cell_adjacency_header_bytes_def k_little_endian_marker_def

subsection \<open>Sampling and ranking one cell\<close>

text \<open>The packet record of the node with the given ordinal in the cell; \<open>None\<close> when no block holds it.\<close>

fun find_packet :: "community_polar_block_t list \<Rightarrow> u64 \<Rightarrow> u64 option" where
  "find_packet [] ordinal = None"
| "find_packet (b # bs) ordinal =
     (if ordinal < ucast (bk_node_count b) then Some (bk_packet_record_begin b + ordinal)
      else find_packet bs (ordinal - ucast (bk_node_count b)))"

definition cell_blocks :: "community_polar_index_t \<Rightarrow> community_polar_cell_t \<Rightarrow> community_polar_block_t list" where
  "cell_blocks cells cell =
     map (\<lambda>k. cp_blocks cells ! (unat (cl_block_begin cell) + k)) [0..<unat (cl_block_count cell)]"

text \<open>The sampled node: \<open>None\<close> where the code sets \<open>invalid_packet\<close> and continues.\<close>

definition sampled_node ::
  "community_polar_index_t \<Rightarrow> u32 \<Rightarrow> community_polar_cell_t \<Rightarrow> u64 \<Rightarrow> u64 \<Rightarrow> u32 option" where
  "sampled_node cells cell_id cell sample_count sample =
     (let ordinal = sample * cl_node_count cell div sample_count;
          packet = (case find_packet (cell_blocks cells cell) ordinal of None \<Rightarrow> - 1 | Some p \<Rightarrow> p);
          packet_record_bytes = 4 + ucast (cp_pq_code_width cells) in
      if packet = - 1 \<or> packet > - 1 div packet_record_bytes then None
      else
        let byte_offset = unat (packet * packet_record_bytes);
            payload = cp_packet_payload cells in
        if byte_offset > length payload \<or> length payload - byte_offset < 4 then None
        else
          let source_node = le_value (take 4 (drop byte_offset payload)) in
          if ucast source_node \<ge> cp_point_count cells \<or> cp_node_to_cell cells ! unat source_node \<noteq> cell_id
          then None else Some source_node)"

text \<open>\<open>auto& count = support[target_cell]\<close>, which starts at 0 and saturates.\<close>

definition bump_count :: "u32 \<Rightarrow> (u32 \<times> u32) list \<Rightarrow> (u32 \<times> u32) list" where
  "bump_count target_cell support =
     (let count = (case map_of support target_cell of None \<Rightarrow> 0 | Some c \<Rightarrow> c) in
      AList.update target_cell (if count \<noteq> - 1 then count + 1 else count) support)"

fun add_support ::
  "u32 list \<Rightarrow> u32 \<Rightarrow> u32 list \<Rightarrow> (u32 \<times> u32) list \<Rightarrow> (u32 \<times> u32) list" where
  "add_support node_to_cell cell_id [] support = support"
| "add_support node_to_cell cell_id (n # ns) support =
     (let target_cell = node_to_cell ! unat n in
      add_support node_to_cell cell_id ns
        (if target_cell = cell_id then support else bump_count target_cell support))"

fun sample_cell ::
  "(u32 \<Rightarrow> exn + u32 list) \<Rightarrow> u32 list \<Rightarrow> u32 \<Rightarrow> u32 option list \<Rightarrow> (u32 \<times> u32) list
    \<Rightarrow> exn + (u32 \<times> u32) list" where
  "sample_cell neighbors node_to_cell cell_id [] support = Inr support"
| "sample_cell neighbors node_to_cell cell_id (None # ss) support =
     sample_cell neighbors node_to_cell cell_id ss support"
| "sample_cell neighbors node_to_cell cell_id (Some n # ss) support =
     bindE (neighbors n) (\<lambda>ns.
       sample_cell neighbors node_to_cell cell_id ss (add_support node_to_cell cell_id ns support))"

definition rank_cells :: "u32 \<Rightarrow> (u32 \<times> u32) list \<Rightarrow> u32 list" where
  "rank_cells maximum_degree support =
     (let ranked = sort (map (\<lambda>(target_cell, c). (- 1 - c, target_cell)) support) in
      map snd (take (unat maximum_degree) ranked))"

definition cell_samples ::
  "community_polar_index_t \<Rightarrow> u32 \<Rightarrow> u32 \<Rightarrow> u32 option list" where
  "cell_samples cells sampled_nodes_per_cell cell_id =
     (let cell = cp_cells cells ! unat cell_id;
          sample_count = min (ucast sampled_nodes_per_cell) (cl_node_count cell) in
      map (\<lambda>k. sampled_node cells cell_id cell sample_count (of_nat k)) [0..<unat sample_count])"

definition cell_neighbors ::
  "(u32 \<Rightarrow> exn + u32 list) \<Rightarrow> community_polar_index_t \<Rightarrow> u32 \<Rightarrow> u32 \<Rightarrow> u32 \<Rightarrow> exn + (bool \<times> u32 list)" where
  "cell_neighbors neighbors cells sampled_nodes_per_cell maximum_degree cell_id =
     (let samples = cell_samples cells sampled_nodes_per_cell cell_id in
      bindE (sample_cell neighbors (cp_node_to_cell cells) cell_id samples []) (\<lambda>support.
        Inr (None \<in> set samples, rank_cells maximum_degree support)))"

fun all_cells :: "(u32 \<Rightarrow> exn + (bool \<times> u32 list)) \<Rightarrow> u32 list \<Rightarrow> exn + (bool \<times> u32 list list)" where
  "all_cells f [] = Inr (False, [])"
| "all_cells f (c # cs) =
     bindE (f c) (\<lambda>(bad, ns). bindE (all_cells f cs) (\<lambda>(bads, nss). Inr (bad \<or> bads, ns # nss)))"

subsection \<open>Building the artifact\<close>

text \<open>\<open>cell_offsets\<close>: the prefix sums of the degrees.\<close>

fun cell_offsets :: "u64 \<Rightarrow> u32 list list \<Rightarrow> u64 list" where
  "cell_offsets begin [] = [begin]"
| "cell_offsets begin (ns # nss) = begin # cell_offsets (begin + of_nat (length ns)) nss"

record cell_adjacency_header_t =
  ch_point_count :: u64
  ch_cell_count :: u64
  ch_edge_count :: u64
  ch_maximum_degree :: u32
  ch_sampled_nodes :: u32
  ch_fingerprint :: fingerprint_t
  ch_offsets_offset :: u64
  ch_offsets_bytes :: u64
  ch_offsets_checksum :: u64
  ch_adjacency_offset :: u64
  ch_adjacency_bytes :: u64
  ch_adjacency_checksum :: u64

definition cell_adjacency_header_fields :: "cell_adjacency_header_t \<Rightarrow> u8 list" where
  "cell_adjacency_header_fields h =
     le_bytes 8 k_cell_adjacency_magic
     @ serialize_u32 [k_cell_adjacency_version, k_cell_adjacency_header_bytes, k_little_endian_marker, 0]
     @ serialize_u64 [ch_point_count h, ch_cell_count h, ch_edge_count h]
     @ serialize_u32 [ch_maximum_degree h, ch_sampled_nodes h]
     @ serialize_u64 [fp_size (ch_fingerprint h), fp_checksum (ch_fingerprint h),
         ch_offsets_offset h, ch_offsets_bytes h, ch_offsets_checksum h,
         ch_adjacency_offset h, ch_adjacency_bytes h, ch_adjacency_checksum h]"

definition write_cell_adjacency ::
  "u64 \<Rightarrow> u64 \<Rightarrow> fingerprint_t \<Rightarrow> u32 \<Rightarrow> u32 \<Rightarrow> u64 list \<Rightarrow> u32 list \<Rightarrow> exn + u8 list" where
  "write_cell_adjacency point_count cell_count fingerprint sampled_nodes_per_cell maximum_degree offsets adjacency =
     (let offset_bytes = serialize_u64 offsets;
          adjacency_bytes = serialize_u32 adjacency;
          offsets_offset = ucast k_cell_adjacency_header_bytes in
      bindE (checked_add offsets_offset (of_nat (length offset_bytes))) (\<lambda>adjacency_offset.
      let h = \<lparr>ch_point_count = point_count, ch_cell_count = cell_count,
                ch_edge_count = of_nat (length adjacency), ch_maximum_degree = maximum_degree,
                ch_sampled_nodes = sampled_nodes_per_cell, ch_fingerprint = fingerprint,
                ch_offsets_offset = offsets_offset, ch_offsets_bytes = of_nat (length offset_bytes),
                ch_offsets_checksum = checksum_bytes offset_bytes,
                ch_adjacency_offset = adjacency_offset,
                ch_adjacency_bytes = of_nat (length adjacency_bytes),
                ch_adjacency_checksum = checksum_bytes adjacency_bytes\<rparr> in
      Inr (resize (unat k_cell_adjacency_header_bytes) (cell_adjacency_header_fields h)
           @ offset_bytes @ adjacency_bytes)))"

definition build_cell_adjacency ::
  "io_optimized_index_t \<Rightarrow> community_polar_index_t \<Rightarrow> fingerprint_t \<Rightarrow> u32 \<Rightarrow> u32 \<Rightarrow> exn + u8 list" where
  "build_cell_adjacency topology cells fingerprint sampled_nodes_per_cell maximum_degree =
     bindE (guardE (\<not> (sampled_nodes_per_cell = 0 \<or> maximum_degree = 0 \<or> cp_point_count cells = 0
         \<or> cp_cells cells = [] \<or> ix_point_count topology \<noteq> cp_point_count cells
         \<or> length (cp_node_to_cell cells) \<noteq> unat (cp_point_count cells)
         \<or> length (cp_cells cells) > unat (- 1 :: u32))) Invalid_argument) (\<lambda>_.
     bindE (checked_multiply (of_nat (length (cp_cells cells))) (ucast maximum_degree)) (\<lambda>_.
     bindE (all_cells (cell_neighbors (neighbors_resident topology) cells sampled_nodes_per_cell maximum_degree)
              (map of_nat [0..<length (cp_cells cells)])) (\<lambda>(invalid_packet, nss).
     bindE (guardE (\<not> invalid_packet) Runtime_error) (\<lambda>_.
       write_cell_adjacency (cp_point_count cells) (of_nat (length (cp_cells cells))) fingerprint
         sampled_nodes_per_cell maximum_degree (cell_offsets 0 nss) (concat nss)))))"

subsection \<open>Loading the artifact\<close>

record io_cell_adjacency_index_t =
  cx_point_count :: u64
  cx_cell_count :: u64
  cx_maximum_degree :: u32
  cx_sampled_nodes :: u32
  cx_artifact_bytes :: u64
  cx_offsets :: "u64 list"
  cx_adjacency :: "u32 list"

definition parse_cell_adjacency_header :: "u8 list \<Rightarrow> exn + cell_adjacency_header_t" where
  "parse_cell_adjacency_header bytes =
     bindE (read_little 8 bytes 0) (\<lambda>(magic, c).
     bindE (guardE (magic = k_cell_adjacency_magic) Runtime_error) (\<lambda>_.
     bindE (read_little 4 bytes c) (\<lambda>(version, c).
     bindE (guardE (version = k_cell_adjacency_version) Runtime_error) (\<lambda>_.
     bindE (read_little 4 bytes c) (\<lambda>(header_bytes, c).
     bindE (guardE (header_bytes = k_cell_adjacency_header_bytes) Runtime_error) (\<lambda>_.
     bindE (read_little 4 bytes c) (\<lambda>(marker, c).
     bindE (guardE (marker = k_little_endian_marker) Runtime_error) (\<lambda>_.
     bindE (read_little 4 bytes c) (\<lambda>(reserved :: u32, c).
     bindE (read_many (read_little 8) 3 bytes c) (\<lambda>(ns, c).
     bindE (read_many (read_little 4) 2 bytes c) (\<lambda>(ms, c).
     bindE (read_many (read_little 8) 8 bytes c) (\<lambda>(ws, c).
       Inr \<lparr>ch_point_count = ns ! 0, ch_cell_count = ns ! 1, ch_edge_count = ns ! 2,
            ch_maximum_degree = ms ! 0, ch_sampled_nodes = ms ! 1,
            ch_fingerprint = \<lparr>fp_size = ws ! 0, fp_checksum = ws ! 1\<rparr>,
            ch_offsets_offset = ws ! 2, ch_offsets_bytes = ws ! 3, ch_offsets_checksum = ws ! 4,
            ch_adjacency_offset = ws ! 5, ch_adjacency_bytes = ws ! 6, ch_adjacency_checksum = ws ! 7\<rparr>))))))))))))"

definition check_cell_adjacency_header ::
  "cell_adjacency_header_t \<Rightarrow> u64 \<Rightarrow> u64 \<Rightarrow> fingerprint_t \<Rightarrow> u64 \<Rightarrow> exn + unit" where
  "check_cell_adjacency_header h expected_point_count expected_cell_count fingerprint file_size =
     bindE (checked_multiply (ch_cell_count h + 1) 8) (\<lambda>expected_offsets_bytes.
     bindE (checked_multiply (ch_edge_count h) 4) (\<lambda>expected_adjacency_bytes.
     bindE (checked_add (ch_offsets_offset h) (ch_offsets_bytes h)) (\<lambda>expected_adjacency_offset.
     bindE (checked_add (ch_adjacency_offset h) (ch_adjacency_bytes h)) (\<lambda>expected_file_size.
     guardE (\<not> (ch_point_count h \<noteq> expected_point_count \<or> ch_cell_count h \<noteq> expected_cell_count
       \<or> ch_fingerprint h \<noteq> fingerprint \<or> ch_maximum_degree h = 0 \<or> ch_sampled_nodes h = 0
       \<or> ch_offsets_offset h \<noteq> ucast k_cell_adjacency_header_bytes
       \<or> ch_offsets_bytes h \<noteq> expected_offsets_bytes
       \<or> ch_adjacency_offset h \<noteq> expected_adjacency_offset
       \<or> ch_adjacency_bytes h \<noteq> expected_adjacency_bytes
       \<or> expected_file_size \<noteq> file_size \<or> ch_cell_count h > - 1 - 1)) Runtime_error))))"

text \<open>The loop over the edges of one cell: \<open>n\<close> edges remain from \<open>edge\<close> on.\<close>

fun check_cell_edges :: "u32 list \<Rightarrow> u64 \<Rightarrow> u64 \<Rightarrow> nat \<Rightarrow> nat \<Rightarrow> nat \<Rightarrow> exn + unit" where
  "check_cell_edges adjacency cell_count cell begin edge 0 = Inr ()"
| "check_cell_edges adjacency cell_count cell begin edge (Suc n) =
     (if edge \<ge> length adjacency then Inl Undefined_access
      else
        let target = adjacency ! edge in
        if ucast target \<ge> cell_count \<or> ucast target = cell then Inl Runtime_error
        else if target \<in> set (take (edge - begin) (drop begin adjacency)) then Inl Runtime_error
        else check_cell_edges adjacency cell_count cell begin (edge + 1) n)"

text \<open>The loop over the cells, from \<open>cell\<close> on; the offsets are those from \<open>offsets_[cell]\<close> on.\<close>

fun check_cell_degrees :: "u32 list \<Rightarrow> u64 \<Rightarrow> u32 \<Rightarrow> u64 \<Rightarrow> u64 list \<Rightarrow> exn + unit" where
  "check_cell_degrees adjacency cell_count maximum_degree cell (begin # fin # rest) =
     (if begin > fin \<or> fin - begin > ucast maximum_degree then Inl Runtime_error
      else bindE (check_cell_edges adjacency cell_count cell (unat begin) (unat begin) (unat (fin - begin))) (\<lambda>_.
        check_cell_degrees adjacency cell_count maximum_degree (cell + 1) (fin # rest)))"
| "check_cell_degrees adjacency cell_count maximum_degree cell _ = Inr ()"

definition load_cell_adjacency ::
  "u8 list option \<Rightarrow> u64 \<Rightarrow> u64 \<Rightarrow> fingerprint_t \<Rightarrow> exn + io_cell_adjacency_index_t" where
  "load_cell_adjacency path expected_point_count expected_cell_count fingerprint =
     (case path of
        None \<Rightarrow> Inl Runtime_error
      | Some bytes \<Rightarrow>
          let header = take (unat k_cell_adjacency_header_bytes) bytes;
              rest = drop (unat k_cell_adjacency_header_bytes) bytes;
              file_size = of_nat (length bytes) in
          bindE (guardE (length header = unat k_cell_adjacency_header_bytes) Runtime_error) (\<lambda>_.
          bindE (parse_cell_adjacency_header header) (\<lambda>h.
          bindE (check_cell_adjacency_header h expected_point_count expected_cell_count fingerprint file_size) (\<lambda>_.
          let offset_section = take (unat (ch_offsets_bytes h)) rest;
              adjacency_section = take (unat (ch_adjacency_bytes h)) (drop (unat (ch_offsets_bytes h)) rest) in
          bindE (guardE (length offset_section = unat (ch_offsets_bytes h)
              \<and> length adjacency_section = unat (ch_adjacency_bytes h)
              \<and> checksum_bytes offset_section = ch_offsets_checksum h
              \<and> checksum_bytes adjacency_section = ch_adjacency_checksum h) Runtime_error) (\<lambda>_.
          bindE (read_checked (read_little 8) (\<lambda>_. True) (unat (ch_cell_count h) + 1) offset_section 0) (\<lambda>offsets.
          bindE (read_checked (read_little 4) (\<lambda>_. True) (unat (ch_edge_count h)) adjacency_section 0) (\<lambda>adjacency.
          bindE (guardE (hd offsets = 0 \<and> last offsets = ch_edge_count h) Runtime_error) (\<lambda>_.
          bindE (check_cell_degrees adjacency (ch_cell_count h) (ch_maximum_degree h) 0 offsets) (\<lambda>_.
            Inr \<lparr>cx_point_count = ch_point_count h, cx_cell_count = ch_cell_count h,
                 cx_maximum_degree = ch_maximum_degree h, cx_sampled_nodes = ch_sampled_nodes h,
                 cx_artifact_bytes = file_size, cx_offsets = offsets, cx_adjacency = adjacency\<rparr>)))))))))"

definition cell_adjacency_neighbors :: "io_cell_adjacency_index_t \<Rightarrow> u32 \<Rightarrow> exn + u32 list" where
  "cell_adjacency_neighbors cx cell_id =
     (if ucast cell_id \<ge> cx_cell_count cx then Inl Out_of_range
      else
        let begin = cx_offsets cx ! unat cell_id; fin = cx_offsets cx ! (unat cell_id + 1)
        in Inr (take (unat (fin - begin)) (drop (unat begin) (cx_adjacency cx))))"

end
