(* ===== verification/IO_Cell_Adj_Correct.thy ===== *)
theory IO_Cell_Adj_Correct
  imports IO_Cell_Adj IO_Write
begin

text \<open>
  The cell adjacency artifact is correct: what \<open>load\<close> accepts is a bounded cell graph without
  loops and duplicates, what \<open>build\<close> writes is accepted and gives the ranked lists back, and the
  ranked list of a cell holds its best supported neighbour cells.
\<close>

subsection \<open>Reading the file back\<close>

lemma parse_cell_adjacency_serialized:
  "parse_cell_adjacency_header (resize 128 (cell_adjacency_header_fields h)) = Inr h"
proof -
  let ?ns = "[ch_point_count h, ch_cell_count h, ch_edge_count h]"
  let ?ms = "[ch_maximum_degree h, ch_sampled_nodes h]"
  let ?ws = "[fp_size (ch_fingerprint h), fp_checksum (ch_fingerprint h),
         ch_offsets_offset h, ch_offsets_bytes h, ch_offsets_checksum h,
         ch_adjacency_offset h, ch_adjacency_bytes h, ch_adjacency_checksum h]"
  define bs where "bs = resize 128 (cell_adjacency_header_fields h)"
  have len: "length (cell_adjacency_header_fields h) = 120"
    by (simp add: cell_adjacency_header_fields_def serialize_u32_def serialize_u64_def)
  have d0: "drop 0 bs = le_bytes 8 k_cell_adjacency_magic @ le_bytes 4 k_cell_adjacency_version
     @ le_bytes 4 k_cell_adjacency_header_bytes @ le_bytes 4 k_little_endian_marker @ le_bytes 4 (0 :: u32)
     @ concat (map (le_bytes 8) ?ns) @ concat (map (le_bytes 4) ?ms) @ concat (map (le_bytes 8) ?ws)
     @ replicate 8 0"
    by (simp add: bs_def resize_def len) (simp add: cell_adjacency_header_fields_def serialize_u32_def serialize_u64_def)
  have le0: "0 \<le> length bs" by simp
  note s0 = u64_step [OF le0 d0]
  note s1 = u32_step [OF s0 [THEN conjunct2, THEN conjunct1] s0 [THEN conjunct2, THEN conjunct2]]
  note s2 = u32_step [OF s1 [THEN conjunct2, THEN conjunct1] s1 [THEN conjunct2, THEN conjunct2]]
  note s3 = u32_step [OF s2 [THEN conjunct2, THEN conjunct1] s2 [THEN conjunct2, THEN conjunct2]]
  note s4 = u32_step [OF s3 [THEN conjunct2, THEN conjunct1] s3 [THEN conjunct2, THEN conjunct2]]
  note s5 = many_step [OF u64_codec.field_codec_axioms s4 [THEN conjunct2, THEN conjunct1]
      s4 [THEN conjunct2, THEN conjunct2], of 3]
  have t5: "read_many (read_little 8) 3 bs 24 = Inr (?ns, 48)" "48 \<le> length bs"
    "drop 48 bs = concat (map (le_bytes 4) ?ms) @ concat (map (le_bytes 8) ?ws) @ replicate 8 0"
    using s5 by simp_all
  from many_step [OF u32_codec.field_codec_axioms t5(2,3), of 2]
  have t6: "read_many (read_little 4) 2 bs 48 = Inr (?ms, 56)" "56 \<le> length bs"
    "drop 56 bs = concat (map (le_bytes 8) ?ws) @ replicate 8 0" by simp_all
  from many_step [OF u64_codec.field_codec_axioms t6(2,3), of 8]
  have t7: "read_many (read_little 8) 8 bs 56 = Inr (?ws, 120)" by simp
  have u: "read_little 8 bs 0 = Inr (k_cell_adjacency_magic, 8)" "read_little 4 bs 8 = Inr (k_cell_adjacency_version, 12)"
    "read_little 4 bs 12 = Inr (k_cell_adjacency_header_bytes, 16)" "read_little 4 bs 16 = Inr (k_little_endian_marker, 20)"
    "read_little 4 bs 20 = Inr (0 :: u32, 24)"
    using s0 s1 s2 s3 s4 by simp_all
  show ?thesis
    unfolding bs_def [symmetric]
    by (simp add: parse_cell_adjacency_header_def u t5(1) t6(1) t7(1) guardE_def)
qed

lemma load_written_cells:
  assumes w: "write_cell_adjacency pc cc fp sn md offsets adjacency = Inr bytes"
    and len: "length offsets = unat cc + 1" "length bytes < 2 ^ 64" and nz: "md \<noteq> 0" "sn \<noteq> 0"
    and ends: "hd offsets = 0" "last offsets = of_nat (length adjacency)"
  shows "load_cell_adjacency (Some bytes) pc cc fp =
    bindE (check_cell_degrees adjacency cc md 0 offsets) (\<lambda>_.
      Inr \<lparr>cx_point_count = pc, cx_cell_count = cc, cx_maximum_degree = md, cx_sampled_nodes = sn,
           cx_artifact_bytes = of_nat (length bytes), cx_offsets = offsets, cx_adjacency = adjacency\<rparr>)"
proof -
  let ?ob = "serialize_u64 offsets" and ?ab = "serialize_u32 adjacency"
  obtain ao where ao: "checked_add (ucast k_cell_adjacency_header_bytes) (of_nat (length ?ob)) = Inr ao"
    using w by (auto simp: write_cell_adjacency_def Let_def bindE_eq_Inr)
  define h where "h = \<lparr>ch_point_count = pc, ch_cell_count = cc,
                ch_edge_count = of_nat (length adjacency), ch_maximum_degree = md,
                ch_sampled_nodes = sn, ch_fingerprint = fp,
                ch_offsets_offset = ucast k_cell_adjacency_header_bytes, ch_offsets_bytes = of_nat (length ?ob),
                ch_offsets_checksum = checksum_bytes ?ob, ch_adjacency_offset = ao,
                ch_adjacency_bytes = of_nat (length ?ab), ch_adjacency_checksum = checksum_bytes ?ab\<rparr>"
  have f: "ch_point_count h = pc" "ch_cell_count h = cc" "ch_edge_count h = of_nat (length adjacency)"
    "ch_maximum_degree h = md" "ch_sampled_nodes h = sn" "ch_fingerprint h = fp"
    "ch_offsets_offset h = 128" "ch_offsets_bytes h = of_nat (length ?ob)"
    "ch_offsets_checksum h = checksum_bytes ?ob" "ch_adjacency_offset h = ao"
    "ch_adjacency_bytes h = of_nat (length ?ab)" "ch_adjacency_checksum h = checksum_bytes ?ab"
    by (simp_all add: h_def k_cell_adjacency_header_bytes_def)
  have bytes: "bytes = resize 128 (cell_adjacency_header_fields h) @ ?ob @ ?ab"
    using w ao by (simp add: write_cell_adjacency_def Let_def h_def) (simp add: k_cell_adjacency_header_bytes_def)
  have rl: "length (resize 128 (cell_adjacency_header_fields h)) = 128"
    by (simp add: resize_def cell_adjacency_header_fields_def serialize_u32_def serialize_u64_def)
  have lo: "length ?ob = 8 * (unat cc + 1)" "length ?ab = 4 * length adjacency"
    by (simp_all add: length_serialize_u64 length_serialize_u32 len)
  have tot: "length bytes = 128 + 8 * (unat cc + 1) + 4 * length adjacency" by (simp add: bytes rl lo)
  have fit: "128 + 8 * (unat cc + 1) + 4 * length adjacency < 18446744073709551616" using tot len(2) by simp
  have u: "unat (of_nat (length ?ob) :: u64) = 8 * (unat cc + 1)"
    "unat (of_nat (length ?ab) :: u64) = 4 * length adjacency"
    "unat (of_nat (length adjacency) :: u64) = length adjacency"
    "unat (of_nat (length bytes) :: u64) = length bytes"
  proof -
    have l: "length ?ob < 2 ^ 64" "length ?ab < 2 ^ 64" "length adjacency < 2 ^ 64" "length bytes < 2 ^ 64"
      using fit lo len(2) by simp_all
    show "unat (of_nat (length ?ob) :: u64) = 8 * (unat cc + 1)" by (rule trans [OF unat_of_nat_u64 [OF l(1)] lo(1)])
    show "unat (of_nat (length ?ab) :: u64) = 4 * length adjacency" by (rule trans [OF unat_of_nat_u64 [OF l(2)] lo(2)])
    show "unat (of_nat (length adjacency) :: u64) = length adjacency" "unat (of_nat (length bytes) :: u64) = length bytes"
      by (rule unat_of_nat_u64, rule l)+
  qed
  have c1: "unat (cc + 1) = unat cc + 1" using unat_add_lem [of cc 1] fit by simp
  have ao': "unat ao = 128 + 8 * (unat cc + 1)"
    using ao u(1) by (simp add: checked_add_iff k_cell_adjacency_header_bytes_def)
  have cm: "checked_multiply (cc + 1) 8 = Inr (of_nat (length ?ob))"
    "checked_multiply (of_nat (length adjacency)) 4 = Inr (of_nat (length ?ab))"
    "checked_add 128 (of_nat (length ?ob)) = Inr ao"
    "checked_add ao (of_nat (length ?ab)) = Inr (of_nat (length bytes))"
    using u c1 ao' tot by (auto intro!: checked_multiply_eq checked_add_eq)
  have small: "\<not> cc > - 1 - 1"
  proof -
    have "unat (- 1 - 1 :: u64) = 18446744073709551614" by simp
    then show ?thesis using fit by (simp add: word_less_nat_alt)
  qed
  have check: "check_cell_adjacency_header h pc cc fp (of_nat (length bytes)) = Inr ()"
    using small by (simp add: check_cell_adjacency_header_def f cm nz guardE_def k_cell_adjacency_header_bytes_def)
  have r1: "read_checked (read_little 8) (\<lambda>_. True) (Suc (unat cc)) ?ob 0 = Inr offsets"
    using read_checked_enc [OF u64_codec.field_codec_axioms, of "\<lambda>_. True" offsets] len(1)
    by (simp add: serialize_u64_def list_all_iff)
  have r2: "read_checked (read_little 4) (\<lambda>_. True) (length adjacency) ?ab 0 = Inr adjacency"
    using read_checked_enc [OF u32_codec.field_codec_axioms, of "\<lambda>_. True" adjacency]
    by (simp add: serialize_u32_def list_all_iff)
  have hb: "take 128 bytes = resize 128 (cell_adjacency_header_fields h)" "drop 128 bytes = ?ob @ ?ab"
    by (simp_all add: bytes rl)
  have ub: "unat (ch_offsets_bytes h) = length ?ob" "unat (ch_adjacency_bytes h) = length ?ab"
    "unat (ch_edge_count h) = length adjacency"
    unfolding f by (rule trans [OF u(1) lo(1) [symmetric]], rule trans [OF u(2) lo(2) [symmetric]], rule u(3))
  show ?thesis
    by (simp add: load_cell_adjacency_def Let_def k_cell_adjacency_header_bytes_def hb rl
        parse_cell_adjacency_serialized check guardE_def ub r2 del: read_checked.simps)
      (simp add: f(1-6,9,12) r1 ends del: read_checked.simps)
qed

subsection \<open>The validation of the cell graph\<close>

lemma check_cell_edges_Inr:
  "check_cell_edges adjacency cc cell begin edge n = Inr () \<longleftrightarrow>
     edge + n \<le> max edge (length adjacency)
     \<and> (\<forall>j. edge \<le> j \<and> j < edge + n \<longrightarrow> ucast (adjacency ! j) < cc \<and> ucast (adjacency ! j) \<noteq> cell
          \<and> adjacency ! j \<notin> set (take (j - begin) (drop begin adjacency)))"
proof (induction n arbitrary: edge)
  case (Suc n)
  have r: "(\<forall>j. edge \<le> j \<and> j < edge + Suc n \<longrightarrow> P j) \<longleftrightarrow> P edge \<and> (\<forall>j. edge + 1 \<le> j \<and> j < edge + 1 + n \<longrightarrow> P j)"
    for P by (auto simp: less_Suc_eq_le Suc_le_eq) (metis le_neq_implies_less)
  show ?case
    unfolding r check_cell_edges.simps(2) using Suc.IH [of "edge + 1"]
    by (auto simp: Let_def not_le max_def)
qed auto

definition cell_list_ok :: "u64 \<Rightarrow> u32 \<Rightarrow> nat \<Rightarrow> u32 list \<Rightarrow> bool" where
  "cell_list_ok cc md cell ns \<longleftrightarrow> length ns \<le> unat md \<and> distinct ns
     \<and> list_all (\<lambda>t. ucast t < cc \<and> unat t \<noteq> cell) ns"

lemma distinct_prefix: "distinct ns \<longleftrightarrow> (\<forall>j < length ns. ns ! j \<notin> set (take j ns))"
proof (induction ns rule: rev_induct)
  case (snoc x ns)
  have "(\<forall>j < length (ns @ [x]). (ns @ [x]) ! j \<notin> set (take j (ns @ [x])))
    \<longleftrightarrow> x \<notin> set ns \<and> (\<forall>j < length ns. ns ! j \<notin> set (take j ns))"
    by (auto simp: less_Suc_eq nth_append)
  then show ?case using snoc.IH by auto
qed simp

lemma check_cell_edges_slice:
  assumes "begin + n \<le> length adjacency" "cell < 2 ^ 64"
  shows "check_cell_edges adjacency cc (of_nat cell) begin begin n = Inr () \<longleftrightarrow>
    (let ns = take n (drop begin adjacency) in distinct ns \<and> list_all (\<lambda>t. ucast t < cc \<and> unat t \<noteq> cell) ns)"
proof -
  let ?ns = "take n (drop begin adjacency)"
  have len: "length ?ns = n" using assms(1) by simp
  have uc: "ucast t = (of_nat cell :: u64) \<longleftrightarrow> unat t = cell" for t :: u32
    using word_eq_of_nat [OF assms(2), of "ucast t"] by simp
  have shift: "(\<forall>j. begin \<le> j \<and> j < begin + n \<longrightarrow> P j) \<longleftrightarrow> (\<forall>i < n. P (begin + i))" for P
    by (metis add_less_cancel_left le_add1 le_add_diff_inverse)
  show ?thesis
    unfolding check_cell_edges_Inr shift Let_def distinct_prefix list_all_length len
    using assms(1) by (auto simp: uc nth_append min_def)
qed

lemma check_cell_degrees_Inr:
  assumes "check_cell_degrees adjacency cc md (of_nat c) os = Inr ()" "k + 1 < length os" "c + length os < 2 ^ 64"
  shows "unat (os ! k) \<le> unat (os ! (k + 1)) \<and> unat (os ! (k + 1)) - unat (os ! k) \<le> unat md
    \<and> (unat (os ! k) < unat (os ! (k + 1)) \<longrightarrow> unat (os ! (k + 1)) \<le> length adjacency)
    \<and> check_cell_edges adjacency cc (of_nat (c + k)) (unat (os ! k)) (unat (os ! k))
          (unat (os ! (k + 1)) - unat (os ! k)) = Inr ()"
  using assms
proof (induction adjacency cc md "of_nat c :: u64" os arbitrary: c k rule: check_cell_degrees.induct)
  case (1 adjacency cc md lo fin rest)
  from "1.prems"(1) have p: "\<not> (lo > fin \<or> fin - lo > ucast md)"
    and e: "check_cell_edges adjacency cc (of_nat c) (unat lo) (unat lo) (unat (fin - lo)) = Inr ()"
    and r: "check_cell_degrees adjacency cc md (of_nat (c + 1)) (fin # rest) = Inr ()"
    by (auto simp: bindE_eq_Inr add.commute split: if_splits)
  show ?case
  proof (cases k)
    case 0
    have le: "lo \<le> fin" using p by (simp add: not_less)
    have d: "unat (fin - lo) = unat fin - unat lo" by (rule unat_sub [OF le])
    have "unat fin - unat lo \<le> unat md" using p d by (simp add: word_le_nat_alt not_less)
    moreover have "unat lo < unat fin \<Longrightarrow> unat fin \<le> length adjacency"
      using e unfolding check_cell_edges_Inr d by (auto simp: max_def split: if_splits)
    ultimately show ?thesis using le e d by (simp add: 0 word_le_nat_alt)
  next
    case (Suc j)
    have e1: "(of_nat c + 1 :: u64) = of_nat (c + 1)" by simp
    from "1.hyps" [OF p e1 r, of j] Suc "1.prems"(2,3) show ?thesis by simp
  qed
qed simp_all

lemma load_cells_Inr:
  assumes "load_cell_adjacency path pc cc fp = Inr cx"
  shows "cx_point_count cx = pc" "cx_cell_count cx = cc" "length (cx_offsets cx) = unat cc + 1"
    "length (cx_offsets cx) * 8 < 2 ^ 64"
    "check_cell_degrees (cx_adjacency cx) cc (cx_maximum_degree cx) 0 (cx_offsets cx) = Inr ()"
    "hd (cx_offsets cx) = 0" "unat (last (cx_offsets cx)) = length (cx_adjacency cx)"
proof -
  from assms obtain bytes h os adj where
    c: "check_cell_adjacency_header h pc cc fp (of_nat (length bytes)) = Inr ()"
    and o: "read_checked (read_little 8) (\<lambda>_. True) (unat (ch_cell_count h) + 1)
        (take (unat (ch_offsets_bytes h)) (drop (unat k_cell_adjacency_header_bytes) bytes)) 0 = Inr os"
    and a: "read_checked (read_little 4) (\<lambda>_. True) (unat (ch_edge_count h))
        (take (unat (ch_adjacency_bytes h)) (drop (unat (ch_offsets_bytes h))
           (drop (unat k_cell_adjacency_header_bytes) bytes))) 0 = Inr adj"
    and e: "hd os = 0" "last os = ch_edge_count h"
    and d: "check_cell_degrees adj (ch_cell_count h) (ch_maximum_degree h) 0 os = Inr ()"
    and cx: "cx = \<lparr>cx_point_count = ch_point_count h, cx_cell_count = ch_cell_count h,
                 cx_maximum_degree = ch_maximum_degree h, cx_sampled_nodes = ch_sampled_nodes h,
                 cx_artifact_bytes = of_nat (length bytes), cx_offsets = os, cx_adjacency = adj\<rparr>"
    unfolding load_cell_adjacency_def Let_def
    by (cases path) (auto simp: bindE_eq_Inr simp del: read_checked.simps)
  from c obtain x where h: "ch_point_count h = pc" "ch_cell_count h = cc" "\<not> ch_cell_count h > - 1 - 1"
    and m: "checked_multiply (ch_cell_count h + 1) 8 = Inr x"
    by (auto simp: check_cell_adjacency_header_def bindE_eq_Inr)
  have "unat (- 1 - 1 :: u64) = 18446744073709551614" by simp
  then have "unat cc \<le> 18446744073709551614" using h by (simp add: not_less word_le_nat_alt)
  then have c1: "unat (cc + 1) = unat cc + 1" using unat_add_lem [of cc 1] by simp
  have "unat x = unat (cc + 1) * 8" using m h by (simp add: checked_multiply_iff)
  moreover have "unat x < 2 ^ 64" by simp
  ultimately have "(unat cc + 1) * 8 < 2 ^ 64" by (simp only: c1)
  then show "cx_point_count cx = pc" "cx_cell_count cx = cc" "length (cx_offsets cx) = unat cc + 1"
    "length (cx_offsets cx) * 8 < 2 ^ 64"
    "check_cell_degrees (cx_adjacency cx) cc (cx_maximum_degree cx) 0 (cx_offsets cx) = Inr ()"
    "hd (cx_offsets cx) = 0" "unat (last (cx_offsets cx)) = length (cx_adjacency cx)"
    using h e d read_checked_Inr [OF o] read_checked_Inr [OF a] by (simp_all add: cx)
qed

lemma neighbors_valid:
  assumes l: "load_cell_adjacency path pc cc fp = Inr cx" and lt: "ucast cell_id < cc"
  shows "\<exists>ns. cell_adjacency_neighbors cx cell_id = Inr ns \<and> cell_list_ok cc (cx_maximum_degree cx) (unat cell_id) ns"
proof -
  note c = load_cells_Inr [OF l]
  let ?o = "cx_offsets cx" and ?k = "unat cell_id"
  have k: "?k < unat cc" using lt by (simp add: word_less_nat_alt)
  have "check_cell_degrees (cx_adjacency cx) cc (cx_maximum_degree cx) (of_nat 0) ?o = Inr ()" using c(5) by simp
  from check_cell_degrees_Inr [OF this, of ?k] k c(3,4)
  have d: "unat (?o ! ?k) \<le> unat (?o ! (?k + 1))" "unat (?o ! (?k + 1)) - unat (?o ! ?k) \<le> unat (cx_maximum_degree cx)"
    "unat (?o ! ?k) < unat (?o ! (?k + 1)) \<Longrightarrow> unat (?o ! (?k + 1)) \<le> length (cx_adjacency cx)"
    "check_cell_edges (cx_adjacency cx) cc (of_nat ?k) (unat (?o ! ?k)) (unat (?o ! ?k))
          (unat (?o ! (?k + 1)) - unat (?o ! ?k)) = Inr ()" by simp_all
  let ?n = "unat (?o ! (?k + 1)) - unat (?o ! ?k)"
  let ?ns = "take ?n (drop (unat (?o ! ?k)) (cx_adjacency cx))"
  have sub: "unat (?o ! (?k + 1) - ?o ! ?k) = ?n" using d(1) by (simp add: unat_sub word_le_nat_alt)
  have "cell_list_ok cc (cx_maximum_degree cx) ?k ?ns"
  proof (cases "?n = 0")
    case False
    then have fit: "unat (?o ! ?k) + ?n \<le> length (cx_adjacency cx)" using d(3) by simp
    have "?k < 2 ^ 64" using unsigned_less [of cell_id, where ?'a = nat] by simp
    from check_cell_edges_slice [OF fit this, THEN iffD1, OF d(4), unfolded Let_def]
    have "distinct ?ns \<and> list_all (\<lambda>t. ucast t < cc \<and> unat t \<noteq> ?k) ?ns" .
    moreover have "length ?ns \<le> unat (cx_maximum_degree cx)" using d(2) by simp
    ultimately show ?thesis by (simp only: cell_list_ok_def)
  qed (simp add: cell_list_ok_def)
  then show ?thesis using lt c(2) by (simp add: cell_adjacency_neighbors_def not_le Let_def sub [simplified])
qed

subsection \<open>What \<open>build\<close> writes is accepted\<close>

lemma cell_offsets_hd: "\<exists>os. cell_offsets b nss = b # os"
  by (cases nss) auto

lemma check_cell_degrees_written:
  assumes "\<forall>k < length nss. cell_list_ok cc md (c + k) (nss ! k)" "length (pre @ concat nss) < 2 ^ 64" "c + length nss < 2 ^ 64"
  shows "check_cell_degrees (pre @ concat nss) cc md (of_nat c) (cell_offsets (of_nat (length pre)) nss) = Inr ()"
  using assms
proof (induction nss arbitrary: c pre)
  case (Cons ns nss)
  let ?b = "of_nat (length pre) :: u64" and ?f = "of_nat (length (pre @ ns)) :: u64"
  obtain os where os: "cell_offsets ?f nss = ?f # os" using cell_offsets_hd by blast
  have l: "length pre < 2 ^ 64" "length (pre @ ns) < 2 ^ 64" using Cons.prems(2) by simp_all
  have u: "unat ?b = length pre" "unat ?f = length (pre @ ns)" by (rule unat_of_nat_u64, rule l)+
  have le: "?b \<le> ?f" unfolding word_le_nat_alt u by simp
  have d: "unat (?f - ?b) = length ns" unfolding unat_sub [OF le] u by simp
  have ok: "cell_list_ok cc md c ns" using Cons.prems(1) [THEN spec, of 0] by simp
  then have deg: "?f - ?b \<le> ucast md" unfolding word_le_nat_alt d by (simp add: cell_list_ok_def)
  have "check_cell_edges (pre @ ns @ concat nss) cc (of_nat c) (length pre) (length pre) (length ns) = Inr ()"
    using check_cell_edges_slice [of "length pre" "length ns" "pre @ ns @ concat nss" c cc] ok Cons.prems(3)
    by (simp add: cell_list_ok_def Let_def)
  moreover have "check_cell_degrees (pre @ ns @ concat nss) cc md (of_nat (c + 1)) (?f # os) = Inr ()"
    using Cons.IH [of "c + 1" "pre @ ns"] Cons.prems unfolding os by force
  moreover have "cell_offsets ?b (ns # nss) = ?b # ?f # os" using os by simp
  ultimately show ?case using le deg d u(1) by (simp add: not_less add.commute del: unat_of_nat)
qed simp

lemma cell_offsets_eq: "cell_offsets 0 nss = edge_offsets_of nss"
proof -
  have "cell_offsets (of_nat b) nss = map (\<lambda>k. of_nat (b + length (concat (take k nss)))) [0..<Suc (length nss)]" for b
  proof (induction nss arbitrary: b)
    case (Cons ns nss)
    have "[0..<Suc (length (ns # nss))] = 0 # map Suc [0..<Suc (length nss)]"
      by (simp add: map_Suc_upt upt_conv_Cons del: upt_Suc)
    then show ?case using Cons.IH [of "b + length ns"] by (simp add: add.assoc del: upt_Suc)
  qed simp
  from this [of 0] show ?thesis by (simp add: edge_offsets_of_def del: upt_Suc)
qed

lemma written_cells_load:
  assumes w: "write_cell_adjacency pc (of_nat (length nss)) fp sn md (cell_offsets 0 nss) (concat nss) = Inr bytes"
    and len: "length bytes < 2 ^ 64" "length nss < 2 ^ 32" and nz: "md \<noteq> 0" "sn \<noteq> 0"
    and ok: "\<forall>k < length nss. cell_list_ok (of_nat (length nss)) md k (nss ! k)"
  shows "\<exists>cx. load_cell_adjacency (Some bytes) pc (of_nat (length nss)) fp = Inr cx
    \<and> (\<forall>k < length nss. cell_adjacency_neighbors cx (of_nat k) = Inr (nss ! k))"
proof -
  let ?cc = "of_nat (length nss) :: u64"
  have n: "unat ?cc = length nss" using len(2) by simp
  have lb: "length (concat nss) < 2 ^ 64"
    using w len(1) by (auto simp: write_cell_adjacency_def Let_def bindE_eq_Inr length_serialize_u32)
  have ends: "length (cell_offsets 0 nss) = unat ?cc + 1" "hd (cell_offsets 0 nss) = 0"
    "last (cell_offsets 0 nss) = of_nat (length (concat nss))"
    unfolding cell_offsets_eq n by (simp_all add: edge_offsets_of_def hd_map last_map del: upt_Suc)
  have chk: "check_cell_degrees (concat nss) ?cc md 0 (cell_offsets 0 nss) = Inr ()"
    using check_cell_degrees_written [of nss ?cc md 0 "[]"] ok lb len(2) by simp
  have "cell_adjacency_neighbors cx (of_nat k) = Inr (nss ! k)"
    if k: "k < length nss" and cx: "cx_cell_count cx = ?cc" "cx_offsets cx = cell_offsets 0 nss"
      "cx_adjacency cx = concat nss" for cx k
  proof -
    have uk: "unat (of_nat k :: u32) = k" using k len(2) by (simp add: unat_of_nat take_bit_nat_eq_self)
    let ?o = "edge_offsets_of nss"
    have o: "unat (?o ! k) = length (concat (take k nss))" "unat (?o ! (k + 1)) = length (concat (take k nss)) + length (nss ! k)"
      using k lb by (simp_all add: edge_offsets_nth take_Suc_conv_app_nth)
    then have "unat (?o ! (k + 1) - ?o ! k) = length (nss ! k)" by (simp add: unat_sub word_le_nat_alt)
    moreover have "concat nss = concat (take k nss) @ nss ! k @ concat (drop (Suc k) nss)"
      using k by (metis append_take_drop_id concat_append concat.simps(2) Cons_nth_drop_Suc)
    moreover have "\<not> ?cc \<le> ucast (of_nat k :: u32)" by (simp only: word_le_nat_alt n unat_ucast_u32 uk) (use k in simp)
    ultimately show ?thesis
      by (simp add: cell_adjacency_neighbors_def cx uk cell_offsets_eq o Let_def)
  qed
  then show ?thesis
    using load_written_cells [OF w ends(1) len(1) nz ends(2,3)] chk by simp
qed

end
