(* ===== verification/IO_Cell_Rank.thy ===== *)
theory IO_Cell_Rank
  imports IO_Cell_Adj_Correct
begin

text \<open>
  The ranking of one cell against its specification, and the properties of the cell adjacency
  artifact: \<open>cell_support\<close> counts the sampled edges that enter a cell, capped at the largest
  \<open>uint32_t\<close> as the counter of the code is, and \<open>best_supported\<close> says what \<open>rank_cells\<close> keeps.
\<close>

definition sampled_edges :: "(u32 \<Rightarrow> exn + u32 list) \<Rightarrow> u32 option list \<Rightarrow> u32 list" where
  "sampled_edges neighbors samples =
     concat (map (\<lambda>s. case s of None \<Rightarrow> [] | Some n \<Rightarrow> (case neighbors n of Inl _ \<Rightarrow> [] | Inr ns \<Rightarrow> ns)) samples)"

definition capped :: "nat \<Rightarrow> nat" where
  "capped n = min n 4294967295"

definition cell_support ::
  "(u32 \<Rightarrow> exn + u32 list) \<Rightarrow> community_polar_index_t \<Rightarrow> u32 \<Rightarrow> u32 \<Rightarrow> u32 \<Rightarrow> nat" where
  "cell_support neighbors cells sampled_nodes_per_cell cell_id t =
     (if t = cell_id then 0
      else capped (count_list (map (\<lambda>n. cp_node_to_cell cells ! unat n)
             (sampled_edges neighbors (cell_samples cells sampled_nodes_per_cell cell_id))) t))"

definition better :: "(u32 \<Rightarrow> nat) \<Rightarrow> u32 \<Rightarrow> u32 \<Rightarrow> bool" where
  "better support a b \<longleftrightarrow> support a > support b \<or> (support a = support b \<and> a < b)"

definition best_supported :: "(u32 \<Rightarrow> nat) \<Rightarrow> nat \<Rightarrow> u32 list \<Rightarrow> bool" where
  "best_supported support limit ns \<longleftrightarrow>
     sorted_wrt (better support) ns \<and> (\<forall>t \<in> set ns. 0 < support t)
     \<and> length ns = min limit (card {t. 0 < support t})
     \<and> (\<forall>t. 0 < support t \<and> t \<notin> set ns \<longrightarrow> (\<forall>a \<in> set ns. better support a t))"

subsection \<open>The support table\<close>

definition supports :: "(u32 \<times> u32) list \<Rightarrow> (u32 \<Rightarrow> nat) \<Rightarrow> bool" where
  "supports tbl f \<longleftrightarrow> distinct (map fst tbl)
     \<and> (\<forall>t. map_of tbl t = (if f t = 0 then None else Some (of_nat (capped (f t)))))"

lemma capped_less: "capped n < 4294967296"
  by (simp add: capped_def)

lemma unat_capped [simp]: "unat (of_nat (capped n) :: u32) = capped n"
  using capped_less [of n] by (simp add: unat_of_nat take_bit_nat_eq_self)

lemma capped_step:
  "(if (of_nat (capped n) :: u32) \<noteq> - 1 then of_nat (capped n) + 1 else of_nat (capped n)) = (of_nat (capped (Suc n)) :: u32)"
proof (cases "n < 4294967295")
  case True
  then have "unat (of_nat (capped n) :: u32) \<noteq> unat (- 1 :: u32)"
    unfolding unat_capped by (simp add: capped_def unsigned_minus_1_eq_mask mask_eq_exp_minus_1)
  then have "(of_nat (capped n) :: u32) \<noteq> - 1" by metis
  then show ?thesis using True by (simp add: capped_def min_def)
next
  case False
  then have "capped n = 4294967295" "capped (Suc n) = 4294967295" by (simp_all add: capped_def)
  then show ?thesis by simp
qed

lemma supports_update:
  assumes "supports tbl f"
  shows "supports (bump_count t tbl) (f(t := Suc (f t)))"
proof -
  have c: "(case map_of tbl t of None \<Rightarrow> 0 | Some c \<Rightarrow> c) = of_nat (capped (f t))"
    using assms by (simp add: supports_def capped_def)
  show ?thesis unfolding bump_count_def c Let_def capped_step using assms by (simp add: supports_def distinct_update)
qed

lemma supports_add:
  "supports tbl f \<Longrightarrow> supports (add_support ntc c ns tbl)
     (\<lambda>t. f t + (if t = c then 0 else count_list (map (\<lambda>n. ntc ! unat n) ns) t))"
proof (induction ntc c ns tbl arbitrary: f rule: add_support.induct)
  case (2 ntc c n ns tbl)
  let ?t = "ntc ! unat n"
  show ?case
  proof (cases "?t = c")
    case True
    have "(\<lambda>t. f t + (if t = c then 0 else count_list (map (\<lambda>n. ntc ! unat n) (n # ns)) t))
        = (\<lambda>t. f t + (if t = c then 0 else count_list (map (\<lambda>n. ntc ! unat n) ns) t))"
      using True by (auto simp: fun_eq_iff)
    with "2.IH" [of ?t f] "2.prems" True show ?thesis by simp
  next
    case False
    have "(\<lambda>t. f t + (if t = c then 0 else count_list (map (\<lambda>n. ntc ! unat n) (n # ns)) t))
        = (\<lambda>t. (f(?t := Suc (f ?t))) t + (if t = c then 0 else count_list (map (\<lambda>n. ntc ! unat n) ns) t))"
      using False by (auto simp: fun_eq_iff)
    with "2.IH" [of ?t "f(?t := Suc (f ?t))"] supports_update [OF "2.prems", of ?t] False show ?thesis
      by (simp add: Let_def del: fun_upd_apply)
  qed
qed (simp cong: if_cong)

lemma supports_sample:
  "sample_cell neighbors ntc c samples tbl = Inr tbl' \<Longrightarrow> supports tbl f \<Longrightarrow> supports tbl'
     (\<lambda>t. f t + (if t = c then 0 else count_list (map (\<lambda>n. ntc ! unat n) (sampled_edges neighbors samples)) t))"
proof (induction neighbors ntc c samples tbl arbitrary: f rule: sample_cell.induct)
  case (1 neighbors ntc c tbl)
  then show ?case by (simp add: sampled_edges_def cong: if_cong)
next
  case (2 neighbors ntc c ss tbl)
  then show ?case by (simp add: sampled_edges_def cong: if_cong)
next
  case (3 neighbors ntc c n ss tbl)
  from "3.prems"(1) obtain ns where ns: "neighbors n = Inr ns"
    and r: "sample_cell neighbors ntc c ss (add_support ntc c ns tbl) = Inr tbl'" by (auto simp: bindE_eq_Inr)
  from "3.IH" [OF r supports_add [OF "3.prems"(2)]] show ?case
    by (rule back_subst [of "supports tbl'"]) (auto simp: sampled_edges_def ns fun_eq_iff)
qed

subsection \<open>Sorting\<close>

lemma minus_less: "(- 1 - a < - 1 - (b :: u32)) = (b < a)"
proof -
  have "unat (- 1 - x :: u32) = 4294967295 - unat x" for x :: u32
    by (simp add: unat_sub [OF word_order.extremum] unsigned_minus_1_eq_mask mask_eq_exp_minus_1)
  moreover have "unat a < 4294967296" "unat b < 4294967296"
    using unsigned_less [of a, where ?'a = nat] unsigned_less [of b, where ?'a = nat] by simp_all
  ultimately show ?thesis by (auto simp: word_less_nat_alt)
qed

lemma rank_cells_best:
  assumes "supports tbl f"
  shows "best_supported (\<lambda>t. capped (f t)) (unat md) (rank_cells md tbl)"
proof -
  let ?g = "\<lambda>(t, c). (- 1 - c, t) :: u32 \<times> u32"
  define R where "R = sort (map ?g tbl)"
  let ?s = "\<lambda>t. capped (f t)"
  have keys: "distinct (map fst tbl)"
    and mo: "map_of tbl t = (if f t = 0 then None else Some (of_nat (capped (f t))))" for t
    using assms by (auto simp: supports_def)
  have pos: "0 < ?s t \<longleftrightarrow> f t \<noteq> 0" for t by (auto simp: capped_def)
  have mem: "(t, c) \<in> set tbl \<longleftrightarrow> 0 < ?s t \<and> c = of_nat (?s t)" for t c
    using map_of_eq_Some_iff [OF keys, of t c] mo [of t] pos [of t] by auto
  have R: "(x, t) \<in> set R \<longleftrightarrow> 0 < ?s t \<and> x = - 1 - of_nat (?s t)" for x t
  proof -
    have "(x, t) \<in> set R \<longleftrightarrow> (\<exists>c. (t, c) \<in> set tbl \<and> x = - 1 - c)" by (force simp: R_def)
    then show ?thesis by (auto simp: mem)
  qed
  have "distinct (map snd (map ?g tbl))" using keys by (simp add: case_prod_unfold comp_def)
  then have dm: "distinct (map ?g tbl)" unfolding distinct_map by blast
  then have dR: "distinct R" by (simp add: R_def)
  have bt: "better ?s t u" if "(x, t) \<in> set R" "(y, u) \<in> set R" "(x, t) < (y, u)" for x t y u
  proof -
    have "x = - 1 - of_nat (?s t)" "y = - 1 - of_nat (?s u)" using that R by auto
    moreover have "x < y \<or> x = y \<and> t < u" using that(3) by (auto simp: less_prod_simp)
    ultimately have "(of_nat (?s u) :: u32) < of_nat (?s t) \<or> (of_nat (?s t) :: u32) = of_nat (?s u) \<and> t < u"
      using minus_less by auto
    then show ?thesis
      unfolding better_def word_less_nat_alt [of "of_nat (?s u) :: u32"] word_unat_eq_iff [of "of_nat (?s t) :: u32"]
        unat_capped by blast
  qed
  have sR: "sorted_wrt (<) R" using dR by (simp add: R_def strict_sorted_iff)
  have sb: "sorted_wrt (\<lambda>p q. better ?s (snd p) (snd q)) R"
    by (rule sorted_wrt_mono_rel [OF _ sR]) (use bt in force)
  let ?k = "unat md"
  have rk: "rank_cells md tbl = map snd (take ?k R)" by (simp add: rank_cells_def R_def)
  have split: "sorted_wrt (\<lambda>p q. better ?s (snd p) (snd q)) (take ?k R @ drop ?k R)" using sb by simp
  have card: "length R = card {t. 0 < ?s t}"
  proof -
    have "{t. 0 < ?s t} = set (map fst tbl)" using mem by force
    then show ?thesis using distinct_card [OF keys] by (simp add: R_def)
  qed
  have in_drop: "(x, t) \<in> set (drop ?k R)" if "0 < ?s t" "t \<notin> set (map snd (take ?k R))" "x = - 1 - of_nat (?s t)" for x t
  proof -
    have "(x, t) \<in> set (take ?k R @ drop ?k R)" using R that by simp
    then show ?thesis using that(2) by (metis Un_iff image_eqI set_append set_map snd_conv)
  qed
  show ?thesis
    unfolding best_supported_def rk
  proof (intro conjI ballI allI impI)
    show "sorted_wrt (better ?s) (map snd (take ?k R))" using split by (simp add: sorted_wrt_map sorted_wrt_append)
    show "length (map snd (take ?k R)) = min ?k (card {t. 0 < ?s t})" by (simp add: card min.commute)
  next
    fix t assume "t \<in> set (map snd (take ?k R))"
    then show "0 < ?s t" using R by (force dest: in_set_takeD)
  next
    fix t a assume t: "0 < ?s t \<and> t \<notin> set (map snd (take ?k R))" and a: "a \<in> set (map snd (take ?k R))"
    from in_drop t have "(- 1 - of_nat (?s t), t) \<in> set (drop ?k R)" by blast
    moreover have "\<forall>p \<in> set (take ?k R). \<forall>q \<in> set (drop ?k R). better ?s (snd p) (snd q)"
      using split unfolding sorted_wrt_append by blast
    moreover obtain p where "p \<in> set (take ?k R)" "a = snd p" using a by auto
    ultimately show "better ?s a t" by fastforce
  qed
qed

lemma cell_neighbors_best:
  assumes "cell_neighbors neighbors cells sn md cell_id = Inr (bad, ns)"
  shows "best_supported (cell_support neighbors cells sn cell_id) (unat md) ns"
proof -
  from assms obtain tbl where
    t: "sample_cell neighbors (cp_node_to_cell cells) cell_id (cell_samples cells sn cell_id) [] = Inr tbl"
    and ns: "ns = rank_cells md tbl" by (auto simp: cell_neighbors_def Let_def bindE_eq_Inr)
  have "supports [] (\<lambda>_. 0)" by (simp add: supports_def)
  from rank_cells_best [OF supports_sample [OF t this]] have
    "best_supported (\<lambda>t. capped (0 + (if t = cell_id then 0 else count_list (map (\<lambda>n. cp_node_to_cell cells ! unat n)
       (sampled_edges neighbors (cell_samples cells sn cell_id))) t))) (unat md) ns" by (simp only: ns)
  then show ?thesis
    by (rule back_subst [of "\<lambda>f. best_supported f (unat md) ns"])
      (auto simp: fun_eq_iff cell_support_def capped_def)
qed

subsection \<open>From \<open>build\<close> to \<open>load\<close>\<close>

lemma all_cells_Inr:
  "all_cells f cs = Inr (bad, nss) \<Longrightarrow> length nss = length cs
     \<and> (\<forall>k < length cs. \<exists>b. f (cs ! k) = Inr (b, nss ! k) \<and> (b \<longrightarrow> bad))"
proof (induction cs arbitrary: bad nss)
  case (Cons c cs)
  from Cons.prems obtain b ns bads rest where
    r: "f c = Inr (b, ns)" "all_cells f cs = Inr (bads, rest)" "bad = (b \<or> bads)" "nss = ns # rest"
    by (auto simp: bindE_eq_Inr)
  have "\<exists>b. f ((c # cs) ! k) = Inr (b, nss ! k) \<and> (b \<longrightarrow> bad)" if "k < length (c # cs)" for k
    using that Cons.IH [OF r(2)] r by (cases k) auto
  then show ?case using Cons.IH [OF r(2)] r(4) by simp
qed simp

lemma sampled_nodes_ok:
  "Some n \<in> set (cell_samples cells sn c) \<Longrightarrow> ucast n < cp_point_count cells"
  by (auto simp: cell_samples_def sampled_node_def Let_def not_le split: if_splits)

lemma sampled_edges_ok:
  assumes "index_ok ix" "ix_point_count ix = cp_point_count cells" "x \<in> set (sampled_edges (neighbors_resident ix) (cell_samples cells sn c))"
  shows "unat x < unat (cp_point_count cells)"
proof -
  from assms(3) obtain n ns where n: "Some n \<in> set (cell_samples cells sn c)" "neighbors_resident ix n = Inr ns" "x \<in> set ns"
    by (auto simp: sampled_edges_def split: option.splits sum.splits) metis
  have "ucast n < ix_point_count ix" using sampled_nodes_ok [OF n(1)] assms(2) by simp
  from neighbors_resident_ok [OF _ this] assms(1) n(2,3) have "ucast x < ix_point_count ix"
    by (auto simp: index_ok_def list_all_iff)
  then show ?thesis by (simp add: assms(2) word_less_nat_alt)
qed

lemma best_list_ok:
  assumes ix: "index_ok ix" "ix_point_count ix = cp_point_count cells"
    and map: "length (cp_node_to_cell cells) = unat (cp_point_count cells)"
      "\<forall>c \<in> set (cp_node_to_cell cells). unat c < unat cc"
    and best: "best_supported (cell_support (neighbors_resident ix) cells sn c) (unat md) ns"
  shows "cell_list_ok cc md (unat c) ns"
proof -
  let ?s = "cell_support (neighbors_resident ix) cells sn c"
  have "sorted_wrt (\<lambda>a b. a \<noteq> b) ns"
    by (rule sorted_wrt_mono_rel [of _ "better ?s"]) (use best in \<open>auto simp: best_supported_def better_def\<close>)
  then have "distinct ns" by (simp add: distinct_conv_nth sorted_wrt_iff_nth_less) (metis linorder_neqE_nat)
  moreover have "ucast t < cc \<and> unat t \<noteq> unat c" if t: "t \<in> set ns" for t
  proof -
    have "0 < ?s t" using best t by (simp add: best_supported_def)
    then have ne: "t \<noteq> c" and "count_list (map (\<lambda>n. cp_node_to_cell cells ! unat n)
        (sampled_edges (neighbors_resident ix) (cell_samples cells sn c))) t \<noteq> 0"
      by (auto simp: cell_support_def capped_def split: if_splits)
    then have "t \<in> set (map (\<lambda>n. cp_node_to_cell cells ! unat n)
        (sampled_edges (neighbors_resident ix) (cell_samples cells sn c)))"
      by (metis count_list_0_iff)
    then obtain n where "n \<in> set (sampled_edges (neighbors_resident ix) (cell_samples cells sn c))"
      "t = cp_node_to_cell cells ! unat n" by auto
    then have "t \<in> set (cp_node_to_cell cells)" using sampled_edges_ok [OF ix] map(1) by simp
    then show ?thesis using map(2) ne by (simp add: word_less_nat_alt word_unat_eq_iff)
  qed
  moreover have "length ns \<le> unat md" using best by (simp add: best_supported_def)
  ultimately show ?thesis by (auto simp: cell_list_ok_def list_all_iff)
qed

subsection \<open>Properties\<close>

text \<open>C32: Ranking is exact: the neighbours kept for a cell are its best supported target cells. Support is the
number of sampled edges into the target, capped at the largest \<open>uint32_t\<close>; the kept list is in strictly
decreasing order of support, ties by the smaller cell, holds as many supported cells as the degree limit allows, and
every supported cell left out ranks after every kept one.\<close>

theorem cell_ranking_exact:
  assumes "cell_neighbors neighbors cells sampled_nodes_per_cell maximum_degree cell_id = Inr (bad, ns)"
  shows "best_supported (cell_support neighbors cells sampled_nodes_per_cell cell_id) (unat maximum_degree) ns"
  by (rule cell_neighbors_best [OF assms])

definition sample_cells :: community_polar_index_t where
  "sample_cells = \<lparr>cp_point_count = 2, cp_dimension = 1, cp_pq_code_width = 0,
     cp_base_index_fingerprint = \<lparr>fp_size = 0, fp_checksum = 0\<rparr>, cp_community_count = 1,
     cp_node_to_community = [0, 0], cp_node_to_cell = [0, 1], cp_node_to_packet_record = [0, 1], cp_gateways = [],
     cp_cells = [\<lparr>cl_node_count = 1, cl_block_begin = 0, cl_block_count = 1\<rparr>,
                 \<lparr>cl_node_count = 1, cl_block_begin = 1, cl_block_count = 1\<rparr>],
     cp_blocks = [\<lparr>bk_node_count = 1, bk_packet_record_begin = 0\<rparr>, \<lparr>bk_node_count = 1, bk_packet_record_begin = 1\<rparr>],
     cp_packet_payload = [0, 0, 0, 0, 1, 0, 0, 0]\<rparr>"

lemma sample_neighbors:
  "neighbors_resident (built_index sample_build 392) 0 = Inr [1]"
  "neighbors_resident (built_index sample_build 392) 1 = Inr [0]"
  by (simp_all add: neighbors_resident_def built_index_def sample_build_def edge_offsets_of_def word_le_nat_alt)

lemma sample_ranks:
  "cell_neighbors (neighbors_resident (built_index sample_build 392)) sample_cells 1 1 0 = Inr (False, [1])"
  "cell_neighbors (neighbors_resident (built_index sample_build 392)) sample_cells 1 1 1 = Inr (False, [0])"
  by (simp_all add: cell_neighbors_def cell_samples_def sample_cells_def sampled_node_def cell_blocks_def Let_def
      le_value_def sample_neighbors bump_count_def rank_cells_def word_le_nat_alt)

lemma cell_ranking_exact_witness:
  "best_supported (cell_support (neighbors_resident (built_index sample_build 392)) sample_cells 1 0) 1 [1]"
  using cell_ranking_exact [OF sample_ranks(1)] by simp

text \<open>C20: Building and loading agree: for a well-formed topology and sidecar, the file that \<open>build\<close> writes is
accepted by \<open>load\<close> with the same shape and fingerprint, and every cell then has as neighbours exactly the list
that was ranked for it.\<close>

theorem cell_adjacency_roundtrip:
  assumes "index_ok topology" "\<forall>c \<in> set (cp_node_to_cell cells). unat c < length (cp_cells cells)"
    "build_cell_adjacency topology cells fingerprint sampled_nodes_per_cell maximum_degree = Inr bytes"
    "length bytes < 2 ^ 64"
  shows "\<exists>cx. load_cell_adjacency (Some bytes) (cp_point_count cells) (of_nat (length (cp_cells cells))) fingerprint = Inr cx
    \<and> (\<forall>k < length (cp_cells cells). \<exists>ns.
         cell_neighbors (neighbors_resident topology) cells sampled_nodes_per_cell maximum_degree (of_nat k) = Inr (False, ns)
         \<and> cell_adjacency_neighbors cx (of_nat k) = Inr ns)"
proof -
  let ?n = "length (cp_cells cells)"
  let ?f = "cell_neighbors (neighbors_resident topology) cells sampled_nodes_per_cell maximum_degree"
  from assms(3) obtain nss where g: "sampled_nodes_per_cell \<noteq> 0" "maximum_degree \<noteq> 0"
    "ix_point_count topology = cp_point_count cells" "length (cp_node_to_cell cells) = unat (cp_point_count cells)"
    "\<not> ?n > unat (- 1 :: u32)"
    and a: "all_cells ?f (map of_nat [0..<?n]) = Inr (False, nss)"
    and w: "write_cell_adjacency (cp_point_count cells) (of_nat ?n) fingerprint
         sampled_nodes_per_cell maximum_degree (cell_offsets 0 nss) (concat nss) = Inr bytes"
    by (auto simp: build_cell_adjacency_def bindE_eq_Inr)
  have n: "?n < 2 ^ 32" using g(5) by (simp add: unsigned_minus_1_eq_mask mask_eq_exp_minus_1)
  have len: "length nss = ?n" and nb: "\<And>k. k < ?n \<Longrightarrow> ?f (of_nat k) = Inr (False, nss ! k)"
    using all_cells_Inr [OF a] by auto
  have un: "unat (of_nat ?n :: u64) = ?n" using n by simp
  have "cell_list_ok (of_nat ?n) maximum_degree k (nss ! k)" if k: "k < ?n" for k
  proof -
    have "unat (of_nat k :: u32) = k" using k n by (simp add: unat_of_nat take_bit_nat_eq_self)
    with best_list_ok [OF assms(1) g(3,4) _ cell_neighbors_best [OF nb [OF k]], of "of_nat ?n"] assms(2) un
    show ?thesis by simp
  qed
  with written_cells_load [of "cp_point_count cells" nss fingerprint sampled_nodes_per_cell maximum_degree bytes]
    w assms(4) n g(1,2) len nb show ?thesis by simp
qed

lemma cell_adjacency_roundtrip_witness:
  "\<exists>bytes cx. build_cell_adjacency (built_index sample_build 392) sample_cells \<lparr>fp_size = 0, fp_checksum = 0\<rparr> 1 1 = Inr bytes
     \<and> load_cell_adjacency (Some bytes) 2 2 \<lparr>fp_size = 0, fp_checksum = 0\<rparr> = Inr cx
     \<and> cell_adjacency_neighbors cx 1 = Inr [0]"
proof -
  let ?ix = "built_index sample_build 392"
  have c: "cp_point_count sample_cells = 2" "length (cp_cells sample_cells) = 2" "cp_node_to_cell sample_cells = [0, 1]"
    "cp_cells sample_cells \<noteq> []" by (simp_all add: sample_cells_def)
  have p: "ix_point_count ?ix = 2" by (simp add: built_index_def sample_build_def)
  have u: "map of_nat [0..<2] = [0, 1 :: u32]" by (simp add: numeral_2_eq_2)
  obtain bytes where b: "build_cell_adjacency ?ix sample_cells \<lparr>fp_size = 0, fp_checksum = 0\<rparr> 1 1 = Inr bytes"
    "length bytes = 160"
    by (simp add: build_cell_adjacency_def c p sample_ranks guardE_def checked_multiply_def
        write_cell_adjacency_def Let_def checked_add_def k_cell_adjacency_header_bytes_def unat_minus_one u
        unsigned_minus_1_eq_mask mask_eq_exp_minus_1 resize_def cell_adjacency_header_fields_def length_sections)
  from cell_adjacency_roundtrip [OF sample_index_ok _ b(1)] b(2) c obtain cx where
    l: "load_cell_adjacency (Some bytes) 2 2 \<lparr>fp_size = 0, fp_checksum = 0\<rparr> = Inr cx"
      "\<forall>k < 2. \<exists>ns. cell_neighbors (neighbors_resident ?ix) sample_cells 1 1 (of_nat k) = Inr (False, ns)
         \<and> cell_adjacency_neighbors cx (of_nat k) = Inr ns" by auto
  from l(2) [THEN spec, of 1] obtain ns where
    n: "cell_neighbors (neighbors_resident ?ix) sample_cells 1 1 1 = Inr (False, ns)"
      "cell_adjacency_neighbors cx 1 = Inr ns" by auto
  from n(1) have "ns = [0]" by (simp add: sample_ranks)
  with b(1) l(1) n(2) show ?thesis by auto
qed

text \<open>C33: Whatever bytes the file holds, a cell graph that \<open>load\<close> returns is safe to use: an unknown cell raises
\<open>std::out_of_range\<close>, and every cell has at most \<open>maximum_degree\<close> neighbours, all distinct, all existing cells and
none the cell itself.\<close>

theorem loaded_cell_graph_valid:
  assumes "load_cell_adjacency path point_count cell_count fingerprint = Inr cx"
  shows "cx_point_count cx = point_count \<and> cx_cell_count cx = cell_count
    \<and> (if ucast cell_id \<ge> cell_count then cell_adjacency_neighbors cx cell_id = Inl Out_of_range
       else \<exists>ns. cell_adjacency_neighbors cx cell_id = Inr ns
         \<and> cell_list_ok cell_count (cx_maximum_degree cx) (unat cell_id) ns)"
  using neighbors_valid [OF assms, of cell_id] load_cells_Inr(1,2) [OF assms]
  by (auto simp: cell_adjacency_neighbors_def not_le)

definition two_cells :: "u64 list \<Rightarrow> u32 list \<Rightarrow> u8 list" where
  "two_cells offsets adjacency =
     (case write_cell_adjacency 2 2 \<lparr>fp_size = 0, fp_checksum = 0\<rparr> 1 3 offsets adjacency of Inl _ \<Rightarrow> [] | Inr bytes \<Rightarrow> bytes)"

lemma two_cells_written:
  assumes "length offsets = 3" "length adjacency = n" "n < 100"
  shows "write_cell_adjacency 2 2 \<lparr>fp_size = 0, fp_checksum = 0\<rparr> 1 3 offsets adjacency = Inr (two_cells offsets adjacency)"
    "length (two_cells offsets adjacency) < 2 ^ 64"
  using assms
  by (simp_all add: two_cells_def write_cell_adjacency_def Let_def checked_add_def k_cell_adjacency_header_bytes_def
      unat_minus_one resize_def cell_adjacency_header_fields_def length_sections)

lemma loaded_cell_graph_valid_witness:
  "\<exists>cx ns. load_cell_adjacency (Some (two_cells [0, 1, 1] [1])) 2 2 \<lparr>fp_size = 0, fp_checksum = 0\<rparr> = Inr cx
     \<and> cell_adjacency_neighbors cx 0 = Inr ns \<and> cell_list_ok 2 (cx_maximum_degree cx) 0 ns"
proof -
  obtain cx where l: "load_cell_adjacency (Some (two_cells [0, 1, 1] [1])) 2 2 \<lparr>fp_size = 0, fp_checksum = 0\<rparr> = Inr cx"
    using load_written_cells [OF two_cells_written(1) _ two_cells_written(2), of "[0, 1, 1]" "[1]" 1]
    by (simp add: Let_def word_le_nat_alt)
  from loaded_cell_graph_valid [OF this, of 0] l show ?thesis by (auto split: if_splits)
qed

text \<open>The validation of \<open>load\<close> reads outside of the adjacency: it trusts each offset before it has seen the next
ones, so a file with valid checksums whose offsets are not monotone makes the loop over the edges of a cell run past
the end of the adjacency instead of being rejected.\<close>

theorem cell_adjacency_overread:
  "load_cell_adjacency (Some (two_cells [0, 3, 1] [1])) 2 2 \<lparr>fp_size = 0, fp_checksum = 0\<rparr> = Inl Undefined_access"
proof -
  have "check_cell_edges [1] 2 0 0 0 3 = Inl Undefined_access" by (simp add: numeral_3_eq_3 Let_def word_le_nat_alt)
  then show ?thesis
    using load_written_cells [OF two_cells_written(1) _ two_cells_written(2), of "[0, 3, 1]" "[1]" 1]
    by (simp add: Let_def word_le_nat_alt)
qed

end
