(* ===== verification/IO_Sidecar.thy ===== *)
theory IO_Sidecar
  imports IO_Guarantees
begin

text \<open>
  Reading the Base disk metadata and the Cell sidecar's directory, the structural comparison of two
  sidecars and the rebinding of a topology file to a replacement sidecar
  (src/index/io_optimized_index.cc).  Files are byte lists, \<open>None\<close> when they cannot be opened; a stream
  that was positioned with \<open>seekg\<close> is the rest of the file from there.
\<close>

subsection \<open>Base disk metadata\<close>

record disk_layout_metadata_t =
  dm_point_count :: u64
  dm_dimension :: u64
  dm_max_node_len :: u64
  dm_nodes_per_sector :: u64
  dm_max_degree :: u32

definition read_disk_layout_metadata :: "u8 list option \<Rightarrow> exn + disk_layout_metadata_t" where
  "read_disk_layout_metadata disk =
     (case disk of
        None \<Rightarrow> Inl Runtime_error
      | Some input \<Rightarrow>
          bindE (read_many (read_little 4) 2 input 0) (\<lambda>(rc :: u32 list, c).
          bindE (read_many (read_little 8) 8 input c) (\<lambda>(ws :: u64 list, c).
          let rows = rc ! 0; columns = rc ! 1; point_count = ws ! 0; dimension = ws ! 1; medoid = ws ! 2;
              max_node_len = ws ! 3; nodes_per_sector = ws ! 4; reorder_exists = ws ! 7 in
          bindE (guardE (\<not> (rows < 9 \<or> columns \<noteq> 1 \<or> point_count = 0 \<or> dimension = 0
              \<or> medoid \<ge> point_count \<or> reorder_exists \<noteq> 0)) Runtime_error) (\<lambda>_.
          bindE (if rows = 9
                 then bindE (read_little 8 input c) (\<lambda>(declared_file_size :: u64, _).
                        guardE (declared_file_size = of_nat (length input)) Runtime_error)
                 else Inr ()) (\<lambda>_.
          bindE (checked_multiply dimension 4) (\<lambda>vector_bytes.
          bindE (guardE (\<not> (max_node_len \<le> vector_bytes + 4 \<or> (max_node_len - vector_bytes) mod 4 \<noteq> 0))
                  Runtime_error) (\<lambda>_.
          let degree = (max_node_len - vector_bytes) div 4 - 1 in
          bindE (guardE (\<not> degree > ucast (- 1 :: u32)) Runtime_error) (\<lambda>_.
            Inr \<lparr>dm_point_count = point_count, dm_dimension = dimension, dm_max_node_len = max_node_len,
                 dm_nodes_per_sector = nodes_per_sector, dm_max_degree = ucast degree\<rparr>))))))))"

subsection \<open>The directory of a Cell sidecar\<close>

record cell_section_t =
  cs_id :: u32
  cs_offset :: u64
  cs_length :: u64
  cs_count :: u64

record cell_sidecar_descriptor_t =
  sd_point_count :: u64
  sd_dimension :: u32
  sd_pq_width :: u32
  sd_body_checksum :: u64
  sd_base_size :: u64
  sd_base_checksum :: u64
  sd_header_bytes :: u32
  sd_sections :: "cell_section_t list"

definition k_cell_magic :: u64 where "k_cell_magic = 0x0058444950434C50"
definition k_fixed_bytes :: nat where "k_fixed_bytes = 96"
definition k_entry_bytes :: nat where "k_entry_bytes = 32"
definition k_sections :: nat where "k_sections = 18"

text \<open>The loop over the directory entries: \<open>n\<close> entries remain, the next must have the given id and offset.
  It returns the sections and the offset behind the last one.\<close>

fun read_directory ::
  "nat \<Rightarrow> u32 \<Rightarrow> u64 \<Rightarrow> u8 list \<Rightarrow> nat \<Rightarrow> exn + (cell_section_t list \<times> u64)" where
  "read_directory 0 section next_offset directory cursor = Inr ([], next_offset)"
| "read_directory (Suc n) section next_offset directory cursor =
     bindE (read_little 4 directory cursor) (\<lambda>(id, c).
     bindE (read_little 4 directory c) (\<lambda>(reserved :: u32, c).
     bindE (read_little 8 directory c) (\<lambda>(offset, c).
     bindE (read_little 8 directory c) (\<lambda>(length, c).
     bindE (read_little 8 directory c) (\<lambda>(count, c).
     bindE (guardE (\<not> (id \<noteq> section \<or> offset \<noteq> next_offset)) Runtime_error) (\<lambda>_.
     bindE (checked_add offset length) (\<lambda>next_offset'.
     bindE (read_directory n (section + 1) next_offset' directory c) (\<lambda>(sections, last_offset).
       Inr (\<lparr>cs_id = id, cs_offset = offset, cs_length = length, cs_count = count\<rparr> # sections, last_offset)))))))))"

definition read_cell_sidecar_descriptor :: "u8 list \<Rightarrow> exn + cell_sidecar_descriptor_t" where
  "read_cell_sidecar_descriptor input =
     (let fixed = take k_fixed_bytes input in
      bindE (guardE (length fixed = k_fixed_bytes) Runtime_error) (\<lambda>_.
      bindE (read_little 8 fixed 0) (\<lambda>(magic, c).
      bindE (guardE (magic = k_cell_magic) Runtime_error) (\<lambda>_.
      bindE (read_many (read_little 4) 4 fixed c) (\<lambda>(vs, c).
      let version = vs ! 0; header_bytes = vs ! 1; byte_order = vs ! 2; section_count = vs ! 3 in
      bindE (guardE (\<not> (byte_order \<noteq> k_little_endian_marker \<or> section_count \<noteq> of_nat k_sections
          \<or> version < 5 \<or> version > 7
          \<or> header_bytes \<noteq> of_nat (k_fixed_bytes + k_sections * k_entry_bytes))) Runtime_error) (\<lambda>_.
      bindE (read_little 8 fixed c) (\<lambda>(point_count, c).
      bindE (read_many (read_little 4) 2 fixed c) (\<lambda>(ds, c).
      bindE (read_many (read_little 8) 6 fixed c) (\<lambda>(ws, c).
      let body_bytes = ws ! 5;
          directory = take (unat header_bytes - k_fixed_bytes) (drop k_fixed_bytes input) in
      bindE (guardE (length directory = unat header_bytes - k_fixed_bytes) Runtime_error) (\<lambda>_.
      bindE (read_directory k_sections 1 (ucast header_bytes) directory 0) (\<lambda>(sections, next_offset).
      bindE (guardE (\<not> (next_offset \<noteq> ucast header_bytes + body_bytes
          \<or> next_offset \<noteq> of_nat (length input))) Runtime_error) (\<lambda>_.
        Inr \<lparr>sd_point_count = point_count, sd_dimension = ds ! 0, sd_pq_width = ds ! 1,
             sd_body_checksum = ws ! 0, sd_base_size = ws ! 1, sd_base_checksum = ws ! 2,
             sd_header_bytes = header_bytes, sd_sections = sections\<rparr>))))))))))))"

subsection \<open>Comparing two sidecars\<close>

text \<open>A stream is read record by record, hashed, and compared under \<open>same\<close>; the result is the two hashes.\<close>

fun compare_records ::
  "nat \<Rightarrow> nat \<Rightarrow> (u8 list \<Rightarrow> u8 list \<Rightarrow> bool) \<Rightarrow> nat \<Rightarrow> u8 list \<Rightarrow> u8 list \<Rightarrow> u64 \<Rightarrow> u64 \<Rightarrow> exn + (u64 \<times> u64)" where
  "compare_records lw rw same 0 left right lh rh = Inr (lh, rh)"
| "compare_records lw rw same (Suc n) left right lh rh =
     (if length left < lw \<or> length right < rw then Inl Runtime_error
      else if \<not> same (take lw left) (take rw right) then Inl Runtime_error
      else compare_records lw rw same n (drop lw left) (drop rw right)
             (hash_bytes lh (take lw left)) (hash_bytes rh (take rw right)))"

text \<open>The loop over an immutable section, one buffer of \<open>1U << 20U\<close> bytes at a time.\<close>

definition k_compare_buffer :: nat where "k_compare_buffer = 1048576"

function compare_bytes :: "nat \<Rightarrow> u8 list \<Rightarrow> u8 list \<Rightarrow> u64 \<Rightarrow> u64 \<Rightarrow> exn + (u64 \<times> u64)" where
  "compare_bytes remaining left right lh rh =
     (if remaining = 0 then Inr (lh, rh)
      else
        let count = min remaining k_compare_buffer in
        if length left < count \<or> length right < count then Inl Runtime_error
        else if take count left \<noteq> take count right then Inl Runtime_error
        else compare_bytes (remaining - count) (drop count left) (drop count right)
               (hash_bytes lh (take count left)) (hash_bytes rh (take count right)))"
  by pat_completeness auto
termination
  by (relation "measure (\<lambda>(r, _). r)") (auto simp: k_compare_buffer_def)

declare compare_bytes.simps [simp del]

definition mask_community :: "u8 list \<Rightarrow> u8 list" where
  "mask_community rec = take 12 rec @ replicate 8 0 @ drop 20 rec"

definition compare_section ::
  "u8 list \<Rightarrow> u8 list \<Rightarrow> u32 \<Rightarrow> u32 \<Rightarrow> cell_section_t \<Rightarrow> cell_section_t \<Rightarrow> u64 \<Rightarrow> u64 \<Rightarrow> exn + (u64 \<times> u64)" where
  "compare_section source replacement left_pq right_pq ls rs lh rh =
     bindE (guardE (\<not> (cs_id ls \<noteq> cs_id rs \<or> cs_count ls \<noteq> cs_count rs)) Runtime_error) (\<lambda>_.
     let left = drop (unat (cs_offset ls)) source; right = drop (unat (cs_offset rs)) replacement in
     if cs_id ls = 5 then
       bindE (guardE (\<not> (cs_length ls \<noteq> cs_count ls * 84 \<or> cs_length rs \<noteq> cs_length ls)) Runtime_error) (\<lambda>_.
         compare_records 84 84 (\<lambda>l r. mask_community l = mask_community r) (unat (cs_count ls)) left right lh rh)
     else if cs_id ls = 13 then
       bindE (guardE (\<not> (cs_length ls \<noteq> cs_count ls * 36 \<or> cs_length rs \<noteq> cs_length ls)) Runtime_error) (\<lambda>_.
         compare_records 36 36 (\<lambda>l r. take 32 l = take 32 r) (unat (cs_count ls)) left right lh rh)
     else if cs_id ls = 14 then
       let left_width = 4 + ucast left_pq :: u64; right_width = 4 + ucast right_pq :: u64 in
       bindE (guardE (\<not> (cs_length ls \<noteq> cs_count ls * left_width \<or> cs_length rs \<noteq> cs_count rs * right_width))
         Runtime_error) (\<lambda>_.
         compare_records (unat left_width) (unat right_width) (\<lambda>l r. take 4 l = take 4 r)
           (unat (cs_count ls)) left right lh rh)
     else
       bindE (guardE (cs_length ls = cs_length rs) Runtime_error) (\<lambda>_.
         compare_bytes (unat (cs_length ls)) left right lh rh))"

fun compare_sections ::
  "u8 list \<Rightarrow> u8 list \<Rightarrow> u32 \<Rightarrow> u32 \<Rightarrow> (cell_section_t \<times> cell_section_t) list \<Rightarrow> u64 \<Rightarrow> u64 \<Rightarrow> exn + (u64 \<times> u64)" where
  "compare_sections source replacement left_pq right_pq [] lh rh = Inr (lh, rh)"
| "compare_sections source replacement left_pq right_pq ((ls, rs) # sections) lh rh =
     bindE (compare_section source replacement left_pq right_pq ls rs lh rh) (\<lambda>(lh', rh').
       compare_sections source replacement left_pq right_pq sections lh' rh')"

definition validate_rebound_cell_structure :: "u8 list option \<Rightarrow> u8 list option \<Rightarrow> exn + unit" where
  "validate_rebound_cell_structure source_path replacement_path =
     (case (source_path, replacement_path) of
        (Some source, Some replacement) \<Rightarrow>
          bindE (read_cell_sidecar_descriptor source) (\<lambda>left.
          bindE (read_cell_sidecar_descriptor replacement) (\<lambda>right.
          bindE (guardE (\<not> (sd_point_count left \<noteq> sd_point_count right \<or> sd_dimension left \<noteq> sd_dimension right
              \<or> sd_base_size left \<noteq> sd_base_size right \<or> sd_base_checksum left \<noteq> sd_base_checksum right
              \<or> length (sd_sections left) \<noteq> length (sd_sections right))) Runtime_error) (\<lambda>_.
          bindE (compare_sections source replacement (sd_pq_width left) (sd_pq_width right)
                   (zip (sd_sections left) (sd_sections right)) k_fnv_offset_basis k_fnv_offset_basis)
            (\<lambda>(left_hash, right_hash).
          guardE (\<not> (left_hash \<noteq> sd_body_checksum left \<or> right_hash \<noteq> sd_body_checksum right)) Runtime_error))))
      | _ \<Rightarrow> Inl Runtime_error)"

subsection \<open>Rebinding a topology file\<close>

text \<open>The loop that streams the rest of the source behind the header, one buffer at a time.\<close>

function stream_copy :: "u8 list \<Rightarrow> u8 list" where
  "stream_copy source =
     (let chunk = take k_compare_buffer source in
      if length chunk < k_compare_buffer then chunk else chunk @ stream_copy (drop k_compare_buffer source))"
  by pat_completeness auto
termination
  by (relation "measure length") (auto simp: k_compare_buffer_def)

declare stream_copy.simps [simp del]

text \<open>\<open>paths_ok\<close>: no path is empty and the output is not the source.\<close>

definition rebind_io_topology_community_polar ::
  "bool \<Rightarrow> u8 list option \<Rightarrow> u8 list option \<Rightarrow> u8 list option \<Rightarrow> exn + u8 list" where
  "rebind_io_topology_community_polar paths_ok source_topology source_sidecar replacement_sidecar =
     bindE (guardE paths_ok Invalid_argument) (\<lambda>_.
     bindE (read_file_range source_topology 0 (ucast k_topology_header_bytes)) (\<lambda>source_header_bytes.
     bindE (parse_header source_header_bytes) (\<lambda>header.
     bindE (guardE (\<not> (h_version header < k_topology_version_v5 \<or> h_version header > k_topology_version
         \<or> h_header_bytes header \<noteq> k_topology_header_bytes \<or> h_cell_count header = 0
         \<or> fp_size (h_community_polar header) = 0)) Runtime_error) (\<lambda>_.
     bindE (fingerprint_file source_sidecar) (\<lambda>source_fingerprint.
     bindE (guardE (\<not> (fp_size (h_community_polar header) \<noteq> fp_size source_fingerprint
         \<or> fp_checksum (h_community_polar header) \<noteq> fp_checksum source_fingerprint)) Runtime_error) (\<lambda>_.
     bindE (validate_rebound_cell_structure source_sidecar replacement_sidecar) (\<lambda>_.
     bindE (fingerprint_file replacement_sidecar) (\<lambda>replacement_fingerprint.
     let rebound_header_bytes = serialize_header (header\<lparr>h_community_polar := replacement_fingerprint\<rparr>);
         source = (case source_topology of None \<Rightarrow> [] | Some bytes \<Rightarrow> bytes);
         written = rebound_header_bytes @ stream_copy (drop (unat k_topology_header_bytes) source) in
     bindE (guardE (length written = length source) Runtime_error) (\<lambda>_. Inr written)))))))))"

end
