(* ===== verification/IO_Sidecar_Correct.thy ===== *)
theory IO_Sidecar_Correct
  imports IO_Sidecar IO_Write
begin

text \<open>
  The structural comparison of two sidecars against its specification, and the effect of rebinding
  on the loaded index.  The specification compares, section by section, what is left of the records
  when the fields that may change are removed.
\<close>

subsection \<open>The comparison loops\<close>

definition nth_record :: "nat \<Rightarrow> nat \<Rightarrow> u8 list \<Rightarrow> u8 list" where
  "nth_record w k bytes = take w (drop (w * k) bytes)"

lemma nth_record_drop: "nth_record w k (drop w bytes) = nth_record w (Suc k) bytes"
  by (simp add: nth_record_def add.commute)

lemma take_Suc_mult: "take (Suc n * w) bytes = take w bytes @ take (n * w) (drop w bytes)"
  by (simp add: take_add)

lemma compare_records_Inr:
  "compare_records lw rw same n left right lh rh = Inr (lh', rh') \<longleftrightarrow>
     n * lw \<le> length left \<and> n * rw \<le> length right
     \<and> (\<forall>k < n. same (nth_record lw k left) (nth_record rw k right))
     \<and> lh' = hash_bytes lh (take (n * lw) left) \<and> rh' = hash_bytes rh (take (n * rw) right)"
proof (induction n arbitrary: left right lh rh)
  case (Suc n)
  have all: "(\<forall>k < Suc n. same (nth_record lw k left) (nth_record rw k right)) \<longleftrightarrow>
      same (take lw left) (take rw right)
      \<and> (\<forall>k < n. same (nth_record lw k (drop lw left)) (nth_record rw k (drop rw right)))"
    unfolding nth_record_drop by (auto simp: less_Suc_eq_0_disj nth_record_def)
  have len: "Suc n * w \<le> length bytes \<longleftrightarrow> w \<le> length bytes \<and> n * w \<le> length (drop w bytes)"
    for w and bytes :: "u8 list" by auto
  show ?case
    unfolding len all take_Suc_mult hash_bytes_append by (auto simp: Suc.IH not_less)
qed auto

lemma compare_bytes_Inr:
  "compare_bytes n left right lh rh = Inr (lh', rh') \<longleftrightarrow>
     n \<le> length left \<and> n \<le> length right \<and> take n left = take n right
     \<and> lh' = hash_bytes lh (take n left) \<and> rh' = hash_bytes rh (take n right)"
proof (induction n left right lh rh rule: compare_bytes.induct)
  case (1 n left right lh rh)
  show ?case
  proof (cases "n = 0")
    case True
    then show ?thesis by (subst compare_bytes.simps) auto
  next
    case False
    define c where "c = min n k_compare_buffer"
    have cn: "c \<le> n" by (simp add: c_def)
    have t: "take n bs = take c bs @ take (n - c) (drop c bs)" for bs :: "u8 list"
      using cn by (metis le_add_diff_inverse take_add)
    have l: "n \<le> length bs \<longleftrightarrow> c \<le> length bs \<and> n - c \<le> length bs - c" for bs :: "u8 list" using cn by auto
    have s: "compare_bytes n left right lh rh =
        (if length left < c \<or> length right < c then Inl Runtime_error
         else if take c left \<noteq> take c right then Inl Runtime_error
         else compare_bytes (n - c) (drop c left) (drop c right) (hash_bytes lh (take c left)) (hash_bytes rh (take c right)))"
      by (subst compare_bytes.simps) (simp only: Let_def c_def False if_False)
    show ?thesis
    proof (cases "length left < c \<or> length right < c \<or> take c left \<noteq> take c right")
      case True
      then have "compare_bytes n left right lh rh = Inl Runtime_error" unfolding s by auto
      moreover have "\<not> (n \<le> length left \<and> n \<le> length right \<and> take n left = take n right)"
        using True cn unfolding t [of left] t [of right] l by (auto simp: min_def append_eq_append_conv)
      ultimately show ?thesis by auto
    next
      case ok: False
      then have c: "\<not> (length left < c \<or> length right < c)" "\<not> take c left \<noteq> take c right" by auto
      have r: "compare_bytes n left right lh rh = Inr (lh', rh') \<longleftrightarrow>
          n - c \<le> length (drop c left) \<and> n - c \<le> length (drop c right)
          \<and> take (n - c) (drop c left) = take (n - c) (drop c right)
          \<and> lh' = hash_bytes (hash_bytes lh (take c left)) (take (n - c) (drop c left))
          \<and> rh' = hash_bytes (hash_bytes rh (take c right)) (take (n - c) (drop c right))"
        unfolding s if_not_P [OF c(1)] if_not_P [OF c(2)] by (rule 1 [OF False c_def c])
      show ?thesis
        unfolding r l t [of left] t [of right] hash_bytes_append using c by (simp add: not_less)
    qed
  qed
qed

subsection \<open>The specification\<close>

definition section_bytes :: "u8 list \<Rightarrow> cell_section_t \<Rightarrow> u8 list" where
  "section_bytes bytes s = take (unat (cs_length s)) (drop (unat (cs_offset s)) bytes)"

definition record_width :: "u32 \<Rightarrow> u32 \<Rightarrow> nat option" where
  "record_width pq_width section_id =
     (if section_id = 5 then Some 84 else if section_id = 13 then Some 36 else if section_id = 14 then Some (4 + unat pq_width) else None)"

text \<open>What must not change of a section: whole bytes, or of each record all but the packet bytes of a community, the
  error of a block, or the code of a packet.\<close>

definition structure_of :: "u32 \<Rightarrow> cell_section_t \<Rightarrow> u8 list \<Rightarrow> u8 list list" where
  "structure_of pq_width s bytes =
     (case record_width pq_width (cs_id s) of
        None \<Rightarrow> [bytes]
      | Some w \<Rightarrow> map (\<lambda>k. (if cs_id s = 5 then mask_community else if cs_id s = 13 then take 32 else take 4)
                              (nth_record w k bytes)) [0..<unat (cs_count s)])"

definition section_fits :: "u32 \<Rightarrow> cell_section_t \<Rightarrow> bool" where
  "section_fits pq_width s \<longleftrightarrow>
     (case record_width pq_width (cs_id s) of
        None \<Rightarrow> True | Some w \<Rightarrow> unat (cs_length s) = unat (cs_count s) * w)"

definition same_section :: "u8 list \<Rightarrow> u8 list \<Rightarrow> u32 \<Rightarrow> u32 \<Rightarrow> cell_section_t \<Rightarrow> cell_section_t \<Rightarrow> bool" where
  "same_section source replacement left_pq right_pq ls rs \<longleftrightarrow>
     cs_id ls = cs_id rs \<and> cs_count ls = cs_count rs \<and> section_fits left_pq ls \<and> section_fits right_pq rs
     \<and> structure_of left_pq ls (section_bytes source ls) = structure_of right_pq rs (section_bytes replacement rs)"

definition section_in :: "u8 list \<Rightarrow> cell_section_t \<Rightarrow> bool" where
  "section_in bytes s \<longleftrightarrow> unat (cs_offset s) + unat (cs_length s) \<le> length bytes"

lemma nth_record_section:
  assumes "k < n" "n * w \<le> m"
  shows "nth_record w k (take m bytes) = nth_record w k bytes"
proof -
  have "w * k + w \<le> m" using assms mult_le_mono1 [of "Suc k" n w] by (simp add: algebra_simps)
  then show ?thesis by (simp add: nth_record_def drop_take)
qed

lemma mult_fits:
  assumes "unat (c :: u64) * w \<le> n" "n < 2 ^ 64" "w < 2 ^ 64"
  shows "len = c * of_nat w \<longleftrightarrow> unat (len :: u64) = unat c * w"
proof -
  have "unat (of_nat w :: u64) = w" by (rule unat_of_nat_u64 [OF assms(3)])
  then have "unat (c * of_nat w) = unat c * w"
    using assms unat_mult_lem [of c "of_nat w"] by simp
  then show ?thesis by (auto simp: word_unat_eq_iff)
qed

lemma compare_records_section:
  assumes fit: "section_in source ls" "section_in replacement rs" "length source < 2 ^ 64" "length replacement < 2 ^ 64"
    and w: "0 < lw" "0 < rw" "lw < 2 ^ 64" "rw < 2 ^ 64" and n: "cs_count ls = cs_count rs"
  shows "cs_length ls = cs_count ls * of_nat lw \<and> cs_length rs = cs_count rs * of_nat rw
      \<and> compare_records lw rw same (unat (cs_count ls)) (drop (unat (cs_offset ls)) source)
           (drop (unat (cs_offset rs)) replacement) lh rh = Inr (lh', rh')
    \<longleftrightarrow> unat (cs_length ls) = unat (cs_count ls) * lw \<and> unat (cs_length rs) = unat (cs_count rs) * rw
      \<and> (\<forall>k < unat (cs_count ls). same (nth_record lw k (section_bytes source ls)) (nth_record rw k (section_bytes replacement rs)))
      \<and> lh' = hash_bytes lh (section_bytes source ls) \<and> rh' = hash_bytes rh (section_bytes replacement rs)"
    (is "?A \<and> ?B \<and> ?C \<longleftrightarrow> ?D \<and> ?E \<and> ?F")
proof -
  let ?n = "unat (cs_count ls)"
  let ?l = "drop (unat (cs_offset ls)) source" and ?r = "drop (unat (cs_offset rs)) replacement"
  have bl: "length ?l < 2 ^ 64" "length ?r < 2 ^ 64" using fit(3,4) by simp_all
  have ml: "?A \<longleftrightarrow> ?D" "?B \<longleftrightarrow> ?E" if "?n * lw \<le> length ?l" "?n * rw \<le> length ?r"
    using mult_fits [OF that(1) bl(1) w(3)] mult_fits [OF that(2)[unfolded n] bl(2) w(4)] by auto
  have sec: "?n * lw \<le> length ?l" "?n * rw \<le> length ?r"
    "section_bytes source ls = take (?n * lw) ?l" "section_bytes replacement rs = take (?n * rw) ?r" if "?D" "?E"
    using that fit(1,2) n by (auto simp: section_in_def section_bytes_def)
  have key: "?C \<longleftrightarrow> ?F" if "?D" "?E"
  proof -
    have "\<forall>k < ?n. nth_record lw k (take (?n * lw) ?l) = nth_record lw k ?l
        \<and> nth_record rw k (take (?n * rw) ?r) = nth_record rw k ?r"
      using nth_record_section [of _ ?n lw] nth_record_section [of _ ?n rw] by blast
    then show ?thesis unfolding compare_records_Inr sec(3,4) [OF that] using sec(1,2) [OF that] by auto
  qed
  show ?thesis
  proof
    assume a: "?A \<and> ?B \<and> ?C"
    then have "?n * lw \<le> length ?l" "?n * rw \<le> length ?r" unfolding compare_records_Inr by blast+
    from ml [OF this] a key show "?D \<and> ?E \<and> ?F" by blast
  next
    assume d: "?D \<and> ?E \<and> ?F"
    with sec have "?n * lw \<le> length ?l" "?n * rw \<le> length ?r" by blast+
    from ml [OF this] d key show "?A \<and> ?B \<and> ?C" by blast
  qed
qed

lemma map_eq_upt: "map f [0..<n] = map g [0..<n] \<longleftrightarrow> (\<forall>k < n. f k = g k)"
  by auto

lemma compare_section_Inr:
  assumes fit: "section_in source ls" "section_in replacement rs" "length source < 2 ^ 64" "length replacement < 2 ^ 64"
  shows "compare_section source replacement left_pq right_pq ls rs lh rh = Inr (lh', rh') \<longleftrightarrow>
     same_section source replacement left_pq right_pq ls rs
     \<and> lh' = hash_bytes lh (section_bytes source ls) \<and> rh' = hash_bytes rh (section_bytes replacement rs)"
proof (cases "cs_id ls = cs_id rs \<and> cs_count ls = cs_count rs")
  case False
  then show ?thesis by (auto simp: compare_section_def bindE_eq_Inr same_section_def)
next
  case True
  then have i: "cs_id rs = cs_id ls" "cs_count ls = cs_count rs" by auto
  note rec = compare_records_section [OF fit _ _ _ _ i(2), where lh = lh and rh = rh and lh' = lh' and rh' = rh']
  have records: "compare_section source replacement left_pq right_pq ls rs lh rh = Inr (lh', rh') \<longleftrightarrow>
     same_section source replacement left_pq right_pq ls rs
     \<and> lh' = hash_bytes lh (section_bytes source ls) \<and> rh' = hash_bytes rh (section_bytes replacement rs)"
    if w: "0 < lw" "0 < rw" "lw < 2 ^ 64" "rw < 2 ^ 64"
      and width: "record_width left_pq (cs_id ls) = Some lw" "record_width right_pq (cs_id ls) = Some rw"
      and f: "f = (if cs_id ls = 5 then mask_community else if cs_id ls = 13 then take 32 else take 4)"
      and run: "compare_section source replacement left_pq right_pq ls rs lh rh = Inr (lh', rh') \<longleftrightarrow>
        cs_length ls = cs_count ls * of_nat lw \<and> cs_length rs = cs_count rs * of_nat rw
        \<and> compare_records lw rw (\<lambda>l r. f l = f r) (unat (cs_count ls)) (drop (unat (cs_offset ls)) source)
             (drop (unat (cs_offset rs)) replacement) lh rh = Inr (lh', rh')" for lw rw f
  proof -
    have ss: "same_section source replacement left_pq right_pq ls rs \<longleftrightarrow>
        unat (cs_length ls) = unat (cs_count ls) * lw \<and> unat (cs_length rs) = unat (cs_count rs) * rw
        \<and> (\<forall>k < unat (cs_count ls). f (nth_record lw k (section_bytes source ls)) = f (nth_record rw k (section_bytes replacement rs)))"
      unfolding same_section_def section_fits_def structure_of_def i width f option.case map_eq_upt by blast
    show ?thesis unfolding run rec [OF w] ss by blast
  qed
  consider "cs_id ls = 5" | "cs_id ls = 13" | "cs_id ls = 14"
    | "cs_id ls \<noteq> 5" "cs_id ls \<noteq> 13" "cs_id ls \<noteq> 14" by blast
  then show ?thesis
  proof cases
    case 1
    show ?thesis
      by (rule records [of 84 84 mask_community])
        (use 1 i in \<open>auto simp: compare_section_def bindE_eq_Inr Let_def record_width_def\<close>)
  next
    case 2
    show ?thesis
      by (rule records [of 36 36 "take 32"])
        (use 2 i in \<open>auto simp: compare_section_def bindE_eq_Inr Let_def record_width_def\<close>)
  next
    case 3
    have w: "unat (4 + ucast pq :: u64) = 4 + unat (pq :: u32)" "4 + unat pq < 2 ^ 64" for pq
    proof -
      have "unat pq < 4294967296" using unsigned_less [of pq, where ?'a = nat] by simp
      then show "unat (4 + ucast pq :: u64) = 4 + unat pq" "4 + unat pq < 2 ^ 64"
        using unat_add_lem [of "4 :: u64" "ucast pq"] by simp_all
    qed
    show ?thesis
      by (rule records [of "4 + unat left_pq" "4 + unat right_pq" "take 4", OF _ _ w(2) w(2)])
        (use 3 i in \<open>simp_all add: compare_section_def bindE_eq_Inr Let_def record_width_def w(1)\<close>)
  next
    case 4
    then have rw: "record_width pq (cs_id ls) = None" for pq by (simp add: record_width_def)
    have run: "compare_section source replacement left_pq right_pq ls rs lh rh = Inr (lh', rh') \<longleftrightarrow>
       cs_length ls = cs_length rs \<and> compare_bytes (unat (cs_length ls)) (drop (unat (cs_offset ls)) source)
         (drop (unat (cs_offset rs)) replacement) lh rh = Inr (lh', rh')"
      using 4 i by (simp add: compare_section_def bindE_eq_Inr Let_def)
    have len: "section_bytes source ls = section_bytes replacement rs \<Longrightarrow> cs_length ls = cs_length rs"
      using fit(1,2) by (auto simp: section_in_def section_bytes_def word_unat_eq_iff dest: arg_cong [where f = length])
    have ss: "same_section source replacement left_pq right_pq ls rs \<longleftrightarrow> section_bytes source ls = section_bytes replacement rs"
      using i by (simp add: same_section_def section_fits_def structure_of_def rw)
    have fits: "unat (cs_length ls) \<le> length (drop (unat (cs_offset ls)) source)"
      "unat (cs_length rs) \<le> length (drop (unat (cs_offset rs)) replacement)"
      using fit(1,2) by (simp_all add: section_in_def)
    show ?thesis
      unfolding run ss compare_bytes_Inr using len fits by (auto simp: section_bytes_def)
  qed
qed

lemma compare_sections_Inr:
  assumes "length ls = length rs" "list_all (section_in source) ls" "list_all (section_in replacement) rs"
    and len: "length source < 2 ^ 64" "length replacement < 2 ^ 64"
  shows "compare_sections source replacement left_pq right_pq (zip ls rs) lh rh = Inr (lh', rh') \<longleftrightarrow>
     list_all2 (same_section source replacement left_pq right_pq) ls rs
     \<and> lh' = hash_bytes lh (concat (map (section_bytes source) ls))
     \<and> rh' = hash_bytes rh (concat (map (section_bytes replacement) rs))"
  using assms(1-3)
proof (induction ls rs arbitrary: lh rh rule: list_induct2)
  case (Cons l ls r rs)
  have in_l: "section_in source l" "section_in replacement r" using Cons.prems by simp_all
  show ?case
    using Cons.IH Cons.prems compare_section_Inr [OF in_l len]
    by (auto simp: bindE_eq_Inr hash_bytes_append)
qed auto

subsection \<open>The sections cover the body\<close>

fun contiguous :: "u64 \<Rightarrow> cell_section_t list \<Rightarrow> u64 \<Rightarrow> bool" where
  "contiguous a [] b \<longleftrightarrow> a = b"
| "contiguous a (s # ss) b \<longleftrightarrow> cs_offset s = a \<and> unat a + unat (cs_length s) < 2 ^ 64
     \<and> contiguous (a + cs_length s) ss b"

lemma read_directory_Inr:
  "read_directory n sec start directory c = Inr (ss, fin) \<Longrightarrow> length ss = n \<and> contiguous start ss fin"
proof (induction n arbitrary: sec start c ss)
  case (Suc n)
  from Suc.prems obtain id offset len cnt c' rest start' where
    r: "offset = start" "checked_add offset len = Inr start'"
      "read_directory n (sec + 1) start' directory c' = Inr (rest, fin)"
      "ss = \<lparr>cs_id = id, cs_offset = offset, cs_length = len, cs_count = cnt\<rparr> # rest"
    by (auto simp: bindE_eq_Inr)
  have u: "unat start' = unat offset + unat len" using r(2) by (simp only: checked_add_iff)
  moreover have "unat start' < 2 ^ 64" by simp
  ultimately have "unat offset + unat len < 2 ^ 64" by simp
  moreover from this have "start' = offset + len" using u unat_add_lem [of offset len] by (simp add: word_unat_eq_iff)
  ultimately show ?case using Suc.IH [OF r(3)] r(1,4) by simp
qed simp

lemma contiguous_bytes:
  "contiguous a ss b \<Longrightarrow> unat b \<le> length bytes \<Longrightarrow> unat a \<le> unat b \<and> list_all (section_in bytes) ss
     \<and> concat (map (section_bytes bytes) ss) = take (unat b - unat a) (drop (unat a) bytes)"
proof (induction a ss b rule: contiguous.induct)
  case (2 a s ss b)
  have u: "unat (a + cs_length s) = unat a + unat (cs_length s)"
    using "2.prems"(1) unat_add_lem [of a "cs_length s"] by simp
  note ih = "2.IH" [unfolded u]
  from "2.prems" have c: "contiguous (a + cs_length s) ss b" "cs_offset s = a" by simp_all
  note i = ih [OF c(1) "2.prems"(2)]
  have "take (unat b - unat a) (drop (unat a) bytes)
      = take (unat (cs_length s)) (drop (unat a) bytes)
        @ take (unat b - (unat a + unat (cs_length s))) (drop (unat a + unat (cs_length s)) bytes)"
    using i by (simp add: take_add [symmetric] drop_drop [symmetric] add.commute [of "unat a"] del: drop_drop)
  then show ?case using i c(2) "2.prems"(2) by (simp add: section_in_def section_bytes_def)
qed simp

lemma descriptor_sections:
  assumes "read_cell_sidecar_descriptor input = Inr d" "length input < 2 ^ 64"
  shows "length (sd_sections d) = 18" "list_all (section_in input) (sd_sections d)"
    "concat (map (section_bytes input) (sd_sections d)) = drop 672 input" "672 \<le> length input"
proof -
  from assms(1) obtain hb dir ss fin where hb: "hb = (of_nat (k_fixed_bytes + k_sections * k_entry_bytes) :: u32)"
    and r: "read_directory k_sections 1 (ucast hb) dir 0 = Inr (ss, fin)" "fin = of_nat (length input)"
    and d: "sd_sections d = ss"
    by (auto simp: read_cell_sidecar_descriptor_def Let_def bindE_eq_Inr)
  have h: "(ucast hb :: u64) = 672" by (simp add: hb k_fixed_bytes_def k_sections_def k_entry_bytes_def)
  have f: "unat fin = length input" using r(2) assms(2) by simp
  from read_directory_Inr [OF r(1)] h have c: "length ss = 18" "contiguous 672 ss fin" by (simp_all add: k_sections_def)
  from contiguous_bytes [OF c(2), of input] f c(1) d
  show "length (sd_sections d) = 18" "list_all (section_in input) (sd_sections d)"
    "concat (map (section_bytes input) (sd_sections d)) = drop 672 input" "672 \<le> length input" by simp_all
qed

lemma validate_rebound_iff:
  assumes "length source < 2 ^ 64" "length replacement < 2 ^ 64"
  shows "validate_rebound_cell_structure (Some source) (Some replacement) = Inr () \<longleftrightarrow>
    (\<exists>l r. read_cell_sidecar_descriptor source = Inr l \<and> read_cell_sidecar_descriptor replacement = Inr r
       \<and> sd_point_count l = sd_point_count r \<and> sd_dimension l = sd_dimension r
       \<and> sd_base_size l = sd_base_size r \<and> sd_base_checksum l = sd_base_checksum r
       \<and> list_all2 (same_section source replacement (sd_pq_width l) (sd_pq_width r)) (sd_sections l) (sd_sections r)
       \<and> checksum_bytes (drop 672 source) = sd_body_checksum l
       \<and> checksum_bytes (drop 672 replacement) = sd_body_checksum r)"
proof -
  have key: "(\<exists>lh rh. compare_sections source replacement (sd_pq_width l) (sd_pq_width r)
          (zip (sd_sections l) (sd_sections r)) k_fnv_offset_basis k_fnv_offset_basis = Inr (lh, rh)
          \<and> lh = sd_body_checksum l \<and> rh = sd_body_checksum r)
      \<longleftrightarrow> list_all2 (same_section source replacement (sd_pq_width l) (sd_pq_width r)) (sd_sections l) (sd_sections r)
       \<and> checksum_bytes (drop 672 source) = sd_body_checksum l
       \<and> checksum_bytes (drop 672 replacement) = sd_body_checksum r"
    and len: "length (sd_sections l) = length (sd_sections r)"
    if d: "read_cell_sidecar_descriptor source = Inr l" "read_cell_sidecar_descriptor replacement = Inr r" for l r
  proof -
    note dl = descriptor_sections [OF d(1) assms(1)] and dr = descriptor_sections [OF d(2) assms(2)]
    show len: "length (sd_sections l) = length (sd_sections r)" using dl(1) dr(1) by simp
    show "(\<exists>lh rh. compare_sections source replacement (sd_pq_width l) (sd_pq_width r)
          (zip (sd_sections l) (sd_sections r)) k_fnv_offset_basis k_fnv_offset_basis = Inr (lh, rh)
          \<and> lh = sd_body_checksum l \<and> rh = sd_body_checksum r)
      \<longleftrightarrow> list_all2 (same_section source replacement (sd_pq_width l) (sd_pq_width r)) (sd_sections l) (sd_sections r)
       \<and> checksum_bytes (drop 672 source) = sd_body_checksum l
       \<and> checksum_bytes (drop 672 replacement) = sd_body_checksum r"
      unfolding compare_sections_Inr [OF len dl(2) dr(2) assms] dl(3) dr(3) checksum_bytes_def by auto
  qed
  have "validate_rebound_cell_structure (Some source) (Some replacement) = Inr () \<longleftrightarrow>
    (\<exists>l r. read_cell_sidecar_descriptor source = Inr l \<and> read_cell_sidecar_descriptor replacement = Inr r
       \<and> sd_point_count l = sd_point_count r \<and> sd_dimension l = sd_dimension r
       \<and> sd_base_size l = sd_base_size r \<and> sd_base_checksum l = sd_base_checksum r
       \<and> length (sd_sections l) = length (sd_sections r)
       \<and> (\<exists>lh rh. compare_sections source replacement (sd_pq_width l) (sd_pq_width r)
          (zip (sd_sections l) (sd_sections r)) k_fnv_offset_basis k_fnv_offset_basis = Inr (lh, rh)
          \<and> lh = sd_body_checksum l \<and> rh = sd_body_checksum r))"
    by (auto simp: validate_rebound_cell_structure_def bindE_eq_Inr)
  then show ?thesis using key len by blast
qed

end
