(* ===== verification/IO_Rebind.thy ===== *)
theory IO_Rebind
  imports IO_Sidecar_Correct
begin

text \<open>Rebinding a topology file to another sidecar changes the index it loads to in one field only.\<close>

lemma stream_copy_id: "stream_copy source = source"
proof (induction source rule: stream_copy.induct)
  case (1 source)
  show ?case
  proof (cases "length (take k_compare_buffer source) < k_compare_buffer")
    case True
    then show ?thesis by (subst stream_copy.simps) (auto simp: Let_def)
  next
    case False
    from 1 [OF refl this] False show ?thesis by (subst stream_copy.simps) (simp add: Let_def)
  qed
qed

definition rebound :: "topology_header_t \<Rightarrow> fingerprint_t \<Rightarrow> topology_header_t" where
  "rebound h f = h\<lparr>h_community_polar := f\<rparr>"

lemma rebound_simps [simp]:
  "payload_supported (rebound h f) = payload_supported h"
  "check_sections (rebound h f) n = check_sections h n"
  "check_checksums (rebound h f) s c = check_checksums h s c"
  "check_fingerprints (rebound h f) disk vectors topology_only = check_fingerprints h disk vectors topology_only"
  "load_adjacency pfor paged (rebound h f) s = load_adjacency pfor paged h s"
  "vector_bytes_of (rebound h f) = vector_bytes_of h"
  "h_version (rebound h f) = h_version h" "h_header_bytes (rebound h f) = h_header_bytes h"
  by (simp_all add: rebound_def payload_supported_def check_sections_def check_checksums_def check_fingerprints_def
      load_adjacency_def vector_bytes_of_def cong: if_cong option.case_cong)

lemma read_ranges_rebound: "read_ranges (rebound h f) n bytes c p k = read_ranges h n bytes c p k"
  by (induction h n bytes c p k rule: read_ranges.induct) (simp_all add: rebound_def)

lemma fill_index_rebound:
  assumes "fill_index pfor paged h s n = Inr ix"
  shows "fill_index pfor paged (rebound h f) s n = Inr (ix\<lparr>ix_community_polar_fingerprint := f\<rparr>)"
proof -
  have r: "load_ranges (rebound h f) bytes = load_ranges h bytes" for bytes
    by (simp add: load_ranges_def read_ranges_rebound) (simp add: rebound_def)
  from assms show ?thesis
    unfolding fill_index_iff r rebound_simps by (force simp: rebound_def)
qed

lemma section_of_rebound:
  "length hb = 320 \<Longrightarrow> 320 \<le> unat offset \<Longrightarrow> section_of (hb @ drop 320 bytes) offset sz = section_of bytes offset sz"
  by (simp add: section_of_def)

lemma resident_sections_rebound:
  assumes "length hb = 320" "320 \<le> unat (h_offsets_offset h)" "sections_layout h n"
  shows "resident_sections (rebound h f) (hb @ drop 320 bytes) = resident_sections h bytes"
proof -
  note l = assms(3) [unfolded sections_layout_def]
  have o: "320 \<le> unat (h_adjacency_offset h)" "320 \<le> unat (h_directory_offset h)"
    "320 \<le> unat (h_cell_directory_offset h)" "320 \<le> unat (h_prefetch_directory_offset h)"
    "h_version h \<ge> k_topology_version_v5 \<Longrightarrow> 320 \<le> unat (h_gateway_directory_offset h)"
    using l assms(2) by linarith+
  note s = section_of_rebound [OF assms(1)]
  show ?thesis
    by (simp add: resident_sections_def rebound_def s [OF assms(2)] s [OF o(1)] s [OF o(2)] s [OF o(3)] s [OF o(4)]
        s [OF o(5)] not_less cong: if_cong)
qed

lemma rebind_Inr:
  assumes "rebind_io_topology_community_polar paths_ok (Some bytes) sidecar replacement = Inr out"
    and "parse_header bytes = Inr h"
  shows "\<exists>f. fingerprint_file replacement = Inr f \<and> 320 \<le> length bytes
    \<and> out = serialize_header (rebound h f) @ drop 320 bytes
    \<and> (h_version h = k_topology_version_v5 \<or> h_version h = k_topology_version) \<and> h_header_bytes h = k_topology_header_bytes
    \<and> h_cell_count h \<noteq> 0 \<and> fingerprint_file sidecar = Inr (h_community_polar h)
    \<and> validate_rebound_cell_structure sidecar replacement = Inr ()"
proof -
  from assms(1) obtain hb h' sf f where
    hb: "read_file_range (Some bytes) 0 (ucast k_topology_header_bytes) = Inr hb" "parse_header hb = Inr h'"
    and c: "h_header_bytes h' = k_topology_header_bytes" "h_cell_count h' \<noteq> 0" "\<not> h_version h' < k_topology_version_v5"
    and f: "fingerprint_file sidecar = Inr sf" "fp_size (h_community_polar h') = fp_size sf"
      "fp_checksum (h_community_polar h') = fp_checksum sf" "fingerprint_file replacement = Inr f"
      "validate_rebound_cell_structure sidecar replacement = Inr ()"
    and out: "out = serialize_header (rebound h' f) @ stream_copy (drop (unat k_topology_header_bytes) bytes)"
    by (auto simp: rebind_io_topology_community_polar_def Let_def bindE_eq_Inr rebound_def)
  have u: "unat k_topology_header_bytes = 320" by (simp add: k_topology_header_bytes_def)
  have l: "320 \<le> length bytes" "hb = take 320 bytes"
    using hb(1) by (auto simp: read_file_range_def u Let_def split: if_splits)
  with hb(2) parse_header_prefix [OF l(1)] assms(2) have h: "h' = h" by simp
  have v: "h_version h = k_topology_version_v5 \<or> h_version h = k_topology_version"
    using parse_header_Inr [OF assms(2)] c(3) h by (auto simp: topology_consts)
  show ?thesis
    using l(1) h c f out v by (auto simp: stream_copy_id u)
qed

lemma rebind_loads:
  assumes len: "length bytes < 2 ^ 64" "\<forall>r. replacement = Some r \<longrightarrow> length r < 2 ^ 64"
    and load: "load_io_optimized_index pfor disk (Some bytes) vectors topology_only False cache_pages = Inr ix"
    and rebind: "rebind_io_topology_community_polar paths_ok (Some bytes) sidecar replacement = Inr out"
  shows "\<exists>f. fingerprint_file replacement = Inr f \<and> length out = length bytes \<and> drop 320 out = drop 320 bytes
    \<and> load_io_optimized_index pfor disk (Some out) vectors topology_only False cache_pages
       = Inr (ix\<lparr>ix_community_polar_fingerprint := f\<rparr>)"
proof -
  from load [unfolded load_resident_iff] obtain h where h: "parse_header bytes = Inr h" "cache_pages = 0"
    "payload_supported h" "gateway_bound h" "check_sections h (of_nat (length bytes)) = Inr ()"
    "check_checksums h (resident_sections h bytes) (checksum_bytes (sec_adjacency (resident_sections h bytes))) = Inr ()"
    "check_fingerprints h disk vectors topology_only = Inr ()"
    "fill_index pfor False h (resident_sections h bytes) (of_nat (length bytes)) = Inr ix" by blast
  from rebind_Inr [OF rebind h(1)] obtain f where
    f: "fingerprint_file replacement = Inr f" "320 \<le> length bytes" "out = serialize_header (rebound h f) @ drop 320 bytes"
      "h_version h = k_topology_version_v5 \<or> h_version h = k_topology_version" "h_header_bytes h = k_topology_header_bytes"
      "h_cell_count h \<noteq> 0" "validate_rebound_cell_structure sidecar replacement = Inr ()" by blast
  have u: "unat (of_nat (length bytes) :: u64) = length bytes" using len(1) by simp
  have lay: "sections_layout h (length bytes)" using check_sections_Inr [OF h(5)] by (simp only: u)
  have off: "320 \<le> unat (h_offsets_offset h)"
    using lay f(5) by (simp add: sections_layout_def k_topology_header_bytes_def)
  have sl: "length (serialize_header (rebound h f)) = 320" by (rule length_serialize_header)
  have lo: "length out = length bytes" using f(2) by (simp add: f(3) sl)
  have pr: "parse_header out = Inr (rebound h f)"
    unfolding f(3) by (rule parse_header_serialized) (use f(4,5) in simp_all)
  have rs: "resident_sections (rebound h f) out = resident_sections h bytes"
    unfolding f(3) by (rule resident_sections_rebound [OF sl off lay])
  have "fp_size f \<noteq> 0"
  proof -
    obtain r where r: "replacement = Some r" using f(1) by (cases replacement) (auto simp: fingerprint_file_def)
    obtain s where s: "sidecar = Some s" using f(7) by (cases sidecar) (auto simp: validate_rebound_cell_structure_def)
    from f(7) [unfolded r s] obtain d where "read_cell_sidecar_descriptor r = Inr d"
      by (auto simp: validate_rebound_cell_structure_def bindE_eq_Inr)
    from descriptor_sections(4) [OF this] len(2) r have rl: "672 \<le> length r" "length r < 2 ^ 64" by auto
    have "unat (of_nat (length r) :: u64) = length r" by (rule unat_of_nat_u64 [OF rl(2)])
    then have "(of_nat (length r) :: u64) \<noteq> 0" using rl(1) by (auto simp: unat_eq_zero)
    then show ?thesis using f(1) r by (auto simp: fingerprint_file_def)
  qed
  then have "gateway_bound (rebound h f)" using h(4) by (auto simp: gateway_bound_def rebound_def)
  with h pr rs lo fill_index_rebound [OF h(8), of f] have
    "load_io_optimized_index pfor disk (Some out) vectors topology_only False cache_pages
       = Inr (ix\<lparr>ix_community_polar_fingerprint := f\<rparr>)"
    unfolding load_resident_iff by auto
  with f(1) lo show ?thesis by (auto simp: f(3) sl)
qed

subsection \<open>A sample sidecar and topology\<close>

text \<open>A sidecar whose eighteen sections are empty, and a cell topology bound to it.\<close>

definition sample_sidecar :: "u8 list" where
  "sample_sidecar =
     le_bytes 8 k_cell_magic @ serialize_u32 [5, 672, k_little_endian_marker, 18] @ le_bytes 8 (2 :: u64)
     @ serialize_u32 [1, 0] @ serialize_u64 [k_fnv_offset_basis, 0, 0, 0, 0, 0, 0]
     @ concat (map (\<lambda>k. serialize_u32 [of_nat k, 0] @ serialize_u64 [672, 0, 0]) [1..<19])"

fun empty_sections :: "u32 \<Rightarrow> nat \<Rightarrow> cell_section_t list" where
  "empty_sections k 0 = []"
| "empty_sections k (Suc n) = \<lparr>cs_id = k, cs_offset = 672, cs_length = 0, cs_count = 0\<rparr> # empty_sections (k + 1) n"

lemma read_empty_directory:
  assumes "c \<le> length bs"
    "drop c bs = concat (map (\<lambda>k. serialize_u32 [of_nat k, 0] @ serialize_u64 [672, 0, 0]) [m..<m + n])"
  shows "read_directory n (of_nat m) 672 bs c = Inr (empty_sections (of_nat m) n, 672)"
  using assms
proof (induction n arbitrary: m c)
  case (Suc n)
  have up: "[m..<m + Suc n] = m # [Suc m..<Suc m + n]" by (simp add: upt_conv_Cons del: upt_Suc)
  let ?rest = "concat (map (\<lambda>k. serialize_u32 [of_nat k, 0] @ serialize_u64 [672, 0, 0]) [Suc m..<Suc m + n])"
  have d: "drop c bs = le_bytes 4 (of_nat m :: u32) @ le_bytes 4 (0 :: u32) @ le_bytes 8 (672 :: u64)
      @ le_bytes 8 (0 :: u64) @ le_bytes 8 (0 :: u64) @ ?rest"
    using Suc.prems(2) unfolding up by (simp add: serialize_u32_def serialize_u64_def)
  note s1 = u32_step [OF Suc.prems(1) d]
  note s2 = u32_step [OF s1 [THEN conjunct2, THEN conjunct1] s1 [THEN conjunct2, THEN conjunct2]]
  note s3 = u64_step [OF s2 [THEN conjunct2, THEN conjunct1] s2 [THEN conjunct2, THEN conjunct2]]
  note s4 = u64_step [OF s3 [THEN conjunct2, THEN conjunct1] s3 [THEN conjunct2, THEN conjunct2]]
  note s5 = u64_step [OF s4 [THEN conjunct2, THEN conjunct1] s4 [THEN conjunct2, THEN conjunct2]]
  have a: "checked_add 672 0 = Inr 672" by (simp add: checked_add_iff)
  from Suc.IH [OF s5 [THEN conjunct2, THEN conjunct1] s5 [THEN conjunct2, THEN conjunct2]]
  show ?case using s1 s2 s3 s4 s5 a by (simp add: guardE_def add.commute)
qed simp

lemma length_sample_sidecar: "length sample_sidecar = 672"
  by (simp add: sample_sidecar_def length_sections length_concat comp_def sum_list_triv del: upt_Suc upt_rec_numeral)

lemma sample_descriptor:
  "read_cell_sidecar_descriptor sample_sidecar = Inr
     \<lparr>sd_point_count = 2, sd_dimension = 1, sd_pq_width = 0, sd_body_checksum = k_fnv_offset_basis, sd_base_size = 0,
      sd_base_checksum = 0, sd_header_bytes = 672, sd_sections = empty_sections 1 18\<rparr>"
proof -
  define dir where "dir = concat (map (\<lambda>k. serialize_u32 [of_nat k, 0] @ serialize_u64 [672, 0, 0]) [1..<1 + 18])"
  let ?vs = "[5, 672, k_little_endian_marker, 18] :: u32 list" and ?ds = "[1, 0] :: u32 list"
  let ?ws = "[k_fnv_offset_basis, 0, 0, 0, 0, 0]"
  define fx where "fx = le_bytes 8 k_cell_magic @ concat (map (le_bytes 4) ?vs) @ le_bytes 8 (2 :: u64)
     @ concat (map (le_bytes 4) ?ds) @ concat (map (le_bytes 8) ?ws) @ le_bytes 8 (0 :: u64)"
  have lf: "length fx = 96" by (simp add: fx_def)
  have s: "sample_sidecar = fx @ dir"
    by (simp add: sample_sidecar_def fx_def dir_def serialize_u32_def serialize_u64_def del: upt_Suc upt_rec_numeral)
  have ld: "length dir = 576" using length_sample_sidecar lf unfolding s by simp
  have d0: "0 \<le> length fx" "drop 0 fx = le_bytes 8 k_cell_magic @ concat (map (le_bytes 4) ?vs) @ le_bytes 8 (2 :: u64)
     @ concat (map (le_bytes 4) ?ds) @ concat (map (le_bytes 8) ?ws) @ le_bytes 8 (0 :: u64)" by (simp_all add: fx_def)
  note s1 = u64_step [OF d0]
  note s2 = many_step [OF u32_codec.field_codec_axioms s1 [THEN conjunct2, THEN conjunct1]
      s1 [THEN conjunct2, THEN conjunct2], of 4]
  have t2: "read_many (read_little 4) 4 fx 8 = Inr (?vs, 24)" "24 \<le> length fx"
    "drop 24 fx = le_bytes 8 (2 :: u64) @ concat (map (le_bytes 4) ?ds) @ concat (map (le_bytes 8) ?ws) @ le_bytes 8 (0 :: u64)"
    using s2 by simp_all
  note s3 = u64_step [OF t2(2,3)]
  note s4 = many_step [OF u32_codec.field_codec_axioms s3 [THEN conjunct2, THEN conjunct1]
      s3 [THEN conjunct2, THEN conjunct2], of 2]
  have t4: "read_many (read_little 4) 2 fx 32 = Inr (?ds, 40)" "40 \<le> length fx"
    "drop 40 fx = concat (map (le_bytes 8) ?ws) @ le_bytes 8 (0 :: u64)" using s4 by simp_all
  from many_step [OF u64_codec.field_codec_axioms t4(2,3), of 6]
  have t5: "read_many (read_little 8) 6 fx 40 = Inr (?ws, 88)" by simp
  have t1: "read_little 8 fx 0 = Inr (k_cell_magic, 8)" "read_little 8 fx 24 = Inr (2 :: u64, 32)"
    using s1 s3 by simp_all
  have rd: "read_directory 18 1 672 dir 0 = Inr (empty_sections 1 18, 672)"
    using read_empty_directory [of 0 dir 1 18] by (simp add: dir_def del: upt_Suc upt_rec_numeral)
  have tk: "take 96 sample_sidecar = fx" "take 576 (drop 96 sample_sidecar) = dir"
    using ld by (simp_all add: s lf del: upt_Suc upt_rec_numeral)
  show ?thesis
    by (simp add: read_cell_sidecar_descriptor_def k_fixed_bytes_def k_entry_bytes_def k_sections_def tk lf ld
        t1 t2(1) t4(1) t5 rd guardE_def length_sample_sidecar word_less_nat_alt
        del: upt_Suc upt_rec_numeral read_many.simps read_directory.simps)
qed

lemma sample_structure:
  "list_all2 (same_section sample_sidecar sample_sidecar 0 0) (empty_sections k n) (empty_sections k n)"
proof (induction n arbitrary: k)
  case (Suc n)
  have "same_section sample_sidecar sample_sidecar 0 0 \<lparr>cs_id = k, cs_offset = 672, cs_length = 0, cs_count = 0\<rparr>
      \<lparr>cs_id = k, cs_offset = 672, cs_length = 0, cs_count = 0\<rparr>"
    by (simp add: same_section_def section_fits_def split: option.splits)
  then show ?case using Suc.IH by simp
qed simp

lemma sample_validates: "validate_rebound_cell_structure (Some sample_sidecar) (Some sample_sidecar) = Inr ()"
  using validate_rebound_iff [of sample_sidecar sample_sidecar] sample_structure [of 1 18]
  by (simp add: sample_descriptor length_sample_sidecar checksum_bytes_def del: empty_sections.simps)

definition cell_build :: io_build_t where
  "cell_build = sample_build\<lparr>bd_layout := CELL_4K,
     bd_cell_ranges := [\<lparr>rg_first_page = 0, rg_page_count = 1, rg_node_count = 2, rg_chunk_size_bytes = 4096\<rparr>],
     bd_community_polar := \<lparr>fp_size = 672, fp_checksum = fingerprint_loop sample_sidecar k_fnv_offset_basis\<rparr>\<rparr>"

definition cell_bytes :: "u8 list" where
  "cell_bytes = (case write_topology None cell_build of Inl _ \<Rightarrow> [] | Inr bytes \<Rightarrow> bytes)"

lemma cell_build_ok: "build_ok cell_build [[1], [0]]"
  unfolding build_ok_def
  by (intro conjI) (simp_all add: cell_build_def sample_build_def encoding_defs layout_defs location_ok_def prefetch_page_ok_def
      k_no_io_prefetch_page_def k_io_vector_page_size_def cell_layout_def range_ok_def covered_def word_le_nat_alt
      word_less_nat_alt)

lemma cell_fits: "codec_fits pfor (bd_encoding cell_build) [[1], [0]]"
  by (simp add: codec_fits_def cell_build_def sample_build_def)

lemma cell_written: "write_topology None cell_build = Inr cell_bytes" "length cell_bytes = 412"
proof -
  have "\<exists>bytes. write_topology None cell_build = Inr bytes \<and> length bytes = 412"
    by (simp add: write_topology_def encode_adjacency_def cell_build_def sample_build_def build_header_def payload_of_def
        checked_add_def checked_multiply_def k_topology_header_bytes_def k_io_vector_page_size_def
        length_sections Let_def payload_bytes_def length_serialize_header unat_minus_one)
  then show "write_topology None cell_build = Inr cell_bytes" "length cell_bytes = 412"
    by (auto simp: cell_bytes_def)
qed

lemma cell_loads:
  "load_io_optimized_index None (Some sample_disk) (Some cell_bytes) None True False 0
     = Inr (built_index cell_build 412)"
proof -
  have "fingerprint_file (Some sample_disk) = Inr (bd_base cell_build)"
    using sample_fingerprint by (simp add: cell_build_def)
  from load_written [OF cell_build_ok cell_fits cell_written(1) _ this] show ?thesis using cell_written(2) by simp
qed

lemma cell_rebinds:
  "\<exists>out. rebind_io_topology_community_polar True (Some cell_bytes) (Some sample_sidecar) (Some sample_sidecar) = Inr out"
proof -
  from cell_loads [unfolded load_resident_iff] obtain h where h: "parse_header cell_bytes = Inr h" "payload_supported h"
    "fill_index None False h (resident_sections h cell_bytes) (of_nat (length cell_bytes)) = Inr (built_index cell_build 412)"
    by blast
  have disk: "fingerprint_file (Some sample_disk) = Inr (bd_base cell_build)"
    using sample_fingerprint by (simp add: cell_build_def)
  have v: "h_version h \<ge> k_topology_version_v5"
    using load_written(3) [OF cell_build_ok cell_fits cell_written(1) _ disk, of True None] cell_written(2) h(1) by simp
  from h(3) have f: "h_layout h = CELL_4K"
    "h_community_polar h = \<lparr>fp_size = 672, fp_checksum = fingerprint_loop sample_sidecar k_fnv_offset_basis\<rparr>"
    unfolding fill_index_iff by (auto simp: built_index_def cell_build_def sample_build_def)
  have c: "h_cell_count h \<noteq> 0" using h(2) f(1) by (simp add: payload_supported_def cell_layout_def)
  have v2: "\<not> h_version h < k_topology_version_v5" "\<not> h_version h > k_topology_version"
    "h_header_bytes h = k_topology_header_bytes"
    using parse_header_Inr [OF h(1)] v by (auto simp: topology_consts split: if_splits)
  have u: "unat k_topology_header_bytes = 320" by (simp add: k_topology_header_bytes_def)
  have r: "read_file_range (Some cell_bytes) 0 (ucast k_topology_header_bytes) = Inr (take 320 cell_bytes)"
    by (simp add: read_file_range_def u cell_written(2))
  have p: "parse_header (take 320 cell_bytes) = Inr h" using parse_header_prefix [of cell_bytes] h(1) cell_written(2) by simp
  show ?thesis
    by (simp add: rebind_io_topology_community_polar_def r p guardE_def v2 c f(2) fingerprint_file_def
        length_sample_sidecar sample_validates Let_def stream_copy_id u cell_written(2) length_serialize_header)
qed

subsection \<open>Properties\<close>

text \<open>C34: The structural comparison accepts exactly the replacement sidecars that keep the structure: the same points,
dimension and Base fingerprint, section by section the same records outside of the fields that may change (the
packet bytes of a community, the error of a block, the code of a packet), and bodies that match both recorded
checksums. The wrap-around of the record counts cannot make it accept anything else.\<close>

theorem rebound_structure_exact:
  assumes "length source < 2 ^ 64" "length replacement < 2 ^ 64"
  shows "validate_rebound_cell_structure (Some source) (Some replacement) = Inr () \<longleftrightarrow>
    (\<exists>l r. read_cell_sidecar_descriptor source = Inr l \<and> read_cell_sidecar_descriptor replacement = Inr r
       \<and> sd_point_count l = sd_point_count r \<and> sd_dimension l = sd_dimension r
       \<and> sd_base_size l = sd_base_size r \<and> sd_base_checksum l = sd_base_checksum r
       \<and> list_all2 (same_section source replacement (sd_pq_width l) (sd_pq_width r)) (sd_sections l) (sd_sections r)
       \<and> checksum_bytes (drop 672 source) = sd_body_checksum l
       \<and> checksum_bytes (drop 672 replacement) = sd_body_checksum r)"
  by (rule validate_rebound_iff [OF assms])

lemma rebound_structure_exact_witness:
  "validate_rebound_cell_structure (Some sample_sidecar) (Some sample_sidecar) = Inr ()"
  using rebound_structure_exact [of sample_sidecar sample_sidecar] sample_structure [of 1 18]
  by (simp add: sample_descriptor length_sample_sidecar checksum_bytes_def del: empty_sections.simps)

text \<open>C21: Rebinding keeps the index: if a topology file loads and is rebound to a replacement sidecar, the output has the
same size and body and loads, under the same conditions, to the same index with only the sidecar fingerprint
replaced.\<close>

theorem rebind_preserves_index:
  assumes "length bytes < 2 ^ 64" "\<forall>r. replacement = Some r \<longrightarrow> length r < 2 ^ 64"
    "load_io_optimized_index pfor disk (Some bytes) vectors topology_only False cache_pages = Inr ix"
    "rebind_io_topology_community_polar paths_ok (Some bytes) sidecar replacement = Inr out"
  shows "\<exists>f. fingerprint_file replacement = Inr f \<and> length out = length bytes \<and> drop 320 out = drop 320 bytes
    \<and> load_io_optimized_index pfor disk (Some out) vectors topology_only False cache_pages
       = Inr (ix\<lparr>ix_community_polar_fingerprint := f\<rparr>)"
  by (rule rebind_loads [OF assms])

lemma rebind_preserves_index_witness:
  "\<exists>out f. rebind_io_topology_community_polar True (Some cell_bytes) (Some sample_sidecar) (Some sample_sidecar) = Inr out
    \<and> load_io_optimized_index None (Some sample_disk) (Some out) None True False 0
       = Inr ((built_index cell_build 412)\<lparr>ix_community_polar_fingerprint := f\<rparr>)"
proof -
  obtain out where o: "rebind_io_topology_community_polar True (Some cell_bytes) (Some sample_sidecar) (Some sample_sidecar) = Inr out"
    using cell_rebinds by blast
  from rebind_preserves_index [OF _ _ cell_loads o] o show ?thesis
    by (auto simp: cell_written(2) length_sample_sidecar)
qed

end
