(* ===== verification/IO_Placement.thy ===== *)
theory IO_Placement
  imports Community_Index
begin

text \<open>
  Writing the vector artifact: the page writer of \<open>io_optimized_index_t::build\<close>
  (\<open>flush_page\<close>, \<open>append_padding_page\<close>, \<open>append_vector\<close>), the placement order and its weighted
  variant, and the loop that places the cells (src/index/io_optimized_index.cc).  A failing
  write of the operating system is not modelled.
\<close>

subsection \<open>The page writer\<close>

record page_writer_t =
  pw_output_page :: "u8 list"
  pw_output_slot :: u64
  pw_pages_written :: u64
  pw_file :: "u8 list"
  pw_checksum :: u64
  pw_locations :: "io_vector_location_t list"

definition empty_page :: "u8 list" where
  "empty_page = replicate (unat k_io_vector_page_size) 0"

definition new_writer :: "u64 \<Rightarrow> page_writer_t" where
  "new_writer point_count =
     \<lparr>pw_output_page = empty_page, pw_output_slot = 0, pw_pages_written = 0, pw_file = [],
      pw_checksum = k_fnv_offset_basis,
      pw_locations = replicate (unat point_count) \<lparr>loc_page_id = 0, loc_page_offset = 0\<rparr>\<rparr>"

definition write_page :: "page_writer_t \<Rightarrow> page_writer_t" where
  "write_page w = w\<lparr>pw_file := pw_file w @ pw_output_page w,
     pw_checksum := hash_bytes (pw_checksum w) (pw_output_page w), pw_pages_written := pw_pages_written w + 1\<rparr>"

definition flush_page :: "page_writer_t \<Rightarrow> page_writer_t" where
  "flush_page w =
     (if pw_output_slot w = 0 then w else (write_page w)\<lparr>pw_output_page := empty_page, pw_output_slot := 0\<rparr>)"

definition append_padding_page :: "page_writer_t \<Rightarrow> exn + page_writer_t" where
  "append_padding_page w = (if pw_output_slot w \<noteq> 0 then Inl Runtime_error else Inr (write_page w))"

definition blit :: "nat \<Rightarrow> u8 list \<Rightarrow> u8 list \<Rightarrow> u8 list" where
  "blit offset v page = take offset page @ v @ drop (offset + length v) page"

definition append_vector :: "u64 \<Rightarrow> u64 \<Rightarrow> u32 \<Rightarrow> u8 list \<Rightarrow> page_writer_t \<Rightarrow> page_writer_t" where
  "append_vector vector_bytes vectors_per_page node_id v w =
     (let output_offset = pw_output_slot w * vector_bytes;
          w1 = w\<lparr>pw_locations := (pw_locations w)[unat node_id :=
                   \<lparr>loc_page_id = pw_pages_written w, loc_page_offset = ucast output_offset\<rparr>],
                 pw_output_page := blit (unat output_offset) v (pw_output_page w),
                 pw_output_slot := pw_output_slot w + 1\<rparr>
      in if pw_output_slot w1 = vectors_per_page then flush_page w1 else w1)"

subsection \<open>The placement order\<close>

fun fill_order :: "u64 \<Rightarrow> u64 list \<Rightarrow> nat \<Rightarrow> u32 list \<Rightarrow> exn + u32 list" where
  "fill_order point_count [] node order = Inr order"
| "fill_order point_count (packet # packets) node order =
     (if packet \<ge> point_count \<or> order ! unat packet \<noteq> - 1 then Inl Runtime_error
      else fill_order point_count packets (node + 1) (order[unat packet := of_nat node]))"

definition placement_order :: "u64 \<Rightarrow> community_polar_index_t \<Rightarrow> exn + u32 list" where
  "placement_order point_count cells =
     bindE (fill_order point_count (take (unat point_count) (cp_node_to_packet_record cells)) 0
              (replicate (unat point_count) (- 1))) (\<lambda>order.
       if - 1 \<in> set order then Inl Runtime_error else Inr order)"

text \<open>The weighted order: within a cell the next node is the one with most edges to and from the nodes placed last.\<close>

definition has_edge :: "u64 list \<Rightarrow> u32 list \<Rightarrow> u32 \<Rightarrow> u32 \<Rightarrow> bool" where
  "has_edge offsets adjacency source target \<longleftrightarrow>
     target \<in> set (take (unat (offsets ! (unat source + 1)) - unat (offsets ! unat source))
                        (drop (unat (offsets ! unat source)) adjacency))"

definition edge_score :: "u64 list \<Rightarrow> u32 list \<Rightarrow> u32 \<Rightarrow> u32 \<Rightarrow> u32" where
  "edge_score offsets adjacency context candidate =
     (let forward = has_edge offsets adjacency context candidate;
          reverse = has_edge offsets adjacency candidate context in
      of_bool forward + of_bool reverse + of_bool (forward \<and> reverse) * 2)"

definition candidate_score :: "u64 list \<Rightarrow> u32 list \<Rightarrow> nat \<Rightarrow> u32 list \<Rightarrow> u32 \<Rightarrow> u32" where
  "candidate_score offsets adjacency vectors_per_page ordered candidate =
     (let context_begin = (if length ordered > vectors_per_page then length ordered - vectors_per_page else 0) in
      fold (\<lambda>context score. score + edge_score offsets adjacency context candidate) (drop context_begin ordered) 0)"

fun best_candidate :: "(u32 \<Rightarrow> u32) \<Rightarrow> u32 list \<Rightarrow> u32 \<Rightarrow> u32 \<Rightarrow> u32" where
  "best_candidate score [] best best_score = best"
| "best_candidate score (c # cs) best best_score =
     (if score c > best_score \<or> (score c = best_score \<and> c < best)
      then best_candidate score cs c (score c) else best_candidate score cs best best_score)"

lemma best_candidate_in: "best_candidate score cs best s \<in> insert best (set cs)"
  by (induction cs arbitrary: best s) auto

lemma best_candidate_member: "cs \<noteq> [] \<Longrightarrow> best_candidate score cs (hd cs) s \<in> set cs"
  using best_candidate_in [of score cs "hd cs" s] by auto

function order_cell :: "u64 list \<Rightarrow> u32 list \<Rightarrow> nat \<Rightarrow> u32 list \<Rightarrow> u32 list \<Rightarrow> u32 list" where
  "order_cell offsets adjacency vectors_per_page remaining ordered =
     (if remaining = [] then ordered
      else
        let best = best_candidate (candidate_score offsets adjacency vectors_per_page ordered) remaining
                     (hd remaining) 0 in
        order_cell offsets adjacency vectors_per_page (remove1 best remaining) (ordered @ [best]))"
  by pat_completeness auto
termination
  by (relation "measure (\<lambda>(o1, a, v, remaining, ordered). length remaining)")
    (auto simp: length_remove1 best_candidate_member)

declare order_cell.simps [simp del]

function weighted_order :: "u64 list \<Rightarrow> u32 list \<Rightarrow> nat \<Rightarrow> u32 list \<Rightarrow> u32 list \<Rightarrow> u32 list" where
  "weighted_order offsets adjacency vectors_per_page node_to_cell order =
     (if order = [] then []
      else
        let cell = node_to_cell ! unat (hd order);
            members = takeWhile (\<lambda>n. node_to_cell ! unat n = cell) order in
        order_cell offsets adjacency vectors_per_page (sort members) []
          @ weighted_order offsets adjacency vectors_per_page node_to_cell (drop (length members) order))"
  by pat_completeness auto
termination
  by (relation "measure (\<lambda>(o1, a, v, m, order). length order)") (auto simp: neq_Nil_conv)

declare weighted_order.simps [simp del]

subsection \<open>Placing the cells\<close>

fun chunk_class :: "u64 \<Rightarrow> u64 list \<Rightarrow> nat" where
  "chunk_class cell_vector_bytes (c # d # classes) =
     (if cell_vector_bytes > c then Suc (chunk_class cell_vector_bytes (d # classes)) else 0)"
| "chunk_class cell_vector_bytes _ = 0"

definition chunk_classes :: "u64 list" where "chunk_classes = [4096, 65536, 524288, 2097152]"

text \<open>The vectors of one cell: it returns the order that is left, the node count and the writer.\<close>

fun place_nodes ::
  "u64 \<Rightarrow> u64 \<Rightarrow> u32 list \<Rightarrow> u64 \<Rightarrow> u8 list \<Rightarrow> u32 list \<Rightarrow> u32 \<Rightarrow> page_writer_t
    \<Rightarrow> exn + (u32 list \<times> u32 \<times> page_writer_t)" where
  "place_nodes vector_bytes vectors_per_page node_to_cell cell_id spool [] node_count w = Inr ([], node_count, w)"
| "place_nodes vector_bytes vectors_per_page node_to_cell cell_id spool (node # order) node_count w =
     (if ucast (node_to_cell ! unat node) \<noteq> cell_id then Inr (node # order, node_count, w)
      else
        let source = take (unat vector_bytes) (drop (unat (ucast node * vector_bytes)) spool) in
        if length source < unat vector_bytes then Inl Runtime_error
        else place_nodes vector_bytes vectors_per_page node_to_cell cell_id spool order (node_count + 1)
               (append_vector vector_bytes vectors_per_page node source w))"

lemma write_page_pages: "pw_pages_written (write_page w) = pw_pages_written w + 1"
  by (simp add: write_page_def)

declare bindE_cong [fundef_cong]

function pad_pages :: "u64 \<Rightarrow> u64 \<Rightarrow> page_writer_t \<Rightarrow> exn + page_writer_t" where
  "pad_pages first_page allocated_pages w =
     (if pw_pages_written w - first_page < allocated_pages
      then bindE (append_padding_page w) (pad_pages first_page allocated_pages)
      else Inr w)"
  by pat_completeness auto
termination
proof (relation "measure (\<lambda>(f, a, w). unat a - unat (pw_pages_written w - f))", goal_cases)
  case (2 first_page allocated_pages w w1)
  have p: "pw_pages_written w1 - first_page = (pw_pages_written w - first_page) + 1"
    using 2(2) by (auto simp: append_padding_page_def write_page_pages split: if_splits)
  have "unat (pw_pages_written w - first_page) < unat allocated_pages" using 2(1) by (simp add: word_less_nat_alt)
  moreover have "unat (pw_pages_written w - first_page) < 18446744073709551615"
    using \<open>unat (pw_pages_written w - first_page) < unat allocated_pages\<close> unat_u64_less [of allocated_pages]
    by linarith
  then have "unat (pw_pages_written w - first_page + 1) = unat (pw_pages_written w - first_page) + 1"
    using unat_add_lem [of "pw_pages_written w - first_page" 1] by simp
  ultimately show ?case by (simp add: p)
qed simp

declare pad_pages.simps [simp del]

text \<open>One round of the loop over the cells; the counts are \<open>chunk_counts\<close>.\<close>

definition place_cell ::
  "io_vector_layout_t \<Rightarrow> u64 \<Rightarrow> u64 \<Rightarrow> community_polar_index_t \<Rightarrow> u8 list \<Rightarrow> u64 \<Rightarrow> u32 list \<Rightarrow> u64 list \<Rightarrow> page_writer_t
    \<Rightarrow> exn + (io_cell_page_range_t \<times> u32 list \<times> u64 list \<times> page_writer_t)" where
  "place_cell layout vector_bytes vectors_per_page cells spool cell_id order chunk_counts w =
     (let first_page = pw_pages_written w; declared = cl_node_count (cp_cells cells ! unat cell_id) in
      bindE (checked_multiply declared vector_bytes) (\<lambda>cell_vector_bytes.
      let class = (if layout = CELL_CHUNKS then chunk_class cell_vector_bytes chunk_classes else 0);
          chunk_bytes = (if layout = CELL_CHUNKS then chunk_classes ! class else ucast k_io_vector_page_size) in
      bindE (place_nodes vector_bytes vectors_per_page (cp_node_to_cell cells) cell_id spool order 0 w)
        (\<lambda>(rest, node_count, w1).
      let w2 = flush_page w1; useful_pages = pw_pages_written w2 - first_page in
      bindE (if layout = CELL_CHUNKS then
               let pages_per_chunk = chunk_bytes div ucast k_io_vector_page_size;
                   chunks = (useful_pages + pages_per_chunk - 1) div pages_per_chunk in
               bindE (checked_multiply chunks pages_per_chunk) (\<lambda>allocated_pages.
               bindE (pad_pages first_page allocated_pages w2) (\<lambda>w3.
                 Inr (w3, chunk_counts[class := chunk_counts ! class + chunks])))
             else Inr (w2, chunk_counts[0 := chunk_counts ! 0 + useful_pages])) (\<lambda>(w3, counts).
      let page_count = pw_pages_written w3 - first_page in
      if ucast node_count \<noteq> declared \<or> page_count = 0 \<or> page_count > ucast (- 1 :: u32) then Inl Runtime_error
      else Inr (\<lparr>rg_first_page = first_page, rg_page_count = ucast page_count, rg_node_count = node_count,
                 rg_chunk_size_bytes = ucast chunk_bytes\<rparr>, rest, counts, w3)))))"

fun place_cells ::
  "io_vector_layout_t \<Rightarrow> u64 \<Rightarrow> u64 \<Rightarrow> community_polar_index_t \<Rightarrow> u8 list \<Rightarrow> nat \<Rightarrow> u64 \<Rightarrow> u32 list \<Rightarrow> u64 list \<Rightarrow> page_writer_t
    \<Rightarrow> exn + (io_cell_page_range_t list \<times> u64 list \<times> page_writer_t)" where
  "place_cells layout vector_bytes vectors_per_page cells spool 0 cell_id order chunk_counts w =
     (if order \<noteq> [] then Inl Runtime_error else Inr ([], chunk_counts, w))"
| "place_cells layout vector_bytes vectors_per_page cells spool (Suc n) cell_id order chunk_counts w =
     bindE (place_cell layout vector_bytes vectors_per_page cells spool cell_id order chunk_counts w)
       (\<lambda>(range, rest, counts, w1).
     bindE (place_cells layout vector_bytes vectors_per_page cells spool n (cell_id + 1) rest counts w1)
       (\<lambda>(ranges, counts1, w2). Inr (range # ranges, counts1, w2)))"

declare bindE_cong [fundef_cong del]

end
