(* ===== verification/IO_Placement_Correct.thy ===== *)
theory IO_Placement_Correct
  imports IO_Placement "HOL-Library.Multiset"
begin

text \<open>
  Placement is correct: every vector can be read back at its location, the cells get consecutive
  page ranges that pass the loader's checks, and the weighted order only permutes the nodes of a
  cell.  \<open>placed vb w node v\<close> says that the location of \<open>node\<close> holds \<open>v\<close> in what the writer has written
  so far.
\<close>

subsection \<open>The page writer\<close>

definition writer_ok :: "nat \<Rightarrow> page_writer_t \<Rightarrow> bool" where
  "writer_ok vb w \<longleftrightarrow> length (pw_output_page w) = 4096 \<and> unat (pw_output_slot w) < 4096 div vb
     \<and> length (pw_file w) mod 4096 = 0 \<and> pw_pages_written w = of_nat (length (pw_file w) div 4096)
     \<and> pw_checksum w = hash_bytes k_fnv_offset_basis (pw_file w)"

definition placed :: "nat \<Rightarrow> page_writer_t \<Rightarrow> u32 \<Rightarrow> u8 list \<Rightarrow> bool" where
  "placed vb w node v \<longleftrightarrow> (\<exists>k. let l = pw_locations w ! unat node; offset = unat (loc_page_offset l) in
     loc_page_id l = of_nat k \<and> offset + vb \<le> 4096 \<and> vb dvd offset
     \<and> 4096 * k + offset + vb \<le> length (pw_file w) + unat (pw_output_slot w) * vb
     \<and> take vb (drop (4096 * k + offset) (pw_file w @ pw_output_page w)) = v)"

lemma unat_page_size [simp]: "unat k_io_vector_page_size = 4096"
  by (simp add: k_io_vector_page_size_def)

lemma slice_prefix:
  assumes "s + n \<le> m" "take m c' = take m c"
  shows "take n (drop s c') = take n (drop s c)"
proof -
  have "take n (drop s c) = drop s (take (s + n) (take m c))" for c :: "'a list"
    using assms(1) by (simp add: take_drop add.commute)
  then show ?thesis using assms(2) by metis
qed

lemma placed_mono:
  assumes "placed vb w node v" "pw_locations w' ! unat node = pw_locations w ! unat node"
    and "length (pw_file w) + unat (pw_output_slot w) * vb \<le> length (pw_file w') + unat (pw_output_slot w') * vb"
    and "take (length (pw_file w) + unat (pw_output_slot w) * vb) (pw_file w' @ pw_output_page w')
       = take (length (pw_file w) + unat (pw_output_slot w) * vb) (pw_file w @ pw_output_page w)"
  shows "placed vb w' node v"
proof -
  from assms(1) obtain k where k: "loc_page_id (pw_locations w ! unat node) = of_nat k"
    "unat (loc_page_offset (pw_locations w ! unat node)) + vb \<le> 4096"
    "vb dvd unat (loc_page_offset (pw_locations w ! unat node))"
    "4096 * k + unat (loc_page_offset (pw_locations w ! unat node)) + vb
       \<le> length (pw_file w) + unat (pw_output_slot w) * vb"
    "take vb (drop (4096 * k + unat (loc_page_offset (pw_locations w ! unat node))) (pw_file w @ pw_output_page w)) = v"
    by (auto simp: placed_def Let_def)
  from slice_prefix [OF k(4) assms(4)] k(5)
  have "take vb (drop (4096 * k + unat (loc_page_offset (pw_locations w ! unat node))) (pw_file w' @ pw_output_page w')) = v"
    by simp
  with k(1-4) assms(3) show ?thesis
    unfolding placed_def assms(2) Let_def by (intro exI [of _ k]) simp
qed

lemma of_nat_mod_step: "n mod 4096 = 0 \<Longrightarrow> (n + 4096) div 4096 = Suc (n div 4096)" for n :: nat
  by simp

lemma slot_bytes:
  assumes "writer_ok vb w" "0 < vb"
  shows "unat (pw_output_slot w) * vb + vb \<le> 4096"
proof -
  have "Suc (unat (pw_output_slot w)) \<le> 4096 div vb" using assms(1) by (simp add: writer_ok_def)
  then have "Suc (unat (pw_output_slot w)) * vb \<le> 4096 div vb * vb" by (rule mult_le_mono1)
  also have "\<dots> \<le> 4096" by simp
  finally show ?thesis by simp
qed

lemma write_page_ok:
  assumes w: "length (pw_output_page w) = 4096" "length (pw_file w) mod 4096 = 0"
    "pw_pages_written w = of_nat (length (pw_file w) div 4096)" "pw_checksum w = hash_bytes k_fnv_offset_basis (pw_file w)"
    and p: "length page = 4096" "unat slot < 4096 div vb" "unat (pw_output_slot w) * vb \<le> 4096"
  shows "writer_ok vb ((write_page w)\<lparr>pw_output_page := page, pw_output_slot := slot\<rparr>)"
    "placed vb w node v \<Longrightarrow> placed vb ((write_page w)\<lparr>pw_output_page := page, pw_output_slot := slot\<rparr>) node v"
proof -
  show "writer_ok vb ((write_page w)\<lparr>pw_output_page := page, pw_output_slot := slot\<rparr>)"
    using w p by (simp add: writer_ok_def write_page_def of_nat_mod_step hash_bytes_append mod_simps)
  show "placed vb w node v \<Longrightarrow> placed vb ((write_page w)\<lparr>pw_output_page := page, pw_output_slot := slot\<rparr>) node v"
    by (erule placed_mono) (use w p in \<open>simp_all add: write_page_def\<close>)
qed

lemma flush_page_ok:
  assumes ok: "writer_ok vb w" and vb: "0 < vb" "vb \<le> 4096"
  shows "writer_ok vb (flush_page w)" "pw_output_slot (flush_page w) = 0"
    "placed vb w node v \<Longrightarrow> placed vb (flush_page w) node v"
    "pw_locations (flush_page w) = pw_locations w"
    "length (pw_file (flush_page w)) = length (pw_file w) + (if pw_output_slot w = 0 then 0 else 4096)"
proof -
  have z: "0 < 4096 div vb" using vb by (simp add: div_greater_zero_iff)
  have s: "unat (pw_output_slot w) * vb \<le> 4096" using slot_bytes [OF ok vb(1)] by simp
  note o = ok [unfolded writer_ok_def]
  have wp: "writer_ok vb ((write_page w)\<lparr>pw_output_page := empty_page, pw_output_slot := 0\<rparr>)"
    "placed vb w node v \<Longrightarrow> placed vb ((write_page w)\<lparr>pw_output_page := empty_page, pw_output_slot := 0\<rparr>) node v" for node v
    using write_page_ok(1) [of w empty_page 0 vb] write_page_ok(2) [of w empty_page 0 vb node v] o s z
    by (simp_all add: empty_page_def)
  show "writer_ok vb (flush_page w)" "pw_output_slot (flush_page w) = 0"
    "placed vb w node v \<Longrightarrow> placed vb (flush_page w) node v"
    "pw_locations (flush_page w) = pw_locations w"
    "length (pw_file (flush_page w)) = length (pw_file w) + (if pw_output_slot w = 0 then 0 else 4096)"
    using ok wp o by (auto simp: flush_page_def write_page_def)
qed

lemma append_padding_ok:
  assumes ok: "writer_ok vb w" "append_padding_page w = Inr w'"
  shows "writer_ok vb w'" "pw_output_slot w' = 0" "pw_output_slot w = 0" "placed vb w node v \<Longrightarrow> placed vb w' node v"
    "pw_locations w' = pw_locations w" "length (pw_file w') = length (pw_file w) + 4096"
    "pw_pages_written w' = pw_pages_written w + 1"
proof -
  have e: "w' = (write_page w)\<lparr>pw_output_page := pw_output_page w, pw_output_slot := 0\<rparr>" "pw_output_slot w = 0"
    using ok(2) by (auto simp: append_padding_page_def write_page_def split: if_splits)
  note o = ok(1) [unfolded writer_ok_def]
  show "writer_ok vb w'" "pw_output_slot w' = 0" "pw_output_slot w = 0" "placed vb w node v \<Longrightarrow> placed vb w' node v"
    "pw_locations w' = pw_locations w" "length (pw_file w') = length (pw_file w) + 4096"
    "pw_pages_written w' = pw_pages_written w + 1"
    using write_page_ok(1) [of w "pw_output_page w" 0 vb] write_page_ok(2) [of w "pw_output_page w" 0 vb node v] o e
    by (auto simp: write_page_def)
qed

lemma append_vector_ok:
  assumes ok: "writer_ok (unat vb) w" and vb: "0 < unat vb" "unat vb \<le> 4096" and vpp: "unat vpp = 4096 div unat vb"
    and v: "length v = unat vb" and node: "unat node < length (pw_locations w)"
  shows "writer_ok (unat vb) (append_vector vb vpp node v w)"
    "placed (unat vb) (append_vector vb vpp node v w) node v"
    "n \<noteq> node \<Longrightarrow> placed (unat vb) w n u \<Longrightarrow> placed (unat vb) (append_vector vb vpp node v w) n u"
    "length (pw_locations (append_vector vb vpp node v w)) = length (pw_locations w)"
    "length (pw_file w) \<le> length (pw_file (append_vector vb vpp node v w))"
    "length (pw_file w) < length (pw_file (append_vector vb vpp node v w)) \<or> pw_output_slot (append_vector vb vpp node v w) \<noteq> 0"
proof -
  note o = ok [unfolded writer_ok_def]
  let ?b = "unat vb" and ?s = "unat (pw_output_slot w)"
  let ?off = "pw_output_slot w * vb"
  have sb: "?s * ?b + ?b \<le> 4096" by (rule slot_bytes [OF ok vb(1)])
  have u: "unat ?off = ?s * ?b" using unat_mult_lem [of "pw_output_slot w" vb] sb by simp
  have uu: "unat (ucast ?off :: u32) = ?s * ?b"
    using sb u by (simp add: unsigned_ucast_eq take_bit_nat_eq_self)
  define w1 where "w1 = w\<lparr>pw_locations := (pw_locations w)[unat node :=
                   \<lparr>loc_page_id = pw_pages_written w, loc_page_offset = ucast ?off\<rparr>],
                 pw_output_page := blit (unat ?off) v (pw_output_page w),
                 pw_output_slot := pw_output_slot w + 1\<rparr>"
  have a: "append_vector vb vpp node v w = (if pw_output_slot w + 1 = vpp then flush_page w1 else w1)"
    by (simp add: append_vector_def Let_def w1_def)
  have "?s < 4096" using o div_le_dividend [of 4096 ?b] by linarith
  then have s1: "unat (pw_output_slot w + 1) = ?s + 1"
    using unat_add_lem [of "pw_output_slot w" 1] by simp
  have pg: "length (pw_output_page w1) = 4096"
    using o sb v by (simp add: w1_def blit_def u)
  have f: "pw_file w1 = pw_file w" "pw_pages_written w1 = pw_pages_written w" "pw_checksum w1 = pw_checksum w"
    "pw_output_slot w1 = pw_output_slot w + 1" by (simp_all add: w1_def)
  have len: "length (pw_file w) = 4096 * (length (pw_file w) div 4096)" using o by (metis mult_div_mod_eq add_0_right)
  have pl: "placed ?b w1 node v"
  proof -
    have l: "pw_locations w1 ! unat node = \<lparr>loc_page_id = pw_pages_written w, loc_page_offset = ucast ?off\<rparr>"
      using node by (simp add: w1_def)
    have d: "drop (4096 * (length (pw_file w) div 4096) + ?s * ?b) (pw_file w1 @ pw_output_page w1)
        = v @ drop (?s * ?b + ?b) (pw_output_page w)"
      using o sb v by (simp add: f len [symmetric] w1_def blit_def u)
    have "take ?b (drop (4096 * (length (pw_file w) div 4096) + ?s * ?b) (pw_file w1 @ pw_output_page w1)) = v"
      unfolding d using v by simp
    then show ?thesis
      unfolding placed_def l Let_def using o sb
      by (intro exI [of _ "length (pw_file w) div 4096"]) (simp add: uu f s1 len [symmetric])
  qed
  have keep: "placed ?b w1 n u" if "n \<noteq> node" "placed ?b w n u" for n u
  proof (rule placed_mono [OF that(2)])
    show "pw_locations w1 ! unat n = pw_locations w ! unat n"
      using that(1) by (simp add: w1_def word_unat_eq_iff)
    show "length (pw_file w) + ?s * ?b \<le> length (pw_file w1) + unat (pw_output_slot w1) * ?b"
      by (simp add: f s1)
    show "take (length (pw_file w) + ?s * ?b) (pw_file w1 @ pw_output_page w1)
        = take (length (pw_file w) + ?s * ?b) (pw_file w @ pw_output_page w)"
      using o sb by (simp add: f w1_def blit_def u)
  qed
  have l1: "length (pw_locations w1) = length (pw_locations w)" by (simp add: w1_def)
  have step: "writer_ok ?b (append_vector vb vpp node v w)
    \<and> (\<forall>n u. placed ?b w1 n u \<longrightarrow> placed ?b (append_vector vb vpp node v w) n u)
    \<and> pw_locations (append_vector vb vpp node v w) = pw_locations w1
    \<and> length (pw_file w) \<le> length (pw_file (append_vector vb vpp node v w))
    \<and> (length (pw_file w) < length (pw_file (append_vector vb vpp node v w)) \<or> pw_output_slot (append_vector vb vpp node v w) \<noteq> 0)"
  proof (cases "pw_output_slot w + 1 = vpp")
    case False
    then have "?s + 1 \<noteq> 4096 div ?b" using s1 vpp by (metis word_unat_eq_iff)
    then have lt: "?s + 1 < 4096 div ?b" using o by simp
    have "unat (pw_output_slot w + 1) \<noteq> 0" by (simp add: s1)
    then have "pw_output_slot w + 1 \<noteq> 0" by (metis unat_0)
    then show ?thesis using False o pg lt by (simp add: a writer_ok_def f s1)
  next
    case True
    have "unat (pw_output_slot w + 1) \<noteq> 0" by (simp add: s1)
    then have "pw_output_slot w1 \<noteq> 0" by (metis f(4) unat_0)
    then have e: "append_vector vb vpp node v w = (write_page w1)\<lparr>pw_output_page := empty_page, pw_output_slot := 0\<rparr>"
      using True by (simp add: a flush_page_def)
    have z: "unat (0 :: u64) < 4096 div ?b" using vb by (simp add: div_greater_zero_iff)
    have c: "length (pw_output_page w1) = 4096" "length (pw_file w1) mod 4096 = 0"
      "pw_pages_written w1 = of_nat (length (pw_file w1) div 4096)"
      "pw_checksum w1 = hash_bytes k_fnv_offset_basis (pw_file w1)" "length empty_page = 4096"
      "unat (pw_output_slot w1) * ?b \<le> 4096"
      using o pg sb by (simp_all add: f s1 empty_page_def)
    note wp = write_page_ok [OF c(1-5) z c(6)]
    show ?thesis unfolding e using wp pg by (auto simp: write_page_def f)
  qed
  then show "writer_ok ?b (append_vector vb vpp node v w)" "placed ?b (append_vector vb vpp node v w) node v"
    "n \<noteq> node \<Longrightarrow> placed ?b w n u \<Longrightarrow> placed ?b (append_vector vb vpp node v w) n u"
    "length (pw_locations (append_vector vb vpp node v w)) = length (pw_locations w)"
    "length (pw_file w) \<le> length (pw_file (append_vector vb vpp node v w))"
    "length (pw_file w) < length (pw_file (append_vector vb vpp node v w)) \<or> pw_output_slot (append_vector vb vpp node v w) \<noteq> 0"
    using pl keep l1 by auto
qed

subsection \<open>One cell\<close>

lemma place_nodes_ok:
  assumes "place_nodes vb vpp ntc cell spool order n w = Inr (rest, n', w')"
    and vb: "0 < unat vb" "unat vb \<le> 4096" and vpp: "unat vpp = 4096 div unat vb" and ok: "writer_ok (unat vb) w"
    and nodes: "distinct order" "\<forall>v \<in> set order. unat v < length (pw_locations w)" "length (pw_locations w) * unat vb < 2 ^ 64"
  shows "\<exists>ns. order = ns @ rest \<and> n' = n + of_nat (length ns)
    \<and> writer_ok (unat vb) w' \<and> length (pw_locations w') = length (pw_locations w)
    \<and> length (pw_file w) \<le> length (pw_file w')
    \<and> (\<forall>v \<in> set ns. placed (unat vb) w' v (take (unat vb) (drop (unat v * unat vb) spool)))
    \<and> (\<forall>v u. v \<notin> set ns \<longrightarrow> placed (unat vb) w v u \<longrightarrow> placed (unat vb) w' v u)
    \<and> (ns = [] \<longrightarrow> w' = w) \<and> (ns \<noteq> [] \<longrightarrow> length (pw_file w) < length (pw_file w') \<or> pw_output_slot w' \<noteq> 0)
    \<and> (\<forall>v \<in> set ns. ucast (ntc ! unat v) = cell)"
  using assms
proof (induction vb vpp ntc cell spool order n w rule: place_nodes.induct)
  case (2 vb vpp ntc cell spool node order n w)
  note pr = "2.prems"
  show ?case
  proof (cases "ucast (ntc ! unat node) = cell")
    case False
    with pr show ?thesis by (intro exI [of _ "[]"]) auto
  next
    case True
    let ?b = "unat vb"
    have "unat node < length (pw_locations w)" using pr(7) by simp
    then have "unat node * ?b \<le> length (pw_locations w) * ?b" by (intro mult_le_mono1) simp
    then have "unat node * ?b < 2 ^ 64" using pr(8) by (rule le_less_trans)
    then have u: "unat (ucast node * vb) = unat node * ?b" using unat_mult_lem [of "ucast node :: u64" vb] by simp
    define v where "v = take ?b (drop (unat node * ?b) spool)"
    let ?w = "append_vector vb vpp node v w"
    have len: "length v = ?b" and r: "place_nodes vb vpp ntc cell spool order (n + 1) ?w = Inr (rest, n', w')"
      using pr(1) True by (auto simp: Let_def u v_def split: if_splits)
    note ap = append_vector_ok [OF pr(5,2,3,4) len \<open>unat node < length (pw_locations w)\<close>]
    have "\<not> ucast (ntc ! unat node) \<noteq> cell" "\<not> length (take ?b (drop (unat (ucast node * vb)) spool)) < ?b"
      using True len by (simp_all add: u v_def)
    from "2.IH" [OF this(1) refl this(2)] r pr(2-4,6-8) ap(1,4) obtain ns where ns: "order = ns @ rest" "n' = n + 1 + of_nat (length ns)"
      "writer_ok ?b w'" "length (pw_locations w') = length (pw_locations w)" "length (pw_file ?w) \<le> length (pw_file w')"
      "\<forall>v \<in> set ns. placed ?b w' v (take ?b (drop (unat v * ?b) spool))"
      "\<forall>v u. v \<notin> set ns \<longrightarrow> placed ?b ?w v u \<longrightarrow> placed ?b w' v u"
      "ns = [] \<longrightarrow> w' = ?w" "ns \<noteq> [] \<longrightarrow> length (pw_file ?w) < length (pw_file w') \<or> pw_output_slot w' \<noteq> 0"
      "\<forall>v \<in> set ns. ucast (ntc ! unat v) = cell"
      by (auto simp: u v_def [symmetric])
    have "node \<notin> set ns" using pr(6) ns(1) by auto
    then have "placed ?b w' node v" using ns(7) ap(2) by blast
    moreover have "length (pw_file w) < length (pw_file w') \<or> pw_output_slot w' \<noteq> 0"
      using ns(5,8,9) ap(5,6) by (cases "ns = []") auto
    ultimately show ?thesis
      using ns ap(3,5) True by (intro exI [of _ "node # ns"]) (auto simp: v_def add.assoc)
  qed
qed auto

definition page_no :: "page_writer_t \<Rightarrow> nat" where
  "page_no w = length (pw_file w) div 4096"

lemma writer_pages:
  assumes "writer_ok vb w" "length (pw_file w) < 2 ^ 64"
  shows "pw_pages_written w = of_nat (page_no w)" "length (pw_file w) = 4096 * page_no w" "page_no w < 2 ^ 52"
proof -
  show "pw_pages_written w = of_nat (page_no w)" using assms by (simp add: writer_ok_def page_no_def)
  show l: "length (pw_file w) = 4096 * page_no w"
    using assms(1) unfolding writer_ok_def page_no_def by (metis mult_div_mod_eq add_0_right)
  show "page_no w < 2 ^ 52" using assms(2) unfolding l by simp
qed

lemma unat_page_diff:
  assumes "f \<le> n" "n < 2 ^ 64"
  shows "unat (of_nat n - of_nat f :: u64) = n - f"
proof -
  have "(of_nat n - of_nat f :: u64) = of_nat (n - f)" using assms(1) by (simp add: of_nat_diff)
  moreover have "n - f < 2 ^ 64" using assms(2) by simp
  ultimately show ?thesis using unat_of_nat_u64 by presburger
qed

lemma pad_pages_ok:
  assumes "pad_pages first allocated w = Inr w'" "writer_ok vb w" "length (pw_file w') < 2 ^ 64"
    "first = of_nat f" "f \<le> page_no w" "pw_output_slot w = 0"
  shows "writer_ok vb w' \<and> pw_output_slot w' = 0 \<and> pw_locations w' = pw_locations w
    \<and> length (pw_file w) \<le> length (pw_file w') \<and> page_no w' - f = max (page_no w - f) (unat allocated) \<and> page_no w \<le> page_no w'
    \<and> (\<forall>v u. placed vb w v u \<longrightarrow> placed vb w' v u)"
  using assms
proof (induction first allocated w rule: pad_pages.induct)
  case (1 first allocated w)
  show ?case
  proof (cases "pw_pages_written w - first < allocated")
    case True
    with "1.prems"(1) obtain w1 where w1: "append_padding_page w = Inr w1" "pad_pages first allocated w1 = Inr w'"
      by (subst (asm) pad_pages.simps) (auto simp: bindE_eq_Inr)
    note ap = append_padding_ok [OF "1.prems"(2) w1(1)]
    have n1: "page_no w1 = Suc (page_no w)" by (simp add: page_no_def ap(6))
    have i: "writer_ok vb w' \<and> pw_output_slot w' = 0 \<and> pw_locations w' = pw_locations w1
      \<and> length (pw_file w1) \<le> length (pw_file w') \<and> page_no w' - f = max (page_no w1 - f) (unat allocated) \<and> page_no w1 \<le> page_no w'
      \<and> (\<forall>v u. placed vb w1 v u \<longrightarrow> placed vb w' v u)"
      by (rule "1.IH" [OF True w1(1) w1(2) ap(1) "1.prems"(3,4)]) (use n1 "1.prems"(5) ap(2) in simp_all)
    have "length (pw_file w) < 2 ^ 64" using i ap(6) "1.prems"(3) by linarith
    from writer_pages [OF "1.prems"(2) this]
    have "pw_pages_written w = of_nat (page_no w)" "page_no w < 2 ^ 64" by simp_all
    then have "page_no w - f < unat allocated"
      using True unat_page_diff [OF "1.prems"(5)] "1.prems"(4) by (simp add: word_less_nat_alt)
    with i n1 ap(4,5,6) "1.prems"(5) show ?thesis by auto
  next
    case False
    with "1.prems"(1) have w: "w' = w" by (subst (asm) pad_pages.simps) simp
    have "length (pw_file w) < 2 ^ 64" using "1.prems"(3) w by simp
    from writer_pages [OF "1.prems"(2) this]
    have "pw_pages_written w = of_nat (page_no w)" "page_no w < 2 ^ 64" by simp_all
    then have "unat allocated \<le> page_no w - f"
      using False unat_page_diff [OF "1.prems"(5)] "1.prems"(4) by (simp add: word_less_nat_alt)
    then show ?thesis using w "1.prems" by simp
  qed
qed

lemma pad_pages_mono: "pad_pages first allocated w = Inr w' \<Longrightarrow> length (pw_file w) \<le> length (pw_file w')"
proof (induction first allocated w rule: pad_pages.induct)
  case (1 first allocated w)
  show ?case
  proof (cases "pw_pages_written w - first < allocated")
    case True
    with "1.prems" obtain w1 where w1: "append_padding_page w = Inr w1" "pad_pages first allocated w1 = Inr w'"
      by (subst (asm) pad_pages.simps) (auto simp: bindE_eq_Inr)
    from "1.IH" [OF True w1] w1(1) show ?thesis
      by (auto simp: append_padding_page_def write_page_def split: if_splits)
  next
    case False
    with "1.prems" show ?thesis by (subst (asm) pad_pages.simps) simp
  qed
qed

lemma chunk_class_bound: "cs \<noteq> [] \<Longrightarrow> chunk_class n cs < length cs"
  by (induction n cs rule: chunk_class.induct) auto

lemma chunk_bytes_in: "chunk_classes ! chunk_class n chunk_classes \<in> {4096, 65536, 524288, 2097152}"
  using chunk_class_bound [of chunk_classes n] nth_mem [of "chunk_class n chunk_classes" chunk_classes]
  by (auto simp: chunk_classes_def)

text \<open>The round up to whole chunks.\<close>

lemma round_up:
  assumes "0 < p" "unat useful + p < 2 ^ 64" "checked_multiply ((useful + of_nat p - 1) div of_nat p) (of_nat p) = Inr (a :: u64)"
  shows "unat useful \<le> unat a" "p dvd unat a" "unat useful = 0 \<longrightarrow> unat a = 0"
proof -
  have up: "unat (of_nat p :: u64) = p" using assms(2) by (intro unat_of_nat_u64) simp
  have "useful + of_nat p - 1 = of_nat (unat useful + p - 1)" using assms(1) by (simp add: of_nat_diff)
  moreover have "unat useful + p - 1 < 2 ^ 64" using assms(2) by simp
  ultimately have u: "unat (useful + of_nat p - 1) = unat useful + p - 1" using unat_of_nat_u64 by presburger
  have a: "unat a = (unat useful + p - 1) div p * p" using assms(3) unfolding checked_multiply_iff unat_div u up .
  then show "p dvd unat a" by simp
  have m: "(unat useful + p - 1) div p * p + (unat useful + p - 1) mod p = unat useful + p - 1" by simp
  have "(unat useful + p - 1) mod p < p" using assms(1) by simp
  with m a assms(1) show "unat useful \<le> unat a" by linarith
  show "unat useful = 0 \<longrightarrow> unat a = 0" using a assms(1) by simp
qed

definition range_shape :: "io_vector_layout_t \<Rightarrow> io_cell_page_range_t \<Rightarrow> bool" where
  "range_shape layout r \<longleftrightarrow> rg_page_count r \<noteq> 0 \<and> rg_node_count r \<noteq> 0
     \<and> rg_chunk_size_bytes r \<in> {4096, 65536, 524288, 2097152}
     \<and> (layout \<noteq> CELL_CHUNKS \<longrightarrow> rg_chunk_size_bytes r = k_io_vector_page_size)
     \<and> (layout = CELL_CHUNKS \<longrightarrow> rg_page_count r mod (rg_chunk_size_bytes r div k_io_vector_page_size) = 0)"

text \<open>What the pages after the nodes of a cell are: none, or padding up to whole chunks.\<close>

lemma cell_padding_ok:
  assumes run: "(if layout = CELL_CHUNKS then
               let pages_per_chunk = chunk_bytes div ucast k_io_vector_page_size;
                   chunks = (useful + pages_per_chunk - 1) div pages_per_chunk in
               bindE (checked_multiply chunks pages_per_chunk) (\<lambda>allocated_pages.
               bindE (pad_pages first allocated_pages w) (\<lambda>w3.
                 Inr (w3, chunk_counts[class := chunk_counts ! class + chunks])))
             else Inr (w, chunk_counts[0 := chunk_counts ! 0 + useful])) = Inr (w', counts)"
    and chunk: "chunk_bytes \<in> {4096, 65536, 524288, 2097152}" "layout \<noteq> CELL_CHUNKS \<longrightarrow> chunk_bytes = 4096"
    and w: "writer_ok vb w" "length (pw_file w') < 2 ^ 64" "first = of_nat f" "f \<le> page_no w" "pw_output_slot w = 0"
    and useful: "useful = of_nat (page_no w - f)" "page_no w < 2 ^ 52"
  shows "writer_ok vb w' \<and> pw_output_slot w' = 0 \<and> pw_locations w' = pw_locations w
    \<and> length (pw_file w) \<le> length (pw_file w') \<and> page_no w \<le> page_no w'
    \<and> (\<forall>v u. placed vb w v u \<longrightarrow> placed vb w' v u) \<and> (page_no w = f \<longrightarrow> page_no w' = f)
    \<and> (layout = CELL_CHUNKS \<longrightarrow> unat (chunk_bytes div 4096) dvd page_no w' - f)"
proof (cases "layout = CELL_CHUNKS")
  case False
  with run w show ?thesis by auto
next
  case True
  define p where "p = unat (chunk_bytes div 4096)"
  have p: "chunk_bytes div ucast k_io_vector_page_size = of_nat p" "0 < p" "p \<le> 512"
    using chunk(1) by (auto simp: p_def k_io_vector_page_size_def)
  have uu: "unat useful = page_no w - f" unfolding useful(1) using useful(2) by (intro unat_of_nat_u64) simp
  from run True p(1) obtain a where
    a: "checked_multiply ((useful + of_nat p - 1) div of_nat p) (of_nat p) = Inr a" "pad_pages first a w = Inr w'"
    by (auto simp: Let_def bindE_eq_Inr)
  have "unat useful + p < 2 ^ 64" using uu useful(2) p(3) by simp
  note ru = round_up [OF p(2) this a(1), unfolded uu]
  note pp = pad_pages_ok [OF a(2) w(1,2,3,4,5)]
  have "page_no w' - f = unat a" using pp ru(1) by simp
  with pp ru True w(4) show ?thesis by (auto simp: p_def [symmetric])
qed

lemma distinct_u32_length:
  assumes "distinct (ns :: u32 list)" "\<forall>v \<in> set ns. unat v < n"
  shows "length ns \<le> n"
proof -
  have "distinct (map unat ns)" using assms(1) by (simp add: distinct_map inj_on_def word_unat_eq_iff)
  then have "length ns = card (set (map unat ns))" by (metis distinct_card length_map)
  also have "\<dots> \<le> card {..<n}" by (rule card_mono) (use assms(2) in auto)
  finally show ?thesis by simp
qed

lemma place_cell_ok:
  assumes run: "place_cell layout vb vpp cells spool cell order counts w = Inr (rg, rest, counts', w')"
    and vb: "0 < unat vb" "unat vb \<le> 4096" "unat vpp = 4096 div unat vb"
    and w: "writer_ok (unat vb) w" "pw_output_slot w = 0" "length (pw_file w') < 2 ^ 64"
    and nodes: "distinct order" "\<forall>v \<in> set order. unat v < length (pw_locations w)"
      "length (pw_locations w) * unat vb < 2 ^ 64" "length (pw_locations w) < 2 ^ 32"
  shows "\<exists>ns. order = ns @ rest \<and> unat (rg_node_count rg) = length ns \<and> range_shape layout rg
    \<and> rg_first_page rg = of_nat (page_no w) \<and> unat (rg_page_count rg) = page_no w' - page_no w \<and> page_no w < page_no w'
    \<and> writer_ok (unat vb) w' \<and> pw_output_slot w' = 0 \<and> length (pw_locations w') = length (pw_locations w)
    \<and> length (pw_file w) \<le> length (pw_file w')
    \<and> (\<forall>v \<in> set ns. placed (unat vb) w' v (take (unat vb) (drop (unat v * unat vb) spool)))
    \<and> (\<forall>v u. v \<notin> set ns \<longrightarrow> placed (unat vb) w v u \<longrightarrow> placed (unat vb) w' v u)
    \<and> (\<forall>v \<in> set ns. ucast (cp_node_to_cell cells ! unat v) = cell)"
proof -
  let ?b = "unat vb"
  let ?declared = "cl_node_count (cp_cells cells ! unat cell)"
  from run obtain cvb n w1 where
    pn: "place_nodes vb vpp (cp_node_to_cell cells) cell spool order 0 w = Inr (rest, n, w1)"
    and pad: "(if layout = CELL_CHUNKS then
               let pages_per_chunk = (if layout = CELL_CHUNKS then chunk_classes ! chunk_class cvb chunk_classes
                     else ucast k_io_vector_page_size) div ucast k_io_vector_page_size;
                   chunks = (pw_pages_written (flush_page w1) - pw_pages_written w + pages_per_chunk - 1) div pages_per_chunk in
               bindE (checked_multiply chunks pages_per_chunk) (\<lambda>allocated_pages.
               bindE (pad_pages (pw_pages_written w) allocated_pages (flush_page w1)) (\<lambda>w3.
                 Inr (w3, counts[(if layout = CELL_CHUNKS then chunk_class cvb chunk_classes else 0) :=
                   counts ! (if layout = CELL_CHUNKS then chunk_class cvb chunk_classes else 0) + chunks])))
             else Inr (flush_page w1, counts[0 := counts ! 0 + (pw_pages_written (flush_page w1) - pw_pages_written w)]))
             = Inr (w', counts')"
    and chk: "ucast n = ?declared" "pw_pages_written w' - pw_pages_written w \<noteq> 0"
      "\<not> pw_pages_written w' - pw_pages_written w > ucast (- 1 :: u32)"
    and rg: "rg = \<lparr>rg_first_page = pw_pages_written w, rg_page_count = ucast (pw_pages_written w' - pw_pages_written w),
                 rg_node_count = n, rg_chunk_size_bytes = ucast (if layout = CELL_CHUNKS
                   then chunk_classes ! chunk_class cvb chunk_classes else ucast k_io_vector_page_size)\<rparr>"
    unfolding place_cell_def Let_def bindE_eq_Inr
    by (auto simp: bindE_eq_Inr Let_def split: if_splits prod.splits)
  let ?c = "if layout = CELL_CHUNKS then chunk_classes ! chunk_class cvb chunk_classes else ucast k_io_vector_page_size"
  let ?w2 = "flush_page w1"
  from place_nodes_ok [OF pn vb w(1) nodes(1-3)] obtain ns where ns: "order = ns @ rest" "n = of_nat (length ns)"
    "writer_ok ?b w1" "length (pw_locations w1) = length (pw_locations w)" "length (pw_file w) \<le> length (pw_file w1)"
    "\<forall>v \<in> set ns. placed ?b w1 v (take ?b (drop (unat v * ?b) spool))"
    "\<forall>v u. v \<notin> set ns \<longrightarrow> placed ?b w v u \<longrightarrow> placed ?b w1 v u" "ns = [] \<longrightarrow> w1 = w"
    "\<forall>v \<in> set ns. ucast (cp_node_to_cell cells ! unat v) = cell" by auto
  note fl = flush_page_ok [OF ns(3) vb(1,2)]
  have mono: "length (pw_file ?w2) \<le> length (pw_file w')"
    using pad by (auto simp: Let_def bindE_eq_Inr dest: pad_pages_mono split: if_splits)
  have le: "length (pw_file w) \<le> length (pw_file ?w2)" using ns(5) fl(5) by simp
  have small: "length (pw_file w) < 2 ^ 64" "length (pw_file ?w2) < 2 ^ 64" using le mono w(3) by linarith+
  note pw = writer_pages [OF w(1) small(1)] and p2 = writer_pages [OF fl(1) small(2)]
  have ple: "page_no w \<le> page_no ?w2" using le unfolding page_no_def by (rule div_le_mono)
  have useful: "pw_pages_written ?w2 - pw_pages_written w = of_nat (page_no ?w2 - page_no w)"
    using ple by (simp add: pw(1) p2(1) of_nat_diff)
  have c: "?c \<in> {4096, 65536, 524288, 2097152}" "layout \<noteq> CELL_CHUNKS \<longrightarrow> ?c = 4096"
    using chunk_bytes_in [of cvb] by (simp_all add: k_io_vector_page_size_def)
  note cp = cell_padding_ok [OF pad c fl(1) w(3) pw(1) ple fl(2) useful p2(3)]
  then have cpd: "writer_ok ?b w'" "pw_output_slot w' = 0" "pw_locations w' = pw_locations ?w2" "page_no ?w2 \<le> page_no w'"
    "\<forall>v u. placed ?b ?w2 v u \<longrightarrow> placed ?b w' v u" "page_no ?w2 = page_no w \<longrightarrow> page_no w' = page_no w"
    "layout = CELL_CHUNKS \<longrightarrow> unat (?c div 4096) dvd page_no w' - page_no w" by blast+
  note p' = writer_pages [OF cpd(1) w(3)]
  have d: "unat (pw_pages_written w' - pw_pages_written w) = page_no w' - page_no w"
    unfolding p'(1) pw(1) by (rule unat_page_diff) (use cpd(4) ple p'(3) in simp_all)
  have pc: "unat (rg_page_count rg) = page_no w' - page_no w"
  proof -
    have "unat (pw_pages_written w' - pw_pages_written w) < 2 ^ 32"
      using chk(3) by (auto simp: not_less word_le_nat_alt unsigned_minus_1_eq_mask mask_eq_exp_minus_1)
    then show ?thesis unfolding d [symmetric] by (simp add: rg unsigned_ucast_eq take_bit_nat_eq_self)
  qed
  have lt: "page_no w < page_no w'"
  proof -
    have "unat (pw_pages_written w' - pw_pages_written w) \<noteq> 0" using chk(2) by (simp add: unat_eq_zero)
    then show ?thesis using d by simp
  qed
  have "length ns \<le> length (pw_locations w)" using distinct_u32_length [of ns] nodes(1,2) ns(1) by auto
  then have un: "unat n = length ns" using ns(2) nodes(4) by (simp add: unat_of_nat take_bit_nat_eq_self)
  have "ns \<noteq> []"
  proof
    assume "ns = []"
    then have "page_no ?w2 = page_no w" using ns(8) w(2) by (simp add: flush_page_def)
    then show False using cpd(6) lt by simp
  qed
  then have n0: "n \<noteq> 0" using un by auto
  have shape: "range_shape layout rg"
  proof -
    have "rg_page_count rg \<noteq> 0" using pc lt by auto
    moreover have "rg_chunk_size_bytes rg \<in> {4096, 65536, 524288, 2097152}" using c(1) by (auto simp: rg)
    moreover have "rg_page_count rg mod (rg_chunk_size_bytes rg div k_io_vector_page_size) = 0" if "layout = CELL_CHUNKS"
    proof -
      have "unat (rg_chunk_size_bytes rg div k_io_vector_page_size) = unat (?c div 4096)"
        using c(1) by (auto simp: rg k_io_vector_page_size_def)
      then show ?thesis using cpd(7) that pc by (simp add: word_unat_eq_iff unat_mod mod_eq_0_iff_dvd)
    qed
    moreover have "rg_node_count rg \<noteq> 0" using n0 by (simp add: rg)
    moreover have "rg_chunk_size_bytes rg = k_io_vector_page_size" if "layout \<noteq> CELL_CHUNKS"
      using that by (simp add: rg k_io_vector_page_size_def)
    ultimately show ?thesis unfolding range_shape_def by blast
  qed
  have f: "rg_node_count rg = n" "rg_first_page rg = of_nat (page_no w)" by (simp_all add: rg pw(1))
  show ?thesis
  proof (intro exI [of _ ns] conjI)
    show "length (pw_locations w') = length (pw_locations w)" by (simp only: cpd(3) fl(4) ns(4))
    show "\<forall>v \<in> set ns. placed ?b w' v (take ?b (drop (unat v * ?b) spool))" using ns(6) fl(3) cpd(5) by blast
    show "\<forall>v u. v \<notin> set ns \<longrightarrow> placed ?b w v u \<longrightarrow> placed ?b w' v u" using ns(7) fl(3) cpd(5) by blast
    show "length (pw_file w) \<le> length (pw_file w')" using le mono by (rule le_trans)
  qed (use ns(1,9) un shape f pc lt cpd(1,2) in simp_all)
qed

subsection \<open>All cells\<close>

lemma append_vector_mono: "length (pw_file w) \<le> length (pw_file (append_vector vb vpp node v w))"
  by (simp add: append_vector_def Let_def flush_page_def write_page_def)

lemma place_nodes_mono:
  "place_nodes vb vpp ntc cell spool order n w = Inr (rest, n', w') \<Longrightarrow> length (pw_file w) \<le> length (pw_file w')"
proof (induction vb vpp ntc cell spool order n w rule: place_nodes.induct)
  case (2 vb vpp ntc cell spool node order n w)
  then show ?case using append_vector_mono [of w vb vpp node] by (fastforce simp: Let_def split: if_splits intro: le_trans)
qed auto

lemma place_cell_mono:
  assumes "place_cell layout vb vpp cells spool cell order counts w = Inr (rg, rest, counts', w')"
  shows "length (pw_file w) \<le> length (pw_file w')"
proof -
  from assms obtain n w1 where
    pn: "place_nodes vb vpp (cp_node_to_cell cells) cell spool order 0 w = Inr (rest, n, w1)"
    and pad: "w' = flush_page w1 \<or> (\<exists>a. pad_pages (pw_pages_written w) a (flush_page w1) = Inr w')"
    unfolding place_cell_def Let_def bindE_eq_Inr
    by (auto simp: bindE_eq_Inr Let_def split: if_splits prod.splits)
  have "length (pw_file w1) \<le> length (pw_file (flush_page w1))" by (simp add: flush_page_def write_page_def)
  then show ?thesis using place_nodes_mono [OF pn] pad pad_pages_mono by (meson le_trans)
qed

lemma place_cells_mono:
  "place_cells layout vb vpp cells spool n cell order counts w = Inr (rs, counts', w') \<Longrightarrow> length (pw_file w) \<le> length (pw_file w')"
proof (induction n arbitrary: cell order counts w rs)
  case (Suc n)
  then obtain rg rest c w1 rs' where "place_cell layout vb vpp cells spool cell order counts w = Inr (rg, rest, c, w1)"
    "place_cells layout vb vpp cells spool n (cell + 1) rest c w1 = Inr (rs', counts', w')"
    by (auto simp: bindE_eq_Inr)
  with Suc.IH place_cell_mono show ?case by (meson le_trans)
qed (auto split: if_splits)

lemma place_cells_ok:
  assumes "place_cells layout vb vpp cells spool n cell order counts w = Inr (rs, counts', w')"
    and vb: "0 < unat vb" "unat vb \<le> 4096" "unat vpp = 4096 div unat vb"
    and "writer_ok (unat vb) w" "pw_output_slot w = 0" "length (pw_file w') < 2 ^ 64"
    and "distinct order" "\<forall>v \<in> set order. unat v < length (pw_locations w)"
      "length (pw_locations w) * unat vb < 2 ^ 64" "length (pw_locations w) < 2 ^ 32"
  shows "writer_ok (unat vb) w' \<and> pw_output_slot w' = 0 \<and> length (pw_locations w') = length (pw_locations w)
    \<and> length rs = n \<and> covers_pages (page_no w) rs (page_no w') \<and> covered rs = length order \<and> list_all (range_shape layout) rs
    \<and> (\<forall>v \<in> set order. placed (unat vb) w' v (take (unat vb) (drop (unat v * unat vb) spool)))
    \<and> (\<forall>v u. v \<notin> set order \<longrightarrow> placed (unat vb) w v u \<longrightarrow> placed (unat vb) w' v u)"
  using assms(1,5-)
proof (induction n arbitrary: cell order counts w rs)
  case 0
  then show ?case by (auto simp: covered_def split: if_splits)
next
  case (Suc n)
  note pr = Suc.prems
  from pr(1) obtain rg rest c w1 rs' where
    pc: "place_cell layout vb vpp cells spool cell order counts w = Inr (rg, rest, c, w1)"
    and pcs: "place_cells layout vb vpp cells spool n (cell + 1) rest c w1 = Inr (rs', counts', w')" and rs: "rs = rg # rs'"
    by (auto simp: bindE_eq_Inr)
  have l1: "length (pw_file w1) < 2 ^ 64" using place_cells_mono [OF pcs] pr(4) by linarith
  from place_cell_ok [OF pc vb pr(2,3) l1 pr(5-8)] obtain ns where ns: "order = ns @ rest"
    "unat (rg_node_count rg) = length ns" "range_shape layout rg" "rg_first_page rg = of_nat (page_no w)"
    "unat (rg_page_count rg) = page_no w1 - page_no w" "page_no w < page_no w1"
    "writer_ok (unat vb) w1" "pw_output_slot w1 = 0" "length (pw_locations w1) = length (pw_locations w)"
    "\<forall>v \<in> set ns. placed (unat vb) w1 v (take (unat vb) (drop (unat v * unat vb) spool))"
    "\<forall>v u. v \<notin> set ns \<longrightarrow> placed (unat vb) w v u \<longrightarrow> placed (unat vb) w1 v u" by blast
  have lw: "length (pw_file w) < 2 ^ 64" using place_cell_mono [OF pc] l1 by linarith
  have fp: "unat (rg_first_page rg) = page_no w"
    using writer_pages(3) [OF pr(2) lw] unfolding ns(4) by (intro unat_of_nat_u64) simp
  have "distinct rest" "\<forall>v \<in> set rest. unat v < length (pw_locations w1)" "length (pw_locations w1) * unat vb < 2 ^ 64"
    "length (pw_locations w1) < 2 ^ 32" using pr(5-8) ns(1,9) by auto
  note ih = Suc.IH [OF pcs ns(7,8) pr(4) this]
  have cov: "covers_pages (page_no w) rs (page_no w')" using ih fp ns(5,6) by (simp add: rs)
  have "covered rs = length order" using ih ns(1,2) by (simp add: rs covered_def)
  moreover have "\<forall>v \<in> set order. placed (unat vb) w' v (take (unat vb) (drop (unat v * unat vb) spool))"
    using ih ns(1,10) pr(5) by auto
  moreover have "\<forall>v u. v \<notin> set order \<longrightarrow> placed (unat vb) w v u \<longrightarrow> placed (unat vb) w' v u" using ih ns(1,11) by simp
  ultimately show ?case using ih ns(3,9) cov by (simp add: rs)
qed

lemma covers_pages_bound:
  "covers_pages p rs q \<Longrightarrow> r \<in> set rs \<Longrightarrow> p \<le> unat (rg_first_page r) \<and> 0 < unat (rg_page_count r)
     \<and> unat (rg_first_page r) + unat (rg_page_count r) \<le> q"
proof (induction rs arbitrary: p)
  case (Cons a rs)
  have "p \<le> q" if "covers_pages p rs q" for p rs
    using that by (induction rs arbitrary: p) (auto dest: add_leD1)
  with Cons show ?case by fastforce
qed simp

lemma range_shape_ok:
  assumes "range_shape layout r" "unat (rg_first_page r) + unat (rg_page_count r) \<le> unat pages"
  shows "range_ok layout pages (rg_first_page r) r"
proof -
  note s = assms(1) [unfolded range_shape_def]
  have "0 < unat (rg_page_count r)" using s by (simp add: unat_gt_0)
  then have lt: "rg_first_page r < pages" using assms(2) by (simp add: word_less_nat_alt)
  have "unat (pages - rg_first_page r) = unat pages - unat (rg_first_page r)"
    using lt by (intro unat_sub) simp
  then have "\<not> ucast (rg_page_count r) > pages - rg_first_page r" using assms(2) by (simp add: word_less_nat_alt)
  with s lt show ?thesis by (auto simp: range_ok_def not_le)
qed

subsection \<open>The placement order\<close>

lemma fill_order_ok:
  assumes "fill_order pc packets m order = Inr order'" "length order = unat pc" "m + length packets < 2 ^ 32"
    "\<forall>p < unat pc. order ! p \<noteq> - 1 \<longrightarrow> unat (order ! p) < m"
    "\<forall>p < unat pc. \<forall>q < unat pc. order ! p \<noteq> - 1 \<longrightarrow> order ! p = order ! q \<longrightarrow> p = q"
  shows "length order' = unat pc \<and> (\<forall>p < unat pc. order' ! p \<noteq> - 1 \<longrightarrow> unat (order' ! p) < m + length packets)
    \<and> (\<forall>p < unat pc. \<forall>q < unat pc. order' ! p \<noteq> - 1 \<longrightarrow> order' ! p = order' ! q \<longrightarrow> p = q)"
  using assms
proof (induction pc packets m order rule: fill_order.induct)
  case (2 pc packet packets m order)
  from "2.prems"(1) have c: "\<not> (packet \<ge> pc \<or> order ! unat packet \<noteq> - 1)"
    and r: "fill_order pc packets (m + 1) (order[unat packet := of_nat m]) = Inr order'" by (auto split: if_splits)
  have p: "unat packet < unat pc" using c by (simp add: not_le word_less_nat_alt)
  have um: "unat (of_nat m :: u32) = m" using "2.prems"(3) by (simp add: unat_of_nat take_bit_nat_eq_self)
  have new: "order ! q \<noteq> of_nat m" if "q < unat pc" "order ! q \<noteq> - 1" for q
    using "2.prems"(4) that um by (metis less_irrefl)
  have m1: "(of_nat m :: u32) \<noteq> - 1"
  proof
    assume "(of_nat m :: u32) = - 1"
    then have "m = 4294967295" using um by (simp add: unsigned_minus_1_eq_mask mask_eq_exp_minus_1)
    then show False using "2.prems"(3) by simp
  qed
  have i: "\<forall>q < unat pc. order[unat packet := of_nat m] ! q \<noteq> - 1 \<longrightarrow> unat (order[unat packet := of_nat m] ! q) < m + 1"
    using "2.prems"(2,4) p um by (auto simp: nth_list_update less_Suc_eq)
  have j: "\<forall>q < unat pc. \<forall>t < unat pc. order[unat packet := of_nat m] ! q \<noteq> - 1 \<longrightarrow>
      order[unat packet := of_nat m] ! q = order[unat packet := of_nat m] ! t \<longrightarrow> q = t"
  proof (intro allI impI)
    fix q t assume a: "q < unat pc" "t < unat pc" "order[unat packet := of_nat m] ! q \<noteq> - 1"
      "order[unat packet := of_nat m] ! q = order[unat packet := of_nat m] ! t"
    have at: "order[unat packet := of_nat m] ! x = (if x = unat packet then of_nat m else order ! x)" if "x < unat pc" for x
      using that "2.prems"(2) by simp
    consider "q = unat packet" "t = unat packet" | "q = unat packet" "t \<noteq> unat packet" "order ! t = of_nat m"
      | "q \<noteq> unat packet" "t = unat packet" "order ! q = of_nat m"
      | "q \<noteq> unat packet" "t \<noteq> unat packet" "order ! q = order ! t" "order ! q \<noteq> - 1"
      using a(3,4) unfolding at [OF a(1)] at [OF a(2)]
      by (cases "q = unat packet"; cases "t = unat packet") simp_all
    then show "q = t"
    proof cases
      case 2
      then show ?thesis using new [OF a(2)] m1 by metis
    next
      case 3
      then show ?thesis using new [OF a(1)] m1 by metis
    next
      case 4
      then show ?thesis using "2.prems"(5) a(1,2) by blast
    qed simp
  qed
  have len: "length (order[unat packet := of_nat m]) = unat pc" "m + 1 + length packets < 2 ^ 32"
    "m + 1 + length packets = m + length (packet # packets)" using "2.prems"(2,3) by simp_all
  show ?case using "2.IH" [OF c r len(1,2) i j] unfolding len(3) .
qed auto

lemma placement_order_ok:
  assumes "placement_order pc cells = Inr order" "unat pc < 2 ^ 32"
  shows "length order = unat pc" "distinct order" "set order = {v. unat v < unat pc}"
proof -
  let ?ps = "take (unat pc) (cp_node_to_packet_record cells)"
  from assms(1) have f: "fill_order pc ?ps 0 (replicate (unat pc) (- 1)) = Inr order" and full: "- 1 \<notin> set order"
    by (auto simp: placement_order_def bindE_eq_Inr split: if_splits)
  have o: "length order = unat pc" "\<forall>p < unat pc. order ! p \<noteq> - 1 \<longrightarrow> unat (order ! p) < length ?ps"
    "\<forall>p < unat pc. \<forall>q < unat pc. order ! p \<noteq> - 1 \<longrightarrow> order ! p = order ! q \<longrightarrow> p = q"
    using fill_order_ok [OF f] assms(2) by auto
  show "length order = unat pc" by (fact o(1))
  have ne: "order ! p \<noteq> - 1" if "p < unat pc" for p using full o(1) that by (metis nth_mem)
  then show d: "distinct order" using o by (auto simp: distinct_conv_nth)
  have sub: "unat ` set order \<subseteq> {..<unat pc}"
  proof
    fix x assume "x \<in> unat ` set order"
    then obtain p where "p < unat pc" "x = unat (order ! p)" using o(1) by (auto simp: in_set_conv_nth)
    then show "x \<in> {..<unat pc}" using o(2) ne by (metis length_take lessThan_iff min_less_iff_conj)
  qed
  have "card (unat ` set order) = unat pc"
    using d o(1) by (subst card_image) (auto simp: inj_on_def word_unat_eq_iff distinct_card)
  then have eq: "unat ` set order = {..<unat pc}" using sub by (intro card_subset_eq) auto
  show "set order = {v. unat v < unat pc}"
  proof (intro equalityI subsetI)
    fix v :: u32 assume "v \<in> {v. unat v < unat pc}"
    then have "unat v \<in> unat ` set order" using eq by auto
    then show "v \<in> set order" by (auto simp: word_unat_eq_iff [symmetric])
  qed (use sub in auto)
qed

subsection \<open>The weighted order\<close>

lemma order_cell_mset: "mset (order_cell offsets adjacency vpp remaining ordered) = mset remaining + mset ordered"
proof (induction offsets adjacency vpp remaining ordered rule: order_cell.induct)
  case (1 offsets adjacency vpp remaining ordered)
  show ?case
  proof (cases "remaining = []")
    case True
    then show ?thesis by (subst order_cell.simps) simp
  next
    case False
    let ?best = "best_candidate (candidate_score offsets adjacency vpp ordered) remaining (hd remaining) 0"
    have "?best \<in> set remaining" by (rule best_candidate_member [OF False])
    with 1 [OF False refl] False show ?thesis by (subst order_cell.simps) (simp add: Let_def)
  qed
qed

lemma weighted_order_ok:
  "mset (weighted_order offsets adjacency vpp ntc order) = mset order
   \<and> map (\<lambda>n. ntc ! unat n) (weighted_order offsets adjacency vpp ntc order) = map (\<lambda>n. ntc ! unat n) order"
proof (induction offsets adjacency vpp ntc order rule: weighted_order.induct)
  case (1 offsets adjacency vpp ntc order)
  show ?case
  proof (cases "order = []")
    case True
    have "weighted_order offsets adjacency vpp ntc order = []" unfolding True by (subst weighted_order.simps) simp
    then show ?thesis by (simp add: True)
  next
    case False
    define cell where "cell = ntc ! unat (hd order)"
    define members where "members = takeWhile (\<lambda>n. ntc ! unat n = cell) order"
    let ?new = "order_cell offsets adjacency vpp (sort members) []"
    have m: "mset ?new = mset members" by (simp add: order_cell_mset)
    have split: "order = members @ drop (length members) order"
      unfolding members_def dropWhile_eq_drop [symmetric] by (simp only: takeWhile_dropWhile_id)
    have w: "weighted_order offsets adjacency vpp ntc order
        = ?new @ weighted_order offsets adjacency vpp ntc (drop (length members) order)"
      using False by (subst weighted_order.simps) (simp add: Let_def cell_def members_def)
    note ih = 1 [OF False cell_def members_def]
    have "set ?new = set members" "length ?new = length members" using m mset_eq_setD mset_eq_length by blast+
    moreover have "\<forall>v \<in> set members. ntc ! unat v = cell" by (auto simp: members_def dest: set_takeWhileD)
    ultimately have "map (\<lambda>n. ntc ! unat n) ?new = map (\<lambda>n. ntc ! unat n) members"
      by (intro nth_equalityI) auto
    then have "map (\<lambda>n. ntc ! unat n) (weighted_order offsets adjacency vpp ntc order)
        = map (\<lambda>n. ntc ! unat n) (members @ drop (length members) order)" using ih by (simp add: w)
    moreover have "mset (weighted_order offsets adjacency vpp ntc order) = mset (members @ drop (length members) order)"
      using ih m by (simp add: w)
    ultimately show ?thesis by (simp only: split [symmetric])
  qed
qed

subsection \<open>The greedy choice\<close>

text \<open>Every node of the list is the best of itself and the later ones, given the nodes before it; ties go to the smaller
id.\<close>

definition beats :: "(u32 \<Rightarrow> u32) \<Rightarrow> u32 \<Rightarrow> u32 \<Rightarrow> bool" where
  "beats score x c \<longleftrightarrow> score c < score x \<or> (score c = score x \<and> x \<le> c)"

lemma beats_refl: "beats score x x"
  by (simp add: beats_def)

lemma beats_trans: "beats score x y \<Longrightarrow> beats score y z \<Longrightarrow> beats score x z"
  unfolding beats_def by auto

fun greedy :: "(u32 list \<Rightarrow> u32 \<Rightarrow> u32) \<Rightarrow> u32 list \<Rightarrow> u32 list \<Rightarrow> bool" where
  "greedy score ordered [] \<longleftrightarrow> True"
| "greedy score ordered (x # xs) \<longleftrightarrow> list_all (beats (score ordered) x) xs \<and> greedy score (ordered @ [x]) xs"

lemma best_candidate_best:
  "c = b \<or> c \<in> set cs \<Longrightarrow> beats score (best_candidate score cs b (score b)) c"
proof (induction cs arbitrary: b c)
  case (Cons x xs)
  let ?b = "if score x > score b \<or> (score x = score b \<and> x < b) then x else b"
  have e: "best_candidate score (x # xs) b (score b) = best_candidate score xs ?b (score ?b)" by simp
  have b: "beats score ?b b" "beats score ?b x" by (auto simp: beats_def)
  have r: "beats score (best_candidate score xs ?b (score ?b)) ?b" by (rule Cons.IH) simp
  show ?case unfolding e
    using Cons.prems Cons.IH [of c ?b] beats_trans [OF r b(1)] beats_trans [OF r b(2)] by auto
qed (simp add: beats_refl)

lemma best_candidate_first:
  assumes "cs \<noteq> []"
  shows "best_candidate score cs (hd cs) 0 = best_candidate score cs (hd cs) (score (hd cs))"
proof -
  obtain x xs where cs: "cs = x # xs" using assms by (cases cs) auto
  have "score x > 0 \<or> score x = 0" by (simp add: word_neq_0_conv [symmetric])
  then show ?thesis by (auto simp: cs)
qed

lemma order_cell_greedy:
  "\<exists>xs. order_cell offsets adjacency vpp remaining ordered = ordered @ xs
     \<and> greedy (candidate_score offsets adjacency vpp) ordered xs \<and> mset xs = mset remaining"
proof (induction offsets adjacency vpp remaining ordered rule: order_cell.induct)
  case (1 offsets adjacency vpp remaining ordered)
  show ?case
  proof (cases "remaining = []")
    case True
    then show ?thesis by (intro exI [of _ "[]"]) (subst order_cell.simps, simp)
  next
    case False
    let ?score = "candidate_score offsets adjacency vpp ordered"
    define best where "best = best_candidate ?score remaining (hd remaining) 0"
    have e: "order_cell offsets adjacency vpp remaining ordered
        = order_cell offsets adjacency vpp (remove1 best remaining) (ordered @ [best])"
      using False by (subst order_cell.simps) (simp add: Let_def best_def)
    have m: "best \<in> set remaining" unfolding best_def by (rule best_candidate_member [OF False])
    from 1 [OF False best_def] obtain xs where xs:
      "order_cell offsets adjacency vpp (remove1 best remaining) (ordered @ [best]) = (ordered @ [best]) @ xs"
      "greedy (candidate_score offsets adjacency vpp) (ordered @ [best]) xs" "mset xs = mset (remove1 best remaining)" by blast
    have "set xs \<subseteq> set remaining" using mset_eq_setD [OF xs(3)] set_remove1_subset [of best remaining] by simp
    then have "list_all (beats ?score best) xs"
      using best_candidate_best [of _ "hd remaining" remaining ?score] best_candidate_first [OF False, of ?score]
      by (auto simp: list_all_iff best_def)
    with xs m show ?thesis unfolding e by (intro exI [of _ "best # xs"]) simp
  qed
qed


end
