(* ===== verification/IO_Base_Records.thy ===== *)
theory IO_Base_Records
  imports IO_Placement IO_Sidecar "HOL-Library.Product_Lexorder"
begin

text \<open>
  Reading the Base disk index in \<open>io_optimized_index_t::build\<close> (src/index/io_optimized_index.cc): the
  sector loops, \<open>append_record\<close> with the conversion of coordinates to bytes, and the trim of one
  low-RCNI neighbour.  A record is the rest of the sector buffer from the record on; reading behind the
  buffer is \<open>Undefined_access\<close>.  The RCNI values are doubles that the code only compares, so they are
  values of any linear order.
\<close>

definition SECTOR_LEN :: u64 where "SECTOR_LEN = 4096"

definition fetch :: "u8 list \<Rightarrow> nat \<Rightarrow> nat \<Rightarrow> exn + u8 list" where
  "fetch buffer offset n =
     (if offset + n \<le> length buffer then Inr (take n (drop offset buffer)) else Inl Undefined_access)"

text \<open>An IEEE single that is an integer in \<open>[0, 255]\<close>, as a byte: the significand with its hidden bit, shifted by the
  exponent, must have no fraction.  Both zeros are 0.\<close>

definition float_to_u8 :: "u32 \<Rightarrow> u8 option" where
  "float_to_u8 bits =
     (let exponent = take_bit 8 (drop_bit 23 bits); fraction = take_bit 23 bits in
      if exponent = 0 \<and> fraction = 0 then Some 0
      else if bit bits 31 \<or> exponent < 127 \<or> exponent > 134 then None
      else
        let significand = fraction + 0x800000; shift = 150 - unat exponent in
        if take_bit shift significand \<noteq> 0 then None else Some (ucast (drop_bit shift significand)))"

fun convert_u8 :: "u32 list \<Rightarrow> exn + u8 list" where
  "convert_u8 [] = Inr []"
| "convert_u8 (x # xs) =
     (case float_to_u8 x of
        None \<Rightarrow> Inl Runtime_error
      | Some b \<Rightarrow> bindE (convert_u8 xs) (\<lambda>bs. Inr (b # bs)))"

definition record_vector :: "bool \<Rightarrow> u64 \<Rightarrow> u8 list \<Rightarrow> exn + u8 list" where
  "record_vector u8_layout source_vector_bytes record_bytes =
     bindE (fetch record_bytes 0 (unat source_vector_bytes)) (\<lambda>v.
       if u8_layout then convert_u8 (buffer_targets v) else Inr v)"

text \<open>The neighbour with the least \<open>(rcni, id)\<close>: the loop over the neighbours from the second one on.\<close>

fun removed_neighbor :: "'r::linorder list \<Rightarrow> u32 list \<Rightarrow> nat \<Rightarrow> nat \<Rightarrow> u32 \<Rightarrow> exn + nat" where
  "removed_neighbor rcni [] neighbor removed removed_target = Inr removed"
| "removed_neighbor rcni (target # targets) neighbor removed removed_target =
     (if unat target \<ge> length rcni \<or> unat removed_target \<ge> length rcni then Inl Undefined_access
      else if (rcni ! unat target, target) < (rcni ! unat removed_target, removed_target)
      then removed_neighbor rcni targets (neighbor + 1) neighbor target
      else removed_neighbor rcni targets (neighbor + 1) removed removed_target)"

fun keep_neighbors :: "u64 \<Rightarrow> nat \<Rightarrow> nat \<Rightarrow> u32 list \<Rightarrow> exn + u32 list" where
  "keep_neighbors point_count removed neighbor [] = Inr []"
| "keep_neighbors point_count removed neighbor (target # targets) =
     (if ucast target \<ge> point_count then Inl Runtime_error
      else bindE (keep_neighbors point_count removed (neighbor + 1) targets) (\<lambda>kept.
        Inr (if neighbor \<noteq> removed then target # kept else kept)))"

record 'r build_context_t =
  bc_metadata :: disk_layout_metadata_t
  bc_layout :: io_vector_layout_t
  bc_source_vector_bytes :: u64
  bc_vector_bytes :: u64
  bc_vectors_per_page :: u64
  bc_normalized_rcni :: "'r list"
  bc_trim_low_rcni :: "u8 list"

record base_graph_t =
  bg_offsets :: "u64 list"
  bg_adjacency :: "u32 list"
  bg_spool :: "u8 list"
  bg_writer :: page_writer_t
  bg_trimmed :: u64

definition new_base :: "u64 \<Rightarrow> base_graph_t" where
  "new_base point_count =
     \<lparr>bg_offsets = [], bg_adjacency = [], bg_spool = [], bg_writer = new_writer point_count, bg_trimmed = 0\<rparr>"

text \<open>The node that is appended is the number of offsets set so far.\<close>

definition append_record :: "'r::linorder build_context_t \<Rightarrow> u8 list \<Rightarrow> base_graph_t \<Rightarrow> exn + base_graph_t" where
  "append_record c record_bytes b =
     (let node_id = length (bg_offsets b); point_count = dm_point_count (bc_metadata c) in
      bindE (guardE (node_id < unat point_count) Runtime_error) (\<lambda>_.
      bindE (record_vector (bc_layout c = CELL_U8_4K) (bc_source_vector_bytes c) record_bytes) (\<lambda>v.
      let b1 = (if bc_layout c \<noteq> ORIGINAL_ID then b\<lparr>bg_spool := bg_spool b @ v\<rparr>
                else b\<lparr>bg_writer := append_vector (bc_vector_bytes c) (bc_vectors_per_page c) (of_nat node_id) v (bg_writer b)\<rparr>) in
      bindE (fetch record_bytes (unat (bc_source_vector_bytes c)) 4) (\<lambda>ds.
      let degree = le_value ds :: u32 in
      bindE (guardE (degree \<le> dm_max_degree (bc_metadata c)) Runtime_error) (\<lambda>_.
      bindE (fetch record_bytes (unat (bc_source_vector_bytes c) + 4) (4 * unat degree)) (\<lambda>ns.
      let targets = buffer_targets ns;
          trim = (bc_trim_low_rcni c \<noteq> [] \<and> bc_trim_low_rcni c ! node_id \<noteq> 0 \<and> degree \<noteq> 0) in
      bindE (if trim then removed_neighbor (bc_normalized_rcni c) (tl targets) 1 0 (hd targets) else Inr (unat degree))
        (\<lambda>removed.
      bindE (keep_neighbors point_count removed 0 targets) (\<lambda>kept.
        Inr (b1\<lparr>bg_offsets := bg_offsets b @ [of_nat (length (bg_adjacency b))],
                bg_adjacency := bg_adjacency b @ kept,
                bg_trimmed := bg_trimmed b + of_bool trim\<rparr>)))))))))"

text \<open>A read of \<open>n\<close> bytes after a seek.\<close>

definition read_sector :: "u8 list \<Rightarrow> u64 \<Rightarrow> nat \<Rightarrow> exn + u8 list" where
  "read_sector disk offset n =
     (let bytes = take n (drop (unat offset) disk) in
      if length bytes < n then Inl Runtime_error else Inr bytes)"

definition read_base :: "'r::linorder build_context_t \<Rightarrow> u8 list \<Rightarrow> exn + base_graph_t" where
  "read_base c disk =
     (let m = bc_metadata c; point_count = dm_point_count m; nps = dm_nodes_per_sector m in
      bindE (if nps \<noteq> 0 then
        bindE (guardE (\<not> dm_max_node_len m * nps > SECTOR_LEN) Runtime_error) (\<lambda>_.
        let sector_count = (point_count + nps - 1) div nps in
        foldE (\<lambda>sector_id b.
            bindE (read_sector disk ((of_nat sector_id + 1) * SECTOR_LEN) (unat SECTOR_LEN)) (\<lambda>sector.
              foldE (\<lambda>slot. append_record c (drop (unat (of_nat slot * dm_max_node_len m)) sector))
                [0..<min (unat nps) (unat point_count - length (bg_offsets b))] b))
          [0..<unat sector_count] (new_base point_count))
       else
        let sectors_per_node = (dm_max_node_len m + SECTOR_LEN - 1) div SECTOR_LEN in
        foldE (\<lambda>node_id b.
            bindE (read_sector disk ((1 + of_nat node_id * sectors_per_node) * SECTOR_LEN)
                     (unat (sectors_per_node * SECTOR_LEN))) (\<lambda>record_bytes.
              append_record c record_bytes b))
          [0..<unat point_count] (new_base point_count))
      (\<lambda>b. Inr (b\<lparr>bg_offsets := bg_offsets b @ replicate (unat point_count - length (bg_offsets b)) 0
                            @ [of_nat (length (bg_adjacency b))]\<rparr>)))"

text \<open>The nodes of the lower half of each community by RCNI.\<close>

definition community_low_half :: "'r::linorder list \<Rightarrow> u32 list \<Rightarrow> u32 list" where
  "community_low_half rcni members =
     take (length members div 2) (map snd (sort (map (\<lambda>n. (rcni ! unat n, n)) members)))"

definition trim_low_rcni :: "'r::linorder list \<Rightarrow> u64 \<Rightarrow> community_polar_index_t \<Rightarrow> u8 list" where
  "trim_low_rcni rcni point_count cells =
     (let members = (\<lambda>community. filter (\<lambda>n. unat (cp_node_to_community cells ! unat n) = community)
                                    (map of_nat [0..<unat point_count])) in
      fold (\<lambda>community flags. fold (\<lambda>n flags. flags[unat n := 1]) (community_low_half rcni (members community)) flags)
        [0..<cp_community_count cells] (replicate (unat point_count) 0))"

end
