(* ===== verification/IO_Hints.thy ===== *)
theory IO_Hints
  imports Community_Index "HOL-Library.Product_Lexorder"
begin

text \<open>
  The prefetch directory and the gateway hints of \<open>io_optimized_index_t::build\<close>
  (src/index/io_optimized_index.cc): the page that most two-hop neighbours of a node live on, and the
  two cells that most edges leaving a gateway's landing cell enter.
\<close>

subsection \<open>Prefetch pages\<close>

definition neighbor_slice :: "u64 list \<Rightarrow> u32 list \<Rightarrow> nat \<Rightarrow> u32 list" where
  "neighbor_slice offsets adjacency node =
     take (min (unat (offsets ! (node + 1) - offsets ! node)) 8) (drop (unat (offsets ! node)) adjacency)"

definition two_hop_pages :: "u64 list \<Rightarrow> u32 list \<Rightarrow> io_vector_location_t list \<Rightarrow> nat \<Rightarrow> u64 list" where
  "two_hop_pages offsets adjacency locations node =
     filter (\<lambda>page. page \<noteq> loc_page_id (locations ! node))
       (map (\<lambda>second. loc_page_id (locations ! unat second))
         (concat (map (\<lambda>middle. neighbor_slice offsets adjacency (unat middle))
           (neighbor_slice offsets adjacency node))))"

fun count_page :: "u64 \<Rightarrow> (u64 \<times> u32) list \<Rightarrow> (u64 \<times> u32) list" where
  "count_page page [] = [(page, 1)]"
| "count_page page ((p, c) # pcs) = (if p = page then (p, c + 1) # pcs else (p, c) # count_page page pcs)"

text \<open>\<open>std::max_element\<close>: more occurrences, then the smaller page; the first of equal elements.\<close>

definition less_page :: "u64 \<times> u32 \<Rightarrow> u64 \<times> u32 \<Rightarrow> bool" where
  "less_page left right \<longleftrightarrow> snd left < snd right \<or> (snd left = snd right \<and> fst left > fst right)"

fun max_page :: "(u64 \<times> u32) list \<Rightarrow> u64 \<times> u32 \<Rightarrow> u64 \<times> u32" where
  "max_page [] best = best"
| "max_page (pc # pcs) best = max_page pcs (if less_page best pc then pc else best)"

definition prefetch_page :: "u64 list \<Rightarrow> u32 list \<Rightarrow> io_vector_location_t list \<Rightarrow> nat \<Rightarrow> u64" where
  "prefetch_page offsets adjacency locations node =
     (let page_counts = fold count_page (two_hop_pages offsets adjacency locations node) [] in
      if page_counts = [] then k_no_io_prefetch_page else fst (max_page (tl page_counts) (hd page_counts)))"

definition prefetch_pages ::
  "bool \<Rightarrow> u64 \<Rightarrow> u64 list \<Rightarrow> u32 list \<Rightarrow> io_vector_location_t list \<Rightarrow> u64 list" where
  "prefetch_pages build_prefetch_hints point_count offsets adjacency locations =
     map (\<lambda>node. if build_prefetch_hints then prefetch_page offsets adjacency locations node
                  else k_no_io_prefetch_page) [0..<unat point_count]"

subsection \<open>Gateway hints\<close>

record transition_summary_t =
  ts_cells :: "u32 \<times> u32"
  ts_counts :: "u32 \<times> u32"
  ts_total :: u32

definition no_transitions :: transition_summary_t where
  "no_transitions = \<lparr>ts_cells = (- 1, - 1), ts_counts = (0, 0), ts_total = 0\<rparr>"

text \<open>The counts of cell transitions, keyed by source and target cell; they saturate.\<close>

definition count_transition :: "u32 \<times> u32 \<Rightarrow> ((u32 \<times> u32) \<times> u32) list \<Rightarrow> ((u32 \<times> u32) \<times> u32) list" where
  "count_transition key transitions =
     (let n = (case map_of transitions key of None \<Rightarrow> 0 | Some c \<Rightarrow> c) in
      AList.update key (if n \<noteq> - 1 then n + 1 else n) transitions)"

definition cell_transitions :: "u64 \<Rightarrow> u64 list \<Rightarrow> u32 list \<Rightarrow> u32 list \<Rightarrow> (u32 \<times> u32) list" where
  "cell_transitions point_count offsets adjacency node_to_cell =
     filter (\<lambda>(source, target). source \<noteq> target)
       (concat (map (\<lambda>source. map (\<lambda>edge. (node_to_cell ! source, node_to_cell ! unat (adjacency ! edge)))
           [unat (offsets ! source)..<unat (offsets ! (source + 1))]) [0..<unat point_count]))"

text \<open>Sorted by source, then by falling count, then by target.\<close>

definition ordered_transitions :: "((u32 \<times> u32) \<times> u32) list \<Rightarrow> (u32 \<times> u32 \<times> u32) list" where
  "ordered_transitions transitions =
     map (\<lambda>(source, negated, target). (source, target, - 1 - negated))
       (sort (map (\<lambda>((source, target), n). (source, - 1 - n, target)) transitions))"

definition add_transition ::
  "u32 \<times> u32 \<times> u32 \<Rightarrow> transition_summary_t list \<Rightarrow> transition_summary_t list" where
  "add_transition transition summaries =
     (case transition of (source, target, n) \<Rightarrow>
        let s = summaries ! unat source;
            s1 = s\<lparr>ts_total := ucast (min (ucast (- 1 :: u32)) (ucast (ts_total s) + ucast n :: u64))\<rparr>;
            s2 = (if fst (ts_cells s1) = - 1
                  then s1\<lparr>ts_cells := (target, snd (ts_cells s1)), ts_counts := (n, snd (ts_counts s1))\<rparr>
                  else if snd (ts_cells s1) = - 1
                  then s1\<lparr>ts_cells := (fst (ts_cells s1), target), ts_counts := (fst (ts_counts s1), n)\<rparr>
                  else s1)
        in summaries[unat source := s2])"

definition gateway_hint ::
  "u32 list \<Rightarrow> io_vector_location_t list \<Rightarrow> io_cell_page_range_t list \<Rightarrow> transition_summary_t list
    \<Rightarrow> community_polar_gateway_t \<Rightarrow> io_gateway_prefetch_hint_t" where
  "gateway_hint node_to_cell locations ranges summaries gateway =
     (let target_node = gw_target_node gateway;
          landing_cell = node_to_cell ! unat target_node;
          summary = summaries ! unat landing_cell;
          first_page = (\<lambda>cell. if cell \<noteq> - 1 then rg_first_page (ranges ! unat cell) else k_no_io_prefetch_page) in
      \<lparr>gh_target_node = target_node, gh_landing_cell = landing_cell, gh_successor_cells = ts_cells summary,
       gh_landing_node_page = loc_page_id (locations ! unat target_node),
       gh_landing_cell_first_page = rg_first_page (ranges ! unat landing_cell),
       gh_successor_first_pages = (first_page (fst (ts_cells summary)), first_page (snd (ts_cells summary))),
       gh_transition_counts = ts_counts summary, gh_outgoing_transition_count = ts_total summary, gh_reserved = 0\<rparr>)"

definition gateway_hints ::
  "bool \<Rightarrow> u64 \<Rightarrow> u64 list \<Rightarrow> u32 list \<Rightarrow> community_polar_index_t option \<Rightarrow> io_vector_location_t list
    \<Rightarrow> io_cell_page_range_t list \<Rightarrow> io_gateway_prefetch_hint_t list" where
  "gateway_hints build_prefetch_hints point_count offsets adjacency community locations ranges =
     (case community of
        None \<Rightarrow> []
      | Some cells \<Rightarrow>
          if \<not> build_prefetch_hints then []
          else
            let transitions = fold count_transition
                  (cell_transitions point_count offsets adjacency (cp_node_to_cell cells)) [];
                summaries = fold add_transition (ordered_transitions transitions) (replicate (length ranges) no_transitions)
            in map (gateway_hint (cp_node_to_cell cells) locations ranges summaries) (cp_gateways cells))"

end
