(* ===== verification/IO_Build.thy ===== *)
theory IO_Build
  imports IO_Base_Records IO_Hints IO_Write
begin

text \<open>
  The whole of \<open>io_optimized_index_t::build\<close> (src/index/io_optimized_index.cc): the checks on the
  request, the metadata of the Base index, the order in which a cell layout places the vectors, the pass
  over the Base records, the placement, the hints and the topology file.  It returns the two artifacts with
  the statistics.

  What other files supply is an argument: \<open>pfor\<close> is the codec of a build with PForDelta, \<open>disk\<close> is the
  Base index file, \<open>disk_pq\<close> says whether its PQ pivots exist, \<open>sidecar\<close> is the outcome of loading and
  validating the Community-Polar sidecar with its fingerprint, and \<open>rcni\<close> is the outcome of
  \<open>read_normalized_rcni\<close> when a path to it is given.  The paths, and the files' creation and
  publication, are not modelled.
\<close>

record io_optimized_build_result_t =
  br_point_count :: u64
  br_edge_count :: u64
  br_topology_bytes :: u64
  br_adjacency_bytes :: u64
  br_vector_bytes :: u64
  br_vector_padding_bytes :: u64
  br_build_peak_payload_bytes :: u64
  br_cell_count :: u64
  br_nonempty_vector_bytes :: u64
  br_cell_page_count :: u64
  br_gateway_prefetch_hint_count :: u64
  br_gateway_prefetch_hint_bytes :: u64
  br_low_rcni_trimmed_nodes :: u64
  br_chunk_counts :: "u64 list"

definition check_request ::
  "bool \<Rightarrow> io_adjacency_encoding_t \<Rightarrow> io_vector_layout_t \<Rightarrow> bool \<Rightarrow> bool \<Rightarrow> exn + unit" where
  "check_request has_pfor encoding layout trims disk_pq =
     guardE ((encoding = RAW_U32 \<or> encoding = PFOR_DELTA) \<and> (encoding = PFOR_DELTA \<longrightarrow> has_pfor)
       \<and> (layout = ORIGINAL_ID \<or> cell_layout layout) \<and> \<not> (trims \<and> layout = ORIGINAL_ID) \<and> \<not> disk_pq)
       Runtime_error"

text \<open>What a cell layout takes from its sidecar; the other layout has no sidecar.\<close>

record 'r cell_inputs_t =
  ci_cells :: "community_polar_index_t option"
  ci_fingerprint :: fingerprint_t
  ci_base :: fingerprint_t
  ci_order :: "u32 list"
  ci_rcni :: "'r list"
  ci_trim :: "u8 list"

definition cell_inputs ::
  "io_vector_layout_t \<Rightarrow> disk_layout_metadata_t \<Rightarrow> (exn + 'r::linorder list) option \<Rightarrow> u8 list option
    \<Rightarrow> exn + (community_polar_index_t \<times> fingerprint_t) \<Rightarrow> exn + 'r cell_inputs_t" where
  "cell_inputs layout m rcni disk sidecar =
     (if layout \<noteq> ORIGINAL_ID then
        bindE sidecar (\<lambda>(cells, fingerprint).
        bindE (guardE (\<not> (cp_point_count cells \<noteq> dm_point_count m \<or> ucast (cp_dimension cells) \<noteq> dm_dimension m
          \<or> cp_cells cells = [])) Runtime_error) (\<lambda>_.
        bindE (placement_order (dm_point_count m) cells) (\<lambda>order.
        bindE (case rcni of
            None \<Rightarrow> Inr ([], [])
          | Some loaded \<Rightarrow> bindE loaded (\<lambda>rs. Inr (rs, trim_low_rcni rs (dm_point_count m) cells))) (\<lambda>(rs, trim).
          Inr \<lparr>ci_cells = Some cells, ci_fingerprint = fingerprint, ci_base = cp_base_index_fingerprint cells,
               ci_order = order, ci_rcni = rs, ci_trim = trim\<rparr>))))
      else
        bindE (fingerprint_file disk) (\<lambda>base.
          Inr \<lparr>ci_cells = None, ci_fingerprint = \<lparr>fp_size = 0, fp_checksum = 0\<rparr>, ci_base = base, ci_order = [],
               ci_rcni = [], ci_trim = []\<rparr>))"

definition build_context ::
  "disk_layout_metadata_t \<Rightarrow> io_vector_layout_t \<Rightarrow> u64 \<Rightarrow> 'r cell_inputs_t \<Rightarrow> 'r build_context_t" where
  "build_context m layout source_vector_bytes i =
     (let vector_bytes = (if layout = CELL_U8_4K then dm_dimension m else source_vector_bytes) in
      \<lparr>bc_metadata = m, bc_layout = layout, bc_source_vector_bytes = source_vector_bytes,
       bc_vector_bytes = vector_bytes, bc_vectors_per_page = ucast k_io_vector_page_size div vector_bytes,
       bc_normalized_rcni = ci_rcni i, bc_trim_low_rcni = ci_trim i\<rparr>)"

text \<open>Placing the vectors: the cell ranges, the chunk counts and the writer.\<close>

definition place_vectors ::
  "'r build_context_t \<Rightarrow> 'r cell_inputs_t \<Rightarrow> base_graph_t \<Rightarrow> exn + (io_cell_page_range_t list \<times> u64 list \<times> page_writer_t)" where
  "place_vectors c i b =
     (case ci_cells i of
        None \<Rightarrow> Inr ([], [0, 0, 0, 0], flush_page (bg_writer b))
      | Some cells \<Rightarrow>
          let order = (if bc_layout c = CELL_WEIGHTED_4K
                       then weighted_order (bg_offsets b) (bg_adjacency b) (unat (bc_vectors_per_page c))
                              (cp_node_to_cell cells) (ci_order i)
                       else ci_order i) in
          bindE (guardE (of_nat (length (bg_spool b)) = dm_point_count (bc_metadata c) * bc_vector_bytes c) Runtime_error)
            (\<lambda>_. place_cells (bc_layout c) (bc_vector_bytes c) (bc_vectors_per_page c) cells (bg_spool b)
                   (length (cp_cells cells)) 0 order [0, 0, 0, 0] (bg_writer b)))"

definition build_topology ::
  "io_adjacency_encoding_t \<Rightarrow> bool \<Rightarrow> 'r build_context_t \<Rightarrow> 'r cell_inputs_t \<Rightarrow> base_graph_t
    \<Rightarrow> io_cell_page_range_t list \<Rightarrow> page_writer_t \<Rightarrow> io_build_t" where
  "build_topology encoding build_prefetch_hints c i b ranges w =
     (let point_count = dm_point_count (bc_metadata c) in
      \<lparr>bd_point_count = point_count, bd_dimension = dm_dimension (bc_metadata c),
       bd_max_degree = dm_max_degree (bc_metadata c), bd_encoding = encoding, bd_layout = bc_layout c,
       bd_offsets = bg_offsets b, bd_adjacency = bg_adjacency b, bd_locations = pw_locations w,
       bd_vector_page_count = pw_pages_written w, bd_cell_ranges = ranges,
       bd_prefetch_pages = prefetch_pages build_prefetch_hints point_count (bg_offsets b) (bg_adjacency b) (pw_locations w),
       bd_gateway_hints = gateway_hints build_prefetch_hints point_count (bg_offsets b) (bg_adjacency b) (ci_cells i)
                            (pw_locations w) ranges,
       bd_base = ci_base i, bd_vector_checksum = pw_checksum w, bd_community_polar = ci_fingerprint i\<rparr>)"

definition build_result ::
  "u64 \<Rightarrow> base_graph_t \<Rightarrow> u64 list \<Rightarrow> io_build_t \<Rightarrow> payload_t \<Rightarrow> u64 \<Rightarrow> u64 \<Rightarrow> io_optimized_build_result_t" where
  "build_result vector_bytes b chunk_counts bd p topology_bytes vector_file_bytes =
     (let used = bd_point_count bd * vector_bytes in
      \<lparr>br_point_count = bd_point_count bd, br_edge_count = of_nat (length (bd_adjacency bd)),
       br_topology_bytes = topology_bytes, br_adjacency_bytes = of_nat (length (pl_adjacency p)),
       br_vector_bytes = vector_file_bytes, br_vector_padding_bytes = vector_file_bytes - used,
       br_build_peak_payload_bytes = of_nat (length (pl_offsets p)) + of_nat (length (bd_adjacency bd)) * 4
         + of_nat (length (pl_adjacency p)) + of_nat (length (pl_directory p)) + of_nat (length (pl_cell_directory p))
         + of_nat (length (pl_prefetch p)) + of_nat (length (pl_gateway p)) + ucast k_io_vector_page_size,
       br_cell_count = of_nat (length (bd_cell_ranges bd)), br_nonempty_vector_bytes = used,
       br_cell_page_count = bd_vector_page_count bd,
       br_gateway_prefetch_hint_count = of_nat (length (bd_gateway_hints bd)),
       br_gateway_prefetch_hint_bytes = of_nat (length (pl_gateway p)),
       br_low_rcni_trimmed_nodes = bg_trimmed b, br_chunk_counts = chunk_counts\<rparr>)"

definition io_build ::
  "pfor_codec option \<Rightarrow> bool \<Rightarrow> io_adjacency_encoding_t \<Rightarrow> io_vector_layout_t \<Rightarrow> bool \<Rightarrow> (exn + 'r::linorder list) option
    \<Rightarrow> u8 list option \<Rightarrow> exn + (community_polar_index_t \<times> fingerprint_t)
    \<Rightarrow> exn + (u8 list \<times> u8 list \<times> io_optimized_build_result_t)" where
  "io_build pfor disk_pq encoding layout build_prefetch_hints rcni disk sidecar =
     bindE (check_request (pfor \<noteq> None) encoding layout (rcni \<noteq> None) disk_pq) (\<lambda>_.
     bindE (read_disk_layout_metadata disk) (\<lambda>m.
     bindE (checked_multiply (dm_dimension m) 4) (\<lambda>source_vector_bytes.
     let vector_bytes = (if layout = CELL_U8_4K then dm_dimension m else source_vector_bytes) in
     bindE (guardE (\<not> (vector_bytes = 0 \<or> vector_bytes > ucast k_io_vector_page_size)) Runtime_error) (\<lambda>_.
     bindE (checked_multiply (dm_point_count m) vector_bytes) (\<lambda>raw_vector_spool_bytes.
     bindE (cell_inputs layout m rcni disk sidecar) (\<lambda>i.
     let c = build_context m layout source_vector_bytes i in
     bindE (read_base c (the disk)) (\<lambda>b.
     bindE (place_vectors c i b) (\<lambda>(ranges, chunk_counts, w).
     bindE (checked_multiply (pw_pages_written w) (ucast k_io_vector_page_size)) (\<lambda>vector_file_bytes.
     bindE (guardE (of_nat (length (pw_file w)) = vector_file_bytes) Runtime_error) (\<lambda>_.
     let bd = build_topology encoding build_prefetch_hints c i b ranges w in
     bindE (encode_adjacency pfor encoding (bg_offsets b) (bg_adjacency b)) (\<lambda>(stored_offsets, adjacency_bytes).
     bindE (write_topology pfor bd) (\<lambda>topology.
       Inr (topology, pw_file w,
            build_result vector_bytes b chunk_counts bd (payload_of bd stored_offsets adjacency_bytes)
              (of_nat (length topology)) vector_file_bytes)))))))))))))"

end
