(* ===== verification/IO_Base_Correct.thy ===== *)
theory IO_Base_Correct
  imports IO_Base_Records IO_Placement_Correct
begin

text \<open>
  The pass over the Base records is correct: node \<open>i\<close> gets the vector and the neighbours that the record
  of \<open>i\<close> in the Base file holds (\<open>node_record\<close>, \<open>record_holds\<close>), whichever of the two sector layouts the
  file has.  The trim of a low-RCNI node drops exactly one neighbour, the least one by \<open>(rcni, id)\<close>.
\<close>

subsection \<open>Converting and trimming\<close>

lemma convert_u8_length: "convert_u8 xs = Inr bs \<Longrightarrow> length bs = length xs"
  by (induction xs arbitrary: bs) (auto simp: bindE_eq_Inr split: option.splits)

lemma convert_u8_nth: "convert_u8 xs = Inr bs \<Longrightarrow> i < length xs \<Longrightarrow> float_to_u8 (xs ! i) = Some (bs ! i)"
proof (induction xs arbitrary: bs i)
  case (Cons x xs)
  then show ?case by (cases i) (auto simp: bindE_eq_Inr split: option.splits)
qed simp

lemma fetch_Inr: "fetch buffer offset n = Inr bs \<longleftrightarrow> offset + n \<le> length buffer \<and> bs = take n (drop offset buffer)"
  by (auto simp: fetch_def)

lemma fetch_length: "fetch buffer offset n = Inr bs \<Longrightarrow> length bs = n"
  by (auto simp: fetch_Inr)

text \<open>The first of the least elements under \<open>(rcni, id)\<close>.\<close>

definition low_key :: "'r list \<Rightarrow> u32 \<Rightarrow> 'r \<times> u32" where
  "low_key rcni target = (rcni ! unat target, target)"

lemma removed_neighbor_ok:
  assumes "removed_neighbor rcni targets k removed target = Inr r" "removed < k"
    "\<And>j. j < k \<Longrightarrow> low_key rcni target \<le> low_key rcni (f j)" "f removed = target"
    "\<And>j. j < length targets \<Longrightarrow> f (k + j) = targets ! j"
  shows "r < k + length targets \<and> (\<forall>j < k + length targets. low_key rcni (f r) \<le> low_key rcni (f j))"
  using assms
proof (induction rcni targets k removed target rule: removed_neighbor.induct)
  case (1 rcni neighbor removed removed_target)
  then show ?case by auto
next
  case (2 rcni t targets k removed target)
  have s: "f (Suc k + j) = targets ! j" if "j < length targets" for j
    using "2.prems"(5) [of "Suc j"] that by simp
  have ft: "f k = t" using "2.prems"(5) [of 0] by simp
  have u: "\<not> (unat t \<ge> length rcni \<or> unat target \<ge> length rcni)"
    using "2.prems"(1) by (auto split: if_splits)
  show ?case
  proof (cases "(rcni ! unat t, t) < (rcni ! unat target, target)")
    case True
    have b: "low_key rcni t \<le> low_key rcni (f j)" if "j < k + 1" for j
    proof (cases "j = k")
      case False
      with that have "low_key rcni target \<le> low_key rcni (f j)" using "2.prems"(3) [of j] by simp
      moreover have "low_key rcni t < low_key rcni target" using True by (simp only: low_key_def)
      ultimately show ?thesis by (meson less_imp_le less_le_trans)
    qed (simp add: ft)
    have "removed_neighbor rcni targets (k + 1) k t = Inr r"
      using "2.prems"(1) unfolding removed_neighbor.simps if_not_P [OF u] if_P [OF True] .
    from "2.IH"(1) [OF u True this _ b ft] s show ?thesis by simp
  next
    case False
    have b: "low_key rcni target \<le> low_key rcni (f j)" if "j < k + 1" for j
    proof (cases "j = k")
      case True
      have "\<not> low_key rcni t < low_key rcni target" using False by (simp only: low_key_def not_False_eq_True)
      then show ?thesis using True ft by simp
    next
      case False
      with that show ?thesis using "2.prems"(3) [of j] by simp
    qed
    have "removed_neighbor rcni targets (k + 1) removed target = Inr r"
      using "2.prems"(1) unfolding removed_neighbor.simps if_not_P [OF u] if_not_P [OF False] .
    from "2.IH"(2) [OF u False this _ b "2.prems"(4)] s "2.prems"(2) show ?thesis by simp
  qed
qed

definition remove_nth :: "nat \<Rightarrow> 'a list \<Rightarrow> 'a list" where
  "remove_nth r xs = take r xs @ drop (Suc r) xs"

lemma remove_nth_simps [simp]:
  "remove_nth r [] = []" "remove_nth 0 (x # xs) = xs" "remove_nth (Suc r) (x # xs) = x # remove_nth r xs"
  by (simp_all add: remove_nth_def)

lemma remove_nth_beyond: "length xs \<le> r \<Longrightarrow> remove_nth r xs = xs"
  by (simp add: remove_nth_def)

lemma keep_neighbors_ok:
  "keep_neighbors pc removed k targets = Inr kept \<longleftrightarrow>
     list_all (\<lambda>t. ucast t < pc) targets \<and> kept = (if k \<le> removed then remove_nth (removed - k) targets else targets)"
proof (induction targets arbitrary: k kept)
  case (Cons t ts)
  show ?case
  proof (cases "ucast t < pc")
    case True
    then have e: "keep_neighbors pc removed k (t # ts) = bindE (keep_neighbors pc removed (k + 1) ts)
        (\<lambda>kept. Inr (if k \<noteq> removed then t # kept else kept))" by (simp add: linorder_not_le [symmetric])
    consider "removed < k" | "removed = k" | d where "removed = k + Suc d"
      by (metis less_imp_Suc_add linorder_neqE_nat add_Suc_right)
    then show ?thesis
    proof cases
      case 1
      with True show ?thesis unfolding e bindE_eq_Inr Cons.IH [of "k + 1"] by auto
    next
      case 2
      with True show ?thesis unfolding e bindE_eq_Inr Cons.IH [of "k + 1"] by auto
    next
      case 3
      with True show ?thesis unfolding e bindE_eq_Inr Cons.IH [of "k + 1"] by auto
    qed
  qed (simp add: not_less)
qed auto

definition trimmed :: "'r::linorder list \<Rightarrow> u32 list \<Rightarrow> u32 list \<Rightarrow> bool" where
  "trimmed rcni targets kept \<longleftrightarrow> (\<exists>r < length targets. kept = remove_nth r targets
     \<and> (\<forall>t \<in> set targets. low_key rcni (targets ! r) \<le> low_key rcni t))"

lemma trim_neighbors_ok:
  assumes "removed_neighbor rcni (tl targets) 1 0 (hd targets) = Inr r" "keep_neighbors pc r 0 targets = Inr kept" "targets \<noteq> []"
  shows "trimmed rcni targets kept"
proof -
  have l: "1 + length (tl targets) = length targets" using assms(3) by (cases targets) auto
  have h: "hd targets = targets ! 0" by (rule hd_conv_nth [OF assms(3)])
  have "r < 1 + length (tl targets) \<and> (\<forall>j < 1 + length (tl targets). low_key rcni (targets ! r) \<le> low_key rcni (targets ! j))"
  proof (rule removed_neighbor_ok [OF assms(1) zero_less_one])
    fix j :: nat
    show "targets ! 0 = hd targets" by (simp only: h)
    show "low_key rcni (hd targets) \<le> low_key rcni (targets ! j)" if "j < 1"
    proof -
      have "j = 0" using that by simp
      then show ?thesis unfolding h by (simp only: order_refl)
    qed
    show "targets ! (1 + j) = tl targets ! j" if "j < length (tl targets)" using that assms(3) by (simp add: nth_tl)
  qed
  then have "r < length targets \<and> (\<forall>j < length targets. low_key rcni (targets ! r) \<le> low_key rcni (targets ! j))"
    unfolding l .
  moreover from assms(2) have "kept = remove_nth r targets" unfolding keep_neighbors_ok by simp
  ultimately show ?thesis unfolding trimmed_def by (metis in_set_conv_nth)
qed

subsection \<open>One record\<close>

text \<open>\<open>v\<close> and \<open>nbrs\<close> are what the record of \<open>node_id\<close> holds; with the trim one neighbour is missing.\<close>

definition record_holds :: "'r::linorder build_context_t \<Rightarrow> nat \<Rightarrow> u8 list \<Rightarrow> u8 list \<Rightarrow> u32 list \<Rightarrow> bool" where
  "record_holds c node_id record_bytes v nbrs \<longleftrightarrow>
     (let vector_bytes = unat (bc_source_vector_bytes c);
          degree = le_value (take 4 (drop vector_bytes record_bytes)) :: u32;
          targets = buffer_targets (take (4 * unat degree) (drop (vector_bytes + 4) record_bytes)) in
      vector_bytes + 4 + 4 * unat degree \<le> length record_bytes
      \<and> record_vector (bc_layout c = CELL_U8_4K) (bc_source_vector_bytes c) record_bytes = Inr v
      \<and> degree \<le> dm_max_degree (bc_metadata c) \<and> length targets = unat degree
      \<and> list_all (\<lambda>t. ucast t < dm_point_count (bc_metadata c)) targets
      \<and> (if bc_trim_low_rcni c \<noteq> [] \<and> bc_trim_low_rcni c ! node_id \<noteq> 0 \<and> degree \<noteq> 0
         then trimmed (bc_normalized_rcni c) targets nbrs else nbrs = targets))"

lemma append_record_ok:
  assumes "append_record c record_bytes b = Inr b'"
  shows "\<exists>v nbrs. record_holds c (length (bg_offsets b)) record_bytes v nbrs
    \<and> length (bg_offsets b) < unat (dm_point_count (bc_metadata c))
    \<and> bg_offsets b' = bg_offsets b @ [of_nat (length (bg_adjacency b))]
    \<and> bg_adjacency b' = bg_adjacency b @ nbrs
    \<and> (if bc_layout c \<noteq> ORIGINAL_ID then bg_spool b' = bg_spool b @ v \<and> bg_writer b' = bg_writer b
       else bg_spool b' = bg_spool b \<and> bg_writer b' = append_vector (bc_vector_bytes c) (bc_vectors_per_page c)
              (of_nat (length (bg_offsets b))) v (bg_writer b))"
proof -
  define trim where "trim degree \<longleftrightarrow> bc_trim_low_rcni c \<noteq> [] \<and> bc_trim_low_rcni c ! length (bg_offsets b) \<noteq> 0 \<and> degree \<noteq> (0 :: u32)"
    for degree
  define b1 where "b1 v = (if bc_layout c \<noteq> ORIGINAL_ID then b\<lparr>bg_spool := bg_spool b @ v\<rparr>
      else b\<lparr>bg_writer := append_vector (bc_vector_bytes c) (bc_vectors_per_page c) (of_nat (length (bg_offsets b))) v (bg_writer b)\<rparr>)" for v
  from assms obtain v ds ns r kept where
    n: "length (bg_offsets b) < unat (dm_point_count (bc_metadata c))"
    and v: "record_vector (bc_layout c = CELL_U8_4K) (bc_source_vector_bytes c) record_bytes = Inr v"
    and ds: "fetch record_bytes (unat (bc_source_vector_bytes c)) 4 = Inr ds"
    and d: "(le_value ds :: u32) \<le> dm_max_degree (bc_metadata c)"
    and ns: "fetch record_bytes (unat (bc_source_vector_bytes c) + 4) (4 * unat (le_value ds :: u32)) = Inr ns"
    and r: "(if trim (le_value ds) then removed_neighbor (bc_normalized_rcni c) (tl (buffer_targets ns)) 1 0 (hd (buffer_targets ns))
             else Inr (unat (le_value ds :: u32))) = Inr r"
    and k: "keep_neighbors (dm_point_count (bc_metadata c)) r 0 (buffer_targets ns) = Inr kept"
    and b'': "Inr (b1 v\<lparr>bg_offsets := bg_offsets b @ [of_nat (length (bg_adjacency b))],
                bg_adjacency := bg_adjacency b @ kept, bg_trimmed := bg_trimmed b + of_bool (trim (le_value ds))\<rparr>) = (Inr b' :: exn + base_graph_t)"
    unfolding append_record_def Let_def bindE_eq_Inr guardE_eq_Inr trim_def b1_def by (elim exE conjE) (rule that [unfolded trim_def b1_def])
  note b' = b'' [unfolded sum.inject, symmetric]
  have ls: "length ns = 4 * unat (le_value ds :: u32)" by (rule fetch_length [OF ns])
  then have lt: "length (buffer_targets ns) = unat (le_value ds :: u32)" by (rule read_buffer_targets(1))
  have kk: "list_all (\<lambda>t. ucast t < dm_point_count (bc_metadata c)) (buffer_targets ns)" "kept = remove_nth r (buffer_targets ns)"
    using k unfolding keep_neighbors_ok by simp_all
  have t: "trimmed (bc_normalized_rcni c) (buffer_targets ns) kept" if "trim (le_value ds)"
  proof (rule trim_neighbors_ok [OF _ k])
    show "removed_neighbor (bc_normalized_rcni c) (tl (buffer_targets ns)) 1 0 (hd (buffer_targets ns)) = Inr r"
      using r that by simp
    have "(le_value ds :: u32) \<noteq> 0" using that unfolding trim_def by blast
    then show "buffer_targets ns \<noteq> []" using lt by (metis list.size(3) unat_eq_zero)
  qed
  have u: "kept = buffer_targets ns" if "\<not> trim (le_value ds)"
    using r that kk(2) lt remove_nth_beyond [of "buffer_targets ns" r] by simp
  have dd: "ds = take 4 (drop (unat (bc_source_vector_bytes c)) record_bytes)"
    "ns = take (4 * unat (le_value ds :: u32)) (drop (unat (bc_source_vector_bytes c) + 4) record_bytes)"
    "unat (bc_source_vector_bytes c) + 4 + 4 * unat (le_value ds :: u32) \<le> length record_bytes"
    using ds ns unfolding fetch_Inr by blast+
  have "record_holds c (length (bg_offsets b)) record_bytes v kept"
    unfolding record_holds_def Let_def dd(1) [symmetric] dd(2) [symmetric] trim_def [symmetric]
    using dd(3) v d lt kk(1) t u by auto
  with n show ?thesis by (intro exI [of _ v] exI [of _ kept]) (simp add: b' b1_def)
qed

lemma record_vector_length:
  assumes "record_vector u8_layout svb record_bytes = Inr v" "svb = dim * 4" "unat dim * 4 < 2 ^ 64"
  shows "length v = (if u8_layout then unat dim else unat svb)"
proof -
  from assms(1) obtain bs where bs: "fetch record_bytes 0 (unat svb) = Inr bs" "(if u8_layout then convert_u8 (buffer_targets bs) else Inr bs) = Inr v"
    unfolding record_vector_def bindE_eq_Inr by blast
  have u: "unat svb = unat dim * 4" unfolding assms(2) using assms(3) unat_mult_lem [of dim 4] by simp
  have "length bs = 4 * unat dim" using fetch_length [OF bs(1)] u by simp
  then have "length (buffer_targets bs) = unat dim" by (rule read_buffer_targets(1))
  with bs u \<open>length bs = 4 * unat dim\<close> show ?thesis by (auto dest: convert_u8_length split: if_splits)
qed

subsection \<open>All records\<close>

definition context_ok :: "'r build_context_t \<Rightarrow> bool" where
  "context_ok c \<longleftrightarrow> unat (dm_dimension (bc_metadata c)) * 4 < 2 ^ 64
     \<and> bc_source_vector_bytes c = dm_dimension (bc_metadata c) * 4
     \<and> bc_vector_bytes c = (if bc_layout c = CELL_U8_4K then dm_dimension (bc_metadata c) else bc_source_vector_bytes c)
     \<and> 0 < unat (bc_vector_bytes c) \<and> unat (bc_vector_bytes c) \<le> 4096
     \<and> unat (bc_vectors_per_page c) = 4096 div unat (bc_vector_bytes c)
     \<and> unat (dm_point_count (bc_metadata c)) * unat (bc_vector_bytes c) < 2 ^ 64
     \<and> unat (dm_point_count (bc_metadata c)) < 2 ^ 32"

lemma context_okD:
  assumes "context_ok c"
  shows "0 < unat (bc_vector_bytes c)" "unat (bc_vector_bytes c) \<le> 4096"
    "unat (bc_vectors_per_page c) = 4096 div unat (bc_vector_bytes c)"
    "unat (dm_point_count (bc_metadata c)) * unat (bc_vector_bytes c) < 2 ^ 64"
    "unat (dm_point_count (bc_metadata c)) < 2 ^ 32"
  using assms unfolding context_ok_def by blast+

text \<open>The record of a node in the file: \<open>nodes_per_sector\<close> records in a sector, or whole sectors for one record.\<close>

definition node_record :: "disk_layout_metadata_t \<Rightarrow> u8 list \<Rightarrow> nat \<Rightarrow> u8 list" where
  "node_record m disk i =
     (let nps = unat (dm_nodes_per_sector m); len = unat (dm_max_node_len m) in
      if nps \<noteq> 0 then drop (i mod nps * len) (take 4096 (drop ((i div nps + 1) * 4096) disk))
      else let sectors = (len + 4095) div 4096 in take (sectors * 4096) (drop ((1 + i * sectors) * 4096) disk))"

definition base_at :: "'r::linorder build_context_t \<Rightarrow> u8 list \<Rightarrow> base_graph_t \<Rightarrow> u8 list list \<Rightarrow> u32 list list \<Rightarrow> bool" where
  "base_at c disk b vs nodes \<longleftrightarrow>
     length nodes = length vs \<and> length vs \<le> unat (dm_point_count (bc_metadata c))
     \<and> (\<forall>i < length vs. record_holds c i (node_record (bc_metadata c) disk i) (vs ! i) (nodes ! i))
     \<and> bg_offsets b = map (\<lambda>n. of_nat (length (concat (take n nodes)))) [0..<length nodes]
     \<and> bg_adjacency b = concat nodes \<and> list_all (\<lambda>v. length v = unat (bc_vector_bytes c)) vs
     \<and> (if bc_layout c \<noteq> ORIGINAL_ID
        then bg_spool b = concat vs \<and> bg_writer b = new_writer (dm_point_count (bc_metadata c))
        else writer_ok (unat (bc_vector_bytes c)) (bg_writer b)
          \<and> length (pw_locations (bg_writer b)) = unat (dm_point_count (bc_metadata c))
          \<and> (\<forall>i < length vs. placed (unat (bc_vector_bytes c)) (bg_writer b) (of_nat i) (vs ! i)))"

lemma new_writer_ok: "0 < vb \<Longrightarrow> vb \<le> 4096 \<Longrightarrow> writer_ok vb (new_writer pc)"
  by (simp add: writer_ok_def new_writer_def empty_page_def div_greater_zero_iff)

lemma new_writer_fields [simp]:
  "length (pw_locations (new_writer pc)) = unat pc" "pw_output_slot (new_writer pc) = 0" "pw_file (new_writer pc) = []"
  by (simp_all add: new_writer_def)

lemma base_at_new: "context_ok c \<Longrightarrow> base_at c disk (new_base (dm_point_count (bc_metadata c))) [] []"
  using context_okD(1,2) [of c] by (simp add: base_at_def new_base_def new_writer_ok)

lemma record_holds_length:
  assumes "record_holds c i r v nbrs" "context_ok c"
  shows "length v = unat (bc_vector_bytes c)"
proof -
  from assms(1) have "record_vector (bc_layout c = CELL_U8_4K) (bc_source_vector_bytes c) r = Inr v"
    unfolding record_holds_def Let_def by blast
  from record_vector_length [OF this, of "dm_dimension (bc_metadata c)"] assms(2) show ?thesis
    by (auto simp: context_ok_def)
qed

lemma append_record_base:
  assumes b: "base_at c disk b vs nodes" and c: "context_ok c"
    and run: "append_record c (node_record (bc_metadata c) disk (length vs)) b = Inr b'"
  shows "\<exists>v nbrs. base_at c disk b' (vs @ [v]) (nodes @ [nbrs])"
proof -
  note b = b [unfolded base_at_def]
  let ?vb = "bc_vector_bytes c" and ?w = "bg_writer b"
  have lo: "length (bg_offsets b) = length vs" using b by (elim conjE) simp
  from append_record_ok [OF run] lo obtain v nbrs where
    h: "record_holds c (length vs) (node_record (bc_metadata c) disk (length vs)) v nbrs"
    and lt: "length vs < unat (dm_point_count (bc_metadata c))"
    and o: "bg_offsets b' = bg_offsets b @ [of_nat (length (bg_adjacency b))]" "bg_adjacency b' = bg_adjacency b @ nbrs"
    and w: "if bc_layout c \<noteq> ORIGINAL_ID then bg_spool b' = bg_spool b @ v \<and> bg_writer b' = ?w
      else bg_spool b' = bg_spool b \<and> bg_writer b' = append_vector ?vb (bc_vectors_per_page c) (of_nat (length vs)) v ?w"
    by auto
  have lv: "length v = unat ?vb" by (rule record_holds_length [OF h c])
  have un: "unat (of_nat i :: u32) = i" if "i \<le> length vs" for i
  proof -
    have "i < 2 ^ 32" using context_okD(5) [OF c] lt that by simp
    then show ?thesis by (simp add: unat_of_nat take_bit_nat_eq_self)
  qed
  have offs: "bg_offsets b' = map (\<lambda>n. of_nat (length (concat (take n (nodes @ [nbrs]))))) [0..<length (nodes @ [nbrs])]"
    using b by (simp add: o)
  have placed': "writer_ok (unat ?vb) (bg_writer b') \<and> length (pw_locations (bg_writer b')) = unat (dm_point_count (bc_metadata c))
      \<and> (\<forall>i < length (vs @ [v]). placed (unat ?vb) (bg_writer b') (of_nat i) ((vs @ [v]) ! i))" if orig: "bc_layout c = ORIGINAL_ID"
  proof -
    have e: "bg_writer b' = append_vector ?vb (bc_vectors_per_page c) (of_nat (length vs)) v ?w" using w orig by simp
    have ok: "writer_ok (unat ?vb) ?w" and ll: "length (pw_locations ?w) = unat (dm_point_count (bc_metadata c))"
      and pl: "\<forall>i < length vs. placed (unat ?vb) ?w (of_nat i) (vs ! i)" using b orig by simp_all
    have vb: "0 < unat ?vb" "unat ?vb \<le> 4096" "unat (bc_vectors_per_page c) = 4096 div unat ?vb"
      using context_okD [OF c] by simp_all
    have nl: "unat (of_nat (length vs) :: u32) < length (pw_locations ?w)" using lt by (simp add: un ll)
    note ap = append_vector_ok [OF ok vb lv nl]
    have "placed (unat ?vb) (bg_writer b') (of_nat i) ((vs @ [v]) ! i)" if i: "i < length (vs @ [v])" for i
    proof (cases "i = length vs")
      case True
      with ap(2) show ?thesis by (simp add: e)
    next
      case False
      with i have "i < length vs" by simp
      moreover from this have "(of_nat i :: u32) \<noteq> of_nat (length vs)" using un [of i] un [of "length vs"] by auto
      ultimately show ?thesis using pl ap(3) by (simp add: e nth_append)
    qed
    with ap(1,4) ll show ?thesis by (simp add: e)
  qed
  have "base_at c disk b' (vs @ [v]) (nodes @ [nbrs])"
    unfolding base_at_def offs
  proof (intro conjI allI impI)
    show "record_holds c i (node_record (bc_metadata c) disk i) ((vs @ [v]) ! i) ((nodes @ [nbrs]) ! i)"
      if "i < length (vs @ [v])" for i
      using that h b by (cases "i = length vs") (auto simp: nth_append less_Suc_eq)
    show "if bc_layout c \<noteq> ORIGINAL_ID
        then bg_spool b' = concat (vs @ [v]) \<and> bg_writer b' = new_writer (dm_point_count (bc_metadata c))
        else writer_ok (unat ?vb) (bg_writer b')
          \<and> length (pw_locations (bg_writer b')) = unat (dm_point_count (bc_metadata c))
          \<and> (\<forall>i < length (vs @ [v]). placed (unat ?vb) (bg_writer b') (of_nat i) ((vs @ [v]) ! i))"
      using placed' w b by simp
  qed (use b lt lv o in simp_all)
  then show ?thesis by blast
qed

definition base_fits :: "disk_layout_metadata_t \<Rightarrow> bool" where
  "base_fits m \<longleftrightarrow>
     (if dm_nodes_per_sector m \<noteq> 0
      then unat (dm_max_node_len m) * unat (dm_nodes_per_sector m) < 2 ^ 64
        \<and> unat (dm_point_count m) + unat (dm_nodes_per_sector m) < 2 ^ 64
      else unat (dm_max_node_len m) + 4095 < 2 ^ 64
        \<and> (1 + unat (dm_point_count m) * ((unat (dm_max_node_len m) + 4095) div 4096)) * 4096 < 2 ^ 64)"

lemma unat_SECTOR_LEN [simp]: "unat SECTOR_LEN = 4096"
  by (simp add: SECTOR_LEN_def)

lemma unat_mult_small: "unat a * unat b < 18446744073709551616 \<Longrightarrow> unat (a * b :: u64) = unat a * unat b"
  using unat_mult_lem [of a b] by simp

lemma unat_add_small: "unat a + unat b < 18446744073709551616 \<Longrightarrow> unat (a + b :: u64) = unat a + unat b"
  using unat_add_lem [of a b] by simp

lemma unat_of_nat_below: "i < unat (x :: u64) \<Longrightarrow> unat (of_nat i :: u64) = i"
proof -
  assume "i < unat x"
  also have "unat x < 2 ^ 64" using unsigned_less [of x, where ?'a = nat] by simp
  finally show ?thesis by (rule unat_of_nat_u64)
qed

lemma read_sector_Inr:
  "read_sector disk offset n = Inr bs \<Longrightarrow> bs = take n (drop (unat offset) disk)"
  by (auto simp: read_sector_def Let_def split: if_splits)

definition base_count :: "'r::linorder build_context_t \<Rightarrow> u8 list \<Rightarrow> nat \<Rightarrow> base_graph_t \<Rightarrow> bool" where
  "base_count c disk k b \<longleftrightarrow> (\<exists>vs nodes. base_at c disk b vs nodes \<and> length vs = k)"

lemma base_count_offsets: "base_count c disk k b \<Longrightarrow> length (bg_offsets b) = k"
  by (auto simp: base_count_def base_at_def)

lemma base_count_step:
  assumes "base_count c disk k b" "context_ok c" "append_record c (node_record (bc_metadata c) disk k) b = Inr b'"
  shows "base_count c disk (Suc k) b'"
proof -
  from assms(1) obtain vs nodes where b: "base_at c disk b vs nodes" "length vs = k" unfolding base_count_def by blast
  from append_record_base [OF b(1) assms(2)] assms(3) b(2) obtain v nbrs where "base_at c disk b' (vs @ [v]) (nodes @ [nbrs])" by blast
  with b(2) show ?thesis unfolding base_count_def by (intro exI [of _ "vs @ [v]"] exI [of _ "nodes @ [nbrs]"]) simp
qed

text \<open>A sector of several records.\<close>

lemma read_sector_records:
  assumes c: "context_ok c" and m: "m = bc_metadata c" "dm_nodes_per_sector m \<noteq> 0" "base_fits m"
    and page: "\<not> dm_max_node_len m * dm_nodes_per_sector m > SECTOR_LEN"
    and b: "base_count c disk (k * unat (dm_nodes_per_sector m)) b"
    and sector: "sector = take 4096 (drop ((k + 1) * 4096) disk)"
    and run: "foldE (\<lambda>slot. append_record c (drop (unat (of_nat slot * dm_max_node_len m)) sector))
                [0..<min (unat (dm_nodes_per_sector m)) (unat (dm_point_count m) - length (bg_offsets b))] b = Inr b'"
  shows "base_count c disk (min (unat (dm_point_count m)) ((k + 1) * unat (dm_nodes_per_sector m))) b'"
proof -
  let ?nps = "unat (dm_nodes_per_sector m)" and ?len = "unat (dm_max_node_len m)" and ?pc = "unat (dm_point_count m)"
  have nps: "0 < ?nps" using m(2) by (simp add: unat_gt_0)
  have lo: "length (bg_offsets b) = k * ?nps" by (rule base_count_offsets [OF b])
  have le: "k * ?nps \<le> ?pc" using b m(1) unfolding base_count_def base_at_def by auto
  have "base_count c disk (k * ?nps + length [0..<min ?nps (?pc - k * ?nps)]) b'"
  proof (rule foldE_invariant [OF run [unfolded lo], where P = "\<lambda>s. base_count c disk (k * ?nps + s)"])
    show "base_count c disk (k * ?nps + 0) b" using b by simp
    fix s u t
    assume s: "s < length [0..<min ?nps (?pc - k * ?nps)]" and u: "base_count c disk (k * ?nps + s) u"
      and r: "append_record c (drop (unat (of_nat ([0..<min ?nps (?pc - k * ?nps)] ! s) * dm_max_node_len m)) sector) u = Inr t"
    have sn: "s < ?nps" using s by simp
    then have "s * ?len \<le> ?nps * ?len" by simp
    moreover have fit: "?len * ?nps < 18446744073709551616" using m(2,3) by (simp add: base_fits_def)
    ultimately have small: "s * ?len < 18446744073709551616" by (simp only: mult.commute [of ?nps])
    have us: "unat (of_nat s :: u64) = s"
      by (rule unat_of_nat_below [OF sn])
    have off: "unat (of_nat s * dm_max_node_len m) = s * ?len"
      using unat_mult_small [of "of_nat s" "dm_max_node_len m"] small by (simp add: us)
    have "(k * ?nps + s) div ?nps = k" "(k * ?nps + s) mod ?nps = s" using sn by simp_all
    then have "node_record m disk (k * ?nps + s) = drop (s * ?len) sector"
      using nps by (simp add: node_record_def Let_def sector)
    then have "append_record c (node_record (bc_metadata c) disk (k * ?nps + s)) u = Inr t" using r s off m(1) by simp
    from base_count_step [OF u c this] show "base_count c disk (k * ?nps + Suc s) t" by simp
  qed
  moreover have "k * ?nps + min ?nps (?pc - k * ?nps) = min ?pc ((k + 1) * ?nps)" using le by (simp add: min_def) linarith
  ultimately show ?thesis by simp
qed

text \<open>\<open>read_base\<close> gives every node what its record holds.\<close>

lemma ceil_div:
  assumes "0 < (d :: nat)"
  shows "n \<le> (n + d - 1) div d * d"
proof -
  have "(n + d - 1) div d * d + (n + d - 1) mod d = n + d - 1" by simp
  moreover have "(n + d - 1) mod d < d" using assms by simp
  ultimately show ?thesis by linarith
qed

lemma read_base_count:
  assumes c: "context_ok c" and m: "m = bc_metadata c" "base_fits m" and run: "read_base c disk = Inr b"
  shows "\<exists>b0. base_count c disk (unat (dm_point_count m)) b0
    \<and> b = b0\<lparr>bg_offsets := bg_offsets b0 @ [of_nat (length (bg_adjacency b0))]\<rparr>"
proof -
  let ?nps = "unat (dm_nodes_per_sector m)" and ?pc = "unat (dm_point_count m)" and ?len = "unat (dm_max_node_len m)"
  have z: "base_count c disk 0 (new_base (dm_point_count m))"
    unfolding base_count_def m(1) using base_at_new [OF c] by (intro exI [of _ "[]"]) simp
  have fin: "?thesis" if "base_count c disk ?pc b0"
    "b = b0\<lparr>bg_offsets := bg_offsets b0 @ replicate (?pc - length (bg_offsets b0)) 0 @ [of_nat (length (bg_adjacency b0))]\<rparr>" for b0
    using that base_count_offsets [OF that(1)] by auto
  show ?thesis
  proof (cases "dm_nodes_per_sector m \<noteq> 0")
    case True
    let ?n = "unat ((dm_point_count m + dm_nodes_per_sector m - 1) div dm_nodes_per_sector m)"
    from run True obtain b0 where page: "\<not> dm_max_node_len m * dm_nodes_per_sector m > SECTOR_LEN"
      and f: "foldE (\<lambda>sector_id b.
            bindE (read_sector disk ((of_nat sector_id + 1) * SECTOR_LEN) (unat SECTOR_LEN)) (\<lambda>sector.
              foldE (\<lambda>slot. append_record c (drop (unat (of_nat slot * dm_max_node_len m)) sector))
                [0..<min ?nps (?pc - length (bg_offsets b))] b)) [0..<?n] (new_base (dm_point_count m)) = Inr b0"
      and b: "b = b0\<lparr>bg_offsets := bg_offsets b0 @ replicate (?pc - length (bg_offsets b0)) 0 @ [of_nat (length (bg_adjacency b0))]\<rparr>"
      unfolding read_base_def Let_def m(1) [symmetric] bindE_eq_Inr by (auto simp: bindE_eq_Inr)
    have nps: "0 < ?nps" using True by (simp add: unat_gt_0)
    have sum: "?pc + ?nps < 18446744073709551616" using m(2) True by (simp add: base_fits_def)
    have "unat (dm_point_count m + dm_nodes_per_sector m) = ?pc + ?nps" by (rule unat_add_small [OF sum])
    then have "unat (dm_point_count m + dm_nodes_per_sector m - 1) = ?pc + ?nps - 1"
      using nps by (subst unat_sub) (simp_all add: word_le_nat_alt)
    then have n: "?n = (?pc + ?nps - 1) div ?nps" by (simp add: unat_div)
    have "base_count c disk (min ?pc (length [0..<?n] * ?nps)) b0"
    proof (rule foldE_invariant [OF f, where P = "\<lambda>k. base_count c disk (min ?pc (k * ?nps))"])
      show "base_count c disk (min ?pc (0 * ?nps)) (new_base (dm_point_count m))" using z by simp
      fix k u t
      assume k: "k < length [0..<?n]" and u: "base_count c disk (min ?pc (k * ?nps)) u"
        and r: "bindE (read_sector disk ((of_nat ([0..<?n] ! k) + 1) * SECTOR_LEN) (unat SECTOR_LEN)) (\<lambda>sector.
              foldE (\<lambda>slot. append_record c (drop (unat (of_nat slot * dm_max_node_len m)) sector))
                [0..<min ?nps (?pc - length (bg_offsets u))] u) = Inr t"
      have kn: "k < (?pc + ?nps - 1) div ?nps" using k by (simp add: n)
      then have "(k + 1) * ?nps \<le> ?pc + ?nps - 1" using nps by (metis Suc_eq_plus1 Suc_leI less_eq_div_iff_mult_less_eq)
      then have le: "k * ?nps \<le> ?pc" using nps by (simp add: algebra_simps)
      have "k * 1 \<le> k * ?nps" by (rule mult_le_mono2) (use nps in linarith)
      then have "k \<le> ?pc" using le by linarith
      then have k32: "k < 4294967296" using context_okD(5) [OF c] m(1) by simp
      then have uk: "unat ((of_nat k + 1) * SECTOR_LEN :: u64) = (k + 1) * 4096"
      proof -
        have "unat (of_nat k + 1 :: u64) = k + 1"
          using k32 unat_of_nat_u64 [of "k + 1"] by (simp add: add.commute)
        then show ?thesis using unat_mult_small [of "of_nat k + 1" SECTOR_LEN] k32 by simp
      qed
      from r obtain sector where s: "read_sector disk ((of_nat k + 1) * SECTOR_LEN) (unat SECTOR_LEN) = Inr sector"
        and f2: "foldE (\<lambda>slot. append_record c (drop (unat (of_nat slot * dm_max_node_len m)) sector))
                [0..<min ?nps (?pc - length (bg_offsets u))] u = Inr t"
        using k by (auto simp: bindE_eq_Inr)
      have "sector = take 4096 (drop ((k + 1) * 4096) disk)" using read_sector_Inr [OF s] uk by simp
      from read_sector_records [OF c m(1) True m(2) page _ this f2] u le
      show "base_count c disk (min ?pc (Suc k * ?nps)) t" by (simp add: min_absorb2)
    qed
    moreover have "?pc \<le> ?n * ?nps" unfolding n by (rule ceil_div [OF nps])
    ultimately have "base_count c disk ?pc b0" by (simp add: min_absorb1)
    then show ?thesis using fin b by blast
  next
    case False
    let ?s = "(?len + 4095) div 4096"
    have fit: "?len + 4095 < 18446744073709551616" "(1 + ?pc * ?s) * 4096 < 18446744073709551616"
      using m(2) False by (simp_all add: base_fits_def)
    define spn where "spn = (dm_max_node_len m + SECTOR_LEN - 1) div SECTOR_LEN"
    have e: "dm_max_node_len m + SECTOR_LEN - 1 = dm_max_node_len m + 4095" by (simp add: SECTOR_LEN_def)
    have "unat (dm_max_node_len m + 4095) = ?len + 4095" using unat_add_small [of "dm_max_node_len m" 4095] fit(1) by simp
    then have spn: "unat spn = ?s" unfolding spn_def e unat_div by simp
    from run False obtain b0 where
      f: "foldE (\<lambda>node_id b.
            bindE (read_sector disk ((1 + of_nat node_id * spn) * SECTOR_LEN) (unat (spn * SECTOR_LEN))) (\<lambda>record_bytes.
              append_record c record_bytes b)) [0..<?pc] (new_base (dm_point_count m)) = Inr b0"
      and b: "b = b0\<lparr>bg_offsets := bg_offsets b0 @ replicate (?pc - length (bg_offsets b0)) 0 @ [of_nat (length (bg_adjacency b0))]\<rparr>"
      unfolding read_base_def Let_def m(1) [symmetric] spn_def [symmetric] by (auto simp: bindE_eq_Inr)
    have "base_count c disk (length [0..<?pc]) b0"
    proof (rule foldE_invariant [OF f, where P = "\<lambda>k. base_count c disk k", OF z])
      fix k u t
      assume k: "k < length [0..<?pc]" and u: "base_count c disk k u"
        and r: "bindE (read_sector disk ((1 + of_nat ([0..<?pc] ! k) * spn) * SECTOR_LEN) (unat (spn * SECTOR_LEN))) (\<lambda>record_bytes.
              append_record c record_bytes u) = Inr t"
      have kp: "k < ?pc" using k by simp
      then have "1 + k * ?s \<le> 1 + ?pc * ?s" by simp
      then have "(1 + k * ?s) * 4096 \<le> (1 + ?pc * ?s) * 4096" by (rule mult_le_mono1)
      then have k1: "(1 + k * ?s) * 4096 < 18446744073709551616" using fit(2) by linarith
      have "unat (of_nat k :: u64) = k" by (rule unat_of_nat_below [OF kp])
      then have "unat (of_nat k * spn) = k * ?s" using unat_mult_small [of "of_nat k" spn] k1 spn by simp
      then have "unat (1 + of_nat k * spn) = 1 + k * ?s" using unat_add_small [of 1 "of_nat k * spn"] k1 by simp
      then have o: "unat ((1 + of_nat k * spn) * SECTOR_LEN) = (1 + k * ?s) * 4096"
        using unat_mult_small [of "1 + of_nat k * spn" SECTOR_LEN] k1 unfolding unat_SECTOR_LEN by (simp only:)
      have "?s * 4096 < 18446744073709551616" by (rule le_less_trans [OF div_times_less_eq_dividend fit(1)])
      then have l: "unat (spn * SECTOR_LEN) = ?s * 4096" using unat_mult_small [of spn SECTOR_LEN] unfolding spn unat_SECTOR_LEN
        by blast
      from r kp obtain bytes where s: "read_sector disk ((1 + of_nat k * spn) * SECTOR_LEN) (unat (spn * SECTOR_LEN)) = Inr bytes"
        and a: "append_record c bytes u = Inr t" by (auto simp: bindE_eq_Inr)
      have "node_record m disk k = take (?s * 4096) (drop ((1 + k * ?s) * 4096) disk)"
        using False by (auto simp only: node_record_def Let_def unat_eq_zero if_False)
      then have "bytes = node_record m disk k" using read_sector_Inr [OF s] by (simp only: o l)
      from base_count_step [OF u c] a this m(1) show "base_count c disk (Suc k) t" by simp
    qed
    then have "base_count c disk ?pc b0" by simp
    then show ?thesis using fin b by blast
  qed
qed

lemma trimmed_subset: "trimmed rcni targets kept \<Longrightarrow> set kept \<subseteq> set targets \<and> length kept < length targets"
  by (auto simp: trimmed_def remove_nth_def dest: in_set_takeD in_set_dropD)

lemma record_holds_nbrs:
  assumes "record_holds c i r v nbrs"
  shows "length nbrs \<le> unat (dm_max_degree (bc_metadata c))" "list_all (\<lambda>t. ucast t < dm_point_count (bc_metadata c)) nbrs"
proof -
  define targets where "targets = buffer_targets (take (4 * unat (le_value (take 4 (drop (unat (bc_source_vector_bytes c)) r)) :: u32))
    (drop (unat (bc_source_vector_bytes c) + 4) r))"
  have t: "trimmed (bc_normalized_rcni c) targets nbrs \<or> nbrs = targets"
    and b: "length targets \<le> unat (dm_max_degree (bc_metadata c))"
    and p: "\<forall>t \<in> set targets. ucast t < dm_point_count (bc_metadata c)"
    using assms unfolding record_holds_def Let_def targets_def [symmetric] list_all_iff word_le_nat_alt by (auto split: if_splits)
  then have "set nbrs \<subseteq> set targets \<and> length nbrs \<le> length targets"
    using trimmed_subset [of "bc_normalized_rcni c" targets nbrs] by auto
  then show "length nbrs \<le> unat (dm_max_degree (bc_metadata c))" "list_all (\<lambda>t. ucast t < dm_point_count (bc_metadata c)) nbrs"
    using b p by (auto simp: list_all_iff)
qed

theorem read_base_ok:
  assumes c: "context_ok c" and m: "base_fits (bc_metadata c)" and run: "read_base c disk = Inr b"
  obtains vs nodes where "length vs = unat (dm_point_count (bc_metadata c))" "length nodes = length vs"
    "\<And>i. i < length vs \<Longrightarrow> record_holds c i (node_record (bc_metadata c) disk i) (vs ! i) (nodes ! i)"
    "bg_offsets b = edge_offsets_of nodes" "bg_adjacency b = concat nodes"
    "list_all (\<lambda>v. length v = unat (bc_vector_bytes c)) vs"
    "bc_layout c \<noteq> ORIGINAL_ID \<Longrightarrow> bg_spool b = concat vs \<and> bg_writer b = new_writer (dm_point_count (bc_metadata c))"
    "bc_layout c = ORIGINAL_ID \<Longrightarrow> writer_ok (unat (bc_vector_bytes c)) (bg_writer b)
      \<and> length (pw_locations (bg_writer b)) = unat (dm_point_count (bc_metadata c))
      \<and> (\<forall>i < length vs. placed (unat (bc_vector_bytes c)) (bg_writer b) (of_nat i) (vs ! i))"
proof -
  from read_base_count [OF c refl m run] obtain b0 vs nodes where
    b: "base_at c disk b0 vs nodes" "length vs = unat (dm_point_count (bc_metadata c))"
    and e: "b = b0\<lparr>bg_offsets := bg_offsets b0 @ [of_nat (length (bg_adjacency b0))]\<rparr>"
    unfolding base_count_def by blast
  note b' = b(1) [unfolded base_at_def]
  have o: "bg_offsets b = edge_offsets_of nodes"
    using b' unfolding e edge_offsets_of_def by simp
  show ?thesis
  proof (rule that [of vs nodes])
    show "length vs = unat (dm_point_count (bc_metadata c))" by (fact b(2))
    show "bg_offsets b = edge_offsets_of nodes" by (fact o)
    show "bc_layout c \<noteq> ORIGINAL_ID \<Longrightarrow> bg_spool b = concat vs \<and> bg_writer b = new_writer (dm_point_count (bc_metadata c))"
      "bc_layout c = ORIGINAL_ID \<Longrightarrow> writer_ok (unat (bc_vector_bytes c)) (bg_writer b)
      \<and> length (pw_locations (bg_writer b)) = unat (dm_point_count (bc_metadata c))
      \<and> (\<forall>i < length vs. placed (unat (bc_vector_bytes c)) (bg_writer b) (of_nat i) (vs ! i))"
      using b' by (simp_all add: e)
  qed (use b' in \<open>simp_all add: e\<close>)
qed

end
