(* ===== verification/IO_Placement_Pages.thy ===== *)
theory IO_Placement_Pages
  imports IO_Placement_Correct
begin

text \<open>A cell layout keeps the vectors of a cell inside the page range of the cell.\<close>

lemma append_vector_locations:
  "pw_locations (append_vector vb vpp node v w) = (pw_locations w)[unat node :=
     \<lparr>loc_page_id = pw_pages_written w, loc_page_offset = ucast (pw_output_slot w * vb)\<rparr>]"
  by (simp add: append_vector_def Let_def flush_page_def write_page_def)

lemma page_no_mono: "length (pw_file w) \<le> length (pw_file w') \<Longrightarrow> page_no w \<le> page_no w'"
  unfolding page_no_def by (rule div_le_mono)

lemma place_nodes_locations:
  assumes "place_nodes vb vpp ntc cell spool order n w = Inr (rest, n', w')"
    and vb: "0 < unat vb" "unat vb \<le> 4096" and vpp: "unat vpp = 4096 div unat vb" and ok: "writer_ok (unat vb) w"
    and nodes: "distinct order" "\<forall>v \<in> set order. unat v < length (pw_locations w)" "length (pw_locations w) * unat vb < 2 ^ 64"
  shows "\<exists>ns. order = ns @ rest
    \<and> (\<forall>v \<in> set ns. \<exists>k. page_no w \<le> k \<and> k \<le> page_no w' \<and> loc_page_id (pw_locations w' ! unat v) = of_nat k)
    \<and> (\<forall>v. v \<notin> set ns \<longrightarrow> pw_locations w' ! unat v = pw_locations w ! unat v)"
  using assms
proof (induction vb vpp ntc cell spool order n w rule: place_nodes.induct)
  case (2 vb vpp ntc cell spool node order n w)
  note pr = "2.prems"
  show ?case
  proof (cases "ucast (ntc ! unat node) = cell")
    case False
    with pr show ?thesis by (intro exI [of _ "[]"]) auto
  next
    case True
    define v where "v = take (unat vb) (drop (unat (ucast node * vb)) spool)"
    let ?w = "append_vector vb vpp node v w"
    have len: "\<not> length v < unat vb" and r: "place_nodes vb vpp ntc cell spool order (n + 1) ?w = Inr (rest, n', w')"
      using pr(1) True by (auto simp: Let_def v_def split: if_splits)
    have nl: "unat node < length (pw_locations w)" using pr(7) by simp
    have "length v = unat vb" using len by (simp add: v_def)
    note ap = append_vector_ok [OF pr(5,2,3,4) this nl]
    have d: "distinct order" "node \<notin> set order" using pr(6) by simp_all
    have b: "\<forall>v \<in> set order. unat v < length (pw_locations ?w)" "length (pw_locations ?w) * unat vb < 2 ^ 64"
      using pr(7,8) by (simp_all add: ap(4))
    have "\<not> ucast (ntc ! unat node) \<noteq> cell" using True by simp
    from "2.IH" [OF this refl len [unfolded v_def] r [unfolded v_def] pr(2-4) ap(1) [unfolded v_def] d(1) b(1) [unfolded v_def] b(2) [unfolded v_def]]
    obtain ns where ns: "order = ns @ rest"
      "\<forall>v \<in> set ns. \<exists>k. page_no ?w \<le> k \<and> k \<le> page_no w' \<and> loc_page_id (pw_locations w' ! unat v) = of_nat k"
      "\<forall>v. v \<notin> set ns \<longrightarrow> pw_locations w' ! unat v = pw_locations ?w ! unat v"
      unfolding v_def by blast
    have m: "page_no w \<le> page_no ?w" "page_no w \<le> page_no w'"
      using page_no_mono [OF append_vector_mono, of w vb vpp node v] page_no_mono [OF place_nodes_mono [OF r]] by linarith+
    have "node \<notin> set ns" using d(2) ns(1) by simp
    then have "pw_locations w' ! unat node = \<lparr>loc_page_id = pw_pages_written w, loc_page_offset = ucast (pw_output_slot w * vb)\<rparr>"
      using ns(3) nl by (simp add: append_vector_locations)
    moreover have "pw_pages_written w = of_nat (page_no w)" using pr(5) by (simp add: writer_ok_def page_no_def)
    ultimately have n: "\<exists>k. page_no w \<le> k \<and> k \<le> page_no w' \<and> loc_page_id (pw_locations w' ! unat node) = of_nat k"
      using m(2) by (intro exI [of _ "page_no w"]) simp
    show ?thesis
    proof (intro exI [of _ "node # ns"] conjI ballI allI impI)
      show "node # order = (node # ns) @ rest" using ns(1) by simp
      show "\<exists>k. page_no w \<le> k \<and> k \<le> page_no w' \<and> loc_page_id (pw_locations w' ! unat v) = of_nat k" if "v \<in> set (node # ns)" for v
        using that n ns(2) m(1) by (auto intro: le_trans)
      show "pw_locations w' ! unat v = pw_locations w ! unat v" if "v \<notin> set (node # ns)" for v
      proof -
        have "unat node \<noteq> unat v" using that by (auto simp: word_unat_eq_iff)
        then show ?thesis using that ns(3) by (simp add: append_vector_locations)
      qed
    qed
  qed
qed auto

lemma pad_pages_locations: "pad_pages first allocated w = Inr w' \<Longrightarrow> pw_locations w' = pw_locations w"
proof (induction first allocated w rule: pad_pages.induct)
  case (1 first allocated w)
  show ?case
  proof (cases "pw_pages_written w - first < allocated")
    case True
    with "1.prems" obtain w1 where w1: "append_padding_page w = Inr w1" "pad_pages first allocated w1 = Inr w'"
      by (subst (asm) pad_pages.simps) (auto simp: bindE_eq_Inr)
    from "1.IH" [OF True w1] w1(1) show ?thesis
      by (auto simp: append_padding_page_def write_page_def split: if_splits)
  next
    case False
    with "1.prems" show ?thesis by (subst (asm) pad_pages.simps) simp
  qed
qed

lemma place_cell_locations:
  assumes run: "place_cell layout vb vpp cells spool cell order counts w = Inr (rg, rest, counts', w')"
    and vb: "0 < unat vb" "unat vb \<le> 4096" "unat vpp = 4096 div unat vb"
    and w: "writer_ok (unat vb) w" "pw_output_slot w = 0" "length (pw_file w') < 2 ^ 64"
    and nodes: "distinct order" "\<forall>v \<in> set order. unat v < length (pw_locations w)"
      "length (pw_locations w) * unat vb < 2 ^ 64" "length (pw_locations w) < 2 ^ 32"
    and ns: "order = ns @ rest"
  shows "\<forall>v \<in> set ns. page_no w \<le> unat (loc_page_id (pw_locations w' ! unat v))
      \<and> unat (loc_page_id (pw_locations w' ! unat v)) < page_no w'"
    "\<forall>v. v \<notin> set ns \<longrightarrow> pw_locations w' ! unat v = pw_locations w ! unat v"
proof -
  from run obtain n w1 where
    pn: "place_nodes vb vpp (cp_node_to_cell cells) cell spool order 0 w = Inr (rest, n, w1)"
    and pad: "w' = flush_page w1 \<or> (\<exists>a. pad_pages (pw_pages_written w) a (flush_page w1) = Inr w')"
    unfolding place_cell_def Let_def bindE_eq_Inr
    by (auto simp: bindE_eq_Inr Let_def split: if_splits prod.splits)
  have l: "pw_locations w' = pw_locations w1"
    using pad pad_pages_locations by (auto simp: flush_page_def write_page_def)
  have "length (pw_file w1) \<le> length (pw_file (flush_page w1))" by (simp add: flush_page_def write_page_def)
  then have m: "page_no w1 \<le> page_no w'" using pad by (intro page_no_mono) (auto dest: pad_pages_mono)
  from place_nodes_locations [OF pn vb w(1) nodes(1-3)] ns have
    pl: "\<forall>v \<in> set ns. \<exists>k. page_no w \<le> k \<and> k \<le> page_no w1 \<and> loc_page_id (pw_locations w1 ! unat v) = of_nat k"
    and same: "\<forall>v. v \<notin> set ns \<longrightarrow> pw_locations w1 ! unat v = pw_locations w ! unat v" by auto
  from same show "\<forall>v. v \<notin> set ns \<longrightarrow> pw_locations w' ! unat v = pw_locations w ! unat v" by (simp add: l)
  from place_cell_ok [OF run vb w nodes] ns have ok: "writer_ok (unat vb) w'" "pw_output_slot w' = 0"
    and placed: "\<forall>v \<in> set ns. placed (unat vb) w' v (take (unat vb) (drop (unat v * unat vb) spool))" by auto
  note p' = writer_pages [OF ok(1) w(3)]
  show "\<forall>v \<in> set ns. page_no w \<le> unat (loc_page_id (pw_locations w' ! unat v))
      \<and> unat (loc_page_id (pw_locations w' ! unat v)) < page_no w'"
  proof
    fix v assume v: "v \<in> set ns"
    with pl l obtain k where k: "page_no w \<le> k" "k \<le> page_no w1" "loc_page_id (pw_locations w' ! unat v) = of_nat k" by auto
    have "k < 2 ^ 64" using k(2) m p'(3) by simp
    then have uk: "unat (loc_page_id (pw_locations w' ! unat v)) = k" unfolding k(3) by (rule unat_of_nat_u64)
    from v placed have "placed (unat vb) w' v (take (unat vb) (drop (unat v * unat vb) spool))" by blast
    then obtain k' where k': "loc_page_id (pw_locations w' ! unat v) = of_nat k'"
      "4096 * k' + unat (loc_page_offset (pw_locations w' ! unat v)) + unat vb \<le> length (pw_file w')"
      unfolding placed_def Let_def by (auto simp: ok(2))
    have lt: "k' < page_no w'" using k'(2) vb(1) unfolding p'(2) by linarith
    then have "k' < 2 ^ 64" using p'(3) by simp
    then have "k' = k" using uk unat_of_nat_u64 unfolding k'(1) by metis
    with lt k(1) uk show "page_no w \<le> unat (loc_page_id (pw_locations w' ! unat v))
      \<and> unat (loc_page_id (pw_locations w' ! unat v)) < page_no w'" by simp
  qed
qed

lemma place_cells_locations:
  assumes "place_cells layout vb vpp cells spool n cell order counts w = Inr (rs, counts', w')"
    and vb: "0 < unat vb" "unat vb \<le> 4096" "unat vpp = 4096 div unat vb"
    and "writer_ok (unat vb) w" "pw_output_slot w = 0" "length (pw_file w') < 2 ^ 64"
    and "distinct order" "\<forall>v \<in> set order. unat v < length (pw_locations w)"
      "length (pw_locations w) * unat vb < 2 ^ 64" "length (pw_locations w) < 2 ^ 32"
  shows "(\<forall>v \<in> set order. \<exists>j < n. ucast (cp_node_to_cell cells ! unat v) = cell + of_nat j
      \<and> unat (rg_first_page (rs ! j)) \<le> unat (loc_page_id (pw_locations w' ! unat v))
      \<and> unat (loc_page_id (pw_locations w' ! unat v)) < unat (rg_first_page (rs ! j)) + unat (rg_page_count (rs ! j)))
    \<and> (\<forall>v. v \<notin> set order \<longrightarrow> pw_locations w' ! unat v = pw_locations w ! unat v)"
  using assms(1,5-)
proof (induction n arbitrary: cell order counts w rs)
  case 0
  then show ?case by (auto split: if_splits)
next
  case (Suc n)
  note pr = Suc.prems
  from pr(1) obtain rg rest c w1 rs' where
    pc: "place_cell layout vb vpp cells spool cell order counts w = Inr (rg, rest, c, w1)"
    and pcs: "place_cells layout vb vpp cells spool n (cell + 1) rest c w1 = Inr (rs', counts', w')" and rs: "rs = rg # rs'"
    by (auto simp: bindE_eq_Inr)
  have l1: "length (pw_file w1) < 2 ^ 64" using place_cells_mono [OF pcs] pr(4) by linarith
  from place_cell_ok [OF pc vb pr(2,3) l1 pr(5-8)] obtain ns where ns: "order = ns @ rest"
    "rg_first_page rg = of_nat (page_no w)" "unat (rg_page_count rg) = page_no w1 - page_no w" "page_no w < page_no w1"
    "writer_ok (unat vb) w1" "pw_output_slot w1 = 0" "length (pw_locations w1) = length (pw_locations w)"
    "\<forall>v \<in> set ns. ucast (cp_node_to_cell cells ! unat v) = cell" by blast
  note lo = place_cell_locations [OF pc vb pr(2,3) l1 pr(5-8) ns(1)]
  have lw: "length (pw_file w) < 2 ^ 64" using place_cell_mono [OF pc] l1 by linarith
  have fp: "unat (rg_first_page rg) = page_no w"
    using writer_pages(3) [OF pr(2) lw] unfolding ns(2) by (intro unat_of_nat_u64) simp
  have "distinct rest" "\<forall>v \<in> set rest. unat v < length (pw_locations w1)" "length (pw_locations w1) * unat vb < 2 ^ 64"
    "length (pw_locations w1) < 2 ^ 32" using pr(5-8) ns(1,7) by auto
  note ih = Suc.IH [OF pcs ns(5,6) pr(4) this]
  have disj: "v \<notin> set rest" if "v \<in> set ns" for v using pr(5) ns(1) that by auto
  have "\<exists>j < Suc n. ucast (cp_node_to_cell cells ! unat v) = cell + of_nat j
      \<and> unat (rg_first_page (rs ! j)) \<le> unat (loc_page_id (pw_locations w' ! unat v))
      \<and> unat (loc_page_id (pw_locations w' ! unat v)) < unat (rg_first_page (rs ! j)) + unat (rg_page_count (rs ! j))"
    if v: "v \<in> set order" for v
  proof (cases "v \<in> set ns")
    case True
    then have "pw_locations w' ! unat v = pw_locations w1 ! unat v" using ih disj by blast
    then show ?thesis using lo(1) True ns(3,4,8) fp by (intro exI [of _ 0]) (simp add: rs)
  next
    case False
    then have "v \<in> set rest" using v ns(1) by simp
    with ih obtain j where "j < n" "ucast (cp_node_to_cell cells ! unat v) = cell + 1 + of_nat j"
      "unat (rg_first_page (rs' ! j)) \<le> unat (loc_page_id (pw_locations w' ! unat v))"
      "unat (loc_page_id (pw_locations w' ! unat v)) < unat (rg_first_page (rs' ! j)) + unat (rg_page_count (rs' ! j))" by blast
    then show ?thesis by (intro exI [of _ "Suc j"]) (simp add: rs)
  qed
  moreover have "\<forall>v. v \<notin> set order \<longrightarrow> pw_locations w' ! unat v = pw_locations w ! unat v" using ih lo(2) ns(1) by simp
  ultimately show ?case by blast
qed

end
