(* ===== verification/IO_Hints_Correct.thy ===== *)
theory IO_Hints_Correct
  imports IO_Hints
begin

text \<open>
  The hints are what they claim to be: the prefetch page of a node is the page that most of its bounded
  two-hop neighbourhood lives on, and the gateway hints that \<open>build\<close> writes pass every check of the loader.
\<close>

subsection \<open>Counting pages\<close>

lemma map_of_count_page:
  "map_of (count_page page pcs) = (map_of pcs)(page \<mapsto> (case map_of pcs page of None \<Rightarrow> 1 | Some c \<Rightarrow> c + 1))"
  by (induction page pcs rule: count_page.induct) (auto simp: fun_eq_iff)

lemma keys_count_page: "keys (count_page page pcs) = (if page \<in> set (keys pcs) then keys pcs else keys pcs @ [page])"
  by (induction page pcs rule: count_page.induct) auto

lemma distinct_count_pages:
  "distinct (keys pcs) \<Longrightarrow> distinct (keys (fold count_page pages pcs)) \<and> set (keys (fold count_page pages pcs)) = set (keys pcs) \<union> set pages"
proof (induction pages arbitrary: pcs)
  case (Cons page pages)
  have "distinct (keys (count_page page pcs))" using Cons.prems by (auto simp: keys_count_page)
  from Cons.IH [OF this] show ?case by (auto simp: keys_count_page)
qed simp

lemma map_of_count_pages:
  "page \<in> set pages \<or> page \<in> set (keys pcs) \<Longrightarrow> map_of (fold count_page pages pcs) page
     = Some ((case map_of pcs page of None \<Rightarrow> 0 | Some c \<Rightarrow> c) + of_nat (count_list pages page))"
proof (induction pages arbitrary: pcs)
  case Nil
  then show ?case by (auto simp: map_of_eq_None_iff split: option.splits)
next
  case (Cons p pages)
  show ?case
  proof (cases "page \<in> set pages \<or> page \<in> set (keys (count_page p pcs))")
    case True
    from Cons.IH [OF True] show ?thesis
      by (auto simp: map_of_count_page algebra_simps split: option.splits)
  next
    case False
    with Cons.prems show ?thesis by (auto simp: keys_count_page split: if_splits)
  qed
qed

text \<open>The pages of a list with the number of times each occurs.\<close>

lemma count_pages_entry:
  "(page, c) \<in> set (fold count_page pages []) \<longleftrightarrow> page \<in> set pages \<and> c = of_nat (count_list pages page)"
proof -
  have d: "distinct (keys (fold count_page pages []))" "set (keys (fold count_page pages [])) = set pages"
    using distinct_count_pages [of "[]" pages] by simp_all
  have "(page, c) \<in> set (fold count_page pages []) \<longleftrightarrow> map_of (fold count_page pages []) page = Some c"
    using d(1) by (simp add: map_of_eq_Some_iff)
  moreover have "page \<in> set pages" if "(page, c) \<in> set (fold count_page pages [])"
    using that d(2) by force
  ultimately show ?thesis using map_of_count_pages [of page pages "[]"] by auto
qed

lemma max_page_in: "max_page pcs best \<in> insert best (set pcs)"
  by (induction pcs arbitrary: best) auto

lemma less_page_irrefl: "\<not> less_page x x"
  by (simp add: less_page_def)

lemma less_page_trans: "\<not> less_page b x \<Longrightarrow> less_page b c \<Longrightarrow> \<not> less_page c x"
  by (auto simp: less_page_def)

lemma max_page_max: "x \<in> set pcs \<or> \<not> less_page best x \<Longrightarrow> \<not> less_page (max_page pcs best) x"
proof (induction pcs arbitrary: best)
  case (Cons c pcs)
  show ?case
  proof (cases "x \<in> set pcs")
    case False
    then have "\<not> less_page (if less_page best c then c else best) x"
      using Cons.prems less_page_trans [of best x c] by (auto simp: less_page_def)
    then show ?thesis using Cons.IH by simp
  qed (use Cons.IH in simp)
qed simp

lemma length_neighbor_slice: "length (neighbor_slice offsets adjacency node) \<le> 8"
  by (simp add: neighbor_slice_def)

lemma length_two_hop_pages: "length (two_hop_pages offsets adjacency locations node) \<le> 64"
proof -
  have c: "length (concat (map f xs)) \<le> 8 * length xs" if "\<And>x. length (f x) \<le> 8" for f :: "u32 \<Rightarrow> u32 list" and xs
    by (induction xs) (use that in \<open>auto simp: add_mono\<close>)
  have "length (two_hop_pages offsets adjacency locations node)
      \<le> length (concat (map (\<lambda>middle. neighbor_slice offsets adjacency (unat middle)) (neighbor_slice offsets adjacency node)))"
    unfolding two_hop_pages_def by (metis length_filter_le length_map)
  also have "\<dots> \<le> 8 * length (neighbor_slice offsets adjacency node)" by (rule c) (rule length_neighbor_slice)
  also have "\<dots> \<le> 64" using length_neighbor_slice [of offsets adjacency node] by simp
  finally show ?thesis .
qed

lemma prefetch_page_spec:
  fixes offsets adjacency locations node
  defines "pages \<equiv> two_hop_pages offsets adjacency locations node"
  shows "(pages = [] \<longrightarrow> prefetch_page offsets adjacency locations node = k_no_io_prefetch_page)
    \<and> (pages \<noteq> [] \<longrightarrow> prefetch_page offsets adjacency locations node \<in> set pages
       \<and> (\<forall>q \<in> set pages.
            count_list pages q < count_list pages (prefetch_page offsets adjacency locations node)
            \<or> count_list pages q = count_list pages (prefetch_page offsets adjacency locations node)
              \<and> prefetch_page offsets adjacency locations node \<le> q))"
proof (cases "pages = []")
  case True
  then show ?thesis by (simp add: prefetch_page_def pages_def [symmetric])
next
  case False
  let ?l = "fold count_page pages []"
  let ?m = "max_page (tl ?l) (hd ?l)"
  have "set ?l \<noteq> {}"
    using False count_pages_entry [of "hd pages" _ pages] by (metis hd_in_set empty_iff)
  then have l: "?l \<noteq> []" by auto
  then have p: "prefetch_page offsets adjacency locations node = fst ?m"
    by (simp add: prefetch_page_def Let_def pages_def [symmetric])
  have "?m \<in> set ?l" using max_page_in [of "tl ?l" "hd ?l"] l by (metis list.collapse list.simps(15))
  then have m: "fst ?m \<in> set pages" "snd ?m = of_nat (count_list pages (fst ?m))"
    using count_pages_entry [of "fst ?m" "snd ?m" pages] by simp_all
  have cnt: "unat (of_nat (count_list pages q) :: u32) = count_list pages q" for q
  proof -
    have "count_list pages q \<le> 64"
      using count_le_length [of pages q] length_two_hop_pages [of offsets adjacency locations node] by (simp add: pages_def)
    then show ?thesis by (simp add: unat_of_nat take_bit_nat_eq_self)
  qed
  have "count_list pages q < count_list pages (fst ?m)
        \<or> count_list pages q = count_list pages (fst ?m) \<and> fst ?m \<le> q" if q: "q \<in> set pages" for q
  proof -
    have "(q, of_nat (count_list pages q)) \<in> set ?l" using q by (simp add: count_pages_entry)
    then have "(q, of_nat (count_list pages q)) = hd ?l \<or> (q, of_nat (count_list pages q)) \<in> set (tl ?l)"
      using l by (metis list.collapse set_ConsD)
    then have "\<not> less_page ?m (q, of_nat (count_list pages q))"
      using less_page_irrefl by (intro max_page_max) metis
    then show ?thesis
      unfolding less_page_def using m(2) cnt [of q] cnt [of "fst ?m"]
      by (simp add: word_less_nat_alt word_unat_eq_iff word_le_nat_alt) linarith
  qed
  with m(1) False show ?thesis by (simp add: p)
qed

subsection \<open>Transitions between cells\<close>

lemma list_all_update: "list_all P xs \<Longrightarrow> P x \<Longrightarrow> list_all P (xs[i := x])"
  using set_update_subset_insert [of xs i x] by (auto simp: list_all_iff)

definition summary_ok :: "nat \<Rightarrow> transition_summary_t \<Rightarrow> bool" where
  "summary_ok cells s \<longleftrightarrow>
     (fst (ts_cells s) \<noteq> - 1 \<longrightarrow> unat (fst (ts_cells s)) < cells \<and> fst (ts_counts s) \<noteq> 0)
     \<and> (snd (ts_cells s) \<noteq> - 1 \<longrightarrow> unat (snd (ts_cells s)) < cells \<and> snd (ts_counts s) \<noteq> 0)
     \<and> fst (ts_counts s) \<le> ts_total s \<and> snd (ts_counts s) \<le> ts_total s"

lemma saturating_total:
  fixes t n :: u32
  defines "total' \<equiv> ucast (min (ucast (- 1 :: u32)) (ucast t + ucast n :: u64)) :: u32"
  shows "t \<le> total'" "n \<le> total'"
proof -
  have s: "unat (ucast t + ucast n :: u64) = unat t + unat n"
    using unsigned_less [of t, where ?'a = nat] unsigned_less [of n, where ?'a = nat]
      unat_add_lem [of "ucast t :: u64" "ucast n"] by simp
  have m: "unat (min (ucast (- 1 :: u32)) (ucast t + ucast n :: u64)) = min 4294967295 (unat t + unat n)"
    by (auto simp: min_def word_le_nat_alt s unsigned_minus_1_eq_mask mask_eq_exp_minus_1)
  have "min 4294967295 (unat t + unat n) < 4294967296" by simp
  then have "unat total' = min 4294967295 (unat t + unat n)"
    unfolding total'_def unsigned_ucast_eq m by (simp add: take_bit_nat_eq_self)
  then show "t \<le> total'" "n \<le> total'"
    using unsigned_less [of t, where ?'a = nat] unsigned_less [of n, where ?'a = nat] by (simp_all add: word_le_nat_alt)
qed

definition transition_ok :: "nat \<Rightarrow> u32 \<times> u32 \<times> u32 \<Rightarrow> bool" where
  "transition_ok cells t \<longleftrightarrow> unat (fst t) < cells \<and> unat (fst (snd t)) < cells \<and> snd (snd t) \<noteq> 0"

lemma add_transition_ok:
  assumes "list_all (summary_ok cells) summaries" "transition_ok cells t" "length summaries = cells"
  shows "list_all (summary_ok cells) (add_transition t summaries) \<and> length (add_transition t summaries) = cells"
proof -
  obtain source target n where t: "t = (source, target, n)" by (cases t) auto
  define s where "s = summaries ! unat source"
  define total' where "total' = (ucast (min (ucast (- 1 :: u32)) (ucast (ts_total s) + ucast n :: u64)) :: u32)"
  have s: "summary_ok cells s" using assms by (simp add: s_def t transition_ok_def list_all_length)
  have sat: "ts_total s \<le> total'" "n \<le> total'" unfolding total'_def by (rule saturating_total)+
  have e: "add_transition t summaries = summaries[unat source :=
      (if fst (ts_cells s) = - 1 then s\<lparr>ts_total := total', ts_cells := (target, snd (ts_cells s)), ts_counts := (n, snd (ts_counts s))\<rparr>
       else if snd (ts_cells s) = - 1 then s\<lparr>ts_total := total', ts_cells := (fst (ts_cells s), target), ts_counts := (fst (ts_counts s), n)\<rparr>
       else s\<lparr>ts_total := total'\<rparr>)]"
    by (simp add: add_transition_def Let_def t s_def [symmetric] total'_def [symmetric] cong: if_cong)
  have "fst (ts_counts s) \<le> total'" "snd (ts_counts s) \<le> total'"
    using s sat(1) unfolding summary_ok_def by (blast intro: order_trans)+
  then have "summary_ok cells (if fst (ts_cells s) = - 1 then s\<lparr>ts_total := total', ts_cells := (target, snd (ts_cells s)), ts_counts := (n, snd (ts_counts s))\<rparr>
       else if snd (ts_cells s) = - 1 then s\<lparr>ts_total := total', ts_cells := (fst (ts_cells s), target), ts_counts := (fst (ts_counts s), n)\<rparr>
       else s\<lparr>ts_total := total'\<rparr>)"
    using s sat(2) assms(2) by (auto simp: summary_ok_def t transition_ok_def)
  then have "\<exists>s'. add_transition t summaries = summaries[unat source := s'] \<and> summary_ok cells s'" using e by blast
  then show ?thesis using assms(1,3) by (auto intro: list_all_update)
qed

lemma add_transitions_ok:
  assumes "list_all (transition_ok cells) ts" "list_all (summary_ok cells) summaries" "length summaries = cells"
  shows "list_all (summary_ok cells) (fold add_transition ts summaries) \<and> length (fold add_transition ts summaries) = cells"
  using assms
proof (induction ts arbitrary: summaries)
  case (Cons t ts)
  then show ?case using add_transition_ok [of cells summaries t] by simp
qed simp

lemma no_transitions_ok: "summary_ok cells no_transitions"
  by (simp add: summary_ok_def no_transitions_def)

definition counted :: "('k \<Rightarrow> bool) \<Rightarrow> ('k \<times> u32) list \<Rightarrow> bool" where
  "counted P transitions \<longleftrightarrow> list_all (\<lambda>(key, n). P key \<and> n \<noteq> 0) transitions"

lemma counted_update:
  assumes "counted P transitions" "P key" "n \<noteq> 0"
  shows "counted P (AList.update key n transitions)"
  using assms by (induction transitions) (auto simp: counted_def)

lemma count_transition_ok:
  assumes "counted P transitions" "P key"
  shows "counted P (count_transition key transitions)"
  unfolding count_transition_def Let_def
  by (rule counted_update [OF assms]) (auto simp: eq_neg_iff_add_eq_0 [symmetric] add_eq_0_iff)

lemma count_transitions_ok: "counted P transitions \<Longrightarrow> list_all P ks \<Longrightarrow> counted P (fold count_transition ks transitions)"
  by (induction ks arbitrary: transitions) (auto intro: count_transition_ok)

lemma set_ordered_transitions:
  "set (ordered_transitions transitions) = (\<lambda>((source, target), n). (source, target, n)) ` set transitions"
  by (auto simp: ordered_transitions_def image_image split_beta image_iff)

lemma cell_transitions_ok:
  assumes "\<forall>n < unat pc. unat (ntc ! n) < cells" "\<forall>t \<in> set adjacency. unat t < unat pc"
    "\<forall>n < unat pc. unat (offsets ! (n + 1)) \<le> length adjacency"
  shows "list_all (\<lambda>key. unat (fst key) < cells \<and> unat (snd key) < cells) (cell_transitions pc offsets adjacency ntc)"
  unfolding list_all_iff
proof
  fix key assume "key \<in> set (cell_transitions pc offsets adjacency ntc)"
  then obtain n e where n: "n < unat pc" "e < unat (offsets ! (n + 1))" "key = (ntc ! n, ntc ! unat (adjacency ! e))"
    unfolding cell_transitions_def by auto
  then have "e < length adjacency" using assms(3) by fastforce
  then have "unat (adjacency ! e) < unat pc" using assms(2) nth_mem by blast
  with n assms(1) show "unat (fst key) < cells \<and> unat (snd key) < cells" by simp
qed

lemma summaries_ok:
  fixes pc offsets adjacency cells ntc
  defines "summaries \<equiv> fold add_transition
      (ordered_transitions (fold count_transition (cell_transitions pc offsets adjacency ntc) []))
      (replicate cells no_transitions)"
  assumes "\<forall>n < unat pc. unat (ntc ! n) < cells" "\<forall>t \<in> set adjacency. unat t < unat pc"
    "\<forall>n < unat pc. unat (offsets ! (n + 1)) \<le> length adjacency"
  shows "list_all (summary_ok cells) summaries \<and> length summaries = cells"
  unfolding summaries_def
proof (rule add_transitions_ok)
  let ?P = "\<lambda>key. unat (fst key) < cells \<and> unat (snd key) < cells"
  have "counted ?P (fold count_transition (cell_transitions pc offsets adjacency ntc) [])"
    by (rule count_transitions_ok [OF _ cell_transitions_ok [OF assms(2-4)]]) (simp add: counted_def)
  then show "list_all (transition_ok cells) (ordered_transitions (fold count_transition (cell_transitions pc offsets adjacency ntc) []))"
    unfolding counted_def list_all_iff set_ordered_transitions transition_ok_def by auto
qed (simp_all add: list_all_iff no_transitions_ok)

subsection \<open>The gateway hints pass the loader\<close>

lemma gateway_hint_ok:
  assumes g: "unat (gw_target_node g) < unat pc" and cell: "unat (ntc ! unat (gw_target_node g)) < length ranges"
    and small: "length ranges < 2 ^ 32 - 1"
    and ranges: "\<forall>r \<in> set ranges. unat (rg_first_page r) + unat (rg_page_count r) \<le> unat pages \<and> 0 < unat (rg_page_count r)"
    and loc: "let page = unat (loc_page_id (locations ! unat (gw_target_node g))); r = ranges ! unat (ntc ! unat (gw_target_node g)) in
       unat (rg_first_page r) \<le> page \<and> page < unat (rg_first_page r) + unat (rg_page_count r)"
    and summaries: "list_all (summary_ok (length ranges)) summaries" "length summaries = length ranges"
    and none: "pages \<le> k_no_io_prefetch_page"
  shows "hint_ok pc (of_nat (length ranges)) pages locations ranges (gateway_hint ntc locations ranges summaries g)"
proof -
  define cell where "cell = ntc ! unat (gw_target_node g)"
  define r where "r = ranges ! unat cell"
  define s where "s = summaries ! unat cell"
  define page where "page = loc_page_id (locations ! unat (gw_target_node g))"
  have cl: "unat cell < length ranges" using cell by (simp only: cell_def)
  have r: "unat (rg_first_page r) + unat (rg_page_count r) \<le> unat pages" "0 < unat (rg_page_count r)"
    using ranges cl by (simp_all add: r_def)
  have s: "summary_ok (length ranges) s" using summaries cl by (simp add: s_def list_all_length)
  have p: "unat (rg_first_page r) \<le> unat page" "unat page < unat (rg_first_page r) + unat (rg_page_count r)"
    using loc by (simp_all add: Let_def cell_def [symmetric] r_def [symmetric] page_def [symmetric])
  have ul: "unat (of_nat (length ranges) :: u64) = length ranges" using small by (intro unat_of_nat_u64) simp
  have sum: "unat (rg_first_page r + ucast (rg_page_count r)) = unat (rg_first_page r) + unat (rg_page_count r)"
    using unat_add_lem [of "rg_first_page r" "ucast (rg_page_count r)"] r(1) unat_u64_less [of pages] by simp
  have first: "rg_first_page (ranges ! unat c) < pages" if "unat c < length ranges" for c :: u32
  proof -
    have "ranges ! unat c \<in> set ranges" using that by simp
    then have "unat (rg_first_page (ranges ! unat c)) < unat pages" using ranges by fastforce
    then show ?thesis by (simp add: word_less_nat_alt)
  qed
  have succ: "successor_ok (of_nat (length ranges)) pages ranges c
      (if c \<noteq> - 1 then rg_first_page (ranges ! unat c) else k_no_io_prefetch_page) n"
    if "c \<noteq> - 1 \<longrightarrow> unat c < length ranges \<and> n \<noteq> 0" for c n
  proof (cases "c = - 1")
    case False
    with that have c: "unat c < length ranges" "n \<noteq> 0" by auto
    have "rg_first_page (ranges ! unat c) \<noteq> k_no_io_prefetch_page" using first [OF c(1)] none by auto
    then show ?thesis using False c first [OF c(1)] by (simp add: successor_ok_def Let_def word_le_nat_alt word_less_nat_alt ul)
  qed (simp add: successor_ok_def)
  have hint: "gateway_hint ntc locations ranges summaries g =
      \<lparr>gh_target_node = gw_target_node g, gh_landing_cell = cell, gh_successor_cells = ts_cells s, gh_landing_node_page = page,
       gh_landing_cell_first_page = rg_first_page r,
       gh_successor_first_pages = (if fst (ts_cells s) \<noteq> - 1 then rg_first_page (ranges ! unat (fst (ts_cells s))) else k_no_io_prefetch_page,
         if snd (ts_cells s) \<noteq> - 1 then rg_first_page (ranges ! unat (snd (ts_cells s))) else k_no_io_prefetch_page),
       gh_transition_counts = ts_counts s, gh_outgoing_transition_count = ts_total s, gh_reserved = 0\<rparr>"
    by (simp add: gateway_hint_def Let_def cell_def r_def s_def page_def)
  have "page < pages" "rg_first_page r < pages" using p r by (simp_all add: word_less_nat_alt)
  then show ?thesis
    unfolding hint_ok_def hint Let_def
    using succ [of "fst (ts_cells s)" "fst (ts_counts s)"] succ [of "snd (ts_cells s)" "snd (ts_counts s)"] s p g cl
    by (simp add: r_def [symmetric] page_def [symmetric] summary_ok_def word_le_nat_alt word_less_nat_alt sum ul)
qed

subsection \<open>Property\<close>

text \<open>The prefetch page of a node is the page, other than the node's own, that holds most of the bounded two-hop
neighbourhood (eight neighbours of each of eight neighbours), the smallest of such pages; without any other
page the directory holds the sentinel.\<close>

theorem prefetch_page_most_frequent:
  assumes "pages = two_hop_pages offsets adjacency locations node" "best = prefetch_page offsets adjacency locations node"
  shows "if pages = [] then best = k_no_io_prefetch_page
    else best \<in> set pages \<and> best \<noteq> loc_page_id (locations ! node)
      \<and> (\<forall>q \<in> set pages. q = best \<or> count_list pages q < count_list pages best
           \<or> count_list pages q = count_list pages best \<and> best < q)"
proof (cases "pages = []")
  case True
  then show ?thesis using prefetch_page_spec [of offsets adjacency locations node] assms by simp
next
  case False
  then have best: "best \<in> set pages" "\<forall>q \<in> set pages. count_list pages q < count_list pages best
      \<or> count_list pages q = count_list pages best \<and> best \<le> q"
    using prefetch_page_spec [of offsets adjacency locations node] unfolding assms(1) [symmetric] assms(2) [symmetric] by blast+
  have "best \<noteq> loc_page_id (locations ! node)" using best(1) by (auto simp: assms(1) two_hop_pages_def)
  moreover have "q = best \<or> count_list pages q < count_list pages best
      \<or> count_list pages q = count_list pages best \<and> best < q" if "q \<in> set pages" for q
    using best(2) that by (metis order_le_less)
  ultimately show ?thesis using False best(1) by (simp only: if_False)  blast
qed

lemma prefetch_page_most_frequent_witness:
  "prefetch_page [0, 2, 3, 4] [1, 2, 2, 1]
     [\<lparr>loc_page_id = 5, loc_page_offset = 0\<rparr>, \<lparr>loc_page_id = 6, loc_page_offset = 0\<rparr>, \<lparr>loc_page_id = 7, loc_page_offset = 0\<rparr>] 0 = 6"
proof -
  let ?l = "[\<lparr>loc_page_id = 5, loc_page_offset = 0\<rparr>, \<lparr>loc_page_id = 6, loc_page_offset = 0\<rparr>, \<lparr>loc_page_id = 7, loc_page_offset = 0\<rparr>]"
  have p: "two_hop_pages [0, 2, 3, 4] [1, 2, 2, 1] ?l 0 = [7, 6]"
    by (simp add: two_hop_pages_def neighbor_slice_def)
  from prefetch_page_most_frequent [OF p [symmetric] refl] show ?thesis by (auto split: if_splits)
qed

end
