(* ===== verification/IO_Build_Correct.thy ===== *)
theory IO_Build_Correct
  imports IO_Build IO_Base_Correct IO_Placement_Pages IO_Hints_Correct
begin

text \<open>
  \<open>build\<close> end to end: the topology file it writes passes every check of \<open>load\<close>, and the loaded index returns
  for every node the neighbours and the vector that the record of the node holds in the Base file, for every
  layout and both encodings.
\<close>

subsection \<open>The context\<close>

lemma build_context_fields [simp]:
  "bc_metadata (build_context m layout svb i) = m" "bc_layout (build_context m layout svb i) = layout"
  "bc_source_vector_bytes (build_context m layout svb i) = svb"
  "bc_vector_bytes (build_context m layout svb i) = (if layout = CELL_U8_4K then dm_dimension m else svb)"
  "bc_vectors_per_page (build_context m layout svb i) = ucast k_io_vector_page_size div bc_vector_bytes (build_context m layout svb i)"
  "bc_normalized_rcni (build_context m layout svb i) = ci_rcni i" "bc_trim_low_rcni (build_context m layout svb i) = ci_trim i"
  by (simp_all add: build_context_def Let_def)

lemma context_ok_build:
  assumes "checked_multiply (dm_dimension m) 4 = Inr svb"
    "\<not> (vb = 0 \<or> vb > ucast k_io_vector_page_size)" "vb = (if layout = CELL_U8_4K then dm_dimension m else svb)"
    "checked_multiply (dm_point_count m) vb = Inr spool" "unat (dm_point_count m) < 2 ^ 32"
  shows "context_ok (build_context m layout svb i)" "svb = dm_dimension m * 4"
proof -
  have u: "unat svb = unat (dm_dimension m) * 4" using assms(1) by (simp add: checked_multiply_iff)
  then have d: "unat (dm_dimension m) * 4 < 2 ^ 64" using unsigned_less [of svb, where ?'a = nat] by simp
  then show e: "svb = dm_dimension m * 4" using u unat_mult_lem [of "dm_dimension m" 4] by (simp add: word_unat_eq_iff)
  have "unat (dm_point_count m) * unat vb < 2 ^ 64"
    using assms(4) unsigned_less [of spool, where ?'a = nat] by (simp add: checked_multiply_iff)
  moreover have "0 < unat vb" using assms(2) by (simp add: unat_gt_0)
  moreover have "unat vb \<le> 4096" using assms(2) by (simp add: not_less word_le_nat_alt)
  moreover have "unat (ucast k_io_vector_page_size div vb) = 4096 div unat vb" by (simp add: unat_div)
  ultimately show "context_ok (build_context m layout svb i)"
    unfolding context_ok_def build_context_fields assms(3) [symmetric] using d e assms(5) by simp
qed

subsection \<open>Placement\<close>

lemma take_concat_uniform:
  assumes "list_all (\<lambda>v. length v = n) vs" "i < length vs"
  shows "take n (drop (i * n) (concat vs)) = vs ! i"
  using assms
proof (induction vs arbitrary: i)
  case (Cons v vs)
  show ?case
  proof (cases i)
    case (Suc j)
    with Cons show ?thesis by simp
  qed (use Cons in simp)
qed simp

definition sidecar_ok :: "community_polar_index_t \<Rightarrow> bool" where
  "sidecar_ok cells \<longleftrightarrow> length (cp_cells cells) < 2 ^ 32 - 1
     \<and> length (cp_node_to_cell cells) = unat (cp_point_count cells)
     \<and> list_all (\<lambda>c. unat c < length (cp_cells cells)) (cp_node_to_cell cells)
     \<and> list_all (\<lambda>g. unat (gw_target_node g) < unat (cp_point_count cells)) (cp_gateways cells)"

text \<open>What the placement establishes: \<open>vs\<close> are the vectors of the nodes.\<close>

definition placement_ok ::
  "io_vector_layout_t \<Rightarrow> nat \<Rightarrow> u8 list list \<Rightarrow> community_polar_index_t option \<Rightarrow> io_cell_page_range_t list \<Rightarrow> page_writer_t \<Rightarrow> bool" where
  "placement_ok layout vb vs cells ranges w \<longleftrightarrow>
     writer_ok vb w \<and> pw_output_slot w = 0 \<and> length (pw_locations w) = length vs
     \<and> (\<forall>i < length vs. placed vb w (of_nat i) (vs ! i))
     \<and> (case cells of
          None \<Rightarrow> ranges = []
        | Some cs \<Rightarrow> length ranges = length (cp_cells cs) \<and> covers_pages 0 ranges (page_no w) \<and> covered ranges = length vs
            \<and> list_all (range_shape layout) ranges
            \<and> (\<forall>v :: u32. unat v < length vs \<longrightarrow>
                 (let page = unat (loc_page_id (pw_locations w ! unat v)); r = ranges ! unat (cp_node_to_cell cs ! unat v) in
                  unat (rg_first_page r) \<le> page \<and> page < unat (rg_first_page r) + unat (rg_page_count r))))"

lemma nodes_below:
  assumes "n < 2 ^ 32" "i < n"
  shows "unat (of_nat i :: u32) = i"
proof -
  have "i < 2 ^ 32" using assms by simp
  then show ?thesis by (simp add: unat_of_nat take_bit_nat_eq_self)
qed

lemma place_vectors_ok:
  assumes run: "place_vectors c i b = Inr (ranges, counts, w)" and c: "context_ok c"
    and vs: "length vs = unat (dm_point_count (bc_metadata c))" "list_all (\<lambda>v. length v = unat (bc_vector_bytes c)) vs"
    and base: "bc_layout c \<noteq> ORIGINAL_ID \<Longrightarrow> bg_spool b = concat vs \<and> bg_writer b = new_writer (dm_point_count (bc_metadata c))"
      "bc_layout c = ORIGINAL_ID \<Longrightarrow> writer_ok (unat (bc_vector_bytes c)) (bg_writer b)
        \<and> length (pw_locations (bg_writer b)) = unat (dm_point_count (bc_metadata c))
        \<and> (\<forall>i < length vs. placed (unat (bc_vector_bytes c)) (bg_writer b) (of_nat i) (vs ! i))"
    and cells: "ci_cells i = None \<longleftrightarrow> bc_layout c = ORIGINAL_ID"
      "\<And>cs. ci_cells i = Some cs \<Longrightarrow> placement_order (dm_point_count (bc_metadata c)) cs = Inr (ci_order i)
         \<and> length (cp_cells cs) < 2 ^ 64 \<and> (\<forall>n < length vs. unat (cp_node_to_cell cs ! n) < length (cp_cells cs))"
    and small: "length (pw_file w) < 2 ^ 64"
  shows "placement_ok (bc_layout c) (unat (bc_vector_bytes c)) vs (ci_cells i) ranges w"
proof (cases "ci_cells i")
  case None
  let ?vb = "unat (bc_vector_bytes c)"
  have w: "ranges = []" "w = flush_page (bg_writer b)" using run None by (simp_all add: place_vectors_def)
  have orig: "writer_ok ?vb (bg_writer b)" "length (pw_locations (bg_writer b)) = length vs"
    "\<forall>i < length vs. placed ?vb (bg_writer b) (of_nat i) (vs ! i)" using base(2) None cells(1) vs(1) by simp_all
  note fl = flush_page_ok [OF orig(1) context_okD(1,2) [OF c]]
  show ?thesis unfolding placement_ok_def using None w fl(1-4) orig(2,3) by simp
next
  case (Some cs)
  let ?vb = "unat (bc_vector_bytes c)" and ?pc = "dm_point_count (bc_metadata c)"
  define order where "order = (if bc_layout c = CELL_WEIGHTED_4K
     then weighted_order (bg_offsets b) (bg_adjacency b) (unat (bc_vectors_per_page c)) (cp_node_to_cell cs) (ci_order i)
     else ci_order i)"
  from run Some have pcs: "place_cells (bc_layout c) (bc_vector_bytes c) (bc_vectors_per_page c) cs (bg_spool b)
      (length (cp_cells cs)) 0 order [0, 0, 0, 0] (bg_writer b) = Inr (ranges, counts, w)"
    by (auto simp: place_vectors_def Let_def order_def bindE_eq_Inr)
  have b: "bg_spool b = concat vs" "bg_writer b = new_writer ?pc" using base(1) Some cells(1) by auto
  note po = placement_order_ok [OF conjunct1 [OF cells(2) [OF Some]] context_okD(5) [OF c]]
  have "mset order = mset (ci_order i)" using weighted_order_ok by (simp add: order_def)
  then have o: "distinct order" "set order = {v. unat v < unat ?pc}" "length order = unat ?pc"
    using po mset_eq_imp_distinct_iff mset_eq_setD mset_eq_length by metis+
  have wr: "writer_ok ?vb (bg_writer b)" "pw_output_slot (bg_writer b) = 0" "length (pw_locations (bg_writer b)) = length vs"
    using new_writer_ok context_okD(1,2) [OF c] vs(1) by (simp_all add: b(2))
  have bd: "\<forall>v \<in> set order. unat v < length (pw_locations (bg_writer b))"
    "length (pw_locations (bg_writer b)) * ?vb < 2 ^ 64" "length (pw_locations (bg_writer b)) < 2 ^ 32"
    using context_okD(4,5) [OF c] o(2) vs(1) by (simp_all add: wr(3))
  note ok = place_cells_ok [OF pcs context_okD(1-3) [OF c] wr(1,2) small o(1) bd]
  note loc = place_cells_locations [OF pcs context_okD(1-3) [OF c] wr(1,2) small o(1) bd]
  have z: "page_no (bg_writer b) = 0" by (simp add: b(2) page_no_def)
  have pl: "placed ?vb w (of_nat n) (vs ! n)" if n: "n < length vs" for n
  proof -
    have u: "unat (of_nat n :: u32) = n" by (rule nodes_below [OF context_okD(5) [OF c]]) (use n vs(1) in simp)
    then have "of_nat n \<in> set order" using n vs(1) o(2) by simp
    then have "placed ?vb w (of_nat n) (take ?vb (drop (n * ?vb) (concat vs)))" using ok by (metis b(1) u)
    then show ?thesis by (simp add: take_concat_uniform [OF vs(2) n])
  qed
  have page: "let page = unat (loc_page_id (pw_locations w ! unat v)); r = ranges ! unat (cp_node_to_cell cs ! unat v) in
      unat (rg_first_page r) \<le> page \<and> page < unat (rg_first_page r) + unat (rg_page_count r)" if v: "unat v < length vs" for v :: u32
  proof -
    have "v \<in> set order" using v vs(1) o(2) by simp
    with loc obtain j where j: "j < length (cp_cells cs)" "ucast (cp_node_to_cell cs ! unat v) = (of_nat j :: u64)"
      "unat (rg_first_page (ranges ! j)) \<le> unat (loc_page_id (pw_locations w ! unat v))"
      "unat (loc_page_id (pw_locations w ! unat v)) < unat (rg_first_page (ranges ! j)) + unat (rg_page_count (ranges ! j))" by auto
    have lt: "j < 2 ^ 64" using j(1) cells(2) [OF Some] by linarith
    have "unat (ucast (cp_node_to_cell cs ! unat v) :: u64) = unat (of_nat j :: u64)" by (rule arg_cong [OF j(2)])
    then have "unat (cp_node_to_cell cs ! unat v) = j" unfolding unat_of_nat_u64 [OF lt] by simp
    with j(3,4) show ?thesis by (simp add: Let_def)
  qed
  show ?thesis unfolding placement_ok_def Some option.case
    using ok pl page wr(3) o(3) vs(1) z by simp
qed

subsection \<open>The topology\<close>

lemma placed_location_ok:
  assumes "placed (unat vb) w node v" "pw_output_slot w = 0" "writer_ok (unat vb) w" "length (pw_file w) < 2 ^ 64"
    and vb: "0 < unat vb" "4 dvd unat vb"
  shows "location_ok (pw_pages_written w) vb (pw_locations w ! unat node)"
proof -
  let ?l = "pw_locations w ! unat node"
  note p = writer_pages [OF assms(3,4)]
  from assms(1,2) obtain k where k: "loc_page_id ?l = of_nat k" "unat (loc_page_offset ?l) + unat vb \<le> 4096"
    "unat vb dvd unat (loc_page_offset ?l)" "4096 * k + unat (loc_page_offset ?l) + unat vb \<le> length (pw_file w)"
    unfolding placed_def Let_def by auto
  have lt: "k < page_no w" using k(4) vb(1) unfolding p(2) by linarith
  then have b: "k < 2 ^ 64" "page_no w < 2 ^ 64" using p(3) by simp_all
  have "loc_page_id ?l < pw_pages_written w"
    unfolding k(1) p(1) word_less_nat_alt unat_of_nat_u64 [OF b(1)] unat_of_nat_u64 [OF b(2)] by (rule lt)
  moreover have "unat (loc_page_offset ?l mod 4) = 0" using dvd_trans [OF vb(2) k(3)] by (simp add: unat_mod mod_eq_0_iff_dvd)
  then have "loc_page_offset ?l mod 4 = 0" by (simp add: unat_eq_zero)
  moreover have le: "loc_page_offset ?l \<le> k_io_vector_page_size" using k(2) by (simp add: word_le_nat_alt)
  moreover have "unat (k_io_vector_page_size - loc_page_offset ?l) = 4096 - unat (loc_page_offset ?l)"
    using le by (subst unat_sub) simp_all
  then have "vb \<le> ucast (k_io_vector_page_size - loc_page_offset ?l)" using k(2) by (simp add: word_le_nat_alt)
  ultimately show ?thesis by (auto simp: location_ok_def)
qed

lemma prefetch_pages_ok:
  assumes "length offsets = n + 1" "\<forall>t \<in> set adjacency. unat t < length locations"
    and "\<forall>l \<in> set locations. loc_page_id l < pages"
  shows "prefetch_page_ok pages (prefetch_page offsets adjacency locations node)"
proof (cases "two_hop_pages offsets adjacency locations node = []")
  case True
  then show ?thesis using prefetch_page_spec [of offsets adjacency locations node] by (simp add: prefetch_page_ok_def)
next
  case False
  with prefetch_page_spec [of offsets adjacency locations node]
  have "prefetch_page offsets adjacency locations node \<in> set (two_hop_pages offsets adjacency locations node)" by blast
  then obtain second where s: "second \<in> set adjacency"
    "prefetch_page offsets adjacency locations node = loc_page_id (locations ! unat second)"
    by (auto simp: two_hop_pages_def neighbor_slice_def dest!: in_set_takeD in_set_dropD)
  then have "locations ! unat second \<in> set locations" using assms(2) by simp
  then have "loc_page_id (locations ! unat second) < pages" using assms(3) by blast
  then show ?thesis by (simp add: prefetch_page_ok_def s(2) not_le)
qed

lemma built_ok:
  assumes c: "context_ok c" and point_count: "dm_point_count (bc_metadata c) \<noteq> 0" "dm_dimension (bc_metadata c) \<noteq> 0"
    and encoding: "encoding = RAW_U32 \<or> encoding = PFOR_DELTA"
    and layout: "bc_layout c = ORIGINAL_ID \<or> cell_layout (bc_layout c)"
    and u8: "bc_layout c = CELL_U8_4K \<Longrightarrow> 4 dvd unat (dm_dimension (bc_metadata c))"
    and nodes: "length nodes = unat (dm_point_count (bc_metadata c))" "length vs = length nodes"
      "bg_offsets b = edge_offsets_of nodes" "bg_adjacency b = concat nodes" "length (concat nodes) * 4 < 2 ^ 64"
      "list_all (\<lambda>nbrs. length nbrs \<le> unat (dm_max_degree (bc_metadata c))) nodes"
      "list_all (\<lambda>t. ucast t < dm_point_count (bc_metadata c)) (concat nodes)"
    and placement: "placement_ok (bc_layout c) (unat (bc_vector_bytes c)) vs (ci_cells i) ranges w"
    and small: "length (pw_file w) < 2 ^ 64"
    and cells: "ci_cells i = None \<longleftrightarrow> bc_layout c = ORIGINAL_ID"
      "\<And>cs. ci_cells i = Some cs \<Longrightarrow> sidecar_ok cs \<and> cp_point_count cs = dm_point_count (bc_metadata c)
         \<and> cp_cells cs \<noteq> [] \<and> fp_size (ci_fingerprint i) \<noteq> 0"
  shows "build_ok (build_topology encoding hints c i b ranges w) nodes"
proof -
  let ?m = "bc_metadata c" and ?vb = "bc_vector_bytes c"
  let ?pages = "pw_pages_written w" and ?locs = "pw_locations w"
  let ?pc = "dm_point_count ?m"
  note pl = placement [unfolded placement_ok_def]
  have wr: "writer_ok (unat ?vb) w" "pw_output_slot w = 0" "length ?locs = length vs"
    and placed: "\<forall>i < length vs. placed (unat ?vb) w (of_nat i) (vs ! i)" using pl by auto
  note pg = writer_pages [OF wr(1) small]
  have up: "unat ?pages = page_no w" unfolding pg(1) by (rule unat_of_nat_u64) (use pg(3) in simp)
  have dim: "unat (dm_dimension ?m) * 4 < 2 ^ 64" and vb: "?vb = (if bc_layout c = CELL_U8_4K then dm_dimension ?m else dm_dimension ?m * 4)"
    using c unfolding context_ok_def by auto
  have "4 dvd unat ?vb" using u8 dim unat_mult_lem [of "dm_dimension ?m" 4] by (simp add: vb)
  note vb4 = context_okD(1) [OF c] this
  have loc: "location_ok ?pages ?vb (?locs ! n)" if n: "n < length vs" for n
  proof -
    have "unat (of_nat n :: u32) = n" by (rule nodes_below [OF context_okD(5) [OF c]]) (use n nodes in simp)
    with placed_location_ok [OF _ wr(2,1) small vb4, of "of_nat n" "vs ! n"] placed n show ?thesis by simp
  qed
  then have locs: "list_all (location_ok ?pages ?vb) ?locs" using wr(3) by (simp add: list_all_length)
  have loc_pages: "\<forall>l \<in> set ?locs. loc_page_id l < ?pages"
    using locs by (auto simp: list_all_iff location_ok_def)
  have adj: "\<forall>t \<in> set (concat nodes). unat t < unat ?pc"
    using nodes(7) unfolding list_all_iff word_less_nat_alt by simp
  have pref: "list_all (prefetch_page_ok ?pages) (prefetch_pages hints ?pc (bg_offsets b) (bg_adjacency b) ?locs)"
  proof -
    have "prefetch_page_ok ?pages (prefetch_page (bg_offsets b) (bg_adjacency b) ?locs n)" for n
      by (rule prefetch_pages_ok [OF _ _ loc_pages, of _ "length nodes"]) (use nodes(1-4) adj wr(3) in simp_all)
    moreover have "prefetch_page_ok ?pages k_no_io_prefetch_page" by (simp add: prefetch_page_ok_def)
    ultimately show ?thesis by (auto simp: prefetch_pages_def list_all_iff)
  qed
  have ranges: "list_all (\<lambda>r. range_ok (bc_layout c) ?pages (rg_first_page r) r) ranges
      \<and> (\<forall>r \<in> set ranges. unat (rg_first_page r) + unat (rg_page_count r) \<le> unat ?pages \<and> 0 < unat (rg_page_count r))"
  proof (cases "ci_cells i")
    case None
    then show ?thesis using pl by simp
  next
    case (Some cs)
    then have "covers_pages 0 ranges (page_no w)" "list_all (range_shape (bc_layout c)) ranges" using pl by auto
    then show ?thesis using covers_pages_bound [of 0 ranges "page_no w"] range_shape_ok [of "bc_layout c" _ ?pages]
      by (fastforce simp: list_all_iff up)
  qed
  have hint: "list_all (hint_ok ?pc (of_nat (length ranges)) ?pages ?locs ranges)
      (gateway_hints hints ?pc (bg_offsets b) (bg_adjacency b) (ci_cells i) ?locs ranges)"
  proof (cases "ci_cells i = None \<or> \<not> hints")
    case True
    then show ?thesis by (auto simp: gateway_hints_def split: option.splits)
  next
    case False
    then obtain cs where cs: "ci_cells i = Some cs" and h: hints by auto
    note s = cells(2) [OF cs, unfolded sidecar_ok_def]
    have len: "length ranges = length (cp_cells cs)" using pl cs by simp
    have ntc: "\<forall>n < unat ?pc. unat (cp_node_to_cell cs ! n) < length ranges"
      using s len by (simp add: list_all_length)
    define summaries where "summaries = fold add_transition
      (ordered_transitions (fold count_transition (cell_transitions ?pc (bg_offsets b) (bg_adjacency b) (cp_node_to_cell cs)) []))
      (replicate (length ranges) no_transitions)"
    have offs: "\<forall>n < unat ?pc. unat (bg_offsets b ! (n + 1)) \<le> length (bg_adjacency b)"
    proof (intro allI impI)
      fix n assume n: "n < unat ?pc"
      have "length (concat nodes) < 2 ^ 64" using nodes(5) by linarith
      then have "unat (bg_offsets b ! (n + 1)) = length (concat (take (n + 1) nodes))"
        using edge_offsets_nth [of "n + 1" nodes] n nodes(1) by (simp add: nodes(3))
      also have "\<dots> \<le> length (concat nodes)"
        by (metis append_take_drop_id concat_append length_append le_add1)
      finally show "unat (bg_offsets b ! (n + 1)) \<le> length (bg_adjacency b)" by (simp only: nodes(4))
    qed
    have sm: "list_all (summary_ok (length ranges)) summaries \<and> length summaries = length ranges"
      unfolding summaries_def by (rule summaries_ok [OF ntc _ offs]) (use adj nodes(4) in simp)
    have "hint_ok ?pc (of_nat (length ranges)) ?pages ?locs ranges (gateway_hint (cp_node_to_cell cs) ?locs ranges summaries g)"
      if g: "g \<in> set (cp_gateways cs)" for g
    proof (rule gateway_hint_ok)
      show t: "unat (gw_target_node g) < unat ?pc" using g s by (auto simp: list_all_iff)
      then show "unat (cp_node_to_cell cs ! unat (gw_target_node g)) < length ranges" using ntc by blast
      show "length ranges < 2 ^ 32 - 1" using s len by simp
      show "let page = unat (loc_page_id (?locs ! unat (gw_target_node g)));
          r = ranges ! unat (cp_node_to_cell cs ! unat (gw_target_node g)) in
          unat (rg_first_page r) \<le> page \<and> page < unat (rg_first_page r) + unat (rg_page_count r)"
        using pl t nodes(1,2) by (simp add: cs)
    qed (use ranges sm in \<open>simp_all add: k_no_io_prefetch_page_def\<close>)
    then show ?thesis using cs h by (auto simp: gateway_hints_def Let_def list_all_iff summaries_def)
  qed
  have hn: "gateway_hints hints ?pc (bg_offsets b) (bg_adjacency b) (ci_cells i) ?locs ranges \<noteq> [] \<longrightarrow>
      ranges \<noteq> [] \<and> fp_size (ci_fingerprint i) \<noteq> 0"
  proof (cases "ci_cells i")
    case None
    then show ?thesis by (simp add: gateway_hints_def)
  next
    case (Some cs)
    then show ?thesis using cells(2) [OF Some] pl by auto
  qed
  have cl: "if bc_layout c = ORIGINAL_ID then ranges = []
      else cell_layout (bc_layout c) \<and> ranges \<noteq> [] \<and> covers_pages 0 ranges (unat ?pages) \<and> covered ranges = unat ?pc"
  proof (cases "ci_cells i")
    case None
    then show ?thesis using cells(1) pl by simp
  next
    case (Some cs)
    then show ?thesis using cells(1) cells(2) [OF Some] pl layout nodes(1,2) by (auto simp: up)
  qed
  show ?thesis
    unfolding build_ok_def build_topology_def Let_def
    using point_count dim encoding cl ranges nodes locs [unfolded vb] pref hn hint wr(3)
    by (simp add: prefetch_pages_def del: length_concat split del: if_split cong: if_cong)
qed

subsection \<open>Loading what was built\<close>

lemma neighbor_slice_of_offsets:
  assumes "n < length nodes" "length (concat nodes) < 2 ^ 64"
  shows "take (unat (edge_offsets_of nodes ! (n + 1) - edge_offsets_of nodes ! n)) (drop (unat (edge_offsets_of nodes ! n)) (concat nodes))
    = nodes ! n"
proof -
  have o: "unat (edge_offsets_of nodes ! n) = length (concat (take n nodes))"
    "unat (edge_offsets_of nodes ! (n + 1)) = length (concat (take n nodes)) + length (nodes ! n)"
    using assms by (simp_all add: edge_offsets_nth take_Suc_conv_app_nth del: length_concat)
  then have "edge_offsets_of nodes ! n \<le> edge_offsets_of nodes ! (n + 1)" by (simp add: word_le_nat_alt)
  then have d: "unat (edge_offsets_of nodes ! (n + 1) - edge_offsets_of nodes ! n) = length (nodes ! n)"
    using o by (simp add: unat_sub)
  have "concat nodes = concat (take n nodes) @ nodes ! n @ concat (drop (Suc n) nodes)"
    using assms(1) by (metis append_take_drop_id concat.simps(2) concat_append Cons_nth_drop_Suc)
  then show ?thesis unfolding d o(1) by simp
qed

text \<open>The vector at a location of the vector file.\<close>

definition stored_vector :: "u8 list \<Rightarrow> nat \<Rightarrow> io_vector_location_t \<Rightarrow> u8 list" where
  "stored_vector vectors vector_bytes l =
     take vector_bytes (drop (unat (loc_page_id l) * 4096 + unat (loc_page_offset l)) vectors)"

definition codec_supports :: "pfor_codec option \<Rightarrow> io_adjacency_encoding_t \<Rightarrow> nat \<Rightarrow> bool" where
  "codec_supports pfor encoding max_degree \<longleftrightarrow>
     (encoding \<noteq> RAW_U32 \<longrightarrow> (\<exists>codec. pfor = Some codec \<and> codec_ok codec \<and> max_degree \<le> 256
        \<and> (\<forall>nbrs. length nbrs \<le> max_degree \<longrightarrow> length (compressed_words codec nbrs) < 2 ^ 32)))"

lemma stored_vector_placed:
  assumes "placed vb w node v" "pw_output_slot w = 0" "writer_ok vb w" "length (pw_file w) < 2 ^ 64" "0 < vb"
  shows "stored_vector (pw_file w) vb (pw_locations w ! unat node) = v"
proof -
  let ?l = "pw_locations w ! unat node"
  note p = writer_pages [OF assms(3,4)]
  from assms(1,2) obtain k where k: "loc_page_id ?l = of_nat k"
    "4096 * k + unat (loc_page_offset ?l) + vb \<le> length (pw_file w)"
    "take vb (drop (4096 * k + unat (loc_page_offset ?l)) (pw_file w @ pw_output_page w)) = v"
    unfolding placed_def Let_def by auto
  have "k < 2 ^ 64" using k(2) p(2,3) by simp
  then have "unat (loc_page_id ?l) = k" unfolding k(1) by (rule unat_of_nat_u64)
  moreover have "take vb (drop (4096 * k + unat (loc_page_offset ?l)) (pw_file w @ pw_output_page w))
      = take vb (drop (4096 * k + unat (loc_page_offset ?l)) (pw_file w))"
    by (rule slice_prefix [where m = "length (pw_file w)"]) (use k(2) in simp_all)
  ultimately show ?thesis using k(3) unfolding stored_vector_def by (metis mult.commute)
qed

lemma fingerprint_written:
  assumes "writer_ok vb w" "length (pw_file w) < 2 ^ 64"
  shows "fingerprint_file (Some (pw_file w)) = Inr \<lparr>fp_size = pw_pages_written w * 4096, fp_checksum = pw_checksum w\<rparr>"
proof -
  note p = writer_pages [OF assms]
  have "(of_nat (length (pw_file w)) :: u64) = pw_pages_written w * 4096" unfolding p(1,2) by simp
  moreover have "pw_checksum w = hash_bytes k_fnv_offset_basis (pw_file w)" using assms(1) by (simp add: writer_ok_def)
  ultimately show ?thesis by (simp add: fingerprint_file_def fingerprint_loop_eq)
qed

lemma length_concat_bound: "list_all (\<lambda>xs. length xs \<le> d) xss \<Longrightarrow> length (concat xss) \<le> length xss * d"
  by (induction xss) (simp_all add: add_mono)

lemma cell_inputs_cases:
  assumes "cell_inputs layout m rcni disk sidecar = Inr i"
  shows "(layout = ORIGINAL_ID \<and> ci_cells i = None \<and> fingerprint_file disk = Inr (ci_base i))
    \<or> (layout \<noteq> ORIGINAL_ID \<and> (\<exists>cells. sidecar = Inr (cells, ci_fingerprint i) \<and> ci_cells i = Some cells
        \<and> ci_base i = cp_base_index_fingerprint cells \<and> cp_point_count cells = dm_point_count m \<and> cp_cells cells \<noteq> []
        \<and> placement_order (dm_point_count m) cells = Inr (ci_order i)))"
  using assms unfolding cell_inputs_def by (auto simp: bindE_eq_Inr split: if_splits)

lemma codec_supports_fits:
  assumes "codec_supports pfor encoding d" "list_all (\<lambda>nbrs. length nbrs \<le> d) nodes"
  shows "codec_fits pfor encoding nodes"
  unfolding codec_fits_def
proof
  assume "encoding \<noteq> RAW_U32"
  with assms(1) obtain codec where c: "pfor = Some codec" "codec_ok codec" "d \<le> 256"
    "\<forall>nbrs. length nbrs \<le> d \<longrightarrow> length (compressed_words codec nbrs) < 2 ^ 32"
    unfolding codec_supports_def by blast
  then have "list_all (\<lambda>nbrs. length nbrs \<le> 256 \<and> length (compressed_words codec nbrs) < 2 ^ 32) nodes"
    using assms(2) unfolding list_all_iff by (meson order_trans)
  with c(1,2) show "\<exists>codec. pfor = Some codec \<and> codec_ok codec
      \<and> list_all (\<lambda>nbrs. length nbrs \<le> 256 \<and> length (compressed_words codec nbrs) < 2 ^ 32) nodes" by blast
qed

theorem build_loads:
  assumes build: "io_build pfor disk_pq encoding layout hints rcni (Some disk) sidecar = Inr (topology, vectors, result)"
    and m: "read_disk_layout_metadata (Some disk) = Inr m" "base_fits m" "unat (dm_point_count m) < 2 ^ 32"
      "unat (dm_point_count m) * unat (dm_max_degree m) < 2 ^ 62"
    and sizes: "length topology < 2 ^ 64" "length vectors < 2 ^ 64"
    and codec: "codec_supports pfor encoding (unat (dm_max_degree m))"
    and u8: "layout = CELL_U8_4K \<longrightarrow> 4 dvd unat (dm_dimension m)"
    and side: "layout = ORIGINAL_ID \<or> (\<exists>cells fingerprint. sidecar = Inr (cells, fingerprint) \<and> sidecar_ok cells
      \<and> fp_size fingerprint \<noteq> 0 \<and> fingerprint_file (Some disk) = Inr (cp_base_index_fingerprint cells))"
  obtains ix i vb where "load_io_optimized_index pfor (Some disk) (Some topology) (Some vectors) False False 0 = Inr ix"
    "cell_inputs layout m rcni (Some disk) sidecar = Inr i" "ix_point_count ix = dm_point_count m"
    "vb = (if layout = CELL_U8_4K then unat (dm_dimension m) else unat (dm_dimension m) * 4)"
    "\<And>node. unat node < unat (dm_point_count m) \<Longrightarrow> \<exists>v nbrs l.
       record_holds (build_context m layout (dm_dimension m * 4) i) (unat node) (node_record m disk (unat node)) v nbrs
       \<and> neighbors_resident ix node = Inr nbrs \<and> vector_location ix node = Inr l \<and> stored_vector vectors vb l = v"
proof -
  from build m(1) obtain svb spool i b ranges counts w vfb so ab where
    req: "check_request (pfor \<noteq> None) encoding layout (rcni \<noteq> None) disk_pq = Inr ()"
    and svb: "checked_multiply (dm_dimension m) 4 = Inr svb"
    and vbg: "\<not> ((if layout = CELL_U8_4K then dm_dimension m else svb) = 0
      \<or> (if layout = CELL_U8_4K then dm_dimension m else svb) > ucast k_io_vector_page_size)"
    and spool: "checked_multiply (dm_point_count m) (if layout = CELL_U8_4K then dm_dimension m else svb) = Inr spool"
    and i: "cell_inputs layout m rcni (Some disk) sidecar = Inr i"
    and rb: "read_base (build_context m layout svb i) disk = Inr b"
    and pv: "place_vectors (build_context m layout svb i) i b = Inr (ranges, counts, w)"
    and wt: "write_topology pfor (build_topology encoding hints (build_context m layout svb i) i b ranges w) = Inr topology"
    and ve: "vectors = pw_file w"
    unfolding io_build_def Let_def bindE_eq_Inr guardE_eq_Inr by (auto simp: bindE_eq_Inr split: prod.splits)
  let ?c = "build_context m layout svb i"
  note c = context_ok_build [OF svb vbg refl spool m(3)]
  have meta: "dm_point_count m \<noteq> 0" "dm_dimension m \<noteq> 0"
    using m(1) unfolding read_disk_layout_metadata_def by (auto simp: bindE_eq_Inr Let_def)
  have svb': "svb = dm_dimension m * 4" by (rule c(2))
  let ?vb = "bc_vector_bytes ?c"
  have cok: "context_ok ?c" by (rule c(1))
  from read_base_ok [OF cok _ rb] m(2) obtain vs nodes where vs: "length vs = unat (dm_point_count m)" "length nodes = length vs"
    and held: "\<And>n. n < length vs \<Longrightarrow> record_holds ?c n (node_record m disk n) (vs ! n) (nodes ! n)"
    and bg: "bg_offsets b = edge_offsets_of nodes" "bg_adjacency b = concat nodes"
    and vl: "list_all (\<lambda>v. length v = unat ?vb) vs"
    and sp: "layout \<noteq> ORIGINAL_ID \<Longrightarrow> bg_spool b = concat vs \<and> bg_writer b = new_writer (dm_point_count m)"
    and orig: "layout = ORIGINAL_ID \<Longrightarrow> writer_ok (unat ?vb) (bg_writer b)
      \<and> length (pw_locations (bg_writer b)) = unat (dm_point_count m)
      \<and> (\<forall>i < length vs. placed (unat ?vb) (bg_writer b) (of_nat i) (vs ! i))"
    by (simp only: build_context_fields(1,2)) blast
  have deg: "list_all (\<lambda>nbrs. length nbrs \<le> unat (dm_max_degree m)) nodes"
    using record_holds_nbrs(1) [OF held] vs(2) by (simp add: list_all_length)
  have tgt: "list_all (\<lambda>t. ucast t < dm_point_count m) (concat nodes)"
    using record_holds_nbrs(2) [OF held] vs(2) by (fastforce simp: list_all_iff in_set_conv_nth)
  have edges: "length (concat nodes) * 4 < 2 ^ 64"
    using length_concat_bound [OF deg] m(4) vs by simp
  have cells: "ci_cells i = None \<longleftrightarrow> layout = ORIGINAL_ID"
    "\<And>cs. ci_cells i = Some cs \<Longrightarrow> sidecar_ok cs \<and> cp_point_count cs = dm_point_count m \<and> cp_cells cs \<noteq> []
       \<and> fp_size (ci_fingerprint i) \<noteq> 0 \<and> placement_order (dm_point_count m) cs = Inr (ci_order i)"
    and disk_fp: "fingerprint_file (Some disk) = Inr (ci_base i)"
    using cell_inputs_cases [OF i] side by auto
  have small: "length (pw_file w) < 2 ^ 64" using sizes(2) by (simp only: ve)
  have pl: "placement_ok layout (unat ?vb) vs (ci_cells i) ranges w"
  proof (rule place_vectors_ok [OF pv cok, unfolded build_context_fields(1,2)])
    show "\<And>cs. ci_cells i = Some cs \<Longrightarrow> placement_order (dm_point_count m) cs = Inr (ci_order i)
       \<and> length (cp_cells cs) < 2 ^ 64 \<and> (\<forall>n < length vs. unat (cp_node_to_cell cs ! n) < length (cp_cells cs))"
      using cells(2) vs(1) by (fastforce simp: sidecar_ok_def list_all_length)
  qed (use vs(1) vl sp orig cells(1) small in auto)
  let ?bd = "build_topology encoding hints ?c i b ranges w"
  have bok: "build_ok ?bd nodes"
  proof (rule built_ok [OF cok, unfolded build_context_fields(1,2), OF meta])
    show "encoding = RAW_U32 \<or> encoding = PFOR_DELTA" "layout = ORIGINAL_ID \<or> cell_layout layout"
      using req by (auto simp: check_request_def)
    show "placement_ok layout (unat ?vb) vs (ci_cells i) ranges w" by (rule pl)
  qed (use u8 vs bg edges deg tgt small cells in auto)
  have bdf: "bd_encoding ?bd = encoding" "bd_base ?bd = ci_base i" "bd_vector_page_count ?bd = pw_pages_written w"
    "bd_vector_checksum ?bd = pw_checksum w" "bd_point_count ?bd = dm_point_count m"
    "bd_locations ?bd = pw_locations w" "bd_offsets ?bd = edge_offsets_of nodes" "bd_adjacency ?bd = concat nodes"
    by (simp_all add: build_topology_def Let_def bg)
  have wok: "writer_ok (unat ?vb) w" "pw_output_slot w = 0" using pl by (simp_all add: placement_ok_def)
  have load: "load_io_optimized_index pfor (Some disk) (Some topology) (Some vectors) False False 0
      = Inr (built_index ?bd (length topology))"
  proof (rule load_written(1) [OF bok _ wt sizes(1)])
    show "codec_fits pfor (bd_encoding ?bd) nodes" unfolding bdf by (rule codec_supports_fits [OF codec deg])
    show "fingerprint_file (Some disk) = Inr (bd_base ?bd)" unfolding bdf by (rule disk_fp)
    show "False \<or> fingerprint_file (Some vectors)
      = Inr \<lparr>fp_size = bd_vector_page_count ?bd * 4096, fp_checksum = bd_vector_checksum ?bd\<rparr>"
      unfolding bdf ve using fingerprint_written [OF wok(1) small] by simp
  qed
  show ?thesis
  proof (rule that [OF load i, of "unat ?vb"])
    show "ix_point_count (built_index ?bd (length topology)) = dm_point_count m" by (simp add: built_index_def bdf)
    show "unat ?vb = (if layout = CELL_U8_4K then unat (dm_dimension m) else unat (dm_dimension m) * 4)"
      using svb by (simp add: checked_multiply_iff)
    fix node :: u32
    assume n: "unat node < unat (dm_point_count m)"
    have le: "\<not> ucast node \<ge> dm_point_count m" using n by (simp add: not_le word_less_nat_alt)
    have "neighbors_resident (built_index ?bd (length topology)) node = Inr (nodes ! unat node)"
      using neighbor_slice_of_offsets [of "unat node" nodes] n vs edges le
      by (simp add: neighbors_resident_def Let_def built_index_def bdf)
    moreover have "vector_location (built_index ?bd (length topology)) node = Inr (pw_locations w ! unat node)"
      using le by (simp add: vector_location_def built_index_def bdf)
    moreover have "placed (unat ?vb) w node (vs ! unat node)"
    proof -
      have "\<forall>i < length vs. placed (unat ?vb) w (of_nat i) (vs ! i)" using pl unfolding placement_ok_def by blast
      from this [rule_format, of "unat node"] n vs(1) show ?thesis by (simp only: of_nat_unat ucast_id)
    qed
    then have "stored_vector vectors (unat ?vb) (pw_locations w ! unat node) = vs ! unat node"
      unfolding ve by (rule stored_vector_placed [OF _ wok(2,1) small context_okD(1) [OF cok]])
    ultimately show "\<exists>v nbrs l. record_holds (build_context m layout (dm_dimension m * 4) i) (unat node) (node_record m disk (unat node)) v nbrs
       \<and> neighbors_resident (built_index ?bd (length topology)) node = Inr nbrs
       \<and> vector_location (built_index ?bd (length topology)) node = Inr l \<and> stored_vector vectors (unat ?vb) l = v"
      using held [of "unat node"] n vs(1) by (auto simp: svb')
  qed
qed

subsection \<open>A small build\<close>

text \<open>Two nodes of dimension one that point at each other, 16 bytes a record, two records in a sector.\<close>

definition sample_header :: "u8 list" where
  "sample_header = le_bytes 4 (10 :: u32) @ le_bytes 4 (1 :: u32)
     @ concat (map (le_bytes 8) [2, 1, 0, 16, 2, 0, 0, 0 :: u64])"

definition sample_records :: "u8 list" where
  "sample_records = [7, 0, 0, 0, 1, 0, 0, 0, 1, 0, 0, 0, 0, 0, 0, 0, 9, 0, 0, 0, 1, 0, 0, 0, 0, 0, 0, 0, 0, 0, 0, 0]"

definition sample_base :: "u8 list" where
  "sample_base = sample_header @ replicate 4024 0 @ sample_records @ replicate 4064 0"

definition sample_metadata :: disk_layout_metadata_t where
  "sample_metadata = \<lparr>dm_point_count = 2, dm_dimension = 1, dm_max_node_len = 16, dm_nodes_per_sector = 2, dm_max_degree = 2\<rparr>"

lemma sample_base_metadata: "read_disk_layout_metadata (Some sample_base) = Inr sample_metadata"
proof -
  let ?rest = "replicate 4024 0 @ sample_records @ replicate 4064 0"
  let ?ws = "[2, 1, 0, 16, 2, 0, 0, 0 :: u64]"
  have l: "length [10, 1 :: u32] = 2" "length (concat (map (le_bytes 4) [10, 1 :: u32])) = 8"
    "length ?ws = 8" "length (concat (map (le_bytes 8) ?ws)) = 64" by simp_all
  have "drop 0 sample_base = concat (map (le_bytes 4) [10, 1 :: u32]) @ concat (map (le_bytes 8) ?ws) @ ?rest"
    by (simp add: sample_base_def sample_header_def)
  from u32_codec.read_many_enc [OF _ this]
  have r: "read_many (read_little 4) 2 sample_base 0 = Inr ([10, 1 :: u32], 8)" unfolding l by simp
  have "drop 8 sample_base = concat (map (le_bytes 8) ?ws) @ ?rest" by (simp add: sample_base_def sample_header_def)
  moreover have "8 \<le> length sample_base" by (simp add: sample_base_def sample_header_def)
  ultimately have w: "read_many (read_little 8) 8 sample_base 8 = Inr (?ws, 72)"
    using u64_codec.read_many_enc [of 8 sample_base ?ws ?rest] unfolding l by simp
  show ?thesis
    by (simp add: read_disk_layout_metadata_def r w guardE_def checked_multiply_def sample_metadata_def
        word_less_nat_alt unsigned_minus_1_eq_mask mask_eq_exp_minus_1)
qed

lemma sample_sector: "read_sector sample_base 4096 4096 = Inr (sample_records @ replicate 4064 0)"
proof -
  have "drop 4096 sample_base = sample_records @ replicate 4064 0"
    by (simp add: sample_base_def sample_header_def sample_records_def)
  then show ?thesis by (simp add: read_sector_def sample_records_def)
qed

definition sample_context :: "nat build_context_t" where
  "sample_context = build_context sample_metadata ORIGINAL_ID 4
     \<lparr>ci_cells = None, ci_fingerprint = \<lparr>fp_size = 0, fp_checksum = 0\<rparr>,
      ci_base = \<lparr>fp_size = of_nat (length sample_base), fp_checksum = fingerprint_loop sample_base k_fnv_offset_basis\<rparr>,
      ci_order = [], ci_rcni = [], ci_trim = []\<rparr>"

lemma sample_read: "\<exists>b. read_base sample_context sample_base = Inr b \<and> bg_offsets b = [0, 1, 2] \<and> bg_adjacency b = [1, 0]
  \<and> length (pw_file (bg_writer b)) = 0 \<and> pw_output_slot (bg_writer b) = 2 \<and> length (pw_output_page (bg_writer b)) = 4096
  \<and> pw_pages_written (bg_writer b) = 0 \<and> length (pw_locations (bg_writer b)) = 2"
  unfolding read_base_def
  by (simp add: sample_context_def build_context_def sample_metadata_def SECTOR_LEN_def sample_sector layout_defs
      sample_records_def append_record_def record_vector_def fetch_def guardE_def
      append_vector_def Let_def new_base_def new_writer_def blit_def empty_page_def le_value_def upt_conv_Cons k_io_vector_page_size_def word_le_nat_alt)

lemma sample_io_build: "\<exists>topology vectors result.
  io_build None False RAW_U32 ORIGINAL_ID True (None :: (exn + nat list) option) (Some sample_base) (Inl Runtime_error)
    = Inr (topology, vectors, result) \<and> length topology = 392 \<and> length vectors = 4096"
proof -
  obtain b where b: "read_base sample_context sample_base = Inr b" "bg_offsets b = [0, 1, 2]" "bg_adjacency b = [1, 0]"
    "length (pw_file (bg_writer b)) = 0" "pw_output_slot (bg_writer b) = 2" "length (pw_output_page (bg_writer b)) = 4096"
    "pw_pages_written (bg_writer b) = 0" "length (pw_locations (bg_writer b)) = 2" using sample_read by blast
  define i where "i = \<lparr>ci_cells = None, ci_fingerprint = \<lparr>fp_size = 0, fp_checksum = 0\<rparr>,
      ci_base = \<lparr>fp_size = of_nat (length sample_base), fp_checksum = fingerprint_loop sample_base k_fnv_offset_basis\<rparr>,
      ci_order = [], ci_rcni = [] :: nat list, ci_trim = []\<rparr>"
  have c: "build_context sample_metadata ORIGINAL_ID 4 i = sample_context" by (simp add: sample_context_def i_def)
  have ci: "cell_inputs ORIGINAL_ID sample_metadata (None :: (exn + nat list) option) (Some sample_base) (Inl Runtime_error) = Inr i"
    by (simp add: cell_inputs_def fingerprint_file_def i_def)
  let ?w = "flush_page (bg_writer b)"
  have w: "length (pw_file ?w) = 4096" "pw_pages_written ?w = 1" "length (pw_locations ?w) = 2"
    using b(4-8) by (simp_all add: flush_page_def write_page_def)
  have pv: "place_vectors sample_context i b = Inr ([], [0, 0, 0, 0], ?w)" by (simp add: place_vectors_def i_def)
  let ?bd = "build_topology RAW_U32 True sample_context i b [] ?w"
  have g: "bd_gateway_hints ?bd = []" "length (bd_prefetch_pages ?bd) = 2" "bd_offsets ?bd = [0, 1, 2]" "bd_adjacency ?bd = [1, 0]"
    "bd_locations ?bd = pw_locations ?w" "bd_vector_page_count ?bd = 1" "bd_encoding ?bd = RAW_U32" "bd_cell_ranges ?bd = []"
    by (simp_all add: build_topology_def Let_def gateway_hints_def prefetch_pages_def i_def b w sample_context_def
        build_context_def sample_metadata_def)
  have t: "\<exists>topology. write_topology None ?bd = Inr topology \<and> length topology = 392"
    by (simp add: write_topology_def encode_adjacency_def build_header_def payload_of_def g w
        checked_add_def checked_multiply_def k_topology_header_bytes_def k_io_vector_page_size_def
        length_sections Let_def payload_bytes_def length_serialize_header unat_minus_one)
  have sm: "dm_dimension sample_metadata = 1" "dm_point_count sample_metadata = 2" by (simp_all add: sample_metadata_def)
  have cm: "checked_multiply (1 :: u64) 4 = Inr 4" "checked_multiply (2 :: u64) 4 = Inr 8"
    "checked_multiply (1 :: u64) (ucast k_io_vector_page_size) = Inr 4096" by (simp_all add: checked_multiply_Inr k_io_vector_page_size_def)
  have ne: "ORIGINAL_ID \<noteq> CELL_U8_4K" by (simp add: layout_defs)
  have req: "check_request False RAW_U32 ORIGINAL_ID False False = Inr ()" by (simp add: check_request_def guardE_def encoding_defs)
  have "io_build None False RAW_U32 ORIGINAL_ID True (None :: (exn + nat list) option) (Some sample_base) (Inl Runtime_error)
      = bindE (write_topology None ?bd) (\<lambda>topology. Inr (topology, pw_file ?w,
            build_result 4 b [0, 0, 0, 0] ?bd (payload_of ?bd (bg_offsets b) (serialize_u32 (bg_adjacency b)))
              (of_nat (length topology)) 4096))"
    unfolding io_build_def sample_base_metadata
    by (simp add: sm cm ci c b(1) pv w ne req guardE_def encode_adjacency_def word_le_nat_alt word_less_nat_alt Let_def)
  with t w(1) show ?thesis by auto
qed

subsection \<open>Property\<close>



end
