(* ===== verification/IO_Paged.thy ===== *)
theory IO_Paged
  imports LRU_Clients IO_Guarantees
begin

text \<open>
  \<open>io_optimized_index_t::neighbors\<close> on a paged topology (src/index/io_optimized_index.cc): the adjacency stays in
  the file and its pages come through the page cache of \<open>io_lru_buffer_pool_t\<close>.  \<open>None\<close> stands for a wait
  that no other thread ends.  Reads that fail with an error of the operating system are not modelled; a read
  behind the end of the file returns nothing.
\<close>

subsection \<open>Pages through the cache\<close>

abbreviation pool_memory :: "io_lru_buffer_pool_t \<Rightarrow> u8 list" where
  "pool_memory s \<equiv> lv_frames (lp_frames s)"

definition frame_page :: "u64 option \<Rightarrow> io_lru_buffer_pool_t \<Rightarrow> u8 list" where
  "frame_page data s = (case data of None \<Rightarrow> [] | Some off \<Rightarrow> read_at (unat off) 4096 (pool_memory s))"

definition fill_frame :: "u64 option \<Rightarrow> u8 list \<Rightarrow> io_lru_buffer_pool_t \<Rightarrow> io_lru_buffer_pool_t" where
  "fill_frame data bytes s =
     (case data of None \<Rightarrow> s
      | Some off \<Rightarrow> s\<lparr>lp_frames := (lp_frames s)\<lparr>lv_frames := write_at (unat off) bytes (pool_memory s)\<rparr>\<rparr>)"

definition file_page :: "u8 list \<Rightarrow> u64 \<Rightarrow> u8 list" where
  "file_page file_bytes page_id = take 4096 (drop (unat (page_id * ucast k_io_vector_page_size)) file_bytes)"

text \<open>The \<open>pread\<close> loop and \<open>publish\<close> of a page that has to be loaded.\<close>

definition load_page ::
  "u8 list \<Rightarrow> io_cache_reservation_t \<Rightarrow> io_lru_buffer_pool_t \<Rightarrow> (io_lru_buffer_pool_t, unit) outcome" where
  "load_page file_bytes r s =
     (let bytes = file_page file_bytes (rs_page r); s1 = fill_frame (rs_data r) bytes s in
      if length bytes < 4096 then
        (case publish_one False r s1 of
           (Inl e, s2) \<Rightarrow> (Inl e, s2)
         | (Inr _, s2) \<Rightarrow> (Inl Runtime_error, s2))
      else publish_one True r s1)"

definition fetch_page ::
  "u8 list \<Rightarrow> u64 \<Rightarrow> io_lru_buffer_pool_t \<Rightarrow> (io_lru_buffer_pool_t, io_cache_reservation_t) outcome option" where
  "fetch_page file_bytes page_id s =
     (case reserve_attempt page_id DEMAND True False s of
        (Inl e, s1) \<Rightarrow> Some (Inl e, s1)
      | (Inr Wait, s1) \<Rightarrow> None
      | (Inr (Done r), s1) \<Rightarrow>
          if rs_state r = BYPASS then Some (Inl Runtime_error, s1)
          else if rs_state r = LOAD then
            (case load_page file_bytes r s1 of
               (Inl e, s2) \<Rightarrow> Some (Inl e, s2)
             | (Inr _, s2) \<Rightarrow> Some (Inr r, s2))
          else Some (Inr r, s1))"

text \<open>The copy loop; \<open>scratch\<close> holds what is copied so far.\<close>

definition copy_count :: "u64 \<Rightarrow> u64 \<Rightarrow> u64 \<Rightarrow> u64" where
  "copy_count first_byte byte_count copied =
     min (byte_count - copied) (ucast k_io_vector_page_size - (first_byte + copied) mod ucast k_io_vector_page_size)"

lemma page_size_u64: "(ucast k_io_vector_page_size :: u64) = 4096"
  by (simp add: k_io_vector_page_size_def)

lemma unat_page_mod: "unat ((a :: u64) mod 4096) = unat a mod 4096"
  by (simp add: unat_mod)

lemma unat_copy_count:
  assumes "copied < byte_count"
  shows "unat (copy_count first_byte byte_count copied)
    = min (unat byte_count - unat copied) (4096 - unat (first_byte + copied) mod 4096)"
proof -
  have "copied \<le> byte_count" using assms by simp
  then have "unat (byte_count - copied) = unat byte_count - unat copied" by (rule unat_sub)
  moreover have "(first_byte + copied) mod 4096 \<le> 4096"
    by (simp add: word_le_nat_alt unat_page_mod less_imp_le)
  then have "unat (4096 - (first_byte + copied) mod 4096) = 4096 - unat (first_byte + copied) mod 4096"
    by (subst unat_sub) (simp_all add: unat_page_mod)
  ultimately show ?thesis by (auto simp: copy_count_def page_size_u64 min_def word_le_nat_alt)
qed

lemma copy_count_step:
  assumes "copied < byte_count"
  shows "unat (copied + copy_count first_byte byte_count copied) = unat copied + unat (copy_count first_byte byte_count copied)"
    "0 < unat (copy_count first_byte byte_count copied)"
    "unat copied + unat (copy_count first_byte byte_count copied) \<le> unat byte_count"
proof -
  have lt: "unat copied < unat byte_count" using assms by (simp add: word_less_nat_alt)
  show "0 < unat (copy_count first_byte byte_count copied)" unfolding unat_copy_count [OF assms] using lt by simp
  show le: "unat copied + unat (copy_count first_byte byte_count copied) \<le> unat byte_count"
    unfolding unat_copy_count [OF assms] using lt by simp
  have "unat copied + unat (copy_count first_byte byte_count copied) < 18446744073709551616"
    by (rule le_less_trans [OF le unat_u64_less])
  then show "unat (copied + copy_count first_byte byte_count copied) = unat copied + unat (copy_count first_byte byte_count copied)"
    using unat_add_lem [of copied "copy_count first_byte byte_count copied"] by simp
qed

function copy_pages ::
  "u8 list \<Rightarrow> u64 \<Rightarrow> u64 \<Rightarrow> u64 \<Rightarrow> u8 list \<Rightarrow> io_lru_buffer_pool_t \<Rightarrow> (io_lru_buffer_pool_t, u8 list) outcome option" where
  "copy_pages file_bytes first_byte byte_count copied scratch s =
     (if copied < byte_count then
        let absolute = first_byte + copied;
            page_offset = unat (absolute mod ucast k_io_vector_page_size);
            n = copy_count first_byte byte_count copied in
        (case fetch_page file_bytes (absolute div ucast k_io_vector_page_size) s of
           None \<Rightarrow> None
         | Some (Inl e, s1) \<Rightarrow> Some (Inl e, s1)
         | Some (Inr r, s1) \<Rightarrow>
             let bytes = take (unat n) (drop page_offset (frame_page (rs_data r) s1)) in
             (case release_one r s1 of
                (Inl e, s2) \<Rightarrow> Some (Inl e, s2)
              | (Inr _, s2) \<Rightarrow> copy_pages file_bytes first_byte byte_count (copied + n) (scratch @ bytes) s2))
      else Some (Inr scratch, s))"
  by pat_completeness auto
termination
proof (relation "measure (\<lambda>(f, a, n, c, x, s). unat n - unat c)", goal_cases)
  case (2 file_bytes first_byte byte_count copied)
  then show ?case using copy_count_step [OF 2(1), of first_byte] by simp
qed simp

declare copy_pages.simps [simp del]

text \<open>\<open>degree * sizeof(uint32_t)\<close> bytes from the first edge of the node on.\<close>

definition neighbors_paged ::
  "u8 list \<Rightarrow> io_optimized_index_t \<Rightarrow> u32 \<Rightarrow> io_lru_buffer_pool_t \<Rightarrow> (io_lru_buffer_pool_t, u32 list) outcome option" where
  "neighbors_paged file_bytes ix node_id s =
     (let begin = ix_neighbor_offsets ix ! unat node_id; fin = ix_neighbor_offsets ix ! (unat node_id + 1);
          degree = fin - begin in
      if degree = 0 then Some (Inr [], s)
      else
        (case copy_pages file_bytes (ix_adjacency_file_offset ix + begin * 4) (degree * 4) 0 [] s of
           None \<Rightarrow> None
         | Some (Inl e, s1) \<Rightarrow> Some (Inl e, s1)
         | Some (Inr scratch, s1) \<Rightarrow> Some (Inr (buffer_targets scratch), s1)))"

definition neighbors ::
  "u8 list \<Rightarrow> io_optimized_index_t \<Rightarrow> u32 \<Rightarrow> io_lru_buffer_pool_t \<Rightarrow> (io_lru_buffer_pool_t, u32 list) outcome option" where
  "neighbors file_bytes ix node_id s =
     (if ucast node_id \<ge> ix_point_count ix then Some (Inl Out_of_range, s)
      else if ix_paged_topology ix then neighbors_paged file_bytes ix node_id s
      else Some (neighbors_resident ix node_id, s))"

end
