(* ===== verification/IO_Paged_Correct.thy ===== *)
theory IO_Paged_Correct
  imports IO_Paged IO_Write
begin

text \<open>
  The paged \<open>neighbors\<close> returns what the resident one returns, from every state its page cache can have
  between calls, as long as the file holds the pages of the node in full; else it throws and leaves the
  cache in such a state.
\<close>

subsection \<open>Frames and their memory\<close>

definition placed :: "io_lru_buffer_pool_t \<Rightarrow> u64 \<Rightarrow> nat option" where
  "placed s p = map_option re_frame (map_of (lp_resident s) p)"

definition same_memory :: "io_lru_buffer_pool_t \<Rightarrow> io_lru_buffer_pool_t \<Rightarrow> bool" where
  "same_memory s u \<longleftrightarrow> pool_memory u = pool_memory s
     \<and> map c_data (lv_chunks (lp_frames u)) = map c_data (lv_chunks (lp_frames s))"

text \<open>The operations of the cache write no frame and move no page; they may drop a page.\<close>

definition keeps :: "io_lru_buffer_pool_t \<Rightarrow> io_lru_buffer_pool_t \<Rightarrow> bool" where
  "keeps s u \<longleftrightarrow> same_memory s u \<and> (\<forall>p f. placed u p = Some f \<longrightarrow> placed s p = Some f)"

lemma keeps_refl [simp]: "keeps s s"
  by (simp add: keeps_def same_memory_def)

lemma keeps_trans [trans]: "keeps s t \<Longrightarrow> keeps t u \<Longrightarrow> keeps s u"
  by (simp add: keeps_def same_memory_def)

lemma keeps_simps [simp]:
  "keeps s (u\<lparr>lp_stats := a\<rparr>) = keeps s u" "keeps s (u\<lparr>lp_credit := b\<rparr>) = keeps s u"
  "keeps s (u\<lparr>lp_loading := c\<rparr>) = keeps s u" "keeps s (u\<lparr>lp_free := d\<rparr>) = keeps s u"
  by (simp_all add: keeps_def same_memory_def placed_def)

lemma same_memory_upd:
  assumes "\<And>c. c_data (g c) = c_data c"
  shows "same_memory s (upd_frame f g s)"
proof (cases "f < length (lv_chunks (lp_frames s))")
  case True
  then show ?thesis by (simp add: same_memory_def upd_frame_def map_update assms frame_at_def list_update_same_conv)
next
  case False
  then show ?thesis by (simp add: same_memory_def upd_frame_def list_update_beyond)
qed

lemma keeps_upd: "(\<And>c. c_data (g c) = c_data c) \<Longrightarrow> keeps s (upd_frame f g s)"
  by (simp add: keeps_def same_memory_upd placed_def)

lemma keeps_pin [simp]: "keeps s (pin f s)" "keeps s (unpin f s)"
  unfolding pin_def unpin_def by (rule keeps_upd, simp add: inc_pin_count_def dec_pin_count_def)+

lemma same_memory_frame:
  assumes "same_memory s u"
  shows "n_frames u = n_frames s" "f < n_frames s \<Longrightarrow> c_data (frame_at u f) = c_data (frame_at s f)"
proof -
  have m: "map c_data (lv_chunks (lp_frames u)) = map c_data (lv_chunks (lp_frames s))"
    using assms by (simp add: same_memory_def)
  from map_eq_imp_length_eq [OF m] show n: "n_frames u = n_frames s" by (simp add: n_frames_def)
  show "c_data (frame_at u f) = c_data (frame_at s f)" if "f < n_frames s"
    using arg_cong [OF m, of "\<lambda>xs. xs ! f"] that n by (simp add: frame_at_def n_frames_def)
qed

lemma hit_resident_keeps:
  assumes "map_of (lp_resident s) page = Some e" "hit_resident page access coalesced e s = (res, u)"
  shows "keeps s u"
proof -
  have "keeps (pin (re_frame e) s) u"
    using assms by (auto simp: hit_resident_def Let_def keeps_def same_memory_def placed_def update_conv'
        pin_def split: if_splits)
  with keeps_pin(1) show ?thesis by (rule keeps_trans)
qed

lemma select_victim_keeps: "select_victim b s = (res, u) \<Longrightarrow> keeps s u"
  by (auto simp: select_victim_def Let_def keeps_def same_memory_def placed_def delete_conv'
      split: option.splits if_splits)

lemma prefetch_demand_victim_keeps:
  assumes "prefetch_demand_victim access s = (res, u)"
  shows "keeps s u"
proof -
  obtain r v where v: "select_victim False s = (r, v)" by fastforce
  from select_victim_keeps [OF this] assms show ?thesis
    by (auto simp: prefetch_demand_victim_def v split: if_splits sum.splits option.splits)
qed

lemma choose_victim_keeps:
  assumes "choose_victim access s = (res, u)"
  shows "keeps s u"
proof (cases "is_prefetch access")
  case True
  define first where "first = (if lp_unused_count s \<noteq> 0 then select_victim True s else (Inr None, s))"
  obtain r v where v: "first = (r, v)" by fastforce
  have "keeps s v" using v select_victim_keeps unfolding first_def by (auto split: if_splits)
  moreover have "keeps v u"
    using assms True unfolding choose_victim_def first_def [symmetric] v
    by (auto intro: prefetch_demand_victim_keeps split: sum.splits option.splits)
  ultimately show ?thesis by (rule keeps_trans)
qed (use assms select_victim_keeps in \<open>auto simp: choose_victim_def\<close>)

lemma choose_frame_keeps:
  assumes "choose_frame access s = (res, u)"
  shows "keeps s u"
  using assms choose_victim_keeps
  by (auto simp: choose_frame_def split: if_splits prod.splits sum.splits)

lemma keeps_label: "keeps s (upd_frame f (\<lambda>c. c\<lparr>c_id := i, c_state := st\<rparr>) s)"
  by (rule keeps_upd) simp

lemma keeps_state: "keeps s (upd_frame f (\<lambda>c. c\<lparr>c_state := st\<rparr>) s)"
  by (rule keeps_upd) simp

lemma reserve_attempt_keeps:
  assumes "reserve_attempt page access w coalesced s = (res, u)"
  shows "keeps s u"
proof (cases "map_of (lp_resident s) page")
  case (Some e)
  with assms show ?thesis
    by (auto simp: reserve_attempt_def intro: hit_resident_keeps split: prod.splits sum.splits)
next
  case None
  define s1 where "s1 = (if is_prefetch access
      then count_stat (\<lambda>st. st\<lparr>prefetch_misses := prefetch_misses st + 1\<rparr>) s
      else count_stat (\<lambda>st. st\<lparr>stat_misses := stat_misses st + 1\<rparr>) s)"
  have k1: "keeps s s1" by (simp add: s1_def)
  obtain r s2 where c: "choose_frame access s1 = (r, s2)" by fastforce
  from keeps_trans [OF k1 choose_frame_keeps [OF c]] have k2: "keeps s s2" .
  have k3: "keeps s (pin f (upd_frame f (\<lambda>c. c\<lparr>c_id := i, c_state := State_free\<rparr>) s2))" for f i
    by (rule keeps_trans [OF k2 keeps_trans [OF keeps_label keeps_pin(1)]])
  show ?thesis
    using assms None k1 k2 c k3 unfolding reserve_attempt_def s1_def [symmetric] Let_def
    by (auto split: if_splits sum.splits option.splits)
qed

lemma publish_one_keeps:
  assumes "publish_one success r s = (res, u)"
  shows "same_memory s u"
proof -
  have m: "keeps s v \<Longrightarrow> same_memory s v" for v by (simp add: keeps_def)
  have k: "keeps s (upd_frame f (\<lambda>c. c\<lparr>c_state := st\<rparr>) (s\<lparr>lp_loading := al\<rparr>))" for f st al
    by (rule keeps_trans [OF _ keeps_state]) simp
  have k2: "keeps s (unpin f (upd_frame f (\<lambda>c. c\<lparr>c_state := st\<rparr>) (s\<lparr>lp_loading := al\<rparr>)))" for f st al
    by (rule keeps_trans [OF k keeps_pin(2)])
  from assms m [OF k] m [OF k2] show ?thesis
    by (auto simp: publish_one_def Let_def same_memory_def split: option.splits if_splits)
qed

lemma reserve_attempt_data:
  assumes "reserve_attempt page access w coalesced s = (Inr (Done r), u)" "rs_frame r = Some f" "f < n_frames s"
  shows "rs_data r = c_data (frame_at s f)"
proof -
  have "\<exists>v. keeps s v \<and> rs_data r = c_data (frame_at v f)"
  proof (cases "map_of (lp_resident s) page")
    case (Some e)
    with assms have "keeps s s \<and> rs_data r = c_data (frame_at s f)"
      by (auto simp: reserve_attempt_def hit_resident_def Let_def split: if_splits)
    then show ?thesis by blast
  next
    case None
    then have "rs_data r = c_data (frame_at u f)"
      using assms(1,2)
      by (auto simp: reserve_attempt_def Let_def bypass_def split: if_splits prod.splits sum.splits option.splits)
    with reserve_attempt_keeps [OF assms(1)] show ?thesis by blast
  qed
  with same_memory_frame(2) [OF _ assms(3)] show ?thesis by (auto simp: keeps_def)
qed

lemma choose_frame_some:
  assumes inv: "lru_inv [] [] s" and l: "lp_loading s = []" and n: "n_frames s \<noteq> 0"
  shows "choose_frame DEMAND s \<noteq> (Inr None, u)"
proof (cases "lp_free s = []")
  case True
  note sh = lru_invD(1) [OF inv]
  have "lp_resident s \<noteq> []"
    using lru_shape_owned(3) [OF sh] n l True by (auto simp: owned_def)
  with lru_shapeD(7) [OF sh] obtain p where p: "p \<in> set (lp_lru s)" by (cases "lp_resident s") auto
  then obtain e where e: "map_of (lp_resident s) p = Some e"
    using lru_shapeD(7) [OF sh] by (metis map_of_eq_None_keys option.exhaust)
  have "c_pin_count (frame_at s (re_frame e)) = 0"
    using lru_invD(2) [OF inv] resident_frame(1) [OF sh e] l by (simp add: lru_pins_def held_def)
  with e have el: "eligible False s p" by (simp add: eligible_def)
  from inv obtain f v where "select_victim False s = (Inr (Some f), v)"
    by (cases rule: select_victim_correct [of "[]" "[]" s False]) (use p el in auto)
  then show ?thesis using True by (simp add: choose_frame_def choose_victim_def is_prefetch_def)
qed (simp add: choose_frame_def)

lemma reserve_not_refused:
  assumes "lru_inv [] [] s" "lp_loading s = []" "n_frames s \<noteq> 0" "page \<notin> resident_pages s"
  shows "reserve_attempt page DEMAND w False s \<noteq> (Inr (Done (bypass page c DEMAND)), u)"
proof -
  define s1 where "s1 = count_stat (\<lambda>st. st\<lparr>stat_misses := stat_misses st + 1\<rparr>) s"
  have "map_of (lp_resident s) page = None"
    using assms(4) by (simp add: resident_pages_def map_of_eq_None_keys)
  moreover have "lp_capacity s \<noteq> 0"
    using lru_shapeD(1) [OF lru_invD(1) [OF assms(1)]] assms(3) by auto
  moreover have "choose_frame DEMAND s1 \<noteq> (Inr None, v)" for v
    by (rule choose_frame_some) (use assms in \<open>simp_all add: s1_def\<close>)
  ultimately show ?thesis
    using assms(2) unfolding reserve_attempt_def s1_def
    by (auto simp: Let_def is_prefetch_def bypass_def split: sum.splits option.splits prod.splits)
qed

subsection \<open>The cache between and during calls\<close>

text \<open>The bytes of a frame, and a cache whose resident frames hold the pages of the file.\<close>

definition frame_bytes :: "nat \<Rightarrow> io_lru_buffer_pool_t \<Rightarrow> u8 list" where
  "frame_bytes f s = read_at (f * 4096) 4096 (pool_memory s)"

definition topology_cache_ok :: "u8 list \<Rightarrow> (u64 \<times> nat) list \<Rightarrow> io_lru_buffer_pool_t \<Rightarrow> bool" where
  "topology_cache_ok file_bytes pins s \<longleftrightarrow> lru_inv [] pins s \<and> lp_loading s = [] \<and> n_frames s \<noteq> 0
     \<and> n_frames s * 4096 < 18446744073709551616
     \<and> (\<forall>f < n_frames s. c_data (frame_at s f) = Some (of_nat (f * 4096)))
     \<and> (\<forall>p f. placed s p = Some f \<longrightarrow> frame_bytes f s = file_page file_bytes p)"

lemma frame_bytes_same: "pool_memory u = pool_memory s \<Longrightarrow> frame_bytes f u = frame_bytes f s"
  by (simp add: frame_bytes_def)

lemma topology_cache_keeps:
  assumes "topology_cache_ok file_bytes pins s" "keeps s u" "lru_inv [] pins' u" "lp_loading u = []"
  shows "topology_cache_ok file_bytes pins' u"
  using assms same_memory_frame [of s u] unfolding topology_cache_ok_def keeps_def
  by (auto simp: same_memory_def frame_bytes_def)

lemma read_written:
  "length bytes = n \<Longrightarrow> read_at off n (write_at off bytes m) = bytes"
  by (rule nth_equalityI) (simp_all add: nth_read_at byte_at_write_at)

lemma lru_inv_memory [simp]:
  "lru_inv loose pins (s\<lparr>lp_frames := (lp_frames s)\<lparr>lv_frames := m\<rparr>\<rparr>) = lru_inv loose pins s"
  by (simp add: lru_inv_def lru_shape_def lru_pins_def lru_labels_def owned_def held_def n_frames_def frame_at_def)

lemma frame_page_at:
  assumes "topology_cache_ok file_bytes pins s" "f < n_frames s"
  shows "frame_page (c_data (frame_at s f)) s = frame_bytes f s"
    "fill_frame (c_data (frame_at s f)) bytes s
      = s\<lparr>lp_frames := (lp_frames s)\<lparr>lv_frames := write_at (f * 4096) bytes (pool_memory s)\<rparr>\<rparr>"
proof -
  have "f * 4096 < 18446744073709551616" using assms by (auto simp: topology_cache_ok_def)
  then have "unat (of_nat (f * 4096) :: u64) = f * 4096" by (simp add: unat_of_nat take_bit_nat_eq_self del: of_nat_mult)
  moreover have "c_data (frame_at s f) = Some (of_nat (f * 4096))" using assms by (simp add: topology_cache_ok_def)
  ultimately show "frame_page (c_data (frame_at s f)) s = frame_bytes f s"
    "fill_frame (c_data (frame_at s f)) bytes s
      = s\<lparr>lp_frames := (lp_frames s)\<lparr>lv_frames := write_at (f * 4096) bytes (pool_memory s)\<rparr>\<rparr>"
    by (simp_all add: frame_page_def frame_bytes_def fill_frame_def del: of_nat_mult)
qed

lemma placed_publish:
  assumes "publish_one success r s = (Inr (), u)" "rs_frame r = Some f" "placed u p = Some g"
  shows "placed s p = Some g \<or> (success \<and> p = rs_page r \<and> g = f)"
  using assms
  by (auto simp: publish_one_def Let_def placed_def emplace_def unpin_def split: if_splits)

lemma load_page_correct:
  assumes inv: "topology_cache_ok file_bytes [] s" and l: "map_of (lp_loading u) p = Some f" "lp_loading u = [(p, f)]"
    and k: "keeps s u" and iu: "lru_inv [] [] u"
    and r: "rs_state r = LOAD" "rs_page r = p" "rs_frame r = Some f" "rs_data r = c_data (frame_at s f)"
  obtains v where "load_page file_bytes r u
      = (if length (file_page file_bytes p) < 4096 then Inl Runtime_error else Inr (), v)"
    "topology_cache_ok file_bytes (if length (file_page file_bytes p) < 4096 then [] else [(p, f)]) v"
    "\<not> length (file_page file_bytes p) < 4096 \<Longrightarrow> frame_bytes f v = file_page file_bytes p"
proof -
  let ?b = "file_page file_bytes p"
  let ?ok = "\<not> length ?b < 4096"
  note lf = loading_frame [OF lru_invD(1) [OF iu] l(1)]
  have n: "n_frames u = n_frames s" and m: "pool_memory u = pool_memory s"
    using k same_memory_frame(1) [of s u] by (simp_all add: keeps_def same_memory_def)
  define w where "w = u\<lparr>lp_frames := (lp_frames u)\<lparr>lv_frames := write_at (f * 4096) ?b (pool_memory u)\<rparr>\<rparr>"
  have fill: "fill_frame (rs_data r) ?b u = w"
  proof -
    have lt: "f * 4096 < 18446744073709551616" using inv lf(1) n by (auto simp: topology_cache_ok_def)
    then have "unat (of_nat (f * 4096) :: u64) = f * 4096"
      by (simp add: unat_of_nat take_bit_nat_eq_self del: of_nat_mult)
    moreover have "rs_data r = Some (of_nat (f * 4096))"
      using inv lf(1) n r(4) by (simp add: topology_cache_ok_def)
    ultimately show ?thesis by (simp add: fill_frame_def w_def del: of_nat_mult)
  qed
  have iw: "lru_inv [] [] w" "map_of (lp_loading w) p = Some f" using iu l by (simp_all add: w_def)
  have "length ([] :: (u64 \<times> nat) list) + 2 < 2 ^ 64" by simp
  from publish_correct [OF iw r(1-3) this] obtain v where v: "publish_one ?ok r w = (Inr (), v)"
    "lru_inv [] (if ?ok then [(p, f)] else []) v" "lp_loading v = AList.delete p (lp_loading w)" .
  have mv: "same_memory w v" by (rule publish_one_keeps [OF v(1)])
  have fr: "c_data (frame_at v g) = Some (of_nat (g * 4096))" if "g < n_frames s" for g
  proof -
    have "c_data (frame_at v g) = c_data (frame_at u g)"
      using same_memory_frame(2) [OF mv, of g] that n by (simp add: w_def frame_at_def n_frames_def)
    also have "\<dots> = c_data (frame_at s g)" using k same_memory_frame(2) [of s u g] that by (simp add: keeps_def)
    finally show ?thesis using inv that by (simp add: topology_cache_ok_def)
  qed
  have nv: "n_frames v = n_frames s"
    using same_memory_frame(1) [OF mv] n by (simp add: w_def n_frames_def)
  have bytes: "frame_bytes f v = ?b" if ?ok
    using that mv by (simp add: frame_bytes_def same_memory_def w_def read_written file_page_def)
  have other: "frame_bytes g v = frame_bytes g s" if "g \<noteq> f" for g
  proof -
    have "g * 4096 + 4096 \<le> f * 4096 \<or> f * 4096 + length ?b \<le> g * 4096"
    proof (cases "g < f")
      case True
      then show ?thesis by simp
    next
      case False
      then have "f + 1 \<le> g" using that by simp
      moreover have "length ?b \<le> 4096" by (simp add: file_page_def)
      ultimately show ?thesis by linarith
    qed
    then show ?thesis
      using mv m by (simp add: frame_bytes_def same_memory_def w_def read_at_write_at_disjoint)
  qed
  have co: "frame_bytes g v = file_page file_bytes q" if pg: "placed v q = Some g" for q g
  proof -
    consider "placed w q = Some g" | "?ok" "q = p" "g = f"
      using placed_publish [OF v(1) r(3) pg] r(2) by auto
    then show ?thesis
    proof cases
      case 1
      then have pu: "placed u q = Some g" by (simp add: w_def placed_def)
      then have "g \<noteq> f" using lf(4) by (auto simp: placed_def)
      moreover have "placed s q = Some g" using k pu by (simp add: keeps_def)
      ultimately show ?thesis using other inv by (simp add: topology_cache_ok_def)
    next
      case 2
      then show ?thesis using bytes by simp
    qed
  qed
  have "topology_cache_ok file_bytes (if ?ok then [(p, f)] else []) v"
    using inv v(2) v(3) l(2) nv fr co by (auto simp: topology_cache_ok_def w_def)
  moreover have "load_page file_bytes r u = (if ?ok then Inr () else Inl Runtime_error, v)"
    using v(1) r(2) fill by (auto simp: load_page_def Let_def split: if_splits)
  ultimately show ?thesis using that [of v] bytes by (simp split: if_splits)
qed

text \<open>A page that the file does not hold in full is never resident.\<close>

lemma resident_complete:
  assumes "topology_cache_ok file_bytes pins s" "page \<in> resident_pages s"
  shows "length (file_page file_bytes page) = 4096"
proof -
  from assms(2) obtain e where "map_of (lp_resident s) page = Some e"
    unfolding resident_pages_def by (metis map_of_eq_None_keys option.exhaust)
  then have "frame_bytes (re_frame e) s = file_page file_bytes page"
    using assms(1) by (auto simp: topology_cache_ok_def placed_def)
  then show ?thesis by (metis frame_bytes_def length_read_at)
qed

lemma fetch_page_correct:
  assumes inv: "topology_cache_ok file_bytes [] s" and small: "unat page < 2 ^ 62"
  shows "if length (file_page file_bytes page) < 4096
    then \<exists>v. fetch_page file_bytes page s = Some (Inl Runtime_error, v) \<and> topology_cache_ok file_bytes [] v
    else \<exists>r f v. fetch_page file_bytes page s = Some (Inr r, v) \<and> topology_cache_ok file_bytes [(page, f)] v
      \<and> rs_frame r = Some f \<and> rs_state r \<noteq> BYPASS \<and> frame_page (rs_data r) v = file_page file_bytes page"
proof -
  have i: "lru_inv [] [] s" "lp_loading s = []" "n_frames s \<noteq> 0"
    using inv by (simp_all add: topology_cache_ok_def)
  have len: "length ([] :: (u64 \<times> nat) list) + 2 < 2 ^ 64" by simp
  from i(1) small len show ?thesis
  proof (cases rule: reserve_attempt_correct [where access = DEMAND and wt = True and coalesced = False])
    case (hit r u e)
    have res: "page \<in> resident_pages s"
      using hit(1) unfolding resident_pages_def by (metis map_of_eq_None_keys option.distinct(1))
    have c: "length (file_page file_bytes page) = 4096" by (rule resident_complete [OF inv res])
    have k: "keeps s u" by (rule reserve_attempt_keeps [OF hit(2)])
    have u: "topology_cache_ok file_bytes [(page, re_frame e)] u"
      by (rule topology_cache_keeps [OF inv k hit(3)]) (use hit(4) i(2) in \<open>simp add: same_pages_def\<close>)
    have fe: "re_frame e < n_frames s" by (rule resident_frame(1) [OF lru_invD(1) [OF i(1)] hit(1)])
    have "frame_page (rs_data r) u = frame_bytes (re_frame e) u"
      using frame_page_at(1) [OF u, of "re_frame e"] same_memory_frame [of s u] k fe
        reserve_attempt_data [OF hit(2,7) fe] by (simp add: keeps_def)
    also have "\<dots> = file_page file_bytes page"
      using inv k hit(1) by (auto simp: topology_cache_ok_def placed_def keeps_def same_memory_def frame_bytes_def)
    finally show ?thesis using c u hit by (simp add: fetch_page_def)
  next
    case (busy u)
    then show ?thesis using i(2) by (simp add: loading_pages_def)
  next
    case (refused u)
    then show ?thesis using reserve_not_refused [OF i] by blast
  next
    case (load r u f evicted)
    have k: "keeps s u" by (rule reserve_attempt_keeps [OF load(3)])
    have lu: "lp_loading u = [(page, f)]" "map_of (lp_loading u) page = Some f" using load(5) i(2) by simp_all
    have "f < n_frames u" by (rule loading_frame(1) [OF lru_invD(1) [OF load(4)] lu(2)])
    then have f: "f < n_frames s" using same_memory_frame(1) [of s u] k by (simp add: keeps_def)
    from load_page_correct [OF inv lu(2,1) k load(4) load(7-9) reserve_attempt_data [OF load(3,9) f]]
    obtain v where v: "load_page file_bytes r u
        = (if length (file_page file_bytes page) < 4096 then Inl Runtime_error else Inr (), v)"
      "topology_cache_ok file_bytes (if length (file_page file_bytes page) < 4096 then [] else [(page, f)]) v"
      "\<not> length (file_page file_bytes page) < 4096 \<Longrightarrow> frame_bytes f v = file_page file_bytes page" by metis
    have "frame_page (rs_data r) v = file_page file_bytes page" if ok: "\<not> length (file_page file_bytes page) < 4096"
    proof -
      have w: "topology_cache_ok file_bytes [(page, f)] v" using v(2) ok by simp
      then have nv: "f < n_frames v"
        using lru_invD(2) [of "[]" "[(page, f)]" v] resident_frame(1) lru_invD(1)
        unfolding topology_cache_ok_def lru_pins_def by fastforce
      have "rs_data r = c_data (frame_at v f)"
        using reserve_attempt_data [OF load(3,9) f] inv w f nv by (simp add: topology_cache_ok_def)
      with frame_page_at(1) [OF w nv] v(3) [OF ok] show ?thesis by simp
    qed
    then show ?thesis using v(1,2) load(3,7,9) by (simp add: fetch_page_def split: if_splits)
  qed
qed

lemma release_fetched:
  assumes "topology_cache_ok file_bytes [(page, f)] s" "rs_frame r = Some f" "rs_state r \<noteq> BYPASS"
  obtains u where "release_one r s = (Inr (), u)" "topology_cache_ok file_bytes [] u"
proof -
  have i: "lru_inv [] [(page, f)] s" using assms(1) by (simp add: topology_cache_ok_def)
  from unpin_resident [OF i, of page f] have u: "lru_inv [] [] (unpin f s)" "c_pin_count (frame_at s f) \<noteq> 0" by simp_all
  have "topology_cache_ok file_bytes [] (unpin f s)"
    by (rule topology_cache_keeps [OF assms(1) keeps_pin(2) u(1)])
      (use assms(1) in \<open>simp add: topology_cache_ok_def unpin_def\<close>)
  moreover have "release_one r s = (Inr (), unpin f s)" using assms(2,3) u(2) by (simp add: release_one_def)
  ultimately show ?thesis by (rule that [rotated])
qed

subsection \<open>The copy loop\<close>

text \<open>The end of the last page that holds one of the \<open>n\<close> bytes from \<open>first\<close> on.\<close>

definition page_end :: "nat \<Rightarrow> nat \<Rightarrow> nat" where
  "page_end first n = ((first + n - 1) div 4096 + 1) * 4096"

lemma length_file_page:
  "length (file_page file_bytes page) < 4096 \<longleftrightarrow> length file_bytes < (unat page + 1) * 4096"
  if "unat page * 4096 < 18446744073709551616"
proof -
  have "unat (page * ucast k_io_vector_page_size) = unat page * 4096"
    using that unat_mult_lem [of page 4096] by (simp add: page_size_u64)
  then show ?thesis by (auto simp: file_page_def)
qed

lemma file_page_bytes:
  assumes "unat page = a div 4096" "a < 18446744073709551616" "n \<le> 4096 - a mod 4096"
  shows "take n (drop (a mod 4096) (file_page file_bytes page)) = take n (drop a file_bytes)"
proof -
  have "unat page * 4096 < 18446744073709551616"
    using assms(1,2) by (metis div_times_less_eq_dividend le_less_trans)
  then have "unat (page * ucast k_io_vector_page_size) = a div 4096 * 4096"
    using unat_mult_lem [of page 4096] assms(1) by (simp add: page_size_u64)
  moreover have "a mod 4096 + a div 4096 * 4096 = a" by (rule mod_div_mult_eq)
  ultimately show ?thesis using assms(3) by (simp add: file_page_def drop_take min_def)
qed

lemma copy_pages_correct:
  assumes "topology_cache_ok file_bytes [] s" "unat first_byte + unat byte_count < 18446744073709551616"
    "copied \<le> byte_count"
  shows "\<exists>v. topology_cache_ok file_bytes [] v \<and> copy_pages file_bytes first_byte byte_count copied scratch s
    = Some (if copied < byte_count \<and> length file_bytes < page_end (unat first_byte) (unat byte_count) then Inl Runtime_error
        else Inr (scratch @ take (unat byte_count - unat copied) (drop (unat first_byte + unat copied) file_bytes)), v)"
  using assms(1,3)
proof (induction "unat byte_count - unat copied" arbitrary: copied scratch s rule: less_induct)
  case less
  show ?case
  proof (cases "copied < byte_count")
    case False
    with less.prems(2) have "copied = byte_count" by simp
    then show ?thesis using less.prems(1) by (simp add: copy_pages.simps [of file_bytes first_byte byte_count byte_count])
  next
    case True
    define a where "a = unat first_byte + unat copied"
    define page where "page = (first_byte + copied) div 4096"
    define n where "n = copy_count first_byte byte_count copied"
    note lt = True [unfolded word_less_nat_alt]
    have a: "unat (first_byte + copied) = a" "a < 18446744073709551616"
      using unat_add_lem [of first_byte copied] lt assms(2) by (simp_all add: a_def)
    have p: "unat page = a div 4096" by (simp add: page_def unat_div a)
    have psm: "unat page * 4096 < 18446744073709551616"
      using a(2) p by (metis div_times_less_eq_dividend le_less_trans)
    have nn: "unat n = min (unat byte_count - unat copied) (4096 - a mod 4096)"
      by (simp add: n_def unat_copy_count [OF True] a)
    note step = copy_count_step [OF True, of first_byte, folded n_def]
    have whole: "page_end (unat first_byte) (unat byte_count) \<ge> (a div 4096 + 1) * 4096"
    proof -
      have "a \<le> unat first_byte + unat byte_count - 1" using lt by (simp add: a_def)
      then show ?thesis by (simp add: page_end_def div_le_mono)
    qed
    note unfold = copy_pages.simps [of file_bytes first_byte byte_count copied scratch s,
        unfolded Let_def page_size_u64 unat_page_mod a, folded page_def n_def]
    show ?thesis
    proof (cases "length (file_page file_bytes page) < 4096")
      case short: True
      with fetch_page_correct [OF less.prems(1), of page] psm obtain v where
        v: "fetch_page file_bytes page s = Some (Inl Runtime_error, v)" "topology_cache_ok file_bytes [] v" by auto
      have "length file_bytes < page_end (unat first_byte) (unat byte_count)"
        using short [unfolded length_file_page [OF psm] p] whole by (rule less_le_trans)
      with v True show ?thesis by (auto simp: unfold)
    next
      case full: False
      with fetch_page_correct [OF less.prems(1), of page] psm obtain r f u where
        u: "fetch_page file_bytes page s = Some (Inr r, u)" "topology_cache_ok file_bytes [(page, f)] u"
          "rs_frame r = Some f" "rs_state r \<noteq> BYPASS" "frame_page (rs_data r) u = file_page file_bytes page" by auto
      obtain w where w: "release_one r u = (Inr (), w)" "topology_cache_ok file_bytes [] w"
        using release_fetched [OF u(2-4)] .
      have b: "take (unat n) (drop (a mod 4096) (frame_page (rs_data r) u)) = take (unat n) (drop a file_bytes)"
        unfolding u(5) by (rule file_page_bytes [OF p a(2)]) (simp add: nn)
      have cl: "copied + n \<le> byte_count" using step by (simp add: word_le_nat_alt)
      have "unat byte_count - unat (copied + n) < unat byte_count - unat copied" using step lt by simp
      from less.hyps [OF this w(2) cl, of "scratch @ take (unat n) (drop a file_bytes)"] obtain v where
        v: "topology_cache_ok file_bytes [] v"
        "copy_pages file_bytes first_byte byte_count (copied + n) (scratch @ take (unat n) (drop a file_bytes)) w
         = Some (if copied + n < byte_count \<and> length file_bytes < page_end (unat first_byte) (unat byte_count) then Inl Runtime_error
           else Inr ((scratch @ take (unat n) (drop a file_bytes))
             @ take (unat byte_count - unat (copied + n)) (drop (unat first_byte + unat (copied + n)) file_bytes)), v)" by blast
      have join: "take (unat n) (drop a file_bytes)
          @ take (unat byte_count - unat (copied + n)) (drop (unat first_byte + unat (copied + n)) file_bytes)
        = take (unat byte_count - unat copied) (drop a file_bytes)"
      proof -
        have e: "unat n + (unat byte_count - unat (copied + n)) = unat byte_count - unat copied"
          "unat n + a = unat first_byte + unat (copied + n)"
          using step by (simp_all add: a_def)
        have "take (unat n) (drop a file_bytes) @ take y (drop (unat n + a) file_bytes) = take (unat n + y) (drop a file_bytes)" for y
          by (simp add: take_add)
        from this [of "unat byte_count - unat (copied + n)"] show ?thesis unfolding e .
      qed
      have last: "\<not> length file_bytes < page_end (unat first_byte) (unat byte_count)" if "\<not> copied + n < byte_count"
      proof -
        have "unat copied + unat n = unat byte_count" using that step by (simp add: word_less_nat_alt)
        then have e: "unat first_byte + unat byte_count - 1 = a + (unat n - 1)" using step by (simp add: a_def)
        have "a mod 4096 + (unat n - 1) < 4096" using nn step(2) by (simp add: min_def split: if_splits)
        then have "(a + (unat n - 1)) div 4096 = a div 4096"
          by (simp add: div_add1_eq [of a])
        with full [unfolded length_file_page [OF psm] p] e show ?thesis by (simp add: page_end_def)
      qed
      have "copy_pages file_bytes first_byte byte_count copied scratch s
        = copy_pages file_bytes first_byte byte_count (copied + n) (scratch @ take (unat n) (drop a file_bytes)) w"
        using True by (simp add: unfold u(1) w(1) b)
      with v last join True show ?thesis by (auto simp: a_def)
    qed
  qed
qed

subsection \<open>The neighbours of a loaded index\<close>

lemma buffer_targets_drop: "buffer_targets (drop (4 * k) bs) = drop k (buffer_targets bs)"
proof (induction bs arbitrary: k rule: buffer_targets.induct)
  case (1 b0 b1 b2 b3 rest)
  show ?case
  proof (cases k)
    case (Suc m)
    have e: "4 * Suc m = Suc (Suc (Suc (Suc (4 * m))))" by simp
    have "drop (4 * Suc m) (b0 # b1 # b2 # b3 # rest) = drop (4 * m) rest"
      unfolding e by (simp only: drop_Suc_Cons)
    then show ?thesis unfolding Suc by (simp only: buffer_targets.simps drop_Suc_Cons 1)
  qed simp
qed (auto simp: drop_Cons' numeral_eq_Suc)

lemma buffer_targets_take: "buffer_targets (take (4 * k) bs) = take k (buffer_targets bs)"
proof (induction bs arbitrary: k rule: buffer_targets.induct)
  case (1 b0 b1 b2 b3 rest)
  show ?case
  proof (cases k)
    case (Suc m)
    have e: "4 * Suc m = Suc (Suc (Suc (Suc (4 * m))))" by simp
    have "take (4 * Suc m) (b0 # b1 # b2 # b3 # rest) = b0 # b1 # b2 # b3 # take (4 * m) rest"
      unfolding e by (simp only: take_Suc_Cons)
    then show ?thesis unfolding Suc by (simp only: buffer_targets.simps take_Suc_Cons 1)
  qed simp
qed (auto simp: take_Cons' numeral_eq_Suc)

text \<open>Whether the file holds every page of the adjacency of a node in full; a node without neighbours needs none.\<close>

definition node_pages_complete :: "u8 list \<Rightarrow> io_optimized_index_t \<Rightarrow> u32 \<Rightarrow> bool" where
  "node_pages_complete file_bytes ix node_id \<longleftrightarrow>
     (let first = unat (ix_neighbor_offsets ix ! unat node_id); end = unat (ix_neighbor_offsets ix ! (unat node_id + 1)) in
      first = end \<or> page_end (unat (ix_adjacency_file_offset ix) + first * 4) ((end - first) * 4) \<le> length file_bytes)"

lemma loaded_adjacency:
  assumes "load_io_optimized_index pfor disk (Some bytes) vectors topology_only False 0 = Inr ix"
    "parse_header bytes = Inr h" "h_encoding h = RAW_U32" "length bytes < 2 ^ 64"
  shows "ix_adjacency ix = buffer_targets (take (4 * length (ix_adjacency ix)) (drop (unat (h_adjacency_offset h)) bytes))"
    "unat (h_adjacency_offset h) + 4 * length (ix_adjacency ix) \<le> length bytes" "index_ok ix"
proof -
  have u: "unat (of_nat (length bytes) :: u64) = length bytes" using assms(4) by simp
  from assms(1,2) have c: "check_sections h (of_nat (length bytes)) = Inr ()"
    and f: "fill_index pfor False h (resident_sections h bytes) (of_nat (length bytes)) = Inr ix"
    unfolding load_resident_iff by auto
  have l: "sections_layout h (length bytes)" using check_sections_Inr [OF c] by (simp only: u)
  let ?a = "sec_adjacency (resident_sections h bytes)"
  have e: "unat (h_adjacency_bytes h) = unat (h_edge_count h) * 4"
    using l assms(3) by (auto simp: sections_layout_def)
  have ia: "in_file bytes (h_adjacency_offset h) (h_adjacency_bytes h)"
    using layout_in_file [OF l] by (simp add: sections_in_file_def)
  then have len: "length ?a = unat (h_edge_count h) * 4"
    by (simp add: resident_sections_def length_section_of e)
  from f obtain offsets where "load_adjacency pfor False h (resident_sections h bytes) = Inr (offsets, ix_adjacency ix)"
    unfolding fill_index_iff by auto
  then have a: "ix_adjacency ix = buffer_targets ?a" by (simp add: load_adjacency_raw [OF assms(3) len, of _ _ _ "[]"])
  moreover have n: "length (buffer_targets ?a) = unat (h_edge_count h)"
    by (rule read_buffer_targets(1)) (simp add: len)
  ultimately show "ix_adjacency ix = buffer_targets (take (4 * length (ix_adjacency ix)) (drop (unat (h_adjacency_offset h)) bytes))"
    using e by (simp add: resident_sections_def section_of_def mult.commute)
  show "unat (h_adjacency_offset h) + 4 * length (ix_adjacency ix) \<le> length bytes"
    using ia e a n by (simp add: in_file_def)
  show "index_ok ix" by (rule fill_index_ok [OF f])
qed

lemma offsets_ordered:
  assumes "index_ok ix" "ucast (node_id :: u32) < ix_point_count ix"
  shows "ix_neighbor_offsets ix ! unat node_id \<le> ix_neighbor_offsets ix ! Suc (unat node_id)"
    "unat (ix_neighbor_offsets ix ! Suc (unat node_id)) \<le> length (ix_adjacency ix)"
proof -
  let ?o = "ix_neighbor_offsets ix" and ?n = "unat node_id"
  have n: "?n < unat (ix_point_count ix)" using assms(2) by (simp add: word_less_nat_alt)
  have ad: "adjacency_ok ?o (ix_adjacency ix) (ix_point_count ix) (ix_max_degree ix)"
    using assms(1) by (simp add: index_ok_def)
  then have step: "unat (?o ! k) \<le> unat (?o ! Suc k)" if "k < unat (ix_point_count ix)" for k
    using that by (simp add: adjacency_ok_def)
  have "unat (?o ! j) \<le> unat (?o ! k)" if "j \<le> k" "k \<le> unat (ix_point_count ix)" for j k
    using that
  proof (induction k)
    case (Suc k)
    with step [of k] show ?case by (cases "j = Suc k") auto
  qed simp
  from this [of "Suc ?n" "unat (ix_point_count ix)"] show "unat (?o ! Suc ?n) \<le> length (ix_adjacency ix)"
    using n ad by (simp add: adjacency_ok_def)
  show "?o ! ?n \<le> ?o ! Suc ?n" using step [OF n] by (simp add: word_le_nat_alt)
qed

lemma neighbors_paged_correct:
  assumes load: "load_io_optimized_index pfor disk (Some bytes) vectors topology_only False 0 = Inr ix"
    and h: "parse_header bytes = Inr h" "h_encoding h = RAW_U32" and small: "length bytes < 2 ^ 64"
    and cache: "topology_cache_ok bytes [] s" and node: "ucast node_id < ix_point_count ix"
  shows "\<exists>v. topology_cache_ok bytes [] v \<and> neighbors_paged bytes (paged_view h ix) node_id s
    = Some (if node_pages_complete bytes (paged_view h ix) node_id then neighbors_resident ix node_id else Inl Runtime_error, v)"
proof -
  note la = loaded_adjacency [OF load h small]
  define b where "b = ix_neighbor_offsets ix ! unat node_id"
  define e where "e = ix_neighbor_offsets ix ! Suc (unat node_id)"
  note o = offsets_ordered [OF la(3) node, folded b_def e_def]
  define first where "first = h_adjacency_offset h + b * 4"
  define n where "n = (e - b) * 4"
  have d: "unat (e - b) = unat e - unat b" by (rule unat_sub [OF o(1)])
  have be: "unat b \<le> unat e" using o(1) by (simp add: word_le_nat_alt)
  have lim: "unat (h_adjacency_offset h) + 4 * unat e < 18446744073709551616"
    using la(2) o(2) small by simp
  have times: "unat (w * 4) = unat w * 4" if "unat w * 4 < 18446744073709551616" for w :: u64
    using unat_mult_lem [of w 4] that by simp
  have "unat (b * 4) = unat b * 4" using times [of b] lim be by simp
  then have f: "unat first = unat (h_adjacency_offset h) + unat b * 4"
    using unat_add_lem [of "h_adjacency_offset h" "b * 4"] lim be by (simp add: first_def)
  have c: "unat n = (unat e - unat b) * 4" unfolding n_def d [symmetric] by (rule times) (use lim d in linarith)
  have sum: "unat first + unat n < 18446744073709551616" using f c be lim by simp
  have res: "neighbors_resident ix node_id = Inr (take (unat e - unat b) (drop (unat b) (ix_adjacency ix)))"
    using node by (simp add: neighbors_resident_def Let_def b_def [symmetric] e_def [symmetric] not_le d)
  have same: "buffer_targets (take (unat n) (drop (unat first) bytes))
      = take (unat e - unat b) (drop (unat b) (ix_adjacency ix))"
  proof -
    let ?x = "drop (unat (h_adjacency_offset h)) bytes"
    have "ix_adjacency ix = take (length (ix_adjacency ix)) (buffer_targets ?x)"
      using la(1) by (simp add: buffer_targets_take)
    then have "take (unat e - unat b) (drop (unat b) (ix_adjacency ix))
        = take (unat e - unat b) (drop (unat b) (take (length (ix_adjacency ix)) (buffer_targets ?x)))" by simp
    also have "\<dots> = take (unat e - unat b) (drop (unat b) (buffer_targets ?x))"
      using o(2) by (simp add: drop_take min_def)
    also have "\<dots> = buffer_targets (take (4 * (unat e - unat b)) (drop (4 * unat b) ?x))"
      by (simp only: buffer_targets_take buffer_targets_drop)
    also have "take (4 * (unat e - unat b)) (drop (4 * unat b) ?x) = take (unat n) (drop (unat first) bytes)"
      by (simp add: f c add.commute mult.commute)
    finally show ?thesis by simp
  qed
  show ?thesis
  proof (cases "b = e")
    case True
    then show ?thesis using cache
      by (auto simp: neighbors_paged_def paged_view_def node_pages_complete_def Let_def
          b_def [symmetric] e_def [symmetric] res)
  next
    case False
    then have lt: "unat b < unat e" using be by (simp add: word_unat_eq_iff)
    then have n0: "0 < n" by (simp add: word_less_nat_alt c)
    from copy_pages_correct [OF cache sum, of 0 "[]"] obtain v where v: "topology_cache_ok bytes [] v"
      "copy_pages bytes first n 0 [] s = Some (if length bytes < page_end (unat first) (unat n) then Inl Runtime_error
         else Inr (take (unat n) (drop (unat first) bytes)), v)" using n0 by auto
    have "node_pages_complete bytes (paged_view h ix) node_id \<longleftrightarrow> \<not> length bytes < page_end (unat first) (unat n)"
      using lt by (auto simp: node_pages_complete_def Let_def paged_view_def b_def [symmetric] e_def [symmetric] f c)
    moreover have "neighbors_paged bytes (paged_view h ix) node_id s
      = Some (if length bytes < page_end (unat first) (unat n) then Inl Runtime_error
         else Inr (buffer_targets (take (unat n) (drop (unat first) bytes))), v)"
      using False v(2) by (simp add: neighbors_paged_def paged_view_def Let_def b_def [symmetric] e_def [symmetric]
          first_def n_def)
    ultimately show ?thesis using v(1) by (auto simp: same res)
  qed
qed

subsection \<open>A new cache\<close>

lemma new_pool_cache_ok:
  assumes "unat n \<noteq> 0" "unat n * 4096 < 18446744073709551616"
  obtains s where "new_pool sz n Chunk_4kb = Inr s" "topology_cache_ok bytes [] s"
proof -
  have le: "unat n \<le> 2 ^ 62" using assms(2) by simp
  from new_pool_correct [OF le, of sz Chunk_4kb] obtain s where
    s: "new_pool sz n Chunk_4kb = Inr s" "lru_inv [] [] s" "lp_loading s = []" "lp_resident s = []" "lp_capacity s = n"
    by metis
  from bind_chunks_Inr [of 0 "unat n" Chunk_4kb "ucast (chunk_size Chunk_4kb)"] le obtain cs where
    cs: "bind_chunks Chunk_4kb (ucast (chunk_size Chunk_4kb)) 0 (unat n) = Inr cs" "length cs = unat n"
      "\<forall>k < unat n. bound_slot Chunk_4kb (ucast (chunk_size Chunk_4kb)) k (cs ! k)" by auto
  have "lv_chunks (lp_frames s) = cs"
    using s(1) cs(1) assms(1)
    by (auto simp: new_pool_def init_pool_def chunk_types_def init_level_def Let_def split: if_splits)
  then have "n_frames s = unat n" "\<forall>f < n_frames s. c_data (frame_at s f) = Some (of_nat (f * 4096))"
    using cs by (simp_all add: n_frames_def frame_at_def bound_slot_def)
  then have "topology_cache_ok bytes [] s"
    using s assms by (simp add: topology_cache_ok_def placed_def)
  with s(1) show ?thesis by (rule that)
qed

text \<open>A file of more than one page: one edge of the first node, a thousand of the second.\<close>

definition long_nodes :: "u32 list list" where
  "long_nodes = [[1], replicate 1000 0]"

definition long_build :: io_build_t where
  "long_build = sample_build\<lparr>bd_max_degree := 1000, bd_offsets := edge_offsets_of long_nodes,
     bd_adjacency := concat long_nodes\<rparr>"

definition long_bytes :: "u8 list" where
  "long_bytes = (case write_topology None long_build of Inl _ \<Rightarrow> [] | Inr bytes \<Rightarrow> bytes)"

lemma long_build_ok: "build_ok long_build long_nodes"
proof -
  have "list_all (\<lambda>t. ucast t < (2 :: u64)) (replicate 1000 (0 :: u32))" by (simp add: list_all_iff)
  then show ?thesis unfolding build_ok_def
  by (intro conjI) (simp_all add: long_build_def long_nodes_def sample_build_def encoding_defs layout_defs location_ok_def
      prefetch_page_ok_def k_no_io_prefetch_page_def k_io_vector_page_size_def)
qed

lemma long_written: "write_topology None long_build = Inr long_bytes" "length long_bytes = 4388"
proof -
  have "\<exists>bytes. write_topology None long_build = Inr bytes \<and> length bytes = 4388"
    by (simp add: write_topology_def encode_adjacency_def long_build_def long_nodes_def sample_build_def build_header_def
        payload_of_def checked_add_def checked_multiply_def k_topology_header_bytes_def k_io_vector_page_size_def
        length_sections Let_def payload_bytes_def length_serialize_header unat_minus_one)
  then show "write_topology None long_build = Inr long_bytes" "length long_bytes = 4388"
    by (auto simp: long_bytes_def)
qed

lemma long_loads:
  "load_io_optimized_index None (Some sample_disk) (Some long_bytes) None True False 0 = Inr (built_index long_build 4388)"
  "\<exists>h. parse_header long_bytes = Inr h \<and> h_encoding h = RAW_U32 \<and> unat (h_adjacency_offset h) = 344"
proof -
  have f: "codec_fits None (bd_encoding long_build) long_nodes" "bd_encoding long_build = RAW_U32"
    by (simp_all add: codec_fits_def long_build_def sample_build_def)
  have d: "fingerprint_file (Some sample_disk) = Inr (bd_base long_build)"
    using sample_fingerprint by (simp add: long_build_def)
  note w = load_written [OF long_build_ok f(1) long_written(1) _ d, of True None]
  show "load_io_optimized_index None (Some sample_disk) (Some long_bytes) None True False 0 = Inr (built_index long_build 4388)"
    using w(1) long_written(2) by simp
  show "\<exists>h. parse_header long_bytes = Inr h \<and> h_encoding h = RAW_U32 \<and> unat (h_adjacency_offset h) = 344"
    using w(3) long_written(2) f(2) by (auto simp: long_build_def sample_build_def)
qed

subsection \<open>Properties\<close>

text \<open>C4: On a topology file that loads both ways, \<open>neighbors\<close> of the paged index returns exactly the neighbours that
the resident index returns (and throws for the nodes for which that one throws), whatever the cache holds and
whatever it evicts, as long as the file holds the 4096-byte pages of the node's edges in full; otherwise it
throws, although the edges themselves are in the file.  It never waits, and leaves no pin, no page in flight and
a cache that holds pages of the file.\<close>

theorem paged_neighbors_equivalent:
  assumes "load_io_optimized_index pfor disk (Some bytes) vectors topology_only False 0 = Inr ix"
    "load_io_optimized_index pfor disk (Some bytes) vectors topology_only True cache_pages = Inr px"
    "320 \<le> length bytes" "length bytes < 2 ^ 64" "topology_cache_ok bytes [] s"
  shows "\<exists>v. topology_cache_ok bytes [] v \<and> neighbors bytes px node_id s
    = Some (if ucast node_id < ix_point_count ix \<and> \<not> node_pages_complete bytes px node_id then Inl Runtime_error
        else neighbors_resident ix node_id, v)"
proof -
  have "cache_pages \<noteq> 0" using assms(2) unfolding load_paged_iff by auto
  from load_paged_iff_resident [OF assms(3,4) this] assms(1,2) obtain h where
    h: "parse_header bytes = Inr h" "h_encoding h = RAW_U32" "px = paged_view h ix" by auto
  show ?thesis
  proof (cases "ucast node_id < ix_point_count ix")
    case True
    with neighbors_paged_correct [OF assms(1) h(1,2) assms(4,5) True] show ?thesis
      by (auto simp: neighbors_def h(3) paged_view_def not_le)
  next
    case False
    then show ?thesis using assms(5)
      by (auto simp: neighbors_def h(3) paged_view_def not_less neighbors_resident_def)
  qed
qed

lemma paged_neighbors_equivalent_witness:
  "\<exists>s px v w. new_pool 128 1 Chunk_4kb = Inr s
     \<and> load_io_optimized_index None (Some sample_disk) (Some long_bytes) None True True 1 = Inr px
     \<and> neighbors long_bytes px 0 s = Some (Inr [1], v) \<and> neighbors long_bytes px 1 v = Some (Inl Runtime_error, w)"
proof -
  from long_loads(2) obtain h where h: "parse_header long_bytes = Inr h" "h_encoding h = RAW_U32"
    "unat (h_adjacency_offset h) = 344" by blast
  let ?ix = "built_index long_build 4388" and ?px = "paged_view h (built_index long_build 4388)"
  have px: "load_io_optimized_index None (Some sample_disk) (Some long_bytes) None True True 1 = Inr ?px"
    by (subst load_paged_iff_resident) (use h long_loads(1) long_written(2) in auto)
  obtain s where s: "new_pool 128 1 Chunk_4kb = Inr s" "topology_cache_ok long_bytes [] s"
    by (rule new_pool_cache_ok [of 1]) simp_all
  note eq = paged_neighbors_equivalent [OF long_loads(1) px, unfolded long_written(2)]
  have o: "bd_offsets long_build = [0, 1, 1001]" by (simp add: long_build_def long_nodes_def edge_offsets_of_def)
  have c: "node_pages_complete long_bytes ?px 0" "\<not> node_pages_complete long_bytes ?px 1"
    by (simp_all add: node_pages_complete_def paged_view_def built_index_def o h(3) page_end_def long_written(2))
  have n: "neighbors_resident ?ix 0 = Inr [1]" "ucast (1 :: u32) < ix_point_count ?ix"
    by (simp_all add: neighbors_resident_def built_index_def o)
      (simp_all add: long_build_def long_nodes_def sample_build_def)
  from eq [OF _ _ s(2), of 0] c(1) n(1) obtain v where v: "topology_cache_ok long_bytes [] v"
    "neighbors long_bytes ?px 0 s = Some (Inr [1], v)" by auto
  from eq [OF _ _ v(1), of 1] c(2) n(2) obtain w where "neighbors long_bytes ?px 1 v = Some (Inl Runtime_error, w)" by auto
  with px s(1) v(2) show ?thesis by blast
qed

end
