(* ===== verification/Adaptive_Snapshot.thy ===== *)
theory Adaptive_Snapshot
  imports IO_Load IO_Cells
begin

text \<open>
  The mapping table of \<open>adaptive_cell_runtime_t\<close> (include/index/adaptive_cell_runtime.h,
  src/index/adaptive_cell_runtime.cc): immutable snapshots that map every logical cell to a view of its pages and
  the nodes of merged cells to their new vector locations, with a bit filter in front of that directory.
\<close>

subsection \<open>Data\<close>

record adaptive_cell_view_t =
  vw_view_id :: u64
  vw_generation :: u64
  vw_capacity_class :: u32
  vw_node_count :: u32
  vw_ready :: bool
  vw_logical_cells :: "u32 list"
  vw_page_runs :: "io_page_run_t list"
  vw_vector_nodes :: "u32 list"
  vw_vector_locations :: "io_vector_location_t list"
  vw_payload_checksum :: u64
  vw_directory_checksum :: u64

record adaptive_cell_snapshot_t =
  sn_generation :: u64
  sn_cells :: "adaptive_cell_view_t list"
  sn_override_nodes :: "u32 list"
  sn_override_locations :: "io_vector_location_t list"
  sn_override_filter :: "u64 list"

subsection \<open>The override filter\<close>

definition k_override_filter_bits :: u64 where "k_override_filter_bits = 4096"

definition mix_node_id :: "u32 \<Rightarrow> u64" where
  "mix_node_id node_id =
     (let v0 = ucast node_id + 0x9e3779b97f4a7c15;
          v1 = (v0 XOR drop_bit 30 v0) * 0xbf58476d1ce4e5b9;
          v2 = (v1 XOR drop_bit 27 v1) * 0x94d049bb133111eb
      in v2 XOR drop_bit 31 v2)"

definition filter_bit :: "u64 list \<Rightarrow> u64 \<Rightarrow> bool" where
  "filter_bit f k = (f ! unat (k div 64) AND push_bit (unat (k mod 64)) 1 \<noteq> 0)"

definition set_filter_bit :: "u64 \<Rightarrow> u64 list \<Rightarrow> u64 list" where
  "set_filter_bit k f = f[unat (k div 64) := f ! unat (k div 64) OR push_bit (unat (k mod 64)) 1]"

definition filter_contains :: "u64 list \<Rightarrow> u32 \<Rightarrow> bool" where
  "filter_contains f node_id =
     (let h = mix_node_id node_id;
          first = h mod k_override_filter_bits; second = drop_bit 32 h mod k_override_filter_bits
      in filter_bit f first \<and> filter_bit f second)"

definition filter_insert :: "u64 list \<Rightarrow> u32 \<Rightarrow> u64 list" where
  "filter_insert f node_id =
     (let h = mix_node_id node_id;
          first = h mod k_override_filter_bits; second = drop_bit 32 h mod k_override_filter_bits
      in set_filter_bit second (set_filter_bit first f))"

subsection \<open>Looking up a snapshot\<close>

definition snapshot_cell :: "adaptive_cell_snapshot_t \<Rightarrow> u32 \<Rightarrow> exn + adaptive_cell_view_t" where
  "snapshot_cell sn logical_cell =
     (if unat logical_cell \<ge> length (sn_cells sn) then Inl Out_of_range else Inr (sn_cells sn ! unat logical_cell))"

text \<open>\<open>std::lower_bound\<close> on an ascending list.\<close>

definition lower_bound :: "u32 list \<Rightarrow> u32 \<Rightarrow> nat" where
  "lower_bound xs x = length (takeWhile (\<lambda>y. y < x) xs)"

definition snapshot_vector_location ::
  "adaptive_cell_snapshot_t \<Rightarrow> u32 \<Rightarrow> io_vector_location_t \<Rightarrow> io_vector_location_t" where
  "snapshot_vector_location sn node_id fallback =
     (if \<not> filter_contains (sn_override_filter sn) node_id then fallback
      else
        let found = lower_bound (sn_override_nodes sn) node_id
        in if found = length (sn_override_nodes sn) \<or> sn_override_nodes sn ! found \<noteq> node_id then fallback
           else sn_override_locations sn ! found)"

definition capacity_for_population :: "u32 \<Rightarrow> exn + u32" where
  "capacity_for_population population =
     (case find (\<lambda>capacity. population \<le> capacity) [16, 32, 64, 128, 256, 512] of
        None \<Rightarrow> Inl Invalid_argument
      | Some capacity \<Rightarrow> Inr capacity)"

subsection \<open>Building the next snapshot\<close>

text \<open>The \<open>std::map\<close> that merges the directories: entries written later win, iteration is by ascending node.\<close>

fun directory_entries :: "u32 list \<Rightarrow> io_vector_location_t list \<Rightarrow> (u32 \<rightharpoonup> io_vector_location_t) \<Rightarrow> (u32 \<rightharpoonup> io_vector_location_t)" where
  "directory_entries (n # ns) (l # ls) d = directory_entries ns ls (d(n \<mapsto> l))"
| "directory_entries _ _ d = d"

definition merged_directory :: "adaptive_cell_snapshot_t \<Rightarrow> adaptive_cell_view_t \<Rightarrow> (u32 \<times> io_vector_location_t) list" where
  "merged_directory current replacement =
     (let d = directory_entries (vw_vector_nodes replacement) (vw_vector_locations replacement)
                (directory_entries (sn_override_nodes current) (sn_override_locations current) Map.empty);
          nodes = remdups_adj (sort (sn_override_nodes current @ vw_vector_nodes replacement))
      in map (\<lambda>n. (n, the (d n))) nodes)"

text \<open>The cells of the replacement point to it; a logical cell that does not exist refuses it.\<close>

fun map_cells :: "u32 list \<Rightarrow> adaptive_cell_view_t \<Rightarrow> adaptive_cell_view_t list \<Rightarrow> adaptive_cell_view_t list option" where
  "map_cells [] v cells = Some cells"
| "map_cells (c # cs) v cells =
     (if unat c \<ge> length cells then None else map_cells cs v (cells[unat c := v]))"

definition next_snapshot ::
  "adaptive_cell_snapshot_t \<Rightarrow> adaptive_cell_view_t \<Rightarrow> u32 list \<Rightarrow> adaptive_cell_snapshot_t option" where
  "next_snapshot current replacement expected_cells =
     (case map_cells expected_cells replacement (sn_cells current) of
        None \<Rightarrow> None
      | Some cells \<Rightarrow>
          let directory = merged_directory current replacement
          in Some \<lparr>sn_generation = sn_generation current + 1, sn_cells = cells,
               sn_override_nodes = map fst directory, sn_override_locations = map snd directory,
               sn_override_filter = foldl filter_insert (replicate 64 0) (map fst directory)\<rparr>)"

end
