(* ===== verification/Adaptive_Cells.thy ===== *)
theory Adaptive_Cells
  imports Complex_Main Adaptive_Snapshot "HOL-Library.Product_Lexorder"
begin

text \<open>
  The online part of \<open>adaptive_cell_runtime_t\<close> (src/index/adaptive_cell_runtime.cc): observation counters of merge
  candidates, the profile that makes a candidate eligible, and the publication of a merged cell by one exchange of
  the snapshot pointer.

  Published snapshots are kept in a list in the order of publication, a pointer to one is its position, and the
  current snapshot is the last.  \<open>shared_ptr\<close> reclaims a snapshot after its last reader, so a position never comes
  to stand for another one.  Doubles are reals or a special value; \<open>rnd\<close> is the rounding of the floating-point unit.
\<close>

subsection \<open>Doubles\<close>

datatype double_t = Fin real | Infinity_t bool | Not_a_number

fun is_finite :: "double_t \<Rightarrow> bool" where
  "is_finite (Fin x) = True"
| "is_finite _ = False"

fun le_double :: "double_t \<Rightarrow> double_t \<Rightarrow> bool" where
  "le_double (Fin x) (Fin y) \<longleftrightarrow> x \<le> y"
| "le_double (Infinity_t a) (Infinity_t b) \<longleftrightarrow> \<not> a \<or> b"
| "le_double (Fin x) (Infinity_t b) \<longleftrightarrow> b"
| "le_double (Infinity_t a) (Fin y) \<longleftrightarrow> \<not> a"
| "le_double _ _ \<longleftrightarrow> False"

definition lt_double :: "double_t \<Rightarrow> double_t \<Rightarrow> bool" where
  "lt_double x y \<longleftrightarrow> le_double x y \<and> \<not> le_double y x"

definition divided :: "(real \<Rightarrow> real) \<Rightarrow> u64 \<Rightarrow> u64 \<Rightarrow> real" where
  "divided rnd a b = rnd (rnd (real (unat a)) / rnd (real (unat b)))"

definition relative_increase :: "(real \<Rightarrow> real) \<Rightarrow> u64 \<Rightarrow> u64 \<Rightarrow> double_t" where
  "relative_increase rnd merged fixed =
     (if fixed = 0 then (if merged = 0 then Fin 0 else Infinity_t True)
      else Fin (rnd (divided rnd merged fixed - 1)))"

subsection \<open>State\<close>

record adaptive_cell_merge_candidate_t =
  mc_left :: u32
  mc_right :: u32

record adaptive_cell_runtime_config_t =
  cf_enabled :: bool
  cf_minimum_joint :: u64
  cf_minimum_ratio :: double_t
  cf_maximum_page_increase :: double_t
  cf_maximum_unseen_increase :: double_t
  cf_maximum_publishes :: u32
  cf_background :: bool
  cf_force_first :: bool

record candidate_counters_t =
  cc_parent :: u64
  cc_joint :: u64
  cc_fixed_pages :: u64
  cc_merged_pages :: u64
  cc_fixed_unseen :: u64
  cc_merged_unseen :: u64

record adaptive_cell_merge_profile_t =
  pr_counters :: candidate_counters_t
  pr_ratio :: double_t
  pr_page_increase :: double_t
  pr_unseen_increase :: double_t
  pr_eligible :: bool

text \<open>What the physical modification needs; the base vector file and the overlay file by their bytes.\<close>

record adaptive_physical_t =
  ph_base_index :: io_optimized_index_t
  ph_base_file :: "u8 list"
  ph_overlay :: "u8 list"
  ph_vector_bytes :: u32
  ph_cell_nodes :: "u32 list list"
  ph_node_to_cell :: "u32 list"
  ph_base_page_count :: u64
  ph_next_overlay_page :: u64
  ph_generation_file :: "u8 list option"

record adaptive_cell_runtime_t =
  ar_config :: adaptive_cell_runtime_config_t
  ar_candidates :: "adaptive_cell_merge_candidate_t list"
  ar_by_cell :: "u32 list list"
  ar_counters :: "candidate_counters_t list"
  ar_snapshots :: "adaptive_cell_snapshot_t list"
  ar_final :: "nat option"
  ar_pending :: "bool list"
  ar_forced_queued :: bool
  ar_forced_candidate :: u32
  ar_physical :: "adaptive_physical_t option"
  ar_observations :: u64
  ar_publish_attempts :: u64
  ar_successful :: u64
  ar_conflicts :: u64
  ar_physical_generations :: u64
  ar_bytes_written :: u64
  ar_checksum_failures :: u64

definition acquire :: "adaptive_cell_runtime_t \<Rightarrow> nat" where
  "acquire s = length (ar_snapshots s) - 1"

definition snapshot_at :: "adaptive_cell_runtime_t \<Rightarrow> nat \<Rightarrow> adaptive_cell_snapshot_t" where
  "snapshot_at s k = ar_snapshots s ! k"

definition accepts_observations :: "adaptive_cell_runtime_t \<Rightarrow> bool" where
  "accepts_observations s \<longleftrightarrow> cf_enabled (ar_config s)
     \<and> ar_successful s < ucast (cf_maximum_publishes (ar_config s))"

subsection \<open>Construction\<close>

definition config_ok :: "adaptive_cell_runtime_config_t \<Rightarrow> bool" where
  "config_ok c \<longleftrightarrow> \<not> (cf_minimum_joint c = 0 \<or> \<not> is_finite (cf_minimum_ratio c)
     \<or> \<not> is_finite (cf_maximum_page_increase c) \<or> \<not> is_finite (cf_maximum_unseen_increase c)
     \<or> lt_double (cf_minimum_ratio c) (Fin 0) \<or> lt_double (Fin 1) (cf_minimum_ratio c)
     \<or> lt_double (cf_maximum_page_increase c) (Fin 0) \<or> lt_double (cf_maximum_unseen_increase c) (Fin 0))"

definition initial_view :: "u32 \<Rightarrow> io_cell_page_range_t \<Rightarrow> exn + adaptive_cell_view_t" where
  "initial_view cell r =
     (if rg_node_count r = 0 \<or> rg_page_count r = 0 then Inl Invalid_argument
      else bindE (capacity_for_population (rg_node_count r)) (\<lambda>capacity.
        Inr \<lparr>vw_view_id = ucast cell, vw_generation = 0, vw_capacity_class = capacity,
          vw_node_count = rg_node_count r, vw_ready = True, vw_logical_cells = [cell],
          vw_page_runs = [\<lparr>run_first_page = rg_first_page r, run_page_count = rg_page_count r\<rparr>],
          vw_vector_nodes = [], vw_vector_locations = [], vw_payload_checksum = 0, vw_directory_checksum = 0\<rparr>))"

fun initial_views :: "u32 \<Rightarrow> io_cell_page_range_t list \<Rightarrow> exn + adaptive_cell_view_t list" where
  "initial_views cell [] = Inr []"
| "initial_views cell (r # rs) =
     bindE (initial_view cell r) (\<lambda>v. bindE (initial_views (cell + 1) rs) (\<lambda>vs. Inr (v # vs)))"

definition push_to :: "u32 \<Rightarrow> u32 \<Rightarrow> u32 list list \<Rightarrow> u32 list list" where
  "push_to cell candidate_id xss = xss[unat cell := xss ! unat cell @ [candidate_id]]"

fun register_candidates ::
  "nat \<Rightarrow> u32 \<Rightarrow> adaptive_cell_merge_candidate_t list \<Rightarrow> u32 list list \<Rightarrow> exn + u32 list list" where
  "register_candidates cells candidate_id [] by_cell = Inr by_cell"
| "register_candidates cells candidate_id (c # cs) by_cell =
     (if unat (mc_left c) \<ge> cells \<or> unat (mc_right c) \<ge> cells \<or> mc_left c = mc_right c then Inl Invalid_argument
      else register_candidates cells (candidate_id + 1) cs
        (push_to (mc_right c) candidate_id (push_to (mc_left c) candidate_id by_cell)))"

definition no_counters :: candidate_counters_t where
  "no_counters = \<lparr>cc_parent = 0, cc_joint = 0, cc_fixed_pages = 0, cc_merged_pages = 0, cc_fixed_unseen = 0, cc_merged_unseen = 0\<rparr>"

definition initialize ::
  "adaptive_cell_runtime_config_t \<Rightarrow> adaptive_cell_merge_candidate_t list \<Rightarrow> adaptive_physical_t option
    \<Rightarrow> io_cell_page_range_t list \<Rightarrow> exn + adaptive_cell_runtime_t" where
  "initialize config candidates physical fixed_cells =
     bindE (guardE (fixed_cells \<noteq> [] \<and> config_ok config) Invalid_argument) (\<lambda>_.
     bindE (initial_views 0 fixed_cells) (\<lambda>views.
     bindE (register_candidates (length fixed_cells) 0 candidates (replicate (length fixed_cells) [])) (\<lambda>by_cell.
       Inr \<lparr>ar_config = config, ar_candidates = candidates, ar_by_cell = by_cell,
         ar_counters = replicate (length candidates) no_counters,
         ar_snapshots = [\<lparr>sn_generation = 0, sn_cells = views, sn_override_nodes = [],
           sn_override_locations = [], sn_override_filter = replicate 64 0\<rparr>],
         ar_final = None, ar_pending = replicate (length candidates) False, ar_forced_queued = False,
         ar_forced_candidate = - 1, ar_physical = physical, ar_observations = 0, ar_publish_attempts = 0,
         ar_successful = 0, ar_conflicts = 0, ar_physical_generations = 0, ar_bytes_written = 0,
         ar_checksum_failures = 0\<rparr>)))"

text \<open>The members of a cell in the order of their vectors; comparing a node that does not exist throws.\<close>

definition location_key :: "io_optimized_index_t \<Rightarrow> u32 \<Rightarrow> u64 \<times> u32 \<times> u32" where
  "location_key ix n = (let l = ix_vector_locations ix ! unat n in (loc_page_id l, loc_page_offset l, n))"

definition sort_members :: "io_optimized_index_t \<Rightarrow> u32 list \<Rightarrow> exn + u32 list" where
  "sort_members ix nodes =
     (if 2 \<le> length nodes \<and> list_ex (\<lambda>n. ucast n \<ge> ix_point_count ix) nodes then Inl Out_of_range
      else Inr (sort_key (location_key ix) nodes))"

fun own_nodes :: "u32 \<Rightarrow> u32 list \<Rightarrow> u32 list \<Rightarrow> exn + u32 list" where
  "own_nodes cell [] owner = Inr owner"
| "own_nodes cell (n # ns) owner =
     (if unat n \<ge> length owner \<or> owner ! unat n \<noteq> - 1 then Inl Invalid_argument
      else own_nodes cell ns (owner[unat n := cell]))"

fun own_cells ::
  "io_optimized_index_t \<Rightarrow> u32 \<Rightarrow> (u32 list \<times> io_cell_page_range_t) list \<Rightarrow> u32 list
    \<Rightarrow> exn + (u32 list list \<times> u32 list)" where
  "own_cells ix cell [] owner = Inr ([], owner)"
| "own_cells ix cell ((nodes, r) # rest) owner =
     bindE (guardE (length nodes = unat (rg_node_count r)) Invalid_argument) (\<lambda>_.
     bindE (sort_members ix nodes) (\<lambda>ns.
     bindE (own_nodes cell ns owner) (\<lambda>owner1.
     bindE (own_cells ix (cell + 1) rest owner1) (\<lambda>(nss, owner2). Inr (ns # nss, owner2)))))"

text \<open>\<open>base_file\<close> is \<open>None\<close> when the vector artifact cannot be opened, \<open>overlay\<close> is \<open>None\<close> for an empty path and
  \<open>Some False\<close> when the overlay cannot be created.\<close>

definition physical_state ::
  "io_optimized_index_t option \<Rightarrow> u8 list option \<Rightarrow> bool option \<Rightarrow> u32 \<Rightarrow> u32 list list \<Rightarrow> io_cell_page_range_t list
    \<Rightarrow> exn + adaptive_physical_t" where
  "physical_state base_index base_file overlay vector_bytes cell_nodes fixed_cells =
     (case base_index of
        None \<Rightarrow> Inl Invalid_argument
      | Some ix \<Rightarrow>
          bindE (guardE (\<not> (overlay = None \<or> vector_bytes = 0 \<or> vector_bytes > k_io_vector_page_size
              \<or> length cell_nodes \<noteq> length fixed_cells
              \<or> length (ix_cell_page_ranges ix) \<noteq> length fixed_cells)) Invalid_argument) (\<lambda>_.
          bindE (own_cells ix 0 (zip cell_nodes fixed_cells) (replicate (unat (ix_point_count ix)) (- 1))) (\<lambda>(sorted_nodes, owner).
          bindE (guardE (- 1 \<notin> set owner) Invalid_argument) (\<lambda>_.
            case base_file of
              None \<Rightarrow> Inl Runtime_error
            | Some bytes \<Rightarrow>
                if overlay = Some False then Inl Runtime_error
                else Inr \<lparr>ph_base_index = ix, ph_base_file = bytes, ph_overlay = [],
                  ph_vector_bytes = vector_bytes, ph_cell_nodes = sorted_nodes, ph_node_to_cell = owner,
                  ph_base_page_count = ix_vector_page_count ix, ph_next_overlay_page = 0,
                  ph_generation_file = None\<rparr>))))"

definition new_adaptive_runtime ::
  "io_cell_page_range_t list \<Rightarrow> adaptive_cell_merge_candidate_t list \<Rightarrow> adaptive_cell_runtime_config_t
    \<Rightarrow> exn + adaptive_cell_runtime_t" where
  "new_adaptive_runtime fixed_cells candidates config = initialize config candidates None fixed_cells"

definition new_physical_runtime ::
  "io_cell_page_range_t list \<Rightarrow> adaptive_cell_merge_candidate_t list \<Rightarrow> adaptive_cell_runtime_config_t
    \<Rightarrow> io_optimized_index_t option \<Rightarrow> u8 list option \<Rightarrow> bool option \<Rightarrow> u32 \<Rightarrow> u32 list list \<Rightarrow> exn + adaptive_cell_runtime_t" where
  "new_physical_runtime fixed_cells candidates config base_index base_file overlay vector_bytes cell_nodes =
     bindE (physical_state base_index base_file overlay vector_bytes cell_nodes fixed_cells) (\<lambda>ph.
       initialize config candidates (Some ph) fixed_cells)"

definition logical_cell :: "adaptive_cell_runtime_t \<Rightarrow> u32 \<Rightarrow> u32" where
  "logical_cell s node_id =
     (case ar_physical s of
        None \<Rightarrow> - 1
      | Some ph \<Rightarrow> if unat node_id < length (ph_node_to_cell ph) then ph_node_to_cell ph ! unat node_id else - 1)"

subsection \<open>Observations\<close>

definition observe ::
  "u32 \<Rightarrow> bool \<Rightarrow> bool \<Rightarrow> u32 \<Rightarrow> u32 \<Rightarrow> u32 \<Rightarrow> u32 \<Rightarrow> adaptive_cell_runtime_t \<Rightarrow> adaptive_cell_runtime_t" where
  "observe candidate left_loaded right_loaded fixed_pages merged_pages fixed_unseen merged_unseen s =
     (if \<not> cf_enabled (ar_config s) \<or> unat candidate \<ge> length (ar_candidates s) \<or> (\<not> left_loaded \<and> \<not> right_loaded) then s
      else
        let c = ar_counters s ! unat candidate;
            c1 = c\<lparr>cc_joint := cc_joint c + (if left_loaded \<and> right_loaded then 1 else 0),
                   cc_fixed_pages := cc_fixed_pages c + ucast fixed_pages,
                   cc_merged_pages := cc_merged_pages c + ucast merged_pages,
                   cc_fixed_unseen := cc_fixed_unseen c + ucast fixed_unseen,
                   cc_merged_unseen := cc_merged_unseen c + ucast merged_unseen,
                   cc_parent := cc_parent c + 1\<rparr>
        in s\<lparr>ar_counters := (ar_counters s)[unat candidate := c1], ar_observations := ar_observations s + 1\<rparr>)"

definition profile ::
  "(real \<Rightarrow> real) \<Rightarrow> u32 \<Rightarrow> adaptive_cell_runtime_t \<Rightarrow> exn + adaptive_cell_merge_profile_t" where
  "profile rnd candidate s =
     (if unat candidate \<ge> length (ar_candidates s) then Inl Out_of_range
      else
        let c = ar_counters s ! unat candidate; config = ar_config s;
            ratio = (if cc_parent c = 0 then Fin 0 else Fin (divided rnd (cc_joint c) (cc_parent c)));
            page_increase = relative_increase rnd (cc_merged_pages c) (cc_fixed_pages c);
            unseen_increase = relative_increase rnd (cc_merged_unseen c) (cc_fixed_unseen c)
        in Inr \<lparr>pr_counters = c, pr_ratio = ratio, pr_page_increase = page_increase, pr_unseen_increase = unseen_increase,
             pr_eligible = (cf_enabled config \<and> cc_joint c \<ge> cf_minimum_joint config
               \<and> le_double (cf_minimum_ratio config) ratio
               \<and> le_double page_increase (cf_maximum_page_increase config)
               \<and> le_double unseen_increase (cf_maximum_unseen_increase config))\<rparr>)"

definition view_page_count :: "adaptive_cell_view_t \<Rightarrow> u32" where
  "view_page_count v = sum_list (map run_page_count (vw_page_runs v))"

definition set_pending :: "u32 \<Rightarrow> bool \<Rightarrow> adaptive_cell_runtime_t \<Rightarrow> adaptive_cell_runtime_t" where
  "set_pending candidate b s = s\<lparr>ar_pending := (ar_pending s)[unat candidate := b]\<rparr>"

text \<open>One candidate of a query; \<open>loaded_cells\<close> is ascending, on which \<open>std::binary_search\<close> decides membership.
  \<open>observe_query\<close> is \<open>noexcept\<close>, so an exception of a callee ends the program.\<close>

definition observe_candidate ::
  "(real \<Rightarrow> real) \<Rightarrow> u32 list \<Rightarrow> u32 \<Rightarrow> adaptive_cell_runtime_t \<Rightarrow> exn + adaptive_cell_runtime_t" where
  "observe_candidate rnd loaded_cells candidate s =
     (let pair = ar_candidates s ! unat candidate;
          left_loaded = (mc_left pair \<in> set loaded_cells); right_loaded = (mc_right pair \<in> set loaded_cells) in
      if \<not> left_loaded \<and> \<not> right_loaded then Inr s
      else
        let current = snapshot_at s (acquire s) in
        bindE (snapshot_cell current (mc_left pair)) (\<lambda>left.
        bindE (snapshot_cell current (mc_right pair)) (\<lambda>right.
        if vw_view_id left = vw_view_id right then Inr s
        else
          let s1 = observe candidate left_loaded right_loaded
                ((if left_loaded then view_page_count left else 0) + (if right_loaded then view_page_count right else 0))
                (view_page_count left + view_page_count right)
                ((if left_loaded then vw_node_count left else 0) + (if right_loaded then vw_node_count right else 0))
                (vw_node_count left + vw_node_count right) s in
          if cf_background (ar_config s1) then
            bindE (profile rnd candidate s1) (\<lambda>p. Inr (if pr_eligible p then set_pending candidate True s1 else s1))
          else Inr s1)))"

fun observe_candidates ::
  "(real \<Rightarrow> real) \<Rightarrow> u32 list \<Rightarrow> u32 list \<Rightarrow> adaptive_cell_runtime_t \<Rightarrow> exn + adaptive_cell_runtime_t" where
  "observe_candidates rnd loaded_cells [] s = Inr s"
| "observe_candidates rnd loaded_cells (c # cs) s =
     (if \<not> accepts_observations s then Inr s
      else bindE (observe_candidate rnd loaded_cells c s) (observe_candidates rnd loaded_cells cs))"

definition observe_query ::
  "(real \<Rightarrow> real) \<Rightarrow> u32 list \<Rightarrow> adaptive_cell_runtime_t \<Rightarrow> exn + adaptive_cell_runtime_t" where
  "observe_query rnd loaded_cells s =
     (if \<not> accepts_observations s \<or> loaded_cells = [] then Inr s
      else
        let found = concat (map (\<lambda>c. if unat c \<ge> length (ar_by_cell s) then [] else ar_by_cell s ! unat c) loaded_cells);
            query_candidates = remdups_adj (sort found);
            s1 = (if cf_force_first (ar_config s) \<and> query_candidates \<noteq> [] \<and> \<not> ar_forced_queued s
                  then set_pending (hd query_candidates) True
                    (s\<lparr>ar_forced_queued := True, ar_forced_candidate := hd query_candidates\<rparr>)
                  else s)
        in observe_candidates rnd loaded_cells query_candidates s1)"

subsection \<open>Publication\<close>

text \<open>The first condition of \<open>try_publish\<close>.\<close>

definition publish_gate ::
  "(real \<Rightarrow> real) \<Rightarrow> u32 \<Rightarrow> bool \<Rightarrow> adaptive_cell_runtime_t \<Rightarrow> exn + bool" where
  "publish_gate rnd candidate force s =
     (if \<not> accepts_observations s \<or> unat candidate \<ge> length (ar_candidates s) then Inr False
      else if force then Inr True
      else bindE (profile rnd candidate s) (\<lambda>p. Inr (pr_eligible p)))"

definition expected_cells :: "adaptive_cell_view_t \<Rightarrow> adaptive_cell_view_t \<Rightarrow> u32 list" where
  "expected_cells left right = remdups_adj (sort (vw_logical_cells left @ vw_logical_cells right))"

text \<open>The conditions on the replacement; \<open>capacity_for_population\<close> may throw.\<close>

definition replacement_fits ::
  "adaptive_cell_snapshot_t \<Rightarrow> adaptive_cell_view_t \<Rightarrow> adaptive_cell_view_t \<Rightarrow> adaptive_cell_view_t \<Rightarrow> exn + bool" where
  "replacement_fits current left right r =
     (if vw_view_id left = vw_view_id right \<or> \<not> vw_ready r
         \<or> vw_generation r \<noteq> sn_generation current + 1 \<or> length (vw_page_runs r) \<noteq> 1
         \<or> vw_node_count r \<noteq> vw_node_count left + vw_node_count right then Inr False
      else bindE (capacity_for_population (vw_node_count r)) (\<lambda>capacity.
        Inr (\<not> (vw_capacity_class r \<noteq> capacity \<or> vw_logical_cells r \<noteq> expected_cells left right
          \<or> ((vw_vector_nodes r \<noteq> [] \<or> vw_vector_locations r \<noteq> [])
             \<and> (length (vw_vector_nodes r) \<noteq> unat (vw_node_count r)
                \<or> length (vw_vector_locations r) \<noteq> length (vw_vector_nodes r)
                \<or> vw_payload_checksum r = 0 \<or> vw_directory_checksum r = 0
                \<or> \<not> sorted (vw_vector_nodes r) \<or> \<not> distinct_adj (vw_vector_nodes r)))))))"

text \<open>\<open>try_publish\<close> up to the exchange: the snapshot it read and the one it offers.\<close>

definition prepare_publish ::
  "u32 \<Rightarrow> adaptive_cell_view_t \<Rightarrow> adaptive_cell_runtime_t \<Rightarrow> exn + (nat \<times> adaptive_cell_snapshot_t) option" where
  "prepare_publish candidate replacement s =
     (let pair = ar_candidates s ! unat candidate; k = acquire s; current = snapshot_at s k in
      bindE (snapshot_cell current (mc_left pair)) (\<lambda>left.
      bindE (snapshot_cell current (mc_right pair)) (\<lambda>right.
      bindE (replacement_fits current left right replacement) (\<lambda>ok.
        Inr (if \<not> ok then None
             else map_option (Pair k) (next_snapshot current replacement (expected_cells left right)))))))"

text \<open>The exchange of the snapshot pointer and what follows it.\<close>

definition publish_cas ::
  "nat \<Rightarrow> adaptive_cell_snapshot_t \<Rightarrow> bool \<Rightarrow> adaptive_cell_runtime_t \<Rightarrow> bool \<times> adaptive_cell_runtime_t" where
  "publish_cas expected next has_vectors s =
     (if acquire s \<noteq> expected then (False, s\<lparr>ar_conflicts := ar_conflicts s + 1\<rparr>)
      else
        let s1 = s\<lparr>ar_snapshots := ar_snapshots s @ [next], ar_successful := ar_successful s + 1\<rparr>;
            s2 = (if ar_successful s1 \<ge> ucast (cf_maximum_publishes (ar_config s1))
                  then s1\<lparr>ar_final := Some (acquire s1)\<rparr> else s1)
        in (True, if has_vectors then s2\<lparr>ar_physical_generations := ar_physical_generations s2 + 1\<rparr> else s2))"

definition try_publish ::
  "(real \<Rightarrow> real) \<Rightarrow> u32 \<Rightarrow> adaptive_cell_view_t option \<Rightarrow> bool \<Rightarrow> adaptive_cell_runtime_t
    \<Rightarrow> (adaptive_cell_runtime_t, bool) outcome" where
  "try_publish rnd candidate replacement force s =
     (case replacement of None \<Rightarrow> (Inr False, s)
      | Some r \<Rightarrow>
          (case publish_gate rnd candidate force s of
             Inl e \<Rightarrow> (Inl e, s)
           | Inr False \<Rightarrow> (Inr False, s)
           | Inr True \<Rightarrow>
               let s1 = s\<lparr>ar_publish_attempts := ar_publish_attempts s + 1\<rparr> in
               (case prepare_publish candidate r s1 of
                  Inl e \<Rightarrow> (Inl e, s1)
                | Inr None \<Rightarrow> (Inr False, s1)
                | Inr (Some (k, next)) \<Rightarrow>
                    (case publish_cas k next (vw_vector_nodes r \<noteq> []) s1 of (b, s2) \<Rightarrow> (Inr b, s2)))))"

end
