(* ===== verification/Adaptive_Physical.thy ===== *)
theory Adaptive_Physical
  imports Adaptive_Cells Disk_Manager
begin

text \<open>
  The background builder of \<open>adaptive_cell_runtime_t\<close> (src/index/adaptive_cell_runtime.cc): it packs the vectors of
  two merged cells into new pages of the overlay file, verifies them, records the generation and publishes.
  A step of the builder and the steps of other threads interleave in \<open>adaptive_step\<close>.
\<close>

subsection \<open>The replacement without new pages\<close>

definition make_contiguous_replacement :: "u32 \<Rightarrow> adaptive_cell_runtime_t \<Rightarrow> exn + adaptive_cell_view_t option" where
  "make_contiguous_replacement candidate s =
     (let current = snapshot_at s (acquire s); pair = ar_candidates s ! unat candidate in
      bindE (snapshot_cell current (mc_left pair)) (\<lambda>left.
      bindE (snapshot_cell current (mc_right pair)) (\<lambda>right.
      if vw_view_id left = vw_view_id right \<or> length (vw_page_runs left) \<noteq> 1 \<or> length (vw_page_runs right) \<noteq> 1
      then Inr None
      else
        let l = hd (vw_page_runs left); r = hd (vw_page_runs right);
            left_before = (run_first_page l + ucast (run_page_count l) = run_first_page r);
            right_before = (run_first_page r + ucast (run_page_count r) = run_first_page l) in
        if \<not> left_before \<and> \<not> right_before then Inr None
        else bindE (capacity_for_population (vw_node_count left + vw_node_count right)) (\<lambda>capacity.
          Inr (Some \<lparr>vw_view_id = push_bit 32 (sn_generation current + 1) OR ucast (min (mc_left pair) (mc_right pair)),
            vw_generation = sn_generation current + 1, vw_capacity_class = capacity,
            vw_node_count = vw_node_count left + vw_node_count right, vw_ready = True,
            vw_logical_cells = expected_cells left right,
            vw_page_runs = [\<lparr>run_first_page = min (run_first_page l) (run_first_page r),
              run_page_count = run_page_count l + run_page_count r\<rparr>],
            vw_vector_nodes = [], vw_vector_locations = [], vw_payload_checksum = 0, vw_directory_checksum = 0\<rparr>)))))"

subsection \<open>Packing the vectors\<close>

text \<open>\<open>pread_exact\<close> throws behind the end of the file.\<close>

definition pread_exact :: "u8 list \<Rightarrow> u64 \<Rightarrow> nat \<Rightarrow> exn + u8 list" where
  "pread_exact file_bytes offset n =
     (if unat offset + n \<le> length file_bytes then Inr (take n (drop (unat offset) file_bytes)) else Inl Runtime_error)"

definition read_stored_vector :: "adaptive_physical_t \<Rightarrow> io_vector_location_t \<Rightarrow> exn + u8 list" where
  "read_stored_vector ph l =
     (let is_overlay = (loc_page_id l \<ge> ph_base_page_count ph);
          source_page = (if is_overlay then loc_page_id l - ph_base_page_count ph else loc_page_id l)
      in pread_exact (if is_overlay then ph_overlay ph else ph_base_file ph)
           (source_page * ucast k_io_vector_page_size + ucast (loc_page_offset l)) (unat (ph_vector_bytes ph)))"

definition slot_location :: "adaptive_physical_t \<Rightarrow> u64 \<Rightarrow> u32 \<Rightarrow> u64 \<Rightarrow> io_vector_location_t" where
  "slot_location ph local_first_page vectors_per_page ordinal =
     \<lparr>loc_page_id = ph_base_page_count ph + local_first_page + ordinal div ucast vectors_per_page,
      loc_page_offset = ucast (ordinal mod ucast vectors_per_page) * ph_vector_bytes ph\<rparr>"

definition slot_offset :: "u32 \<Rightarrow> u64 \<Rightarrow> u32 \<Rightarrow> nat" where
  "slot_offset vectors_per_page ordinal vector_bytes =
     unat (ordinal div ucast vectors_per_page * ucast k_io_vector_page_size
       + ucast (ucast (ordinal mod ucast vectors_per_page) * vector_bytes :: u32))"

text \<open>The loop over the packed nodes: the payload and the directory.\<close>

fun pack_nodes ::
  "adaptive_physical_t \<Rightarrow> adaptive_cell_snapshot_t \<Rightarrow> u64 \<Rightarrow> u32 \<Rightarrow> u64 \<Rightarrow> u32 list \<Rightarrow> u8 list
    \<Rightarrow> exn + (u8 list \<times> (u32 \<times> io_vector_location_t) list)" where
  "pack_nodes ph current local_first_page vectors_per_page ordinal [] payload = Inr (payload, [])"
| "pack_nodes ph current local_first_page vectors_per_page ordinal (node # nodes) payload =
     bindE (vector_location (ph_base_index ph) node) (\<lambda>fallback.
     bindE (read_stored_vector ph (snapshot_vector_location current node fallback)) (\<lambda>bytes.
     bindE (pack_nodes ph current local_first_page vectors_per_page (ordinal + 1) nodes
              (write_at (slot_offset vectors_per_page ordinal (ph_vector_bytes ph)) bytes payload)) (\<lambda>(out, directory).
       Inr (out, (node, slot_location ph local_first_page vectors_per_page ordinal) # directory))))"

definition directory_checksum :: "(u32 \<times> io_vector_location_t) list \<Rightarrow> u64" where
  "directory_checksum directory =
     foldl (\<lambda>h (n, l). hash_bytes (hash_bytes (hash_bytes h (le_bytes 4 n)) (le_bytes 8 (loc_page_id l)))
              (le_bytes 4 (loc_page_offset l))) k_fnv_offset_basis directory"

definition generation_manifest :: "adaptive_cell_view_t \<Rightarrow> u8 list" where
  "generation_manifest r =
     (let body = le_bytes 8 (0x314E4547434C4350 :: u64) @ le_bytes 4 (1 :: u32) @ le_bytes 8 (vw_generation r)
            @ le_bytes 8 (run_first_page (hd (vw_page_runs r))) @ le_bytes 4 (run_page_count (hd (vw_page_runs r)))
            @ le_bytes 4 (vw_node_count r) @ le_bytes 8 (vw_payload_checksum r) @ le_bytes 8 (vw_directory_checksum r)
            @ concat (map (\<lambda>(n, l). le_bytes 4 n @ le_bytes 8 (loc_page_id l) @ le_bytes 4 (loc_page_offset l))
                (zip (vw_vector_nodes r) (vw_vector_locations r)))
      in body @ le_bytes 8 (checksum_bytes body))"

text \<open>What the operating system does with the writes: \<open>overlay_fault = Some k\<close> if \<open>pwrite\<close> fails after \<open>k\<close> bytes.\<close>

record adaptive_io_t =
  overlay_fault :: "nat option"
  overlay_sync_fault :: bool
  manifest_fault :: bool

abbreviation set_physical :: "adaptive_physical_t \<Rightarrow> adaptive_cell_runtime_t \<Rightarrow> adaptive_cell_runtime_t" where
  "set_physical ph s \<equiv> s\<lparr>ar_physical := Some ph\<rparr>"

text \<open>Writing, verifying and recording a packed payload.\<close>

definition finish_replacement ::
  "adaptive_io_t \<Rightarrow> adaptive_cell_snapshot_t \<Rightarrow> adaptive_cell_merge_candidate_t \<Rightarrow> u32 list \<Rightarrow> u64 \<Rightarrow> u64 \<Rightarrow> u8 list
    \<Rightarrow> (u32 \<times> io_vector_location_t) list \<Rightarrow> adaptive_physical_t \<Rightarrow> adaptive_cell_runtime_t
    \<Rightarrow> (adaptive_cell_runtime_t, adaptive_cell_view_t option) outcome" where
  "finish_replacement io current pair logical_cells local_first_page page_count payload directory ph s =
     (let offset = unat (local_first_page * ucast k_io_vector_page_size) in
      case overlay_fault io of
        Some k \<Rightarrow> (Inl Runtime_error, set_physical (ph\<lparr>ph_overlay := write_at offset (take k payload) (ph_overlay ph)\<rparr>) s)
      | None \<Rightarrow>
          let ph1 = ph\<lparr>ph_overlay := write_at offset payload (ph_overlay ph)\<rparr>; s1 = set_physical ph1 s in
          if overlay_sync_fault io then (Inl Runtime_error, s1)
          else
            (case pread_exact (ph_overlay ph1) (local_first_page * ucast k_io_vector_page_size) (length payload) of
               Inl e \<Rightarrow> (Inl e, s1)
             | Inr verified \<Rightarrow>
                 if checksum_bytes payload \<noteq> checksum_bytes verified
                 then (Inl Runtime_error, s1\<lparr>ar_checksum_failures := ar_checksum_failures s1 + 1\<rparr>)
                 else
                   let sorted_directory = sort_key fst directory in
                   (case capacity_for_population (of_nat (length directory)) of
                      Inl e \<Rightarrow> (Inl e, s1)
                    | Inr capacity \<Rightarrow>
                        let r = \<lparr>vw_view_id = push_bit 32 (sn_generation current + 1) OR ucast (min (mc_left pair) (mc_right pair)),
                              vw_generation = sn_generation current + 1, vw_capacity_class = capacity,
                              vw_node_count = of_nat (length directory), vw_ready = True, vw_logical_cells = logical_cells,
                              vw_page_runs = [\<lparr>run_first_page = ph_base_page_count ph1 + local_first_page,
                                run_page_count = ucast page_count\<rparr>],
                              vw_vector_nodes = map fst sorted_directory, vw_vector_locations = map snd sorted_directory,
                              vw_payload_checksum = checksum_bytes payload,
                              vw_directory_checksum = directory_checksum sorted_directory\<rparr>;
                            manifest = generation_manifest r in
                        if manifest_fault io then (Inl Runtime_error, s1)
                        else (Inr (Some r), set_physical (ph1\<lparr>ph_generation_file := Some manifest\<rparr>)
                               (s1\<lparr>ar_bytes_written := ar_bytes_written s1 + of_nat (length payload + length manifest)\<rparr>)))))"

definition packed_nodes :: "adaptive_physical_t \<Rightarrow> u32 list \<Rightarrow> u32 list option" where
  "packed_nodes ph cells =
     (if list_ex (\<lambda>c. unat c \<ge> length (ph_cell_nodes ph)) cells then None
      else Some (concat (map (\<lambda>c. ph_cell_nodes ph ! unat c) cells)))"

definition packed_run ::
  "adaptive_io_t \<Rightarrow> adaptive_cell_snapshot_t \<Rightarrow> adaptive_cell_merge_candidate_t \<Rightarrow> u32 list \<Rightarrow> u32 list \<Rightarrow> adaptive_physical_t
    \<Rightarrow> adaptive_cell_runtime_t \<Rightarrow> (adaptive_cell_runtime_t, adaptive_cell_view_t option) outcome" where
  "packed_run io current pair cells nodes ph s =
     (let vectors_per_page = k_io_vector_page_size div ph_vector_bytes ph;
          page_count = (of_nat (length nodes) + ucast vectors_per_page - 1) div ucast vectors_per_page;
          local_first_page = ph_next_overlay_page ph;
          ph1 = ph\<lparr>ph_next_overlay_page := ph_next_overlay_page ph + page_count\<rparr>;
          s1 = set_physical ph1 s in
      (case pack_nodes ph1 current local_first_page vectors_per_page 0 nodes
              (replicate (unat (page_count * ucast k_io_vector_page_size)) 0) of
         Inl e \<Rightarrow> (Inl e, s1)
       | Inr (payload, directory) \<Rightarrow>
           finish_replacement io current pair cells local_first_page page_count payload directory ph1 s1))"

definition make_physical_replacement ::
  "adaptive_io_t \<Rightarrow> u32 \<Rightarrow> adaptive_cell_runtime_t \<Rightarrow> (adaptive_cell_runtime_t, adaptive_cell_view_t option) outcome" where
  "make_physical_replacement io candidate s =
     (case ar_physical s of
        None \<Rightarrow> (make_contiguous_replacement candidate s, s)
      | Some ph \<Rightarrow>
          let current = snapshot_at s (acquire s); pair = ar_candidates s ! unat candidate in
          (case bindE (snapshot_cell current (mc_left pair)) (\<lambda>left.
                bindE (snapshot_cell current (mc_right pair)) (\<lambda>right. Inr (left, right))) of
             Inl e \<Rightarrow> (Inl e, s)
           | Inr (left, right) \<Rightarrow>
               if vw_view_id left = vw_view_id right then (Inr None, s)
               else
                 let cells = expected_cells left right in
                 (case packed_nodes ph cells of
                    None \<Rightarrow> (Inr None, s)
                  | Some nodes \<Rightarrow>
                      if length nodes \<noteq> unat (vw_node_count left + vw_node_count right)
                        \<or> k_io_vector_page_size div ph_vector_bytes ph = 0 then (Inr None, s)
                      else packed_run io current pair cells nodes ph s)))"

end
