(* ===== verification/Adaptive_Lookup.thy ===== *)
theory Adaptive_Lookup
  imports Adaptive_Physical
begin

text \<open>
  What a snapshot answers: the filter in front of the directory has no false negatives, so a lookup finds every
  entry of the directory, and the next snapshot answers with the entries of the replacement over the old ones.
\<close>

unbundle bit_operations_syntax

subsection \<open>The filter\<close>

lemma filter_bit_iff: "filter_bit f k \<longleftrightarrow> bit (f ! unat (k div 64)) (unat (k mod 64))"
  by (simp add: filter_bit_def push_bit_eq_mult and_exp_eq_0_iff_not_bit)

lemma length_set_filter_bit [simp]: "length (set_filter_bit k f) = length f"
  by (simp add: set_filter_bit_def)

lemma set_filter_bit_keeps: "filter_bit f k \<Longrightarrow> filter_bit (set_filter_bit j f) k"
  unfolding filter_bit_iff set_filter_bit_def
  by (cases "unat (j div 64) < length f")
    (auto simp: nth_list_update list_update_beyond bit_or_iff)

lemma set_filter_bit_sets:
  assumes "unat (k div 64) < length f"
  shows "filter_bit (set_filter_bit k f) k"
proof -
  have "unat (k mod 64) < 64" by (simp add: unat_mod)
  then show ?thesis using assms unfolding filter_bit_iff set_filter_bit_def
    by (simp add: bit_or_iff bit_push_bit_iff bit_exp_iff)
qed

lemma filter_index: "unat (x mod k_override_filter_bits div 64) < 64"
proof -
  have "unat x mod 4096 < 4096" by simp
  then have "unat x mod 4096 div 64 < 64" by linarith
  then show ?thesis by (simp add: k_override_filter_bits_def unat_div unat_mod)
qed

lemma length_filter_insert [simp]: "length (filter_insert f n) = length f"
  by (simp add: filter_insert_def Let_def)

lemma filter_insert_keeps: "filter_contains f n \<Longrightarrow> filter_contains (filter_insert f m) n"
  by (simp add: filter_contains_def filter_insert_def Let_def set_filter_bit_keeps)

lemma filter_insert_contains: "length f = 64 \<Longrightarrow> filter_contains (filter_insert f n) n"
  by (simp add: filter_contains_def filter_insert_def Let_def set_filter_bit_keeps set_filter_bit_sets filter_index)

lemma length_filter_foldl [simp]: "length (foldl filter_insert f ns) = length f"
  by (induction ns arbitrary: f) simp_all

lemma filter_foldl_contains:
  "length f = 64 \<Longrightarrow> n \<in> set ns \<or> filter_contains f n \<Longrightarrow> filter_contains (foldl filter_insert f ns) n"
  by (induction ns arbitrary: f) (auto simp: filter_insert_keeps filter_insert_contains)

subsection \<open>The directory\<close>

lemma lower_bound_found:
  assumes "sorted xs" "distinct xs"
  shows "x \<in> set xs \<Longrightarrow> lower_bound xs x < length xs \<and> xs ! lower_bound xs x = x"
    "x \<notin> set xs \<Longrightarrow> lower_bound xs x = length xs \<or> xs ! lower_bound xs x \<noteq> x"
proof -
  show "lower_bound xs x < length xs \<and> xs ! lower_bound xs x = x" if "x \<in> set xs"
    using assms that unfolding lower_bound_def
    by (induction xs) (auto simp: order_le_less)
  have "lower_bound xs x \<le> length xs" by (simp add: lower_bound_def length_takeWhile_le)
  then show "x \<notin> set xs \<Longrightarrow> lower_bound xs x = length xs \<or> xs ! lower_bound xs x \<noteq> x"
    by (metis nth_mem le_neq_implies_less)
qed

definition directory_of :: "adaptive_cell_snapshot_t \<Rightarrow> u32 \<rightharpoonup> io_vector_location_t" where
  "directory_of sn = map_of (zip (sn_override_nodes sn) (sn_override_locations sn))"

definition directory_ok :: "adaptive_cell_snapshot_t \<Rightarrow> bool" where
  "directory_ok sn \<longleftrightarrow> sorted (sn_override_nodes sn) \<and> distinct (sn_override_nodes sn)
     \<and> length (sn_override_locations sn) = length (sn_override_nodes sn)
     \<and> (\<forall>n \<in> set (sn_override_nodes sn). filter_contains (sn_override_filter sn) n)"

lemma snapshot_vector_location_eq:
  assumes "directory_ok sn"
  shows "snapshot_vector_location sn n fallback = (case directory_of sn n of None \<Rightarrow> fallback | Some l \<Rightarrow> l)"
proof -
  note d = assms [unfolded directory_ok_def]
  let ?ns = "sn_override_nodes sn" and ?ls = "sn_override_locations sn"
  show ?thesis
  proof (cases "n \<in> set ?ns")
    case True
    have lb: "lower_bound ?ns n < length ?ns" "?ns ! lower_bound ?ns n = n"
      using lower_bound_found(1) [OF _ _ True] d by auto
    have "directory_of sn n = Some (?ls ! lower_bound ?ns n)"
      unfolding directory_of_def using d lb map_of_zip_nth [of ?ns ?ls "lower_bound ?ns n"] by simp
    then show ?thesis using True d lb by (simp add: snapshot_vector_location_def Let_def)
  next
    case False
    then have "directory_of sn n = None" by (simp add: directory_of_def d)
    then show ?thesis using lower_bound_found(2) [OF _ _ False] d
      by (auto simp: snapshot_vector_location_def Let_def)
  qed
qed

lemma directory_entries_eq:
  "length ls = length ns \<Longrightarrow> directory_entries ns ls d = d ++ map_of (rev (zip ns ls))"
  by (induction ns ls d rule: directory_entries.induct) (auto simp: map_add_assoc)

lemma map_of_rev_zip:
  assumes "distinct ns" "length ls = length ns"
  shows "map_of (rev (zip ns ls)) = map_of (zip ns ls)"
  by (rule map_of_inject_set [THEN iffD2]) (use assms in \<open>simp_all add: rev_map [symmetric]\<close>)

lemma distinct_sorted_unique: "distinct (remdups_adj (sort (xs :: 'a::linorder list)))"
  using remdups_adj_strict [of "sort xs"] by (simp add: strict_sorted_iff)

text \<open>The next snapshot.\<close>

lemma next_snapshot_directory:
  assumes ok: "directory_ok current" and r: "sorted (vw_vector_nodes r)" "distinct (vw_vector_nodes r)"
      "length (vw_vector_locations r) = length (vw_vector_nodes r)"
    and n: "next_snapshot current r cells = Some sn"
  shows "directory_ok sn" "directory_of sn = directory_of current ++ map_of (zip (vw_vector_nodes r) (vw_vector_locations r))"
proof -
  let ?d = "directory_of current ++ map_of (zip (vw_vector_nodes r) (vw_vector_locations r))"
  let ?ns = "remdups_adj (sort (sn_override_nodes current @ vw_vector_nodes r))"
  note o = ok [unfolded directory_ok_def]
  have e: "directory_entries (vw_vector_nodes r) (vw_vector_locations r)
      (directory_entries (sn_override_nodes current) (sn_override_locations current) Map.empty) = ?d"
    using o r by (simp add: directory_entries_eq map_of_rev_zip directory_of_def)
  have set: "set ?ns = set (sn_override_nodes current) \<union> set (vw_vector_nodes r)" by simp
  have dom: "dom ?d = set ?ns" using o r(3) by (auto simp: directory_of_def)
  have m: "merged_directory current r = map (\<lambda>n. (n, the (?d n))) ?ns"
    by (simp add: merged_directory_def e)
  have f: "sn_override_nodes sn = ?ns" "sn_override_locations sn = map (\<lambda>n. the (?d n)) ?ns"
    "sn_override_filter sn = foldl filter_insert (replicate 64 0) ?ns"
    using n by (auto simp: next_snapshot_def m Let_def comp_def split: option.splits)
  show "directory_ok sn"
    unfolding directory_ok_def f by (auto intro: filter_foldl_contains simp: sorted_remdups_adj distinct_sorted_unique)
  show "directory_of sn = ?d"
  proof
    fix x
    show "directory_of sn x = ?d x"
    proof (cases "x \<in> set ?ns")
      case True
      then obtain y where "?d x = Some y" using dom by (metis domD)
      then show ?thesis using True by (simp add: directory_of_def f map_of_zip_map)
    next
      case False
      then have "?d x = None" using dom by (metis domIff)
      moreover have "directory_of sn x = None" using False by (simp add: directory_of_def f map_of_zip_map)
      ultimately show ?thesis by (simp only:)
    qed
  qed
qed

end
