(* ===== verification/Adaptive_Steps.thy ===== *)
theory Adaptive_Steps
  imports Adaptive_Lookup
begin

text \<open>
  Interleavings of the threads that use one \<open>adaptive_cell_runtime_t\<close> (src/index/adaptive_cell_runtime.cc), and the
  mapping table they share: in every snapshot that was ever published the logical cells are partitioned into views.
\<close>

subsection \<open>Steps\<close>

text \<open>A publication in progress: past the first condition of \<open>try_publish\<close>, or about to exchange the pointer.\<close>

datatype publication_t =
    Gated u32 adaptive_cell_view_t
  | Offering nat adaptive_cell_snapshot_t bool

text \<open>The single background thread, and the threads that call \<open>try_publish\<close> themselves.\<close>

datatype builder_t = Waiting | Built u32 adaptive_cell_view_t | Publishing publication_t

record adaptive_system_t =
  as_runtime :: adaptive_cell_runtime_t
  as_builder :: builder_t
  as_clients :: "publication_t list"

definition count_attempt :: "adaptive_cell_runtime_t \<Rightarrow> adaptive_cell_runtime_t" where
  "count_attempt s = s\<lparr>ar_publish_attempts := ar_publish_attempts s + 1\<rparr>"

lemma count_attempt_physical [simp]: "ar_physical (count_attempt s) = ar_physical s"
  by (simp add: count_attempt_def)

text \<open>The next step of a publication: it ends, or goes on as the second component.\<close>

fun publication_step ::
  "publication_t \<Rightarrow> adaptive_cell_runtime_t \<Rightarrow> publication_t option \<times> adaptive_cell_runtime_t" where
  "publication_step (Gated candidate r) s =
     (case prepare_publish candidate r s of
        Inr (Some (k, next)) \<Rightarrow> (Some (Offering k next (vw_vector_nodes r \<noteq> [])), s)
      | _ \<Rightarrow> (None, s))"
| "publication_step (Offering k next has_vectors) s = (None, snd (publish_cas k next has_vectors s))"

text \<open>\<open>clients\<close> says which replacements the other threads offer.\<close>

inductive adaptive_step ::
  "(real \<Rightarrow> real) \<Rightarrow> (adaptive_cell_view_t \<Rightarrow> bool) \<Rightarrow> adaptive_system_t \<Rightarrow> adaptive_system_t \<Rightarrow> bool"
  for rnd clients where
  query: "observe_query rnd cells (as_runtime sy) = Inr s \<Longrightarrow>
    adaptive_step rnd clients sy (sy\<lparr>as_runtime := s\<rparr>)"
| observe: "adaptive_step rnd clients sy (sy\<lparr>as_runtime := observe candidate l r fp mp fu mu (as_runtime sy)\<rparr>)"
| build: "as_builder sy = Waiting \<Longrightarrow> cf_enabled (ar_config (as_runtime sy)) \<Longrightarrow>
    cf_background (ar_config (as_runtime sy)) \<Longrightarrow> unat candidate < length (ar_candidates (as_runtime sy)) \<Longrightarrow>
    ar_pending (as_runtime sy) ! unat candidate \<Longrightarrow>
    (\<forall>ph. ar_physical (as_runtime sy) = Some ph \<longrightarrow> unat (ph_next_overlay_page ph) < 2251799813685248) \<Longrightarrow>
    make_physical_replacement io candidate (set_pending candidate False (as_runtime sy)) = (res, s) \<Longrightarrow>
    adaptive_step rnd clients sy
      (sy\<lparr>as_runtime := s, as_builder := (case res of Inr (Some r) \<Rightarrow> Built candidate r | _ \<Rightarrow> Waiting)\<rparr>)"
| gate: "as_builder sy = Built candidate r \<Longrightarrow>
    publish_gate rnd candidate (ar_forced_candidate (as_runtime sy) = candidate) (as_runtime sy) = Inr ok \<Longrightarrow>
    adaptive_step rnd clients sy
      (if ok then sy\<lparr>as_runtime := count_attempt (as_runtime sy), as_builder := Publishing (Gated candidate r)\<rparr>
       else sy\<lparr>as_builder := Waiting\<rparr>)"
| publish: "as_builder sy = Publishing p \<Longrightarrow> publication_step p (as_runtime sy) = (next, s) \<Longrightarrow>
    adaptive_step rnd clients sy
      (sy\<lparr>as_runtime := s, as_builder := (case next of None \<Rightarrow> Waiting | Some q \<Rightarrow> Publishing q)\<rparr>)"
| client_gate: "clients r \<Longrightarrow> publish_gate rnd candidate force (as_runtime sy) = Inr True \<Longrightarrow>
    adaptive_step rnd clients sy
      (sy\<lparr>as_runtime := count_attempt (as_runtime sy), as_clients := as_clients sy @ [Gated candidate r]\<rparr>)"
| client_publish: "k < length (as_clients sy) \<Longrightarrow> publication_step (as_clients sy ! k) (as_runtime sy) = (next, s) \<Longrightarrow>
    adaptive_step rnd clients sy
      (sy\<lparr>as_runtime := s, as_clients := (case next of
          None \<Rightarrow> take k (as_clients sy) @ drop (Suc k) (as_clients sy)
        | Some q \<Rightarrow> (as_clients sy)[k := q])\<rparr>)"

text \<open>A publication that no other step interleaves is \<open>try_publish\<close>.\<close>

lemma try_publish_steps:
  assumes "publish_gate rnd candidate force s = Inr True"
  shows "snd (try_publish rnd candidate (Some r) force s)
    = (case publication_step (Gated candidate r) (count_attempt s) of
         (None, s1) \<Rightarrow> s1
       | (Some p, s1) \<Rightarrow> snd (publication_step p s1))"
  using assms by (auto simp: try_publish_def count_attempt_def Let_def split: sum.splits option.splits prod.splits)

text \<open>A whole merge: a query observes, the builder makes the replacement and publishes it.\<close>

lemma merge_run:
  assumes "observe_query rnd cells s = Inr s1" "ar_pending s1 ! unat c" "unat c < length (ar_candidates s1)"
    "cf_enabled (ar_config s1)" "cf_background (ar_config s1)"
    "\<forall>ph. ar_physical s1 = Some ph \<longrightarrow> unat (ph_next_overlay_page ph) < 2251799813685248"
    "make_physical_replacement io c (set_pending c False s1) = (Inr (Some r), s2)"
    "publish_gate rnd c (ar_forced_candidate s2 = c) s2 = Inr True"
    "prepare_publish c r (count_attempt s2) = Inr (Some (k, nx))"
  shows "\<exists>sy. (adaptive_step rnd clients)\<^sup>*\<^sup>* \<lparr>as_runtime = s, as_builder = Waiting, as_clients = []\<rparr> sy
    \<and> as_runtime sy = snd (publish_cas k nx (vw_vector_nodes r \<noteq> []) (count_attempt s2))"
proof -
  let ?sy = "\<lambda>s b. \<lparr>as_runtime = s, as_builder = b, as_clients = []\<rparr>"
  let ?step = "adaptive_step rnd clients"
  have "?step (?sy s Waiting) (?sy s1 Waiting)"
    using adaptive_step.query [of rnd cells "?sy s Waiting" s1] assms(1) by simp
  moreover have "?step (?sy s1 Waiting) (?sy s2 (Built c r))"
    using adaptive_step.build [of "?sy s1 Waiting" c io "Inr (Some r)" s2] assms(2-7) by simp
  moreover have "?step (?sy s2 (Built c r)) (?sy (count_attempt s2) (Publishing (Gated c r)))"
    using adaptive_step.gate [of "?sy s2 (Built c r)" c r rnd True] assms(8) by simp
  moreover have "?step (?sy (count_attempt s2) (Publishing (Gated c r)))
      (?sy (count_attempt s2) (Publishing (Offering k nx (vw_vector_nodes r \<noteq> []))))"
    using adaptive_step.publish [of "?sy (count_attempt s2) (Publishing (Gated c r))" "Gated c r" "Some (Offering k nx (vw_vector_nodes r \<noteq> []))"
        "count_attempt s2"] assms(9) by simp
  moreover have "?step (?sy (count_attempt s2) (Publishing (Offering k nx (vw_vector_nodes r \<noteq> []))))
      (?sy (snd (publish_cas k nx (vw_vector_nodes r \<noteq> []) (count_attempt s2))) Waiting)"
    using adaptive_step.publish [of "?sy (count_attempt s2) (Publishing (Offering k nx (vw_vector_nodes r \<noteq> [])))"
        "Offering k nx (vw_vector_nodes r \<noteq> [])" None] by simp
  ultimately have "?step\<^sup>*\<^sup>* (?sy s Waiting) (?sy (snd (publish_cas k nx (vw_vector_nodes r \<noteq> []) (count_attempt s2))) Waiting)"
    by (meson converse_rtranclp_into_rtranclp rtranclp.rtrancl_refl)
  then show ?thesis by (intro exI [of _ "?sy (snd (publish_cas k nx (vw_vector_nodes r \<noteq> []) (count_attempt s2))) Waiting"]) simp
qed

subsection \<open>What the steps leave alone\<close>

definition same_snapshots :: "adaptive_cell_runtime_t \<Rightarrow> adaptive_cell_runtime_t \<Rightarrow> bool" where
  "same_snapshots s t \<longleftrightarrow> ar_snapshots t = ar_snapshots s \<and> ar_candidates t = ar_candidates s \<and> ar_config t = ar_config s
     \<and> ar_physical t = ar_physical s"

lemma same_snapshots_refl [simp]: "same_snapshots s s"
  by (simp add: same_snapshots_def)

lemma same_snapshots_trans: "same_snapshots s t \<Longrightarrow> same_snapshots t u \<Longrightarrow> same_snapshots s u"
  by (simp add: same_snapshots_def)

lemma observe_same [simp]: "same_snapshots s (observe c l r fp mp fu mu s)"
  by (simp add: observe_def same_snapshots_def Let_def)

lemma set_pending_same [simp]: "same_snapshots s (set_pending c b s)"
  by (simp add: set_pending_def same_snapshots_def)

lemma observe_candidate_same: "observe_candidate rnd cells c s = Inr t \<Longrightarrow> same_snapshots s t"
  by (auto simp: observe_candidate_def Let_def bindE_eq_Inr split: if_splits
      intro: same_snapshots_trans [OF observe_same set_pending_same])

lemma observe_candidates_same: "observe_candidates rnd cells cs s = Inr t \<Longrightarrow> same_snapshots s t"
proof (induction cs arbitrary: s)
  case (Cons c cs)
  then show ?case
    by (auto simp: bindE_eq_Inr split: if_splits intro: same_snapshots_trans [OF observe_candidate_same])
qed simp

lemma observe_query_same:
  assumes "observe_query rnd cells s = Inr t"
  shows "same_snapshots s t"
proof -
  have f: "same_snapshots s (set_pending c True (s\<lparr>ar_forced_queued := True, ar_forced_candidate := c\<rparr>))" for c
    by (simp add: set_pending_def same_snapshots_def)
  from assms show ?thesis
    by (auto simp: observe_query_def Let_def split: if_splits
        intro: observe_candidates_same same_snapshots_trans [OF f observe_candidates_same])
qed

lemma make_physical_same:
  assumes "make_physical_replacement io candidate s = (res, t)"
  shows "ar_snapshots t = ar_snapshots s \<and> ar_candidates t = ar_candidates s \<and> ar_config t = ar_config s"
proof -
  have f: "ar_snapshots t' = ar_snapshots s' \<and> ar_candidates t' = ar_candidates s' \<and> ar_config t' = ar_config s'"
    if "finish_replacement io cur pair cells first pages payload dir ph s' = (res', t')"
    for cur pair cells first pages payload dir ph s' res' t'
    using that by (auto simp: finish_replacement_def Let_def split: option.splits sum.splits if_splits)
  from assms show ?thesis
    by (auto simp: make_physical_replacement_def packed_run_def Let_def dest!: f split: option.splits sum.splits prod.splits if_splits)
qed

lemma acquire_last: "ar_snapshots s \<noteq> [] \<Longrightarrow> acquire s < length (ar_snapshots s)"
  by (simp add: acquire_def)

lemma publish_cas_cases:
  obtains (lost) "acquire s \<noteq> k" "ar_snapshots (snd (publish_cas k next hv s)) = ar_snapshots s"
  | (won) "acquire s = k" "ar_snapshots (snd (publish_cas k next hv s)) = ar_snapshots s @ [next]"
  by (cases "acquire s = k") (auto simp: publish_cas_def Let_def)

lemma publish_cas_rest:
  "ar_candidates (snd (publish_cas k next hv s)) = ar_candidates s" "ar_physical (snd (publish_cas k next hv s)) = ar_physical s"
  "ar_config (snd (publish_cas k next hv s)) = ar_config s"
  by (simp_all add: publish_cas_def Let_def)

lemma prepare_publish_Some:
  assumes "prepare_publish candidate r s = Inr (Some (k, next))"
  obtains left right where "k = acquire s" "snapshot_cell (snapshot_at s k) (mc_left (ar_candidates s ! unat candidate)) = Inr left"
    "snapshot_cell (snapshot_at s k) (mc_right (ar_candidates s ! unat candidate)) = Inr right"
    "replacement_fits (snapshot_at s k) left right r = Inr True"
    "next_snapshot (snapshot_at s k) r (expected_cells left right) = Some next"
  using assms by (auto simp: prepare_publish_def Let_def bindE_eq_Inr split: if_splits)

subsection \<open>Properties of published snapshots\<close>

text \<open>
  The contract behind every statement on published snapshots: \<open>good\<close> holds of a snapshot, \<open>sound\<close> of a replacement,
  both relative to the state of the files; merging a sound replacement into a good snapshot gives a good one, and
  the builder makes sound replacements without harming what is good.
\<close>

locale snapshot_contract =
  fixes good :: "adaptive_physical_t option \<Rightarrow> adaptive_cell_snapshot_t \<Rightarrow> bool"
    and sound :: "adaptive_physical_t option \<Rightarrow> adaptive_cell_view_t \<Rightarrow> bool"
    and clients :: "adaptive_cell_view_t \<Rightarrow> bool"
    and stable :: "adaptive_physical_t option \<Rightarrow> bool"
  assumes merge: "good ph current \<Longrightarrow> sound ph r \<Longrightarrow> snapshot_cell current l = Inr left \<Longrightarrow>
      snapshot_cell current c = Inr right \<Longrightarrow> replacement_fits current left right r = Inr True \<Longrightarrow>
      next_snapshot current r (expected_cells left right) = Some next \<Longrightarrow> good ph next"
    and client: "clients r \<Longrightarrow> sound ph r"
    and build: "stable (ar_physical s) \<Longrightarrow>
      (\<forall>ph. ar_physical s = Some ph \<longrightarrow> unat (ph_next_overlay_page ph) < 2251799813685248) \<Longrightarrow>
      good (ar_physical s) (snapshot_at s (acquire s)) \<Longrightarrow> make_physical_replacement io candidate s = (res, t) \<Longrightarrow>
      stable (ar_physical t) \<and> (\<forall>sn. good (ar_physical s) sn \<longrightarrow> good (ar_physical t) sn)
        \<and> (\<forall>r. sound (ar_physical s) r \<longrightarrow> sound (ar_physical t) r) \<and> (\<forall>r. res = Inr (Some r) \<longrightarrow> sound (ar_physical t) r)"
begin

definition snapshots_good :: "adaptive_cell_runtime_t \<Rightarrow> bool" where
  "snapshots_good s \<longleftrightarrow> stable (ar_physical s) \<and> ar_snapshots s \<noteq> []
     \<and> (\<forall>k < length (ar_snapshots s). good (ar_physical s) (ar_snapshots s ! k) \<and> sn_generation (ar_snapshots s ! k) = of_nat k)"

fun publication_good :: "adaptive_cell_runtime_t \<Rightarrow> publication_t \<Rightarrow> bool" where
  "publication_good s (Gated candidate r) \<longleftrightarrow> sound (ar_physical s) r"
| "publication_good s (Offering k next hv) \<longleftrightarrow> good (ar_physical s) next \<and> sn_generation next = of_nat (k + 1)"

fun builder_good :: "adaptive_cell_runtime_t \<Rightarrow> builder_t \<Rightarrow> bool" where
  "builder_good s Waiting \<longleftrightarrow> True"
| "builder_good s (Built candidate r) \<longleftrightarrow> sound (ar_physical s) r"
| "builder_good s (Publishing p) \<longleftrightarrow> publication_good s p"

definition system_good :: "adaptive_system_t \<Rightarrow> bool" where
  "system_good sy \<longleftrightarrow> snapshots_good (as_runtime sy) \<and> builder_good (as_runtime sy) (as_builder sy)
     \<and> list_all (publication_good (as_runtime sy)) (as_clients sy)"

lemma publication_good_mono:
  assumes "\<And>sn. good (ar_physical s) sn \<Longrightarrow> good (ar_physical t) sn" "\<And>r. sound (ar_physical s) r \<Longrightarrow> sound (ar_physical t) r"
  shows "publication_good s p \<Longrightarrow> publication_good t p" "builder_good s b \<Longrightarrow> builder_good t b"
    "list_all (publication_good s) ps \<Longrightarrow> list_all (publication_good t) ps"
proof -
  show p: "publication_good s p \<Longrightarrow> publication_good t p" for p using assms by (cases p) simp_all
  then show "builder_good s b \<Longrightarrow> builder_good t b" using assms by (cases b) simp_all
  show "list_all (publication_good s) ps \<Longrightarrow> list_all (publication_good t) ps" using p by (auto simp: list_all_iff)
qed

lemma same_good:
  assumes "same_snapshots s t" "snapshots_good s"
  shows "snapshots_good t" "publication_good s p \<Longrightarrow> publication_good t p" "builder_good s b \<Longrightarrow> builder_good t b"
    "list_all (publication_good s) ps \<Longrightarrow> list_all (publication_good t) ps"
  using assms publication_good_mono [of s t] by (simp_all add: same_snapshots_def snapshots_good_def)

lemma publication_step_good:
  assumes good: "snapshots_good s" and p: "publication_good s p" and step: "publication_step p s = (next, t)"
  shows "snapshots_good t" "ar_physical t = ar_physical s" "next = Some q \<Longrightarrow> publication_good t q"
proof -
  have "snapshots_good t \<and> ar_physical t = ar_physical s \<and> (\<forall>q. next = Some q \<longrightarrow> publication_good t q)"
  proof (cases p)
    case (Gated candidate r)
    have t: "t = s" using step Gated by (auto split: sum.splits option.splits prod.splits)
    have "publication_good s q" if q: "next = Some q" for q
    proof -
      from step Gated q obtain k nx where n: "prepare_publish candidate r s = Inr (Some (k, nx))"
        "q = Offering k nx (vw_vector_nodes r \<noteq> [])" by (auto split: sum.splits option.splits prod.splits)
      from prepare_publish_Some [OF n(1)] obtain left right where
        f: "k = acquire s" "snapshot_cell (snapshot_at s k) (mc_left (ar_candidates s ! unat candidate)) = Inr left"
          "snapshot_cell (snapshot_at s k) (mc_right (ar_candidates s ! unat candidate)) = Inr right"
          "replacement_fits (snapshot_at s k) left right r = Inr True"
          "next_snapshot (snapshot_at s k) r (expected_cells left right) = Some nx" .
      have k: "k < length (ar_snapshots s)" using good f(1) acquire_last by (simp add: snapshots_good_def)
      then have g: "good (ar_physical s) (snapshot_at s k)" "sn_generation (snapshot_at s k) = of_nat k"
        using good by (simp_all add: snapshots_good_def snapshot_at_def)
      have "good (ar_physical s) nx" by (rule merge [OF g(1) _ f(2-5)]) (use p Gated in simp)
      moreover have "sn_generation nx = of_nat (k + 1)"
        using f(5) g(2) by (auto simp: next_snapshot_def Let_def split: option.splits)
      ultimately show ?thesis by (simp add: n(2))
    qed
    with good t show ?thesis by simp
  next
    case (Offering k nx hv)
    then have e: "next = None" "t = snd (publish_cas k nx hv s)" using step by simp_all
    have "snapshots_good t"
    proof (cases rule: publish_cas_cases [of s k nx hv])
      case lost
      with good e show ?thesis by (simp add: snapshots_good_def publish_cas_rest)
    next
      case won
      have "length (ar_snapshots s) = k + 1" using won(1) good by (auto simp: acquire_def snapshots_good_def)
      with won good e p Offering show ?thesis
        by (auto simp: snapshots_good_def publish_cas_rest nth_append less_Suc_eq)
    qed
    with e show ?thesis by (simp add: publish_cas_rest)
  qed
  then show "snapshots_good t" "ar_physical t = ar_physical s" "next = Some q \<Longrightarrow> publication_good t q" by auto
qed

lemma adaptive_step_good:
  assumes "adaptive_step rnd clients sy sy'" "system_good sy"
  shows "system_good sy'"
  using assms
proof (cases rule: adaptive_step.cases)
  case (query cells s)
  with assms(2) same_good [OF observe_query_same [OF query(2)]] show ?thesis by (simp add: system_good_def)
next
  case (observe candidate l r fp mp fu mu)
  with assms(2) same_good [OF observe_same] show ?thesis by (simp add: system_good_def)
next
  case b0: (build candidate io res s)
  let ?s0 = "set_pending candidate False (as_runtime sy)"
  have g: "snapshots_good ?s0" "list_all (publication_good ?s0) (as_clients sy)"
    using assms(2) same_good [OF set_pending_same] by (simp_all add: system_good_def)
  have cur: "good (ar_physical ?s0) (snapshot_at ?s0 (acquire ?s0))"
    using g(1) acquire_last [of ?s0] by (simp add: snapshots_good_def snapshot_at_def)
  have b: "stable (ar_physical s)" "\<forall>sn. good (ar_physical ?s0) sn \<longrightarrow> good (ar_physical s) sn"
    "\<forall>r. sound (ar_physical ?s0) r \<longrightarrow> sound (ar_physical s) r" "\<forall>r. res = Inr (Some r) \<longrightarrow> sound (ar_physical s) r"
    using local.build [OF _ _ cur b0(8)] b0(7) g(1)
    by (auto simp: snapshots_good_def set_pending_def)
  have "snapshots_good s"
    using g(1) b(1,2) make_physical_same [OF b0(8)] by (simp add: snapshots_good_def)
  moreover have "list_all (publication_good s) (as_clients sy)"
    by (rule publication_good_mono(3) [OF _ _ g(2)]) (use b in auto)
  ultimately show ?thesis using b0(1) b(4) by (auto simp: system_good_def split: sum.splits option.splits)
next
  case (gate candidate r ok)
  have "same_snapshots (as_runtime sy) (count_attempt (as_runtime sy))" by (simp add: same_snapshots_def count_attempt_def)
  with assms(2) gate same_good [OF this] show ?thesis by (auto simp: system_good_def)
next
  case (publish p nxt s)
  have g: "snapshots_good (as_runtime sy)" "publication_good (as_runtime sy) p"
    using assms(2) publish(2) by (simp_all add: system_good_def)
  note st = publication_step_good [OF g publish(3)]
  have "list_all (publication_good s) (as_clients sy)"
    by (rule publication_good_mono(3) [where s = "as_runtime sy"]) (use st(2) assms(2) in \<open>simp_all add: system_good_def\<close>)
  with st publish(1) show ?thesis by (auto simp: system_good_def split: option.splits)
next
  case (client_gate r candidate force)
  have "same_snapshots (as_runtime sy) (count_attempt (as_runtime sy))" by (simp add: same_snapshots_def count_attempt_def)
  with assms(2) client_gate same_good [OF this] client show ?thesis by (auto simp: system_good_def)
next
  case (client_publish k nxt s)
  have g: "snapshots_good (as_runtime sy)" "publication_good (as_runtime sy) (as_clients sy ! k)"
    using assms(2) client_publish(2) by (simp_all add: system_good_def list_all_length)
  note st = publication_step_good [OF g client_publish(3)]
  note mono = publication_good_mono [of "as_runtime sy" s, unfolded st(2)]
  have "list_all (publication_good s) (as_clients sy)" "builder_good s (as_builder sy)"
    using mono assms(2) by (simp_all add: system_good_def)
  with st client_publish(1,2) show ?thesis
    by (auto simp: system_good_def list_all_iff dest: in_set_takeD in_set_dropD split: option.splits dest!: set_update_subset_insert [THEN subsetD])
qed

end

end
