(* ===== verification/Adaptive_Mapping.thy ===== *)
theory Adaptive_Mapping
  imports Adaptive_Steps
begin

text \<open>
  The mapping table in every published snapshot: views partition the logical cells and count their nodes, whatever
  replacements other threads offer to \<open>try_publish\<close>.
\<close>

subsection \<open>A consistent table\<close>

definition view_nodes :: "io_cell_page_range_t list \<Rightarrow> u32 set \<Rightarrow> nat" where
  "view_nodes ranges cells = (\<Sum>d \<in> cells. unat (rg_node_count (ranges ! unat d)))"

definition view_ok :: "io_cell_page_range_t list \<Rightarrow> adaptive_cell_view_t list \<Rightarrow> adaptive_cell_view_t \<Rightarrow> bool" where
  "view_ok ranges cells v \<longleftrightarrow>
     sorted_wrt (<) (vw_logical_cells v)
     \<and> (\<forall>d \<in> set (vw_logical_cells v). unat d < length ranges \<and> cells ! unat d = v)
     \<and> unat (vw_node_count v) = view_nodes ranges (set (vw_logical_cells v))
     \<and> capacity_for_population (vw_node_count v) = Inr (vw_capacity_class v)"

definition table_ok :: "io_cell_page_range_t list \<Rightarrow> adaptive_cell_snapshot_t \<Rightarrow> bool" where
  "table_ok ranges sn \<longleftrightarrow> length (sn_cells sn) = length ranges
     \<and> (\<forall>c < length ranges. of_nat c \<in> set (vw_logical_cells (sn_cells sn ! c)) \<and> view_ok ranges (sn_cells sn) (sn_cells sn ! c))"

lemma capacity_le:
  assumes "capacity_for_population p = Inr c"
  shows "unat p \<le> 512"
proof -
  from assms have "p \<le> 512"
    by (auto simp: capacity_for_population_def split: if_splits elim: order_trans)
  then show ?thesis by (simp add: word_le_nat_alt)
qed

lemma map_cells_Some:
  "map_cells cs v cells = Some cells' \<Longrightarrow> (\<forall>c \<in> set cs. unat c < length cells) \<and> length cells' = length cells
     \<and> (\<forall>i < length cells. cells' ! i = (if i \<in> unat ` set cs then v else cells ! i))"
proof (induction cs v cells rule: map_cells.induct)
  case (2 c cs v cells)
  then show ?case by (auto simp: nth_list_update split: if_splits)
qed simp

lemma snapshot_cell_Inr: "snapshot_cell sn c = Inr v \<longleftrightarrow> unat c < length (sn_cells sn) \<and> v = sn_cells sn ! unat c"
  by (auto simp: snapshot_cell_def)

lemma merge_table:
  assumes ok: "table_ok ranges current" and small: "length ranges < 4294967296"
    and l: "snapshot_cell current l = Inr left" and c: "snapshot_cell current c = Inr right"
    and fits: "replacement_fits current left right r = Inr True"
    and nxt: "next_snapshot current r (expected_cells left right) = Some sn"
  shows "table_ok ranges sn"
proof -
  let ?L = "set (vw_logical_cells left)" and ?R = "set (vw_logical_cells right)" and ?old = "sn_cells current"
  have len: "length ?old = length ranges" using ok by (simp add: table_ok_def)
  have old: "of_nat k \<in> set (vw_logical_cells (?old ! k))" "view_ok ranges ?old (?old ! k)" if "k < length ranges" for k
    using ok that by (simp_all add: table_ok_def)
  have vl: "view_ok ranges ?old left" "view_ok ranges ?old right"
    using old(2) l c by (auto simp: snapshot_cell_Inr len)
  have f: "vw_view_id left \<noteq> vw_view_id right" "vw_node_count r = vw_node_count left + vw_node_count right"
    "capacity_for_population (vw_node_count r) = Inr (vw_capacity_class r)" "vw_logical_cells r = expected_cells left right"
    using fits by (auto simp: replacement_fits_def bindE_eq_Inr split: if_splits)
  have set: "set (vw_logical_cells r) = ?L \<union> ?R" by (simp add: f(4) expected_cells_def)
  have disj: "?L \<inter> ?R = {}"
    using vl f(1) by (fastforce simp: view_ok_def)
  have count: "unat (vw_node_count r) = view_nodes ranges (set (vw_logical_cells r))"
  proof -
    have "unat (vw_node_count left) \<le> 512" "unat (vw_node_count right) \<le> 512"
      using vl unfolding view_ok_def by (metis capacity_le)+
    then have "unat (vw_node_count r) = unat (vw_node_count left) + unat (vw_node_count right)"
      using unat_add_lem [of "vw_node_count left" "vw_node_count right"] by (simp add: f(2))
    also have "\<dots> = view_nodes ranges ?L + view_nodes ranges ?R" using vl by (simp add: view_ok_def)
    also have "\<dots> = view_nodes ranges (?L \<union> ?R)"
      unfolding view_nodes_def by (rule sum.union_disjoint [symmetric]) (use disj in auto)
    finally show ?thesis by (simp add: set)
  qed
  from nxt obtain cells where cells: "map_cells (vw_logical_cells r) r ?old = Some cells" "sn_cells sn = cells"
    by (auto simp: next_snapshot_def Let_def f(4) split: option.splits)
  note m = map_cells_Some [OF cells(1)]
  have new: "cells ! k = (if of_nat k \<in> ?L \<union> ?R then r else ?old ! k)" if "k < length ranges" for k
  proof -
    have "k \<in> unat ` set (vw_logical_cells r) \<longleftrightarrow> of_nat k \<in> set (vw_logical_cells r)"
      using that small by (force simp: unat_of_nat take_bit_nat_eq_self)
    then show ?thesis using m that by (simp add: len set)
  qed
  have r_ok: "view_ok ranges cells r"
    unfolding view_ok_def
  proof (intro conjI ballI)
    show "sorted_wrt (<) (vw_logical_cells r)" by (simp add: f(4) expected_cells_def remdups_adj_strict)
    fix d assume "d \<in> set (vw_logical_cells r)"
    then show "unat d < length ranges" "cells ! unat d = r" using m len by auto
  qed (use count f(3) in auto)
  have "of_nat k \<in> set (vw_logical_cells (cells ! k)) \<and> view_ok ranges cells (cells ! k)" if k: "k < length ranges" for k
  proof (cases "of_nat k \<in> ?L \<union> ?R")
    case True
    then show ?thesis using new [OF k] r_ok set by simp
  next
    case False
    let ?v = "?old ! k"
    have v: "cells ! k = ?v" using new [OF k] False by simp
    have "cells ! unat d = ?v" if d: "d \<in> set (vw_logical_cells ?v)" for d
    proof -
      have du: "unat d < length ranges" "?old ! unat d = ?v" using old(2) [OF k] d by (auto simp: view_ok_def)
      have "d \<notin> ?L \<union> ?R"
      proof
        assume "d \<in> ?L \<union> ?R"
        then have "?old ! unat d = left \<or> ?old ! unat d = right" using vl by (auto simp: view_ok_def)
        then have "?v = left \<or> ?v = right" using du(2) by simp
        then show False using False old(1) [OF k] by auto
      qed
      then show ?thesis using new [OF du(1)] du(2) by simp
    qed
    then show ?thesis using v old [OF k] by (simp add: view_ok_def)
  qed
  then show ?thesis using cells(2) m len by (simp add: table_ok_def)
qed

lemma initial_views_nth:
  "initial_views c rs = Inr vs \<Longrightarrow> length vs = length rs
     \<and> (\<forall>k < length rs. vw_logical_cells (vs ! k) = [c + of_nat k] \<and> vw_node_count (vs ! k) = rg_node_count (rs ! k)
          \<and> capacity_for_population (rg_node_count (rs ! k)) = Inr (vw_capacity_class (vs ! k)))"
proof (induction c rs arbitrary: vs rule: initial_views.induct)
  case (2 c r rs)
  then obtain v ws where v: "initial_view c r = Inr v" "initial_views (c + 1) rs = Inr ws" "vs = v # ws"
    by (auto simp: bindE_eq_Inr)
  have w: "vw_logical_cells v = [c]" "vw_node_count v = rg_node_count r"
    "capacity_for_population (rg_node_count r) = Inr (vw_capacity_class v)"
    using v(1) by (auto simp: initial_view_def bindE_eq_Inr split: if_splits)
  show ?case using 2(1) [OF v(2)] v(3) w by (auto simp: less_Suc_eq_0_disj add.assoc)
qed simp

lemma initial_table:
  assumes "initial_views 0 ranges = Inr vs" "length ranges < 4294967296" "sn_cells sn = vs"
  shows "table_ok ranges sn"
proof -
  note i = initial_views_nth [OF assms(1)]
  have u: "unat (of_nat k :: u32) = k" if "k < length ranges" for k
    using that assms(2) by (simp add: unat_of_nat take_bit_nat_eq_self)
  show ?thesis unfolding table_ok_def view_ok_def view_nodes_def
    using i u assms(3) by simp
qed

definition table_good :: "io_cell_page_range_t list \<Rightarrow> adaptive_physical_t option \<Rightarrow> adaptive_cell_snapshot_t \<Rightarrow> bool" where
  "table_good ranges ph sn \<longleftrightarrow> length ranges < 4294967296 \<and> table_ok ranges sn"

interpretation table: snapshot_contract "table_good ranges" "\<lambda>_ _. True" "\<lambda>_. True" "\<lambda>_. True"
proof unfold_locales
  fix ph current r l left c right nxt
  assume "table_good ranges ph current" "snapshot_cell current l = Inr left" "snapshot_cell current c = Inr right"
    "replacement_fits current left right r = Inr True" "next_snapshot current r (expected_cells left right) = Some nxt"
  then show "table_good ranges ph nxt" using merge_table [of ranges current l left c right r nxt] by (simp add: table_good_def)
qed (simp_all add: table_good_def)

subsection \<open>Reachable systems\<close>

definition adaptive_start :: "adaptive_cell_runtime_t \<Rightarrow> adaptive_system_t \<Rightarrow> bool" where
  "adaptive_start s sy \<longleftrightarrow> sy = \<lparr>as_runtime = s, as_builder = Waiting, as_clients = []\<rparr>"

text \<open>Both constructors end in \<open>initialize\<close>.\<close>

definition fresh_runtime :: "io_cell_page_range_t list \<Rightarrow> adaptive_cell_runtime_t \<Rightarrow> bool" where
  "fresh_runtime ranges s \<longleftrightarrow> length ranges < 4294967296
     \<and> (\<exists>config candidates physical. initialize config candidates physical ranges = Inr s)"

lemma fresh_runtimes:
  "length ranges < 4294967296 \<Longrightarrow> new_adaptive_runtime ranges candidates config = Inr s \<Longrightarrow> fresh_runtime ranges s"
  "length ranges < 4294967296 \<Longrightarrow>
   new_physical_runtime ranges candidates config ix base overlay vector_bytes nodes = Inr s \<Longrightarrow> fresh_runtime ranges s"
  by (auto simp: fresh_runtime_def new_adaptive_runtime_def new_physical_runtime_def bindE_eq_Inr)

lemma initialize_Inr:
  assumes "initialize config candidates physical ranges = Inr s"
  obtains vs where "initial_views 0 ranges = Inr vs" "ar_physical s = physical"
    "ar_snapshots s = [\<lparr>sn_generation = 0, sn_cells = vs, sn_override_nodes = [], sn_override_locations = [],
       sn_override_filter = replicate 64 0\<rparr>]"
  using assms by (auto simp: initialize_def bindE_eq_Inr)

interpretation table_run: invariant_system
  "\<lambda>sy. \<exists>s. fresh_runtime ranges s \<and> adaptive_start s sy" "adaptive_step rnd (\<lambda>_. True)"
  "snapshot_contract.system_good (table_good ranges) (\<lambda>_ _. True) (\<lambda>_. True)"
proof unfold_locales
  fix sy assume "\<exists>s. fresh_runtime ranges s \<and> adaptive_start s sy"
  then obtain s config candidates physical where s: "initialize config candidates physical ranges = Inr s"
    "length ranges < 4294967296" "sy = \<lparr>as_runtime = s, as_builder = Waiting, as_clients = []\<rparr>"
    by (auto simp: fresh_runtime_def adaptive_start_def)
  from initialize_Inr [OF s(1)] obtain vs where "initial_views 0 ranges = Inr vs"
    "ar_snapshots s = [\<lparr>sn_generation = 0, sn_cells = vs, sn_override_nodes = [], sn_override_locations = [],
       sn_override_filter = replicate 64 0\<rparr>]" by metis
  with s(2,3) show "table.system_good ranges sy"
    by (simp add: table.system_good_def table.snapshots_good_def table_good_def initial_table)
qed (rule table.adaptive_step_good)

end
