(* ===== verification/Adaptive_Data.thy ===== *)
theory Adaptive_Data
  imports Adaptive_Mapping IO_Guarantees
begin

text \<open>
  Merging never loses a vector: in every published snapshot the location of a node, in the overlay or in the base
  artifact, holds the bytes of the node's vector in the base artifact.
\<close>

subsection \<open>Slots of a packed page run\<close>

definition slot :: "nat \<Rightarrow> nat \<Rightarrow> nat \<Rightarrow> nat" where
  "slot v vb j = j div v * 4096 + j mod v * vb"

lemma slot_end:
  assumes "0 < v" "v * vb \<le> 4096"
  shows "(j :: nat) mod v * vb + vb \<le> 4096"
proof -
  have "(j mod v + 1) * vb \<le> v * vb" by (rule mult_le_mono1) (use assms(1) in \<open>simp add: Suc_leI\<close>)
  then show ?thesis using assms(2) by simp
qed

lemma slot_before:
  assumes "0 < v" "v * vb \<le> 4096" "i < j"
  shows "slot v vb i + vb \<le> slot v vb j"
proof (cases "i div v = j div v")
  case True
  then have "i mod v < j mod v" using assms(3) by (metis div_mult_mod_eq nat_add_left_cancel_less)
  then have "i mod v + 1 \<le> j mod v" by simp
  then have "(i mod v + 1) * vb \<le> j mod v * vb" by (rule mult_le_mono1)
  then show ?thesis using True by (simp add: slot_def)
next
  case False
  then have "i div v + 1 \<le> j div v" using assms(3) div_le_mono [of i j v] by linarith
  then have "(i div v + 1) * 4096 \<le> j div v * 4096" by (rule mult_le_mono1)
  then show ?thesis using slot_end [OF assms(1,2), of i] by (simp add: slot_def)
qed

lemma slot_in_pages:
  assumes "0 < v" "v * vb \<le> 4096" "j < n"
  shows "slot v vb j + vb \<le> (n + v - 1) div v * 4096"
proof -
  have "j div v + 1 \<le> (n + v - 1) div v"
  proof -
    have "j + v \<le> n + v - 1" using assms(3) by simp
    then have "(j + v) div v \<le> (n + v - 1) div v" by (rule div_le_mono)
    then show ?thesis using assms(1) by simp
  qed
  then have "(j div v + 1) * 4096 \<le> (n + v - 1) div v * 4096" by (rule mult_le_mono1)
  then show ?thesis using slot_end [OF assms(1,2), of j] by (simp add: slot_def)
qed

lemma slot_words:
  assumes "unat (ordinal :: u64) < 1099511627776" "0 < unat (v :: u32)" "unat v * unat (vb :: u32) \<le> 4096"
  shows "slot_offset v ordinal vb = slot (unat v) (unat vb) (unat ordinal)"
    "unat (ordinal div ucast v) = unat ordinal div unat v"
    "unat (ucast (ordinal mod ucast v) * vb :: u32) = unat ordinal mod unat v * unat vb"
proof -
  show d: "unat (ordinal div ucast v) = unat ordinal div unat v" by (simp add: unat_div)
  have m: "unat (ordinal mod ucast v) = unat ordinal mod unat v" by (simp add: unat_mod)
  have lt: "unat ordinal mod unat v < unat v" using assms(2) by simp
  have vl: "unat v < 4294967296" using unsigned_less [of v] by simp
  then have c: "unat (ucast (ordinal mod ucast v) :: u32) = unat ordinal mod unat v"
    unfolding unsigned_ucast_eq using m lt by (simp add: take_bit_nat_eq_self)
  have e: "unat ordinal mod unat v * unat vb + unat vb \<le> 4096" by (rule slot_end [OF assms(2,3)])
  show o: "unat (ucast (ordinal mod ucast v) * vb :: u32) = unat ordinal mod unat v * unat vb"
    using unat_mult_lem [of "ucast (ordinal mod ucast v) :: u32" vb] e c by simp
  have "unat (ordinal div ucast v * 4096) = unat ordinal div unat v * 4096"
    using unat_mult_lem [of "ordinal div ucast v" 4096] d assms(1) div_le_dividend [of "unat ordinal" "unat v"] by simp
  moreover have "unat ordinal div unat v * 4096 + 4096 < 18446744073709551616"
    using assms(1) div_le_dividend [of "unat ordinal" "unat v"] by linarith
  ultimately show "slot_offset v ordinal vb = slot (unat v) (unat vb) (unat ordinal)"
    using unat_add_lem [of "ordinal div ucast v * 4096" "ucast (ucast (ordinal mod ucast v) * vb :: u32)"] o e
    by (simp add: slot_offset_def slot_def k_io_vector_page_size_def)
qed

subsection \<open>Reading files that grow\<close>

lemma pread_exact_Inr:
  "pread_exact f off n = Inr b \<longleftrightarrow> unat off + n \<le> length f \<and> b = take n (drop (unat off) f)"
  by (auto simp: pread_exact_def)

lemma take_drop_read_at: "off + n \<le> length f \<Longrightarrow> take n (drop off f) = read_at off n f"
  by (simp add: read_at_def)

lemma length_write_at_le: "length f \<le> length (write_at off bytes f)"
  by (auto simp: write_at_def min_def)

lemma pread_write_before:
  assumes "pread_exact f off n = Inr b" "unat off + n \<le> o'"
  shows "pread_exact (write_at o' bytes f) off n = Inr b"
proof -
  have l: "unat off + n \<le> length f" and b: "b = read_at (unat off) n f"
    using assms(1) by (auto simp: pread_exact_Inr take_drop_read_at)
  have l': "unat off + n \<le> length (write_at o' bytes f)" using l length_write_at_le le_trans by blast
  with assms(2) b show ?thesis
    by (simp add: pread_exact_Inr take_drop_read_at read_at_write_at_disjoint)
qed

subsection \<open>Entries of a directory\<close>

definition base_location :: "adaptive_physical_t \<Rightarrow> u32 \<Rightarrow> io_vector_location_t" where
  "base_location ph n = ix_vector_locations (ph_base_index ph) ! unat n"

definition base_vector :: "adaptive_physical_t \<Rightarrow> u32 \<Rightarrow> exn + u8 list" where
  "base_vector ph n = read_stored_vector ph (base_location ph n)"

definition entry_ok :: "adaptive_physical_t \<Rightarrow> u32 \<Rightarrow> io_vector_location_t \<Rightarrow> bool" where
  "entry_ok ph n l \<longleftrightarrow> unat n < unat (ix_point_count (ph_base_index ph)) \<and> ph_base_page_count ph \<le> loc_page_id l
     \<and> unat (loc_page_id l - ph_base_page_count ph) < unat (ph_next_overlay_page ph)
     \<and> unat (loc_page_id l - ph_base_page_count ph) < 4503599627370495
     \<and> unat (loc_page_offset l) + unat (ph_vector_bytes ph) \<le> 4096
     \<and> (\<exists>b. read_stored_vector ph l = Inr b \<and> base_vector ph n = Inr b)"

definition same_base :: "adaptive_physical_t \<Rightarrow> adaptive_physical_t \<Rightarrow> bool" where
  "same_base ph0 ph \<longleftrightarrow> ph_base_index ph = ph_base_index ph0 \<and> ph_base_file ph = ph_base_file ph0
     \<and> ph_vector_bytes ph = ph_vector_bytes ph0 \<and> ph_cell_nodes ph = ph_cell_nodes ph0
     \<and> ph_base_page_count ph = ph_base_page_count ph0"

definition base_ok :: "adaptive_physical_t \<Rightarrow> bool" where
  "base_ok ph \<longleftrightarrow> index_ok (ph_base_index ph) \<and> ph_base_page_count ph = ix_vector_page_count (ph_base_index ph)
     \<and> unat (ph_base_page_count ph) < 4503599627370496 \<and> ph_vector_bytes ph \<noteq> 0 \<and> unat (ph_vector_bytes ph) \<le> 4096
     \<and> distinct (concat (ph_cell_nodes ph))
     \<and> (\<forall>n \<in> set (concat (ph_cell_nodes ph)). unat n < unat (ix_point_count (ph_base_index ph)))"

text \<open>The overlay grew: old pages are kept, the next page number is larger.\<close>

definition overlay_grown :: "adaptive_physical_t \<Rightarrow> adaptive_physical_t \<Rightarrow> bool" where
  "overlay_grown ph ph' \<longleftrightarrow> same_base ph ph' \<and> unat (ph_next_overlay_page ph) \<le> unat (ph_next_overlay_page ph')
     \<and> (\<exists>o' bytes. unat (ph_next_overlay_page ph) * 4096 \<le> o' \<and> ph_overlay ph' = write_at o' bytes (ph_overlay ph))"

lemma base_location_page:
  assumes "base_ok ph" "unat n < unat (ix_point_count (ph_base_index ph))"
  shows "loc_page_id (base_location ph n) < ph_base_page_count ph"
  using assms by (auto simp: base_ok_def index_ok_def base_location_def list_all_length location_in_page_def)

lemma base_vector_eq:
  assumes "base_ok ph" "unat n < unat (ix_point_count (ph_base_index ph))"
  shows "base_vector ph n = pread_exact (ph_base_file ph)
    (loc_page_id (base_location ph n) * 4096 + ucast (loc_page_offset (base_location ph n))) (unat (ph_vector_bytes ph))"
  using base_location_page [OF assms]
  by (simp add: base_vector_def read_stored_vector_def Let_def k_io_vector_page_size_def not_le [symmetric])

lemma base_vector_grown:
  assumes "base_ok ph" "same_base ph ph'" "unat n < unat (ix_point_count (ph_base_index ph))"
  shows "base_vector ph' n = base_vector ph n"
proof -
  have "base_ok ph'" using assms(1,2) by (auto simp: base_ok_def same_base_def)
  then show ?thesis using base_vector_eq assms by (simp add: same_base_def base_location_def)
qed

lemma overlay_offset:
  assumes "unat (k :: u64) < 4503599627370495" "unat (off :: u32) \<le> 4096"
  shows "unat (k * 4096 + ucast off) = unat k * 4096 + unat off"
proof -
  have "unat (k * 4096) = unat k * 4096" using unat_mult_lem [of k 4096] assms by simp
  then show ?thesis using unat_add_lem [of "k * 4096" "ucast off :: u64"] assms by simp
qed

lemma read_overlay:
  assumes "ph_base_page_count ph \<le> loc_page_id l"
  shows "read_stored_vector ph l = pread_exact (ph_overlay ph)
    ((loc_page_id l - ph_base_page_count ph) * 4096 + ucast (loc_page_offset l)) (unat (ph_vector_bytes ph))"
  using assms by (simp add: read_stored_vector_def k_io_vector_page_size_def)

lemma entry_ok_grown:
  assumes "base_ok ph" "overlay_grown ph ph'" "entry_ok ph n l"
  shows "entry_ok ph' n l"
proof -
  note e = assms(3) [unfolded entry_ok_def]
  let ?k = "loc_page_id l - ph_base_page_count ph"
  from assms(2) obtain o' bytes where g: "same_base ph ph'" "unat (ph_next_overlay_page ph) \<le> unat (ph_next_overlay_page ph')"
    "unat (ph_next_overlay_page ph) * 4096 \<le> o'" "ph_overlay ph' = write_at o' bytes (ph_overlay ph)"
    by (auto simp: overlay_grown_def)
  from e obtain b where b: "pread_exact (ph_overlay ph) (?k * 4096 + ucast (loc_page_offset l)) (unat (ph_vector_bytes ph)) = Inr b"
    "base_vector ph n = Inr b" by (auto simp: read_overlay)
  have "unat ?k * 4096 + 4096 \<le> o'" using e g(3) by linarith
  then have "unat (?k * 4096 + ucast (loc_page_offset l)) + unat (ph_vector_bytes ph) \<le> o'"
    using e overlay_offset [of ?k "loc_page_offset l"] by simp
  from pread_write_before [OF b(1) this, of bytes] have "read_stored_vector ph' l = Inr b"
    using e g(1,4) by (simp add: read_overlay same_base_def)
  moreover have "base_vector ph' n = Inr b"
    using base_vector_grown [OF assms(1) g(1)] e b(2) by simp
  ultimately show ?thesis using e g(1,2) by (auto simp: entry_ok_def same_base_def)
qed

definition entries_good :: "adaptive_physical_t option \<Rightarrow> (u32 \<rightharpoonup> io_vector_location_t) \<Rightarrow> bool" where
  "entries_good p d \<longleftrightarrow> (\<forall>n l. d n = Some l \<longrightarrow> (\<exists>ph. p = Some ph \<and> entry_ok ph n l))"

definition data_good :: "adaptive_physical_t option \<Rightarrow> adaptive_cell_snapshot_t \<Rightarrow> bool" where
  "data_good p sn \<longleftrightarrow> directory_ok sn \<and> entries_good p (directory_of sn)"

definition data_sound :: "adaptive_physical_t option \<Rightarrow> adaptive_cell_view_t \<Rightarrow> bool" where
  "data_sound p r \<longleftrightarrow> sorted (vw_vector_nodes r) \<and> distinct (vw_vector_nodes r)
     \<and> length (vw_vector_locations r) = length (vw_vector_nodes r)
     \<and> entries_good p (map_of (zip (vw_vector_nodes r) (vw_vector_locations r)))"

definition data_stable :: "adaptive_physical_t \<Rightarrow> adaptive_physical_t option \<Rightarrow> bool" where
  "data_stable ph0 p \<longleftrightarrow> base_ok ph0 \<and> (\<exists>ph. p = Some ph \<and> same_base ph0 ph)"

lemma data_merge:
  assumes "data_good p current" "data_sound p r" "next_snapshot current r cells = Some sn"
  shows "data_good p sn"
  using next_snapshot_directory [OF _ _ _ _ assms(3)] assms(1,2)
  by (auto simp: data_good_def data_sound_def entries_good_def map_add_Some_iff)

text \<open>What a lookup in a good snapshot reads.\<close>

lemma good_lookup:
  assumes "base_ok ph" "data_good (Some ph) sn" "unat n < unat (ix_point_count (ph_base_index ph))"
  shows "read_stored_vector ph (snapshot_vector_location sn n (base_location ph n)) = base_vector ph n"
proof (cases "directory_of sn n")
  case None
  with assms show ?thesis by (simp add: data_good_def snapshot_vector_location_eq base_vector_def)
next
  case (Some l)
  with assms have "entry_ok ph n l" by (auto simp: data_good_def entries_good_def)
  then show ?thesis using Some assms(2) by (auto simp: data_good_def snapshot_vector_location_eq entry_ok_def)
qed

lemma base_fallback:
  assumes "base_ok ph" "unat n < unat (ix_point_count (ph_base_index ph))"
  shows "vector_location (ph_base_index ph) n = Inr (base_location ph n)"
  using assms by (simp add: vector_location_def base_location_def word_le_nat_alt)

subsection \<open>Packing\<close>

lemma length_write_within: "off + length bytes \<le> length f \<Longrightarrow> length (write_at off bytes f) = length f"
  by (auto simp: write_at_def min_def)

lemma read_write_same: "length bytes = n \<Longrightarrow> read_at off n (write_at off bytes f) = bytes"
  by (rule nth_equalityI) (simp_all add: nth_read_at byte_at_write_at)

lemma pack_nodes_correct:
  assumes base: "base_ok ph" and good: "data_good (Some ph) current"
    and v: "0 < unat v" "unat v * unat (ph_vector_bytes ph) \<le> 4096"
    and pack: "pack_nodes ph current first v ordinal nodes payload = Inr (out, directory)"
    and nodes: "\<forall>n \<in> set nodes. unat n < unat (ix_point_count (ph_base_index ph))"
    and few: "unat ordinal + length nodes < 1099511627776"
    and room: "\<forall>j < unat ordinal + length nodes. slot (unat v) (unat (ph_vector_bytes ph)) j + unat (ph_vector_bytes ph) \<le> length payload"
  shows "length out = length payload
    \<and> directory = map (\<lambda>i. (nodes ! i, slot_location ph first v (ordinal + of_nat i))) [0..<length nodes]
    \<and> (\<forall>i < length nodes. base_vector ph (nodes ! i)
         = Inr (read_at (slot (unat v) (unat (ph_vector_bytes ph)) (unat ordinal + i)) (unat (ph_vector_bytes ph)) out))
    \<and> (\<forall>j < unat ordinal. read_at (slot (unat v) (unat (ph_vector_bytes ph)) j) (unat (ph_vector_bytes ph)) out
         = read_at (slot (unat v) (unat (ph_vector_bytes ph)) j) (unat (ph_vector_bytes ph)) payload)"
  using pack nodes few room
proof (induction nodes arbitrary: ordinal payload directory)
  case Nil
  then show ?case by simp
next
  case (Cons node nodes)
  let ?vb = "unat (ph_vector_bytes ph)"
  let ?slot = "slot (unat v) ?vb"
  have node: "unat node < unat (ix_point_count (ph_base_index ph))" using Cons.prems(2) by simp
  from Cons.prems(1) obtain bytes dir where p:
    "read_stored_vector ph (snapshot_vector_location current node (base_location ph node)) = Inr bytes"
    "pack_nodes ph current first v (ordinal + 1) nodes (write_at (slot_offset v ordinal (ph_vector_bytes ph)) bytes payload) = Inr (out, dir)"
    "directory = (node, slot_location ph first v ordinal) # dir"
    by (auto simp: bindE_eq_Inr base_fallback [OF base node])
  have bv: "base_vector ph node = Inr bytes" using p(1) good_lookup [OF base good node] by simp
  have lb: "length bytes = ?vb"
    using p(1) by (auto simp: read_stored_vector_def Let_def pread_exact_Inr split: if_splits)
  have so: "slot_offset v ordinal (ph_vector_bytes ph) = ?slot (unat ordinal)"
    by (rule slot_words(1) [OF _ v]) (use Cons.prems(3) in simp)
  have suc: "unat (ordinal + 1) = unat ordinal + 1"
    using unat_add_lem [of ordinal 1] Cons.prems(3) by simp
  let ?p1 = "write_at (?slot (unat ordinal)) bytes payload"
  have room0: "?slot (unat ordinal) + ?vb \<le> length payload" using Cons.prems(4) by simp
  have l1: "length ?p1 = length payload" by (rule length_write_within) (use room0 lb in simp)
  have ih: "length out = length ?p1
    \<and> dir = map (\<lambda>i. (nodes ! i, slot_location ph first v (ordinal + 1 + of_nat i))) [0..<length nodes]
    \<and> (\<forall>i < length nodes. base_vector ph (nodes ! i) = Inr (read_at (?slot (unat (ordinal + 1) + i)) ?vb out))
    \<and> (\<forall>j < unat (ordinal + 1). read_at (?slot j) ?vb out = read_at (?slot j) ?vb ?p1)"
    by (rule Cons.IH [OF p(2) [unfolded so]]) (use Cons.prems suc l1 in auto)
  have here: "read_at (?slot (unat ordinal)) ?vb out = bytes"
    using ih suc lb by (simp add: read_write_same)
  have before: "read_at (?slot j) ?vb out = read_at (?slot j) ?vb payload" if "j < unat ordinal" for j
  proof -
    have "read_at (?slot j) ?vb ?p1 = read_at (?slot j) ?vb payload"
      by (rule read_at_write_at_disjoint) (use slot_before [OF v that] in simp)
    then show ?thesis using ih suc that by simp
  qed
  have dirs: "directory = map (\<lambda>i. ((node # nodes) ! i, slot_location ph first v (ordinal + of_nat i))) [0..<length (node # nodes)]"
    unfolding p(3) using ih
    by (simp add: map_upt_Suc add.assoc add.commute [of 1] del: upt_Suc)
  have vecs: "base_vector ph ((node # nodes) ! i) = Inr (read_at (?slot (unat ordinal + i)) ?vb out)"
    if "i < length (node # nodes)" for i
  proof (cases i)
    case 0
    then show ?thesis using bv here by simp
  next
    case (Suc m)
    then show ?thesis using ih suc that by simp
  qed
  show ?case
  proof (intro conjI)
    show "length out = length payload" using ih l1 by simp
    show "directory = map (\<lambda>i. ((node # nodes) ! i, slot_location ph first v (ordinal + of_nat i))) [0..<length (node # nodes)]"
      by (rule dirs)
  qed (use vecs before in blast)+
qed

subsection \<open>The builder\<close>

lemma overlay_grown_refl [simp]: "overlay_grown ph ph"
  unfolding overlay_grown_def by (auto simp: same_base_def write_at_def intro!: exI [of _ "[]"])

lemma overlay_grown_next:
  "unat (ph_next_overlay_page ph) \<le> unat n \<Longrightarrow> overlay_grown ph (ph\<lparr>ph_next_overlay_page := n\<rparr>)"
  unfolding overlay_grown_def by (auto simp: same_base_def write_at_def intro!: exI [of _ "[]"])

lemma entries_good_grown:
  "base_ok ph \<Longrightarrow> overlay_grown ph ph' \<Longrightarrow> entries_good (Some ph) d \<Longrightarrow> entries_good (Some ph') d"
  by (auto simp: entries_good_def intro: entry_ok_grown)

lemma data_good_grown:
  "base_ok ph \<Longrightarrow> overlay_grown ph ph' \<Longrightarrow> data_good (Some ph) sn \<Longrightarrow> data_good (Some ph') sn"
  "base_ok ph \<Longrightarrow> overlay_grown ph ph' \<Longrightarrow> data_sound (Some ph) r \<Longrightarrow> data_sound (Some ph') r"
  by (auto simp: data_good_def data_sound_def intro: entries_good_grown)

lemma base_ok_same: "base_ok ph \<Longrightarrow> same_base ph ph' \<Longrightarrow> base_ok ph'"
  by (auto simp: base_ok_def same_base_def)

lemma read_inside_written:
  assumes "k + n \<le> length bytes"
  shows "read_at (o' + k) n (write_at o' bytes f) = read_at k n bytes"
  by (rule nth_equalityI) (use assms in \<open>simp_all add: nth_read_at byte_at_write_at, simp add: byte_at_def\<close>)

lemma length_write_at_ge: "bytes \<noteq> [] \<Longrightarrow> o' + length bytes \<le> length (write_at o' bytes f)"
  by (auto simp: write_at_def min_def)

text \<open>An entry of the packed directory, once the payload is in the overlay.\<close>

lemma packed_entry_ok:
  assumes base: "base_ok ph" and v: "0 < unat v" "unat v * unat (ph_vector_bytes ph) \<le> 4096"
    and i: "i < cnt" "cnt < 4294967296"
    and nx: "unat first < 2251799813685248" "unat (ph_next_overlay_page ph') = unat first + (cnt + unat v - 1) div unat v"
    and same: "same_base ph ph'" and ov: "ph_overlay ph' = write_at (unat first * 4096) out f"
    and out: "length out = (cnt + unat v - 1) div unat v * 4096"
    and n: "unat n < unat (ix_point_count (ph_base_index ph))"
    and vec: "base_vector ph n = Inr (read_at (slot (unat v) (unat (ph_vector_bytes ph)) i) (unat (ph_vector_bytes ph)) out)"
  shows "entry_ok ph' n (slot_location ph first v (of_nat i))"
proof -
  let ?vb = "unat (ph_vector_bytes ph)" and ?V = "unat v" and ?l = "slot_location ph first v (of_nat i)"
  let ?slot = "slot ?V ?vb i"
  have iu: "unat (of_nat i :: u64) = i" using i by (simp add: unat_of_nat take_bit_nat_eq_self)
  have lim: "unat (of_nat i :: u64) < 1099511627776" using iu i by simp
  note w = slot_words [OF lim v, unfolded iu]
  have bc: "unat (ph_base_page_count ph) < 4503599627370496" using base unfolding base_ok_def by blast
  have di: "i div ?V < 4294967296" using i div_le_dividend [of i ?V] by linarith
  have u1: "unat (first + of_nat i div ucast v) = unat first + i div ?V"
    using unat_add_lem [of first "of_nat i div ucast v"] w(2) nx(1) di by simp
  then have u2: "unat (ph_base_page_count ph + (first + of_nat i div ucast v)) = unat (ph_base_page_count ph) + (unat first + i div ?V)"
    using unat_add_lem [of "ph_base_page_count ph" "first + of_nat i div ucast v"] bc nx(1) di by simp
  have page: "loc_page_id ?l = ph_base_page_count ph + (first + of_nat i div ucast v)"
    by (simp add: slot_location_def add.assoc)
  have ge: "ph_base_page_count ph' \<le> loc_page_id ?l"
    using u2 page same by (simp add: word_le_nat_alt same_base_def)
  have k: "unat (loc_page_id ?l - ph_base_page_count ph') = unat first + i div ?V"
    using u1 page same by (simp add: same_base_def)
  have off: "unat (loc_page_offset ?l) = i mod ?V * ?vb" using w(3) by (simp add: slot_location_def)
  have oe: "i mod ?V * ?vb + ?vb \<le> 4096" by (rule slot_end [OF v])
  have pages: "?slot + ?vb \<le> length out" unfolding out by (rule slot_in_pages [OF v i(1)])
  have vb0: "0 < ?vb" using base by (simp add: base_ok_def word_neq_0_conv [symmetric] unat_gt_0)
  have dlt: "i div ?V < (cnt + ?V - 1) div ?V"
  proof -
    have "i div ?V * 4096 < (cnt + ?V - 1) div ?V * 4096"
      using pages out vb0 by (simp add: slot_def)
    then show ?thesis by simp
  qed
  have small: "unat (loc_page_id ?l - ph_base_page_count ph') < 4503599627370495"
    using k nx(1) di by simp
  have o2: "unat ((loc_page_id ?l - ph_base_page_count ph') * 4096 + ucast (loc_page_offset ?l)) = unat first * 4096 + ?slot"
    using overlay_offset [OF small, of "loc_page_offset ?l"] off oe k by (simp add: slot_def)
  have ne: "out \<noteq> []" using pages vb0 by auto
  have "read_stored_vector ph' ?l = Inr (read_at ?slot ?vb out)"
  proof -
    have "unat first * 4096 + ?slot + ?vb \<le> length (ph_overlay ph')"
      using length_write_at_ge [OF ne, of "unat first * 4096" f] pages ov by simp
    then show ?thesis
      unfolding read_overlay [OF ge] pread_exact_Inr o2
      using same pages by (simp add: same_base_def take_drop_read_at ov read_inside_written add.assoc)
  qed
  moreover have "base_vector ph' n = Inr (read_at ?slot ?vb out)"
    using base_vector_grown [OF base same n] vec by simp
  ultimately show ?thesis
    unfolding entry_ok_def using n ge k small off oe dlt nx(2) same by (auto simp: same_base_def)
qed

lemma distinct_concat_cells:
  assumes "distinct (concat nss)" "distinct cs" "\<forall>c \<in> set cs. unat c < length nss"
  shows "distinct (concat (map (\<lambda>c. nss ! unat (c :: u32)) cs))"
  using assms(2,3)
proof (induction cs)
  case (Cons c cs)
  have disj: "set (nss ! i) \<inter> set (nss ! j) = {}" if "i < length nss" "j < length nss" "i \<noteq> j" for i j
    using assms(1) that
  proof (induction nss arbitrary: i j)
    case (Cons x xs)
    have "set x \<inter> set (xs ! k) = {}" if "k < length xs" for k
      using Cons.prems(1) nth_mem [OF that] by fastforce
    then show ?case using Cons by (cases i; cases j) (simp_all add: Int_commute)
  qed simp
  have "distinct (nss ! unat c)" using assms(1) Cons.prems by (simp add: distinct_concat_iff)
  moreover have "set (nss ! unat c) \<inter> set (nss ! unat d) = {}" if "d \<in> set cs" for d
  proof (rule disj)
    have "c \<noteq> d" using that Cons.prems(1) by auto
    then show "unat c \<noteq> unat d" by (simp add: word_unat_eq_iff)
  qed (use that Cons.prems in auto)
  ultimately show ?case using Cons by auto
qed simp

lemma packed_nodes_Some:
  assumes "base_ok ph" "packed_nodes ph cells = Some nodes" "distinct cells"
  shows "distinct nodes" "\<forall>n \<in> set nodes. unat n < unat (ix_point_count (ph_base_index ph))"
proof -
  have c: "\<forall>c \<in> set cells. unat c < length (ph_cell_nodes ph)"
    "nodes = concat (map (\<lambda>c. ph_cell_nodes ph ! unat c) cells)"
    using assms(2) by (auto simp: packed_nodes_def list_ex_iff not_le split: if_splits)
  show "distinct nodes" unfolding c(2) by (rule distinct_concat_cells) (use assms c in \<open>auto simp: base_ok_def\<close>)
  show "\<forall>n \<in> set nodes. unat n < unat (ix_point_count (ph_base_index ph))"
    using assms(1) c by (auto simp: base_ok_def)
qed

lemma sorted_directory_sound:
  assumes "distinct (map fst directory)" "\<forall>(n, l) \<in> set directory. entry_ok ph n l"
    "vw_vector_nodes r = map fst (sort_key fst directory)" "vw_vector_locations r = map snd (sort_key fst directory)"
  shows "data_sound (Some ph) r"
proof -
  have "distinct (map fst (sort_key fst directory))"
    using assms(1) by (simp add: distinct_map)
  moreover have "entry_ok ph n l" if "map_of (sort_key fst directory) n = Some l" for n l
    using map_of_SomeD [OF that] assms(2) by auto
  ultimately show ?thesis
    using assms(3,4) by (auto simp: data_sound_def entries_good_def zip_map_fst_snd)
qed

lemma page_count_words:
  assumes "0 < unat (v :: u32)" "unat v \<le> 4096" "n < 4294967296"
  shows "unat ((of_nat n + ucast v - 1) div ucast v :: u64) = (n + unat v - 1) div unat v"
    "unat ((of_nat n + ucast v - 1) div ucast v * 4096 :: u64) = (n + unat v - 1) div unat v * 4096"
    "(n + unat v - 1) div unat v < 4294971392"
proof -
  have "unat (of_nat n :: u64) = n" using assms(3) by (simp add: unat_of_nat take_bit_nat_eq_self)
  then have s: "unat (of_nat n + ucast v :: u64) = n + unat v"
    using unat_add_lem [of "of_nat n :: u64" "ucast v"] assms by simp
  have "(1 :: u64) \<le> of_nat n + ucast v" using s assms by (simp add: word_le_nat_alt)
  then have "unat (of_nat n + ucast v - 1 :: u64) = n + unat v - 1" using s by (simp add: unat_sub)
  then show d: "unat ((of_nat n + ucast v - 1) div ucast v :: u64) = (n + unat v - 1) div unat v"
    by (simp add: unat_div)
  show lim: "(n + unat v - 1) div unat v < 4294971392"
    using assms div_le_dividend [of "n + unat v - 1" "unat v"] by linarith
  then show "unat ((of_nat n + ucast v - 1) div ucast v * 4096 :: u64) = (n + unat v - 1) div unat v * 4096"
    using unat_mult_lem [of "(of_nat n + ucast v - 1) div ucast v :: u64" 4096] d by simp
qed

lemma finish_replacement_data:
  assumes base: "base_ok ph" and ov: "ph_overlay ph = f" "ph_next_overlay_page ph = n1"
    and first: "unat first < 2251799813685248" "unat n1 = unat first + pages" "unat pc = pages" "pages < 4294971392"
    and payload: "length payload = pages * 4096"
    and dir: "distinct (map fst directory)"
    and entries: "\<And>ph'. same_base ph ph' \<Longrightarrow> ph_next_overlay_page ph' = n1 \<Longrightarrow>
      ph_overlay ph' = write_at (unat first * 4096) payload f \<Longrightarrow> \<forall>(n, l) \<in> set directory. entry_ok ph' n l"
    and fin: "finish_replacement io current pair cells first pc payload directory ph s = (res, t)"
  shows "\<exists>ph'. ar_physical t = Some ph' \<and> same_base ph ph' \<and> ph_next_overlay_page ph' = n1
    \<and> (\<exists>bytes. ph_overlay ph' = write_at (unat first * 4096) bytes f)
    \<and> (\<forall>r. res = Inr (Some r) \<longrightarrow> data_sound (Some ph') r)"
proof -
  have o: "unat (first * ucast k_io_vector_page_size) = unat first * 4096"
    using unat_mult_lem [of first 4096] first(1) by (simp add: k_io_vector_page_size_def)
  have ex: "\<exists>bytes. write_at (unat first * 4096) payload f = write_at (unat first * 4096) bytes f" by blast
  have "\<forall>(n, l) \<in> set directory. entry_ok (ph\<lparr>ph_overlay := write_at (unat first * 4096) payload f, ph_generation_file := g\<rparr>) n l" for g
    by (rule entries) (use ov in \<open>simp_all add: same_base_def\<close>)
  note sound = sorted_directory_sound [OF dir this, folded ov(1)]
  show ?thesis
    using fin ov(1) ov(2)
    by (auto simp: finish_replacement_def Let_def o same_base_def ex intro!: sound
        split: option.splits sum.splits if_splits)
qed

text \<open>Packing and finishing: what is in the overlay afterwards.\<close>

lemma pack_and_finish:
  assumes base: "base_ok ph" and good: "data_good (Some ph) current" and small: "unat (ph_next_overlay_page ph) < 2251799813685248"
    and nodes: "distinct nodes" "\<forall>n \<in> set nodes. unat n < unat (ix_point_count (ph_base_index ph))"
      "length nodes < 4294967296"
    and v: "v = k_io_vector_page_size div ph_vector_bytes ph"
    and pc: "pc = (of_nat (length nodes) + ucast v - 1) div ucast v"
    and ph1: "ph1 = ph\<lparr>ph_next_overlay_page := ph_next_overlay_page ph + pc\<rparr>"
    and pack: "pack_nodes ph1 current (ph_next_overlay_page ph) v 0 nodes (replicate (unat (pc * ucast k_io_vector_page_size)) 0)
      = Inr (payload, directory)"
    and fin: "finish_replacement io current pair cells (ph_next_overlay_page ph) pc payload directory ph1 s = (res, t)"
  shows "\<exists>ph'. ar_physical t = Some ph' \<and> overlay_grown ph ph' \<and> (\<forall>r. res = Inr (Some r) \<longrightarrow> data_sound (Some ph') r)"
proof -
  let ?V = "unat v" and ?vb = "unat (ph_vector_bytes ph)" and ?first = "unat (ph_next_overlay_page ph)"
  let ?pages = "(length nodes + ?V - 1) div ?V"
  have vb: "0 < ?vb" "?vb \<le> 4096"
    using base unfolding base_ok_def by (simp_all add: unat_gt_0)
  have V: "?V = 4096 div ?vb" by (simp add: v unat_div k_io_vector_page_size_def)
  have v1: "0 < ?V" "?V * ?vb \<le> 4096" "?V \<le> 4096" using vb by (simp_all add: V div_greater_zero_iff)
  note w = page_count_words [OF v1(1,3) nodes(3), folded pc]
  have p: "unat pc = ?pages" "unat (pc * ucast k_io_vector_page_size) = ?pages * 4096" "?pages < 4294971392"
    using w by (simp_all add: k_io_vector_page_size_def)
  have nx: "unat (ph_next_overlay_page ph + pc) = ?first + ?pages"
    using unat_add_lem [of "ph_next_overlay_page ph" pc] p small by simp
  have g1: "overlay_grown ph ph1" unfolding ph1 by (rule overlay_grown_next) (simp add: nx)
  have b1: "base_ok ph1" by (rule base_ok_same [OF base]) (simp add: ph1 same_base_def)
  have d1: "data_good (Some ph1) current" by (rule data_good_grown(1) [OF base g1 good])
  have vb1: "ph_vector_bytes ph1 = ph_vector_bytes ph" "ph_base_index ph1 = ph_base_index ph" by (simp_all add: ph1)
  have room: "slot ?V ?vb j + ?vb \<le> ?pages * 4096" if "j < length nodes" for j
    by (rule slot_in_pages [OF v1(1,2) that])
  have pk: "length payload = ?pages * 4096
    \<and> directory = map (\<lambda>i. (nodes ! i, slot_location ph1 (ph_next_overlay_page ph) v (of_nat i))) [0..<length nodes]
    \<and> (\<forall>i < length nodes. base_vector ph1 (nodes ! i) = Inr (read_at (slot ?V ?vb i) ?vb payload))"
    using pack_nodes_correct [OF b1 d1 v1(1), unfolded vb1, OF v1(2) pack nodes(2)] room nodes(3) by (simp add: p)
  have ks: "map fst directory = nodes" using pk by (simp add: comp_def map_nth)
  have entries: "\<forall>(n, l) \<in> set directory. entry_ok ph' n l"
    if same: "same_base ph1 ph'" and nx': "ph_next_overlay_page ph' = ph_next_overlay_page ph1"
      and ov: "ph_overlay ph' = write_at (?first * 4096) payload (ph_overlay ph1)" for ph'
  proof -
    have "entry_ok ph' (nodes ! i) (slot_location ph1 (ph_next_overlay_page ph) v (of_nat i))" if i: "i < length nodes" for i
      by (rule packed_entry_ok [OF b1 v1(1) _ i nodes(3) small _ same ov])
        (use pk i nodes(2) v1(2) nx nx' in \<open>auto simp: vb1 ph1\<close>)
    then show ?thesis using pk by auto
  qed
  from finish_replacement_data [OF b1 refl refl small _ p(1,3) _ _ entries fin] obtain ph' bytes where
    f: "ar_physical t = Some ph'" "same_base ph1 ph'" "ph_next_overlay_page ph' = ph_next_overlay_page ph1"
      "ph_overlay ph' = write_at (?first * 4096) bytes (ph_overlay ph1)" "\<forall>r. res = Inr (Some r) \<longrightarrow> data_sound (Some ph') r"
    using nx pk nodes(1) ks by (auto simp: ph1)
  have "overlay_grown ph ph'"
    unfolding overlay_grown_def
  proof (intro conjI exI)
    show "same_base ph ph'" using f(2) by (simp add: ph1 same_base_def)
    show "?first \<le> unat (ph_next_overlay_page ph')" using f(3) nx by (simp add: ph1)
    show "?first * 4096 \<le> ?first * 4096" by simp
    show "ph_overlay ph' = write_at (?first * 4096) bytes (ph_overlay ph)" using f(4) by (simp add: ph1)
  qed
  with f show ?thesis by blast
qed

lemma expected_cells_distinct: "distinct (expected_cells left right)"
  by (simp add: expected_cells_def distinct_sorted_unique)

lemma make_physical_cases:
  assumes ph: "ar_physical s = Some ph" and make: "make_physical_replacement io candidate s = (res, t)"
  obtains (same) "t = s" "\<nexists>r. res = Inr (Some r)"
  | (packed) left right nodes where "packed_nodes ph (expected_cells left right) = Some nodes"
      "length nodes = unat (vw_node_count left + vw_node_count right)"
      "packed_run io (snapshot_at s (acquire s)) (ar_candidates s ! unat candidate) (expected_cells left right) nodes ph s
         = (res, t)"
  using make same packed unfolding make_physical_replacement_def ph option.case Let_def
  by (auto split: sum.splits option.splits prod.splits if_splits)

lemma make_physical_data:
  assumes base: "base_ok ph" and ph: "ar_physical s = Some ph" and small: "unat (ph_next_overlay_page ph) < 2251799813685248"
    and good: "data_good (Some ph) (snapshot_at s (acquire s))"
    and make: "make_physical_replacement io candidate s = (res, t)"
  shows "\<exists>ph'. ar_physical t = Some ph' \<and> overlay_grown ph ph' \<and> (\<forall>r. res = Inr (Some r) \<longrightarrow> data_sound (Some ph') r)"
  using ph make
proof (cases rule: make_physical_cases)
  case same
  have "overlay_grown ph ph" using overlay_grown_next [of ph "ph_next_overlay_page ph"] by simp
  with same ph show ?thesis by auto
next
  case (packed left right nodes)
  let ?cur = "snapshot_at s (acquire s)" and ?pair = "ar_candidates s ! unat candidate"
  let ?v = "k_io_vector_page_size div ph_vector_bytes ph"
  note nodes = packed_nodes_Some [OF base packed(1) expected_cells_distinct]
  have few: "length nodes < 4294967296" using packed(2) unsigned_less [of "vw_node_count left + vw_node_count right"] by simp
  define pc where "pc = ((of_nat (length nodes) + ucast ?v - 1) div ucast ?v :: u64)"
  define ph1 where "ph1 = ph\<lparr>ph_next_overlay_page := ph_next_overlay_page ph + pc\<rparr>"
  note make' = packed(3) [unfolded packed_run_def Let_def, folded pc_def, folded ph1_def]
  show ?thesis
  proof (cases "pack_nodes ph1 ?cur (ph_next_overlay_page ph) ?v 0 nodes (replicate (unat (pc * ucast k_io_vector_page_size)) 0)")
    case (Inl e)
    have vb: "0 < unat (ph_vector_bytes ph)" "unat (ph_vector_bytes ph) \<le> 4096"
      using base unfolding base_ok_def by (simp_all add: unat_gt_0)
    then have "0 < unat ?v" "unat ?v \<le> 4096" by (simp_all add: unat_div k_io_vector_page_size_def div_greater_zero_iff)
    note w = page_count_words [OF this few, folded pc_def]
    have "unat (ph_next_overlay_page ph) \<le> unat (ph_next_overlay_page ph + pc)"
      using unat_add_lem [of "ph_next_overlay_page ph" pc] w small by simp
    then have "overlay_grown ph ph1" unfolding ph1_def by (rule overlay_grown_next)
    then show ?thesis using make' Inl by auto
  next
    case (Inr out)
    obtain payload directory where out: "out = (payload, directory)" by fastforce
    from make' have fin: "finish_replacement io ?cur ?pair (expected_cells left right) (ph_next_overlay_page ph) pc
        payload directory ph1 (set_physical ph1 s) = (res, t)" by (simp add: Inr out)
    show ?thesis
      by (rule pack_and_finish [OF base good small nodes few refl pc_def ph1_def Inr [unfolded out] fin])
  qed
qed

text \<open>The contract of the snapshots, for replacements of other threads that offer no vectors.\<close>

definition no_vectors :: "adaptive_cell_view_t \<Rightarrow> bool" where
  "no_vectors r \<longleftrightarrow> vw_vector_nodes r = [] \<and> vw_vector_locations r = []"

interpretation data: snapshot_contract data_good data_sound no_vectors "data_stable ph0"
proof unfold_locales
  fix p current r l left c right nxt
  assume "data_good p current" "data_sound p r" "next_snapshot current r (expected_cells left right) = Some nxt"
  then show "data_good p nxt" by (rule data_merge)
next
  fix r p assume "no_vectors r"
  then show "data_sound p r" by (simp add: no_vectors_def data_sound_def entries_good_def)
next
  fix s candidate io res t
  assume a: "data_stable ph0 (ar_physical s)"
    "\<forall>ph. ar_physical s = Some ph \<longrightarrow> unat (ph_next_overlay_page ph) < 2251799813685248"
    "data_good (ar_physical s) (snapshot_at s (acquire s))" "make_physical_replacement io candidate s = (res, t)"
  from a(1) obtain ph where ph: "ar_physical s = Some ph" "same_base ph0 ph" "base_ok ph0" by (auto simp: data_stable_def)
  have base: "base_ok ph" by (rule base_ok_same [OF ph(3,2)])
  from make_physical_data [OF base ph(1) _ _ a(4)] a(2,3) ph(1) obtain ph' where
    t: "ar_physical t = Some ph'" "overlay_grown ph ph'" "\<forall>r. res = Inr (Some r) \<longrightarrow> data_sound (Some ph') r" by auto
  have "same_base ph0 ph'" using ph(2) t(2) by (simp add: overlay_grown_def same_base_def)
  then show "data_stable ph0 (ar_physical t) \<and> (\<forall>sn. data_good (ar_physical s) sn \<longrightarrow> data_good (ar_physical t) sn)
      \<and> (\<forall>r. data_sound (ar_physical s) r \<longrightarrow> data_sound (ar_physical t) r)
      \<and> (\<forall>r. res = Inr (Some r) \<longrightarrow> data_sound (ar_physical t) r)"
    using ph t data_good_grown [OF base t(2)] by (simp add: data_stable_def)
qed


subsection \<open>The start\<close>

lemma own_nodes_Inr:
  assumes "own_nodes cell ns owner = Inr owner'" "cell \<noteq> - 1"
  shows "distinct ns \<and> (\<forall>n \<in> set ns. unat n < length owner \<and> owner ! unat n = - 1) \<and> length owner' = length owner
    \<and> (\<forall>n. unat n < length owner \<longrightarrow> owner' ! unat n = - 1 \<longrightarrow> n \<notin> set ns \<and> owner ! unat n = - 1)"
  using assms
proof (induction cell ns owner rule: own_nodes.induct)
  case (2 cell n ns owner)
  then have p: "unat n < length owner" "owner ! unat n = - 1" "own_nodes cell ns (owner[unat n := cell]) = Inr owner'"
    by (auto split: if_splits)
  note ih = 2(1) [OF _ p(3) 2(3)]
  have "n \<notin> set ns" using ih p(1,2) 2(3) by auto
  then show ?case using ih p 2(3) by (auto simp: nth_list_update split: if_splits)
qed simp

lemma own_cells_Inr:
  assumes "own_cells ix cell xs owner = Inr (nss, owner')" "unat cell + length xs < 4294967296"
  shows "distinct (concat nss) \<and> (\<forall>n \<in> set (concat nss). unat n < length owner \<and> owner ! unat n = - 1)"
  using assms
proof (induction ix cell xs owner arbitrary: nss rule: own_cells.induct)
  case (2 ix cell nodes r rest owner)
  then obtain ns owner1 mss where p: "own_nodes cell ns owner = Inr owner1" "own_cells ix (cell + 1) rest owner1 = Inr (mss, owner')"
    "nss = ns # mss" by (auto simp: bindE_eq_Inr)
  have c: "cell \<noteq> - 1" using 2(3) by (auto simp: unsigned_minus_1_eq_mask mask_eq_exp_minus_1)
  note o = own_nodes_Inr [OF p(1) c]
  have "unat (cell + 1) = unat cell + 1" using unat_add_lem [of cell 1] 2(3) by simp
  then have ih: "distinct (concat mss) \<and> (\<forall>n \<in> set (concat mss). unat n < length owner1 \<and> owner1 ! unat n = - 1)"
    using 2(1) p(2) 2(3) by simp
  then show ?case using o unfolding p(3) by auto
qed simp


lemma loaded_page_count:
  assumes "load_io_optimized_index pfor disk topology vectors topology_only False cache_pages = Inr ix"
  shows "index_ok ix" "unat (ix_vector_page_count ix) < 4503599627370496"
proof -
  from assms obtain bytes where b: "topology = Some bytes"
    by (cases topology) (simp_all add: load_io_optimized_index_def read_file_def)
  from assms [unfolded b load_resident_iff] obtain h where
    h: "check_fingerprints h disk vectors topology_only = Inr ()"
      "fill_index pfor False h (resident_sections h bytes) (of_nat (length bytes)) = Inr ix" by blast
  show "index_ok ix" by (rule fill_index_ok [OF h(2)])
  from h(1) obtain n :: u64 where "unat n = unat (h_vector_page_count h) * 4096"
    by (auto simp: check_fingerprints_def bindE_eq_Inr checked_multiply_iff k_io_vector_page_size_def)
  moreover have "ix_vector_page_count ix = h_vector_page_count h" using h(2) by (auto simp: fill_index_iff)
  moreover have "unat n < 18446744073709551616" using unsigned_less [of n] by simp
  ultimately show "unat (ix_vector_page_count ix) < 4503599627370496" by simp
qed

lemma new_physical_Inr:
  assumes "new_physical_runtime ranges candidates config (Some ix) (Some base) overlay vector_bytes cell_nodes = Inr s"
  obtains sorted_nodes owner where
    "vector_bytes \<noteq> 0" "vector_bytes \<le> k_io_vector_page_size" "length cell_nodes = length ranges"
    "own_cells ix 0 (zip cell_nodes ranges) (replicate (unat (ix_point_count ix)) (- 1)) = Inr (sorted_nodes, owner)"
    "initialize config candidates (Some \<lparr>ph_base_index = ix, ph_base_file = base, ph_overlay = [],
                  ph_vector_bytes = vector_bytes, ph_cell_nodes = sorted_nodes, ph_node_to_cell = owner,
                  ph_base_page_count = ix_vector_page_count ix, ph_next_overlay_page = 0,
                  ph_generation_file = None\<rparr>) ranges = Inr s"
  using assms unfolding new_physical_runtime_def physical_state_def
  by (auto simp: bindE_eq_Inr not_less split: if_splits)

lemma fresh_physical_base:
  assumes ix: "index_ok ix" "unat (ix_vector_page_count ix) < 4503599627370496" and few: "length ranges < 4294967295"
    and run: "new_physical_runtime ranges candidates config (Some ix) (Some base) overlay vector_bytes cell_nodes = Inr s"
  obtains ph where "ar_physical s = Some ph" "base_ok ph" "ph_base_index ph = ix" "ph_base_file ph = base"
    "ph_vector_bytes ph = vector_bytes"
proof -
  from run obtain sorted_nodes owner where r:
    "vector_bytes \<noteq> 0" "vector_bytes \<le> k_io_vector_page_size" "length cell_nodes = length ranges"
    "own_cells ix 0 (zip cell_nodes ranges) (replicate (unat (ix_point_count ix)) (- 1)) = Inr (sorted_nodes, owner)"
    "initialize config candidates (Some \<lparr>ph_base_index = ix, ph_base_file = base, ph_overlay = [],
                  ph_vector_bytes = vector_bytes, ph_cell_nodes = sorted_nodes, ph_node_to_cell = owner,
                  ph_base_page_count = ix_vector_page_count ix, ph_next_overlay_page = 0,
                  ph_generation_file = None\<rparr>) ranges = Inr s" by (rule new_physical_Inr)
  from initialize_Inr [OF r(5)] have p: "ar_physical s = Some \<lparr>ph_base_index = ix, ph_base_file = base, ph_overlay = [],
                  ph_vector_bytes = vector_bytes, ph_cell_nodes = sorted_nodes, ph_node_to_cell = owner,
                  ph_base_page_count = ix_vector_page_count ix, ph_next_overlay_page = 0,
                  ph_generation_file = None\<rparr>" by metis
  have "unat vector_bytes \<le> 4096" using r(2) by (simp add: word_le_nat_alt k_io_vector_page_size_def)
  with own_cells_Inr [OF r(4)] r(1,3) ix few show ?thesis
    by (intro that [OF p]) (simp_all add: base_ok_def)
qed

lemma initial_data: "data_good p \<lparr>sn_generation = 0, sn_cells = vs, sn_override_nodes = [], sn_override_locations = [],
       sn_override_filter = replicate 64 0\<rparr>"
  by (simp add: data_good_def directory_ok_def directory_of_def entries_good_def)

interpretation data_run: invariant_system
  "\<lambda>sy. \<exists>config candidates ranges s. base_ok ph0 \<and> initialize config candidates (Some ph0) ranges = Inr s \<and> adaptive_start s sy"
  "adaptive_step rnd no_vectors"
  "snapshot_contract.system_good data_good data_sound (data_stable ph0)"
proof unfold_locales
  fix sy assume "\<exists>config candidates ranges s. base_ok ph0 \<and> initialize config candidates (Some ph0) ranges = Inr s \<and> adaptive_start s sy"
  then obtain s config candidates ranges where s: "initialize config candidates (Some ph0) ranges = Inr s"
    "base_ok ph0" "sy = \<lparr>as_runtime = s, as_builder = Waiting, as_clients = []\<rparr>"
    by (auto simp: adaptive_start_def)
  from initialize_Inr [OF s(1)] obtain vs where "ar_physical s = Some ph0"
    "ar_snapshots s = [\<lparr>sn_generation = 0, sn_cells = vs, sn_override_nodes = [], sn_override_locations = [],
       sn_override_filter = replicate 64 0\<rparr>]" by metis
  with s(2,3) show "data.system_good ph0 sy"
    by (simp add: data.system_good_def data.snapshots_good_def initial_data data_stable_def same_base_def)
qed (rule data.adaptive_step_good)

end
