(* ===== verification/Adaptive_Correct.thy ===== *)
theory Adaptive_Correct
  imports Adaptive_Data
begin

text \<open>
  The two main properties of the adaptive cells, over all interleavings: the mapping table stays a partition of the
  logical cells, and every published snapshot reads the vectors of the base file.  A run that merges two cells, with
  and without new pages, is their common witness.
\<close>

unbundle bit_operations_syntax

subsection \<open>A merge of two cells\<close>

text \<open>Two cells of two nodes on adjacent pages, merged by a query and the builder.\<close>

definition sample_ranges :: "io_cell_page_range_t list" where
  "sample_ranges = [\<lparr>rg_first_page = 0, rg_page_count = 1, rg_node_count = 2, rg_chunk_size_bytes = 4096\<rparr>,
     \<lparr>rg_first_page = 1, rg_page_count = 1, rg_node_count = 2, rg_chunk_size_bytes = 4096\<rparr>]"

definition sample_config :: adaptive_cell_runtime_config_t where
  "sample_config = \<lparr>cf_enabled = True, cf_minimum_joint = 1, cf_minimum_ratio = Fin 1, cf_maximum_page_increase = Fin 0,
     cf_maximum_unseen_increase = Fin 0, cf_maximum_publishes = 1, cf_background = True, cf_force_first = False\<rparr>"

text \<open>Four nodes of one dimension in two cells on the pages 0 and 1.\<close>

definition adaptive_build :: io_build_t where
  "adaptive_build = \<lparr>bd_point_count = 4, bd_dimension = 1, bd_max_degree = 1, bd_encoding = RAW_U32,
     bd_layout = CELL_4K, bd_offsets = edge_offsets_of [[1], [0], [3], [2]], bd_adjacency = [1, 0, 3, 2],
     bd_locations = [\<lparr>loc_page_id = 0, loc_page_offset = 0\<rparr>, \<lparr>loc_page_id = 0, loc_page_offset = 4\<rparr>,
       \<lparr>loc_page_id = 1, loc_page_offset = 0\<rparr>, \<lparr>loc_page_id = 1, loc_page_offset = 4\<rparr>],
     bd_vector_page_count = 2, bd_cell_ranges = sample_ranges,
     bd_prefetch_pages = [k_no_io_prefetch_page, k_no_io_prefetch_page, k_no_io_prefetch_page, k_no_io_prefetch_page], bd_gateway_hints = [],
     bd_base = \<lparr>fp_size = 1, fp_checksum = fingerprint_loop sample_disk k_fnv_offset_basis\<rparr>,
     bd_vector_checksum = 0, bd_community_polar = \<lparr>fp_size = 0, fp_checksum = 0\<rparr>\<rparr>"

definition adaptive_base :: "u8 list" where
  "adaptive_base = [2, 0, 0, 0, 4, 0, 0, 0] @ replicate 4088 0 @ [6, 0, 0, 0, 8, 0, 0, 0] @ replicate 4088 0"

definition adaptive_topology :: "u8 list" where
  "adaptive_topology = (case write_topology None adaptive_build of Inl _ \<Rightarrow> [] | Inr bytes \<Rightarrow> bytes)"

abbreviation "adaptive_index \<equiv> built_index adaptive_build (length adaptive_topology)"

lemma adaptive_loads:
  "load_io_optimized_index None (Some sample_disk) (Some adaptive_topology) (Some adaptive_base) True False 0 = Inr adaptive_index"
proof -
  have ok: "build_ok adaptive_build [[1], [0], [3], [2]]"
    unfolding build_ok_def
    by (intro conjI) (simp_all add: adaptive_build_def encoding_defs layout_defs location_ok_def prefetch_page_ok_def
      k_no_io_prefetch_page_def k_io_vector_page_size_def sample_ranges_def range_ok_def cell_layout_def
      covered_def word_le_nat_alt word_less_nat_alt)
  have "\<exists>bytes. write_topology None adaptive_build = Inr bytes \<and> length bytes < 18446744073709551616"
    by (simp add: write_topology_def encode_adjacency_def adaptive_build_def build_header_def payload_of_def
        checked_add_def checked_multiply_def k_topology_header_bytes_def k_io_vector_page_size_def sample_ranges_def
        length_sections Let_def payload_bytes_def length_serialize_header unat_minus_one)
  then have w: "write_topology None adaptive_build = Inr adaptive_topology" "length adaptive_topology < 2 ^ 64"
    by (auto simp: adaptive_topology_def)
  have f: "codec_fits None (bd_encoding adaptive_build) [[1], [0], [3], [2]]" by (simp add: codec_fits_def adaptive_build_def)
  have d: "fingerprint_file (Some sample_disk) = Inr (bd_base adaptive_build)"
    by (simp add: fingerprint_file_def adaptive_build_def sample_disk_def)
  show ?thesis by (rule load_written(1) [OF ok f w d]) simp
qed

definition adaptive_start_runtime :: adaptive_cell_runtime_t where
  "adaptive_start_runtime = projr (new_physical_runtime sample_ranges [\<lparr>mc_left = 0, mc_right = 1\<rparr>] sample_config
     (Some adaptive_index) (Some adaptive_base) (Some True) 4 [[1, 0], [2, 3]])"

definition adaptive_files :: adaptive_physical_t where
  "adaptive_files = \<lparr>ph_base_index = adaptive_index, ph_base_file = adaptive_base, ph_overlay = [], ph_vector_bytes = 4,
     ph_cell_nodes = [[0, 1], [2, 3]], ph_node_to_cell = [0, 0, 1, 1], ph_base_page_count = 2, ph_next_overlay_page = 0,
     ph_generation_file = None\<rparr>"

lemmas adaptive_index_simps = built_index_def adaptive_build_def

lemma adaptive_physical: "physical_state (Some adaptive_index) (Some adaptive_base) (Some True) 4 [[1, 0], [2, 3]] sample_ranges = Inr adaptive_files"
proof -
  have f: "ix_point_count adaptive_index = 4" "ix_cell_page_ranges adaptive_index = sample_ranges" "ix_vector_page_count adaptive_index = 2"
    "ix_vector_locations adaptive_index = [\<lparr>loc_page_id = 0, loc_page_offset = 0\<rparr>, \<lparr>loc_page_id = 0, loc_page_offset = 4\<rparr>,
       \<lparr>loc_page_id = 1, loc_page_offset = 0\<rparr>, \<lparr>loc_page_id = 1, loc_page_offset = 4\<rparr>]"
    by (simp_all add: built_index_def adaptive_build_def)
  have r: "replicate 4 (- 1 :: u32) = [- 1, - 1, - 1, - 1]" by (simp add: numeral_eq_Suc)
  have s: "sort_members adaptive_index [1, 0] = Inr [0, 1]" "sort_members adaptive_index [2, 3] = Inr [2, 3]"
    by (simp_all add: sort_members_def f location_key_def less_eq_prod_def word_le_nat_alt)
  have o: "own_cells adaptive_index 0 (zip [[1, 0], [2, 3]] sample_ranges) [- 1, - 1, - 1, - 1] = Inr ([[0, 1], [2, 3]], [0, 0, 1, 1])"
    by (simp add: sample_ranges_def guardE_def s)
  show ?thesis
    using o by (simp add: physical_state_def guardE_def adaptive_files_def f r k_io_vector_page_size_def sample_ranges_def)
qed


definition sample_view :: "u32 \<Rightarrow> adaptive_cell_view_t" where
  "sample_view c = \<lparr>vw_view_id = ucast c, vw_generation = 0, vw_capacity_class = 16, vw_node_count = 2, vw_ready = True,
     vw_logical_cells = [c], vw_page_runs = [\<lparr>run_first_page = ucast c, run_page_count = 1\<rparr>], vw_vector_nodes = [],
     vw_vector_locations = [], vw_payload_checksum = 0, vw_directory_checksum = 0\<rparr>"

definition sample_runtime :: "adaptive_physical_t option \<Rightarrow> adaptive_cell_runtime_t" where
  "sample_runtime p = \<lparr>ar_config = sample_config, ar_candidates = [\<lparr>mc_left = 0, mc_right = 1\<rparr>],
         ar_by_cell = [[0], [0]], ar_counters = [no_counters],
         ar_snapshots = [\<lparr>sn_generation = 0, sn_cells = [sample_view 0, sample_view 1], sn_override_nodes = [],
           sn_override_locations = [], sn_override_filter = replicate 64 0\<rparr>],
         ar_final = None, ar_pending = [False], ar_forced_queued = False,
         ar_forced_candidate = - 1, ar_physical = p, ar_observations = 0, ar_publish_attempts = 0,
         ar_successful = 0, ar_conflicts = 0, ar_physical_generations = 0, ar_bytes_written = 0,
         ar_checksum_failures = 0\<rparr>"

lemma sample_initialize: "initialize sample_config [\<lparr>mc_left = 0, mc_right = 1\<rparr>] p sample_ranges = Inr (sample_runtime p)"
  by (simp add: sample_config_def sample_ranges_def initialize_def guardE_def config_ok_def lt_double_def
    initial_view_def capacity_for_population_def push_to_def sample_runtime_def sample_view_def)

definition observed_runtime :: "adaptive_physical_t option \<Rightarrow> bool \<Rightarrow> adaptive_cell_runtime_t" where
  "observed_runtime p b = (sample_runtime p)\<lparr>ar_counters := [\<lparr>cc_parent = 1, cc_joint = 1, cc_fixed_pages = 2, cc_merged_pages = 2,
     cc_fixed_unseen = 4, cc_merged_unseen = 4\<rparr>], ar_observations := 1, ar_pending := [b]\<rparr>"

lemma sample_observed: "observe_query (\<lambda>x. x) [0, 1] (sample_runtime p) = Inr (observed_runtime p True)"
  by (simp add: sample_runtime_def sample_view_def sample_config_def no_counters_def observe_query_def observe_candidate_def
    accepts_observations_def snapshot_at_def acquire_def snapshot_cell_def observe_def profile_def relative_increase_def
    divided_def view_page_count_def set_pending_def Let_def observed_runtime_def)

lemma sample_gate:
  assumes "ar_counters s = ar_counters (observed_runtime p False)" "ar_config s = sample_config"
    "ar_candidates s = [\<lparr>mc_left = 0, mc_right = 1\<rparr>]" "ar_successful s = 0" "ar_forced_candidate s = - 1"
  shows "publish_gate (\<lambda>x. x) 0 (ar_forced_candidate s = 0) s = Inr True"
  by (simp add: publish_gate_def accepts_observations_def assms sample_config_def profile_def observed_runtime_def
    relative_increase_def divided_def Let_def)

text \<open>The replacement of the builder, with the members it lists.\<close>

definition sample_merged :: "io_page_run_t \<Rightarrow> u32 list \<Rightarrow> io_vector_location_t list \<Rightarrow> u64 \<Rightarrow> u64 \<Rightarrow> adaptive_cell_view_t" where
  "sample_merged run nodes locations payload directory =
     \<lparr>vw_view_id = 4294967296, vw_generation = 1, vw_capacity_class = 16, vw_node_count = 4, vw_ready = True,
      vw_logical_cells = [0, 1], vw_page_runs = [run], vw_vector_nodes = nodes, vw_vector_locations = locations,
      vw_payload_checksum = payload, vw_directory_checksum = directory\<rparr>"

lemma sample_published:
  assumes "ar_snapshots s = ar_snapshots (sample_runtime p)" "ar_candidates s = [\<lparr>mc_left = 0, mc_right = 1\<rparr>]"
    "nodes = [] \<and> locations = [] \<or> nodes = [0, 1, 2, 3] \<and> length locations = 4 \<and> payload \<noteq> 0 \<and> directory \<noteq> 0"
  shows "\<exists>nx. prepare_publish 0 (sample_merged run nodes locations payload directory) (count_attempt s) = Inr (Some (0, nx))"
proof -
  have e: "expected_cells (sample_view 0) (sample_view 1) = [0, 1]"
    by (simp add: expected_cells_def sample_view_def word_le_nat_alt)
  have "replacement_fits (snapshot_at s 0) (sample_view 0) (sample_view 1) (sample_merged run nodes locations payload directory) = Inr True"
    using assms(3) by (auto simp: replacement_fits_def e) (auto simp: assms(1) snapshot_at_def sample_runtime_def sample_merged_def
      sample_view_def capacity_for_population_def word_le_nat_alt)
  then show ?thesis
    by (simp add: prepare_publish_def e count_attempt_def assms(1,2) snapshot_at_def sample_runtime_def acquire_def snapshot_cell_def
      next_snapshot_def Let_def)
qed


lemma sample_contiguous:
  "make_physical_replacement io 0 (set_pending 0 False (observed_runtime None True))
     = (Inr (Some (sample_merged \<lparr>run_first_page = 0, run_page_count = 2\<rparr> [] [] 0 0)), observed_runtime None False)"
  by (simp add: make_physical_replacement_def make_contiguous_replacement_def set_pending_def observed_runtime_def
    sample_runtime_def snapshot_cell_def snapshot_at_def acquire_def sample_view_def capacity_for_population_def
    expected_cells_def sample_merged_def word_le_nat_alt Let_def)

text \<open>The checksums of the packed pages and of the directory are odd, hence not 0.\<close>

lemma even_hash_bytes: "even (hash_bytes h bs) \<longleftrightarrow> even h = even (length (filter odd bs))"
proof (induction bs arbitrary: h)
  case (Cons b bs)
  have "bit (ucast b :: u64) 0 = bit b 0" by (simp add: bit_unsigned_iff)
  then have "even ((h XOR ucast b) * k_fnv_prime) \<longleftrightarrow> even h = even b"
    by (auto simp: k_fnv_prime_def even_xor_iff bit_0)
  with Cons show ?case by (simp add: hash_bytes_def) blast
qed simp

definition adaptive_payload :: "u8 list" where
  "adaptive_payload = [2, 0, 0, 0, 4, 0, 0, 0, 6, 0, 0, 0, 8, 0, 0, 0] @ replicate 4080 0"

definition adaptive_locations :: "io_vector_location_t list" where
  "adaptive_locations = map (\<lambda>k. \<lparr>loc_page_id = 2, loc_page_offset = k\<rparr>) [0, 4, 8, 12]"

lemma adaptive_packed:
  "pack_nodes (adaptive_files\<lparr>ph_next_overlay_page := 1\<rparr>) (snapshot_at (sample_runtime p) 0) 0 1024 0 [0, 1, 2, 3] (replicate 4096 0)
     = Inr (adaptive_payload, zip [0, 1, 2, 3] adaptive_locations)"
proof -
  let ?ph = "adaptive_files\<lparr>ph_next_overlay_page := 1\<rparr>" and ?sn = "snapshot_at (sample_runtime p) 0"
  have l: "snapshot_vector_location ?sn n d = d" for n d
    by (simp add: snapshot_vector_location_def snapshot_at_def sample_runtime_def lower_bound_def)
  have v: "vector_location adaptive_index 0 = Inr \<lparr>loc_page_id = 0, loc_page_offset = 0\<rparr>"
    "vector_location adaptive_index 1 = Inr \<lparr>loc_page_id = 0, loc_page_offset = 4\<rparr>"
    "vector_location adaptive_index 2 = Inr \<lparr>loc_page_id = 1, loc_page_offset = 0\<rparr>"
    "vector_location adaptive_index 3 = Inr \<lparr>loc_page_id = 1, loc_page_offset = 4\<rparr>"
    by (simp_all add: vector_location_def built_index_def adaptive_build_def word_le_nat_alt)
  have r: "read_stored_vector ?ph \<lparr>loc_page_id = 0, loc_page_offset = 0\<rparr> = Inr [2, 0, 0, 0]"
    "read_stored_vector ?ph \<lparr>loc_page_id = 0, loc_page_offset = 4\<rparr> = Inr [4, 0, 0, 0]"
    "read_stored_vector ?ph \<lparr>loc_page_id = 1, loc_page_offset = 0\<rparr> = Inr [6, 0, 0, 0]"
    "read_stored_vector ?ph \<lparr>loc_page_id = 1, loc_page_offset = 4\<rparr> = Inr [8, 0, 0, 0]"
    by (simp_all add: read_stored_vector_def pread_exact_def adaptive_files_def k_io_vector_page_size_def adaptive_base_def
      word_le_nat_alt)
  have w: "write_at 0 [2, 0, 0, 0] (replicate 4096 0) = [2, 0, 0, 0] @ replicate 4092 0"
    "write_at 4 [4, 0, 0, 0] ([2, 0, 0, 0] @ replicate 4092 0) = [2, 0, 0, 0, 4, 0, 0, 0] @ replicate 4088 0"
    "write_at 8 [6, 0, 0, 0] ([2, 0, 0, 0, 4, 0, 0, 0] @ replicate 4088 0) = [2, 0, 0, 0, 4, 0, 0, 0, 6, 0, 0, 0] @ replicate 4084 0"
    "write_at 12 [8, 0, 0, 0] ([2, 0, 0, 0, 4, 0, 0, 0, 6, 0, 0, 0] @ replicate 4084 0) = adaptive_payload"
    by (simp_all add: write_at_def adaptive_payload_def)
  have f: "ph_base_index ?ph = adaptive_index" "ph_vector_bytes ?ph = 4" by (simp_all add: adaptive_files_def)
  have o: "slot_offset 1024 0 4 = 0" "slot_offset 1024 1 4 = 4" "slot_offset 1024 2 4 = 8" "slot_offset 1024 3 4 = 12"
    by (simp_all add: slot_offset_def k_io_vector_page_size_def)
  have sl: "slot_location ?ph 0 1024 0 = \<lparr>loc_page_id = 2, loc_page_offset = 0\<rparr>"
    "slot_location ?ph 0 1024 1 = \<lparr>loc_page_id = 2, loc_page_offset = 4\<rparr>"
    "slot_location ?ph 0 1024 2 = \<lparr>loc_page_id = 2, loc_page_offset = 8\<rparr>"
    "slot_location ?ph 0 1024 3 = \<lparr>loc_page_id = 2, loc_page_offset = 12\<rparr>"
    by (simp_all add: slot_location_def adaptive_files_def)
  note w = w [unfolded append_Cons append_Nil]
  show ?thesis by (simp add: l f v r o sl w adaptive_locations_def)
qed

lemma adaptive_checksums: "checksum_bytes adaptive_payload \<noteq> 0" "directory_checksum (zip [0, 1, 2, 3] adaptive_locations) \<noteq> 0"
proof -
  have "odd (checksum_bytes adaptive_payload)"
    unfolding checksum_bytes_def even_hash_bytes by (simp add: adaptive_payload_def k_fnv_offset_basis_def)
  then show "checksum_bytes adaptive_payload \<noteq> 0" by auto
  have "le_bytes 4 (n :: u32) = [ucast n, 0, 0, 0]" "le_bytes 8 (ucast n :: u64) = [ucast n, 0, 0, 0, 0, 0, 0, 0]" if "n \<in> {0, 1, 2, 3, 4, 8, 12}" for n
    using that by (auto simp: le_bytes_def upt_rec)
  from this(1) [of 0] this(1) [of 1] this(1) [of 2] this(1) [of 3] this(1) [of 4] this(1) [of 8] this(1) [of 12] this(2) [of 2]
  have "odd (directory_checksum (zip [0, 1, 2, 3] adaptive_locations))"
    by (simp add: directory_checksum_def adaptive_locations_def even_hash_bytes k_fnv_offset_basis_def del: hash_bytes_Cons)
  then show "directory_checksum (zip [0, 1, 2, 3] adaptive_locations) \<noteq> 0" by auto
qed


lemma adaptive_replaced:
  "\<exists>s. make_physical_replacement \<lparr>overlay_fault = None, overlay_sync_fault = False, manifest_fault = False\<rparr> 0
       (set_pending 0 False (observed_runtime (Some adaptive_files) True))
     = (Inr (Some (sample_merged \<lparr>run_first_page = 2, run_page_count = 1\<rparr> [0, 1, 2, 3] adaptive_locations
         (checksum_bytes adaptive_payload) (directory_checksum (zip [0, 1, 2, 3] adaptive_locations)))), s)
   \<and> ar_counters s = ar_counters (observed_runtime p False) \<and> ar_config s = sample_config
   \<and> ar_candidates s = [\<lparr>mc_left = 0, mc_right = 1\<rparr>] \<and> ar_successful s = 0 \<and> ar_forced_candidate s = - 1
   \<and> ar_snapshots s = ar_snapshots (sample_runtime p)"
proof -
  let ?s = "set_pending 0 False (observed_runtime (Some adaptive_files) True)"
  define dir where "dir = zip [0, 1, 2, 3 :: u32] adaptive_locations"
  have s: "ar_physical ?s = Some adaptive_files" "snapshot_at ?s (acquire ?s) = snapshot_at (sample_runtime p) 0"
    "ar_candidates ?s ! 0 = \<lparr>mc_left = 0, mc_right = 1\<rparr>"
    by (simp_all add: set_pending_def observed_runtime_def sample_runtime_def snapshot_at_def acquire_def)
  have c: "snapshot_cell (snapshot_at (sample_runtime p) 0) 0 = Inr (sample_view 0)"
    "snapshot_cell (snapshot_at (sample_runtime p) 0) 1 = Inr (sample_view 1)" "sn_generation (snapshot_at (sample_runtime p) 0) = 0"
    by (simp_all add: snapshot_cell_def snapshot_at_def sample_runtime_def)
  have v: "expected_cells (sample_view 0) (sample_view 1) = [0, 1]" "vw_view_id (sample_view 0) \<noteq> vw_view_id (sample_view 1)"
    "vw_node_count (sample_view 0) + vw_node_count (sample_view 1) = 4"
    by (simp_all add: expected_cells_def sample_view_def word_le_nat_alt)
  have n: "packed_nodes adaptive_files [0, 1] = Some [0, 1, 2, 3]" "ph_vector_bytes adaptive_files = 4" "ph_next_overlay_page adaptive_files = 0"
    by (simp_all add: packed_nodes_def adaptive_files_def)
  have z: "length adaptive_payload = 4096" "sort_key fst dir = dir" "map fst dir = [0, 1, 2, 3]" "map snd dir = adaptive_locations"
    "length dir = 4"
    by (simp_all add: adaptive_payload_def adaptive_locations_def word_le_nat_alt dir_def)
  have w: "write_at 0 adaptive_payload [] = adaptive_payload" by (simp add: write_at_def adaptive_payload_def)
  have q: "capacity_for_population 4 = Inr 16" by (simp add: capacity_for_population_def word_le_nat_alt)
  have pr: "pread_exact adaptive_payload 0 4096 = Inr adaptive_payload" by (simp add: pread_exact_def z(1))
  let ?r = "packed_run \<lparr>overlay_fault = None, overlay_sync_fault = False, manifest_fault = False\<rparr> (snapshot_at (sample_runtime p) 0)
    \<lparr>mc_left = 0, mc_right = 1\<rparr> [0, 1] [0, 1, 2, 3] adaptive_files ?s"
  have m: "make_physical_replacement \<lparr>overlay_fault = None, overlay_sync_fault = False, manifest_fault = False\<rparr> 0 ?s = ?r"
    by (simp add: make_physical_replacement_def s c v n Let_def k_io_vector_page_size_def)
  have r: "fst ?r = Inr (Some (sample_merged \<lparr>run_first_page = 2, run_page_count = 1\<rparr> [0, 1, 2, 3] adaptive_locations
         (checksum_bytes adaptive_payload) (directory_checksum dir)))"
    using adaptive_packed [of p, folded dir_def]
    by (simp add: packed_run_def n k_io_vector_page_size_def finish_replacement_def Let_def w z pr q c sample_merged_def adaptive_files_def
      del: pack_nodes.simps)
  have f: "ar_counters (snd ?r) = ar_counters (observed_runtime p False)" "ar_config (snd ?r) = sample_config"
    "ar_candidates (snd ?r) = [\<lparr>mc_left = 0, mc_right = 1\<rparr>]" "ar_successful (snd ?r) = 0" "ar_forced_candidate (snd ?r) = - 1"
    "ar_snapshots (snd ?r) = ar_snapshots (sample_runtime p)"
    using adaptive_packed [of p, folded dir_def]
    by (simp_all add: packed_run_def n k_io_vector_page_size_def finish_replacement_def Let_def w z pr q c
      set_pending_def observed_runtime_def sample_runtime_def adaptive_files_def del: pack_nodes.simps)
  show ?thesis unfolding m dir_def [symmetric] using r f by (intro exI [of _ "snd ?r"]) (simp add: prod_eq_iff)
qed

text \<open>The whole run: after it the second snapshot is the merged one.\<close>

lemma sample_run:
  assumes make: "make_physical_replacement io 0 (set_pending 0 False (observed_runtime p True))
      = (Inr (Some (sample_merged run nodes locations payload directory)), s)"
    and p: "\<forall>ph. p = Some ph \<longrightarrow> ph_next_overlay_page ph = 0"
    and fields: "ar_counters s = ar_counters (observed_runtime p False)" "ar_config s = sample_config"
      "ar_candidates s = [\<lparr>mc_left = 0, mc_right = 1\<rparr>]" "ar_successful s = 0" "ar_forced_candidate s = - 1"
      "ar_snapshots s = ar_snapshots (sample_runtime p)"
    and entries: "nodes = [] \<and> locations = [] \<or> nodes = [0, 1, 2, 3] \<and> length locations = 4 \<and> payload \<noteq> 0 \<and> directory \<noteq> 0"
  shows "\<exists>sy. (adaptive_step (\<lambda>x. x) clients)\<^sup>*\<^sup>* \<lparr>as_runtime = sample_runtime p, as_builder = Waiting, as_clients = []\<rparr> sy
    \<and> length (ar_snapshots (as_runtime sy)) = 2"
proof -
  from sample_published [OF fields(6,3) entries] obtain nx where
    nx: "prepare_publish 0 (sample_merged run nodes locations payload directory) (count_attempt s) = Inr (Some (0, nx))" by blast
  have o: "ar_pending (observed_runtime p True) ! unat (0 :: u32)" "unat (0 :: u32) < length (ar_candidates (observed_runtime p True))"
    "cf_enabled (ar_config (observed_runtime p True))" "cf_background (ar_config (observed_runtime p True))"
    "ar_physical (observed_runtime p True) = p"
    by (simp_all add: observed_runtime_def sample_runtime_def sample_config_def)
  from merge_run [OF sample_observed o(1-4) _ make sample_gate [OF fields(1-5)] nx, of clients] o(5) p obtain sy where
    sy: "(adaptive_step (\<lambda>x. x) clients)\<^sup>*\<^sup>* \<lparr>as_runtime = sample_runtime p, as_builder = Waiting, as_clients = []\<rparr> sy"
      "as_runtime sy = snd (publish_cas 0 nx (nodes \<noteq> []) (count_attempt s))"
    by (auto simp: sample_merged_def)
  have "length (ar_snapshots (as_runtime sy)) = 2"
    using fields(6) by (simp add: sy(2) publish_cas_def acquire_def count_attempt_def sample_runtime_def Let_def)
  with sy(1) show ?thesis by blast
qed

subsection \<open>Properties\<close>

text \<open>C11: However observing threads, the background builder and any number of threads that call \<open>try_publish\<close> with
replacements of their own interleave, every snapshot that was ever published maps every logical cell to a view
that lists the cell, is the view of all the cells it lists, counts exactly their nodes and has the capacity class
of that count; and the snapshots carry consecutive generation numbers.\<close>

theorem adaptive_mapping_partition:
  assumes "fresh_runtime ranges s" "adaptive_start s sy0" "(adaptive_step rnd (\<lambda>_. True))\<^sup>*\<^sup>* sy0 sy"
    "k < length (ar_snapshots (as_runtime sy))"
  shows "table_ok ranges (snapshot_at (as_runtime sy) k) \<and> sn_generation (snapshot_at (as_runtime sy) k) = of_nat k"
proof -
  have "table.system_good ranges sy" by (rule table_run.reachable_invar [OF _ assms(3)]) (use assms(1,2) in blast)
  then show ?thesis
    using assms(4) by (simp add: table.system_good_def table.snapshots_good_def table_good_def snapshot_at_def)
qed

lemma adaptive_mapping_partition_witness:
  "\<exists>sy :: adaptive_system_t. length (ar_snapshots (as_runtime sy)) = 2 \<and> table_ok sample_ranges (snapshot_at (as_runtime sy) 1)
     \<and> sn_generation (snapshot_at (as_runtime sy) 1) = 1"
proof -
  have f: "fresh_runtime sample_ranges (sample_runtime None)"
    unfolding fresh_runtime_def using sample_initialize by (auto simp: sample_ranges_def)
  have "\<exists>sy. (adaptive_step (\<lambda>x. x) (\<lambda>_. True))\<^sup>*\<^sup>* \<lparr>as_runtime = sample_runtime None, as_builder = Waiting, as_clients = []\<rparr> sy
      \<and> length (ar_snapshots (as_runtime sy)) = 2"
    by (rule sample_run [OF sample_contiguous]) (simp_all add: observed_runtime_def sample_runtime_def)
  then obtain sy where "(adaptive_step (\<lambda>x. x) (\<lambda>_. True))\<^sup>*\<^sup>* \<lparr>as_runtime = sample_runtime None, as_builder = Waiting, as_clients = []\<rparr> sy"
      "length (ar_snapshots (as_runtime sy)) = 2" by blast
  with adaptive_mapping_partition [OF f _ this(1), of 1] show ?thesis by (auto simp: adaptive_start_def)
qed

text \<open>C12: Merging never changes what a vector reads as: with an index that \<open>load\<close> accepts, after any interleaving of
queries, the background builder (whose writes may fail at any byte) and other threads' publications, a lookup
through any snapshot that was ever published, old or current, reads from the base file or from the overlay
exactly what the vector's original location in the base file holds.\<close>

theorem adaptive_vectors_preserved:
  assumes "load_io_optimized_index pfor disk topology (Some base) topology_only False cache_pages = Inr ix"
    "new_physical_runtime ranges candidates config (Some ix) (Some base) overlay vector_bytes cell_nodes = Inr s"
    "length ranges < 4294967295" "adaptive_start s sy0" "(adaptive_step rnd no_vectors)\<^sup>*\<^sup>* sy0 sy"
    "k < length (ar_snapshots (as_runtime sy))" "unat n < unat (ix_point_count ix)"
  shows "\<exists>ph l. ar_physical (as_runtime sy) = Some ph \<and> vector_location ix n = Inr l
    \<and> read_stored_vector ph (snapshot_vector_location (snapshot_at (as_runtime sy) k) n l)
      = pread_exact base (loc_page_id l * 4096 + ucast (loc_page_offset l)) (unat vector_bytes)"
proof -
  from fresh_physical_base [OF loaded_page_count [OF assms(1)] assms(3,2)] obtain ph0 where
    p: "ar_physical s = Some ph0" "base_ok ph0" "ph_base_index ph0 = ix" "ph_base_file ph0 = base" "ph_vector_bytes ph0 = vector_bytes" .
  from new_physical_Inr [OF assms(2)] obtain q where q: "initialize config candidates (Some q) ranges = Inr s" by metis
  then have "q = ph0" using initialize_Inr [OF q] p(1) by (metis option.inject)
  with q have "data.system_good ph0 sy"
    using data_run.reachable_invar [OF _ assms(5)] p(2) assms(4) by blast
  then obtain ph where ph: "ar_physical (as_runtime sy) = Some ph" "same_base ph0 ph"
    "data_good (Some ph) (snapshot_at (as_runtime sy) k)"
    using assms(6) by (auto simp: data.system_good_def data.snapshots_good_def data_stable_def snapshot_at_def)
  have b: "base_ok ph" by (rule base_ok_same [OF p(2) ph(2)])
  have e: "ph_base_index ph = ix" "ph_base_file ph = base" "ph_vector_bytes ph = vector_bytes"
    using ph(2) p by (simp_all add: same_base_def)
  have n: "unat n < unat (ix_point_count (ph_base_index ph))" using assms(7) e by simp
  show ?thesis
    using good_lookup [OF b ph(3) n] base_vector_eq [OF b n] base_fallback [OF b n] ph(1) by (simp add: e)
qed

lemma adaptive_vectors_preserved_witness:
  "\<exists>(sy :: adaptive_system_t) ph. length (ar_snapshots (as_runtime sy)) = 2 \<and> ar_physical (as_runtime sy) = Some ph
     \<and> read_stored_vector ph (snapshot_vector_location (snapshot_at (as_runtime sy) 1) 3 \<lparr>loc_page_id = 1, loc_page_offset = 4\<rparr>)
       = Inr [8, 0, 0, 0]"
proof -
  have n: "new_physical_runtime sample_ranges [\<lparr>mc_left = 0, mc_right = 1\<rparr>] sample_config (Some adaptive_index)
     (Some adaptive_base) (Some True) 4 [[1, 0], [2, 3]] = Inr (sample_runtime (Some adaptive_files))"
    by (simp add: new_physical_runtime_def adaptive_physical sample_initialize)
  from adaptive_replaced [of "Some adaptive_files"] obtain s where s:
    "make_physical_replacement \<lparr>overlay_fault = None, overlay_sync_fault = False, manifest_fault = False\<rparr> 0
       (set_pending 0 False (observed_runtime (Some adaptive_files) True))
     = (Inr (Some (sample_merged \<lparr>run_first_page = 2, run_page_count = 1\<rparr> [0, 1, 2, 3] adaptive_locations
         (checksum_bytes adaptive_payload) (directory_checksum (zip [0, 1, 2, 3] adaptive_locations)))), s)"
    "ar_counters s = ar_counters (observed_runtime (Some adaptive_files) False)" "ar_config s = sample_config"
    "ar_candidates s = [\<lparr>mc_left = 0, mc_right = 1\<rparr>]" "ar_successful s = 0" "ar_forced_candidate s = - 1"
    "ar_snapshots s = ar_snapshots (sample_runtime (Some adaptive_files))" by blast
  have l: "length adaptive_locations = 4" by (simp add: adaptive_locations_def)
  have "\<exists>sy. (adaptive_step (\<lambda>x. x) no_vectors)\<^sup>*\<^sup>* \<lparr>as_runtime = sample_runtime (Some adaptive_files), as_builder = Waiting, as_clients = []\<rparr> sy
      \<and> length (ar_snapshots (as_runtime sy)) = 2"
    by (rule sample_run [OF s(1) _ s(2-7)]) (simp_all add: adaptive_files_def adaptive_checksums l)
  then obtain sy where sy: "(adaptive_step (\<lambda>x. x) no_vectors)\<^sup>*\<^sup>* \<lparr>as_runtime = sample_runtime (Some adaptive_files), as_builder = Waiting, as_clients = []\<rparr> sy"
      "length (ar_snapshots (as_runtime sy)) = 2" by blast
  have v: "vector_location adaptive_index 3 = Inr \<lparr>loc_page_id = 1, loc_page_offset = 4\<rparr>" "unat (ix_point_count adaptive_index) = 4"
    by (simp_all add: vector_location_def built_index_def adaptive_build_def word_le_nat_alt)
  have b: "pread_exact adaptive_base 4100 4 = Inr [8, 0, 0, 0]" by (simp add: pread_exact_def adaptive_base_def)
  from adaptive_vectors_preserved [OF adaptive_loads n _ _ sy(1), of 1 3] sy(2) v b show ?thesis
    by (auto simp: adaptive_start_def sample_ranges_def)
qed

end
