(* ===== verification/Natural_Numbers.thy ===== *)
theory Natural_Numbers
  imports Bytes
begin

text \<open>
  The dense containers of the in-memory index: \<open>natural_number_map_t\<close> (src/common/natural_number_map.cc), a vector
  of values with a bitset of the present keys, and \<open>natural_number_set_t\<close> (src/common/natural_number_set.cc), a
  stack with a bitset of its members.  The contracts their clients use are the locales \<open>dense_map\<close> and
  \<open>slot_stack\<close>.  A bit outside of the bitset (\<open>boost::dynamic_bitset\<close> only asserts) is \<open>Undefined_access\<close>.
\<close>

subsection \<open>The map\<close>

record 'v natural_number_map_t =
  nm_size :: nat
  nm_values :: "'v list"
  nm_bits :: "bool list"

definition nm_empty :: "'v natural_number_map_t" where
  "nm_empty = \<lparr>nm_size = 0, nm_values = [], nm_bits = []\<rparr>"

text \<open>\<open>resize\<close> of a vector of values and of the bitset; \<open>fill\<close> is the value-initialised element.\<close>

definition resized :: "nat \<Rightarrow> 'a \<Rightarrow> 'a list \<Rightarrow> 'a list" where
  "resized n fill xs = take n xs @ replicate (n - length xs) fill"

definition nm_set :: "u32 \<Rightarrow> 'v::zero \<Rightarrow> 'v natural_number_map_t \<Rightarrow> 'v natural_number_map_t" where
  "nm_set key value m =
     (let k = unat key;
          grow = (k \<ge> length (nm_bits m));
          bits = (if grow then resized (k + 1) False (nm_bits m) else nm_bits m);
          vals = (if grow then resized (length bits) 0 (nm_values m) else nm_values m)
      in m\<lparr>nm_values := vals[k := value], nm_bits := bits[k := True],
           nm_size := (if bits ! k then nm_size m else nm_size m + 1)\<rparr>)"

definition nm_erase :: "u32 \<Rightarrow> 'v natural_number_map_t \<Rightarrow> 'v natural_number_map_t" where
  "nm_erase key m =
     (let k = unat key in
      if k < length (nm_bits m)
      then m\<lparr>nm_bits := (nm_bits m)[k := False], nm_size := (if nm_bits m ! k then nm_size m - 1 else nm_size m)\<rparr>
      else m)"

definition nm_contains :: "u32 \<Rightarrow> 'v natural_number_map_t \<Rightarrow> bool" where
  "nm_contains key m \<longleftrightarrow> unat key < length (nm_bits m) \<and> nm_bits m ! unat key"

definition nm_try_get :: "u32 \<Rightarrow> 'v natural_number_map_t \<Rightarrow> 'v option" where
  "nm_try_get key m = (if nm_contains key m then Some (nm_values m ! unat key) else None)"

definition nm_clear :: "'v natural_number_map_t \<Rightarrow> 'v natural_number_map_t" where
  "nm_clear m = m\<lparr>nm_size := 0, nm_values := [], nm_bits := []\<rparr>"

text \<open>Iteration: the position holds the key, \<open>None\<close> for \<open>npos\<close>, and counts the keys enumerated so far.\<close>

record position_t =
  ps_key :: "nat option"
  ps_enumerated :: nat

fun next_bit :: "nat \<Rightarrow> bool list \<Rightarrow> nat option" where
  "next_bit k [] = None"
| "next_bit k (b # bs) = (if b then Some k else next_bit (k + 1) bs)"

definition nm_find_first :: "'v natural_number_map_t \<Rightarrow> position_t" where
  "nm_find_first m = \<lparr>ps_key = (if nm_size m > 0 then next_bit 0 (nm_bits m) else None), ps_enumerated = 0\<rparr>"

definition nm_find_next :: "position_t \<Rightarrow> 'v natural_number_map_t \<Rightarrow> position_t" where
  "nm_find_next p m =
     \<lparr>ps_key = (if ps_enumerated p < nm_size m
                 then (case ps_key p of None \<Rightarrow> None | Some k \<Rightarrow> next_bit (k + 1) (drop (k + 1) (nm_bits m))) else None),
      ps_enumerated = ps_enumerated p + 1\<rparr>"

text \<open>A loop \<open>for (pos = find_first(); pos.is_valid(); pos = find_next(pos))\<close>: the keys it visits.\<close>

function nm_keys_from :: "'v natural_number_map_t \<Rightarrow> position_t \<Rightarrow> nat list" where
  "nm_keys_from m p =
     (case ps_key p of
        None \<Rightarrow> []
      | Some k \<Rightarrow> k # nm_keys_from m (nm_find_next p m))"
  by pat_completeness auto
termination
proof (relation "measure (\<lambda>(m, p). (case ps_key p of None \<Rightarrow> 0 | Some k \<Rightarrow> Suc (nm_size m + 1 - ps_enumerated p)))")
  fix m :: "'v natural_number_map_t" and p :: position_t and k
  assume "ps_key p = Some k"
  then show "((m, nm_find_next p m), m, p) \<in> measure (\<lambda>(m, p). (case ps_key p of None \<Rightarrow> 0 | Some k \<Rightarrow> Suc (nm_size m + 1 - ps_enumerated p)))"
    by (auto simp: nm_find_next_def split: option.splits)
qed simp

declare nm_keys_from.simps [simp del]

subsection \<open>The set\<close>

record natural_number_set_t =
  ns_values :: "u32 list"
  ns_bits :: "bool list"

definition ns_empty :: natural_number_set_t where
  "ns_empty = \<lparr>ns_values = [], ns_bits = []\<rparr>"

definition ns_is_empty :: "natural_number_set_t \<Rightarrow> bool" where
  "ns_is_empty s \<longleftrightarrow> ns_values s = []"

definition ns_insert :: "u32 \<Rightarrow> natural_number_set_t \<Rightarrow> natural_number_set_t" where
  "ns_insert i s =
     (let bits = (if unat i \<ge> length (ns_bits s) then resized (unat i + 1) False (ns_bits s) else ns_bits s)
      in \<lparr>ns_values = ns_values s @ [i], ns_bits = bits[unat i := True]\<rparr>)"

definition ns_pop_any :: "natural_number_set_t \<Rightarrow> exn + (u32 \<times> natural_number_set_t)" where
  "ns_pop_any s =
     (if ns_values s = [] then Inl Diskann_exception
      else let i = last (ns_values s)
           in Inr (i, \<lparr>ns_values = butlast (ns_values s), ns_bits = (ns_bits s)[unat i := False]\<rparr>))"

definition ns_clear :: "natural_number_set_t \<Rightarrow> natural_number_set_t" where
  "ns_clear s = \<lparr>ns_values = [], ns_bits = []\<rparr>"

definition ns_size :: "natural_number_set_t \<Rightarrow> nat" where
  "ns_size s = length (ns_values s)"

definition ns_is_in_set :: "u32 \<Rightarrow> natural_number_set_t \<Rightarrow> exn + bool" where
  "ns_is_in_set i s = (if unat i < length (ns_bits s) then Inr (ns_bits s ! unat i) else Inl Undefined_access)"

subsection \<open>The contracts\<close>

text \<open>A finite map that counts its entries.\<close>

locale dense_map =
  fixes ok :: "'m \<Rightarrow> bool"
    and lookup :: "'m \<Rightarrow> u32 \<Rightarrow> 'v option"
    and put :: "u32 \<Rightarrow> 'v \<Rightarrow> 'm \<Rightarrow> 'm"
    and delete :: "u32 \<Rightarrow> 'm \<Rightarrow> 'm"
    and entries :: "'m \<Rightarrow> nat"
  assumes put_ok: "ok m \<Longrightarrow> ok (put k v m)"
    and delete_ok: "ok m \<Longrightarrow> ok (delete k m)"
    and lookup_put: "ok m \<Longrightarrow> lookup (put k v m) = (lookup m)(k \<mapsto> v)"
    and lookup_delete: "ok m \<Longrightarrow> lookup (delete k m) = (lookup m)(k := None)"
    and entries_card: "ok m \<Longrightarrow> entries m = card (dom (lookup m))"
begin

lemma finite_dom: "finite (dom (lookup m))"
  by (rule finite_subset [OF subset_UNIV]) simp

lemma entries_put: "ok m \<Longrightarrow> entries (put k v m) = (if lookup m k = None then entries m + 1 else entries m)"
  using finite_dom [of m] by (auto simp: entries_card put_ok lookup_put card_insert_if domIff insert_absorb)

lemma entries_delete: "ok m \<Longrightarrow> entries (delete k m) = (if lookup m k = None then entries m else entries m - 1)"
  using finite_dom [of m] by (auto simp: entries_card delete_ok lookup_delete domIff card_Diff_singleton_if)

lemma put_all:
  "ok m \<Longrightarrow> ok (foldl (\<lambda>m (k, v). put k v m) m kvs) \<and> lookup (foldl (\<lambda>m (k, v). put k v m) m kvs) = lookup m ++ map_of (rev kvs)"
proof (induction kvs arbitrary: m)
  case (Cons kv kvs)
  obtain k v where kv: "kv = (k, v)" by fastforce
  show ?case using Cons.IH [OF put_ok [OF Cons.prems]] Cons.prems
    by (simp add: kv lookup_put map_add_assoc [symmetric]) (simp add: map_add_def fun_eq_iff split: option.splits)
qed simp

end

text \<open>A pool of free slots: any member can be taken out, and a slot is put back only when it is not a member.\<close>

locale slot_stack =
  fixes ok :: "'s \<Rightarrow> bool"
    and members :: "'s \<Rightarrow> u32 set"
    and push :: "u32 \<Rightarrow> 's \<Rightarrow> 's"
    and pop :: "'s \<Rightarrow> exn + (u32 \<times> 's)"
    and amount :: "'s \<Rightarrow> nat"
  assumes push_ok: "ok s \<Longrightarrow> i \<notin> members s \<Longrightarrow> ok (push i s) \<and> members (push i s) = insert i (members s)"
    and pop_empty: "ok s \<Longrightarrow> members s = {} \<Longrightarrow> pop s = Inl Diskann_exception"
    and pop_ok: "ok s \<Longrightarrow> members s \<noteq> {} \<Longrightarrow>
        \<exists>i t. pop s = Inr (i, t) \<and> i \<in> members s \<and> ok t \<and> members t = members s - {i}"
    and amount_card: "ok s \<Longrightarrow> amount s = card (members s)"
begin

lemma amount_push: "ok s \<Longrightarrow> i \<notin> members s \<Longrightarrow> amount (push i s) = amount s + 1"
  by (simp add: amount_card push_ok)

lemma pop_Inr: "ok s \<Longrightarrow> pop s = Inr (i, t) \<Longrightarrow> i \<in> members s \<and> ok t \<and> members t = members s - {i}"
  using pop_empty [of s] pop_ok [of s] by (cases "members s = {}") auto

lemma push_all:
  "ok s \<Longrightarrow> distinct is \<Longrightarrow> set is \<inter> members s = {} \<Longrightarrow> ok (fold push is s) \<and> members (fold push is s) = set is \<union> members s"
proof (induction "is" arbitrary: s)
  case (Cons i "is")
  then have "i \<notin> members s" by simp
  with Cons show ?case using push_ok [of s i] by auto
qed simp

end

subsection \<open>The containers meet them\<close>

definition nm_ok :: "'v natural_number_map_t \<Rightarrow> bool" where
  "nm_ok m \<longleftrightarrow> length (nm_values m) = length (nm_bits m) \<and> length (nm_bits m) \<le> 4294967296
     \<and> nm_size m = length (filter (\<lambda>b. b) (nm_bits m))"

lemma length_resized [simp]: "length (resized n fill xs) = n"
  by (simp add: resized_def)

lemma nth_resized: "i < n \<Longrightarrow> resized n fill xs ! i = (if i < length xs then xs ! i else fill)"
  by (simp add: resized_def nth_append)

lemma filter_resized: "length xs \<le> n \<Longrightarrow> filter (\<lambda>b. b) (resized n False xs) = filter (\<lambda>b. b) xs"
  by (simp add: resized_def)

lemma length_filter_set:
  "k < length bs \<Longrightarrow> \<not> bs ! k \<Longrightarrow> length (filter (\<lambda>b. b) (bs[k := True])) = Suc (length (filter (\<lambda>b. b) bs))"
  by (induction bs arbitrary: k) (auto simp: nth_Cons' list_update.simps split: nat.splits)

lemma length_filter_reset:
  "k < length bs \<Longrightarrow> bs ! k \<Longrightarrow> Suc (length (filter (\<lambda>b. b) (bs[k := False]))) = length (filter (\<lambda>b. b) bs)"
  by (induction bs arbitrary: k) (auto simp: nth_Cons' split: nat.splits)

lemma update_same: "k < length bs \<Longrightarrow> bs ! k = b \<Longrightarrow> bs[k := b] = bs"
  by (metis list_update_id)

lemma length_filter_update:
  assumes "k < length bs"
  shows "length (filter (\<lambda>b. b) (bs[k := b])) =
     (if b = bs ! k then length (filter (\<lambda>b. b) bs)
      else if b then Suc (length (filter (\<lambda>b. b) bs)) else length (filter (\<lambda>b. b) bs) - 1)"
  using length_filter_set [OF assms] length_filter_reset [OF assms] update_same [OF assms]
  by (cases b; cases "bs ! k") auto

lemma unat_eq [simp]: "unat (i :: u32) = unat j \<longleftrightarrow> i = j"
  by (simp add: word_unat_eq_iff)

lemma Suc_unat_le: "Suc (unat (k :: u32)) \<le> 4294967296"
proof -
  have "unat k < 4294967296" using unsigned_less [of k] by simp
  then show ?thesis by simp
qed

lemma nm_set_ok: "nm_ok m \<Longrightarrow> nm_ok (nm_set k v m)"
  using Suc_unat_le [of k]
  by (simp add: nm_ok_def nm_set_def Let_def length_filter_update filter_resized nth_resized)

lemma nm_erase_ok: "nm_ok m \<Longrightarrow> nm_ok (nm_erase k m)"
  by (auto simp: nm_ok_def nm_erase_def Let_def length_filter_update)

lemma nm_lookup_set: "nm_ok m \<Longrightarrow> (\<lambda>j. nm_try_get j (nm_set k v m)) = (\<lambda>j. nm_try_get j m)(k \<mapsto> v)"
  by (rule ext)
    (auto simp: nm_ok_def nm_try_get_def nm_contains_def nm_set_def Let_def nth_list_update nth_resized)

lemma nm_lookup_erase: "nm_ok m \<Longrightarrow> (\<lambda>j. nm_try_get j (nm_erase k m)) = (\<lambda>j. nm_try_get j m)(k := None)"
  by (rule ext) (auto simp: nm_ok_def nm_try_get_def nm_contains_def nm_erase_def Let_def nth_list_update)

lemma unat_of_index: "i < 4294967296 \<Longrightarrow> unat (of_nat i :: u32) = i"
  by (simp add: unat_of_nat take_bit_nat_eq_self)

lemma nm_size_card:
  assumes "nm_ok m"
  shows "nm_size m = card (dom (\<lambda>j. nm_try_get j m))"
proof -
  let ?K = "{i. i < length (nm_bits m) \<and> nm_bits m ! i}"
  from assms have len: "length (nm_bits m) \<le> 4294967296" by (simp add: nm_ok_def)
  have D: "dom (\<lambda>j. nm_try_get j m) = {j. unat j \<in> ?K}"
    by (auto simp: nm_try_get_def nm_contains_def split: if_splits)
  have U: "unat (of_nat i :: u32) = i" if "i \<in> ?K" for i
    using that len by (intro unat_of_index) simp
  have "unat ` {j :: u32. unat j \<in> ?K} = ?K"
  proof
    show "?K \<subseteq> unat ` {j :: u32. unat j \<in> ?K}"
    proof
      fix i assume "i \<in> ?K"
      with U [OF this] show "i \<in> unat ` {j :: u32. unat j \<in> ?K}"
        by (intro image_eqI [of _ _ "of_nat i"]) simp_all
    qed
  qed blast
  moreover have "inj_on unat {j :: u32. unat j \<in> ?K}"
    by (rule inj_onI) simp
  ultimately have "card ?K = card {j :: u32. unat j \<in> ?K}"
    using card_image [of unat "{j :: u32. unat j \<in> ?K}"] by simp
  moreover have "nm_size m = card ?K"
    using assms by (simp add: nm_ok_def length_filter_conv_card)
  ultimately show ?thesis by (simp only: D)
qed

interpretation nm: dense_map nm_ok "\<lambda>m j. nm_try_get j m" nm_set nm_erase nm_size
  by unfold_locales (simp_all add: nm_set_ok nm_erase_ok nm_lookup_set nm_lookup_erase nm_size_card)

definition ns_ok :: "natural_number_set_t \<Rightarrow> bool" where
  "ns_ok s \<longleftrightarrow> distinct (ns_values s) \<and> (\<forall>i. i \<in> set (ns_values s) \<longleftrightarrow> unat i < length (ns_bits s) \<and> ns_bits s ! unat i)"

definition ns_members :: "natural_number_set_t \<Rightarrow> u32 set" where
  "ns_members s = set (ns_values s)"

lemma ns_insert_ok:
  assumes "ns_ok s" "i \<notin> ns_members s"
  shows "ns_ok (ns_insert i s) \<and> ns_members (ns_insert i s) = insert i (ns_members s)"
proof -
  let ?b = "if unat i \<ge> length (ns_bits s) then resized (unat i + 1) False (ns_bits s) else ns_bits s"
  from assms have s: "distinct (ns_values s)" "i \<notin> set (ns_values s)"
    and mem: "\<And>j. j \<in> set (ns_values s) \<longleftrightarrow> unat j < length (ns_bits s) \<and> ns_bits s ! unat j"
    by (simp_all add: ns_ok_def ns_members_def)
  have "j \<in> set (ns_values s @ [i]) \<longleftrightarrow> unat j < length (?b[unat i := True]) \<and> ?b[unat i := True] ! unat j" for j
  proof (cases "j = i")
    case False
    then have "unat i \<noteq> unat j" by simp
    with False show ?thesis by (auto simp: mem nth_resized split: if_splits)
  qed simp
  with s show ?thesis by (auto simp: ns_ok_def ns_members_def ns_insert_def Let_def)
qed

lemma ns_pop_ok:
  assumes "ns_ok s" "ns_members s \<noteq> {}"
  shows "\<exists>i t. ns_pop_any s = Inr (i, t) \<and> i \<in> ns_members s \<and> ns_ok t \<and> ns_members t = ns_members s - {i}"
proof -
  from assms(2) obtain xs i where v: "ns_values s = xs @ [i]"
    by (metis append_butlast_last_id ns_members_def set_empty)
  have "ns_ok \<lparr>ns_values = xs, ns_bits = (ns_bits s)[unat i := False]\<rparr>"
    unfolding ns_ok_def
  proof (intro conjI allI)
    show "distinct (ns_values \<lparr>ns_values = xs, ns_bits = (ns_bits s)[unat i := False]\<rparr>)"
      using assms(1) v by (simp add: ns_ok_def)
    fix j
    from assms(1) v have "i \<notin> set xs" "j = i \<or> j \<in> set xs \<longleftrightarrow> unat j < length (ns_bits s) \<and> ns_bits s ! unat j"
      by (auto simp: ns_ok_def)
    then show "(j \<in> set (ns_values \<lparr>ns_values = xs, ns_bits = (ns_bits s)[unat i := False]\<rparr>))
        = (unat j < length (ns_bits \<lparr>ns_values = xs, ns_bits = (ns_bits s)[unat i := False]\<rparr>)
           \<and> ns_bits \<lparr>ns_values = xs, ns_bits = (ns_bits s)[unat i := False]\<rparr> ! unat j)"
      by (cases "j = i") (auto simp: nth_list_update)
  qed
  with v assms(1) show ?thesis by (auto simp: ns_pop_any_def ns_members_def ns_ok_def)
qed

interpretation ns: slot_stack ns_ok ns_members ns_insert ns_pop_any ns_size
proof
  fix s :: natural_number_set_t and i
  show "ns_ok s \<Longrightarrow> i \<notin> ns_members s \<Longrightarrow> ns_ok (ns_insert i s) \<and> ns_members (ns_insert i s) = insert i (ns_members s)"
    by (rule ns_insert_ok)
  show "ns_ok s \<Longrightarrow> ns_members s = {} \<Longrightarrow> ns_pop_any s = Inl Diskann_exception"
    by (simp add: ns_members_def ns_pop_any_def)
  show "ns_ok s \<Longrightarrow> ns_members s \<noteq> {} \<Longrightarrow>
      \<exists>i t. ns_pop_any s = Inr (i, t) \<and> i \<in> ns_members s \<and> ns_ok t \<and> ns_members t = ns_members s - {i}"
    by (rule ns_pop_ok)
  show "ns_ok s \<Longrightarrow> ns_size s = card (ns_members s)"
    by (simp add: ns_size_def ns_members_def ns_ok_def distinct_card)
qed

lemma empty_containers [simp]: "nm_ok nm_empty" "nm_try_get k nm_empty = None" "ns_ok ns_empty" "ns_members ns_empty = {}"
  "nm_ok (nm_clear m)" "nm_try_get k (nm_clear m) = None" "ns_ok (ns_clear s)" "ns_members (ns_clear s) = {}"
  by (simp_all add: nm_ok_def nm_empty_def nm_try_get_def nm_contains_def ns_ok_def ns_empty_def ns_members_def
    nm_clear_def ns_clear_def)

lemma ns_is_in_set_iff: "ns_ok s \<Longrightarrow> ns_is_in_set i s = (if unat i < length (ns_bits s) then Inr (i \<in> ns_members s) else Inl Undefined_access)"
  by (auto simp: ns_is_in_set_def ns_ok_def ns_members_def)

text \<open>The iteration visits exactly the keys, in ascending order.\<close>

lemma next_bit_keys:
  "next_bit k (drop k bs) = (case filter (\<lambda>i. bs ! i) [k..<length bs] of [] \<Rightarrow> None | i # _ \<Rightarrow> Some i)"
proof (induction "length bs - k" arbitrary: k)
  case (Suc n)
  then have k: "k < length bs" by simp
  with Suc.hyps(1) [of "Suc k"] Suc.hyps(2) show ?case
    by (simp add: Cons_nth_drop_Suc [symmetric] upt_rec [of k])
qed simp

lemma keys_tail:
  "filter (\<lambda>i. bs ! i) [k..<n] = i # is \<Longrightarrow> filter (\<lambda>i. bs ! i) [Suc i..<n] = is"
proof (induction "n - k" arbitrary: k)
  case (Suc m)
  then have "k < n" by simp
  with Suc.prems Suc.hyps(1) [of "Suc k"] Suc.hyps(2) show ?case
    by (cases "bs ! k") (auto simp: upt_rec [of k])
qed simp

lemma nm_keys_rest:
  assumes "ps_key p = (case filter (\<lambda>i. nm_bits m ! i) [k..<length (nm_bits m)] of [] \<Rightarrow> None | i # _ \<Rightarrow> Some i)"
    and "length (filter (\<lambda>i. nm_bits m ! i) [k..<length (nm_bits m)]) + ps_enumerated p \<le> nm_size m"
  shows "nm_keys_from m p = filter (\<lambda>i. nm_bits m ! i) [k..<length (nm_bits m)]"
  using assms
proof (induction "filter (\<lambda>i. nm_bits m ! i) [k..<length (nm_bits m)]" arbitrary: k p)
  case Nil
  then show ?case by (simp add: nm_keys_from.simps)
next
  case (Cons i "is")
  from Cons.hyps(2) have tl: "filter (\<lambda>i. nm_bits m ! i) [Suc i..<length (nm_bits m)] = is"
    by (intro keys_tail) simp
  from Cons.prems(1) Cons.hyps(2) have p: "ps_key p = Some i" by (metis list.simps(5))
  have "length is + Suc (ps_enumerated p) \<le> nm_size m"
    using Cons.prems(2) unfolding Cons.hyps(2) [symmetric] by simp
  then have "nm_keys_from m (nm_find_next p m) = is"
    using Cons.hyps(1) [of "Suc i" "nm_find_next p m"] tl p
    by (simp add: nm_find_next_def next_bit_keys)
  then show ?case using p Cons.hyps(2) by (simp add: nm_keys_from.simps [of m p])
qed

lemma nm_keys_all:
  assumes "nm_ok m"
  shows "nm_keys_from m (nm_find_first m) = filter (\<lambda>i. nm_bits m ! i) [0..<length (nm_bits m)]"
proof (rule nm_keys_rest)
  have len: "length (filter (\<lambda>i. nm_bits m ! i) [0..<length (nm_bits m)]) = nm_size m"
    using assms by (simp add: nm_ok_def length_filter_conv_card cong: conj_cong)
  then show "length (filter (\<lambda>i. nm_bits m ! i) [0..<length (nm_bits m)]) + ps_enumerated (nm_find_first m) \<le> nm_size m"
    by (simp add: nm_find_first_def)
  show "ps_key (nm_find_first m)
      = (case filter (\<lambda>i. nm_bits m ! i) [0..<length (nm_bits m)] of [] \<Rightarrow> None | i # _ \<Rightarrow> Some i)"
    using len next_bit_keys [of 0 "nm_bits m"] by (auto simp: nm_find_first_def split: list.splits)
qed

end
