(* ===== verification/Neighbor_Queue.thy ===== *)
theory Neighbor_Queue
  imports Complex_Main Prelude "HOL-Library.Product_Lexorder" "HOL-Library.Multiset"
begin

text \<open>
  The search frontier \<open>neighbor_priority_queue_t\<close> of include/index/neighbor.h: a sorted array of at most \<open>capacity\<close>
  candidates with one more slot, and a cursor to the first candidate that was not expanded.  It is shown to hold the
  \<open>capacity\<close> smallest of everything inserted.  Distances are reals: no operation here does arithmetic on
  them, and a NaN never reaches the queue.
\<close>

subsection \<open>The model\<close>

record neighbor_t =
  nb_id :: u32
  nb_distance :: real
  nb_expanded :: bool

definition new_neighbor :: "u32 \<Rightarrow> real \<Rightarrow> neighbor_t" where
  "new_neighbor i d = \<lparr>nb_id = i, nb_distance = d, nb_expanded = False\<rparr>"

definition nb_less :: "neighbor_t \<Rightarrow> neighbor_t \<Rightarrow> bool" where
  "nb_less a b \<longleftrightarrow> nb_distance a < nb_distance b \<or> (nb_distance a = nb_distance b \<and> nb_id a < nb_id b)"

text \<open>\<open>data_.size()\<close> is the length of \<open>q_data\<close>; it is at least \<open>capacity + 1\<close>.\<close>

record neighbor_priority_queue_t =
  q_size :: nat
  q_capacity :: nat
  q_cur :: nat
  q_data :: "neighbor_t list"

definition unused_neighbor :: neighbor_t where
  "unused_neighbor = new_neighbor 0 0"

definition new_queue :: "nat \<Rightarrow> neighbor_priority_queue_t" where
  "new_queue capacity = \<lparr>q_size = 0, q_capacity = capacity, q_cur = 0, q_data = replicate (capacity + 1) unused_neighbor\<rparr>"

definition memmove :: "nat \<Rightarrow> nat \<Rightarrow> nat \<Rightarrow> 'a list \<Rightarrow> 'a list" where
  "memmove dst src n xs = take dst xs @ take n (drop src xs) @ drop (dst + n) xs"

text \<open>The binary search of \<open>insert\<close>; \<open>None\<close> when it meets the identifier.\<close>

function insert_position :: "neighbor_t \<Rightarrow> neighbor_t list \<Rightarrow> nat \<Rightarrow> nat \<Rightarrow> nat option" where
  "insert_position nbr data lo hi =
     (if lo < hi then
        let mid = (lo + hi) div 2 in
        if nb_less nbr (data ! mid) then insert_position nbr data lo mid
        else if nb_id (data ! mid) = nb_id nbr then None
        else insert_position nbr data (mid + 1) hi
      else Some lo)"
  by pat_completeness auto
termination by (relation "measure (\<lambda>(nbr, data, lo, hi). hi - lo)") auto

declare insert_position.simps [simp del]

definition queue_insert :: "neighbor_t \<Rightarrow> neighbor_priority_queue_t \<Rightarrow> neighbor_priority_queue_t" where
  "queue_insert nbr q =
     (if q_size q = q_capacity q \<and> nb_less (q_data q ! (q_size q - 1)) nbr then q
      else
        (case insert_position nbr (q_data q) 0 (q_size q) of
           None \<Rightarrow> q
         | Some lo \<Rightarrow>
             let moved = (if lo < q_capacity q then memmove (lo + 1) lo (q_size q - lo) (q_data q) else q_data q) in
             q\<lparr>q_data := moved[lo := new_neighbor (nb_id nbr) (nb_distance nbr)],
               q_size := (if q_size q < q_capacity q then q_size q + 1 else q_size q),
               q_cur := (if lo < q_cur q then lo else q_cur q)\<rparr>))"

text \<open>The loop of \<open>insert_or_update\<close> that removes the first candidate of that identifier.\<close>

fun remove_from :: "u32 \<Rightarrow> nat \<Rightarrow> nat \<Rightarrow> neighbor_priority_queue_t \<Rightarrow> neighbor_priority_queue_t" where
  "remove_from i position 0 q = q"
| "remove_from i position (Suc n) q =
     (if nb_id (q_data q ! position) \<noteq> i then remove_from i (position + 1) n q
      else q\<lparr>q_data := (if position + 1 < q_size q
                         then memmove position (position + 1) (q_size q - position - 1) (q_data q) else q_data q),
             q_size := q_size q - 1,
             q_cur := (if position < q_cur q then q_cur q - 1 else q_cur q)\<rparr>)"

definition queue_insert_or_update :: "neighbor_t \<Rightarrow> neighbor_priority_queue_t \<Rightarrow> neighbor_priority_queue_t" where
  "queue_insert_or_update nbr q = queue_insert nbr (remove_from (nb_id nbr) 0 (q_size q) q)"

function advance_cursor :: "neighbor_t list \<Rightarrow> nat \<Rightarrow> nat \<Rightarrow> nat" where
  "advance_cursor data sz cur = (if cur < sz \<and> nb_expanded (data ! cur) then advance_cursor data sz (cur + 1) else cur)"
  by pat_completeness auto
termination by (relation "measure (\<lambda>(data, sz, cur). sz - cur)") auto

declare advance_cursor.simps [simp del]

definition closest_unexpanded :: "neighbor_priority_queue_t \<Rightarrow> neighbor_t \<times> neighbor_priority_queue_t" where
  "closest_unexpanded q =
     (let data = (q_data q)[q_cur q := (q_data q ! q_cur q)\<lparr>nb_expanded := True\<rparr>]
      in (data ! q_cur q, q\<lparr>q_data := data, q_cur := advance_cursor data (q_size q) (q_cur q)\<rparr>))"

definition has_unexpanded_node :: "neighbor_priority_queue_t \<Rightarrow> bool" where
  "has_unexpanded_node q \<longleftrightarrow> q_cur q < q_size q"

definition queue_reserve :: "nat \<Rightarrow> neighbor_priority_queue_t \<Rightarrow> neighbor_priority_queue_t" where
  "queue_reserve capacity q =
     q\<lparr>q_data := (if capacity + 1 > length (q_data q)
                   then q_data q @ replicate (capacity + 1 - length (q_data q)) unused_neighbor else q_data q),
       q_capacity := capacity\<rparr>"

definition queue_clear :: "neighbor_priority_queue_t \<Rightarrow> neighbor_priority_queue_t" where
  "queue_clear q = q\<lparr>q_size := 0, q_cur := 0\<rparr>"

subsection \<open>The order and the array\<close>

definition nb_key :: "neighbor_t \<Rightarrow> real \<times> u32" where
  "nb_key n = (nb_distance n, nb_id n)"

lemma nb_less_key: "nb_less a b \<longleftrightarrow> nb_key a < nb_key b"
  by (auto simp: nb_less_def nb_key_def)

lemma nb_key_new [simp]: "nb_key (new_neighbor (nb_id n) (nb_distance n)) = nb_key n"
  "nb_id (new_neighbor i d) = i" "nb_distance (new_neighbor i d) = d" "\<not> nb_expanded (new_neighbor i d)"
  by (simp_all add: nb_key_def new_neighbor_def)

lemma nb_key_expanded [simp]: "nb_key (n\<lparr>nb_expanded := b\<rparr>) = nb_key n"
  by (simp add: nb_key_def)

lemma length_memmove [simp]: "dst + n \<le> length xs \<Longrightarrow> src + n \<le> length xs \<Longrightarrow> length (memmove dst src n xs) = length xs"
  by (simp add: memmove_def)

lemma insort_between:
  assumes "\<forall>y \<in> set xs. f y < f x" "\<forall>y \<in> set ys. f x < f y"
  shows "insort_key f x (xs @ ys) = xs @ x # ys"
proof (use assms in \<open>induction xs\<close>)
  case Nil
  then show ?case by (cases ys) auto
qed auto

subsection \<open>The invariant\<close>

definition frontier :: "neighbor_priority_queue_t \<Rightarrow> neighbor_t list" where
  "frontier q = take (q_size q) (q_data q)"

definition queue_ok :: "neighbor_priority_queue_t \<Rightarrow> bool" where
  "queue_ok q \<longleftrightarrow> 0 < q_capacity q \<and> q_size q \<le> q_capacity q \<and> q_capacity q < length (q_data q)
     \<and> sorted_wrt (<) (map nb_key (frontier q)) \<and> q_cur q \<le> q_size q
     \<and> (\<forall>i < q_cur q. nb_expanded (q_data q ! i)) \<and> (q_cur q < q_size q \<longrightarrow> \<not> nb_expanded (q_data q ! q_cur q))"

lemma length_frontier: "queue_ok q \<Longrightarrow> length (frontier q) = q_size q"
  by (simp add: queue_ok_def frontier_def)

lemma frontier_nth: "i < q_size q \<Longrightarrow> frontier q ! i = q_data q ! i"
  by (simp add: frontier_def)

lemma queue_ok_less:
  "queue_ok q \<Longrightarrow> i < j \<Longrightarrow> j < q_size q \<Longrightarrow> nb_key (q_data q ! i) < nb_key (q_data q ! j)"
  by (auto simp: queue_ok_def frontier_def sorted_wrt_iff_nth_less)

lemma new_queue_ok: "0 < capacity \<Longrightarrow> queue_ok (new_queue capacity) \<and> frontier (new_queue capacity) = []"
  by (simp add: queue_ok_def new_queue_def frontier_def)

lemma insert_position_Some:
  assumes "insert_position nbr data lo hi = Some p" "lo \<le> hi" "hi \<le> n"
    "\<forall>i j. i < j \<longrightarrow> j < n \<longrightarrow> nb_key (data ! i) < nb_key (data ! j)"
    "\<forall>i < lo. nb_key (data ! i) < nb_key nbr" "\<forall>i. hi \<le> i \<longrightarrow> i < n \<longrightarrow> nb_key nbr < nb_key (data ! i)"
  shows "p \<le> n \<and> (\<forall>i < p. nb_key (data ! i) < nb_key nbr) \<and> (\<forall>i. p \<le> i \<longrightarrow> i < n \<longrightarrow> nb_key nbr < nb_key (data ! i))"
  using assms
proof (induction nbr data lo hi rule: insert_position.induct)
  case (1 nbr data lo hi)
  let ?mid = "(lo + hi) div 2"
  show ?case
  proof (cases "lo < hi")
    case False
    then have "p = lo" using 1(3) by (simp add: insert_position.simps [of nbr data lo hi])
    with False 1(4-8) show ?thesis by auto
  next
    case True
    then have m: "lo \<le> ?mid" "?mid < hi" "?mid < n" using 1(5) by auto
    show ?thesis
    proof (cases "nb_less nbr (data ! ?mid)")
      case less: True
      have "nb_key nbr < nb_key (data ! i)" if "?mid \<le> i" "i < n" for i
        using less that 1(6) m by (cases "i = ?mid") (auto simp: nb_less_key intro: less_trans)
      with True less 1(1) [OF True refl less] 1(3-8) m show ?thesis
        by (simp add: insert_position.simps [of nbr data lo hi] Let_def)
    next
      case ge: False
      have ne: "nb_id (data ! ?mid) \<noteq> nb_id nbr"
        using True ge 1(3) by (auto simp: insert_position.simps [of nbr data lo hi] Let_def)
      then have at: "nb_key (data ! ?mid) < nb_key nbr"
        using ge by (auto simp: nb_less_key nb_key_def not_less less_le)
      have "nb_key (data ! i) < nb_key nbr" if "i < ?mid + 1" for i
        using at that 1(6) m less_trans [of "nb_key (data ! i)" "nb_key (data ! ?mid)" "nb_key nbr"]
        by (cases "i = ?mid") auto
      with True ge ne 1(2) [OF True refl ge ne] 1(3-8) m show ?thesis
        by (simp add: insert_position.simps [of nbr data lo hi] Let_def)
    qed
  qed
qed

lemma insert_position_None:
  "insert_position nbr data lo hi = None \<Longrightarrow> hi \<le> n \<Longrightarrow> \<exists>i < n. nb_id (data ! i) = nb_id nbr"
proof (induction nbr data lo hi rule: insert_position.induct)
  case (1 nbr data lo hi)
  let ?mid = "(lo + hi) div 2"
  show ?case
  proof (cases "lo < hi \<and> \<not> nb_less nbr (data ! ?mid) \<and> nb_id (data ! ?mid) = nb_id nbr")
    case True
    then have "?mid < n" using 1(4) by auto
    with True show ?thesis by blast
  next
    case False
    with 1 show ?thesis
      by (subst (asm) (3) insert_position.simps) (auto simp: Let_def split: if_splits)
  qed
qed

subsection \<open>Insertion\<close>

lemma memmove_update:
  assumes "lo \<le> n" "n < length xs"
  shows "(memmove (lo + 1) lo (n - lo) xs)[lo := x] = take lo xs @ x # take (n - lo) (drop lo xs) @ drop (n + 1) xs"
  using assms by (simp add: memmove_def take_Suc_conv_app_nth list_update_append)

lemma take_memmove_update:
  assumes "lo \<le> n" "n < length xs"
  shows "take (n + 1) ((memmove (lo + 1) lo (n - lo) xs)[lo := x]) = take lo xs @ x # drop lo (take n xs)"
  unfolding memmove_update [OF assms] using assms by (simp add: drop_take Suc_diff_le)

lemma memmove_update_nth:
  "lo \<le> n \<Longrightarrow> n < length xs \<Longrightarrow> i \<le> lo \<Longrightarrow> (memmove (lo + 1) lo (n - lo) xs)[lo := x] ! i = (if i = lo then x else xs ! i)"
  unfolding memmove_update by (simp add: nth_append)

definition inserted :: "nat \<Rightarrow> neighbor_t \<Rightarrow> neighbor_t list \<Rightarrow> neighbor_t list" where
  "inserted capacity nbr xs = take capacity (insort_key nb_key (new_neighbor (nb_id nbr) (nb_distance nbr)) xs)"

lemma sorted_insort_strict:
  "sorted_wrt (<) (map f xs) \<Longrightarrow> f x \<notin> f ` set xs \<Longrightarrow> sorted_wrt (<) (map f (insort_key f x xs))"
proof (induction xs)
  case (Cons y ys)
  then show ?case by (auto simp: set_insort_key not_le)
qed simp

lemma queue_insert_correct:
  assumes ok: "queue_ok q" and fresh: "nb_id nbr \<notin> nb_id ` set (frontier q)"
  shows "queue_ok (queue_insert nbr q) \<and> frontier (queue_insert nbr q) = inserted (q_capacity q) nbr (frontier q)
    \<and> q_capacity (queue_insert nbr q) = q_capacity q"
proof -
  let ?F = "frontier q" and ?n = "q_size q" and ?new = "new_neighbor (nb_id nbr) (nb_distance nbr)"
  note o = ok [unfolded queue_ok_def]
  have len: "length ?F = ?n" by (rule length_frontier [OF ok])
  have notkey: "nb_key nbr \<notin> nb_key ` set ?F" using fresh by (auto simp: nb_key_def)
  have sorted: "sorted_wrt (<) (map nb_key (inserted (q_capacity q) nbr ?F))"
    unfolding inserted_def take_map [symmetric] using sorted_insort_strict [of nb_key ?F ?new] o notkey
    by (simp add: sorted_wrt_take)
  show ?thesis
  proof (cases "?n = q_capacity q \<and> nb_less (q_data q ! (?n - 1)) nbr")
    case True
    have "nb_key y < nb_key nbr" if "y \<in> set ?F" for y
    proof -
      from that obtain i where i: "i < ?n" "y = q_data q ! i" by (auto simp: in_set_conv_nth len frontier_nth)
      then show ?thesis using True queue_ok_less [OF ok, of i "?n - 1"]
          less_trans [of "nb_key (q_data q ! i)" "nb_key (q_data q ! (?n - 1))" "nb_key nbr"]
        by (cases "i = ?n - 1") (auto simp: nb_less_key)
    qed
    then have "insort_key nb_key ?new ?F = ?F @ [?new]" using insort_between [of ?F nb_key ?new "[]"] by simp
    moreover have "queue_insert nbr q = q" unfolding queue_insert_def using True by (rule if_P)
    ultimately show ?thesis using True ok len by (simp add: inserted_def)
  next
    case False
    have "insert_position nbr (q_data q) 0 ?n \<noteq> None"
    proof
      assume "insert_position nbr (q_data q) 0 ?n = None"
      from insert_position_None [OF this order_refl] obtain i where "i < ?n" "nb_id (frontier q ! i) = nb_id nbr"
        by (auto simp: frontier_nth)
      with fresh len show False by (metis imageI nth_mem)
    qed
    then obtain lo where lo: "insert_position nbr (q_data q) 0 ?n = Some lo" by auto
    from insert_position_Some [OF lo, of ?n] queue_ok_less [OF ok] have p: "lo \<le> ?n"
      "\<forall>i < lo. nb_key (q_data q ! i) < nb_key nbr" "\<forall>i. lo \<le> i \<longrightarrow> i < ?n \<longrightarrow> nb_key nbr < nb_key (q_data q ! i)" by auto
    have room: "lo < q_capacity q"
    proof (rule ccontr)
      assume "\<not> lo < q_capacity q"
      with p(1) o have "lo = ?n" "?n = q_capacity q" "?n - 1 < lo" by auto
      with p(2) False show False by (auto simp: nb_less_key)
    qed
    define data where "data = (memmove (lo + 1) lo (?n - lo) (q_data q))[lo := ?new]"
    have q': "queue_insert nbr q = q\<lparr>q_data := data, q_size := (if ?n < q_capacity q then ?n + 1 else ?n),
        q_cur := (if lo < q_cur q then lo else q_cur q)\<rparr>"
      using False lo room by (auto simp: queue_insert_def Let_def data_def)
    have big: "?n < length (q_data q)" using o by simp
    have all: "take (?n + 1) data = insort_key nb_key ?new ?F"
    proof -
      have "take (?n + 1) data = take lo ?F @ ?new # drop lo ?F"
        using take_memmove_update [OF p(1) big] p(1) by (simp add: frontier_def min_def data_def)
      also have "\<dots> = insort_key nb_key ?new (take lo ?F @ drop lo ?F)"
        by (rule insort_between [symmetric])
          (use p len in \<open>auto simp: in_set_conv_nth frontier_nth\<close>)
      finally show ?thesis by simp
    qed
    have F': "frontier (queue_insert nbr q) = inserted (q_capacity q) nbr ?F"
    proof (cases "?n < q_capacity q")
      case True
      then show ?thesis using all len by (simp add: q' frontier_def inserted_def)
    next
      case full: False
      then have "q_capacity q = ?n" using o by simp
      then have "frontier (queue_insert nbr q) = take (q_capacity q) (take (?n + 1) data)"
        by (simp add: q' frontier_def min_def)
      then show ?thesis unfolding all inserted_def .
    qed
    have nth: "data ! i = (if i = lo then ?new else q_data q ! i)" if "i \<le> lo" for i
      unfolding data_def by (rule memmove_update_nth [OF p(1) big that])
    have "length data = length (q_data q)" using p(1) big by (simp add: data_def)
    note nth = nth this
    have cur: "\<forall>i < q_cur (queue_insert nbr q). nb_expanded (q_data (queue_insert nbr q) ! i)"
      using o nth p(1) by (auto simp: q')
    have at: "q_cur (queue_insert nbr q) < q_size (queue_insert nbr q) \<longrightarrow>
        \<not> nb_expanded (q_data (queue_insert nbr q) ! q_cur (queue_insert nbr q))"
      using o nth p(1) by (auto simp: q')
    show ?thesis using F' sorted cur at o p(1) room big
      by (auto simp: queue_ok_def q' nth(2))
  qed
qed

lemma queue_insert_known:
  assumes ok: "queue_ok q" and key: "nb_key nbr \<in> nb_key ` set (frontier q)"
  shows "queue_insert nbr q = q"
proof -
  from key obtain i where i: "i < q_size q" "nb_key (q_data q ! i) = nb_key nbr"
    by (auto simp: in_set_conv_nth length_frontier [OF ok] frontier_nth)
  have "insert_position nbr (q_data q) 0 (q_size q) = None"
  proof (cases "insert_position nbr (q_data q) 0 (q_size q)")
    case (Some lo)
    from insert_position_Some [OF Some, of "q_size q"] queue_ok_less [OF ok] i show ?thesis
      by (metis le0 less_irrefl not_less_zero order_refl not_le)
  qed simp
  then show ?thesis by (simp add: queue_insert_def)
qed

subsection \<open>Everything inserted\<close>

lemma take_insort_take:
  "take k (insort_key f x (take k xs)) = take k (insort_key f x xs)"
proof (induction xs arbitrary: k)
  case (Cons y ys)
  then show ?case by (cases k) (auto simp: take_Cons' min_def)
qed simp

text \<open>The smallest \<open>capacity\<close> of a list of candidates.\<close>

definition smallest :: "nat \<Rightarrow> neighbor_t list \<Rightarrow> neighbor_t list" where
  "smallest capacity ns = take capacity (sort_key nb_key (map (\<lambda>n. new_neighbor (nb_id n) (nb_distance n)) ns))"

lemma insert_all:
  assumes "0 < capacity" "distinct (map nb_id ns)"
  shows "queue_ok (fold queue_insert ns (new_queue capacity)) \<and> q_capacity (fold queue_insert ns (new_queue capacity)) = capacity
    \<and> frontier (fold queue_insert ns (new_queue capacity)) = smallest capacity (rev ns)"
  using assms(2)
proof (induction ns rule: rev_induct)
  case Nil
  show ?case using new_queue_ok [OF assms(1)] by (simp add: smallest_def) (simp add: new_queue_def)
next
  case (snoc n ns)
  let ?q = "fold queue_insert ns (new_queue capacity)"
  from snoc have q: "queue_ok ?q" "q_capacity ?q = capacity" "frontier ?q = smallest capacity (rev ns)" by simp_all
  have "set (frontier ?q) \<subseteq> (\<lambda>n. new_neighbor (nb_id n) (nb_distance n)) ` set ns"
    unfolding q(3) smallest_def using set_take_subset by fastforce
  then have "nb_id n \<notin> nb_id ` set (frontier ?q)" using snoc(2) by auto
  note c = queue_insert_correct [OF q(1) this]
  have "inserted capacity n (smallest capacity (rev ns)) = smallest capacity (n # rev ns)"
    by (simp add: inserted_def smallest_def take_insort_take)
  with c q show ?case by simp
qed

subsection \<open>Expansion\<close>

lemma advance_cursor:
  "cur \<le> sz \<Longrightarrow> cur \<le> advance_cursor data sz cur \<and> advance_cursor data sz cur \<le> sz
     \<and> (\<forall>i. cur \<le> i \<longrightarrow> i < advance_cursor data sz cur \<longrightarrow> nb_expanded (data ! i))
     \<and> (advance_cursor data sz cur < sz \<longrightarrow> \<not> nb_expanded (data ! advance_cursor data sz cur))"
proof (induction data sz cur rule: advance_cursor.induct)
  case (1 data sz cur)
  show ?case
  proof (cases "cur < sz \<and> nb_expanded (data ! cur)")
    case True
    then have e: "advance_cursor data sz cur = advance_cursor data sz (cur + 1)"
      by (simp add: advance_cursor.simps [of data sz cur])
    have "nb_expanded (data ! i)" if "cur \<le> i" "i < advance_cursor data sz (cur + 1)" for i
      using 1 True that by (cases "i = cur") auto
    with 1 True show ?thesis by (auto simp: e)
  next
    case False
    then have "advance_cursor data sz cur = cur" by (subst advance_cursor.simps) (rule if_not_P)
    with False 1(2) show ?thesis by auto
  qed
qed

lemma closest_unexpanded_correct:
  assumes ok: "queue_ok q" and has: "has_unexpanded_node q" and step: "closest_unexpanded q = (n, q')"
  shows "queue_ok q' \<and> q_capacity q' = q_capacity q
    \<and> (\<exists>i < q_size q. n = (frontier q ! i)\<lparr>nb_expanded := True\<rparr> \<and> \<not> nb_expanded (frontier q ! i)
         \<and> (\<forall>j < i. nb_expanded (frontier q ! j)) \<and> frontier q' = (frontier q)[i := n])"
proof -
  let ?data = "(q_data q)[q_cur q := (q_data q ! q_cur q)\<lparr>nb_expanded := True\<rparr>]"
  note o = ok [unfolded queue_ok_def]
  have cur: "q_cur q < q_size q" "q_cur q < length (q_data q)" using has o by (auto simp: has_unexpanded_node_def)
  have n: "n = (frontier q ! q_cur q)\<lparr>nb_expanded := True\<rparr>"
    and q': "q' = q\<lparr>q_data := ?data, q_cur := advance_cursor ?data (q_size q) (q_cur q)\<rparr>"
    using step cur by (auto simp: closest_unexpanded_def Let_def frontier_nth)
  note a = advance_cursor [OF less_imp_le [OF cur(1)], of ?data]
  have F': "frontier q' = (frontier q)[q_cur q := n]"
    by (simp add: q' frontier_def n take_update_swap cur)
  have keys: "map nb_key (frontier q') = map nb_key (frontier q)"
    unfolding F' by (rule nth_equalityI) (auto simp: n nth_list_update length_frontier [OF ok] cur)
  have before: "nb_expanded (?data ! i)" if "i < q_cur q" for i using o that by simp
  have "\<forall>i < q_cur q'. nb_expanded (q_data q' ! i)"
  proof (intro allI impI)
    fix i assume "i < q_cur q'"
    then show "nb_expanded (q_data q' ! i)" using a before by (cases "i < q_cur q") (auto simp: q')
  qed
  then have "queue_ok q'"
    using o a keys unfolding queue_ok_def by (simp add: q')
  then show ?thesis using F' n o cur by (auto simp: q' frontier_nth intro!: exI [of _ "q_cur q"])
qed

lemma no_unexpanded:
  assumes "queue_ok q" "\<not> has_unexpanded_node q"
  shows "\<forall>n \<in> set (frontier q). nb_expanded n"
  using assms by (auto simp: queue_ok_def has_unexpanded_node_def in_set_conv_nth frontier_def)


end
