(* ===== verification/Vamana_Graph.thy ===== *)
theory Vamana_Graph
  imports Bytes Neighbor_Queue Natural_Numbers
begin

text \<open>
  The data of the in-memory Vamana index: the graph store (src/index/in_mem_graph_store.cc), the object
  \<open>vamana_index_t\<close> (include/index/vamana_index.h), the scratch space of one thread (src/common/scratch.cc)
  and the small operations every algorithm of src/index/vamana_index.cc uses.  Vectors are of an abstract
  type: only the data store computes with them.  Tags and labels are 32-bit words.
\<close>

subsection \<open>The graph store\<close>

record graph_store_t =
  gs_capacity :: nat
  gs_reserve :: nat
  gs_max_range :: nat
  gs_max_observed :: u32
  gs_graph :: "u32 list list"

definition resize_graph :: "nat \<Rightarrow> graph_store_t \<Rightarrow> graph_store_t" where
  "resize_graph new_size g = g\<lparr>gs_graph := resized new_size [] (gs_graph g), gs_capacity := new_size\<rparr>"

definition new_graph_store :: "nat \<Rightarrow> nat \<Rightarrow> graph_store_t" where
  "new_graph_store total_pts reserve_graph_degree =
     resize_graph total_pts \<lparr>gs_capacity = total_pts, gs_reserve = reserve_graph_degree, gs_max_range = 0,
       gs_max_observed = 0, gs_graph = []\<rparr>"

text \<open>\<open>get_neighbours\<close> uses \<open>at\<close>, which throws; the others index without a check.\<close>

definition get_neighbours :: "graph_store_t \<Rightarrow> u32 \<Rightarrow> exn + u32 list" where
  "get_neighbours g i = (if unat i < length (gs_graph g) then Inr (gs_graph g ! unat i) else Inl Out_of_range)"

definition observe_degree :: "nat \<Rightarrow> graph_store_t \<Rightarrow> graph_store_t" where
  "observe_degree degree g =
     (if unat (gs_max_observed g) < degree then g\<lparr>gs_max_observed := of_nat degree\<rparr> else g)"

definition put_neighbours :: "u32 \<Rightarrow> u32 list \<Rightarrow> graph_store_t \<Rightarrow> graph_store_t" where
  "put_neighbours i ns g = g\<lparr>gs_graph := (gs_graph g)[unat i := ns]\<rparr>"

definition add_neighbour :: "u32 \<Rightarrow> u32 \<Rightarrow> graph_store_t \<Rightarrow> exn + graph_store_t" where
  "add_neighbour i neighbour_id g =
     (if unat i < length (gs_graph g)
      then let ns = gs_graph g ! unat i @ [neighbour_id]
           in Inr (observe_degree (length ns) (put_neighbours i ns g))
      else Inl Undefined_access)"

definition clear_neighbours :: "u32 \<Rightarrow> graph_store_t \<Rightarrow> exn + graph_store_t" where
  "clear_neighbours i g = (if unat i < length (gs_graph g) then Inr (put_neighbours i [] g) else Inl Undefined_access)"

definition swap_neighbours :: "u32 \<Rightarrow> u32 \<Rightarrow> graph_store_t \<Rightarrow> exn + graph_store_t" where
  "swap_neighbours a b g =
     (if unat a < length (gs_graph g) \<and> unat b < length (gs_graph g)
      then Inr (put_neighbours b (gs_graph g ! unat a) (put_neighbours a (gs_graph g ! unat b) g))
      else Inl Undefined_access)"

definition set_neighbours :: "u32 \<Rightarrow> u32 list \<Rightarrow> graph_store_t \<Rightarrow> exn + graph_store_t" where
  "set_neighbours i neighbours g =
     (if unat i < length (gs_graph g)
      then Inr (observe_degree (length neighbours) (put_neighbours i neighbours g))
      else Inl Undefined_access)"

definition clear_graph :: "graph_store_t \<Rightarrow> graph_store_t" where
  "clear_graph g = g\<lparr>gs_graph := []\<rparr>"

subsection \<open>The index\<close>

datatype metric_t = L2 | INNER_PRODUCT | COSINE | FAST_L2

record 'v vamana_index_t =
  vi_metric :: metric_t
  vi_graph :: graph_store_t
  vi_data :: "'v list"
  vi_nd :: nat
  vi_max_points :: nat
  vi_num_frozen :: nat
  vi_frozen_used :: nat
  vi_start :: u32
  vi_has_built :: bool
  vi_saturate :: bool
  vi_dynamic :: bool
  vi_enable_tags :: bool
  vi_deletes_enabled :: bool
  vi_filtered :: bool
  vi_location_to_labels :: "u32 list list"
  vi_labels :: "u32 set"
  vi_label_to_start :: "(u32 \<times> u32) list"
  vi_use_universal :: bool
  vi_universal_label :: u32
  vi_filter_queue_size :: nat
  vi_queue_size :: nat
  vi_range :: nat
  vi_max_c :: nat
  vi_alpha :: real
  vi_pq_dist :: bool
  vi_tag_to_location :: "(u32 \<times> u32) list"
  vi_location_to_tag :: "u32 natural_number_map_t"
  vi_empty_slots :: natural_number_set_t
  vi_delete_set :: "u32 set"
  vi_data_compacted :: bool
  vi_is_saved :: bool
  vi_conc_consolidate :: bool

abbreviation internal_points :: "'v vamana_index_t \<Rightarrow> nat" where
  "internal_points vi \<equiv> vi_max_points vi + vi_num_frozen vi"

text \<open>Deletions of a dynamic index are enabled by its constructor; the result is the code of the function.\<close>

definition enable_delete :: "'v vamana_index_t \<Rightarrow> int \<times> 'v vamana_index_t" where
  "enable_delete vi =
     (if \<not> vi_enable_tags vi then (- 2, vi)
      else if vi_deletes_enabled vi then (0, vi)
      else (0, vi\<lparr>vi_empty_slots := (if vi_data_compacted vi
                     then fold ns_insert (map of_nat [vi_nd vi..<vi_max_points vi]) (vi_empty_slots vi) else vi_empty_slots vi),
                   vi_deletes_enabled := True\<rparr>))"

record index_config_t =
  cf_metric :: metric_t
  cf_max_points :: nat
  cf_num_frozen :: nat
  cf_dynamic :: bool
  cf_enable_tags :: bool
  cf_filtered :: bool
  cf_pq_dist :: bool
  cf_conc_consolidate :: bool
  cf_queue_size :: nat
  cf_range :: nat
  cf_max_c :: nat
  cf_alpha :: real
  cf_filter_queue_size :: nat
  cf_saturate :: bool

text \<open>The constructor, with the data store and the graph store it is given and with write parameters.\<close>

definition new_vamana_index :: "index_config_t \<Rightarrow> 'v list \<Rightarrow> graph_store_t \<Rightarrow> exn + 'v vamana_index_t" where
  "new_vamana_index cf data_store graph_store =
     (if cf_dynamic cf \<and> \<not> cf_enable_tags cf then Inl Diskann_exception
      else if cf_pq_dist cf \<and> (cf_dynamic cf \<or> cf_metric cf = INNER_PRODUCT) then Inl Diskann_exception
      else
        let frozen = (if cf_dynamic cf \<and> cf_num_frozen cf = 0 then 1 else cf_num_frozen cf);
            max_points = (if cf_max_points cf = 0 then 1 else cf_max_points cf);
            vi = \<lparr>vi_metric = cf_metric cf, vi_graph = graph_store, vi_data = data_store, vi_nd = 0,
                   vi_max_points = max_points, vi_num_frozen = frozen, vi_frozen_used = 0, vi_start = of_nat max_points,
                   vi_has_built = False, vi_saturate = cf_saturate cf, vi_dynamic = cf_dynamic cf,
                   vi_enable_tags = cf_enable_tags cf, vi_deletes_enabled = False, vi_filtered = cf_filtered cf,
                   vi_location_to_labels = [], vi_labels = {}, vi_label_to_start = [], vi_use_universal = False,
                   vi_universal_label = 0, vi_filter_queue_size = cf_filter_queue_size cf, vi_queue_size = cf_queue_size cf,
                   vi_range = cf_range cf, vi_max_c = cf_max_c cf, vi_alpha = cf_alpha cf, vi_pq_dist = cf_pq_dist cf,
                   vi_tag_to_location = [], vi_location_to_tag = nm_empty, vi_empty_slots = ns_empty, vi_delete_set = {},
                   vi_data_compacted = True, vi_is_saved = False, vi_conc_consolidate = cf_conc_consolidate cf\<rparr>;
            vi = (if cf_dynamic cf then snd (enable_delete vi) else vi)
        in Inr (if cf_dynamic cf \<and> cf_filtered cf then vi\<lparr>vi_location_to_labels := replicate (internal_points vi) []\<rparr> else vi))"

text \<open>The loop \<open>for (uint32_t frozen = (uint32_t) max_points_; frozen < max_points_ + num_frozen_pts_; frozen++)\<close>.\<close>

definition frozen_locations :: "'v vamana_index_t \<Rightarrow> u32 list" where
  "frozen_locations vi = map of_nat [vi_max_points vi..<internal_points vi]"

definition get_init_ids :: "'v vamana_index_t \<Rightarrow> u32 list" where
  "get_init_ids vi = vi_start vi # filter (\<lambda>frozen. frozen \<noteq> vi_start vi) (frozen_locations vi)"

text \<open>The two-pointer walk over two sorted label lists.\<close>

fun common_label :: "u32 list \<Rightarrow> u32 list \<Rightarrow> bool" where
  "common_label (i # inc) (c # cur) =
     (if i < c then common_label inc (c # cur) else if c < i then common_label (i # inc) cur else True)"
| "common_label _ _ = False"

definition detect_common_filters :: "'v vamana_index_t \<Rightarrow> u32 \<Rightarrow> bool \<Rightarrow> u32 list \<Rightarrow> exn + bool" where
  "detect_common_filters vi point_id search_invocation incoming_labels =
     (if unat point_id < length (vi_location_to_labels vi) then
        let curr_node_labels = vi_location_to_labels vi ! unat point_id in
        Inr (common_label incoming_labels curr_node_labels
          \<or> (vi_use_universal vi
             \<and> (if \<not> search_invocation
                 then vi_universal_label vi \<in> set incoming_labels \<or> vi_universal_label vi \<in> set curr_node_labels
                 else vi_universal_label vi \<in> set curr_node_labels)))
      else Inl Undefined_access)"

subsection \<open>Scratch space\<close>

record in_mem_query_scratch_t =
  sc_l :: nat
  sc_pool :: "neighbor_t list"
  sc_best :: neighbor_priority_queue_t
  sc_rs :: "u32 set"
  sc_bs :: "bool list"
  sc_ids :: "u32 list"
  sc_dists :: "real list"

definition scratch_clear :: "in_mem_query_scratch_t \<Rightarrow> in_mem_query_scratch_t" where
  "scratch_clear sc = sc\<lparr>sc_pool := [], sc_best := queue_clear (sc_best sc), sc_rs := {},
     sc_bs := map (\<lambda>_. False) (sc_bs sc), sc_ids := [], sc_dists := []\<rparr>"

definition resize_for_new_l :: "nat \<Rightarrow> in_mem_query_scratch_t \<Rightarrow> in_mem_query_scratch_t" where
  "resize_for_new_l new_l sc = (if new_l > sc_l sc then sc\<lparr>sc_l := new_l, sc_best := queue_reserve new_l (sc_best sc)\<rparr> else sc)"

definition new_scratch :: "nat \<Rightarrow> nat \<Rightarrow> nat \<Rightarrow> nat \<Rightarrow> exn + in_mem_query_scratch_t" where
  "new_scratch search_l indexing_l r dims =
     (if search_l = 0 \<or> indexing_l = 0 \<or> r = 0 \<or> dims = 0 then Inl Diskann_exception
      else Inr (resize_for_new_l (max search_l indexing_l)
        \<lparr>sc_l = 0, sc_pool = [], sc_best = new_queue 0, sc_rs = {}, sc_bs = [], sc_ids = [], sc_dists = []\<rparr>))"

subsection \<open>Facts\<close>

lemma common_label_iff:
  "sorted inc \<Longrightarrow> sorted cur \<Longrightarrow> common_label inc cur \<longleftrightarrow> set inc \<inter> set cur \<noteq> {}"
proof (induction inc cur rule: common_label.induct)
  case (1 i inc c cur)
  then show ?case by (auto simp: not_less_iff_gr_or_eq)
qed auto

text \<open>A graph whose adjacency lists have no duplicates and no self loops, and whose edges stay below \<open>n\<close>.\<close>

definition list_ok :: "nat \<Rightarrow> u32 \<Rightarrow> u32 list \<Rightarrow> bool" where
  "list_ok n i ns \<longleftrightarrow> distinct ns \<and> i \<notin> set ns \<and> (\<forall>j \<in> set ns. unat j < n)"

definition graph_ok :: "nat \<Rightarrow> graph_store_t \<Rightarrow> bool" where
  "graph_ok n g \<longleftrightarrow> length (gs_graph g) = n \<and> (\<forall>i. unat i < n \<longrightarrow> list_ok n i (gs_graph g ! unat i))"

definition adjacency :: "graph_store_t \<Rightarrow> u32 \<Rightarrow> u32 list" where
  "adjacency g i = (if unat i < length (gs_graph g) then gs_graph g ! unat i else [])"

lemma observe_degree_simps [simp]:
  "gs_graph (observe_degree d g) = gs_graph g" "gs_capacity (observe_degree d g) = gs_capacity g"
  by (simp_all add: observe_degree_def)

lemma adjacency_put [simp]:
  "adjacency (put_neighbours i ns g) j = (if j = i \<and> unat i < length (gs_graph g) then ns else adjacency g j)"
  by (cases "unat i < length (gs_graph g)") (auto simp: adjacency_def put_neighbours_def nth_list_update not_less list_update_beyond)

lemma length_put [simp]: "length (gs_graph (put_neighbours i ns g)) = length (gs_graph g)"
  by (simp add: put_neighbours_def)

lemma adjacency_observe [simp]: "adjacency (observe_degree d g) = adjacency g"
  by (simp add: adjacency_def fun_eq_iff)

lemma get_neighbours_Inr: "unat i < length (gs_graph g) \<Longrightarrow> get_neighbours g i = Inr (adjacency g i)"
  by (simp add: get_neighbours_def adjacency_def)

lemma graph_ok_adjacency: "graph_ok n g \<longleftrightarrow> length (gs_graph g) = n \<and> (\<forall>i. unat i < n \<longrightarrow> list_ok n i (adjacency g i))"
  by (auto simp: graph_ok_def adjacency_def)

lemma set_neighbours_Inr:
  "unat i < length (gs_graph g) \<Longrightarrow> \<exists>g'. set_neighbours i ns g = Inr g' \<and> length (gs_graph g') = length (gs_graph g)
     \<and> adjacency g' = (adjacency g)(i := ns)"
  by (auto simp: set_neighbours_def fun_eq_iff)

lemma add_neighbour_Inr:
  "unat i < length (gs_graph g) \<Longrightarrow> \<exists>g'. add_neighbour i j g = Inr g' \<and> length (gs_graph g') = length (gs_graph g)
     \<and> adjacency g' = (adjacency g)(i := adjacency g i @ [j])"
  by (auto simp: add_neighbour_def Let_def fun_eq_iff adjacency_def put_neighbours_def nth_list_update)

lemma clear_neighbours_Inr:
  "unat i < length (gs_graph g) \<Longrightarrow> \<exists>g'. clear_neighbours i g = Inr g' \<and> length (gs_graph g') = length (gs_graph g)
     \<and> adjacency g' = (adjacency g)(i := [])"
  by (auto simp: clear_neighbours_def fun_eq_iff)

lemma swap_neighbours_Inr:
  "unat a < length (gs_graph g) \<Longrightarrow> unat b < length (gs_graph g) \<Longrightarrow>
     \<exists>g'. swap_neighbours a b g = Inr g' \<and> length (gs_graph g') = length (gs_graph g)
       \<and> adjacency g' = (adjacency g)(a := adjacency g b, b := adjacency g a)"
  by (auto simp: swap_neighbours_def fun_eq_iff) (auto simp: adjacency_def)

lemma graph_ok_update:
  "graph_ok n g \<Longrightarrow> length (gs_graph g') = length (gs_graph g) \<Longrightarrow> adjacency g' = (adjacency g)(i := ns) \<Longrightarrow>
     list_ok n i ns \<Longrightarrow> graph_ok n g'"
  by (auto simp: graph_ok_adjacency)

lemma adjacency_range: "graph_ok n g \<Longrightarrow> j \<in> set (adjacency g i) \<Longrightarrow> unat j < n"
  by (cases "unat i < n") (auto simp: graph_ok_adjacency list_ok_def, simp add: adjacency_def)

end
