(* ===== verification/Vamana_Search.thy ===== *)
theory Vamana_Search
  imports Vamana_Graph "HOL-Library.While_Combinator"
begin

text \<open>
  The greedy best-first search of the Vamana index: \<open>iterate_to_fixed_point\<close>, \<open>search\<close> and
  \<open>search_with_filters\<close> (src/index/vamana_index.cc).  \<open>qd i\<close> is the distance of the query to slot \<open>i\<close>, which
  the data store computes.  The loop is a \<open>while_option\<close>, so its termination is a theorem.
\<close>

subsection \<open>Visited nodes\<close>

definition max_points_for_using_bitset :: nat where
  "max_points_for_using_bitset = 10000000"

definition fast_iterate :: "'v vamana_index_t \<Rightarrow> bool" where
  "fast_iterate vi \<longleftrightarrow> internal_points vi \<le> max_points_for_using_bitset"

definition prepare_bitset :: "'v vamana_index_t \<Rightarrow> in_mem_query_scratch_t \<Rightarrow> in_mem_query_scratch_t" where
  "prepare_bitset vi sc =
     (if fast_iterate vi \<and> length (sc_bs sc) < internal_points vi
      then sc\<lparr>sc_bs := resized (if 2 * internal_points vi > max_points_for_using_bitset then max_points_for_using_bitset
                                 else 2 * internal_points vi) False (sc_bs sc)\<rparr>
      else sc)"

definition is_not_visited :: "bool \<Rightarrow> in_mem_query_scratch_t \<Rightarrow> u32 \<Rightarrow> exn + bool" where
  "is_not_visited fast sc i =
     (if fast then (if unat i < length (sc_bs sc) then Inr (\<not> sc_bs sc ! unat i) else Inl Undefined_access)
      else Inr (i \<notin> sc_rs sc))"

definition mark_visited :: "bool \<Rightarrow> u32 \<Rightarrow> in_mem_query_scratch_t \<Rightarrow> exn + in_mem_query_scratch_t" where
  "mark_visited fast i sc =
     (if fast then (if unat i < length (sc_bs sc) then Inr (sc\<lparr>sc_bs := (sc_bs sc)[unat i := True]\<rparr>) else Inl Undefined_access)
      else Inr (sc\<lparr>sc_rs := insert i (sc_rs sc)\<rparr>))"

subsection \<open>The search\<close>

definition passes_filter :: "'v vamana_index_t \<Rightarrow> bool \<Rightarrow> u32 list \<Rightarrow> bool \<Rightarrow> u32 \<Rightarrow> exn + bool" where
  "passes_filter vi use_filter filter_labels search_invocation i =
     (if use_filter then detect_common_filters vi i search_invocation filter_labels else Inr True)"

text \<open>One starting point.\<close>

definition init_point :: "'v vamana_index_t \<Rightarrow> (u32 \<Rightarrow> real) \<Rightarrow> bool \<Rightarrow> u32 list \<Rightarrow> bool \<Rightarrow> u32 \<Rightarrow> in_mem_query_scratch_t
    \<Rightarrow> exn + in_mem_query_scratch_t" where
  "init_point vi qd use_filter filter_labels search_invocation i sc =
     (if unat i \<ge> internal_points vi then Inl Diskann_exception
      else bindE (passes_filter vi use_filter filter_labels search_invocation i) (\<lambda>common.
        if \<not> common then Inr sc
        else bindE (is_not_visited (fast_iterate vi) sc i) (\<lambda>fresh.
          if fresh
          then bindE (mark_visited (fast_iterate vi) i sc) (\<lambda>sc.
                 Inr (sc\<lparr>sc_best := queue_insert (new_neighbor i (qd i)) (sc_best sc)\<rparr>))
          else Inr sc)))"

text \<open>The neighbours of an expanded node: those not visited are collected.\<close>

definition collect_neighbour :: "'v vamana_index_t \<Rightarrow> bool \<Rightarrow> u32 list \<Rightarrow> bool \<Rightarrow> u32 \<Rightarrow> in_mem_query_scratch_t
    \<Rightarrow> exn + in_mem_query_scratch_t" where
  "collect_neighbour vi use_filter filter_labels search_invocation i sc =
     bindE (passes_filter vi use_filter filter_labels search_invocation i) (\<lambda>common.
       if \<not> common then Inr sc
       else bindE (is_not_visited (fast_iterate vi) sc i) (\<lambda>fresh.
         Inr (if fresh then sc\<lparr>sc_ids := sc_ids sc @ [i]\<rparr> else sc)))"

definition record_expanded :: "bool \<Rightarrow> bool \<Rightarrow> neighbor_t \<Rightarrow> neighbor_t list \<Rightarrow> neighbor_t list" where
  "record_expanded use_filter search_invocation nbr expanded_nodes =
     (if \<not> search_invocation \<and> (\<not> use_filter \<or> nb_id nbr \<notin> nb_id ` set expanded_nodes)
      then expanded_nodes @ [nbr] else expanded_nodes)"

text \<open>One round of the loop: the candidate it expands, then the reading of its neighbours from the graph \<open>g\<close>.\<close>

definition expand_candidate :: "bool \<Rightarrow> bool \<Rightarrow> in_mem_query_scratch_t \<Rightarrow> u32 \<times> in_mem_query_scratch_t" where
  "expand_candidate use_filter search_invocation sc =
     (let (nbr, best) = closest_unexpanded (sc_best sc) in
      (nb_id nbr, sc\<lparr>sc_best := best, sc_pool := record_expanded use_filter search_invocation nbr (sc_pool sc),
                    sc_ids := [], sc_dists := []\<rparr>))"

definition add_candidates :: "(u32 \<Rightarrow> real) \<Rightarrow> in_mem_query_scratch_t \<Rightarrow> in_mem_query_scratch_t" where
  "add_candidates qd sc =
     (let dists = map qd (sc_ids sc)
      in sc\<lparr>sc_dists := dists, sc_best := fold queue_insert (map2 new_neighbor (sc_ids sc) dists) (sc_best sc)\<rparr>)"

definition expand_step :: "'v vamana_index_t \<Rightarrow> graph_store_t \<Rightarrow> (u32 \<Rightarrow> real) \<Rightarrow> bool \<Rightarrow> u32 list \<Rightarrow> bool \<Rightarrow> in_mem_query_scratch_t
    \<Rightarrow> exn + in_mem_query_scratch_t" where
  "expand_step vi g qd use_filter filter_labels search_invocation sc =
     (case expand_candidate use_filter search_invocation sc of
        (n, sc) \<Rightarrow>
          bindE (get_neighbours g n) (\<lambda>nbrs.
          bindE (foldE (collect_neighbour vi use_filter filter_labels search_invocation) nbrs sc) (\<lambda>sc.
          bindE (foldE (mark_visited (fast_iterate vi)) (sc_ids sc) sc) (\<lambda>sc.
            Inr (add_candidates qd sc)))))"

definition search_start :: "'v vamana_index_t \<Rightarrow> (u32 \<Rightarrow> real) \<Rightarrow> nat \<Rightarrow> u32 list \<Rightarrow> bool \<Rightarrow> u32 list \<Rightarrow> bool \<Rightarrow> in_mem_query_scratch_t
    \<Rightarrow> exn + in_mem_query_scratch_t" where
  "search_start vi qd l_size init_ids use_filter filter_labels search_invocation sc =
     (let sc = sc\<lparr>sc_best := queue_reserve l_size (sc_best sc)\<rparr> in
      if sc_pool sc \<noteq> [] \<or> sc_ids sc \<noteq> [] then Inl Diskann_exception
      else foldE (init_point vi qd use_filter filter_labels search_invocation) init_ids (prepare_bitset vi sc))"

text \<open>The result counts comparisons; \<open>hops\<close> is declared and returned but never changed.\<close>

definition search_continues :: "exn + (in_mem_query_scratch_t \<times> u32) \<Rightarrow> bool" where
  "search_continues r = (case r of Inl _ \<Rightarrow> False | Inr (sc, cmps) \<Rightarrow> has_unexpanded_node (sc_best sc))"

definition search_round :: "'v vamana_index_t \<Rightarrow> (u32 \<Rightarrow> real) \<Rightarrow> bool \<Rightarrow> u32 list \<Rightarrow> bool \<Rightarrow> exn + (in_mem_query_scratch_t \<times> u32)
    \<Rightarrow> exn + (in_mem_query_scratch_t \<times> u32)" where
  "search_round vi qd use_filter filter_labels search_invocation r =
     bindE r (\<lambda>(sc, cmps).
     bindE (expand_step vi (vi_graph vi) qd use_filter filter_labels search_invocation sc) (\<lambda>sc.
       Inr (sc, cmps + of_nat (length (sc_ids sc)))))"

definition iterate_to_fixed_point :: "'v vamana_index_t \<Rightarrow> (u32 \<Rightarrow> real) \<Rightarrow> nat \<Rightarrow> u32 list \<Rightarrow> bool \<Rightarrow> u32 list \<Rightarrow> bool
    \<Rightarrow> in_mem_query_scratch_t \<Rightarrow> (exn + (in_mem_query_scratch_t \<times> u32)) option" where
  "iterate_to_fixed_point vi qd l_size init_ids use_filter filter_labels search_invocation sc =
     while_option search_continues (search_round vi qd use_filter filter_labels search_invocation)
       (bindE (search_start vi qd l_size init_ids use_filter filter_labels search_invocation sc) (\<lambda>sc. Inr (sc, 0)))"

text \<open>
  The results of \<open>search\<close>: the candidates that are not frozen points, until there are \<open>K\<close>.  The test \<open>pos == K\<close>
  comes after the candidate, so with \<open>K = 0\<close> the loop writes every result.
\<close>

fun copy_results :: "'v vamana_index_t \<Rightarrow> nat \<Rightarrow> nat \<Rightarrow> neighbor_t list \<Rightarrow> (u32 \<times> real) list" where
  "copy_results vi k pos [] = []"
| "copy_results vi k pos (n # ns) =
     (let kept = unat (nb_id n) < vi_max_points vi;
          pos' = (if kept then pos + 1 else pos);
          out = (if kept then [(nb_id n, if vi_metric vi = INNER_PRODUCT then - 1 * nb_distance n else nb_distance n)] else [])
      in out @ (if pos' = k then [] else copy_results vi k pos' ns))"

definition search_with :: "'v vamana_index_t \<Rightarrow> (u32 \<Rightarrow> real) \<Rightarrow> nat \<Rightarrow> nat \<Rightarrow> u32 list \<Rightarrow> bool \<Rightarrow> u32 list \<Rightarrow> in_mem_query_scratch_t
    \<Rightarrow> (exn + ((u32 \<times> real) list \<times> u32)) option" where
  "search_with vi qd k l init_ids use_filter filter_labels sc =
     map_option (\<lambda>r. bindE r (\<lambda>(sc, cmps). Inr (copy_results vi k 0 (frontier (sc_best sc)), cmps)))
       (iterate_to_fixed_point vi qd l init_ids use_filter filter_labels True
         (if l > sc_l sc then resize_for_new_l l sc else sc))"

definition search :: "'v vamana_index_t \<Rightarrow> (u32 \<Rightarrow> real) \<Rightarrow> nat \<Rightarrow> nat \<Rightarrow> in_mem_query_scratch_t
    \<Rightarrow> (exn + ((u32 \<times> real) list \<times> u32)) option" where
  "search vi qd k l sc =
     (if k > l then Some (Inl Diskann_exception) else search_with vi qd k l (get_init_ids vi) False [] sc)"

definition search_with_filters :: "'v vamana_index_t \<Rightarrow> (u32 \<Rightarrow> real) \<Rightarrow> u32 \<Rightarrow> nat \<Rightarrow> nat \<Rightarrow> in_mem_query_scratch_t
    \<Rightarrow> (exn + ((u32 \<times> real) list \<times> u32)) option" where
  "search_with_filters vi qd filter_label k l sc =
     (if k > l then Some (Inl Diskann_exception)
      else (case map_of (vi_label_to_start vi) filter_label of
              None \<Rightarrow> Some (Inl Diskann_exception)
            | Some start \<Rightarrow> search_with vi qd k l (get_init_ids vi @ [start]) True [filter_label] sc))"

subsection \<open>The invariant\<close>

definition visited :: "bool \<Rightarrow> in_mem_query_scratch_t \<Rightarrow> u32 set" where
  "visited fast sc = (if fast then {i. unat i < length (sc_bs sc) \<and> sc_bs sc ! unat i} else sc_rs sc)"

definition query_key :: "(u32 \<Rightarrow> real) \<Rightarrow> u32 \<Rightarrow> real \<times> u32" where
  "query_key qd i = (qd i, i)"

text \<open>The keys of the \<open>l\<close> nearest of a set of slots, in order.\<close>

definition nearest :: "(u32 \<Rightarrow> real) \<Rightarrow> nat \<Rightarrow> u32 set \<Rightarrow> (real \<times> u32) list" where
  "nearest qd l V = take l (sorted_list_of_set (query_key qd ` V))"

definition search_inv :: "'v vamana_index_t \<Rightarrow> (u32 \<Rightarrow> real) \<Rightarrow> nat \<Rightarrow> in_mem_query_scratch_t \<Rightarrow> bool" where
  "search_inv vi qd l sc \<longleftrightarrow>
     queue_ok (sc_best sc) \<and> q_capacity (sc_best sc) = l
     \<and> (\<forall>i \<in> visited (fast_iterate vi) sc. unat i < internal_points vi)
     \<and> (fast_iterate vi \<longrightarrow> internal_points vi \<le> length (sc_bs sc))
     \<and> map nb_key (frontier (sc_best sc)) = nearest qd l (visited (fast_iterate vi) sc)
     \<and> distinct (map nb_id (sc_pool sc)) \<and> nb_id ` set (sc_pool sc) \<subseteq> visited (fast_iterate vi) sc
     \<and> (\<forall>n \<in> set (frontier (sc_best sc)). nb_id n \<in> nb_id ` set (sc_pool sc) \<longrightarrow> nb_expanded n)
     \<and> (\<forall>n \<in> set (sc_pool sc). nb_distance n = qd (nb_id n))"

lemma finite_slots [simp]: "finite (V :: u32 set)"
  by (rule finite_subset [OF subset_UNIV]) simp

lemma set_nearest: "set (nearest qd l V) \<subseteq> query_key qd ` V"
  unfolding nearest_def by (rule subset_trans [OF set_take_subset]) simp

lemma frontier_visited:
  assumes "map nb_key F = nearest qd l V" "n \<in> set F"
  shows "nb_id n \<in> V \<and> nb_distance n = qd (nb_id n)"
proof -
  have "nb_key n \<in> set (nearest qd l V)" using assms by (metis image_eqI set_map)
  then show ?thesis using set_nearest [of qd l V] by (auto simp: nb_key_def query_key_def)
qed

lemma nearest_insert:
  assumes "i \<notin> V"
  shows "nearest qd l (insert i V) = take l (insort (query_key qd i) (nearest qd l V))"
proof -
  have "query_key qd i \<notin> query_key qd ` V" using assms by (auto simp: query_key_def)
  then have "sorted_list_of_set (query_key qd ` insert i V) = insort (query_key qd i) (sorted_list_of_set (query_key qd ` V))"
    by (simp add: sorted_list_of_set_insert_remove [symmetric])
  then show ?thesis by (simp add: nearest_def take_insort_take)
qed

lemma map_insort_key: "map f (insort_key f x xs) = insort (f x) (map f xs)"
  by (induction xs) auto

text \<open>Adding one fresh slot to the queue.\<close>

lemma insert_fresh:
  assumes ok: "queue_ok q" "q_capacity q = l" and F: "map nb_key (frontier q) = nearest qd l V" and new: "i \<notin> V"
  shows "queue_ok (queue_insert (new_neighbor i (qd i)) q) \<and> q_capacity (queue_insert (new_neighbor i (qd i)) q) = l
    \<and> map nb_key (frontier (queue_insert (new_neighbor i (qd i)) q)) = nearest qd l (insert i V)
    \<and> set (frontier (queue_insert (new_neighbor i (qd i)) q)) \<subseteq> insert (new_neighbor i (qd i)) (set (frontier q))"
proof -
  have "i \<notin> nb_id ` set (frontier q)" using frontier_visited [OF F] new by auto
  then have c: "queue_ok (queue_insert (new_neighbor i (qd i)) q)" "q_capacity (queue_insert (new_neighbor i (qd i)) q) = l"
    "frontier (queue_insert (new_neighbor i (qd i)) q) = inserted l (new_neighbor i (qd i)) (frontier q)"
    using queue_insert_correct [OF ok(1), of "new_neighbor i (qd i)"] ok(2) by simp_all
  have k: "nb_key (new_neighbor i (qd i)) = query_key qd i" by (simp add: nb_key_def query_key_def)
  have "map nb_key (inserted l (new_neighbor i (qd i)) (frontier q)) = take l (insort (query_key qd i) (map nb_key (frontier q)))"
    by (simp add: inserted_def map_insort_key k take_map [symmetric])
  moreover have "set (inserted l (new_neighbor i (qd i)) (frontier q)) \<subseteq> insert (new_neighbor i (qd i)) (set (frontier q))"
    unfolding inserted_def by (rule subset_trans [OF set_take_subset]) (simp add: set_insort_key)
  ultimately show ?thesis using c nearest_insert [OF new] F by simp
qed

lemma insert_fresh_all:
  assumes "queue_ok q" "q_capacity q = l" "map nb_key (frontier q) = nearest qd l V" "distinct is" "set is \<inter> V = {}"
  shows "queue_ok (fold queue_insert (map (\<lambda>i. new_neighbor i (qd i)) is) q)
    \<and> q_capacity (fold queue_insert (map (\<lambda>i. new_neighbor i (qd i)) is) q) = l
    \<and> map nb_key (frontier (fold queue_insert (map (\<lambda>i. new_neighbor i (qd i)) is) q)) = nearest qd l (V \<union> set is)
    \<and> set (frontier (fold queue_insert (map (\<lambda>i. new_neighbor i (qd i)) is) q))
        \<subseteq> (\<lambda>i. new_neighbor i (qd i)) ` set is \<union> set (frontier q)"
  using assms
proof (induction "is" arbitrary: q V)
  case (Cons i "is")
  note c = insert_fresh [OF Cons.prems(1-3), of i]
  from Cons.prems have "i \<notin> V" "distinct is" "set is \<inter> insert i V = {}" by auto
  with c Cons.IH [of "queue_insert (new_neighbor i (qd i)) q" "insert i V"] show ?case by auto
qed simp

definition admitted :: "'v vamana_index_t \<Rightarrow> bool \<Rightarrow> u32 list \<Rightarrow> bool \<Rightarrow> u32 \<Rightarrow> bool" where
  "admitted vi use_filter filter_labels search_invocation i \<longleftrightarrow>
     passes_filter vi use_filter filter_labels search_invocation i = Inr True"

text \<open>What a call needs of the index: labels for every slot when the filter is used.\<close>

definition filter_ready :: "'v vamana_index_t \<Rightarrow> bool \<Rightarrow> bool" where
  "filter_ready vi use_filter \<longleftrightarrow> (use_filter \<longrightarrow> internal_points vi \<le> length (vi_location_to_labels vi))"

lemma passes_filter_ready:
  "filter_ready vi use_filter \<Longrightarrow> unat i < internal_points vi \<Longrightarrow>
     passes_filter vi use_filter ls si i = Inr (admitted vi use_filter ls si i)"
  by (auto simp: passes_filter_def admitted_def filter_ready_def detect_common_filters_def Let_def)

definition bitset_ready :: "'v vamana_index_t \<Rightarrow> in_mem_query_scratch_t \<Rightarrow> bool" where
  "bitset_ready vi sc \<longleftrightarrow> (fast_iterate vi \<longrightarrow> internal_points vi \<le> length (sc_bs sc))"

lemma is_not_visited_ready:
  "bitset_ready vi sc \<Longrightarrow> unat i < internal_points vi \<Longrightarrow>
     is_not_visited (fast_iterate vi) sc i = Inr (i \<notin> visited (fast_iterate vi) sc)"
  by (auto simp: is_not_visited_def visited_def bitset_ready_def)

lemma mark_visited_ready:
  assumes "bitset_ready vi sc" "unat i < internal_points vi"
  shows "\<exists>bs rs. mark_visited (fast_iterate vi) i sc = Inr (sc\<lparr>sc_bs := bs, sc_rs := rs\<rparr>)
    \<and> bitset_ready vi (sc\<lparr>sc_bs := bs, sc_rs := rs\<rparr>)
    \<and> visited (fast_iterate vi) (sc\<lparr>sc_bs := bs, sc_rs := rs\<rparr>) = insert i (visited (fast_iterate vi) sc)"
proof (cases "fast_iterate vi")
  case True
  with assms have "unat i < length (sc_bs sc)" by (simp add: bitset_ready_def)
  with True assms show ?thesis
    by (intro exI [of _ "(sc_bs sc)[unat i := True]"] exI [of _ "sc_rs sc"])
      (auto simp: mark_visited_def visited_def bitset_ready_def nth_list_update)
next
  case False
  then show ?thesis
    by (intro exI [of _ "sc_bs sc"] exI [of _ "insert i (sc_rs sc)"])
      (simp add: mark_visited_def visited_def bitset_ready_def)
qed

lemma mark_all:
  assumes "bitset_ready vi sc" "\<forall>i \<in> set is. unat i < internal_points vi"
  shows "\<exists>bs rs. foldE (mark_visited (fast_iterate vi)) is sc = Inr (sc\<lparr>sc_bs := bs, sc_rs := rs\<rparr>)
    \<and> bitset_ready vi (sc\<lparr>sc_bs := bs, sc_rs := rs\<rparr>)
    \<and> visited (fast_iterate vi) (sc\<lparr>sc_bs := bs, sc_rs := rs\<rparr>) = visited (fast_iterate vi) sc \<union> set is"
  using assms
proof (induction "is" arbitrary: sc)
  case Nil
  then show ?case by (intro exI [of _ "sc_bs sc"] exI [of _ "sc_rs sc"]) simp
next
  case (Cons i "is")
  from mark_visited_ready [OF Cons.prems(1), of i] Cons.prems(2) obtain bs rs where
    m: "mark_visited (fast_iterate vi) i sc = Inr (sc\<lparr>sc_bs := bs, sc_rs := rs\<rparr>)"
      "bitset_ready vi (sc\<lparr>sc_bs := bs, sc_rs := rs\<rparr>)"
      "visited (fast_iterate vi) (sc\<lparr>sc_bs := bs, sc_rs := rs\<rparr>) = insert i (visited (fast_iterate vi) sc)" by auto
  from Cons.IH [OF m(2)] Cons.prems(2) m(1,3) show ?case by fastforce
qed

lemma collect_all:
  assumes "bitset_ready vi sc" "filter_ready vi use_filter" "\<forall>i \<in> set ns. unat i < internal_points vi"
  shows "foldE (collect_neighbour vi use_filter ls si) ns sc =
    Inr (sc\<lparr>sc_ids := sc_ids sc @ filter (\<lambda>i. admitted vi use_filter ls si i \<and> i \<notin> visited (fast_iterate vi) sc) ns\<rparr>)"
  using assms
proof (induction ns arbitrary: sc)
  case (Cons n ns)
  from Cons.prems have n: "unat n < internal_points vi" by simp
  have s: "collect_neighbour vi use_filter ls si n sc =
      Inr (if admitted vi use_filter ls si n \<and> n \<notin> visited (fast_iterate vi) sc then sc\<lparr>sc_ids := sc_ids sc @ [n]\<rparr> else sc)"
    using passes_filter_ready [OF Cons.prems(2) n] is_not_visited_ready [OF Cons.prems(1) n]
    by (simp add: collect_neighbour_def)
  have "visited f (sc\<lparr>sc_ids := x\<rparr>) = visited f sc" "bitset_ready vi (sc\<lparr>sc_ids := x\<rparr>) = bitset_ready vi sc" for f x
    by (simp_all add: visited_def bitset_ready_def)
  with s Cons show ?case by simp
qed simp

lemma visited_simps [simp]:
  "visited f (sc\<lparr>sc_ids := x\<rparr>) = visited f sc" "visited f (sc\<lparr>sc_best := q\<rparr>) = visited f sc"
  "visited f (sc\<lparr>sc_pool := p\<rparr>) = visited f sc" "visited f (sc\<lparr>sc_dists := d\<rparr>) = visited f sc"
  "bitset_ready vi (sc\<lparr>sc_ids := x\<rparr>) = bitset_ready vi sc" "bitset_ready vi (sc\<lparr>sc_best := q\<rparr>) = bitset_ready vi sc"
  "bitset_ready vi (sc\<lparr>sc_pool := p\<rparr>) = bitset_ready vi sc" "bitset_ready vi (sc\<lparr>sc_dists := d\<rparr>) = bitset_ready vi sc"
  by (simp_all add: visited_def bitset_ready_def)

lemma init_point_correct:
  assumes inv: "search_inv vi qd l sc" and ready: "filter_ready vi use_filter" and i: "unat i < internal_points vi"
    and pool: "sc_pool sc = []" "sc_ids sc = []"
  shows "\<exists>sc'. init_point vi qd use_filter ls si i sc = Inr sc' \<and> search_inv vi qd l sc' \<and> sc_pool sc' = [] \<and> sc_ids sc' = []
    \<and> visited (fast_iterate vi) sc' = visited (fast_iterate vi) sc \<union> (if admitted vi use_filter ls si i then {i} else {})
    \<and> set (frontier (sc_best sc')) \<subseteq> insert (new_neighbor i (qd i)) (set (frontier (sc_best sc)))"
proof -
  let ?V = "visited (fast_iterate vi) sc"
  note o = inv [unfolded search_inv_def]
  have b: "bitset_ready vi sc" using o by (simp add: bitset_ready_def)
  show ?thesis
  proof (cases "admitted vi use_filter ls si i \<and> i \<notin> ?V")
    case False
    then have "init_point vi qd use_filter ls si i sc = Inr sc"
      using passes_filter_ready [OF ready i] is_not_visited_ready [OF b i] i by (auto simp: init_point_def)
    with False inv pool show ?thesis by auto
  next
    case True
    from mark_visited_ready [OF b i] obtain bs rs where
      m: "mark_visited (fast_iterate vi) i sc = Inr (sc\<lparr>sc_bs := bs, sc_rs := rs\<rparr>)"
        "bitset_ready vi (sc\<lparr>sc_bs := bs, sc_rs := rs\<rparr>)"
        "visited (fast_iterate vi) (sc\<lparr>sc_bs := bs, sc_rs := rs\<rparr>) = insert i ?V" by auto
    let ?sc = "sc\<lparr>sc_bs := bs, sc_rs := rs, sc_best := queue_insert (new_neighbor i (qd i)) (sc_best sc)\<rparr>"
    have r: "init_point vi qd use_filter ls si i sc = Inr ?sc"
      using True passes_filter_ready [OF ready i] is_not_visited_ready [OF b i] i m(1) by (simp add: init_point_def)
    have v: "visited (fast_iterate vi) ?sc = insert i ?V" using m(3) by simp
    note f = insert_fresh [of "sc_best sc" l qd ?V i]
    have "search_inv vi qd l ?sc" unfolding search_inv_def v
      using f o True i m(2) pool by (auto simp: bitset_ready_def)
    with r v f o True pool show ?thesis by auto
  qed
qed

definition unexpanded :: "neighbor_priority_queue_t \<Rightarrow> neighbor_t set" where
  "unexpanded q = {n \<in> set (frontier q). \<not> nb_expanded n}"

definition search_measure :: "'v vamana_index_t \<Rightarrow> in_mem_query_scratch_t \<Rightarrow> nat" where
  "search_measure vi sc = internal_points vi - card (visited (fast_iterate vi) sc) + card (unexpanded (sc_best sc))"

lemma frontier_distinct: "queue_ok q \<Longrightarrow> distinct (frontier q)"
  unfolding queue_ok_def by (metis distinct_map sorted_wrt_less_imp_distinct)

lemma card_below:
  assumes "\<forall>i \<in> V. unat (i :: u32) < n"
  shows "card V \<le> n"
proof -
  have "V \<subseteq> of_nat ` {..<n}"
  proof
    fix i assume "i \<in> V"
    with assms show "i \<in> of_nat ` {..<n}" by (intro image_eqI [of _ _ "unat i"]) auto
  qed
  then have "card V \<le> card (of_nat ` {..<n} :: u32 set)" by (intro card_mono) simp_all
  also have "\<dots> \<le> n" using card_image_le [of "{..<n}" "of_nat :: nat \<Rightarrow> u32"] by simp
  finally show ?thesis .
qed

lemma frontier_same_id:
  assumes "queue_ok q" "map nb_key (frontier q) = nearest qd l V" "m \<in> set (frontier q)" "n \<in> set (frontier q)" "nb_id m = nb_id n"
  shows "m = n"
proof -
  have "distinct (map nb_key (frontier q))"
    using assms(1) unfolding queue_ok_def by (blast intro: sorted_wrt_less_imp_distinct)
  moreover have "nb_key m = nb_key n"
    using frontier_visited [OF assms(2) assms(3)] frontier_visited [OF assms(2) assms(4)] assms(5) by (simp add: nb_key_def)
  ultimately show ?thesis using assms(3,4) by (metis distinct_map inj_onD)
qed

lemma expand_candidate_correct:
  assumes inv: "search_inv vi qd l sc" and has: "has_unexpanded_node (sc_best sc)"
  shows "\<exists>n sc'. expand_candidate use_filter si sc = (n, sc') \<and> n \<in> visited (fast_iterate vi) sc
    \<and> search_inv vi qd l sc' \<and> sc_ids sc' = [] \<and> visited (fast_iterate vi) sc' = visited (fast_iterate vi) sc
    \<and> sc_bs sc' = sc_bs sc
    \<and> card (unexpanded (sc_best sc')) < card (unexpanded (sc_best sc))
    \<and> (\<forall>m \<in> set (frontier (sc_best sc')). nb_expanded m \<longrightarrow> nb_id m = n \<or> m \<in> set (frontier (sc_best sc)))
    \<and> (if si then sc_pool sc' = sc_pool sc else map nb_id (sc_pool sc') = map nb_id (sc_pool sc) @ [n])"
proof -
  let ?V = "visited (fast_iterate vi) sc" and ?F = "frontier (sc_best sc)"
  note o = inv [unfolded search_inv_def]
  obtain nbr q where s: "closest_unexpanded (sc_best sc) = (nbr, q)" by fastforce
  from closest_unexpanded_correct [OF _ has s] o obtain i where
    q: "queue_ok q" "q_capacity q = l" and i: "i < q_size (sc_best sc)" "nbr = (?F ! i)\<lparr>nb_expanded := True\<rparr>"
      "\<not> nb_expanded (?F ! i)" "frontier q = ?F[i := nbr]" by auto
  have len: "length ?F = q_size (sc_best sc)" using length_frontier o by blast
  have iF: "?F ! i \<in> set ?F" using i(1) len by simp
  note fv = frontier_visited [of ?F qd l ?V "?F ! i", OF _ iF]
  have n: "nb_id nbr \<in> ?V" "nb_distance nbr = qd (nb_id nbr)" using fv o by (simp_all add: i(2))
  have fresh: "nb_id nbr \<notin> nb_id ` set (sc_pool sc)" using o i(3) iF by (auto simp: i(2))
  let ?sc = "sc\<lparr>sc_best := q, sc_pool := record_expanded use_filter si nbr (sc_pool sc), sc_ids := [], sc_dists := []\<rparr>"
  have e: "expand_candidate use_filter si sc = (nb_id nbr, ?sc)" by (simp add: expand_candidate_def s)
  have v: "visited f ?sc = visited f sc" for f by (simp add: visited_def)
  have keys: "map nb_key (frontier q) = map nb_key ?F"
    unfolding i(4) by (rule nth_equalityI) (use len i(1) in \<open>auto simp: i(2) nth_list_update\<close>)
  have pool: "record_expanded use_filter si nbr (sc_pool sc) = (if si then sc_pool sc else sc_pool sc @ [nbr])"
    using fresh by (auto simp: record_expanded_def)
  have sub: "set (frontier q) \<subseteq> insert nbr (set ?F - {?F ! i})"
  proof
    fix m assume "m \<in> set (frontier q)"
    then obtain j where j: "j < length ?F" "m = ?F[i := nbr] ! j" by (auto simp: i(4) in_set_conv_nth)
    have "distinct ?F" using o frontier_distinct by blast
    with j i(1) len show "m \<in> insert nbr (set ?F - {?F ! i})"
      by (cases "j = i") (auto simp: nth_eq_iff_index_eq)
  qed
  have exp: "nb_expanded nbr" by (simp add: i(2))
  have "unexpanded q \<subset> unexpanded (sc_best sc)"
    using sub exp iF i(3) by (auto simp: unexpanded_def)
  then have card: "card (unexpanded q) < card (unexpanded (sc_best sc))"
    by (intro psubset_card_mono) (simp_all add: unexpanded_def)
  have "nbr \<in> set (frontier q)" unfolding i(4) using i(1) len by (simp add: set_update_memI)
  moreover have kq: "map nb_key (frontier q) = nearest qd l ?V" using keys o by simp
  ultimately have same: "m = nbr" if "m \<in> set (frontier q)" "nb_id m = nb_id nbr" for m
    using frontier_same_id [OF q(1)] that by blast
  have clause: "nb_expanded m" if m: "m \<in> set (frontier q)" "nb_id m \<in> insert (nb_id nbr) (nb_id ` set (sc_pool sc))" for m
  proof (cases "m = nbr")
    case True
    then show ?thesis by (simp add: exp)
  next
    case False
    with m same have "nb_id m \<in> nb_id ` set (sc_pool sc)" by blast
    moreover have "m \<in> set ?F" using False m(1) sub by blast
    ultimately show ?thesis using o by blast
  qed
  have pool2: "distinct (map nb_id (sc_pool ?sc))" "nb_id ` set (sc_pool ?sc) \<subseteq> insert (nb_id nbr) (nb_id ` set (sc_pool sc))"
    "\<forall>m \<in> set (sc_pool ?sc). nb_distance m = qd (nb_id m)"
    using o fresh n(2) by (auto simp: pool)
  have inv': "search_inv vi qd l ?sc"
    unfolding search_inv_def v
  proof (intro conjI)
    show "\<forall>m \<in> set (frontier (sc_best ?sc)). nb_id m \<in> nb_id ` set (sc_pool ?sc) \<longrightarrow> nb_expanded m"
    proof (intro ballI impI)
      fix m assume m: "m \<in> set (frontier (sc_best ?sc))" "nb_id m \<in> nb_id ` set (sc_pool ?sc)"
      from m(1) have "m \<in> set (frontier q)" by simp
      moreover have "nb_id m \<in> insert (nb_id nbr) (nb_id ` set (sc_pool sc))" using m(2) pool2(2) by (rule rev_subsetD)
      ultimately show "nb_expanded m" by (rule clause)
    qed
    show "nb_id ` set (sc_pool ?sc) \<subseteq> ?V" by (rule order_trans [OF pool2(2)]) (use o n(1) in simp)
  qed (use o q kq pool2 in simp_all)
  have "\<forall>m \<in> set (frontier q). nb_expanded m \<longrightarrow> nb_id m = nb_id nbr \<or> m \<in> set ?F" using sub by blast
  with e n(1) inv' v card pool show ?thesis by (intro exI [of _ "nb_id nbr"] exI [of _ ?sc]) (cases si; simp)
qed

lemma expand_step_correct:
  assumes inv: "search_inv vi qd l sc" and ready: "filter_ready vi use_filter"
    and g: "graph_ok (internal_points vi) g" and has: "has_unexpanded_node (sc_best sc)"
  shows "\<exists>n sc'. expand_step vi g qd use_filter ls si sc = Inr sc' \<and> search_inv vi qd l sc'
    \<and> n \<in> visited (fast_iterate vi) sc
    \<and> visited (fast_iterate vi) sc'
        = visited (fast_iterate vi) sc \<union> {j \<in> set (adjacency g n). admitted vi use_filter ls si j}
    \<and> search_measure vi sc' < search_measure vi sc
    \<and> (\<forall>m \<in> set (frontier (sc_best sc')). nb_expanded m \<longrightarrow> nb_id m = n \<or> m \<in> set (frontier (sc_best sc)))
    \<and> (if si then sc_pool sc' = sc_pool sc else map nb_id (sc_pool sc') = map nb_id (sc_pool sc) @ [n])"
proof -
  let ?f = "fast_iterate vi" and ?N = "internal_points vi"
  from expand_candidate_correct [OF inv has, of use_filter si] obtain n sm where
    e: "expand_candidate use_filter si sc = (n, sm)" "n \<in> visited ?f sc" and m: "search_inv vi qd l sm" "sc_ids sm = []"
      "visited ?f sm = visited ?f sc" "card (unexpanded (sc_best sm)) < card (unexpanded (sc_best sc))"
      "\<forall>m \<in> set (frontier (sc_best sm)). nb_expanded m \<longrightarrow> nb_id m = n \<or> m \<in> set (frontier (sc_best sc))"
      "if si then sc_pool sm = sc_pool sc else map nb_id (sc_pool sm) = map nb_id (sc_pool sc) @ [n]" by auto
  note o = m(1) [unfolded search_inv_def]
  have nN: "unat n < ?N" using inv e(2) by (auto simp: search_inv_def)
  then have get: "get_neighbours g n = Inr (adjacency g n)"
    using g by (intro get_neighbours_Inr) (simp add: graph_ok_def)
  have adj: "distinct (adjacency g n)" "\<forall>j \<in> set (adjacency g n). unat j < ?N"
    using g nN by (auto simp: graph_ok_adjacency list_ok_def)
  have b: "bitset_ready vi sm" using o by (simp add: bitset_ready_def)
  define new where "new = filter (\<lambda>i. admitted vi use_filter ls si i \<and> i \<notin> visited ?f sm) (adjacency g n)"
  let ?sm = "sm\<lparr>sc_ids := new\<rparr>"
  have c: "foldE (collect_neighbour vi use_filter ls si) (adjacency g n) sm = Inr ?sm"
    using collect_all [OF b ready adj(2), of ls si] m(2) by (simp add: new_def)
  have newN: "\<forall>i \<in> set new. unat i < ?N" using adj(2) by (simp add: new_def)
  have b': "bitset_ready vi ?sm" using b by simp
  from mark_all [OF b' newN] obtain bs rs where
    k: "foldE (mark_visited ?f) new ?sm = Inr (?sm\<lparr>sc_bs := bs, sc_rs := rs\<rparr>)"
      "bitset_ready vi (?sm\<lparr>sc_bs := bs, sc_rs := rs\<rparr>)"
      "visited ?f (?sm\<lparr>sc_bs := bs, sc_rs := rs\<rparr>) = visited ?f sm \<union> set new" by auto
  let ?s2 = "?sm\<lparr>sc_bs := bs, sc_rs := rs\<rparr>"
  let ?q = "fold queue_insert (map (\<lambda>i. new_neighbor i (qd i)) new) (sc_best sm)"
  have "map2 new_neighbor new (map qd new) = map (\<lambda>i. new_neighbor i (qd i)) new"
    by (simp add: zip_map2 map2_map_map [symmetric] zip_same_conv_map)
  then have a: "add_candidates qd ?s2 = ?s2\<lparr>sc_dists := map qd new, sc_best := ?q\<rparr>"
    by (simp add: add_candidates_def)
  let ?s3 = "?s2\<lparr>sc_dists := map qd new, sc_best := ?q\<rparr>"
  have step: "expand_step vi g qd use_filter ls si sc = Inr ?s3"
    unfolding expand_step_def by (simp add: e(1) get c k(1) a)
  have v3: "visited ?f ?s3 = visited ?f sm \<union> set new" using k(3) by simp
  have d: "distinct new" "set new \<inter> visited ?f sm = {}" using adj(1) by (auto simp: new_def)
  from insert_fresh_all [of "sc_best sm" l qd "visited ?f sm" new] o d have q: "queue_ok ?q" "q_capacity ?q = l"
    "map nb_key (frontier ?q) = nearest qd l (visited ?f sm \<union> set new)"
    "set (frontier ?q) \<subseteq> (\<lambda>i. new_neighbor i (qd i)) ` set new \<union> set (frontier (sc_best sm))" by blast+
  have clause: "nb_expanded x" if x: "x \<in> set (frontier ?q)" "nb_id x \<in> nb_id ` set (sc_pool sm)" for x
  proof -
    have "nb_id x \<in> visited ?f sm" using x(2) o by blast
    then have "nb_id x \<notin> set new" using d(2) by blast
    then have "x \<notin> (\<lambda>i. new_neighbor i (qd i)) ` set new" by auto
    then have "x \<in> set (frontier (sc_best sm))" using x(1) q(4) by blast
    with x(2) o show ?thesis by blast
  qed
  have ready3: "?f \<longrightarrow> ?N \<le> length (sc_bs ?s3)" "sc_pool ?s3 = sc_pool sm" "sc_best ?s3 = ?q"
    using k(2) by (simp_all add: bitset_ready_def)
  have inv3: "search_inv vi qd l ?s3"
    unfolding search_inv_def v3 ready3(2,3)
  proof (intro conjI)
    show "\<forall>i \<in> visited ?f sm \<union> set new. unat i < ?N" using newN o by blast
    show "\<forall>x \<in> set (frontier ?q). nb_id x \<in> nb_id ` set (sc_pool sm) \<longrightarrow> nb_expanded x" using clause by blast
    show "nb_id ` set (sc_pool sm) \<subseteq> visited ?f sm \<union> set new" using o by blast
  qed (use o q ready3(1) in simp_all)
  have "unexpanded ?q \<subseteq> (\<lambda>i. new_neighbor i (qd i)) ` set new \<union> unexpanded (sc_best sm)"
    using q(4) by (auto simp: unexpanded_def)
  then have "card (unexpanded ?q) \<le> card ((\<lambda>i. new_neighbor i (qd i)) ` set new \<union> unexpanded (sc_best sm))"
    by (rule card_mono [rotated]) (simp add: unexpanded_def)
  also have "\<dots> \<le> card (set new) + card (unexpanded (sc_best sm))"
    by (rule order_trans [OF card_Un_le]) (simp add: card_image_le)
  finally have cu: "card (unexpanded ?q) \<le> card (set new) + card (unexpanded (sc_best sm))" .
  have cv: "card (visited ?f ?s3) = card (visited ?f sm) + card (set new)"
    unfolding v3 using d(2) by (intro card_Un_disjoint) auto
  have "card (visited ?f ?s3) \<le> ?N"
    using inv3 by (intro card_below) (auto simp: search_inv_def)
  then have ms: "search_measure vi ?s3 < search_measure vi sc"
    using cu cv m(3,4) unfolding search_measure_def by simp
  have V: "visited ?f ?s3 = visited ?f sc \<union> {j \<in> set (adjacency g n). admitted vi use_filter ls si j}"
    unfolding v3 m(3) by (auto simp: new_def m(3))
  have ex: "\<forall>m \<in> set (frontier ?q). nb_expanded m \<longrightarrow> nb_id m = n \<or> m \<in> set (frontier (sc_best sc))"
    using q(4) m(5) by auto
  show ?thesis
    using step inv3 e(2) V ms ex m(6) by (intro exI [of _ n] exI [of _ ?s3]) simp
qed

subsection \<open>The whole search\<close>

text \<open>A scratch space as the manager hands it out: cleared.\<close>

definition scratch_fresh :: "'v vamana_index_t \<Rightarrow> in_mem_query_scratch_t \<Rightarrow> bool" where
  "scratch_fresh vi sc \<longleftrightarrow> sc_pool sc = [] \<and> sc_ids sc = [] \<and> q_size (sc_best sc) = 0 \<and> q_cur (sc_best sc) = 0
     \<and> sc_rs sc = {} \<and> True \<notin> set (sc_bs sc)"

lemma scratch_clear_fresh: "scratch_fresh vi (scratch_clear sc)"
  by (auto simp: scratch_fresh_def scratch_clear_def queue_clear_def)

lemma start_inv:
  assumes fresh: "scratch_fresh vi sc" and l: "0 < l"
  shows "search_inv vi qd l (prepare_bitset vi (sc\<lparr>sc_best := queue_reserve l (sc_best sc)\<rparr>))
    \<and> visited (fast_iterate vi) (prepare_bitset vi (sc\<lparr>sc_best := queue_reserve l (sc_best sc)\<rparr>)) = {}
    \<and> sc_pool (prepare_bitset vi (sc\<lparr>sc_best := queue_reserve l (sc_best sc)\<rparr>)) = []
    \<and> sc_ids (prepare_bitset vi (sc\<lparr>sc_best := queue_reserve l (sc_best sc)\<rparr>)) = []
    \<and> frontier (sc_best (prepare_bitset vi (sc\<lparr>sc_best := queue_reserve l (sc_best sc)\<rparr>))) = []"
proof -
  let ?q = "queue_reserve l (sc_best sc)" and ?sc = "prepare_bitset vi (sc\<lparr>sc_best := queue_reserve l (sc_best sc)\<rparr>)"
  from fresh have f: "sc_pool sc = []" "sc_ids sc = []" "q_size (sc_best sc) = 0" "q_cur (sc_best sc) = 0" "sc_rs sc = {}"
    "True \<notin> set (sc_bs sc)" by (simp_all add: scratch_fresh_def)
  have p: "sc_best ?sc = ?q" "sc_pool ?sc = []" "sc_ids ?sc = []" "sc_rs ?sc = {}" "True \<notin> set (sc_bs ?sc)"
    "fast_iterate vi \<longrightarrow> internal_points vi \<le> length (sc_bs ?sc)"
    using f by (auto simp: prepare_bitset_def fast_iterate_def resized_def dest: in_set_takeD)
  have F: "frontier ?q = []" using f by (simp add: frontier_def queue_reserve_def)
  have q: "queue_ok ?q" "q_capacity ?q = l"
    using l f(3,4) F by (simp_all add: queue_ok_def queue_reserve_def)
  have v: "visited (fast_iterate vi) ?sc = {}"
    using p(4,5) by (auto simp: visited_def in_set_conv_nth)
  show ?thesis using p q F v by (simp add: search_inv_def nearest_def)
qed

lemma init_points_correct:
  assumes "search_inv vi qd l sc" "filter_ready vi use_filter" "\<forall>i \<in> set is. unat i < internal_points vi"
    "sc_pool sc = []" "sc_ids sc = []" "\<forall>n \<in> set (frontier (sc_best sc)). \<not> nb_expanded n"
  shows "\<exists>sc'. foldE (init_point vi qd use_filter ls si) is sc = Inr sc' \<and> search_inv vi qd l sc'
    \<and> sc_pool sc' = [] \<and> sc_ids sc' = [] \<and> (\<forall>n \<in> set (frontier (sc_best sc')). \<not> nb_expanded n)
    \<and> visited (fast_iterate vi) sc' = visited (fast_iterate vi) sc \<union> {i \<in> set is. admitted vi use_filter ls si i}"
  using assms
proof (induction "is" arbitrary: sc)
  case (Cons i "is")
  from init_point_correct [OF Cons.prems(1,2) _ Cons.prems(4,5), of i ls si] Cons.prems(3) obtain sm where
    m: "init_point vi qd use_filter ls si i sc = Inr sm" "search_inv vi qd l sm" "sc_pool sm = []" "sc_ids sm = []"
      "visited (fast_iterate vi) sm = visited (fast_iterate vi) sc \<union> (if admitted vi use_filter ls si i then {i} else {})"
      "set (frontier (sc_best sm)) \<subseteq> insert (new_neighbor i (qd i)) (set (frontier (sc_best sc)))" by auto
  have "\<forall>n \<in> set (frontier (sc_best sm)). \<not> nb_expanded n" using m(6) Cons.prems(6) by auto
  from Cons.IH [OF m(2) Cons.prems(2) _ m(3,4) this] Cons.prems(3) obtain sc' where
    "foldE (init_point vi qd use_filter ls si) is sm = Inr sc'" "search_inv vi qd l sc'" "sc_pool sc' = []" "sc_ids sc' = []"
    "\<forall>n \<in> set (frontier (sc_best sc')). \<not> nb_expanded n"
    "visited (fast_iterate vi) sc' = visited (fast_iterate vi) sm \<union> {i \<in> set is. admitted vi use_filter ls si i}" by auto
  with m show ?case by auto
qed simp

text \<open>Reachability from the starting points over admitted nodes.\<close>

inductive reaches :: "(u32 \<Rightarrow> bool) \<Rightarrow> graph_store_t \<Rightarrow> u32 set \<Rightarrow> u32 \<Rightarrow> bool" for adm g init where
  reaches_init: "i \<in> init \<Longrightarrow> adm i \<Longrightarrow> reaches adm g init i"
| reaches_edge: "reaches adm g init i \<Longrightarrow> j \<in> set (adjacency g i) \<Longrightarrow> adm j \<Longrightarrow> reaches adm g init j"

inductive_cases reaches_cases: "reaches adm g init i"

lemma reaches_admitted: "reaches adm g init i \<Longrightarrow> adm i"
  by (erule reaches_cases)

definition search_closed :: "'v vamana_index_t \<Rightarrow> bool \<Rightarrow> u32 list \<Rightarrow> bool \<Rightarrow> u32 set \<Rightarrow> in_mem_query_scratch_t \<Rightarrow> bool" where
  "search_closed vi use_filter ls si init sc \<longleftrightarrow>
     {i \<in> init. admitted vi use_filter ls si i} \<subseteq> visited (fast_iterate vi) sc
     \<and> (\<forall>i \<in> visited (fast_iterate vi) sc. reaches (admitted vi use_filter ls si) (vi_graph vi) init i)
     \<and> (\<forall>n \<in> set (frontier (sc_best sc)). nb_expanded n \<longrightarrow>
          {j \<in> set (adjacency (vi_graph vi) (nb_id n)). admitted vi use_filter ls si j} \<subseteq> visited (fast_iterate vi) sc)"

lemma search_start_correct:
  assumes ready: "filter_ready vi use_filter" and ids: "\<forall>i \<in> set init_ids. unat i < internal_points vi"
    and fresh: "scratch_fresh vi sc" and l: "0 < l"
  shows "\<exists>s0. search_start vi qd l init_ids use_filter ls si sc = Inr s0 \<and> search_inv vi qd l s0
    \<and> (\<forall>n \<in> set (frontier (sc_best s0)). \<not> nb_expanded n)
    \<and> visited (fast_iterate vi) s0 = {i \<in> set init_ids. admitted vi use_filter ls si i}"
proof -
  note st = start_inv [OF fresh l, of qd]
  from init_points_correct [OF st [THEN conjunct1] ready ids, of ls si] st obtain s0 where
    "foldE (init_point vi qd use_filter ls si) init_ids (prepare_bitset vi (sc\<lparr>sc_best := queue_reserve l (sc_best sc)\<rparr>)) = Inr s0"
    "search_inv vi qd l s0" "\<forall>n \<in> set (frontier (sc_best s0)). \<not> nb_expanded n"
    "visited (fast_iterate vi) s0 = {i \<in> set init_ids. admitted vi use_filter ls si i}" by auto
  then show ?thesis using fresh by (simp add: search_start_def Let_def scratch_fresh_def)
qed

lemma iterate_correct:
  assumes g: "graph_ok (internal_points vi) (vi_graph vi)" and ready: "filter_ready vi use_filter"
    and ids: "\<forall>i \<in> set init_ids. unat i < internal_points vi" and fresh: "scratch_fresh vi sc" and l: "0 < l"
  shows "\<exists>sc' cmps. iterate_to_fixed_point vi qd l init_ids use_filter ls si sc = Some (Inr (sc', cmps))
    \<and> search_inv vi qd l sc' \<and> search_closed vi use_filter ls si (set init_ids) sc'
    \<and> \<not> has_unexpanded_node (sc_best sc')"
proof -
  let ?f = "fast_iterate vi" and ?adm = "admitted vi use_filter ls si" and ?g = "vi_graph vi" and ?I = "set init_ids"
  define P where "P = (\<lambda>r :: exn + in_mem_query_scratch_t \<times> u32. \<exists>sc cmps. r = Inr (sc, cmps) \<and> search_inv vi qd l sc \<and> search_closed vi use_filter ls si ?I sc)"
  define M where "M = (\<lambda>r. case r of Inl (_ :: exn) \<Rightarrow> 0 | Inr (sc, _ :: u32) \<Rightarrow> search_measure vi sc)"
  let ?b = search_continues and ?c = "search_round vi qd use_filter ls si"
  from search_start_correct [OF ready ids fresh l, of qd ls si] obtain s0 where
    s0: "search_start vi qd l init_ids use_filter ls si sc = Inr s0" "search_inv vi qd l s0"
      "\<forall>n \<in> set (frontier (sc_best s0)). \<not> nb_expanded n" "visited ?f s0 = {i \<in> ?I. ?adm i}" by blast
  have start: "bindE (search_start vi qd l init_ids use_filter ls si sc) (\<lambda>sc. Inr (sc, 0 :: u32)) = Inr (s0, 0)"
    using s0(1) by simp
  have P0: "P (Inr (s0, 0))"
    using s0(2-4) by (auto simp: P_def search_closed_def intro: reaches_init)
  have round: "P (?c r) \<and> M (?c r) < M r" if r: "P r" "?b r" for r
  proof -
    from r(1) obtain sc cmps where rr: "r = Inr (sc, cmps)" "search_inv vi qd l sc" "search_closed vi use_filter ls si ?I sc"
      by (auto simp: P_def)
    with r(2) have "has_unexpanded_node (sc_best sc)" by (simp add: search_continues_def)
    from expand_step_correct [OF rr(2) ready g this, of ls si] obtain n sc' where
      e: "expand_step vi ?g qd use_filter ls si sc = Inr sc'" "search_inv vi qd l sc'" "n \<in> visited ?f sc"
        "visited ?f sc' = visited ?f sc \<union> {j \<in> set (adjacency ?g n). ?adm j}" "search_measure vi sc' < search_measure vi sc"
        "\<forall>m \<in> set (frontier (sc_best sc')). nb_expanded m \<longrightarrow> nb_id m = n \<or> m \<in> set (frontier (sc_best sc))" by blast
    have "search_closed vi use_filter ls si ?I sc'"
      using rr(3) e(3,6) unfolding search_closed_def e(4) by (auto intro: reaches_edge)
    with e(1,2,5) rr(1) show ?thesis by (simp add: P_def M_def search_round_def)
  qed
  have "\<exists>t. while_option ?b ?c (Inr (s0, 0)) = Some t"
    by (rule measure_while_option_Some [where P = P and f = M]) (use round P0 in auto)
  then obtain t where t: "while_option ?b ?c (Inr (s0, 0)) = Some t" ..
  have "P t" by (rule while_option_rule [where P = P and b = ?b and c = ?c, OF _ t]) (use round P0 in auto)
  with while_option_stop [OF t] t start show ?thesis
    by (auto simp: P_def iterate_to_fixed_point_def search_continues_def)
qed

text \<open>What the candidates left in the queue are.\<close>

definition fixed_point :: "(u32 \<Rightarrow> bool) \<Rightarrow> graph_store_t \<Rightarrow> (u32 \<Rightarrow> real) \<Rightarrow> nat \<Rightarrow> u32 set \<Rightarrow> u32 list \<Rightarrow> bool" where
  "fixed_point adm g qd l init C \<longleftrightarrow>
     length C \<le> l \<and> sorted_wrt (<) (map (query_key qd) C) \<and> (\<forall>c \<in> set C. reaches adm g init c)
     \<and> (\<forall>i. adm i \<and> (i \<in> init \<or> (\<exists>c \<in> set C. i \<in> set (adjacency g c))) \<longrightarrow>
          i \<in> set C \<or> (length C = l \<and> (\<forall>c \<in> set C. query_key qd c < query_key qd i)))"

lemma take_sorted_complete:
  assumes "finite K" "k \<in> K" "k \<notin> set (take l (sorted_list_of_set K))"
  shows "length (take l (sorted_list_of_set K)) = l \<and> (\<forall>c \<in> set (take l (sorted_list_of_set K)). c < (k :: 'a::linorder))"
proof -
  let ?xs = "sorted_list_of_set K"
  have k: "k \<in> set (drop l ?xs)"
    using assms by (metis Un_iff append_take_drop_id set_append set_sorted_list_of_set)
  then have "l < length ?xs" by (metis drop_all leI length_pos_if_in_set less_numeral_extra(3) list.size(3))
  moreover have "sorted_wrt (<) (take l ?xs @ drop l ?xs)" by simp
  then have "\<forall>c \<in> set (take l ?xs). \<forall>d \<in> set (drop l ?xs). c < d" unfolding sorted_wrt_append by blast
  ultimately show ?thesis using k by auto
qed

lemma fixed_point_reached:
  assumes inv: "search_inv vi qd l sc" and closed: "search_closed vi use_filter ls si init sc"
    and stop: "\<not> has_unexpanded_node (sc_best sc)"
  shows "fixed_point (admitted vi use_filter ls si) (vi_graph vi) qd l init (map nb_id (frontier (sc_best sc)))
    \<and> frontier (sc_best sc) = map (\<lambda>i. (new_neighbor i (qd i))\<lparr>nb_expanded := True\<rparr>) (map nb_id (frontier (sc_best sc)))"
proof -
  let ?F = "frontier (sc_best sc)" and ?V = "visited (fast_iterate vi) sc"
  note o = inv [unfolded search_inv_def]
  have q: "queue_ok (sc_best sc)" "map nb_key ?F = nearest qd l ?V" "q_capacity (sc_best sc) = l" using o by simp_all
  have fv: "nb_id n \<in> ?V" "nb_distance n = qd (nb_id n)" if "n \<in> set ?F" for n
    using frontier_visited [OF q(2) that] by simp_all
  have ex: "\<forall>n \<in> set ?F. nb_expanded n" by (rule no_unexpanded [OF q(1) stop])
  have keys: "map (query_key qd) (map nb_id ?F) = nearest qd l ?V"
    unfolding q(2) [symmetric] by (auto simp: query_key_def nb_key_def fv)
  have "i \<in> set (map nb_id ?F) \<or> (length (map nb_id ?F) = l \<and> (\<forall>c \<in> set (map nb_id ?F). query_key qd c < query_key qd i))"
    if "i \<in> ?V" for i
  proof (cases "query_key qd i \<in> set (nearest qd l ?V)")
    case True
    then have "query_key qd i \<in> query_key qd ` set (map nb_id ?F)" unfolding keys [symmetric] by (simp add: image_image)
    then show ?thesis by (auto simp: query_key_def)
  next
    case False
    from take_sorted_complete [OF _ imageI [OF that], of "query_key qd" l] False
    have "length (nearest qd l ?V) = l" "\<forall>c \<in> set (nearest qd l ?V). c < query_key qd i" by (simp_all add: nearest_def)
    then show ?thesis unfolding keys [symmetric] by simp
  qed
  moreover have "i \<in> ?V" if "admitted vi use_filter ls si i" "i \<in> init \<or> (\<exists>c \<in> nb_id ` set ?F. i \<in> set (adjacency (vi_graph vi) c))" for i
    using closed that ex unfolding search_closed_def by blast
  moreover have "\<forall>c \<in> set (map nb_id ?F). reaches (admitted vi use_filter ls si) (vi_graph vi) init c"
    using closed fv(1) by (auto simp: search_closed_def)
  moreover have "sorted_wrt (<) (map (query_key qd) (map nb_id ?F))"
    using q(1) unfolding keys q(2) [symmetric] by (simp add: queue_ok_def)
  moreover have "length (map nb_id ?F) \<le> l" using q(1,3) length_frontier [OF q(1)] by (simp add: queue_ok_def)
  moreover have "?F = map (\<lambda>i. (new_neighbor i (qd i))\<lparr>nb_expanded := True\<rparr>) (map nb_id ?F)"
    by (rule nth_equalityI) (use ex fv(2) in \<open>auto simp: new_neighbor_def intro!: neighbor_t.equality\<close>)
  ultimately show ?thesis unfolding fixed_point_def by auto
qed

definition reported_distance :: "'v vamana_index_t \<Rightarrow> real \<Rightarrow> real" where
  "reported_distance vi d = (if vi_metric vi = INNER_PRODUCT then - d else d)"

lemma copy_results_take:
  "pos < k \<Longrightarrow> copy_results vi k pos ns =
     take (k - pos) (map (\<lambda>n. (nb_id n, reported_distance vi (nb_distance n))) (filter (\<lambda>n. unat (nb_id n) < vi_max_points vi) ns))"
  by (induction ns arbitrary: pos)
    (auto simp: Let_def reported_distance_def take_Cons' numeral_eq_Suc)

lemma search_with_correct:
  assumes g: "graph_ok (internal_points vi) (vi_graph vi)" and ready: "filter_ready vi use_filter"
    and ids: "\<forall>i \<in> set init_ids. unat i < internal_points vi" and fresh: "scratch_fresh vi sc" and k: "0 < k" "k \<le> l"
  shows "\<exists>C cmps. search_with vi qd k l init_ids use_filter ls sc =
      Some (Inr (take k (map (\<lambda>i. (i, reported_distance vi (qd i))) (filter (\<lambda>i. unat i < vi_max_points vi) C)), cmps))
    \<and> fixed_point (admitted vi use_filter ls True) (vi_graph vi) qd l (set init_ids) C"
proof -
  let ?sc = "if l > sc_l sc then resize_for_new_l l sc else sc"
  have "scratch_fresh vi ?sc" using fresh by (auto simp: scratch_fresh_def resize_for_new_l_def queue_reserve_def)
  from iterate_correct [OF g ready ids this, of l qd ls True] k obtain sc' cmps where
    r: "iterate_to_fixed_point vi qd l init_ids use_filter ls True ?sc = Some (Inr (sc', cmps))"
      "search_inv vi qd l sc'" "search_closed vi use_filter ls True (set init_ids) sc'" "\<not> has_unexpanded_node (sc_best sc')"
    by auto
  define C where "C = map nb_id (frontier (sc_best sc'))"
  from fixed_point_reached [OF r(2-4)] have fp: "fixed_point (admitted vi use_filter ls True) (vi_graph vi) qd l (set init_ids) C"
    "frontier (sc_best sc') = map (\<lambda>i. (new_neighbor i (qd i))\<lparr>nb_expanded := True\<rparr>) C" by (simp_all add: C_def)
  have "copy_results vi k 0 (frontier (sc_best sc'))
      = take k (map (\<lambda>i. (i, reported_distance vi (qd i))) (filter (\<lambda>i. unat i < vi_max_points vi) C))"
    unfolding copy_results_take [OF k(1)] fp(2) by (simp add: filter_map comp_def)
  with r(1) fp(1) show ?thesis by (intro exI [of _ C] exI [of _ cmps]) (simp add: search_with_def)
qed

lemma init_ids_range:
  assumes "unat (vi_start vi) < internal_points vi" "internal_points vi \<le> 4294967296"
  shows "\<forall>i \<in> set (get_init_ids vi). unat i < internal_points vi"
  using assms by (auto simp: get_init_ids_def frozen_locations_def unat_of_index)

lemma admitted_unfiltered: "admitted vi False ls si = (\<lambda>_. True)"
  by (simp add: admitted_def passes_filter_def fun_eq_iff)

text \<open>Three points in a row, searched from the first one.\<close>

definition row_index :: "unit vamana_index_t" where
  "row_index =
     (case new_vamana_index \<lparr>cf_metric = L2, cf_max_points = 3, cf_num_frozen = 0, cf_dynamic = False, cf_enable_tags = False,
        cf_filtered = True, cf_pq_dist = False, cf_conc_consolidate = False, cf_queue_size = 4, cf_range = 2, cf_max_c = 4,
        cf_alpha = 1, cf_filter_queue_size = 4, cf_saturate = False\<rparr> [(), (), ()]
        ((new_graph_store 3 2)\<lparr>gs_graph := [[1], [0, 2], [1]]\<rparr>) of
      Inr vi \<Rightarrow> vi\<lparr>vi_start := 0, vi_nd := 3, vi_location_to_labels := [[5], [5, 7], [5]], vi_label_to_start := [(5, 0), (7, 1)]\<rparr>
    | Inl _ \<Rightarrow> undefined)"

definition row_distance :: "u32 \<Rightarrow> real" where
  "row_distance i = (if i = 0 then 4 else if i = 1 then 1 else 0)"

definition row_scratch :: in_mem_query_scratch_t where
  "row_scratch = \<lparr>sc_l = 0, sc_pool = [], sc_best = new_queue 0, sc_rs = {}, sc_bs = [], sc_ids = [], sc_dists = []\<rparr>"

lemma row_facts:
  "internal_points row_index = 3" "vi_max_points row_index = 3" "vi_start row_index = 0" "gs_graph (vi_graph row_index) = [[1], [0, 2], [1]]"
  "vi_location_to_labels row_index = [[5], [5, 7], [5]]" "vi_label_to_start row_index = [(5, 0), (7, 1)]"
  "\<not> vi_use_universal row_index" "vi_num_frozen row_index = 0"
  by (simp_all add: row_index_def new_vamana_index_def Let_def)

lemma below_three: "unat (i :: u32) < 3 \<longleftrightarrow> i \<in> {0, 1, 2}"
proof
  assume "unat i < 3"
  then have "unat i = 0 \<or> unat i = 1 \<or> unat i = 2" by linarith
  then show "i \<in> {0, 1, 2}" by (auto simp: word_unat_eq_iff)
qed auto

lemma row_graph_ok: "graph_ok 3 (vi_graph row_index)"
  by (auto simp: graph_ok_def row_facts below_three list_ok_def)

lemma row_scratch_fresh: "scratch_fresh vi row_scratch"
  by (simp add: scratch_fresh_def row_scratch_def new_queue_def)

text \<open>C5: \<open>search\<close> always ends.  On a graph without duplicate edges, self loops or edges out of range it
  returns the first \<open>K\<close> non-frozen of a list \<open>C\<close> of at most \<open>L\<close> candidates in order of distance (then id), each
  reachable from the starting points, and \<open>C\<close> is a local optimum: a starting point or an out-neighbour of a candidate
  that is not itself in \<open>C\<close> is farther from the query than all \<open>L\<close> of them.\<close>

theorem search_reaches_fixed_point:
  assumes "graph_ok (internal_points vi) (vi_graph vi)" "unat (vi_start vi) < internal_points vi"
    "internal_points vi \<le> 4294967296" "scratch_fresh vi sc" "0 < k" "k \<le> l"
  shows "\<exists>C cmps. search vi qd k l sc =
      Some (Inr (take k (map (\<lambda>i. (i, reported_distance vi (qd i))) (filter (\<lambda>i. unat i < vi_max_points vi) C)), cmps))
    \<and> fixed_point (\<lambda>_. True) (vi_graph vi) qd l (set (get_init_ids vi)) C"
  using search_with_correct [of vi False "get_init_ids vi" sc k l qd "[]"] init_ids_range [OF assms(2,3)] assms
  by (simp add: search_def admitted_unfiltered filter_ready_def)

lemma search_reaches_fixed_point_witness:
  "\<exists>C cmps. search row_index row_distance 2 2 row_scratch =
      Some (Inr (take 2 (map (\<lambda>i. (i, reported_distance row_index (row_distance i))) (filter (\<lambda>i. unat i < 3) C)), cmps))
    \<and> fixed_point (\<lambda>_. True) (vi_graph row_index) row_distance 2 {0} C"
  using search_reaches_fixed_point [of row_index row_scratch 2 2 row_distance] row_graph_ok row_scratch_fresh [of row_index]
  by (simp add: row_facts get_init_ids_def frozen_locations_def)

definition has_label :: "'v vamana_index_t \<Rightarrow> u32 \<Rightarrow> u32 \<Rightarrow> bool" where
  "has_label vi label i \<longleftrightarrow>
     unat i < length (vi_location_to_labels vi)
     \<and> (label \<in> set (vi_location_to_labels vi ! unat i)
        \<or> (vi_use_universal vi \<and> vi_universal_label vi \<in> set (vi_location_to_labels vi ! unat i)))"

lemma admitted_label:
  assumes "\<forall>ls \<in> set (vi_location_to_labels vi). sorted ls"
  shows "admitted vi True [label] True = has_label vi label"
proof
  fix i
  show "admitted vi True [label] True i = has_label vi label i"
  proof (cases "unat i < length (vi_location_to_labels vi)")
    case True
    with assms have "sorted (vi_location_to_labels vi ! unat i)" by auto
    then show ?thesis using True common_label_iff [of "[label]" "vi_location_to_labels vi ! unat i"]
      by (auto simp: admitted_def passes_filter_def detect_common_filters_def has_label_def Let_def)
  qed (simp add: admitted_def passes_filter_def detect_common_filters_def has_label_def)
qed

text \<open>C16: \<open>search_with_filters\<close> returns only points that carry the label (or the universal one), the
  local optimum of the subgraph of those points from the starting points and the start of the label; an unknown label
  and \<open>K > L\<close> are errors.\<close>

theorem filtered_search_correct:
  assumes "graph_ok (internal_points vi) (vi_graph vi)" "unat (vi_start vi) < internal_points vi"
    "internal_points vi \<le> 4294967296" "scratch_fresh vi sc" "0 < k"
    "internal_points vi \<le> length (vi_location_to_labels vi)" "\<forall>ls \<in> set (vi_location_to_labels vi). sorted ls"
    "\<forall>s \<in> snd ` set (vi_label_to_start vi). unat s < internal_points vi"
  shows "if k > l \<or> map_of (vi_label_to_start vi) label = None
    then search_with_filters vi qd label k l sc = Some (Inl Diskann_exception)
    else \<exists>C cmps start. map_of (vi_label_to_start vi) label = Some start
      \<and> search_with_filters vi qd label k l sc =
        Some (Inr (take k (map (\<lambda>i. (i, reported_distance vi (qd i))) (filter (\<lambda>i. unat i < vi_max_points vi) C)), cmps))
      \<and> fixed_point (has_label vi label) (vi_graph vi) qd l (insert start (set (get_init_ids vi))) C
      \<and> (\<forall>c \<in> set C. has_label vi label c)"
proof (cases "k > l \<or> map_of (vi_label_to_start vi) label = None")
  case False
  then obtain start where start: "map_of (vi_label_to_start vi) label = Some start" by auto
  have "(label, start) \<in> set (vi_label_to_start vi)" using start by (rule map_of_SomeD)
  with assms(8) have "unat start < internal_points vi" by force
  with init_ids_range [OF assms(2,3)] have ids: "\<forall>i \<in> set (get_init_ids vi @ [start]). unat i < internal_points vi" by auto
  have ready: "filter_ready vi True" using assms(6) by (simp add: filter_ready_def)
  from search_with_correct [OF assms(1) ready ids assms(4,5), of l qd "[label]"] False obtain C cmps where
    c: "search_with vi qd k l (get_init_ids vi @ [start]) True [label] sc =
      Some (Inr (take k (map (\<lambda>i. (i, reported_distance vi (qd i))) (filter (\<lambda>i. unat i < vi_max_points vi) C)), cmps))"
    "fixed_point (has_label vi label) (vi_graph vi) qd l (insert start (set (get_init_ids vi))) C"
    unfolding admitted_label [OF assms(7)] by auto
  have "has_label vi label c" if "c \<in> set C" for c
    using c(2) that by (auto simp: fixed_point_def intro: reaches_admitted)
  with c start False show ?thesis by (auto simp: search_with_filters_def)
qed (auto simp: search_with_filters_def)

lemma filtered_search_correct_witness:
  "\<exists>C cmps. search_with_filters row_index row_distance 7 1 2 row_scratch =
      Some (Inr (take 1 (map (\<lambda>i. (i, reported_distance row_index (row_distance i))) (filter (\<lambda>i. unat i < 3) C)), cmps))
    \<and> fixed_point (has_label row_index 7) (vi_graph row_index) row_distance 2 {1, 0} C \<and> (\<forall>c \<in> set C. has_label row_index 7 c)"
proof -
  have h: "graph_ok (internal_points row_index) (vi_graph row_index)" "unat (vi_start row_index) < internal_points row_index"
    "internal_points row_index \<le> 4294967296" "internal_points row_index \<le> length (vi_location_to_labels row_index)"
    "\<forall>ls \<in> set (vi_location_to_labels row_index). sorted ls"
    "\<forall>s \<in> snd ` set (vi_label_to_start row_index). unat s < internal_points row_index"
    using row_graph_ok by (simp_all add: row_facts)
  have ids: "set (get_init_ids row_index) = {0}" by (simp add: row_facts get_init_ids_def frozen_locations_def)
  have m: "map_of (vi_label_to_start row_index) 7 = Some 1" by (simp add: row_facts)
  have "\<not> (2 < (1 :: nat) \<or> map_of (vi_label_to_start row_index) 7 = None)" by (simp add: m)
  with filtered_search_correct [OF h(1-3) row_scratch_fresh [of row_index] zero_less_one h(4-6), of 2 7 row_distance] m
  show ?thesis unfolding ids row_facts(2) by (simp only: if_False if_True option.inject not_False_eq_True) blast
qed

end
