(* ===== verification/Vamana_Prune.thy ===== *)
theory Vamana_Prune
  imports Vamana_Graph "HOL-Library.While_Combinator"
begin

text \<open>
  Robust pruning: \<open>occlude_list_impl\<close> and \<open>prune_neighbors_impl\<close> of src/index/vamana_index.cc, with the events the
  RCNI observer receives (\<open>update_rcni_causal_witness\<close> of src/index/rcni.cc).  \<open>dd i j\<close> is
  \<open>data_store_->get_distance(i, j)\<close>; floats are reals and \<open>rnd\<close> rounds the result of each float operation.
\<close>

subsection \<open>The model\<close>

definition flt_max :: real where
  "flt_max = (2 - 1 / 2 ^ 23) * 2 ^ 127"

definition alpha_growth :: real where
  "alpha_growth = 5033165 / 4194304"

definition eps_offset :: real where
  "eps_offset = 5368709 / 536870912"

record rcni_causal_witness_t =
  cw_id :: "u32 option"
  cw_distance :: real
  cw_factor :: real

record rcni_prune_event_t =
  ev_source :: u32
  ev_witness :: u32
  ev_victim :: u32
  ev_source_distance :: real
  ev_witness_distance :: real
  ev_alternative :: "(u32 \<times> real) option"

definition no_witness :: rcni_causal_witness_t where
  "no_witness = \<lparr>cw_id = None, cw_distance = 0, cw_factor = 0\<rparr>"

definition update_rcni_causal_witness :: "u32 \<Rightarrow> real \<Rightarrow> real \<Rightarrow> rcni_causal_witness_t \<Rightarrow> rcni_causal_witness_t" where
  "update_rcni_causal_witness witness_id distance factor w =
     (if (case cw_id w of None \<Rightarrow> True
          | Some i \<Rightarrow> factor > cw_factor w \<or> (factor = cw_factor w \<and> witness_id < i))
      then \<lparr>cw_id = Some witness_id, cw_distance = distance, cw_factor = factor\<rparr> else w)"

text \<open>With labels, a candidate may be occluded only by one that has all its labels; \<open>None\<close> is the early \<open>continue\<close>.\<close>

definition prune_allowed :: "'v vamana_index_t \<Rightarrow> u32 \<Rightarrow> u32 \<Rightarrow> exn + bool option" where
  "prune_allowed vi a b =
     (let n = length (vi_location_to_labels vi) in
      if \<not> vi_filtered vi then Inr (Some True)
      else if n < unat b \<or> n < unat a then Inr None
      else if n \<le> unat b \<or> n \<le> unat a then Inl Undefined_access
      else Inr (Some (set (vi_location_to_labels vi ! unat b) \<subseteq> set (vi_location_to_labels vi ! unat a))))"

record prune_state_t =
  pr_result :: "u32 list"
  pr_factor :: "real list"
  pr_witness :: "rcni_causal_witness_t list"

text \<open>One round of the innermost loop: candidate \<open>s\<close> against the later candidate \<open>t\<close>.\<close>

definition candidate_factor :: "(u32 \<Rightarrow> u32 \<Rightarrow> real) \<Rightarrow> (real \<Rightarrow> real) \<Rightarrow> neighbor_t list \<Rightarrow> nat \<Rightarrow> nat \<Rightarrow> real" where
  "candidate_factor dd rnd pool s t =
     (let djk = dd (nb_id (pool ! t)) (nb_id (pool ! s))
      in if djk = 0 then flt_max else rnd (nb_distance (pool ! t) / djk))"

definition occlude_one :: "'v vamana_index_t \<Rightarrow> (u32 \<Rightarrow> u32 \<Rightarrow> real) \<Rightarrow> (real \<Rightarrow> real) \<Rightarrow> bool \<Rightarrow> neighbor_t list \<Rightarrow> real \<Rightarrow> real \<Rightarrow> nat
    \<Rightarrow> nat \<Rightarrow> prune_state_t \<Rightarrow> exn + prune_state_t" where
  "occlude_one vi dd rnd observe_rcni pool alpha cur_alpha s t st =
     (if pr_factor st ! t > alpha then Inr st
      else bindE (prune_allowed vi (nb_id (pool ! s)) (nb_id (pool ! t))) (\<lambda>allowed.
        if allowed \<noteq> Some True then Inr st
        else
          let djk = dd (nb_id (pool ! t)) (nb_id (pool ! s)) in
          if vi_metric vi = L2 \<or> vi_metric vi = COSINE then
            let factor = candidate_factor dd rnd pool s t in
            Inr (st\<lparr>pr_witness := (if observe_rcni
                      then (pr_witness st)[t := update_rcni_causal_witness (nb_id (pool ! s)) djk factor (pr_witness st ! t)]
                      else pr_witness st),
                    pr_factor := (pr_factor st)[t := max (pr_factor st ! t) factor]\<rparr>)
          else if vi_metric vi = INNER_PRODUCT then
            (let x = - nb_distance (pool ! t); y = - djk; eps = rnd (cur_alpha + eps_offset) in
             Inr (if y > rnd (cur_alpha * x) then st\<lparr>pr_factor := (pr_factor st)[t := max (pr_factor st ! t) eps]\<rparr> else st))
          else Inr st))"

text \<open>One candidate of a round; the loop over the pool ends when \<open>degree\<close> are selected.\<close>

definition occlude_candidate :: "'v vamana_index_t \<Rightarrow> (u32 \<Rightarrow> u32 \<Rightarrow> real) \<Rightarrow> (real \<Rightarrow> real) \<Rightarrow> bool \<Rightarrow> u32 \<Rightarrow> u32 set \<Rightarrow> nat \<Rightarrow> neighbor_t list \<Rightarrow> real
    \<Rightarrow> real \<Rightarrow> nat \<Rightarrow> prune_state_t \<Rightarrow> exn + prune_state_t" where
  "occlude_candidate vi dd rnd observe_rcni location deleted degree pool alpha cur_alpha s st =
     (if length (pr_result st) \<ge> degree then Inr st
      else if pr_factor st ! s > cur_alpha then Inr st
      else
        let i = nb_id (pool ! s);
            st = st\<lparr>pr_factor := (pr_factor st)[s := flt_max],
                   pr_result := (if i \<notin> deleted \<and> i \<noteq> location then pr_result st @ [i] else pr_result st)\<rparr>
        in foldE (occlude_one vi dd rnd observe_rcni pool alpha cur_alpha s) [s + 1..<length pool] st)"

definition prune_continues :: "real \<Rightarrow> nat \<Rightarrow> exn + (real \<times> prune_state_t) \<Rightarrow> bool" where
  "prune_continues alpha degree r =
     (case r of Inl _ \<Rightarrow> False | Inr (cur_alpha, st) \<Rightarrow> cur_alpha \<le> alpha \<and> length (pr_result st) < degree)"

definition prune_round :: "'v vamana_index_t \<Rightarrow> (u32 \<Rightarrow> u32 \<Rightarrow> real) \<Rightarrow> (real \<Rightarrow> real) \<Rightarrow> bool \<Rightarrow> u32 \<Rightarrow> u32 set \<Rightarrow> nat \<Rightarrow> neighbor_t list \<Rightarrow> real
    \<Rightarrow> exn + (real \<times> prune_state_t) \<Rightarrow> exn + (real \<times> prune_state_t)" where
  "prune_round vi dd rnd observe_rcni location deleted degree pool alpha r =
     bindE r (\<lambda>(cur_alpha, st).
     bindE (foldE (occlude_candidate vi dd rnd observe_rcni location deleted degree pool alpha cur_alpha) [0..<length pool] st) (\<lambda>st.
       Inr (rnd (cur_alpha * alpha_growth), st)))"

definition causal_event :: "u32 \<Rightarrow> neighbor_t \<Rightarrow> rcni_causal_witness_t \<Rightarrow> rcni_prune_event_t" where
  "causal_event location candidate w =
     \<lparr>ev_source = location, ev_witness = the (cw_id w), ev_victim = nb_id candidate, ev_source_distance = nb_distance candidate,
      ev_witness_distance = cw_distance w, ev_alternative = None\<rparr>"

definition causal_events :: "u32 \<Rightarrow> neighbor_t list \<Rightarrow> real \<Rightarrow> prune_state_t \<Rightarrow> rcni_prune_event_t list" where
  "causal_events location pool alpha st =
     map (\<lambda>(candidate, w). causal_event location candidate w)
       (filter (\<lambda>(candidate, w). cw_id w \<noteq> None \<and> \<not> cw_factor w \<le> alpha \<and> nb_id candidate \<notin> set (pr_result st))
         (zip pool (pr_witness st)))"

text \<open>
  \<open>occlude_list_impl\<close> on an empty \<open>result\<close>: the selected identifiers, the pool it truncated and the events it appended.
  A null \<open>delete_set_ptr\<close> is the empty set.
\<close>

definition occlude_list :: "'v vamana_index_t \<Rightarrow> (u32 \<Rightarrow> u32 \<Rightarrow> real) \<Rightarrow> (real \<Rightarrow> real) \<Rightarrow> bool \<Rightarrow> u32 \<Rightarrow> neighbor_t list \<Rightarrow> real \<Rightarrow> nat \<Rightarrow> nat
    \<Rightarrow> u32 set \<Rightarrow> (exn + (u32 list \<times> neighbor_t list \<times> rcni_prune_event_t list)) option" where
  "occlude_list vi dd rnd observe_rcni location pool alpha degree maxc deleted =
     (if pool = [] then Some (Inr ([], [], []))
      else
        let pool = take maxc pool;
            st = \<lparr>pr_result = [], pr_factor = replicate (length pool) 0,
                  pr_witness = (if observe_rcni then replicate (length pool) no_witness else [])\<rparr>
        in map_option (\<lambda>r. bindE r (\<lambda>(_, st). Inr (pr_result st, pool, causal_events location pool alpha st)))
             (while_option (prune_continues alpha degree)
               (prune_round vi dd rnd observe_rcni location deleted degree pool alpha) (Inr (1, st))))"

text \<open>The rest of \<open>prune_neighbors_impl\<close>: saturation with the nearest, and the alternatives of the remaining events.\<close>

fun saturate :: "u32 \<Rightarrow> nat \<Rightarrow> neighbor_t list \<Rightarrow> u32 list \<Rightarrow> u32 list" where
  "saturate location max_degree [] pruned_list = pruned_list"
| "saturate location max_degree (node # pool) pruned_list =
     (if length pruned_list \<ge> max_degree then pruned_list
      else saturate location max_degree pool
        (if nb_id node \<notin> set pruned_list \<and> nb_id node \<noteq> location then pruned_list @ [nb_id node] else pruned_list))"

definition better_alternative :: "(u32 \<Rightarrow> u32 \<Rightarrow> real) \<Rightarrow> rcni_prune_event_t \<Rightarrow> u32 \<Rightarrow> (u32 \<times> real) option \<Rightarrow> (u32 \<times> real) option" where
  "better_alternative dd ev neighbor_id alternative =
     (if neighbor_id = ev_witness ev then alternative
      else
        let d = dd (ev_victim ev) neighbor_id in
        (case alternative of
           None \<Rightarrow> Some (neighbor_id, d)
         | Some (i, e) \<Rightarrow> if d < e \<or> (d = e \<and> neighbor_id < i) then Some (neighbor_id, d) else alternative))"

definition with_alternative :: "(u32 \<Rightarrow> u32 \<Rightarrow> real) \<Rightarrow> u32 list \<Rightarrow> rcni_prune_event_t \<Rightarrow> rcni_prune_event_t" where
  "with_alternative dd pruned_list ev = ev\<lparr>ev_alternative := fold (better_alternative dd ev) pruned_list (ev_alternative ev)\<rparr>"

definition final_events :: "(u32 \<Rightarrow> u32 \<Rightarrow> real) \<Rightarrow> u32 list \<Rightarrow> rcni_prune_event_t list \<Rightarrow> rcni_prune_event_t list" where
  "final_events dd pruned_list events =
     map (with_alternative dd pruned_list) (filter (\<lambda>ev. ev_victim ev \<notin> set pruned_list) events)"

definition prune_neighbors :: "'v vamana_index_t \<Rightarrow> (u32 \<Rightarrow> u32 \<Rightarrow> real) \<Rightarrow> (real \<Rightarrow> real) \<Rightarrow> bool \<Rightarrow> u32 \<Rightarrow> neighbor_t list \<Rightarrow> nat \<Rightarrow> nat \<Rightarrow> real
    \<Rightarrow> (exn + (u32 list \<times> rcni_prune_event_t list)) option" where
  "prune_neighbors vi dd rnd observe_rcni location pool max_degree max_candidate_size alpha =
     (if pool = [] then Some (Inr ([], []))
      else
        let pool = sort_key nb_key (if vi_pq_dist vi then map (\<lambda>ngh. ngh\<lparr>nb_distance := dd (nb_id ngh) location\<rparr>) pool else pool)
        in map_option (\<lambda>r. bindE r (\<lambda>(pruned_list, pool, events).
             let pruned_list = (if vi_saturate vi \<and> alpha > 1 then saturate location max_degree pool pruned_list else pruned_list)
             in Inr (pruned_list, if observe_rcni then final_events dd pruned_list events else [])))
           (occlude_list vi dd rnd observe_rcni location pool alpha max_degree max_candidate_size {}))"

end
