(* ===== verification/Vamana_Prune_Correct.thy ===== *)
theory Vamana_Prune_Correct
  imports Vamana_Prune
begin

text \<open>
  Correctness of robust pruning.  For every metric: the selection is a set of candidates without duplicates, without the
  node itself and without deleted nodes, of at most the degree, and the loop ends.  For the L2 and cosine metrics: the
  \<open>alpha\<close> rule of the DiskANN graph, and the RCNI events name a selected candidate that occludes the victim.
\<close>

definition labels_ready :: "'v vamana_index_t \<Rightarrow> neighbor_t list \<Rightarrow> bool" where
  "labels_ready vi pool \<longleftrightarrow> (vi_filtered vi \<longrightarrow> (\<forall>n \<in> set pool. unat (nb_id n) < length (vi_location_to_labels vi)))"

lemma prune_allowed_ready:
  "labels_ready vi pool \<Longrightarrow> a \<in> nb_id ` set pool \<Longrightarrow> b \<in> nb_id ` set pool \<Longrightarrow>
     prune_allowed vi a b = Inr (Some (vi_filtered vi \<longrightarrow>
       set (vi_location_to_labels vi ! unat b) \<subseteq> set (vi_location_to_labels vi ! unat a)))"
  by (auto simp: prune_allowed_def labels_ready_def Let_def)

subsection \<open>Every metric\<close>

lemma occlude_one_total:
  assumes "labels_ready vi pool" "s < length pool" "t < length pool"
  shows "\<exists>st'. occlude_one vi dd rnd observe_rcni pool alpha c s t st = Inr st' \<and> pr_result st' = pr_result st
    \<and> length (pr_factor st') = length (pr_factor st) \<and> length (pr_witness st') = length (pr_witness st)
    \<and> (\<forall>j < length (pr_factor st). (j \<noteq> t \<or> pr_factor st ! j > alpha) \<longrightarrow> pr_factor st' ! j = pr_factor st ! j)"
  using prune_allowed_ready [OF assms(1), of "nb_id (pool ! s)" "nb_id (pool ! t)"] assms(2,3)
  by (auto simp: occlude_one_def Let_def)

lemma occlude_fold_total:
  assumes "labels_ready vi pool" "s < length pool" "set ts \<subseteq> {..<length pool}" "s \<notin> set ts"
  shows "\<exists>st'. foldE (occlude_one vi dd rnd observe_rcni pool alpha c s) ts st = Inr st' \<and> pr_result st' = pr_result st
    \<and> length (pr_factor st') = length (pr_factor st) \<and> length (pr_witness st') = length (pr_witness st)
    \<and> (\<forall>j < length (pr_factor st). (j \<notin> set ts \<or> pr_factor st ! j > alpha) \<longrightarrow> pr_factor st' ! j = pr_factor st ! j)"
  using assms(3,4)
proof (induction ts arbitrary: st)
  case (Cons t ts)
  from occlude_one_total [OF assms(1,2), of t dd rnd observe_rcni alpha c st] Cons.prems obtain sm where
    m: "occlude_one vi dd rnd observe_rcni pool alpha c s t st = Inr sm" "pr_result sm = pr_result st"
      "length (pr_factor sm) = length (pr_factor st)" "length (pr_witness sm) = length (pr_witness st)"
      "\<forall>j < length (pr_factor st). (j \<noteq> t \<or> pr_factor st ! j > alpha) \<longrightarrow> pr_factor sm ! j = pr_factor st ! j" by auto
  from Cons.IH [of sm] Cons.prems obtain st' where
    "foldE (occlude_one vi dd rnd observe_rcni pool alpha c s) ts sm = Inr st'" "pr_result st' = pr_result sm"
    "length (pr_factor st') = length (pr_factor sm)" "length (pr_witness st') = length (pr_witness sm)"
    "\<forall>j < length (pr_factor sm). (j \<notin> set ts \<or> pr_factor sm ! j > alpha) \<longrightarrow> pr_factor st' ! j = pr_factor sm ! j" by auto
  with m show ?case by (intro exI [of _ st']) auto
qed simp

definition selection_ok :: "neighbor_t list \<Rightarrow> u32 \<Rightarrow> u32 set \<Rightarrow> nat \<Rightarrow> u32 list \<Rightarrow> bool" where
  "selection_ok pool location deleted degree result \<longleftrightarrow>
     distinct result \<and> length result \<le> degree \<and> set result \<subseteq> nb_id ` set pool - insert location deleted"

definition prune_safe :: "neighbor_t list \<Rightarrow> u32 \<Rightarrow> u32 set \<Rightarrow> nat \<Rightarrow> prune_state_t \<Rightarrow> bool" where
  "prune_safe pool location deleted degree st \<longleftrightarrow>
     length (pr_factor st) = length pool \<and> selection_ok pool location deleted degree (pr_result st)
     \<and> (\<forall>t < length pool. nb_id (pool ! t) \<in> set (pr_result st) \<longrightarrow> pr_factor st ! t = flt_max)"

lemma occlude_candidate_safe:
  assumes labels: "labels_ready vi pool" and s: "s < length pool" and ids: "distinct (map nb_id pool)"
    and alpha: "alpha < flt_max" "c \<le> alpha" and safe: "prune_safe pool location deleted degree st"
  shows "\<exists>st'. occlude_candidate vi dd rnd observe_rcni location deleted degree pool alpha c s st = Inr st'
    \<and> prune_safe pool location deleted degree st' \<and> length (pr_result st) \<le> length (pr_result st')"
proof (cases "length (pr_result st) \<ge> degree \<or> pr_factor st ! s > c")
  case True
  then have "occlude_candidate vi dd rnd observe_rcni location deleted degree pool alpha c s st = Inr st"
    by (auto simp: occlude_candidate_def)
  with safe show ?thesis by simp
next
  case False
  let ?i = "nb_id (pool ! s)"
  let ?sm = "st\<lparr>pr_factor := (pr_factor st)[s := flt_max],
      pr_result := (if ?i \<notin> deleted \<and> ?i \<noteq> location then pr_result st @ [?i] else pr_result st)\<rparr>"
  note o = safe [unfolded prune_safe_def selection_ok_def]
  have "set [s + 1..<length pool] \<subseteq> {..<length pool}" "s \<notin> set [s + 1..<length pool]" by auto
  from occlude_fold_total [OF labels s this, of dd rnd observe_rcni alpha c ?sm] obtain st' where
    f: "foldE (occlude_one vi dd rnd observe_rcni pool alpha c s) [s + 1..<length pool] ?sm = Inr st'"
      "pr_result st' = pr_result ?sm" "length (pr_factor st') = length (pr_factor ?sm)"
      "\<forall>j < length (pr_factor ?sm). (j \<notin> set [s + 1..<length pool] \<or> pr_factor ?sm ! j > alpha) \<longrightarrow> pr_factor st' ! j = pr_factor ?sm ! j"
    by auto
  have keep: "pr_factor st' ! j = flt_max" if "j < length pool" "j = s \<or> pr_factor st ! j = flt_max" for j
    using f(4) [rule_format, of j] that o alpha(1) s by (auto simp: nth_list_update)
  have fresh: "?i \<notin> set (pr_result st)"
    using o False s alpha by auto
  have "selection_ok pool location deleted degree (pr_result st')"
    using o False fresh s f(2) by (auto simp: selection_ok_def)
  moreover have "pr_factor st' ! t = flt_max" if t: "t < length pool" "nb_id (pool ! t) \<in> set (pr_result st')" for t
  proof (rule keep [OF t(1)])
    from t(2) f(2) have "nb_id (pool ! t) \<in> set (pr_result st) \<or> nb_id (pool ! t) = ?i" by (auto split: if_splits)
    then show "t = s \<or> pr_factor st ! t = flt_max"
    proof
      assume "nb_id (pool ! t) = ?i"
      then have "map nb_id pool ! t = map nb_id pool ! s" using s t(1) by simp
      then have "t = s" using nth_eq_iff_index_eq [OF ids] s t(1) by simp
      then show ?thesis ..
    qed (use o t(1) in blast)
  qed
  ultimately have "prune_safe pool location deleted degree st'" using f(3) o by (simp add: prune_safe_def)
  with f(1,2) False show ?thesis by (auto simp: occlude_candidate_def Let_def)
qed

lemma prune_candidates_safe:
  assumes "labels_ready vi pool" "distinct (map nb_id pool)" "alpha < flt_max" "c \<le> alpha"
    "set ss \<subseteq> {..<length pool}" "prune_safe pool location deleted degree st"
  shows "\<exists>st'. foldE (occlude_candidate vi dd rnd observe_rcni location deleted degree pool alpha c) ss st = Inr st'
    \<and> prune_safe pool location deleted degree st'"
  using assms(5,6)
proof (induction ss arbitrary: st)
  case (Cons s ss)
  from occlude_candidate_safe [OF assms(1) _ assms(2-4) Cons.prems(2), of s dd rnd observe_rcni] Cons.prems(1) obtain sm where
    "occlude_candidate vi dd rnd observe_rcni location deleted degree pool alpha c s st = Inr sm"
    "prune_safe pool location deleted degree sm" by auto
  with Cons.IH [of sm] Cons.prems(1) show ?case by auto
qed simp

text \<open>What the proof of termination needs of the rounding: \<open>cur_alpha *= 1.2f\<close> grows by a tenth at least.\<close>

definition growing :: "(real \<Rightarrow> real) \<Rightarrow> real \<Rightarrow> bool" where
  "growing rnd alpha \<longleftrightarrow> (\<forall>x. 1 \<le> x \<and> x \<le> alpha \<longrightarrow> 11 / 10 * x \<le> rnd (x * alpha_growth))"

definition rounds_left :: "real \<Rightarrow> exn + (real \<times> prune_state_t) \<Rightarrow> nat" where
  "rounds_left alpha r = (case r of Inl _ \<Rightarrow> 0 | Inr (c, _) \<Rightarrow> nat (\<lceil>(alpha - c) * 10\<rceil> + 1))"

lemma occlude_list_loop:
  assumes "labels_ready vi pool" "distinct (map nb_id pool)" "alpha < flt_max" "growing rnd alpha"
    and init: "Q 1 st" "prune_safe pool location deleted degree st"
    and step: "\<And>c st st'. Q c st \<Longrightarrow> prune_safe pool location deleted degree st \<Longrightarrow> 1 \<le> c \<Longrightarrow> c \<le> alpha \<Longrightarrow>
      length (pr_result st) < degree \<Longrightarrow>
      foldE (occlude_candidate vi dd rnd observe_rcni location deleted degree pool alpha c) [0..<length pool] st = Inr st' \<Longrightarrow>
      Q (rnd (c * alpha_growth)) st'"
  shows "\<exists>c st'. while_option (prune_continues alpha degree)
      (prune_round vi dd rnd observe_rcni location deleted degree pool alpha) (Inr (1, st)) = Some (Inr (c, st'))
    \<and> Q c st' \<and> prune_safe pool location deleted degree st' \<and> 1 \<le> c \<and> (c > alpha \<or> length (pr_result st') \<ge> degree)"
proof -
  let ?b = "prune_continues alpha degree" and ?c = "prune_round vi dd rnd observe_rcni location deleted degree pool alpha"
  define P where "P = (\<lambda>r :: exn + (real \<times> prune_state_t).
    \<exists>c st. r = Inr (c, st) \<and> Q c st \<and> prune_safe pool location deleted degree st \<and> 1 \<le> c)"
  have round: "P (?c r) \<and> rounds_left alpha (?c r) < rounds_left alpha r" if r: "P r" "?b r" for r
  proof -
    from r obtain c st where rr: "r = Inr (c, st)" "Q c st" "prune_safe pool location deleted degree st" "1 \<le> c"
      "c \<le> alpha" "length (pr_result st) < degree" by (auto simp: P_def prune_continues_def)
    have "set [0..<length pool] \<subseteq> {..<length pool}" by auto
    from prune_candidates_safe [OF assms(1-3) rr(5) this rr(3), of dd rnd observe_rcni] obtain st' where
      e: "foldE (occlude_candidate vi dd rnd observe_rcni location deleted degree pool alpha c) [0..<length pool] st = Inr st'"
        "prune_safe pool location deleted degree st'" by auto
    have g: "11 / 10 * c \<le> rnd (c * alpha_growth)" using assms(4) rr(4,5) by (simp add: growing_def)
    then have g': "c + 1 / 10 \<le> rnd (c * alpha_growth)" using rr(4) by simp
    have "\<lceil>(alpha - rnd (c * alpha_growth)) * 10\<rceil> \<le> \<lceil>(alpha - c) * 10 - 1\<rceil>" using g' by (intro ceiling_mono) simp
    also have "\<dots> = \<lceil>(alpha - c) * 10\<rceil> - 1" by (metis ceiling_diff_one)
    finally have "\<lceil>(alpha - rnd (c * alpha_growth)) * 10\<rceil> < \<lceil>(alpha - c) * 10\<rceil>" by simp
    moreover have "0 \<le> \<lceil>(alpha - c) * 10\<rceil>" using rr(5) by simp
    ultimately have "rounds_left alpha (Inr (rnd (c * alpha_growth), st')) < rounds_left alpha (Inr (c, st))"
      unfolding rounds_left_def by simp
    then show ?thesis using step [OF rr(2,3,4,5,6) e(1)] e rr(1,4) g'
      by (auto simp: P_def prune_round_def)
  qed
  have P0: "P (Inr (1, st))" using init by (simp add: P_def)
  have "\<exists>t. while_option ?b ?c (Inr (1, st)) = Some t"
    by (rule measure_while_option_Some [where P = P and f = "rounds_left alpha"]) (use round P0 in auto)
  then obtain t where t: "while_option ?b ?c (Inr (1, st)) = Some t" ..
  have "P t" by (rule while_option_rule [where P = P and b = ?b and c = ?c, OF _ t]) (use round P0 in auto)
  with while_option_stop [OF t] t show ?thesis by (force simp: P_def prune_continues_def)
qed

subsection \<open>The L2 and cosine metrics without labels\<close>

definition l2_index :: "'v vamana_index_t \<Rightarrow> bool" where
  "l2_index vi \<longleftrightarrow> (vi_metric vi = L2 \<or> vi_metric vi = COSINE) \<and> \<not> vi_filtered vi"

lemma occlude_one_l2:
  "l2_index vi \<Longrightarrow> occlude_one vi dd rnd observe_rcni pool alpha c s t st =
     Inr (if pr_factor st ! t > alpha then st
          else st\<lparr>pr_witness := (if observe_rcni
                     then (pr_witness st)[t := update_rcni_causal_witness (nb_id (pool ! s))
                        (dd (nb_id (pool ! t)) (nb_id (pool ! s))) (candidate_factor dd rnd pool s t) (pr_witness st ! t)]
                     else pr_witness st),
                   pr_factor := (pr_factor st)[t := max (pr_factor st ! t) (candidate_factor dd rnd pool s t)]\<rparr>)"
  by (auto simp: occlude_one_def l2_index_def prune_allowed_def Let_def)

lemma occlude_fold_l2:
  assumes "l2_index vi" "distinct ts" "set ts \<subseteq> {..<length (pr_factor st)}" "observe_rcni \<longrightarrow> length (pr_witness st) = length (pr_factor st)"
  shows "\<exists>st'. foldE (occlude_one vi dd rnd observe_rcni pool alpha c s) ts st = Inr st' \<and> pr_result st' = pr_result st
    \<and> length (pr_factor st') = length (pr_factor st) \<and> length (pr_witness st') = length (pr_witness st)
    \<and> (\<forall>t < length (pr_factor st). pr_factor st' ! t =
         (if t \<in> set ts \<and> pr_factor st ! t \<le> alpha then max (pr_factor st ! t) (candidate_factor dd rnd pool s t)
          else pr_factor st ! t))
    \<and> (observe_rcni \<longrightarrow> (\<forall>t < length (pr_factor st). pr_witness st' ! t =
         (if t \<in> set ts \<and> pr_factor st ! t \<le> alpha
          then update_rcni_causal_witness (nb_id (pool ! s)) (dd (nb_id (pool ! t)) (nb_id (pool ! s)))
             (candidate_factor dd rnd pool s t) (pr_witness st ! t)
          else pr_witness st ! t)))"
  using assms(2-4)
proof (induction ts arbitrary: st)
  case (Cons t ts)
  define sm where "sm = (if pr_factor st ! t > alpha then st
          else st\<lparr>pr_witness := (if observe_rcni
                     then (pr_witness st)[t := update_rcni_causal_witness (nb_id (pool ! s))
                        (dd (nb_id (pool ! t)) (nb_id (pool ! s))) (candidate_factor dd rnd pool s t) (pr_witness st ! t)]
                     else pr_witness st),
                   pr_factor := (pr_factor st)[t := max (pr_factor st ! t) (candidate_factor dd rnd pool s t)]\<rparr>)"
  have len: "length (pr_factor sm) = length (pr_factor st)" "length (pr_witness sm) = length (pr_witness st)" "pr_result sm = pr_result st"
    by (simp_all add: sm_def)
  have o: "occlude_one vi dd rnd observe_rcni pool alpha c s t st = Inr sm"
    unfolding sm_def by (rule occlude_one_l2 [OF assms(1)])
  from Cons.IH [of sm] Cons.prems len obtain st' where
    r: "foldE (occlude_one vi dd rnd observe_rcni pool alpha c s) ts sm = Inr st'" "pr_result st' = pr_result st"
      "length (pr_factor st') = length (pr_factor st)" "length (pr_witness st') = length (pr_witness st)"
      "\<forall>j < length (pr_factor st). pr_factor st' ! j =
         (if j \<in> set ts \<and> pr_factor sm ! j \<le> alpha then max (pr_factor sm ! j) (candidate_factor dd rnd pool s j)
          else pr_factor sm ! j)"
      "observe_rcni \<longrightarrow> (\<forall>j < length (pr_factor st). pr_witness st' ! j =
         (if j \<in> set ts \<and> pr_factor sm ! j \<le> alpha
          then update_rcni_causal_witness (nb_id (pool ! s)) (dd (nb_id (pool ! j)) (nb_id (pool ! s)))
             (candidate_factor dd rnd pool s j) (pr_witness sm ! j)
          else pr_witness sm ! j))" by auto
  have t: "t < length (pr_factor st)" "t \<notin> set ts" using Cons.prems by auto
  have fm: "pr_factor sm ! j = (if j = t \<and> pr_factor st ! j \<le> alpha then max (pr_factor st ! j) (candidate_factor dd rnd pool s j)
      else pr_factor st ! j)" if "j < length (pr_factor st)" for j
    using that by (cases "j = t") (simp_all add: sm_def)
  have wm: "pr_witness sm ! j = (if j = t \<and> pr_factor st ! j \<le> alpha
          then update_rcni_causal_witness (nb_id (pool ! s)) (dd (nb_id (pool ! j)) (nb_id (pool ! s)))
             (candidate_factor dd rnd pool s j) (pr_witness st ! j)
          else pr_witness st ! j)" if "j < length (pr_factor st)" "observe_rcni" for j
    using that Cons.prems(3) by (cases "j = t") (simp_all add: sm_def)
  show ?case
  proof (intro exI [of _ st'] conjI allI impI)
    show "foldE (occlude_one vi dd rnd observe_rcni pool alpha c s) (t # ts) st = Inr st'" using o r(1) by simp
  next
    fix j assume "j < length (pr_factor st)"
    with r(5) fm t show "pr_factor st' ! j =
        (if j \<in> set (t # ts) \<and> pr_factor st ! j \<le> alpha then max (pr_factor st ! j) (candidate_factor dd rnd pool s j)
         else pr_factor st ! j)"
      by (cases "j = t") auto
  next
    fix j assume j: "j < length (pr_factor st)" "observe_rcni"
    with r(6) fm [of j] wm [of j] t show "pr_witness st' ! j = (if j \<in> set (t # ts) \<and> pr_factor st ! j \<le> alpha
          then update_rcni_causal_witness (nb_id (pool ! s)) (dd (nb_id (pool ! j)) (nb_id (pool ! s)))
             (candidate_factor dd rnd pool s j) (pr_witness st ! j)
          else pr_witness st ! j)"
      by (cases "j = t") auto
  qed (use r in auto)
qed simp

text \<open>
  The invariant, with the positions \<open>ord\<close> processed so far in their order: the factor of a remaining candidate is the
  strongest occlusion by a processed nearer one, as long as it is at most \<open>alpha\<close>.
\<close>

definition rule_inv :: "(u32 \<Rightarrow> u32 \<Rightarrow> real) \<Rightarrow> (real \<Rightarrow> real) \<Rightarrow> bool \<Rightarrow> u32 \<Rightarrow> u32 set \<Rightarrow> neighbor_t list \<Rightarrow> real \<Rightarrow> nat list \<Rightarrow> prune_state_t \<Rightarrow> bool" where
  "rule_inv dd rnd observe_rcni location deleted pool alpha ord st \<longleftrightarrow>
     length (pr_factor st) = length pool \<and> (observe_rcni \<longrightarrow> length (pr_witness st) = length pool)
     \<and> distinct ord \<and> set ord \<subseteq> {..<length pool}
     \<and> pr_result st = filter (\<lambda>i. i \<notin> deleted \<and> i \<noteq> location) (map (\<lambda>s. nb_id (pool ! s)) ord)
     \<and> (\<forall>s \<in> set ord. pr_factor st ! s = flt_max)
     \<and> (\<forall>t < length pool. t \<notin> set ord \<longrightarrow>
          (pr_factor st ! t \<le> alpha \<longrightarrow> (\<forall>s \<in> set ord. s < t \<longrightarrow> candidate_factor dd rnd pool s t \<le> pr_factor st ! t))
          \<and> (pr_factor st ! t = 0 \<or> (\<exists>s \<in> set ord. s < t \<and> candidate_factor dd rnd pool s t = pr_factor st ! t)))
     \<and> (\<forall>i j. i < j \<longrightarrow> j < length ord \<longrightarrow> ord ! i < ord ! j \<longrightarrow> candidate_factor dd rnd pool (ord ! i) (ord ! j) \<le> alpha)
     \<and> (observe_rcni \<longrightarrow> (\<forall>t < length pool. case cw_id (pr_witness st ! t) of
          None \<Rightarrow> t \<notin> set ord \<longrightarrow> pr_factor st ! t = 0
        | Some w \<Rightarrow> (\<exists>s \<in> set ord. s < t \<and> nb_id (pool ! s) = w \<and> cw_factor (pr_witness st ! t) = candidate_factor dd rnd pool s t
             \<and> cw_distance (pr_witness st ! t) = dd (nb_id (pool ! t)) w)
           \<and> (t \<notin> set ord \<longrightarrow> pr_factor st ! t = max 0 (cw_factor (pr_witness st ! t)))))"

lemma update_witness_cases:
  "update_rcni_causal_witness i d f w = w \<and> cw_id w \<noteq> None \<and> f \<le> cw_factor w
   \<or> cw_id (update_rcni_causal_witness i d f w) = Some i \<and> cw_distance (update_rcni_causal_witness i d f w) = d
     \<and> cw_factor (update_rcni_causal_witness i d f w) = f \<and> (cw_id w \<noteq> None \<longrightarrow> cw_factor w \<le> f)"
  by (auto simp: update_rcni_causal_witness_def split: option.splits)

lemma rule_inv_candidate:
  assumes l2: "l2_index vi" and alpha: "alpha < flt_max" "c \<le> alpha" and s: "s < length pool"
    and inv: "rule_inv dd rnd observe_rcni location deleted pool alpha ord st"
    and step: "occlude_candidate vi dd rnd observe_rcni location deleted degree pool alpha c s st = Inr st'"
  shows "rule_inv dd rnd observe_rcni location deleted pool alpha (if length (pr_result st) \<ge> degree \<or> pr_factor st ! s > c then ord else ord @ [s]) st'
    \<and> (length (pr_result st) \<ge> degree \<or> pr_factor st ! s > c \<longrightarrow> st' = st)
    \<and> (\<forall>t < length pool. pr_factor st ! t \<le> pr_factor st' ! t)"
proof (cases "length (pr_result st) \<ge> degree \<or> pr_factor st ! s > c")
  case True
  then have "st' = st" using step by (auto simp: occlude_candidate_def split: if_splits)
  with True inv show ?thesis by simp
next
  case False
  let ?i = "nb_id (pool ! s)" and ?fac = "candidate_factor dd rnd pool"
  define sm where "sm = st\<lparr>pr_factor := (pr_factor st)[s := flt_max],
      pr_result := (if ?i \<notin> deleted \<and> ?i \<noteq> location then pr_result st @ [?i] else pr_result st)\<rparr>"
  note o = inv [unfolded rule_inv_def]
  have len: "length (pr_factor st) = length pool" "length (pr_factor sm) = length pool" "pr_witness sm = pr_witness st"
    using o by (simp_all add: sm_def)
  have low: "pr_factor st ! s \<le> c" using False by simp
  then have sn: "s \<notin> set ord" using o alpha by fastforce
  have "set [s + 1..<length pool] \<subseteq> {..<length (pr_factor sm)}" "observe_rcni \<longrightarrow> length (pr_witness sm) = length (pr_factor sm)"
    using len o by auto
  from occlude_fold_l2 [OF l2 distinct_upt this, of dd rnd pool alpha c s] step False obtain
    f: "pr_result st' = pr_result sm" "length (pr_factor st') = length pool" "length (pr_witness st') = length (pr_witness sm)"
      "\<forall>t < length pool. pr_factor st' ! t = (if t \<in> set [s + 1..<length pool] \<and> pr_factor sm ! t \<le> alpha
         then max (pr_factor sm ! t) (?fac s t) else pr_factor sm ! t)"
      "observe_rcni \<longrightarrow> (\<forall>t < length pool. pr_witness st' ! t = (if t \<in> set [s + 1..<length pool] \<and> pr_factor sm ! t \<le> alpha
         then update_rcni_causal_witness ?i (dd (nb_id (pool ! t)) ?i) (?fac s t) (pr_witness st ! t) else pr_witness st ! t))"
    unfolding len(2) len(3) by (auto simp: occlude_candidate_def Let_def sm_def)
  have fs: "pr_factor st' ! s = flt_max" using f(4) s len by (simp add: sm_def)
  have ft: "pr_factor st' ! t = (if s < t \<and> pr_factor st ! t \<le> alpha then max (pr_factor st ! t) (?fac s t) else pr_factor st ! t)"
    if "t < length pool" "t \<noteq> s" for t
    using f(4) that by (auto simp: sm_def)
  have wt: "pr_witness st' ! t = (if s < t \<and> pr_factor st ! t \<le> alpha
      then update_rcni_causal_witness ?i (dd (nb_id (pool ! t)) ?i) (?fac s t) (pr_witness st ! t) else pr_witness st ! t)"
    if "t < length pool" observe_rcni for t
    using f(5) that by (auto simp: sm_def)
  have processed: "pr_factor st' ! u = flt_max" if "u \<in> set (ord @ [s])" for u
  proof (cases "u = s")
    case False
    then have "u \<in> set ord" "u < length pool" using that o by auto
    with ft [of u] o alpha False show ?thesis by auto
  qed (use fs in simp)
  have rest: "(pr_factor st' ! t \<le> alpha \<longrightarrow> (\<forall>u \<in> set (ord @ [s]). u < t \<longrightarrow> ?fac u t \<le> pr_factor st' ! t))
      \<and> (pr_factor st' ! t = 0 \<or> (\<exists>u \<in> set (ord @ [s]). u < t \<and> ?fac u t = pr_factor st' ! t))"
    if t: "t < length pool" "t \<notin> set (ord @ [s])" for t
  proof -
    have a: "pr_factor st ! t \<le> alpha \<longrightarrow> (\<forall>u \<in> set ord. u < t \<longrightarrow> ?fac u t \<le> pr_factor st ! t)"
      and b: "pr_factor st ! t = 0 \<or> (\<exists>u \<in> set ord. u < t \<and> ?fac u t = pr_factor st ! t)"
      using o t by auto
    show ?thesis
    proof (cases "s < t \<and> pr_factor st ! t \<le> alpha")
      case True
      then have e: "pr_factor st' ! t = max (pr_factor st ! t) (?fac s t)" using ft [of t] t by simp
      show ?thesis using a b True unfolding e by (auto simp: max_def)
    next
      case False
      then have "pr_factor st' ! t = pr_factor st ! t" using ft [of t] t by auto
      with a b False t show ?thesis by auto
    qed
  qed
  have pairs: "?fac ((ord @ [s]) ! i) ((ord @ [s]) ! j) \<le> alpha"
    if ij: "i < j" "j < length (ord @ [s])" "(ord @ [s]) ! i < (ord @ [s]) ! j" for i j
  proof (cases "j < length ord")
    case True
    with ij o show ?thesis by (auto simp: nth_append)
  next
    case False
    with ij have "j = length ord" "i < length ord" "ord ! i \<in> set ord" "ord ! i < s" by (auto simp: nth_append)
    moreover have "\<forall>u \<in> set ord. u < s \<longrightarrow> ?fac u s \<le> pr_factor st ! s" using o s sn low alpha by auto
    ultimately show ?thesis using low alpha by (fastforce simp: nth_append)
  qed
  have wit: "case cw_id (pr_witness st' ! t) of
          None \<Rightarrow> t \<notin> set (ord @ [s]) \<longrightarrow> pr_factor st' ! t = 0
        | Some w \<Rightarrow> (\<exists>u \<in> set (ord @ [s]). u < t \<and> nb_id (pool ! u) = w \<and> cw_factor (pr_witness st' ! t) = ?fac u t
             \<and> cw_distance (pr_witness st' ! t) = dd (nb_id (pool ! t)) w)
           \<and> (t \<notin> set (ord @ [s]) \<longrightarrow> pr_factor st' ! t = max 0 (cw_factor (pr_witness st' ! t)))"
    if t: "t < length pool" and ob: observe_rcni for t
  proof -
    have old: "case cw_id (pr_witness st ! t) of
          None \<Rightarrow> t \<notin> set ord \<longrightarrow> pr_factor st ! t = 0
        | Some w \<Rightarrow> (\<exists>u \<in> set ord. u < t \<and> nb_id (pool ! u) = w \<and> cw_factor (pr_witness st ! t) = ?fac u t
             \<and> cw_distance (pr_witness st ! t) = dd (nb_id (pool ! t)) w)
           \<and> (t \<notin> set ord \<longrightarrow> pr_factor st ! t = max 0 (cw_factor (pr_witness st ! t)))"
      using o t ob by blast
    show ?thesis
    proof (cases "s < t \<and> pr_factor st ! t \<le> alpha")
      case True
      then have tn: "t \<notin> set ord" "t \<noteq> s" using o alpha by fastforce+
      have e: "pr_factor st' ! t = max (pr_factor st ! t) (?fac s t)" using ft [of t] t tn True by simp
      have w: "pr_witness st' ! t = update_rcni_causal_witness ?i (dd (nb_id (pool ! t)) ?i) (?fac s t) (pr_witness st ! t)"
        using wt t ob True by simp
      from update_witness_cases [of ?i "dd (nb_id (pool ! t)) ?i" "?fac s t" "pr_witness st ! t"] old tn True
      show ?thesis unfolding e w by (auto split: option.splits simp: max_def)
    next
      case False
      then have "pr_witness st' ! t = pr_witness st ! t" using wt t ob by auto
      moreover have "t \<noteq> s \<Longrightarrow> pr_factor st' ! t = pr_factor st ! t" using ft [of t] t False by auto
      ultimately show ?thesis using old by (auto split: option.splits)
    qed
  qed
  have res: "pr_result st' = filter (\<lambda>i. i \<notin> deleted \<and> i \<noteq> location) (map (\<lambda>s. nb_id (pool ! s)) (ord @ [s]))"
    using o by (auto simp: f(1) sm_def)
  have shape: "distinct (ord @ [s])" "set (ord @ [s]) \<subseteq> {..<length pool}" "observe_rcni \<longrightarrow> length (pr_witness st') = length pool"
    using o sn s f(3) len by auto
  have "rule_inv dd rnd observe_rcni location deleted pool alpha (ord @ [s]) st'"
    unfolding rule_inv_def by (intro conjI allI impI ballI) (use f(2) res shape processed rest pairs wit in \<open>blast | simp\<close>)+
  moreover have "pr_factor st ! t \<le> pr_factor st' ! t" if "t < length pool" for t
    using ft [OF that] fs low alpha by (cases "t = s") auto
  ultimately show ?thesis using False by auto
qed

text \<open>After a whole round that did not fill the result, the factor of every remaining candidate exceeds the bound.\<close>

lemma rule_inv_round:
  assumes l2: "l2_index vi" and alpha: "alpha < flt_max" "c \<le> alpha"
    and inv: "rule_inv dd rnd observe_rcni location deleted pool alpha ord st"
    and step: "foldE (occlude_candidate vi dd rnd observe_rcni location deleted degree pool alpha c) [0..<length pool] st = Inr st'"
  shows "\<exists>ord'. rule_inv dd rnd observe_rcni location deleted pool alpha ord' st'
    \<and> (length (pr_result st') < degree \<longrightarrow> (\<forall>t < length pool. t \<notin> set ord' \<longrightarrow> c < pr_factor st' ! t))"
proof -
  define P where "P = (\<lambda>k st. \<exists>ord. rule_inv dd rnd observe_rcni location deleted pool alpha ord st
    \<and> (length (pr_result st) < degree \<longrightarrow> (\<forall>t < k. t \<notin> set ord \<longrightarrow> c < pr_factor st ! t)))"
  have "P (length [0..<length pool]) st'"
  proof (rule foldE_invariant [OF step])
    show "P 0 st" using inv by (auto simp: P_def)
    fix k st st'
    assume k: "k < length [0..<length pool]" and "P k st"
      and one: "occlude_candidate vi dd rnd observe_rcni location deleted degree pool alpha c ([0..<length pool] ! k) st = Inr st'"
    then obtain ord where ord: "rule_inv dd rnd observe_rcni location deleted pool alpha ord st"
      "length (pr_result st) < degree \<longrightarrow> (\<forall>t < k. t \<notin> set ord \<longrightarrow> c < pr_factor st ! t)" by (auto simp: P_def)
    let ?ord = "if length (pr_result st) \<ge> degree \<or> pr_factor st ! k > c then ord else ord @ [k]"
    from k one have one': "k < length pool" "occlude_candidate vi dd rnd observe_rcni location deleted degree pool alpha c k st = Inr st'"
      by simp_all
    note r = rule_inv_candidate [OF l2 alpha one'(1) ord(1) one'(2)]
    have "c < pr_factor st' ! t" if t: "length (pr_result st') < degree" "t < Suc k" "t \<notin> set ?ord" for t
    proof -
      have stop: "length (pr_result st) < degree"
      proof (rule ccontr)
        assume "\<not> length (pr_result st) < degree"
        with r t(1) show False by simp
      qed
      have "c < pr_factor st ! t" using ord(2) stop t by (cases "t = k") (auto split: if_splits)
      then show ?thesis using r one'(1) t(2) by (meson less_le_trans less_Suc_eq_le order_le_less_trans)
    qed
    with r show "P (Suc k) st'" unfolding P_def by (intro exI [of _ ?ord]) blast
  qed
  then show ?thesis by (auto simp: P_def)
qed

text \<open>The result of \<open>occlude_list\<close> in terms of the candidates.\<close>

definition occlusion :: "(u32 \<Rightarrow> u32 \<Rightarrow> real) \<Rightarrow> (real \<Rightarrow> real) \<Rightarrow> neighbor_t \<Rightarrow> neighbor_t \<Rightarrow> real" where
  "occlusion dd rnd near far =
     (if dd (nb_id far) (nb_id near) = 0 then flt_max else rnd (nb_distance far / dd (nb_id far) (nb_id near)))"

lemma candidate_factor_occlusion: "candidate_factor dd rnd pool s t = occlusion dd rnd (pool ! s) (pool ! t)"
  by (simp add: candidate_factor_def occlusion_def Let_def)

definition event_ok :: "(u32 \<Rightarrow> u32 \<Rightarrow> real) \<Rightarrow> (real \<Rightarrow> real) \<Rightarrow> u32 \<Rightarrow> neighbor_t list \<Rightarrow> real \<Rightarrow> u32 list \<Rightarrow> rcni_prune_event_t \<Rightarrow> bool" where
  "event_ok dd rnd location pool alpha result ev \<longleftrightarrow>
     ev_source ev = location \<and> ev_victim ev \<notin> set result
     \<and> (\<exists>near \<in> set pool. \<exists>far \<in> set pool. nb_key near < nb_key far \<and> nb_id far = ev_victim ev \<and> nb_id near = ev_witness ev
          \<and> ev_witness ev \<in> set result \<and> alpha < occlusion dd rnd near far
          \<and> ev_source_distance ev = nb_distance far \<and> ev_witness_distance ev = dd (ev_victim ev) (ev_witness ev))"

definition robust_prune :: "(u32 \<Rightarrow> u32 \<Rightarrow> real) \<Rightarrow> (real \<Rightarrow> real) \<Rightarrow> neighbor_t list \<Rightarrow> real \<Rightarrow> nat \<Rightarrow> u32 list \<Rightarrow> bool" where
  "robust_prune dd rnd pool alpha degree result \<longleftrightarrow>
     (\<forall>near \<in> set pool. \<forall>far \<in> set pool. \<forall>i j. i < j \<and> j < length result \<and> result ! i = nb_id near \<and> result ! j = nb_id far
        \<and> nb_key near < nb_key far \<longrightarrow> occlusion dd rnd near far \<le> alpha)
     \<and> (length result < degree \<longrightarrow>
          (\<forall>far \<in> set pool. nb_id far \<notin> set result \<longrightarrow>
             (\<exists>c. \<exists>near \<in> set pool. 1 \<le> c \<and> c \<le> alpha \<and> alpha < rnd (c * alpha_growth)
                \<and> nb_id near \<in> set result \<and> nb_key near < nb_key far \<and> c < occlusion dd rnd near far)))"

lemma rule_inv_init:
  "rule_inv dd rnd observe_rcni location deleted pool alpha []
     \<lparr>pr_result = [], pr_factor = replicate (length pool) 0,
      pr_witness = (if observe_rcni then replicate (length pool) no_witness else [])\<rparr>"
  by (auto simp: rule_inv_def no_witness_def)

lemma rule_inv_robust:
  assumes inv: "rule_inv dd rnd observe_rcni location {} pool alpha ord st" and ids: "distinct (map nb_id pool)"
    and sorted: "sorted_wrt (<) (map nb_key pool)" and loc: "location \<notin> nb_id ` set pool" and alpha: "1 \<le> alpha"
    and full: "length (pr_result st) < degree \<longrightarrow> (\<exists>c. 1 \<le> c \<and> c \<le> alpha \<and> alpha < rnd (c * alpha_growth)
      \<and> (\<forall>t < length pool. t \<notin> set ord \<longrightarrow> c < pr_factor st ! t))"
  shows "robust_prune dd rnd pool alpha degree (pr_result st)
    \<and> (\<forall>ev \<in> set (causal_events location pool alpha st). observe_rcni \<longrightarrow> event_ok dd rnd location pool alpha (pr_result st) ev)"
proof -
  note o = inv [unfolded rule_inv_def]
  have ordn: "s < length pool" if "s \<in> set ord" for s using o that by auto
  then have res: "pr_result st = map (\<lambda>s. nb_id (pool ! s)) ord"
    using o loc by (auto simp: filter_id_conv)
  have less: "nb_key (pool ! s) < nb_key (pool ! t) \<longleftrightarrow> s < t" if "s < length pool" "t < length pool" for s t
    using sorted that by (auto simp: sorted_wrt_iff_nth_less) (metis not_less_iff_gr_or_eq)
  have pos: "s = t" if "s < length pool" "t < length pool" "nb_id (pool ! s) = nb_id (pool ! t)" for s t
    using nth_eq_iff_index_eq [OF ids] that by simp
  have spread: "occlusion dd rnd near far \<le> alpha"
    if nf: "near \<in> set pool" "far \<in> set pool" "nb_key near < nb_key far"
      and ij: "i < j" "j < length (pr_result st)" "pr_result st ! i = nb_id near" "pr_result st ! j = nb_id far" for near far i j
  proof -
    from nf obtain s t where st: "s < length pool" "near = pool ! s" "t < length pool" "far = pool ! t" by (auto simp: in_set_conv_nth)
    have j: "j < length ord" "i < length ord" using ij res by auto
    have "ord ! i = s" "ord ! j = t" using ij j st res by (auto intro!: pos ordn)
    moreover have "s < t" using nf(3) st less by blast
    ultimately show ?thesis using o ij(1) j(1) st by (auto simp: candidate_factor_occlusion)
  qed
  have cover: "\<exists>c. \<exists>near \<in> set pool. 1 \<le> c \<and> c \<le> alpha \<and> alpha < rnd (c * alpha_growth)
      \<and> nb_id near \<in> set (pr_result st) \<and> nb_key near < nb_key far \<and> c < occlusion dd rnd near far"
    if short: "length (pr_result st) < degree" and far: "far \<in> set pool" "nb_id far \<notin> set (pr_result st)" for far
  proof -
    from full short obtain c where c: "1 \<le> c" "c \<le> alpha" "alpha < rnd (c * alpha_growth)"
      "\<forall>t < length pool. t \<notin> set ord \<longrightarrow> c < pr_factor st ! t" by auto
    from far(1) obtain t where t: "t < length pool" "far = pool ! t" by (auto simp: in_set_conv_nth)
    have tn: "t \<notin> set ord" using far(2) t(2) res by auto
    with c t have big: "c < pr_factor st ! t" by simp
    moreover have "pr_factor st ! t = 0 \<or> (\<exists>s \<in> set ord. s < t \<and> candidate_factor dd rnd pool s t = pr_factor st ! t)"
      using o t(1) tn by blast
    ultimately obtain s where s: "s \<in> set ord" "s < t" "c < candidate_factor dd rnd pool s t" using c(1) by auto
    show ?thesis
      by (rule exI [of _ c], rule bexI [of _ "pool ! s"])
        (use c s t less res ordn [OF s(1)] in \<open>auto simp: candidate_factor_occlusion\<close>)
  qed
  have event: "event_ok dd rnd location pool alpha (pr_result st) ev"
    if ev: "ev \<in> set (causal_events location pool alpha st)" and ob: observe_rcni for ev
  proof -
    have lw: "length (pr_witness st) = length pool" using o ob by simp
    from ev lw obtain t where t: "t < length pool" "ev = causal_event location (pool ! t) (pr_witness st ! t)"
      "cw_id (pr_witness st ! t) \<noteq> None" "alpha < cw_factor (pr_witness st ! t)" "nb_id (pool ! t) \<notin> set (pr_result st)"
      by (auto simp: causal_events_def in_set_zip not_le)
    then obtain w where w: "cw_id (pr_witness st ! t) = Some w" by auto
    have "\<exists>s \<in> set ord. s < t \<and> nb_id (pool ! s) = w \<and> cw_factor (pr_witness st ! t) = candidate_factor dd rnd pool s t
         \<and> cw_distance (pr_witness st ! t) = dd (nb_id (pool ! t)) w"
    proof -
      have "case cw_id (pr_witness st ! t) of
          None \<Rightarrow> t \<notin> set ord \<longrightarrow> pr_factor st ! t = 0
        | Some w \<Rightarrow> (\<exists>u \<in> set ord. u < t \<and> nb_id (pool ! u) = w \<and> cw_factor (pr_witness st ! t) = candidate_factor dd rnd pool u t
             \<and> cw_distance (pr_witness st ! t) = dd (nb_id (pool ! t)) w)
           \<and> (t \<notin> set ord \<longrightarrow> pr_factor st ! t = max 0 (cw_factor (pr_witness st ! t)))"
        using o t(1) ob by blast
      then show ?thesis unfolding w option.simps(5) by blast
    qed
    then obtain s where s: "s \<in> set ord" "s < t" "nb_id (pool ! s) = w"
      "cw_factor (pr_witness st ! t) = candidate_factor dd rnd pool s t" "cw_distance (pr_witness st ! t) = dd (nb_id (pool ! t)) w" by blast
    have "nb_key (pool ! s) < nb_key (pool ! t)" using less ordn [OF s(1)] t(1) s(2) by blast
    moreover have "w \<in> set (pr_result st)" using s(1,3) res by auto
    moreover have "ev_source ev = location" "ev_victim ev = nb_id (pool ! t)" "ev_witness ev = w"
      "ev_source_distance ev = nb_distance (pool ! t)" "ev_witness_distance ev = cw_distance (pr_witness st ! t)"
      by (simp_all add: t(2) causal_event_def w)
    moreover have "pool ! s \<in> set pool" "pool ! t \<in> set pool" using ordn [OF s(1)] t(1) by simp_all
    ultimately show ?thesis
      using t(4,5) s(3-5) unfolding event_ok_def candidate_factor_occlusion by metis
  qed
  show ?thesis unfolding robust_prune_def using spread cover event by blast
qed

lemma occlude_list_l2:
  assumes l2: "l2_index vi" and ids: "distinct (map nb_id pool)" and sorted: "sorted_wrt (<) (map nb_key pool)"
    and loc: "location \<notin> nb_id ` set pool" and alpha: "1 \<le> alpha" "alpha < flt_max" and grow: "growing rnd alpha"
  shows "\<exists>result events. occlude_list vi dd rnd observe_rcni location pool alpha degree maxc {}
      = Some (Inr (result, take maxc pool, events))
    \<and> selection_ok (take maxc pool) location {} degree result
    \<and> robust_prune dd rnd (take maxc pool) alpha degree result
    \<and> (\<forall>ev \<in> set events. observe_rcni \<longrightarrow> event_ok dd rnd location (take maxc pool) alpha result ev)"
proof (cases "pool = []")
  case True
  then show ?thesis by (simp add: occlude_list_def selection_ok_def robust_prune_def)
next
  case False
  let ?p = "take maxc pool"
  let ?st = "\<lparr>pr_result = [], pr_factor = replicate (length ?p) 0,
      pr_witness = (if observe_rcni then replicate (length ?p) no_witness else [])\<rparr>"
  have p: "distinct (map nb_id ?p)" "sorted_wrt (<) (map nb_key ?p)" "location \<notin> nb_id ` set ?p" "labels_ready vi ?p"
    using ids sorted loc l2 by (auto simp: take_map [symmetric] sorted_wrt_take labels_ready_def l2_index_def dest: in_set_takeD)
  define Q where "Q = (\<lambda>c st. \<exists>ord. rule_inv dd rnd observe_rcni location {} ?p alpha ord st
    \<and> (length (pr_result st) < degree \<longrightarrow> c = 1 \<or> (\<exists>c0. 1 \<le> c0 \<and> c0 \<le> alpha \<and> c = rnd (c0 * alpha_growth)
        \<and> (\<forall>t < length ?p. t \<notin> set ord \<longrightarrow> c0 < pr_factor st ! t))))"
  have Q0: "Q 1 ?st" using rule_inv_init [of dd rnd observe_rcni location "{}" ?p alpha] by (auto simp: Q_def)
  have safe0: "prune_safe ?p location {} degree ?st" by (simp add: prune_safe_def selection_ok_def)
  have step: "Q (rnd (c * alpha_growth)) st'"
    if h: "Q c st" "1 \<le> c" "c \<le> alpha"
      "foldE (occlude_candidate vi dd rnd observe_rcni location {} degree ?p alpha c) [0..<length ?p] st = Inr st'" for c st st'
  proof -
    from h(1) obtain ord where "rule_inv dd rnd observe_rcni location {} ?p alpha ord st" by (auto simp: Q_def)
    from rule_inv_round [OF l2 alpha(2) h(3) this h(4)] h(2,3) show ?thesis unfolding Q_def by blast
  qed
  from occlude_list_loop [of vi ?p alpha rnd Q ?st location "{}" degree dd observe_rcni, OF p(4,1) alpha(2) grow Q0 safe0]
    step obtain c st' where
    w: "while_option (prune_continues alpha degree) (prune_round vi dd rnd observe_rcni location {} degree ?p alpha) (Inr (1, ?st))
        = Some (Inr (c, st'))" "Q c st'" "prune_safe ?p location {} degree st'" "c > alpha \<or> length (pr_result st') \<ge> degree"
    by blast
  from w(2) obtain ord where ord: "rule_inv dd rnd observe_rcni location {} ?p alpha ord st'"
    "length (pr_result st') < degree \<longrightarrow> c = 1 \<or> (\<exists>c0. 1 \<le> c0 \<and> c0 \<le> alpha \<and> c = rnd (c0 * alpha_growth)
        \<and> (\<forall>t < length ?p. t \<notin> set ord \<longrightarrow> c0 < pr_factor st' ! t))" unfolding Q_def by blast
  have full: "length (pr_result st') < degree \<longrightarrow> (\<exists>c. 1 \<le> c \<and> c \<le> alpha \<and> alpha < rnd (c * alpha_growth)
      \<and> (\<forall>t < length ?p. t \<notin> set ord \<longrightarrow> c < pr_factor st' ! t))"
    using ord(2) w(4) alpha(1) by auto
  from rule_inv_robust [OF ord(1) p(1-3) alpha(1) full] w(1,3) False show ?thesis
    by (auto simp: occlude_list_def Let_def prune_safe_def)
qed

lemma occlude_list_safe:
  assumes "labels_ready vi pool" "distinct (map nb_id pool)" "alpha < flt_max" "growing rnd alpha"
  shows "\<exists>result events. occlude_list vi dd rnd observe_rcni location pool alpha degree maxc deleted
      = Some (Inr (result, take maxc pool, events)) \<and> selection_ok (take maxc pool) location deleted degree result"
proof (cases "pool = []")
  case True
  then show ?thesis by (simp add: occlude_list_def selection_ok_def)
next
  case False
  let ?p = "take maxc pool"
  let ?st = "\<lparr>pr_result = [], pr_factor = replicate (length ?p) 0,
      pr_witness = (if observe_rcni then replicate (length ?p) no_witness else [])\<rparr>"
  have p: "labels_ready vi ?p" "distinct (map nb_id ?p)"
    using assms(1,2) by (auto simp: take_map [symmetric] labels_ready_def dest: in_set_takeD)
  have safe0: "prune_safe ?p location deleted degree ?st" by (simp add: prune_safe_def selection_ok_def)
  from occlude_list_loop [of vi ?p alpha rnd "\<lambda>_ _. True" ?st location deleted degree dd observe_rcni, OF p assms(3,4) TrueI safe0]
  obtain c st' where "while_option (prune_continues alpha degree) (prune_round vi dd rnd observe_rcni location deleted degree ?p alpha)
      (Inr (1, ?st)) = Some (Inr (c, st'))" "prune_safe ?p location deleted degree st'" by blast
  with False show ?thesis by (auto simp: occlude_list_def Let_def prune_safe_def)
qed

lemma saturate_correct:
  assumes "distinct sel" "length sel \<le> max_degree"
  shows "\<exists>extra. saturate location max_degree pool sel = sel @ extra \<and> distinct (sel @ extra)
    \<and> set extra \<subseteq> nb_id ` set pool - {location} \<and> length (sel @ extra) \<le> max_degree
    \<and> (length (sel @ extra) < max_degree \<longrightarrow> nb_id ` set pool - {location} \<subseteq> set (sel @ extra))"
  using assms
proof (induction pool arbitrary: sel)
  case (Cons n pool)
  let ?take = "nb_id n \<notin> set sel \<and> nb_id n \<noteq> location"
  show ?case
  proof (cases "length sel \<ge> max_degree")
    case True
    then show ?thesis using Cons.prems by (intro exI [of _ "[]"]) simp
  next
    case False
    let ?sel = "if ?take then sel @ [nb_id n] else sel"
    have "distinct ?sel" "length ?sel \<le> max_degree" using Cons.prems False by auto
    from Cons.IH [OF this] obtain extra where e: "saturate location max_degree pool ?sel = ?sel @ extra"
      "distinct (?sel @ extra)" "set extra \<subseteq> nb_id ` set pool - {location}" "length (?sel @ extra) \<le> max_degree"
      "length (?sel @ extra) < max_degree \<longrightarrow> nb_id ` set pool - {location} \<subseteq> set (?sel @ extra)" by blast
    show ?thesis using False e by (intro exI [of _ "(if ?take then [nb_id n] else []) @ extra"]) (auto split: if_splits)
  qed
qed simp

text \<open>The nearest of the selected nodes other than the witness.\<close>

definition alternatives :: "(u32 \<Rightarrow> u32 \<Rightarrow> real) \<Rightarrow> rcni_prune_event_t \<Rightarrow> u32 list \<Rightarrow> (real \<times> u32) set" where
  "alternatives dd ev ns = (\<lambda>n. (dd (ev_victim ev) n, n)) ` (set ns - {ev_witness ev})"

definition alternative_ok :: "(u32 \<Rightarrow> u32 \<Rightarrow> real) \<Rightarrow> u32 list \<Rightarrow> rcni_prune_event_t \<Rightarrow> bool" where
  "alternative_ok dd result ev \<longleftrightarrow>
     (let K = alternatives dd ev result
      in ev_alternative ev = (if K = {} then None else Some (snd (Min K), fst (Min K))))"

lemma best_alternative:
  "fold (better_alternative dd ev) ns None = (if alternatives dd ev ns = {} then None
     else Some (snd (Min (alternatives dd ev ns)), fst (Min (alternatives dd ev ns))))"
proof (induction ns rule: rev_induct)
  case (snoc n ns)
  show ?case
  proof (cases "n = ev_witness ev")
    case True
    then have "alternatives dd ev (ns @ [n]) = alternatives dd ev ns" by (auto simp: alternatives_def)
    with snoc True show ?thesis by (simp add: better_alternative_def)
  next
    case False
    then have e: "alternatives dd ev (ns @ [n]) = insert (dd (ev_victim ev) n, n) (alternatives dd ev ns)" by (auto simp: alternatives_def)
    have fin: "finite (alternatives dd ev ns)" by (simp add: alternatives_def)
    show ?thesis
    proof (cases "alternatives dd ev ns = {}")
      case True
      with snoc e False show ?thesis by (simp add: better_alternative_def Let_def)
    next
      case ne: False
      then have m: "Min (insert (dd (ev_victim ev) n, n) (alternatives dd ev ns)) = min (dd (ev_victim ev) n, n) (Min (alternatives dd ev ns))"
        using fin by simp
      from snoc ne e m False show ?thesis
        by (cases "Min (alternatives dd ev ns)") (auto simp: better_alternative_def Let_def min_def less_eq_prod_def not_le)
    qed
  qed
qed (simp add: alternatives_def)

definition ranked_pool :: "'v vamana_index_t \<Rightarrow> (u32 \<Rightarrow> u32 \<Rightarrow> real) \<Rightarrow> u32 \<Rightarrow> neighbor_t list \<Rightarrow> neighbor_t list" where
  "ranked_pool vi dd location pool =
     sort_key nb_key (if vi_pq_dist vi then map (\<lambda>ngh. ngh\<lparr>nb_distance := dd (nb_id ngh) location\<rparr>) pool else pool)"

lemma ranked_pool:
  assumes "distinct (map nb_id pool)"
  shows "nb_id ` set (ranked_pool vi dd location pool) = nb_id ` set pool" "distinct (map nb_id (ranked_pool vi dd location pool))"
    "sorted_wrt (<) (map nb_key (ranked_pool vi dd location pool))" "ranked_pool vi dd location pool = [] \<longleftrightarrow> pool = []"
proof -
  let ?P = "if vi_pq_dist vi then map (\<lambda>ngh. ngh\<lparr>nb_distance := dd (nb_id ngh) location\<rparr>) pool else pool"
  have d: "distinct (map nb_id ?P)" using assms by (simp add: comp_def)
  then show ids: "distinct (map nb_id (ranked_pool vi dd location pool))"
    unfolding ranked_pool_def by (simp add: distinct_map)
  show "nb_id ` set (ranked_pool vi dd location pool) = nb_id ` set pool" by (auto simp: ranked_pool_def image_image)
  have "distinct (map nb_key (ranked_pool vi dd location pool))"
    using ids by (auto simp: distinct_map inj_on_def nb_key_def)
  then show "sorted_wrt (<) (map nb_key (ranked_pool vi dd location pool))"
    by (simp add: strict_sorted_iff ranked_pool_def)
  have "length (ranked_pool vi dd location pool) = length pool" by (simp add: ranked_pool_def)
  then show "ranked_pool vi dd location pool = [] \<longleftrightarrow> pool = []" by (metis length_0_conv)
qed

lemma prune_neighbors_unfold:
  "pool \<noteq> [] \<Longrightarrow> occlude_list vi dd rnd observe_rcni location (ranked_pool vi dd location pool) alpha max_degree maxc {}
       = Some (Inr (sel, p, events)) \<Longrightarrow>
   prune_neighbors vi dd rnd observe_rcni location pool max_degree maxc alpha =
     (let result = if vi_saturate vi \<and> alpha > 1 then saturate location max_degree p sel else sel
      in Some (Inr (result, if observe_rcni then final_events dd result events else [])))"
  by (simp add: prune_neighbors_def ranked_pool_def Let_def)

lemma prune_neighbors_safe:
  assumes "labels_ready vi pool" "distinct (map nb_id pool)" "alpha < flt_max" "growing rnd alpha"
  shows "\<exists>result events. prune_neighbors vi dd rnd observe_rcni location pool max_degree maxc alpha = Some (Inr (result, events))
    \<and> selection_ok pool location {} max_degree result"
proof (cases "pool = []")
  case True
  then show ?thesis by (simp add: prune_neighbors_def selection_ok_def)
next
  case False
  note r = ranked_pool [OF assms(2), of vi dd location]
  have "labels_ready vi (ranked_pool vi dd location pool)"
    unfolding labels_ready_def
  proof (intro impI ballI)
    fix n assume f: "vi_filtered vi" and "n \<in> set (ranked_pool vi dd location pool)"
    then have "nb_id n \<in> nb_id ` set pool" unfolding r(1) [symmetric] by simp
    then show "unat (nb_id n) < length (vi_location_to_labels vi)" using assms(1) f by (auto simp: labels_ready_def)
  qed
  from occlude_list_safe [OF this r(2) assms(3,4), of dd observe_rcni location max_degree maxc "{}"] obtain sel events where
    o: "occlude_list vi dd rnd observe_rcni location (ranked_pool vi dd location pool) alpha max_degree maxc {}
        = Some (Inr (sel, take maxc (ranked_pool vi dd location pool), events))"
      "selection_ok (take maxc (ranked_pool vi dd location pool)) location {} max_degree sel" by blast
  let ?p = "take maxc (ranked_pool vi dd location pool)"
  have sub: "nb_id ` set ?p \<subseteq> nb_id ` set pool" unfolding r(1) [symmetric] by (intro image_mono set_take_subset)
  have "selection_ok pool location {} max_degree (saturate location max_degree ?p sel)"
  proof -
    have "distinct sel" "length sel \<le> max_degree" "set sel \<subseteq> nb_id ` set ?p - {location}" using o(2) by (simp_all add: selection_ok_def)
    from saturate_correct [OF this(1,2), of location ?p] this(3) obtain extra where
      "saturate location max_degree ?p sel = sel @ extra" "distinct (sel @ extra)"
      "set (sel @ extra) \<subseteq> nb_id ` set ?p - {location}" "length (sel @ extra) \<le> max_degree" by auto
    with sub show ?thesis by (simp add: selection_ok_def) blast
  qed
  moreover have "selection_ok pool location {} max_degree sel" using o(2) sub by (simp add: selection_ok_def) blast
  ultimately show ?thesis using prune_neighbors_unfold [OF False o(1)] by (auto simp: Let_def)
qed

lemma event_final:
  assumes ev: "event_ok dd rnd location C alpha sel ev" "set sel \<subseteq> set result" "ev_victim ev \<notin> set result" "ev_alternative ev = None"
  shows "event_ok dd rnd location C alpha result (with_alternative dd result ev)
    \<and> alternative_ok dd result (with_alternative dd result ev)"
proof -
  have same: "ev_source (with_alternative dd result ev) = ev_source ev" "ev_victim (with_alternative dd result ev) = ev_victim ev"
    "ev_witness (with_alternative dd result ev) = ev_witness ev" "ev_source_distance (with_alternative dd result ev) = ev_source_distance ev"
    "ev_witness_distance (with_alternative dd result ev) = ev_witness_distance ev"
    "alternatives dd (with_alternative dd result ev) ns = alternatives dd ev ns" for ns
    by (simp_all add: with_alternative_def alternatives_def)
  have "ev_alternative (with_alternative dd result ev) = fold (better_alternative dd ev) result None"
    using ev(4) by (simp add: with_alternative_def)
  then have "alternative_ok dd result (with_alternative dd result ev)"
    unfolding alternative_ok_def Let_def same best_alternative .
  moreover have "event_ok dd rnd location C alpha result (with_alternative dd result ev)"
    using ev(1-3) unfolding event_ok_def same by blast
  ultimately show ?thesis by simp
qed

lemma occlude_events_new:
  "occlude_list vi dd rnd observe_rcni location pool alpha degree maxc deleted = Some (Inr (sel, p, events)) \<Longrightarrow>
     \<forall>ev \<in> set events. ev_alternative ev = None"
  by (auto simp: occlude_list_def Let_def bindE_eq_Inr causal_events_def causal_event_def split: if_splits)

lemma selection_full:
  assumes "selection_ok C location {} max_degree result" "distinct (map nb_id C)"
    "length result < max_degree \<longrightarrow> nb_id ` set C - {location} \<subseteq> set result" "location \<notin> nb_id ` set C"
  shows "length result = min max_degree (length C)"
proof -
  have r: "distinct result" "length result \<le> max_degree" "set result \<subseteq> nb_id ` set C" using assms(1) by (auto simp: selection_ok_def)
  have c: "card (nb_id ` set C) = length C" using distinct_card [OF assms(2)] by simp
  have "length result \<le> length C" using card_mono [OF _ r(3)] distinct_card [OF r(1)] c by simp
  moreover have "length C \<le> length result" if "length result < max_degree"
  proof -
    have "nb_id ` set C \<subseteq> set result" using assms(3,4) that by auto
    then have "card (nb_id ` set C) \<le> card (set result)" by (intro card_mono) simp_all
    then show ?thesis using c distinct_card [OF r(1)] by simp
  qed
  ultimately show ?thesis using r(2) by linarith
qed

text \<open>C6: \<open>prune_neighbors_impl\<close> under the L2 or cosine metric without labels: it ends, and of the
  \<open>max_candidate_size\<close> nearest candidates \<open>C\<close> it selects \<open>sel @ extra\<close> without duplicates, self loops or more than the
  degree.  \<open>sel\<close> follows the RobustPrune rule: a selected node never occludes a farther one selected after it by more than
  \<open>alpha\<close>, and when there is room left every rejected candidate is occluded by a nearer selected one by more than a bound
  within one growth step of \<open>alpha\<close>.  \<open>extra\<close> is the saturation.  Each RCNI event names a rejected victim, a selected
  witness that occludes it by more than \<open>alpha\<close>, and the nearest other selected node.\<close>

theorem robust_prune_correct:
  assumes "l2_index vi" "distinct (map nb_id pool)" "location \<notin> nb_id ` set pool" "1 \<le> alpha" "alpha < flt_max" "growing rnd alpha"
  shows "\<exists>sel extra events. prune_neighbors vi dd rnd observe_rcni location pool max_degree maxc alpha = Some (Inr (sel @ extra, events))
    \<and> selection_ok (take maxc (ranked_pool vi dd location pool)) location {} max_degree (sel @ extra)
    \<and> robust_prune dd rnd (take maxc (ranked_pool vi dd location pool)) alpha max_degree sel
    \<and> (if vi_saturate vi \<and> 1 < alpha then length (sel @ extra) = min max_degree (min maxc (length pool)) else extra = [])
    \<and> (\<forall>ev \<in> set events. event_ok dd rnd location (take maxc (ranked_pool vi dd location pool)) alpha (sel @ extra) ev
         \<and> alternative_ok dd (sel @ extra) ev)"
proof (cases "pool = []")
  case True
  then show ?thesis by (intro exI [of _ "[]"]) (auto simp: prune_neighbors_def selection_ok_def robust_prune_def ranked_pool_def)
next
  case False
  let ?R = "ranked_pool vi dd location pool" and ?C = "take maxc (ranked_pool vi dd location pool)"
  note r = ranked_pool [OF assms(2), of vi dd location]
  have loc: "location \<notin> nb_id ` set ?R" using assms(3) r(1) by simp
  from occlude_list_l2 [OF assms(1) r(2,3) loc assms(4-6), of dd observe_rcni max_degree maxc] obtain sel events where
    o: "occlude_list vi dd rnd observe_rcni location ?R alpha max_degree maxc {} = Some (Inr (sel, ?C, events))"
      "selection_ok ?C location {} max_degree sel" "robust_prune dd rnd ?C alpha max_degree sel"
      "\<forall>ev \<in> set events. observe_rcni \<longrightarrow> event_ok dd rnd location ?C alpha sel ev" by blast
  have C: "distinct (map nb_id ?C)" "location \<notin> nb_id ` set ?C" "length ?C = min maxc (length pool)"
    using r(2) loc by (auto simp: take_map [symmetric] ranked_pool_def dest: in_set_takeD)
  from saturate_correct [of sel max_degree location ?C] o(2) obtain more where
    m: "saturate location max_degree ?C sel = sel @ more" "selection_ok ?C location {} max_degree (sel @ more)"
      "length (sel @ more) < max_degree \<longrightarrow> nb_id ` set ?C - {location} \<subseteq> set (sel @ more)"
    unfolding selection_ok_def by auto
  define extra where "extra = (if vi_saturate vi \<and> 1 < alpha then more else [])"
  have res: "(if vi_saturate vi \<and> 1 < alpha then saturate location max_degree ?C sel else sel) = sel @ extra"
    by (simp add: extra_def m(1))
  have sel: "selection_ok ?C location {} max_degree (sel @ extra)" using o(2) m(2) by (simp add: extra_def)
  have full: "if vi_saturate vi \<and> 1 < alpha then length (sel @ extra) = min max_degree (min maxc (length pool)) else extra = []"
    using selection_full [OF m(2) C(1) m(3) C(2)] C(3) by (simp add: extra_def)
  let ?events = "if observe_rcni then final_events dd (sel @ extra) events else []"
  have run: "prune_neighbors vi dd rnd observe_rcni location pool max_degree maxc alpha = Some (Inr (sel @ extra, ?events))"
    using prune_neighbors_unfold [OF False o(1)] unfolding res by (simp add: Let_def)
  have "event_ok dd rnd location ?C alpha (sel @ extra) ev \<and> alternative_ok dd (sel @ extra) ev" if "ev \<in> set ?events" for ev
  proof -
    from that obtain e where e: "e \<in> set events" "ev = with_alternative dd (sel @ extra) e" "ev_victim e \<notin> set (sel @ extra)" observe_rcni
      by (auto simp: final_events_def split: if_splits)
    then show ?thesis unfolding e(2)
      by (intro event_final [of dd rnd location ?C alpha sel]) (use o(4) occlude_events_new [OF o(1)] in auto)
  qed
  with run sel o(3) full show ?thesis by blast
qed

definition line_position :: "u32 \<Rightarrow> real" where
  "line_position i = (if i = 3 then - 3 else real (unat i))"

definition line_distance :: "u32 \<Rightarrow> u32 \<Rightarrow> real" where
  "line_distance i j = (line_position i - line_position j) * (line_position i - line_position j)"

definition line_index :: "unit vamana_index_t" where
  "line_index =
     (case new_vamana_index \<lparr>cf_metric = L2, cf_max_points = 4, cf_num_frozen = 0, cf_dynamic = False, cf_enable_tags = False,
        cf_filtered = False, cf_pq_dist = False, cf_conc_consolidate = False, cf_queue_size = 4, cf_range = 2, cf_max_c = 4,
        cf_alpha = 6 / 5, cf_filter_queue_size = 4, cf_saturate = False\<rparr> [(), (), (), ()] (new_graph_store 4 2) of
      Inr vi \<Rightarrow> vi\<lparr>vi_start := 0, vi_nd := 4\<rparr> | Inl _ \<Rightarrow> undefined)"

lemma growing_exact: "growing (\<lambda>x. x) alpha"
  by (simp add: growing_def alpha_growth_def)

lemma robust_prune_correct_witness:
  "\<exists>sel extra events. prune_neighbors line_index line_distance (\<lambda>x. x) True 0
      [new_neighbor 2 4, new_neighbor 3 9, new_neighbor 1 1] 2 3 (6 / 5) = Some (Inr (sel @ extra, events))
    \<and> robust_prune line_distance (\<lambda>x. x) (take 3 (ranked_pool line_index line_distance 0
      [new_neighbor 2 4, new_neighbor 3 9, new_neighbor 1 1])) (6 / 5) 2 sel \<and> extra = []"
proof -
  have "l2_index line_index" "\<not> vi_saturate line_index"
    by (simp_all add: l2_index_def line_index_def new_vamana_index_def Let_def)
  then show ?thesis
    using robust_prune_correct [of line_index "[new_neighbor 2 4, new_neighbor 3 9, new_neighbor 1 1]" 0 "6 / 5" "\<lambda>x. x" line_distance True 2 3]
      growing_exact [of "6 / 5"] by (simp add: flt_max_def) blast
qed

end
