(* ===== verification/Vamana_Link.thy ===== *)
theory Vamana_Link
  imports Vamana_Search Vamana_Prune_Correct
begin

text \<open>
  Building the graph: \<open>search_for_point_and_prune_impl\<close>, \<open>inter_insert\<close> and \<open>link_impl\<close> of
  src/index/vamana_index.cc.  Every node is linked by one task; the tasks of different threads interleave at the
  granularity of the per-node locks, so each step below is one critical section with the thread-local work after it.
  \<open>qd n i\<close> is the distance of the vector of node \<open>n\<close>, as a query, to node \<open>i\<close>.
\<close>

subsection \<open>Candidates of a node\<close>

definition bindO :: "(exn + 'a) option \<Rightarrow> ('a \<Rightarrow> (exn + 'b) option) \<Rightarrow> (exn + 'b) option" where
  "bindO m f = (case m of None \<Rightarrow> None | Some (Inl e) \<Rightarrow> Some (Inl e) | Some (Inr a) \<Rightarrow> f a)"

text \<open>\<open>label_to_start_id_[x]\<close> yields 0 for a label without a start.\<close>

definition label_starts :: "'v vamana_index_t \<Rightarrow> u32 \<Rightarrow> exn + u32 list" where
  "label_starts vi location =
     (if unat location < length (vi_location_to_labels vi)
      then Inr (map (\<lambda>x. case map_of (vi_label_to_start vi) x of Some s \<Rightarrow> s | None \<Rightarrow> 0) (vi_location_to_labels vi ! unat location))
      else Inl Undefined_access)"

text \<open>\<open>std::set<neighbor_t>\<close>: an element is dropped when its distance and identifier are there.\<close>

definition set_insert :: "neighbor_t \<Rightarrow> neighbor_t list \<Rightarrow> neighbor_t list" where
  "set_insert n ns = (if nb_key n \<in> nb_key ` set ns then ns else insort_key nb_key n ns)"

definition merge_pools :: "neighbor_t list \<Rightarrow> neighbor_t list \<Rightarrow> neighbor_t list" where
  "merge_pools filtered unfiltered = fold set_insert unfiltered (fold set_insert filtered [])"

definition erase_location :: "u32 \<Rightarrow> neighbor_t list \<Rightarrow> neighbor_t list" where
  "erase_location location pool = filter (\<lambda>n. nb_id n \<noteq> location) pool"

definition prune_indexing :: "'v vamana_index_t \<Rightarrow> (u32 \<Rightarrow> u32 \<Rightarrow> real) \<Rightarrow> (real \<Rightarrow> real) \<Rightarrow> bool \<Rightarrow> u32 \<Rightarrow> neighbor_t list
    \<Rightarrow> (exn + (u32 list \<times> rcni_prune_event_t list)) option" where
  "prune_indexing vi dd rnd observe_rcni location pool =
     prune_neighbors vi dd rnd observe_rcni location pool (vi_range vi) (vi_max_c vi) (vi_alpha vi)"

text \<open>The whole operation, when no other thread runs.\<close>

definition search_for_point_and_prune :: "'v vamana_index_t \<Rightarrow> (u32 \<Rightarrow> real) \<Rightarrow> (u32 \<Rightarrow> u32 \<Rightarrow> real) \<Rightarrow> (real \<Rightarrow> real) \<Rightarrow> bool \<Rightarrow> u32 \<Rightarrow> nat \<Rightarrow> bool \<Rightarrow> nat
    \<Rightarrow> in_mem_query_scratch_t \<Rightarrow> (exn + (u32 list \<times> rcni_prune_event_t list)) option" where
  "search_for_point_and_prune vi qd dd rnd observe_rcni location l_index use_filter filtered_l_index sc =
     (if \<not> use_filter then
        bindO (iterate_to_fixed_point vi qd l_index (get_init_ids vi) False [] False sc) (\<lambda>(sc, _).
          prune_indexing vi dd rnd observe_rcni location (erase_location location (sc_pool sc)))
      else
        (case label_starts vi location of
           Inl e \<Rightarrow> Some (Inl e)
         | Inr starts \<Rightarrow>
             bindO (iterate_to_fixed_point vi qd filtered_l_index starts True (vi_location_to_labels vi ! unat location) False sc) (\<lambda>(sf, _).
             bindO (iterate_to_fixed_point vi qd l_index (get_init_ids vi) False [] False (scratch_clear sf)) (\<lambda>(sc, _).
               prune_indexing vi dd rnd observe_rcni location
                 (erase_location location (merge_pools (sc_pool sf) (sc_pool sc)))))))"

subsection \<open>Reverse edges\<close>

definition graph_slack_factor :: real where
  "graph_slack_factor = 10905190 / 8388608"

definition slack_degree :: "(real \<Rightarrow> real) \<Rightarrow> nat \<Rightarrow> nat" where
  "slack_degree rnd max_degree = nat \<lfloor>rnd (graph_slack_factor * real max_degree)\<rfloor>"

text \<open>The locked block for one \<open>des\<close>: the copy to prune, if any.\<close>

definition reverse_edge :: "'v vamana_index_t \<Rightarrow> (real \<Rightarrow> real) \<Rightarrow> u32 \<Rightarrow> u32 \<Rightarrow> graph_store_t \<Rightarrow> exn + (graph_store_t \<times> u32 list option)" where
  "reverse_edge vi rnd n des g =
     bindE (get_neighbours g des) (\<lambda>des_pool.
       if n \<in> set des_pool then Inr (g, None)
       else if length des_pool < slack_degree rnd (vi_range vi)
       then bindE (add_neighbour des n g) (\<lambda>g. Inr (g, None))
       else Inr (g, Some (des_pool @ [n])))"

definition add_to_pool :: "(u32 \<Rightarrow> u32 \<Rightarrow> real) \<Rightarrow> u32 \<Rightarrow> u32 \<Rightarrow> neighbor_t list \<Rightarrow> neighbor_t list" where
  "add_to_pool dd des cur_nbr dummy_pool =
     (if cur_nbr \<notin> nb_id ` set dummy_pool \<and> cur_nbr \<noteq> des then dummy_pool @ [new_neighbor cur_nbr (dd des cur_nbr)] else dummy_pool)"

definition prune_copy :: "'v vamana_index_t \<Rightarrow> (u32 \<Rightarrow> u32 \<Rightarrow> real) \<Rightarrow> (real \<Rightarrow> real) \<Rightarrow> u32 \<Rightarrow> u32 list \<Rightarrow> (exn + u32 list) option" where
  "prune_copy vi dd rnd des copy_of_neighbors =
     bindO (prune_indexing vi dd rnd False des (fold (add_to_pool dd des) copy_of_neighbors [])) (\<lambda>(new_out_neighbors, _).
       Some (Inr new_out_neighbors))"

text \<open>\<open>inter_insert\<close> when no other thread runs.\<close>

fun inter_insert :: "'v vamana_index_t \<Rightarrow> (u32 \<Rightarrow> u32 \<Rightarrow> real) \<Rightarrow> (real \<Rightarrow> real) \<Rightarrow> u32 \<Rightarrow> u32 list \<Rightarrow> graph_store_t \<Rightarrow> (exn + graph_store_t) option" where
  "inter_insert vi dd rnd n [] g = Some (Inr g)"
| "inter_insert vi dd rnd n (des # rest) g =
     bindO (Some (reverse_edge vi rnd n des g)) (\<lambda>(g, copy).
       case copy of
         None \<Rightarrow> inter_insert vi dd rnd n rest g
       | Some copy_of_neighbors \<Rightarrow>
           bindO (prune_copy vi dd rnd des copy_of_neighbors) (\<lambda>new_out_neighbors.
           bindO (Some (set_neighbours des new_out_neighbors g)) (inter_insert vi dd rnd n rest)))"

subsection \<open>Concurrent tasks\<close>

datatype link_task =
    Waiting
  | Filtered_search in_mem_query_scratch_t
  | Plain_search "neighbor_t list" in_mem_query_scratch_t
  | Set_links "u32 list"
  | Reverse_links "u32 list"
  | Repair_links u32 "u32 list" "u32 list"
  | Finished

text \<open>
  One step of the task of node \<open>node\<close> on the shared graph.  A round of a search reads one adjacency list; the prune
  after the search works on local data; \<open>Repair_links\<close> prunes its stale copy and writes it back.
\<close>

definition task_step :: "'v vamana_index_t \<Rightarrow> (u32 \<Rightarrow> u32 \<Rightarrow> real) \<Rightarrow> (u32 \<Rightarrow> u32 \<Rightarrow> real) \<Rightarrow> (real \<Rightarrow> real) \<Rightarrow> bool \<Rightarrow> in_mem_query_scratch_t \<Rightarrow> u32
    \<Rightarrow> graph_store_t \<Rightarrow> link_task \<Rightarrow> (exn + (graph_store_t \<times> link_task)) option" where
  "task_step vi qd dd rnd observe_rcni scratch node g t =
     (case t of
        Waiting \<Rightarrow> Some
          (if vi_filtered vi
           then bindE (label_starts vi node) (\<lambda>starts.
                bindE (search_start vi (qd node) (vi_filter_queue_size vi) starts True (vi_location_to_labels vi ! unat node) False scratch)
                  (\<lambda>sc. Inr (g, Filtered_search sc)))
           else bindE (search_start vi (qd node) (vi_queue_size vi) (get_init_ids vi) False [] False scratch)
                  (\<lambda>sc. Inr (g, Plain_search [] sc)))
      | Filtered_search sc \<Rightarrow> Some
          (if has_unexpanded_node (sc_best sc)
           then bindE (expand_step vi g (qd node) True (vi_location_to_labels vi ! unat node) False sc) (\<lambda>sc. Inr (g, Filtered_search sc))
           else bindE (search_start vi (qd node) (vi_queue_size vi) (get_init_ids vi) False [] False (scratch_clear sc))
                  (\<lambda>sc'. Inr (g, Plain_search (sc_pool sc) sc')))
      | Plain_search filtered_pool sc \<Rightarrow>
          (if has_unexpanded_node (sc_best sc)
           then Some (bindE (expand_step vi g (qd node) False [] False sc) (\<lambda>sc. Inr (g, Plain_search filtered_pool sc)))
           else bindO (prune_indexing vi dd rnd observe_rcni node (erase_location node
                  (if vi_filtered vi then merge_pools filtered_pool (sc_pool sc) else sc_pool sc)))
                  (\<lambda>(pruned_list, events). Some (Inr (g, Set_links pruned_list))))
      | Set_links pruned_list \<Rightarrow> Some
          (bindE (set_neighbours node pruned_list g) (\<lambda>g. Inr (g, Reverse_links pruned_list)))
      | Reverse_links [] \<Rightarrow> Some (Inr (g, Finished))
      | Reverse_links (des # rest) \<Rightarrow> Some
          (bindE (reverse_edge vi rnd node des g) (\<lambda>(g, copy).
             Inr (g, case copy of None \<Rightarrow> Reverse_links rest | Some c \<Rightarrow> Repair_links des c rest)))
      | Repair_links des copy_of_neighbors rest \<Rightarrow>
          bindO (prune_copy vi dd rnd des copy_of_neighbors) (\<lambda>new_out_neighbors.
            Some (bindE (set_neighbours des new_out_neighbors g) (\<lambda>g. Inr (g, Reverse_links rest))))
      | Finished \<Rightarrow> Some (Inr (g, Finished)))"

type_synonym link_state = "graph_store_t \<times> (u32 \<times> link_task) list"

inductive link_step :: "'v vamana_index_t \<Rightarrow> (u32 \<Rightarrow> u32 \<Rightarrow> real) \<Rightarrow> (u32 \<Rightarrow> u32 \<Rightarrow> real) \<Rightarrow> (real \<Rightarrow> real) \<Rightarrow> bool \<Rightarrow> link_state \<Rightarrow> link_state \<Rightarrow> bool"
  for vi qd dd rnd observe_rcni where
  "i < length tasks \<Longrightarrow> tasks ! i = (node, t) \<Longrightarrow> t \<noteq> Finished \<Longrightarrow> scratch_fresh vi scratch \<Longrightarrow>
     task_step vi qd dd rnd observe_rcni scratch node g t = Some (Inr (g', t')) \<Longrightarrow>
     link_step vi qd dd rnd observe_rcni (g, tasks) (g', tasks[i := (node, t')])"

inductive_cases link_step_cases: "link_step vi qd dd rnd observe_rcni (g, tasks) s'"

definition visit_order :: "'v vamana_index_t \<Rightarrow> u32 list" where
  "visit_order vi = map of_nat [0..<vi_nd vi] @ frozen_locations vi"

definition choose_start :: "u32 \<Rightarrow> 'v vamana_index_t \<Rightarrow> 'v vamana_index_t" where
  "choose_start entry_point vi = vi\<lparr>vi_start := (if vi_num_frozen vi > 0 then of_nat (vi_max_points vi) else entry_point)\<rparr>"

definition link_start :: "'v vamana_index_t \<Rightarrow> link_state" where
  "link_start vi = (vi_graph vi, map (\<lambda>node. (node, Waiting)) (visit_order vi))"

text \<open>The final cleanup of one node.\<close>

definition cleanup_node :: "'v vamana_index_t \<Rightarrow> (u32 \<Rightarrow> u32 \<Rightarrow> real) \<Rightarrow> (real \<Rightarrow> real) \<Rightarrow> u32 \<Rightarrow> graph_store_t \<Rightarrow> (exn + graph_store_t) option" where
  "cleanup_node vi dd rnd node g =
     bindO (Some (get_neighbours g node)) (\<lambda>nbrs.
       if length nbrs > vi_range vi
       then bindO (prune_copy vi dd rnd node nbrs) (\<lambda>new_out_neighbors.
            bindO (Some (clear_neighbours node g)) (\<lambda>g. Some (set_neighbours node new_out_neighbors g)))
       else Some (Inr g))"

fun cleanup :: "'v vamana_index_t \<Rightarrow> (u32 \<Rightarrow> u32 \<Rightarrow> real) \<Rightarrow> (real \<Rightarrow> real) \<Rightarrow> u32 list \<Rightarrow> graph_store_t \<Rightarrow> (exn + graph_store_t) option" where
  "cleanup vi dd rnd [] g = Some (Inr g)"
| "cleanup vi dd rnd (node # nodes) g = bindO (cleanup_node vi dd rnd node g) (cleanup vi dd rnd nodes)"

end
