(* ===== verification/Vamana_Link_Correct.thy ===== *)
theory Vamana_Link_Correct
  imports Vamana_Link
begin

text \<open>
  Any interleaving of the linking tasks keeps the graph well formed, never throws and ends: the invariant of the
  tasks, the measure every step decreases, and the final cleanup.
\<close>

subsection \<open>The context of a build\<close>

definition build_ready :: "'v vamana_index_t \<Rightarrow> (real \<Rightarrow> real) \<Rightarrow> bool" where
  "build_ready vi rnd \<longleftrightarrow>
     unat (vi_start vi) < internal_points vi \<and> internal_points vi \<le> 4294967296 \<and> 0 < vi_queue_size vi
     \<and> vi_alpha vi < flt_max \<and> growing rnd (vi_alpha vi)
     \<and> (vi_filtered vi \<longrightarrow> 0 < vi_filter_queue_size vi \<and> internal_points vi \<le> length (vi_location_to_labels vi)
          \<and> (\<forall>s \<in> snd ` set (vi_label_to_start vi). unat s < internal_points vi))"

definition degree_bound :: "'v vamana_index_t \<Rightarrow> (real \<Rightarrow> real) \<Rightarrow> nat" where
  "degree_bound vi rnd = max (vi_range vi) (slack_degree rnd (vi_range vi))"

definition graph_good :: "'v vamana_index_t \<Rightarrow> (real \<Rightarrow> real) \<Rightarrow> graph_store_t \<Rightarrow> bool" where
  "graph_good vi rnd g \<longleftrightarrow> graph_ok (internal_points vi) g
     \<and> (\<forall>i. unat i < internal_points vi \<longrightarrow> length (adjacency g i) \<le> degree_bound vi rnd)"

definition in_range :: "'v vamana_index_t \<Rightarrow> u32 list \<Rightarrow> bool" where
  "in_range vi ns \<longleftrightarrow> (\<forall>i \<in> set ns. unat i < internal_points vi)"

definition pool_ok :: "'v vamana_index_t \<Rightarrow> (u32 \<Rightarrow> real) \<Rightarrow> neighbor_t list \<Rightarrow> bool" where
  "pool_ok vi q pool \<longleftrightarrow> (\<forall>n \<in> set pool. nb_distance n = q (nb_id n) \<and> unat (nb_id n) < internal_points vi)"

definition links_ok :: "'v vamana_index_t \<Rightarrow> u32 \<Rightarrow> u32 list \<Rightarrow> bool" where
  "links_ok vi node ns \<longleftrightarrow> list_ok (internal_points vi) node ns \<and> length ns \<le> vi_range vi"

fun task_ok :: "'v vamana_index_t \<Rightarrow> (u32 \<Rightarrow> u32 \<Rightarrow> real) \<Rightarrow> u32 \<Rightarrow> link_task \<Rightarrow> bool" where
  "task_ok vi qd node Waiting = True"
| "task_ok vi qd node (Filtered_search sc) = (vi_filtered vi \<and> search_inv vi (qd node) (vi_filter_queue_size vi) sc)"
| "task_ok vi qd node (Plain_search fp sc) = (search_inv vi (qd node) (vi_queue_size vi) sc \<and> pool_ok vi (qd node) fp)"
| "task_ok vi qd node (Set_links ns) = links_ok vi node ns"
| "task_ok vi qd node (Reverse_links ds) = (in_range vi ds \<and> node \<notin> set ds \<and> length ds \<le> vi_range vi)"
| "task_ok vi qd node (Repair_links des c rest) =
     (in_range vi (des # c @ rest) \<and> node \<notin> set rest \<and> length rest \<le> vi_range vi)"
| "task_ok vi qd node Finished = True"

definition search_bound :: "'v vamana_index_t \<Rightarrow> nat" where
  "search_bound vi = internal_points vi + max (vi_queue_size vi) (vi_filter_queue_size vi) + 1"

fun task_measure :: "'v vamana_index_t \<Rightarrow> link_task \<Rightarrow> nat" where
  "task_measure vi Waiting = 2 * search_bound vi + 2 * vi_range vi + 10"
| "task_measure vi (Filtered_search sc) = search_measure vi sc + search_bound vi + 2 * vi_range vi + 6"
| "task_measure vi (Plain_search fp sc) = search_measure vi sc + 2 * vi_range vi + 5"
| "task_measure vi (Set_links ns) = 2 * vi_range vi + 4"
| "task_measure vi (Reverse_links ds) = 2 * length ds + 1"
| "task_measure vi (Repair_links des c rest) = 2 * length rest + 2"
| "task_measure vi Finished = 0"

subsection \<open>Pools and prunes\<close>

lemma search_measure_bound:
  assumes "search_inv vi q l sc" "l \<le> max (vi_queue_size vi) (vi_filter_queue_size vi)"
  shows "search_measure vi sc < search_bound vi"
proof -
  have q: "queue_ok (sc_best sc)" "q_capacity (sc_best sc) = l" using assms(1) by (simp_all add: search_inv_def)
  have "card (unexpanded (sc_best sc)) \<le> card (set (frontier (sc_best sc)))"
    unfolding unexpanded_def by (intro card_mono) auto
  also have "\<dots> \<le> length (frontier (sc_best sc))" by (rule card_length)
  also have "\<dots> \<le> l" using q length_frontier [OF q(1)] by (simp add: queue_ok_def)
  finally show ?thesis using assms(2) by (simp add: search_measure_def search_bound_def)
qed

lemma search_pool_ok: "search_inv vi q l sc \<Longrightarrow> pool_ok vi q (sc_pool sc)"
  by (auto simp: search_inv_def pool_ok_def)

lemma set_insert_ok:
  assumes "distinct (map nb_id ns)" "pool_ok vi q (n # ns)"
  shows "distinct (map nb_id (set_insert n ns)) \<and> pool_ok vi q (set_insert n ns)"
proof (cases "nb_key n \<in> nb_key ` set ns")
  case True
  with assms show ?thesis by (simp add: set_insert_def pool_ok_def)
next
  case False
  have "nb_id n \<notin> nb_id ` set ns"
  proof
    assume "nb_id n \<in> nb_id ` set ns"
    then obtain m where "m \<in> set ns" "nb_id m = nb_id n" by auto
    with assms(2) have "nb_key m = nb_key n" by (simp add: pool_ok_def nb_key_def)
    with \<open>m \<in> set ns\<close> False show False by (metis imageI)
  qed
  then have "distinct (map nb_id (n # ns))" using assms(1) by simp
  moreover have "mset (map nb_id (insort_key nb_key n ns)) = mset (map nb_id (n # ns))" by simp
  ultimately have "distinct (map nb_id (insort_key nb_key n ns))" by (metis mset_eq_imp_distinct_iff)
  moreover have "pool_ok vi q (insort_key nb_key n ns)" using assms(2) by (simp add: pool_ok_def set_insort_key)
  ultimately show ?thesis using False by (simp add: set_insert_def)
qed

lemma fold_set_insert_ok:
  "distinct (map nb_id ns) \<Longrightarrow> pool_ok vi q ns \<Longrightarrow> pool_ok vi q ms \<Longrightarrow>
     distinct (map nb_id (fold set_insert ms ns)) \<and> pool_ok vi q (fold set_insert ms ns)"
proof (induction ms arbitrary: ns)
  case (Cons m ms)
  from Cons.prems have p: "pool_ok vi q (m # ns)" "pool_ok vi q ms" by (simp_all add: pool_ok_def)
  from set_insert_ok [OF Cons.prems(1) p(1)] Cons.IH [of "set_insert m ns"] p(2) show ?case by simp
qed simp

lemma merge_pools_ok:
  "pool_ok vi q fp \<Longrightarrow> pool_ok vi q up \<Longrightarrow> distinct (map nb_id (merge_pools fp up)) \<and> pool_ok vi q (merge_pools fp up)"
  unfolding merge_pools_def using fold_set_insert_ok [of "[]" vi q fp] fold_set_insert_ok [of "fold set_insert fp []" vi q up]
  by (simp add: pool_ok_def)

lemma ready_labels:
  "build_ready vi rnd \<Longrightarrow> \<forall>n \<in> set pool. unat (nb_id n) < internal_points vi \<Longrightarrow> labels_ready vi pool"
  by (auto simp: build_ready_def labels_ready_def)

lemma prune_indexing_ok:
  assumes ready: "build_ready vi rnd" and ids: "distinct (map nb_id pool)" and rng: "\<forall>n \<in> set pool. unat (nb_id n) < internal_points vi"
  shows "\<exists>ns events. prune_indexing vi dd rnd observe_rcni node pool = Some (Inr (ns, events)) \<and> links_ok vi node ns"
proof -
  from ready have a: "vi_alpha vi < flt_max" "growing rnd (vi_alpha vi)" by (simp_all add: build_ready_def)
  from prune_neighbors_safe [OF ready_labels [OF ready rng] ids a, of dd observe_rcni node "vi_range vi" "vi_max_c vi"]
  obtain ns events where p: "prune_neighbors vi dd rnd observe_rcni node pool (vi_range vi) (vi_max_c vi) (vi_alpha vi) = Some (Inr (ns, events))"
    "selection_ok pool node {} (vi_range vi) ns" by blast
  have "links_ok vi node ns" using p(2) rng by (auto simp: selection_ok_def links_ok_def list_ok_def)
  with p(1) show ?thesis by (auto simp: prune_indexing_def)
qed

lemma fold_add_to_pool:
  "distinct (map nb_id ps) \<Longrightarrow> distinct (map nb_id (fold (add_to_pool dd des) c ps))
     \<and> nb_id ` set (fold (add_to_pool dd des) c ps) \<subseteq> set c \<union> nb_id ` set ps"
proof (induction c arbitrary: ps)
  case (Cons x c)
  have "distinct (map nb_id (add_to_pool dd des x ps))" "nb_id ` set (add_to_pool dd des x ps) \<subseteq> insert x (nb_id ` set ps)"
    using Cons.prems by (auto simp: add_to_pool_def)
  with Cons.IH [of "add_to_pool dd des x ps"] show ?case by (simp only: fold.simps comp_def list.set) blast
qed simp

lemma prune_copy_ok:
  assumes ready: "build_ready vi rnd" and c: "in_range vi c"
  shows "\<exists>ns. prune_copy vi dd rnd des c = Some (Inr ns) \<and> links_ok vi des ns"
proof -
  let ?P = "fold (add_to_pool dd des) c []"
  from fold_add_to_pool [of "[]" dd des c] have P: "distinct (map nb_id ?P)" "nb_id ` set ?P \<subseteq> set c" by simp_all
  have "\<forall>n \<in> set ?P. unat (nb_id n) < internal_points vi" using P(2) c by (auto simp: in_range_def)
  from prune_indexing_ok [OF ready P(1) this, of dd False des] show ?thesis
    by (auto simp: prune_copy_def bindO_def)
qed

lemma graph_good_set:
  assumes good: "graph_good vi rnd g" and i: "unat i < internal_points vi"
    and ns: "list_ok (internal_points vi) i ns" "length ns \<le> degree_bound vi rnd"
    and g': "length (gs_graph g') = length (gs_graph g)" "adjacency g' = (adjacency g)(i := ns)"
  shows "graph_good vi rnd g'"
  using good graph_ok_update [of "internal_points vi" g g' i ns] ns g' by (auto simp: graph_good_def)

lemma set_links_good:
  assumes good: "graph_good vi rnd g" and i: "unat i < internal_points vi" and ns: "links_ok vi i ns"
  shows "\<exists>g'. set_neighbours i ns g = Inr g' \<and> graph_good vi rnd g'"
proof -
  have "unat i < length (gs_graph g)" using good i by (simp add: graph_good_def graph_ok_def)
  from set_neighbours_Inr [OF this, of ns] obtain g' where g': "set_neighbours i ns g = Inr g'"
    "length (gs_graph g') = length (gs_graph g)" "adjacency g' = (adjacency g)(i := ns)" by blast
  have "list_ok (internal_points vi) i ns" "length ns \<le> degree_bound vi rnd"
    using ns by (auto simp: links_ok_def degree_bound_def)
  from graph_good_set [OF good i this g'(2,3)] g'(1) show ?thesis by blast
qed

lemma reverse_edge_good:
  assumes good: "graph_good vi rnd g" and n: "unat n < internal_points vi" "unat des < internal_points vi" "des \<noteq> n"
  shows "\<exists>g' copy. reverse_edge vi rnd n des g = Inr (g', copy) \<and> graph_good vi rnd g'
    \<and> (case copy of None \<Rightarrow> True | Some c \<Rightarrow> in_range vi c)"
proof -
  have len: "unat des < length (gs_graph g)" using good n by (simp add: graph_good_def graph_ok_def)
  let ?ns = "adjacency g des"
  have ns: "list_ok (internal_points vi) des ?ns" using good n by (auto simp: graph_good_def graph_ok_adjacency)
  show ?thesis
  proof (cases "n \<notin> set ?ns \<and> length ?ns < slack_degree rnd (vi_range vi)")
    case True
    from add_neighbour_Inr [OF len, of n] obtain g' where g': "add_neighbour des n g = Inr g'"
      "length (gs_graph g') = length (gs_graph g)" "adjacency g' = (adjacency g)(des := ?ns @ [n])" by blast
    have "list_ok (internal_points vi) des (?ns @ [n])" "length (?ns @ [n]) \<le> degree_bound vi rnd"
      using True ns n by (auto simp: list_ok_def degree_bound_def)
    from graph_good_set [OF good n(2) this g'(2,3)] True g'(1) show ?thesis
      by (auto simp: reverse_edge_def get_neighbours_Inr [OF len])
  next
    case False
    then show ?thesis using good ns n by (auto simp: reverse_edge_def get_neighbours_Inr [OF len] in_range_def list_ok_def)
  qed
qed

subsection \<open>One step\<close>

lemma label_starts_ok:
  assumes ready: "build_ready vi rnd" and f: "vi_filtered vi" and node: "unat node < internal_points vi"
  shows "\<exists>starts. label_starts vi node = Inr starts \<and> in_range vi starts"
proof -
  let ?f = "\<lambda>x. case map_of (vi_label_to_start vi) x of Some s \<Rightarrow> s | None \<Rightarrow> 0"
  have "unat (?f x) < internal_points vi" for x
  proof (cases "map_of (vi_label_to_start vi) x")
    case (Some s)
    then have "s \<in> snd ` set (vi_label_to_start vi)" by (metis map_of_SomeD snd_conv image_eqI)
    with ready f Some show ?thesis by (auto simp: build_ready_def)
  next
    case None
    with node show ?thesis using le_less_trans [of 0 "unat node" "internal_points vi"] by simp
  qed
  then show ?thesis using ready f node by (auto simp: label_starts_def build_ready_def in_range_def)
qed

lemma plain_start_ok:
  assumes ready: "build_ready vi rnd" and fresh: "scratch_fresh vi scratch"
  shows "\<exists>sc. search_start vi q (vi_queue_size vi) (get_init_ids vi) False ls False scratch = Inr sc
    \<and> search_inv vi q (vi_queue_size vi) sc"
proof -
  have "filter_ready vi False" by (simp add: filter_ready_def)
  moreover have "\<forall>i \<in> set (get_init_ids vi). unat i < internal_points vi"
    using ready by (intro init_ids_range) (simp_all add: build_ready_def)
  ultimately show ?thesis using search_start_correct [of vi False "get_init_ids vi" scratch "vi_queue_size vi" q ls False] fresh ready
    by (auto simp: build_ready_def)
qed

lemma step_Waiting:
  assumes ready: "build_ready vi rnd" and node: "unat node < internal_points vi" and fresh: "scratch_fresh vi scratch"
  shows "\<exists>t'. task_step vi qd dd rnd observe_rcni scratch node g Waiting = Some (Inr (g, t')) \<and> task_ok vi qd node t'
    \<and> task_measure vi t' < task_measure vi Waiting"
proof (cases "vi_filtered vi")
  case True
  from label_starts_ok [OF ready True node] obtain starts where s: "label_starts vi node = Inr starts" "in_range vi starts" by blast
  have "filter_ready vi True" using ready True by (simp add: filter_ready_def build_ready_def)
  with search_start_correct [of vi True starts scratch "vi_filter_queue_size vi" "qd node" "vi_location_to_labels vi ! unat node" False]
    s(2) fresh ready True obtain sc where
    sc: "search_start vi (qd node) (vi_filter_queue_size vi) starts True (vi_location_to_labels vi ! unat node) False scratch = Inr sc"
      "search_inv vi (qd node) (vi_filter_queue_size vi) sc" by (auto simp: build_ready_def in_range_def)
  from search_measure_bound [OF sc(2)] s(1) sc True show ?thesis by (simp add: task_step_def)
next
  case False
  from plain_start_ok [OF ready fresh, of "qd node" "[]"] obtain sc where
    sc: "search_start vi (qd node) (vi_queue_size vi) (get_init_ids vi) False [] False scratch = Inr sc"
      "search_inv vi (qd node) (vi_queue_size vi) sc" by blast
  from search_measure_bound [OF sc(2)] sc False show ?thesis by (simp add: task_step_def pool_ok_def)
qed

lemma step_Filtered:
  assumes ready: "build_ready vi rnd" and good: "graph_good vi rnd g" and ok: "task_ok vi qd node (Filtered_search sc)"
  shows "\<exists>t'. task_step vi qd dd rnd observe_rcni scratch node g (Filtered_search sc) = Some (Inr (g, t')) \<and> task_ok vi qd node t'
    \<and> task_measure vi t' < task_measure vi (Filtered_search sc)"
proof (cases "has_unexpanded_node (sc_best sc)")
  case True
  have r: "filter_ready vi True" "graph_ok (internal_points vi) g" "search_inv vi (qd node) (vi_filter_queue_size vi) sc"
    using ready ok good by (auto simp: filter_ready_def build_ready_def graph_good_def)
  from expand_step_correct [OF r(3,1,2) True, of "vi_location_to_labels vi ! unat node" False] obtain sc' where
    "expand_step vi g (qd node) True (vi_location_to_labels vi ! unat node) False sc = Inr sc'"
    "search_inv vi (qd node) (vi_filter_queue_size vi) sc'" "search_measure vi sc' < search_measure vi sc" by blast
  with True ok show ?thesis by (simp add: task_step_def)
next
  case False
  from plain_start_ok [OF ready scratch_clear_fresh, of "qd node" "[]" sc] obtain s' where
    s': "search_start vi (qd node) (vi_queue_size vi) (get_init_ids vi) False [] False (scratch_clear sc) = Inr s'"
      "search_inv vi (qd node) (vi_queue_size vi) s'" by blast
  have "search_measure vi s' < search_bound vi" using search_measure_bound [OF s'(2)] by simp
  moreover have "pool_ok vi (qd node) (sc_pool sc)" using ok by (auto intro: search_pool_ok)
  ultimately show ?thesis using False s' by (simp add: task_step_def)
qed

lemma step_Plain:
  assumes ready: "build_ready vi rnd" and good: "graph_good vi rnd g" and ok: "task_ok vi qd node (Plain_search fp sc)"
  shows "\<exists>t'. task_step vi qd dd rnd observe_rcni scratch node g (Plain_search fp sc) = Some (Inr (g, t')) \<and> task_ok vi qd node t'
    \<and> task_measure vi t' < task_measure vi (Plain_search fp sc)"
proof (cases "has_unexpanded_node (sc_best sc)")
  case True
  have r: "filter_ready vi False" "graph_ok (internal_points vi) g" "search_inv vi (qd node) (vi_queue_size vi) sc"
    using ok good by (auto simp: filter_ready_def graph_good_def)
  from expand_step_correct [OF r(3,1,2) True, of "[]" False] obtain sc' where
    "expand_step vi g (qd node) False [] False sc = Inr sc'"
    "search_inv vi (qd node) (vi_queue_size vi) sc'" "search_measure vi sc' < search_measure vi sc" by blast
  with True ok show ?thesis by (simp add: task_step_def)
next
  case False
  let ?M = "if vi_filtered vi then merge_pools fp (sc_pool sc) else sc_pool sc"
  have p: "pool_ok vi (qd node) (sc_pool sc)" "distinct (map nb_id (sc_pool sc))" "pool_ok vi (qd node) fp"
    using ok search_pool_ok by (auto simp: search_inv_def)
  have "distinct (map nb_id ?M) \<and> pool_ok vi (qd node) ?M" using p merge_pools_ok by auto
  then have "distinct (map nb_id (erase_location node ?M))" "\<forall>n \<in> set (erase_location node ?M). unat (nb_id n) < internal_points vi"
    by (auto simp: erase_location_def pool_ok_def distinct_map_filter)
  from prune_indexing_ok [OF ready this, of dd observe_rcni node] obtain ns events where
    "prune_indexing vi dd rnd observe_rcni node (erase_location node ?M) = Some (Inr (ns, events))" "links_ok vi node ns" by blast
  with False show ?thesis by (simp add: task_step_def bindO_def)
qed

lemma step_Reverse:
  assumes good: "graph_good vi rnd g" and node: "unat node < internal_points vi" and ok: "task_ok vi qd node (Reverse_links ds)"
  shows "\<exists>g' t'. task_step vi qd dd rnd observe_rcni scratch node g (Reverse_links ds) = Some (Inr (g', t')) \<and> graph_good vi rnd g'
    \<and> task_ok vi qd node t' \<and> task_measure vi t' < task_measure vi (Reverse_links ds)"
proof (cases ds)
  case Nil
  with good show ?thesis by (simp add: task_step_def)
next
  case (Cons des rest)
  with ok have d: "unat des < internal_points vi" "des \<noteq> node" "in_range vi rest" "node \<notin> set rest" "length rest \<le> vi_range vi"
    by (auto simp: in_range_def)
  from reverse_edge_good [OF good node d(1,2)] obtain g' copy where
    r: "reverse_edge vi rnd node des g = Inr (g', copy)" "graph_good vi rnd g'" "case copy of None \<Rightarrow> True | Some c \<Rightarrow> in_range vi c"
    by blast
  then show ?thesis using d Cons by (cases copy) (auto simp: task_step_def in_range_def)
qed

lemma step_Repair:
  assumes ready: "build_ready vi rnd" and good: "graph_good vi rnd g" and ok: "task_ok vi qd node (Repair_links des c rest)"
  shows "\<exists>g' t'. task_step vi qd dd rnd observe_rcni scratch node g (Repair_links des c rest) = Some (Inr (g', t')) \<and> graph_good vi rnd g'
    \<and> task_ok vi qd node t' \<and> task_measure vi t' < task_measure vi (Repair_links des c rest)"
proof -
  from ok have d: "unat des < internal_points vi" "in_range vi c" "in_range vi rest" by (auto simp: in_range_def)
  from prune_copy_ok [OF ready d(2), of dd des] obtain ns where p: "prune_copy vi dd rnd des c = Some (Inr ns)" "links_ok vi des ns" by blast
  from set_links_good [OF good d(1) p(2)] obtain g' where "set_neighbours des ns g = Inr g'" "graph_good vi rnd g'" by blast
  with p(1) ok d(3) show ?thesis by (simp add: task_step_def bindO_def)
qed

lemma task_step_ok:
  assumes "build_ready vi rnd" "graph_good vi rnd g" "unat node < internal_points vi" "task_ok vi qd node t"
    "scratch_fresh vi scratch" "t \<noteq> Finished"
  shows "\<exists>g' t'. task_step vi qd dd rnd observe_rcni scratch node g t = Some (Inr (g', t')) \<and> graph_good vi rnd g'
    \<and> task_ok vi qd node t' \<and> task_measure vi t' < task_measure vi t"
proof (cases t)
  case Waiting
  then show ?thesis using step_Waiting [OF assms(1,3,5)] assms(2) by blast
next
  case (Filtered_search sc)
  then show ?thesis using step_Filtered [OF assms(1,2)] assms(2,4) by blast
next
  case (Plain_search fp sc)
  then show ?thesis using step_Plain [OF assms(1,2)] assms(2,4) by blast
next
  case (Set_links ns)
  with assms(4) have "links_ok vi node ns" by simp
  from set_links_good [OF assms(2,3) this] this Set_links show ?thesis
    by (auto simp: task_step_def links_ok_def list_ok_def in_range_def)
next
  case (Reverse_links ds)
  then show ?thesis using step_Reverse [OF assms(2,3)] assms(4) by blast
next
  case (Repair_links des c rest)
  then show ?thesis using step_Repair [OF assms(1,2)] assms(4) by blast
qed (use assms(6) in simp)

subsection \<open>Every interleaving\<close>

definition link_inv :: "'v vamana_index_t \<Rightarrow> (u32 \<Rightarrow> u32 \<Rightarrow> real) \<Rightarrow> (real \<Rightarrow> real) \<Rightarrow> link_state \<Rightarrow> bool" where
  "link_inv vi qd rnd s \<longleftrightarrow> graph_good vi rnd (fst s)
     \<and> (\<forall>(node, t) \<in> set (snd s). unat node < internal_points vi \<and> task_ok vi qd node t)"

definition link_measure :: "'v vamana_index_t \<Rightarrow> link_state \<Rightarrow> nat" where
  "link_measure vi s = (\<Sum>(node, t) \<leftarrow> snd s. task_measure vi t)"

lemma sum_list_update_less:
  "i < length xs \<Longrightarrow> f y < (f (xs ! i) :: nat) \<Longrightarrow> sum_list (map f (xs[i := y])) < sum_list (map f xs)"
proof (induction xs arbitrary: i)
  case (Cons x xs)
  then show ?case by (cases i) auto
qed simp

lemma link_step_inv:
  assumes ready: "build_ready vi rnd" and inv: "link_inv vi qd rnd s" and step: "link_step vi qd dd rnd observe_rcni s s'"
  shows "link_inv vi qd rnd s' \<and> link_measure vi s' < link_measure vi s \<and> map fst (snd s') = map fst (snd s)"
proof -
  obtain g tasks where s: "s = (g, tasks)" by fastforce
  from step [unfolded s] obtain i node t scratch g' t' where
    st: "i < length tasks" "tasks ! i = (node, t)" "t \<noteq> Finished" "scratch_fresh vi scratch"
      "task_step vi qd dd rnd observe_rcni scratch node g t = Some (Inr (g', t'))" "s' = (g', tasks[i := (node, t')])"
    by (auto elim: link_step_cases)
  have "(node, t) \<in> set tasks" using st(1,2) by (metis nth_mem)
  with inv s have n: "graph_good vi rnd g" "unat node < internal_points vi" "task_ok vi qd node t" by (auto simp: link_inv_def)
  from task_step_ok [OF ready n st(4,3), of dd observe_rcni] st(5) have
    r: "graph_good vi rnd g'" "task_ok vi qd node t'" "task_measure vi t' < task_measure vi t" by auto
  have "set (tasks[i := (node, t')]) \<subseteq> insert (node, t') (set tasks)" by (rule set_update_subset_insert)
  then have "link_inv vi qd rnd s'" using r n inv s st(6) by (auto simp: link_inv_def)
  moreover have "link_measure vi s' < link_measure vi s"
    unfolding link_measure_def s st(6) snd_conv using st(1,2) r(3) by (intro sum_list_update_less) simp_all
  moreover have "map fst (tasks[i := (node, t')]) = map fst tasks"
    using st(1,2) by (intro nth_equalityI) (auto simp: nth_list_update)
  ultimately show ?thesis using s st(6) by simp
qed

lemma label_free_start:
  assumes "graph_good vi rnd (vi_graph vi)" "vi_nd vi \<le> vi_max_points vi" "internal_points vi \<le> 4294967296"
  shows "link_inv vi qd rnd (link_start vi)"
  using assms by (auto simp: link_inv_def link_start_def visit_order_def frozen_locations_def unat_of_index)

text \<open>The contract of a state machine with an invariant, met by the linking tasks.\<close>

definition link_begins :: "'v vamana_index_t \<Rightarrow> (real \<Rightarrow> real) \<Rightarrow> link_state \<Rightarrow> bool" where
  "link_begins vi rnd s \<longleftrightarrow> build_ready vi rnd \<and> graph_good vi rnd (vi_graph vi) \<and> vi_nd vi \<le> vi_max_points vi \<and> s = link_start vi"

interpretation linking: invariant_system "link_begins vi rnd" "link_step vi qd dd rnd observe_rcni"
  "\<lambda>s. build_ready vi rnd \<and> link_inv vi qd rnd s \<and> map fst (snd s) = visit_order vi"
  for vi qd dd rnd observe_rcni
proof
  fix s
  assume "link_begins vi rnd s"
  then show "build_ready vi rnd \<and> link_inv vi qd rnd s \<and> map fst (snd s) = visit_order vi"
    using label_free_start [of vi rnd qd] by (auto simp: link_begins_def build_ready_def link_start_def comp_def)
next
  fix s t
  assume "build_ready vi rnd \<and> link_inv vi qd rnd s \<and> map fst (snd s) = visit_order vi" "link_step vi qd dd rnd observe_rcni s t"
  then show "build_ready vi rnd \<and> link_inv vi qd rnd t \<and> map fst (snd t) = visit_order vi"
    using link_step_inv [of vi rnd qd s dd observe_rcni t] by simp
qed

lemma link_progress:
  assumes ready: "build_ready vi rnd" and inv: "link_inv vi qd rnd (g, tasks)" and t: "(node, t) \<in> set tasks" "t \<noteq> Finished"
    and fresh: "scratch_fresh vi scratch"
  shows "\<exists>g' t'. task_step vi qd dd rnd observe_rcni scratch node g t = Some (Inr (g', t'))"
proof -
  have "graph_good vi rnd g" "unat node < internal_points vi" "task_ok vi qd node t" using inv t(1) by (auto simp: link_inv_def)
  from task_step_ok [OF ready this fresh t(2), of dd observe_rcni] show ?thesis by blast
qed

lemma steps_measure:
  assumes "build_ready vi rnd" "link_inv vi qd rnd s" "(link_step vi qd dd rnd observe_rcni ^^ n) s s'"
  shows "n + link_measure vi s' \<le> link_measure vi s \<and> link_inv vi qd rnd s'"
  using assms(3)
proof (induction n arbitrary: s')
  case (Suc n)
  then obtain t where t: "(link_step vi qd dd rnd observe_rcni ^^ n) s t" "link_step vi qd dd rnd observe_rcni t s'" by auto
  from Suc.IH [OF t(1)] link_step_inv [OF assms(1) _ t(2)] show ?case by fastforce
qed (use assms(2) in simp)

subsection \<open>Cleanup\<close>

lemma cleanup_node_ok:
  assumes ready: "build_ready vi rnd" and good: "graph_good vi rnd g" and node: "unat node < internal_points vi"
  shows "\<exists>g'. cleanup_node vi dd rnd node g = Some (Inr g') \<and> graph_good vi rnd g'
    \<and> length (adjacency g' node) \<le> vi_range vi \<and> (\<forall>i. i \<noteq> node \<longrightarrow> adjacency g' i = adjacency g i)"
proof -
  have len: "unat node < length (gs_graph g)" using good node by (simp add: graph_good_def graph_ok_def)
  have ns: "list_ok (internal_points vi) node (adjacency g node)" using good node by (auto simp: graph_good_def graph_ok_adjacency)
  show ?thesis
  proof (cases "length (adjacency g node) > vi_range vi")
    case True
    have "in_range vi (adjacency g node)" using ns by (auto simp: in_range_def list_ok_def)
    from prune_copy_ok [OF ready this, of dd node] obtain out where
      p: "prune_copy vi dd rnd node (adjacency g node) = Some (Inr out)" "links_ok vi node out" by blast
    from clear_neighbours_Inr [OF len] obtain gc where c: "clear_neighbours node g = Inr gc"
      "length (gs_graph gc) = length (gs_graph g)" "adjacency gc = (adjacency g)(node := [])" by blast
    from set_neighbours_Inr [of node gc out] c len obtain g' where s: "set_neighbours node out gc = Inr g'"
      "length (gs_graph g') = length (gs_graph g)" "adjacency g' = (adjacency g)(node := out)" by auto
    have "length out \<le> degree_bound vi rnd" using p(2) unfolding links_ok_def degree_bound_def by linarith
    with graph_good_set [OF good node _ _ s(2,3)] p(2) have "graph_good vi rnd g'" by (simp add: links_ok_def)
    with True p c s show ?thesis by (auto simp: cleanup_node_def bindO_def get_neighbours_Inr [OF len] links_ok_def)
  next
    case False
    with good show ?thesis by (simp add: cleanup_node_def bindO_def get_neighbours_Inr [OF len])
  qed
qed

lemma cleanup_ok:
  assumes "build_ready vi rnd" "graph_good vi rnd g" "in_range vi nodes"
  shows "\<exists>g'. cleanup vi dd rnd nodes g = Some (Inr g') \<and> graph_good vi rnd g'
    \<and> (\<forall>i. i \<in> set nodes \<or> length (adjacency g i) \<le> vi_range vi \<longrightarrow> length (adjacency g' i) \<le> vi_range vi)"
  using assms(2,3)
proof (induction nodes arbitrary: g)
  case (Cons node nodes)
  from Cons.prems(2) have n: "unat node < internal_points vi" "in_range vi nodes" by (auto simp: in_range_def)
  from cleanup_node_ok [OF assms(1) Cons.prems(1) n(1), of dd] obtain gm where
    m: "cleanup_node vi dd rnd node g = Some (Inr gm)" "graph_good vi rnd gm" "length (adjacency gm node) \<le> vi_range vi"
      "\<forall>i. i \<noteq> node \<longrightarrow> adjacency gm i = adjacency g i" by blast
  from Cons.IH [OF m(2) n(2)] obtain g' where
    g': "cleanup vi dd rnd nodes gm = Some (Inr g')" "graph_good vi rnd g'"
      "\<forall>i. i \<in> set nodes \<or> length (adjacency gm i) \<le> vi_range vi \<longrightarrow> length (adjacency g' i) \<le> vi_range vi" by blast
  have "length (adjacency g' i) \<le> vi_range vi" if "i \<in> set (node # nodes) \<or> length (adjacency g i) \<le> vi_range vi" for i
    using that m(3,4) g'(3) by (cases "i = node") auto
  with m(1) g'(1,2) show ?case by (simp add: bindO_def)
qed simp

text \<open>C9: While the tasks of any number of threads link the nodes, in any order and interleaving of their
  critical sections, every adjacency list stays free of duplicates and self loops, in range and within
  \<open>max(R, 1.3 R)\<close>; and every unfinished task can take its next step without an exception.\<close>

theorem link_invariant:
  assumes "build_ready vi rnd" "graph_good vi rnd (vi_graph vi)" "vi_nd vi \<le> vi_max_points vi"
    "(link_step vi qd dd rnd observe_rcni)\<^sup>*\<^sup>* (link_start vi) (g, tasks)"
  shows "graph_good vi rnd g \<and> (\<forall>scratch node t. scratch_fresh vi scratch \<and> (node, t) \<in> set tasks \<and> t \<noteq> Finished \<longrightarrow>
    (\<exists>g' t'. task_step vi qd dd rnd observe_rcni scratch node g t = Some (Inr (g', t'))))"
proof -
  have "link_begins vi rnd (link_start vi)" using assms(1-3) by (simp add: link_begins_def)
  from linking.reachable_invar [OF this assms(4)] have inv: "link_inv vi qd rnd (g, tasks)" by simp
  then show ?thesis using link_progress [OF assms(1) inv] by (auto simp: link_inv_def)
qed

text \<open>C15: Linking ends: a run has at most \<open>link_measure\<close> steps, so it reaches a state where every task
  is finished, and the cleanup after it returns a well-formed graph in which every linked node has at most \<open>R\<close>
  neighbours.\<close>

theorem link_terminates:
  assumes "build_ready vi rnd" "graph_good vi rnd (vi_graph vi)" "vi_nd vi \<le> vi_max_points vi"
    "(link_step vi qd dd rnd observe_rcni ^^ n) (link_start vi) (g, tasks)"
  shows "n \<le> link_measure vi (link_start vi)
    \<and> ((\<forall>t \<in> set tasks. snd t = Finished) \<longrightarrow>
         (\<exists>g'. cleanup vi dd rnd (visit_order vi) g = Some (Inr g') \<and> graph_good vi rnd g'
            \<and> (\<forall>node \<in> set (visit_order vi). length (adjacency g' node) \<le> vi_range vi)))"
proof -
  have N: "internal_points vi \<le> 4294967296" using assms(1) by (simp add: build_ready_def)
  from steps_measure [OF assms(1) label_free_start [OF assms(2,3) N] assms(4)]
  have inv: "n \<le> link_measure vi (link_start vi)" "link_inv vi qd rnd (g, tasks)" by auto
  have "in_range vi (visit_order vi)"
    using assms(3) N by (auto simp: in_range_def visit_order_def frozen_locations_def unat_of_index)
  with cleanup_ok [OF assms(1) _ this, of g dd] inv show ?thesis by (auto simp: link_inv_def)
qed

text \<open>Three points in a row, before any edge.\<close>

definition unlinked_index :: "unit vamana_index_t" where
  "unlinked_index = row_index\<lparr>vi_graph := new_graph_store 3 2, vi_filtered := False\<rparr>"

lemma unlinked_facts:
  "build_ready unlinked_index (\<lambda>x. x)" "graph_good unlinked_index (\<lambda>x. x) (vi_graph unlinked_index)"
  "vi_nd unlinked_index \<le> vi_max_points unlinked_index"
proof -
  have p: "internal_points unlinked_index = 3" "vi_start unlinked_index = 0" "vi_queue_size unlinked_index = 4" "vi_alpha unlinked_index = 1"
    "\<not> vi_filtered unlinked_index" "vi_nd unlinked_index = 3" "vi_max_points unlinked_index = 3"
    "gs_graph (vi_graph unlinked_index) = [[], [], []]"
    by (simp_all add: unlinked_index_def row_index_def new_vamana_index_def Let_def new_graph_store_def resize_graph_def
        resized_def numeral_eq_Suc)
  show "build_ready unlinked_index (\<lambda>x. x)"
    unfolding build_ready_def p(1-4) using p(5) growing_exact [of 1] by (simp add: flt_max_def)
  have "unat (i :: u32) < 3 \<Longrightarrow> adjacency (vi_graph unlinked_index) i = []" for i
    unfolding adjacency_def p(8) below_three by auto
  then show "graph_good unlinked_index (\<lambda>x. x) (vi_graph unlinked_index)"
    unfolding graph_good_def graph_ok_adjacency p(1) using p(8) by (simp add: list_ok_def)
  show "vi_nd unlinked_index \<le> vi_max_points unlinked_index" using p by simp
qed

lemma unlinked_step:
  "\<exists>g tasks. link_step unlinked_index (\<lambda>_ _. 0) (\<lambda>_ _. 0) (\<lambda>x. x) False (link_start unlinked_index) (g, tasks)"
proof -
  have v: "visit_order unlinked_index = [0, 1, 2]" "0 < internal_points unlinked_index"
    by (simp_all add: unlinked_index_def row_index_def new_vamana_index_def Let_def visit_order_def frozen_locations_def numeral_eq_Suc)
  have n: "unat (0 :: u32) < internal_points unlinked_index" using v(2) by simp
  have s: "link_start unlinked_index = (vi_graph unlinked_index, [(0, Waiting), (1, Waiting), (2, Waiting)])"
    by (simp add: link_start_def v)
  have f: "scratch_fresh unlinked_index row_scratch" by (rule row_scratch_fresh)
  from step_Waiting [OF unlinked_facts(1) n f, of "\<lambda>_ _. 0" "\<lambda>_ _. 0" False "vi_graph unlinked_index"] obtain t' where
    "task_step unlinked_index (\<lambda>_ _. 0) (\<lambda>_ _. 0) (\<lambda>x. x) False row_scratch 0 (vi_graph unlinked_index) Waiting
      = Some (Inr (vi_graph unlinked_index, t'))" by blast
  from link_step.intros [OF _ _ _ f this, of 0 "[(0, Waiting), (1, Waiting), (2, Waiting)]"] show ?thesis unfolding s by auto
qed

lemma link_invariant_witness:
  "\<exists>g tasks. link_step unlinked_index (\<lambda>_ _. 0) (\<lambda>_ _. 0) (\<lambda>x. x) False (link_start unlinked_index) (g, tasks)
     \<and> graph_good unlinked_index (\<lambda>x. x) g"
  using unlinked_step link_invariant [OF unlinked_facts] by blast

lemma link_terminates_witness:
  "\<exists>g tasks. (link_step unlinked_index (\<lambda>_ _. 0) (\<lambda>_ _. 0) (\<lambda>x. x) False ^^ 1) (link_start unlinked_index) (g, tasks)
     \<and> 1 \<le> link_measure unlinked_index (link_start unlinked_index)"
proof -
  from unlinked_step obtain g tasks where
    "(link_step unlinked_index (\<lambda>_ _. 0) (\<lambda>_ _. 0) (\<lambda>x. x) False ^^ 1) (link_start unlinked_index) (g, tasks)" by auto
  with link_terminates [OF unlinked_facts this] show ?thesis by blast
qed

end
