(* ===== verification/Vamana_Dynamic.thy ===== *)
theory Vamana_Dynamic
  imports Vamana_Link_Correct
begin

text \<open>
  The dynamic side of \<open>vamana_index_t\<close> (src/index/vamana_index.cc): slots, tags, insertion, lazy deletion,
  consolidation and compaction.  Each operation runs alone.  \<open>vec_dist\<close> compares two vectors, \<open>enum\<close> is the iteration
  order of a \<open>tsl::robin_set\<close>.  The state is returned with an exception too, because the object keeps what was
  assigned before it.
\<close>

definition stored_distance :: "('v \<Rightarrow> 'v \<Rightarrow> real) \<Rightarrow> 'v vamana_index_t \<Rightarrow> u32 \<Rightarrow> u32 \<Rightarrow> real" where
  "stored_distance vec_dist vi i j = vec_dist (vi_data vi ! unat i) (vi_data vi ! unat j)"

subsection \<open>Slots\<close>

text \<open>\<open>None\<close> is the location -1.\<close>

definition reserve_location :: "'v vamana_index_t \<Rightarrow> ('v vamana_index_t, u32 option) outcome" where
  "reserve_location vi =
     (if vi_nd vi \<ge> vi_max_points vi then (Inr None, vi)
      else if vi_data_compacted vi \<and> ns_is_empty (vi_empty_slots vi)
      then (Inr (Some (of_nat (vi_nd vi))), vi\<lparr>vi_nd := vi_nd vi + 1\<rparr>)
      else
        (case ns_pop_any (vi_empty_slots vi) of
           Inl e \<Rightarrow> (Inl e, vi)
         | Inr (location, slots) \<Rightarrow>
             (Inr (Some location), vi\<lparr>vi_empty_slots := slots, vi_delete_set := vi_delete_set vi - {location}, vi_nd := vi_nd vi + 1\<rparr>)))"

definition release_location :: "u32 \<Rightarrow> 'v vamana_index_t \<Rightarrow> ('v vamana_index_t, nat) outcome" where
  "release_location location vi =
     (case ns_is_in_set location (vi_empty_slots vi) of
        Inl e \<Rightarrow> (Inl e, vi)
      | Inr True \<Rightarrow> (Inl Diskann_exception, vi)
      | Inr False \<Rightarrow>
          (Inr (vi_nd vi - 1), vi\<lparr>vi_empty_slots := ns_insert location (vi_empty_slots vi), vi_nd := vi_nd vi - 1\<rparr>))"

fun release_each :: "u32 list \<Rightarrow> 'v vamana_index_t \<Rightarrow> ('v vamana_index_t, unit) outcome" where
  "release_each [] vi = (Inr (), vi)"
| "release_each (location # locations) vi =
     (case release_location location vi of
        (Inl e, vi) \<Rightarrow> (Inl e, vi)
      | (Inr _, vi) \<Rightarrow> release_each locations vi)"

definition release_locations :: "u32 list \<Rightarrow> 'v vamana_index_t \<Rightarrow> ('v vamana_index_t, nat) outcome" where
  "release_locations locations vi =
     (case release_each locations vi of
        (Inl e, vi) \<Rightarrow> (Inl e, vi)
      | (Inr _, vi) \<Rightarrow>
          (if ns_size (vi_empty_slots vi) + vi_nd vi \<noteq> vi_max_points vi then Inl Diskann_exception else Inr (vi_nd vi), vi))"

subsection \<open>Insertion\<close>

fun register_labels :: "'v \<Rightarrow> u32 list \<Rightarrow> 'v vamana_index_t \<Rightarrow> ('v vamana_index_t, unit) outcome" where
  "register_labels point [] vi = (Inr (), vi)"
| "register_labels point (label # labels) vi =
     (if label \<in> vi_labels vi then register_labels point labels vi
      else if vi_frozen_used vi \<ge> vi_num_frozen vi then (Inl Diskann_exception, vi)
      else
        let fz_location = vi_max_points vi + vi_frozen_used vi in
        register_labels point labels
          (vi\<lparr>vi_labels := insert label (vi_labels vi),
              vi_label_to_start := AList.update label (of_nat fz_location) (vi_label_to_start vi),
              vi_location_to_labels := (vi_location_to_labels vi)[fz_location := [label]],
              vi_data := (vi_data vi)[fz_location := point],
              vi_frozen_used := vi_frozen_used vi + 1\<rparr>))"

text \<open>The part of a filtered insertion that records the labels; \<open>False\<close> returns -1.\<close>

definition insert_labels :: "'v \<Rightarrow> u32 list \<Rightarrow> u32 option \<Rightarrow> 'v vamana_index_t \<Rightarrow> ('v vamana_index_t, bool) outcome" where
  "insert_labels point labels location vi =
     (if labels = [] then
        (case release_location (case location of None \<Rightarrow> - 1 | Some l \<Rightarrow> l) vi of
           (Inl e, vi) \<Rightarrow> (Inl e, vi)
         | (Inr _, vi) \<Rightarrow> (Inr False, vi))
      else
        (case location of
           None \<Rightarrow> (Inl Undefined_access, vi)
         | Some l \<Rightarrow>
             (if unat l < length (vi_location_to_labels vi)
              then
                (case register_labels point labels (vi\<lparr>vi_location_to_labels := (vi_location_to_labels vi)[unat l := labels]\<rparr>) of
                   (Inl e, vi) \<Rightarrow> (Inl e, vi)
                 | (Inr _, vi) \<Rightarrow> (Inr True, vi))
              else (Inl Undefined_access, vi))))"

definition insert_tag :: "u32 \<Rightarrow> u32 \<Rightarrow> 'v vamana_index_t \<Rightarrow> ('v vamana_index_t, bool) outcome" where
  "insert_tag tag location vi =
     (if \<not> vi_enable_tags vi then (Inr True, vi)
      else if map_of (vi_tag_to_location vi) tag \<noteq> None then
        (case release_location location vi of
           (Inl e, vi) \<Rightarrow> (Inl e, vi)
         | (Inr _, vi) \<Rightarrow> (Inr False, vi))
      else (Inr True, vi\<lparr>vi_tag_to_location := AList.update tag location (vi_tag_to_location vi),
                         vi_location_to_tag := nm_set location tag (vi_location_to_tag vi)\<rparr>))"

text \<open>Everything \<open>insert_point\<close> does under \<open>tag_lock_\<close>; \<open>None\<close> returns -1.  \<open>EXPAND_IF_FULL\<close> is not defined.\<close>

definition insert_slot :: "'v \<Rightarrow> u32 \<Rightarrow> u32 list \<Rightarrow> 'v vamana_index_t \<Rightarrow> ('v vamana_index_t, u32 option) outcome" where
  "insert_slot point tag labels vi =
     (if tag = 0 then (Inl Diskann_exception, vi)
      else
        (case reserve_location vi of
           (Inl e, vi) \<Rightarrow> (Inl e, vi)
         | (Inr location, vi) \<Rightarrow>
             (case (if vi_filtered vi then insert_labels point labels location vi else (Inr True, vi)) of
                (Inl e, vi) \<Rightarrow> (Inl e, vi)
              | (Inr False, vi) \<Rightarrow> (Inr None, vi)
              | (Inr True, vi) \<Rightarrow>
                  (case location of
                     None \<Rightarrow> (Inr None, vi)
                   | Some l \<Rightarrow>
                       (case insert_tag tag l vi of
                          (Inl e, vi) \<Rightarrow> (Inl e, vi)
                        | (Inr True, vi) \<Rightarrow> (Inr (Some l), vi)
                        | (Inr False, vi) \<Rightarrow> (Inr None, vi))))))"

definition insert_edges :: "('v \<Rightarrow> 'v \<Rightarrow> real) \<Rightarrow> (real \<Rightarrow> real) \<Rightarrow> in_mem_query_scratch_t \<Rightarrow> u32 \<Rightarrow> 'v vamana_index_t \<Rightarrow> (exn + graph_store_t) option" where
  "insert_edges vec_dist rnd scratch location vi =
     (let dd = stored_distance vec_dist vi in
      bindO (search_for_point_and_prune vi (dd location) dd rnd False location (vi_queue_size vi) (vi_filtered vi)
               (vi_filter_queue_size vi) scratch) (\<lambda>(pruned_list, _).
      bindO (Some (clear_neighbours location (vi_graph vi))) (\<lambda>g.
      let neighbor_links = (if vi_conc_consolidate vi then filter (\<lambda>link. nm_contains link (vi_location_to_tag vi)) pruned_list
                            else pruned_list) in
      bindO (Some (set_neighbours location neighbor_links g)) (\<lambda>g.
        inter_insert vi dd rnd location pruned_list g))))"

definition insert_point :: "('v \<Rightarrow> 'v \<Rightarrow> real) \<Rightarrow> (real \<Rightarrow> real) \<Rightarrow> in_mem_query_scratch_t \<Rightarrow> 'v \<Rightarrow> u32 \<Rightarrow> u32 list \<Rightarrow> 'v vamana_index_t
    \<Rightarrow> ('v vamana_index_t, int) outcome option" where
  "insert_point vec_dist rnd scratch point tag labels vi =
     (case insert_slot point tag labels vi of
        (Inl e, vi) \<Rightarrow> Some (Inl e, vi)
      | (Inr None, vi) \<Rightarrow> Some (Inr (- 1), vi)
      | (Inr (Some location), vi) \<Rightarrow>
          let vi = vi\<lparr>vi_data := (vi_data vi)[unat location := point]\<rparr> in
          (case insert_edges vec_dist rnd scratch location vi of
             None \<Rightarrow> None
           | Some (Inl e) \<Rightarrow> Some (Inl e, vi)
           | Some (Inr g) \<Rightarrow> Some (Inr 0, vi\<lparr>vi_graph := g\<rparr>)))"

subsection \<open>Deletion\<close>

definition delete_at :: "u32 \<Rightarrow> u32 \<Rightarrow> 'v vamana_index_t \<Rightarrow> 'v vamana_index_t" where
  "delete_at tag location vi =
     vi\<lparr>vi_delete_set := insert location (vi_delete_set vi),
        vi_location_to_tag := nm_erase location (vi_location_to_tag vi),
        vi_tag_to_location := AList.delete tag (vi_tag_to_location vi)\<rparr>"

definition lazy_delete :: "u32 \<Rightarrow> 'v vamana_index_t \<Rightarrow> int \<times> 'v vamana_index_t" where
  "lazy_delete tag vi =
     (let vi = vi\<lparr>vi_data_compacted := False\<rparr> in
      case map_of (vi_tag_to_location vi) tag of
        None \<Rightarrow> (- 1, vi)
      | Some location \<Rightarrow> (0, delete_at tag location vi))"

fun delete_each :: "u32 list \<Rightarrow> u32 list \<Rightarrow> 'v vamana_index_t \<Rightarrow> u32 list \<times> 'v vamana_index_t" where
  "delete_each [] failed_tags vi = (failed_tags, vi)"
| "delete_each (tag # tags) failed_tags vi =
     (case map_of (vi_tag_to_location vi) tag of
        None \<Rightarrow> delete_each tags (failed_tags @ [tag]) vi
      | Some location \<Rightarrow> delete_each tags failed_tags (delete_at tag location vi))"

definition lazy_delete_many :: "u32 list \<Rightarrow> u32 list \<Rightarrow> 'v vamana_index_t \<Rightarrow> ('v vamana_index_t, u32 list) outcome" where
  "lazy_delete_many tags failed_tags vi =
     (if failed_tags \<noteq> [] then (Inl Diskann_exception, vi)
      else (case delete_each tags [] (vi\<lparr>vi_data_compacted := False\<rparr>) of (failed, vi) \<Rightarrow> (Inr failed, vi)))"

subsection \<open>Consolidation\<close>

definition expand_neighbour :: "graph_store_t \<Rightarrow> u32 set \<Rightarrow> u32 \<Rightarrow> u32 \<Rightarrow> bool \<times> u32 set \<Rightarrow> exn + (bool \<times> u32 set)" where
  "expand_neighbour g old_delete_set loc ngh st =
     (if ngh \<notin> old_delete_set then Inr (fst st, insert ngh (snd st))
      else bindE (get_neighbours g ngh) (\<lambda>ns. Inr (True, snd st \<union> {j \<in> set ns. j \<noteq> loc \<and> j \<notin> old_delete_set})))"

definition process_delete :: "'v vamana_index_t \<Rightarrow> (u32 \<Rightarrow> u32 \<Rightarrow> real) \<Rightarrow> (real \<Rightarrow> real) \<Rightarrow> (u32 set \<Rightarrow> u32 list) \<Rightarrow> u32 set \<Rightarrow> u32 \<Rightarrow> nat \<Rightarrow> nat \<Rightarrow> real
    \<Rightarrow> graph_store_t \<Rightarrow> (exn + graph_store_t) option" where
  "process_delete vi dd rnd enum old_delete_set loc max_degree maxc alpha g =
     bindO (Some (get_neighbours g loc)) (\<lambda>adj_list.
     bindO (Some (foldE (expand_neighbour g old_delete_set loc) adj_list (False, {}))) (\<lambda>(modify, expanded).
       if \<not> modify then Some (Inr g)
       else if card expanded \<le> max_degree
       then Some (bindE (clear_neighbours loc g) (foldE (add_neighbour loc) (enum expanded)))
       else
         bindO (occlude_list vi dd rnd False loc (sort_key nb_key (map (\<lambda>ngh. new_neighbor ngh (dd loc ngh)) (enum expanded)))
                  alpha max_degree maxc old_delete_set) (\<lambda>(output, _, _).
           Some (set_neighbours loc output g))))"

datatype status_code_t = SUCCESS | FAIL | LOCK_FAIL | INCONSISTENT_COUNT_ERROR

record consolidation_report_t =
  cr_status :: status_code_t
  cr_active_points :: nat
  cr_max_points :: nat
  cr_empty_slots :: nat
  cr_slots_released :: nat
  cr_delete_set_size :: nat
  cr_num_calls :: nat

definition failed_report :: "status_code_t \<Rightarrow> consolidation_report_t" where
  "failed_report status = \<lparr>cr_status = status, cr_active_points = 0, cr_max_points = 0, cr_empty_slots = 0,
     cr_slots_released = 0, cr_delete_set_size = 0, cr_num_calls = 0\<rparr>"

text \<open>The two loops; \<open>check\<close> is the test of the first one.\<close>

definition needs_process :: "'v vamana_index_t \<Rightarrow> u32 set \<Rightarrow> bool \<Rightarrow> u32 \<Rightarrow> exn + bool" where
  "needs_process vi old_delete_set check loc =
     (if \<not> check then Inr True
      else if loc \<in> old_delete_set then Inr False
      else bindE (ns_is_in_set loc (vi_empty_slots vi)) (\<lambda>in_set. Inr (\<not> in_set)))"

fun process_each :: "'v vamana_index_t \<Rightarrow> (u32 \<Rightarrow> u32 \<Rightarrow> real) \<Rightarrow> (real \<Rightarrow> real) \<Rightarrow> (u32 set \<Rightarrow> u32 list) \<Rightarrow> u32 set \<Rightarrow> nat \<Rightarrow> nat \<Rightarrow> real \<Rightarrow> bool
    \<Rightarrow> u32 list \<Rightarrow> graph_store_t \<times> nat \<Rightarrow> (exn + (graph_store_t \<times> nat)) option" where
  "process_each vi dd rnd enum old_delete_set max_degree maxc alpha check [] st = Some (Inr st)"
| "process_each vi dd rnd enum old_delete_set max_degree maxc alpha check (loc # locs) st =
     bindO (Some (needs_process vi old_delete_set check loc)) (\<lambda>go.
       if \<not> go then process_each vi dd rnd enum old_delete_set max_degree maxc alpha check locs st
       else
         bindO (process_delete vi dd rnd enum old_delete_set loc max_degree maxc alpha (fst st)) (\<lambda>g.
           process_each vi dd rnd enum old_delete_set max_degree maxc alpha check locs (g, snd st + 1)))"

text \<open>\<open>lock_free\<close> is the outcome of \<open>try_lock\<close> on \<open>consolidate_lock_\<close>.\<close>

definition consolidate_deletes :: "('v \<Rightarrow> 'v \<Rightarrow> real) \<Rightarrow> (real \<Rightarrow> real) \<Rightarrow> (u32 set \<Rightarrow> u32 list) \<Rightarrow> bool \<Rightarrow> nat \<Rightarrow> nat \<Rightarrow> real
    \<Rightarrow> 'v vamana_index_t \<Rightarrow> ('v vamana_index_t, consolidation_report_t) outcome option" where
  "consolidate_deletes vec_dist rnd enum lock_free max_degree maxc alpha vi =
     (if \<not> vi_enable_tags vi then Some (Inl Diskann_exception, vi)
      else if ns_size (vi_empty_slots vi) + vi_nd vi \<noteq> vi_max_points vi then Some (Inl Diskann_exception, vi)
      else if nm_size (vi_location_to_tag vi) + card (vi_delete_set vi) \<noteq> vi_nd vi
      then Some (Inr (failed_report INCONSISTENT_COUNT_ERROR), vi)
      else if nm_size (vi_location_to_tag vi) \<noteq> length (vi_tag_to_location vi) then Some (Inl Diskann_exception, vi)
      else if \<not> lock_free then Some (Inr (failed_report LOCK_FAIL), vi)
      else
        let old_delete_set = vi_delete_set vi;
            vi = vi\<lparr>vi_delete_set := {}\<rparr>;
            dd = stored_distance vec_dist vi in
        if vi_start vi \<in> old_delete_set then Some (Inl Diskann_exception, vi)
        else
          (case bindO (process_each vi dd rnd enum old_delete_set max_degree maxc alpha True
                         (map of_nat [0..<vi_max_points vi]) (vi_graph vi, 0))
                  (process_each vi dd rnd enum old_delete_set max_degree maxc alpha False (frozen_locations vi)) of
             None \<Rightarrow> None
           | Some (Inl e) \<Rightarrow> Some (Inl e, vi)
           | Some (Inr (g, calls)) \<Rightarrow>
               (case release_locations (enum old_delete_set) (vi\<lparr>vi_graph := g\<rparr>) of
                  (Inl e, vi) \<Rightarrow> Some (Inl e, vi)
                | (Inr nd, vi) \<Rightarrow>
                    Some (Inr \<lparr>cr_status = SUCCESS, cr_active_points = nd, cr_max_points = vi_max_points vi,
                      cr_empty_slots = ns_size (vi_empty_slots vi), cr_slots_released = card old_delete_set,
                      cr_delete_set_size = card (vi_delete_set vi), cr_num_calls = calls\<rparr>, vi))))"

subsection \<open>Reading\<close>

definition get_vector_by_tag :: "u32 \<Rightarrow> 'v vamana_index_t \<Rightarrow> 'v option" where
  "get_vector_by_tag tag vi = map_option (\<lambda>location. vi_data vi ! unat location) (map_of (vi_tag_to_location vi) tag)"

definition get_active_tags :: "'v vamana_index_t \<Rightarrow> u32 set" where
  "get_active_tags vi = fst ` set (vi_tag_to_location vi)"

text \<open>The results of \<open>search_with_tags\<close> with \<open>wanted\<close> result vectors: deleted and frozen points have no tag and are skipped.\<close>

fun copy_tags :: "'v vamana_index_t \<Rightarrow> nat \<Rightarrow> nat \<Rightarrow> nat \<Rightarrow> neighbor_t list \<Rightarrow> (u32 \<times> real) list" where
  "copy_tags vi k wanted pos [] = []"
| "copy_tags vi k wanted pos (n # ns) =
     (case nm_try_get (nb_id n) (vi_location_to_tag vi) of
        None \<Rightarrow> copy_tags vi k wanted pos ns
      | Some tag \<Rightarrow>
          (tag, if vi_metric vi = INNER_PRODUCT then - 1 * nb_distance n else nb_distance n)
          # (if pos + 1 = k \<or> pos + 1 = wanted then [] else copy_tags vi k wanted (pos + 1) ns))"

definition search_with_tags :: "'v vamana_index_t \<Rightarrow> (u32 \<Rightarrow> real) \<Rightarrow> nat \<Rightarrow> nat \<Rightarrow> nat \<Rightarrow> u32 option \<Rightarrow> in_mem_query_scratch_t
    \<Rightarrow> (exn + (u32 \<times> real) list) option" where
  "search_with_tags vi qd k l wanted filter_label sc =
     (if k > l then Some (Inl Diskann_exception)
      else
        let sc = (if l > sc_l sc then resize_for_new_l l sc else sc);
            r = (case filter_label of
                   None \<Rightarrow> iterate_to_fixed_point vi qd l (get_init_ids vi) False [] True sc
                 | Some label \<Rightarrow> iterate_to_fixed_point vi qd l (get_init_ids vi) True [label] True sc)
        in bindO r (\<lambda>(sc, _). Some (Inr (copy_tags vi k wanted 0 (frontier (sc_best sc))))))"

end
