(* ===== verification/Vamana_Slots.thy ===== *)
theory Vamana_Slots
  imports Vamana_Dynamic
begin

text \<open>
  The bookkeeping of a dynamic index: every slot below \<open>max_points_\<close> is live (it has a tag), lazily deleted, or
  empty, and the two tag maps are inverse to each other.  The lemmas follow the order of Vamana_Dynamic.
\<close>

definition live_slots :: "'v vamana_index_t \<Rightarrow> u32 set" where
  "live_slots vi = dom (\<lambda>l. nm_try_get l (vi_location_to_tag vi))"

definition slots_ok :: "'v vamana_index_t \<Rightarrow> bool" where
  "slots_ok vi \<longleftrightarrow> ns_ok (vi_empty_slots vi) \<and> nm_ok (vi_location_to_tag vi) \<and> vi_max_points vi \<le> 4294967296
     \<and> vi_max_points vi \<le> length (ns_bits (vi_empty_slots vi))
     \<and> live_slots vi \<union> vi_delete_set vi \<union> ns_members (vi_empty_slots vi) = {l. unat l < vi_max_points vi}
     \<and> live_slots vi \<inter> vi_delete_set vi = {} \<and> live_slots vi \<inter> ns_members (vi_empty_slots vi) = {}
     \<and> vi_delete_set vi \<inter> ns_members (vi_empty_slots vi) = {}
     \<and> vi_nd vi = card (live_slots vi) + card (vi_delete_set vi)"

definition tags_ok :: "'v vamana_index_t \<Rightarrow> bool" where
  "tags_ok vi \<longleftrightarrow> vi_enable_tags vi \<and> distinct (keys (vi_tag_to_location vi))
     \<and> (\<forall>t l. map_of (vi_tag_to_location vi) t = Some l \<longleftrightarrow> nm_try_get l (vi_location_to_tag vi) = Some t)"

subsection \<open>Counting\<close>

lemma card_below_bound: "n \<le> 4294967296 \<Longrightarrow> card {l :: u32. unat l < n} = n"
proof -
  assume n: "n \<le> 4294967296"
  have "unat ` {l :: u32. unat l < n} = {..<n}"
  proof
    show "{..<n} \<subseteq> unat ` {l :: u32. unat l < n}"
    proof
      fix i assume "i \<in> {..<n}"
      with n show "i \<in> unat ` {l :: u32. unat l < n}"
        by (intro image_eqI [of _ _ "of_nat i"]) (simp_all add: unat_of_index)
    qed
  qed auto
  moreover have "inj_on unat {l :: u32. unat l < n}" by (rule inj_onI) simp
  ultimately show ?thesis using card_image [of unat "{l :: u32. unat l < n}"] by simp
qed

lemma slots_count:
  assumes "slots_ok vi"
  shows "ns_size (vi_empty_slots vi) + vi_nd vi = vi_max_points vi"
proof -
  note o = assms [unfolded slots_ok_def]
  have "vi_max_points vi = card (live_slots vi \<union> vi_delete_set vi \<union> ns_members (vi_empty_slots vi))"
    using o card_below_bound [of "vi_max_points vi"] by simp
  also have "\<dots> = card (live_slots vi \<union> vi_delete_set vi) + card (ns_members (vi_empty_slots vi))"
    by (intro card_Un_disjoint) (use o in auto)
  also have "card (live_slots vi \<union> vi_delete_set vi) = vi_nd vi"
    using o card_Un_disjoint [of "live_slots vi" "vi_delete_set vi"] by simp
  finally show ?thesis using o ns.amount_card [of "vi_empty_slots vi"] by simp
qed

lemma tag_count:
  assumes "slots_ok vi" "tags_ok vi"
  shows "nm_size (vi_location_to_tag vi) = card (live_slots vi)" "length (vi_tag_to_location vi) = card (live_slots vi)"
proof -
  show "nm_size (vi_location_to_tag vi) = card (live_slots vi)"
    unfolding live_slots_def by (rule nm.entries_card) (use assms(1) in \<open>simp add: slots_ok_def\<close>)
  let ?m = "map_of (vi_tag_to_location vi)"
  have iff: "?m t = Some l \<longleftrightarrow> nm_try_get l (vi_location_to_tag vi) = Some t" for t l using assms(2) by (simp add: tags_ok_def)
  have "card (live_slots vi) = card ((\<lambda>t. the (?m t)) ` dom ?m)"
  proof (rule arg_cong [where f = card], rule set_eqI)
    fix l
    show "l \<in> live_slots vi \<longleftrightarrow> l \<in> (\<lambda>t. the (?m t)) ` dom ?m"
      unfolding live_slots_def by (force simp: iff [symmetric] image_iff)
  qed
  also have "\<dots> = card (dom ?m)"
    by (intro card_image inj_onI) (metis domD iff option.inject option.sel)
  also have "\<dots> = length (vi_tag_to_location vi)"
    using assms(2) distinct_card [of "keys (vi_tag_to_location vi)"] by (simp add: tags_ok_def dom_map_of_conv_image_fst)
  finally show "length (vi_tag_to_location vi) = card (live_slots vi)" by simp
qed

lemma nm_pointwise:
  "nm_ok m \<Longrightarrow> nm_try_get j (nm_set k v m) = (if j = k then Some v else nm_try_get j m)"
  "nm_ok m \<Longrightarrow> nm_try_get j (nm_erase k m) = (if j = k then None else nm_try_get j m)"
  using nm.lookup_put [of m k v, THEN fun_cong, of j] nm.lookup_delete [of m k, THEN fun_cong, of j] by simp_all

subsection \<open>Operations\<close>

text \<open>The fields the slot operations write.\<close>

definition same_but_slots :: "'v vamana_index_t \<Rightarrow> 'v vamana_index_t \<Rightarrow> bool" where
  "same_but_slots vi vi' \<longleftrightarrow> vi' = vi\<lparr>vi_empty_slots := vi_empty_slots vi', vi_delete_set := vi_delete_set vi', vi_nd := vi_nd vi',
     vi_tag_to_location := vi_tag_to_location vi', vi_location_to_tag := vi_location_to_tag vi'\<rparr>"

lemma live_insert: "nm_ok (vi_location_to_tag vi) \<Longrightarrow>
    dom (\<lambda>l. nm_try_get l (nm_set k v (vi_location_to_tag vi))) = insert k (live_slots vi)"
  by (auto simp: live_slots_def nm_pointwise split: if_splits)

lemma ns_bits_push: "length (ns_bits s) \<le> length (ns_bits (ns_insert i s))"
  by (simp add: ns_insert_def Let_def)

lemma ns_bits_pop: "ns_pop_any s = Inr (i, t) \<Longrightarrow> length (ns_bits t) = length (ns_bits s)"
  by (auto simp: ns_pop_any_def Let_def split: if_splits)

lemma release_location_ok:
  assumes "ns_ok (vi_empty_slots vi)" "unat l < length (ns_bits (vi_empty_slots vi))" "l \<notin> ns_members (vi_empty_slots vi)"
  shows "release_location l vi = (Inr (vi_nd vi - 1), vi\<lparr>vi_empty_slots := ns_insert l (vi_empty_slots vi), vi_nd := vi_nd vi - 1\<rparr>)"
  using assms by (simp add: release_location_def ns_is_in_set_iff)

lemma insert_slot_ok:
  assumes slots: "slots_ok vi" and tags: "tags_ok vi" and plain: "\<not> vi_filtered vi" "tag \<noteq> 0"
  shows "\<exists>r vi'. insert_slot point tag labels vi = (Inr r, vi') \<and> slots_ok vi' \<and> tags_ok vi' \<and> same_but_slots vi vi'
    \<and> vi_delete_set vi' = vi_delete_set vi
    \<and> (case r of
         None \<Rightarrow> (vi_nd vi = vi_max_points vi \<or> map_of (vi_tag_to_location vi) tag \<noteq> None)
           \<and> ns_members (vi_empty_slots vi') = ns_members (vi_empty_slots vi)
           \<and> vi_tag_to_location vi' = vi_tag_to_location vi \<and> vi_location_to_tag vi' = vi_location_to_tag vi
       | Some l \<Rightarrow> vi_nd vi < vi_max_points vi \<and> map_of (vi_tag_to_location vi) tag = None
           \<and> l \<in> ns_members (vi_empty_slots vi) \<and> ns_members (vi_empty_slots vi') = ns_members (vi_empty_slots vi) - {l}
           \<and> vi_tag_to_location vi' = AList.update tag l (vi_tag_to_location vi)
           \<and> vi_location_to_tag vi' = nm_set l tag (vi_location_to_tag vi))"
proof -
  note o = slots [unfolded slots_ok_def]
  note cnt = slots_count [OF slots]
  from o have ok: "ns_ok (vi_empty_slots vi)" "nm_ok (vi_location_to_tag vi)" by simp_all
  have en: "vi_enable_tags vi" using tags by (simp add: tags_ok_def)
  show ?thesis
  proof (cases "vi_nd vi \<ge> vi_max_points vi")
    case True
    then have "insert_slot point tag labels vi = (Inr None, vi)" using plain by (simp add: insert_slot_def reserve_location_def)
    with True cnt slots tags show ?thesis by (simp add: same_but_slots_def)
  next
    case False
    then have ne: "ns_members (vi_empty_slots vi) \<noteq> {}" using cnt ns.amount_card [OF ok(1)] by auto
    from ns.pop_ok [OF ok(1) this] obtain l s where
      p: "ns_pop_any (vi_empty_slots vi) = Inr (l, s)" "l \<in> ns_members (vi_empty_slots vi)" "ns_ok s"
        "ns_members s = ns_members (vi_empty_slots vi) - {l}" by blast
    have nemp: "\<not> ns_is_empty (vi_empty_slots vi)" using ne by (simp add: ns_is_empty_def ns_members_def)
    have l: "l \<notin> vi_delete_set vi" "l \<notin> live_slots vi" "unat l < vi_max_points vi" using o p(2) by auto
    let ?vr = "vi\<lparr>vi_empty_slots := s, vi_nd := vi_nd vi + 1\<rparr>"
    have "reserve_location vi = (Inr (Some l), ?vr)"
      using False nemp l(1) p(1) by (simp add: reserve_location_def)
    then have ins: "insert_slot point tag labels vi =
        (case insert_tag tag l ?vr of
           (Inl e, vi) \<Rightarrow> (Inl e, vi) | (Inr True, vi) \<Rightarrow> (Inr (Some l), vi) | (Inr False, vi) \<Rightarrow> (Inr None, vi))"
      using plain by (simp add: insert_slot_def)
    show ?thesis
    proof (cases "map_of (vi_tag_to_location vi) tag")
      case None
      let ?v' = "?vr\<lparr>vi_tag_to_location := AList.update tag l (vi_tag_to_location vi), vi_location_to_tag := nm_set l tag (vi_location_to_tag vi)\<rparr>"
      have i: "insert_slot point tag labels vi = (Inr (Some l), ?v')" using None en by (simp add: ins insert_tag_def)
      have live: "live_slots ?v' = insert l (live_slots vi)" using live_insert [OF ok(2)] by (simp add: live_slots_def)
      have "slots_ok ?v'"
        unfolding slots_ok_def live using o p l ns_bits_pop [OF p(1)] nm.put_ok [OF ok(2)] by auto
      moreover have "tags_ok ?v'"
      proof -
        have "nm_try_get l (vi_location_to_tag vi) = None" using l(2) by (auto simp: live_slots_def)
        moreover have "nm_try_get l' (vi_location_to_tag vi) \<noteq> Some tag" for l' using tags None unfolding tags_ok_def by (metis option.distinct(1))
        ultimately show ?thesis using tags None
          unfolding tags_ok_def by (auto simp: distinct_update nm_pointwise [OF ok(2)] simp del: map_of_eq_Some_iff)
      qed
      ultimately show ?thesis using i None p False by (simp add: same_but_slots_def)
    next
      case (Some l')
      have rel: "release_location l ?vr = (Inr (vi_nd vi), ?vr\<lparr>vi_empty_slots := ns_insert l s, vi_nd := vi_nd vi\<rparr>)"
        using release_location_ok [of ?vr l] p o l ns_bits_pop [OF p(1)] by simp
      let ?v' = "vi\<lparr>vi_empty_slots := ns_insert l s\<rparr>"
      have i: "insert_slot point tag labels vi = (Inr None, ?v')" using Some en rel by (simp add: ins insert_tag_def)
      have mem: "ns_ok (ns_insert l s)" "ns_members (ns_insert l s) = ns_members (vi_empty_slots vi)"
        using ns.push_ok [of s l] p by auto
      have live: "live_slots ?v' = live_slots vi" by (simp add: live_slots_def)
      have "slots_ok ?v'" unfolding slots_ok_def live using o mem ns_bits_pop [OF p(1)] ns_bits_push [of s l] by simp
      moreover have "tags_ok ?v'" using tags by (simp add: tags_ok_def)
      ultimately show ?thesis using i Some mem by (simp add: same_but_slots_def)
    qed
  qed
qed

lemma delete_at_ok:
  assumes slots: "slots_ok vi" and tags: "tags_ok vi" and t: "map_of (vi_tag_to_location vi) tag = Some l"
  shows "slots_ok (delete_at tag l vi) \<and> tags_ok (delete_at tag l vi)"
proof -
  note o = slots [unfolded slots_ok_def]
  from o have ok: "nm_ok (vi_location_to_tag vi)" by simp
  have iff: "map_of (vi_tag_to_location vi) t = Some l \<longleftrightarrow> nm_try_get l (vi_location_to_tag vi) = Some t" for t l
    using tags by (simp add: tags_ok_def)
  have l: "l \<in> live_slots vi" using t iff by (auto simp: live_slots_def)
  have unique: "nm_try_get l' (vi_location_to_tag vi) = Some tag \<Longrightarrow> l' = l" for l' using t iff [of tag l'] by simp
  have live: "live_slots (delete_at tag l vi) = live_slots vi - {l}"
    by (auto simp: delete_at_def live_slots_def nm_pointwise [OF ok] split: if_splits)
  have "card (live_slots vi - {l}) + card (insert l (vi_delete_set vi)) = vi_nd vi"
    using o l card_gt_0_iff [of "live_slots vi"] by (auto simp: card_Diff_singleton card_insert_if)
  then have "slots_ok (delete_at tag l vi)"
    unfolding slots_ok_def live using o l nm.delete_ok [OF ok] by (auto simp: delete_at_def)
  moreover have "map_of (AList.delete tag (vi_tag_to_location vi)) t' = Some l' \<longleftrightarrow>
      nm_try_get l' (nm_erase l (vi_location_to_tag vi)) = Some t'" for t' l'
  proof (cases "l' = l")
    case True
    with iff [of tag l] iff [of t' l] t show ?thesis by (auto simp: nm_pointwise [OF ok] simp del: map_of_eq_Some_iff)
  next
    case False
    with unique [of l'] iff [of t' l'] show ?thesis by (auto simp: nm_pointwise [OF ok] simp del: map_of_eq_Some_iff)
  qed
  then have "tags_ok (delete_at tag l vi)"
    using tags unfolding tags_ok_def delete_at_def by (simp add: distinct_delete del: map_of_eq_Some_iff)
  ultimately show ?thesis ..
qed

lemma release_each_ok:
  assumes "slots_ok (vi\<lparr>vi_delete_set := set ls\<rparr>)" "distinct ls" "vi_delete_set vi = {}"
  shows "\<exists>s. release_each ls vi = (Inr (), vi\<lparr>vi_empty_slots := s, vi_nd := vi_nd vi - length ls\<rparr>)
    \<and> slots_ok (vi\<lparr>vi_empty_slots := s, vi_nd := vi_nd vi - length ls\<rparr>)
    \<and> ns_members s = ns_members (vi_empty_slots vi) \<union> set ls"
  using assms
proof (induction ls arbitrary: vi)
  case Nil
  then show ?case by (intro exI [of _ "vi_empty_slots vi"]) (simp add: slots_ok_def live_slots_def)
next
  case (Cons l ls)
  note o = Cons.prems(1) [unfolded slots_ok_def]
  let ?s = "ns_insert l (vi_empty_slots vi)"
  let ?v = "vi\<lparr>vi_empty_slots := ?s, vi_nd := vi_nd vi - 1\<rparr>"
  have l: "l \<notin> ns_members (vi_empty_slots vi)" "unat l < length (ns_bits (vi_empty_slots vi))" using o by auto
  have s: "ns_ok ?s" "ns_members ?s = insert l (ns_members (vi_empty_slots vi))" using ns.push_ok [of "vi_empty_slots vi" l] o l by auto
  have rel: "release_location l vi = (Inr (vi_nd vi - 1), ?v)" using release_location_ok [of vi l] o l by simp
  have "slots_ok (?v\<lparr>vi_delete_set := set ls\<rparr>)"
    using o s Cons.prems(2) ns_bits_push [of "vi_empty_slots vi" l]
    unfolding slots_ok_def live_slots_def by auto
  from Cons.IH [OF this] Cons.prems(2,3) obtain s' where
    "release_each ls ?v = (Inr (), ?v\<lparr>vi_empty_slots := s', vi_nd := vi_nd ?v - length ls\<rparr>)"
    "slots_ok (?v\<lparr>vi_empty_slots := s', vi_nd := vi_nd ?v - length ls\<rparr>)" "ns_members s' = ns_members ?s \<union> set ls" by auto
  with rel s(2) show ?case by (intro exI [of _ s']) (simp add: Un_commute insert_commute)
qed

end
