(* ===== verification/Vamana_Dynamic_Correct.thy ===== *)
theory Vamana_Dynamic_Correct
  imports Vamana_Slots
begin

text \<open>
  The graph side of the dynamic operations: insertion and consolidation keep every edge of a used slot inside of the
  used slots, and consolidation removes every edge to a deleted slot.
\<close>

definition closed_in :: "u32 set \<Rightarrow> graph_store_t \<Rightarrow> bool" where
  "closed_in U g \<longleftrightarrow> (\<forall>i \<in> U. set (adjacency g i) \<subseteq> U)"

lemma closed_in_update: "closed_in U g \<Longrightarrow> set ns \<subseteq> U \<Longrightarrow> adjacency g' = (adjacency g)(i := ns) \<Longrightarrow> closed_in U g'"
  by (auto simp: closed_in_def)

lemma reaches_closed: "reaches adm g init i \<Longrightarrow> init \<subseteq> U \<Longrightarrow> closed_in U g \<Longrightarrow> i \<in> U"
  by (induction rule: reaches.induct) (auto simp: closed_in_def)

subsection \<open>Insertion\<close>

lemma prune_indexing_within:
  assumes ready: "build_ready vi rnd" and ids: "distinct (map nb_id pool)" and rng: "\<forall>n \<in> set pool. unat (nb_id n) < internal_points vi"
  shows "\<exists>ns events. prune_indexing vi dd rnd observe_rcni node pool = Some (Inr (ns, events)) \<and> links_ok vi node ns
    \<and> set ns \<subseteq> nb_id ` set pool"
proof -
  from ready have a: "vi_alpha vi < flt_max" "growing rnd (vi_alpha vi)" by (simp_all add: build_ready_def)
  from prune_neighbors_safe [OF ready_labels [OF ready rng] ids a, of dd observe_rcni node "vi_range vi" "vi_max_c vi"]
  obtain ns events where p: "prune_neighbors vi dd rnd observe_rcni node pool (vi_range vi) (vi_max_c vi) (vi_alpha vi) = Some (Inr (ns, events))"
    "selection_ok pool node {} (vi_range vi) ns" by blast
  then have "set ns \<subseteq> nb_id ` set pool" by (auto simp: selection_ok_def)
  with p(1) prune_indexing_ok [OF ready ids rng, of dd observe_rcni node] show ?thesis by (auto simp: prune_indexing_def)
qed

lemma prune_copy_within:
  assumes ready: "build_ready vi rnd" and c: "in_range vi c"
  shows "\<exists>ns. prune_copy vi dd rnd des c = Some (Inr ns) \<and> links_ok vi des ns \<and> set ns \<subseteq> set c"
proof -
  let ?P = "fold (add_to_pool dd des) c []"
  from fold_add_to_pool [of "[]" dd des c] have P: "distinct (map nb_id ?P)" "nb_id ` set ?P \<subseteq> set c" by simp_all
  have "\<forall>n \<in> set ?P. unat (nb_id n) < internal_points vi" using P(2) c by (auto simp: in_range_def)
  from prune_indexing_within [OF ready P(1) this, of dd False des] P(2) show ?thesis
    by (auto simp: prune_copy_def bindO_def)
qed

lemma search_and_prune_within:
  assumes ready: "build_ready vi rnd" and good: "graph_good vi rnd (vi_graph vi)" and fresh: "scratch_fresh vi scratch"
    and start: "set (get_init_ids vi) \<subseteq> U" and closed: "closed_in U (vi_graph vi)"
  shows "\<exists>ns events. search_for_point_and_prune vi qd dd rnd observe_rcni location (vi_queue_size vi) False fl scratch = Some (Inr (ns, events))
    \<and> links_ok vi location ns \<and> set ns \<subseteq> U"
proof -
  have r: "filter_ready vi False" "graph_ok (internal_points vi) (vi_graph vi)" "0 < vi_queue_size vi"
    using ready good by (simp_all add: filter_ready_def graph_good_def build_ready_def)
  have ids: "\<forall>i \<in> set (get_init_ids vi). unat i < internal_points vi"
    using ready by (intro init_ids_range) (simp_all add: build_ready_def)
  from iterate_correct [OF r(2,1) ids fresh r(3), of qd "[]" False] obtain sc cmps where
    it: "iterate_to_fixed_point vi qd (vi_queue_size vi) (get_init_ids vi) False [] False scratch = Some (Inr (sc, cmps))"
      "search_inv vi qd (vi_queue_size vi) sc" "search_closed vi False [] False (set (get_init_ids vi)) sc" by blast
  have pool: "distinct (map nb_id (sc_pool sc))" "nb_id ` set (sc_pool sc) \<subseteq> visited (fast_iterate vi) sc"
    "\<forall>i \<in> visited (fast_iterate vi) sc. unat i < internal_points vi"
    using it(2) by (simp_all add: search_inv_def)
  have "visited (fast_iterate vi) sc \<subseteq> U"
    using it(3) reaches_closed [OF _ start closed] by (auto simp: search_closed_def)
  with pool(2) have U: "nb_id ` set (sc_pool sc) \<subseteq> U" by blast
  have e: "distinct (map nb_id (erase_location location (sc_pool sc)))"
    "\<forall>n \<in> set (erase_location location (sc_pool sc)). unat (nb_id n) < internal_points vi"
    "nb_id ` set (erase_location location (sc_pool sc)) \<subseteq> U"
    using pool U by (auto simp: erase_location_def distinct_map_filter)
  from prune_indexing_within [OF ready e(1,2), of dd observe_rcni location] e(3) it(1) show ?thesis
    by (fastforce simp: search_for_point_and_prune_def bindO_def)
qed

lemma reverse_edge_within:
  assumes good: "graph_good vi rnd g" and n: "unat n < internal_points vi" "unat des < internal_points vi" "des \<noteq> n"
    and closed: "closed_in U g" "n \<in> U" "des \<in> U"
  shows "\<exists>g' copy. reverse_edge vi rnd n des g = Inr (g', copy) \<and> graph_good vi rnd g' \<and> closed_in U g'
    \<and> (case copy of None \<Rightarrow> True | Some c \<Rightarrow> in_range vi c \<and> set c \<subseteq> U)"
proof -
  from reverse_edge_good [OF good n] obtain g' copy where
    r: "reverse_edge vi rnd n des g = Inr (g', copy)" "graph_good vi rnd g'" "case copy of None \<Rightarrow> True | Some c \<Rightarrow> in_range vi c" by blast
  have len: "unat des < length (gs_graph g)" using good n by (simp add: graph_good_def graph_ok_def)
  have adj: "set (adjacency g des) \<subseteq> U" using closed by (simp add: closed_in_def)
  from add_neighbour_Inr [OF len, of n] obtain ga where ga: "add_neighbour des n g = Inr ga"
    "adjacency ga = (adjacency g)(des := adjacency g des @ [n])" by blast
  have "closed_in U ga" by (rule closed_in_update [OF closed(1) _ ga(2)]) (use adj closed(2) in simp)
  then have "closed_in U g' \<and> (case copy of None \<Rightarrow> True | Some c \<Rightarrow> set c \<subseteq> U)"
    using r(1) ga(1) closed(1,2) adj by (auto simp: reverse_edge_def get_neighbours_Inr [OF len] split: if_splits)
  with r show ?thesis by (auto split: option.splits)
qed

lemma inter_insert_within:
  assumes ready: "build_ready vi rnd" and n: "unat n < internal_points vi" "n \<in> U"
  shows "graph_good vi rnd g \<Longrightarrow> closed_in U g \<Longrightarrow> in_range vi ds \<Longrightarrow> set ds \<subseteq> U - {n} \<Longrightarrow>
    \<exists>g'. inter_insert vi dd rnd n ds g = Some (Inr g') \<and> graph_good vi rnd g' \<and> closed_in U g'"
proof (induction ds arbitrary: g)
  case (Cons des rest)
  have d: "unat des < internal_points vi" "des \<noteq> n" "des \<in> U" "in_range vi rest" "set rest \<subseteq> U - {n}"
    using Cons.prems(3,4) by (auto simp: in_range_def)
  from reverse_edge_within [OF Cons.prems(1) n(1) d(1,2) Cons.prems(2) n(2) d(3)] obtain ga copy where
    r: "reverse_edge vi rnd n des g = Inr (ga, copy)" "graph_good vi rnd ga" "closed_in U ga"
      "case copy of None \<Rightarrow> True | Some c \<Rightarrow> in_range vi c \<and> set c \<subseteq> U" by blast
  show ?case
  proof (cases copy)
    case None
    with r Cons.IH [OF r(2,3) d(4,5)] show ?thesis by (simp add: bindO_def)
  next
    case (Some c)
    with r(4) have c: "in_range vi c" "set c \<subseteq> U" by simp_all
    from prune_copy_within [OF ready c(1), of dd des] obtain ns where
      p: "prune_copy vi dd rnd des c = Some (Inr ns)" "links_ok vi des ns" "set ns \<subseteq> set c" by blast
    have len: "unat des < length (gs_graph ga)" using r(2) d(1) by (simp add: graph_good_def graph_ok_def)
    from set_links_good [OF r(2) d(1) p(2)] set_neighbours_Inr [OF len, of ns] obtain gb where
      s: "set_neighbours des ns ga = Inr gb" "graph_good vi rnd gb" "adjacency gb = (adjacency ga)(des := ns)" by auto
    have "closed_in U gb" by (rule closed_in_update [OF r(3) _ s(3)]) (use p(3) c(2) in blast)
    from Cons.IH [OF s(2) this d(4,5)] r(1) Some p(1) s(1) show ?thesis by (simp add: bindO_def)
  qed
qed simp

lemma insert_edges_within:
  assumes ready: "build_ready vi rnd" and good: "graph_good vi rnd (vi_graph vi)" and fresh: "scratch_fresh vi scratch"
    and plain: "\<not> vi_filtered vi" and loc: "unat location < internal_points vi"
    and start: "set (get_init_ids vi) \<subseteq> U" and closed: "closed_in U (vi_graph vi)"
  shows "\<exists>g. insert_edges vec_dist rnd scratch location vi = Some (Inr g) \<and> graph_good vi rnd g \<and> closed_in (insert location U) g"
proof -
  let ?dd = "stored_distance vec_dist vi" and ?g = "vi_graph vi" and ?V = "insert location U"
  from search_and_prune_within [OF ready good fresh start closed, of "?dd location" ?dd False location "vi_filter_queue_size vi"]
  obtain ns events where
    p: "search_for_point_and_prune vi (?dd location) ?dd rnd False location (vi_queue_size vi) False (vi_filter_queue_size vi) scratch
        = Some (Inr (ns, events))" "links_ok vi location ns" "set ns \<subseteq> U" by blast
  have len: "unat location < length (gs_graph ?g)" using good loc by (simp add: graph_good_def graph_ok_def)
  from clear_neighbours_Inr [OF len] obtain gc where c: "clear_neighbours location ?g = Inr gc"
    "length (gs_graph gc) = length (gs_graph ?g)" "adjacency gc = (adjacency ?g)(location := [])" by blast
  let ?ls = "if vi_conc_consolidate vi then filter (\<lambda>link. nm_contains link (vi_location_to_tag vi)) ns else ns"
  have ls: "links_ok vi location ?ls" "set ?ls \<subseteq> U"
    using p(2,3) le_trans [OF length_filter_le] by (auto simp: links_ok_def list_ok_def)
  from set_neighbours_Inr [of location gc ?ls] c len obtain gs where s: "set_neighbours location ?ls gc = Inr gs"
    "length (gs_graph gs) = length (gs_graph ?g)" "adjacency gs = (adjacency ?g)(location := ?ls)" by auto
  have "list_ok (internal_points vi) location ?ls" "length ?ls \<le> degree_bound vi rnd"
    using ls(1) unfolding links_ok_def degree_bound_def by linarith+
  from graph_good_set [OF good loc this s(2,3)] have gs: "graph_good vi rnd gs" .
  have cl: "closed_in ?V gs" using closed ls(2) by (auto simp: closed_in_def s(3))
  have "in_range vi ns" "set ns \<subseteq> ?V - {location}" using p(2,3) by (auto simp: in_range_def links_ok_def list_ok_def)
  from inter_insert_within [OF ready loc _ gs cl this, of ?dd] obtain g where
    "inter_insert vi ?dd rnd location ns gs = Some (Inr g)" "graph_good vi rnd g" "closed_in ?V g" by blast
  with p(1) c(1) s(1) plain show ?thesis by (simp add: insert_edges_def Let_def bindO_def)
qed

subsection \<open>Consolidation\<close>

text \<open>What the iteration over a set must be: every element once.\<close>

definition enumerates :: "(u32 set \<Rightarrow> u32 list) \<Rightarrow> bool" where
  "enumerates enum \<longleftrightarrow> (\<forall>S. set (enum S) = S \<and> distinct (enum S))"

lemma expand_neighbour_fold:
  assumes "graph_ok n g" "\<forall>j \<in> set ns. unat j < n"
  shows "foldE (expand_neighbour g D loc) ns (m, S) =
     Inr (m \<or> set ns \<inter> D \<noteq> {}, S \<union> (set ns - D) \<union> (\<Union>d \<in> set ns \<inter> D. set (adjacency g d) - insert loc D))"
  using assms(2)
proof (induction ns arbitrary: m S)
  case (Cons j ns)
  have j: "unat j < length (gs_graph g)" using assms(1) Cons.prems by (simp add: graph_ok_def)
  from Cons.prems have "\<forall>j \<in> set ns. unat j < n" by simp
  note IH = Cons.IH [OF this]
  show ?case
  proof (cases "j \<in> D")
    case True
    then have "expand_neighbour g D loc j (m, S) = Inr (True, S \<union> (set (adjacency g j) - insert loc D))"
      by (auto simp: expand_neighbour_def get_neighbours_Inr [OF j])
    with True show ?thesis by (simp add: IH) blast
  next
    case False
    then have "expand_neighbour g D loc j (m, S) = Inr (m, insert j S)" by (simp add: expand_neighbour_def)
    with False show ?thesis by (simp add: IH) blast
  qed
qed simp

lemma add_neighbours_fold:
  assumes "unat i < length (gs_graph g)"
  shows "\<exists>g'. foldE (add_neighbour i) ns g = Inr g' \<and> length (gs_graph g') = length (gs_graph g)
    \<and> adjacency g' = (adjacency g)(i := adjacency g i @ ns)"
  using assms
proof (induction ns arbitrary: g)
  case (Cons j ns)
  from add_neighbour_Inr [OF Cons.prems, of j] obtain ga where a: "add_neighbour i j g = Inr ga"
    "length (gs_graph ga) = length (gs_graph g)" "adjacency ga = (adjacency g)(i := adjacency g i @ [j])" by blast
  have "unat i < length (gs_graph ga)" using Cons.prems a(2) by simp
  from Cons.IH [OF this] a(2) obtain g' where g': "foldE (add_neighbour i) ns ga = Inr g'"
    "length (gs_graph g') = length (gs_graph g)" "adjacency g' = (adjacency ga)(i := adjacency ga i @ ns)" by metis
  have "adjacency g' = (adjacency g)(i := adjacency g i @ j # ns)" unfolding g'(3) a(3) by (simp add: fun_eq_iff)
  with g'(1,2) a(1) show ?case by (simp add: fun_upd_def)
qed auto

definition reconnected :: "u32 set \<Rightarrow> u32 \<Rightarrow> graph_store_t \<Rightarrow> u32 set" where
  "reconnected D loc g = (set (adjacency g loc) - D) \<union> (\<Union>d \<in> set (adjacency g loc) \<inter> D. set (adjacency g d) - insert loc D)"

text \<open>One node: its new neighbours are among those of \<open>reconnected\<close>, all of them when the degree allows it.\<close>

lemma process_delete_correct:
  assumes ready: "build_ready vi rnd" and plain: "\<not> vi_filtered vi" and good: "graph_good vi rnd g" and enum: "enumerates enum"
    and loc: "unat loc < internal_points vi" and par: "max_degree \<le> degree_bound vi rnd" "alpha < flt_max" "growing rnd alpha"
  shows "\<exists>g'. process_delete vi dd rnd enum D loc max_degree maxc alpha g = Some (Inr g') \<and> graph_good vi rnd g'
    \<and> (\<forall>i. i \<noteq> loc \<longrightarrow> adjacency g' i = adjacency g i) \<and> set (adjacency g' loc) \<subseteq> reconnected D loc g
    \<and> (set (adjacency g loc) \<inter> D = {} \<longrightarrow> adjacency g' loc = adjacency g loc)
    \<and> (card (reconnected D loc g) \<le> max_degree \<longrightarrow> set (adjacency g' loc) = reconnected D loc g)"
proof -
  let ?A = "adjacency g loc" and ?E = "reconnected D loc g"
  have gok: "graph_ok (internal_points vi) g" and len: "unat loc < length (gs_graph g)"
    using good loc by (simp_all add: graph_good_def graph_ok_def)
  have A: "list_ok (internal_points vi) loc ?A" using gok loc by (simp add: graph_ok_adjacency)
  have ex: "foldE (expand_neighbour g D loc) ?A (False, {}) = Inr (set ?A \<inter> D \<noteq> {}, ?E)"
    using expand_neighbour_fold [OF gok, of ?A D loc False "{}"] A by (simp add: list_ok_def reconnected_def)
  have E: "loc \<notin> ?E" "?E \<inter> D = {}" "\<forall>j \<in> ?E. unat j < internal_points vi"
    using A adjacency_range [OF gok] by (auto simp: reconnected_def list_ok_def)
  have en: "set (enum ?E) = ?E" "distinct (enum ?E)" using enum by (simp_all add: enumerates_def)
  note pd = process_delete_def bindO_def get_neighbours_Inr [OF len] ex
  show ?thesis
  proof (cases "set ?A \<inter> D = {}")
    case True
    then have "?E = set ?A" by (auto simp: reconnected_def)
    with True good show ?thesis by (simp add: pd)
  next
    case False
    show ?thesis
    proof (cases "card ?E \<le> max_degree")
      case True
      from clear_neighbours_Inr [OF len] obtain gc where c: "clear_neighbours loc g = Inr gc"
        "length (gs_graph gc) = length (gs_graph g)" "adjacency gc = (adjacency g)(loc := [])" by blast
      from add_neighbours_fold [of loc gc "enum ?E"] c len obtain g' where
        g': "foldE (add_neighbour loc) (enum ?E) gc = Inr g'" "length (gs_graph g') = length (gs_graph g)"
          "adjacency g' = (adjacency g)(loc := enum ?E)" by auto
      have "list_ok (internal_points vi) loc (enum ?E)" using E en by (simp add: list_ok_def)
      moreover have "length (enum ?E) \<le> degree_bound vi rnd" using True par(1) en distinct_card [OF en(2)] by simp
      ultimately have "graph_good vi rnd g'" using graph_good_set [OF good loc _ _ g'(2,3)] by blast
      with False True c(1) g' en(1) show ?thesis by (simp add: pd)
    next
      case over: False
      let ?P = "sort_key nb_key (map (\<lambda>ngh. new_neighbor ngh (dd loc ngh)) (enum ?E))"
      have ids: "nb_id ` set ?P = ?E" using en(1) by (auto simp: image_image new_neighbor_def)
      have "map nb_id (map (\<lambda>ngh. new_neighbor ngh (dd loc ngh)) (enum ?E)) = enum ?E"
        unfolding map_map by (simp add: comp_def new_neighbor_def)
      then have "mset (map nb_id ?P) = mset (enum ?E)" by (metis mset_map mset_sort)
      then have dP: "distinct (map nb_id ?P)" using en(2) by (metis mset_eq_imp_distinct_iff)
      have "labels_ready vi ?P" using plain by (simp add: labels_ready_def)
      from occlude_list_safe [OF this dP par(2,3), of dd False loc max_degree maxc D] obtain ns ev where
        o: "occlude_list vi dd rnd False loc ?P alpha max_degree maxc D = Some (Inr (ns, take maxc ?P, ev))"
          "selection_ok (take maxc ?P) loc D max_degree ns" by blast
      have sub: "set ns \<subseteq> ?E"
      proof -
        have "nb_id ` set (take maxc ?P) \<subseteq> nb_id ` set ?P" by (intro image_mono set_take_subset)
        then show ?thesis using o(2) ids by (auto simp: selection_ok_def)
      qed
      from set_neighbours_Inr [OF len, of ns] obtain g' where g': "set_neighbours loc ns g = Inr g'"
        "length (gs_graph g') = length (gs_graph g)" "adjacency g' = (adjacency g)(loc := ns)" by blast
      have "list_ok (internal_points vi) loc ns" "length ns \<le> degree_bound vi rnd"
        using sub E o(2) par(1) by (auto simp: list_ok_def selection_ok_def)
      from graph_good_set [OF good loc this g'(2,3)] False over o(1) g' sub show ?thesis by (simp add: pd)
    qed
  qed
qed

text \<open>A pass over some nodes, with \<open>U\<close> the used slots and \<open>D\<close> the deleted ones.\<close>

definition detached :: "u32 set \<Rightarrow> graph_store_t \<Rightarrow> u32 \<Rightarrow> bool" where
  "detached D g i \<longleftrightarrow> set (adjacency g i) \<inter> D = {}"

lemma process_delete_within:
  assumes ready: "build_ready vi rnd" "\<not> vi_filtered vi" "enumerates enum"
    and par: "max_degree \<le> degree_bound vi rnd" "alpha < flt_max" "growing rnd alpha"
    and good: "graph_good vi rnd g" and closed: "closed_in U g" and loc: "unat loc < internal_points vi" "loc \<in> U"
  shows "\<exists>g'. process_delete vi dd rnd enum D loc max_degree maxc alpha g = Some (Inr g') \<and> graph_good vi rnd g' \<and> closed_in U g'
    \<and> (\<forall>i. i = loc \<or> detached D g i \<longrightarrow> detached D g' i)"
proof -
  from process_delete_correct [OF ready(1,2) good ready(3) loc(1) par, of dd D maxc] obtain g' where
    p: "process_delete vi dd rnd enum D loc max_degree maxc alpha g = Some (Inr g')" "graph_good vi rnd g'"
      "\<forall>i. i \<noteq> loc \<longrightarrow> adjacency g' i = adjacency g i" "set (adjacency g' loc) \<subseteq> reconnected D loc g" by blast
  have E: "reconnected D loc g \<subseteq> U" "reconnected D loc g \<inter> D = {}"
    using closed loc(2) by (auto simp: reconnected_def closed_in_def)
  have "set (adjacency g' i) \<subseteq> U" if "i \<in> U" for i
    using that p(3,4) E(1) closed by (cases "i = loc") (auto simp: closed_in_def)
  then have "closed_in U g'" by (simp add: closed_in_def)
  moreover have "detached D g' i" if "i = loc \<or> detached D g i" for i
    using that p(3,4) E(2) by (cases "i = loc") (auto simp: detached_def)
  ultimately show ?thesis using p(1,2) by blast
qed

lemma process_each_within:
  assumes ready: "build_ready vi rnd" "\<not> vi_filtered vi" "enumerates enum"
    and par: "max_degree \<le> degree_bound vi rnd" "alpha < flt_max" "growing rnd alpha"
    and test: "\<And>l. l \<in> set ls \<Longrightarrow> needs_process vi D check l = Inr (go l)" "\<And>l. l \<in> set ls \<Longrightarrow> go l \<Longrightarrow> l \<in> U \<and> unat l < internal_points vi"
  shows "graph_good vi rnd g \<Longrightarrow> closed_in U g \<Longrightarrow>
    \<exists>g'. process_each vi dd rnd enum D max_degree maxc alpha check ls (g, calls) = Some (Inr (g', calls + length (filter go ls)))
      \<and> graph_good vi rnd g' \<and> closed_in U g'
      \<and> (\<forall>i. i \<in> set ls \<and> go i \<or> detached D g i \<longrightarrow> detached D g' i)"
  using test
proof (induction ls arbitrary: g calls)
  case (Cons l ls)
  have n: "needs_process vi D check l = Inr (go l)" using Cons.prems(3) by simp
  have tl: "\<And>l. l \<in> set ls \<Longrightarrow> needs_process vi D check l = Inr (go l)"
    "\<And>l. l \<in> set ls \<Longrightarrow> go l \<Longrightarrow> l \<in> U \<and> unat l < internal_points vi" using Cons.prems(3,4) by simp_all
  show ?case
  proof (cases "go l")
    case False
    with Cons.IH [OF Cons.prems(1,2) tl, of calls] n show ?thesis by (auto simp: bindO_def)
  next
    case True
    then have l: "unat l < internal_points vi" "l \<in> U" using Cons.prems(4) by auto
    from process_delete_within [OF ready par Cons.prems(1,2) l, of dd D maxc] obtain ga where
      a: "process_delete vi dd rnd enum D l max_degree maxc alpha g = Some (Inr ga)" "graph_good vi rnd ga" "closed_in U ga"
        "\<forall>i. i = l \<or> detached D g i \<longrightarrow> detached D ga i" by blast
    from Cons.IH [OF a(2,3) tl, of "calls + 1"] a True n show ?thesis by (auto simp: bindO_def)
  qed
qed simp

end
