(* ===== verification/Vamana_Updates.thy ===== *)
theory Vamana_Updates
  imports Vamana_Dynamic_Correct
begin

text \<open>
  The dynamic index as its clients see it: a map from tags to vectors.  The invariant of the object, that every
  operation keeps it and refines an operation on the map, and the runs of the object from its constructor.
\<close>

definition tag_vectors :: "'v vamana_index_t \<Rightarrow> u32 \<Rightarrow> 'v option" where
  "tag_vectors vi = (\<lambda>t. get_vector_by_tag t vi)"

definition used_slots :: "'v vamana_index_t \<Rightarrow> u32 set" where
  "used_slots vi = {i. unat i < internal_points vi} - ns_members (vi_empty_slots vi)"

definition dyn_inv :: "'v vamana_index_t \<Rightarrow> (real \<Rightarrow> real) \<Rightarrow> bool" where
  "dyn_inv vi rnd \<longleftrightarrow> build_ready vi rnd \<and> graph_good vi rnd (vi_graph vi) \<and> \<not> vi_filtered vi
     \<and> 0 < vi_num_frozen vi \<and> vi_start vi = of_nat (vi_max_points vi) \<and> length (vi_data vi) = internal_points vi
     \<and> slots_ok vi \<and> tags_ok vi \<and> closed_in (used_slots vi) (vi_graph vi)"

subsection \<open>Frames\<close>

text \<open>The fields the operations never write.\<close>

definition same_shape :: "'v vamana_index_t \<Rightarrow> 'v vamana_index_t \<Rightarrow> bool" where
  "same_shape vi vi' \<longleftrightarrow> vi_max_points vi' = vi_max_points vi \<and> vi_num_frozen vi' = vi_num_frozen vi \<and> vi_start vi' = vi_start vi
     \<and> vi_queue_size vi' = vi_queue_size vi \<and> vi_alpha vi' = vi_alpha vi \<and> vi_filtered vi' = vi_filtered vi
     \<and> vi_filter_queue_size vi' = vi_filter_queue_size vi \<and> vi_location_to_labels vi' = vi_location_to_labels vi
     \<and> vi_label_to_start vi' = vi_label_to_start vi \<and> vi_range vi' = vi_range vi"

lemma same_shape_facts:
  assumes "same_shape vi vi'"
  shows "build_ready vi' = build_ready vi" "graph_good vi' = graph_good vi" "get_init_ids vi' = get_init_ids vi"
    "degree_bound vi' = degree_bound vi"
  using assms by (simp_all add: same_shape_def fun_eq_iff build_ready_def graph_good_def degree_bound_def get_init_ids_def frozen_locations_def)

lemma same_but_slots_fields:
  "same_but_slots vi vi' \<Longrightarrow> same_shape vi vi' \<and> vi_graph vi' = vi_graph vi \<and> vi_data vi' = vi_data vi"
  unfolding same_but_slots_def same_shape_def by (erule ssubst) simp

lemma frozen_used:
  assumes "dyn_inv vi rnd"
  shows "set (get_init_ids vi) \<subseteq> used_slots vi" "set (frozen_locations vi) \<subseteq> used_slots vi"
proof -
  have o: "slots_ok vi" "internal_points vi \<le> 4294967296" "vi_start vi = of_nat (vi_max_points vi)" "0 < vi_num_frozen vi"
    using assms by (simp_all add: dyn_inv_def build_ready_def)
  have emp: "\<And>l. l \<in> ns_members (vi_empty_slots vi) \<Longrightarrow> unat l < vi_max_points vi"
    using o(1) unfolding slots_ok_def by blast
  have f: "of_nat i \<in> used_slots vi" if "vi_max_points vi \<le> i" "i < internal_points vi" for i
  proof -
    have "unat (of_nat i :: u32) = i" using that o(2) by (intro unat_of_index) simp
    with that emp [of "of_nat i"] show ?thesis by (auto simp: used_slots_def)
  qed
  then show fl: "set (frozen_locations vi) \<subseteq> used_slots vi" by (auto simp: frozen_locations_def)
  from f [of "vi_max_points vi"] o(3,4) fl show "set (get_init_ids vi) \<subseteq> used_slots vi"
    by (auto simp: get_init_ids_def)
qed

lemma live_used: "slots_ok vi \<Longrightarrow> live_slots vi \<union> vi_delete_set vi \<subseteq> used_slots vi"
  unfolding slots_ok_def used_slots_def by (auto simp: set_eq_iff intro: trans_less_add1)

lemma tag_live: "tags_ok vi \<Longrightarrow> map_of (vi_tag_to_location vi) t = Some l \<Longrightarrow> l \<in> live_slots vi"
  unfolding tags_ok_def live_slots_def by blast

subsection \<open>Insertion\<close>

lemma insert_point_ok:
  assumes inv: "dyn_inv vi rnd" and tag: "tag \<noteq> 0" and fresh: "scratch_fresh vi scratch"
  shows "\<exists>r vi'. insert_point vec_dist rnd scratch point tag labels vi = Some (Inr r, vi') \<and> dyn_inv vi' rnd
    \<and> (if tag_vectors vi tag = None \<and> vi_nd vi < vi_max_points vi
       then r = 0 \<and> tag_vectors vi' = (tag_vectors vi)(tag \<mapsto> point)
       else r = - 1 \<and> tag_vectors vi' = tag_vectors vi)"
proof -
  note o = inv [unfolded dyn_inv_def]
  from o have plain: "\<not> vi_filtered vi" and slots: "slots_ok vi" and tags: "tags_ok vi" by simp_all
  have tv: "tag_vectors vi tag = None \<longleftrightarrow> map_of (vi_tag_to_location vi) tag = None"
    by (simp add: tag_vectors_def get_vector_by_tag_def)
  from insert_slot_ok [OF slots tags plain tag, of point labels] obtain r v where
    i: "insert_slot point tag labels vi = (Inr r, v)" "slots_ok v" "tags_ok v" "same_but_slots vi v" and
    c: "case r of None \<Rightarrow> (vi_nd vi = vi_max_points vi \<or> map_of (vi_tag_to_location vi) tag \<noteq> None)
           \<and> ns_members (vi_empty_slots v) = ns_members (vi_empty_slots vi)
           \<and> vi_tag_to_location v = vi_tag_to_location vi \<and> vi_location_to_tag v = vi_location_to_tag vi
       | Some l \<Rightarrow> vi_nd vi < vi_max_points vi \<and> map_of (vi_tag_to_location vi) tag = None
           \<and> l \<in> ns_members (vi_empty_slots vi) \<and> ns_members (vi_empty_slots v) = ns_members (vi_empty_slots vi) - {l}
           \<and> vi_tag_to_location v = AList.update tag l (vi_tag_to_location vi)
           \<and> vi_location_to_tag v = nm_set l tag (vi_location_to_tag vi)" by blast
  from same_but_slots_fields [OF i(4)] have sh: "same_shape vi v" "vi_graph v = vi_graph vi" "vi_data v = vi_data vi" by simp_all
  have cnt: "vi_max_points v = vi_max_points vi" "vi_num_frozen v = vi_num_frozen vi" "vi_start v = vi_start vi" "\<not> vi_filtered v"
    using sh(1) plain by (simp_all add: same_shape_def)
  show ?thesis
  proof (cases r)
    case None
    with c have n: "vi_nd vi = vi_max_points vi \<or> map_of (vi_tag_to_location vi) tag \<noteq> None"
      "ns_members (vi_empty_slots v) = ns_members (vi_empty_slots vi)" "vi_tag_to_location v = vi_tag_to_location vi" by simp_all
    have "used_slots v = used_slots vi" using n(2) cnt by (simp add: used_slots_def)
    then have "dyn_inv v rnd" unfolding dyn_inv_def same_shape_facts [OF sh(1)] sh(2,3) cnt(1-3) using o i(2,3) cnt(4) by simp
    moreover have "tag_vectors v = tag_vectors vi" by (simp add: tag_vectors_def get_vector_by_tag_def n(3) sh(3))
    moreover have "\<not> (tag_vectors vi tag = None \<and> vi_nd vi < vi_max_points vi)" using n(1) tv by auto
    ultimately show ?thesis using i(1) None by (simp add: insert_point_def)
  next
    case (Some l)
    with c have s: "vi_nd vi < vi_max_points vi" "map_of (vi_tag_to_location vi) tag = None"
      "l \<in> ns_members (vi_empty_slots vi)" "ns_members (vi_empty_slots v) = ns_members (vi_empty_slots vi) - {l}"
      "vi_tag_to_location v = AList.update tag l (vi_tag_to_location vi)" by simp_all
    have l: "unat l < vi_max_points vi" "l \<notin> live_slots vi" using slots s(3) unfolding slots_ok_def by blast+
    let ?w = "v\<lparr>vi_data := (vi_data vi)[unat l := point]\<rparr>"
    have sw: "same_shape vi ?w" using sh(1) by (simp add: same_shape_def)
    note w = same_shape_facts [OF sw]
    have e: "closed_in (used_slots vi) (vi_graph ?w)" "graph_good ?w rnd (vi_graph ?w)" "build_ready ?w rnd"
      unfolding w using o by (simp_all add: sh(2))
    have f: "set (get_init_ids ?w) \<subseteq> used_slots vi" unfolding w by (rule frozen_used(1) [OF inv])
    have h: "\<not> vi_filtered ?w" "scratch_fresh ?w scratch" "unat l < internal_points ?w"
      using cnt l(1) fresh by (simp_all add: scratch_fresh_def)
    from insert_edges_within [OF e(3,2) h(2,1,3) f e(1), of vec_dist] obtain g where
      g: "insert_edges vec_dist rnd scratch l ?w = Some (Inr g)" "graph_good ?w rnd g" "closed_in (insert l (used_slots vi)) g" by blast
    let ?z = "?w\<lparr>vi_graph := g\<rparr>"
    have res: "insert_point vec_dist rnd scratch point tag labels vi = Some (Inr 0, ?z)"
      using i(1) Some g(1) sh(3) by (simp add: insert_point_def)
    have "unat l < internal_points vi" using l(1) by simp
    then have "{i. unat i < internal_points vi} - (ns_members (vi_empty_slots vi) - {l}) = insert l (used_slots vi)"
      unfolding used_slots_def by blast
    then have "used_slots ?z = insert l (used_slots vi)" by (simp add: used_slots_def s(4) cnt(1,2))
    moreover have sz: "same_shape vi ?z" using sh(1) by (simp add: same_shape_def)
    moreover have "slots_ok ?z" "tags_ok ?z" using i(2,3) by (simp_all add: slots_ok_def tags_ok_def live_slots_def)
    ultimately have "dyn_inv ?z rnd"
      unfolding dyn_inv_def same_shape_facts [OF sz] using o g(2,3) cnt by (simp add: w)
    moreover have "tag_vectors ?z = (tag_vectors vi)(tag \<mapsto> point)"
    proof (rule ext)
      fix t
      have "unat l' \<noteq> unat l" if "map_of (vi_tag_to_location vi) t = Some l'" for l'
        using tag_live [OF tags that] l(2) by auto
      moreover have "unat l < length (vi_data vi)" using l(1) o by simp
      ultimately show "tag_vectors ?z t = ((tag_vectors vi)(tag \<mapsto> point)) t"
        by (cases "map_of (vi_tag_to_location vi) t") (auto simp: tag_vectors_def get_vector_by_tag_def s(5) simp del: map_of_eq_Some_iff unat_eq)
    qed
    ultimately show ?thesis using res s(1,2) tv by simp
  qed
qed

subsection \<open>Deletion\<close>

lemma delete_at_inv:
  assumes inv: "dyn_inv vi rnd" and t: "map_of (vi_tag_to_location vi) tag = Some l"
  shows "dyn_inv (delete_at tag l vi) rnd \<and> tag_vectors (delete_at tag l vi) = (tag_vectors vi)(tag := None)"
proof -
  note o = inv [unfolded dyn_inv_def]
  have s: "same_shape vi (delete_at tag l vi)" by (simp add: same_shape_def delete_at_def)
  have "used_slots (delete_at tag l vi) = used_slots vi" by (simp add: used_slots_def delete_at_def)
  then have "dyn_inv (delete_at tag l vi) rnd"
    unfolding dyn_inv_def same_shape_facts [OF s] using o delete_at_ok [of vi tag l] t by (simp add: delete_at_def)
  then show ?thesis by (simp add: tag_vectors_def get_vector_by_tag_def delete_at_def fun_eq_iff)
qed

lemma not_compacted_inv [simp]: "dyn_inv (vi\<lparr>vi_data_compacted := b\<rparr>) rnd = dyn_inv vi rnd"
  "tag_vectors (vi\<lparr>vi_data_compacted := b\<rparr>) = tag_vectors vi"
proof -
  have s: "same_shape vi (vi\<lparr>vi_data_compacted := b\<rparr>)" by (simp add: same_shape_def)
  show "dyn_inv (vi\<lparr>vi_data_compacted := b\<rparr>) rnd = dyn_inv vi rnd"
    unfolding dyn_inv_def same_shape_facts [OF s] by (simp add: used_slots_def slots_ok_def tags_ok_def live_slots_def)
qed (simp add: tag_vectors_def get_vector_by_tag_def)

lemma lazy_delete_ok:
  assumes "dyn_inv vi rnd"
  shows "\<exists>vi'. lazy_delete tag vi = ((if tag_vectors vi tag = None then - 1 else 0), vi') \<and> dyn_inv vi' rnd
    \<and> tag_vectors vi' = (tag_vectors vi)(tag := None)"
proof (cases "map_of (vi_tag_to_location vi) tag")
  case None
  then have "tag_vectors vi tag = None" by (simp add: tag_vectors_def get_vector_by_tag_def)
  then show ?thesis using assms None by (simp add: lazy_delete_def Let_def fun_upd_idem)
next
  case (Some l)
  then have "tag_vectors vi tag \<noteq> None" by (simp add: tag_vectors_def get_vector_by_tag_def)
  then show ?thesis using assms Some delete_at_inv [of "vi\<lparr>vi_data_compacted := False\<rparr>" rnd tag l]
    by (simp add: lazy_delete_def Let_def)
qed

lemma delete_each_ok:
  assumes "dyn_inv vi rnd"
  shows "\<exists>failed' vi'. delete_each tags failed vi = (failed', vi') \<and> dyn_inv vi' rnd
    \<and> tag_vectors vi' = (\<lambda>t. if t \<in> set tags then None else tag_vectors vi t)
    \<and> (distinct tags \<longrightarrow> failed' = failed @ filter (\<lambda>t. tag_vectors vi t = None) tags)"
  using assms
proof (induction tags arbitrary: failed vi)
  case (Cons tag tags)
  have tv: "tag_vectors vi tag = None \<longleftrightarrow> map_of (vi_tag_to_location vi) tag = None"
    by (simp add: tag_vectors_def get_vector_by_tag_def)
  show ?case
  proof (cases "map_of (vi_tag_to_location vi) tag")
    case None
    with tv have "tag_vectors vi tag = None" by simp
    with None Cons.IH [OF Cons.prems, of "failed @ [tag]"] show ?thesis by (auto simp: fun_eq_iff)
  next
    case (Some l)
    from delete_at_inv [OF Cons.prems Some] have d: "dyn_inv (delete_at tag l vi) rnd"
      "tag_vectors (delete_at tag l vi) = (tag_vectors vi)(tag := None)" by simp_all
    have "filter (\<lambda>t. ((tag_vectors vi)(tag := None)) t = None) tags = filter (\<lambda>t. tag_vectors vi t = None) tags" if "tag \<notin> set tags"
      using that by (intro filter_cong) auto
    with Cons.IH [OF d(1), of failed] Some d(2) tv show ?thesis by (auto simp: fun_eq_iff)
  qed
qed (simp add: fun_eq_iff)

end
