(* ===== verification/Vamana_Runs.thy ===== *)
theory Vamana_Runs
  imports Vamana_Updates
begin

text \<open>
  Consolidation of the deleted slots, every run of a dynamic index from its constructor, and what a deleted
  starting point does to \<open>consolidate_deletes\<close>.
\<close>

subsection \<open>Consolidation\<close>

lemma length_filter_distinct: "distinct xs \<Longrightarrow> length (filter P xs) = card {x \<in> set xs. P x}"
  by (metis distinct_card distinct_filter set_filter)

lemma slot_list:
  assumes "n \<le> 4294967296"
  shows "distinct (map of_nat [0..<n] :: u32 list)" "set (map of_nat [0..<n] :: u32 list) = {l. unat l < n}"
proof -
  have u: "i < n \<Longrightarrow> unat (of_nat i :: u32) = i" for i using assms by (intro unat_of_index) simp
  have "inj_on (of_nat :: nat \<Rightarrow> u32) (set [0..<n])" by (rule inj_onI) (metis atLeastLessThan_iff set_upt u)
  then show "distinct (map of_nat [0..<n] :: u32 list)" by (simp add: distinct_map)
  show "set (map of_nat [0..<n] :: u32 list) = {l. unat l < n}"
  proof
    show "{l. unat l < n} \<subseteq> set (map of_nat [0..<n] :: u32 list)"
    proof
      fix l :: u32
      assume "l \<in> {l. unat l < n}"
      then have "unat l \<in> set [0..<n]" by simp
      then show "l \<in> set (map of_nat [0..<n])" unfolding set_map by (intro image_eqI [of _ _ "unat l"]) simp_all
    qed
  qed (use u in auto)
qed

lemma consolidation_pass:
  assumes inv: "dyn_inv vi rnd" and enum: "enumerates enum"
    and par: "max_degree \<le> degree_bound vi rnd" "alpha < flt_max" "growing rnd alpha"
  shows "\<exists>g. bindO (process_each (vi\<lparr>vi_delete_set := {}\<rparr>) dd rnd enum (vi_delete_set vi) max_degree maxc alpha True
            (map of_nat [0..<vi_max_points vi]) (vi_graph vi, 0))
          (process_each (vi\<lparr>vi_delete_set := {}\<rparr>) dd rnd enum (vi_delete_set vi) max_degree maxc alpha False (frozen_locations vi))
        = Some (Inr (g, card (live_slots vi) + vi_num_frozen vi))
      \<and> graph_good vi rnd g \<and> closed_in (used_slots vi) g \<and> (\<forall>i \<in> used_slots vi - vi_delete_set vi. detached (vi_delete_set vi) g i)"
proof -
  let ?v = "vi\<lparr>vi_delete_set := {}\<rparr>" and ?D = "vi_delete_set vi" and ?U = "used_slots vi" and ?E = "ns_members (vi_empty_slots vi)"
  note o = inv [unfolded dyn_inv_def]
  from o have slots: "slots_ok vi" and N: "internal_points vi \<le> 4294967296" by (simp_all add: build_ready_def)
  have sh: "same_shape vi ?v" by (simp add: same_shape_def)
  note v = same_shape_facts [OF sh]
  have r: "build_ready ?v rnd" "\<not> vi_filtered ?v" "max_degree \<le> degree_bound ?v rnd" "graph_good ?v rnd (vi_graph vi)"
    unfolding v using o par(1) by simp_all
  let ?ls = "map of_nat [0..<vi_max_points vi] :: u32 list" and ?go = "\<lambda>l. l \<notin> ?D \<and> l \<notin> ?E"
  have M: "vi_max_points vi \<le> 4294967296" using N by simp
  note sl = slot_list [OF M]
  have bits: "ns_ok (vi_empty_slots vi)" "vi_max_points vi \<le> length (ns_bits (vi_empty_slots vi))"
    using slots unfolding slots_ok_def by simp_all
  have test: "needs_process ?v ?D True l = Inr (?go l)" if "l \<in> set ?ls" for l
  proof -
    have "unat l < vi_max_points vi" using that unfolding sl(2) by simp
    then show ?thesis using bits by (simp add: needs_process_def ns_is_in_set_iff)
  qed
  have below: "unat l < internal_points ?v" if "unat l < vi_max_points vi" for l :: u32 using that by simp
  have rng: "l \<in> ?U \<and> unat l < internal_points ?v" if "l \<in> set ?ls" "?go l" for l
    using that(2) below [of l] that(1) unfolding sl(2) used_slots_def by auto
  have cl: "closed_in ?U (vi_graph vi)" using o by simp
  from process_each_within [OF r(1,2) enum r(3) par(2,3) test rng r(4) cl, where ls = ?ls and dd = dd and maxc = maxc and calls = 0] obtain ga where
    a: "process_each ?v dd rnd enum ?D max_degree maxc alpha True ?ls (vi_graph vi, 0) = Some (Inr (ga, length (filter ?go ?ls)))"
      "graph_good ?v rnd ga" "closed_in ?U ga" "\<forall>i. i \<in> set ?ls \<and> ?go i \<or> detached ?D (vi_graph vi) i \<longrightarrow> detached ?D ga i"
    unfolding add_0 by blast
  have fr: "l \<in> ?U \<and> unat l < internal_points ?v" if "l \<in> set (frozen_locations vi)" for l
    using that frozen_used(2) [OF inv] N by (auto simp: frozen_locations_def unat_of_index)
  have t2: "needs_process ?v ?D False l = Inr True" for l by (simp add: needs_process_def)
  from process_each_within [OF r(1,2) enum r(3) par(2,3) t2 fr a(2,3), where ls = "frozen_locations vi" and dd = dd and maxc = maxc and calls = "length (filter ?go ?ls)"] obtain g where
    g: "process_each ?v dd rnd enum ?D max_degree maxc alpha False (frozen_locations vi) (ga, length (filter ?go ?ls))
        = Some (Inr (g, length (filter ?go ?ls) + length (frozen_locations vi)))"
      "graph_good ?v rnd g" "closed_in ?U g" "\<forall>i. i \<in> set (frozen_locations vi) \<and> True \<or> detached ?D ga i \<longrightarrow> detached ?D g i" unfolding filter_True by auto
  have "{l \<in> set ?ls. ?go l} = live_slots vi" unfolding sl(2) using slots unfolding slots_ok_def by blast
  then have n: "length (filter ?go ?ls) = card (live_slots vi)" using length_filter_distinct [OF sl(1), of ?go] by simp
  have "detached ?D g i" if i: "i \<in> ?U - ?D" for i
  proof (cases "unat i < vi_max_points vi")
    case True
    then have "i \<in> set ?ls \<and> ?go i" using i unfolding sl(2) used_slots_def by simp
    then show ?thesis using a(4) g(4) by blast
  next
    case False
    with i have "unat i \<in> set [vi_max_points vi..<internal_points vi]" by (auto simp: used_slots_def)
    then have "of_nat (unat i) \<in> set (frozen_locations vi)" unfolding frozen_locations_def set_map by (rule imageI)
    then show ?thesis using g(4) by simp
  qed
  with a(1) g(1-3) n show ?thesis unfolding v by (simp add: bindO_def frozen_locations_def)
qed

lemma release_locations_ok:
  assumes inv: "dyn_inv vi rnd" and g: "graph_good vi rnd g" "closed_in (used_slots vi) g"
    "\<forall>i \<in> used_slots vi - vi_delete_set vi. detached (vi_delete_set vi) g i" and enum: "enumerates enum"
  shows "\<exists>vi'. release_locations (enum (vi_delete_set vi)) (vi\<lparr>vi_delete_set := {}, vi_graph := g\<rparr>) = (Inr (card (live_slots vi)), vi')
    \<and> dyn_inv vi' rnd \<and> vi_delete_set vi' = {} \<and> tag_vectors vi' = tag_vectors vi \<and> same_shape vi vi'
    \<and> ns_members (vi_empty_slots vi') = ns_members (vi_empty_slots vi) \<union> vi_delete_set vi
    \<and> live_slots vi' = live_slots vi \<and> vi_graph vi' = g"
proof -
  let ?D = "vi_delete_set vi" and ?v = "vi\<lparr>vi_delete_set := {}, vi_graph := g\<rparr>"
  note o = inv [unfolded dyn_inv_def]
  from o have slots: "slots_ok vi" by simp
  have en: "set (enum ?D) = ?D" "distinct (enum ?D)" using enum by (simp_all add: enumerates_def)
  have "slots_ok (?v\<lparr>vi_delete_set := set (enum ?D)\<rparr>)" unfolding en(1) using slots by (simp add: slots_ok_def live_slots_def)
  from release_each_ok [OF this en(2)] obtain s where
    s: "release_each (enum ?D) ?v = (Inr (), ?v\<lparr>vi_empty_slots := s, vi_nd := vi_nd vi - length (enum ?D)\<rparr>)"
      "slots_ok (?v\<lparr>vi_empty_slots := s, vi_nd := vi_nd vi - length (enum ?D)\<rparr>)"
      "ns_members s = ns_members (vi_empty_slots vi) \<union> ?D" using en by auto
  have nd: "vi_nd vi - length (enum ?D) = card (live_slots vi)"
    using slots distinct_card [OF en(2)] en(1) by (simp add: slots_ok_def)
  let ?z = "?v\<lparr>vi_empty_slots := s, vi_nd := card (live_slots vi)\<rparr>"
  have z: "slots_ok ?z" using s(2) unfolding nd .
  have cnt: "ns_size s + card (live_slots vi) = vi_max_points vi" using slots_count [OF z] by simp
  have rel: "release_locations (enum ?D) ?v = (Inr (card (live_slots vi)), ?z)"
    using s(1) cnt unfolding nd by (simp add: release_locations_def)
  have sh: "same_shape vi ?z" by (simp add: same_shape_def)
  have U: "used_slots ?z = used_slots vi - ?D" using s(3) by (auto simp: used_slots_def)
  have "closed_in (used_slots ?z) g" unfolding U using g(2,3) unfolding closed_in_def detached_def by blast
  then have "dyn_inv ?z rnd" unfolding dyn_inv_def same_shape_facts [OF sh] using o g(1) z by (simp add: tags_ok_def)
  with rel sh s(3) show ?thesis by (simp add: tag_vectors_def get_vector_by_tag_def live_slots_def)
qed

lemma consolidate_ok:
  assumes inv: "dyn_inv vi rnd" and enum: "enumerates enum"
    and par: "max_degree \<le> degree_bound vi rnd" "alpha < flt_max" "growing rnd alpha"
  shows "\<exists>report vi'. consolidate_deletes vec_dist rnd enum lock_free max_degree maxc alpha vi = Some (Inr report, vi')
    \<and> dyn_inv vi' rnd \<and> tag_vectors vi' = tag_vectors vi \<and> same_shape vi vi'
    \<and> (if lock_free
       then report = \<lparr>cr_status = SUCCESS, cr_active_points = card (live_slots vi), cr_max_points = vi_max_points vi,
              cr_empty_slots = vi_max_points vi - card (live_slots vi), cr_slots_released = card (vi_delete_set vi),
              cr_delete_set_size = 0, cr_num_calls = card (live_slots vi) + vi_num_frozen vi\<rparr>
            \<and> vi_delete_set vi' = {} \<and> ns_members (vi_empty_slots vi') = ns_members (vi_empty_slots vi) \<union> vi_delete_set vi
            \<and> (\<forall>i \<in> used_slots vi'. set (adjacency (vi_graph vi') i) \<inter> vi_delete_set vi = {})
       else report = failed_report LOCK_FAIL \<and> vi' = vi)"
proof -
  note o = inv [unfolded dyn_inv_def]
  from o have so: "slots_ok vi" "tags_ok vi" by simp_all
  have start: "vi_start vi \<notin> vi_delete_set vi"
  proof -
    have "unat (vi_start vi) = vi_max_points vi" using o unat_of_index [of "vi_max_points vi"] by (simp add: build_ready_def)
    moreover have "\<And>l. l \<in> vi_delete_set vi \<Longrightarrow> unat l < vi_max_points vi" using so(1) unfolding slots_ok_def by blast
    ultimately show ?thesis by (metis less_irrefl)
  qed
  have pre: "vi_enable_tags vi" "ns_size (vi_empty_slots vi) + vi_nd vi = vi_max_points vi"
    "nm_size (vi_location_to_tag vi) + card (vi_delete_set vi) = vi_nd vi" "nm_size (vi_location_to_tag vi) = length (vi_tag_to_location vi)"
    using so slots_count [OF so(1)] tag_count [OF so] by (simp_all add: tags_ok_def slots_ok_def)
  let ?w = "vi\<lparr>vi_delete_set := {}\<rparr>"
  from consolidation_pass [OF inv enum par, of "stored_distance vec_dist ?w" maxc] obtain g where
    g: "bindO (process_each ?w (stored_distance vec_dist ?w) rnd enum (vi_delete_set vi) max_degree maxc alpha True
            (map of_nat [0..<vi_max_points vi]) (vi_graph vi, 0))
          (process_each ?w (stored_distance vec_dist ?w) rnd enum (vi_delete_set vi) max_degree maxc alpha False (frozen_locations vi))
        = Some (Inr (g, card (live_slots vi) + vi_num_frozen vi))"
      "graph_good vi rnd g" "closed_in (used_slots vi) g" "\<forall>i \<in> used_slots vi - vi_delete_set vi. detached (vi_delete_set vi) g i" by blast
  from release_locations_ok [OF inv g(2-4) enum] obtain vi' where
    r: "release_locations (enum (vi_delete_set vi)) (vi\<lparr>vi_delete_set := {}, vi_graph := g\<rparr>) = (Inr (card (live_slots vi)), vi')"
      "dyn_inv vi' rnd" "vi_delete_set vi' = {}" "tag_vectors vi' = tag_vectors vi" "same_shape vi vi'"
      "ns_members (vi_empty_slots vi') = ns_members (vi_empty_slots vi) \<union> vi_delete_set vi" "live_slots vi' = live_slots vi" "vi_graph vi' = g" by blast
  show ?thesis
  proof (cases lock_free)
    case False
    then show ?thesis using pre start inv by (simp add: consolidate_deletes_def same_shape_def)
  next
    case True
    have M: "vi_max_points vi' = vi_max_points vi" using r(5) by (simp add: same_shape_def)
    have fl: "frozen_locations ?w = frozen_locations vi" by (simp add: frozen_locations_def)
    have "slots_ok vi'" using r(2) by (simp add: dyn_inv_def)
    from slots_count [OF this] this r(3,7) M have e: "ns_size (vi_empty_slots vi') = vi_max_points vi - card (live_slots vi)"
      by (simp add: slots_ok_def)
    have "used_slots vi' \<subseteq> used_slots vi - vi_delete_set vi"
      using r(5,6) by (auto simp: used_slots_def same_shape_def)
    then have d: "\<forall>i \<in> used_slots vi'. set (adjacency (vi_graph vi') i) \<inter> vi_delete_set vi = {}"
      using g(4) unfolding r(8) detached_def by blast
    have "consolidate_deletes vec_dist rnd enum lock_free max_degree maxc alpha vi = Some (Inr \<lparr>cr_status = SUCCESS,
        cr_active_points = card (live_slots vi), cr_max_points = vi_max_points vi, cr_empty_slots = vi_max_points vi - card (live_slots vi),
        cr_slots_released = card (vi_delete_set vi), cr_delete_set_size = 0, cr_num_calls = card (live_slots vi) + vi_num_frozen vi\<rparr>, vi')"
      using pre start True by (simp add: consolidate_deletes_def Let_def fl g(1) r(1,3) M e)
    then show ?thesis using r d True by simp
  qed
qed

subsection \<open>The constructor\<close>

definition dyn_begins :: "(real \<Rightarrow> real) \<Rightarrow> (u32 set \<Rightarrow> u32 list) \<Rightarrow> 'v vamana_index_t \<Rightarrow> bool" where
  "dyn_begins rnd enum vi \<longleftrightarrow> enumerates enum \<and> build_ready vi rnd
     \<and> (\<exists>cf data_store r. new_vamana_index cf data_store (new_graph_store (internal_points vi) r) = Inr vi
          \<and> cf_dynamic cf \<and> \<not> cf_filtered cf \<and> length data_store = internal_points vi)"

lemma new_graph: "gs_graph (new_graph_store n r) = replicate n []"
  by (simp add: new_graph_store_def resize_graph_def resized_def)

lemma new_graph_good: "graph_good vi rnd (new_graph_store (internal_points vi) r)" and new_graph_closed: "closed_in U (new_graph_store n r)"
proof -
  have "adjacency (new_graph_store n r) i = []" for n r i by (simp add: adjacency_def new_graph)
  then show "graph_good vi rnd (new_graph_store (internal_points vi) r)" "closed_in U (new_graph_store n r)"
    by (simp_all add: graph_good_def graph_ok_adjacency new_graph list_ok_def closed_in_def)
qed

lemma new_slots:
  assumes "0 < n" "n \<le> 4294967296"
  shows "ns_ok (fold ns_insert (map of_nat [0..<n]) ns_empty)" "ns_members (fold ns_insert (map of_nat [0..<n]) ns_empty) = {l. unat l < n}"
    "n \<le> length (ns_bits (fold ns_insert (map of_nat [0..<n]) ns_empty))"
proof -
  let ?s = "fold ns_insert (map of_nat [0..<n]) ns_empty"
  from ns.push_all [of ns_empty "map of_nat [0..<n]"] slot_list [OF assms(2)]
  show s: "ns_ok ?s" "ns_members ?s = {l. unat l < n}" by simp_all
  have u: "unat (of_nat (n - 1) :: u32) = n - 1" using assms by (intro unat_of_index) simp
  with s(2) assms(1) have "of_nat (n - 1) \<in> set (ns_values ?s)" by (auto simp: ns_members_def)
  with s(1) have "unat (of_nat (n - 1) :: u32) < length (ns_bits ?s)" unfolding ns_ok_def by blast
  with u assms(1) show "n \<le> length (ns_bits ?s)" by simp
qed

lemma new_dynamic_fields:
  assumes "new_vamana_index cf data_store g = Inr vi" "cf_dynamic cf" "\<not> cf_filtered cf"
  shows "vi_graph vi = g" "vi_data vi = data_store" "vi_nd vi = 0" "vi_enable_tags vi" "\<not> vi_filtered vi" "0 < vi_num_frozen vi"
    "vi_start vi = of_nat (vi_max_points vi)" "0 < vi_max_points vi"
    "vi_empty_slots vi = fold ns_insert (map of_nat [0..<vi_max_points vi]) ns_empty" "vi_delete_set vi = {}"
    "vi_tag_to_location vi = []" "vi_location_to_tag vi = nm_empty"
  using assms by (auto simp: new_vamana_index_def Let_def enable_delete_def split: if_splits)

lemma new_index_inv:
  assumes "dyn_begins rnd enum vi"
  shows "dyn_inv vi rnd \<and> tag_vectors vi = Map.empty"
proof -
  from assms obtain cf data_store r where
    n: "new_vamana_index cf data_store (new_graph_store (internal_points vi) r) = Inr vi" "cf_dynamic cf" "\<not> cf_filtered cf"
      "length data_store = internal_points vi" and ready: "build_ready vi rnd" by (auto simp: dyn_begins_def)
  note f = new_dynamic_fields [OF n(1-3)]
  have "vi_max_points vi \<le> 4294967296" using ready by (simp add: build_ready_def)
  note s = new_slots [OF f(8) this]
  have live: "live_slots vi = {}" by (simp add: live_slots_def f(12) dom_def)
  have "slots_ok vi"
    unfolding slots_ok_def live f(9,10,12,3) using s \<open>vi_max_points vi \<le> 4294967296\<close> by simp
  moreover have "tags_ok vi" by (simp add: tags_ok_def f(4,11,12))
  moreover have "graph_good vi rnd (vi_graph vi)" "closed_in (used_slots vi) (vi_graph vi)"
    unfolding f(1) by (rule new_graph_good, rule new_graph_closed)
  ultimately have "dyn_inv vi rnd" unfolding dyn_inv_def using ready f(2,5-7) n(4) by simp
  then show ?thesis by (simp add: tag_vectors_def get_vector_by_tag_def f(11) fun_eq_iff)
qed

subsection \<open>Every run\<close>

inductive dyn_step :: "('v \<Rightarrow> 'v \<Rightarrow> real) \<Rightarrow> (real \<Rightarrow> real) \<Rightarrow> (u32 set \<Rightarrow> u32 list) \<Rightarrow> 'v vamana_index_t \<Rightarrow> 'v vamana_index_t \<Rightarrow> bool"
  for vec_dist rnd enum where
  step_insert: "tag \<noteq> 0 \<Longrightarrow> scratch_fresh vi scratch \<Longrightarrow>
     insert_point vec_dist rnd scratch point tag labels vi = Some (r, vi') \<Longrightarrow> dyn_step vec_dist rnd enum vi vi'"
| step_delete: "lazy_delete tag vi = (code, vi') \<Longrightarrow> dyn_step vec_dist rnd enum vi vi'"
| step_delete_many: "lazy_delete_many tags failed vi = (r, vi') \<Longrightarrow> dyn_step vec_dist rnd enum vi vi'"
| step_consolidate: "max_degree \<le> degree_bound vi rnd \<Longrightarrow> alpha < flt_max \<Longrightarrow> growing rnd alpha \<Longrightarrow>
     consolidate_deletes vec_dist rnd enum lock_free max_degree maxc alpha vi = Some (r, vi') \<Longrightarrow> dyn_step vec_dist rnd enum vi vi'"

lemma delete_many_ok: "dyn_inv vi rnd \<Longrightarrow> lazy_delete_many tags failed vi = (r, vi') \<Longrightarrow> dyn_inv vi' rnd"
  using delete_each_ok [of "vi\<lparr>vi_data_compacted := False\<rparr>" rnd tags "[]"]
  by (auto simp: lazy_delete_many_def split: if_splits)

lemma dyn_step_inv:
  assumes "dyn_step vec_dist rnd enum vi vi'" "dyn_inv vi rnd" "enumerates enum"
  shows "dyn_inv vi' rnd"
  using assms(1)
proof cases
  case (step_insert tag scratch point labels r)
  from insert_point_ok [OF assms(2) step_insert(1,2), of vec_dist point labels] step_insert(3) show ?thesis by auto
next
  case (step_delete tag code)
  with lazy_delete_ok [OF assms(2), of tag] show ?thesis by auto
next
  case (step_delete_many tags failed r)
  then show ?thesis by (rule delete_many_ok [OF assms(2)])
next
  case (step_consolidate max_degree alpha lock_free maxc r)
  from consolidate_ok [OF assms(2,3) step_consolidate(1-3), of vec_dist lock_free maxc] step_consolidate(4) show ?thesis by auto
qed

interpretation updates: invariant_system "dyn_begins rnd enum" "dyn_step vec_dist rnd enum" "\<lambda>vi. dyn_inv vi rnd \<and> enumerates enum"
  for rnd enum vec_dist
proof
  fix vi :: "'v vamana_index_t"
  assume "dyn_begins rnd enum vi"
  then show "dyn_inv vi rnd \<and> enumerates enum" using new_index_inv [of rnd enum vi] by (simp add: dyn_begins_def)
qed (auto intro: dyn_step_inv)


text \<open>An index of two slots and one frozen point, and a scratch space.\<close>

definition small_config :: index_config_t where
  "small_config = \<lparr>cf_metric = L2, cf_max_points = 2, cf_num_frozen = 0, cf_dynamic = True, cf_enable_tags = True, cf_filtered = False,
     cf_pq_dist = False, cf_conc_consolidate = False, cf_queue_size = 4, cf_range = 2, cf_max_c = 8, cf_alpha = 1,
     cf_filter_queue_size = 4, cf_saturate = False\<rparr>"

definition small_index :: "real vamana_index_t" where
  "small_index = projr (new_vamana_index small_config [0, 0, 0] (new_graph_store 3 2))"

abbreviation line_dist :: "real \<Rightarrow> real \<Rightarrow> real" where
  "line_dist a b \<equiv> (a - b) * (a - b)"

abbreviation in_order :: "u32 set \<Rightarrow> u32 list" where
  "in_order \<equiv> sorted_list_of_set"

lemma small_begins: "dyn_begins (\<lambda>x. x) in_order small_index"
proof -
  have i: "new_vamana_index small_config [0, 0, 0] (new_graph_store 3 2) = Inr small_index"
    by (simp add: small_index_def new_vamana_index_def small_config_def Let_def)
  have p: "internal_points small_index = 3" "vi_start small_index = 2" "vi_queue_size small_index = 4" "vi_alpha small_index = 1"
    "\<not> vi_filtered small_index"
    by (simp_all add: small_index_def new_vamana_index_def small_config_def Let_def enable_delete_def)
  have "build_ready small_index (\<lambda>x. x)"
    unfolding build_ready_def p(1-4) using p(5) growing_exact [of 1] by (simp add: flt_max_def)
  moreover have "cf_dynamic small_config" "\<not> cf_filtered small_config" "length [0, 0, 0 :: real] = internal_points small_index"
    using p(1) by (simp_all add: small_config_def)
  moreover have "new_vamana_index small_config [0, 0, 0] (new_graph_store (internal_points small_index) 2) = Inr small_index"
    using i unfolding p(1) .
  moreover have "enumerates in_order" by (simp add: enumerates_def)
  ultimately show ?thesis unfolding dyn_begins_def by blast
qed

lemma small_facts: "dyn_inv small_index (\<lambda>x. x)" "tag_vectors small_index = Map.empty" "vi_nd small_index < vi_max_points small_index"
  using new_index_inv [OF small_begins]
  by (simp_all add: small_index_def new_vamana_index_def small_config_def Let_def enable_delete_def)




text \<open>C14: Consolidation releases exactly the deleted slots: afterwards no used slot has an edge to one of them, all are
  empty, the delete set is empty, every tag keeps its vector, and the report gives the counts.  When another
  consolidation holds the lock, nothing changes.\<close>

theorem consolidate_releases_deleted:
  assumes "dyn_inv vi rnd" "enumerates enum" "max_degree \<le> degree_bound vi rnd" "alpha < flt_max" "growing rnd alpha"
  shows "\<exists>report vi'. consolidate_deletes vec_dist rnd enum lock_free max_degree maxc alpha vi = Some (Inr report, vi')
    \<and> dyn_inv vi' rnd \<and> tag_vectors vi' = tag_vectors vi
    \<and> (if lock_free
       then report = \<lparr>cr_status = SUCCESS, cr_active_points = card (live_slots vi), cr_max_points = vi_max_points vi,
              cr_empty_slots = vi_max_points vi - card (live_slots vi), cr_slots_released = card (vi_delete_set vi),
              cr_delete_set_size = 0, cr_num_calls = card (live_slots vi) + vi_num_frozen vi\<rparr>
            \<and> vi_delete_set vi' = {} \<and> ns_members (vi_empty_slots vi') = ns_members (vi_empty_slots vi) \<union> vi_delete_set vi
            \<and> (\<forall>i \<in> used_slots vi'. set (adjacency (vi_graph vi') i) \<inter> vi_delete_set vi = {})
       else report = failed_report LOCK_FAIL \<and> vi' = vi)"
  using consolidate_ok [OF assms, of vec_dist lock_free maxc] by blast

lemma insert_point_range:
  assumes "insert_point line_dist (\<lambda>x. x) row_scratch 5 7 [] small_index = Some (Inr r, vi)"
  shows "vi_range vi = vi_range small_index"
proof -
  have o: "slots_ok small_index" "tags_ok small_index" "\<not> vi_filtered small_index" using small_facts(1) by (simp_all add: dyn_inv_def)
  from insert_slot_ok [OF o, of 7 5 "[]"] obtain l v where
    "insert_slot 5 7 [] small_index = (Inr l, v)" "same_but_slots small_index v" by auto
  with assms same_but_slots_fields [of small_index v] show ?thesis
    by (auto simp: insert_point_def Let_def same_shape_def split: option.splits sum.splits)
qed

lemma consolidate_releases_deleted_witness:
  "\<exists>vi deleted report vi'. lazy_delete 7 vi = (0, deleted)
     \<and> consolidate_deletes line_dist (\<lambda>x. x) in_order True 2 8 1 deleted = Some (Inr report, vi')
     \<and> cr_status report = SUCCESS \<and> tag_vectors vi' = Map.empty \<and> vi_delete_set vi' = {}"
proof -
  from insert_point_ok [OF small_facts(1), of 7 row_scratch line_dist 5 "[]"] row_scratch_fresh small_facts(2,3) obtain vi where
    i: "dyn_inv vi (\<lambda>x. x)" "tag_vectors vi = [7 \<mapsto> 5]" "insert_point line_dist (\<lambda>x. x) row_scratch 5 7 [] small_index = Some (Inr 0, vi)"
    by auto
  from lazy_delete_ok [OF i(1), of 7] i(2) obtain deleted where
    d: "lazy_delete 7 vi = (0, deleted)" "dyn_inv deleted (\<lambda>x. x)" "tag_vectors deleted = Map.empty" by auto
  have s: "snd (lazy_delete 7 vi) = deleted" using d(1) by simp
  have p: "1 < flt_max" "growing (\<lambda>x. x) 1" by (simp_all add: flt_max_def growing_exact)
  have e: "enumerates in_order" by (simp add: enumerates_def)
  have "vi_range small_index = 2"
    by (simp add: small_index_def new_vamana_index_def small_config_def Let_def enable_delete_def)
  moreover have "vi_range vi = vi_range small_index" by (rule insert_point_range [OF i(3)])
  moreover have "vi_range deleted = vi_range vi"
    using s by (auto simp: lazy_delete_def Let_def delete_at_def split: option.splits)
  ultimately have "2 \<le> degree_bound deleted (\<lambda>x. x)" by (simp add: degree_bound_def)
  from consolidate_releases_deleted [OF d(2) e this p, of line_dist True 8] d(1,3) show ?thesis by fastforce
qed

subsection \<open>Consolidations that fail\<close>

text \<open>C39: A static index with tags has no frozen point, so its starting point can be deleted.  Then \<open>consolidate_deletes\<close>
  throws after it has taken the delete set out of the object: the deleted slots are forgotten, and every later
  consolidation returns \<open>INCONSISTENT_COUNT_ERROR\<close> and changes nothing.\<close>

theorem deleted_start_loses_delete_set:
  assumes "vi_enable_tags vi" "ns_size (vi_empty_slots vi) + vi_nd vi = vi_max_points vi"
    "nm_size (vi_location_to_tag vi) + card (vi_delete_set vi) = vi_nd vi" "nm_size (vi_location_to_tag vi) = length (vi_tag_to_location vi)"
    "vi_start vi \<in> vi_delete_set vi"
  shows "\<exists>vi'. consolidate_deletes vec_dist rnd enum True max_degree maxc alpha vi = Some (Inl Diskann_exception, vi')
    \<and> vi_delete_set vi' = {} \<and> ns_members (vi_empty_slots vi') = ns_members (vi_empty_slots vi)
    \<and> (\<forall>lock_free max_degree maxc alpha. consolidate_deletes vec_dist rnd enum lock_free max_degree maxc alpha vi'
         = Some (Inr (failed_report INCONSISTENT_COUNT_ERROR), vi'))"
proof -
  have "card (vi_delete_set vi) \<noteq> 0" using assms(5) by (metis card_0_eq empty_iff finite_slots)
  then have "length (vi_tag_to_location vi) \<noteq> vi_nd vi" using assms(3,4) by linarith
  then show ?thesis using assms by (intro exI [of _ "vi\<lparr>vi_delete_set := {}\<rparr>"]) (simp add: consolidate_deletes_def Let_def)
qed

text \<open>A static index of two points with the tags 1 and 2, after the deletion of the tag of its starting point.\<close>

definition static_index :: "real vamana_index_t" where
  "static_index = (projr (new_vamana_index (small_config\<lparr>cf_dynamic := False\<rparr>) [0, 1] (new_graph_store 2 2)))
     \<lparr>vi_nd := 2, vi_start := 0, vi_tag_to_location := [(1, 0), (2, 1)],
      vi_location_to_tag := nm_set 1 2 (nm_set 0 1 nm_empty), vi_has_built := True\<rparr>"

lemma deleted_start_loses_delete_set_witness:
  "\<exists>vi'. consolidate_deletes line_dist (\<lambda>x. x) in_order True 2 8 1 (snd (lazy_delete 1 static_index)) = Some (Inl Diskann_exception, vi')
     \<and> vi_delete_set vi' = {}"
proof -
  let ?v = "snd (lazy_delete 1 static_index)"
  have "vi_enable_tags ?v \<and> ns_size (vi_empty_slots ?v) + vi_nd ?v = vi_max_points ?v
    \<and> nm_size (vi_location_to_tag ?v) + card (vi_delete_set ?v) = vi_nd ?v
    \<and> nm_size (vi_location_to_tag ?v) = length (vi_tag_to_location ?v) \<and> vi_start ?v \<in> vi_delete_set ?v"
    by (simp add: static_index_def small_config_def new_vamana_index_def Let_def lazy_delete_def delete_at_def ns_size_def ns_empty_def
        nm_set_def nm_erase_def nm_empty_def resized_def)
  with deleted_start_loses_delete_set [of ?v line_dist "\<lambda>x. x" in_order 2 8 1] show ?thesis by blast
qed

text \<open>On a full index whose set of empty slots was never filled, the first live slot is looked up in an empty bitset,
  again after the delete set was taken out.\<close>

lemma full_index_reads_empty_bitset:
  assumes "vi_enable_tags vi" "ns_values (vi_empty_slots vi) = []" "ns_bits (vi_empty_slots vi) = []" "vi_nd vi = vi_max_points vi"
    "nm_size (vi_location_to_tag vi) + card (vi_delete_set vi) = vi_nd vi" "nm_size (vi_location_to_tag vi) = length (vi_tag_to_location vi)"
    "vi_start vi \<notin> vi_delete_set vi" "0 \<notin> vi_delete_set vi" "0 < vi_max_points vi"
  shows "consolidate_deletes vec_dist rnd enum True max_degree maxc alpha vi = Some (Inl Undefined_access, vi\<lparr>vi_delete_set := {}\<rparr>)"
proof -
  have "[0..<vi_max_points vi] = 0 # [1..<vi_max_points vi]" using assms(9) by (simp add: upt_conv_Cons)
  then show ?thesis using assms
    by (simp add: consolidate_deletes_def Let_def ns_size_def bindO_def needs_process_def ns_is_in_set_def)
qed

text \<open>\<open>build\<close> on a dynamic index sets \<open>nd_\<close> and leaves the empty slots of the constructor, so the counts never match.\<close>

lemma built_dynamic_index_cannot_consolidate:
  assumes "dyn_begins rnd enum vi" "0 < points"
  shows "consolidate_deletes vec_dist rnd enum lock_free max_degree maxc alpha (vi\<lparr>vi_nd := points\<rparr>)
    = Some (Inl Diskann_exception, vi\<lparr>vi_nd := points\<rparr>)"
proof -
  have "slots_ok vi" "tags_ok vi" using new_index_inv [OF assms(1)] by (simp_all add: dyn_inv_def)
  from slots_count [OF this(1)] this(2) have "vi_enable_tags vi" "ns_size (vi_empty_slots vi) + vi_nd vi = vi_max_points vi"
    by (simp_all add: tags_ok_def)
  moreover have "vi_nd vi = 0" using assms(1) new_dynamic_fields(3) by (auto simp: dyn_begins_def)
  ultimately show ?thesis using assms(2) by (simp add: consolidate_deletes_def)
qed

text \<open>A filtered index that is full indexes \<open>location_to_labels_\<close> with the location -1.\<close>

lemma full_filtered_insert_out_of_range:
  assumes "vi_filtered vi" "vi_nd vi \<ge> vi_max_points vi" "tag \<noteq> 0" "labels \<noteq> []"
  shows "insert_slot point tag labels vi = (Inl Undefined_access, vi)"
  using assms by (simp add: insert_slot_def reserve_location_def insert_labels_def)

end
