(* ===== verification/Skip_Config.thy ===== *)
theory Skip_Config
  imports Complex_Main Bytes
begin

text \<open>
  The configuration of the query operators (\<open>community_polar_search_config_t\<close> of
  include/search/community_polar_search.h), its validation, and the budgets that depend on the length \<open>L\<close> of the
  search list (src/search/community_polar_search.cc).  Floats are finite reals, so the tests \<open>std::isfinite\<close> are
  true; \<open>rnd\<close> is the rounding of a double.  Fields that only switch telemetry on are left out.
\<close>

abbreviation w64 :: "u32 \<Rightarrow> u64" where "w64 \<equiv> ucast"

abbreviation w32 :: "u64 \<Rightarrow> u32" where "w32 \<equiv> ucast"

datatype search_mode_t = BASELINE | HYBRID

record skip_config_t =
  sk_mode :: search_mode_t
  sk_community_skip :: bool
  sk_community_hub_clique :: bool
  sk_community_pq_approach_hops :: u32
  sk_cell_expansion :: bool
  sk_community_expansion_budget :: u32
  sk_gateway_score_budget :: u32
  sk_gateway_score_batch_cap :: u32
  sk_gateway_direct_insert_cap :: u32
  sk_cell_block_budget :: u32
  sk_cell_support :: u32
  sk_cell_insert_cap :: u32
  sk_cell_min_competitive_count :: u32
  sk_cell_min_competitive_fraction :: real
  sk_cell_evidence_threshold_ratio :: real
  sk_cell_candidate_threshold_ratio :: real
  sk_cell_insert_fraction :: real
  sk_graph_guard_fraction :: real
  sk_cell_require_full_frontier :: bool
  sk_cell_whole_cell_scan :: bool
  sk_cell_centroid_routing :: bool
  sk_gateway_landing_cell_handoff :: bool
  sk_cell_routing_community_budget :: u32
  sk_cell_routing_cell_budget :: u32
  sk_cell_terminal_convergence :: bool
  sk_cell_terminal_approach_hops :: u32
  sk_cell_terminal_l_aware_approach :: bool
  sk_cell_terminal_approach_base_hops :: u32
  sk_cell_terminal_approach_l_divisor :: u32
  sk_cell_terminal_low_l_stitch_max_l :: u32
  sk_cell_terminal_low_l_stitch_extra_hops :: u32
  sk_cell_terminal_refine_hops :: u32
  sk_cell_terminal_l_aware_refine :: bool
  sk_cell_terminal_refine_base_hops :: u32
  sk_cell_terminal_refine_l_divisor :: u32
  sk_cell_terminal_distance_scale :: real
  sk_cell_terminal_frontier_cells :: u32
  sk_cell_terminal_stitch_promote_cells :: bool
  sk_cell_terminal_stitch_cell_budget :: u32
  sk_cell_terminal_stitch_min_support :: u32
  sk_cell_terminal_l_aware_forest :: bool
  sk_cell_terminal_forest_base_cells :: u32
  sk_cell_terminal_forest_l_divisor :: u32
  sk_cell_terminal_low_l_forest_max_l :: u32
  sk_cell_terminal_low_l_forest_extra_cells :: u32
  sk_cell_terminal_high_l_forest_min_l :: u32
  sk_cell_terminal_high_l_forest_cell_cap :: u32
  sk_cell_terminal_high_l_forest_cap_l_divisor :: u32
  sk_cell_terminal_global_forest_routing :: bool
  sk_cell_terminal_route_path :: bool
  sk_cell_hierarchical_routing :: bool
  sk_cell_hierarchy_branching :: u32
  sk_cell_hierarchy_leaf_size :: u32
  sk_cell_hierarchy_probe_budget :: u32
  sk_cell_hierarchy_exact_routing :: bool
  sk_cell_hierarchy_preserve_leaf_order :: bool
  sk_cell_hierarchy_require_persisted :: bool
  sk_cell_hierarchy_graph_guided_routing :: bool
  sk_cell_defer_hierarchy_routing :: bool
  sk_cell_value_telemetry :: bool
  sk_source_cell_batching :: bool

text \<open>\<open>sk_cell_terminal_route_path\<close> says that the path is not empty.  The values of the member initialisers:\<close>

definition default_skip_config :: skip_config_t where
  "default_skip_config = \<lparr>sk_mode = BASELINE, sk_community_skip = False, sk_community_hub_clique = False,
     sk_community_pq_approach_hops = 0, sk_cell_expansion = False, sk_community_expansion_budget = 4,
     sk_gateway_score_budget = 32, sk_gateway_score_batch_cap = 4294967295, sk_gateway_direct_insert_cap = 4294967295,
     sk_cell_block_budget = 4, sk_cell_support = 2, sk_cell_insert_cap = 32, sk_cell_min_competitive_count = 1,
     sk_cell_min_competitive_fraction = 0, sk_cell_evidence_threshold_ratio = 8 / 10, sk_cell_candidate_threshold_ratio = 1,
     sk_cell_insert_fraction = 1, sk_graph_guard_fraction = 1 / 2, sk_cell_require_full_frontier = False,
     sk_cell_whole_cell_scan = False, sk_cell_centroid_routing = False, sk_gateway_landing_cell_handoff = False,
     sk_cell_routing_community_budget = 1, sk_cell_routing_cell_budget = 2, sk_cell_terminal_convergence = False,
     sk_cell_terminal_approach_hops = 4, sk_cell_terminal_l_aware_approach = False, sk_cell_terminal_approach_base_hops = 2,
     sk_cell_terminal_approach_l_divisor = 5, sk_cell_terminal_low_l_stitch_max_l = 0,
     sk_cell_terminal_low_l_stitch_extra_hops = 0, sk_cell_terminal_refine_hops = 0, sk_cell_terminal_l_aware_refine = False,
     sk_cell_terminal_refine_base_hops = 0, sk_cell_terminal_refine_l_divisor = 25, sk_cell_terminal_distance_scale = 1,
     sk_cell_terminal_frontier_cells = 0, sk_cell_terminal_stitch_promote_cells = False,
     sk_cell_terminal_stitch_cell_budget = 4, sk_cell_terminal_stitch_min_support = 2,
     sk_cell_terminal_l_aware_forest = False, sk_cell_terminal_forest_base_cells = 1, sk_cell_terminal_forest_l_divisor = 10,
     sk_cell_terminal_low_l_forest_max_l = 0, sk_cell_terminal_low_l_forest_extra_cells = 0,
     sk_cell_terminal_high_l_forest_min_l = 0, sk_cell_terminal_high_l_forest_cell_cap = 0,
     sk_cell_terminal_high_l_forest_cap_l_divisor = 0, sk_cell_terminal_global_forest_routing = False,
     sk_cell_terminal_route_path = False, sk_cell_hierarchical_routing = False, sk_cell_hierarchy_branching = 8,
     sk_cell_hierarchy_leaf_size = 16, sk_cell_hierarchy_probe_budget = 16, sk_cell_hierarchy_exact_routing = True,
     sk_cell_hierarchy_preserve_leaf_order = True, sk_cell_hierarchy_require_persisted = False,
     sk_cell_hierarchy_graph_guided_routing = False, sk_cell_defer_hierarchy_routing = False,
     sk_cell_value_telemetry = False, sk_source_cell_batching = False\<rparr>"

subsection \<open>Validation\<close>

definition valid_fractions :: "skip_config_t \<Rightarrow> bool" where
  "valid_fractions c \<longleftrightarrow>
     \<not> (sk_graph_guard_fraction c < 0 \<or> sk_graph_guard_fraction c > 1)
     \<and> \<not> (sk_cell_min_competitive_fraction c < 0 \<or> sk_cell_min_competitive_fraction c > 1)
     \<and> \<not> (sk_cell_candidate_threshold_ratio c \<le> 0 \<or> sk_cell_candidate_threshold_ratio c > 1)
     \<and> \<not> (sk_cell_evidence_threshold_ratio c \<le> 0 \<or> sk_cell_evidence_threshold_ratio c > 1)
     \<and> \<not> (sk_cell_insert_fraction c \<le> 0 \<or> sk_cell_insert_fraction c > 1)"

definition valid_operators :: "skip_config_t \<Rightarrow> bool" where
  "valid_operators c \<longleftrightarrow>
     (sk_community_skip c \<or> sk_cell_expansion c)
     \<and> \<not> (sk_community_skip c
          \<and> (sk_community_expansion_budget c = 0 \<or> sk_gateway_score_budget c = 0 \<or> sk_gateway_score_batch_cap c = 0))
     \<and> \<not> (sk_community_hub_clique c \<and> \<not> sk_community_skip c)
     \<and> \<not> (sk_community_pq_approach_hops c \<noteq> 0 \<and> \<not> sk_community_skip c)
     \<and> \<not> (sk_cell_expansion c
          \<and> (sk_cell_block_budget c = 0 \<or> sk_cell_support c = 0 \<or> sk_cell_insert_cap c = 0 \<or> sk_cell_min_competitive_count c = 0))
     \<and> \<not> (sk_cell_centroid_routing c
          \<and> (\<not> sk_cell_expansion c \<or> \<not> sk_cell_whole_cell_scan c \<or> sk_cell_routing_community_budget c = 0
             \<or> sk_cell_routing_cell_budget c = 0 \<or> sk_cell_routing_cell_budget c > sk_cell_block_budget c))
     \<and> \<not> (sk_gateway_landing_cell_handoff c
          \<and> (\<not> sk_community_skip c \<or> \<not> sk_cell_expansion c \<or> \<not> sk_cell_whole_cell_scan c
             \<or> sk_cell_routing_cell_budget c = 0 \<or> sk_cell_routing_cell_budget c > sk_cell_block_budget c))
     \<and> \<not> (sk_cell_terminal_convergence c
          \<and> (\<not> sk_cell_expansion c \<or> \<not> sk_cell_whole_cell_scan c \<or> \<not> sk_cell_centroid_routing c))"

definition valid_terminal :: "skip_config_t \<Rightarrow> bool" where
  "valid_terminal c \<longleftrightarrow>
     \<not> (sk_cell_terminal_l_aware_approach c
        \<and> (\<not> sk_cell_terminal_convergence c \<or> sk_cell_terminal_approach_hops c = 0 \<or> sk_cell_terminal_approach_l_divisor c = 0
           \<or> sk_cell_terminal_approach_base_hops c > sk_cell_terminal_approach_hops c))
     \<and> \<not> ((sk_cell_terminal_low_l_stitch_max_l c = 0) \<noteq> (sk_cell_terminal_low_l_stitch_extra_hops c = 0))
     \<and> \<not> (sk_cell_terminal_l_aware_forest c
          \<and> (\<not> sk_cell_terminal_convergence c \<or> sk_cell_terminal_forest_base_cells c = 0 \<or> sk_cell_terminal_forest_l_divisor c = 0
             \<or> sk_cell_terminal_forest_base_cells c > sk_cell_routing_cell_budget c))
     \<and> \<not> ((sk_cell_terminal_low_l_forest_max_l c = 0) \<noteq> (sk_cell_terminal_low_l_forest_extra_cells c = 0)
          \<or> (sk_cell_terminal_low_l_forest_extra_cells c \<noteq> 0 \<and> \<not> sk_cell_terminal_l_aware_forest c))
     \<and> \<not> ((sk_cell_terminal_high_l_forest_min_l c = 0) \<noteq> (sk_cell_terminal_high_l_forest_cell_cap c = 0)
          \<or> (sk_cell_terminal_high_l_forest_cell_cap c \<noteq> 0
             \<and> (\<not> sk_cell_terminal_l_aware_forest c
                \<or> sk_cell_terminal_high_l_forest_cell_cap c > sk_cell_routing_cell_budget c))
          \<or> (sk_cell_terminal_high_l_forest_cap_l_divisor c \<noteq> 0 \<and> sk_cell_terminal_high_l_forest_min_l c = 0))
     \<and> \<not> (sk_cell_terminal_l_aware_refine c
          \<and> (\<not> sk_cell_terminal_convergence c \<or> sk_cell_terminal_refine_l_divisor c = 0
             \<or> sk_cell_terminal_refine_base_hops c > sk_cell_terminal_refine_hops c))
     \<and> \<not> (sk_cell_terminal_stitch_promote_cells c
          \<and> (\<not> sk_cell_terminal_convergence c \<or> sk_cell_terminal_stitch_cell_budget c = 0
             \<or> sk_cell_terminal_stitch_min_support c = 0))
     \<and> \<not> (sk_cell_terminal_distance_scale c \<le> 0)
     \<and> \<not> (sk_cell_terminal_route_path c \<and> \<not> sk_cell_terminal_convergence c)
     \<and> \<not> (sk_cell_terminal_global_forest_routing c
          \<and> (\<not> sk_cell_terminal_convergence c \<or> \<not> sk_cell_hierarchical_routing c \<or> \<not> sk_cell_defer_hierarchy_routing c))"

definition valid_hierarchy :: "skip_config_t \<Rightarrow> bool" where
  "valid_hierarchy c \<longleftrightarrow>
     \<not> (sk_cell_hierarchical_routing c
        \<and> (\<not> sk_cell_centroid_routing c \<or> sk_cell_hierarchy_branching c < 2 \<or> sk_cell_hierarchy_leaf_size c = 0
           \<or> sk_cell_hierarchy_probe_budget c = 0))
     \<and> (sk_cell_hierarchical_routing c \<longrightarrow>
          (let minimum_probe_budget = (w64 (sk_cell_routing_cell_budget c) + w64 (sk_cell_hierarchy_leaf_size c) - 1)
                 div w64 (sk_cell_hierarchy_leaf_size c)
           in \<not> w64 (sk_cell_hierarchy_probe_budget c) < minimum_probe_budget))
     \<and> \<not> (sk_cell_hierarchy_require_persisted c \<and> \<not> sk_cell_hierarchical_routing c)
     \<and> \<not> (sk_cell_hierarchy_graph_guided_routing c \<and> \<not> sk_cell_hierarchical_routing c)"

definition validate_skip_config :: "skip_config_t \<Rightarrow> exn + unit" where
  "validate_skip_config c =
     (if \<not> valid_fractions c then Inl Invalid_argument
      else if sk_mode c \<noteq> HYBRID
      then if sk_community_skip c \<or> sk_community_hub_clique c \<or> sk_cell_expansion c then Inl Invalid_argument else Inr ()
      else if \<not> valid_operators c \<or> \<not> valid_terminal c \<or> \<not> valid_hierarchy c then Inl Invalid_argument else Inr ())"

subsection \<open>Budgets\<close>

definition graph_guard_allows_macro :: "(real \<Rightarrow> real) \<Rightarrow> u64 \<Rightarrow> real \<Rightarrow> u64 \<Rightarrow> bool" where
  "graph_guard_allows_macro rnd search_list_size graph_guard_fraction unexpanded_macro_candidates =
     (if search_list_size = 0 then False
      else
        let base_guard = of_int \<lceil>rnd (graph_guard_fraction * real (unat search_list_size))\<rceil> :: u64;
            macro_capacity = search_list_size - min search_list_size base_guard
        in unexpanded_macro_candidates < macro_capacity)"

definition terminal_approach_hops :: "skip_config_t \<Rightarrow> u64 \<Rightarrow> u32" where
  "terminal_approach_hops c search_list_size =
     (if \<not> sk_cell_terminal_l_aware_approach c then sk_cell_terminal_approach_hops c
      else
        let scaled_hops = (if search_list_size = 0 then 0
              else 1 + (search_list_size - 1) div w64 (sk_cell_terminal_approach_l_divisor c));
            remaining_hops = sk_cell_terminal_approach_hops c - sk_cell_terminal_approach_base_hops c;
            base_hops = (if scaled_hops \<ge> w64 remaining_hops then sk_cell_terminal_approach_hops c
              else sk_cell_terminal_approach_base_hops c + w32 scaled_hops);
            extra_hops = (if sk_cell_terminal_low_l_stitch_max_l c \<noteq> 0
                \<and> search_list_size \<le> w64 (sk_cell_terminal_low_l_stitch_max_l c)
              then sk_cell_terminal_low_l_stitch_extra_hops c else 0)
        in min (sk_cell_terminal_approach_hops c) (base_hops + extra_hops))"

definition terminal_cell_budget :: "skip_config_t \<Rightarrow> u64 \<Rightarrow> u32" where
  "terminal_cell_budget c search_list_size =
     (if \<not> sk_cell_terminal_l_aware_forest c then sk_cell_routing_cell_budget c
      else
        let scaled_cells = (if search_list_size = 0 then 0
              else 1 + (search_list_size - 1) div w64 (sk_cell_terminal_forest_l_divisor c));
            budget = max (w64 (sk_cell_terminal_forest_base_cells c)) scaled_cells;
            budget = (if sk_cell_terminal_low_l_forest_max_l c \<noteq> 0
                \<and> search_list_size \<le> w64 (sk_cell_terminal_low_l_forest_max_l c)
              then budget + w64 (sk_cell_terminal_low_l_forest_extra_cells c) else budget);
            budget = (if sk_cell_terminal_high_l_forest_min_l c \<noteq> 0
                \<and> search_list_size \<ge> w64 (sk_cell_terminal_high_l_forest_min_l c)
              then
                (let high_l_cap = w64 (sk_cell_terminal_high_l_forest_cell_cap c);
                     high_l_cap = (if sk_cell_terminal_high_l_forest_cap_l_divisor c \<noteq> 0
                       then (let reduction = (search_list_size - w64 (sk_cell_terminal_high_l_forest_min_l c))
                                   div w64 (sk_cell_terminal_high_l_forest_cap_l_divisor c)
                             in if reduction \<ge> high_l_cap then 1 else high_l_cap - reduction)
                       else high_l_cap)
                 in min budget high_l_cap)
              else budget)
        in w32 (min (w64 (sk_cell_routing_cell_budget c)) budget))"

definition terminal_refine_hops :: "skip_config_t \<Rightarrow> u64 \<Rightarrow> u32" where
  "terminal_refine_hops c search_list_size =
     (if \<not> sk_cell_terminal_l_aware_refine c then sk_cell_terminal_refine_hops c
      else
        let scaled_hops = search_list_size div w64 (sk_cell_terminal_refine_l_divisor c);
            extra_hops = (if sk_cell_terminal_low_l_stitch_max_l c \<noteq> 0
                \<and> search_list_size \<le> w64 (sk_cell_terminal_low_l_stitch_max_l c)
              then w64 (sk_cell_terminal_low_l_stitch_extra_hops c) else 0)
        in w32 (min (w64 (sk_cell_terminal_refine_hops c))
             (w64 (sk_cell_terminal_refine_base_hops c) + scaled_hops + extra_hops)))"

subsection \<open>Bounds\<close>

lemma unat_w64 [simp]: "unat (w64 x) = unat x"
  by (simp add: unsigned_ucast_eq take_bit_nat_eq_self_iff) (rule less_trans [OF unsigned_less], simp)

lemma unat_w32: "unat x < 4294967296 \<Longrightarrow> unat (w32 x) = unat x"
  by (simp add: unsigned_ucast_eq take_bit_nat_eq_self_iff)

lemma u32_less [simp]: "unat (x :: u32) < 4294967296"
  using unsigned_less [of x] by simp

lemma unat_plus_small: "unat a + unat b < 18446744073709551616 \<Longrightarrow> unat (a + b :: u64) = unat a + unat b"
  by (simp add: unat_word_ariths take_bit_nat_eq_self)

lemma capped_w32: "w32 (min (w64 cap) b) \<le> cap \<and> unat (w32 (min (w64 cap) b)) = min (unat cap) (unat b)"
proof -
  have m: "unat (min (w64 cap) b) = min (unat cap) (unat b)" by (simp add: min_def word_le_nat_alt)
  then have "unat (min (w64 cap) b) < 4294967296" using u32_less [of cap] by linarith
  from unat_w32 [OF this] m show ?thesis by (simp add: word_le_nat_alt)
qed

lemma capped_pos: "0 < unat b \<Longrightarrow> cap \<noteq> 0 \<Longrightarrow> 1 \<le> w32 (min (w64 cap) b) \<and> w32 (min (w64 cap) b) \<le> cap"
  using capped_w32 [of cap b] by (simp add: word_le_nat_alt Suc_le_eq unat_gt_0)

lemma scaled_bound:
  fixes l d :: u64
  assumes "d \<noteq> 0" "l \<noteq> 0"
  shows "unat (1 + (l - 1) div d) \<le> unat l" "0 < unat (1 + (l - 1) div d)"
proof -
  have l: "unat (l - 1) = unat l - 1" "0 < unat l" using assms(2) by (simp_all add: unat_minus_one unat_gt_0)
  have "unat ((l - 1) div d) \<le> unat l - 1" by (simp add: unat_div l(1))
  moreover have "unat l < 18446744073709551616" using unsigned_less [of l] by simp
  ultimately have "unat (1 + (l - 1) div d) = 1 + unat ((l - 1) div d)"
    using l(2) by (simp add: unat_word_ariths take_bit_nat_eq_self)
  with l(2) \<open>unat ((l - 1) div d) \<le> unat l - 1\<close> show "unat (1 + (l - 1) div d) \<le> unat l" "0 < unat (1 + (l - 1) div d)" by simp_all
qed

lemma terminal_cell_budget_bounds:
  assumes ok: "valid_terminal c" and pos: "sk_cell_routing_cell_budget c \<noteq> 0"
  shows "1 \<le> terminal_cell_budget c l \<and> terminal_cell_budget c l \<le> sk_cell_routing_cell_budget c"
proof (cases "sk_cell_terminal_l_aware_forest c")
  case False
  then show ?thesis using pos by (simp add: terminal_cell_budget_def word_le_nat_alt unat_gt_0 Suc_le_eq)
next
  case True
  let ?scaled = "if l = 0 then 0 else 1 + (l - 1) div w64 (sk_cell_terminal_forest_l_divisor c)"
  let ?b0 = "max (w64 (sk_cell_terminal_forest_base_cells c)) ?scaled"
  let ?low = "sk_cell_terminal_low_l_forest_max_l c \<noteq> 0 \<and> l \<le> w64 (sk_cell_terminal_low_l_forest_max_l c)"
  let ?b1 = "if ?low then ?b0 + w64 (sk_cell_terminal_low_l_forest_extra_cells c) else ?b0"
  let ?high = "sk_cell_terminal_high_l_forest_min_l c \<noteq> 0 \<and> l \<ge> w64 (sk_cell_terminal_high_l_forest_min_l c)"
  let ?c0 = "w64 (sk_cell_terminal_high_l_forest_cell_cap c)"
  let ?red = "(l - w64 (sk_cell_terminal_high_l_forest_min_l c)) div w64 (sk_cell_terminal_high_l_forest_cap_l_divisor c)"
  let ?c1 = "if sk_cell_terminal_high_l_forest_cap_l_divisor c \<noteq> 0 then (if ?red \<ge> ?c0 then 1 else ?c0 - ?red) else ?c0"
  let ?b2 = "if ?high then min ?b1 ?c1 else ?b1"
  from ok True have v: "sk_cell_terminal_forest_base_cells c \<noteq> 0" "sk_cell_terminal_forest_l_divisor c \<noteq> 0"
    "sk_cell_terminal_high_l_forest_min_l c \<noteq> 0 \<longrightarrow> sk_cell_terminal_high_l_forest_cell_cap c \<noteq> 0"
    by (auto simp: valid_terminal_def)
  have d: "w64 (sk_cell_terminal_forest_l_divisor c) \<noteq> 0" using v(2) by (metis unat_eq_zero unat_w64)
  have b0: "0 < unat ?b0" using v(1) unat_w64 [of "sk_cell_terminal_forest_base_cells c"]
    by (simp add: max_def word_le_nat_alt unat_gt_0) (metis le_zero_eq not_gr_zero unat_eq_zero unat_w64)
  have "0 < unat ?b1"
  proof (cases ?low)
    case True
    then have "unat l \<le> unat (sk_cell_terminal_low_l_forest_max_l c)" by (simp add: word_le_nat_alt)
    then have l: "unat l < 4294967296" using u32_less [of "sk_cell_terminal_low_l_forest_max_l c"] by linarith
    have "unat ?scaled \<le> unat l" using scaled_bound(1) [OF d, of l] by simp
    then have "unat ?b0 < 4294967296" using l u32_less [of "sk_cell_terminal_forest_base_cells c"] by (auto simp: max_def)
    moreover have "unat (w64 (sk_cell_terminal_low_l_forest_extra_cells c)) < 4294967296" by simp
    ultimately have "unat ?b0 + unat (w64 (sk_cell_terminal_low_l_forest_extra_cells c)) < 18446744073709551616" by linarith
    from unat_plus_small [OF this] b0 show ?thesis unfolding if_P [OF True] by linarith
  next
    case False
    show ?thesis unfolding if_not_P [OF False] by (rule b0)
  qed
  moreover have "0 < unat ?c1" if ?high
  proof -
    have "0 < unat ?c0" using v(3) that by (simp add: unat_gt_0)
    moreover have "0 < unat (?c0 - ?red)" if "\<not> ?red \<ge> ?c0"
      using that by (simp add: not_le unat_gt_0)
    ultimately show ?thesis by simp
  qed
  ultimately have b2: "0 < unat ?b2" by (cases ?high) (simp_all only: if_True if_False min_def simp_thms split: if_splits)
  have t: "terminal_cell_budget c l = w32 (min (w64 (sk_cell_routing_cell_budget c)) ?b2)"
    by (simp only: terminal_cell_budget_def Let_def True not_True_eq_False if_False)
  show ?thesis unfolding t by (rule capped_pos [OF b2 pos])
qed

lemma terminal_refine_bounds:
  assumes ok: "valid_terminal c" and l: "unat l < 9223372036854775808"
  shows "terminal_refine_hops c l \<le> sk_cell_terminal_refine_hops c
    \<and> (sk_cell_terminal_l_aware_refine c \<longrightarrow> sk_cell_terminal_refine_base_hops c \<le> terminal_refine_hops c l)"
proof (cases "sk_cell_terminal_l_aware_refine c")
  case True
  let ?scaled = "l div w64 (sk_cell_terminal_refine_l_divisor c)"
  let ?extra = "if sk_cell_terminal_low_l_stitch_max_l c \<noteq> 0 \<and> l \<le> w64 (sk_cell_terminal_low_l_stitch_max_l c)
    then w64 (sk_cell_terminal_low_l_stitch_extra_hops c) else 0"
  let ?s = "w64 (sk_cell_terminal_refine_base_hops c) + ?scaled + ?extra"
  have "unat ?scaled \<le> unat l" by (simp add: unat_div)
  moreover have "unat ?extra < 4294967296" by simp
  moreover have "unat (w64 (sk_cell_terminal_refine_base_hops c)) < 4294967296" by simp
  ultimately have "unat (w64 (sk_cell_terminal_refine_base_hops c)) + unat ?scaled + unat ?extra < 18446744073709551616"
    using l by linarith
  then have "unat ?s = unat (sk_cell_terminal_refine_base_hops c) + unat ?scaled + unat ?extra"
    using unat_plus_small [of "w64 (sk_cell_terminal_refine_base_hops c)" ?scaled]
      unat_plus_small [of "w64 (sk_cell_terminal_refine_base_hops c) + ?scaled" ?extra] by (simp only: unat_w64)
  moreover have "unat (sk_cell_terminal_refine_base_hops c) \<le> unat (sk_cell_terminal_refine_hops c)"
    using ok True by (auto simp: valid_terminal_def word_le_nat_alt not_less)
  moreover have "terminal_refine_hops c l = w32 (min (w64 (sk_cell_terminal_refine_hops c)) ?s)"
    using True by (simp add: terminal_refine_hops_def Let_def)
  ultimately show ?thesis using capped_w32 [of "sk_cell_terminal_refine_hops c" ?s] by (simp add: word_le_nat_alt)
qed (simp add: terminal_refine_hops_def)

lemma guard_exact:
  assumes "0 \<le> f" "f \<le> 1"
  shows "graph_guard_allows_macro (\<lambda>x. x) l f n \<longleftrightarrow> int (unat n) < int (unat l) - \<lceil>f * real (unat l)\<rceil>"
proof (cases "l = 0")
  case False
  let ?g = "\<lceil>f * real (unat l)\<rceil>"
  have "0 \<le> f * real (unat l)" using assms(1) by (rule mult_nonneg_nonneg) (rule of_nat_0_le_iff)
  then have "-1 < f * real (unat l)" by linarith
  then have g0: "0 \<le> ?g" by (simp only: zero_le_ceiling)
  have "f * real (unat l) \<le> 1 * real (unat l)" using assms(2) by (rule mult_right_mono) (rule of_nat_0_le_iff)
  then have g1: "?g \<le> int (unat l)" by (simp only: ceiling_le_iff mult_1 of_int_of_nat_eq)
  have "unat l < 18446744073709551616" using unsigned_less [of l] by simp
  then have "?g < 18446744073709551616" using g1 by linarith
  with g0 have "?g mod 18446744073709551616 = ?g" by (intro mod_pos_pos_trivial)
  then have "uint (of_int ?g :: u64) = ?g" by (simp add: uint_word_of_int)
  then have ug: "int (unat (of_int ?g :: u64)) = ?g" by (simp only: uint_nat)
  then have le: "(of_int ?g :: u64) \<le> l" using g1 unfolding word_le_nat_alt by linarith
  have "unat (l - of_int ?g) = unat l - unat (of_int ?g :: u64)" using le by (rule unat_sub)
  with ug g1 have d: "int (unat (l - of_int ?g)) = int (unat l) - ?g" by linarith
  have "graph_guard_allows_macro (\<lambda>x. x) l f n \<longleftrightarrow> unat n < unat (l - of_int ?g)"
    unfolding graph_guard_allows_macro_def Let_def if_not_P [OF False] min_absorb2 [OF le] word_less_nat_alt ..
  then show ?thesis unfolding d [symmetric] of_nat_less_iff .
qed (simp add: graph_guard_allows_macro_def)

text \<open>C35: For a hybrid configuration that passes the validation and ends in terminal convergence, the number of terminal
  Cells is between 1 and the routed-Cell cap for every list length \<open>L\<close>, the Cells fit the Block budget, the hop budgets
  stay within their caps, and the graph guard lets in exactly \<open>L - \<lceil>f L\<rceil>\<close> macro candidates.\<close>

theorem terminal_budgets_bounded:
  assumes "validate_skip_config c = Inr ()" "sk_mode c = HYBRID" "sk_cell_terminal_convergence c" "unat l < 9223372036854775808"
  shows "1 \<le> terminal_cell_budget c l \<and> terminal_cell_budget c l \<le> sk_cell_routing_cell_budget c
    \<and> sk_cell_routing_cell_budget c \<le> sk_cell_block_budget c
    \<and> terminal_approach_hops c l \<le> sk_cell_terminal_approach_hops c
    \<and> terminal_refine_hops c l \<le> sk_cell_terminal_refine_hops c
    \<and> (sk_cell_terminal_l_aware_refine c \<longrightarrow> sk_cell_terminal_refine_base_hops c \<le> terminal_refine_hops c l)
    \<and> (graph_guard_allows_macro (\<lambda>x. x) l (sk_graph_guard_fraction c) n \<longleftrightarrow>
         int (unat n) < int (unat l) - \<lceil>sk_graph_guard_fraction c * real (unat l)\<rceil>)"
proof -
  from assms(1,2) have v: "valid_fractions c" "valid_operators c" "valid_terminal c"
    by (simp_all add: validate_skip_config_def split: if_splits)
  from v(1) have f: "0 \<le> sk_graph_guard_fraction c" "sk_graph_guard_fraction c \<le> 1" by (simp_all add: valid_fractions_def)
  from v(2) assms(3) have o: "sk_cell_routing_cell_budget c \<noteq> 0" "sk_cell_routing_cell_budget c \<le> sk_cell_block_budget c"
    by (auto simp: valid_operators_def)
  have "terminal_approach_hops c l \<le> sk_cell_terminal_approach_hops c" by (simp add: terminal_approach_hops_def Let_def)
  with terminal_cell_budget_bounds [OF v(3) o(1), of l] terminal_refine_bounds [OF v(3) assms(4)] guard_exact [OF f] o(2)
  show ?thesis by blast
qed

definition terminal_config :: skip_config_t where
  "terminal_config = default_skip_config\<lparr>sk_mode := HYBRID, sk_cell_expansion := True, sk_cell_whole_cell_scan := True,
     sk_cell_centroid_routing := True, sk_cell_terminal_convergence := True, sk_cell_block_budget := 8,
     sk_cell_routing_cell_budget := 6, sk_cell_terminal_l_aware_forest := True, sk_cell_terminal_l_aware_approach := True\<rparr>"

lemma terminal_budgets_bounded_witness:
  "validate_skip_config terminal_config = Inr () \<and> 1 \<le> terminal_cell_budget terminal_config 100
     \<and> terminal_cell_budget terminal_config 100 = 6"
proof -
  have v: "validate_skip_config terminal_config = Inr ()"
    by (simp add: validate_skip_config_def valid_fractions_def valid_operators_def valid_terminal_def valid_hierarchy_def
        terminal_config_def default_skip_config_def)
  moreover have "sk_mode terminal_config = HYBRID" "sk_cell_terminal_convergence terminal_config" by (simp_all add: terminal_config_def)
  ultimately have "1 \<le> terminal_cell_budget terminal_config 100" using terminal_budgets_bounded [of terminal_config 100] by simp
  moreover have "terminal_cell_budget terminal_config 100 = 6"
    by (simp add: terminal_cell_budget_def terminal_config_def default_skip_config_def Let_def)
  ultimately show ?thesis using v by blast
qed

text \<open>The sum of the approach hops is a \<open>uint32_t\<close>: a large \<open>cell_terminal_low_l_stitch_extra_hops\<close>, which the validation
  accepts, wraps it below the base, here to no hop at all.\<close>

lemma low_l_stitch_hops_wrap:
  "let c = terminal_config\<lparr>sk_cell_terminal_approach_hops := 10, sk_cell_terminal_low_l_stitch_max_l := 20,
       sk_cell_terminal_low_l_stitch_extra_hops := 4294967292\<rparr>
   in validate_skip_config c = Inr () \<and> terminal_approach_hops c 10 = 0"
  by (simp add: validate_skip_config_def valid_fractions_def valid_operators_def valid_terminal_def valid_hierarchy_def
      terminal_config_def default_skip_config_def terminal_approach_hops_def Let_def)

end
