(* ===== verification/Skip_State.thy ===== *)
theory Skip_State
  imports Skip_Config Community_Index "HOL-Library.Product_Lexorder"
begin

text \<open>
  The data of the Community-Polar search (include/search/community_polar_search.h): the tables of the sidecar it reads,
  the tables its constructor derives from the packets, and the mutable state of one query with its scratch arrays.
  The loader validates the sidecar; \<open>search_tables_ok\<close> of Skip_Correct says what the operations rely on, and an index
  outside of a table is undefined in C++.
\<close>

subsection \<open>Floats with infinities\<close>

datatype float_t = Neg_infinity | Finite real | Infinity

instantiation float_t :: linorder
begin

fun less_eq_float_t :: "float_t \<Rightarrow> float_t \<Rightarrow> bool" where
  "less_eq_float_t Neg_infinity b = True"
| "less_eq_float_t (Finite x) (Finite y) = (x \<le> y)"
| "less_eq_float_t (Finite x) b = (b = Infinity)"
| "less_eq_float_t Infinity b = (b = Infinity)"

definition less_float_t :: "float_t \<Rightarrow> float_t \<Rightarrow> bool" where
  "less_float_t a b \<longleftrightarrow> a \<le> b \<and> \<not> b \<le> a"

instance
proof
  fix x y z :: float_t
  show "x < y \<longleftrightarrow> x \<le> y \<and> \<not> y \<le> x" by (rule less_float_t_def)
  show "x \<le> x" by (cases x) simp_all
  show "x \<le> y \<Longrightarrow> y \<le> z \<Longrightarrow> x \<le> z" by (cases x; cases y; cases z) simp_all
  show "x \<le> y \<Longrightarrow> y \<le> x \<Longrightarrow> x = y" by (cases x; cases y) simp_all
  show "x \<le> y \<or> y \<le> x" by (cases x; cases y) auto
qed

end

definition is_finite :: "float_t \<Rightarrow> bool" where
  "is_finite x \<longleftrightarrow> (case x of Finite _ \<Rightarrow> True | _ \<Rightarrow> False)"

definition k_none :: u32 where "k_none = 4294967295"

subsection \<open>The sidecar\<close>

record skip_community_t =
  cm_navigation_hub_id :: u32
  cm_radius :: real
  cm_graph_only :: bool
  cm_cell_begin :: u64
  cm_cell_count :: u32

record community_polar_edge_t =
  eg_source_community :: u32
  eg_target_community :: u32
  eg_gateway_begin :: u64
  eg_gateway_count :: u32

record skip_cell_t = community_polar_cell_t +
  cl_community_id :: u32

record skip_block_t = community_polar_block_t +
  bk_cell_id :: u32

record hierarchy_node_t =
  hn_child_begin :: u32
  hn_child_count :: u32
  hn_radius :: real
  hn_children_are_cells :: bool

record skip_search_t =
  se_config :: skip_config_t
  se_dimension :: nat
  se_point_count :: u64
  se_entry_point_id :: u32
  se_pq_code_width :: u32
  se_node_to_community :: "u32 list"
  se_node_to_cell :: "u32 list"
  se_node_to_packet_record :: "u64 list"
  se_communities :: "skip_community_t list"
  se_community_edge_offsets :: "u64 list"
  se_community_edges :: "community_polar_edge_t list"
  se_gateways :: "community_polar_gateway_t list"
  se_cells :: "skip_cell_t list"
  se_blocks :: "skip_block_t list"
  se_packet_payload :: "u8 list"
  se_node_to_block :: "u32 list"
  se_packet_node_ids :: "u32 list"
  se_route_bucket_count :: u32
  se_route_cells_per_bucket :: u32
  se_route_cells :: "u32 list"
  se_hierarchy_nodes :: "hierarchy_node_t list"
  se_hierarchy_children :: "u32 list"
  se_hierarchy_roots :: "u32 list"
  se_root_communities :: "u32 list"
  se_hierarchy_parents :: "u32 list"
  se_leaf_parents :: "u32 list"

text \<open>
  What the operations compute from the vector of a query: the squared distances to the pole of a Community, to the
  centroid of a Cell, of a hierarchy node and of a bucket of the terminal route, the lower bound of a Block for the
  distance of the query to the pole of its Community, and the rounding of a float.
\<close>

record query_metric_t =
  qm_dimension :: nat
  qm_pole :: "u32 \<Rightarrow> real"
  qm_cell :: "u32 \<Rightarrow> real"
  qm_node :: "u32 \<Rightarrow> real"
  qm_bucket :: "u32 \<Rightarrow> real"
  qm_block_bound :: "real \<Rightarrow> u32 \<Rightarrow> real"
  qm_root :: "real \<Rightarrow> real"
  qm_round :: "real \<Rightarrow> real"

text \<open>The loop over a range of 64-bit identifiers, and the elements of a table it visits.\<close>

definition id_range :: "u64 \<Rightarrow> u32 \<Rightarrow> u32 list" where
  "id_range first n = map of_nat [unat first..<unat (first + w64 n)]"

abbreviation cell_at :: "skip_search_t \<Rightarrow> u32 \<Rightarrow> skip_cell_t" where
  "cell_at se c \<equiv> se_cells se ! unat c"

abbreviation block_at :: "skip_search_t \<Rightarrow> u32 \<Rightarrow> skip_block_t" where
  "block_at se b \<equiv> se_blocks se ! unat b"

abbreviation community_at :: "skip_search_t \<Rightarrow> u32 \<Rightarrow> skip_community_t" where
  "community_at se c \<equiv> se_communities se ! unat c"

definition cell_blocks :: "skip_search_t \<Rightarrow> u32 \<Rightarrow> u32 list" where
  "cell_blocks se c = id_range (cl_block_begin (cell_at se c)) (cl_block_count (cell_at se c))"

subsection \<open>The constructor's tables\<close>

text \<open>A packet record is a little-endian node identifier and the PQ code of the node.\<close>

definition packet_bytes :: "skip_search_t \<Rightarrow> u64" where
  "packet_bytes se = 4 + w64 (se_pq_code_width se)"

definition packet_node :: "skip_search_t \<Rightarrow> u64 \<Rightarrow> u32" where
  "packet_node se packet = le_value (take 4 (drop (unat (packet * packet_bytes se)) (se_packet_payload se)))"

definition own_packet :: "skip_search_t \<Rightarrow> u32 \<Rightarrow> nat \<Rightarrow> u32 list \<times> u32 list \<Rightarrow> exn + (u32 list \<times> u32 list)" where
  "own_packet se block_id i t =
     (let packet = bk_packet_record_begin (block_at se block_id) + of_nat i;
          node_id = packet_node se packet
      in if unat node_id \<ge> length (fst t) \<or> fst t ! unat node_id \<noteq> k_none then Inl Invalid_argument
         else Inr ((fst t)[unat node_id := block_id], (snd t)[unat packet := node_id]))"

definition own_block :: "skip_search_t \<Rightarrow> u32 \<Rightarrow> u32 list \<times> u32 list \<Rightarrow> exn + (u32 list \<times> u32 list)" where
  "own_block se block_id = foldE (own_packet se block_id) [0..<unat (bk_node_count (block_at se block_id))]"

definition own_packets :: "skip_search_t \<Rightarrow> exn + skip_search_t" where
  "own_packets se =
     bindE (foldE (own_block se) (map of_nat [0..<length (se_blocks se)])
       (replicate (unat (se_point_count se)) k_none, replicate (unat (se_point_count se)) k_none)) (\<lambda>t.
       if k_none \<in> set (fst t) then Inl Invalid_argument
       else Inr (se\<lparr>se_node_to_block := fst t, se_packet_node_ids := snd t\<rparr>))"

subsection \<open>The state of a query\<close>

datatype candidate_origin_t = BASE_EDGE | COMMUNITY_GATEWAY | POLAR_CELL

record query_state_t =
  qs_lower_bounds :: "real list"
  qs_routing_scores :: "real list"
  qs_query_radii :: "real list"
  qs_reachable :: "bool list"
  qs_expanded :: "bool list"
  qs_community_support :: "u32 list"
  qs_community_candidate :: "bool list"
  qs_created :: "bool list"
  qs_cell_support :: "u32 list"
  qs_block_support :: "u32 list"
  qs_cell_distance :: "float_t list"
  qs_block_distance :: "float_t list"
  qs_loaded :: "bool list"
  qs_ranks :: "u32 list"
  qs_cell_flags :: "bool list"
  qs_block_flags :: "bool list"
  qs_touched_cells :: "u32 list"
  qs_touched_blocks :: "u32 list"
  qs_routed :: "u32 list"
  qs_hierarchy_communities :: "u32 list"
  qs_hint_path :: "u32 list"
  qs_base_sources :: "u32 set"
  qs_evidence_sources :: "u32 set"
  qs_origins :: "u32 \<rightharpoonup> candidate_origin_t"
  qs_ordinals :: "u32 \<rightharpoonup> u32"
  qs_telemetry :: bool
  qs_supported :: "u32 list"
  qs_guided :: "(float_t \<times> u32) list"
  qs_runtime :: bool
  qs_last_base_cell :: u32
  qs_best_base_cell :: u32
  qs_best_base_distance :: float_t
  qs_expansions :: u32
  qs_gateway_scores :: u32
  qs_cell_blocks :: u32
  qs_next_routed :: u32
  qs_terminal_budget :: u32
  qs_nodes_scored :: u32
  qs_groups_probed :: u32

text \<open>A default-constructed state.\<close>

definition new_query_state :: query_state_t where
  "new_query_state = \<lparr>qs_lower_bounds = [], qs_routing_scores = [], qs_query_radii = [], qs_reachable = [], qs_expanded = [], qs_community_support = [],
     qs_community_candidate = [], qs_created = [], qs_cell_support = [], qs_block_support = [], qs_cell_distance = [],
     qs_block_distance = [], qs_loaded = [], qs_ranks = [], qs_cell_flags = [], qs_block_flags = [], qs_touched_cells = [],
     qs_touched_blocks = [], qs_routed = [], qs_hierarchy_communities = [], qs_hint_path = [], qs_base_sources = {},
     qs_evidence_sources = {}, qs_origins = Map.empty, qs_ordinals = Map.empty, qs_telemetry = False, qs_supported = [],
     qs_guided = [], qs_runtime = False, qs_last_base_cell = k_none, qs_best_base_cell = k_none,
     qs_best_base_distance = Infinity, qs_expansions = 0, qs_gateway_scores = 0, qs_cell_blocks = 0, qs_next_routed = 0,
     qs_terminal_budget = 0, qs_nodes_scored = 0, qs_groups_probed = 0\<rparr>"

definition origin :: "query_state_t \<Rightarrow> u32 \<Rightarrow> candidate_origin_t" where
  "origin st node_id = (case qs_origins st node_id of None \<Rightarrow> BASE_EDGE | Some c \<Rightarrow> c)"

definition cell_block_ordinal :: "query_state_t \<Rightarrow> u32 \<Rightarrow> u32" where
  "cell_block_ordinal st node_id = (case qs_ordinals st node_id of None \<Rightarrow> k_none | Some b \<Rightarrow> b)"

definition k_cell_value_max_blocks :: u32 where "k_cell_value_max_blocks = 4"

definition mark_macro_inserted :: "u32 \<Rightarrow> candidate_origin_t \<Rightarrow> u32 \<Rightarrow> query_state_t \<Rightarrow> query_state_t" where
  "mark_macro_inserted node_id candidate_origin block_ordinal st =
     st\<lparr>qs_origins := (qs_origins st)(node_id \<mapsto> candidate_origin),
        qs_ordinals := (if qs_telemetry st \<and> candidate_origin = POLAR_CELL \<and> block_ordinal < k_cell_value_max_blocks
          then (qs_ordinals st)(node_id \<mapsto> block_ordinal)
          else if qs_telemetry st then (qs_ordinals st)(node_id := None) else qs_ordinals st)\<rparr>"

definition mark_base_reached :: "u32 \<Rightarrow> query_state_t \<Rightarrow> query_state_t" where
  "mark_base_reached node_id st =
     st\<lparr>qs_origins := (qs_origins st)(node_id := None),
        qs_ordinals := (if qs_telemetry st then (qs_ordinals st)(node_id := None) else qs_ordinals st)\<rparr>"

subsection \<open>Scratch arrays\<close>

definition reset_cell :: "u32 \<Rightarrow> query_state_t \<Rightarrow> query_state_t" where
  "reset_cell c st = st\<lparr>qs_created := (qs_created st)[unat c := False], qs_cell_support := (qs_cell_support st)[unat c := 0],
     qs_cell_distance := (qs_cell_distance st)[unat c := Infinity], qs_ranks := (qs_ranks st)[unat c := k_none],
     qs_cell_flags := (qs_cell_flags st)[unat c := False]\<rparr>"

definition reset_block :: "u32 \<Rightarrow> query_state_t \<Rightarrow> query_state_t" where
  "reset_block b st = st\<lparr>qs_block_support := (qs_block_support st)[unat b := 0],
     qs_block_distance := (qs_block_distance st)[unat b := Infinity], qs_loaded := (qs_loaded st)[unat b := False],
     qs_block_flags := (qs_block_flags st)[unat b := False]\<rparr>"

definition fresh_cells :: "nat \<Rightarrow> query_state_t \<Rightarrow> query_state_t" where
  "fresh_cells n st = st\<lparr>qs_created := replicate n False, qs_cell_support := replicate n 0,
     qs_cell_distance := replicate n Infinity, qs_ranks := replicate n k_none, qs_cell_flags := replicate n False\<rparr>"

definition fresh_blocks :: "nat \<Rightarrow> query_state_t \<Rightarrow> query_state_t" where
  "fresh_blocks n st = st\<lparr>qs_block_support := replicate n 0, qs_block_distance := replicate n Infinity,
     qs_loaded := replicate n False, qs_block_flags := replicate n False\<rparr>"

definition reset_cell_scratch :: "nat \<Rightarrow> nat \<Rightarrow> query_state_t \<Rightarrow> query_state_t" where
  "reset_cell_scratch cell_count block_count st =
     (let st = (if length (qs_created st) \<noteq> cell_count \<or> length (qs_cell_flags st) \<noteq> cell_count then fresh_cells cell_count st
                else fold reset_cell (qs_touched_cells st) st);
          st = (if length (qs_block_support st) \<noteq> block_count \<or> length (qs_block_flags st) \<noteq> block_count then fresh_blocks block_count st
                else fold reset_block (qs_touched_blocks st) st)
      in st\<lparr>qs_touched_cells := [], qs_touched_blocks := []\<rparr>)"

definition touch_cell :: "u32 \<Rightarrow> query_state_t \<Rightarrow> query_state_t" where
  "touch_cell c st = (if \<not> qs_cell_flags st ! unat c
     then st\<lparr>qs_cell_flags := (qs_cell_flags st)[unat c := True], qs_touched_cells := qs_touched_cells st @ [c]\<rparr> else st)"

definition touch_block :: "u32 \<Rightarrow> query_state_t \<Rightarrow> query_state_t" where
  "touch_block b st = (if \<not> qs_block_flags st ! unat b
     then st\<lparr>qs_block_flags := (qs_block_flags st)[unat b := True], qs_touched_blocks := qs_touched_blocks st @ [b]\<rparr> else st)"

text \<open>
  What every router does with a chosen Cell and its Blocks.  \<open>keep\<close> says that a support count is raised to the threshold
  and not overwritten; the distances are written when they are given.
\<close>

definition support_value :: "bool \<Rightarrow> u32 \<Rightarrow> u32 \<Rightarrow> u32" where
  "support_value keep threshold old = (if keep then max old threshold else threshold)"

definition route_block :: "bool \<Rightarrow> u32 \<Rightarrow> float_t option \<Rightarrow> u32 \<Rightarrow> query_state_t \<Rightarrow> query_state_t" where
  "route_block keep threshold distance b st =
     (let st = touch_block b st in
      st\<lparr>qs_block_support := (qs_block_support st)[unat b := support_value keep threshold (qs_block_support st ! unat b)],
         qs_block_distance := (case distance of None \<Rightarrow> qs_block_distance st | Some d \<Rightarrow> (qs_block_distance st)[unat b := d])\<rparr>)"

definition route_cell :: "skip_search_t \<Rightarrow> bool \<Rightarrow> bool \<Rightarrow> float_t option \<Rightarrow> float_t option \<Rightarrow> u32 \<Rightarrow> u32 \<Rightarrow> query_state_t \<Rightarrow> query_state_t" where
  "route_cell se keep_cell keep_block cell_distance block_distance rank c st =
     (let threshold = sk_cell_support (se_config se);
          st = touch_cell c st;
          st = st\<lparr>qs_ranks := (qs_ranks st)[unat c := rank], qs_created := (qs_created st)[unat c := True],
                  qs_cell_support := (qs_cell_support st)[unat c := support_value keep_cell threshold (qs_cell_support st ! unat c)],
                  qs_cell_distance := (case cell_distance of None \<Rightarrow> qs_cell_distance st
                     | Some d \<Rightarrow> (qs_cell_distance st)[unat c := d])\<rparr>
      in fold (route_block keep_block threshold block_distance) (cell_blocks se c) st)"

definition push_routed :: "u32 \<Rightarrow> query_state_t \<Rightarrow> query_state_t" where
  "push_routed c st = st\<lparr>qs_routed := qs_routed st @ [c]\<rparr>"

end
