(* ===== verification/Skip_Hierarchy.thy ===== *)
theory Skip_Hierarchy
  imports Skip_State "HOL-Library.While_Combinator"
begin

text \<open>
  The hierarchy of Cells (src/search/community_polar_search.cc): the tree the constructor builds over the Cells of every
  Community when the leaf order is preserved, the parent tables it derives from a hierarchy, and the best-first router
  \<open>route_hierarchical_cells\<close>.  A priority queue is a sorted list, its elements being pairs compared as \<open>std::pair\<close> does.
  The centroids of a node are in the metric of the query; \<open>radius_of\<close> is the radius the builder computes for a set
  of Cells.
\<close>

subsection \<open>Construction\<close>

type_synonym hierarchy_t = "hierarchy_node_t list \<times> u32 list"

text \<open>The loop that cuts the Cells of a node into contiguous clusters of nearly equal length.\<close>

fun even_chunks :: "nat \<Rightarrow> 'a list \<Rightarrow> 'a list list" where
  "even_chunks 0 xs = []"
| "even_chunks (Suc k) xs =
     (let n = (length xs + Suc k - 1) div Suc k in take n xs # even_chunks k (drop n xs))"

text \<open>\<open>append_nodes\<close> calls \<open>f\<close> on every cluster and collects the identifiers it returns; \<open>None\<close> is a call that does not return.\<close>

fun append_nodes :: "('c \<Rightarrow> hierarchy_t \<Rightarrow> (exn + u32 \<times> hierarchy_t) option) \<Rightarrow> 'c list \<Rightarrow> hierarchy_t
    \<Rightarrow> (exn + u32 list \<times> hierarchy_t) option" where
  "append_nodes f [] h = Some (Inr ([], h))"
| "append_nodes f (x # xs) h =
     (case f x h of
        None \<Rightarrow> None
      | Some (Inl e) \<Rightarrow> Some (Inl e)
      | Some (Inr (node, h)) \<Rightarrow>
          (case append_nodes f xs h of
             None \<Rightarrow> None
           | Some (Inl e) \<Rightarrow> Some (Inl e)
           | Some (Inr (rest, h)) \<Rightarrow> Some (Inr (node # rest, h))))"

text \<open>
  The recursion of \<open>append_node\<close> is bounded by \<open>fuel\<close>; the number of Cells is enough when the branching is at least 2
  (\<open>append_node_tree\<close> of Skip-Tree).
\<close>

primrec append_node :: "(u32 list \<Rightarrow> real) \<Rightarrow> skip_config_t \<Rightarrow> nat \<Rightarrow> u32 list \<Rightarrow> hierarchy_t
    \<Rightarrow> (exn + u32 \<times> hierarchy_t) option" where
  "append_node radius_of cf 0 = (\<lambda>cells h. None)"
| "append_node radius_of cf (Suc fuel) = (\<lambda>cells h.
     if cells = [] then Some (Inl Logic_error)
     else
       let cells = sort cells;
           node_id = length (fst h);
           blank = \<lparr>hn_child_begin = 0, hn_child_count = 0, hn_radius = radius_of cells, hn_children_are_cells = False\<rparr>;
           h = (fst h @ [blank], snd h)
       in if length cells \<le> unat (sk_cell_hierarchy_leaf_size cf)
          then Some (Inr (of_nat node_id,
            (fst h)[node_id := blank\<lparr>hn_child_begin := of_nat (length (snd h)), hn_child_count := of_nat (length cells),
               hn_children_are_cells := True\<rparr>], snd h @ cells))
          else
            let cluster_count = min (unat (sk_cell_hierarchy_branching cf)) (length cells)
            in case append_nodes (append_node radius_of cf fuel) (even_chunks cluster_count cells) h of
                 None \<Rightarrow> None
               | Some (Inl e) \<Rightarrow> Some (Inl e)
               | Some (Inr (child_nodes, h)) \<Rightarrow> Some (Inr (of_nat node_id,
                   (fst h)[node_id := blank\<lparr>hn_child_begin := of_nat (length (snd h)),
                      hn_child_count := of_nat (length child_nodes), hn_children_are_cells := False\<rparr>],
                   snd h @ child_nodes)))"

text \<open>The loop over the Communities; a Community without Cells has no root.\<close>

fun append_roots :: "(u32 list \<Rightarrow> real) \<Rightarrow> skip_config_t \<Rightarrow> skip_community_t list \<Rightarrow> hierarchy_t
    \<Rightarrow> (exn + u32 list \<times> hierarchy_t) option" where
  "append_roots radius_of cf [] h = Some (Inr ([], h))"
| "append_roots radius_of cf (record # records) h =
     (if cm_cell_count record = 0 then
        (case append_roots radius_of cf records h of
           None \<Rightarrow> None
         | Some (Inl e) \<Rightarrow> Some (Inl e)
         | Some (Inr (rs, h)) \<Rightarrow> Some (Inr (k_none # rs, h)))
      else
        (case append_node radius_of cf (unat (cm_cell_count record)) (map (\<lambda>i. w32 (cm_cell_begin record) + of_nat i) [0..<unat (cm_cell_count record)]) h of
           None \<Rightarrow> None
         | Some (Inl e) \<Rightarrow> Some (Inl e)
         | Some (Inr (r, h)) \<Rightarrow>
             (case append_roots radius_of cf records h of
                None \<Rightarrow> None
              | Some (Inl e) \<Rightarrow> Some (Inl e)
              | Some (Inr (rs, h)) \<Rightarrow> Some (Inr (r # rs, h)))))"

text \<open>A persisted hierarchy is used as it is.\<close>

definition build_cell_hierarchy :: "(u32 list \<Rightarrow> real) \<Rightarrow> skip_search_t \<Rightarrow> (exn + skip_search_t) option" where
  "build_cell_hierarchy radius_of se =
     (if se_hierarchy_nodes se \<noteq> [] then Some (Inr se)
      else case append_roots radius_of (se_config se) (se_communities se) ([], []) of
             None \<Rightarrow> None
           | Some (Inl e) \<Rightarrow> Some (Inl e)
           | Some (Inr (rs, h)) \<Rightarrow> Some (Inr (se\<lparr>se_hierarchy_nodes := fst h, se_hierarchy_children := snd h,
               se_hierarchy_roots := rs\<rparr>)))"

subsection \<open>Parents\<close>

definition node_children :: "skip_search_t \<Rightarrow> u32 \<Rightarrow> u32 list" where
  "node_children se n =
     (let r = se_hierarchy_nodes se ! unat n
      in map (\<lambda>offset. se_hierarchy_children se ! unat (hn_child_begin r + of_nat offset)) [0..<unat (hn_child_count r)])"

abbreviation is_leaf :: "skip_search_t \<Rightarrow> u32 \<Rightarrow> bool" where
  "is_leaf se n \<equiv> hn_children_are_cells (se_hierarchy_nodes se ! unat n)"

definition link_child :: "bool \<Rightarrow> u32 \<Rightarrow> u32 \<Rightarrow> u32 list \<times> u32 list \<Rightarrow> u32 list \<times> u32 list" where
  "link_child leaf parent child t =
     (if leaf then (fst t, (snd t)[unat child := parent]) else ((fst t)[unat child := parent], snd t))"

definition link_node :: "skip_search_t \<Rightarrow> u32 \<Rightarrow> u32 list \<times> u32 list \<Rightarrow> u32 list \<times> u32 list" where
  "link_node se parent = fold (link_child (is_leaf se parent) parent) (node_children se parent)"

definition node_ids :: "skip_search_t \<Rightarrow> u32 list" where
  "node_ids se = map of_nat [0..<length (se_hierarchy_nodes se)]"

definition link_hierarchy :: "skip_search_t \<Rightarrow> skip_search_t" where
  "link_hierarchy se =
     (let tables = fold (link_node se) (node_ids se)
            (replicate (length (se_hierarchy_nodes se)) k_none, replicate (length (se_cells se)) k_none)
      in se\<lparr>se_root_communities := map of_nat (filter (\<lambda>c. se_hierarchy_roots se ! c \<noteq> k_none) [0..<length (se_hierarchy_roots se)]),
            se_hierarchy_parents := fst tables, se_leaf_parents := snd tables\<rparr>)"

subsection \<open>Hints\<close>

text \<open>The walk from a leaf to the root along the parents.\<close>

definition walk_up :: "u32 list \<Rightarrow> u32 \<Rightarrow> u32 list \<Rightarrow> u32 list option" where
  "walk_up parents node path = map_option snd
     (while_option (\<lambda>(node, path). node \<noteq> k_none) (\<lambda>(node, path). (parents ! unat node, path @ [node])) (node, path))"

definition hint_key :: "query_state_t \<Rightarrow> float_t \<times> u32 \<Rightarrow> u32 \<times> float_t \<times> u32" where
  "hint_key st hint = (k_none - qs_cell_support st ! unat (snd hint), fst hint, snd hint)"

fun hint_path :: "skip_search_t \<Rightarrow> (float_t \<times> u32) list \<Rightarrow> u32 list \<Rightarrow> u32 list option" where
  "hint_path se [] path = Some path"
| "hint_path se (hint # hints) path =
     (if unat (snd hint) \<ge> length (se_leaf_parents se) then hint_path se hints path
      else case walk_up (se_hierarchy_parents se) (se_leaf_parents se ! unat (snd hint)) path of
             None \<Rightarrow> None
           | Some path \<Rightarrow> hint_path se hints path)"

definition order_hints :: "skip_search_t \<Rightarrow> nat \<Rightarrow> query_state_t \<Rightarrow> query_state_t option" where
  "order_hints se budget st =
     (if \<not> sk_cell_hierarchy_graph_guided_routing (se_config se) then Some st
      else
        let hints = sort_key (hint_key st) (qs_guided st)
        in case hint_path se (take budget hints) (qs_hint_path st) of
             None \<Rightarrow> None
           | Some path \<Rightarrow> Some (st\<lparr>qs_guided := hints, qs_hint_path := remdups_adj (sort path)\<rparr>))"

fun rank_of :: "u32 \<Rightarrow> (float_t \<times> u32) list \<Rightarrow> nat option" where
  "rank_of c [] = None"
| "rank_of c (hint # hints) = (if snd hint = c then Some 0 else map_option Suc (rank_of c hints))"

definition hinted_cell_score :: "(float_t \<times> u32) list \<Rightarrow> u32 \<Rightarrow> float_t" where
  "hinted_cell_score hints c =
     (case rank_of c hints of None \<Rightarrow> Infinity | Some rank \<Rightarrow> Finite (- real (length hints - rank)))"

subsection \<open>Best-first routing\<close>

text \<open>What the router reads: the two score functions and the budgets.  The score of a hint is a small integer, exact in a float.\<close>

record router_t =
  rt_node_score :: "u32 \<Rightarrow> float_t"
  rt_cell_score :: "u32 \<Rightarrow> float_t"
  rt_exact :: bool
  rt_probes :: nat
  rt_budget :: nat

definition node_lower_bound :: "query_metric_t \<Rightarrow> real \<Rightarrow> real \<Rightarrow> real" where
  "node_lower_bound qm radius distance_squared =
     (let lower = max 0 (qm_round qm (qm_root qm distance_squared - radius)) in qm_round qm (lower * lower))"

definition geometric_score :: "query_metric_t \<Rightarrow> skip_search_t \<Rightarrow> u32 \<Rightarrow> real" where
  "geometric_score qm se n =
     (if sk_cell_hierarchy_exact_routing (se_config se)
      then node_lower_bound qm (hn_radius (se_hierarchy_nodes se ! unat n)) (qm_node qm n) else qm_node qm n)"

definition routed_cell_budget :: "skip_search_t \<Rightarrow> query_state_t \<Rightarrow> u32" where
  "routed_cell_budget se st =
     (if qs_terminal_budget st = 0 then sk_cell_routing_cell_budget (se_config se) else qs_terminal_budget st)"

definition hierarchy_router :: "query_metric_t \<Rightarrow> skip_search_t \<Rightarrow> query_state_t \<Rightarrow> router_t" where
  "hierarchy_router qm se st =
     (let cf = se_config se; budget = routed_cell_budget se st; hints = take (unat budget) (qs_guided st)
      in \<lparr>rt_node_score = (\<lambda>n. if n \<in> set (qs_hint_path st) then Neg_infinity else Finite (geometric_score qm se n)),
          rt_cell_score = (\<lambda>c. let hint_score = hinted_cell_score hints c
             in if is_finite hint_score then hint_score else Finite (qm_cell qm c)),
          rt_exact = sk_cell_hierarchy_exact_routing cf,
          rt_probes = unat (if sk_cell_terminal_l_aware_forest cf then min (sk_cell_hierarchy_probe_budget cf) budget
                            else sk_cell_hierarchy_probe_budget cf),
          rt_budget = unat budget\<rparr>)"

text \<open>The state of the loop.\<close>

record routing_t =
  ro_frontier :: "(float_t \<times> u32) list"
  ro_routed :: "(float_t \<times> u32) list"
  ro_scored :: u32
  ro_probed :: u32

definition push_node :: "router_t \<Rightarrow> u32 \<Rightarrow> routing_t \<Rightarrow> routing_t" where
  "push_node rt n ro = ro\<lparr>ro_frontier := insort (rt_node_score rt n, n) (ro_frontier ro), ro_scored := ro_scored ro + 1\<rparr>"

definition push_cell :: "router_t \<Rightarrow> u32 \<Rightarrow> routing_t \<Rightarrow> routing_t" where
  "push_cell rt c ro =
     (let candidate = (rt_cell_score rt c, c)
      in if length (ro_routed ro) < rt_budget rt then ro\<lparr>ro_routed := insort candidate (ro_routed ro)\<rparr>
         else if candidate < last (ro_routed ro)
         then ro\<lparr>ro_routed := insort candidate (butlast (ro_routed ro))\<rparr>
         else ro)"

definition routing_continues :: "router_t \<Rightarrow> routing_t \<Rightarrow> bool" where
  "routing_continues rt ro \<longleftrightarrow> ro_frontier ro \<noteq> []
     \<and> \<not> (unat (ro_probed ro) \<ge> rt_probes rt \<and> length (ro_routed ro) \<ge> rt_budget rt
          \<and> (\<not> rt_exact rt \<or> fst (hd (ro_frontier ro)) > fst (last (ro_routed ro))))"

definition routing_step :: "skip_search_t \<Rightarrow> router_t \<Rightarrow> routing_t \<Rightarrow> routing_t" where
  "routing_step se rt ro =
     (let node = snd (hd (ro_frontier ro)); ro = ro\<lparr>ro_frontier := tl (ro_frontier ro)\<rparr>
      in if is_leaf se node
         then fold (push_cell rt) (node_children se node) (ro\<lparr>ro_probed := ro_probed ro + 1\<rparr>)
         else fold (push_node rt) (node_children se node) ro)"

definition push_root :: "skip_search_t \<Rightarrow> router_t \<Rightarrow> u32 \<Rightarrow> routing_t \<Rightarrow> routing_t" where
  "push_root se rt community ro =
     (let r = se_hierarchy_roots se ! unat community in if r = k_none then ro else push_node rt r ro)"

definition route_cells :: "skip_search_t \<Rightarrow> router_t \<Rightarrow> u32 list \<Rightarrow> routing_t \<Rightarrow> routing_t option" where
  "route_cells se rt communities ro =
     while_option (routing_continues rt) (routing_step se rt) (fold (push_root se rt) communities ro)"

definition admit_routed :: "skip_search_t \<Rightarrow> nat \<times> u32 \<Rightarrow> query_state_t \<Rightarrow> query_state_t" where
  "admit_routed se rc st =
     push_routed (snd rc) (route_cell se True False None (Some (Finite 0)) (of_nat (fst rc)) (snd rc) st)"

definition route_hierarchical_cells :: "query_metric_t \<Rightarrow> skip_search_t \<Rightarrow> u32 list \<Rightarrow> query_state_t \<Rightarrow> query_state_t option" where
  "route_hierarchical_cells qm se communities st =
     (case order_hints se (unat (routed_cell_budget se st)) st of
        None \<Rightarrow> None
      | Some st \<Rightarrow>
          (case route_cells se (hierarchy_router qm se st) communities
                  \<lparr>ro_frontier = [], ro_routed = [], ro_scored = qs_nodes_scored st, ro_probed = qs_groups_probed st\<rparr> of
             None \<Rightarrow> None
           | Some ro \<Rightarrow>
               Some (fold (admit_routed se) (enumerate 0 (map snd (ro_routed ro)))
                 (st\<lparr>qs_nodes_scored := ro_scored ro, qs_groups_probed := ro_probed ro\<rparr>))))"

end
