(* ===== verification/Skip_Routing.thy ===== *)
theory Skip_Routing
  imports Skip_Hierarchy "HOL-Library.Multiset"
begin

text \<open>
  Correctness of the best-first router.  \<open>cells_below\<close> is the reference: the Cells under a node, read off the tree
  without any queue.  With exact routing and scores of nodes that bound the scores of the Cells below them, the router
  returns the best Cells under the given roots and no others, although it leaves out part of the tree.
\<close>

subsection \<open>Bounded priority queues\<close>

lemma sorted_mset_unique:
  fixes xs ys :: "'a :: linorder list"
  shows "sorted xs \<Longrightarrow> sorted ys \<Longrightarrow> mset xs = mset ys \<Longrightarrow> xs = ys"
  by (metis properties_for_sort sorted_sort_id)

lemma take_insort:
  fixes x :: "'a :: linorder"
  assumes "sorted S"
  shows "take b (insort x S) = take b (insort x (take b S))"
  using assms
proof (induction S arbitrary: b)
  case Nil
  then show ?case by simp
next
  case (Cons y S)
  then have IH: "take n (insort x S) = take n (insort x (take n S))" for n by simp
  show ?case
  proof (cases b)
    case (Suc n)
    show ?thesis
    proof (cases "x \<le> y")
      case True
      then show ?thesis using Suc by (cases n) (simp_all add: min_def)
    next
      case False
      then show ?thesis using Suc IH [of n] by simp
    qed
  qed simp
qed

lemma insort_snoc_less:
  fixes x :: "'a :: linorder"
  assumes "sorted T" "T \<noteq> []" "x < last T"
  shows "insort x T = insort x (butlast T) @ [last T]"
proof (rule sorted_mset_unique)
  have T: "T = butlast T @ [last T]" using assms(2) by simp
  have s: "sorted (butlast T @ [last T])" using assms(1) T by simp
  then have b: "sorted (butlast T)" "\<forall>y\<in>set (butlast T). y \<le> last T" by (simp_all add: sorted_append)
  show "sorted (insort x T)" using assms(1) by (rule sorted_insort [THEN iffD2])
  show "sorted (insort x (butlast T) @ [last T])" using b assms(3) by (auto simp: sorted_append sorted_insort set_insort_key)
  have "mset T = add_mset (last T) (mset (butlast T))" by (subst T) simp
  then show "mset (insort x T) = mset (insort x (butlast T) @ [last T])" by simp
qed

lemma insort_snoc_ge:
  fixes x :: "'a :: linorder"
  assumes "sorted T" "T \<noteq> []" "\<not> x < last T"
  shows "insort x T = T @ [x]"
proof (rule sorted_mset_unique)
  have T: "T = butlast T @ [last T]" using assms(2) by simp
  have "sorted (butlast T @ [last T])" using assms(1) T by simp
  then have "\<forall>y\<in>set (butlast T @ [last T]). y \<le> last T" by (auto simp: sorted_append)
  then have "\<forall>y\<in>set T. y \<le> x" using T assms(3) by (metis leI order_trans)
  then show "sorted (T @ [x])" using assms(1) by (simp add: sorted_append)
  show "sorted (insort x T)" using assms(1) by (rule sorted_insort [THEN iffD2])
qed simp

definition best :: "nat \<Rightarrow> 'a :: linorder list \<Rightarrow> 'a list" where
  "best b xs = take b (sort xs)"

lemma best_mset: "mset xs = mset ys \<Longrightarrow> best b xs = best b ys"
  unfolding best_def by (metis mset_sort properties_for_sort sorted_sort)

lemma sorted_best [simp]: "sorted (best b xs)"
  by (simp add: best_def sorted_wrt_take)

lemma length_best [simp]: "length (best b xs) = min (length xs) b"
  by (simp add: best_def)

lemma best_push:
  assumes "0 < b"
  shows "best b (x # xs) = (if length (best b xs) < b then insort x (best b xs)
    else if x < last (best b xs) then insort x (butlast (best b xs)) else best b xs)"
proof -
  let ?T = "best b xs"
  have e: "best b (x # xs) = take b (insort x ?T)"
    using take_insort [of "sort xs" b x] by (simp add: best_def)
  consider (short) "length ?T < b" | (less) "length ?T = b" "x < last ?T" | (ge) "length ?T = b" "\<not> x < last ?T"
    by (fastforce simp: best_def)
  then show ?thesis
  proof cases
    case short
    then have "take b (insort x ?T) = insort x ?T" by simp
    then show ?thesis unfolding if_P [OF short] using e by simp
  next
    case less
    then have "?T \<noteq> []" using assms by (metis list.size(3) less_numeral_extra(3))
    from insort_snoc_less [OF sorted_best this less(2)] less assms e show ?thesis by simp
  next
    case ge
    then have "?T \<noteq> []" using assms by (metis list.size(3) less_numeral_extra(3))
    from insort_snoc_ge [OF sorted_best this ge(2)] ge e show ?thesis by simp
  qed
qed

lemma best_dominated:
  assumes full: "b \<le> length xs" "0 < b" and worse: "\<And>y. y \<in> set ys \<Longrightarrow> last (best b xs) \<le> y"
  shows "best b (xs @ ys) = best b xs"
  using worse
proof (induction ys)
  case Nil
  then show ?case by simp
next
  case (Cons y ys)
  then have IH: "best b (xs @ ys) = best b xs" "last (best b xs) \<le> y" by simp_all
  have "best b (xs @ y # ys) = best b (y # xs @ ys)" by (rule best_mset) simp
  also have "\<dots> = best b xs" using IH leD [OF IH(2)] full by (simp add: best_push)
  finally show ?case .
qed

subsection \<open>The reference\<close>

abbreviation node_count :: "skip_search_t \<Rightarrow> nat" where
  "node_count se \<equiv> length (se_hierarchy_nodes se)"

text \<open>The children of a node come after it in the table, as the builder appends them.\<close>

definition hierarchy_ok :: "skip_search_t \<Rightarrow> bool" where
  "hierarchy_ok se \<longleftrightarrow> (\<forall>n. unat n < node_count se \<longrightarrow> \<not> is_leaf se n \<longrightarrow>
     (\<forall>m\<in>set (node_children se n). unat n < unat m \<and> unat m < node_count se))"

primrec cells_within :: "skip_search_t \<Rightarrow> nat \<Rightarrow> u32 \<Rightarrow> u32 list" where
  "cells_within se 0 n = []"
| "cells_within se (Suc k) n =
     (if is_leaf se n then node_children se n else concat (map (cells_within se k) (node_children se n)))"

definition cells_below :: "skip_search_t \<Rightarrow> u32 \<Rightarrow> u32 list" where
  "cells_below se n = cells_within se (node_count se - unat n) n"

lemma cells_within_stable:
  assumes "hierarchy_ok se"
  shows "unat n < node_count se \<Longrightarrow> node_count se - unat n \<le> k \<Longrightarrow> cells_within se (Suc k) n = cells_within se k n"
proof (induction k arbitrary: n)
  case (Suc k)
  show ?case
  proof (cases "is_leaf se n")
    case False
    have "cells_within se (Suc k) m = cells_within se k m" if "m \<in> set (node_children se n)" for m
    proof (rule Suc.IH)
      from assms Suc.prems(1) False that have m: "unat n < unat m" "unat m < node_count se" by (auto simp: hierarchy_ok_def)
      then show "unat m < node_count se" "node_count se - unat m \<le> k" using Suc.prems(2) by linarith+
    qed
    then have "map (cells_within se (Suc k)) (node_children se n) = map (cells_within se k) (node_children se n)" by simp
    then show ?thesis using False cells_within.simps(2) [of se "Suc k" n] cells_within.simps(2) [of se k n] by presburger
  qed simp
qed simp

lemma cells_within_enough:
  assumes "hierarchy_ok se" "unat n < node_count se"
  shows "node_count se - unat n \<le> k \<Longrightarrow> cells_within se k n = cells_below se n"
proof (induction k rule: dec_induct)
  case base
  then show ?case by (simp add: cells_below_def)
next
  case (step k)
  then show ?case using cells_within_stable [OF assms] by simp
qed

lemma cells_below_rec:
  assumes "hierarchy_ok se" "unat n < node_count se"
  shows "cells_below se n = (if is_leaf se n then node_children se n else concat (map (cells_below se) (node_children se n)))"
proof -
  obtain j where j: "node_count se - unat n = Suc j" using assms(2) by (metis Suc_diff_Suc)
  have "cells_within se j m = cells_below se m" if "m \<in> set (node_children se n)" "\<not> is_leaf se n" for m
  proof -
    from assms that have "unat n < unat m" "unat m < node_count se" by (auto simp: hierarchy_ok_def)
    moreover from this have "node_count se - unat m \<le> j" using j by linarith
    ultimately show ?thesis using cells_within_enough [OF assms(1)] by blast
  qed
  then show ?thesis by (simp add: cells_below_def [of se n] j cong: map_cong)
qed

subsection \<open>The loop\<close>

abbreviation scored :: "router_t \<Rightarrow> u32 \<Rightarrow> float_t \<times> u32" where
  "scored rt c \<equiv> (rt_cell_score rt c, c)"

definition scored_below :: "skip_search_t \<Rightarrow> router_t \<Rightarrow> u32 \<Rightarrow> (float_t \<times> u32) list" where
  "scored_below se rt n = map (scored rt) (cells_below se n)"

text \<open>No Cell below a node has a better score than the node.\<close>

definition conservative :: "skip_search_t \<Rightarrow> router_t \<Rightarrow> bool" where
  "conservative se rt \<longleftrightarrow> (\<forall>n. unat n < node_count se \<longrightarrow> (\<forall>c\<in>set (cells_below se n). rt_node_score rt n \<le> rt_cell_score rt c))"

definition frontier_ok :: "skip_search_t \<Rightarrow> router_t \<Rightarrow> routing_t \<Rightarrow> bool" where
  "frontier_ok se rt ro \<longleftrightarrow> sorted (ro_frontier ro)
     \<and> (\<forall>(s, n)\<in>set (ro_frontier ro). unat n < node_count se \<and> s = rt_node_score rt n)"

definition pending :: "skip_search_t \<Rightarrow> router_t \<Rightarrow> routing_t \<Rightarrow> (float_t \<times> u32) multiset" where
  "pending se rt ro = (\<Sum>x\<in>#mset (ro_frontier ro). mset (scored_below se rt (snd x)))"

text \<open>The Cells of the searched part of the tree are \<open>seen\<close>; the best of them are the routed ones.\<close>

definition routing_inv :: "skip_search_t \<Rightarrow> router_t \<Rightarrow> (float_t \<times> u32) multiset \<Rightarrow> routing_t \<Rightarrow> bool" where
  "routing_inv se rt everything ro \<longleftrightarrow> frontier_ok se rt ro
     \<and> (\<exists>seen. ro_routed ro = best (rt_budget rt) seen \<and> everything = mset seen + pending se rt ro)"

lemma frontier_ok_push:
  "frontier_ok se rt ro \<Longrightarrow> unat n < node_count se \<Longrightarrow> frontier_ok se rt (push_node rt n ro)"
  by (auto simp: frontier_ok_def push_node_def sorted_insort set_insort_key)

lemma pending_push: "pending se rt (push_node rt n ro) = mset (scored_below se rt n) + pending se rt ro"
  by (simp add: pending_def push_node_def)

lemma push_node_routed [simp]: "ro_routed (push_node rt n ro) = ro_routed ro" "ro_probed (push_node rt n ro) = ro_probed ro"
  by (simp_all add: push_node_def)

lemma push_cell_frontier [simp]: "ro_frontier (push_cell rt c ro) = ro_frontier ro" "ro_probed (push_cell rt c ro) = ro_probed ro"
  by (simp_all add: push_cell_def Let_def)

lemma push_nodes:
  assumes "\<forall>n\<in>set ns. unat n < node_count se"
  shows "frontier_ok se rt ro \<Longrightarrow> frontier_ok se rt (fold (push_node rt) ns ro)"
    "ro_routed (fold (push_node rt) ns ro) = ro_routed ro"
    "pending se rt (fold (push_node rt) ns ro) = mset (concat (map (scored_below se rt) ns)) + pending se rt ro"
    "mset (ro_frontier (fold (push_node rt) ns ro)) = mset (map (\<lambda>n. (rt_node_score rt n, n)) ns) + mset (ro_frontier ro)"
  using assms
  by (induction ns arbitrary: ro) (simp_all add: frontier_ok_push pending_push, simp add: push_node_def)

lemma push_cell_best:
  assumes "0 < rt_budget rt" "ro_routed ro = best (rt_budget rt) seen"
  shows "ro_routed (push_cell rt c ro) = best (rt_budget rt) (scored rt c # seen)"
  using best_push [OF assms(1), of "scored rt c" seen] assms(2) by (simp add: push_cell_def Let_def)

lemma push_cells:
  assumes "0 < rt_budget rt"
  shows "ro_routed ro = best (rt_budget rt) seen \<Longrightarrow>
      ro_routed (fold (push_cell rt) cs ro) = best (rt_budget rt) (rev (map (scored rt) cs) @ seen)"
    "ro_frontier (fold (push_cell rt) cs ro) = ro_frontier ro"
  using push_cell_best [OF assms] by (induction cs arbitrary: ro seen) simp_all

lemma routing_step_inv:
  assumes h: "hierarchy_ok se" and b: "0 < rt_budget rt"
    and inv: "routing_inv se rt everything ro" and ne: "ro_frontier ro \<noteq> []"
  shows "routing_inv se rt everything (routing_step se rt ro)"
proof -
  obtain s n rest where f: "ro_frontier ro = (s, n) # rest" using ne by (metis list.exhaust prod.exhaust)
  from inv obtain seen where ok: "frontier_ok se rt ro" and seen: "ro_routed ro = best (rt_budget rt) seen"
      "everything = mset seen + pending se rt ro" by (auto simp: routing_inv_def)
  have n: "unat n < node_count se" using ok f by (auto simp: frontier_ok_def)
  let ?r = "ro\<lparr>ro_frontier := rest\<rparr>"
  have ok': "frontier_ok se rt ?r" using ok f by (auto simp: frontier_ok_def)
  have pend: "pending se rt ro = mset (scored_below se rt n) + pending se rt ?r" by (simp add: pending_def f)
  show ?thesis
  proof (cases "is_leaf se n")
    case True
    let ?cs = "node_children se n"
    have below: "scored_below se rt n = map (scored rt) ?cs" using cells_below_rec [OF h n] True by (simp add: scored_below_def)
    have st: "routing_step se rt ro = fold (push_cell rt) ?cs (?r\<lparr>ro_probed := ro_probed ro + 1\<rparr>)"
      using True f by (simp add: routing_step_def Let_def)
    have "ro_routed (?r\<lparr>ro_probed := ro_probed ro + 1\<rparr>) = best (rt_budget rt) seen" using seen by simp
    from push_cells(1) [OF b this, of ?cs] have r: "ro_routed (routing_step se rt ro) = best (rt_budget rt) (rev (map (scored rt) ?cs) @ seen)"
      by (simp only: st)
    have fr: "ro_frontier (routing_step se rt ro) = rest" by (simp add: st push_cells(2) [OF b])
    have "frontier_ok se rt (routing_step se rt ro)" using ok' fr by (simp add: frontier_ok_def)
    moreover have "pending se rt (routing_step se rt ro) = pending se rt ?r" by (simp add: pending_def fr)
    then have "everything = mset (rev (map (scored rt) ?cs) @ seen) + pending se rt (routing_step se rt ro)"
      using seen(2) pend below by (simp add: ac_simps)
    ultimately show ?thesis using r unfolding routing_inv_def by blast
  next
    case False
    let ?ns = "node_children se n"
    have ns: "\<forall>m\<in>set ?ns. unat m < node_count se" using h n False by (auto simp: hierarchy_ok_def)
    have st: "routing_step se rt ro = fold (push_node rt) ?ns ?r" using False f by (simp add: routing_step_def Let_def)
    have below: "scored_below se rt n = concat (map (scored_below se rt) ?ns)"
      using cells_below_rec [OF h n] False by (simp add: scored_below_def [abs_def] map_concat comp_def)
    have "everything = mset seen + pending se rt (routing_step se rt ro)"
      using seen(2) pend below by (simp add: st push_nodes(3) [OF ns])
    moreover have "frontier_ok se rt (routing_step se rt ro)" using push_nodes(1) [OF ns ok'] by (simp only: st)
    moreover have "ro_routed (routing_step se rt ro) = best (rt_budget rt) seen" using seen(1) by (simp add: st push_nodes(2) [OF ns])
    ultimately show ?thesis unfolding routing_inv_def by blast
  qed
qed

text \<open>Every step replaces a node by nodes that come after it.\<close>

definition depths :: "skip_search_t \<Rightarrow> routing_t \<Rightarrow> nat multiset" where
  "depths se ro = image_mset (\<lambda>x. node_count se - unat (snd x)) (mset (ro_frontier ro))"

lemma routing_step_decreases:
  assumes h: "hierarchy_ok se" and b: "0 < rt_budget rt" and ok: "frontier_ok se rt ro" and ne: "ro_frontier ro \<noteq> []"
  shows "(depths se (routing_step se rt ro), depths se ro) \<in> mult less_than"
proof -
  obtain s n rest where f: "ro_frontier ro = (s, n) # rest" using ne by (metis list.exhaust prod.exhaust)
  have n: "unat n < node_count se" using ok f by (auto simp: frontier_ok_def)
  let ?K = "if is_leaf se n then {#} else image_mset (\<lambda>m. node_count se - unat m) (mset (node_children se n))"
  let ?I = "image_mset (\<lambda>x. node_count se - unat (snd x)) (mset rest)"
  have d: "depths se ro = ?I + {#node_count se - unat n#}" by (simp add: depths_def f)
  have "depths se (routing_step se rt ro) = ?I + ?K"
  proof (cases "is_leaf se n")
    case True
    then show ?thesis using f by (simp add: depths_def routing_step_def Let_def push_cells(2) [OF b])
  next
    case False
    then have ns: "\<forall>m\<in>set (node_children se n). unat m < node_count se" using h n by (auto simp: hierarchy_ok_def)
    show ?thesis using f False
      by (simp add: depths_def routing_step_def Let_def push_nodes(4) [OF ns] image_mset.compositionality comp_def)
  qed
  moreover have "\<forall>k\<in>set_mset ?K. \<exists>j\<in>set_mset {#node_count se - unat n#}. (k, j) \<in> less_than"
    using h n by (auto simp: hierarchy_ok_def intro: diff_less_mono2)
  ultimately show ?thesis using one_step_implies_mult [of "{#node_count se - unat n#}" ?K less_than ?I] by (simp add: d)
qed

lemma wf_depths: "wf {(t, s). (routing_inv se rt everything s \<and> routing_continues rt s) \<and> t = routing_step se rt s}"
  if h: "hierarchy_ok se" and b: "0 < rt_budget rt"
proof (rule wf_subset)
  show "wf (inv_image (mult less_than) (depths se))" by (intro wf_inv_image wf_mult wf_less_than)
  show "{(t, s). (routing_inv se rt everything s \<and> routing_continues rt s) \<and> t = routing_step se rt s} \<subseteq> inv_image (mult less_than) (depths se)"
    using routing_step_decreases [OF h b] by (auto simp: routing_inv_def routing_continues_def)
qed

lemma routing_loop:
  assumes h: "hierarchy_ok se" and b: "0 < rt_budget rt" and inv: "routing_inv se rt everything ro"
  shows "\<exists>ro'. while_option (routing_continues rt) (routing_step se rt) ro = Some ro' \<and> routing_inv se rt everything ro'
    \<and> \<not> routing_continues rt ro'"
proof -
  have keep: "routing_inv se rt everything (routing_step se rt s)" if "routing_inv se rt everything s" "routing_continues rt s" for s
    using routing_step_inv [OF h b that(1)] that(2) by (simp add: routing_continues_def)
  from wf_while_option_Some [OF wf_depths [OF h b] keep inv]
  obtain ro' where ro': "while_option (routing_continues rt) (routing_step se rt) ro = Some ro'" by blast
  have "routing_inv se rt everything ro'"
    by (rule while_option_rule [where P = "routing_inv se rt everything", OF _ ro' inv]) (rule keep)
  with ro' while_option_stop [OF ro'] show ?thesis by blast
qed

lemma pending_dominated:
  assumes cons: "conservative se rt" and ok: "frontier_ok se rt ro" and x: "x \<in># pending se rt ro"
  shows "fst (hd (ro_frontier ro)) \<le> fst x"
proof -
  from x obtain y where y: "y \<in> set (ro_frontier ro)" "x \<in> set (scored_below se rt (snd y))"
    by (auto simp: pending_def)
  obtain s n where sn: "y = (s, n)" by (cases y)
  have n: "unat n < node_count se" "s = rt_node_score rt n" using ok y(1) sn by (auto simp: frontier_ok_def)
  have "hd (ro_frontier ro) \<le> y" using ok y(1) by (cases "ro_frontier ro") (auto simp: frontier_ok_def)
  then have "fst (hd (ro_frontier ro)) \<le> s" using sn by (auto simp: less_eq_prod_def)
  moreover have "s \<le> fst x" using cons n y(2) sn by (auto simp: conservative_def scored_below_def)
  ultimately show ?thesis by (rule order_trans)
qed

lemma stopped_best:
  assumes cons: "conservative se rt" and ex: "rt_exact rt" and b: "0 < rt_budget rt"
    and inv: "routing_inv se rt (mset all_cells) ro" and stop: "\<not> routing_continues rt ro"
  shows "ro_routed ro = best (rt_budget rt) all_cells"
proof -
  let ?b = "rt_budget rt"
  from inv obtain seen where ok: "frontier_ok se rt ro" and seen: "ro_routed ro = best ?b seen" "mset all_cells = mset seen + pending se rt ro"
    by (auto simp: routing_inv_def)
  obtain ys where ys: "pending se rt ro = mset ys" by (metis ex_mset)
  have all_cells: "best ?b all_cells = best ?b (seen @ ys)" by (rule best_mset) (simp add: seen(2) ys)
  show ?thesis
  proof (cases "ro_frontier ro = []")
    case True
    then have "ys = []" using ys by (simp add: pending_def)
    then show ?thesis using all_cells seen(1) by simp
  next
    case False
    with stop ex have full: "length (best ?b seen) \<ge> ?b" and top: "fst (last (best ?b seen)) < fst (hd (ro_frontier ro))"
      by (auto simp: routing_continues_def seen(1) [symmetric])
    have "last (best ?b seen) \<le> y" if "y \<in> set ys" for y
    proof -
      have "fst (hd (ro_frontier ro)) \<le> fst y" using pending_dominated [OF cons ok] that ys by simp
      with top show ?thesis by (auto simp: less_eq_prod_def)
    qed
    from best_dominated [OF _ b this] full show ?thesis using all_cells seen(1) by simp
  qed
qed

lemma push_roots:
  "fold (push_root se rt) cs ro = fold (push_node rt) (filter (\<lambda>r. r \<noteq> k_none) (map (\<lambda>c. se_hierarchy_roots se ! unat c) cs)) ro"
  by (induction cs arbitrary: ro) (simp_all add: push_root_def Let_def)

definition chosen_roots :: "skip_search_t \<Rightarrow> u32 list \<Rightarrow> u32 list" where
  "chosen_roots se communities = filter (\<lambda>r. r \<noteq> k_none) (map (\<lambda>c. se_hierarchy_roots se ! unat c) communities)"

lemma route_cells_best:
  assumes h: "hierarchy_ok se" and b: "0 < rt_budget rt"
    and rs: "\<forall>r\<in>set (chosen_roots se communities). unat r < node_count se"
    and new: "ro_frontier ro = []" "ro_routed ro = []"
  shows "\<exists>ro'. route_cells se rt communities ro = Some ro' \<and> frontier_ok se rt ro'
    \<and> length (ro_routed ro') \<le> rt_budget rt \<and> sorted (ro_routed ro')
    \<and> set (ro_routed ro') \<subseteq> scored rt ` set (concat (map (cells_below se) (chosen_roots se communities)))
    \<and> (rt_exact rt \<longrightarrow> conservative se rt \<longrightarrow>
        ro_routed ro' = best (rt_budget rt) (map (scored rt) (concat (map (cells_below se) (chosen_roots se communities)))))"
proof -
  let ?all = "map (scored rt) (concat (map (cells_below se) (chosen_roots se communities)))"
  let ?ro = "fold (push_node rt) (chosen_roots se communities) ro"
  have all: "?all = concat (map (scored_below se rt) (chosen_roots se communities))"
    by (simp add: scored_below_def [abs_def] map_concat comp_def)
  have "frontier_ok se rt ro" by (simp add: frontier_ok_def new)
  moreover have "ro_routed ?ro = best (rt_budget rt) []" by (simp add: push_nodes(2) [OF rs] new best_def)
  moreover have "pending se rt ro = {#}" by (simp add: pending_def new)
  ultimately have inv: "routing_inv se rt (mset ?all) ?ro"
    unfolding routing_inv_def all using push_nodes(1) [OF rs, of rt ro] push_nodes(3) [OF rs, of rt ro] by (metis add.right_neutral add_0 mset.simps(1))
  from routing_loop [OF h b inv] obtain ro' where ro': "route_cells se rt communities ro = Some ro'"
      "routing_inv se rt (mset ?all) ro'" "\<not> routing_continues rt ro'"
    by (auto simp: route_cells_def push_roots chosen_roots_def)
  from ro'(2) obtain seen where seen: "frontier_ok se rt ro'" "ro_routed ro' = best (rt_budget rt) seen" "mset ?all = mset seen + pending se rt ro'"
    by (auto simp: routing_inv_def)
  have "set_mset (mset seen) \<subseteq> set_mset (mset ?all)" by (simp only: seen(3) set_mset_union Un_upper1)
  then have "set seen \<subseteq> set ?all" by (simp only: set_mset_mset)
  moreover have "set (ro_routed ro') \<subseteq> set seen" unfolding seen(2) best_def by (metis set_sort set_take_subset)
  ultimately have "set (ro_routed ro') \<subseteq> set ?all" by (rule order_trans [rotated])
  moreover have "rt_exact rt \<longrightarrow> conservative se rt \<longrightarrow> ro_routed ro' = best (rt_budget rt) ?all"
    using stopped_best [OF _ _ b ro'(2) ro'(3)] by blast
  moreover have "length (ro_routed ro') \<le> rt_budget rt" "sorted (ro_routed ro')" by (simp_all add: seen(2))
  ultimately show ?thesis using ro'(1) seen(1) unfolding set_map by blast
qed

end
