(* ===== verification/Skip_Hints.thy ===== *)
theory Skip_Hints
  imports Skip_Routing
begin

text \<open>
  The hints of the graph: the parent tables invert the children of the hierarchy, so the path of a hinted Cell holds
  every node above it, the scores stay conservative, and the router is exact with hints as well.
\<close>

subsection \<open>Parents\<close>

text \<open>A hierarchy is a forest: no node and no Cell is the child of two nodes.\<close>

definition tree_ok :: "skip_search_t \<Rightarrow> bool" where
  "tree_ok se \<longleftrightarrow> hierarchy_ok se \<and> node_count se \<le> 4294967295
     \<and> (\<forall>n. unat n < node_count se \<longrightarrow> is_leaf se n \<longrightarrow> (\<forall>c\<in>set (node_children se n). unat c < length (se_cells se)))
     \<and> (\<forall>n n' x. unat n < node_count se \<longrightarrow> unat n' < node_count se \<longrightarrow> is_leaf se n = is_leaf se n' \<longrightarrow>
          x \<in> set (node_children se n) \<longrightarrow> x \<in> set (node_children se n') \<longrightarrow> n = n')"

lemma nth_fold_update:
  "j < length xs \<Longrightarrow> fold (\<lambda>c xs. xs[unat c := p]) cs xs ! j = (if j \<in> unat ` set cs then p else xs ! j)"
  by (induction cs arbitrary: xs) (auto simp: nth_list_update)

lemma length_fold_update [simp]: "length (fold (\<lambda>c xs. xs[unat c := p]) cs xs) = length xs"
  by (induction cs arbitrary: xs) simp_all

lemma fold_link_child:
  "fold (link_child leaf p) cs t =
     (if leaf then (fst t, fold (\<lambda>c xs. xs[unat c := p]) cs (snd t)) else (fold (\<lambda>c xs. xs[unat c := p]) cs (fst t), snd t))"
  by (induction cs arbitrary: t) (simp_all add: link_child_def)

definition table_of :: "bool \<Rightarrow> 'a \<times> 'a \<Rightarrow> 'a" where
  "table_of leaf t = (if leaf then snd t else fst t)"

lemma table_of_link:
  "table_of l (link_node se p t) =
     (if l = is_leaf se p then fold (\<lambda>c xs. xs[unat c := p]) (node_children se p) (table_of l t) else table_of l t)"
  by (simp add: link_node_def fold_link_child table_of_def)

definition linked :: "skip_search_t \<Rightarrow> u32 set \<Rightarrow> u32 list \<times> u32 list \<Rightarrow> bool" where
  "linked se D t \<longleftrightarrow> length (fst t) = node_count se \<and> length (snd t) = length (se_cells se)
     \<and> (\<forall>n\<in>D. \<forall>x\<in>set (node_children se n). table_of (is_leaf se n) t ! unat x = n)
     \<and> (\<forall>leaf. \<forall>j < length (table_of leaf t). table_of leaf t ! j = k_none
          \<or> (\<exists>n\<in>D. is_leaf se n = leaf \<and> table_of leaf t ! j = n \<and> of_nat j \<in> set (node_children se n)))"

lemma link_node_linked:
  assumes ok: "tree_ok se" and l: "linked se D t" and p: "unat p < node_count se" and D: "\<forall>n\<in>D. unat n < node_count se"
  shows "linked se (insert p D) (link_node se p t)"
proof -
  let ?t = "link_node se p t"
  have len: "length (fst ?t) = node_count se" "length (snd ?t) = length (se_cells se)"
    using l by (simp_all add: linked_def link_node_def fold_link_child)
  have lt: "length (table_of b t) = (if b then length (se_cells se) else node_count se)" for b
    using l by (simp add: linked_def table_of_def)
  have child: "table_of (is_leaf se n) ?t ! unat x = n" if n: "n \<in> insert p D" and x: "x \<in> set (node_children se n)" for n x
  proof -
    have nn: "unat n < node_count se" using n p D by auto
    have xr: "unat x < length (table_of (is_leaf se n) t)" using ok nn x by (auto simp: lt tree_ok_def hierarchy_ok_def)
    show ?thesis
    proof (cases "n = p")
      case True
      then show ?thesis using x xr by (simp add: table_of_link nth_fold_update)
    next
      case False
      then have "n \<in> D" using n by blast
      then have old: "table_of (is_leaf se n) t ! unat x = n" using l x by (auto simp: linked_def)
      have e: "fold (\<lambda>c xs. xs[unat c := p]) (node_children se p) (table_of (is_leaf se n) t) ! unat x =
          (if unat x \<in> unat ` set (node_children se p) then p else table_of (is_leaf se n) t ! unat x)"
        by (rule nth_fold_update [OF xr])
      show ?thesis
      proof (cases "is_leaf se n = is_leaf se p")
        case True
        then have "x \<notin> set (node_children se p)" using ok nn p x False unfolding tree_ok_def by blast
        then have "unat x \<notin> unat ` set (node_children se p)" by (metis imageE word_unat_eq_iff)
        then show ?thesis unfolding table_of_link if_P [OF True] e by (simp only: if_False old)
      next
        case False
        show ?thesis unfolding table_of_link if_not_P [OF False] by (rule old)
      qed
    qed
  qed
  have "table_of b ?t ! j = k_none \<or> (\<exists>n\<in>insert p D. is_leaf se n = b \<and> table_of b ?t ! j = n \<and> of_nat j \<in> set (node_children se n))"
    if j: "j < length (table_of b ?t)" for b j
  proof -
    have jl: "j < length (table_of b t)" using j by (simp add: table_of_link split: if_splits)
    then have old: "table_of b t ! j = k_none \<or> (\<exists>n\<in>D. is_leaf se n = b \<and> table_of b t ! j = n \<and> of_nat j \<in> set (node_children se n))"
      using l unfolding linked_def by blast
    have e: "table_of b ?t ! j = (if b = is_leaf se p \<and> j \<in> unat ` set (node_children se p) then p else table_of b t ! j)"
      using nth_fold_update [OF jl, where p = p and cs = "node_children se p"]
      by (cases "b = is_leaf se p") (simp_all only: table_of_link if_True if_False simp_thms)
    show ?thesis
    proof (cases "b = is_leaf se p \<and> j \<in> unat ` set (node_children se p)")
      case True
      then have "of_nat j \<in> set (node_children se p)" by auto
      then show ?thesis unfolding e using True by simp
    next
      case False
      show ?thesis unfolding e if_not_P [OF False] using old by blast
    qed
  qed
  with len child show ?thesis unfolding linked_def by blast
qed

lemma fold_link_linked:
  assumes "tree_ok se"
  shows "linked se D t \<Longrightarrow> \<forall>n\<in>D \<union> set ps. unat n < node_count se \<Longrightarrow> linked se (D \<union> set ps) (fold (link_node se) ps t)"
proof (induction ps arbitrary: D t)
  case (Cons p ps)
  have "linked se (insert p D) (link_node se p t)" using link_node_linked [OF assms Cons.prems(1)] Cons.prems(2) by simp
  from Cons.IH [OF this] Cons.prems(2) show ?case by simp
qed simp

lemma set_node_ids: "node_count se \<le> 4294967295 \<Longrightarrow> set (node_ids se) = {n. unat n < node_count se}"
proof (intro equalityI subsetI)
  fix n :: u32 assume "node_count se \<le> 4294967295" "n \<in> set (node_ids se)"
  then obtain i where "n = of_nat i" "i < node_count se" by (auto simp: node_ids_def)
  moreover from this \<open>node_count se \<le> _\<close> have "unat n = i" by (simp add: unat_of_nat take_bit_nat_eq_self_iff)
  ultimately show "n \<in> {n. unat n < node_count se}" by simp
next
  fix n :: u32 assume "n \<in> {n. unat n < node_count se}"
  then have "n = of_nat (unat n)" "unat n < node_count se" by simp_all
  then show "n \<in> set (node_ids se)" unfolding node_ids_def set_map set_upt by (intro image_eqI [of _ _ "unat n"]) simp_all
qed

text \<open>What the router relies on.\<close>

definition parents_ok :: "skip_search_t \<Rightarrow> bool" where
  "parents_ok se \<longleftrightarrow> tree_ok se \<and> linked se {n. unat n < node_count se} (se_hierarchy_parents se, se_leaf_parents se)"

lemma linked_cong:
  assumes "se_hierarchy_nodes se' = se_hierarchy_nodes se" "se_hierarchy_children se' = se_hierarchy_children se" "se_cells se' = se_cells se"
  shows "linked se' D t = linked se D t" "tree_ok se' = tree_ok se"
  using assms by (simp_all add: linked_def tree_ok_def hierarchy_ok_def node_children_def)

lemma link_hierarchy_parents:
  assumes "tree_ok se"
  shows "parents_ok (link_hierarchy se)"
proof -
  let ?t = "fold (link_node se) (node_ids se) (replicate (node_count se) k_none, replicate (length (se_cells se)) k_none)"
  have "node_count se \<le> 4294967295" using assms by (simp add: tree_ok_def)
  from set_node_ids [OF this] have ids: "set (node_ids se) = {n. unat n < node_count se}" .
  have "linked se {} (replicate (node_count se) k_none, replicate (length (se_cells se)) k_none)" by (simp add: linked_def table_of_def)
  from fold_link_linked [OF assms this, of "node_ids se"] ids have "linked se {n. unat n < node_count se} ?t" by simp
  moreover have n: "se_hierarchy_nodes (link_hierarchy se) = se_hierarchy_nodes se" "se_cells (link_hierarchy se) = se_cells se"
    "se_hierarchy_children (link_hierarchy se) = se_hierarchy_children se" by (simp_all add: link_hierarchy_def Let_def)
  moreover have "(se_hierarchy_parents (link_hierarchy se), se_leaf_parents (link_hierarchy se)) = ?t"
    by (simp add: link_hierarchy_def Let_def)
  ultimately show ?thesis using assms linked_cong [OF n(1) n(3) n(2)] by (simp add: parents_ok_def)
qed

subsection \<open>Paths\<close>

definition up_closed :: "u32 list \<Rightarrow> u32 set \<Rightarrow> bool" where
  "up_closed ps P \<longleftrightarrow> (\<forall>n\<in>P. ps ! unat n \<noteq> k_none \<longrightarrow> ps ! unat n \<in> P)"

lemma walk_up_rec:
  "walk_up ps node path = (if node = k_none then Some path else walk_up ps (ps ! unat node) (path @ [node]))"
  unfolding walk_up_def by (subst while_option_unfold) simp

lemma walk_up_none [simp]: "walk_up ps k_none path = Some path"
  by (subst walk_up_rec) simp

lemma walk_up_closed:
  assumes down: "\<forall>j < N. ps ! j = k_none \<or> unat (ps ! j) < j"
  shows "node = k_none \<or> unat node < N \<Longrightarrow> \<exists>chain. walk_up ps node path = Some (path @ chain)
    \<and> (node \<noteq> k_none \<longrightarrow> node \<in> set chain) \<and> up_closed ps (set chain)"
proof (induction "unat node" arbitrary: node path rule: less_induct)
  case less
  show ?case
  proof (cases "node = k_none")
    case True
    then show ?thesis by (intro exI [of _ "[]"]) (simp add: up_closed_def)
  next
    case False
    let ?p = "ps ! unat node"
    have n: "unat node < N" using less.prems False by simp
    have "\<exists>chain. walk_up ps ?p (path @ [node]) = Some ((path @ [node]) @ chain) \<and> (?p \<noteq> k_none \<longrightarrow> ?p \<in> set chain) \<and> up_closed ps (set chain)"
    proof (cases "?p = k_none")
      case True
      then show ?thesis by (intro exI [of _ "[]"]) (simp add: up_closed_def)
    next
      case p: False
      then have lt: "unat ?p < unat node" using down n by blast
      then show ?thesis using n by (intro less.hyps) simp_all
    qed
    then obtain chain where chain: "walk_up ps ?p (path @ [node]) = Some (path @ node # chain)" "?p \<noteq> k_none \<longrightarrow> ?p \<in> set chain"
      "up_closed ps (set chain)" by auto
    then have "up_closed ps (set (node # chain))" by (auto simp: up_closed_def)
    moreover have "walk_up ps node path = Some (path @ node # chain)" using chain(1) False walk_up_rec [of ps node path] by simp
    ultimately show ?thesis using False by (intro exI [of _ "node # chain"]) simp
  qed
qed

lemma up_closed_Un: "up_closed ps A \<Longrightarrow> up_closed ps B \<Longrightarrow> up_closed ps (A \<union> B)"
  by (auto simp: up_closed_def)

lemma hint_path_closed:
  assumes down: "\<forall>j < N. se_hierarchy_parents se ! j = k_none \<or> unat (se_hierarchy_parents se ! j) < j"
    and leaves: "\<forall>j < length (se_leaf_parents se). se_leaf_parents se ! j = k_none \<or> unat (se_leaf_parents se ! j) < N"
  shows "up_closed (se_hierarchy_parents se) (set path) \<Longrightarrow> \<exists>path'. hint_path se hints path = Some path'
    \<and> set path \<subseteq> set path' \<and> up_closed (se_hierarchy_parents se) (set path')
    \<and> (\<forall>h\<in>set hints. unat (snd h) < length (se_leaf_parents se) \<longrightarrow> se_leaf_parents se ! unat (snd h) \<noteq> k_none \<longrightarrow>
         se_leaf_parents se ! unat (snd h) \<in> set path')"
proof (induction hints arbitrary: path)
  case (Cons h hints)
  show ?case
  proof (cases "unat (snd h) \<ge> length (se_leaf_parents se)")
    case True
    then show ?thesis using Cons.IH [OF Cons.prems] by auto
  next
    case False
    let ?l = "se_leaf_parents se ! unat (snd h)"
    have "?l = k_none \<or> unat ?l < N" using leaves False by simp
    from walk_up_closed [OF down this, of path] obtain chain where chain: "walk_up (se_hierarchy_parents se) ?l path = Some (path @ chain)"
      "?l \<noteq> k_none \<longrightarrow> ?l \<in> set chain" "up_closed (se_hierarchy_parents se) (set chain)" by blast
    have "up_closed (se_hierarchy_parents se) (set (path @ chain))" using up_closed_Un [OF Cons.prems chain(3)] by simp
    from Cons.IH [OF this] obtain path' where p: "hint_path se hints (path @ chain) = Some path'" "set (path @ chain) \<subseteq> set path'"
      "up_closed (se_hierarchy_parents se) (set path')"
      "\<forall>h\<in>set hints. unat (snd h) < length (se_leaf_parents se) \<longrightarrow> se_leaf_parents se ! unat (snd h) \<noteq> k_none \<longrightarrow>
         se_leaf_parents se ! unat (snd h) \<in> set path'" by blast
    have "hint_path se (h # hints) path = Some path'" using False chain(1) p(1) by simp
    moreover have "?l \<noteq> k_none \<longrightarrow> ?l \<in> set path'" using chain(2) p(2) by auto
    ultimately show ?thesis using p by auto
  qed
qed simp

text \<open>A closed set that holds the leaf of a Cell holds every node above the Cell.\<close>

lemma above_in_closed:
  assumes ok: "parents_ok se" and cl: "up_closed (se_hierarchy_parents se) P"
  shows "unat n < node_count se \<Longrightarrow> c \<in> set (cells_below se n) \<Longrightarrow> se_leaf_parents se ! unat c \<in> P \<Longrightarrow> n \<in> P"
proof (induction "node_count se - unat n" arbitrary: n rule: less_induct)
  case less
  have h: "hierarchy_ok se" and links: "\<And>n x. unat n < node_count se \<Longrightarrow> x \<in> set (node_children se n) \<Longrightarrow>
      table_of (is_leaf se n) (se_hierarchy_parents se, se_leaf_parents se) ! unat x = n"
    and bound: "node_count se \<le> 4294967295"
    using ok by (auto simp: parents_ok_def tree_ok_def linked_def)
  show ?case
  proof (cases "is_leaf se n")
    case True
    then have "c \<in> set (node_children se n)" using less.prems cells_below_rec [OF h less.prems(1)] by simp
    from links [OF less.prems(1) this] True less.prems(3) show ?thesis by (simp add: table_of_def)
  next
    case False
    then obtain m where m: "m \<in> set (node_children se n)" "c \<in> set (cells_below se m)"
      using less.prems(2) cells_below_rec [OF h less.prems(1)] by auto
    have lt: "unat n < unat m" "unat m < node_count se" using h less.prems(1) False m(1) by (auto simp: hierarchy_ok_def)
    then have "m \<in> P" using less.hyps [of m] m(2) less.prems(3) by (simp add: diff_less_mono2)
    moreover have "se_hierarchy_parents se ! unat m = n" using links [OF less.prems(1) m(1)] False by (simp add: table_of_def)
    moreover have "n \<noteq> k_none" using less.prems(1) bound by (auto simp: k_none_def)
    ultimately show ?thesis using cl by (auto simp: up_closed_def)
  qed
qed

lemma parents_down:
  assumes "parents_ok se"
  shows "\<forall>j < node_count se. se_hierarchy_parents se ! j = k_none \<or> unat (se_hierarchy_parents se ! j) < j"
proof (intro allI impI)
  fix j assume j: "j < node_count se"
  have bound: "node_count se \<le> 4294967295" and h: "hierarchy_ok se" using assms by (simp_all add: parents_ok_def tree_ok_def)
  have "\<forall>j < length (se_hierarchy_parents se). se_hierarchy_parents se ! j = k_none \<or> (\<exists>n. unat n < node_count se
      \<and> \<not> is_leaf se n \<and> se_hierarchy_parents se ! j = n \<and> of_nat j \<in> set (node_children se n))"
    and "length (se_hierarchy_parents se) = node_count se"
    using assms by (auto simp: parents_ok_def linked_def table_of_def dest!: spec [of _ False])
  with j consider "se_hierarchy_parents se ! j = k_none" | n where "unat n < node_count se" "\<not> is_leaf se n"
      "se_hierarchy_parents se ! j = n" "of_nat j \<in> set (node_children se n)" by auto
  then show "se_hierarchy_parents se ! j = k_none \<or> unat (se_hierarchy_parents se ! j) < j"
  proof cases
    case (2 n)
    then have "unat n < unat (of_nat j :: u32)" using h by (auto simp: hierarchy_ok_def)
    then show ?thesis using 2(3) j bound by (simp add: unat_of_nat take_bit_nat_eq_self)
  qed simp
qed

lemma leaf_parents_down:
  assumes "parents_ok se"
  shows "length (se_leaf_parents se) = length (se_cells se)"
    "\<forall>j < length (se_leaf_parents se). se_leaf_parents se ! j = k_none \<or> unat (se_leaf_parents se ! j) < node_count se"
  using assms by (auto simp: parents_ok_def linked_def table_of_def dest!: spec [of _ True])

lemma leaf_of_cell:
  assumes ok: "parents_ok se"
  shows "unat n < node_count se \<Longrightarrow> c \<in> set (cells_below se n) \<Longrightarrow>
    unat c < length (se_cells se) \<and> unat (se_leaf_parents se ! unat c) < node_count se"
proof (induction "node_count se - unat n" arbitrary: n rule: less_induct)
  case less
  have h: "hierarchy_ok se" and links: "\<And>x. x \<in> set (node_children se n) \<Longrightarrow>
      table_of (is_leaf se n) (se_hierarchy_parents se, se_leaf_parents se) ! unat x = n"
    and cells: "is_leaf se n \<Longrightarrow> \<forall>c\<in>set (node_children se n). unat c < length (se_cells se)"
    using ok less.prems(1) by (auto simp: parents_ok_def tree_ok_def linked_def)
  show ?case
  proof (cases "is_leaf se n")
    case True
    then have c: "c \<in> set (node_children se n)" using less.prems cells_below_rec [OF h less.prems(1)] by simp
    with links [OF this] True cells less.prems(1) show ?thesis by (simp add: table_of_def)
  next
    case False
    then obtain m where m: "m \<in> set (node_children se n)" "c \<in> set (cells_below se m)"
      using less.prems(2) cells_below_rec [OF h less.prems(1)] by auto
    have lt: "unat n < unat m" "unat m < node_count se" using h less.prems(1) False m(1) by (auto simp: hierarchy_ok_def)
    then show ?thesis using less.hyps [of m] m(2) by (simp add: diff_less_mono2)
  qed
qed

subsection \<open>Exact routing with hints\<close>

lemma rank_of_Some: "rank_of c hints = Some r \<Longrightarrow> c \<in> snd ` set hints"
  by (induction hints arbitrary: r) (auto split: if_splits)

lemma order_hints_closed:
  assumes ok: "parents_ok se" and new: "qs_hint_path st = []" and guided: "sk_cell_hierarchy_graph_guided_routing (se_config se) \<or> qs_guided st = []"
  shows "\<exists>hints path. order_hints se budget st = Some (st\<lparr>qs_guided := hints, qs_hint_path := path\<rparr>)
    \<and> up_closed (se_hierarchy_parents se) (set path)
    \<and> (\<forall>h\<in>set (take budget hints). unat (snd h) < length (se_leaf_parents se) \<longrightarrow> se_leaf_parents se ! unat (snd h) \<noteq> k_none \<longrightarrow>
         se_leaf_parents se ! unat (snd h) \<in> set path)"
proof (cases "sk_cell_hierarchy_graph_guided_routing (se_config se)")
  case True
  have "up_closed (se_hierarchy_parents se) (set [])" by (simp add: up_closed_def)
  from hint_path_closed [OF parents_down [OF ok] leaf_parents_down(2) [OF ok] this, of "take budget (sort_key (hint_key st) (qs_guided st))"]
  obtain path where path: "hint_path se (take budget (sort_key (hint_key st) (qs_guided st))) [] = Some path"
    "up_closed (se_hierarchy_parents se) (set path)"
    "\<forall>h\<in>set (take budget (sort_key (hint_key st) (qs_guided st))). unat (snd h) < length (se_leaf_parents se) \<longrightarrow>
       se_leaf_parents se ! unat (snd h) \<noteq> k_none \<longrightarrow> se_leaf_parents se ! unat (snd h) \<in> set path" by blast
  have "order_hints se budget st = Some (st\<lparr>qs_guided := sort_key (hint_key st) (qs_guided st), qs_hint_path := remdups_adj (sort path)\<rparr>)"
    using True path(1) by (simp add: order_hints_def Let_def new)
  moreover have "set (remdups_adj (sort path)) = set path" by simp
  ultimately show ?thesis using path(2,3)
    by (intro exI [of _ "sort_key (hint_key st) (qs_guided st)"] exI [of _ "remdups_adj (sort path)"]) simp
next
  case False
  then have "order_hints se budget st = Some (st\<lparr>qs_guided := [], qs_hint_path := []\<rparr>)"
    using guided new by (simp add: order_hints_def)
  then show ?thesis by (intro exI [of _ "[]"]) (simp add: up_closed_def)
qed

lemma admit_routed_routed: "qs_routed (admit_routed se rc st) = qs_routed st @ [snd rc]"
proof -
  have touch: "qs_routed (touch_cell c st) = qs_routed st" "qs_routed (touch_block b st) = qs_routed st" for b c st
    by (simp_all add: touch_cell_def touch_block_def)
  have block: "qs_routed (route_block k t d b st) = qs_routed st" for k t d b st
    by (simp add: route_block_def Let_def touch)
  then have "qs_routed (fold (route_block k t d) bs st) = qs_routed st" for k t d bs st
    by (induction bs arbitrary: st) simp_all
  then show ?thesis by (simp add: admit_routed_def push_routed_def route_cell_def Let_def touch)
qed

lemma fold_admit_routed: "qs_routed (fold (admit_routed se) rcs st) = qs_routed st @ map snd rcs"
  by (induction rcs arbitrary: st) (simp_all add: admit_routed_routed)

lemma router_conservative:
  assumes ok: "parents_ok se" and cl: "up_closed (se_hierarchy_parents se) (set (qs_hint_path st))"
    and hints: "\<forall>h\<in>set (take (unat (routed_cell_budget se st)) (qs_guided st)). unat (snd h) < length (se_leaf_parents se) \<longrightarrow>
         se_leaf_parents se ! unat (snd h) \<noteq> k_none \<longrightarrow> se_leaf_parents se ! unat (snd h) \<in> set (qs_hint_path st)"
    and bounds: "\<forall>n. unat n < node_count se \<longrightarrow> (\<forall>c\<in>set (cells_below se n). geometric_score qm se n \<le> qm_cell qm c)"
  shows "conservative se (hierarchy_router qm se st)"
  unfolding conservative_def
proof (intro allI impI ballI)
  fix n c assume n: "unat n < node_count se" and c: "c \<in> set (cells_below se n)"
  let ?hints = "take (unat (routed_cell_budget se st)) (qs_guided st)"
  show "rt_node_score (hierarchy_router qm se st) n \<le> rt_cell_score (hierarchy_router qm se st) c"
  proof (cases "rank_of c ?hints")
    case None
    then show ?thesis using bounds n c by (simp add: hierarchy_router_def Let_def hinted_cell_score_def is_finite_def)
  next
    case (Some r)
    from rank_of_Some [OF this] obtain h where h: "h \<in> set ?hints" "c = snd h" by blast
    have lc: "unat c < length (se_leaf_parents se)" "unat (se_leaf_parents se ! unat c) < node_count se"
      using leaf_of_cell [OF ok n c] leaf_parents_down(1) [OF ok] by simp_all
    have "node_count se \<le> 4294967295" using ok by (simp add: parents_ok_def tree_ok_def)
    then have "se_leaf_parents se ! unat c \<noteq> k_none" using lc(2) by (auto simp: k_none_def)
    then have "se_leaf_parents se ! unat c \<in> set (qs_hint_path st)" using hints h lc(1) by blast
    from above_in_closed [OF ok cl n c this] show ?thesis by (simp add: hierarchy_router_def Let_def)
  qed
qed


subsection \<open>A small forest\<close>

text \<open>A root over two leaves of two Cells each; the leaf of the far Cells is never opened.\<close>

definition small_forest :: skip_search_t where
  "small_forest = link_hierarchy \<lparr>
     se_config = default_skip_config\<lparr>sk_cell_routing_cell_budget := 1, sk_cell_hierarchy_probe_budget := 1\<rparr>,
     se_dimension = 1, se_point_count = 4, se_entry_point_id = 0, se_pq_code_width = 1,
     se_node_to_community = [0, 0, 0, 0], se_node_to_cell = [0, 1, 2, 3], se_node_to_packet_record = [0, 1, 2, 3],
     se_communities = [\<lparr>cm_navigation_hub_id = 0, cm_radius = 10, cm_graph_only = False, cm_cell_begin = 0, cm_cell_count = 4\<rparr>],
     se_community_edge_offsets = [0, 0], se_community_edges = [], se_gateways = [],
     se_cells = map (\<lambda>i. \<lparr>cl_node_count = 1, cl_block_begin = i, cl_block_count = 1, cl_community_id = 0\<rparr>) [0, 1, 2, 3],
     se_blocks = map (\<lambda>i. \<lparr>bk_node_count = 1, bk_packet_record_begin = i, bk_cell_id = w32 i\<rparr>) [0, 1, 2, 3],
     se_packet_payload = [0, 0, 0, 0, 7, 1, 0, 0, 0, 7, 2, 0, 0, 0, 7, 3, 0, 0, 0, 7], se_node_to_block = [0, 1, 2, 3], se_packet_node_ids = [0, 1, 2, 3],
     se_route_bucket_count = 0, se_route_cells_per_bucket = 0, se_route_cells = [],
     se_hierarchy_nodes = [\<lparr>hn_child_begin = 0, hn_child_count = 2, hn_radius = 10, hn_children_are_cells = False\<rparr>,
        \<lparr>hn_child_begin = 2, hn_child_count = 2, hn_radius = 1, hn_children_are_cells = True\<rparr>,
        \<lparr>hn_child_begin = 4, hn_child_count = 2, hn_radius = 1, hn_children_are_cells = True\<rparr>],
     se_hierarchy_children = [1, 2, 0, 1, 2, 3], se_hierarchy_roots = [0], se_root_communities = [], se_hierarchy_parents = [],
     se_leaf_parents = []\<rparr>"

definition small_metric :: query_metric_t where
  "small_metric = \<lparr>qm_dimension = 1, qm_pole = (\<lambda>c. 0), qm_cell = (\<lambda>c. if c = 0 then 4 else if c = 1 then 1 else 81),
     qm_node = (\<lambda>n. if n = 1 then 1 else if n = 2 then 81 else 25), qm_bucket = (\<lambda>b. 0), qm_block_bound = (\<lambda>r b. 0),
     qm_root = (\<lambda>x. if x = 81 then 9 else if x = 25 then 5 else x), qm_round = (\<lambda>x. x)\<rparr>"

lemma small_ids: "unat (n :: u32) < 3 \<Longrightarrow> n = 0 \<or> n = 1 \<or> n = 2"
  by unat_arith

lemma small_nodes:
  "node_count small_forest = 3" "is_leaf small_forest 0 = False" "is_leaf small_forest 1" "is_leaf small_forest 2"
  "node_children small_forest 0 = [1, 2]" "node_children small_forest 1 = [0, 1]" "node_children small_forest 2 = [2, 3]"
  "length (se_cells small_forest) = 4"
  by (simp_all add: small_forest_def link_hierarchy_def Let_def node_children_def upt_rec)

lemma small_leaves:
  "\<not> hn_children_are_cells (se_hierarchy_nodes small_forest ! 0)" "hn_children_are_cells (se_hierarchy_nodes small_forest ! Suc 0)"
  "hn_children_are_cells (se_hierarchy_nodes small_forest ! 2)"
  by (simp_all add: small_forest_def link_hierarchy_def Let_def)

lemma small_parents: "parents_ok small_forest"
proof -
  have all: "(\<forall>n :: u32. unat n < 3 \<longrightarrow> P n) \<longleftrightarrow> P 0 \<and> P 1 \<and> P 2" for P using small_ids by fastforce
  have "tree_ok small_forest"
    unfolding tree_ok_def hierarchy_ok_def small_nodes(1) by (simp add: all small_nodes small_leaves)
  moreover have "small_forest = link_hierarchy small_forest" by (simp add: small_forest_def link_hierarchy_def Let_def link_node_def node_ids_def node_children_def)
  ultimately show ?thesis using link_hierarchy_parents [of small_forest] by simp
qed


end
