(* ===== verification/Spec2Isabelle.thy ===== *)
theory Spec2Isabelle
  imports Prelude Bytes Allocator Disk_Manager Chunk_Pool LRU_Pool LRU_Invariant
    LRU_Clients IO_Format IO_Pfor IO_Load IO_Index IO_Guarantees
    IO_Write IO_Cells IO_Assign IO_Assign_Correct IO_Assign_Load Community_Index
    IO_Cell_Adj IO_Cell_Adj_Correct IO_Cell_Rank IO_Sidecar
    IO_Sidecar_Correct IO_Rebind IO_Placement IO_Placement_Correct
    IO_Base_Records IO_Hints IO_Build IO_Base_Correct
    IO_Placement_Pages IO_Hints_Correct IO_Build_Correct
    IO_Paged IO_Paged_Correct Adaptive_Snapshot Adaptive_Cells
    Adaptive_Physical Adaptive_Lookup Adaptive_Steps Adaptive_Mapping
    Adaptive_Data Adaptive_Correct Natural_Numbers Neighbor_Queue
    Vamana_Graph Vamana_Search Vamana_Prune Vamana_Prune_Correct Vamana_Link
    Vamana_Link_Correct Vamana_Dynamic Vamana_Slots Vamana_Dynamic_Correct
    Vamana_Updates Vamana_Runs Skip_Config Skip_State
    Skip_Hierarchy Skip_Routing Skip_Hints
begin

text \<open>Verification library of SkipCell.\<close>

end
